(* ===== verification/Prelude.thy ===== *)
theory Prelude
  imports Main "HOL-Library.AList" "HOL-Library.Char_ord" "HOL-Library.List_Lexorder"
    "HOL-Library.Product_Lexorder"
begin

text \<open>
  Shared vocabulary of the development: Python exceptions as values, the two monads the
  components use (a result monad and a result monad that threads a state), Python strings,
  integers, dictionaries and JSON values, and the generic lemmas about them.

  A Python \<open>str\<close> is represented by the list of the bytes of its UTF-8 encoding, so that
  HOL's string literals can be used as they are. Searching, splitting and comparing with ASCII
  text mean the same on both representations, and the order of code points is the byte order.
  \<open>len(s)\<close> counts code points: \<open>py_len\<close>.
\<close>

section \<open>Collections of lemmas\<close>

named_theorems res_simps \<open>evaluation and inversion of computations in the result monad\<close>
named_theorems const_defs \<open>definitions of the string constants of the source\<close>

section \<open>Exceptions and the result monad\<close>

text \<open>
  One constructor per exception class that the modelled code raises or that the Python
  operations it uses raise. \<open>AuthError\<close>, \<open>UnstableSpecAuthError\<close> and \<open>EventSizeError\<close> are
  the subclasses of \<open>SynapseError\<close> of \<open>api/errors.py\<close>; the string is the (unformatted)
  message, which tells the raising statement apart.
\<close>

datatype exn =
    SynapseError int string
  | AuthError int string
  | UnstableSpecAuthError int string string
  | EventSizeError string bool
  | ValueError
  | TypeError
  | KeyError
  | IndexError
  | AttributeError
  | OverflowError
  | AssertionError
  | RuntimeError
  | SignatureVerifyException
  | PyException string

text \<open>\<open>except AuthError\<close>: the class and its subclass.\<close>

fun is_AuthError :: "exn \<Rightarrow> bool" where
  "is_AuthError (AuthError _ _) = True"
| "is_AuthError (UnstableSpecAuthError _ _ _) = True"
| "is_AuthError _ = False"

type_synonym 'a res = "exn + 'a"

definition bindE :: "'a res \<Rightarrow> ('a \<Rightarrow> 'b res) \<Rightarrow> 'b res" where
  "bindE m f = (case m of Inl e \<Rightarrow> Inl e | Inr x \<Rightarrow> f x)"

definition guardE :: "bool \<Rightarrow> exn \<Rightarrow> unit res" where
  "guardE b e = (if b then Inr () else Inl e)"

definition optE :: "exn \<Rightarrow> 'a option \<Rightarrow> 'a res" where
  "optE e x = (case x of None \<Rightarrow> Inl e | Some v \<Rightarrow> Inr v)"

text \<open>A \<open>for\<close> loop that threads a value and may raise.\<close>

fun foldE :: "('a \<Rightarrow> 's \<Rightarrow> 's res) \<Rightarrow> 'a list \<Rightarrow> 's \<Rightarrow> 's res" where
  "foldE f [] s = Inr s"
| "foldE f (x # xs) s = bindE (f x s) (foldE f xs)"

text \<open>A \<open>for\<close> loop whose body only checks.\<close>

fun checkE :: "('a \<Rightarrow> unit res) \<Rightarrow> 'a list \<Rightarrow> unit res" where
  "checkE f [] = Inr ()"
| "checkE f (x # xs) = bindE (f x) (\<lambda>_. checkE f xs)"

lemma bindE_Inl [simp, res_simps]: "bindE (Inl e) f = Inl e"
  by (simp add: bindE_def)

lemma bindE_Inr [simp, res_simps]: "bindE (Inr x) f = f x"
  by (simp add: bindE_def)

lemma bindE_eq_Inr [simp, res_simps]: "bindE m f = Inr y \<longleftrightarrow> (\<exists>x. m = Inr x \<and> f x = Inr y)"
  by (cases m) auto

lemma Inr_eq_bindE [simp, res_simps]: "Inr y = bindE m f \<longleftrightarrow> (\<exists>x. m = Inr x \<and> f x = Inr y)"
  by (cases m) auto

lemma bindE_eq_Inl [res_simps]:
  "bindE m f = Inl e \<longleftrightarrow> m = Inl e \<or> (\<exists>x. m = Inr x \<and> f x = Inl e)"
  by (cases m) auto

lemma bindE_assoc: "bindE (bindE m f) g = bindE m (\<lambda>x. bindE (f x) g)"
  by (cases m) auto

lemma bindE_cong [fundef_cong]:
  "m = m' \<Longrightarrow> (\<And>x. m' = Inr x \<Longrightarrow> f x = f' x) \<Longrightarrow> bindE m f = bindE m' f'"
  by (cases m') auto

lemma guardE_True [simp, res_simps]: "guardE True e = Inr ()"
  by (simp add: guardE_def)

lemma guardE_False [simp, res_simps]: "guardE False e = Inl e"
  by (simp add: guardE_def)

lemma guardE_eq_Inr [simp, res_simps]: "guardE b e = Inr u \<longleftrightarrow> b"
  by (simp add: guardE_def)

lemma guardE_eq_Inl [res_simps]: "guardE b e = Inl e' \<longleftrightarrow> \<not> b \<and> e' = e"
  by (auto simp: guardE_def)

lemma optE_None [simp, res_simps]: "optE e None = Inl e"
  by (simp add: optE_def)

lemma optE_Some [simp, res_simps]: "optE e (Some v) = Inr v"
  by (simp add: optE_def)

lemma optE_eq_Inr [simp, res_simps]: "optE e x = Inr v \<longleftrightarrow> x = Some v"
  by (cases x) auto

lemma optE_eq_Inl [res_simps]: "optE e x = Inl e' \<longleftrightarrow> x = None \<and> e' = e"
  by (cases x) auto

lemma checkE_eq_Inr [simp, res_simps]: "checkE f xs = Inr u \<longleftrightarrow> (\<forall>x\<in>set xs. f x = Inr ())"
  by (induction xs) auto

lemma checkE_InlD: "checkE f xs = Inl e \<Longrightarrow> \<exists>x\<in>set xs. f x = Inl e"
  by (induction xs) (auto simp: bindE_eq_Inl)

lemma checkE_cong [fundef_cong]:
  "xs = ys \<Longrightarrow> (\<And>x. x \<in> set ys \<Longrightarrow> f x = g x) \<Longrightarrow> checkE f xs = checkE g ys"
  by (induction ys arbitrary: xs) auto

lemma foldE_append: "foldE f (xs @ ys) s = bindE (foldE f xs s) (foldE f ys)"
  by (induction xs arbitrary: s) (auto simp: bindE_def split: sum.split)

text \<open>An invariant of the body is an invariant of the loop.\<close>

lemma foldE_invariant:
  assumes "foldE f xs s = Inr s'" and "P s"
    and "\<And>x t t'. x \<in> set xs \<Longrightarrow> P t \<Longrightarrow> f x t = Inr t' \<Longrightarrow> P t'"
  shows "P s'"
  using assms
proof (induction xs arbitrary: s)
  case Nil
  then show ?case by simp
next
  case (Cons x xs)
  from Cons.prems(1) obtain t where t: "f x s = Inr t" and rest: "foldE f xs t = Inr s'"
    by auto
  have "P t" by (rule Cons.prems(3) [OF _ Cons.prems(2) t]) simp
  with rest Cons.prems(3) show ?case by (auto intro: Cons.IH)
qed

section \<open>Computations with a state\<close>

text \<open>
  A function of the source that mutates an argument and may raise: it takes the state and
  returns the result with the new state. After an exception the state is not used any more.
\<close>

type_synonym ('s, 'a) comp = "'s \<Rightarrow> ('a \<times> 's) res"

definition returnS :: "'a \<Rightarrow> ('s, 'a) comp" where
  "returnS x s = Inr (x, s)"

definition bindS :: "('s, 'a) comp \<Rightarrow> ('a \<Rightarrow> ('s, 'b) comp) \<Rightarrow> ('s, 'b) comp" where
  "bindS m f s = bindE (m s) (\<lambda>(x, s'). f x s')"

definition liftS :: "'a res \<Rightarrow> ('s, 'a) comp" where
  "liftS m s = bindE m (\<lambda>x. Inr (x, s))"

fun foldS :: "('a \<Rightarrow> 'b \<Rightarrow> ('s, 'b) comp) \<Rightarrow> 'a list \<Rightarrow> 'b \<Rightarrow> ('s, 'b) comp" where
  "foldS f [] b = returnS b"
| "foldS f (x # xs) b = bindS (f x b) (foldS f xs)"

lemma returnS_eq_Inr [simp]: "returnS x s = Inr r \<longleftrightarrow> r = (x, s)"
  by (auto simp: returnS_def)

lemma bindS_eq_Inr [simp]:
  "bindS m f s = Inr r \<longleftrightarrow> (\<exists>x s'. m s = Inr (x, s') \<and> f x s' = Inr r)"
  by (auto simp: bindS_def)

lemma liftS_eq_Inr [simp]: "liftS m s = Inr r \<longleftrightarrow> (\<exists>x. m = Inr x \<and> r = (x, s))"
  by (auto simp: liftS_def)

section \<open>Characters and strings\<close>

definition byte :: "char \<Rightarrow> nat" where
  "byte c = of_char c"

text \<open>A code point is its lead byte and the continuation bytes after it.\<close>

definition is_cont :: "char \<Rightarrow> bool" where
  "is_cont c \<longleftrightarrow> 128 \<le> byte c \<and> byte c < 192"

function py_chars :: "string \<Rightarrow> string list" where
  "py_chars [] = []"
| "py_chars (c # cs) = (c # takeWhile is_cont cs) # py_chars (dropWhile is_cont cs)"
  by pat_completeness auto
termination
  by (relation "measure length") (auto simp: le_imp_less_Suc length_dropWhile_le)

text \<open>\<open>len(s)\<close> and \<open>len(s.encode("utf-8"))\<close>.\<close>

definition py_len :: "string \<Rightarrow> nat" where
  "py_len s = length (py_chars s)"

definition utf8_len :: "string \<Rightarrow> nat" where
  "utf8_len s = length s"

lemma py_chars_length: "length (py_chars s) \<le> length s"
  by (induction s rule: py_chars.induct)
    (auto intro: order.trans [OF _ length_dropWhile_le])

lemma py_len_le_utf8_len: "py_len s \<le> utf8_len s"
  by (simp add: py_len_def utf8_len_def py_chars_length)

lemma concat_py_chars [simp]: "concat (py_chars s) = s"
  by (induction s rule: py_chars.induct) simp_all

text \<open>The white space of \<open>str.strip()\<close>, by its UTF-8 encoding.\<close>

definition is_space :: "string \<Rightarrow> bool" where
  "is_space ch = (case map byte ch of
      [b] \<Rightarrow> (9 \<le> b \<and> b \<le> 13) \<or> (28 \<le> b \<and> b \<le> 32)
    | [b, c] \<Rightarrow> b = 194 \<and> (c = 133 \<or> c = 160)
    | [b, c, d] \<Rightarrow>
        (b = 225 \<and> c = 154 \<and> d = 128)
        \<or> (b = 226 \<and> c = 128 \<and> ((128 \<le> d \<and> d \<le> 138) \<or> d = 168 \<or> d = 169 \<or> d = 175))
        \<or> (b = 226 \<and> c = 129 \<and> d = 159)
        \<or> (b = 227 \<and> c = 128 \<and> d = 128)
    | _ \<Rightarrow> False)"

definition py_strip :: "string \<Rightarrow> string" where
  "py_strip s =
     concat (rev (dropWhile is_space (rev (dropWhile is_space (py_chars s)))))"

text \<open>
  \<open>str.lower()\<close>, exact for every code point whose lower-case form holds an ASCII character:
  the ASCII capitals, the Kelvin sign (bytes E2 84 AA) and the capital I with dot above
  (bytes C4 B0). Other code points are left alone: the callers compare with ASCII text only,
  and neither these code points nor their lower-case forms match any of it.
\<close>

definition lower_char :: "string \<Rightarrow> string" where
  "lower_char ch = (case map byte ch of
      [b] \<Rightarrow> (if 65 \<le> b \<and> b \<le> 90 then [char_of (b + 32)] else ch)
    | [b, c] \<Rightarrow> (if b = 196 \<and> c = 176 then [CHR ''i'', char_of (204::nat), char_of (135::nat)] else ch)
    | [b, c, d] \<Rightarrow> (if b = 226 \<and> c = 132 \<and> d = 170 then ''k'' else ch)
    | _ \<Rightarrow> ch)"

definition py_lower :: "string \<Rightarrow> string" where
  "py_lower s = concat (map lower_char (py_chars s))"

fun py_startswith :: "string \<Rightarrow> string \<Rightarrow> bool" where
  "py_startswith s [] = True"
| "py_startswith [] (p # ps) = False"
| "py_startswith (c # cs) (p # ps) = (c = p \<and> py_startswith cs ps)"

lemma py_startswith_iff: "py_startswith s p \<longleftrightarrow> (\<exists>r. s = p @ r)"
  by (induction s p rule: py_startswith.induct) auto

text \<open>
  \<open>s.split(sep, 1)\<close> for a one-character separator: the part before the first separator, and the
  part after it if there is one. \<open>s.split(sep)\<close>: all parts.
\<close>

fun split_first :: "char \<Rightarrow> string \<Rightarrow> string \<times> string option" where
  "split_first sep [] = ([], None)"
| "split_first sep (c # cs) =
     (if c = sep then ([], Some cs)
      else (let (a, b) = split_first sep cs in (c # a, b)))"

fun split_all :: "char \<Rightarrow> string \<Rightarrow> string list" where
  "split_all sep [] = [[]]"
| "split_all sep (c # cs) =
     (if c = sep then [] # split_all sep cs
      else (case split_all sep cs of [] \<Rightarrow> [[c]] | p # ps \<Rightarrow> (c # p) # ps))"

text \<open>\<open>sep.join(parts)\<close>.\<close>

fun py_join :: "string \<Rightarrow> string list \<Rightarrow> string" where
  "py_join sep [] = []"
| "py_join sep [p] = p"
| "py_join sep (p # q # ps) = p @ sep @ py_join sep (q # ps)"

lemma split_first_no_sep: "sep \<notin> set s \<Longrightarrow> split_first sep s = (s, None)"
  by (induction s) auto

lemma split_first_append [simp]:
  "sep \<notin> set a \<Longrightarrow> split_first sep (a @ sep # b) = (a, Some b)"
  by (induction a) auto

lemma split_first_cases:
  obtains (absent) "sep \<notin> set s" "split_first sep s = (s, None)"
  | (present) a b where "s = a @ sep # b" "sep \<notin> set a" "split_first sep s = (a, Some b)"
proof (cases "sep \<in> set s")
  case True
  then obtain x y where "s = x @ sep # y" and "sep \<notin> set x" by (meson split_list_first)
  then show ?thesis using present split_first_append by metis
qed (auto simp: split_first_no_sep intro: absent)

lemma append_sep_eq:
  fixes sep :: char
  shows "sep \<notin> set a \<Longrightarrow> sep \<notin> set a' \<Longrightarrow> a @ sep # b = a' @ sep # b' \<longleftrightarrow> a = a' \<and> b = b'"
proof -
  assume a: "sep \<notin> set a" "sep \<notin> set a'"
  have "a = a' \<and> b = b'" if "a @ sep # b = a' @ sep # b'"
    using arg_cong [OF that, of "split_first sep"] a by simp
  then show ?thesis by auto
qed

lemma split_first_None: "split_first sep s = (a, None) \<longleftrightarrow> sep \<notin> set s \<and> a = s"
proof (cases "sep \<in> set s")
  case True
  then obtain x y where "s = x @ sep # y" and "sep \<notin> set x" by (meson split_list_first)
  with True show ?thesis by simp
qed (auto simp: split_first_no_sep)

lemma split_first_Some:
  "split_first sep s = (a, Some b) \<longleftrightarrow> s = a @ sep # b \<and> sep \<notin> set a"
proof (cases "sep \<in> set s")
  case True
  then obtain x y where "s = x @ sep # y" and "sep \<notin> set x" by (meson split_list_first)
  then show ?thesis by (metis split_first_append prod.inject option.inject)
qed (auto simp: split_first_no_sep)

lemma split_all_not_Nil [simp]: "split_all sep s \<noteq> []"
  by (cases s) (auto split: list.splits)

lemma split_all_no_sep: "sep \<notin> set s \<Longrightarrow> split_all sep s = [s]"
  by (induction s) auto

lemma split_all_append:
  "sep \<notin> set a \<Longrightarrow> split_all sep (a @ sep # b) = a # split_all sep b"
  by (induction a) auto

lemma set_split_all:
  assumes "c \<in> set s"
  shows "c = sep \<or> (\<exists>p\<in>set (split_all sep s). c \<in> set p)"
  using assms
proof (induction s)
  case (Cons x s)
  then show ?case by (cases "split_all sep s") auto
qed simp

lemma split_all_join:
  "ps \<noteq> [] \<Longrightarrow> \<forall>p\<in>set ps. sep \<notin> set p \<Longrightarrow> split_all sep (py_join [sep] ps) = ps"
  by (induction "[sep]" ps rule: py_join.induct) (auto simp: split_all_no_sep split_all_append)

section \<open>Dictionaries\<close>

text \<open>
  A Python \<open>dict\<close> is the list of its items in insertion order. \<open>AList.update\<close> is item
  assignment: an existing key keeps its place, a new one goes to the end.
\<close>

type_synonym ('k, 'v) pydict = "('k \<times> 'v) list"

abbreviation dget :: "('k, 'v) pydict \<Rightarrow> 'k \<Rightarrow> 'v option" where
  "dget \<equiv> map_of"

definition dkeys :: "('k, 'v) pydict \<Rightarrow> 'k list" where
  "dkeys d = map fst d"

definition dvalues :: "('k, 'v) pydict \<Rightarrow> 'v list" where
  "dvalues d = map snd d"

definition dset :: "'k \<Rightarrow> 'v \<Rightarrow> ('k, 'v) pydict \<Rightarrow> ('k, 'v) pydict" where
  "dset k v d = AList.update k v d"

text \<open>\<open>d.update(other)\<close>\<close>

definition dupdate :: "('k, 'v) pydict \<Rightarrow> ('k, 'v) pydict \<Rightarrow> ('k, 'v) pydict" where
  "dupdate d other = fold (\<lambda>(k, v). dset k v) other d"

definition dict_ok :: "('k, 'v) pydict \<Rightarrow> bool" where
  "dict_ok d \<longleftrightarrow> distinct (map fst d)"

lemma dget_dset [simp]: "dget (dset k v d) = (dget d)(k \<mapsto> v)"
  by (simp add: dset_def update_conv')

lemma dset_new: "k \<notin> fst ` set d \<Longrightarrow> dset k v d = d @ [(k, v)]"
  unfolding dset_def by (induction d) auto

lemma dict_ok_Nil [simp]: "dict_ok []"
  by (simp add: dict_ok_def)

lemma dict_ok_dset [simp]: "dict_ok d \<Longrightarrow> dict_ok (dset k v d)"
  by (simp add: dict_ok_def dset_def distinct_update)

lemma dget_dupdate:
  "dget (dupdate d other) k = (case dget (rev other) k of None \<Rightarrow> dget d k | Some v \<Rightarrow> Some v)"
  unfolding dupdate_def
  by (induction other arbitrary: d) (auto simp: map_add_def split: option.splits)

lemma dget_rev: "dict_ok d \<Longrightarrow> dget (rev d) = dget d"
  unfolding dict_ok_def by (subst map_of_inject_set) (simp_all flip: rev_map)

lemma dget_dupdate_ok:
  "dict_ok other \<Longrightarrow> dget (dupdate d other) = dget d ++ dget other"
  by (auto simp: dget_dupdate dget_rev map_add_def split: option.splits)

lemma dict_ok_dupdate [simp]: "dict_ok d \<Longrightarrow> dict_ok (dupdate d other)"
  unfolding dupdate_def by (induction other arbitrary: d) auto

lemma dget_in_values: "dget d k = Some v \<Longrightarrow> v \<in> set (dvalues d)"
  by (force simp: dvalues_def dest: map_of_SomeD)

lemma dget_iff_mem: "dict_ok d \<Longrightarrow> dget d k = Some v \<longleftrightarrow> (k, v) \<in> set d"
  by (simp add: dict_ok_def)

lemma dget_None_iff: "dget d k = None \<longleftrightarrow> k \<notin> set (dkeys d)"
  by (simp add: dkeys_def map_of_eq_None_iff)

lemma dict_ok_filter: "dict_ok d \<Longrightarrow> dict_ok (filter P d)"
  by (auto simp: dict_ok_def distinct_map_filter)

lemma dget_filter_value:
  "dict_ok d \<Longrightarrow> dget (filter (\<lambda>(k, v). P v) d) t = (case dget d t of
      Some v \<Rightarrow> if P v then Some v else None | None \<Rightarrow> None)"
  unfolding dict_ok_def by (induction d) (auto simp: map_of_eq_None_iff split: option.splits)

lemma dget_map_value: "dget (map (\<lambda>(k, v). (k, g v)) d) t = map_option g (dget d t)"
  by (induction d) auto

lemma dget_filter_key:
  "dget (filter (\<lambda>(k, v). P k) d) t = (if P t then dget d t else None)"
  by (induction d) auto

text \<open>Copying a dictionary item by item.\<close>

lemma fold_dset_map:
  assumes "dict_ok d" and "fst ` set d \<inter> fst ` set d0 = {}"
  shows "fold (\<lambda>(k, v). dset k (g v)) d d0 = d0 @ map (\<lambda>(k, v). (k, g v)) d"
  using assms
proof (induction d arbitrary: d0)
  case (Cons kv d)
  obtain k v where kv: "kv = (k, v)" by (cases kv)
  from Cons.prems kv have "dset k (g v) d0 = d0 @ [(k, g v)]" by (intro dset_new) auto
  with Cons kv show ?case by (auto simp: dict_ok_def)
qed simp

lemma fold_dset_self: "dict_ok d \<Longrightarrow> fold (\<lambda>(k, v). dset k v) d [] = d"
  using fold_dset_map [of d "[]" "\<lambda>v. v"] by simp

section \<open>Sets\<close>

text \<open>A Python \<open>set\<close> is a list without duplicates; \<open>set_add\<close> is its method \<open>add\<close>.\<close>

definition set_add :: "'a \<Rightarrow> 'a list \<Rightarrow> 'a list" where
  "set_add x xs = (if x \<in> set xs then xs else xs @ [x])"

lemma distinct_set_add [simp]: "distinct xs \<Longrightarrow> distinct (set_add x xs)"
  by (simp add: set_add_def)

lemma set_set_add [simp]: "set (set_add x xs) = insert x (set xs)"
  by (auto simp: set_add_def)

definition set_union :: "'a list \<Rightarrow> 'a list \<Rightarrow> 'a list" where
  "set_union xs ys = fold set_add ys xs"

lemma set_set_union: "set (set_union xs ys) = set xs \<union> set ys"
  unfolding set_union_def by (induction ys arbitrary: xs) auto

lemma set_union_append: "\<exists>zs. set_union xs ys = xs @ zs \<and> set zs \<subseteq> set ys"
proof (induction ys arbitrary: xs)
  case (Cons y ys)
  from Cons [of "set_add y xs"] show ?case
    by (auto simp: set_union_def set_add_def split: if_splits)
qed (simp add: set_union_def)

section \<open>JSON values\<close>

text \<open>
  Values as \<open>json.loads\<close> returns them. A finite \<open>float\<close> is mantissa and binary exponent.
\<close>

datatype pyfloat = Finite int int | PosInf | NegInf | NaN

datatype json =
    JNull
  | JBool bool
  | JInt int
  | JFloat pyfloat
  | JStr string
  | JList "json list"
  | JDict "(string \<times> json) list"

type_synonym jdict = "(string, json) pydict"

text \<open>\<open>bool(v)\<close>\<close>

fun truthy :: "json \<Rightarrow> bool" where
  "truthy JNull = False"
| "truthy (JBool b) = b"
| "truthy (JInt i) = (i \<noteq> 0)"
| "truthy (JFloat (Finite m e)) = (m \<noteq> 0)"
| "truthy (JFloat PosInf) = True"
| "truthy (JFloat NegInf) = True"
| "truthy (JFloat NaN) = True"
| "truthy (JStr s) = (s \<noteq> [])"
| "truthy (JList l) = (l \<noteq> [])"
| "truthy (JDict d) = (d \<noteq> [])"

text \<open>\<open>isinstance(v, collections.abc.Mapping)\<close>, with the mapping itself.\<close>

fun as_mapping :: "json \<Rightarrow> jdict option" where
  "as_mapping (JDict d) = Some d"
| "as_mapping _ = None"

text \<open>A value that cannot be hashed raises \<open>TypeError\<close> as a dictionary key or set member.\<close>

fun hashable :: "json \<Rightarrow> bool" where
  "hashable (JList _) = False"
| "hashable (JDict _) = False"
| "hashable _ = True"

text \<open>\<open>v.get(k)\<close> where \<open>v\<close> is expected to be a dictionary but is whatever was sent.\<close>

fun json_get :: "json \<Rightarrow> string \<Rightarrow> json option res" where
  "json_get (JDict d) k = Inr (dget d k)"
| "json_get _ k = Inl AttributeError"

section \<open>Integers\<close>

text \<open>
  \<open>int(s)\<close> for a string of ASCII characters: surrounding white space, a sign, then digits in
  groups separated by single underscores, at most 4300 digits (the interpreter's limit).
\<close>

definition MAX_STR_DIGITS :: nat where
  "MAX_STR_DIGITS = 4300"

definition is_digit :: "char \<Rightarrow> bool" where
  "is_digit c \<longleftrightarrow> 48 \<le> byte c \<and> byte c \<le> 57"

definition digit_val :: "char \<Rightarrow> nat" where
  "digit_val c = byte c - 48"

fun scan_digits :: "bool \<Rightarrow> string \<Rightarrow> nat \<Rightarrow> nat option" where
  "scan_digits prev [] acc = (if prev then Some acc else None)"
| "scan_digits prev (c # cs) acc =
     (if is_digit c then scan_digits True cs (10 * acc + digit_val c)
      else if c = CHR ''_'' \<and> prev then scan_digits False cs acc
      else None)"

definition parse_nat :: "string \<Rightarrow> nat option" where
  "parse_nat s =
     (if length (filter is_digit s) \<le> MAX_STR_DIGITS then scan_digits False s 0 else None)"

definition int_of_str :: "string \<Rightarrow> int res" where
  "int_of_str s =
     (case py_strip s of
        [] \<Rightarrow> Inl ValueError
      | c # cs \<Rightarrow>
          optE ValueError
            (if c = CHR ''-'' then map_option (\<lambda>n. - int n) (parse_nat cs)
             else if c = CHR ''+'' then map_option int (parse_nat cs)
             else map_option int (parse_nat (c # cs))))"

text \<open>\<open>int(v)\<close>\<close>

fun py_int :: "json \<Rightarrow> int res" where
  "py_int (JInt i) = Inr i"
| "py_int (JBool b) = Inr (if b then 1 else 0)"
| "py_int (JFloat (Finite m e)) =
     Inr (if 0 \<le> e then m * 2 ^ nat e else sgn m * (\<bar>m\<bar> div 2 ^ nat (- e)))"
| "py_int (JFloat PosInf) = Inl OverflowError"
| "py_int (JFloat NegInf) = Inl OverflowError"
| "py_int (JFloat NaN) = Inl ValueError"
| "py_int (JStr s) = int_of_str s"
| "py_int JNull = Inl TypeError"
| "py_int (JList _) = Inl TypeError"
| "py_int (JDict _) = Inl TypeError"

text \<open>\<open>str(n)\<close>\<close>

definition digit_char :: "nat \<Rightarrow> char" where
  "digit_char d = char_of (48 + d)"

fun str_of_nat :: "nat \<Rightarrow> string" where
  "str_of_nat n = (if n < 10 then [digit_char n] else str_of_nat (n div 10) @ [digit_char (n mod 10)])"

definition str_of_int :: "int \<Rightarrow> string" where
  "str_of_int i = (if i < 0 then CHR ''-'' # str_of_nat (nat (- i)) else str_of_nat (nat i))"

declare str_of_nat.simps [simp del]

subsection \<open>Printing and reading integers\<close>

lemma byte_digit_char: "d < 10 \<Longrightarrow> byte (digit_char d) = 48 + d"
  by (simp add: byte_def digit_char_def)

lemma is_digit_digit_char [simp]: "d < 10 \<Longrightarrow> is_digit (digit_char d)"
  by (simp add: is_digit_def byte_digit_char)

lemma digit_val_digit_char [simp]: "d < 10 \<Longrightarrow> digit_val (digit_char d) = d"
  by (simp add: digit_val_def byte_digit_char)

lemma str_of_nat_digits: "\<forall>c\<in>set (str_of_nat n). is_digit c"
  by (induction n rule: str_of_nat.induct) (subst str_of_nat.simps, auto)

lemma str_of_nat_not_Nil [simp]: "str_of_nat n \<noteq> []"
  by (subst str_of_nat.simps) simp

lemma scan_digits_all_digits:
  assumes "\<forall>c\<in>set s. is_digit c" and "p \<or> s \<noteq> []"
  shows "scan_digits p s acc = Some (foldl (\<lambda>a c. 10 * a + digit_val c) acc s)"
  using assms by (induction s arbitrary: p acc) auto

lemma foldl_str_of_nat: "foldl (\<lambda>a c. 10 * a + digit_val c) 0 (str_of_nat n) = n"
  by (induction n rule: str_of_nat.induct) (subst str_of_nat.simps, simp)

lemma length_str_of_nat: "n < 10 ^ Suc k \<Longrightarrow> length (str_of_nat n) \<le> Suc k"
proof (induction k arbitrary: n)
  case 0
  then show ?case by (subst str_of_nat.simps) simp
next
  case (Suc k)
  then have "n div 10 < 10 ^ Suc k" by (simp add: less_mult_imp_div_less mult.commute)
  from Suc.IH [OF this] show ?case by (subst str_of_nat.simps) simp
qed

text \<open>The integers whose decimal form the interpreter reads back.\<close>

definition printable :: "int \<Rightarrow> bool" where
  "printable i \<longleftrightarrow> length (str_of_nat (nat \<bar>i\<bar>)) \<le> MAX_STR_DIGITS"

lemma printableI: "\<bar>i\<bar> < 10 ^ Suc k \<Longrightarrow> Suc k \<le> MAX_STR_DIGITS \<Longrightarrow> printable i"
  unfolding printable_def
  by (rule order.trans [OF length_str_of_nat [of _ k]]) (auto simp: nat_less_iff nat_power_eq)

lemma parse_nat_str_of_nat:
  "length (str_of_nat n) \<le> MAX_STR_DIGITS \<Longrightarrow> parse_nat (str_of_nat n) = Some n"
  using str_of_nat_digits [of n]
  by (auto simp: parse_nat_def scan_digits_all_digits foldl_str_of_nat
      intro: order.trans [OF length_filter_le])

lemma py_chars_ascii: "\<forall>c\<in>set s. \<not> is_cont c \<Longrightarrow> py_chars s = map (\<lambda>c. [c]) s"
  by (induction s) (auto simp: dropWhile_eq_self_iff takeWhile_eq_Nil_iff hd_in_set)

definition plain_char :: "char \<Rightarrow> bool" where
  "plain_char c \<longleftrightarrow> 32 < byte c \<and> byte c < 128"

lemma py_strip_plain: "\<forall>c\<in>set s. plain_char c \<Longrightarrow> py_strip s = s"
proof -
  assume plain: "\<forall>c\<in>set s. plain_char c"
  then have chars: "py_chars s = map (\<lambda>c. [c]) s"
    by (intro py_chars_ascii) (auto simp: plain_char_def is_cont_def)
  have no_space: "\<forall>x\<in>set (map (\<lambda>c. [c]) s). \<not> is_space x"
    using plain by (auto simp: plain_char_def is_space_def)
  have keep: "dropWhile is_space xs = xs" if "\<forall>x\<in>set xs. \<not> is_space x" for xs
    using that by (cases xs) auto
  show ?thesis
    unfolding py_strip_def chars using no_space by (simp add: keep concat_map_singleton)
qed

lemma digit_plain: "is_digit c \<Longrightarrow> plain_char c"
  by (simp add: is_digit_def plain_char_def)

lemma minus_plain: "plain_char (CHR ''-'')"
  by (simp add: plain_char_def byte_def)

lemma str_of_int_not_Nil [simp]: "str_of_int i \<noteq> []"
  by (simp add: str_of_int_def)

lemma str_of_int_chars: "c \<in> set (str_of_int i) \<Longrightarrow> is_digit c \<or> c = CHR ''-''"
  using str_of_nat_digits by (auto simp: str_of_int_def split: if_splits)

lemma str_of_int_plain: "\<forall>c\<in>set (str_of_int i). plain_char c"
proof
  fix c assume "c \<in> set (str_of_int i)"
  then consider "is_digit c" | "c = CHR ''-''" by (blast dest: str_of_int_chars)
  then show "plain_char c" by cases (simp_all add: digit_plain minus_plain)
qed

theorem int_of_str_str_of_int: "printable i \<Longrightarrow> int_of_str (str_of_int i) = Inr i"
proof -
  assume fits: "printable i"
  have strip: "py_strip (str_of_int i) = str_of_int i"
    by (rule py_strip_plain [OF str_of_int_plain])
  obtain c cs where cs: "str_of_nat (nat \<bar>i\<bar>) = c # cs"
    by (cases "str_of_nat (nat \<bar>i\<bar>)") auto
  then have c: "is_digit c" using str_of_nat_digits [of "nat \<bar>i\<bar>"] by simp
  then have "c \<noteq> CHR ''-''" and "c \<noteq> CHR ''+''"
    by (auto simp: is_digit_def byte_def)
  moreover have "parse_nat (c # cs) = Some (nat \<bar>i\<bar>)"
    using fits parse_nat_str_of_nat [of "nat \<bar>i\<bar>"] by (simp add: printable_def cs)
  ultimately show ?thesis
    unfolding int_of_str_def strip using cs by (auto simp: str_of_int_def)
qed

end
