(* ===== verification/Room_Versions.thy ===== *)
theory Room_Versions
  imports Prelude
begin

text \<open>
  \<open>api/room_versions.py\<close>: the table of room versions. A room version is a record of the
  feature flags that the event authorisation, redaction and state resolution code branches on.
  The lemmas state the dependencies between flags that the other components rely on.
\<close>

section \<open>Enumerations\<close>

datatype event_format_version = ROOM_V1_V2 | ROOM_V3 | ROOM_V4_PLUS | ROOM_V11_HYDRA_PLUS

definition KNOWN_EVENT_FORMAT_VERSIONS :: "event_format_version list" where
  "KNOWN_EVENT_FORMAT_VERSIONS = [ROOM_V1_V2, ROOM_V3, ROOM_V4_PLUS, ROOM_V11_HYDRA_PLUS]"

datatype state_resolution_version = StateRes_V1 | StateRes_V2 | StateRes_V2_1

datatype room_disposition = STABLE | UNSTABLE

datatype push_rule_room_flag = EXTENSIBLE_EVENTS

record room_version =
  rv_identifier :: string
  disposition :: room_disposition
  event_format :: event_format_version
  state_res :: state_resolution_version
  enforce_key_validity :: bool
  special_case_aliases_auth :: bool
  strict_canonicaljson :: bool
  limit_notifications_power_levels :: bool
  implicit_room_creator :: bool
  updated_redaction_rules :: bool
  restricted_join_rule :: bool
  restricted_join_rule_fix :: bool
  knock_join_rule :: bool
  msc3389_relation_redactions :: bool
  knock_restricted_join_rule :: bool
  enforce_int_power_levels :: bool
  msc3931_push_features :: "push_rule_room_flag list"
  msc3757_enabled :: bool
  msc4289_creator_power_enabled :: bool
  msc4291_room_ids_as_hashes :: bool

section \<open>The versions\<close>

definition RoomVersions_V1 :: room_version where
  "RoomVersions_V1 = \<lparr>
     rv_identifier = ''1'',
     disposition = STABLE,
     event_format = ROOM_V1_V2,
     state_res = StateRes_V1,
     enforce_key_validity = False,
     special_case_aliases_auth = True,
     strict_canonicaljson = False,
     limit_notifications_power_levels = False,
     implicit_room_creator = False,
     updated_redaction_rules = False,
     restricted_join_rule = False,
     restricted_join_rule_fix = False,
     knock_join_rule = False,
     msc3389_relation_redactions = False,
     knock_restricted_join_rule = False,
     enforce_int_power_levels = False,
     msc3931_push_features = [],
     msc3757_enabled = False,
     msc4289_creator_power_enabled = False,
     msc4291_room_ids_as_hashes = False\<rparr>"

definition RoomVersions_V2 :: room_version where
  "RoomVersions_V2 = \<lparr>
     rv_identifier = ''2'',
     disposition = STABLE,
     event_format = ROOM_V1_V2,
     state_res = StateRes_V2,
     enforce_key_validity = False,
     special_case_aliases_auth = True,
     strict_canonicaljson = False,
     limit_notifications_power_levels = False,
     implicit_room_creator = False,
     updated_redaction_rules = False,
     restricted_join_rule = False,
     restricted_join_rule_fix = False,
     knock_join_rule = False,
     msc3389_relation_redactions = False,
     knock_restricted_join_rule = False,
     enforce_int_power_levels = False,
     msc3931_push_features = [],
     msc3757_enabled = False,
     msc4289_creator_power_enabled = False,
     msc4291_room_ids_as_hashes = False\<rparr>"

definition RoomVersions_V3 :: room_version where
  "RoomVersions_V3 = \<lparr>
     rv_identifier = ''3'',
     disposition = STABLE,
     event_format = ROOM_V3,
     state_res = StateRes_V2,
     enforce_key_validity = False,
     special_case_aliases_auth = True,
     strict_canonicaljson = False,
     limit_notifications_power_levels = False,
     implicit_room_creator = False,
     updated_redaction_rules = False,
     restricted_join_rule = False,
     restricted_join_rule_fix = False,
     knock_join_rule = False,
     msc3389_relation_redactions = False,
     knock_restricted_join_rule = False,
     enforce_int_power_levels = False,
     msc3931_push_features = [],
     msc3757_enabled = False,
     msc4289_creator_power_enabled = False,
     msc4291_room_ids_as_hashes = False\<rparr>"

definition RoomVersions_V4 :: room_version where
  "RoomVersions_V4 = \<lparr>
     rv_identifier = ''4'',
     disposition = STABLE,
     event_format = ROOM_V4_PLUS,
     state_res = StateRes_V2,
     enforce_key_validity = False,
     special_case_aliases_auth = True,
     strict_canonicaljson = False,
     limit_notifications_power_levels = False,
     implicit_room_creator = False,
     updated_redaction_rules = False,
     restricted_join_rule = False,
     restricted_join_rule_fix = False,
     knock_join_rule = False,
     msc3389_relation_redactions = False,
     knock_restricted_join_rule = False,
     enforce_int_power_levels = False,
     msc3931_push_features = [],
     msc3757_enabled = False,
     msc4289_creator_power_enabled = False,
     msc4291_room_ids_as_hashes = False\<rparr>"

definition RoomVersions_V5 :: room_version where
  "RoomVersions_V5 = \<lparr>
     rv_identifier = ''5'',
     disposition = STABLE,
     event_format = ROOM_V4_PLUS,
     state_res = StateRes_V2,
     enforce_key_validity = True,
     special_case_aliases_auth = True,
     strict_canonicaljson = False,
     limit_notifications_power_levels = False,
     implicit_room_creator = False,
     updated_redaction_rules = False,
     restricted_join_rule = False,
     restricted_join_rule_fix = False,
     knock_join_rule = False,
     msc3389_relation_redactions = False,
     knock_restricted_join_rule = False,
     enforce_int_power_levels = False,
     msc3931_push_features = [],
     msc3757_enabled = False,
     msc4289_creator_power_enabled = False,
     msc4291_room_ids_as_hashes = False\<rparr>"

definition RoomVersions_V6 :: room_version where
  "RoomVersions_V6 = \<lparr>
     rv_identifier = ''6'',
     disposition = STABLE,
     event_format = ROOM_V4_PLUS,
     state_res = StateRes_V2,
     enforce_key_validity = True,
     special_case_aliases_auth = False,
     strict_canonicaljson = True,
     limit_notifications_power_levels = True,
     implicit_room_creator = False,
     updated_redaction_rules = False,
     restricted_join_rule = False,
     restricted_join_rule_fix = False,
     knock_join_rule = False,
     msc3389_relation_redactions = False,
     knock_restricted_join_rule = False,
     enforce_int_power_levels = False,
     msc3931_push_features = [],
     msc3757_enabled = False,
     msc4289_creator_power_enabled = False,
     msc4291_room_ids_as_hashes = False\<rparr>"

definition RoomVersions_V7 :: room_version where
  "RoomVersions_V7 = \<lparr>
     rv_identifier = ''7'',
     disposition = STABLE,
     event_format = ROOM_V4_PLUS,
     state_res = StateRes_V2,
     enforce_key_validity = True,
     special_case_aliases_auth = False,
     strict_canonicaljson = True,
     limit_notifications_power_levels = True,
     implicit_room_creator = False,
     updated_redaction_rules = False,
     restricted_join_rule = False,
     restricted_join_rule_fix = False,
     knock_join_rule = True,
     msc3389_relation_redactions = False,
     knock_restricted_join_rule = False,
     enforce_int_power_levels = False,
     msc3931_push_features = [],
     msc3757_enabled = False,
     msc4289_creator_power_enabled = False,
     msc4291_room_ids_as_hashes = False\<rparr>"

definition RoomVersions_V8 :: room_version where
  "RoomVersions_V8 = \<lparr>
     rv_identifier = ''8'',
     disposition = STABLE,
     event_format = ROOM_V4_PLUS,
     state_res = StateRes_V2,
     enforce_key_validity = True,
     special_case_aliases_auth = False,
     strict_canonicaljson = True,
     limit_notifications_power_levels = True,
     implicit_room_creator = False,
     updated_redaction_rules = False,
     restricted_join_rule = True,
     restricted_join_rule_fix = False,
     knock_join_rule = True,
     msc3389_relation_redactions = False,
     knock_restricted_join_rule = False,
     enforce_int_power_levels = False,
     msc3931_push_features = [],
     msc3757_enabled = False,
     msc4289_creator_power_enabled = False,
     msc4291_room_ids_as_hashes = False\<rparr>"

definition RoomVersions_V9 :: room_version where
  "RoomVersions_V9 = \<lparr>
     rv_identifier = ''9'',
     disposition = STABLE,
     event_format = ROOM_V4_PLUS,
     state_res = StateRes_V2,
     enforce_key_validity = True,
     special_case_aliases_auth = False,
     strict_canonicaljson = True,
     limit_notifications_power_levels = True,
     implicit_room_creator = False,
     updated_redaction_rules = False,
     restricted_join_rule = True,
     restricted_join_rule_fix = True,
     knock_join_rule = True,
     msc3389_relation_redactions = False,
     knock_restricted_join_rule = False,
     enforce_int_power_levels = False,
     msc3931_push_features = [],
     msc3757_enabled = False,
     msc4289_creator_power_enabled = False,
     msc4291_room_ids_as_hashes = False\<rparr>"

definition RoomVersions_V10 :: room_version where
  "RoomVersions_V10 = \<lparr>
     rv_identifier = ''10'',
     disposition = STABLE,
     event_format = ROOM_V4_PLUS,
     state_res = StateRes_V2,
     enforce_key_validity = True,
     special_case_aliases_auth = False,
     strict_canonicaljson = True,
     limit_notifications_power_levels = True,
     implicit_room_creator = False,
     updated_redaction_rules = False,
     restricted_join_rule = True,
     restricted_join_rule_fix = True,
     knock_join_rule = True,
     msc3389_relation_redactions = False,
     knock_restricted_join_rule = True,
     enforce_int_power_levels = True,
     msc3931_push_features = [],
     msc3757_enabled = False,
     msc4289_creator_power_enabled = False,
     msc4291_room_ids_as_hashes = False\<rparr>"

definition RoomVersions_MSC1767v10 :: room_version where
  "RoomVersions_MSC1767v10 = \<lparr>
     rv_identifier = ''org.matrix.msc1767.10'',
     disposition = UNSTABLE,
     event_format = ROOM_V4_PLUS,
     state_res = StateRes_V2,
     enforce_key_validity = True,
     special_case_aliases_auth = False,
     strict_canonicaljson = True,
     limit_notifications_power_levels = True,
     implicit_room_creator = False,
     updated_redaction_rules = False,
     restricted_join_rule = True,
     restricted_join_rule_fix = True,
     knock_join_rule = True,
     msc3389_relation_redactions = False,
     knock_restricted_join_rule = True,
     enforce_int_power_levels = True,
     msc3931_push_features = [EXTENSIBLE_EVENTS],
     msc3757_enabled = False,
     msc4289_creator_power_enabled = False,
     msc4291_room_ids_as_hashes = False\<rparr>"

definition RoomVersions_MSC3757v10 :: room_version where
  "RoomVersions_MSC3757v10 = \<lparr>
     rv_identifier = ''org.matrix.msc3757.10'',
     disposition = UNSTABLE,
     event_format = ROOM_V4_PLUS,
     state_res = StateRes_V2,
     enforce_key_validity = True,
     special_case_aliases_auth = False,
     strict_canonicaljson = True,
     limit_notifications_power_levels = True,
     implicit_room_creator = False,
     updated_redaction_rules = False,
     restricted_join_rule = True,
     restricted_join_rule_fix = True,
     knock_join_rule = True,
     msc3389_relation_redactions = False,
     knock_restricted_join_rule = True,
     enforce_int_power_levels = True,
     msc3931_push_features = [],
     msc3757_enabled = True,
     msc4289_creator_power_enabled = False,
     msc4291_room_ids_as_hashes = False\<rparr>"

definition RoomVersions_V11 :: room_version where
  "RoomVersions_V11 = \<lparr>
     rv_identifier = ''11'',
     disposition = STABLE,
     event_format = ROOM_V4_PLUS,
     state_res = StateRes_V2,
     enforce_key_validity = True,
     special_case_aliases_auth = False,
     strict_canonicaljson = True,
     limit_notifications_power_levels = True,
     implicit_room_creator = True,
     updated_redaction_rules = True,
     restricted_join_rule = True,
     restricted_join_rule_fix = True,
     knock_join_rule = True,
     msc3389_relation_redactions = False,
     knock_restricted_join_rule = True,
     enforce_int_power_levels = True,
     msc3931_push_features = [],
     msc3757_enabled = False,
     msc4289_creator_power_enabled = False,
     msc4291_room_ids_as_hashes = False\<rparr>"

definition RoomVersions_MSC3757v11 :: room_version where
  "RoomVersions_MSC3757v11 = \<lparr>
     rv_identifier = ''org.matrix.msc3757.11'',
     disposition = UNSTABLE,
     event_format = ROOM_V4_PLUS,
     state_res = StateRes_V2,
     enforce_key_validity = True,
     special_case_aliases_auth = False,
     strict_canonicaljson = True,
     limit_notifications_power_levels = True,
     implicit_room_creator = True,
     updated_redaction_rules = True,
     restricted_join_rule = True,
     restricted_join_rule_fix = True,
     knock_join_rule = True,
     msc3389_relation_redactions = False,
     knock_restricted_join_rule = True,
     enforce_int_power_levels = True,
     msc3931_push_features = [],
     msc3757_enabled = True,
     msc4289_creator_power_enabled = False,
     msc4291_room_ids_as_hashes = False\<rparr>"

definition RoomVersions_HydraV11 :: room_version where
  "RoomVersions_HydraV11 = \<lparr>
     rv_identifier = ''org.matrix.hydra.11'',
     disposition = UNSTABLE,
     event_format = ROOM_V11_HYDRA_PLUS,
     state_res = StateRes_V2_1,
     enforce_key_validity = True,
     special_case_aliases_auth = False,
     strict_canonicaljson = True,
     limit_notifications_power_levels = True,
     implicit_room_creator = True,
     updated_redaction_rules = True,
     restricted_join_rule = True,
     restricted_join_rule_fix = True,
     knock_join_rule = True,
     msc3389_relation_redactions = False,
     knock_restricted_join_rule = True,
     enforce_int_power_levels = True,
     msc3931_push_features = [],
     msc3757_enabled = False,
     msc4289_creator_power_enabled = True,
     msc4291_room_ids_as_hashes = True\<rparr>"

definition RoomVersions_V12 :: room_version where
  "RoomVersions_V12 = \<lparr>
     rv_identifier = ''12'',
     disposition = STABLE,
     event_format = ROOM_V11_HYDRA_PLUS,
     state_res = StateRes_V2_1,
     enforce_key_validity = True,
     special_case_aliases_auth = False,
     strict_canonicaljson = True,
     limit_notifications_power_levels = True,
     implicit_room_creator = True,
     updated_redaction_rules = True,
     restricted_join_rule = True,
     restricted_join_rule_fix = True,
     knock_join_rule = True,
     msc3389_relation_redactions = False,
     knock_restricted_join_rule = True,
     enforce_int_power_levels = True,
     msc3931_push_features = [],
     msc3757_enabled = False,
     msc4289_creator_power_enabled = True,
     msc4291_room_ids_as_hashes = True\<rparr>"

section \<open>The table\<close>

definition known_room_version_list :: "room_version list" where
  "known_room_version_list =
     [RoomVersions_V1,
      RoomVersions_V2,
      RoomVersions_V3,
      RoomVersions_V4,
      RoomVersions_V5,
      RoomVersions_V6,
      RoomVersions_V7,
      RoomVersions_V8,
      RoomVersions_V9,
      RoomVersions_V10,
      RoomVersions_V11,
      RoomVersions_V12,
      RoomVersions_MSC3757v10,
      RoomVersions_MSC3757v11,
      RoomVersions_HydraV11]"

definition KNOWN_ROOM_VERSIONS :: "(string, room_version) pydict" where
  "KNOWN_ROOM_VERSIONS =
     fold (\<lambda>v. dset (rv_identifier v) v) known_room_version_list []"

definition supporting_versions :: "(room_version \<Rightarrow> bool) \<Rightarrow> string list" where
  "supporting_versions support_check =
     map rv_identifier (filter support_check (dvalues KNOWN_ROOM_VERSIONS))"

definition MSC3244_CAPABILITIES :: "(string, string \<times> string list) pydict" where
  "MSC3244_CAPABILITIES =
     [(''knock'', rv_identifier RoomVersions_V7, supporting_versions knock_join_rule),
      (''restricted'', rv_identifier RoomVersions_V9, supporting_versions restricted_join_rule)]"

lemmas room_version_defs =
  RoomVersions_V1_def RoomVersions_V2_def RoomVersions_V3_def RoomVersions_V4_def RoomVersions_V5_def RoomVersions_V6_def RoomVersions_V7_def RoomVersions_V8_def RoomVersions_V9_def RoomVersions_V10_def RoomVersions_MSC1767v10_def RoomVersions_MSC3757v10_def RoomVersions_V11_def RoomVersions_MSC3757v11_def RoomVersions_HydraV11_def RoomVersions_V12_def

section \<open>Coherence of the flags\<close>

text \<open>The dependencies between flags that a version must satisfy.\<close>

definition room_version_ok :: "room_version \<Rightarrow> bool" where
  "room_version_ok v \<longleftrightarrow>
     (restricted_join_rule_fix v \<longrightarrow> restricted_join_rule v)
     \<and> (knock_restricted_join_rule v \<longrightarrow> restricted_join_rule v \<and> knock_join_rule v)
     \<and> (msc4291_room_ids_as_hashes v \<longleftrightarrow> event_format v = ROOM_V11_HYDRA_PLUS)
     \<and> (msc4289_creator_power_enabled v \<longrightarrow> implicit_room_creator v)
     \<and> (state_res v = StateRes_V2_1 \<longleftrightarrow> msc4289_creator_power_enabled v)
     \<and> (state_res v = StateRes_V1 \<longrightarrow> event_format v = ROOM_V1_V2)"

lemma known_room_version_list_ok: "\<forall>v\<in>set known_room_version_list. room_version_ok v"
  by (simp add: known_room_version_list_def room_version_ok_def room_version_defs)

lemma distinct_identifiers: "distinct (map rv_identifier known_room_version_list)"
  by (simp add: known_room_version_list_def room_version_defs)

text \<open>Building a dictionary from items with distinct keys keeps the items.\<close>

lemma fold_dset_distinct:
  assumes "distinct (map f xs)" and "\<forall>x\<in>set xs. f x \<notin> fst ` set d"
  shows "fold (\<lambda>v. dset (f v) v) xs d = d @ map (\<lambda>v. (f v, v)) xs"
  using assms
proof (induction xs arbitrary: d)
  case Nil
  then show ?case by simp
next
  case (Cons x xs)
  then have "dset (f x) x d = d @ [(f x, x)]" by (simp add: dset_new)
  moreover have "fold (\<lambda>v. dset (f v) v) xs (d @ [(f x, x)])
      = (d @ [(f x, x)]) @ map (\<lambda>v. (f v, v)) xs"
    using Cons.prems by (intro Cons.IH) (auto simp: image_iff)
  ultimately show ?case by simp
qed

lemma KNOWN_ROOM_VERSIONS_items:
  "KNOWN_ROOM_VERSIONS = map (\<lambda>v. (rv_identifier v, v)) known_room_version_list"
  unfolding KNOWN_ROOM_VERSIONS_def
  by (subst fold_dset_distinct [OF distinct_identifiers]) simp_all

lemma KNOWN_ROOM_VERSIONS_ok: "dict_ok KNOWN_ROOM_VERSIONS"
  using distinct_identifiers by (simp add: KNOWN_ROOM_VERSIONS_items dict_ok_def comp_def)

lemma KNOWN_ROOM_VERSIONS_lookup:
  "dget KNOWN_ROOM_VERSIONS i = Some v \<longleftrightarrow>
     v \<in> set known_room_version_list \<and> rv_identifier v = i"
  unfolding dget_iff_mem [OF KNOWN_ROOM_VERSIONS_ok] by (auto simp: KNOWN_ROOM_VERSIONS_items)

text \<open>
  Every entry of \<open>KNOWN_ROOM_VERSIONS\<close> is filed under its own identifier, the table has
  no two versions with the same identifier, and the flags of each version are coherent:
  the restricted-join fix and \<open>knock_restricted\<close> are only enabled with the join rules they
  build on, hashed room ids are used exactly with the event format that computes them, and
  creator power comes exactly with state resolution v2.1 and an implicit creator.
\<close>

theorem known_room_versions_coherent:
  assumes "dget KNOWN_ROOM_VERSIONS i = Some v"
  shows "rv_identifier v = i \<and> room_version_ok v
    \<and> (\<forall>w\<in>set known_room_version_list. rv_identifier w = i \<longrightarrow> w = v)"
proof -
  from assms have v: "v \<in> set known_room_version_list" "rv_identifier v = i"
    by (simp_all add: KNOWN_ROOM_VERSIONS_lookup)
  then have "room_version_ok v" using known_room_version_list_ok by blast
  moreover have "w = v" if "w \<in> set known_room_version_list" "rv_identifier w = i" for w
    using distinct_identifiers v that by (auto simp: distinct_map inj_on_def)
  ultimately show ?thesis using v by blast
qed

theorem known_room_versions_coherent_witness:
  "rv_identifier RoomVersions_V12 = ''12'' \<and> room_version_ok RoomVersions_V12"
proof -
  have "dget KNOWN_ROOM_VERSIONS ''12'' = Some RoomVersions_V12"
    by (simp add: KNOWN_ROOM_VERSIONS_lookup known_room_version_list_def room_version_defs)
  from known_room_versions_coherent [OF this] show ?thesis by blast
qed

end
