(* ===== verification/Server_Names.thy ===== *)
theory Server_Names
  imports Prelude
begin

text \<open>
  \<open>util/stringutils.py\<close>: server names, identity server locations and MXC URIs.
  \<open>valid_ipv6\<close> of the package netaddr is a parameter of the functions that call it.
  The lemmas show that parsing a server name loses nothing and what a validated name looks like.
\<close>

section \<open>Server names\<close>

text \<open>\<open>s.rsplit(":", 1)\<close>: the part before the last separator and the part after it.\<close>

definition rsplit_last :: "char \<Rightarrow> string \<Rightarrow> string \<times> string option" where
  "rsplit_last sep s = (case split_first sep (rev s) of
      (_, None) \<Rightarrow> (s, None)
    | (a, Some b) \<Rightarrow> (rev b, Some (rev a)))"

definition parse_server_name :: "string \<Rightarrow> (string \<times> int option) res" where
  "parse_server_name server_name =
     (if server_name \<noteq> [] \<and> last server_name = CHR '']'' then Inr (server_name, None)
      else (case rsplit_last (CHR '':'') server_name of
          (domain, None) \<Rightarrow> Inr (domain, None)
        | (domain, Some p) \<Rightarrow>
            (case int_of_str p of
               Inl _ \<Rightarrow> Inl ValueError
             | Inr port \<Rightarrow> Inr (domain, Some port))))"

text \<open>\<open>VALID_HOST_REGEX\<close>: dot-separated non-empty labels of letters, digits and hyphens.\<close>

definition is_ascii_letter :: "char \<Rightarrow> bool" where
  "is_ascii_letter c \<longleftrightarrow>
     (65 \<le> byte c \<and> byte c \<le> 90) \<or> (97 \<le> byte c \<and> byte c \<le> 122)"

definition host_char :: "char \<Rightarrow> bool" where
  "host_char c \<longleftrightarrow> is_digit c \<or> is_ascii_letter c \<or> c = CHR ''-''"

definition valid_host :: "string \<Rightarrow> bool" where
  "valid_host h \<longleftrightarrow>
     list_all (\<lambda>p. p \<noteq> [] \<and> list_all host_char p) (split_all (CHR ''.'') h)"

definition parse_and_validate_server_name ::
    "(string \<Rightarrow> bool) \<Rightarrow> string \<Rightarrow> (string \<times> int option) res" where
  "parse_and_validate_server_name valid_ipv6 server_name =
     bindE (parse_server_name server_name) (\<lambda>(host, port).
       if host \<noteq> [] \<and> hd host = CHR ''['' then
         (if last host \<noteq> CHR '']'' then Inl ValueError
          else (let ipv6_address = butlast (tl host) in
            if ipv6_address = [] \<or> \<not> valid_ipv6 ipv6_address then Inl ValueError
            else Inr (host, port)))
       else if \<not> valid_host host then Inl ValueError
       else Inr (host, port))"

definition valid_id_server_location :: "(string \<Rightarrow> bool) \<Rightarrow> string \<Rightarrow> bool" where
  "valid_id_server_location valid_ipv6 id_server =
     (case split_first (CHR ''/'') id_server of
        (host, rest) \<Rightarrow>
          (case parse_and_validate_server_name valid_ipv6 host of
             Inl _ \<Rightarrow> False
           | Inr _ \<Rightarrow>
               (case rest of
                  None \<Rightarrow> True
                | Some path \<Rightarrow> CHR ''#'' \<notin> set path \<and> CHR ''?'' \<notin> set path)))"

text \<open>\<open>MXC_REGEX\<close>: \<open>mxc://\<close>, a part without slash, a slash, a part without slash, hash or
  question mark, both non-empty.\<close>

definition match_mxc :: "string \<Rightarrow> (string \<times> string) option" where
  "match_mxc mxc =
     (if \<not> py_startswith mxc ''mxc://'' then None
      else (case split_first (CHR ''/'') (drop 6 mxc) of
          (_, None) \<Rightarrow> None
        | (server, Some media) \<Rightarrow>
            if server \<noteq> [] \<and> media \<noteq> []
               \<and> (\<forall>c\<in>set media. c \<noteq> CHR ''/'' \<and> c \<noteq> CHR ''#'' \<and> c \<noteq> CHR ''?'')
            then Some (server, media) else None))"

definition parse_and_validate_mxc_uri ::
    "(string \<Rightarrow> bool) \<Rightarrow> string \<Rightarrow> (string \<times> int option \<times> string) res" where
  "parse_and_validate_mxc_uri valid_ipv6 mxc =
     (case match_mxc mxc of
        None \<Rightarrow> Inl ValueError
      | Some (server_name, media_id) \<Rightarrow>
          bindE (parse_and_validate_server_name valid_ipv6 server_name)
            (\<lambda>(host, port). Inr (host, port, media_id)))"

section \<open>Lemmas\<close>

lemma rsplit_last_None: "rsplit_last sep s = (a, None) \<longleftrightarrow> sep \<notin> set s \<and> a = s"
  by (auto simp: rsplit_last_def split_first_None split: prod.splits option.splits)
    (metis option.exhaust set_rev split_first_None surj_pair split_first_no_sep prod.inject
      option.distinct(1))

lemma rsplit_last_Some:
  "rsplit_last sep s = (a, Some b) \<longleftrightarrow> s = a @ sep # b \<and> sep \<notin> set b"
proof -
  have "rsplit_last sep s = (a, Some b) \<longleftrightarrow> split_first sep (rev s) = (rev b, Some (rev a))"
    by (auto simp: rsplit_last_def split: prod.splits option.splits)
  also have "\<dots> \<longleftrightarrow> rev s = rev b @ sep # rev a \<and> sep \<notin> set b"
    by (simp add: split_first_Some)
  also have "\<dots> \<longleftrightarrow> s = a @ sep # b \<and> sep \<notin> set b"
    by (metis append.assoc append_Cons append_Nil rev.simps(2) rev_append rev_rev_ident)
  finally show ?thesis .
qed

lemma parse_server_name_host_port:
  "parse_server_name s = Inr (h, p) \<Longrightarrow>
     (p = None \<and> s = h) \<or> (\<exists>r port. p = Some port \<and> s = h @ CHR '':'' # r \<and> int_of_str r = Inr port)"
  by (auto simp: parse_server_name_def rsplit_last_None rsplit_last_Some
      split: if_splits prod.splits option.splits sum.splits)

lemma parse_server_name_errors:
  "parse_server_name s = Inl e \<Longrightarrow> e = ValueError"
  by (auto simp: parse_server_name_def split: if_splits prod.splits option.splits sum.splits)

lemma parse_and_validate_server_name_errors:
  "parse_and_validate_server_name v s = Inl e \<Longrightarrow> e = ValueError"
  by (auto simp: parse_and_validate_server_name_def bindE_eq_Inl Let_def
      dest: parse_server_name_errors split: if_splits)

lemma valid_host_chars:
  assumes "valid_host h"
  shows "h \<noteq> []" and "\<forall>c\<in>set h. host_char c \<or> c = CHR ''.''"
proof -
  show "h \<noteq> []" using assms by (auto simp: valid_host_def)
  show "\<forall>c\<in>set h. host_char c \<or> c = CHR ''.''"
    using assms by (auto simp: valid_host_def list_all_iff dest: set_split_all)
qed

text \<open>
  A server name that \<open>parse_and_validate_server_name\<close> accepts is its host, or its host, a
  colon and the decimal port that was returned; the host is either a bracketed non-empty IPv6
  address that \<open>valid_ipv6\<close> accepts, or consists of letters, digits, hyphens and dots only, so
  that no IP literal in brackets, no user part and no path can hide in a host name.
\<close>

theorem validated_server_name_shape:
  assumes "parse_and_validate_server_name valid_ipv6 s = Inr (h, p)"
  shows "(p = None \<and> s = h
      \<or> (\<exists>r port. p = Some port \<and> s = h @ CHR '':'' # r \<and> int_of_str r = Inr port))
    \<and> ((\<exists>a. h = CHR ''['' # a @ [CHR '']''] \<and> a \<noteq> [] \<and> valid_ipv6 a)
      \<or> h \<noteq> [] \<and> (\<forall>c\<in>set h. host_char c \<or> c = CHR ''.''))"
proof -
  from assms have parsed: "parse_server_name s = Inr (h, p)"
    and ok: "if h \<noteq> [] \<and> hd h = CHR ''[''
      then last h = CHR '']'' \<and> butlast (tl h) \<noteq> [] \<and> valid_ipv6 (butlast (tl h))
      else valid_host h"
    by (auto simp: parse_and_validate_server_name_def Let_def split: if_splits)
  have "\<exists>a. h = CHR ''['' # a @ [CHR '']''] \<and> a \<noteq> [] \<and> valid_ipv6 a"
    if "h \<noteq> []" "hd h = CHR ''[''"
  proof (intro exI conjI)
    from ok that show "butlast (tl h) \<noteq> []" "valid_ipv6 (butlast (tl h))" by auto
    then have "butlast (tl h) @ [last (tl h)] = tl h" by (intro append_butlast_last_id) auto
    moreover have "last (tl h) = CHR '']''" using ok that calculation by (cases h) (auto split: if_splits)
    ultimately show "h = CHR ''['' # butlast (tl h) @ [CHR '']'']"
      using that by (cases h) auto
  qed
  with parse_server_name_host_port [OF parsed] ok valid_host_chars [of h] show ?thesis
    by (auto split: if_splits)
qed

theorem validated_server_name_shape_witness:
  "parse_and_validate_server_name (\<lambda>_. False) ''a.b:8448'' = Inr (''a.b'', Some 8448)
   \<and> list_all (\<lambda>c. host_char c \<or> c = CHR ''.'') ''a.b''"
proof -
  have run: "parse_and_validate_server_name (\<lambda>_. False) ''a.b:8448'' = Inr (''a.b'', Some 8448)"
    by code_simp
  from validated_server_name_shape [OF run] run show ?thesis by simp
qed

end
