(* ===== verification/Identifiers.thy ===== *)
theory Identifiers
  imports Server_Names
begin

text \<open>
  The identifiers of \<open>types/__init__.py\<close>: user ids, room ids, room aliases and event ids as
  \<open>DomainSpecificString\<close>, the domain-less room ids, and the mapping of user names to Matrix
  localparts. The lemmas state the round trips between the textual and the structured form and
  the correctness of the user name mapping.
\<close>

section \<open>Domains and localparts of raw ids\<close>

definition get_domain_from_id :: "string \<Rightarrow> string res" where
  "get_domain_from_id s = (case split_first (CHR '':'') s of
      (_, None) \<Rightarrow> Inl (SynapseError 400 ''Invalid ID'')
    | (_, Some rest) \<Rightarrow> Inr rest)"

definition get_localpart_from_id :: "string \<Rightarrow> string res" where
  "get_localpart_from_id s = (case split_first (CHR '':'') s of
      (_, None) \<Rightarrow> Inl (SynapseError 400 ''Invalid ID'')
    | (before, Some _) \<Rightarrow> Inr (drop 1 before))"

section \<open>DomainSpecificString\<close>

record domain_specific_string =
  localpart :: string
  domain :: string

text \<open>The class variable \<open>SIGIL\<close> is the first argument.\<close>

definition dss_from_string :: "char \<Rightarrow> string \<Rightarrow> domain_specific_string res" where
  "dss_from_string SIGIL s =
     (if s = [] \<or> hd s \<noteq> SIGIL
      then Inl (SynapseError 400 ''Expected string to start with sigil'')
      else (case split_first (CHR '':'') (tl s) of
          (_, None) \<Rightarrow> Inl (SynapseError 400 ''Expected the form localname:domain'')
        | (lp, Some d) \<Rightarrow> Inr \<lparr>localpart = lp, domain = d\<rparr>))"

definition dss_to_string :: "char \<Rightarrow> domain_specific_string \<Rightarrow> string" where
  "dss_to_string SIGIL obj = SIGIL # localpart obj @ CHR '':'' # domain obj"

definition dss_is_valid :: "(string \<Rightarrow> bool) \<Rightarrow> char \<Rightarrow> string \<Rightarrow> bool" where
  "dss_is_valid valid_ipv6 SIGIL s =
     (case bindE (dss_from_string SIGIL s)
             (\<lambda>obj. parse_and_validate_server_name valid_ipv6 (domain obj)) of
        Inl _ \<Rightarrow> False
      | Inr _ \<Rightarrow> True)"

definition UserID_SIGIL :: char where "UserID_SIGIL = CHR ''@''"
definition RoomAlias_SIGIL :: char where "RoomAlias_SIGIL = CHR ''#''"
definition RoomIdWithDomain_SIGIL :: char where "RoomIdWithDomain_SIGIL = CHR ''!''"
definition EventID_SIGIL :: char where "EventID_SIGIL = CHR ''$''"

definition UserID_from_string :: "string \<Rightarrow> domain_specific_string res" where
  "UserID_from_string = dss_from_string UserID_SIGIL"

definition UserID_is_valid :: "(string \<Rightarrow> bool) \<Rightarrow> string \<Rightarrow> bool" where
  "UserID_is_valid valid_ipv6 = dss_is_valid valid_ipv6 UserID_SIGIL"

section \<open>RoomID\<close>

record room_id =
  rid_id :: string
  room_id_with_domain :: "domain_specific_string option"

text \<open>
  \<open>ROOM_ID_PATTERN_DOMAINLESS.match\<close>: 43 characters of the urlsafe base64 alphabet; the
  regular expression ends with \<open>$\<close>, which also matches before one trailing newline.
\<close>

definition base64_char :: "char \<Rightarrow> bool" where
  "base64_char c \<longleftrightarrow> is_ascii_letter c \<or> is_digit c \<or> c = CHR ''-'' \<or> c = CHR ''_''"

definition domainless_pattern :: "string \<Rightarrow> bool" where
  "domainless_pattern v \<longleftrightarrow>
     43 \<le> length v \<and> list_all base64_char (take 43 v) \<and> (drop 43 v = [] \<or> drop 43 v = [CHR 0x0A])"

definition RoomID_from_string :: "string \<Rightarrow> room_id res" where
  "RoomID_from_string s =
     (if s = [] \<or> hd s \<noteq> RoomIdWithDomain_SIGIL
      then Inl (SynapseError 400 ''Expected string to start with sigil'')
      else if CHR '':'' \<in> set s then
        bindE (dss_from_string RoomIdWithDomain_SIGIL s)
          (\<lambda>d. Inr \<lparr>rid_id = s, room_id_with_domain = Some d\<rparr>)
      else if \<not> domainless_pattern (tl s)
      then Inl (SynapseError 400 ''Expected string to be valid urlsafe unpadded base64'')
      else Inr \<lparr>rid_id = s, room_id_with_domain = None\<rparr>)"

definition RoomID_is_valid :: "(string \<Rightarrow> bool) \<Rightarrow> string \<Rightarrow> bool" where
  "RoomID_is_valid valid_ipv6 s =
     (if CHR '':'' \<in> set s then dss_is_valid valid_ipv6 RoomIdWithDomain_SIGIL s
      else (case RoomID_from_string s of Inl _ \<Rightarrow> False | Inr _ \<Rightarrow> True))"

definition RoomID_get_domain :: "room_id \<Rightarrow> string option" where
  "RoomID_get_domain r = map_option domain (room_id_with_domain r)"

definition RoomID_to_string :: "room_id \<Rightarrow> string" where
  "RoomID_to_string r = (case room_id_with_domain r of
      Some d \<Rightarrow> dss_to_string RoomIdWithDomain_SIGIL d
    | None \<Rightarrow> rid_id r)"

section \<open>Mapping user names to localparts\<close>

definition mxid_char :: "char \<Rightarrow> bool" where
  "mxid_char c \<longleftrightarrow>
     c \<in> set ''_-./=+'' \<or> (97 \<le> byte c \<and> byte c \<le> 122) \<or> is_digit c"

definition contains_invalid_mxid_characters :: "string \<Rightarrow> bool" where
  "contains_invalid_mxid_characters lp \<longleftrightarrow> \<not> list_all mxid_char lp"

definition is_upper :: "char \<Rightarrow> bool" where
  "is_upper c \<longleftrightarrow> 65 \<le> byte c \<and> byte c \<le> 90"

definition to_lower :: "char \<Rightarrow> char" where
  "to_lower c = (if is_upper c then char_of (byte c + 32) else c)"

definition hex_digit :: "nat \<Rightarrow> char" where
  "hex_digit n = (if n < 10 then char_of (48 + n) else char_of (87 + n))"

text \<open>The three substitutions: \<open>f1\<close>, \<open>f2\<close> and the leading underscore.\<close>

definition case_escape :: "char \<Rightarrow> string" where
  "case_escape c = (if is_upper c \<or> c = CHR ''_'' then [CHR ''_'', to_lower c] else [c])"

definition mxid_escape :: "char \<Rightarrow> string" where
  "mxid_escape c =
     (if mxid_char c \<and> c \<noteq> CHR ''='' then [c]
      else [CHR ''='', hex_digit (byte c div 16), hex_digit (byte c mod 16)])"

definition underscore_escape :: "string \<Rightarrow> string" where
  "underscore_escape s = (case s of
      c # cs \<Rightarrow> if c = CHR ''_'' then ''=5f'' @ cs else s
    | [] \<Rightarrow> [])"

definition map_username_to_mxid_localpart :: "string \<Rightarrow> bool \<Rightarrow> string" where
  "map_username_to_mxid_localpart username case_sensitive =
     underscore_escape (concat (map mxid_escape
       (if case_sensitive then concat (map case_escape username)
        else map to_lower username)))"

section \<open>Lemmas: ids\<close>

lemma get_domain_from_id_Inr:
  "get_domain_from_id s = Inr d \<longleftrightarrow> (\<exists>a. s = a @ CHR '':'' # d \<and> CHR '':'' \<notin> set a)"
  by (cases s rule: split_first_cases [of "CHR '':''"])
    (auto simp: get_domain_from_id_def append_sep_eq)

lemma get_domain_from_id_Inl:
  "get_domain_from_id s = Inl e \<longleftrightarrow> CHR '':'' \<notin> set s \<and> e = SynapseError 400 ''Invalid ID''"
  by (cases s rule: split_first_cases [of "CHR '':''"]) (auto simp: get_domain_from_id_def)

lemma dss_from_string_Inr:
  "dss_from_string sg s = Inr obj \<longleftrightarrow>
     s = dss_to_string sg obj \<and> CHR '':'' \<notin> set (localpart obj)"
proof (cases "s = [] \<or> hd s \<noteq> sg")
  case True
  then show ?thesis by (auto simp: dss_from_string_def dss_to_string_def)
next
  case False
  then obtain t where s: "s = sg # t" by (cases s) auto
  show ?thesis
    by (cases t rule: split_first_cases [of "CHR '':''"])
      (auto simp: s dss_from_string_def dss_to_string_def append_sep_eq)
qed

lemma get_domain_dss_to_string:
  "sg \<noteq> CHR '':'' \<Longrightarrow> CHR '':'' \<notin> set (localpart obj) \<Longrightarrow>
     get_domain_from_id (dss_to_string sg obj) = Inr (domain obj)"
  unfolding get_domain_from_id_Inr dss_to_string_def
  by (rule exI [of _ "sg # localpart obj"]) simp

text \<open>
  Parsing a sigil-prefixed id and printing it are inverse to each other: what
  \<open>from_string\<close> accepts prints back as the same string, every structure whose localpart has no
  colon is read back from its text, and the domain of an id that parses is the one that
  \<open>get_domain_from_id\<close> finds.
\<close>

theorem domain_specific_string_roundtrip:
  assumes "sg \<noteq> CHR '':''"
  shows "(dss_from_string sg s = Inr obj \<longrightarrow>
       dss_to_string sg obj = s \<and> get_domain_from_id s = Inr (domain obj))
     \<and> (CHR '':'' \<notin> set (localpart obj) \<longrightarrow>
       dss_from_string sg (dss_to_string sg obj) = Inr obj)"
  using assms by (auto simp: dss_from_string_Inr get_domain_dss_to_string)

theorem domain_specific_string_roundtrip_witness:
  "get_domain_from_id ''@al:b:80'' = Inr ''b:80''
   \<and> dss_from_string UserID_SIGIL (dss_to_string UserID_SIGIL \<lparr>localpart = ''al'', domain = ''b:80''\<rparr>)
       = Inr \<lparr>localpart = ''al'', domain = ''b:80''\<rparr>"
proof -
  have sg: "UserID_SIGIL \<noteq> CHR '':''" by (simp add: UserID_SIGIL_def)
  have "dss_from_string UserID_SIGIL ''@al:b:80'' = Inr \<lparr>localpart = ''al'', domain = ''b:80''\<rparr>"
    by (simp add: dss_from_string_def UserID_SIGIL_def)
  with domain_specific_string_roundtrip [OF sg, of "''@al:b:80''" "\<lparr>localpart = ''al'', domain = ''b:80''\<rparr>"]
  show ?thesis by simp
qed

section \<open>Lemmas: room ids\<close>

text \<open>
  A room id that \<open>RoomID.from_string\<close> accepts prints back as itself, and is either an id
  with a domain or 43 characters of urlsafe base64, optionally followed by a newline: the
  regular expression ends in \<open>$\<close> and not in the end-of-string anchor.
\<close>

theorem room_id_roundtrip:
  assumes "RoomID_from_string s = Inr r"
  shows "RoomID_to_string r = s
    \<and> (case RoomID_get_domain r of
         Some d \<Rightarrow> get_domain_from_id s = Inr d
       | None \<Rightarrow> \<exists>b. list_all base64_char b \<and> length b = 43
           \<and> (s = CHR ''!'' # b \<or> s = CHR ''!'' # b @ [CHR 0x0A]))"
proof (cases "CHR '':'' \<in> set s")
  case True
  with assms obtain d where d: "dss_from_string RoomIdWithDomain_SIGIL s = Inr d"
    and r: "r = \<lparr>rid_id = s, room_id_with_domain = Some d\<rparr>"
    by (auto simp: RoomID_from_string_def split: if_splits)
  then show ?thesis
    by (auto simp: RoomID_to_string_def RoomID_get_domain_def dss_from_string_Inr
        RoomIdWithDomain_SIGIL_def get_domain_dss_to_string)
next
  case False
  with assms have r: "r = \<lparr>rid_id = s, room_id_with_domain = None\<rparr>"
    and s: "s \<noteq> []" "hd s = CHR ''!''" and pat: "domainless_pattern (tl s)"
    by (auto simp: RoomID_from_string_def RoomIdWithDomain_SIGIL_def split: if_splits)
  from s obtain t where t: "s = CHR ''!'' # t" by (cases s) auto
  with pat have "t = take 43 t \<or> t = take 43 t @ [CHR 0x0A]"
    unfolding domainless_pattern_def by (metis append_take_drop_id append_Nil2 list.sel(3))
  moreover have "list_all base64_char (take 43 t)" "length (take 43 t) = 43"
    using pat t by (simp_all add: domainless_pattern_def)
  ultimately have "\<exists>b. list_all base64_char b \<and> length b = 43
      \<and> (s = CHR ''!'' # b \<or> s = CHR ''!'' # b @ [CHR 0x0A])"
    unfolding t by (intro exI [of _ "take 43 t"]) auto
  with r show ?thesis by (simp add: RoomID_to_string_def RoomID_get_domain_def)
qed

theorem room_id_roundtrip_witness:
  "RoomID_to_string \<lparr>rid_id = ''!r:b'', room_id_with_domain = Some \<lparr>localpart = ''r'', domain = ''b''\<rparr>\<rparr>
     = ''!r:b''"
proof -
  have "RoomID_from_string ''!r:b''
      = Inr \<lparr>rid_id = ''!r:b'', room_id_with_domain = Some \<lparr>localpart = ''r'', domain = ''b''\<rparr>\<rparr>"
    by (simp add: RoomID_from_string_def RoomIdWithDomain_SIGIL_def dss_from_string_def)
  from room_id_roundtrip [OF this] show ?thesis by blast
qed

section \<open>Lemmas: user names\<close>

text \<open>A code whose words never continue each other is uniquely decodable.\<close>

lemma inj_prefix_code:
  assumes "\<And>c. f c \<noteq> []"
    and "\<And>c d r r'. f c @ r = f d @ r' \<Longrightarrow> c = d"
  shows "concat (map f xs) = concat (map f ys) \<Longrightarrow> xs = ys"
proof (induction xs arbitrary: ys)
  case Nil
  then show ?case using assms(1) by (cases ys) auto
next
  case (Cons x xs)
  then obtain y ys' where ys: "ys = y # ys'" using assms(1) by (cases ys) auto
  with Cons.prems have "x = y" by (auto intro: assms(2))
  with Cons ys show ?case by auto
qed

lemma hex_digit_eq:
  assumes "m < 16" "n < 16"
  shows "hex_digit m = hex_digit n \<longleftrightarrow> m = n"
proof
  assume "hex_digit m = hex_digit n"
  then have "byte (hex_digit m) = byte (hex_digit n)" by simp
  with assms show "m = n" by (auto simp: hex_digit_def byte_def split: if_splits)
qed simp

lemma byte_less: "byte c < 256"
  by (simp add: byte_def)

lemma byte_eq: "byte c = byte d \<longleftrightarrow> c = d"
  by (simp add: byte_def)

lemma mxid_escape_not_Nil: "mxid_escape c \<noteq> []"
  by (simp add: mxid_escape_def)

lemma case_escape_not_Nil: "case_escape c \<noteq> []"
  by (simp add: case_escape_def)

lemma mxid_escape_prefix_free:
  assumes "mxid_escape c @ r = mxid_escape d @ r'"
  shows "c = d"
proof (cases "mxid_char c \<and> c \<noteq> CHR ''=''")
  case True
  with assms show ?thesis by (auto simp: mxid_escape_def split: if_splits)
next
  case False
  with assms have "hex_digit (byte c div 16) = hex_digit (byte d div 16)"
    and "hex_digit (byte c mod 16) = hex_digit (byte d mod 16)"
    by (auto simp: mxid_escape_def split: if_splits)
  then have "byte c div 16 = byte d div 16" "byte c mod 16 = byte d mod 16"
    using byte_less [of c] byte_less [of d] by (simp_all add: hex_digit_eq)
  then have "byte c = byte d" by (metis div_mult_mod_eq)
  then show ?thesis by (simp add: byte_eq)
qed

lemma byte_to_lower: "is_upper c \<Longrightarrow> byte (to_lower c) = byte c + 32"
  by (simp add: to_lower_def is_upper_def byte_def)

lemma case_escape_prefix_free:
  assumes "case_escape c @ r = case_escape d @ r'"
  shows "c = d"
proof -
  have low: "byte (to_lower x) = byte x + 32 \<or> byte (to_lower x) = 95"
    if "is_upper x \<or> x = CHR ''_''" for x
    using that by (auto simp: byte_to_lower) (simp add: to_lower_def is_upper_def byte_def)
  have us: "byte (CHR ''_'') = 95" by (simp add: byte_def)
  show ?thesis
    using assms low [of c] low [of d] us
    by (auto simp: case_escape_def byte_to_lower is_upper_def simp flip: byte_eq split: if_splits)
qed

lemma mxid_escape_valid: "list_all mxid_char (mxid_escape c)"
proof -
  have hex: "mxid_char (hex_digit n)" if "n < 16" for n
    using that by (auto simp: hex_digit_def mxid_char_def is_digit_def byte_def)
  have "byte c div 16 < 16" using byte_less [of c] by simp
  moreover have "mxid_char (CHR ''='')" by (simp add: mxid_char_def)
  ultimately show ?thesis by (auto simp: mxid_escape_def hex)
qed

lemma underscore_escape_valid: "list_all mxid_char s \<Longrightarrow> list_all mxid_char (underscore_escape s)"
  by (cases s) (auto simp: underscore_escape_def mxid_char_def is_digit_def byte_def)

lemma mxid_escape_not_5f: "mxid_escape c @ r \<noteq> ''=5f'' @ r'"
proof
  assume eq: "mxid_escape c @ r = ''=5f'' @ r'"
  have hex: "CHR ''5'' = hex_digit 5" "CHR ''f'' = hex_digit 15" by code_simp+
  show False
  proof (cases "mxid_char c \<and> c \<noteq> CHR ''=''")
    case True
    with eq show False by (auto simp: mxid_escape_def)
  next
    case False
    with eq have "hex_digit (byte c div 16) = hex_digit 5" "hex_digit (byte c mod 16) = hex_digit 15"
      by (auto simp: mxid_escape_def hex)
    then have "byte c div 16 = 5" "byte c mod 16 = 15"
      using byte_less [of c] by (simp_all add: hex_digit_eq)
    then have "byte c = 5 * 16 + 15" by (metis div_mult_mod_eq)
    then have "c = CHR ''_''" by (simp add: byte_eq [symmetric] byte_def)
    with False show False by (simp add: mxid_char_def)
  qed
qed

lemma underscore_escape_inj:
  assumes "underscore_escape a = underscore_escape b"
    and "\<And>r. a \<noteq> ''=5f'' @ r" and "\<And>r. b \<noteq> ''=5f'' @ r"
  shows "a = b"
  using assms by (cases a; cases b) (auto simp: underscore_escape_def split: if_splits)

lemma mxid_escaped_not_5f: "concat (map mxid_escape zs) \<noteq> ''=5f'' @ r"
  by (cases zs) (simp_all add: mxid_escape_not_5f del: append_Cons)

text \<open>
  \<open>map_username_to_mxid_localpart\<close> always produces a string of characters that are allowed
  in a Matrix localpart, and in the case-sensitive mode different user names (as byte strings)
  are mapped to different localparts.
\<close>

theorem map_username_correct:
  "\<not> contains_invalid_mxid_characters (map_username_to_mxid_localpart u cs)
   \<and> inj (\<lambda>v. map_username_to_mxid_localpart v True)"
proof
  have "list_all mxid_char (concat (map mxid_escape s))" for s
    using mxid_escape_valid by (induction s) auto
  then show "\<not> contains_invalid_mxid_characters (map_username_to_mxid_localpart u cs)"
    by (simp add: contains_invalid_mxid_characters_def map_username_to_mxid_localpart_def
        underscore_escape_valid)
  show "inj (\<lambda>v. map_username_to_mxid_localpart v True)"
  proof (rule injI)
    fix v w
    assume "map_username_to_mxid_localpart v True = map_username_to_mxid_localpart w True"
    then have "concat (map mxid_escape (concat (map case_escape v)))
        = concat (map mxid_escape (concat (map case_escape w)))"
      unfolding map_username_to_mxid_localpart_def if_True
      by (rule underscore_escape_inj [OF _ mxid_escaped_not_5f mxid_escaped_not_5f])
    then have "concat (map case_escape v) = concat (map case_escape w)"
      by - (rule inj_prefix_code [of mxid_escape], rule mxid_escape_not_Nil,
          erule mxid_escape_prefix_free)
    then show "v = w"
      by - (rule inj_prefix_code [of case_escape], rule case_escape_not_Nil,
          erule case_escape_prefix_free)
  qed
qed

end
