(* ===== verification/Events.thy ===== *)
theory Events
  imports Room_Versions Identifiers
begin

text \<open>
  \<open>events/__init__.py\<close> and the constants of \<open>api/constants.py\<close>: the event object that every
  other component works on. The record holds the typed view of the event's dictionary that the
  properties of \<open>EventBase\<close> give (an absent optional entry is \<open>None\<close>) and the attributes beside
  it. \<open>ev_event_id\<close> is the value of the \<open>event_id\<close> property: in the newer formats the reference
  hash of the event, which the crypto code computes. Reading an absent entry raises, as the
  properties do.
\<close>

section \<open>Constants\<close>

definition EventTypes_Member :: string where [const_defs]:
  "EventTypes_Member = ''m.room.member''"

definition EventTypes_Create :: string where [const_defs]:
  "EventTypes_Create = ''m.room.create''"

definition EventTypes_JoinRules :: string where [const_defs]:
  "EventTypes_JoinRules = ''m.room.join_rules''"

definition EventTypes_PowerLevels :: string where [const_defs]:
  "EventTypes_PowerLevels = ''m.room.power_levels''"

definition EventTypes_Aliases :: string where [const_defs]:
  "EventTypes_Aliases = ''m.room.aliases''"

definition EventTypes_Redaction :: string where [const_defs]:
  "EventTypes_Redaction = ''m.room.redaction''"

definition EventTypes_ThirdPartyInvite :: string where [const_defs]:
  "EventTypes_ThirdPartyInvite = ''m.room.third_party_invite''"

definition EventTypes_Message :: string where [const_defs]:
  "EventTypes_Message = ''m.room.message''"

definition EventTypes_Topic :: string where [const_defs]:
  "EventTypes_Topic = ''m.room.topic''"

definition EventTypes_Sticker :: string where [const_defs]:
  "EventTypes_Sticker = ''m.sticker''"

definition Membership_INVITE :: string where [const_defs]:
  "Membership_INVITE = ''invite''"

definition Membership_JOIN :: string where [const_defs]:
  "Membership_JOIN = ''join''"

definition Membership_KNOCK :: string where [const_defs]:
  "Membership_KNOCK = ''knock''"

definition Membership_LEAVE :: string where [const_defs]:
  "Membership_LEAVE = ''leave''"

definition Membership_BAN :: string where [const_defs]:
  "Membership_BAN = ''ban''"

definition JoinRules_PUBLIC :: string where [const_defs]:
  "JoinRules_PUBLIC = ''public''"

definition JoinRules_KNOCK :: string where [const_defs]:
  "JoinRules_KNOCK = ''knock''"

definition JoinRules_INVITE :: string where [const_defs]:
  "JoinRules_INVITE = ''invite''"

definition JoinRules_PRIVATE :: string where [const_defs]:
  "JoinRules_PRIVATE = ''private''"

definition JoinRules_RESTRICTED :: string where [const_defs]:
  "JoinRules_RESTRICTED = ''restricted''"

definition JoinRules_KNOCK_RESTRICTED :: string where [const_defs]:
  "JoinRules_KNOCK_RESTRICTED = ''knock_restricted''"

definition EventContentFields_FEDERATE :: string where [const_defs]:
  "EventContentFields_FEDERATE = ''m.federate''"

definition EventContentFields_ROOM_CREATOR :: string where [const_defs]:
  "EventContentFields_ROOM_CREATOR = ''creator''"

definition EventContentFields_ADDITIONAL_CREATORS :: string where [const_defs]:
  "EventContentFields_ADDITIONAL_CREATORS = ''additional_creators''"

definition EventContentFields_AUTHORISING_USER :: string where [const_defs]:
  "EventContentFields_AUTHORISING_USER = ''join_authorised_via_users_server''"

lemma event_types_neq [simp]:
  "EventTypes_Member \<noteq> EventTypes_Create"
  "EventTypes_Member \<noteq> EventTypes_JoinRules"
  "EventTypes_Member \<noteq> EventTypes_PowerLevels"
  "EventTypes_Member \<noteq> EventTypes_Aliases"
  "EventTypes_Member \<noteq> EventTypes_Redaction"
  "EventTypes_Member \<noteq> EventTypes_ThirdPartyInvite"
  "EventTypes_Member \<noteq> EventTypes_Message"
  "EventTypes_Member \<noteq> EventTypes_Topic"
  "EventTypes_Member \<noteq> EventTypes_Sticker"
  "EventTypes_Create \<noteq> EventTypes_Member"
  "EventTypes_Create \<noteq> EventTypes_JoinRules"
  "EventTypes_Create \<noteq> EventTypes_PowerLevels"
  "EventTypes_Create \<noteq> EventTypes_Aliases"
  "EventTypes_Create \<noteq> EventTypes_Redaction"
  "EventTypes_Create \<noteq> EventTypes_ThirdPartyInvite"
  "EventTypes_Create \<noteq> EventTypes_Message"
  "EventTypes_Create \<noteq> EventTypes_Topic"
  "EventTypes_Create \<noteq> EventTypes_Sticker"
  "EventTypes_JoinRules \<noteq> EventTypes_Member"
  "EventTypes_JoinRules \<noteq> EventTypes_Create"
  "EventTypes_JoinRules \<noteq> EventTypes_PowerLevels"
  "EventTypes_JoinRules \<noteq> EventTypes_Aliases"
  "EventTypes_JoinRules \<noteq> EventTypes_Redaction"
  "EventTypes_JoinRules \<noteq> EventTypes_ThirdPartyInvite"
  "EventTypes_JoinRules \<noteq> EventTypes_Message"
  "EventTypes_JoinRules \<noteq> EventTypes_Topic"
  "EventTypes_JoinRules \<noteq> EventTypes_Sticker"
  "EventTypes_PowerLevels \<noteq> EventTypes_Member"
  "EventTypes_PowerLevels \<noteq> EventTypes_Create"
  "EventTypes_PowerLevels \<noteq> EventTypes_JoinRules"
  "EventTypes_PowerLevels \<noteq> EventTypes_Aliases"
  "EventTypes_PowerLevels \<noteq> EventTypes_Redaction"
  "EventTypes_PowerLevels \<noteq> EventTypes_ThirdPartyInvite"
  "EventTypes_PowerLevels \<noteq> EventTypes_Message"
  "EventTypes_PowerLevels \<noteq> EventTypes_Topic"
  "EventTypes_PowerLevels \<noteq> EventTypes_Sticker"
  "EventTypes_Aliases \<noteq> EventTypes_Member"
  "EventTypes_Aliases \<noteq> EventTypes_Create"
  "EventTypes_Aliases \<noteq> EventTypes_JoinRules"
  "EventTypes_Aliases \<noteq> EventTypes_PowerLevels"
  "EventTypes_Aliases \<noteq> EventTypes_Redaction"
  "EventTypes_Aliases \<noteq> EventTypes_ThirdPartyInvite"
  "EventTypes_Aliases \<noteq> EventTypes_Message"
  "EventTypes_Aliases \<noteq> EventTypes_Topic"
  "EventTypes_Aliases \<noteq> EventTypes_Sticker"
  "EventTypes_Redaction \<noteq> EventTypes_Member"
  "EventTypes_Redaction \<noteq> EventTypes_Create"
  "EventTypes_Redaction \<noteq> EventTypes_JoinRules"
  "EventTypes_Redaction \<noteq> EventTypes_PowerLevels"
  "EventTypes_Redaction \<noteq> EventTypes_Aliases"
  "EventTypes_Redaction \<noteq> EventTypes_ThirdPartyInvite"
  "EventTypes_Redaction \<noteq> EventTypes_Message"
  "EventTypes_Redaction \<noteq> EventTypes_Topic"
  "EventTypes_Redaction \<noteq> EventTypes_Sticker"
  "EventTypes_ThirdPartyInvite \<noteq> EventTypes_Member"
  "EventTypes_ThirdPartyInvite \<noteq> EventTypes_Create"
  "EventTypes_ThirdPartyInvite \<noteq> EventTypes_JoinRules"
  "EventTypes_ThirdPartyInvite \<noteq> EventTypes_PowerLevels"
  "EventTypes_ThirdPartyInvite \<noteq> EventTypes_Aliases"
  "EventTypes_ThirdPartyInvite \<noteq> EventTypes_Redaction"
  "EventTypes_ThirdPartyInvite \<noteq> EventTypes_Message"
  "EventTypes_ThirdPartyInvite \<noteq> EventTypes_Topic"
  "EventTypes_ThirdPartyInvite \<noteq> EventTypes_Sticker"
  "EventTypes_Message \<noteq> EventTypes_Member"
  "EventTypes_Message \<noteq> EventTypes_Create"
  "EventTypes_Message \<noteq> EventTypes_JoinRules"
  "EventTypes_Message \<noteq> EventTypes_PowerLevels"
  "EventTypes_Message \<noteq> EventTypes_Aliases"
  "EventTypes_Message \<noteq> EventTypes_Redaction"
  "EventTypes_Message \<noteq> EventTypes_ThirdPartyInvite"
  "EventTypes_Message \<noteq> EventTypes_Topic"
  "EventTypes_Message \<noteq> EventTypes_Sticker"
  "EventTypes_Topic \<noteq> EventTypes_Member"
  "EventTypes_Topic \<noteq> EventTypes_Create"
  "EventTypes_Topic \<noteq> EventTypes_JoinRules"
  "EventTypes_Topic \<noteq> EventTypes_PowerLevels"
  "EventTypes_Topic \<noteq> EventTypes_Aliases"
  "EventTypes_Topic \<noteq> EventTypes_Redaction"
  "EventTypes_Topic \<noteq> EventTypes_ThirdPartyInvite"
  "EventTypes_Topic \<noteq> EventTypes_Message"
  "EventTypes_Topic \<noteq> EventTypes_Sticker"
  "EventTypes_Sticker \<noteq> EventTypes_Member"
  "EventTypes_Sticker \<noteq> EventTypes_Create"
  "EventTypes_Sticker \<noteq> EventTypes_JoinRules"
  "EventTypes_Sticker \<noteq> EventTypes_PowerLevels"
  "EventTypes_Sticker \<noteq> EventTypes_Aliases"
  "EventTypes_Sticker \<noteq> EventTypes_Redaction"
  "EventTypes_Sticker \<noteq> EventTypes_ThirdPartyInvite"
  "EventTypes_Sticker \<noteq> EventTypes_Message"
  "EventTypes_Sticker \<noteq> EventTypes_Topic"
  by (simp_all add: const_defs)

lemma memberships_neq [simp]:
  "Membership_INVITE \<noteq> Membership_JOIN"
  "Membership_INVITE \<noteq> Membership_KNOCK"
  "Membership_INVITE \<noteq> Membership_LEAVE"
  "Membership_INVITE \<noteq> Membership_BAN"
  "Membership_JOIN \<noteq> Membership_INVITE"
  "Membership_JOIN \<noteq> Membership_KNOCK"
  "Membership_JOIN \<noteq> Membership_LEAVE"
  "Membership_JOIN \<noteq> Membership_BAN"
  "Membership_KNOCK \<noteq> Membership_INVITE"
  "Membership_KNOCK \<noteq> Membership_JOIN"
  "Membership_KNOCK \<noteq> Membership_LEAVE"
  "Membership_KNOCK \<noteq> Membership_BAN"
  "Membership_LEAVE \<noteq> Membership_INVITE"
  "Membership_LEAVE \<noteq> Membership_JOIN"
  "Membership_LEAVE \<noteq> Membership_KNOCK"
  "Membership_LEAVE \<noteq> Membership_BAN"
  "Membership_BAN \<noteq> Membership_INVITE"
  "Membership_BAN \<noteq> Membership_JOIN"
  "Membership_BAN \<noteq> Membership_KNOCK"
  "Membership_BAN \<noteq> Membership_LEAVE"
  by (simp_all add: const_defs)

lemma join_rules_neq [simp]:
  "JoinRules_PUBLIC \<noteq> JoinRules_KNOCK"
  "JoinRules_PUBLIC \<noteq> JoinRules_INVITE"
  "JoinRules_PUBLIC \<noteq> JoinRules_PRIVATE"
  "JoinRules_PUBLIC \<noteq> JoinRules_RESTRICTED"
  "JoinRules_PUBLIC \<noteq> JoinRules_KNOCK_RESTRICTED"
  "JoinRules_KNOCK \<noteq> JoinRules_PUBLIC"
  "JoinRules_KNOCK \<noteq> JoinRules_INVITE"
  "JoinRules_KNOCK \<noteq> JoinRules_PRIVATE"
  "JoinRules_KNOCK \<noteq> JoinRules_RESTRICTED"
  "JoinRules_KNOCK \<noteq> JoinRules_KNOCK_RESTRICTED"
  "JoinRules_INVITE \<noteq> JoinRules_PUBLIC"
  "JoinRules_INVITE \<noteq> JoinRules_KNOCK"
  "JoinRules_INVITE \<noteq> JoinRules_PRIVATE"
  "JoinRules_INVITE \<noteq> JoinRules_RESTRICTED"
  "JoinRules_INVITE \<noteq> JoinRules_KNOCK_RESTRICTED"
  "JoinRules_PRIVATE \<noteq> JoinRules_PUBLIC"
  "JoinRules_PRIVATE \<noteq> JoinRules_KNOCK"
  "JoinRules_PRIVATE \<noteq> JoinRules_INVITE"
  "JoinRules_PRIVATE \<noteq> JoinRules_RESTRICTED"
  "JoinRules_PRIVATE \<noteq> JoinRules_KNOCK_RESTRICTED"
  "JoinRules_RESTRICTED \<noteq> JoinRules_PUBLIC"
  "JoinRules_RESTRICTED \<noteq> JoinRules_KNOCK"
  "JoinRules_RESTRICTED \<noteq> JoinRules_INVITE"
  "JoinRules_RESTRICTED \<noteq> JoinRules_PRIVATE"
  "JoinRules_RESTRICTED \<noteq> JoinRules_KNOCK_RESTRICTED"
  "JoinRules_KNOCK_RESTRICTED \<noteq> JoinRules_PUBLIC"
  "JoinRules_KNOCK_RESTRICTED \<noteq> JoinRules_KNOCK"
  "JoinRules_KNOCK_RESTRICTED \<noteq> JoinRules_INVITE"
  "JoinRules_KNOCK_RESTRICTED \<noteq> JoinRules_PRIVATE"
  "JoinRules_KNOCK_RESTRICTED \<noteq> JoinRules_RESTRICTED"
  by (simp_all add: const_defs)

definition CREATOR_POWER_LEVEL :: int where
  "CREATOR_POWER_LEVEL = 2 ^ 53"

definition CANONICALJSON_MAX_INT :: int where
  "CANONICALJSON_MAX_INT = 2 ^ 53 - 1"

definition MAX_PDU_SIZE :: nat where
  "MAX_PDU_SIZE = 65536"

definition CREATE_KEY :: "string \<times> string" where
  "CREATE_KEY = (EventTypes_Create, [])"

section \<open>Events\<close>

record event =
  ev_room_version :: room_version
  ev_event_id :: string
  ev_type :: string
  ev_sender :: string
  ev_dict_room_id :: "string option"
  ev_dict_state_key :: "string option"
  ev_content :: jdict
  ev_depth :: int
  ev_origin_server_ts :: int
  ev_prev_events :: "string list"
  ev_auth_events :: "string list"
  ev_dict_redacts :: "json option"
  ev_signatures :: "(string, (string, string) pydict) pydict"
  ev_rejected_reason :: "string option"
  ev_recheck_redaction :: bool

text \<open>\<open>StateMap[EventBase]\<close>, as the authorisation rules read it.\<close>

type_synonym auth_map = "string \<times> string \<Rightarrow> event option"

text \<open>\<open>d.get(key)\<close> and \<open>d.get(key, default)\<close> on a JSON dictionary; \<open>None\<close> is \<open>JNull\<close>.\<close>

definition jget :: "jdict \<Rightarrow> string \<Rightarrow> json" where
  "jget d k = (case dget d k of None \<Rightarrow> JNull | Some v \<Rightarrow> v)"

definition jget_default :: "jdict \<Rightarrow> string \<Rightarrow> json \<Rightarrow> json" where
  "jget_default d k v0 = (case dget d k of None \<Rightarrow> v0 | Some v \<Rightarrow> v)"

text \<open>\<open>user_id\<close> is the same property as \<open>sender\<close>.\<close>

abbreviation ev_user_id :: "event \<Rightarrow> string" where
  "ev_user_id \<equiv> ev_sender"

definition get_state_key :: "event \<Rightarrow> string option" where
  "get_state_key e = ev_dict_state_key e"

definition is_state :: "event \<Rightarrow> bool" where
  "is_state e \<longleftrightarrow> get_state_key e \<noteq> None"

definition event_state_key :: "event \<Rightarrow> string res" where
  "event_state_key e = optE AttributeError (ev_dict_state_key e)"

definition format_version :: "event \<Rightarrow> event_format_version" where
  "format_version e = event_format (ev_room_version e)"

text \<open>
  \<open>room_id\<close>: the entry of the dictionary, except that \<open>FrozenEventV4\<close> computes it for create
  events from the same reference hash that gives the event id.
\<close>

definition event_room_id :: "event \<Rightarrow> string res" where
  "event_room_id e =
     (if format_version e = ROOM_V11_HYDRA_PLUS
         \<and> ev_type e = EventTypes_Create \<and> get_state_key e = Some []
      then Inr (CHR ''!'' # drop 1 (ev_event_id e))
      else optE KeyError (ev_dict_room_id e))"

definition membership :: "event \<Rightarrow> json res" where
  "membership e = optE KeyError (dget (ev_content e) ''membership'')"

definition redacts :: "event \<Rightarrow> json" where
  "redacts e =
     (if updated_redaction_rules (ev_room_version e) then jget (ev_content e) ''redacts''
      else (case ev_dict_redacts e of None \<Rightarrow> JNull | Some v \<Rightarrow> v))"

definition prev_event_ids :: "event \<Rightarrow> string list" where
  "prev_event_ids e = ev_prev_events e"

definition auth_event_ids :: "event \<Rightarrow> string list res" where
  "auth_event_ids e =
     (if format_version e = ROOM_V11_HYDRA_PLUS then
        bindE (event_room_id e) (\<lambda>rid.
          let create_event_id = CHR ''$'' # drop 1 rid in
          bindE (guardE (create_event_id \<notin> set (ev_auth_events e)) AssertionError) (\<lambda>_.
            if ev_type e = EventTypes_Create \<and> get_state_key e = Some []
            then Inr (ev_auth_events e)
            else Inr (ev_auth_events e @ [create_event_id])))
      else Inr (ev_auth_events e))"

section \<open>Relations\<close>

record event_relation =
  parent_id :: string
  rel_type :: string
  aggregation_key :: "string option"

definition relation_from_event :: "event \<Rightarrow> event_relation option" where
  "relation_from_event e =
     (case jget (ev_content e) ''m.relates_to'' of
        JDict relation \<Rightarrow>
          if relation = [] then None
          else (case (jget relation ''rel_type'', jget relation ''event_id'') of
              (JStr rt, JStr pid) \<Rightarrow>
                Some \<lparr>parent_id = pid, rel_type = rt,
                      aggregation_key =
                        (if rt = ''m.annotation''
                         then (case jget relation ''key'' of JStr k \<Rightarrow> Some k | _ \<Rightarrow> None)
                         else None)\<rparr>
            | _ \<Rightarrow> None)
      | _ \<Rightarrow> None)"

section \<open>Room creators\<close>

text \<open>Iterating over a JSON value, and \<open>set(v)\<close>: its members must be hashable.\<close>

fun py_iter :: "json \<Rightarrow> json list res" where
  "py_iter (JList l) = Inr l"
| "py_iter (JStr s) = Inr (map JStr (py_chars s))"
| "py_iter (JDict d) = Inr (map (\<lambda>(k, _). JStr k) d)"
| "py_iter _ = Inl TypeError"

definition py_set :: "json \<Rightarrow> json list res" where
  "py_set v = bindE (py_iter v) (\<lambda>l.
     bindE (guardE (list_all hashable l) TypeError) (\<lambda>_. Inr l))"

definition is_creator :: "event \<Rightarrow> string \<Rightarrow> bool res" where
  "is_creator create user_id =
     bindE (guardE (ev_type create = EventTypes_Create) AssertionError) (\<lambda>_.
       if ev_sender create = user_id then Inr True
       else if msc4289_creator_power_enabled (ev_room_version create) then
         bindE (py_set (jget_default (ev_content create) EventContentFields_ADDITIONAL_CREATORS (JList [])))
           (\<lambda>additional_creators. Inr (JStr user_id \<in> set additional_creators))
       else Inr False)"

section \<open>Lemmas\<close>

lemma auth_event_ids_old_format:
  "format_version e \<noteq> ROOM_V11_HYDRA_PLUS \<Longrightarrow> auth_event_ids e = Inr (ev_auth_events e)"
  by (simp add: auth_event_ids_def)

lemma auth_event_ids_superset:
  "auth_event_ids e = Inr ids \<Longrightarrow> set (ev_auth_events e) \<subseteq> set ids"
  by (auto simp: auth_event_ids_def Let_def split: if_splits)

text \<open>
  In the rooms whose id is the hash of the create event, the create event's own room id and the
  create event id that the other events of the room add to their auth events agree.
\<close>

lemma hydra_create_event_in_auth:
  assumes c: "ev_type c = EventTypes_Create" "get_state_key c = Some []"
      "format_version c = ROOM_V11_HYDRA_PLUS" "ev_event_id c = CHR ''$'' # h"
    and e: "format_version e = ROOM_V11_HYDRA_PLUS" "ev_type e \<noteq> EventTypes_Create"
    and same: "event_room_id c = event_room_id e"
    and ids: "auth_event_ids e = Inr ids"
  shows "ev_event_id c \<in> set ids"
  using assms by (auto simp: event_room_id_def auth_event_ids_def Let_def)

end
