(* ===== verification/Setka_Channel_Rules.thy ===== *)
theory Setka_Channel_Rules
  imports Events
begin

text \<open>
  The pure part of \<open>handlers/setka_channels.py\<close>: when a room is a Setka broadcast channel, when
  a message is a threaded comment, and the send level that \<open>event_auth._can_send_event\<close> takes
  from here. The lemmas characterise the override exactly.
\<close>

section \<open>Topics\<close>

definition CHANNEL_TOPIC_PREFIX :: string where
  "CHANNEL_TOPIC_PREFIX = ''setka:channel''"

definition FEED_EVENT_TYPES :: "string list" where
  "FEED_EVENT_TYPES = [EventTypes_Message, EventTypes_Sticker]"

definition THREAD_REL_TYPES :: "string list" where
  "THREAD_REL_TYPES = [''m.thread'', ''io.element.thread'']"

text \<open>
  \<open>str(v)\<close>. Of a float, list or dictionary only the start of the text is kept: the callers
  compare it with the ASCII prefix above, which already differs there.
\<close>

fun py_str :: "json \<Rightarrow> string" where
  "py_str (JStr s) = s"
| "py_str (JInt i) = str_of_int i"
| "py_str (JBool b) = (if b then ''True'' else ''False'')"
| "py_str JNull = ''None''"
| "py_str (JFloat (Finite m e)) = (if m < 0 then ''-'' else ''0'')"
| "py_str (JFloat PosInf) = ''inf''"
| "py_str (JFloat NegInf) = ''-inf''"
| "py_str (JFloat NaN) = ''nan''"
| "py_str (JList _) = ''[''"
| "py_str (JDict _) = ''{''"

definition topic_from_state :: "auth_map \<Rightarrow> string" where
  "topic_from_state state =
     (case state (EventTypes_Topic, []) of
        None \<Rightarrow> []
      | Some topic_event \<Rightarrow>
          (let v = jget (ev_content topic_event) ''topic'' in
           if truthy v then py_str v else []))"

definition is_setka_channel_state :: "auth_map \<Rightarrow> bool" where
  "is_setka_channel_state state \<longleftrightarrow>
     py_startswith (py_lower (py_strip (topic_from_state state))) (py_lower CHANNEL_TOPIC_PREFIX)"

section \<open>Channel tags\<close>

text \<open>
  A character of \<open>[a-z0-9_]\<close> under \<open>re.IGNORECASE\<close>: also the ASCII capitals and the four other
  code points that fold to an ASCII letter (U+0130, U+0131, U+017F, U+212A).
\<close>

definition tag_char :: "string \<Rightarrow> bool" where
  "tag_char ch \<longleftrightarrow>
     (case ch of [c] \<Rightarrow> is_ascii_letter c \<or> is_digit c \<or> c = CHR ''_''
      | _ \<Rightarrow> map byte ch \<in> {[196, 176], [196, 177], [197, 191], [226, 132, 170]})"

text \<open>\<open>_TAG_PATTERN.match\<close>, with the group of the match; \<open>$\<close> allows a trailing newline.\<close>

definition match_tag :: "string \<Rightarrow> string option" where
  "match_tag s =
     (case py_chars s of
        [] \<Rightarrow> None
      | h # cs \<Rightarrow>
          (let tag = takeWhile tag_char cs; rest = dropWhile tag_char cs in
           if h = ''#'' \<and> 3 \<le> length tag \<and> length tag \<le> 32 \<and> (rest = [] \<or> rest = [[CHR 0x0A]])
           then Some (concat tag) else None))"

definition parse_channel_tag :: "string \<Rightarrow> string option" where
  "parse_channel_tag topic =
     (if \<not> py_startswith (py_lower topic) (py_lower CHANNEL_TOPIC_PREFIX) then None
      else
        (let remainder =
           py_strip (concat (drop (py_len CHANNEL_TOPIC_PREFIX) (py_chars (py_strip topic)))) in
         if remainder = [] then None
         else (let first = py_strip (fst (split_first (CHR '' '') remainder)) in
           map_option py_lower (match_tag first))))"

section \<open>Threaded content\<close>

definition is_thread_rel_type :: "json \<Rightarrow> bool res" where
  "is_thread_rel_type rt =
     bindE (guardE (hashable rt) TypeError) (\<lambda>_. Inr (rt \<in> JStr ` set THREAD_REL_TYPES))"

definition is_threaded_content :: "jdict \<Rightarrow> bool res" where
  "is_threaded_content content_map =
     bindE (case as_mapping (jget content_map ''m.relates_to'') of
         None \<Rightarrow> Inr False
       | Some relates \<Rightarrow>
           (let rt = jget relates ''rel_type'' in
            bindE (is_thread_rel_type rt) (\<lambda>is_thread.
              if is_thread then Inr True
              else if truthy rt \<and> truthy (jget relates ''event_id'') then Inr True
              else (case as_mapping (jget relates ''m.in_reply_to'') of
                  Some in_reply \<Rightarrow> Inr (truthy (jget in_reply ''event_id''))
                | None \<Rightarrow> Inr False))))
     (\<lambda>found.
       if found then Inr True
       else (case as_mapping (jget content_map ''m.in_reply_to'') of
           Some top_in_reply \<Rightarrow> Inr (truthy (jget top_in_reply ''event_id''))
         | None \<Rightarrow> Inr False))"

section \<open>The send level override\<close>

definition setka_channel_thread_comment_send_level :: "event \<Rightarrow> auth_map \<Rightarrow> int option res" where
  "setka_channel_thread_comment_send_level event auth_events =
     (if ev_type event \<notin> set FEED_EVENT_TYPES then Inr None
      else if \<not> is_setka_channel_state auth_events then Inr None
      else bindE (is_threaded_content (ev_content event)) (\<lambda>threaded.
        if threaded then Inr None
        else (case auth_events (EventTypes_PowerLevels, []) of
            None \<Rightarrow> Inr (Some 0)
          | Some pl_event \<Rightarrow>
              (let v = jget (ev_content pl_event) ''users_default'' in
               case py_int (if truthy v then v else JInt 0) of
                 Inr i \<Rightarrow> Inr (Some i)
               | Inl e \<Rightarrow> (if e = TypeError \<or> e = ValueError then Inr (Some 0) else Inl e)))))"

section \<open>Lemmas\<close>

lemma setka_override_Some:
  assumes "setka_channel_thread_comment_send_level event am = Inr (Some i)"
  shows "ev_type event \<in> set FEED_EVENT_TYPES" and "is_setka_channel_state am"
    and "is_threaded_content (ev_content event) = Inr False"
  using assms
  by (auto simp: setka_channel_thread_comment_send_level_def split: if_splits)

lemma no_topic_no_channel:
  "am (EventTypes_Topic, []) = None \<Longrightarrow> \<not> is_setka_channel_state am"
  by (simp add: is_setka_channel_state_def topic_from_state_def CHANNEL_TOPIC_PREFIX_def
      py_lower_def py_strip_def lower_char_def is_cont_def byte_def)

lemma setka_override_no_topic:
  "am (EventTypes_Topic, []) = None \<Longrightarrow>
     setka_channel_thread_comment_send_level event am = Inr None"
  by (simp add: setka_channel_thread_comment_send_level_def no_topic_no_channel)

lemma setka_override_threaded:
  "is_threaded_content (ev_content event) = Inr True \<Longrightarrow>
     setka_channel_thread_comment_send_level event am = Inr None"
  by (simp add: setka_channel_thread_comment_send_level_def)

lemma setka_override_state_event:
  "ev_type event \<notin> set FEED_EVENT_TYPES \<Longrightarrow>
     setka_channel_thread_comment_send_level event am = Inr None"
  by (simp add: setka_channel_thread_comment_send_level_def)

text \<open>The override reads the topic and the power levels and nothing else of the state.\<close>

lemma setka_override_cong:
  assumes "am (EventTypes_Topic, []) = am' (EventTypes_Topic, [])"
    and "am (EventTypes_PowerLevels, []) = am' (EventTypes_PowerLevels, [])"
  shows "setka_channel_thread_comment_send_level event am
       = setka_channel_thread_comment_send_level event am'"
  unfolding setka_channel_thread_comment_send_level_def is_setka_channel_state_def
    topic_from_state_def assms by (rule refl)

end
