(* ===== verification/Event_Auth.thy ===== *)
theory Event_Auth
  imports Setka_Channel_Rules
begin

text \<open>
  \<open>event_auth.py\<close>: the authorisation rules. One definition per function of the module, in
  an order where callees come first. \<open>Inl\<close> is the exception the code raises. The functions of
  other packages that the module calls are the fields of the record \<open>externals\<close>, which the
  functions that use them take as an argument. The properties are in \<open>Event_Auth_Props\<close>.
\<close>

section \<open>External code\<close>

text \<open>
  \<open>valid_ipv6\<close> of netaddr; the length of \<open>encode_canonical_json(event.get_pdu_json())\<close>; and
  \<open>decode_base64\<close>, \<open>decode_verify_key_bytes\<close> and \<open>verify_signed_json\<close> of the signing packages,
  as one check of the signed object, the server, the key name and the public key.
\<close>

record externals =
  ext_valid_ipv6 :: "string \<Rightarrow> bool"
  ext_pdu_size :: "event \<Rightarrow> nat"
  ext_verify_signed :: "jdict \<Rightarrow> string \<Rightarrow> string \<Rightarrow> json \<Rightarrow> unit res"

section \<open>Power levels\<close>

definition get_power_level_event :: "auth_map \<Rightarrow> event option" where
  "get_power_level_event auth_events = auth_events (EventTypes_PowerLevels, [])"

text \<open>The creator of a room before room version 12.\<close>

definition room_creator :: "event \<Rightarrow> json res" where
  "room_creator create_event =
     (if implicit_room_creator (ev_room_version create_event)
      then Inr (JStr (ev_sender create_event))
      else optE KeyError (dget (ev_content create_event) EventContentFields_ROOM_CREATOR))"

definition get_user_power_level :: "string \<Rightarrow> auth_map \<Rightarrow> int res" where
  "get_user_power_level user_id auth_events =
     (case auth_events CREATE_KEY of
        None \<Rightarrow> Inl AssertionError
      | Some create_event \<Rightarrow>
          bindE (if msc4289_creator_power_enabled (ev_room_version create_event)
                 then is_creator create_event user_id else Inr False) (\<lambda>creator.
            if creator then Inr CREATOR_POWER_LEVEL
            else (case get_power_level_event auth_events of
                Some power_level_event \<Rightarrow>
                  (let content = ev_content power_level_event in
                   bindE (json_get (jget_default content ''users'' (JDict [])) user_id) (\<lambda>found.
                     (let level0 = (case found of None \<Rightarrow> JNull | Some v \<Rightarrow> v);
                          level = (if level0 = JNull
                                   then jget_default content ''users_default'' (JInt 0) else level0)
                      in if level = JNull then Inr 0 else py_int level)))
              | None \<Rightarrow>
                  bindE (room_creator create_event) (\<lambda>c.
                    Inr (if c = JStr user_id then 100 else 0)))))"

definition get_named_level :: "auth_map \<Rightarrow> string \<Rightarrow> int \<Rightarrow> int res" where
  "get_named_level auth_events name def =
     (case get_power_level_event auth_events of
        None \<Rightarrow> Inr def
      | Some power_level_event \<Rightarrow>
          (let level = jget (ev_content power_level_event) name in
           if level \<noteq> JNull then py_int level else Inr def))"

definition get_send_level :: "string \<Rightarrow> string option \<Rightarrow> event option \<Rightarrow> int res" where
  "get_send_level etype state_key power_levels_event =
     (let content = (case power_levels_event of Some e \<Rightarrow> ev_content e | None \<Rightarrow> []) in
      bindE (json_get (jget_default content ''events'' (JDict [])) etype) (\<lambda>found.
        (let send_level = (case found of None \<Rightarrow> JNull | Some v \<Rightarrow> v) in
         py_int (if send_level = JNull
                 then (if state_key \<noteq> None
                       then jget_default content ''state_default'' (JInt 50)
                       else jget_default content ''events_default'' (JInt 0))
                 else send_level))))"

section \<open>Membership\<close>

definition can_federate :: "auth_map \<Rightarrow> bool" where
  "can_federate auth_events =
     (case auth_events CREATE_KEY of
        None \<Rightarrow> False
      | Some creation_event \<Rightarrow>
          jget_default (ev_content creation_event) EventContentFields_FEDERATE (JBool True)
            = JBool True)"

definition check_joined_room :: "event option \<Rightarrow> unit res" where
  "check_joined_room member = (case member of
      None \<Rightarrow> Inl (AuthError 403 ''User not in room'')
    | Some m \<Rightarrow>
        bindE (membership m) (\<lambda>ms.
          guardE (ms = JStr Membership_JOIN) (AuthError 403 ''User not in room'')))"

definition check_event_sender_in_room :: "event \<Rightarrow> auth_map \<Rightarrow> unit res" where
  "check_event_sender_in_room event auth_events =
     bindE (event_room_id event) (\<lambda>_.
       check_joined_room (auth_events (EventTypes_Member, ev_user_id event)))"

text \<open>\<open>member and member.membership == value\<close>\<close>

definition member_is :: "event option \<Rightarrow> string \<Rightarrow> bool res" where
  "member_is member value = (case member of
      None \<Rightarrow> Inr False
    | Some m \<Rightarrow> bindE (membership m) (\<lambda>ms. Inr (ms = JStr value)))"

definition get_public_keys :: "event \<Rightarrow> json list res" where
  "get_public_keys invite_event =
     (let content = ev_content invite_event;
          own = (case dget content ''public_key'' of
             None \<Rightarrow> []
           | Some k \<Rightarrow>
               [JDict ((''public_key'', k) #
                  (case dget content ''key_validity_url'' of
                     None \<Rightarrow> [] | Some u \<Rightarrow> [(''key_validity_url'', u)]))])
      in bindE (py_iter (jget_default content ''public_keys'' (JList []))) (\<lambda>l. Inr (own @ l)))"

text \<open>The loops over the signatures of one server and over all servers, for one public key.\<close>

fun try_key_names :: "(string \<Rightarrow> unit res) \<Rightarrow> string list \<Rightarrow> bool res" where
  "try_key_names verify [] = Inr False"
| "try_key_names verify (key_name # ks) =
     (if \<not> py_startswith key_name ''ed25519:'' then try_key_names verify ks
      else bindE (verify key_name) (\<lambda>_. Inr True))"

fun try_servers :: "(string \<Rightarrow> string \<Rightarrow> unit res) \<Rightarrow> (string \<times> json) list \<Rightarrow> bool res" where
  "try_servers verify [] = Inr False"
| "try_servers verify ((server, block) # rest) =
     (case as_mapping block of
        None \<Rightarrow> Inl AttributeError
      | Some b \<Rightarrow>
          bindE (try_key_names (verify server) (dkeys b)) (\<lambda>ok.
            if ok then Inr True else try_servers verify rest))"

text \<open>The loop over the public keys: \<open>KeyError\<close> and \<open>SignatureVerifyException\<close> move on.\<close>

fun try_public_keys :: "(json \<Rightarrow> bool res) \<Rightarrow> json list \<Rightarrow> bool res" where
  "try_public_keys attempt [] = Inr False"
| "try_public_keys attempt (obj # rest) =
     (case as_mapping obj of
        None \<Rightarrow> Inl TypeError
      | Some d \<Rightarrow>
          bindE (optE KeyError (dget d ''public_key'')) (\<lambda>public_key.
            (case attempt public_key of
               Inr ok \<Rightarrow> (if ok then Inr True else try_public_keys attempt rest)
             | Inl e \<Rightarrow> (if e = KeyError \<or> e = SignatureVerifyException
                         then try_public_keys attempt rest else Inl e))))"

definition verify_third_party_invite :: "externals \<Rightarrow> event \<Rightarrow> auth_map \<Rightarrow> bool res" where
  "verify_third_party_invite ext event auth_events =
     (case dget (ev_content event) ''third_party_invite'' of
        None \<Rightarrow> Inr False
      | Some third_party_invite \<Rightarrow>
     (case as_mapping third_party_invite of
        None \<Rightarrow> Inr False
      | Some tpi \<Rightarrow>
     (case dget tpi ''signed'' of
        None \<Rightarrow> Inr False
      | Some signed_value \<Rightarrow>
     (case as_mapping signed_value of
        None \<Rightarrow> Inr False
      | Some signed \<Rightarrow>
     (case (dget signed ''mxid'', dget signed ''token'', dget signed ''signatures'') of
        (Some mxid, Some token, Some signatures) \<Rightarrow>
          bindE (guardE (hashable token) TypeError) (\<lambda>_.
            (case (case token of JStr t \<Rightarrow> auth_events (EventTypes_ThirdPartyInvite, t) | _ \<Rightarrow> None) of
               None \<Rightarrow> Inr False
             | Some invite_event \<Rightarrow>
                 if ev_sender invite_event \<noteq> ev_sender event then Inr False
                 else bindE (event_state_key event) (\<lambda>state_key.
                   if mxid \<noteq> JStr state_key then Inr False
                   else bindE (get_public_keys invite_event)
                     (try_public_keys (\<lambda>public_key.
                        (case as_mapping signatures of
                           None \<Rightarrow> Inl AttributeError
                         | Some sigs \<Rightarrow>
                             try_servers (\<lambda>server key_name.
                               ext_verify_signed ext signed server key_name public_key) sigs))))))
      | _ \<Rightarrow> Inr False)))))"

text \<open>The first check of \<open>_is_membership_change_allowed\<close>: the creator joins their new room.\<close>

definition creator_joining :: "room_version \<Rightarrow> event \<Rightarrow> auth_map \<Rightarrow> json \<Rightarrow> bool res" where
  "creator_joining room_version event auth_events ms =
     (if length (prev_event_ids event) = 1 \<and> ms = JStr Membership_JOIN then
        (case auth_events CREATE_KEY of
           None \<Rightarrow> Inr False
         | Some create \<Rightarrow>
             if hd (prev_event_ids event) = ev_event_id create then
               bindE (if implicit_room_creator room_version then Inr (JStr (ev_sender create))
                      else optE KeyError (dget (ev_content create) EventContentFields_ROOM_CREATOR))
                 (\<lambda>creator. bindE (event_state_key event) (\<lambda>state_key.
                    Inr (creator = JStr state_key)))
             else Inr False)
      else Inr False)"

text \<open>What the rest of the function computes about caller, target and room before deciding.\<close>

record membership_facts =
  caller_in_room :: bool
  caller_invited :: bool
  caller_knocked :: bool
  target_in_room :: bool
  target_banned :: bool
  join_rule :: json
  user_level :: int
  target_level :: int
  invite_level :: int
  ban_level :: int

definition membership_facts_of ::
    "room_version \<Rightarrow> event \<Rightarrow> string \<Rightarrow> auth_map \<Rightarrow> membership_facts res" where
  "membership_facts_of room_version event target_user_id auth_events =
     (let caller = auth_events (EventTypes_Member, ev_user_id event);
          target = auth_events (EventTypes_Member, target_user_id);
          jr = (case auth_events (EventTypes_JoinRules, []) of
             Some e \<Rightarrow> jget_default (ev_content e) ''join_rule'' (JStr JoinRules_INVITE)
           | None \<Rightarrow> JStr JoinRules_INVITE)
      in bindE (member_is caller Membership_JOIN) (\<lambda>c_join.
         bindE (member_is caller Membership_INVITE) (\<lambda>c_invite.
         bindE (if knock_join_rule room_version then member_is caller Membership_KNOCK else Inr False)
           (\<lambda>c_knock.
         bindE (member_is target Membership_JOIN) (\<lambda>t_join.
         bindE (member_is target Membership_BAN) (\<lambda>t_ban.
         bindE (get_user_power_level (ev_user_id event) auth_events) (\<lambda>ul.
         bindE (get_user_power_level target_user_id auth_events) (\<lambda>tl.
         bindE (get_named_level auth_events ''invite'' 0) (\<lambda>il.
         bindE (get_named_level auth_events ''ban'' 50) (\<lambda>bl.
           Inr \<lparr>caller_in_room = c_join, caller_invited = c_invite, caller_knocked = c_knock,
                target_in_room = t_join, target_banned = t_ban, join_rule = jr,
                user_level = ul, target_level = tl, invite_level = il, ban_level = bl\<rparr>))))))))))"

definition INSUFFICIENT_POWER :: string where
  "INSUFFICIENT_POWER = ''ORG.MATRIX.MSC3848.INSUFFICIENT_POWER''"
definition NOT_JOINED :: string where
  "NOT_JOINED = ''ORG.MATRIX.MSC3848.NOT_JOINED''"
definition ALREADY_JOINED :: string where
  "ALREADY_JOINED = ''ORG.MATRIX.MSC3848.ALREADY_JOINED''"

definition check_invite :: "membership_facts \<Rightarrow> unit res" where
  "check_invite f =
     (if target_banned f then Inl (AuthError 403 ''is banned from the room'')
      else if target_in_room f
      then Inl (UnstableSpecAuthError 403 ''is already in the room.'' ALREADY_JOINED)
      else guardE (\<not> user_level f < invite_level f)
        (UnstableSpecAuthError 403 ''You don't have permission to invite users'' INSUFFICIENT_POWER))"

text \<open>A restricted join: the event names a member who could have invited the user.\<close>

definition check_authorising_user :: "event \<Rightarrow> auth_map \<Rightarrow> membership_facts \<Rightarrow> unit res" where
  "check_authorising_user event auth_events f =
     (let authorising_user = jget (ev_content event) EventContentFields_AUTHORISING_USER in
      if authorising_user = JNull then Inl (AuthError 403 ''Join event is missing authorising user.'')
      else bindE (guardE (hashable authorising_user) TypeError) (\<lambda>_.
        bindE (event_room_id event) (\<lambda>_.
        (case authorising_user of
           JStr u \<Rightarrow>
             bindE (check_joined_room (auth_events (EventTypes_Member, u))) (\<lambda>_.
             bindE (get_user_power_level u auth_events) (\<lambda>lvl.
               guardE (\<not> lvl < invite_level f)
                 (AuthError 403 ''Join event authorised by invalid server.'')))
         | _ \<Rightarrow> check_joined_room None))))"

definition check_join :: "room_version \<Rightarrow> event \<Rightarrow> string \<Rightarrow> auth_map \<Rightarrow> membership_facts \<Rightarrow> unit res" where
  "check_join room_version event target_user_id auth_events f =
     (if ev_user_id event \<noteq> target_user_id
      then Inl (AuthError 403 ''Cannot force another user to join.'')
      else if target_banned f then Inl (AuthError 403 ''You are banned from this room'')
      else if join_rule f = JStr JoinRules_PUBLIC then Inr ()
      else if (restricted_join_rule room_version \<and> join_rule f = JStr JoinRules_RESTRICTED)
        \<or> (knock_restricted_join_rule room_version \<and> join_rule f = JStr JoinRules_KNOCK_RESTRICTED)
      then (if \<not> caller_in_room f \<and> \<not> caller_invited f
            then check_authorising_user event auth_events f else Inr ())
      else if join_rule f = JStr JoinRules_INVITE
        \<or> (knock_join_rule room_version \<and> join_rule f = JStr JoinRules_KNOCK)
        \<or> (knock_restricted_join_rule room_version \<and> join_rule f = JStr JoinRules_KNOCK_RESTRICTED)
      then guardE (caller_in_room f \<or> caller_invited f)
             (AuthError 403 ''You are not invited to this room.'')
      else Inl (AuthError 403 ''You are not allowed to join this room''))"

definition check_leave :: "event \<Rightarrow> string \<Rightarrow> auth_map \<Rightarrow> membership_facts \<Rightarrow> unit res" where
  "check_leave event target_user_id auth_events f =
     (if target_banned f \<and> user_level f < ban_level f
      then Inl (UnstableSpecAuthError 403 ''You cannot unban user.'' INSUFFICIENT_POWER)
      else if target_user_id \<noteq> ev_user_id event then
        bindE (get_named_level auth_events ''kick'' 50) (\<lambda>kick_level.
          guardE (\<not> (user_level f < kick_level \<or> user_level f \<le> target_level f))
            (UnstableSpecAuthError 403 ''You cannot kick user.'' INSUFFICIENT_POWER))
      else Inr ())"

definition check_ban :: "membership_facts \<Rightarrow> unit res" where
  "check_ban f =
     (if user_level f < ban_level f
      then Inl (UnstableSpecAuthError 403 ''You don't have permission to ban'' INSUFFICIENT_POWER)
      else guardE (\<not> user_level f \<le> target_level f)
        (UnstableSpecAuthError 403 ''You don't have permission to ban this user'' INSUFFICIENT_POWER))"

definition check_knock :: "room_version \<Rightarrow> event \<Rightarrow> string \<Rightarrow> membership_facts \<Rightarrow> unit res" where
  "check_knock room_version event target_user_id f =
     (if join_rule f \<noteq> JStr JoinRules_KNOCK
         \<and> (\<not> knock_restricted_join_rule room_version
            \<or> join_rule f \<noteq> JStr JoinRules_KNOCK_RESTRICTED)
      then Inl (AuthError 403 ''You don't have permission to knock'')
      else if target_user_id \<noteq> ev_user_id event
      then Inl (AuthError 403 ''You cannot knock for other users'')
      else if target_in_room f
      then Inl (UnstableSpecAuthError 403 ''You cannot knock on a room you are already in'' ALREADY_JOINED)
      else if caller_invited f then Inl (AuthError 403 ''You are already invited to this room'')
      else guardE (\<not> target_banned f) (AuthError 403 ''You are banned from this room''))"

definition is_membership_change_allowed ::
    "externals \<Rightarrow> room_version \<Rightarrow> event \<Rightarrow> auth_map \<Rightarrow> unit res" where
  "is_membership_change_allowed ext room_version event auth_events =
     bindE (membership event) (\<lambda>ms.
     bindE (creator_joining room_version event auth_events ms) (\<lambda>creator_join.
     if creator_join then Inr ()
     else bindE (event_state_key event) (\<lambda>target_user_id.
       (case auth_events CREATE_KEY of
          None \<Rightarrow> Inl (AuthError 403 ''Create event missing from auth_events'')
        | Some create_event \<Rightarrow>
          bindE (get_domain_from_id (ev_sender create_event)) (\<lambda>creating_domain.
          bindE (get_domain_from_id target_user_id) (\<lambda>target_domain.
          bindE (guardE (creating_domain = target_domain \<or> can_federate auth_events)
                   (AuthError 403 ''This room has been marked as unfederatable.'')) (\<lambda>_.
          bindE (membership_facts_of room_version event target_user_id auth_events) (\<lambda>f.
          if ms = JStr Membership_INVITE \<and> dget (ev_content event) ''third_party_invite'' \<noteq> None then
            bindE (verify_third_party_invite ext event auth_events) (\<lambda>ok.
            bindE (guardE ok (AuthError 403 ''You are not invited to this room.'')) (\<lambda>_.
              guardE (\<not> target_banned f) (AuthError 403 ''is banned from the room'')))
          else if ms \<noteq> JStr Membership_JOIN \<and> ms \<noteq> JStr Membership_KNOCK
            \<and> (caller_invited f \<or> caller_knocked f) \<and> ms = JStr Membership_LEAVE
            \<and> target_user_id = ev_user_id event
          then Inr ()
          else bindE (if ms = JStr Membership_JOIN \<or> ms = JStr Membership_KNOCK \<or> caller_in_room f
                 then Inr ()
                 else bindE (event_room_id event) (\<lambda>_.
                   Inl (UnstableSpecAuthError 403 ''not in room.'' NOT_JOINED))) (\<lambda>_.
            if ms = JStr Membership_INVITE then check_invite f
            else if ms = JStr Membership_JOIN
            then check_join room_version event target_user_id auth_events f
            else if ms = JStr Membership_LEAVE then check_leave event target_user_id auth_events f
            else if ms = JStr Membership_BAN then check_ban f
            else if knock_join_rule room_version \<and> ms = JStr Membership_KNOCK
            then check_knock room_version event target_user_id f
            else Inl (AuthError 500 ''Unknown membership''))))))))))"

section \<open>Sending events\<close>

text \<open>
  MSC3757: the user id that a state key starts with. \<open>index(":", 1)\<close> finds the first colon after
  the sigil, \<open>find("_", i + 1)\<close> the first underscore after it.
\<close>

definition state_key_owner :: "string \<Rightarrow> string res" where
  "state_key_owner state_key =
     (case split_first (CHR '':'') (tl state_key) of
        (_, None) \<Rightarrow> Inl ValueError
      | (local, Some rest) \<Rightarrow>
          (case split_first (CHR ''_'') rest of
             (_, None) \<Rightarrow> Inr state_key
           | (host, Some _) \<Rightarrow> Inr (hd state_key # local @ CHR '':'' # host)))"

definition check_state_key_owner :: "externals \<Rightarrow> event \<Rightarrow> auth_map \<Rightarrow> string \<Rightarrow> int \<Rightarrow> bool res" where
  "check_state_key_owner ext event auth_events state_key ulevel =
     (if msc3757_enabled (ev_room_version event) then
        (case state_key_owner state_key of
           Inl _ \<Rightarrow> Inl (SynapseError 400 ''State key neither equals a valid user ID'')
         | Inr owner \<Rightarrow>
             if \<not> UserID_is_valid (ext_valid_ipv6 ext) owner
             then Inl (SynapseError 400 ''State key neither equals a valid user ID'')
             else if owner = ev_user_id event then Inr True
             else bindE (get_user_power_level owner auth_events) (\<lambda>owner_level.
               if ulevel > owner_level then Inr True
               else Inl (AuthError 403 ''You are not allowed to set others state'')))
      else Inl (AuthError 403 ''You are not allowed to set others state''))"

definition can_send_event :: "externals \<Rightarrow> event \<Rightarrow> auth_map \<Rightarrow> bool res" where
  "can_send_event ext event auth_events =
     (let state_key = get_state_key event in
      bindE (get_send_level (ev_type event) state_key (get_power_level_event auth_events)) (\<lambda>level0.
      bindE (get_user_power_level (ev_user_id event) auth_events) (\<lambda>ulevel.
      bindE (if ulevel < level0
             then bindE (setka_channel_thread_comment_send_level event auth_events) (\<lambda>override.
               Inr (case override of Some l \<Rightarrow> l | None \<Rightarrow> level0))
             else Inr level0) (\<lambda>send_level.
      bindE (guardE (\<not> ulevel < send_level)
               (UnstableSpecAuthError 403 ''You don't have permission to post that to the room. ''
                  INSUFFICIENT_POWER)) (\<lambda>_.
      (case state_key of
         None \<Rightarrow> Inr True
       | Some sk \<Rightarrow>
           if py_startswith sk ''@'' \<and> sk \<noteq> ev_user_id event
           then check_state_key_owner ext event auth_events sk ulevel
           else Inr True))))))"

section \<open>Redactions\<close>

text \<open>
  The result is the pair of the returned flag and the event, whose metadata the function may
  mark for a later check.
\<close>

definition check_redaction :: "room_version \<Rightarrow> event \<Rightarrow> auth_map \<Rightarrow> (bool \<times> event) res" where
  "check_redaction room_version_obj event auth_events =
     bindE (get_user_power_level (ev_user_id event) auth_events) (\<lambda>ulevel.
     bindE (get_named_level auth_events ''redact'' 50) (\<lambda>redact_level.
       if ulevel \<ge> redact_level then Inr (False, event)
       else if event_format room_version_obj = ROOM_V1_V2 then
         bindE (get_domain_from_id (ev_event_id event)) (\<lambda>redacter_domain.
           (case redacts event of
              JStr r \<Rightarrow>
                bindE (get_domain_from_id r) (\<lambda>redactee_domain.
                  if redacter_domain = redactee_domain then Inr (True, event)
                  else Inl (AuthError 403 ''You don't have permission to redact events''))
            | _ \<Rightarrow> Inr (False, event)))
       else Inr (True, event\<lparr>ev_recheck_redaction := True\<rparr>)))"

section \<open>Changes of the power levels\<close>

text \<open>
  The containers of a power levels event are whatever was sent: \<open>x in v\<close> and \<open>v[x]\<close> for a
  hashable \<open>x\<close> and a JSON value \<open>v\<close>. \<open>py_scalar_eq\<close> is \<open>==\<close> between such an \<open>x\<close> and any value.
\<close>

fun dyadic :: "json \<Rightarrow> (int \<times> int) option" where
  "dyadic (JInt i) = Some (i, 0)"
| "dyadic (JBool b) = Some ((if b then 1 else 0), 0)"
| "dyadic (JFloat (Finite m e)) = Some (m, e)"
| "dyadic _ = None"

definition py_scalar_eq :: "json \<Rightarrow> json \<Rightarrow> bool" where
  "py_scalar_eq x y = (case (dyadic x, dyadic y) of
      (Some (m, e), Some (m', e')) \<Rightarrow>
        m * 2 ^ nat (e - min e e') = m' * 2 ^ nat (e' - min e e')
    | (None, None) \<Rightarrow> x = y \<and> x \<noteq> JFloat NaN
    | _ \<Rightarrow> False)"

fun is_substring :: "string \<Rightarrow> string \<Rightarrow> bool" where
  "is_substring s [] = (s = [])"
| "is_substring s (c # cs) = (py_startswith (c # cs) s \<or> is_substring s cs)"

fun py_contains :: "json \<Rightarrow> json \<Rightarrow> bool res" where
  "py_contains (JDict d) x = Inr (\<exists>k\<in>set (dkeys d). x = JStr k)"
| "py_contains (JList l) x = Inr (\<exists>y\<in>set l. py_scalar_eq x y)"
| "py_contains (JStr s) x = (case x of JStr t \<Rightarrow> Inr (is_substring t s) | _ \<Rightarrow> Inl TypeError)"
| "py_contains _ x = Inl TypeError"

definition py_index :: "'a list \<Rightarrow> json \<Rightarrow> 'a res" where
  "py_index l x =
     (case (case x of JInt i \<Rightarrow> Some i | JBool b \<Rightarrow> Some (if b then 1 else 0) | _ \<Rightarrow> None) of
        None \<Rightarrow> Inl TypeError
      | Some i \<Rightarrow>
          (let n = int (length l); j = (if i < 0 then n + i else i) in
           if 0 \<le> j \<and> j < n then Inr (l ! nat j) else Inl IndexError))"

fun py_getitem :: "json \<Rightarrow> json \<Rightarrow> json res" where
  "py_getitem (JDict d) x = (case x of JStr k \<Rightarrow> optE KeyError (dget d k) | _ \<Rightarrow> Inl KeyError)"
| "py_getitem (JList l) x = py_index l x"
| "py_getitem (JStr s) x = bindE (py_index (py_chars s) x) (\<lambda>c. Inr (JStr c))"
| "py_getitem _ x = Inl TypeError"

definition INT_LEVELS :: "string list" where
  "INT_LEVELS = [''users_default'', ''events_default'', ''state_default'', ''ban'', ''redact'',
     ''kick'', ''invite'']"

definition MAP_LEVELS :: "string list" where
  "MAP_LEVELS = [''events'', ''notifications'', ''users'']"

fun is_JInt :: "json \<Rightarrow> bool" where
  "is_JInt (JInt _) = True"
| "is_JInt _ = False"

definition check_user_entry :: "string \<times> json \<Rightarrow> unit res" where
  "check_user_entry kv = (case kv of (k, v) \<Rightarrow>
     (case UserID_from_string k of
        Inl _ \<Rightarrow> Inl (SynapseError 400 ''Not a valid user_id'')
      | Inr _ \<Rightarrow>
          (case py_int v of
             Inl _ \<Rightarrow> Inl (SynapseError 400 ''Not a valid power level'')
           | Inr _ \<Rightarrow> Inr ())))"

definition check_creators_not_listed :: "auth_map \<Rightarrow> jdict \<Rightarrow> unit res" where
  "check_creators_not_listed auth_events user_list =
     (case auth_events CREATE_KEY of
        None \<Rightarrow> Inl (SynapseError 400 ''Cannot check power levels without a create event in auth_events'')
      | Some create_event \<Rightarrow>
          bindE (guardE (ev_sender create_event \<notin> set (dkeys user_list))
                   (SynapseError 400 ''Creator user must not appear in content.users'')) (\<lambda>_.
            (let additional_creators =
               jget_default (ev_content create_event) EventContentFields_ADDITIONAL_CREATORS (JList [])
             in if truthy additional_creators then
                  bindE (py_set additional_creators) (\<lambda>l.
                    guardE (\<forall>k\<in>set (dkeys user_list). JStr k \<notin> set l)
                      (SynapseError 400 ''Additional creators users must not appear in content.users''))
                else Inr ())))"

definition check_int_level :: "string \<times> json \<Rightarrow> unit res" where
  "check_int_level kv = (case kv of (k, v) \<Rightarrow>
     bindE (guardE (k \<notin> set INT_LEVELS \<or> is_JInt v) (SynapseError 400 ''must be an integer.'')) (\<lambda>_.
       guardE (k \<notin> set MAP_LEVELS
               \<or> (case as_mapping v of None \<Rightarrow> False | Some d \<Rightarrow> list_all is_JInt (dvalues d)))
         (SynapseError 400 ''must be a dict wherein all the values are integers.'')))"

text \<open>\<open>set(list(old) + list(new))\<close>, in the order of first occurrence.\<close>

definition union_keys :: "json \<Rightarrow> json \<Rightarrow> json list res" where
  "union_keys old new =
     bindE (py_iter old) (\<lambda>a. bindE (py_iter new) (\<lambda>b.
       bindE (guardE (list_all hashable (a @ b)) TypeError) (\<lambda>_. Inr (remdups (a @ b)))))"

definition levels_to_check ::
    "room_version \<Rightarrow> jdict \<Rightarrow> jdict \<Rightarrow> jdict \<Rightarrow> (json \<times> string option) list res" where
  "levels_to_check room_version_obj old_content new_content user_list =
     bindE (union_keys (jget_default old_content ''users'' (JDict [])) (JDict user_list)) (\<lambda>us.
     bindE (union_keys (jget_default old_content ''events'' (JDict []))
                       (jget_default new_content ''events'' (JDict []))) (\<lambda>es.
     bindE (if limit_notifications_power_levels room_version_obj
            then union_keys (jget_default old_content ''notifications'' (JDict []))
                            (jget_default new_content ''notifications'' (JDict []))
            else Inr []) (\<lambda>ns.
       Inr (map (\<lambda>n. (JStr n, None)) INT_LEVELS
            @ map (\<lambda>u. (u, Some ''users'')) us
            @ map (\<lambda>t. (t, Some ''events'')) es
            @ map (\<lambda>t. (t, Some ''notifications'')) ns))))"

text \<open>The level found under a name in the content or in one of its containers.\<close>

definition level_at :: "jdict \<Rightarrow> json \<Rightarrow> string option \<Rightarrow> int option res" where
  "level_at content name dir =
     (let loc = (case dir of None \<Rightarrow> JDict content | Some d \<Rightarrow> jget_default content d (JDict [])) in
      bindE (py_contains loc name) (\<lambda>present.
        if present then bindE (py_getitem loc name) (\<lambda>v. bindE (py_int v) (\<lambda>i. Inr (Some i)))
        else Inr None))"

definition check_level_change ::
    "event \<Rightarrow> jdict \<Rightarrow> int \<Rightarrow> json \<times> string option \<Rightarrow> unit res" where
  "check_level_change event old_content ulevel nd = (case nd of (name, dir) \<Rightarrow>
     bindE (level_at old_content name dir) (\<lambda>old_level.
     bindE (level_at (ev_content event) name dir) (\<lambda>new_level.
       if new_level \<noteq> None \<and> old_level \<noteq> None \<and> new_level = old_level then Inr ()
       else
         bindE (guardE (\<not> (dir = Some ''users'' \<and> name \<noteq> JStr (ev_user_id event)
                            \<and> old_level = Some ulevel))
                  (AuthError 403 ''You don't have permission to remove ops level equal to your own'')) (\<lambda>_.
           guardE (\<not> ((case old_level of Some l \<Rightarrow> l > ulevel | None \<Rightarrow> False)
                      \<or> (case new_level of Some l \<Rightarrow> l > ulevel | None \<Rightarrow> False)))
             (AuthError 403 ''You don't have permission to add ops level greater than your own'')))))"

definition check_power_levels :: "room_version \<Rightarrow> event \<Rightarrow> auth_map \<Rightarrow> unit res" where
  "check_power_levels room_version_obj event auth_events =
     bindE (optE AttributeError (as_mapping (jget_default (ev_content event) ''users'' (JDict [])))) (\<lambda>user_list.
     bindE (checkE check_user_entry user_list) (\<lambda>_.
     bindE (if msc4289_creator_power_enabled room_version_obj
            then check_creators_not_listed auth_events user_list else Inr ()) (\<lambda>_.
     bindE (if ev_type event = EventTypes_PowerLevels \<and> enforce_int_power_levels room_version_obj
            then checkE check_int_level (ev_content event) else Inr ()) (\<lambda>_.
     bindE (event_state_key event) (\<lambda>state_key.
       (case auth_events (ev_type event, state_key) of
          None \<Rightarrow> Inr ()
        | Some current_state \<Rightarrow>
            bindE (get_user_power_level (ev_user_id event) auth_events) (\<lambda>ulevel.
            bindE (levels_to_check room_version_obj (ev_content current_state) (ev_content event) user_list)
              (checkE (check_level_change event (ev_content current_state) ulevel)))))))))"

section \<open>The auth events of an event\<close>

text \<open>
  The returned set, as a list. A hashable value that is not a string can be no event's state
  key, so it is left out.
\<close>

definition key_if_str :: "string \<Rightarrow> json \<Rightarrow> (string \<times> string) list res" where
  "key_if_str etype v = (case v of
      JStr s \<Rightarrow> Inr [(etype, s)]
    | _ \<Rightarrow> if hashable v then Inr [] else Inl TypeError)"

definition third_party_token :: "json \<Rightarrow> json res" where
  "third_party_token third_party_invite =
     bindE (py_getitem third_party_invite (JStr ''signed'')) (\<lambda>signed.
       py_getitem signed (JStr ''token''))"

definition auth_types_for_event :: "room_version \<Rightarrow> event \<Rightarrow> (string \<times> string) list res" where
  "auth_types_for_event room_version event =
     (if ev_type event = EventTypes_Create then Inr []
      else
        (let base = [(EventTypes_PowerLevels, []), (EventTypes_Member, ev_sender event), CREATE_KEY] in
         if ev_type event = EventTypes_Member then
           bindE (membership event) (\<lambda>ms.
           bindE (event_state_key event) (\<lambda>state_key.
           bindE (case dget (ev_content event) ''third_party_invite'' of
               Some tpi \<Rightarrow>
                 (if ms = JStr Membership_INVITE
                  then bindE (third_party_token tpi) (key_if_str EventTypes_ThirdPartyInvite)
                  else Inr [])
             | None \<Rightarrow> Inr []) (\<lambda>tpi_keys.
           bindE (case dget (ev_content event) EventContentFields_AUTHORISING_USER of
               Some u \<Rightarrow>
                 (if restricted_join_rule room_version \<and> ms = JStr Membership_JOIN
                  then key_if_str EventTypes_Member u else Inr [])
             | None \<Rightarrow> Inr []) (\<lambda>auth_keys.
             Inr (base
                  @ (if ms \<in> {JStr Membership_JOIN, JStr Membership_INVITE, JStr Membership_KNOCK}
                     then [(EventTypes_JoinRules, [])] else [])
                  @ [(EventTypes_Member, state_key)] @ tpi_keys @ auth_keys)))))
         else Inr base))"

section \<open>Create events\<close>

definition check_creator_entry :: "externals \<Rightarrow> json \<Rightarrow> unit res" where
  "check_creator_entry ext entry = (case entry of
      JStr s \<Rightarrow>
        bindE (guardE (UserID_is_valid (ext_valid_ipv6 ext) s)
                 (AuthError 400 ''entry in additional_creators is not a valid user ID'')) (\<lambda>_.
          guardE (\<not> (py_len s > 255 \<or> utf8_len s > 255))
            (AuthError 400 ''entry in additional_creators too long''))
    | _ \<Rightarrow> Inl (AuthError 400 ''entry in additional_creators is not a string''))"

definition check_valid_additional_creators :: "externals \<Rightarrow> json \<Rightarrow> unit res" where
  "check_valid_additional_creators ext additional_creators = (case additional_creators of
      JList l \<Rightarrow> checkE (check_creator_entry ext) l
    | _ \<Rightarrow> Inl (AuthError 400 ''additional_creators must be an array''))"

definition check_create :: "externals \<Rightarrow> event \<Rightarrow> unit res" where
  "check_create ext event =
     bindE (guardE (ev_type event = EventTypes_Create) AssertionError) (\<lambda>_.
     bindE (guardE (prev_event_ids event = []) (AuthError 403 ''Create event has prev events'')) (\<lambda>_.
     bindE (if msc4291_room_ids_as_hashes (ev_room_version event)
            then guardE (ev_dict_room_id event = None) (AuthError 403 ''Create event has a room_id'')
            else bindE (get_domain_from_id (ev_sender event)) (\<lambda>sender_domain.
                 bindE (event_room_id event) (\<lambda>rid.
                 bindE (get_domain_from_id rid) (\<lambda>room_id_domain.
                   guardE (room_id_domain = sender_domain)
                     (AuthError 403 ''Creation event's room_id domain does not match sender's''))))) (\<lambda>_.
     (let room_version_prop = jget_default (ev_content event) ''room_version'' (JStr ''1'') in
     bindE (guardE (hashable room_version_prop) TypeError) (\<lambda>_.
     bindE (guardE (\<exists>i\<in>set (dkeys KNOWN_ROOM_VERSIONS). room_version_prop = JStr i)
              (AuthError 403 ''room appears to have unsupported version'')) (\<lambda>_.
     bindE (guardE (implicit_room_creator (ev_room_version event)
                    \<or> dget (ev_content event) EventContentFields_ROOM_CREATOR \<noteq> None)
              (AuthError 403 ''Create event lacks a 'creator' property'')) (\<lambda>_.
     (case dget (ev_content event) EventContentFields_ADDITIONAL_CREATORS of
        Some creators \<Rightarrow>
          if msc4289_creator_power_enabled (ev_room_version event)
          then check_valid_additional_creators ext creators else Inr ()
      | None \<Rightarrow> Inr ()))))))))"

section \<open>Checks on receipt\<close>

definition LENIENT_EVENT_BYTE_LIMITS_ROOM_VERSIONS :: "room_version list" where
  "LENIENT_EVENT_BYTE_LIMITS_ROOM_VERSIONS =
     [RoomVersions_V1, RoomVersions_V2, RoomVersions_V3, RoomVersions_V4, RoomVersions_V5,
      RoomVersions_V6, RoomVersions_V7, RoomVersions_V8, RoomVersions_V9, RoomVersions_V10,
      RoomVersions_MSC1767v10, RoomVersions_MSC3757v10]"

definition check_size_limits :: "externals \<Rightarrow> event \<Rightarrow> unit res" where
  "check_size_limits ext event =
     bindE (guardE (\<not> ext_pdu_size ext event > MAX_PDU_SIZE) (EventSizeError ''event too large'' True)) (\<lambda>_.
     bindE (guardE (\<not> py_len (ev_user_id event) > 255) (EventSizeError ''user_id'' True)) (\<lambda>_.
     bindE (event_room_id event) (\<lambda>rid.
     bindE (guardE (\<not> py_len rid > 255) (EventSizeError ''room_id'' True)) (\<lambda>_.
     (let sk = (case get_state_key event of None \<Rightarrow> [] | Some k \<Rightarrow> k);
          strict_byte_limits = (ev_room_version event \<notin> set LENIENT_EVENT_BYTE_LIMITS_ROOM_VERSIONS) in
     bindE (guardE (\<not> py_len sk > 255) (EventSizeError ''state_key'' True)) (\<lambda>_.
     bindE (guardE (\<not> py_len (ev_type event) > 255) (EventSizeError ''type'' True)) (\<lambda>_.
     bindE (guardE (\<not> py_len (ev_event_id event) > 255) (EventSizeError ''event_id'' True)) (\<lambda>_.
     bindE (guardE (\<not> utf8_len (ev_user_id event) > 255) (EventSizeError ''user_id'' strict_byte_limits)) (\<lambda>_.
     bindE (guardE (\<not> utf8_len rid > 255) (EventSizeError ''room_id'' strict_byte_limits)) (\<lambda>_.
     bindE (guardE (\<not> utf8_len sk > 255) (EventSizeError ''state_key'' strict_byte_limits)) (\<lambda>_.
     bindE (guardE (\<not> utf8_len (ev_type event) > 255) (EventSizeError ''type'' strict_byte_limits)) (\<lambda>_.
       guardE (\<not> utf8_len (ev_event_id event) > 255)
         (EventSizeError ''event_id'' strict_byte_limits)))))))))))))"

text \<open>\<open>not event.signatures.get(domain)\<close>: absent or empty.\<close>

definition signed_by :: "event \<Rightarrow> string \<Rightarrow> bool" where
  "signed_by event server = (case dget (ev_signatures event) server of
      None \<Rightarrow> False | Some sigs \<Rightarrow> sigs \<noteq> [])"

text \<open>The domain of a JSON value that should be an id.\<close>

definition json_domain :: "json \<Rightarrow> string res" where
  "json_domain v = (case v of JStr s \<Rightarrow> get_domain_from_id s | _ \<Rightarrow> Inl AttributeError)"

definition validate_event_for_room_version :: "externals \<Rightarrow> event \<Rightarrow> unit res" where
  "validate_event_for_room_version ext event =
     bindE (check_size_limits ext event) (\<lambda>_.
     bindE (event_room_id event) (\<lambda>_.
     bindE (get_domain_from_id (ev_sender event)) (\<lambda>sender_domain.
     bindE (if ev_type event = EventTypes_Member then membership event else Inr JNull) (\<lambda>ms.
     bindE (guardE (signed_by event sender_domain
                    \<or> (ev_type event = EventTypes_Member \<and> ms = JStr Membership_INVITE
                       \<and> dget (ev_content event) ''third_party_invite'' \<noteq> None))
              (AuthError 403 ''Event not signed by sender's server'')) (\<lambda>_.
     bindE (if format_version event = ROOM_V1_V2 then
              bindE (get_domain_from_id (ev_event_id event)) (\<lambda>event_id_domain.
                guardE (signed_by event event_id_domain)
                  (AuthError 403 ''Event not signed by sending server''))
            else Inr ()) (\<lambda>_.
     (case dget (ev_content event) EventContentFields_AUTHORISING_USER of
        Some u \<Rightarrow>
          if restricted_join_rule (ev_room_version event) \<and> ev_type event = EventTypes_Member
             \<and> ms = JStr Membership_JOIN
          then bindE (json_domain u) (\<lambda>authoriser_domain.
                 guardE (signed_by event authoriser_domain)
                   (AuthError 403 ''Event not signed by authorising server''))
          else Inr ()
      | None \<Rightarrow> Inr ())))))))"

section \<open>State-independent rules\<close>

text \<open>
  The store's \<open>get_events(ids, redact_behaviour=as_is, allow_rejected=True)\<close> is the argument
  \<open>get_events\<close>. In the \<open>ChainMap\<close> the events fetched last are found first.
\<close>

definition auth_event_lookup ::
    "(string list \<Rightarrow> (string, event) pydict) \<Rightarrow> string list \<Rightarrow> (string, event) pydict option
       \<Rightarrow> string \<Rightarrow> event option" where
  "auth_event_lookup get_events ids batched =
     (case batched of
        Some b \<Rightarrow>
          if b \<noteq> [] then
            (let needed = filter (\<lambda>i. i \<notin> set (dkeys b)) ids in
             if needed \<noteq> [] then dget b ++ dget (get_events needed) else dget b)
          else dget (get_events ids)
      | None \<Rightarrow> dget (get_events ids))"

text \<open>The body of the loop over the auth events.\<close>

definition check_auth_event ::
    "(string \<Rightarrow> event option) \<Rightarrow> string \<Rightarrow> (string \<times> string) list \<Rightarrow> string
       \<Rightarrow> (string \<times> string, string) pydict \<Rightarrow> (string \<times> string, string) pydict res" where
  "check_auth_event lookup room_id expected_auth_types auth_event_id auth_dict =
     (case lookup auth_event_id of
        None \<Rightarrow> Inl RuntimeError
      | Some auth_event \<Rightarrow>
          bindE (event_room_id auth_event) (\<lambda>rid.
          bindE (guardE (rid = room_id) (AuthError 403 ''found event in the state which is in room'')) (\<lambda>_.
          bindE (event_state_key auth_event) (\<lambda>state_key.
          (let k = (ev_type auth_event, state_key) in
          bindE (guardE (dget auth_dict k = None) (AuthError 403 ''has duplicate auth_events for'')) (\<lambda>_.
          bindE (guardE (k \<in> set expected_auth_types) (AuthError 403 ''has unexpected auth_event for'')) (\<lambda>_.
          bindE (guardE (ev_rejected_reason auth_event \<in> {None, Some []})
                   (AuthError 403 ''found rejected event in the state'')) (\<lambda>_.
            Inr (dset k auth_event_id auth_dict)))))))))"

definition check_state_independent_auth_rules ::
    "externals \<Rightarrow> (string list \<Rightarrow> (string, event) pydict) \<Rightarrow> event
       \<Rightarrow> (string, event) pydict option \<Rightarrow> unit res" where
  "check_state_independent_auth_rules ext get_events event batched_auth_events =
     (if ev_type event = EventTypes_Create then check_create ext event
      else bindE (auth_event_ids event) (\<lambda>ids.
        bindE (event_room_id event) (\<lambda>room_id.
        bindE (auth_types_for_event (ev_room_version event) event) (\<lambda>expected.
        bindE (foldE (check_auth_event (auth_event_lookup get_events ids batched_auth_events)
                        room_id expected) ids []) (\<lambda>auth_dict.
          guardE (dget auth_dict CREATE_KEY \<notin> {None, Some []})
            (AuthError 403 ''No create event in auth events''))))))"

section \<open>State-dependent rules\<close>

text \<open>\<open>{(e.type, e.state_key): e for e in auth_events}\<close>\<close>

definition index_events :: "event list \<Rightarrow> (string \<times> string, event) pydict res" where
  "index_events auth_events =
     foldE (\<lambda>e d. bindE (event_state_key e) (\<lambda>sk. Inr (dset (ev_type e, sk) e d))) auth_events []"

text \<open>The rules for the event against the indexed auth events; the result is the event.\<close>

definition check_against_auth_dict :: "externals \<Rightarrow> event \<Rightarrow> auth_map \<Rightarrow> event res" where
  "check_against_auth_dict ext event auth_dict =
     (case auth_dict CREATE_KEY of
        None \<Rightarrow> Inl (AuthError 403 ''is missing a create event in auth_events.'')
      | Some create_event \<Rightarrow>
          bindE (get_domain_from_id (ev_sender create_event)) (\<lambda>creating_domain.
          bindE (get_domain_from_id (ev_sender event)) (\<lambda>originating_domain.
          bindE (guardE (creating_domain = originating_domain \<or> can_federate auth_dict)
                   (AuthError 403 ''This room has been marked as unfederatable.'')) (\<lambda>_.
          if ev_type event = EventTypes_Aliases \<and> special_case_aliases_auth (ev_room_version event) then
            (case get_state_key event of
               None \<Rightarrow> Inl (AuthError 403 ''Alias event must be a state event'')
             | Some sk \<Rightarrow>
                 bindE (guardE (sk \<noteq> []) (AuthError 403 ''Alias event must have non-empty state_key'')) (\<lambda>_.
                 bindE (guardE (sk = originating_domain)
                   (AuthError 403 ''Alias event's state_key does not match sender's domain'')) (\<lambda>_.
                   Inr event)))
          else if ev_type event = EventTypes_Member then
            bindE (is_membership_change_allowed ext (ev_room_version event) event auth_dict) (\<lambda>_. Inr event)
          else bindE (check_event_sender_in_room event auth_dict) (\<lambda>_.
            if ev_type event = EventTypes_ThirdPartyInvite then
              bindE (get_user_power_level (ev_user_id event) auth_dict) (\<lambda>ulevel.
              bindE (get_named_level auth_dict ''invite'' 0) (\<lambda>ilevel.
              bindE (guardE (\<not> ulevel < ilevel)
                (UnstableSpecAuthError 403 ''You don't have permission to invite users'' INSUFFICIENT_POWER)) (\<lambda>_.
                Inr event)))
            else bindE (can_send_event ext event auth_dict) (\<lambda>_.
              bindE (if ev_type event = EventTypes_PowerLevels
                     then check_power_levels (ev_room_version event) event auth_dict else Inr ()) (\<lambda>_.
                if ev_type event = EventTypes_Redaction
                then bindE (check_redaction (ev_room_version event) event auth_dict) (\<lambda>(_, event'). Inr event')
                else Inr event)))))))"

definition check_state_dependent_auth_rules :: "externals \<Rightarrow> event \<Rightarrow> event list \<Rightarrow> event res" where
  "check_state_dependent_auth_rules ext event auth_events =
     (if ev_type event = EventTypes_Create then Inr event
      else bindE (index_events auth_events) (\<lambda>d. check_against_auth_dict ext event (dget d)))"

end
