(* ===== verification/Sample_Room.thy ===== *)
theory Sample_Room
  imports Event_Auth
begin

text \<open>
  A small concrete room (version 11, creator \<open>@a:x\<close>, another user \<open>@b:x\<close>) on which the
  witnesses of the properties are evaluated.
\<close>

definition sample_event :: "string \<Rightarrow> string \<Rightarrow> string \<Rightarrow> string option \<Rightarrow> jdict \<Rightarrow> event" where
  "sample_event eid etype sender state_key content = \<lparr>
     ev_room_version = RoomVersions_V11, ev_event_id = eid, ev_type = etype, ev_sender = sender,
     ev_dict_room_id = Some ''!r:x'', ev_dict_state_key = state_key, ev_content = content,
     ev_depth = 1, ev_origin_server_ts = 1, ev_prev_events = [], ev_auth_events = [],
     ev_dict_redacts = None, ev_signatures = [], ev_rejected_reason = None,
     ev_recheck_redaction = False\<rparr>"

definition sample_ext :: externals where
  "sample_ext = \<lparr>ext_valid_ipv6 = (\<lambda>_. False), ext_pdu_size = (\<lambda>_. 100),
     ext_verify_signed = (\<lambda>_ _ _ _. Inl SignatureVerifyException)\<rparr>"

definition sample_create :: event where
  "sample_create = sample_event ''$c'' EventTypes_Create ''@a:x'' (Some []) []"

definition sample_member :: "string \<Rightarrow> string \<Rightarrow> string \<Rightarrow> string \<Rightarrow> event" where
  "sample_member eid sender target ms =
     sample_event eid EventTypes_Member sender (Some target) [(''membership'', JStr ms)]"

definition sample_join_rules :: event where
  "sample_join_rules =
     sample_event ''$j'' EventTypes_JoinRules ''@a:x'' (Some []) [(''join_rule'', JStr JoinRules_PUBLIC)]"

definition sample_power_levels :: "string \<Rightarrow> string \<Rightarrow> jdict \<Rightarrow> event" where
  "sample_power_levels eid sender users =
     sample_event eid EventTypes_PowerLevels sender (Some [])
       [(''users'', JDict users), (''users_default'', JInt 0), (''events_default'', JInt 50)]"

definition sample_topic :: event where
  "sample_topic =
     sample_event ''$t'' EventTypes_Topic ''@a:x'' (Some []) [(''topic'', JStr ''setka:channel #news'')]"

definition sample_message :: "string \<Rightarrow> jdict \<Rightarrow> event" where
  "sample_message sender content = sample_event ''$m'' EventTypes_Message sender None content"

definition sample_state :: "event list" where
  "sample_state =
     [sample_create, sample_member ''$ja'' ''@a:x'' ''@a:x'' Membership_JOIN,
      sample_member ''$jb'' ''@b:x'' ''@b:x'' Membership_JOIN,
      sample_join_rules, sample_power_levels ''$p'' ''@a:x'' [(''@a:x'', JInt 100)]]"

definition sample_map :: "event list \<Rightarrow> auth_map" where
  "sample_map events = map_of (map (\<lambda>e. ((ev_type e, the (ev_dict_state_key e)), e)) events)"

end
