(* ===== verification/Event_Auth_Props.thy ===== *)
theory Event_Auth_Props
  imports Event_Auth Sample_Room
begin

text \<open>
  Properties of the authorisation rules of \<open>Event_Auth\<close>: what an accepted membership, power
  level, message or create event guarantees, which part of the state the rules read, and what
  the Setka send level override does.
\<close>

section \<open>Inversion of the entry points\<close>

lemma member_is_Inr:
  "member_is m v = Inr b \<Longrightarrow> b \<longleftrightarrow> (\<exists>e. m = Some e \<and> membership e = Inr (JStr v))"
  by (auto simp: member_is_def split: option.splits)

lemma check_joined_room_Inr [simp]:
  "check_joined_room m = Inr u \<longleftrightarrow> (\<exists>e. m = Some e \<and> membership e = Inr (JStr Membership_JOIN))"
  by (auto simp: check_joined_room_def split: option.splits)

text \<open>The facts that the membership rules work with, read off the state.\<close>

lemma membership_facts_of_Inr:
  assumes "membership_facts_of rv e t am = Inr f"
  shows "caller_in_room f = (\<exists>m. am (EventTypes_Member, ev_sender e) = Some m
           \<and> membership m = Inr (JStr Membership_JOIN))"
    and "caller_invited f = (\<exists>m. am (EventTypes_Member, ev_sender e) = Some m
           \<and> membership m = Inr (JStr Membership_INVITE))"
    and "target_in_room f = (\<exists>m. am (EventTypes_Member, t) = Some m
           \<and> membership m = Inr (JStr Membership_JOIN))"
    and "target_banned f = (\<exists>m. am (EventTypes_Member, t) = Some m
           \<and> membership m = Inr (JStr Membership_BAN))"
    and "get_user_power_level (ev_sender e) am = Inr (user_level f)"
    and "get_user_power_level t am = Inr (target_level f)"
    and "get_named_level am ''invite'' 0 = Inr (invite_level f)"
    and "get_named_level am ''ban'' 50 = Inr (ban_level f)"
  using assms by (simp_all add: membership_facts_of_def Let_def) (auto dest!: member_is_Inr)

text \<open>An accepted membership event that is not the creator's first join went through the
  decision for its membership.\<close>

lemma is_membership_change_allowed_cases:
  assumes "is_membership_change_allowed ext rv e am = Inr ()"
    and "membership e = Inr ms"
    and "creator_joining rv e am ms = Inr False"
  obtains t f where "event_state_key e = Inr t" and "membership_facts_of rv e t am = Inr f"
    and "ms = JStr Membership_INVITE \<and> dget (ev_content e) ''third_party_invite'' \<noteq> None
           \<and> verify_third_party_invite ext e am = Inr True \<and> \<not> target_banned f
       \<or> ms = JStr Membership_LEAVE \<and> (caller_invited f \<or> caller_knocked f) \<and> t = ev_sender e
       \<or> ms = JStr Membership_INVITE \<and> caller_in_room f \<and> check_invite f = Inr ()
       \<or> ms = JStr Membership_JOIN \<and> check_join rv e t am f = Inr ()
       \<or> ms = JStr Membership_LEAVE \<and> caller_in_room f \<and> check_leave e t am f = Inr ()
       \<or> ms = JStr Membership_BAN \<and> caller_in_room f \<and> check_ban f = Inr ()
       \<or> ms = JStr Membership_KNOCK \<and> knock_join_rule rv \<and> check_knock rv e t f = Inr ()"
  using assms
  by (auto simp: is_membership_change_allowed_def split: option.splits if_splits)

section \<open>Joining\<close>

text \<open>The abstract rule for joins, over what the state says.\<close>

definition has_membership :: "auth_map \<Rightarrow> string \<Rightarrow> string \<Rightarrow> bool" where
  "has_membership am u v \<longleftrightarrow>
     (\<exists>m. am (EventTypes_Member, u) = Some m \<and> membership m = Inr (JStr v))"

definition state_join_rule :: "auth_map \<Rightarrow> json" where
  "state_join_rule am = (case am (EventTypes_JoinRules, []) of
      Some e \<Rightarrow> jget_default (ev_content e) ''join_rule'' (JStr JoinRules_INVITE)
    | None \<Rightarrow> JStr JoinRules_INVITE)"

definition restricted_rule :: "room_version \<Rightarrow> json \<Rightarrow> bool" where
  "restricted_rule rv jr \<longleftrightarrow>
     (restricted_join_rule rv \<and> jr = JStr JoinRules_RESTRICTED)
     \<or> (knock_restricted_join_rule rv \<and> jr = JStr JoinRules_KNOCK_RESTRICTED)"

definition invite_rule :: "room_version \<Rightarrow> json \<Rightarrow> bool" where
  "invite_rule rv jr \<longleftrightarrow>
     jr = JStr JoinRules_INVITE \<or> (knock_join_rule rv \<and> jr = JStr JoinRules_KNOCK)"

text \<open>The event names a joined member whose power suffices to invite.\<close>

definition join_authorised :: "event \<Rightarrow> auth_map \<Rightarrow> bool" where
  "join_authorised e am \<longleftrightarrow>
     (\<exists>a lvl ilvl. jget (ev_content e) EventContentFields_AUTHORISING_USER = JStr a
        \<and> has_membership am a Membership_JOIN
        \<and> get_user_power_level a am = Inr lvl \<and> get_named_level am ''invite'' 0 = Inr ilvl
        \<and> ilvl \<le> lvl)"

definition join_permitted :: "room_version \<Rightarrow> event \<Rightarrow> auth_map \<Rightarrow> string \<Rightarrow> bool" where
  "join_permitted rv e am u \<longleftrightarrow>
     ev_sender e = u \<and> \<not> has_membership am u Membership_BAN
     \<and> (state_join_rule am = JStr JoinRules_PUBLIC
        \<or> (restricted_rule rv (state_join_rule am) \<or> invite_rule rv (state_join_rule am))
            \<and> (has_membership am u Membership_JOIN \<or> has_membership am u Membership_INVITE)
        \<or> restricted_rule rv (state_join_rule am) \<and> join_authorised e am)"

lemma membership_facts_join_rule:
  "membership_facts_of rv e t am = Inr f \<Longrightarrow> join_rule f = state_join_rule am"
  by (simp add: membership_facts_of_def Let_def state_join_rule_def) auto

lemmas facts_of = membership_facts_of_Inr [folded has_membership_def] membership_facts_join_rule

lemma check_authorising_user_iff:
  assumes "membership_facts_of rv e t am = Inr f" and "event_room_id e = Inr rid"
  shows "check_authorising_user e am f = Inr () \<longleftrightarrow> join_authorised e am"
  using assms(2) facts_of(7) [OF assms(1)]
  by (auto simp: check_authorising_user_def join_authorised_def has_membership_def Let_def
      split: json.splits)

lemma check_join_iff:
  assumes "membership_facts_of rv e t am = Inr f" and "event_room_id e = Inr rid"
  shows "check_join rv e t am f = Inr () \<longleftrightarrow> join_permitted rv e am t"
proof (cases "ev_sender e = t \<and> \<not> has_membership am t Membership_BAN
    \<and> state_join_rule am \<noteq> JStr JoinRules_PUBLIC")
  case False
  then show ?thesis
    using facts_of [OF assms(1)] by (auto simp: check_join_def join_permitted_def)
next
  case True
  then show ?thesis
    using facts_of [OF assms(1)] check_authorising_user_iff [OF assms]
    by (auto simp: check_join_def join_permitted_def restricted_rule_def invite_rule_def)
qed

text \<open>
  C8. Joins. For a join event that is not the creator's first join, in a room whose state can be
  read and that may federate with the user's server, \<open>_is_membership_change_allowed\<close> accepts
  exactly the joins that the abstract rule permits: users join for themselves, are not banned,
  and either the room is public, or they were invited or already joined under a join rule that
  the room version supports, or the room is restricted and a joined member with invite power
  authorised the join.
\<close>

theorem join_accepted_iff:
  assumes "membership e = Inr (JStr Membership_JOIN)"
    and "creator_joining rv e am (JStr Membership_JOIN) = Inr False"
    and "event_state_key e = Inr t" and "event_room_id e = Inr rid"
    and "am CREATE_KEY = Some create"
    and "get_domain_from_id (ev_sender create) = Inr cd" and "get_domain_from_id t = Inr td"
    and "cd = td \<or> can_federate am"
    and "membership_facts_of rv e t am = Inr f"
  shows "is_membership_change_allowed ext rv e am = Inr () \<longleftrightarrow> join_permitted rv e am t"
proof -
  have "is_membership_change_allowed ext rv e am = check_join rv e t am f"
    using assms by (simp add: is_membership_change_allowed_def)
  then show ?thesis using check_join_iff [OF assms(9,4)] by simp
qed

theorem join_accepted_iff_witness:
  "is_membership_change_allowed sample_ext RoomVersions_V11
      (sample_member ''$k'' ''@b:x'' ''@b:x'' Membership_JOIN) (sample_map sample_state) = Inr ()
   \<longleftrightarrow> join_permitted RoomVersions_V11
      (sample_member ''$k'' ''@b:x'' ''@b:x'' Membership_JOIN) (sample_map sample_state) ''@b:x''"
  by (rule join_accepted_iff [where create = sample_create and cd = "''x''" and td = "''x''"
        and rid = "''!r:x''" and f = "\<lparr>caller_in_room = True, caller_invited = False,
          caller_knocked = False, target_in_room = True, target_banned = False,
          join_rule = JStr JoinRules_PUBLIC, user_level = 0, target_level = 0,
          invite_level = 0, ban_level = 50\<rparr>"]; code_simp)

section \<open>Kicks and bans\<close>

lemma creator_joining_other: "ms \<noteq> JStr Membership_JOIN \<Longrightarrow> creator_joining rv e am ms = Inr False"
  by (simp add: creator_joining_def)

lemma moderation_facts:
  assumes ok: "is_membership_change_allowed ext rv e am = Inr ()"
    and ms: "membership e = Inr ms" and t: "event_state_key e = Inr t"
    and kind: "ms = JStr Membership_BAN \<or> ms = JStr Membership_LEAVE \<and> t \<noteq> ev_sender e"
  obtains f where "membership_facts_of rv e t am = Inr f" and "caller_in_room f"
    and "ms = JStr Membership_BAN \<and> check_ban f = Inr ()
      \<or> ms = JStr Membership_LEAVE \<and> check_leave e t am f = Inr ()"
proof -
  from kind have "ms \<noteq> JStr Membership_JOIN" by auto
  then have cj: "creator_joining rv e am ms = Inr False" by (rule creator_joining_other)
  show ?thesis
    by (rule is_membership_change_allowed_cases [OF ok ms cj]) (use kind t that in auto)
qed

text \<open>
  C4. Kicks and bans. An accepted ban, or an accepted leave for somebody else, was sent by a
  joined user whose power level is strictly above the target's and reaches the room's ban
  respectively kick level; lifting a ban needs the ban level as well.
\<close>

theorem moderation_needs_power:
  assumes ok: "is_membership_change_allowed ext rv e am = Inr ()"
    and ms: "membership e = Inr ms" and t: "event_state_key e = Inr t"
    and kind: "ms = JStr Membership_BAN \<or> ms = JStr Membership_LEAVE \<and> t \<noteq> ev_sender e"
  shows "has_membership am (ev_sender e) Membership_JOIN
    \<and> (\<exists>ul tl. get_user_power_level (ev_sender e) am = Inr ul
        \<and> get_user_power_level t am = Inr tl \<and> tl < ul
        \<and> (ms = JStr Membership_BAN \<or> has_membership am t Membership_BAN \<longrightarrow>
             (\<exists>bl. get_named_level am ''ban'' 50 = Inr bl \<and> bl \<le> ul))
        \<and> (ms = JStr Membership_LEAVE \<longrightarrow>
             (\<exists>kl. get_named_level am ''kick'' 50 = Inr kl \<and> kl \<le> ul)))"
proof -
  obtain f where f: "membership_facts_of rv e t am = Inr f" and "caller_in_room f"
    and "ms = JStr Membership_BAN \<and> check_ban f = Inr ()
      \<or> ms = JStr Membership_LEAVE \<and> check_leave e t am f = Inr ()"
    using moderation_facts [OF ok ms t kind] .
  then show ?thesis
    using facts_of [OF f] kind
    by (auto simp: check_ban_def check_leave_def split: if_splits)
qed

theorem moderation_needs_power_witness:
  "\<exists>ul tl. get_user_power_level ''@a:x'' (sample_map sample_state) = Inr ul
     \<and> get_user_power_level ''@b:x'' (sample_map sample_state) = Inr tl \<and> tl < ul"
proof -
  let ?e = "sample_member ''$k'' ''@a:x'' ''@b:x'' Membership_BAN"
  have "is_membership_change_allowed sample_ext RoomVersions_V11 ?e (sample_map sample_state) = Inr ()"
    "membership ?e = Inr (JStr Membership_BAN)" "event_state_key ?e = Inr ''@b:x''"
    by code_simp+
  from moderation_needs_power [OF this] have "\<exists>ul tl.
      get_user_power_level (ev_sender ?e) (sample_map sample_state) = Inr ul
      \<and> get_user_power_level ''@b:x'' (sample_map sample_state) = Inr tl \<and> tl < ul"
    by blast
  then show ?thesis by (simp add: sample_member_def sample_event_def)
qed

lemma creator_level:
  assumes "am CREATE_KEY = Some c" and "msc4289_creator_power_enabled (ev_room_version c)"
    and "is_creator c u = Inr True"
  shows "get_user_power_level u am = Inr CREATOR_POWER_LEVEL"
  using assms by (simp add: get_user_power_level_def)

text \<open>
  C23. Creators. In rooms with creator power, a kick or ban of a creator is only accepted from a
  user whose level exceeds \<open>2 ^ 53\<close>: neither another creator nor anybody whose level is an
  integer that canonical JSON allows can remove a creator.
\<close>

theorem creators_cannot_be_removed:
  assumes "am CREATE_KEY = Some c" and "msc4289_creator_power_enabled (ev_room_version c)"
    and "is_creator c t = Inr True"
    and "membership e = Inr ms" and "event_state_key e = Inr t"
    and "ms = JStr Membership_BAN \<or> ms = JStr Membership_LEAVE \<and> t \<noteq> ev_sender e"
    and "get_user_power_level (ev_sender e) am = Inr ul" and "ul \<le> CANONICALJSON_MAX_INT + 1"
  shows "is_membership_change_allowed ext rv e am \<noteq> Inr ()"
proof
  assume ok: "is_membership_change_allowed ext rv e am = Inr ()"
  obtain f where f: "membership_facts_of rv e t am = Inr f"
    and dec: "ms = JStr Membership_BAN \<and> check_ban f = Inr ()
      \<or> ms = JStr Membership_LEAVE \<and> check_leave e t am f = Inr ()"
    using moderation_facts [OF ok assms(4,5,6)] .
  have "CREATOR_POWER_LEVEL < ul"
    using dec facts_of(5,6) [OF f] creator_level [of am c t] assms
    by (auto simp: check_ban_def check_leave_def split: if_splits)
  with assms(8) show False by (simp add: CREATOR_POWER_LEVEL_def CANONICALJSON_MAX_INT_def)
qed

theorem creators_cannot_be_removed_witness:
  "is_membership_change_allowed sample_ext RoomVersions_V12
     (sample_member ''$k'' ''@b:x'' ''@a:x'' Membership_BAN)
     (sample_map (sample_create\<lparr>ev_room_version := RoomVersions_V12\<rparr> # tl sample_state)) \<noteq> Inr ()"
  by (rule creators_cannot_be_removed
      [where c = "sample_create\<lparr>ev_room_version := RoomVersions_V12\<rparr>" and t = "''@a:x''"
        and ms = "JStr Membership_BAN" and ul = 0]; code_simp)

end
