(* ===== verification/Power_Level_Props.thy ===== *)
theory Power_Level_Props
  imports Event_Auth Sample_Room
begin

text \<open>
  Properties of \<open>_check_power_levels\<close> and of the level lookups: nobody can grant more power than
  they have, nor take power from somebody who has as much.
\<close>

section \<open>Levels in the containers of the content\<close>

abbreviation POWER_KEY :: "string \<times> string" where
  "POWER_KEY \<equiv> (EventTypes_PowerLevels, [])"

lemma level_at_Some:
  assumes "level_at content (JStr u) (Some d) = Inr (Some l)"
  obtains m v where "jget_default content d (JDict []) = JDict m" and "dget m u = Some v"
    and "py_int v = Inr l"
  using assms
  by (cases "jget_default content d (JDict [])")
    (auto simp: level_at_def py_index_def split: if_splits)

lemma level_at_dict:
  assumes "jget_default content d (JDict []) = JDict m" and "dget m u = Some v"
    and "py_int v = Inr l"
  shows "level_at content (JStr u) (Some d) = Inr (Some l)"
proof -
  have "u \<in> set (dkeys m)" using assms(2) dget_None_iff [of m u] by auto
  with assms show ?thesis by (auto simp: level_at_def)
qed

text \<open>What an accepted entry of \<open>levels_to_check\<close> means.\<close>

definition change_allowed :: "int \<Rightarrow> bool \<Rightarrow> int option \<Rightarrow> int option \<Rightarrow> bool" where
  "change_allowed ul other old new \<longleftrightarrow>
     (\<exists>l. old = Some l \<and> new = Some l)
     \<or> ((case new of Some l \<Rightarrow> l \<le> ul | None \<Rightarrow> True)
        \<and> (case old of Some l \<Rightarrow> if other then l < ul else l \<le> ul | None \<Rightarrow> True))"

lemma check_level_change_Inr:
  "check_level_change e old_content ul (name, dir) = Inr () \<longleftrightarrow>
     (\<exists>old new. level_at old_content name dir = Inr old \<and> level_at (ev_content e) name dir = Inr new
        \<and> change_allowed ul (dir = Some ''users'' \<and> name \<noteq> JStr (ev_sender e)) old new)"
  by (cases "level_at old_content name dir"; cases "level_at (ev_content e) name dir")
    (auto simp: check_level_change_def change_allowed_def order.strict_iff_order
      split: option.splits if_splits)

lemma union_keys_right: "union_keys a (JDict m) = Inr l \<Longrightarrow> u \<in> set (dkeys m) \<Longrightarrow> JStr u \<in> set l"
  by (force simp: union_keys_def dkeys_def)

lemma levels_to_check_Inr:
  assumes "levels_to_check rv old new users = Inr ls"
  obtains us where "union_keys (jget_default old ''users'' (JDict [])) (JDict users) = Inr us"
    and "(\<lambda>u. (u, Some ''users'')) ` set us \<subseteq> set ls"
    and "(\<lambda>n. (JStr n, None)) ` set INT_LEVELS \<subseteq> set ls"
  using assms by (fastforce simp: levels_to_check_def)

section \<open>No escalation\<close>

text \<open>What an accepted change of the power levels says about one listed user.\<close>

lemma check_power_levels_user:
  assumes ok: "check_power_levels rv e am = Inr ()"
    and key: "event_state_key e = Inr sk" "am (ev_type e, sk) = Some cur"
    and ul: "get_user_power_level (ev_sender e) am = Inr ul"
    and new: "jget_default (ev_content e) ''users'' (JDict []) = JDict users" "dget users u = Some v"
  obtains old l where "py_int v = Inr l"
    and "level_at (ev_content cur) (JStr u) (Some ''users'') = Inr old"
    and "change_allowed ul (u \<noteq> ev_sender e) old (Some l)"
proof -
  from ok new(1) key ul obtain ls where users: "\<forall>kv\<in>set users. check_user_entry kv = Inr ()"
    and ls: "levels_to_check rv (ev_content cur) (ev_content e) users = Inr ls"
    and changes: "\<forall>nd\<in>set ls. check_level_change e (ev_content cur) ul nd = Inr ()"
    by (clarsimp simp: check_power_levels_def)
  from new(2) users have "check_user_entry (u, v) = Inr ()" by (meson map_of_SomeD)
  then obtain l where l: "py_int v = Inr l"
    by (auto simp: check_user_entry_def split: sum.splits)
  obtain us where us: "union_keys (jget_default (ev_content cur) ''users'' (JDict [])) (JDict users) = Inr us"
    and sub: "(\<lambda>u. (u, Some ''users'')) ` set us \<subseteq> set ls"
    using levels_to_check_Inr [OF ls] .
  have "u \<in> set (dkeys users)" using new(2) dget_None_iff [of users u] by auto
  with us sub have "(JStr u, Some ''users'') \<in> set ls" by (blast dest: union_keys_right)
  with changes have "check_level_change e (ev_content cur) ul (JStr u, Some ''users'') = Inr ()"
    by blast
  with level_at_dict [OF new l] show ?thesis
    by (auto simp: check_level_change_Inr intro: that l)
qed

text \<open>A user's level once a power levels event with a mapping of users is in force.\<close>

lemma get_user_power_level_listed:
  assumes "am CREATE_KEY = Some c" and "am POWER_KEY = Some pl"
    and "jget_default (ev_content pl) ''users'' (JDict []) = JDict users"
    and "dget users u = Some v" and "py_int v = Inr l"
    and "(if msc4289_creator_power_enabled (ev_room_version c) then is_creator c u else Inr False) = Inr False"
  shows "get_user_power_level u am = Inr l"
proof -
  have "v \<noteq> JNull" using assms(5) by auto
  with assms show ?thesis by (simp add: get_user_power_level_def get_power_level_event_def)
qed

text \<open>A user above the room's default level is a privileged creator or listed by name.\<close>

definition creator_flag :: "auth_map \<Rightarrow> string \<Rightarrow> bool res" where
  "creator_flag am u = (case am CREATE_KEY of
      None \<Rightarrow> Inl AssertionError
    | Some c \<Rightarrow> if msc4289_creator_power_enabled (ev_room_version c) then is_creator c u else Inr False)"


lemma get_user_power_level_cases:
  assumes l: "get_user_power_level u am = Inr l" and pl: "am POWER_KEY = Some pl"
    and D: "py_int (jget_default (ev_content pl) ''users_default'' (JInt 0)) = Inr D" "D < l"
  obtains "creator_flag am u = Inr True" and "l = CREATOR_POWER_LEVEL"
  | users v where "creator_flag am u = Inr False"
    and "jget_default (ev_content pl) ''users'' (JDict []) = JDict users"
    and "dget users u = Some v" and "py_int v = Inr l"
proof -
  from l obtain c b where c: "am CREATE_KEY = Some c" and b: "creator_flag am u = Inr b"
    by (auto simp: get_user_power_level_def creator_flag_def split: option.splits)
  show ?thesis
  proof (cases b)
    case True
    with l b c have "l = CREATOR_POWER_LEVEL"
      by (auto simp: get_user_power_level_def creator_flag_def split: option.splits)
    with True b show ?thesis using that(1) by simp
  next
    case False
    from D(1) have nn: "jget_default (ev_content pl) ''users_default'' (JInt 0) \<noteq> JNull" by auto
    have "\<exists>users v. jget_default (ev_content pl) ''users'' (JDict []) = JDict users
        \<and> dget users u = Some v \<and> py_int v = Inr l"
      using l b c False pl D nn
      by (cases "jget_default (ev_content pl) ''users'' (JDict [])")
        (auto simp: get_user_power_level_def get_power_level_event_def creator_flag_def Let_def
          split: option.splits if_splits)
    with False b show ?thesis using that(2) by auto
  qed
qed

lemma creator_flag_power [simp]: "creator_flag (am(POWER_KEY \<mapsto> e)) u = creator_flag am u"
  by (simp add: creator_flag_def CREATE_KEY_def)

lemma get_user_power_level_listed':
  assumes "creator_flag am u = Inr False" and "am POWER_KEY = Some pl"
    and "jget_default (ev_content pl) ''users'' (JDict []) = JDict users"
    and "dget users u = Some v" and "py_int v = Inr l"
  shows "get_user_power_level u am = Inr l"
proof -
  obtain c where c: "am CREATE_KEY = Some c"
    using assms(1) by (cases "am CREATE_KEY") (simp_all add: creator_flag_def)
  show ?thesis
    by (rule get_user_power_level_listed [of am c pl users u v, OF c assms(2-5)])
      (use assms(1) c in \<open>simp add: creator_flag_def\<close>)
qed

lemma get_user_power_level_creator:
  "creator_flag am u = Inr True \<Longrightarrow> get_user_power_level u am = Inr CREATOR_POWER_LEVEL"
  by (cases "am CREATE_KEY") (simp_all add: creator_flag_def get_user_power_level_def)

text \<open>
  C1. No escalation. Let the state have a power levels event, let a new one be accepted, and let the
  \<open>users_default\<close> of the new one be at most the level of its sender. Then every user who is above the
  level of the sender under the new power levels had exactly that level before: such a change cannot
  lift anybody, the sender included, above the level of the sender. The condition on \<open>users_default\<close> is
  needed: where it is higher, a user who is listed with a low level and is removed from the list
  falls back to it.
\<close>

theorem no_privilege_escalation:
  assumes ok: "check_power_levels rv e am = Inr ()"
    and e: "ev_type e = EventTypes_PowerLevels" "event_state_key e = Inr []"
    and cur: "am POWER_KEY = Some cur"
    and ul: "get_user_power_level (ev_sender e) am = Inr ul"
    and D: "py_int (jget_default (ev_content e) ''users_default'' (JInt 0)) = Inr D" "D \<le> ul"
    and new: "get_user_power_level u (am(POWER_KEY \<mapsto> e)) = Inr l" "ul < l"
  shows "get_user_power_level u am = Inr l"
proof -
  have "D < l" using D(2) new(2) by simp
  from new(1) _ D(1) this show ?thesis
  proof (rule get_user_power_level_cases)
    assume "creator_flag (am(POWER_KEY \<mapsto> e)) u = Inr True" and "l = CREATOR_POWER_LEVEL"
    then show ?thesis by (simp add: get_user_power_level_creator)
  next
    fix users v
    assume flag: "creator_flag (am(POWER_KEY \<mapsto> e)) u = Inr False"
      and users: "jget_default (ev_content e) ''users'' (JDict []) = JDict users" "dget users u = Some v"
      and v: "py_int v = Inr l"
    from e cur have "am (ev_type e, []) = Some cur" by simp
    from check_power_levels_user [OF ok e(2) this ul users] v new(2)
    have "level_at (ev_content cur) (JStr u) (Some ''users'') = Inr (Some l)"
      by (auto simp: change_allowed_def)
    then obtain m w where "jget_default (ev_content cur) ''users'' (JDict []) = JDict m"
      and "dget m u = Some w" and "py_int w = Inr l"
      by (rule level_at_Some)
    with flag cur show ?thesis by (auto intro: get_user_power_level_listed')
  qed simp
qed

theorem no_privilege_escalation_witness:
  "get_user_power_level ''@a:x'' (sample_map [sample_create,
      sample_power_levels ''$p'' ''@a:x'' [(''@a:x'', JInt 100), (''@b:x'', JInt 50)]]) = Inr 100"
  by (rule no_privilege_escalation
      [where rv = RoomVersions_V11 and ul = 50 and D = 0
        and e = "sample_power_levels ''$q'' ''@b:x'' [(''@a:x'', JInt 100), (''@b:x'', JInt 20)]"
        and cur = "sample_power_levels ''$p'' ''@a:x'' [(''@a:x'', JInt 100), (''@b:x'', JInt 50)]"];
      code_simp)

lemma union_keys_left:
  "union_keys (JDict m) b = Inr l \<Longrightarrow> u \<in> set (dkeys m) \<Longrightarrow> JStr u \<in> set l"
  by (force simp: union_keys_def dkeys_def)

text \<open>The same for a user listed in the power levels that are being replaced.\<close>

lemma check_power_levels_old_user:
  assumes ok: "check_power_levels rv e am = Inr ()"
    and key: "event_state_key e = Inr sk" "am (ev_type e, sk) = Some cur"
    and ul: "get_user_power_level (ev_sender e) am = Inr ul"
    and old: "jget_default (ev_content cur) ''users'' (JDict []) = JDict users" "dget users u = Some v"
      "py_int v = Inr l"
  obtains new users' where "level_at (ev_content e) (JStr u) (Some ''users'') = Inr new"
    and "jget_default (ev_content e) ''users'' (JDict []) = JDict users'"
    and "change_allowed ul (u \<noteq> ev_sender e) (Some l) new"
proof -
  from ok key ul obtain users' ls where users': "jget_default (ev_content e) ''users'' (JDict []) = JDict users'"
    and ls: "levels_to_check rv (ev_content cur) (ev_content e) users' = Inr ls"
    and changes: "\<forall>nd\<in>set ls. check_level_change e (ev_content cur) ul nd = Inr ()"
    by (cases "jget_default (ev_content e) ''users'' (JDict [])")
      (auto simp: check_power_levels_def)
  obtain us where us: "union_keys (JDict users) (JDict users') = Inr us"
    and sub: "(\<lambda>u. (u, Some ''users'')) ` set us \<subseteq> set ls"
    using levels_to_check_Inr [OF ls] old(1) by metis
  have "u \<in> set (dkeys users)" using old(2) dget_None_iff [of users u] by auto
  with us sub have "(JStr u, Some ''users'') \<in> set ls" by (blast dest: union_keys_left)
  with changes have "check_level_change e (ev_content cur) ul (JStr u, Some ''users'') = Inr ()"
    by blast
  with level_at_dict [OF old] show ?thesis
    by (auto simp: check_level_change_Inr intro: that users')
qed

text \<open>
  C22. No demotion of peers. Let the state have a power levels event, let a new one be accepted, and
  take another user whose level is at least that of the sender and above the current
  \<open>users_default\<close>, that is, who is listed or a creator. Under the new power levels the user has
  exactly the same level.
\<close>

theorem no_demotion_of_peers:
  assumes ok: "check_power_levels rv e am = Inr ()"
    and e: "ev_type e = EventTypes_PowerLevels" "event_state_key e = Inr []"
    and cur: "am POWER_KEY = Some cur"
    and ul: "get_user_power_level (ev_sender e) am = Inr ul"
    and D: "py_int (jget_default (ev_content cur) ''users_default'' (JInt 0)) = Inr D" "D < l"
    and u: "get_user_power_level u am = Inr l" "ul \<le> l" "u \<noteq> ev_sender e"
  shows "get_user_power_level u (am(POWER_KEY \<mapsto> e)) = Inr l"
  using u(1) cur D
proof (rule get_user_power_level_cases)
  assume "creator_flag am u = Inr True" and "l = CREATOR_POWER_LEVEL"
  then show ?thesis by (simp add: get_user_power_level_creator)
next
  fix users v
  assume flag: "creator_flag am u = Inr False"
    and users: "jget_default (ev_content cur) ''users'' (JDict []) = JDict users" "dget users u = Some v"
      "py_int v = Inr l"
  from e cur have "am (ev_type e, []) = Some cur" by simp
  from check_power_levels_old_user [OF ok e(2) this ul users] u(2,3)
  obtain users' where "level_at (ev_content e) (JStr u) (Some ''users'') = Inr (Some l)"
    by (auto simp: change_allowed_def split: option.splits)
  then obtain m w where "jget_default (ev_content e) ''users'' (JDict []) = JDict m"
    and "dget m u = Some w" and "py_int w = Inr l"
    by (rule level_at_Some)
  with flag show ?thesis by (auto intro: get_user_power_level_listed')
qed

theorem no_demotion_of_peers_witness:
  "get_user_power_level ''@a:x'' ((sample_map [sample_create,
      sample_power_levels ''$p'' ''@a:x'' [(''@a:x'', JInt 100), (''@b:x'', JInt 50)]])
        (POWER_KEY \<mapsto> sample_power_levels ''$q'' ''@b:x'' [(''@a:x'', JInt 100)])) = Inr 100"
  by (rule no_demotion_of_peers
      [where rv = RoomVersions_V11 and ul = 50 and D = 0
        and cur = "sample_power_levels ''$p'' ''@a:x'' [(''@a:x'', JInt 100), (''@b:x'', JInt 50)]"];
      code_simp)

end
