(* ===== verification/Send_Props.thy ===== *)
theory Send_Props
  imports Event_Auth Sample_Room
begin

text \<open>
  Properties of \<open>_can_send_event\<close> and of the Setka send level override inside it, of the part of
  the state that the rules read (\<open>auth_types_for_event\<close>), and of the state-independent rules.
\<close>

section \<open>The send level\<close>

lemma can_send_event_Inr:
  assumes "can_send_event ext e am = Inr b"
  obtains lvl ul where
    "get_send_level (ev_type e) (get_state_key e) (get_power_level_event am) = Inr lvl"
    and "get_user_power_level (ev_sender e) am = Inr ul"
    and "lvl \<le> ul \<or> (\<exists>l. setka_channel_thread_comment_send_level e am = Inr (Some l) \<and> l \<le> ul)"
  using assms
  by (auto simp: can_send_event_def Let_def not_less split: if_splits option.splits)

text \<open>
  C37. Sending. An event that \<open>_can_send_event\<close> accepts comes from a user whose level reaches the
  send level of the event, except for a message or sticker in a Setka channel that is not part of a
  thread, for which the override's level is enough; and a state key that starts with \<open>@\<close> is
  the sender's own user id, except in rooms with owned state.
\<close>

theorem send_needs_level:
  assumes "can_send_event ext e am = Inr b"
  shows "\<exists>lvl ul. get_send_level (ev_type e) (get_state_key e) (get_power_level_event am) = Inr lvl
      \<and> get_user_power_level (ev_sender e) am = Inr ul
      \<and> (lvl \<le> ul
         \<or> ev_type e \<in> set FEED_EVENT_TYPES \<and> is_setka_channel_state am
           \<and> is_threaded_content (ev_content e) = Inr False
           \<and> (\<exists>l\<le>ul. setka_channel_thread_comment_send_level e am = Inr (Some l)))
      \<and> (\<forall>sk. get_state_key e = Some sk \<and> py_startswith sk ''@'' \<and> \<not> msc3757_enabled (ev_room_version e)
           \<longrightarrow> sk = ev_sender e)"
proof -
  obtain lvl ul where a: "get_send_level (ev_type e) (get_state_key e) (get_power_level_event am) = Inr lvl"
      "get_user_power_level (ev_sender e) am = Inr ul"
    and b: "lvl \<le> ul \<or> (\<exists>l. setka_channel_thread_comment_send_level e am = Inr (Some l) \<and> l \<le> ul)"
    using can_send_event_Inr [OF assms] .
  have "\<forall>sk. get_state_key e = Some sk \<and> py_startswith sk ''@'' \<and> \<not> msc3757_enabled (ev_room_version e)
           \<longrightarrow> sk = ev_sender e"
    using assms by (auto simp: can_send_event_def Let_def check_state_key_owner_def split: if_splits)
  with a b show ?thesis using setka_override_Some by blast
qed

theorem send_needs_level_witness:
  "\<exists>ul. get_user_power_level ''@b:x'' (sample_map (sample_topic # sample_state)) = Inr ul
     \<and> (\<exists>lvl. get_send_level EventTypes_Message None
           (get_power_level_event (sample_map (sample_topic # sample_state))) = Inr lvl)"
proof -
  have "can_send_event sample_ext (sample_message ''@b:x'' []) (sample_map (sample_topic # sample_state)) = Inr True"
    by code_simp
  from send_needs_level [OF this] show ?thesis
    by (auto simp: sample_message_def sample_event_def get_state_key_def)
qed

text \<open>
  C38. The override is inverted. Its documentation lowers the send level of threaded comments in
  a channel to the level of ordinary members; the code does the opposite. When a user's level is
  below the send level of messages in a channel, a threaded comment of theirs is refused, while
  a top-level post is accepted as soon as they reach the default level.
\<close>

theorem channel_override_inverted:
  assumes "ev_type e \<in> set FEED_EVENT_TYPES" and "get_state_key e = None"
    and "is_setka_channel_state am" and "am (EventTypes_PowerLevels, []) = Some pl"
    and "jget (ev_content pl) ''users_default'' = JInt d"
    and "get_send_level (ev_type e) None (Some pl) = Inr lvl"
    and "get_user_power_level (ev_sender e) am = Inr ul" and "ul < lvl" and "d \<le> ul"
    and "is_threaded_content (ev_content e) = Inr threaded"
  shows "can_send_event ext e am =
    (if threaded
     then Inl (UnstableSpecAuthError 403 ''You don't have permission to post that to the room. ''
                 INSUFFICIENT_POWER)
     else Inr True)"
proof -
  have "setka_channel_thread_comment_send_level e am = Inr (if threaded then None else Some d)"
    using assms by (simp add: setka_channel_thread_comment_send_level_def)
  with assms show ?thesis
    by (auto simp: can_send_event_def get_power_level_event_def)
qed

theorem channel_override_inverted_witness:
  "can_send_event sample_ext
     (sample_message ''@b:x'' [(''m.relates_to'', JDict [(''rel_type'', JStr ''m.thread'')])])
     (sample_map (sample_topic # sample_state))
     = Inl (UnstableSpecAuthError 403 ''You don't have permission to post that to the room. ''
              INSUFFICIENT_POWER)
   \<and> can_send_event sample_ext (sample_message ''@b:x'' []) (sample_map (sample_topic # sample_state))
     = Inr True"
proof -
  let ?am = "sample_map (sample_topic # sample_state)"
  let ?pl = "sample_power_levels ''$p'' ''@a:x'' [(''@a:x'', JInt 100)]"
  let ?t = "sample_message ''@b:x'' [(''m.relates_to'', JDict [(''rel_type'', JStr ''m.thread'')])]"
  let ?m = "sample_message ''@b:x'' []"
  have "can_send_event sample_ext ?t ?am = (if True
     then Inl (UnstableSpecAuthError 403 ''You don't have permission to post that to the room. ''
                 INSUFFICIENT_POWER) else Inr True)"
    by (rule channel_override_inverted [where pl = ?pl and d = 0 and lvl = 50 and ul = 0]; code_simp)
  moreover have "can_send_event sample_ext ?m ?am = (if False
     then Inl (UnstableSpecAuthError 403 ''You don't have permission to post that to the room. ''
                 INSUFFICIENT_POWER) else Inr True)"
    by (rule channel_override_inverted [where pl = ?pl and d = 0 and lvl = 50 and ul = 0]; code_simp)
  ultimately show ?thesis by simp
qed

section \<open>What the rules read\<close>

lemma topic_not_auth_type:
  assumes "auth_types_for_event rv e = Inr ts"
  shows "(EventTypes_Topic, []) \<notin> set ts"
  using assms
  by (auto simp: auth_types_for_event_def key_if_str_def CREATE_KEY_def Let_def
      split: if_splits option.splits json.splits)

text \<open>
  The override never applies to auth events. When the rules are run on a state that holds only
  the entries that \<open>auth_types_for_event\<close> selects, which is what \<open>check_auth_rules_from_context\<close>
  and the state resolution pass, the room topic is not among them and a user whose level is
  below the send level is refused in a Setka channel as in any other room.
\<close>

theorem override_never_applies_to_auth_events:
  assumes "auth_types_for_event (ev_room_version e) e = Inr ts"
    and "\<forall>k. am k \<noteq> None \<longrightarrow> k \<in> set ts"
    and "get_send_level (ev_type e) (get_state_key e) (get_power_level_event am) = Inr lvl"
    and "get_user_power_level (ev_sender e) am = Inr ul" and "ul < lvl"
  shows "can_send_event ext e am =
    Inl (UnstableSpecAuthError 403 ''You don't have permission to post that to the room. ''
           INSUFFICIENT_POWER)"
proof -
  have "am (EventTypes_Topic, []) = None"
    using topic_not_auth_type [OF assms(1)] assms(2) by blast
  from setka_override_no_topic [of am e, OF this] assms(3-5) show ?thesis
    by (simp add: can_send_event_def)
qed

theorem override_never_applies_to_auth_events_witness:
  "can_send_event sample_ext (sample_message ''@b:x'' [])
     (sample_map [sample_create, sample_member ''$jb'' ''@b:x'' ''@b:x'' Membership_JOIN,
        sample_power_levels ''$p'' ''@a:x'' [(''@a:x'', JInt 100)]]) =
    Inl (UnstableSpecAuthError 403 ''You don't have permission to post that to the room. ''
           INSUFFICIENT_POWER)"
proof (rule override_never_applies_to_auth_events
    [where ts = "[(EventTypes_PowerLevels, []), (EventTypes_Member, ''@b:x''), CREATE_KEY]"
      and lvl = 50 and ul = 0])
  show "\<forall>k. sample_map [sample_create, sample_member ''$jb'' ''@b:x'' ''@b:x'' Membership_JOIN,
        sample_power_levels ''$p'' ''@a:x'' [(''@a:x'', JInt 100)]] k \<noteq> None \<longrightarrow>
      k \<in> set [(EventTypes_PowerLevels, []), (EventTypes_Member, ''@b:x''), CREATE_KEY]"
    by (auto simp: sample_map_def sample_create_def sample_member_def sample_power_levels_def
        sample_event_def CREATE_KEY_def split: if_splits)
qed code_simp+

text \<open>Two states that agree on the entries for the power levels and the creation.\<close>

lemma power_level_congs:
  assumes "am (EventTypes_PowerLevels, []) = am' (EventTypes_PowerLevels, [])"
  shows "get_power_level_event am = get_power_level_event am'"
    and "get_named_level am = get_named_level am'"
  using assms by (auto simp: get_power_level_event_def get_named_level_def fun_eq_iff)

lemma get_user_power_level_cong:
  assumes "am (EventTypes_PowerLevels, []) = am' (EventTypes_PowerLevels, [])"
    and "am CREATE_KEY = am' CREATE_KEY"
  shows "get_user_power_level u am = get_user_power_level u am'"
  unfolding get_user_power_level_def get_power_level_event_def assms by (rule refl)

lemma can_send_event_cong:
  assumes "am (EventTypes_PowerLevels, []) = am' (EventTypes_PowerLevels, [])"
    and "am CREATE_KEY = am' CREATE_KEY"
    and "am (EventTypes_Topic, []) = am' (EventTypes_Topic, [])"
  shows "can_send_event ext e am = can_send_event ext e am'"
proof -
  note lvl = get_user_power_level_cong [of am am', OF assms(1,2)]
  show ?thesis
    unfolding can_send_event_def check_state_key_owner_def lvl power_level_congs(1) [of am am', OF assms(1)]
      setka_override_cong [of am am', OF assms(3,1)] by (rule refl)
qed

lemma check_power_levels_cong:
  assumes "am (EventTypes_PowerLevels, []) = am' (EventTypes_PowerLevels, [])"
    and "am CREATE_KEY = am' CREATE_KEY"
    and "ev_type e = EventTypes_PowerLevels" and "event_state_key e = Inr []"
  shows "check_power_levels rv e am = check_power_levels rv e am'"
  unfolding check_power_levels_def check_creators_not_listed_def
    get_user_power_level_cong [of am am', OF assms(1,2)] assms bindE_Inr by (rule refl)

lemma check_redaction_cong:
  assumes "am (EventTypes_PowerLevels, []) = am' (EventTypes_PowerLevels, [])"
    and "am CREATE_KEY = am' CREATE_KEY"
  shows "check_redaction rv e am = check_redaction rv e am'"
  unfolding check_redaction_def get_user_power_level_cong [of am am', OF assms] power_level_congs(2) [of am am', OF assms(1)]
  by (rule refl)

text \<open>Membership changes: the facts agree except for the join rule, which kicks, bans and leaves
  do not look at.\<close>

lemma membership_facts_of_cong:
  assumes "am (EventTypes_PowerLevels, []) = am' (EventTypes_PowerLevels, [])"
    and "am CREATE_KEY = am' CREATE_KEY"
    and "am (EventTypes_Member, ev_sender e) = am' (EventTypes_Member, ev_sender e)"
    and "am (EventTypes_Member, t) = am' (EventTypes_Member, t)"
  obtains jr where "membership_facts_of rv e t am' =
      bindE (membership_facts_of rv e t am) (\<lambda>f. Inr (f\<lparr>join_rule := jr\<rparr>))"
    and "am (EventTypes_JoinRules, []) = am' (EventTypes_JoinRules, []) \<Longrightarrow>
      membership_facts_of rv e t am' = membership_facts_of rv e t am"
proof -
  note lvl = get_user_power_level_cong [of am am', OF assms(1,2)] power_level_congs(2) [of am am', OF assms(1)]
  have "membership_facts_of rv e t am' = bindE (membership_facts_of rv e t am)
      (\<lambda>f. Inr (f\<lparr>join_rule := (case am' (EventTypes_JoinRules, []) of
             Some e \<Rightarrow> jget_default (ev_content e) ''join_rule'' (JStr JoinRules_INVITE)
           | None \<Rightarrow> JStr JoinRules_INVITE)\<rparr>))"
    unfolding membership_facts_of_def lvl assms(3,4) Let_def bindE_assoc
    by simp
  moreover have "membership_facts_of rv e t am' = membership_facts_of rv e t am"
    if "am (EventTypes_JoinRules, []) = am' (EventTypes_JoinRules, [])"
    unfolding membership_facts_of_def lvl assms(3,4) that by (rule refl)
  ultimately show ?thesis using that by blast
qed

text \<open>What the selection for a membership event contains.\<close>

lemma auth_types_member:
  assumes "auth_types_for_event rv e = Inr ts" and "ev_type e = EventTypes_Member"
  obtains ms t where "membership e = Inr ms" and "event_state_key e = Inr t"
    and "{(EventTypes_PowerLevels, []), (EventTypes_Member, ev_sender e), CREATE_KEY,
          (EventTypes_Member, t)} \<subseteq> set ts"
    and "ms \<in> {JStr Membership_JOIN, JStr Membership_INVITE, JStr Membership_KNOCK} \<Longrightarrow>
          (EventTypes_JoinRules, []) \<in> set ts"
    and "\<And>tpi tok. dget (ev_content e) ''third_party_invite'' = Some tpi \<Longrightarrow> ms = JStr Membership_INVITE \<Longrightarrow>
          third_party_token tpi = Inr (JStr tok) \<Longrightarrow> (EventTypes_ThirdPartyInvite, tok) \<in> set ts"
    and "\<And>u. dget (ev_content e) EventContentFields_AUTHORISING_USER = Some (JStr u) \<Longrightarrow>
          restricted_join_rule rv \<Longrightarrow> ms = JStr Membership_JOIN \<Longrightarrow> (EventTypes_Member, u) \<in> set ts"
proof -
  from assms obtain ms t where "membership e = Inr ms" and "event_state_key e = Inr t"
    by (auto simp: auth_types_for_event_def Let_def split: if_splits)
  with assms show ?thesis
    by (intro that [of ms t]) (auto simp: auth_types_for_event_def Let_def key_if_str_def)
qed

lemma verify_third_party_invite_cong:
  assumes "\<And>tpi tok. dget (ev_content e) ''third_party_invite'' = Some tpi \<Longrightarrow>
      third_party_token tpi = Inr (JStr tok) \<Longrightarrow>
      am (EventTypes_ThirdPartyInvite, tok) = am' (EventTypes_ThirdPartyInvite, tok)"
  shows "verify_third_party_invite ext e am = verify_third_party_invite ext e am'"
proof -
  have key: "am (EventTypes_ThirdPartyInvite, tok) = am' (EventTypes_ThirdPartyInvite, tok)"
    if "dget (ev_content e) ''third_party_invite'' = Some (JDict tpi)"
      "dget tpi ''signed'' = Some (JDict signed)" "dget signed ''token'' = Some (JStr tok)"
    for tpi signed tok
    using assms [OF that(1), of tok] that by (simp add: third_party_token_def)
  have dict: "as_mapping v = Some d \<Longrightarrow> v = JDict d" for v d by (cases v) auto
  show ?thesis
    unfolding verify_third_party_invite_def
    by (intro option.case_cong refl prod.case_cong bindE_cong json.case_cong) (auto dest!: dict key)
qed

lemma check_authorising_user_cong:
  assumes "am (EventTypes_PowerLevels, []) = am' (EventTypes_PowerLevels, [])"
    and "am CREATE_KEY = am' CREATE_KEY"
    and "\<And>u. dget (ev_content e) EventContentFields_AUTHORISING_USER = Some (JStr u) \<Longrightarrow>
      am (EventTypes_Member, u) = am' (EventTypes_Member, u)"
  shows "check_authorising_user e am f = check_authorising_user e am' f"
proof -
  have "jget (ev_content e) EventContentFields_AUTHORISING_USER = JStr u \<Longrightarrow>
      am (EventTypes_Member, u) = am' (EventTypes_Member, u)" for u
    using assms(3) by (auto simp: jget_def split: option.splits)
  with get_user_power_level_cong [of am am', OF assms(1,2)] show ?thesis
    by (cases "jget (ev_content e) EventContentFields_AUTHORISING_USER")
      (simp_all add: check_authorising_user_def)
qed

lemma is_membership_change_allowed_cong:
  assumes ts: "auth_types_for_event rv e = Inr ts" "ev_type e = EventTypes_Member"
    and ok: "room_version_ok rv"
    and agree: "\<forall>k\<in>set ts. am k = am' k"
  shows "is_membership_change_allowed ext rv e am = is_membership_change_allowed ext rv e am'"
  using ts
proof (rule auth_types_member)
  fix ms t
  assume ms: "membership e = Inr ms" and t: "event_state_key e = Inr t"
    and base: "{(EventTypes_PowerLevels, []), (EventTypes_Member, ev_sender e), CREATE_KEY,
          (EventTypes_Member, t)} \<subseteq> set ts"
    and jr: "ms \<in> {JStr Membership_JOIN, JStr Membership_INVITE, JStr Membership_KNOCK} \<Longrightarrow>
          (EventTypes_JoinRules, []) \<in> set ts"
    and tpi: "\<And>tpi tok. dget (ev_content e) ''third_party_invite'' = Some tpi \<Longrightarrow> ms = JStr Membership_INVITE \<Longrightarrow>
          third_party_token tpi = Inr (JStr tok) \<Longrightarrow> (EventTypes_ThirdPartyInvite, tok) \<in> set ts"
    and auth: "\<And>u. dget (ev_content e) EventContentFields_AUTHORISING_USER = Some (JStr u) \<Longrightarrow>
          restricted_join_rule rv \<Longrightarrow> ms = JStr Membership_JOIN \<Longrightarrow> (EventTypes_Member, u) \<in> set ts"
  from base agree have eqs: "am (EventTypes_PowerLevels, []) = am' (EventTypes_PowerLevels, [])"
    "am CREATE_KEY = am' CREATE_KEY"
    "am (EventTypes_Member, ev_sender e) = am' (EventTypes_Member, ev_sender e)"
    "am (EventTypes_Member, t) = am' (EventTypes_Member, t)" by auto
  have cj: "creator_joining rv e am ms = creator_joining rv e am' ms"
    unfolding creator_joining_def eqs by (rule refl)
  have fed: "can_federate am = can_federate am'" unfolding can_federate_def eqs by (rule refl)
  have third: "verify_third_party_invite ext e am = verify_third_party_invite ext e am'"
    if "ms = JStr Membership_INVITE"
    by (rule verify_third_party_invite_cong) (use tpi that agree in blast)
  have authorised: "check_authorising_user e am f = check_authorising_user e am' f"
    if "ms = JStr Membership_JOIN" "restricted_join_rule rv" for f
    by (rule check_authorising_user_cong [of am am', OF eqs(1,2)]) (use auth that agree in blast)
  have join: "check_join rv e t am f = check_join rv e t am' f" if "ms = JStr Membership_JOIN" for f
    using authorised [OF that] ok by (auto simp: check_join_def room_version_ok_def)
  have leave: "check_leave e t am f = check_leave e t am' f" for f
    unfolding check_leave_def power_level_congs(2) [of am am', OF eqs(1)] by (rule refl)
  obtain r where facts: "membership_facts_of rv e t am' =
        bindE (membership_facts_of rv e t am) (\<lambda>f. Inr (f\<lparr>join_rule := r\<rparr>))"
    and same: "am (EventTypes_JoinRules, []) = am' (EventTypes_JoinRules, []) \<Longrightarrow>
        membership_facts_of rv e t am' = membership_facts_of rv e t am"
    using membership_facts_of_cong [of am am' e t rv, OF eqs] by blast
  show ?thesis
  proof (cases "ms \<in> {JStr Membership_JOIN, JStr Membership_INVITE, JStr Membership_KNOCK}")
    case True
    then have "membership_facts_of rv e t am' = membership_facts_of rv e t am"
      using same jr agree by blast
    then show ?thesis
      using ms t cj eqs(2) fed third join leave
      by (simp add: is_membership_change_allowed_def cong: if_cong option.case_cong)
  next
    case False
    then show ?thesis
      using ms t cj eqs(2) fed leave
      by (simp add: is_membership_change_allowed_def facts bindE_assoc check_ban_def check_leave_def
          cong: if_cong option.case_cong)
  qed
qed

lemma auth_types_base:
  assumes "auth_types_for_event rv e = Inr ts" and "ev_type e \<noteq> EventTypes_Create"
  shows "{(EventTypes_PowerLevels, []), (EventTypes_Member, ev_sender e), CREATE_KEY} \<subseteq> set ts"
  using assms by (auto simp: auth_types_for_event_def Let_def split: if_splits)

text \<open>
  C9. The selected auth events suffice. For an event of a known room version (a power levels
  event having the empty state key), the outcome of the state-dependent rules, exceptions
  included, is the same for any two states that agree on the entries selected by
  \<open>auth_types_for_event\<close> and on the topic, which only the Setka override reads.
\<close>

theorem auth_rules_read_only_auth_types:
  assumes ts: "auth_types_for_event (ev_room_version e) e = Inr ts"
    and "ev_type e \<noteq> EventTypes_Create" and ok: "room_version_ok (ev_room_version e)"
    and pl: "ev_type e = EventTypes_PowerLevels \<Longrightarrow> event_state_key e = Inr []"
    and agree: "\<forall>k\<in>set ts. am k = am' k"
    and topic: "am (EventTypes_Topic, []) = am' (EventTypes_Topic, [])"
  shows "check_against_auth_dict ext e am = check_against_auth_dict ext e am'"
proof -
  from auth_types_base [OF ts assms(2)] agree
  have eqs: "am (EventTypes_PowerLevels, []) = am' (EventTypes_PowerLevels, [])"
    "am CREATE_KEY = am' CREATE_KEY"
    "am (EventTypes_Member, ev_sender e) = am' (EventTypes_Member, ev_sender e)" by auto
  have member: "is_membership_change_allowed ext (ev_room_version e) e am
      = is_membership_change_allowed ext (ev_room_version e) e am'"
    if "ev_type e = EventTypes_Member"
    by (rule is_membership_change_allowed_cong [OF ts that ok agree])
  have fed: "can_federate am = can_federate am'" unfolding can_federate_def eqs by (rule refl)
  have sender: "check_event_sender_in_room e am = check_event_sender_in_room e am'"
    unfolding check_event_sender_in_room_def eqs by (rule refl)
  have levels: "check_power_levels (ev_room_version e) e am = check_power_levels (ev_room_version e) e am'"
    if "ev_type e = EventTypes_PowerLevels"
    by (rule check_power_levels_cong [of am am', OF eqs(1,2) that pl [OF that]])
  note lvl = get_user_power_level_cong [of am am', OF eqs(1,2)] power_level_congs(2) [of am am', OF eqs(1)]
    can_send_event_cong [of am am', OF eqs(1,2) topic] check_redaction_cong [of am am', OF eqs(1,2)]
  show ?thesis
    unfolding check_against_auth_dict_def eqs(2) fed sender lvl
    using member levels by (simp cong: if_cong option.case_cong)
qed

theorem auth_rules_read_only_auth_types_witness:
  "check_against_auth_dict sample_ext (sample_message ''@b:x'' []) (sample_map sample_state)
   = check_against_auth_dict sample_ext (sample_message ''@b:x'' [])
       (sample_map [sample_create, sample_member ''$jb'' ''@b:x'' ''@b:x'' Membership_JOIN,
          sample_power_levels ''$p'' ''@a:x'' [(''@a:x'', JInt 100)]])"
  by (rule auth_rules_read_only_auth_types
      [where ts = "[(EventTypes_PowerLevels, []), (EventTypes_Member, ''@b:x''), CREATE_KEY]"];
      code_simp)

section \<open>The state-independent rules\<close>

definition auth_event_ok :: "string \<Rightarrow> (string \<times> string) list \<Rightarrow> event \<Rightarrow> bool" where
  "auth_event_ok rid ts a \<longleftrightarrow> event_room_id a = Inr rid \<and> ev_rejected_reason a \<in> {None, Some []}
     \<and> (\<exists>sk. ev_dict_state_key a = Some sk \<and> (ev_type a, sk) \<in> set ts)"

definition state_entry :: "event \<Rightarrow> string \<times> string" where
  "state_entry a = (ev_type a, the (ev_dict_state_key a))"

lemma check_auth_event_Inr:
  "check_auth_event lookup rid ts i d = Inr d' \<longleftrightarrow>
     (\<exists>a. lookup i = Some a \<and> auth_event_ok rid ts a \<and> dget d (state_entry a) = None
        \<and> d' = dset (state_entry a) i d)"
  by (auto simp: check_auth_event_def auth_event_ok_def state_entry_def event_state_key_def Let_def
      split: option.splits)

lemma check_auth_events_fold:
  assumes "foldE (check_auth_event lookup rid ts) ids d = Inr d'"
  obtains aes where "map lookup ids = map Some aes" and "\<forall>a\<in>set aes. auth_event_ok rid ts a"
    and "distinct (map state_entry aes)" and "\<forall>a\<in>set aes. dget d (state_entry a) = None"
    and "\<And>k. dget d' k \<noteq> None \<longleftrightarrow> dget d k \<noteq> None \<or> k \<in> state_entry ` set aes"
  using assms
proof (induction ids arbitrary: d thesis)
  case Nil
  then show ?case by (auto intro: Nil(1) [of "[]"])
next
  case (Cons i ids)
  from Cons.prems(2) obtain a where a: "lookup i = Some a" "auth_event_ok rid ts a"
      "dget d (state_entry a) = None"
    and rest: "foldE (check_auth_event lookup rid ts) ids (dset (state_entry a) i d) = Inr d'"
    by (auto simp: check_auth_event_Inr)
  from Cons.IH [OF _ rest] obtain aes where "map lookup ids = map Some aes"
    and "\<forall>a\<in>set aes. auth_event_ok rid ts a" and "distinct (map state_entry aes)"
    and "\<forall>b\<in>set aes. dget (dset (state_entry a) i d) (state_entry b) = None"
    and "\<And>k. dget d' k \<noteq> None \<longleftrightarrow>
          dget (dset (state_entry a) i d) k \<noteq> None \<or> k \<in> state_entry ` set aes"
    by metis
  with a show ?case by (intro Cons.prems(1) [of "a # aes"]) (auto split: if_splits)
qed

text \<open>
  C24. State-independent rules. An accepted event (other than a create event) has auth events
  that are all known, all state events of its own room, none rejected, all selected by
  \<open>auth_types_for_event\<close> for this event, no two for the same entry of the state, and one of
  them is the room's create event.
\<close>

theorem accepted_auth_events:
  assumes ok: "check_state_independent_auth_rules ext get_events e batched = Inr ()"
    and "ev_type e \<noteq> EventTypes_Create"
    and ids: "auth_event_ids e = Inr ids" and rid: "event_room_id e = Inr rid"
    and ts: "auth_types_for_event (ev_room_version e) e = Inr ts"
  shows "\<exists>aes. map (auth_event_lookup get_events ids batched) ids = map Some aes
      \<and> (\<forall>a\<in>set aes. auth_event_ok rid ts a) \<and> distinct (map state_entry aes)
      \<and> CREATE_KEY \<in> state_entry ` set aes"
proof -
  from assms obtain d where d: "foldE (check_auth_event (auth_event_lookup get_events ids batched) rid ts) ids [] = Inr d"
    and c: "dget d CREATE_KEY \<noteq> None"
    by (auto simp: check_state_independent_auth_rules_def)
  from d show ?thesis by (rule check_auth_events_fold) (use c in auto)
qed

theorem accepted_auth_events_witness:
  "\<exists>aes. map (auth_event_lookup (\<lambda>_. [(''$c'', sample_create)]) [''$c''] None) [''$c''] = map Some aes
     \<and> (\<forall>a\<in>set aes. auth_event_ok ''!r:x''
          [(EventTypes_PowerLevels, []), (EventTypes_Member, ''@a:x''), CREATE_KEY] a)
     \<and> distinct (map state_entry aes) \<and> CREATE_KEY \<in> state_entry ` set aes"
  by (rule accepted_auth_events [where ext = sample_ext
        and e = "(sample_message ''@a:x'' [])\<lparr>ev_auth_events := [''$c'']\<rparr>"]; code_simp)

section \<open>Create events\<close>

lemma check_valid_additional_creators_Inr:
  assumes "check_valid_additional_creators ext v = Inr ()"
  obtains l where "v = JList l"
    and "\<forall>c\<in>set l. \<exists>u. c = JStr u \<and> UserID_is_valid (ext_valid_ipv6 ext) u \<and> py_len u \<le> 255"
proof -
  from assms obtain l where l: "v = JList l" and "\<forall>c\<in>set l. check_creator_entry ext c = Inr ()"
    by (cases v) (simp_all add: check_valid_additional_creators_def)
  moreover have "\<exists>u. c = JStr u \<and> UserID_is_valid (ext_valid_ipv6 ext) u \<and> py_len u \<le> 255"
    if "check_creator_entry ext c = Inr ()" for c
    using that by (cases c) (simp_all add: check_creator_entry_def)
  ultimately show ?thesis by (intro that) auto
qed

lemma check_create_creators:
  assumes "check_create ext e = Inr ()" and "msc4289_creator_power_enabled (ev_room_version e)"
  obtains l where
    "jget_default (ev_content e) EventContentFields_ADDITIONAL_CREATORS (JList []) = JList l"
    and "\<forall>c\<in>set l. \<exists>u. c = JStr u \<and> UserID_is_valid (ext_valid_ipv6 ext) u \<and> py_len u \<le> 255"
proof (cases "dget (ev_content e) EventContentFields_ADDITIONAL_CREATORS")
  case None
  then show ?thesis by (intro that [of "[]"]) (simp_all add: jget_default_def)
next
  case (Some v)
  with assms have "check_valid_additional_creators ext v = Inr ()"
    by (simp add: check_create_def Let_def)
  then show ?thesis
    by (rule check_valid_additional_creators_Inr) (use Some that in \<open>auto simp: jget_default_def\<close>)
qed

text \<open>
  Create events. An accepted create event starts a room: it has no previous events, names
  a known room version and its room id belongs to the sender's server (or is derived from the
  event itself); and afterwards the lookups of the room's creator never raise, whatever the
  rest of its content is.
\<close>

theorem accepted_create_event:
  assumes ok: "check_create ext e = Inr ()"
  shows "prev_event_ids e = []
    \<and> (\<exists>i v. dget KNOWN_ROOM_VERSIONS i = Some v
        \<and> jget_default (ev_content e) ''room_version'' (JStr ''1'') = JStr i)
    \<and> (msc4291_room_ids_as_hashes (ev_room_version e) \<and> ev_dict_room_id e = None
       \<or> (\<exists>rid d. event_room_id e = Inr rid \<and> get_domain_from_id rid = Inr d
            \<and> get_domain_from_id (ev_sender e) = Inr d))
    \<and> (\<exists>c. room_creator e = Inr c) \<and> (\<exists>b. is_creator e u = Inr b)"
proof -
  have known: "\<exists>i v. dget KNOWN_ROOM_VERSIONS i = Some v
        \<and> jget_default (ev_content e) ''room_version'' (JStr ''1'') = JStr i"
    using ok dget_None_iff [of KNOWN_ROOM_VERSIONS] by (fastforce simp: check_create_def Let_def)
  have rest: "prev_event_ids e = []" "ev_type e = EventTypes_Create" "\<exists>c. room_creator e = Inr c"
    "msc4291_room_ids_as_hashes (ev_room_version e) \<and> ev_dict_room_id e = None
       \<or> (\<exists>rid d. event_room_id e = Inr rid \<and> get_domain_from_id rid = Inr d
            \<and> get_domain_from_id (ev_sender e) = Inr d)"
    using ok by (auto simp: check_create_def room_creator_def Let_def split: if_splits)
  have "\<exists>b. is_creator e u = Inr b"
  proof (cases "msc4289_creator_power_enabled (ev_room_version e)")
    case True
    from ok True show ?thesis
    proof (rule check_create_creators)
      fix l assume "jget_default (ev_content e) EventContentFields_ADDITIONAL_CREATORS (JList []) = JList l"
        and "\<forall>c\<in>set l. \<exists>u. c = JStr u \<and> UserID_is_valid (ext_valid_ipv6 ext) u \<and> py_len u \<le> 255"
      then have "py_set (JList l) = Inr l" by (fastforce simp: py_set_def list_all_iff)
      then show ?thesis using rest(2) \<open>jget_default _ _ _ = JList l\<close> by (auto simp: is_creator_def)
    qed
  qed (use rest(2) in \<open>auto simp: is_creator_def\<close>)
  with known rest show ?thesis by blast
qed

theorem accepted_create_event_witness:
  "\<exists>b. is_creator (sample_create\<lparr>ev_room_version := RoomVersions_V12, ev_dict_room_id := None\<rparr>) ''@b:x'' = Inr b"
proof -
  have "check_create sample_ext (sample_create\<lparr>ev_room_version := RoomVersions_V12, ev_dict_room_id := None\<rparr>) = Inr ()"
    by code_simp
  from accepted_create_event [OF this, of "''@b:x''"] show ?thesis by blast
qed

end
