(* ===== verification/State_Filter.thy ===== *)
theory State_Filter
  imports Events
begin

text \<open>
  \<open>types/state.py\<close>: the filters for queries of room state. A set of state keys is a list without
  duplicates; the order of the list stands for the iteration order, which Python leaves open, and
  the properties do not depend on it. The section on membership gives each operation a meaning
  as a set of keys, and the properties are stated on it.
\<close>

section \<open>The filter\<close>

record state_filter =
  sf_types :: "(string, string list option) pydict"
  include_others :: bool

text \<open>The constructor with \<open>__attrs_post_init__\<close>, which canonicalises the dictionary.\<close>

definition StateFilter :: "(string, string list option) pydict \<Rightarrow> bool \<Rightarrow> state_filter" where
  "StateFilter types others =
     (if others
      then \<lparr>sf_types = filter (\<lambda>(k, v). v \<noteq> None) types, include_others = True\<rparr>
      else \<lparr>sf_types = filter (\<lambda>(k, v). v = None \<or> v \<noteq> Some []) types, include_others = False\<rparr>)"

definition ALL_STATE_FILTER :: state_filter where
  "ALL_STATE_FILTER = StateFilter [] True"

definition ALL_NON_MEMBER_STATE_FILTER :: state_filter where
  "ALL_NON_MEMBER_STATE_FILTER = StateFilter [(EventTypes_Member, Some [])] True"

definition NONE_STATE_FILTER :: state_filter where
  "NONE_STATE_FILTER = StateFilter [] False"

section \<open>Building filters\<close>

fun add_type :: "string \<times> string option \<Rightarrow> (string, string list option) pydict
    \<Rightarrow> (string, string list option) pydict" where
  "add_type (typ, s) type_dict =
     (case dget type_dict typ of
        Some None \<Rightarrow> type_dict
      | old \<Rightarrow>
          (case s of
             None \<Rightarrow> dset typ None type_dict
           | Some sk \<Rightarrow>
               dset typ (Some (set_add sk (case old of Some (Some ks) \<Rightarrow> ks | _ \<Rightarrow> []))) type_dict))"

definition from_types :: "(string \<times> string option) list \<Rightarrow> state_filter" where
  "from_types types = StateFilter (fold add_type types []) False"

definition to_types :: "state_filter \<Rightarrow> (string \<times> string option) list" where
  "to_types f = concat (map (\<lambda>(t, ks). case ks of
      None \<Rightarrow> [(t, None)] | Some l \<Rightarrow> map (\<lambda>s. (t, Some s)) l) (sf_types f))"

definition from_lazy_load_member_list :: "string list \<Rightarrow> state_filter" where
  "from_lazy_load_member_list members =
     StateFilter [(EventTypes_Member, Some (remdups members))] True"

definition freeze :: "(string, string list option) pydict \<Rightarrow> bool \<Rightarrow> state_filter" where
  "freeze types others =
     StateFilter (fold (\<lambda>(t, ks). dset t (map_option remdups ks)) types []) others"

section \<open>Reading filters\<close>

definition is_full :: "state_filter \<Rightarrow> bool" where
  "is_full f \<longleftrightarrow> include_others f \<and> sf_types f = []"

definition has_wildcards :: "state_filter \<Rightarrow> bool" where
  "has_wildcards f \<longleftrightarrow> include_others f \<or> list_ex (\<lambda>ks. ks = None) (dvalues (sf_types f))"

definition concrete_types :: "state_filter \<Rightarrow> (string \<times> string) list" where
  "concrete_types f = concat (map (\<lambda>(t, ks). case ks of
      None \<Rightarrow> [] | Some l \<Rightarrow> map (\<lambda>s. (t, s)) l) (sf_types f))"

definition wildcard_types :: "state_filter \<Rightarrow> string list" where
  "wildcard_types f = map fst (filter (\<lambda>(t, ks). ks = None) (sf_types f))"

definition sf_contains :: "state_filter \<Rightarrow> string \<times> string \<Rightarrow> bool" where
  "sf_contains f k = (case k of (typ, state_key) \<Rightarrow>
     (case dget (sf_types f) typ of
        Some state_keys \<Rightarrow>
          (case state_keys of None \<Rightarrow> True | Some l \<Rightarrow> state_key \<in> set l)
      | None \<Rightarrow> include_others f))"

definition sf_bool :: "state_filter \<Rightarrow> bool" where
  "sf_bool f = (if include_others f then True else sf_types f \<noteq> [])"

definition max_entries_returned :: "state_filter \<Rightarrow> nat option" where
  "max_entries_returned f =
     (if has_wildcards f then None else Some (length (concrete_types f)))"

definition filter_state :: "state_filter \<Rightarrow> (string \<times> string, 'a) pydict \<Rightarrow> (string \<times> string, 'a) pydict" where
  "filter_state f state_dict =
     (if is_full f then state_dict
      else fold (\<lambda>((typ, state_key), v) filtered_state.
        (case dget (sf_types f) typ of
           Some state_keys \<Rightarrow>
             if state_keys = None \<or> (\<exists>l. state_keys = Some l \<and> state_key \<in> set l)
             then dset (typ, state_key) v filtered_state else filtered_state
         | None \<Rightarrow> if include_others f then dset (typ, state_key) v filtered_state else filtered_state))
        state_dict [])"

text \<open>The text of the SQL clause and its arguments.\<close>

definition type_clauses :: "string \<times> string list option \<Rightarrow> (string \<times> string list) list" where
  "type_clauses e = (case e of
      (etype, None) \<Rightarrow> [(''(type = ?)'', [etype])]
    | (etype, Some state_keys) \<Rightarrow>
        map (\<lambda>sk. (''(type = ? AND state_key = ?)'', [etype, sk])) state_keys)"

definition make_sql_filter_clause :: "state_filter \<Rightarrow> string \<times> string list" where
  "make_sql_filter_clause f =
     (if is_full f then ([], [])
      else if \<not> include_others f \<and> sf_types f = [] then (''1 = 2'', [])
      else
        (let cs = concat (map type_clauses (sf_types f));
             where_clause = py_join '' OR '' (map fst cs);
             where_args = concat (map snd cs) in
         if include_others f
         then (where_clause @ (if where_clause \<noteq> [] then '' OR '' else [])
                 @ ''type NOT IN ('' @ py_join '','' (map (\<lambda>_. ''?'') (sf_types f)) @ '')'',
               where_args @ dkeys (sf_types f))
         else (where_clause, where_args)))"

section \<open>Transforming filters\<close>

definition has_non_member_wildcard :: "state_filter \<Rightarrow> bool" where
  "has_non_member_wildcard f \<longleftrightarrow>
     include_others f \<or> list_ex (\<lambda>(t, ks). t \<noteq> EventTypes_Member \<and> ks = None) (sf_types f)"

definition return_expanded :: "state_filter \<Rightarrow> state_filter" where
  "return_expanded f =
     (if is_full f then f
      else if \<not> has_wildcards f then f
      else
        (let get_all_members = (case dget (sf_types f) EventTypes_Member of
               Some ks \<Rightarrow> ks = None | None \<Rightarrow> include_others f) in
         if \<not> has_non_member_wildcard f then f
         else if get_all_members then ALL_STATE_FILTER
         else (case dget (sf_types f) EventTypes_Member of
             Some ks \<Rightarrow> StateFilter [(EventTypes_Member, ks)] True
           | None \<Rightarrow> ALL_NON_MEMBER_STATE_FILTER)))"

definition get_member_split :: "state_filter \<Rightarrow> state_filter \<times> state_filter" where
  "get_member_split f =
     ((case dget (sf_types f) EventTypes_Member of
         Some state_keys \<Rightarrow>
           (case state_keys of
              None \<Rightarrow> ALL_STATE_FILTER
            | Some l \<Rightarrow> StateFilter [(EventTypes_Member, Some l)] False)
       | None \<Rightarrow> if include_others f then ALL_STATE_FILTER else NONE_STATE_FILTER),
      StateFilter (filter (\<lambda>(k, v). k \<noteq> EventTypes_Member) (sf_types f)) (include_others f))"

definition decompose_into_four_parts ::
    "state_filter \<Rightarrow> (bool \<times> string list) \<times> (string list \<times> (string \<times> string) list)" where
  "decompose_into_four_parts f =
     (let is_all = include_others f;
          excluded_types = filter (\<lambda>t. is_all) (dkeys (sf_types f));
          wildcards = map fst (filter (\<lambda>(t, s). s = None) (sf_types f));
          concrete_keys = concrete_types f
      in ((is_all, excluded_types), (wildcards, concrete_keys)))"

definition add_state_key :: "bool \<Rightarrow> string \<times> string
    \<Rightarrow> (string, string list option) pydict \<Rightarrow> (string, string list option) pydict" where
  "add_state_key all_part k new_types = (case k of (state_type, state_key) \<Rightarrow>
     (case dget new_types state_type of
        Some None \<Rightarrow> new_types
      | Some (Some entry) \<Rightarrow> dset state_type (Some (set_add state_key entry)) new_types
      | None \<Rightarrow> if \<not> all_part then dset state_type (Some [state_key]) new_types else new_types))"

definition recompose_from_four_parts ::
    "bool \<Rightarrow> string list \<Rightarrow> string list \<Rightarrow> (string \<times> string) list \<Rightarrow> state_filter" where
  "recompose_from_four_parts all_part minus_wildcards plus_wildcards plus_state_keys =
     (let types0 = (if all_part then fold (\<lambda>t. dset t (Some [])) minus_wildcards [] else []);
          types1 = fold (\<lambda>t. dset t None) plus_wildcards types0;
          types2 = fold (add_state_key all_part) plus_state_keys types1
      in freeze types2 all_part)"

definition approx_difference :: "state_filter \<Rightarrow> state_filter \<Rightarrow> state_filter" where
  "approx_difference f other =
     (let ((self_all, self_excludes), (self_wildcards, self_concrete_keys)) = decompose_into_four_parts f;
          ((other_all, other_excludes), (other_wildcards, other_concrete_keys)) =
            decompose_into_four_parts other;
          new_excludes = self_excludes @ other_wildcards;
          new_wildcards = filter (\<lambda>t. t \<notin> set other_wildcards) self_wildcards;
          new_concrete_keys = filter (\<lambda>(t, s). t \<notin> set other_wildcards
                                \<and> (t, s) \<notin> set other_concrete_keys) self_concrete_keys
      in if other_all then
           (let wildcards = (if self_all
                  then new_wildcards @ filter (\<lambda>t. t \<notin> set self_excludes) other_excludes
                  else new_wildcards)
            in recompose_from_four_parts False []
                 (filter (\<lambda>t. t \<in> set other_excludes) wildcards)
                 (filter (\<lambda>(t, s). t \<in> set other_excludes) new_concrete_keys))
         else recompose_from_four_parts self_all new_excludes new_wildcards new_concrete_keys)"

definition must_await_full_state :: "(string \<Rightarrow> bool) \<Rightarrow> state_filter \<Rightarrow> bool" where
  "must_await_full_state is_mine_id f =
     (case dget (sf_types f) EventTypes_Member of
        None \<Rightarrow> include_others f
      | Some None \<Rightarrow> True
      | Some (Some member_state_keys) \<Rightarrow> list_ex (\<lambda>sk. \<not> is_mine_id sk) member_state_keys)"

section \<open>The invariant\<close>

text \<open>What every filter built by the constructor satisfies.\<close>

definition sf_ok :: "state_filter \<Rightarrow> bool" where
  "sf_ok f \<longleftrightarrow> dict_ok (sf_types f)
     \<and> (\<forall>(t, ks)\<in>set (sf_types f). (if include_others f then ks \<noteq> None else ks \<noteq> Some [])
          \<and> (\<forall>l. ks = Some l \<longrightarrow> distinct l))"

definition types_ok :: "(string, string list option) pydict \<Rightarrow> bool" where
  "types_ok d \<longleftrightarrow> dict_ok d \<and> (\<forall>(t, ks)\<in>set d. \<forall>l. ks = Some l \<longrightarrow> distinct l)"

lemma sf_ok_StateFilter: "types_ok d \<Longrightarrow> sf_ok (StateFilter d b)"
  by (auto simp: StateFilter_def sf_ok_def types_ok_def dict_ok_filter)

lemma types_ok_lookup: "types_ok d \<longleftrightarrow> dict_ok d \<and> (\<forall>t l. dget d t = Some (Some l) \<longrightarrow> distinct l)"
proof (cases "dict_ok d")
  case True
  then have "dget d t = Some (Some l) \<longleftrightarrow> (t, Some l) \<in> set d" for t l by (rule dget_iff_mem)
  then show ?thesis using True unfolding types_ok_def by blast
qed (simp add: types_ok_def)

lemma types_okD: "types_ok d \<Longrightarrow> dget d t = Some (Some l) \<Longrightarrow> distinct l"
  unfolding types_ok_lookup by blast

lemma types_ok_dset: "types_ok d \<Longrightarrow> \<forall>l. ks = Some l \<longrightarrow> distinct l \<Longrightarrow> types_ok (dset t ks d)"
  unfolding types_ok_lookup
  by (intro conjI allI impI, erule conjE, erule dict_ok_dset,
      simp only: dget_dset fun_upd_apply split: if_splits, blast)

text \<open>The meaning of the constructor, whatever the dictionary it is given.\<close>

lemma contains_StateFilter:
  assumes "dict_ok d"
  shows "sf_contains (StateFilter d b) (t, s) \<longleftrightarrow> (case dget d t of
      Some None \<Rightarrow> True | Some (Some l) \<Rightarrow> s \<in> set l | None \<Rightarrow> b)"
  using assms
  by (auto simp: sf_contains_def StateFilter_def dget_filter_value
      dget_filter_value [where P = "\<lambda>v. v = None \<or> v \<noteq> Some []"] split: option.splits)

section \<open>The meaning of the operations\<close>

text \<open>The keys that a dictionary of types selects; \<open>b\<close> decides for absent types.\<close>

definition selects :: "bool \<Rightarrow> (string, string list option) pydict \<Rightarrow> string \<Rightarrow> string \<Rightarrow> bool" where
  "selects b d t s \<longleftrightarrow> (case dget d t of
      Some None \<Rightarrow> True | Some (Some l) \<Rightarrow> s \<in> set l | None \<Rightarrow> b)"

lemma contains_selects: "sf_contains f (t, s) \<longleftrightarrow> selects (include_others f) (sf_types f) t s"
  by (auto simp: sf_contains_def selects_def split: option.splits)

lemmas contains_StateFilter' = contains_StateFilter [folded selects_def]

lemma selects_dset: "selects b (dset t' ks d) t s \<longleftrightarrow>
    (if t = t' then (case ks of None \<Rightarrow> True | Some l \<Rightarrow> s \<in> set l) else selects b d t s)"
  by (simp add: selects_def split: option.splits)

lemma selects_add_type:
  "selects False (add_type k d) t s \<longleftrightarrow> selects False d t s \<or> k = (t, None) \<or> k = (t, Some s)"
proof -
  obtain t' s' where k: "k = (t', s')" by (cases k)
  show ?thesis
  proof (cases "t' = t")
    case True
    then show ?thesis
      by (cases "dget d t"; cases s') (auto simp: k selects_def split: option.splits)
  next
    case False
    then show ?thesis
      by (cases s') (auto simp: k selects_def split: option.splits)
  qed
qed

lemma types_ok_add_type: "types_ok d \<Longrightarrow> types_ok (add_type k d)"
proof -
  assume ok: "types_ok d"
  obtain t s where k: "k = (t, s)" by (cases k)
  have "distinct (case dget d t of Some (Some ks) \<Rightarrow> ks | _ \<Rightarrow> [])"
    by (auto split: option.split intro: types_okD [OF ok])
  then show ?thesis
    using ok by (cases s) (auto simp: k split: option.splits intro!: types_ok_dset)
qed

lemma fold_add_type:
  "types_ok d \<Longrightarrow> types_ok (fold add_type ts d)
     \<and> (\<forall>t s. selects False (fold add_type ts d) t s \<longleftrightarrow>
          selects False d t s \<or> (t, None) \<in> set ts \<or> (t, Some s) \<in> set ts)"
  by (induction ts arbitrary: d) (auto simp: selects_add_type types_ok_add_type)

lemma types_ok_Nil [simp]: "types_ok []"
  by (simp add: types_ok_def)

lemma types_ok_dict: "types_ok d \<Longrightarrow> dict_ok d"
  by (simp add: types_ok_def)

lemma contains_from_types:
  "sf_contains (from_types ts) (t, s) \<longleftrightarrow> (t, None) \<in> set ts \<or> (t, Some s) \<in> set ts"
  using fold_add_type [OF types_ok_Nil, of ts]
  by (simp add: from_types_def contains_StateFilter' [OF types_ok_dict]) (simp add: selects_def)

lemma sf_ok_from_types: "sf_ok (from_types ts)"
  using fold_add_type [OF types_ok_Nil, of ts] by (simp add: from_types_def sf_ok_StateFilter)

lemma contains_freeze:
  assumes "dict_ok d"
  shows "sf_contains (freeze d b) (t, s) \<longleftrightarrow> selects b d t s" and "sf_ok (freeze d b)"
proof -
  have eq: "fold (\<lambda>(t, ks). dset t (map_option remdups ks)) d []
      = map (\<lambda>(t, ks). (t, map_option remdups ks)) d" (is "_ = ?d'")
    using fold_dset_map [of d "[]" "map_option remdups"] assms by simp
  have ok: "types_ok ?d'" using assms by (auto simp: types_ok_def dict_ok_def comp_def case_prod_beta)
  show "sf_contains (freeze d b) (t, s) \<longleftrightarrow> selects b d t s"
    unfolding freeze_def eq contains_StateFilter' [OF types_ok_dict [OF ok]] selects_def dget_map_value
    by (auto split: option.splits)
  show "sf_ok (freeze d b)" unfolding freeze_def eq by (rule sf_ok_StateFilter [OF ok])
qed

text \<open>The four parts of a filter mean what their description says.\<close>

lemma selects_add_state_key:
  "selects a (add_state_key a k d) t s \<longleftrightarrow> selects a d t s \<or> k = (t, s)"
proof -
  obtain t' s' where k: "k = (t', s')" by (cases k)
  show ?thesis
    by (cases "t' = t"; cases "dget d t'")
      (auto simp: k add_state_key_def selects_def split: option.splits)
qed

lemma dict_ok_add_state_key: "dict_ok d \<Longrightarrow> dict_ok (add_state_key a k d)"
  by (auto simp: add_state_key_def split: prod.splits option.splits)

lemma fold_add_state_key:
  "dict_ok d \<Longrightarrow> dict_ok (fold (add_state_key a) ks d)
     \<and> (\<forall>t s. selects a (fold (add_state_key a) ks d) t s \<longleftrightarrow> selects a d t s \<or> (t, s) \<in> set ks)"
  by (induction ks arbitrary: d) (auto simp: selects_add_state_key dict_ok_add_state_key)

lemma fold_dset_const:
  "dict_ok d \<Longrightarrow> dict_ok (fold (\<lambda>t. dset t c) ts d)
     \<and> (\<forall>t. dget (fold (\<lambda>t. dset t c) ts d) t = (if t \<in> set ts then Some c else dget d t))"
  by (induction ts arbitrary: d) auto

lemma contains_recompose:
  "sf_contains (recompose_from_four_parts a excl wild ks) (t, s) \<longleftrightarrow>
     t \<in> set wild \<or> (a \<and> t \<notin> set excl) \<or> (t, s) \<in> set ks"
  and sf_ok_recompose: "sf_ok (recompose_from_four_parts a excl wild ks)"
proof -
  define d0 :: "(string, string list option) pydict" where "d0 = (if a then fold (\<lambda>t. dset t (Some [])) excl [] else [])"
  have d0: "dict_ok d0" "\<And>t. dget d0 t = (if a \<and> t \<in> set excl then Some (Some []) else None)"
    using fold_dset_const [OF dict_ok_Nil, of "Some [] :: string list option" excl] by (auto simp: d0_def)
  define d1 where "d1 = fold (\<lambda>t. dset t None) wild d0"
  have d1: "dict_ok d1" "\<And>t. dget d1 t = (if t \<in> set wild then Some None else dget d0 t)"
    using fold_dset_const [OF d0(1), of None wild] by (auto simp: d1_def)
  define d2 where "d2 = fold (add_state_key a) ks d1"
  have d2: "dict_ok d2" "selects a d2 t s \<longleftrightarrow> selects a d1 t s \<or> (t, s) \<in> set ks"
    using fold_add_state_key [OF d1(1), of a ks] by (auto simp: d2_def)
  have eq: "recompose_from_four_parts a excl wild ks = freeze d2 a"
    by (simp add: recompose_from_four_parts_def d2_def d1_def d0_def)
  show "sf_contains (recompose_from_four_parts a excl wild ks) (t, s) \<longleftrightarrow>
     t \<in> set wild \<or> (a \<and> t \<notin> set excl) \<or> (t, s) \<in> set ks"
    unfolding eq contains_freeze(1) [OF d2(1)] d2(2) by (auto simp: selects_def d1(2) d0(2))
  show "sf_ok (recompose_from_four_parts a excl wild ks)"
    unfolding eq by (rule contains_freeze(2) [OF d2(1)])
qed

lemma mem_wildcard_types:
  "dict_ok d \<Longrightarrow> t \<in> set (map fst (filter (\<lambda>(t, s). s = None) d)) \<longleftrightarrow> dget d t = Some None"
  by (force simp: dget_iff_mem)

lemma mem_concrete_types:
  "dict_ok (sf_types f) \<Longrightarrow>
     (t, s) \<in> set (concrete_types f) \<longleftrightarrow> (\<exists>l. dget (sf_types f) t = Some (Some l) \<and> s \<in> set l)"
  by (force simp: concrete_types_def dget_iff_mem split: option.splits)

lemma sf_ok_dict: "sf_ok f \<Longrightarrow> dict_ok (sf_types f)"
  by (simp add: sf_ok_def)

lemma sf_ok_no_wildcard: "sf_ok f \<Longrightarrow> include_others f \<Longrightarrow> dget (sf_types f) t \<noteq> Some None"
  by (fastforce simp: sf_ok_def dest: map_of_SomeD)

text \<open>Whole types: a filter that selects every state key of a type.\<close>

definition selects_type :: "state_filter \<Rightarrow> string \<Rightarrow> bool" where
  "selects_type f t \<longleftrightarrow> (case dget (sf_types f) t of
      Some None \<Rightarrow> True | Some (Some l) \<Rightarrow> False | None \<Rightarrow> include_others f)"

lemma approx_difference_eq:
  assumes f: "sf_ok f" and g: "sf_ok g"
  shows "sf_contains (approx_difference f g) (t, s) \<longleftrightarrow>
    (if selects_type f t then \<not> selects_type g t
     else sf_contains f (t, s) \<and> \<not> sf_contains g (t, s))"
proof -
  note ok = sf_ok_dict [OF f] sf_ok_dict [OF g]
  note wild = sf_ok_no_wildcard [OF f, of t] sf_ok_no_wildcard [OF g, of t]
  have keys: "t \<in> set (dkeys (sf_types h)) \<longleftrightarrow> dget (sf_types h) t \<noteq> None" for h
    by (simp add: dget_None_iff)
  have "sf_contains (approx_difference f g) (t, s) \<longleftrightarrow>
    (if include_others g
     then dget (sf_types g) t \<noteq> None
       \<and> (dget (sf_types f) t = Some None \<and> dget (sf_types g) t \<noteq> Some None
          \<or> include_others f \<and> dget (sf_types f) t = None
          \<or> (t, s) \<in> set (concrete_types f) \<and> dget (sf_types g) t \<noteq> Some None
            \<and> (t, s) \<notin> set (concrete_types g))
     else dget (sf_types f) t = Some None \<and> dget (sf_types g) t \<noteq> Some None
          \<or> include_others f \<and> dget (sf_types f) t = None \<and> dget (sf_types g) t \<noteq> Some None
          \<or> (t, s) \<in> set (concrete_types f) \<and> dget (sf_types g) t \<noteq> Some None
            \<and> (t, s) \<notin> set (concrete_types g))"
    unfolding approx_difference_def decompose_into_four_parts_def Let_def prod.case
    by (simp add: contains_recompose mem_wildcard_types [OF ok(1), simplified]
        mem_wildcard_types [OF ok(2), simplified] keys) blast
  then show ?thesis
    using wild
    by (auto simp: mem_concrete_types [OF ok(1)] mem_concrete_types [OF ok(2)] sf_contains_def
        selects_type_def split: option.splits)
qed

text \<open>
  C29. The difference of filters. \<open>approx_difference\<close> keeps its contract: the result selects
  everything that the first filter selects and the second does not, nothing that the first does
  not select, and over-approximates only in types that the first filter selects as a whole and
  the second by individual keys.
\<close>

theorem approx_difference_contract:
  assumes "sf_ok f" and "sf_ok g"
  shows "(sf_contains f (t, s) \<and> \<not> sf_contains g (t, s) \<longrightarrow> sf_contains (approx_difference f g) (t, s))
    \<and> (sf_contains (approx_difference f g) (t, s) \<longrightarrow> sf_contains f (t, s))
    \<and> (sf_contains (approx_difference f g) (t, s) \<and> sf_contains g (t, s) \<longrightarrow>
         selects_type f t \<and> (\<exists>l. dget (sf_types g) t = Some (Some l)))"
  using approx_difference_eq [OF assms, of t s]
  by (auto simp: sf_contains_def selects_type_def split: option.splits if_splits)

theorem approx_difference_contract_witness:
  "sf_contains (approx_difference (from_types [(''m.room.member'', None), (''m.room.name'', Some [])])
      (from_types [(''m.room.member'', Some ''@a:x''), (''m.room.name'', Some [])])) (''m.room.member'', ''@b:x'')"
proof -
  let ?f = "from_types [(''m.room.member'', None), (''m.room.name'', Some [])]"
  let ?g = "from_types [(''m.room.member'', Some ''@a:x''), (''m.room.name'', Some [])]"
  have "sf_contains ?f (''m.room.member'', ''@b:x'')" "\<not> sf_contains ?g (''m.room.member'', ''@b:x'')"
    by code_simp+
  with approx_difference_contract [of ?f ?g "''m.room.member''" "''@b:x''"] show ?thesis
    using sf_ok_from_types by blast
qed

lemma contains_all [simp]: "sf_contains ALL_STATE_FILTER k"
  by (cases k) (simp add: ALL_STATE_FILTER_def StateFilter_def sf_contains_def)

lemma contains_none [simp]: "\<not> sf_contains NONE_STATE_FILTER k"
  by (cases k) (simp add: NONE_STATE_FILTER_def StateFilter_def sf_contains_def)

lemma contains_all_non_member [simp]:
  "sf_contains ALL_NON_MEMBER_STATE_FILTER k \<longleftrightarrow> fst k \<noteq> EventTypes_Member"
  by (cases k) (simp add: ALL_NON_MEMBER_STATE_FILTER_def StateFilter_def sf_contains_def)

lemma contains_members:
  "sf_contains (StateFilter [(EventTypes_Member, ks)] b) (t, s) \<longleftrightarrow>
     (if t = EventTypes_Member then (case ks of None \<Rightarrow> True | Some l \<Rightarrow> s \<in> set l) else b)"
  by (subst contains_StateFilter) (auto simp: dict_ok_def split: option.splits)

text \<open>
  Expansion and splitting. \<open>return_expanded\<close> selects at least what the filter selects, the
  same memberships, and either all other state or exactly the same other state without
  wildcards; the two parts of \<open>get_member_split\<close> agree with the filter on memberships and on
  all other state respectively.
\<close>

theorem expansion_and_split:
  assumes ok: "sf_ok f"
  shows "(sf_contains f (t, s) \<longrightarrow> sf_contains (return_expanded f) (t, s))
    \<and> (sf_contains (return_expanded f) (EventTypes_Member, s) \<longleftrightarrow> sf_contains f (EventTypes_Member, s))
    \<and> ((\<forall>u r. u \<noteq> EventTypes_Member \<longrightarrow> sf_contains (return_expanded f) (u, r))
       \<or> return_expanded f = f \<and> \<not> has_non_member_wildcard f)
    \<and> (sf_contains (fst (get_member_split f)) (EventTypes_Member, s) \<longleftrightarrow> sf_contains f (EventTypes_Member, s))
    \<and> (t \<noteq> EventTypes_Member \<longrightarrow>
         (sf_contains (snd (get_member_split f)) (t, s) \<longleftrightarrow> sf_contains f (t, s)))"
proof -
  note dict = sf_ok_dict [OF ok]
  have member: "sf_contains (fst (get_member_split f)) (EventTypes_Member, s) \<longleftrightarrow> sf_contains f (EventTypes_Member, s)"
    by (auto simp: get_member_split_def sf_contains_def [of f] contains_members split: option.splits)
  have non_member: "sf_contains (snd (get_member_split f)) (t, s) \<longleftrightarrow> sf_contains f (t, s)"
    if "t \<noteq> EventTypes_Member"
    using that
    by (simp add: get_member_split_def contains_StateFilter' [OF dict_ok_filter [OF dict]]
        contains_selects [of f] selects_def dget_filter_key)
  have wild: "has_wildcards f" if "has_non_member_wildcard f"
    using that by (force simp: has_non_member_wildcard_def has_wildcards_def list_ex_iff dvalues_def)
  consider (full) "is_full f" | (same) "return_expanded f = f" "\<not> has_non_member_wildcard f"
    | (expand) "\<not> is_full f" "has_non_member_wildcard f"
    using wild by (auto simp: return_expanded_def Let_def)
  then show ?thesis
  proof cases
    case full
    then have "sf_contains f k" "return_expanded f = f" for k
      by (auto simp: is_full_def sf_contains_def return_expanded_def split: prod.splits)
    with member non_member show ?thesis by simp
  next
    case same
    with member non_member show ?thesis by simp
  next
    case expand
    then have "return_expanded f = (if (case dget (sf_types f) EventTypes_Member of
               Some ks \<Rightarrow> ks = None | None \<Rightarrow> include_others f) then ALL_STATE_FILTER
         else (case dget (sf_types f) EventTypes_Member of
             Some ks \<Rightarrow> StateFilter [(EventTypes_Member, ks)] True
           | None \<Rightarrow> ALL_NON_MEMBER_STATE_FILTER))"
      using wild by (simp add: return_expanded_def)
    then have "sf_contains (return_expanded f) (u, r) \<longleftrightarrow>
        (u = EventTypes_Member \<longrightarrow> sf_contains f (EventTypes_Member, r))" for u r
      by (auto simp: contains_members sf_contains_def [of f] split: option.splits)
    with member non_member show ?thesis by blast
  qed
qed

theorem expansion_and_split_witness:
  "sf_contains (return_expanded (from_types [(''m.room.name'', None)])) (''m.room.name'', ''x'')"
  using expansion_and_split [OF sf_ok_from_types [of "[(''m.room.name'', None)]"],
      of "''m.room.name''" "''x''"] contains_from_types [of "[(''m.room.name'', None)]"]
  by simp

section \<open>Filtering state\<close>

lemma filter_state_step:
  "(case dget (sf_types f) typ of
      Some state_keys \<Rightarrow>
        if state_keys = None \<or> (\<exists>l. state_keys = Some l \<and> state_key \<in> set l)
        then dset (typ, state_key) v d else d
    | None \<Rightarrow> if include_others f then dset (typ, state_key) v d else d)
   = (if sf_contains f (typ, state_key) then dset (typ, state_key) v d else d)"
  by (auto simp: sf_contains_def split: option.splits)

lemma filter_state_eq:
  assumes "dict_ok d"
  shows "filter_state f d = filter (\<lambda>(k, v). sf_contains f k) d"
proof (cases "is_full f")
  case True
  then have "sf_contains f k" for k by (cases k) (simp add: is_full_def sf_contains_def)
  with True show ?thesis by (simp add: filter_state_def)
next
  case False
  have "fold (\<lambda>((typ, state_key), v) fs.
        if sf_contains f (typ, state_key) then dset (typ, state_key) v fs else fs) d acc
      = acc @ filter (\<lambda>(k, v). sf_contains f k) d"
    if "fst ` set d \<inter> fst ` set acc = {}" for acc
    using assms that
  proof (induction d arbitrary: acc)
    case (Cons kv d)
    obtain k v where kv: "kv = (k, v)" by (cases kv)
    from Cons.prems kv have "dset k v acc = acc @ [(k, v)]" by (intro dset_new) auto
    with Cons kv show ?case by (cases k) (auto simp: dict_ok_def)
  qed simp
  from this [of "[]"] False show ?thesis
    by (simp add: filter_state_def filter_state_step)
qed

lemma no_wildcards_concrete:
  assumes "\<not> has_wildcards f" and "sf_contains f k"
  shows "k \<in> set (concrete_types f)"
proof -
  obtain t s where k: "k = (t, s)" by (cases k)
  from assms have no: "\<not> include_others f" "\<forall>(t, ks)\<in>set (sf_types f). ks \<noteq> None"
    by (force simp: has_wildcards_def list_ex_iff dvalues_def)+
  then obtain l where "dget (sf_types f) t = Some (Some l)" "s \<in> set l"
    using assms(2) by (fastforce simp: k sf_contains_def split: option.splits dest: map_of_SomeD)
  then show ?thesis by (force simp: k concrete_types_def dest: map_of_SomeD)
qed

text \<open>
  Filtering. \<open>filter_state\<close> keeps exactly the entries whose key the filter selects, in
  their order, and returns no more entries than \<open>max_entries_returned\<close> announces.
\<close>

theorem filter_state_correct:
  assumes ok: "dict_ok d"
  shows "filter_state f d = filter (\<lambda>(k, v). sf_contains f k) d
    \<and> (\<forall>n. max_entries_returned f = Some n \<longrightarrow> length (filter_state f d) \<le> n)"
proof -
  note eq = filter_state_eq [OF ok]
  have "length (filter_state f d) \<le> length (concrete_types f)" if "\<not> has_wildcards f"
  proof -
    let ?keys = "map fst (filter_state f d)"
    have "distinct ?keys" using dict_ok_filter [OF ok] by (simp add: eq dict_ok_def)
    moreover have "set ?keys \<subseteq> set (concrete_types f)"
      using no_wildcards_concrete [OF that] by (auto simp: eq)
    ultimately have "length ?keys \<le> card (set (concrete_types f))"
      by (metis List.finite_set card_mono distinct_card)
    with card_length [of "concrete_types f"] show ?thesis by simp
  qed
  with eq show ?thesis by (simp add: max_entries_returned_def)
qed

theorem filter_state_correct_witness:
  "filter_state (from_types [(''m.room.name'', Some [])])
      [((''m.room.topic'', []), 1::nat), ((''m.room.name'', []), 2)] = [((''m.room.name'', []), 2)]"
proof -
  have "dict_ok [((''m.room.topic'', [] :: string), 1::nat), ((''m.room.name'', []), 2)]" by code_simp
  from filter_state_correct [OF this, of "from_types [(''m.room.name'', Some [])]"]
  show ?thesis by (simp add: contains_from_types)
qed

section \<open>Lists of types\<close>

lemma mem_type_list:
  fixes d :: "(string, string list option) pydict"
  defines "l \<equiv> concat (map (\<lambda>(t, ks). case ks of
      None \<Rightarrow> [(t, None)] | Some l \<Rightarrow> map (\<lambda>s. (t, Some s)) l) d)"
  shows "(t, None) \<in> set l \<longleftrightarrow> (t, None) \<in> set d"
    and "(t, Some s) \<in> set l \<longleftrightarrow> (\<exists>ks. (t, Some ks) \<in> set d \<and> s \<in> set ks)"
  unfolding l_def
proof (induction d)
  case (Cons e d)
  { case 1 then show ?case using Cons by (cases e; cases "snd e") auto }
  { case 2 then show ?case using Cons by (cases e; cases "snd e") auto }
qed simp_all

lemma mem_to_types:
  assumes "dict_ok (sf_types f)"
  shows "(t, None) \<in> set (to_types f) \<longleftrightarrow> dget (sf_types f) t = Some None"
    and "(t, Some s) \<in> set (to_types f) \<longleftrightarrow> (\<exists>l. dget (sf_types f) t = Some (Some l) \<and> s \<in> set l)"
  unfolding to_types_def mem_type_list dget_iff_mem [OF assms] by (rule refl)+

lemma from_types_to_types:
  assumes "sf_ok f" and "\<not> include_others f"
  shows "sf_contains (from_types (to_types f)) k \<longleftrightarrow> sf_contains f k"
proof -
  obtain t s where k: "k = (t, s)" by (cases k)
  show ?thesis
    unfolding k contains_from_types mem_to_types [OF sf_ok_dict [OF assms(1)]]
    using assms(2) by (auto simp: sf_contains_def split: option.splits)
qed

text \<open>
  Waiting for full state. When \<open>must_await_full_state\<close> says no, every membership that the
  filter selects is of a local user, so that the answer is complete with partial state.
\<close>

theorem no_await_only_local:
  assumes "\<not> must_await_full_state is_mine f" and "sf_contains f (EventTypes_Member, u)"
  shows "is_mine u"
  using assms by (auto simp: must_await_full_state_def sf_contains_def list_ex_iff split: option.splits)

theorem no_await_only_local_witness:
  "(\<lambda>u. u = ''@a:x'') ''@a:x''"
  by (rule no_await_only_local [where is_mine = "\<lambda>u. u = ''@a:x''"
        and f = "from_types [(''m.room.member'', Some ''@a:x'')]"]; code_simp)

end
