(* ===== verification/Stream_Tokens.thy ===== *)
theory Stream_Tokens
  imports Prelude
begin

text \<open>
  The stream tokens of \<open>types/__init__.py\<close>, and the table of writer instances of
  \<open>storage/databases/main/stream.py\<close> that their textual form refers to. A token with several
  writers is a vector clock: the position of a writer is its entry in \<open>instance_map\<close>, or the
  minimum \<open>stream\<close>. The order and the advance of tokens are shown to be the order and the join of
  vector clocks, and the textual forms to be read back as they were.

  \<open>RoomStreamToken\<close> extends the record of \<open>MultiWriterStreamToken\<close>, as the classes share their
  base class; \<open>store\<close> arguments are the functions of the store that are called. The exception
  for a cancelled request is not modelled.
\<close>

section \<open>Writer instances\<close>

text \<open>The rows of \<open>instance_map\<close> (name and id), and the sequence that numbers new rows.\<close>

record instance_table =
  it_rows :: "(string, int) pydict"
  it_next :: int

definition MAX_INSTANCE_ID :: int where
  "MAX_INSTANCE_ID = 2 ^ 63 - 1"

definition get_id_for_instance :: "string \<Rightarrow> (instance_table, int) comp" where
  "get_id_for_instance instance_name tbl =
     (case dget (it_rows tbl) instance_name of
        Some instance_id \<Rightarrow> Inr (instance_id, tbl)
      | None \<Rightarrow>
          if it_next tbl > MAX_INSTANCE_ID then Inl (PyException ''OperationalError'')
          else Inr (it_next tbl,
                 \<lparr>it_rows = dset instance_name (it_next tbl) (it_rows tbl), it_next = it_next tbl + 1\<rparr>))"

definition get_name_from_instance_id :: "instance_table \<Rightarrow> int \<Rightarrow> string res" where
  "get_name_from_instance_id tbl instance_id =
     (case filter (\<lambda>(n, i). i = instance_id) (it_rows tbl) of
        (n, _) # _ \<Rightarrow> Inr n
      | [] \<Rightarrow> Inl (PyException ''StoreError''))"

section \<open>Tokens with several writers\<close>

record mw_token =
  stream :: int
  instance_map :: "(string, int) pydict"

text \<open>\<open>__attrs_post_init__\<close> of the base class.\<close>

definition check_instance_map :: "int \<Rightarrow> (string, int) pydict \<Rightarrow> unit res" where
  "check_instance_map s m = checkE (\<lambda>(i, v). guardE (\<not> v \<le> s) ValueError) m"

definition MultiWriterStreamToken :: "int \<Rightarrow> (string, int) pydict \<Rightarrow> mw_token res" where
  "MultiWriterStreamToken s m =
     bindE (check_instance_map s m) (\<lambda>_. Inr \<lparr>stream = s, instance_map = m\<rparr>)"

definition get_stream_pos :: "('a mw_token_scheme) \<Rightarrow> string \<Rightarrow> int" where
  "get_stream_pos t instance_name =
     (case dget (instance_map t) instance_name of Some p \<Rightarrow> p | None \<Rightarrow> stream t)"

text \<open>The fields of the token that \<open>copy_and_advance\<close> evolves to.\<close>

definition advance_fields ::
    "('a mw_token_scheme) \<Rightarrow> ('b mw_token_scheme) \<Rightarrow> int \<times> (string, int) pydict" where
  "advance_fields self other =
     (let max_stream = max (stream self) (stream other);
          instances = remdups (dkeys (instance_map self) @ dkeys (instance_map other));
          imap = map (\<lambda>i. (i, max (get_stream_pos self i) (get_stream_pos other i))) instances
      in (max_stream, filter (\<lambda>(i, s). s > max_stream) imap))"

definition mw_copy_and_advance :: "mw_token \<Rightarrow> ('b mw_token_scheme) \<Rightarrow> mw_token res" where
  "mw_copy_and_advance self other =
     (case advance_fields self other of (s, m) \<Rightarrow> MultiWriterStreamToken s m)"

definition get_max_stream_pos :: "('a mw_token_scheme) \<Rightarrow> int" where
  "get_max_stream_pos t = (case dvalues (instance_map t) of
      [] \<Rightarrow> stream t
    | v # vs \<Rightarrow> fold max vs v)"

definition token_is_before_or_eq :: "('a mw_token_scheme) \<Rightarrow> ('b mw_token_scheme) \<Rightarrow> bool" where
  "token_is_before_or_eq self other =
     (if stream self > stream other then False
      else list_all (\<lambda>i. \<not> get_stream_pos self i > get_stream_pos other i)
             (dkeys (instance_map self) @ dkeys (instance_map other)))"

definition bound_fields :: "('a mw_token_scheme) \<Rightarrow> int \<Rightarrow> int \<times> (string, int) pydict" where
  "bound_fields t max_stream =
     (let min_pos = min (stream t) max_stream in
      (min_pos,
       map (\<lambda>(k, s). (k, min s max_stream))
         (filter (\<lambda>(k, s). min s max_stream > min_pos) (instance_map t))))"

definition mw_bound_stream_token :: "mw_token \<Rightarrow> int \<Rightarrow> mw_token res" where
  "mw_bound_stream_token t max_stream =
     (case bound_fields t max_stream of (s, m) \<Rightarrow> MultiWriterStreamToken s m)"

text \<open>\<open>from_generator\<close>, given what the generator's two getters return.\<close>

definition generator_fields :: "int \<Rightarrow> (string, int) pydict \<Rightarrow> int \<times> (string, int) pydict" where
  "generator_fields current_token positions =
     (current_token, filter (\<lambda>(instance, position). position > current_token) positions)"

definition is_stream_position_in_range ::
    "('a mw_token_scheme) option \<Rightarrow> ('b mw_token_scheme) option \<Rightarrow> string option \<Rightarrow> int \<Rightarrow> bool" where
  "is_stream_position_in_range low high instance_name pos =
     (let at = (\<lambda>s m. case instance_name of
            Some n \<Rightarrow> if n \<noteq> [] then (case dget m n of Some p \<Rightarrow> p | None \<Rightarrow> s) else s
          | None \<Rightarrow> s)
      in if (case low of Some l \<Rightarrow> pos \<le> at (stream l) (instance_map l) | None \<Rightarrow> False) then False
         else if (case high of Some h \<Rightarrow> at (stream h) (instance_map h) < pos | None \<Rightarrow> False) then False
         else True)"

section \<open>Room stream tokens\<close>

record room_stream_token = mw_token +
  topological :: "int option"

text \<open>\<open>bool(topological)\<close>\<close>

definition int_truthy :: "int option \<Rightarrow> bool" where
  "int_truthy v \<longleftrightarrow> v \<noteq> None \<and> v \<noteq> Some 0"

definition RoomStreamToken :: "int option \<Rightarrow> int \<Rightarrow> (string, int) pydict \<Rightarrow> room_stream_token res" where
  "RoomStreamToken topo s m =
     bindE (guardE (\<not> (m \<noteq> [] \<and> int_truthy topo)) ValueError) (\<lambda>_.
     bindE (check_instance_map s m) (\<lambda>_.
       Inr \<lparr>stream = s, instance_map = m, topological = topo\<rparr>))"

definition room_copy_and_advance :: "room_stream_token \<Rightarrow> room_stream_token \<Rightarrow> room_stream_token res" where
  "room_copy_and_advance self other =
     (if int_truthy (topological self) \<or> int_truthy (topological other)
      then Inl (PyException ''Can't advance topological tokens'')
      else (case advance_fields self other of (s, m) \<Rightarrow> RoomStreamToken (topological self) s m))"

definition as_historical_tuple :: "room_stream_token \<Rightarrow> (int \<times> int) res" where
  "as_historical_tuple t = (case topological t of
      None \<Rightarrow> Inl (PyException ''Cannot call `RoomStreamToken.as_historical_tuple` on live token'')
    | Some topo \<Rightarrow> Inr (topo, stream t))"

definition room_get_stream_pos :: "room_stream_token \<Rightarrow> string \<Rightarrow> int res" where
  "room_get_stream_pos t instance_name =
     bindE (guardE (topological t = None) AssertionError) (\<lambda>_. Inr (get_stream_pos t instance_name))"

definition room_bound_stream_token :: "room_stream_token \<Rightarrow> int \<Rightarrow> room_stream_token res" where
  "room_bound_stream_token t max_stream =
     bindE (guardE (topological t = None) AssertionError) (\<lambda>_.
       case bound_fields t max_stream of (s, m) \<Rightarrow> RoomStreamToken None s m)"

section \<open>The textual form\<close>

text \<open>\<open>except Exception: raise e\<close>\<close>

definition catch_all :: "exn \<Rightarrow> 'a res \<Rightarrow> 'a res" where
  "catch_all e m = (case m of Inl _ \<Rightarrow> Inl e | Inr x \<Rightarrow> Inr x)"

lemma catch_all_Inl: "catch_all e m = Inl e' \<longleftrightarrow> (\<exists>x. m = Inl x) \<and> e' = e"
  by (auto simp: catch_all_def split: sum.splits)

definition decode_entry :: "(int \<Rightarrow> string res) \<Rightarrow> string \<Rightarrow> (string, int) pydict
    \<Rightarrow> (string, int) pydict res" where
  "decode_entry get_name part m =
     (if part = [] then Inr m
      else (case split_all (CHR ''.'') part of
          [key, value] \<Rightarrow>
            bindE (int_of_str key) (\<lambda>instance_id.
            bindE (int_of_str value) (\<lambda>pos.
            bindE (get_name instance_id) (\<lambda>instance_name. Inr (dset instance_name pos m))))
        | _ \<Rightarrow> Inl ValueError))"

text \<open>The fields of a token of the form \<open>m{min_pos}~{writer}.{pos}~...\<close>, without the \<open>m\<close>.\<close>

definition decode_fields :: "(int \<Rightarrow> string res) \<Rightarrow> string \<Rightarrow> (int \<times> (string, int) pydict) res" where
  "decode_fields get_name s =
     (let parts = split_all (CHR ''~'') s in
      bindE (int_of_str (hd parts)) (\<lambda>strm.
      bindE (foldE (decode_entry get_name) (tl parts) []) (\<lambda>m. Inr (strm, m))))"

definition encode_entries :: "(string \<Rightarrow> ('s, int) comp) \<Rightarrow> int \<Rightarrow> (string, int) pydict
    \<Rightarrow> ('s, string list) comp" where
  "encode_entries get_id strm m =
     foldS (\<lambda>(name, pos) entries.
        if pos \<le> strm then returnS entries
        else bindS (get_id name) (\<lambda>instance_id.
          returnS (entries @ [str_of_int instance_id @ ''.'' @ str_of_int pos]))) m []"

definition RoomStreamToken_parse :: "(int \<Rightarrow> string res) \<Rightarrow> string \<Rightarrow> room_stream_token res" where
  "RoomStreamToken_parse get_name string =
     (case string of
        [] \<Rightarrow> Inl ValueError
      | c # rest \<Rightarrow>
          if c \<notin> {CHR ''s'', CHR ''t'', CHR ''m''} then Inl ValueError
          else catch_all (SynapseError 400 ''Invalid room stream token'')
            (if c = CHR ''s'' then bindE (int_of_str rest) (\<lambda>s. RoomStreamToken None s [])
             else if c = CHR ''t'' then
               (case split_first (CHR ''-'') rest of
                  (a, Some b) \<Rightarrow>
                    bindE (int_of_str a) (\<lambda>topo. bindE (int_of_str b) (\<lambda>s. RoomStreamToken (Some topo) s []))
                | (a, None) \<Rightarrow> bindE (int_of_str a) (\<lambda>_. Inl IndexError))
             else bindE (decode_fields get_name rest) (\<lambda>(s, m). RoomStreamToken None s m)))"

definition parse_stream_token :: "string \<Rightarrow> room_stream_token res" where
  "parse_stream_token string =
     (case string of
        c # rest \<Rightarrow>
          if c = CHR ''s''
          then catch_all (SynapseError 400 ''Invalid room stream token'')
                 (bindE (int_of_str rest) (\<lambda>s. RoomStreamToken None s []))
          else Inl (SynapseError 400 ''Invalid room stream token'')
      | [] \<Rightarrow> Inl (SynapseError 400 ''Invalid room stream token''))"

definition RoomStreamToken_to_string ::
    "(string \<Rightarrow> ('s, int) comp) \<Rightarrow> room_stream_token \<Rightarrow> ('s, string) comp" where
  "RoomStreamToken_to_string get_id t =
     (case topological t of
        Some topo \<Rightarrow> returnS (''t'' @ str_of_int topo @ ''-'' @ str_of_int (stream t))
      | None \<Rightarrow>
          if instance_map t \<noteq> [] then
            bindS (encode_entries get_id (stream t) (instance_map t)) (\<lambda>entries.
              returnS (if entries \<noteq> []
                       then ''m'' @ str_of_int (stream t) @ ''~'' @ py_join ''~'' entries
                       else ''s'' @ str_of_int (stream t)))
          else returnS (''s'' @ str_of_int (stream t)))"

definition MultiWriterStreamToken_parse :: "(int \<Rightarrow> string res) \<Rightarrow> string \<Rightarrow> mw_token res" where
  "MultiWriterStreamToken_parse get_name string =
     (case string of
        [] \<Rightarrow> Inl (SynapseError 400 ''Invalid stream token'')
      | c # rest \<Rightarrow>
          if is_digit c
          then catch_all (SynapseError 400 ''Invalid stream token'')
                 (bindE (int_of_str string) (\<lambda>s. MultiWriterStreamToken s []))
          else if c = CHR ''m''
          then catch_all (SynapseError 400 ''Invalid stream token'')
                 (bindE (decode_fields get_name rest) (\<lambda>(s, m). MultiWriterStreamToken s m))
          else Inl (SynapseError 400 ''Invalid stream token''))"

definition MultiWriterStreamToken_to_string ::
    "(string \<Rightarrow> ('s, int) comp) \<Rightarrow> mw_token \<Rightarrow> ('s, string) comp" where
  "MultiWriterStreamToken_to_string get_id t =
     (if instance_map t \<noteq> [] then
        bindS (encode_entries get_id (stream t) (instance_map t)) (\<lambda>entries.
          returnS (if entries \<noteq> []
                   then ''m'' @ str_of_int (stream t) @ ''~'' @ py_join ''~'' entries
                   else str_of_int (stream t)))
      else returnS (str_of_int (stream t)))"

section \<open>The combined token\<close>

datatype stream_key_type =
  KEY_ROOM | KEY_PRESENCE | KEY_TYPING | KEY_RECEIPT | KEY_ACCOUNT_DATA | KEY_PUSH_RULES
  | KEY_TO_DEVICE | KEY_DEVICE_LIST | KEY_UN_PARTIAL_STATED_ROOMS | KEY_THREAD_SUBSCRIPTIONS

definition all_stream_keys :: "stream_key_type list" where
  "all_stream_keys = [KEY_ROOM, KEY_PRESENCE, KEY_TYPING, KEY_RECEIPT, KEY_ACCOUNT_DATA, KEY_PUSH_RULES,
     KEY_TO_DEVICE, KEY_DEVICE_LIST, KEY_UN_PARTIAL_STATED_ROOMS, KEY_THREAD_SUBSCRIPTIONS]"

record stream_token =
  room_key :: room_stream_token
  presence_key :: int
  typing_key :: int
  receipt_key :: mw_token
  account_data_key :: int
  push_rules_key :: int
  to_device_key :: int
  device_list_key :: mw_token
  groups_key :: int
  un_partial_stated_rooms_key :: int
  thread_subscriptions_key :: int

text \<open>The values that fields hold and that \<open>copy_and_advance\<close> is given.\<close>

datatype stream_value = IntValue int | RoomValue room_stream_token | MultiWriterValue mw_token

fun get_field :: "stream_token \<Rightarrow> stream_key_type \<Rightarrow> stream_value" where
  "get_field t KEY_ROOM = RoomValue (room_key t)"
| "get_field t KEY_PRESENCE = IntValue (presence_key t)"
| "get_field t KEY_TYPING = IntValue (typing_key t)"
| "get_field t KEY_RECEIPT = MultiWriterValue (receipt_key t)"
| "get_field t KEY_ACCOUNT_DATA = IntValue (account_data_key t)"
| "get_field t KEY_PUSH_RULES = IntValue (push_rules_key t)"
| "get_field t KEY_TO_DEVICE = IntValue (to_device_key t)"
| "get_field t KEY_DEVICE_LIST = MultiWriterValue (device_list_key t)"
| "get_field t KEY_UN_PARTIAL_STATED_ROOMS = IntValue (un_partial_stated_rooms_key t)"
| "get_field t KEY_THREAD_SUBSCRIPTIONS = IntValue (thread_subscriptions_key t)"

text \<open>
  \<open>copy_and_replace\<close>: the validators of the three token fields raise for a value of another class.
  The fields of type int have none, but a token stored there makes the comparison that follows in
  \<open>copy_and_advance\<close> raise the same exception, so it is raised here.
\<close>

fun copy_and_replace :: "stream_token \<Rightarrow> stream_key_type \<Rightarrow> stream_value \<Rightarrow> stream_token res" where
  "copy_and_replace t KEY_ROOM (RoomValue v) = Inr (t\<lparr>room_key := v\<rparr>)"
| "copy_and_replace t KEY_PRESENCE (IntValue v) = Inr (t\<lparr>presence_key := v\<rparr>)"
| "copy_and_replace t KEY_TYPING (IntValue v) = Inr (t\<lparr>typing_key := v\<rparr>)"
| "copy_and_replace t KEY_RECEIPT (MultiWriterValue v) = Inr (t\<lparr>receipt_key := v\<rparr>)"
| "copy_and_replace t KEY_ACCOUNT_DATA (IntValue v) = Inr (t\<lparr>account_data_key := v\<rparr>)"
| "copy_and_replace t KEY_PUSH_RULES (IntValue v) = Inr (t\<lparr>push_rules_key := v\<rparr>)"
| "copy_and_replace t KEY_TO_DEVICE (IntValue v) = Inr (t\<lparr>to_device_key := v\<rparr>)"
| "copy_and_replace t KEY_DEVICE_LIST (MultiWriterValue v) = Inr (t\<lparr>device_list_key := v\<rparr>)"
| "copy_and_replace t KEY_UN_PARTIAL_STATED_ROOMS (IntValue v) = Inr (t\<lparr>un_partial_stated_rooms_key := v\<rparr>)"
| "copy_and_replace t KEY_THREAD_SUBSCRIPTIONS (IntValue v) = Inr (t\<lparr>thread_subscriptions_key := v\<rparr>)"
| "copy_and_replace t _ _ = Inl TypeError"

text \<open>\<open>self.receipt_key.copy_and_advance(new_value)\<close> for a value of any class.\<close>

definition advance_mw_value :: "mw_token \<Rightarrow> stream_value \<Rightarrow> stream_value res" where
  "advance_mw_value self v = (case v of
      MultiWriterValue other \<Rightarrow> bindE (mw_copy_and_advance self other) (\<lambda>r. Inr (MultiWriterValue r))
    | RoomValue other \<Rightarrow> bindE (mw_copy_and_advance self other) (\<lambda>r. Inr (MultiWriterValue r))
    | IntValue _ \<Rightarrow> Inl AttributeError)"

definition advance_room_value :: "room_stream_token \<Rightarrow> stream_value \<Rightarrow> stream_value res" where
  "advance_room_value self v = (case v of
      RoomValue other \<Rightarrow> bindE (room_copy_and_advance self other) (\<lambda>r. Inr (RoomValue r))
    | _ \<Rightarrow> Inl (if int_truthy (topological self) then PyException ''Can't advance topological tokens''
               else AttributeError))"

definition copy_and_advance :: "stream_token \<Rightarrow> stream_key_type \<Rightarrow> stream_value \<Rightarrow> stream_token res" where
  "copy_and_advance self key new_value =
     (if key = KEY_ROOM then
        bindE (advance_room_value (room_key self) new_value) (copy_and_replace self KEY_ROOM)
      else if key = KEY_RECEIPT then
        bindE (advance_mw_value (receipt_key self) new_value) (copy_and_replace self KEY_RECEIPT)
      else if key = KEY_DEVICE_LIST then
        bindE (advance_mw_value (device_list_key self) new_value) (copy_and_replace self KEY_DEVICE_LIST)
      else bindE (copy_and_replace self key new_value) (\<lambda>new_token.
        (case (get_field new_token key, get_field self key) of
           (IntValue new_id, IntValue old_id) \<Rightarrow> if old_id < new_id then Inr new_token else Inr self
         | _ \<Rightarrow> Inl TypeError)))"

fun value_is_before_or_eq :: "stream_value \<Rightarrow> stream_value \<Rightarrow> bool" where
  "value_is_before_or_eq (RoomValue a) (RoomValue b) = token_is_before_or_eq a b"
| "value_is_before_or_eq (MultiWriterValue a) (MultiWriterValue b) = token_is_before_or_eq a b"
| "value_is_before_or_eq (IntValue a) (IntValue b) = (\<not> a > b)"
| "value_is_before_or_eq _ _ = False"

definition is_before_or_eq :: "stream_token \<Rightarrow> stream_token \<Rightarrow> bool" where
  "is_before_or_eq self other \<longleftrightarrow>
     list_all (\<lambda>key. key = KEY_TYPING \<or> value_is_before_or_eq (get_field self key) (get_field other key))
       all_stream_keys"

definition STREAM_FIELDS :: nat where
  "STREAM_FIELDS = 11"

definition StreamToken_from_string :: "(int \<Rightarrow> string res) \<Rightarrow> string \<Rightarrow> stream_token res" where
  "StreamToken_from_string get_name string =
     catch_all (SynapseError 400 ''Invalid stream token'')
       (let keys0 = split_all (CHR ''_'') string;
            keys = keys0 @ replicate (STREAM_FIELDS - length keys0) ''0'' in
        (case keys of
           [k_room, k_presence, k_typing, k_receipt, k_account_data, k_push_rules, k_to_device,
            k_device_list, k_groups, k_un_partial, k_thread] \<Rightarrow>
             bindE (RoomStreamToken_parse get_name k_room) (\<lambda>v_room.
             bindE (int_of_str k_presence) (\<lambda>v_presence.
             bindE (int_of_str k_typing) (\<lambda>v_typing.
             bindE (MultiWriterStreamToken_parse get_name k_receipt) (\<lambda>v_receipt.
             bindE (int_of_str k_account_data) (\<lambda>v_account_data.
             bindE (int_of_str k_push_rules) (\<lambda>v_push_rules.
             bindE (int_of_str k_to_device) (\<lambda>v_to_device.
             bindE (MultiWriterStreamToken_parse get_name k_device_list) (\<lambda>v_device_list.
             bindE (int_of_str k_groups) (\<lambda>v_groups.
             bindE (int_of_str k_un_partial) (\<lambda>v_un_partial.
             bindE (int_of_str k_thread) (\<lambda>v_thread.
               Inr \<lparr>room_key = v_room, presence_key = v_presence, typing_key = v_typing,
                    receipt_key = v_receipt, account_data_key = v_account_data,
                    push_rules_key = v_push_rules, to_device_key = v_to_device,
                    device_list_key = v_device_list, groups_key = v_groups,
                    un_partial_stated_rooms_key = v_un_partial,
                    thread_subscriptions_key = v_thread\<rparr>)))))))))))
         | _ \<Rightarrow> Inl ValueError))"

definition StreamToken_to_string ::
    "(string \<Rightarrow> ('s, int) comp) \<Rightarrow> stream_token \<Rightarrow> ('s, string) comp" where
  "StreamToken_to_string get_id t =
     bindS (RoomStreamToken_to_string get_id (room_key t)) (\<lambda>k_room.
     bindS (MultiWriterStreamToken_to_string get_id (receipt_key t)) (\<lambda>k_receipt.
     bindS (MultiWriterStreamToken_to_string get_id (device_list_key t)) (\<lambda>k_device_list.
       returnS (py_join ''_''
         [k_room, str_of_int (presence_key t), str_of_int (typing_key t), k_receipt,
          str_of_int (account_data_key t), str_of_int (push_rules_key t), str_of_int (to_device_key t),
          k_device_list, str_of_int (groups_key t), str_of_int (un_partial_stated_rooms_key t),
          str_of_int (thread_subscriptions_key t)]))))"

definition StreamToken_START :: stream_token where
  "StreamToken_START = \<lparr>room_key = \<lparr>stream = 0, instance_map = [], topological = None\<rparr>,
     presence_key = 0, typing_key = 0, receipt_key = \<lparr>stream = 0, instance_map = []\<rparr>,
     account_data_key = 0, push_rules_key = 0, to_device_key = 0,
     device_list_key = \<lparr>stream = 0, instance_map = []\<rparr>, groups_key = 0,
     un_partial_stated_rooms_key = 0, thread_subscriptions_key = 0\<rparr>"

section \<open>Other tokens\<close>

record sliding_sync_stream_token =
  ss_stream_token :: stream_token
  connection_position :: int

definition SlidingSync_from_string :: "(int \<Rightarrow> string res) \<Rightarrow> string \<Rightarrow> sliding_sync_stream_token res" where
  "SlidingSync_from_string get_name string =
     catch_all (SynapseError 400 ''Invalid stream token'')
       (case split_first (CHR ''/'') string of
          (_, None) \<Rightarrow> Inl ValueError
        | (pos_str, Some token_str) \<Rightarrow>
            bindE (int_of_str pos_str) (\<lambda>pos.
            bindE (StreamToken_from_string get_name token_str) (\<lambda>tok.
              Inr \<lparr>ss_stream_token = tok, connection_position = pos\<rparr>)))"

definition SlidingSync_to_string ::
    "(string \<Rightarrow> ('s, int) comp) \<Rightarrow> sliding_sync_stream_token \<Rightarrow> ('s, string) comp" where
  "SlidingSync_to_string get_id t =
     bindS (StreamToken_to_string get_id (ss_stream_token t)) (\<lambda>s.
       returnS (str_of_int (connection_position t) @ ''/'' @ s))"

definition ThreadSubscriptionsToken_from_string :: "string \<Rightarrow> int res" where
  "ThreadSubscriptionsToken_from_string s =
     bindE (guardE (py_startswith s ''ts'') ValueError) (\<lambda>_. int_of_str (drop 2 s))"

definition ThreadSubscriptionsToken_to_string :: "int \<Rightarrow> string" where
  "ThreadSubscriptionsToken_to_string stream_id = ''ts'' @ str_of_int stream_id"

record persisted_position =
  instance_name :: string
  pp_stream :: int

text \<open>\<open>persisted_after\<close>, for the two classes of tokens.\<close>

definition persisted_after :: "persisted_position \<Rightarrow> mw_token \<Rightarrow> bool" where
  "persisted_after p token \<longleftrightarrow> get_stream_pos token (instance_name p) < pp_stream p"

definition persisted_after_room :: "persisted_position \<Rightarrow> room_stream_token \<Rightarrow> bool res" where
  "persisted_after_room p token =
     bindE (room_get_stream_pos token (instance_name p)) (\<lambda>pos. Inr (pos < pp_stream p))"

definition to_room_stream_token :: "persisted_position \<Rightarrow> room_stream_token res" where
  "to_room_stream_token p = RoomStreamToken None (pp_stream p) []"

section \<open>Tokens as vector clocks\<close>

text \<open>The invariant that the constructors enforce.\<close>

definition fields_ok :: "int \<Rightarrow> (string, int) pydict \<Rightarrow> bool" where
  "fields_ok s m \<longleftrightarrow> dict_ok m \<and> (\<forall>(i, v)\<in>set m. s < v)"

definition token_ok :: "('a mw_token_scheme) \<Rightarrow> bool" where
  "token_ok t \<longleftrightarrow> fields_ok (stream t) (instance_map t)"

definition clock_of :: "int \<Rightarrow> (string, int) pydict \<Rightarrow> string \<Rightarrow> int" where
  "clock_of s m i = (case dget m i of Some p \<Rightarrow> p | None \<Rightarrow> s)"

lemma get_stream_pos_clock: "get_stream_pos t i = clock_of (stream t) (instance_map t) i"
  by (simp add: get_stream_pos_def clock_of_def)

lemma clock_ge: "fields_ok s m \<Longrightarrow> s \<le> clock_of s m i"
  by (force simp: fields_ok_def clock_of_def split: option.splits dest: map_of_SomeD)

lemma clock_default: "i \<notin> set (dkeys m) \<Longrightarrow> clock_of s m i = s"
  by (simp add: clock_of_def dget_None_iff [symmetric])

lemma check_instance_map_Inr [simp]: "check_instance_map s m = Inr u \<longleftrightarrow> (\<forall>(i, v)\<in>set m. s < v)"
  by (force simp: check_instance_map_def)

lemma MultiWriterStreamToken_Inr:
  "fields_ok s m \<Longrightarrow> MultiWriterStreamToken s m = Inr \<lparr>stream = s, instance_map = m\<rparr>"
  by (simp add: MultiWriterStreamToken_def fields_ok_def)

lemma RoomStreamToken_Inr:
  "fields_ok s m \<Longrightarrow> \<not> int_truthy topo \<or> m = [] \<Longrightarrow>
     RoomStreamToken topo s m = Inr \<lparr>stream = s, instance_map = m, topological = topo\<rparr>"
  by (auto simp: RoomStreamToken_def fields_ok_def)

lemma dget_map_keys: "dget (map (\<lambda>i. (i, f i)) l) i = (if i \<in> set l then Some (f i) else None)"
  by (induction l) auto

lemma dget_filter_map_keys:
  "dget (filter (\<lambda>(i, s). P s) (map (\<lambda>i. (i, f i)) l)) i =
     (if i \<in> set l \<and> P (f i) then Some (f i) else None)"
  by (induction l) auto

lemma advance_fields_clock:
  assumes a: "token_ok a" and b: "token_ok b" and eq: "advance_fields a b = (s, m)"
  shows "s = max (stream a) (stream b)" and "fields_ok s m"
    and "clock_of s m i = max (get_stream_pos a i) (get_stream_pos b i)"
proof -
  let ?is = "remdups (dkeys (instance_map a) @ dkeys (instance_map b))"
  let ?f = "\<lambda>i. max (get_stream_pos a i) (get_stream_pos b i)"
  from eq show s: "s = max (stream a) (stream b)" by (auto simp: advance_fields_def Let_def)
  from eq have m: "m = filter (\<lambda>(i, p). p > s) (map (\<lambda>i. (i, ?f i)) ?is)"
    by (auto simp: advance_fields_def Let_def)
  have "distinct (map fst (map (\<lambda>i. (i, ?f i)) ?is))" by (simp add: comp_def)
  then show "fields_ok s m"
    unfolding fields_ok_def dict_ok_def m by (auto intro: distinct_map_filter)
  have ge: "s \<le> ?f i"
    using clock_ge a b unfolding s token_ok_def get_stream_pos_clock by (meson max.mono)
  have default: "?f i = s" if "i \<notin> set ?is"
    using that by (simp add: s get_stream_pos_clock clock_default)
  show "clock_of s m i = ?f i"
    unfolding clock_of_def m dget_filter_map_keys using ge default by auto
qed

lemma token_is_before_or_eq_clock:
  "token_is_before_or_eq a b \<longleftrightarrow>
     stream a \<le> stream b \<and> (\<forall>i. get_stream_pos a i \<le> get_stream_pos b i)"
proof -
  have "get_stream_pos a i \<le> get_stream_pos b i"
    if "stream a \<le> stream b" "i \<notin> set (dkeys (instance_map a))" "i \<notin> set (dkeys (instance_map b))" for i
    using that by (simp add: get_stream_pos_clock clock_default)
  then show ?thesis
    unfolding token_is_before_or_eq_def list_all_iff set_append by (auto simp: not_less)
qed

text \<open>
  C30. Advancing is the join of vector clocks. For valid tokens \<open>copy_and_advance\<close> succeeds with
  a valid token that is the least upper bound of the two in the order of \<open>is_before_or_eq\<close>; and a
  row was persisted after the result exactly if it was persisted after both tokens.
\<close>

theorem copy_and_advance_join:
  assumes a: "token_ok a" and b: "token_ok b"
  shows "\<exists>c. mw_copy_and_advance a b = Inr c \<and> token_ok c
    \<and> token_is_before_or_eq a c \<and> token_is_before_or_eq b c
    \<and> (\<forall>d :: mw_token. token_is_before_or_eq a d \<and> token_is_before_or_eq b d \<longrightarrow> token_is_before_or_eq c d)
    \<and> (\<forall>p. persisted_after p c \<longleftrightarrow> persisted_after p a \<and> persisted_after p b)"
proof -
  obtain s m where adv: "advance_fields a b = (s, m)" by (cases "advance_fields a b")
  note c = advance_fields_clock [OF a b adv]
  define c where "c = \<lparr>stream = s, instance_map = m\<rparr>"
  have "get_stream_pos c i = max (get_stream_pos a i) (get_stream_pos b i)" for i
    using c(3) by (simp add: get_stream_pos_clock c_def)
  moreover have "stream c = max (stream a) (stream b)" "token_ok c"
    using c(1,2) by (simp_all add: c_def token_ok_def)
  moreover have "mw_copy_and_advance a b = Inr c"
    unfolding mw_copy_and_advance_def adv prod.case c_def by (rule MultiWriterStreamToken_Inr [OF c(2)])
  ultimately show ?thesis
    by (intro exI [of _ c]) (auto simp: token_is_before_or_eq_clock persisted_after_def)
qed

theorem copy_and_advance_join_witness:
  "\<exists>c. mw_copy_and_advance \<lparr>stream = 3, instance_map = [(''w1'', 7)]\<rparr>
      \<lparr>stream = 5, instance_map = [(''w2'', 6)]\<rparr> = Inr c \<and> token_ok c"
proof -
  have "token_ok \<lparr>stream = 3, instance_map = [(''w1'', 7)]\<rparr>"
    "token_ok \<lparr>stream = 5, instance_map = [(''w2'', 6)]\<rparr>" by code_simp+
  from copy_and_advance_join [OF this] show ?thesis by blast
qed

lemma bound_fields_clock:
  assumes t: "token_ok t" and eq: "bound_fields t mx = (s, m)"
  shows "s = min (stream t) mx" and "fields_ok s m"
    and "clock_of s m i = min (get_stream_pos t i) mx"
proof -
  from eq show s: "s = min (stream t) mx" by (auto simp: bound_fields_def Let_def)
  from eq have m: "m = map (\<lambda>(k, p). (k, min p mx)) (filter (\<lambda>(k, p). min p mx > s) (instance_map t))"
    by (auto simp: bound_fields_def Let_def)
  from t have dict: "dict_ok (instance_map t)" and ge: "\<forall>(i, v)\<in>set (instance_map t). stream t < v"
    by (auto simp: token_ok_def fields_ok_def)
  have "map fst m = map fst (filter (\<lambda>(k, p). min p mx > s) (instance_map t))"
    unfolding m by (simp add: comp_def case_prod_beta)
  then have "dict_ok m" using dict by (simp add: dict_ok_def distinct_map_filter)
  then show "fields_ok s m" by (auto simp: fields_ok_def m)
  have look: "dget m i = (case dget (instance_map t) i of
      Some p \<Rightarrow> if min p mx > s then Some (min p mx) else None | None \<Rightarrow> None)"
    unfolding m dget_map_value dget_filter_value [OF dict] by (auto split: option.splits)
  have tight: "s = min p mx" if "dget (instance_map t) i = Some p" "\<not> min p mx > s" for p
  proof -
    from that(1) ge have "stream t < p" by (blast dest: map_of_SomeD)
    with that(2) show ?thesis by (auto simp: s min_def split: if_splits)
  qed
  show "clock_of s m i = min (get_stream_pos t i) mx"
  proof (cases "dget (instance_map t) i")
    case None
    then show ?thesis by (simp add: clock_of_def look get_stream_pos_def s)
  next
    case (Some p)
    then show ?thesis using tight [OF Some] by (simp add: clock_of_def look get_stream_pos_def)
  qed
qed

text \<open>
  Bounding and ranges. Bounding a valid live token gives a valid token whose clock is the
  minimum of the clock and the bound; and \<open>is_stream_position_in_range\<close> accepts a position of a
  writer exactly if it is after the lower and not after the upper token.
\<close>

theorem bound_and_range:
  assumes t: "token_ok t" and live: "topological t = None"
  shows "\<exists>c. room_bound_stream_token t mx = Inr c \<and> token_ok c \<and> topological c = None
      \<and> stream c = min (stream t) mx
      \<and> (\<forall>i. get_stream_pos c i = min (get_stream_pos t i) mx)
      \<and> token_is_before_or_eq c t
      \<and> (n \<noteq> [] \<longrightarrow>
          (is_stream_position_in_range (Some c) (Some t) (Some n) pos \<longleftrightarrow> mx < pos \<and> pos \<le> get_stream_pos t n))"
proof -
  obtain s m where eq: "bound_fields t mx = (s, m)" by (cases "bound_fields t mx")
  note b = bound_fields_clock [OF t eq]
  define c where "c = \<lparr>stream = s, instance_map = m, topological = None\<rparr>"
  have pos: "get_stream_pos c i = min (get_stream_pos t i) mx" for i
    using b(3) by (simp add: get_stream_pos_clock c_def)
  have c: "stream c = min (stream t) mx" "token_ok c" "topological c = None"
    using b(1,2) by (simp_all add: c_def token_ok_def)
  have res: "room_bound_stream_token t mx = Inr c"
    unfolding room_bound_stream_token_def eq prod.case c_def
    using live RoomStreamToken_Inr [OF b(2), of None] by (simp add: int_truthy_def)
  have "is_stream_position_in_range (Some c) (Some t) (Some n) p \<longleftrightarrow> mx < p \<and> p \<le> get_stream_pos t n"
    if "n \<noteq> []" for p
    using pos [of n] that
    by (auto simp: is_stream_position_in_range_def get_stream_pos_def not_le)
  with pos c res show ?thesis
    by (intro exI [of _ c]) (auto simp: token_is_before_or_eq_clock)
qed

theorem bound_and_range_witness:
  "\<exists>c. room_bound_stream_token \<lparr>stream = 3, instance_map = [(''w1'', 7)], topological = None\<rparr> 5 = Inr c
     \<and> get_stream_pos c ''w1'' = 5"
proof -
  let ?t = "\<lparr>stream = 3, instance_map = [(''w1'', 7)], topological = None\<rparr>"
  have "token_ok ?t" "topological ?t = None" by code_simp+
  from bound_and_range [OF this, of 5] have
    "\<exists>c. room_bound_stream_token ?t 5 = Inr c \<and> get_stream_pos c ''w1'' = min (get_stream_pos ?t ''w1'') 5"
    by blast
  then show ?thesis by (simp add: get_stream_pos_def)
qed

section \<open>Reading back the textual form\<close>

text \<open>
  What the textual form needs of the store: an id that was handed out for a name leads back to
  the name, and later ids do not change that.
\<close>

locale instance_ids =
  fixes get_id :: "string \<Rightarrow> ('s, int) comp"
    and get_name :: "'s \<Rightarrow> int \<Rightarrow> string res"
    and store_ok :: "'s \<Rightarrow> bool"
  assumes get_id_ok: "store_ok st \<Longrightarrow> get_id n st = Inr (i, st') \<Longrightarrow> store_ok st'"
    and get_name_get_id: "store_ok st \<Longrightarrow> get_id n st = Inr (i, st') \<Longrightarrow> get_name st' i = Inr n"
    and get_name_stable: "store_ok st \<Longrightarrow> get_id n st = Inr (i, st') \<Longrightarrow> get_name st j = Inr k \<Longrightarrow>
      get_name st' j = Inr k"
    and get_id_printable: "store_ok st \<Longrightarrow> get_id n st = Inr (i, st') \<Longrightarrow> printable i"
begin

definition extends :: "'s \<Rightarrow> 's \<Rightarrow> bool" where
  "extends st st' \<longleftrightarrow> store_ok st' \<and> (\<forall>j k. get_name st j = Inr k \<longrightarrow> get_name st' j = Inr k)"

lemma extends_trans: "extends a b \<Longrightarrow> extends b c \<Longrightarrow> extends a c"
  by (simp add: extends_def)

lemma get_id_extends: "store_ok st \<Longrightarrow> get_id n st = Inr (i, st') \<Longrightarrow> extends st st'"
  by (auto simp: extends_def get_id_ok intro: get_name_stable)

text \<open>One entry, then all of them: decoding in any later state of the store gives back the map.\<close>

lemma decode_entry_encoded:
  assumes "get_name st i = Inr n" and "printable i" and "printable p"
  shows "decode_entry (get_name st) (str_of_int i @ ''.'' @ str_of_int p) m = Inr (dset n p m)"
proof -
  have "CHR ''.'' \<notin> set (str_of_int k)" for k
    by (auto simp: is_digit_def byte_def dest: str_of_int_chars)
  then have "split_all (CHR ''.'') (str_of_int i @ ''.'' @ str_of_int p) = [str_of_int i, str_of_int p]"
    using split_all_append [of "CHR ''.''" "str_of_int i" "str_of_int p"] by (simp add: split_all_no_sep)
  with assms show ?thesis by (simp add: decode_entry_def int_of_str_str_of_int)
qed

lemma encode_entries_decode:
  assumes "foldS (\<lambda>(name, pos) entries.
        if pos \<le> strm then returnS entries
        else bindS (get_id name) (\<lambda>i. returnS (entries @ [str_of_int i @ ''.'' @ str_of_int pos]))) m acc st
      = Inr (es, st')"
    and "store_ok st" and "\<forall>(i, v)\<in>set m. strm < v \<and> printable v"
  shows "extends st st' \<and> (\<exists>fs. es = acc @ fs \<and> (m \<noteq> [] \<longrightarrow> fs \<noteq> [])
      \<and> (\<forall>e\<in>set fs. \<exists>i v. e = str_of_int i @ ''.'' @ str_of_int v)
      \<and> (\<forall>st'' d. extends st' st'' \<longrightarrow>
           foldE (decode_entry (get_name st'')) fs d = Inr (fold (\<lambda>(n, v). dset n v) m d)))"
  using assms
proof (induction m arbitrary: acc st)
  case Nil
  then show ?case by (auto simp: extends_def)
next
  case (Cons nv m)
  obtain n v where nv: "nv = (n, v)" by (cases nv)
  from Cons.prems(3) have v: "strm < v" "printable v" by (simp_all add: nv)
  from Cons.prems(1) v(1) obtain i st1 where i: "get_id n st = Inr (i, st1)"
    and rest: "foldS (\<lambda>(name, pos) entries.
        if pos \<le> strm then returnS entries
        else bindS (get_id name) (\<lambda>i. returnS (entries @ [str_of_int i @ ''.'' @ str_of_int pos])))
        m (acc @ [str_of_int i @ ''.'' @ str_of_int v]) st1 = Inr (es, st')"
    by (auto simp: nv)
  note ext1 = get_id_extends [OF Cons.prems(2) i]
  then have "store_ok st1" by (simp add: extends_def)
  from Cons.IH [OF rest this] Cons.prems(3) obtain fs where ext2: "extends st1 st'"
    and es: "es = acc @ (str_of_int i @ ''.'' @ str_of_int v) # fs"
    and shape: "\<forall>e\<in>set fs. \<exists>i v. e = str_of_int i @ ''.'' @ str_of_int v"
    and dec: "\<forall>st'' d. extends st' st'' \<longrightarrow>
      foldE (decode_entry (get_name st'')) fs d = Inr (fold (\<lambda>(n, v). dset n v) m d)"
    by auto
  have "foldE (decode_entry (get_name st'')) ((str_of_int i @ ''.'' @ str_of_int v) # fs) d
      = Inr (fold (\<lambda>(n, v). dset n v) (nv # m) d)" if "extends st' st''" for st'' d
  proof -
    have "get_name st'' i = Inr n"
      using get_name_get_id [OF Cons.prems(2) i] ext2 that by (simp add: extends_def)
    from decode_entry_encoded [OF this get_id_printable [OF Cons.prems(2) i] v(2)] dec that show ?thesis
      by (simp add: nv)
  qed
  with shape show ?case
    by (intro conjI extends_trans [OF ext1 ext2] exI [of _ "(str_of_int i @ ''.'' @ str_of_int v) # fs"])
      (auto simp: es)
qed

lemma encoded_no_char:
  assumes "e = str_of_int i @ ''.'' @ str_of_int v" and "c \<notin> {CHR ''.'', CHR ''-''}" and "\<not> is_digit c"
  shows "c \<notin> set e"
  using assms by (auto dest: str_of_int_chars)

lemma encode_fields_decode:
  assumes es: "encode_entries get_id s m st = Inr (es, st')" and st: "store_ok st"
    and m: "fields_ok s m" "m \<noteq> []" and pr: "printable s" "\<forall>(i, v)\<in>set m. printable v"
    and ext: "extends st' st''"
  shows "decode_fields (get_name st'') (str_of_int s @ ''~'' @ py_join ''~'' es) = Inr (s, m)"
    and "es \<noteq> []" and "\<forall>e\<in>set es. CHR ''~'' \<notin> set e \<and> CHR ''_'' \<notin> set e"
proof -
  have "\<forall>(i, v)\<in>set m. s < v \<and> printable v" using m(1) pr(2) by (auto simp: fields_ok_def)
  from encode_entries_decode [OF es [unfolded encode_entries_def] st this] m(2) ext
  have ne: "es \<noteq> []" and shape: "\<forall>e\<in>set es. \<exists>i v. e = str_of_int i @ ''.'' @ str_of_int v"
    and dec: "foldE (decode_entry (get_name st'')) es [] = Inr (fold (\<lambda>(n, v). dset n v) m [])"
    by auto
  show "es \<noteq> []" by (rule ne)
  have "\<not> is_digit (CHR ''~'')" "\<not> is_digit (CHR ''_'')" by code_simp+
  with shape encoded_no_char show no: "\<forall>e\<in>set es. CHR ''~'' \<notin> set e \<and> CHR ''_'' \<notin> set e"
    by fastforce
  have "CHR ''~'' \<notin> set (str_of_int s)" using \<open>\<not> is_digit (CHR ''~'')\<close> by (auto dest: str_of_int_chars)
  then have "split_all (CHR ''~'') (str_of_int s @ ''~'' @ py_join ''~'' es) = str_of_int s # es"
    using split_all_append [of "CHR ''~''" "str_of_int s" "py_join ''~'' es"]
      split_all_join [OF ne, of "CHR ''~''"] no by simp
  with dec pr(1) m(1) show "decode_fields (get_name st'') (str_of_int s @ ''~'' @ py_join ''~'' es) = Inr (s, m)"
    by (simp add: decode_fields_def int_of_str_str_of_int fold_dset_self fields_ok_def)
qed

lemma encode_entries_extends:
  assumes "encode_entries get_id s m st = Inr (es, st')" and "store_ok st"
    and "fields_ok s m" and "\<forall>(i, v)\<in>set m. printable v"
  shows "extends st st'"
proof -
  have "\<forall>(i, v)\<in>set m. s < v \<and> printable v" using assms(3,4) by (auto simp: fields_ok_def)
  from encode_entries_decode [OF assms(1) [unfolded encode_entries_def] assms(2) this] show ?thesis
    by blast
qed

end

text \<open>Tokens whose numbers the interpreter prints and reads.\<close>

definition printable_token :: "('a mw_token_scheme) \<Rightarrow> bool" where
  "printable_token t \<longleftrightarrow> token_ok t \<and> printable (stream t) \<and> (\<forall>(i, v)\<in>set (instance_map t). printable v)"

definition room_token_ok :: "room_stream_token \<Rightarrow> bool" where
  "room_token_ok t \<longleftrightarrow> printable_token t
     \<and> (case topological t of None \<Rightarrow> True | Some n \<Rightarrow> instance_map t = [] \<and> 0 \<le> n \<and> printable n)"

definition mw_token_ok :: "mw_token \<Rightarrow> bool" where
  "mw_token_ok t \<longleftrightarrow> printable_token t \<and> (instance_map t = [] \<longrightarrow> 0 \<le> stream t)"

lemma str_of_int_no_underscore: "CHR ''_'' \<notin> set (str_of_int i)"
proof -
  have "\<not> is_digit (CHR ''_'')" by code_simp
  then show ?thesis by (auto dest: str_of_int_chars)
qed

lemma set_py_join: "set (py_join sep ps) \<subseteq> set sep \<union> (\<Union>p\<in>set ps. set p)"
  by (induction sep ps rule: py_join.induct) auto

lemma str_of_int_nonneg_digit:
  assumes "0 \<le> i"
  obtains c cs where "str_of_int i = c # cs" and "is_digit c"
  using assms str_of_nat_digits [of "nat i"]
  by (cases "str_of_nat (nat i)") (auto simp: str_of_int_def)

lemma str_of_int_nonneg_no_minus: "0 \<le> i \<Longrightarrow> CHR ''-'' \<notin> set (str_of_int i)"
proof -
  assume "0 \<le> i"
  moreover have "\<not> is_digit (CHR ''-'')" by code_simp
  ultimately show ?thesis using str_of_nat_digits by (auto simp: str_of_int_def)
qed

context instance_ids
begin

lemma encoded_token_no_underscore:
  assumes "\<forall>e\<in>set es. CHR ''_'' \<notin> set e"
  shows "CHR ''_'' \<notin> set (str_of_int s @ ''~'' @ py_join ''~'' es)"
  using assms set_py_join [of "''~''" es] str_of_int_no_underscore [of s] by auto

lemma mw_token_roundtrip:
  assumes out: "MultiWriterStreamToken_to_string get_id t st = Inr (s, st')" and st: "store_ok st"
    and t: "mw_token_ok t"
  shows "extends st st'" and "CHR ''_'' \<notin> set s"
    and "extends st' st'' \<Longrightarrow> MultiWriterStreamToken_parse (get_name st'') s = Inr t"
proof -
  from t have ok: "fields_ok (stream t) (instance_map t)" "printable (stream t)"
      "\<forall>(i, v)\<in>set (instance_map t). printable v"
    by (auto simp: mw_token_ok_def printable_token_def token_ok_def)
  have same: "MultiWriterStreamToken (stream t) (instance_map t) = Inr t"
    using MultiWriterStreamToken_Inr [OF ok(1)] by simp
  have "extends st st' \<and> CHR ''_'' \<notin> set s
      \<and> (extends st' st'' \<longrightarrow> MultiWriterStreamToken_parse (get_name st'') s = Inr t)" for st''
  proof (cases "instance_map t = []")
    case True
    with t obtain c cs where cs: "str_of_int (stream t) = c # cs" and "is_digit c"
      by (auto simp: mw_token_ok_def elim: str_of_int_nonneg_digit)
    moreover from cs have "int_of_str (c # cs) = Inr (stream t)" "CHR ''_'' \<notin> set (c # cs)"
      using int_of_str_str_of_int [OF ok(2)] str_of_int_no_underscore [of "stream t"] by simp_all
    ultimately show ?thesis
      using True out same st
      by (auto simp: MultiWriterStreamToken_to_string_def MultiWriterStreamToken_parse_def catch_all_def
          extends_def)
  next
    case False
    with out obtain es where es: "encode_entries get_id (stream t) (instance_map t) st = Inr (es, st')"
      and s: "s = (if es \<noteq> [] then ''m'' @ str_of_int (stream t) @ ''~'' @ py_join ''~'' es
              else str_of_int (stream t))"
      by (auto simp: MultiWriterStreamToken_to_string_def)
    note ext = encode_entries_extends [OF es st ok(1,3)]
    then have "extends st' st'" by (simp add: extends_def)
    note dec = encode_fields_decode [OF es st ok(1) False ok(2,3)]
    have no: "CHR ''_'' \<notin> set s"
      using encoded_token_no_underscore [of es "stream t"] dec(2,3) [OF \<open>extends st' st'\<close>] s by auto
    have "\<not> is_digit (CHR ''m'')" by code_simp
    then have "MultiWriterStreamToken_parse (get_name st'') s = Inr t" if "extends st' st''"
      using dec(1,2) [OF that] same s by (simp add: MultiWriterStreamToken_parse_def catch_all_def)
    with ext no show ?thesis by blast
  qed
  then show "extends st st'" "CHR ''_'' \<notin> set s"
    "extends st' st'' \<Longrightarrow> MultiWriterStreamToken_parse (get_name st'') s = Inr t" by blast+
qed

lemma room_token_roundtrip_live:
  assumes out: "RoomStreamToken_to_string get_id t st = Inr (s, st')" and st: "store_ok st"
    and t: "room_token_ok t" and live: "topological t = None"
  shows "extends st st' \<and> CHR ''_'' \<notin> set s
      \<and> (extends st' st'' \<longrightarrow> RoomStreamToken_parse (get_name st'') s = Inr t)"
proof -
  from t have ok: "fields_ok (stream t) (instance_map t)" "printable (stream t)"
      "\<forall>(i, v)\<in>set (instance_map t). printable v"
    by (auto simp: room_token_ok_def printable_token_def token_ok_def)
  have same: "RoomStreamToken None (stream t) (instance_map t) = Inr t"
    using RoomStreamToken_Inr [OF ok(1), of None] live by (simp add: int_truthy_def)
  show ?thesis
  proof (cases "instance_map t = []")
    case True
    with out same ok(2) st live show ?thesis
      by (auto simp: RoomStreamToken_to_string_def RoomStreamToken_parse_def catch_all_def
          extends_def int_of_str_str_of_int str_of_int_no_underscore)
  next
    case False
    with out live obtain es where es: "encode_entries get_id (stream t) (instance_map t) st = Inr (es, st')"
      and s: "s = (if es \<noteq> [] then ''m'' @ str_of_int (stream t) @ ''~'' @ py_join ''~'' es
              else ''s'' @ str_of_int (stream t))"
      by (auto simp: RoomStreamToken_to_string_def)
    note ext = encode_entries_extends [OF es st ok(1,3)]
    then have "extends st' st'" by (simp add: extends_def)
    note dec = encode_fields_decode [OF es st ok(1) False ok(2,3)]
    have no: "CHR ''_'' \<notin> set s"
      using encoded_token_no_underscore [of es "stream t"] dec(2,3) [OF \<open>extends st' st'\<close>] s by auto
    have "RoomStreamToken_parse (get_name st'') s = Inr t" if "extends st' st''"
      using dec(1,2) [OF that] same s by (simp add: RoomStreamToken_parse_def catch_all_def)
    with ext no show ?thesis by blast
  qed
qed

lemma room_token_roundtrip_historical:
  assumes out: "RoomStreamToken_to_string get_id t st = Inr (s, st')" and st: "store_ok st"
    and t: "room_token_ok t" and hist: "topological t = Some n"
  shows "extends st st' \<and> CHR ''_'' \<notin> set s
      \<and> (extends st' st'' \<longrightarrow> RoomStreamToken_parse (get_name st'') s = Inr t)"
proof -
  from t hist have ok: "instance_map t = []" "0 \<le> n" "printable n" "printable (stream t)"
    by (auto simp: room_token_ok_def printable_token_def)
  have same: "RoomStreamToken (Some n) (stream t) [] = Inr t"
    using RoomStreamToken_Inr [of "stream t" "[]" "Some n"] ok(1) hist by (simp add: fields_ok_def)
  have "split_first (CHR ''-'') (str_of_int n @ ''-'' @ str_of_int (stream t))
      = (str_of_int n, Some (str_of_int (stream t)))"
    using split_first_append [OF str_of_int_nonneg_no_minus [OF ok(2)]] by simp
  with out same ok hist st show ?thesis
    by (auto simp: RoomStreamToken_to_string_def RoomStreamToken_parse_def catch_all_def
        extends_def int_of_str_str_of_int str_of_int_no_underscore)
qed

lemma room_token_roundtrip:
  assumes "RoomStreamToken_to_string get_id t st = Inr (s, st')" and "store_ok st" and "room_token_ok t"
  shows "extends st st'" and "CHR ''_'' \<notin> set s"
    and "extends st' st'' \<Longrightarrow> RoomStreamToken_parse (get_name st'') s = Inr t"
  using room_token_roundtrip_live [OF assms] room_token_roundtrip_historical [OF assms]
  by (cases "topological t"; blast)+

end

definition stream_token_ok :: "stream_token \<Rightarrow> bool" where
  "stream_token_ok t \<longleftrightarrow> room_token_ok (room_key t) \<and> mw_token_ok (receipt_key t)
     \<and> mw_token_ok (device_list_key t) \<and> list_all printable
       [presence_key t, typing_key t, account_data_key t, push_rules_key t, to_device_key t,
        groups_key t, un_partial_stated_rooms_key t, thread_subscriptions_key t]"

context instance_ids
begin

lemma stream_token_roundtrip:
  assumes out: "StreamToken_to_string get_id t st = Inr (s, st')" and st: "store_ok st"
    and t: "stream_token_ok t"
  shows "StreamToken_from_string (get_name st') s = Inr t" and "store_ok st'"
proof -
  from out obtain k1 st1 k2 st2 k3 where
    o1: "RoomStreamToken_to_string get_id (room_key t) st = Inr (k1, st1)" and
    o2: "MultiWriterStreamToken_to_string get_id (receipt_key t) st1 = Inr (k2, st2)" and
    o3: "MultiWriterStreamToken_to_string get_id (device_list_key t) st2 = Inr (k3, st')" and
    s: "s = py_join ''_'' [k1, str_of_int (presence_key t), str_of_int (typing_key t), k2,
          str_of_int (account_data_key t), str_of_int (push_rules_key t), str_of_int (to_device_key t),
          k3, str_of_int (groups_key t), str_of_int (un_partial_stated_rooms_key t),
          str_of_int (thread_subscriptions_key t)]" (is "_ = py_join _ ?ks")
    unfolding StreamToken_to_string_def by (simp del: py_join.simps) blast
  from t have ok: "room_token_ok (room_key t)" "mw_token_ok (receipt_key t)" "mw_token_ok (device_list_key t)"
    by (simp_all add: stream_token_ok_def)
  note r1 = room_token_roundtrip [OF o1 st ok(1)]
  then have st1: "store_ok st1" by (simp add: extends_def)
  note r2 = mw_token_roundtrip [OF o2 st1 ok(2)]
  then have st2: "store_ok st2" by (simp add: extends_def)
  note r3 = mw_token_roundtrip [OF o3 st2 ok(3)]
  then show "store_ok st'" by (simp add: extends_def)
  then have e3: "extends st' st'" by (simp add: extends_def)
  have e: "extends st2 st'" "extends st1 st'"
    using r3(1) extends_trans [OF r2(1) r3(1)] by simp_all
  have "\<forall>k\<in>set ?ks. CHR ''_'' \<notin> set k"
    using r1(2) r2(2) r3(2) str_of_int_no_underscore by simp
  from split_all_join [OF _ this] have "split_all (CHR ''_'') s = ?ks"
    unfolding s by simp
  then show "StreamToken_from_string (get_name st') s = Inr t"
    using r1(3) [OF e(2)] r2(3) [OF e(1)] r3(3) [OF e3] t
    by (simp add: StreamToken_from_string_def STREAM_FIELDS_def catch_all_def stream_token_ok_def
        int_of_str_str_of_int)
qed

end

text \<open>A store that can still hand out some number of new ids never fails on that many names.\<close>

locale instance_ids_capacity = instance_ids get_id get_name store_ok
  for get_id :: "string \<Rightarrow> ('s, int) comp" and get_name store_ok +
  fixes capacity :: "'s \<Rightarrow> nat"
  assumes get_id_total: "store_ok st \<Longrightarrow> Suc k \<le> capacity st \<Longrightarrow>
      \<exists>i st'. get_id n st = Inr (i, st') \<and> k \<le> capacity st'"
begin

lemma foldS_total:
  assumes "store_ok st" and "length m + k \<le> capacity st"
  shows "\<exists>es st'. foldS (\<lambda>(name, pos) entries.
        if pos \<le> strm then returnS entries
        else bindS (get_id name) (\<lambda>i. returnS (entries @ [str_of_int i @ ''.'' @ str_of_int pos]))) m acc st
      = Inr (es, st') \<and> store_ok st' \<and> k \<le> capacity st'"
  using assms
proof (induction m arbitrary: acc st)
  case (Cons nv m)
  obtain n v where nv: "nv = (n, v)" by (cases nv)
  show ?case
  proof (cases "v \<le> strm")
    case True
    with Cons.IH [OF Cons.prems(1)] Cons.prems(2) show ?thesis by (simp add: nv bindS_def returnS_def)
  next
    case False
    from get_id_total [OF Cons.prems(1), of "length m + k" n] Cons.prems(2)
    obtain i st1 where i: "get_id n st = Inr (i, st1)" and cap: "length m + k \<le> capacity st1" by auto
    from Cons.IH [OF get_id_ok [OF Cons.prems(1) i] cap] i False show ?thesis
      by (simp add: nv bindS_def returnS_def)
  qed
qed (simp add: returnS_def)

lemma mw_to_string_total:
  assumes "store_ok st" and "length (instance_map t) + k \<le> capacity st"
  shows "\<exists>s st'. MultiWriterStreamToken_to_string get_id t st = Inr (s, st') \<and> store_ok st' \<and> k \<le> capacity st'"
  using foldS_total [OF assms, of "stream t" "[]"] assms
  by (auto simp: MultiWriterStreamToken_to_string_def encode_entries_def bindS_def returnS_def
      simp del: bindS_eq_Inr returnS_eq_Inr bindE_eq_Inr)

lemma room_to_string_total:
  assumes "store_ok st" and "length (instance_map t) + k \<le> capacity st"
  shows "\<exists>s st'. RoomStreamToken_to_string get_id t st = Inr (s, st') \<and> store_ok st' \<and> k \<le> capacity st'"
  using foldS_total [OF assms, of "stream t" "[]"] assms
  by (auto simp: RoomStreamToken_to_string_def encode_entries_def bindS_def returnS_def split: option.split
      simp del: bindS_eq_Inr returnS_eq_Inr bindE_eq_Inr)

lemma stream_to_string_total:
  assumes "store_ok st"
    and "length (instance_map (room_key t)) + length (instance_map (receipt_key t))
      + length (instance_map (device_list_key t)) \<le> capacity st"
  shows "\<exists>s st'. StreamToken_to_string get_id t st = Inr (s, st')"
proof -
  from room_to_string_total [OF assms(1), of "room_key t"] assms(2)
  obtain k1 st1 where 1: "RoomStreamToken_to_string get_id (room_key t) st = Inr (k1, st1)" "store_ok st1"
    "length (instance_map (receipt_key t)) + length (instance_map (device_list_key t)) \<le> capacity st1"
    by (metis add.assoc)
  from mw_to_string_total [OF 1(2,3)] obtain k2 st2 where
    2: "MultiWriterStreamToken_to_string get_id (receipt_key t) st1 = Inr (k2, st2)" "store_ok st2"
    "length (instance_map (device_list_key t)) \<le> capacity st2" by blast
  from mw_to_string_total [OF 2(2), of "device_list_key t" 0] 2(3) obtain k3 st3 where
    3: "MultiWriterStreamToken_to_string get_id (device_list_key t) st2 = Inr (k3, st3)" by auto
  show ?thesis by (simp add: StreamToken_to_string_def bindS_def returnS_def 1(1) 2(1) 3)
qed

end

text \<open>The table of instances provides this.\<close>

definition table_ok :: "instance_table \<Rightarrow> bool" where
  "table_ok tbl \<longleftrightarrow> distinct (dvalues (it_rows tbl)) \<and> dict_ok (it_rows tbl) \<and> 0 \<le> it_next tbl
     \<and> (\<forall>(n, i)\<in>set (it_rows tbl). 0 \<le> i \<and> i < it_next tbl \<and> i \<le> MAX_INSTANCE_ID)"

definition table_capacity :: "instance_table \<Rightarrow> nat" where
  "table_capacity tbl = nat (MAX_INSTANCE_ID + 1 - it_next tbl)"

lemma get_name_iff:
  assumes "table_ok tbl"
  shows "get_name_from_instance_id tbl i = Inr n \<longleftrightarrow> (n, i) \<in> set (it_rows tbl)"
proof -
  have inj: "n = n'" if "(n, i) \<in> set (it_rows tbl)" "(n', i) \<in> set (it_rows tbl)" for n n'
  proof -
    from assms have "inj_on snd (set (it_rows tbl))" by (simp add: table_ok_def dvalues_def distinct_map)
    from inj_onD [OF this _ that] show ?thesis by simp
  qed
  show ?thesis
  proof (cases "filter (\<lambda>(n, j). j = i) (it_rows tbl)")
    case Nil
    then show ?thesis by (auto simp: get_name_from_instance_id_def filter_empty_conv)
  next
    case (Cons nj rest)
    then have "nj \<in> set (filter (\<lambda>(n, j). j = i) (it_rows tbl))" by simp
    then obtain n' where "nj = (n', i)" "(n', i) \<in> set (it_rows tbl)" by auto
    with Cons inj show ?thesis by (auto simp: get_name_from_instance_id_def)
  qed
qed

lemma get_id_rows:
  assumes ok: "table_ok tbl" and eq: "get_id_for_instance n tbl = Inr (i, tbl')"
  shows "table_ok tbl' \<and> (n, i) \<in> set (it_rows tbl') \<and> set (it_rows tbl) \<subseteq> set (it_rows tbl')
    \<and> 0 \<le> i \<and> i \<le> MAX_INSTANCE_ID"
proof (cases "dget (it_rows tbl) n")
  case (Some j)
  with eq ok show ?thesis
    by (auto simp: get_id_for_instance_def table_ok_def dest: map_of_SomeD)
next
  case None
  with eq have i: "i = it_next tbl" "it_next tbl \<le> MAX_INSTANCE_ID"
    and tbl': "tbl' = \<lparr>it_rows = dset n (it_next tbl) (it_rows tbl), it_next = it_next tbl + 1\<rparr>"
    by (auto simp: get_id_for_instance_def split: if_splits)
  from None have "n \<notin> fst ` set (it_rows tbl)" by (simp add: map_of_eq_None_iff)
  then have rows: "it_rows tbl' = it_rows tbl @ [(n, it_next tbl)]" by (simp add: tbl' dset_new)
  have "it_next tbl \<notin> snd ` set (it_rows tbl)" using ok by (force simp: table_ok_def)
  with ok i \<open>n \<notin> fst ` set (it_rows tbl)\<close> have "table_ok tbl'"
    unfolding table_ok_def rows by (auto simp: dvalues_def dict_ok_def tbl')
  with ok i rows show ?thesis by (simp add: table_ok_def subset_insertI)
qed

lemma instance_id_printable: "0 \<le> i \<Longrightarrow> i \<le> MAX_INSTANCE_ID \<Longrightarrow> printable i"
  by (rule printableI [of _ 19]) (simp_all add: MAX_INSTANCE_ID_def MAX_STR_DIGITS_def)

interpretation instance_store: instance_ids_capacity get_id_for_instance get_name_from_instance_id table_ok
    table_capacity
proof
  fix st n i st'
  assume st: "table_ok st" and eq: "get_id_for_instance n st = Inr (i, st')"
  note rows = get_id_rows [OF st eq]
  show "table_ok st'" using rows by blast
  show "get_name_from_instance_id st' i = Inr n" using rows by (simp add: get_name_iff)
  show "printable i" using rows by (simp add: instance_id_printable)
  fix j k
  assume "get_name_from_instance_id st j = Inr k"
  then show "get_name_from_instance_id st' j = Inr k"
    using rows st by (auto simp: get_name_iff)
next
  fix st k n
  assume st: "table_ok st" and cap: "Suc k \<le> table_capacity st"
  show "\<exists>i st'. get_id_for_instance n st = Inr (i, st') \<and> k \<le> table_capacity st'"
  proof (cases "dget (it_rows st) n")
    case None
    with cap show ?thesis by (auto simp: get_id_for_instance_def table_capacity_def)
  qed (use cap in \<open>auto simp: get_id_for_instance_def\<close>)
qed

text \<open>
  C40. Tokens survive the client. For a valid token and a table of instances that can still number
  as many instances as the token names, printing succeeds, and parsing what was printed gives back
  exactly the token; the table stays consistent.
\<close>

theorem stream_token_printed_and_parsed:
  assumes tbl: "table_ok tbl" and t: "stream_token_ok t"
    and cap: "length (instance_map (room_key t)) + length (instance_map (receipt_key t))
      + length (instance_map (device_list_key t)) \<le> table_capacity tbl"
  shows "\<exists>s tbl'. StreamToken_to_string get_id_for_instance t tbl = Inr (s, tbl') \<and> table_ok tbl'
    \<and> StreamToken_from_string (get_name_from_instance_id tbl') s = Inr t"
proof -
  from instance_store.stream_to_string_total [OF tbl cap] obtain s tbl' where
    out: "StreamToken_to_string get_id_for_instance t tbl = Inr (s, tbl')" by blast
  from instance_store.stream_token_roundtrip [OF out tbl t] out show ?thesis by blast
qed

definition sample_token :: stream_token where
  "sample_token = StreamToken_START\<lparr>room_key := \<lparr>stream = 56, instance_map = [(''w2'', 58)], topological = None\<rparr>\<rparr>"

theorem stream_token_printed_and_parsed_witness:
  "\<exists>s tbl'. StreamToken_to_string get_id_for_instance sample_token \<lparr>it_rows = [(''w1'', 1)], it_next = 2\<rparr> = Inr (s, tbl')
    \<and> table_ok tbl' \<and> StreamToken_from_string (get_name_from_instance_id tbl') s = Inr sample_token"
proof (rule stream_token_printed_and_parsed)
  show "table_ok \<lparr>it_rows = [(''w1'', 1)], it_next = 2\<rparr>" by code_simp
  show "stream_token_ok sample_token" by code_simp
  show "length (instance_map (room_key sample_token)) + length (instance_map (receipt_key sample_token))
      + length (instance_map (device_list_key sample_token)) \<le> table_capacity \<lparr>it_rows = [(''w1'', 1)], it_next = 2\<rparr>"
    by (simp add: sample_token_def StreamToken_START_def table_capacity_def MAX_INSTANCE_ID_def)
qed

text \<open>
  Parsing client input. \<open>StreamToken.from_string\<close> turns every malformed token into the error
  400 for the client, but \<open>RoomStreamToken.parse\<close> on its own raises \<open>ValueError\<close>, from the format
  string of its own error message, for every string that does not start like a token.
\<close>

theorem token_parse_errors:
  "(StreamToken_from_string get_name s = Inl e \<longrightarrow> e = SynapseError 400 ''Invalid stream token'')
   \<and> (RoomStreamToken_parse get_name s = Inl e \<longrightarrow>
       e = (if s \<noteq> [] \<and> hd s \<in> {CHR ''s'', CHR ''t'', CHR ''m''}
            then SynapseError 400 ''Invalid room stream token'' else ValueError))"
proof
  show "StreamToken_from_string get_name s = Inl e \<longrightarrow> e = SynapseError 400 ''Invalid stream token''"
    unfolding StreamToken_from_string_def catch_all_Inl by blast
  show "RoomStreamToken_parse get_name s = Inl e \<longrightarrow>
       e = (if s \<noteq> [] \<and> hd s \<in> {CHR ''s'', CHR ''t'', CHR ''m''}
            then SynapseError 400 ''Invalid room stream token'' else ValueError)"
    by (cases s) (auto simp: RoomStreamToken_parse_def catch_all_Inl)
qed

theorem token_parse_errors_witness:
  "RoomStreamToken_parse (\<lambda>_. Inl (PyException ''StoreError'')) ''x5'' = Inl ValueError"
proof -
  obtain e where e: "RoomStreamToken_parse (\<lambda>_. Inl (PyException ''StoreError'')) ''x5'' = Inl e"
    by (simp add: RoomStreamToken_parse_def)
  with token_parse_errors [of "\<lambda>_. Inl (PyException ''StoreError'')" "''x5''" e] show ?thesis by auto
qed

end
