(* ===== verification/Topological_Sort.thy ===== *)
theory Topological_Sort
  imports Prelude "HOL-Library.Multiset"
begin

text \<open>
  \<open>lexicographical_topological_sort\<close> of \<open>state/v2.py\<close>: Kahn's algorithm on nodes without outgoing
  edges, with a priority queue. The heap of \<open>heapq\<close> is the sorted list of its elements: only
  its minimum is ever observed. The sets of the graph are lists without duplicates; the sort is
  shown not to depend on their order, nor on the order of the dictionary.

  The loop may run once for every node; its fuel is one more than the number of nodes, which is
  shown to be enough for every graph.
\<close>

section \<open>The sort\<close>

type_synonym 'n graph = "('n, 'n list) pydict"

definition add_reverse_edge :: "'n \<Rightarrow> 'n \<Rightarrow> 'n graph \<Rightarrow> 'n graph" where
  "add_reverse_edge node edge reverse_graph =
     dset edge (set_add node (case dget reverse_graph edge of None \<Rightarrow> [] | Some l \<Rightarrow> l)) reverse_graph"

text \<open>One iteration of the loop that builds the reverse graph and the nodes of degree zero.\<close>

definition index_node :: "('n \<Rightarrow> 'k) \<Rightarrow> 'n \<times> 'n list \<Rightarrow> ('k \<times> 'n) list \<times> 'n graph
    \<Rightarrow> ('k \<times> 'n) list \<times> 'n graph" where
  "index_node key item acc = (case (item, acc) of ((node, edges), (zero_outdegree, reverse_graph)) \<Rightarrow>
     (if edges = [] then zero_outdegree @ [(key node, node)] else zero_outdegree,
      fold (add_reverse_edge node) edges
        (case dget reverse_graph node of None \<Rightarrow> dset node [] reverse_graph | Some _ \<Rightarrow> reverse_graph)))"

text \<open>The body of the loop over the parents of a node that was taken from the heap.\<close>

definition relax_parent :: "('n \<Rightarrow> 'k::linorder) \<Rightarrow> 'n::linorder \<Rightarrow> 'n
    \<Rightarrow> ('k \<times> 'n) list \<times> 'n graph \<Rightarrow> (('k \<times> 'n) list \<times> 'n graph) res" where
  "relax_parent key node parent acc = (case acc of (zero_outdegree, outdegree_map) \<Rightarrow>
     bindE (optE KeyError (dget outdegree_map parent)) (\<lambda>out0.
       let out = filter (\<lambda>n. n \<noteq> node) out0 in
       Inr (if out = [] then insort (key parent, parent) zero_outdegree else zero_outdegree,
            dset parent out outdegree_map)))"

fun kahn_loop :: "nat \<Rightarrow> ('n \<Rightarrow> 'k::linorder) \<Rightarrow> 'n::linorder graph \<Rightarrow> ('k \<times> 'n) list \<Rightarrow> 'n graph
    \<Rightarrow> 'n list res option" where
  "kahn_loop fuel key reverse_graph [] outdegree_map = Some (Inr [])"
| "kahn_loop 0 key reverse_graph (z # zs) outdegree_map = None"
| "kahn_loop (Suc fuel) key reverse_graph ((k, node) # zs) outdegree_map =
     (case bindE (optE KeyError (dget reverse_graph node)) (\<lambda>parents.
             foldE (relax_parent key node) parents (zs, outdegree_map)) of
        Inl e \<Rightarrow> Some (Inl e)
      | Inr (zero_outdegree, outdegree_map') \<Rightarrow>
          map_option (\<lambda>r. bindE r (\<lambda>rest. Inr (node # rest)))
            (kahn_loop fuel key reverse_graph zero_outdegree outdegree_map'))"

definition lexicographical_topological_sort :: "'n::linorder graph \<Rightarrow> ('n \<Rightarrow> 'k::linorder) \<Rightarrow> 'n list res" where
  "lexicographical_topological_sort graph key =
     (case fold (index_node key) graph ([], []) of (zero_outdegree, reverse_graph) \<Rightarrow>
        (case kahn_loop (Suc (length graph)) key reverse_graph (sort zero_outdegree) graph of
           Some r \<Rightarrow> r
         | None \<Rightarrow> Inl (PyException ''fuel'')))"

section \<open>The specification\<close>

text \<open>
  The greedy order: from the nodes whose edges all lead to nodes that are already out, take the
  one with the least key (and the least node among those with that key), as long as there is one.
\<close>

definition edges_of :: "'n graph \<Rightarrow> 'n \<Rightarrow> 'n set" where
  "edges_of g n = (case dget g n of None \<Rightarrow> {} | Some l \<Rightarrow> set l)"

definition ready :: "'n graph \<Rightarrow> 'n set \<Rightarrow> 'n \<Rightarrow> bool" where
  "ready g out n \<longleftrightarrow> n \<in> set (dkeys g) \<and> n \<notin> out \<and> edges_of g n \<subseteq> out"

inductive greedy :: "'n::linorder graph \<Rightarrow> ('n \<Rightarrow> 'k::linorder) \<Rightarrow> 'n set \<Rightarrow> 'n list \<Rightarrow> bool"
  for g key where
  stop: "\<forall>n. \<not> ready g out n \<Longrightarrow> greedy g key out []"
| step: "ready g out n \<Longrightarrow> \<forall>m. ready g out m \<longrightarrow> (key n, n) \<le> (key m, m) \<Longrightarrow>
    greedy g key (insert n out) rest \<Longrightarrow> greedy g key out (n # rest)"

inductive_cases greedy_NilE: "greedy g key out []"
inductive_cases greedy_ConsE: "greedy g key out (n # rest)"

lemma greedy_deterministic: "greedy g key out xs \<Longrightarrow> greedy g key out ys \<Longrightarrow> xs = ys"
proof (induction out xs arbitrary: ys rule: greedy.induct)
  case (stop out)
  then show ?case by (cases ys) (auto elim: greedy_ConsE)
next
  case (step out n rest)
  from step.prems obtain m ys' where ys: "ys = m # ys'"
    using step.hyps(1) by (cases ys) (auto elim: greedy_NilE)
  with step.prems have m: "ready g out m" "\<forall>k. ready g out k \<longrightarrow> (key m, m) \<le> (key k, k)"
    and rest: "greedy g key (insert m out) ys'" by (auto elim: greedy_ConsE)
  with step.hyps(1,2) have "(key n, n) = (key m, m)" by (meson antisym)
  with step.IH rest ys show ?case by simp
qed

text \<open>Only the sets of nodes and edges matter.\<close>

lemma greedy_cong:
  assumes "greedy g key out xs" and "\<And>n. n \<in> set (dkeys g) \<longleftrightarrow> n \<in> set (dkeys g')"
    and "\<And>n. edges_of g n = edges_of g' n"
  shows "greedy g' key out xs"
proof -
  have "ready g' = ready g" using assms(2,3) by (auto simp: fun_eq_iff ready_def)
  with assms(1) show ?thesis
    by (induction rule: greedy.induct) (auto intro: greedy.intros)
qed

lemma greedy_sound:
  assumes "greedy g key out xs"
  shows "distinct xs \<and> set xs \<inter> out = {} \<and> set xs \<subseteq> set (dkeys g)
    \<and> (\<forall>ys n zs. xs = ys @ n # zs \<longrightarrow> edges_of g n \<subseteq> out \<union> set ys)
    \<and> (\<forall>n. \<not> ready g (out \<union> set xs) n)"
  using assms
proof (induction rule: greedy.induct)
  case (step out n rest)
  have "edges_of g m \<subseteq> out \<union> set ys" if "n # rest = ys @ m # zs" for ys m zs
  proof (cases ys)
    case Nil
    with that step.hyps(1) show ?thesis by (auto simp: ready_def)
  next
    case (Cons y ys')
    with that have "y = n" "rest = ys' @ m # zs" by simp_all
    moreover from this(2) step.IH have "edges_of g m \<subseteq> insert n out \<union> set ys'" by blast
    ultimately show ?thesis using Cons by auto
  qed
  with step.hyps(1) step.IH show ?case by (auto simp: ready_def)
qed simp

section \<open>The sort is greedy\<close>

lemma relax_parents:
  assumes "distinct ps" and "\<forall>p\<in>set ps. dget om p \<noteq> None" and "sorted zs" and "dict_ok om"
  obtains zs' om' where "foldE (relax_parent key node) ps (zs, om) = Inr (zs', om')"
    and "sorted zs'" and "dict_ok om'"
    and "mset zs' = mset zs + mset (map (\<lambda>p. (key p, p)) (filter (\<lambda>p. set (the (dget om p)) \<subseteq> {node}) ps))"
    and "\<And>n. dget om' n = (if n \<in> set ps then map_option (filter (\<lambda>m. m \<noteq> node)) (dget om n) else dget om n)"
  using assms
proof (induction ps arbitrary: zs om thesis)
  case Nil
  show ?case by (rule Nil.prems(1) [of zs om]) (simp_all add: Nil.prems(4,5))
next
  case (Cons p ps)
  from Cons.prems(3) obtain out0 where out0: "dget om p = Some out0" by auto
  let ?out = "filter (\<lambda>n. n \<noteq> node) out0"
  let ?zs = "if ?out = [] then insort (key p, p) zs else zs"
  let ?om = "dset p ?out om"
  have step: "relax_parent key node p (zs, om) = Inr (?zs, ?om)"
    by (simp add: relax_parent_def out0)
  have empty: "?out = [] \<longleftrightarrow> set out0 \<subseteq> {node}" by (auto simp: filter_empty_conv)
  have ih: "distinct ps" "\<forall>q\<in>set ps. dget ?om q \<noteq> None" "sorted ?zs" "dict_ok ?om"
    using Cons.prems by (auto simp: sorted_insort)
  obtain zs' om' where r: "foldE (relax_parent key node) ps (?zs, ?om) = Inr (zs', om')"
    and s: "sorted zs'" "dict_ok om'"
    and z: "mset zs' = mset ?zs + mset (map (\<lambda>p. (key p, p)) (filter (\<lambda>p. set (the (dget ?om p)) \<subseteq> {node}) ps))"
    and o: "\<And>n. dget om' n = (if n \<in> set ps then map_option (filter (\<lambda>m. m \<noteq> node)) (dget ?om n) else dget ?om n)"
    using Cons.IH [OF _ ih] by blast
  have "filter (\<lambda>q. set (the (dget ?om q)) \<subseteq> {node}) ps = filter (\<lambda>q. set (the (dget om q)) \<subseteq> {node}) ps"
    using Cons.prems(2) by (intro filter_cong) auto
  from z [unfolded this] empty out0 have "mset zs' = mset zs + mset (map (\<lambda>p. (key p, p))
      (filter (\<lambda>q. set (the (dget om q)) \<subseteq> {node}) (p # ps)))" by simp
  moreover have "dget om' n = (if n \<in> set (p # ps) then map_option (filter (\<lambda>m. m \<noteq> node)) (dget om n) else dget om n)" for n
    using o [of n] out0 Cons.prems(2) by auto
  ultimately show ?case using s r step by (intro Cons.prems(1) [of zs' om']) auto
qed

text \<open>The reverse graph and the first heap.\<close>

definition rev_ok :: "'n graph \<Rightarrow> bool" where
  "rev_ok r \<longleftrightarrow> dict_ok r \<and> (\<forall>n l. dget r n = Some l \<longrightarrow> distinct l)"

lemma rev_ok_dset: "rev_ok r \<Longrightarrow> distinct l \<Longrightarrow> rev_ok (dset n l r)"
  unfolding rev_ok_def by (metis dget_dset dict_ok_dset fun_upd_apply option.inject)

lemma add_reverse_edge:
  assumes "rev_ok r"
  shows "rev_ok (add_reverse_edge node e r)"
    and "edges_of (add_reverse_edge node e r) n = edges_of r n \<union> (if n = e then {node} else {})"
    and "dget (add_reverse_edge node e r) n \<noteq> None \<longleftrightarrow> dget r n \<noteq> None \<or> n = e"
proof -
  have D: "distinct l" if "dget r e = Some l" for l using assms that unfolding rev_ok_def by blast
  have "distinct (case dget r e of None \<Rightarrow> [] | Some l \<Rightarrow> l)" by (auto split: option.split intro: D)
  with assms show "rev_ok (add_reverse_edge node e r)"
    unfolding add_reverse_edge_def by (intro rev_ok_dset distinct_set_add)
qed (auto simp: add_reverse_edge_def edges_of_def split: option.splits)

lemma add_reverse_edges:
  "rev_ok r \<Longrightarrow> rev_ok (fold (add_reverse_edge node) es r)
     \<and> (\<forall>n. edges_of (fold (add_reverse_edge node) es r) n = edges_of r n \<union> (if n \<in> set es then {node} else {}))
     \<and> (\<forall>n. dget (fold (add_reverse_edge node) es r) n \<noteq> None \<longleftrightarrow> dget r n \<noteq> None \<or> n \<in> set es)"
proof (induction es arbitrary: r)
  case (Cons e es)
  from Cons.IH [OF add_reverse_edge(1) [OF Cons.prems], of node e]
    add_reverse_edge(2,3) [OF Cons.prems, of node e] show ?case by auto
qed simp

text \<open>What the loop over the graph has computed after the items \<open>g\<close>.\<close>

lemma index_nodes:
  assumes "dict_ok (g @ h)" and "fold (index_node key) g ([], []) = (z, r)"
  shows "rev_ok r \<and> (\<forall>n. n \<in> set (dkeys g) \<longrightarrow> dget r n \<noteq> None)
    \<and> (\<forall>n. edges_of r n = {p. \<exists>es. (p, es) \<in> set g \<and> n \<in> set es})
    \<and> z = map (\<lambda>(n, es). (key n, n)) (filter (\<lambda>(n, es). es = []) g)"
  using assms
proof (induction g arbitrary: h z r rule: rev_induct)
  case Nil
  then show ?case by (auto simp: rev_ok_def edges_of_def dkeys_def)
next
  case (snoc it g)
  obtain node es where it: "it = (node, es)" by (cases it)
  obtain z0 r0 where zr: "fold (index_node key) g ([], []) = (z0, r0)" by fastforce
  from snoc.prems(1) have "dict_ok (g @ it # h)" by simp
  note ih = snoc.IH [OF this zr]
  define r1 where "r1 = (case dget r0 node of None \<Rightarrow> dset node [] r0 | Some _ \<Rightarrow> r0)"
  have r1: "rev_ok r1" "\<And>n. edges_of r1 n = edges_of r0 n"
    "\<And>n. dget r1 n \<noteq> None \<longleftrightarrow> dget r0 n \<noteq> None \<or> n = node"
    using conjunct1 [OF ih] by (auto simp: r1_def edges_of_def rev_ok_dset split: option.splits)
  from snoc.prems(2) zr have "index_node key it (z0, r0) = (z, r)" by simp
  with it have z: "z = (if es = [] then z0 @ [(key node, node)] else z0)"
    and r: "r = fold (add_reverse_edge node) es r1"
    by (auto simp: index_node_def r1_def)
  note rev = add_reverse_edges [OF r1(1), of node es, folded r]
  have "edges_of r n = {p. \<exists>es. (p, es) \<in> set (g @ [it]) \<and> n \<in> set es}" for n
    using rev ih r1(2) by (auto simp: it)
  with rev ih r1(3) show ?case by (auto simp: it z dkeys_def)
qed

text \<open>
  The invariant of the loop when the nodes \<open>out\<close> have been yielded: the heap holds exactly the
  nodes that are ready, and the degrees count the edges to nodes that are not out yet.
\<close>

definition kahn_inv :: "'n::linorder graph \<Rightarrow> ('n \<Rightarrow> 'k::linorder) \<Rightarrow> 'n set \<Rightarrow> ('k \<times> 'n) list \<Rightarrow> 'n graph \<Rightarrow> bool" where
  "kahn_inv g key out zs om \<longleftrightarrow> sorted zs \<and> distinct zs \<and> set zs = (\<lambda>n. (key n, n)) ` Collect (ready g out)
     \<and> dict_ok om \<and> (\<forall>n. dget om n = map_option (filter (\<lambda>m. m \<notin> out)) (dget g n))
     \<and> out \<subseteq> set (dkeys g) \<and> (\<forall>n\<in>out. edges_of g n \<subseteq> out)"

definition rev_of :: "'n graph \<Rightarrow> 'n graph \<Rightarrow> bool" where
  "rev_of g r \<longleftrightarrow> rev_ok r \<and> (\<forall>n\<in>set (dkeys g). dget r n \<noteq> None)
     \<and> (\<forall>n. edges_of r n = {p. n \<in> edges_of g p})"

lemma edges_key: "m \<in> edges_of g n \<Longrightarrow> n \<in> set (dkeys g)"
  by (auto simp: edges_of_def dkeys_def split: option.splits dest: map_of_SomeD intro: rev_image_eqI)

lemma kahn_inv_edges:
  assumes "kahn_inv g key out zs om" and "n \<in> set (dkeys g)"
  shows "dget om n \<noteq> None" and "set (the (dget om n)) = edges_of g n - out"
proof -
  from assms(2) obtain l where "dget g n = Some l" using dget_None_iff [of g n] by auto
  with assms(1) show "dget om n \<noteq> None" and "set (the (dget om n)) = edges_of g n - out"
    by (auto simp: kahn_inv_def edges_of_def)
qed

lemma kahn_step:
  assumes inv: "kahn_inv g key out ((k, node) # zs) om" and rev: "rev_of g r"
  obtains ps zs' om' where "dget r node = Some ps"
    and "foldE (relax_parent key node) ps (zs, om) = Inr (zs', om')"
    and "kahn_inv g key (insert node out) zs' om'"
    and "ready g out node" and "\<forall>m. ready g out m \<longrightarrow> (key node, node) \<le> (key m, m)"
proof -
  have zset: "set ((k, node) # zs) = (\<lambda>n. (key n, n)) ` Collect (ready g out)"
    using inv by (simp add: kahn_inv_def)
  then have "(k, node) \<in> (\<lambda>n. (key n, n)) ` Collect (ready g out)" by auto
  then have node: "ready g out node" and k: "k = key node" by auto
  have "(key node, node) \<le> (key m, m)" if "ready g out m" for m
  proof -
    have "(key m, m) \<in> set ((k, node) # zs)" using that unfolding zset by blast
    moreover have "\<forall>x\<in>set ((k, node) # zs). (k, node) \<le> x"
      using inv unfolding kahn_inv_def by (metis order_refl set_ConsD sorted_simps(2))
    ultimately show ?thesis unfolding k by blast
  qed
  then have least: "\<forall>m. ready g out m \<longrightarrow> (key node, node) \<le> (key m, m)" by blast
  have "dget r node \<noteq> None" using rev node unfolding rev_of_def ready_def by blast
  then obtain ps where ps: "dget r node = Some ps" by blast
  moreover have "distinct ps" using rev calculation unfolding rev_of_def rev_ok_def by blast
  ultimately have ps: "dget r node = Some ps" "distinct ps" by blast+
  have "edges_of r node = set ps" by (simp add: edges_of_def ps(1))
  then have mem: "p \<in> set ps \<longleftrightarrow> node \<in> edges_of g p" for p
    using rev unfolding rev_of_def by blast
  have dom: "\<forall>p\<in>set ps. dget om p \<noteq> None"
  proof
    fix p assume "p \<in> set ps"
    then have "p \<in> set (dkeys g)" using mem [of p] edges_key [of node g p] by simp
    then show "dget om p \<noteq> None" by (rule kahn_inv_edges(1) [OF inv])
  qed
  have zs: "sorted zs" "distinct zs" "(k, node) \<notin> set zs" and om: "dict_ok om"
    using inv by (simp_all add: kahn_inv_def)
  let ?new = "map (\<lambda>p. (key p, p)) (filter (\<lambda>p. set (the (dget om p)) \<subseteq> {node}) ps)"
  obtain zs' om' where fold: "foldE (relax_parent key node) ps (zs, om) = Inr (zs', om')"
    and s: "sorted zs'" "dict_ok om'" and z: "mset zs' = mset zs + mset ?new"
    and o: "\<And>n. dget om' n = (if n \<in> set ps then map_option (filter (\<lambda>m. m \<noteq> node)) (dget om n) else dget om n)"
    using relax_parents [OF ps(2) dom zs(1) om] by blast
  have nout: "node \<notin> out" and nedges: "edges_of g node \<subseteq> out" using node by (auto simp: ready_def)
  have new: "set ?new = (\<lambda>n. (key n, n)) ` {p. node \<in> edges_of g p \<and> edges_of g p \<subseteq> insert node out}"
  proof -
    have "set (the (dget om p)) \<subseteq> {node} \<longleftrightarrow> edges_of g p \<subseteq> insert node out" if "node \<in> edges_of g p" for p
      using kahn_inv_edges(2) [OF inv edges_key [OF that]] by auto
    with mem show ?thesis by auto
  qed
  have z': "mset zs' = mset (zs @ ?new)" using z by simp
  have old: "set zs = (\<lambda>n. (key n, n)) ` {n. ready g out n \<and> n \<noteq> node}"
    using zset zs(3) k by auto
  have "distinct (zs @ ?new)"
    using zs(2) ps(2) nout unfolding distinct_append new old
    by (auto simp: distinct_map inj_on_def ready_def)
  then have dist: "distinct zs'" using mset_eq_imp_distinct_iff [OF z'] by simp
  have "{n. ready g out n \<and> n \<noteq> node} \<union> {p. node \<in> edges_of g p \<and> edges_of g p \<subseteq> insert node out}
      = Collect (ready g (insert node out))"
  proof -
    from inv have closed: "\<forall>n\<in>out. edges_of g n \<subseteq> out" by (simp add: kahn_inv_def)
    have "(ready g out n \<and> n \<noteq> node \<or> node \<in> edges_of g n \<and> edges_of g n \<subseteq> insert node out)
        \<longleftrightarrow> ready g (insert node out) n" for n
    proof (cases "node \<in> edges_of g n")
      case True
      with edges_key [OF True] nout nedges closed show ?thesis unfolding ready_def by blast
    qed (unfold ready_def, blast)
    then show ?thesis by blast
  qed
  then have set': "set zs' = (\<lambda>n. (key n, n)) ` Collect (ready g (insert node out))"
    unfolding mset_eq_setD [OF z'] set_append new old image_Un [symmetric] by (rule arg_cong)
  have om': "dget om' n = map_option (filter (\<lambda>m. m \<notin> insert node out)) (dget g n)" for n
  proof (cases "dget g n")
    case (Some l)
    have "filter (\<lambda>m. m \<notin> out) l = filter (\<lambda>m. m \<noteq> node \<and> m \<notin> out) l" if "n \<notin> set ps"
      using that mem Some by (intro filter_cong) (auto simp: edges_of_def)
    with Some inv o [of n] show ?thesis by (simp add: kahn_inv_def conj_commute)
  qed (use o [of n] inv in \<open>simp add: kahn_inv_def\<close>)
  have inv': "kahn_inv g key (insert node out) zs' om'"
    using s dist set' om' inv node nedges by (auto simp: kahn_inv_def ready_def)
  show ?thesis by (rule that [OF ps(1) fold inv' node least])
qed

lemma kahn_loop_greedy:
  assumes "kahn_inv g key out zs om" and "rev_of g r" and "card (set (dkeys g) - out) \<le> fuel"
  shows "\<exists>xs. kahn_loop fuel key r zs om = Some (Inr xs) \<and> greedy g key out xs"
  using assms
proof (induction fuel arbitrary: out zs om)
  case 0
  from 0(3) have "set (dkeys g) - out = {}" by simp
  then have no: "\<not> ready g out n" for n unfolding ready_def by blast
  then have "Collect (ready g out) = {}" by simp
  with 0(1) have "set zs = {}" unfolding kahn_inv_def by simp
  then have "zs = []" by simp
  then have "kahn_loop 0 key r zs om = Some (Inr [])" by simp
  with greedy.stop [of g out key] no show ?case by blast
next
  case (Suc fuel)
  show ?case
  proof (cases zs)
    case Nil
    with Suc.prems(1) have "\<not> ready g out n" for n by (auto simp: kahn_inv_def)
    with Nil show ?thesis by (auto intro: greedy.stop)
  next
    case (Cons z zs0)
    obtain k node where z: "z = (k, node)" by (cases z)
    obtain ps zs' om' where ps: "dget r node = Some ps"
      and fold: "foldE (relax_parent key node) ps (zs0, om) = Inr (zs', om')"
      and inv: "kahn_inv g key (insert node out) zs' om'"
      and node: "ready g out node" "\<forall>m. ready g out m \<longrightarrow> (key node, node) \<le> (key m, m)"
      using kahn_step [OF Suc.prems(1) [unfolded Cons z] Suc.prems(2)] .
    have mem: "node \<in> set (dkeys g) - out" using node(1) by (simp add: ready_def)
    have "set (dkeys g) - insert node out = (set (dkeys g) - out) - {node}" by blast
    then have "card (set (dkeys g) - insert node out) \<le> fuel"
      using card_Diff_singleton [OF mem] Suc.prems(3) by simp
    from Suc.IH [OF inv Suc.prems(2) this] obtain xs where
      xs: "kahn_loop fuel key r zs' om' = Some (Inr xs)" "greedy g key (insert node out) xs" by blast
    with Cons z ps fold node show ?thesis by (auto intro: greedy.step)
  qed
qed

lemma sort_start:
  assumes g: "dict_ok g" and eq: "fold (index_node key) g ([], []) = (z, r)"
  shows "rev_of g r" and "kahn_inv g key {} (sort z) g"
proof -
  from index_nodes [of g "[]" key z r] g eq have r: "rev_ok r" "\<forall>n. n \<in> set (dkeys g) \<longrightarrow> dget r n \<noteq> None"
    "\<forall>n. edges_of r n = {p. \<exists>es. (p, es) \<in> set g \<and> n \<in> set es}"
    and z: "z = map (\<lambda>(n, es). (key n, n)) (filter (\<lambda>(n, es). es = []) g)"
    by simp_all
  have "n \<in> edges_of g p \<longleftrightarrow> (\<exists>es. (p, es) \<in> set g \<and> n \<in> set es)" for n p
  proof -
    have "n \<in> edges_of g p \<longleftrightarrow> (\<exists>es. dget g p = Some es \<and> n \<in> set es)"
      by (simp add: edges_of_def split: option.splits)
    then show ?thesis using dget_iff_mem [OF g] by metis
  qed
  with r show "rev_of g r" by (simp add: rev_of_def)
  have zero: "ready g {} n \<longleftrightarrow> (n, []) \<in> set g" for n
  proof -
    have "n \<in> set (dkeys g) \<longleftrightarrow> dget g n \<noteq> None" by (simp add: dget_None_iff)
    then show ?thesis
      by (auto simp: ready_def edges_of_def dget_iff_mem [OF g, symmetric] split: option.splits)
  qed
  have "distinct z" using g unfolding z
    by (auto simp: dict_ok_def distinct_map inj_on_def intro!: distinct_filter)
  moreover have "set z = (\<lambda>n. (key n, n)) ` Collect (ready g {})"
    unfolding z zero by force
  ultimately show "kahn_inv g key {} (sort z) g"
    using g filter_True by (simp add: kahn_inv_def option.map_ident_strong)
qed

lemma sort_is_greedy:
  assumes "dict_ok g"
  shows "\<exists>xs. lexicographical_topological_sort g key = Inr xs \<and> greedy g key {} xs"
proof -
  obtain z r where eq: "fold (index_node key) g ([], []) = (z, r)" by fastforce
  have "card (set (dkeys g) - {}) \<le> Suc (length g)"
    using card_length [of "dkeys g"] by (simp add: dkeys_def)
  from kahn_loop_greedy [OF sort_start(2) [OF assms eq] sort_start(1) [OF assms eq] this]
  show ?thesis by (auto simp: lexicographical_topological_sort_def eq)
qed

section \<open>Properties\<close>

text \<open>A graph in which every chain of edges ends, and whose edges lead to nodes of the graph.\<close>

definition well_founded :: "'n graph \<Rightarrow> bool" where
  "well_founded g \<longleftrightarrow> (\<forall>n\<in>set (dkeys g). edges_of g n \<subseteq> set (dkeys g))
     \<and> wf {(m, n). n \<in> set (dkeys g) \<and> m \<in> edges_of g n}"

lemma greedy_complete:
  assumes "greedy g key {} xs" and "well_founded g"
  shows "set xs = set (dkeys g)"
proof -
  note sound = greedy_sound [OF assms(1)]
  have "n \<in> set (dkeys g) \<longrightarrow> n \<in> set xs" for n
  proof (induction n rule: wf_induct_rule [OF conjunct2 [OF assms(2) [unfolded well_founded_def]]])
    case (1 n)
    show ?case
    proof
      assume n: "n \<in> set (dkeys g)"
      with 1 assms(2) have "edges_of g n \<subseteq> set xs" unfolding well_founded_def by blast
      with n sound show "n \<in> set xs" by (auto simp: ready_def)
    qed
  qed
  with sound show ?thesis by blast
qed

text \<open>
  C10. The topological sort. On a well-founded graph the sort ends without an error, yields every
  node exactly once, and yields a node after all nodes that its edges lead to; whenever it yields
  a node, no node that could come next has a smaller key.
\<close>

theorem topological_sort_correct:
  assumes ok: "dict_ok g" and wf: "well_founded g"
  shows "\<exists>xs. lexicographical_topological_sort g key = Inr xs
    \<and> distinct xs \<and> set xs = set (dkeys g)
    \<and> (\<forall>ys n zs. xs = ys @ n # zs \<longrightarrow> edges_of g n \<subseteq> set ys)
    \<and> greedy g key {} xs"
proof -
  obtain xs where xs: "lexicographical_topological_sort g key = Inr xs" "greedy g key {} xs"
    using sort_is_greedy [OF ok] by blast
  with greedy_sound [OF xs(2)] greedy_complete [OF xs(2) wf] show ?thesis by auto
qed

lemma sample_graph_wf: "well_founded [(1::nat, [2, 3]), (2, [3]), (3, [])]"
proof -
  have "{(m, n). n \<in> set (dkeys [(1::nat, [2, 3]), (2, [3]), (3, [])])
      \<and> m \<in> edges_of [(1::nat, [2, 3]), (2, [3]), (3, [])] n} \<subseteq> measure (\<lambda>n. 3 - n)"
    by (auto simp: dkeys_def edges_of_def split: if_splits)
  from wf_subset [OF wf_measure this] show ?thesis
    unfolding well_founded_def by (intro conjI) (simp add: dkeys_def edges_of_def)
qed

theorem topological_sort_correct_witness:
  "\<exists>xs. lexicographical_topological_sort [(1::nat, [2, 3]), (2, [3]), (3, [])] (\<lambda>n. n) = Inr xs
     \<and> set xs = {1, 2, 3}"
proof -
  have "dict_ok [(1::nat, [2, 3]), (2, [3]), (3, [])]" by (simp add: dict_ok_def)
  from topological_sort_correct [OF this sample_graph_wf, of "\<lambda>n. n"] show ?thesis
    by (auto simp: dkeys_def)
qed

text \<open>
  The sort is deterministic. Its result depends on the graph only as a relation: neither the
  order of the dictionary nor the iteration order of the sets matters, so that servers which
  hold the same events sort them in the same way.
\<close>

theorem topological_sort_order_independent:
  assumes "dict_ok g" and "dict_ok g'"
    and "\<forall>n. (n \<in> set (dkeys g) \<longleftrightarrow> n \<in> set (dkeys g')) \<and> edges_of g n = edges_of g' n"
  shows "lexicographical_topological_sort g key = lexicographical_topological_sort g' key"
proof -
  obtain xs ys where xs: "lexicographical_topological_sort g key = Inr xs" "greedy g key {} xs"
    and ys: "lexicographical_topological_sort g' key = Inr ys" "greedy g' key {} ys"
    using sort_is_greedy [OF assms(1)] sort_is_greedy [OF assms(2)] by metis
  from greedy_cong [OF xs(2)] assms(3) have "greedy g' key {} xs" by blast
  from greedy_deterministic [OF this ys(2)] have "xs = ys" .
  with xs ys show ?thesis by simp
qed

theorem topological_sort_order_independent_witness:
  "lexicographical_topological_sort [(1::nat, [2, 3]), (2, []), (3, [])] (\<lambda>n. n)
   = lexicographical_topological_sort [(3, []), (1, [3, 2]), (2, [])] (\<lambda>n. n)"
  by (rule topological_sort_order_independent) (auto simp: dict_ok_def dkeys_def edges_of_def)

end
