(* ===== verification/Event_Utils.thy ===== *)
theory Event_Utils
  imports Sample_Room
begin

text \<open>
  \<open>events/utils.py\<close>: the redaction of events, the selection of fields of an event by dotted
  paths, the formats for clients, the repair of power levels and the checks of JSON values, with
  the properties of each. Event dictionaries are JSON objects as they were received.
\<close>

section \<open>Redaction\<close>

definition EventTypes_RoomHistoryVisibility :: string where [const_defs]:
  "EventTypes_RoomHistoryVisibility = ''m.room.history_visibility''"

text \<open>\<open>d[k] = v\<close>\<close>

fun json_setitem :: "json \<Rightarrow> string \<Rightarrow> json \<Rightarrow> json res" where
  "json_setitem (JDict d) k v = Inr (JDict (dset k v d))"
| "json_setitem _ k v = Inl TypeError"

text \<open>
  \<open>event_dict["content"]\<close> is looked up again at every access, so that it is an argument of type
  \<open>json res\<close>: without a content only the events whose content is read raise \<open>KeyError\<close>.
\<close>

definition add_field :: "json res \<Rightarrow> string \<Rightarrow> json \<Rightarrow> json res" where
  "add_field content field new_content =
     bindE content (\<lambda>c. bindE (py_contains c (JStr field)) (\<lambda>present.
       if present
       then bindE (py_getitem c (JStr field)) (\<lambda>v. json_setitem new_content field v)
       else Inr new_content))"

definition add_fields :: "json res \<Rightarrow> string list \<Rightarrow> json \<Rightarrow> json res" where
  "add_fields content names new_content = foldE (add_field content) names new_content"

definition POWER_LEVELS_FIELDS :: "string list" where
  "POWER_LEVELS_FIELDS = [''users'', ''users_default'', ''events'', ''events_default'',
     ''state_default'', ''ban'', ''kick'', ''redact'']"

text \<open>The \<open>signed\<close> entry of a third party invite, without the rest.\<close>

definition prune_third_party_invite :: "json res \<Rightarrow> json \<Rightarrow> json res" where
  "prune_third_party_invite content new_content =
     bindE (bindE content (\<lambda>c. json_get c ''third_party_invite'')) (\<lambda>found.
       (case found of
          Some (JDict invite) \<Rightarrow>
            json_setitem new_content ''third_party_invite''
              (JDict (case dget invite ''signed'' of None \<Rightarrow> [] | Some v \<Rightarrow> [(''signed'', v)]))
        | _ \<Rightarrow> Inr new_content))"

text \<open>The chain of \<open>if\<close>s on the event type.\<close>

definition prune_content_by_type :: "room_version \<Rightarrow> string \<Rightarrow> json res \<Rightarrow> json res" where
  "prune_content_by_type rv event_type content =
     (if event_type = EventTypes_Member then
        bindE (add_fields content [''membership''] (JDict [])) (\<lambda>n1.
        bindE (if restricted_join_rule_fix rv
               then add_fields content [EventContentFields_AUTHORISING_USER] n1 else Inr n1) (\<lambda>n2.
          if updated_redaction_rules rv then prune_third_party_invite content n2 else Inr n2))
      else if event_type = EventTypes_Create then
        bindE (if updated_redaction_rules rv then content else Inr (JDict [])) (\<lambda>n1.
         if \<not> implicit_room_creator rv then add_fields content [''creator''] n1 else Inr n1)
      else if event_type = EventTypes_JoinRules then
        bindE (add_fields content [''join_rule''] (JDict [])) (\<lambda>n1.
          if restricted_join_rule rv then add_fields content [''allow''] n1 else Inr n1)
      else if event_type = EventTypes_PowerLevels then
        bindE (add_fields content POWER_LEVELS_FIELDS (JDict [])) (\<lambda>n1.
          if updated_redaction_rules rv then add_fields content [''invite''] n1 else Inr n1)
      else if event_type = EventTypes_Aliases \<and> special_case_aliases_auth rv then
        add_fields content [''aliases''] (JDict [])
      else if event_type = EventTypes_RoomHistoryVisibility then
        add_fields content [''history_visibility''] (JDict [])
      else if event_type = EventTypes_Redaction \<and> updated_redaction_rules rv then
        add_fields content [''redacts''] (JDict [])
      else Inr (JDict []))"

definition prune_relation :: "room_version \<Rightarrow> json res \<Rightarrow> json \<Rightarrow> json res" where
  "prune_relation rv content new_content =
     (if msc3389_relation_redactions rv then
        bindE (bindE content (\<lambda>c. json_get c ''m.relates_to'')) (\<lambda>found.
          (case found of
             Some (JDict relates_to) \<Rightarrow>
               (let new_relates_to = List.map_filter (\<lambda>f. map_option (Pair f) (dget relates_to f))
                      [''rel_type'', ''event_id'']
                in if new_relates_to \<noteq> [] then json_setitem new_content ''m.relates_to'' (JDict new_relates_to)
                   else Inr new_content)
           | _ \<Rightarrow> Inr new_content))
      else Inr new_content)"

definition prune_content :: "room_version \<Rightarrow> string \<Rightarrow> json res \<Rightarrow> json res" where
  "prune_content rv event_type content =
     bindE (prune_content_by_type rv event_type content) (prune_relation rv content)"

definition allowed_keys :: "room_version \<Rightarrow> string \<Rightarrow> string list" where
  "allowed_keys rv event_type =
     [''event_id'', ''sender''] @
     (if event_type = EventTypes_Create \<and> msc4291_room_ids_as_hashes rv then [] else [''room_id'']) @
     [''hashes'', ''signatures'', ''content'', ''type'', ''state_key'', ''depth'', ''prev_events'',
      ''auth_events'', ''origin_server_ts''] @
     (if \<not> updated_redaction_rules rv then [''prev_state'', ''membership'', ''origin''] else [])"

definition prune_unsigned :: "json \<Rightarrow> json res" where
  "prune_unsigned event_unsigned = add_fields (Inr event_unsigned) [''age_ts'', ''replaces_state''] (JDict [])"

definition prune_event_dict :: "room_version \<Rightarrow> jdict \<Rightarrow> jdict res" where
  "prune_event_dict rv event_dict =
     bindE (optE KeyError (dget event_dict ''type'')) (\<lambda>etype.
       let content = optE KeyError (dget event_dict ''content'');
           event_type = (case etype of JStr t \<Rightarrow> t | _ \<Rightarrow> []);
           allowed_fields = filter (\<lambda>(k, _). k \<in> set (allowed_keys rv event_type)) event_dict
       in
       bindE (prune_content rv event_type content) (\<lambda>new_content.
       bindE (prune_unsigned (jget_default event_dict ''unsigned'' (JDict []))) (\<lambda>unsigned.
         Inr (dset ''unsigned'' unsigned (dset ''content'' new_content allowed_fields)))))"

text \<open>
  \<open>prune_event\<close> on event objects: the fields that the dictionary keeps, and the internal metadata.
  The reason of a rejection is not copied.
\<close>

definition prune_event :: "event \<Rightarrow> event res" where
  "prune_event event =
     bindE (prune_content (ev_room_version event) (ev_type event) (Inr (JDict (ev_content event)))) (\<lambda>new_content.
     bindE (optE AttributeError (as_mapping new_content)) (\<lambda>content.
       Inr (event\<lparr>ev_content := content,
         ev_dict_room_id := (if ev_type event = EventTypes_Create
             \<and> msc4291_room_ids_as_hashes (ev_room_version event) then None else ev_dict_room_id event),
         ev_dict_redacts := None, ev_rejected_reason := None\<rparr>)))"

section \<open>What redaction keeps\<close>

text \<open>On a content that is an object the copying of fields cannot fail.\<close>

definition copy_names :: "jdict \<Rightarrow> string list \<Rightarrow> jdict \<Rightarrow> jdict" where
  "copy_names c names n = fold (\<lambda>f acc. case dget c f of None \<Rightarrow> acc | Some v \<Rightarrow> dset f v acc) names n"

lemma add_fields_dict: "add_fields (Inr (JDict c)) names (JDict n) = Inr (JDict (copy_names c names n))"
proof (induction names arbitrary: n)
  case (Cons f names)
  have "add_field (Inr (JDict c)) f (JDict n)
      = Inr (JDict (case dget c f of None \<Rightarrow> n | Some v \<Rightarrow> dset f v n))"
    using dget_None_iff [of c f] by (auto simp: add_field_def split: option.splits)
  with Cons show ?case by (simp add: add_fields_def copy_names_def)
qed (simp add: add_fields_def copy_names_def)

lemma dget_copy_names:
  "dget (copy_names c names n) f = (if f \<in> set names \<and> dget c f \<noteq> None then dget c f else dget n f)"
  by (induction names arbitrary: n) (auto simp: copy_names_def split: option.splits)

lemma copy_names_append: "copy_names c ms (copy_names c ns n) = copy_names c (ns @ ms) n"
  by (simp add: copy_names_def)

lemma copy_names_cong:
  "\<forall>f\<in>set names. dget c f = dget c' f \<Longrightarrow> copy_names c names n = copy_names c' names n"
  by (induction names arbitrary: n) (auto simp: copy_names_def)

lemma dset_same: "dget d k = Some v \<Longrightarrow> dset k v d = d"
  unfolding dset_def by (induction d) auto

lemma copy_names_self: "copy_names c names c = c"
  by (induction names) (auto simp: copy_names_def dset_same split: option.splits)

text \<open>The fields that are kept as they are, and the value of any field after the redaction.\<close>

definition protected_fields :: "room_version \<Rightarrow> string \<Rightarrow> string list" where
  "protected_fields rv t =
     (if t = EventTypes_Member
      then [''membership''] @ (if restricted_join_rule_fix rv then [EventContentFields_AUTHORISING_USER] else [])
      else if t = EventTypes_Create then (if implicit_room_creator rv then [] else [''creator''])
      else if t = EventTypes_JoinRules then [''join_rule''] @ (if restricted_join_rule rv then [''allow''] else [])
      else if t = EventTypes_PowerLevels
      then POWER_LEVELS_FIELDS @ (if updated_redaction_rules rv then [''invite''] else [])
      else if t = EventTypes_Aliases \<and> special_case_aliases_auth rv then [''aliases'']
      else if t = EventTypes_RoomHistoryVisibility then [''history_visibility'']
      else if t = EventTypes_Redaction \<and> updated_redaction_rules rv then [''redacts'']
      else [])"

definition signed_only :: "jdict \<Rightarrow> jdict" where
  "signed_only invite = (case dget invite ''signed'' of None \<Rightarrow> [] | Some v \<Rightarrow> [(''signed'', v)])"

definition relation_only :: "jdict \<Rightarrow> jdict" where
  "relation_only r = List.map_filter (\<lambda>f. map_option (Pair f) (dget r f)) [''rel_type'', ''event_id'']"

text \<open>The two steps on an object, without the errors.\<close>

definition pruned_by_type :: "room_version \<Rightarrow> string \<Rightarrow> jdict \<Rightarrow> jdict" where
  "pruned_by_type rv t c =
     (if t = EventTypes_Create \<and> updated_redaction_rules rv then c
      else
        let n = copy_names c (protected_fields rv t) [] in
        if t = EventTypes_Member \<and> updated_redaction_rules rv
        then (case dget c ''third_party_invite'' of
                Some (JDict i) \<Rightarrow> dset ''third_party_invite'' (JDict (signed_only i)) n
              | _ \<Rightarrow> n)
        else n)"

definition pruned_relation :: "room_version \<Rightarrow> jdict \<Rightarrow> jdict \<Rightarrow> jdict" where
  "pruned_relation rv c n =
     (case dget c ''m.relates_to'' of
        Some (JDict r) \<Rightarrow> if msc3389_relation_redactions rv \<and> relation_only r \<noteq> []
                        then dset ''m.relates_to'' (JDict (relation_only r)) n else n
      | _ \<Rightarrow> n)"

lemma prune_third_party_invite_dict:
  "prune_third_party_invite (Inr (JDict c)) (JDict n) = Inr (JDict
     (case dget c ''third_party_invite'' of
        Some (JDict i) \<Rightarrow> dset ''third_party_invite'' (JDict (signed_only i)) n
      | _ \<Rightarrow> n))"
  by (simp add: prune_third_party_invite_def signed_only_def split: option.split json.split)

lemma prune_by_type_dict: "prune_content_by_type rv t (Inr (JDict c)) = Inr (JDict (pruned_by_type rv t c))"
proof -
  consider "t = EventTypes_Member" | "t = EventTypes_Create" | "t \<noteq> EventTypes_Member" "t \<noteq> EventTypes_Create" by blast
  then show ?thesis
  proof cases
    case 1
    then show ?thesis
      by (simp add: prune_content_by_type_def pruned_by_type_def protected_fields_def add_fields_dict
          copy_names_append prune_third_party_invite_dict Let_def)
  next
    case 2
    then show ?thesis
      by (simp add: prune_content_by_type_def pruned_by_type_def protected_fields_def add_fields_dict
          copy_names_self Let_def) (simp add: copy_names_def)
  next
    case 3
    then show ?thesis
      by (simp add: prune_content_by_type_def pruned_by_type_def protected_fields_def add_fields_dict
          copy_names_append Let_def) (simp add: copy_names_def)
  qed
qed

lemma prune_relation_dict: "prune_relation rv (Inr (JDict c)) (JDict n) = Inr (JDict (pruned_relation rv c n))"
  by (auto simp: prune_relation_def pruned_relation_def relation_only_def Let_def split: option.splits json.splits)

lemma prune_content_dict:
  "prune_content rv t (Inr (JDict c)) = Inr (JDict (pruned_relation rv c (pruned_by_type rv t c)))"
  by (simp add: prune_content_def prune_by_type_dict prune_relation_dict)

text \<open>The value of a field after the redaction.\<close>

definition pruned_value :: "room_version \<Rightarrow> string \<Rightarrow> jdict \<Rightarrow> string \<Rightarrow> json option" where
  "pruned_value rv t c f =
     (let relation = (case dget c ''m.relates_to'' of Some (JDict r) \<Rightarrow> relation_only r | _ \<Rightarrow> []) in
      if f = ''m.relates_to'' \<and> msc3389_relation_redactions rv \<and> relation \<noteq> [] then Some (JDict relation)
      else if t = EventTypes_Create \<and> updated_redaction_rules rv then dget c f
      else if f \<in> set (protected_fields rv t) then dget c f
      else if f = ''third_party_invite'' \<and> t = EventTypes_Member \<and> updated_redaction_rules rv
      then (case dget c f of Some (JDict i) \<Rightarrow> Some (JDict (signed_only i)) | _ \<Rightarrow> None)
      else None)"

lemma invite_not_protected: "''third_party_invite'' \<notin> set (protected_fields rv t)"
  by (simp add: protected_fields_def POWER_LEVELS_FIELDS_def EventContentFields_AUTHORISING_USER_def)

lemma relation_not_protected: "''m.relates_to'' \<notin> set (protected_fields rv t)"
  by (simp add: protected_fields_def POWER_LEVELS_FIELDS_def EventContentFields_AUTHORISING_USER_def)

lemma dget_pruned_by_type:
  "dget (pruned_by_type rv t c) f =
     (if t = EventTypes_Create \<and> updated_redaction_rules rv then dget c f
      else if f \<in> set (protected_fields rv t) then dget c f
      else if f = ''third_party_invite'' \<and> t = EventTypes_Member \<and> updated_redaction_rules rv
      then (case dget c f of Some (JDict i) \<Rightarrow> Some (JDict (signed_only i)) | _ \<Rightarrow> None)
      else None)"
  using invite_not_protected [of rv t]
  by (cases "dget c ''third_party_invite''"; cases "the (dget c ''third_party_invite'')")
    (auto simp: pruned_by_type_def dget_copy_names Let_def)

lemma dget_pruned: "dget (pruned_relation rv c (pruned_by_type rv t c)) f = pruned_value rv t c f"
  by (cases "dget c ''m.relates_to''"; cases "the (dget c ''m.relates_to'')")
    (simp_all add: pruned_relation_def pruned_value_def dget_pruned_by_type Let_def)

lemma signed_only_idem: "signed_only (signed_only i) = signed_only i"
  by (simp add: signed_only_def split: option.split)

lemma relation_only_idem: "relation_only (relation_only r) = relation_only r"
  by (cases "dget r ''rel_type''"; cases "dget r ''event_id''") (simp_all add: relation_only_def List.map_filter_def)

lemma pruned_by_type_again:
  assumes "c' = pruned_relation rv c (pruned_by_type rv t c)"
    and "\<not> (t = EventTypes_Create \<and> updated_redaction_rules rv)"
  shows "pruned_by_type rv t c' = pruned_by_type rv t c"
proof -
  have c': "dget c' f = pruned_value rv t c f" for f using dget_pruned assms(1) by metis
  have "copy_names c' (protected_fields rv t) [] = copy_names c (protected_fields rv t) []"
    using relation_not_protected [of rv t] assms(2)
    by (intro copy_names_cong) (auto simp: c' pruned_value_def Let_def)
  moreover have "dget c' ''third_party_invite'' = (case dget c ''third_party_invite'' of
      Some (JDict i) \<Rightarrow> Some (JDict (signed_only i)) | _ \<Rightarrow> None)"
    if "t = EventTypes_Member \<and> updated_redaction_rules rv"
    using that invite_not_protected [of rv t] by (simp add: c' pruned_value_def Let_def)
  ultimately show ?thesis using assms(2)
    by (cases "dget c ''third_party_invite''"; cases "the (dget c ''third_party_invite'')")
      (auto simp: pruned_by_type_def Let_def signed_only_idem)
qed

lemma pruned_again:
  assumes c': "c' = pruned_relation rv c (pruned_by_type rv t c)"
  shows "pruned_relation rv c' (pruned_by_type rv t c') = c'"
proof -
  have rel: "dget c' ''m.relates_to'' = pruned_value rv t c ''m.relates_to''" using dget_pruned c' by metis
  show ?thesis
  proof (cases "t = EventTypes_Create \<and> updated_redaction_rules rv")
    case True
    then have "pruned_by_type rv t c' = c'" by (simp add: pruned_by_type_def)
    with rel True show ?thesis
      by (cases "dget c ''m.relates_to''"; cases "the (dget c ''m.relates_to'')")
        (auto simp: pruned_relation_def pruned_value_def Let_def relation_only_idem dset_same split: if_splits)
  next
    case False
    from pruned_by_type_again [OF c' False] rel False relation_not_protected [of rv t] show ?thesis
      by (cases "dget c ''m.relates_to''"; cases "the (dget c ''m.relates_to'')")
        (auto simp: pruned_relation_def pruned_value_def Let_def relation_only_idem c' split: if_splits)
  qed
qed

text \<open>An event dictionary as it is signed: a type, an object as content, and maybe unsigned data.\<close>

definition event_dict_ok :: "string \<Rightarrow> jdict \<Rightarrow> jdict \<Rightarrow> jdict \<Rightarrow> bool" where
  "event_dict_ok t c u d \<longleftrightarrow> dict_ok d \<and> dget d ''type'' = Some (JStr t) \<and> dget d ''content'' = Some (JDict c)
     \<and> jget_default d ''unsigned'' (JDict []) = JDict u"

definition pruned_dict :: "room_version \<Rightarrow> string \<Rightarrow> jdict \<Rightarrow> jdict \<Rightarrow> jdict \<Rightarrow> jdict" where
  "pruned_dict rv t c u d =
     dset ''unsigned'' (JDict (copy_names u [''age_ts'', ''replaces_state''] []))
       (dset ''content'' (JDict (pruned_relation rv c (pruned_by_type rv t c)))
         (filter (\<lambda>(k, _). k \<in> set (allowed_keys rv t)) d))"

lemma prune_event_dict_ok: "event_dict_ok t c u d \<Longrightarrow> prune_event_dict rv d = Inr (pruned_dict rv t c u d)"
  by (simp add: prune_event_dict_def event_dict_ok_def pruned_dict_def prune_content_dict prune_unsigned_def
      add_fields_dict Let_def)

lemma content_allowed: "''content'' \<in> set (allowed_keys rv t)" "''type'' \<in> set (allowed_keys rv t)"
    "''unsigned'' \<notin> set (allowed_keys rv t)"
  by (auto simp: allowed_keys_def)

lemma dget_pruned_dict:
  assumes "event_dict_ok t c u d"
  shows "dget (pruned_dict rv t c u d) k =
    (if k = ''unsigned'' then Some (JDict (copy_names u [''age_ts'', ''replaces_state''] []))
     else if k = ''content'' then Some (JDict (pruned_relation rv c (pruned_by_type rv t c)))
     else if k \<in> set (allowed_keys rv t) then dget d k else None)"
  using content_allowed [of rv t] by (simp add: pruned_dict_def dget_filter_key)

lemma pruned_dict_ok:
  assumes ok: "event_dict_ok t c u d"
  shows "event_dict_ok t (pruned_relation rv c (pruned_by_type rv t c))
    (copy_names u [''age_ts'', ''replaces_state''] []) (pruned_dict rv t c u d)"
proof -
  have "dict_ok (pruned_dict rv t c u d)"
    using ok by (simp add: event_dict_ok_def pruned_dict_def dict_ok_filter)
  then show ?thesis using ok content_allowed [of rv t]
    by (simp add: event_dict_ok_def dget_pruned_dict [OF ok] jget_default_def)
qed

lemma copy_names_again: "copy_names (copy_names u names []) names [] = copy_names u names []"
  by (rule copy_names_cong) (simp add: dget_copy_names)

lemma filter_dset_other: "\<not> P k \<Longrightarrow> filter (\<lambda>(k, _). P k) (dset k v d) = filter (\<lambda>(k, _). P k) d"
  unfolding dset_def by (induction d) auto

lemma filter_dset_in: "P k \<Longrightarrow> filter (\<lambda>(k, _). P k) (dset k v d) = dset k v (filter (\<lambda>(k, _). P k) d)"
  unfolding dset_def by (induction d) auto

text \<open>
  C39. Redacting twice is redacting once. Redaction of an event dictionary succeeds, and applied to
  its own result it changes nothing: a server that receives a redacted event computes the same
  hashes and signatures as one that redacts the event itself.
\<close>

theorem prune_idempotent:
  assumes "event_dict_ok t c u d"
  shows "\<exists>d'. prune_event_dict rv d = Inr d' \<and> prune_event_dict rv d' = Inr d'"
proof -
  let ?d = "pruned_dict rv t c u d" and ?c = "pruned_relation rv c (pruned_by_type rv t c)"
  have "filter (\<lambda>(k, _). k \<in> set (allowed_keys rv t)) ?d
      = dset ''content'' (JDict ?c) (filter (\<lambda>(k, _). k \<in> set (allowed_keys rv t)) d)"
    using content_allowed [of rv t] by (simp add: pruned_dict_def filter_dset_other filter_dset_in)
  then have "prune_event_dict rv ?d = Inr ?d"
    using prune_event_dict_ok [OF pruned_dict_ok [OF assms], of rv rv]
    by (simp add: pruned_dict_def pruned_again copy_names_again dset_same)
  with prune_event_dict_ok [OF assms] show ?thesis by blast
qed

theorem prune_idempotent_witness:
  "\<exists>d'. prune_event_dict RoomVersions_V11 [(''type'', JStr ''m.room.member''), (''x'', JNull),
      (''content'', JDict [(''membership'', JStr ''join''), (''displayname'', JStr ''a'')])] = Inr d'
    \<and> prune_event_dict RoomVersions_V11 d' = Inr d'"
  by (rule prune_idempotent [where t = "''m.room.member''" and u = "[]"
        and c = "[(''membership'', JStr ''join''), (''displayname'', JStr ''a'')]"]; code_simp)

text \<open>
  C17. What a redaction leaves. The result has exactly the allowed top-level keys of the event,
  unchanged except for the content and the unsigned data; of the content exactly the protected
  fields of the event type in the room version are left, of a third party invite the signed part
  and, where relations are protected, of a relation its type and target.
\<close>

theorem prune_keeps_exactly:
  assumes ok: "event_dict_ok t c u d"
  shows "\<exists>d' c' u'. prune_event_dict rv d = Inr d'
    \<and> dget d' ''content'' = Some (JDict c') \<and> (\<forall>f. dget c' f = pruned_value rv t c f)
    \<and> dget d' ''unsigned'' = Some (JDict u')
    \<and> (\<forall>f. dget u' f = (if f \<in> {''age_ts'', ''replaces_state''} then dget u f else None))
    \<and> (\<forall>k. k \<notin> {''content'', ''unsigned''} \<longrightarrow>
         dget d' k = (if k \<in> set (allowed_keys rv t) then dget d k else None))"
proof -
  let ?c = "pruned_relation rv c (pruned_by_type rv t c)"
    and ?u = "copy_names u [''age_ts'', ''replaces_state''] []"
  note d = dget_pruned_dict [OF ok, of rv]
  have "dget (pruned_dict rv t c u d) ''content'' = Some (JDict ?c)"
    and "dget (pruned_dict rv t c u d) ''unsigned'' = Some (JDict ?u)"
    by (simp_all add: d)
  moreover have "\<forall>k. k \<notin> {''content'', ''unsigned''} \<longrightarrow>
      dget (pruned_dict rv t c u d) k = (if k \<in> set (allowed_keys rv t) then dget d k else None)"
    by (simp add: d)
  moreover have "\<forall>f. dget ?u f = (if f \<in> {''age_ts'', ''replaces_state''} then dget u f else None)"
    by (simp add: dget_copy_names)
  moreover have "\<forall>f. dget ?c f = pruned_value rv t c f" by (simp add: dget_pruned)
  ultimately show ?thesis
    by - (intro exI conjI, rule prune_event_dict_ok [OF ok], assumption+)
qed

theorem prune_keeps_exactly_witness:
  "\<exists>d' c'. prune_event_dict RoomVersions_V11 [(''type'', JStr ''m.room.member''), (''x'', JNull),
      (''content'', JDict [(''membership'', JStr ''join''), (''displayname'', JStr ''a'')])] = Inr d'
    \<and> dget d' ''content'' = Some (JDict c') \<and> dget c' ''displayname'' = None"
proof -
  let ?c = "[(''membership'', JStr ''join''), (''displayname'', JStr ''a'')]"
  have "event_dict_ok ''m.room.member'' ?c [] [(''type'', JStr ''m.room.member''), (''x'', JNull), (''content'', JDict ?c)]"
    by code_simp
  from prune_keeps_exactly [OF this, of RoomVersions_V11]
  have "\<exists>d' c'. prune_event_dict RoomVersions_V11 [(''type'', JStr ''m.room.member''), (''x'', JNull), (''content'', JDict ?c)] = Inr d'
    \<and> dget d' ''content'' = Some (JDict c')
    \<and> dget c' ''displayname'' = pruned_value RoomVersions_V11 ''m.room.member'' ?c ''displayname''" by (elim exE conjE) (intro exI conjI, assumption, assumption, erule spec)
  moreover have "pruned_value RoomVersions_V11 ''m.room.member'' ?c ''displayname'' = None" by code_simp
  ultimately show ?thesis by metis
qed

text \<open>Redacting an event object succeeds.\<close>

lemma prune_event_Inr:
  "\<exists>e'. prune_event e = Inr e' \<and> ev_room_version e' = ev_room_version e \<and> ev_type e' = ev_type e
     \<and> ev_sender e' = ev_sender e
     \<and> (\<forall>f. dget (ev_content e') f = pruned_value (ev_room_version e) (ev_type e) (ev_content e) f)"
  by (simp add: prune_event_def prune_content_dict dget_pruned)

text \<open>The state with all of its events redacted.\<close>

definition redacted_state :: "auth_map \<Rightarrow> auth_map \<Rightarrow> bool" where
  "redacted_state am am' \<longleftrightarrow> (\<forall>k. am k = None \<longrightarrow> am' k = None)
     \<and> (\<forall>k e. am k = Some e \<longrightarrow> (\<exists>e'. prune_event e = Inr e' \<and> am' k = Some e'))"

lemma redacted_state_None: "redacted_state am am' \<Longrightarrow> am k = None \<Longrightarrow> am' k = None"
  unfolding redacted_state_def by blast

lemma redacted_state_Some:
  assumes "redacted_state am am'" "am k = Some e"
  obtains e' where "am' k = Some e'" "ev_room_version e' = ev_room_version e" "ev_type e' = ev_type e"
    "ev_sender e' = ev_sender e"
    "\<And>f. dget (ev_content e') f = pruned_value (ev_room_version e) (ev_type e) (ev_content e) f"
proof -
  have "\<exists>e'. prune_event e = Inr e' \<and> am' k = Some e'"
    using assms unfolding redacted_state_def by blast
  then obtain e' where e': "prune_event e = Inr e'" "am' k = Some e'" by blast
  with prune_event_Inr [of e] show ?thesis by (intro that [of e']) simp_all
qed

lemma known_versions_creators:
  "\<forall>rv\<in>set known_room_version_list. msc4289_creator_power_enabled rv \<longrightarrow> updated_redaction_rules rv"
  by code_simp

lemma redacted_is_creator:
  assumes "ev_type c = EventTypes_Create" and "ev_room_version c' = ev_room_version c"
    and "ev_type c' = ev_type c" and "ev_sender c' = ev_sender c"
    and "\<And>f. dget (ev_content c') f = pruned_value (ev_room_version c) (ev_type c) (ev_content c) f"
    and "msc4289_creator_power_enabled (ev_room_version c) \<longrightarrow> updated_redaction_rules (ev_room_version c)"
  shows "msc4289_creator_power_enabled (ev_room_version c) \<Longrightarrow> is_creator c' u = is_creator c u"
    and "room_creator c' = room_creator c"
  using assms
  by (auto simp: is_creator_def room_creator_def pruned_value_def protected_fields_def jget_default_def
      EventContentFields_ROOM_CREATOR_def EventContentFields_ADDITIONAL_CREATORS_def Let_def)

text \<open>Two power levels events with the same levels, as far as the rules read them.\<close>

fun same_levels :: "event option \<Rightarrow> event option \<Rightarrow> bool" where
  "same_levels None None = True"
| "same_levels (Some p) (Some p') = (\<forall>f\<in>set POWER_LEVELS_FIELDS. dget (ev_content p') f = dget (ev_content p) f)"
| "same_levels _ _ = False"

lemma same_levels_field:
  assumes "same_levels (Some p) (Some p')" "f \<in> set POWER_LEVELS_FIELDS"
  shows "jget_default (ev_content p') f v = jget_default (ev_content p) f v"
    and "jget (ev_content p') f = jget (ev_content p) f"
  using assms by (simp_all add: jget_default_def jget_def)

lemma power_fields: "''users'' \<in> set POWER_LEVELS_FIELDS" "''users_default'' \<in> set POWER_LEVELS_FIELDS"
    "''events'' \<in> set POWER_LEVELS_FIELDS" "''events_default'' \<in> set POWER_LEVELS_FIELDS"
    "''state_default'' \<in> set POWER_LEVELS_FIELDS"
  by (simp_all add: POWER_LEVELS_FIELDS_def)

lemma same_levels_cases:
  assumes "same_levels pl pl'"
  obtains "pl = None" "pl' = None" | p p' where "pl = Some p" "pl' = Some p'" "same_levels (Some p) (Some p')"
  using assms by (cases pl; cases pl') simp_all

lemma same_send_level: "same_levels pl pl' \<Longrightarrow> get_send_level t sk pl' = get_send_level t sk pl"
  by (erule same_levels_cases)
    (simp_all only: get_send_level_def option.simps same_levels_field(1) power_fields Let_def)

lemma same_named_level:
  assumes "same_levels (am (EventTypes_PowerLevels, [])) (am' (EventTypes_PowerLevels, []))"
    and "name \<in> set POWER_LEVELS_FIELDS"
  shows "get_named_level am' name n = get_named_level am name n"
  using assms(1)
proof (rule same_levels_cases)
  fix p p'
  assume "am (EventTypes_PowerLevels, []) = Some p" "am' (EventTypes_PowerLevels, []) = Some p'"
    "same_levels (Some p) (Some p')"
  with same_levels_field(2) [OF this(3) assms(2)] show ?thesis
    by (simp only: get_named_level_def get_power_level_event_def option.simps Let_def)
qed (simp add: get_named_level_def get_power_level_event_def)

lemma same_levels_user:
  assumes "same_levels (am (EventTypes_PowerLevels, [])) (am' (EventTypes_PowerLevels, []))"
    and "am CREATE_KEY = Some c" "am' CREATE_KEY = Some c'" "ev_room_version c' = ev_room_version c"
    and "msc4289_creator_power_enabled (ev_room_version c) \<Longrightarrow> is_creator c' u = is_creator c u"
    and "room_creator c' = room_creator c"
  shows "get_user_power_level u am' = get_user_power_level u am"
proof -
  have creator: "(if msc4289_creator_power_enabled (ev_room_version c') then is_creator c' u else Inr False)
      = (if msc4289_creator_power_enabled (ev_room_version c) then is_creator c u else Inr False)"
    using assms(4,5) by simp
  from assms(1) show ?thesis
  proof (rule same_levels_cases)
    fix p p'
    assume p: "am (EventTypes_PowerLevels, []) = Some p" "am' (EventTypes_PowerLevels, []) = Some p'"
      and same: "same_levels (Some p) (Some p')"
    show ?thesis
      unfolding get_user_power_level_def get_power_level_event_def p assms(2,3) option.simps creator Let_def
        same_levels_field(1) [OF same power_fields(1)] same_levels_field(1) [OF same power_fields(2)] ..
  next
    assume p: "am (EventTypes_PowerLevels, []) = None" "am' (EventTypes_PowerLevels, []) = None"
    show ?thesis
      unfolding get_user_power_level_def get_power_level_event_def p assms(2,3,6) option.simps creator ..
  qed
qed

lemma redacted_same_levels:
  assumes red: "redacted_state am am'"
    and pl: "\<forall>e. am (EventTypes_PowerLevels, []) = Some e \<longrightarrow> ev_type e = EventTypes_PowerLevels"
  shows "same_levels (am (EventTypes_PowerLevels, [])) (am' (EventTypes_PowerLevels, []))"
proof (cases "am (EventTypes_PowerLevels, [])")
  case None
  with redacted_state_None [OF red None] show ?thesis by simp
next
  case (Some p)
  from redacted_state_Some [OF red Some] obtain p' where p': "am' (EventTypes_PowerLevels, []) = Some p'"
    "\<And>f. dget (ev_content p') f = pruned_value (ev_room_version p) (ev_type p) (ev_content p) f" by metis
  have "pruned_value rv EventTypes_PowerLevels c f = dget c f" if "f \<in> set POWER_LEVELS_FIELDS" for rv c f
    using that by (auto simp: pruned_value_def protected_fields_def POWER_LEVELS_FIELDS_def Let_def)
  with p' Some pl show ?thesis by simp
qed

text \<open>The redacted sample room.\<close>

definition redact_all :: "auth_map \<Rightarrow> auth_map" where
  "redact_all am = (\<lambda>k. map_option (\<lambda>e. case prune_event e of Inr e' \<Rightarrow> e' | Inl _ \<Rightarrow> e) (am k))"

lemma redacted_state_redact_all: "redacted_state am (redact_all am)"
proof -
  have "\<exists>e'. prune_event e = Inr e' \<and> redact_all am k = Some e'" if "am k = Some e" for k e
    using prune_event_Inr [of e] that by (auto simp: redact_all_def)
  moreover have "am k = None \<Longrightarrow> redact_all am k = None" for k by (simp add: redact_all_def)
  ultimately show ?thesis unfolding redacted_state_def by blast
qed

text \<open>
  C18. Redaction takes no authority away. When all events of the state of a room of a known version
  are redacted, every user keeps their power level, and the levels needed to send events, to ban,
  to kick and to redact stay the same.
\<close>

theorem redaction_keeps_power:
  assumes red: "redacted_state am am'"
    and create: "\<forall>e. am CREATE_KEY = Some e \<longrightarrow>
      ev_type e = EventTypes_Create \<and> ev_room_version e \<in> set known_room_version_list"
    and pl: "\<forall>e. am (EventTypes_PowerLevels, []) = Some e \<longrightarrow> ev_type e = EventTypes_PowerLevels"
  shows "get_user_power_level u am' = get_user_power_level u am
    \<and> get_send_level t sk (get_power_level_event am') = get_send_level t sk (get_power_level_event am)
    \<and> (name \<in> {''ban'', ''kick'', ''redact''} \<longrightarrow> get_named_level am' name n = get_named_level am name n)"
proof -
  note same = redacted_same_levels [OF red pl]
  have "get_user_power_level u am' = get_user_power_level u am"
  proof (cases "am CREATE_KEY")
    case None
    with redacted_state_None [OF red None] show ?thesis by (simp add: get_user_power_level_def)
  next
    case (Some c)
    from redacted_state_Some [OF red Some] obtain c' where c': "am' CREATE_KEY = Some c'"
      "ev_room_version c' = ev_room_version c" "ev_type c' = ev_type c" "ev_sender c' = ev_sender c"
      "\<And>f. dget (ev_content c') f = pruned_value (ev_room_version c) (ev_type c) (ev_content c) f" by metis
    from redacted_is_creator [OF _ c'(2-5)] known_versions_creators create Some show ?thesis
      by (intro same_levels_user [OF same Some c'(1,2)]) blast+
  qed
  moreover have "get_named_level am' name n = get_named_level am name n" if "name \<in> {''ban'', ''kick'', ''redact''}"
    using that by (intro same_named_level [of am am', OF same]) (auto simp: POWER_LEVELS_FIELDS_def)
  ultimately show ?thesis using same_send_level [OF same] by (simp add: get_power_level_event_def)
qed

theorem redaction_keeps_power_witness:
  "get_user_power_level ''@a:x'' (redact_all (sample_map sample_state)) = Inr 100"
proof -
  have "\<forall>e. sample_map sample_state CREATE_KEY = Some e \<longrightarrow>
      ev_type e = EventTypes_Create \<and> ev_room_version e \<in> set known_room_version_list"
    and "\<forall>e. sample_map sample_state (EventTypes_PowerLevels, []) = Some e \<longrightarrow> ev_type e = EventTypes_PowerLevels"
    by (simp_all add: sample_map_def sample_state_def sample_create_def sample_power_levels_def
        sample_member_def sample_join_rules_def sample_event_def CREATE_KEY_def known_room_version_list_def)
  note redaction_keeps_power [OF redacted_state_redact_all this, of "''@a:x''"]
  moreover have "get_user_power_level ''@a:x'' (sample_map sample_state) = Inr 100" by code_simp
  ultimately show ?thesis by simp
qed

end
