(* ===== verification/Event_Store.thy ===== *)
theory Event_Store
  imports Event_Utils
begin

text \<open>
  The reading side of \<open>storage/databases/main/events_worker.py\<close>: events from the in-memory caches
  and from the rows of the database, the redaction of events that were redacted, and the checks
  that withhold redactions. The state is the local cache and the weak references to events; the
  database is a dictionary of rows. Events are objects that the caches share: where the code
  marks a redaction as checked, the model marks it in every place that holds it.

  Concurrent fetches of the same event, which only share the result, the external cache and
  \<open>get_prev_content\<close> are not modelled.
\<close>

section \<open>Rows, entries and caches\<close>

text \<open>
  \<open>_EventRow\<close>. Of the two JSON columns the model keeps whether they can be parsed and the event
  that the first one describes; \<open>make_event_from_dict\<close> adds the room version and the reason of
  a rejection to it.
\<close>

record event_row =
  row_event_id :: string
  row_json :: "event option"
  row_metadata_ok :: bool
  row_format_version :: "event_format_version option"
  row_room_version_id :: "string option"
  row_rejected_reason :: "string option"
  row_redactions :: "string list"

record event_cache_entry =
  ce_event :: event
  ce_redacted_event :: "event option"

datatype event_redact_behaviour = RB_as_is | RB_redact | RB_block

record event_worker =
  ew_cache :: "(string, event_cache_entry) pydict"
  ew_refs :: "(string, event) pydict"

type_synonym entry_map = "(string, event_cache_entry) pydict"
type_synonym row_map = "(string, event_row) pydict"

definition InvalidEventError :: exn where
  "InvalidEventError = PyException ''Room for event is unknown''"

definition DatabaseCorruptionError :: exn where
  "DatabaseCorruptionError = PyException ''Database corruption: event has unexpected event id''"

section \<open>From rows to events\<close>

text \<open>The rows of the given events and, again and again, of the redactions that they name.\<close>

definition fetched_rows :: "row_map \<Rightarrow> string list \<Rightarrow> event_row list" where
  "fetched_rows db ids = List.map_filter (dget db) ids"

function fetch_rows :: "row_map \<Rightarrow> string list \<Rightarrow> string list \<Rightarrow> row_map \<Rightarrow> row_map" where
  "fetch_rows db to_fetch fetched_ids rows =
     (if to_fetch = [] then rows
      else
        (let rows' = fold (\<lambda>i acc. case dget db i of None \<Rightarrow> acc | Some row \<Rightarrow> dset i row acc) to_fetch rows;
             fetched_ids' = set_union fetched_ids to_fetch;
             redaction_ids = remdups (concat (map row_redactions (fetched_rows db to_fetch)))
         in fetch_rows db (filter (\<lambda>i. i \<notin> set fetched_ids') redaction_ids) fetched_ids' rows'))"
  by pat_completeness auto

definition all_redactions :: "row_map \<Rightarrow> string set" where
  "all_redactions db = (\<Union>row\<in>set (dvalues db). set (row_redactions row))"

lemma finite_all_redactions: "finite (all_redactions db)"
  by (simp add: all_redactions_def)

lemma fetched_redactions: "set (concat (map row_redactions (fetched_rows db ids))) \<subseteq> all_redactions db"
  by (auto simp: fetched_rows_def all_redactions_def List.map_filter_def dest: dget_in_values)

termination fetch_rows
proof (relation "measures [\<lambda>(db, to_fetch, fetched, rows). card (all_redactions db \<union> set to_fetch - set fetched),
    \<lambda>(db, to_fetch, fetched, rows). if set to_fetch \<inter> set fetched = {} then 0 else 1]", goal_cases)
  case (2 db to_fetch fetched rows rows' fetched' ids)
  let ?next = "filter (\<lambda>i. i \<notin> set fetched') ids"
  let ?A = "all_redactions db \<union> set ?next - set fetched'" and ?B = "all_redactions db \<union> set to_fetch - set fetched"
  have f': "set fetched' = set fetched \<union> set to_fetch" by (simp add: 2 set_set_union)
  have "set ?next \<subseteq> all_redactions db" using fetched_redactions [of db to_fetch] by (auto simp: 2)
  then have sub: "?A \<subseteq> ?B" by (auto simp: f')
  have fin: "finite ?B" by (simp add: finite_all_redactions)
  have "card ?A < card ?B" if "set to_fetch \<inter> set fetched = {}"
  proof (rule psubset_card_mono [OF fin])
    from 2(1) obtain i where i: "i \<in> set to_fetch" by (cases to_fetch) auto
    with that have "i \<in> ?B" by blast
    moreover have "i \<notin> ?A" using i by (simp add: f')
    ultimately show "?A \<subset> ?B" using sub by blast
  qed
  moreover have "card ?A \<le> card ?B" using card_mono [OF fin sub] .
  moreover have "set ?next \<inter> set fetched' = {}" by auto
  ultimately show ?case unfolding 2 by (auto simp: le_less)
qed simp

declare fetch_rows.simps [simp del]

text \<open>
  The body of the loop that builds events; \<open>None\<close> skips the row. An event without a room version
  has to be an invite from before room version 6.
\<close>

definition room_version_of_row :: "event_row \<Rightarrow> event \<Rightarrow> event_format_version \<Rightarrow> room_version option res" where
  "room_version_of_row row d fmt =
     (if row_room_version_id row \<in> {None, Some []} then
        (if ev_type d \<noteq> EventTypes_Member then Inl InvalidEventError
         else Inr (Some (if fmt = ROOM_V1_V2 then RoomVersions_V1
                         else if fmt = ROOM_V3 then RoomVersions_V3 else RoomVersions_V5)))
      else
        (case dget KNOWN_ROOM_VERSIONS (the (row_room_version_id row)) of
           None \<Rightarrow> Inr None
         | Some rv \<Rightarrow> Inr (if event_format rv \<noteq> fmt then None else Some rv)))"

definition event_of_row :: "event_row \<Rightarrow> event option res" where
  "event_of_row row =
     (case row_json row of
        None \<Rightarrow> Inr None
      | Some d \<Rightarrow>
          if \<not> row_metadata_ok row then Inr None
          else
            bindE (room_version_of_row row d
                (case row_format_version row of None \<Rightarrow> ROOM_V1_V2 | Some v \<Rightarrow> v)) (\<lambda>found.
              (case found of
                 None \<Rightarrow> Inr None
               | Some rv \<Rightarrow>
                   (let original_ev = d\<lparr>ev_room_version := rv, ev_rejected_reason := row_rejected_reason row\<rparr> in
                    if ev_event_id original_ev \<noteq> row_event_id row then Inl DatabaseCorruptionError
                    else Inr (Some original_ev)))))"

definition events_of_rows :: "row_map \<Rightarrow> (string, event) pydict res" where
  "events_of_rows rows =
     foldE (\<lambda>(event_id, row) event_map.
       bindE (guardE (row_event_id row = event_id) AssertionError) (\<lambda>_.
       bindE (event_of_row row) (\<lambda>found.
         Inr (case found of None \<Rightarrow> event_map | Some ev \<Rightarrow> dset event_id ev event_map)))) rows []"

section \<open>Redaction on reading\<close>

text \<open>
  \<open>_maybe_redact_event_row\<close>: the redacted event, if one of the redactions is to be honoured, and
  the event map, in which that redaction is marked as checked.
\<close>

fun maybe_redact :: "event \<Rightarrow> string list \<Rightarrow> (string, event) pydict
    \<Rightarrow> (event option \<times> (string, event) pydict) res" where
  "maybe_redact original_ev [] event_map = Inr (None, event_map)"
| "maybe_redact original_ev (redaction_id # redactions) event_map =
     (case dget event_map redaction_id of
        None \<Rightarrow> maybe_redact original_ev redactions event_map
      | Some redaction_event \<Rightarrow>
          if ev_rejected_reason redaction_event \<notin> {None, Some []}
          then maybe_redact original_ev redactions event_map
          else
            bindE (event_room_id redaction_event) (\<lambda>rrid.
            bindE (event_room_id original_ev) (\<lambda>orid.
              if rrid \<noteq> orid then maybe_redact original_ev redactions event_map
              else if ev_recheck_redaction redaction_event then
                bindE (get_domain_from_id (ev_sender original_ev)) (\<lambda>expected_domain.
                bindE (get_domain_from_id (ev_sender redaction_event)) (\<lambda>domain.
                  if domain = expected_domain
                  then bindE (prune_event original_ev) (\<lambda>redacted_event.
                    Inr (Some redacted_event,
                         dset redaction_id (redaction_event\<lparr>ev_recheck_redaction := False\<rparr>) event_map))
                  else maybe_redact original_ev redactions event_map))
              else bindE (prune_event original_ev) (\<lambda>redacted_event.
                Inr (Some redacted_event, event_map)))))"

definition maybe_redact_event_row :: "event \<Rightarrow> string list \<Rightarrow> (string, event) pydict
    \<Rightarrow> (event option \<times> (string, event) pydict) res" where
  "maybe_redact_event_row original_ev redactions event_map =
     (if ev_type original_ev = EventTypes_Create then Inr (None, event_map)
      else maybe_redact original_ev redactions event_map)"

text \<open>
  \<open>_get_events_from_db\<close>. The entries share their events with the event map, so that they are
  built from the final one.
\<close>

definition get_events_from_db :: "row_map \<Rightarrow> string list \<Rightarrow> event_worker \<Rightarrow> (entry_map \<times> event_worker) res" where
  "get_events_from_db db ids w =
     (let rows = fetch_rows db ids [] [] in
      bindE (events_of_rows rows) (\<lambda>event_map.
      bindE (foldE (\<lambda>event_id (redacted, em).
               bindE (optE KeyError (dget em event_id)) (\<lambda>original_ev.
               bindE (optE KeyError (dget rows event_id)) (\<lambda>row.
               bindE (maybe_redact_event_row original_ev (row_redactions row) em) (\<lambda>(r, em').
                 Inr (dset event_id r redacted, em'))))) (dkeys event_map) ([], event_map)) (\<lambda>(redacted, em).
        let result_map = map (\<lambda>(event_id, r).
              (event_id, \<lparr>ce_event = the (dget em event_id), ce_redacted_event = r\<rparr>)) redacted
        in Inr (result_map,
             w\<lparr>ew_cache := dupdate (ew_cache w) result_map,
               ew_refs := dupdate (ew_refs w)
                 (map (\<lambda>(i, entry). (i, ce_event entry))
                   (filter (\<lambda>(i, entry). ce_redacted_event entry = None) result_map))\<rparr>))))"

section \<open>The caches\<close>

definition local_cache_step :: "string \<Rightarrow> entry_map \<times> event_worker \<Rightarrow> entry_map \<times> event_worker" where
  "local_cache_step event_id acc = (case acc of (event_map, w) \<Rightarrow>
     (case dget (ew_cache w) event_id of
        Some ret \<Rightarrow> (dset event_id ret event_map, w)
      | None \<Rightarrow>
          (case dget (ew_refs w) event_id of
             None \<Rightarrow> (event_map, w)
           | Some event \<Rightarrow>
               (let cache_entry = \<lparr>ce_event = event, ce_redacted_event = None\<rparr> in
                (dset event_id cache_entry event_map,
                 w\<lparr>ew_cache := dset event_id cache_entry (ew_cache w)\<rparr>)))))"

definition get_events_from_local_cache :: "string list \<Rightarrow> event_worker \<Rightarrow> entry_map \<times> event_worker" where
  "get_events_from_local_cache ids w = fold local_cache_step ids ([], w)"

definition get_unredacted_events_from_cache_or_db ::
    "row_map \<Rightarrow> string list \<Rightarrow> bool \<Rightarrow> (event_worker, entry_map) comp" where
  "get_unredacted_events_from_cache_or_db db event_ids allow_rejected w =
     (case get_events_from_local_cache event_ids w of (event_entry_map, w1) \<Rightarrow>
        (let missing = filter (\<lambda>e. dget event_entry_map e = None) event_ids in
         bindE (if missing \<noteq> [] then get_events_from_db db missing w1 else Inr ([], w1)) (\<lambda>(fetched, w2).
           let all_entries = dupdate event_entry_map fetched in
           Inr (if allow_rejected then all_entries
                else filter (\<lambda>(_, entry). ev_rejected_reason (ce_event entry) \<in> {None, Some []}) all_entries,
                w2))))"

section \<open>Fetching events\<close>

text \<open>
  The checks on a redaction that may be withheld: \<open>None\<close> withholds it, otherwise the event is
  returned, marked as checked when its domain was compared.
\<close>

definition check_redaction_entry :: "row_map \<Rightarrow> event \<Rightarrow> (event_worker, event option) comp" where
  "check_redaction_entry db event w =
     (case redacts event of
        JStr redacted_event_id \<Rightarrow>
          bindE (get_unredacted_events_from_cache_or_db db [redacted_event_id] False w) (\<lambda>(event_map, w1).
             (case dget event_map redacted_event_id of
                None \<Rightarrow> Inr (None, w1)
              | Some original_entry \<Rightarrow>
                  (let original = ce_event original_entry in
                   if ev_type original = EventTypes_Create then Inr (None, w1)
                   else bindE (event_room_id original) (\<lambda>orid.
                     bindE (event_room_id event) (\<lambda>rid.
                       if orid \<noteq> rid then Inr (None, w1)
                       else if ev_recheck_redaction event then
                         bindE (get_domain_from_id (ev_sender original)) (\<lambda>original_domain.
                         bindE (get_domain_from_id (ev_sender event)) (\<lambda>redaction_domain.
                           if original_domain \<noteq> redaction_domain then Inr (None, w1)
                           else Inr (Some (event\<lparr>ev_recheck_redaction := False\<rparr>), w1)))
                       else Inr (Some event, w1))))))
      | JNull \<Rightarrow> Inr (None, w)
      | v \<Rightarrow> if hashable v then Inr (None, w) else Inl TypeError)"

text \<open>The event object with this id, wherever the worker holds it.\<close>

definition share_event :: "string \<Rightarrow> event \<Rightarrow> event_worker \<Rightarrow> event_worker" where
  "share_event event_id event w =
     w\<lparr>ew_cache := (case dget (ew_cache w) event_id of
           Some entry \<Rightarrow> dset event_id (entry\<lparr>ce_event := event\<rparr>) (ew_cache w)
         | None \<Rightarrow> ew_cache w),
       ew_refs := (case dget (ew_refs w) event_id of
           Some _ \<Rightarrow> dset event_id event (ew_refs w)
         | None \<Rightarrow> ew_refs w)\<rparr>"

definition fetch_one :: "row_map \<Rightarrow> event_redact_behaviour \<Rightarrow> bool \<Rightarrow> entry_map
    \<Rightarrow> string \<Rightarrow> event list \<times> event_worker \<Rightarrow> (event list \<times> event_worker) res" where
  "fetch_one db redact_behaviour allow_rejected event_entry_map event_id acc = (case acc of (events, w) \<Rightarrow>
     (case dget event_entry_map event_id of
        None \<Rightarrow> Inr (events, w)
      | Some entry \<Rightarrow>
          bindE (guardE (allow_rejected \<or> ev_rejected_reason (ce_event entry) \<in> {None, Some []})
                   AssertionError) (\<lambda>_.
          bindE (if \<not> allow_rejected \<and> ev_type (ce_event entry) = EventTypes_Redaction
                 then check_redaction_entry db (ce_event entry) w
                 else Inr (Some (ce_event entry), w)) (\<lambda>(checked, w1).
            (case checked of
               None \<Rightarrow> Inr (events, w1)
             | Some event \<Rightarrow>
                 (let w2 = share_event event_id event w1
                  in case ce_redacted_event entry of
                       None \<Rightarrow> Inr (events @ [event], w2)
                     | Some redacted \<Rightarrow>
                         (case redact_behaviour of
                            RB_block \<Rightarrow> Inr (events, w2)
                          | RB_redact \<Rightarrow> Inr (events @ [redacted], w2)
                          | RB_as_is \<Rightarrow> Inr (events @ [event], w2))))))))"

definition get_events_as_list :: "row_map \<Rightarrow> string list \<Rightarrow> event_redact_behaviour \<Rightarrow> bool
    \<Rightarrow> (event_worker, event list) comp" where
  "get_events_as_list db event_ids redact_behaviour allow_rejected w =
     (if event_ids = [] then Inr ([], w)
      else bindE (get_unredacted_events_from_cache_or_db db (remdups event_ids) allow_rejected w)
        (\<lambda>(event_entry_map, w1).
          foldE (fetch_one db redact_behaviour allow_rejected event_entry_map) event_ids ([], w1)))"

text \<open>\<open>{e.event_id: e for e in events}\<close>\<close>

definition index_by_id :: "event list \<Rightarrow> (string, event) pydict" where
  "index_by_id events = fold (\<lambda>e. dset (ev_event_id e) e) events []"

definition worker_get_events :: "row_map \<Rightarrow> string list \<Rightarrow> event_redact_behaviour \<Rightarrow> bool
    \<Rightarrow> (event_worker, (string, event) pydict) comp" where
  "worker_get_events db event_ids redact_behaviour allow_rejected =
     bindS (get_events_as_list db event_ids redact_behaviour allow_rejected) (\<lambda>events.
       returnS (index_by_id events))"

text \<open>
  \<open>StateResolutionStore.get_events\<close> as state resolution calls it: rejected events are allowed and
  nothing is redacted. Only the events are given to the caller.
\<close>

definition resolution_get_events :: "row_map \<Rightarrow> event_worker \<Rightarrow> string list \<Rightarrow> (string, event) pydict res" where
  "resolution_get_events db w event_ids =
     bindE (worker_get_events db event_ids RB_as_is True w) (\<lambda>(events, _). Inr events)"

section \<open>The interface for readers\<close>

definition own_ids :: "(string, event) pydict \<Rightarrow> bool" where
  "own_ids em \<longleftrightarrow> (\<forall>i e. dget em i = Some e \<longrightarrow> ev_event_id e = i)"

lemma own_idsD: "own_ids em \<Longrightarrow> dget em i = Some e \<Longrightarrow> ev_event_id e = i"
  unfolding own_ids_def by blast

lemma own_ids_dset: "own_ids em \<Longrightarrow> ev_event_id e = i \<Longrightarrow> own_ids (dset i e em)"
  unfolding own_ids_def dget_dset fun_upd_apply by (metis option.inject)

lemma own_ids_Nil [simp]: "own_ids []"
  by (simp add: own_ids_def)

text \<open>
  What state resolution relies on: the events come under their own ids, and running out of fuel
  is not an exception of the store.
\<close>

definition OUT_OF_FUEL :: exn where
  "OUT_OF_FUEL = PyException ''fuel''"

definition fuel_free :: "'a res \<Rightarrow> bool" where
  "fuel_free m \<longleftrightarrow> m \<noteq> Inl OUT_OF_FUEL"

locale event_source =
  fixes fetch :: "string list \<Rightarrow> (string, event) pydict res"
  assumes fetch_own_ids: "fetch ids = Inr em \<Longrightarrow> own_ids em"
    and fetch_dict: "fetch ids = Inr em \<Longrightarrow> dict_ok em"
    and fetch_fuel: "fuel_free (fetch ids)"
begin

lemma own_ids_fetch:
  assumes "own_ids em" "fetch ids = Inr new"
  shows "own_ids (dupdate em new)"
  using assms(1) fetch_own_ids [OF assms(2)]
  unfolding own_ids_def dget_dupdate_ok [OF fetch_dict [OF assms(2)]] map_add_Some_iff by blast

end

lemma index_by_id_own:
  "own_ids d \<Longrightarrow> dict_ok d \<Longrightarrow> own_ids (fold (\<lambda>e. dset (ev_event_id e) e) events d)
     \<and> dict_ok (fold (\<lambda>e. dset (ev_event_id e) e) events d)"
  by (induction events arbitrary: d) (simp_all add: own_ids_dset)

lemma resolution_get_events_indexed:
  "resolution_get_events db w ids = Inr em \<Longrightarrow> \<exists>events w'. em = index_by_id events
     \<and> get_events_as_list db ids RB_as_is True w = Inr (events, w')"
  by (auto simp: resolution_get_events_def worker_get_events_def)

text \<open>Nothing on the way raises the exception of the fuel.\<close>

lemma fuel_free_Inr [simp]: "fuel_free (Inr x)"
  by (simp add: fuel_free_def)

lemma fuel_free_Inl [simp]: "fuel_free (Inl e) \<longleftrightarrow> e \<noteq> OUT_OF_FUEL"
  by (simp add: fuel_free_def)

lemma fuel_free_bindE:
  "fuel_free m \<Longrightarrow> (\<And>x. m = Inr x \<Longrightarrow> fuel_free (f x)) \<Longrightarrow> fuel_free (bindE m f)"
  by (cases m) auto

lemma fuel_free_foldE: "(\<And>x t. x \<in> set xs \<Longrightarrow> fuel_free (f x t)) \<Longrightarrow> fuel_free (foldE f xs s)"
  by (induction xs arbitrary: s) (simp_all add: fuel_free_bindE)

lemma fuel_free_optE: "e \<noteq> OUT_OF_FUEL \<Longrightarrow> fuel_free (optE e x)"
  by (cases x) simp_all

lemma fuel_free_guardE: "e \<noteq> OUT_OF_FUEL \<Longrightarrow> fuel_free (guardE b e)"
  by (cases b) simp_all

lemma exn_fuel [simp]: "KeyError \<noteq> OUT_OF_FUEL" "AttributeError \<noteq> OUT_OF_FUEL" "AssertionError \<noteq> OUT_OF_FUEL"
    "InvalidEventError \<noteq> OUT_OF_FUEL" "DatabaseCorruptionError \<noteq> OUT_OF_FUEL"
  by (simp_all add: OUT_OF_FUEL_def InvalidEventError_def DatabaseCorruptionError_def)

lemma fuel_free_event_room_id: "fuel_free (event_room_id e)"
  by (simp add: event_room_id_def fuel_free_optE)

lemma fuel_free_get_domain: "fuel_free (get_domain_from_id i)"
  by (cases "split_first CHR '':'' i") (simp add: get_domain_from_id_def OUT_OF_FUEL_def split: option.split)

lemma fuel_free_prune_event: "fuel_free (prune_event e)"
  using prune_event_Inr [of e] by auto

lemmas fuel_free_rules = fuel_free_bindE fuel_free_foldE fuel_free_optE fuel_free_guardE
  fuel_free_event_room_id fuel_free_get_domain fuel_free_prune_event

lemma fuel_free_maybe_redact: "fuel_free (maybe_redact e ids em)"
proof (induction ids)
  case (Cons i ids)
  then show ?case by (cases "dget em i") (auto intro!: fuel_free_rules)
qed simp

lemma fuel_free_event_of_row: "fuel_free (event_of_row row)"
proof -
  have "fuel_free (room_version_of_row row d fmt)" for d fmt
    by (simp add: room_version_of_row_def split: option.split)
  then show ?thesis by (auto simp: event_of_row_def Let_def intro!: fuel_free_rules split: option.split)
qed

lemma fuel_free_get_events_from_db: "fuel_free (get_events_from_db db ids w)"
  unfolding get_events_from_db_def events_of_rows_def maybe_redact_event_row_def Let_def
  by (auto intro!: fuel_free_rules fuel_free_event_of_row fuel_free_maybe_redact)

lemma fuel_free_resolution_get_events: "fuel_free (resolution_get_events db w ids)"
proof -
  have "fuel_free (fetch_one db RB_as_is True entries i acc)" for entries i acc
    by (cases acc) (simp add: fetch_one_def Let_def split: option.split)
  then have "fuel_free (get_events_as_list db ids RB_as_is True w)"
    using fuel_free_get_events_from_db
    by (cases "get_events_from_local_cache (remdups ids) w")
      (auto simp: get_events_as_list_def get_unredacted_events_from_cache_or_db_def Let_def
        intro!: fuel_free_rules)
  then show ?thesis
    by (cases "get_events_as_list db ids RB_as_is True w")
      (auto simp: resolution_get_events_def worker_get_events_def bindS_def returnS_def)
qed

interpretation events_worker: event_source "resolution_get_events db w" for db w
proof
  fix ids em
  assume "resolution_get_events db w ids = Inr em"
  with resolution_get_events_indexed obtain events where "em = index_by_id events" by blast
  then show "own_ids em" "dict_ok em"
    using index_by_id_own [of "[]" events] by (simp_all add: index_by_id_def)
qed (rule fuel_free_resolution_get_events)

section \<open>When an event is shown redacted\<close>

text \<open>
  A redaction counts if it was accepted, is of the same room, and was either allowed by the power
  levels when it was accepted or comes from the domain of the sender of the event.
\<close>

definition honoured :: "event \<Rightarrow> event \<Rightarrow> bool" where
  "honoured original redaction \<longleftrightarrow> ev_rejected_reason redaction \<in> {None, Some []}
     \<and> (\<exists>rid. event_room_id redaction = Inr rid \<and> event_room_id original = Inr rid)
     \<and> (ev_recheck_redaction redaction \<longrightarrow>
          (\<exists>d. get_domain_from_id (ev_sender original) = Inr d \<and> get_domain_from_id (ev_sender redaction) = Inr d))"

lemma maybe_redact_step:
  assumes "dget em i = Some red"
    and "maybe_redact original (i # ids) em = Inr (r, em')"
  shows "if honoured original red
    then (\<exists>x. r = Some x \<and> prune_event original = Inr x)
      \<and> (\<forall>j e'. dget em' j = Some e' \<longrightarrow> (\<exists>e. dget em j = Some e \<and> e' \<in> {e, e\<lparr>ev_recheck_redaction := False\<rparr>}))
    else maybe_redact original ids em = Inr (r, em')"
  using assms
  by (cases "ev_recheck_redaction red"; cases "ev_rejected_reason red \<in> {None, Some []}")
    (auto simp: honoured_def split: if_splits)

lemma maybe_redact_honoured:
  "maybe_redact original ids em = Inr (r, em') \<Longrightarrow>
     (r \<noteq> None \<longleftrightarrow> (\<exists>i\<in>set ids. \<exists>red. dget em i = Some red \<and> honoured original red))
     \<and> (\<forall>x. r = Some x \<longrightarrow> prune_event original = Inr x)"
proof (induction ids)
  case (Cons i ids)
  show ?case
  proof (cases "dget em i")
    case None
    with Cons show ?thesis by simp
  next
    case (Some red)
    from maybe_redact_step [OF Some Cons.prems] Cons.IH Some show ?thesis
      by (cases "honoured original red") auto
  qed
qed simp

section \<open>Redaction on reading from the database\<close>

text \<open>The rows that are read: those of the wanted events and of all redactions that read rows name.\<close>

lemma fetch_step_get:
  "dget (fold (\<lambda>i acc. case dget db i of None \<Rightarrow> acc | Some row \<Rightarrow> dset i row acc) is rows) j
     = (if j \<in> set is \<and> dget db j \<noteq> None then dget db j else dget rows j)"
  by (induction "is" arbitrary: rows) (auto split: option.split)

lemma fetch_step_ok:
  "dict_ok rows \<Longrightarrow> dict_ok (fold (\<lambda>i acc. case dget db i of None \<Rightarrow> acc | Some row \<Rightarrow> dset i row acc) is rows)"
  by (induction "is" arbitrary: rows) (auto split: option.split)

lemma named_redactions:
  "set (concat (map row_redactions (fetched_rows db ids)))
     = {r. \<exists>i\<in>set ids. \<exists>row. dget db i = Some row \<and> r \<in> set (row_redactions row)}"
  by (induction ids) (auto simp: fetched_rows_def List.map_filter_def split: if_splits)

definition rows_closed :: "row_map \<Rightarrow> string set \<Rightarrow> string set \<Rightarrow> row_map \<Rightarrow> bool" where
  "rows_closed db F pending rows \<longleftrightarrow> dict_ok rows \<and> (\<forall>i. dget rows i = (if i \<in> F then dget db i else None))
     \<and> (\<forall>i\<in>F. \<forall>row. dget db i = Some row \<longrightarrow> set (row_redactions row) \<subseteq> F \<union> pending)"

lemma rows_closed_step:
  assumes "rows_closed db (set fetched) (set to_fetch) rows"
    and "fetched' = set_union fetched to_fetch"
    and "next = filter (\<lambda>i. i \<notin> set fetched') (remdups (concat (map row_redactions (fetched_rows db to_fetch))))"
    and "rows' = fold (\<lambda>i acc. case dget db i of None \<Rightarrow> acc | Some row \<Rightarrow> dset i row acc) to_fetch rows"
  shows "rows_closed db (set fetched') (set next) rows'"
proof -
  have F: "set fetched' = set fetched \<union> set to_fetch"
    by (simp add: assms(2) set_set_union)
  have N: "set next = {r. \<exists>i\<in>set to_fetch. \<exists>row. dget db i = Some row \<and> r \<in> set (row_redactions row)} - set fetched'"
    unfolding assms(3) set_filter set_remdups named_redactions by blast
  have "dict_ok rows'" using assms(1) by (simp add: assms(4) rows_closed_def fetch_step_ok)
  moreover have "dget rows' i = (if i \<in> set fetched' then dget db i else None)" for i
    using assms(1) by (auto simp: assms(4) fetch_step_get rows_closed_def F)
  moreover have "set (row_redactions row) \<subseteq> set fetched' \<union> set next" if "i \<in> set fetched'" "dget db i = Some row" for i row
    using that assms(1) unfolding N F rows_closed_def by blast
  ultimately show ?thesis unfolding rows_closed_def by blast
qed

lemma fetch_rows_closed:
  "rows_closed db (set fetched) (set to_fetch) rows \<Longrightarrow>
     \<exists>F. set fetched \<union> set to_fetch \<subseteq> F \<and> rows_closed db F {} (fetch_rows db to_fetch fetched rows)"
proof (induction db to_fetch fetched rows rule: fetch_rows.induct)
  case (1 db to_fetch fetched rows)
  show ?case
  proof (cases "to_fetch = []")
    case True
    then show ?thesis using 1(2) by (intro exI [of _ "set fetched"]) (simp add: fetch_rows.simps [of db "[]"])
  next
    case False
    note step = rows_closed_step [OF 1(2) refl refl refl]
    obtain F where "set (set_union fetched to_fetch) \<subseteq> F" "rows_closed db F {} (fetch_rows db to_fetch fetched rows)"
      using 1(1) [OF False refl refl refl step] False
      by (auto simp: Let_def fetch_rows.simps [of db to_fetch])
    then show ?thesis by (auto simp: set_set_union)
  qed
qed

lemma events_of_rows_get:
  assumes "events_of_rows rows = Inr em" "dict_ok rows"
  shows "dict_ok em" "dget em i = Some e \<longleftrightarrow> (\<exists>row. dget rows i = Some row \<and> event_of_row row = Inr (Some e))"
proof -
  let ?body = "\<lambda>(event_id, row) event_map. bindE (guardE (row_event_id row = event_id) AssertionError) (\<lambda>_.
      bindE (event_of_row row) (\<lambda>found. Inr (case found of None \<Rightarrow> event_map | Some ev \<Rightarrow> dset event_id ev event_map)))"
  have "dict_ok em \<and> (\<forall>i e. dget em i = Some e \<longleftrightarrow> (\<exists>row. dget rows i = Some row \<and> event_of_row row = Inr (Some e))
      \<or> i \<notin> set (dkeys rows) \<and> dget acc i = Some e)"
    if "foldE ?body rows acc = Inr em" "dict_ok acc" "dict_ok rows" "\<forall>i\<in>set (dkeys rows). dget acc i = None" for rows acc
    using that
  proof (induction rows arbitrary: acc)
    case (Cons kr rows)
    obtain k row where kr: "kr = (k, row)" by (cases kr)
    obtain found where found: "event_of_row row = Inr found"
      "foldE ?body rows (case found of None \<Rightarrow> acc | Some ev \<Rightarrow> dset k ev acc) = Inr em"
      using Cons.prems(1) by (auto simp: kr)
    let ?acc = "case found of None \<Rightarrow> acc | Some ev \<Rightarrow> dset k ev acc"
    have keys: "dkeys (kr # rows) = k # dkeys rows"
      by (simp add: kr dkeys_def)
    have rest: "dict_ok rows" "k \<notin> set (dkeys rows)"
      using Cons.prems(3) by (auto simp: kr dict_ok_def dkeys_def)
    have "dict_ok ?acc" "\<forall>i\<in>set (dkeys rows). dget ?acc i = None"
      using Cons.prems(2,4) rest(2) by (auto simp: keys split: option.split)
    note IH = Cons.IH [OF found(2) this(1) rest(1) this(2)]
    have none: "dget rows k = None" using rest(2) by (simp add: dget_None_iff)
    show ?case
      using IH found(1) none Cons.prems(4) rest(2) unfolding keys by (cases found) (auto simp: kr)
  qed (simp add: dkeys_def)
  from this [of rows "[]"] assms show "dict_ok em"
    "dget em i = Some e \<longleftrightarrow> (\<exists>row. dget rows i = Some row \<and> event_of_row row = Inr (Some e))"
    by (auto simp: events_of_rows_def)
qed


text \<open>What honouring a redaction changes: the flag of that redaction.\<close>

abbreviation mark_checked :: "event \<Rightarrow> event" where
  "mark_checked e \<equiv> e\<lparr>ev_recheck_redaction := False\<rparr>"

lemma maybe_redact_marks:
  "maybe_redact original ids em = Inr (r, em') \<Longrightarrow>
     dget em' j = dget em j \<or> j \<in> set ids \<and> (\<exists>e. dget em j = Some e \<and> dget em' j = Some (mark_checked e))"
proof (induction ids)
  case (Cons i ids)
  show ?case
  proof (cases "dget em i")
    case None
    with Cons show ?thesis by auto
  next
    case (Some red)
    show ?thesis
    proof (cases "maybe_redact original ids em = Inr (r, em')")
      case True
      with Cons.IH show ?thesis by auto
    next
      case False
      then have "em' = em \<or> em' = dset i (mark_checked red) em"
        using Cons.prems Some by (auto split: if_splits)
      with Some show ?thesis by (auto split: if_splits)
    qed
  qed
qed simp

lemma honoured_checked: "honoured (mark_checked original) red = honoured original red"
proof -
  have "event_room_id (mark_checked original) = event_room_id original"
    by (simp add: event_room_id_def format_version_def get_state_key_def)
  then show ?thesis by (simp only: honoured_def) simp
qed

text \<open>Each redaction is recorded for one event only, the event that it names.\<close>

definition one_target :: "row_map \<Rightarrow> bool" where
  "one_target db \<longleftrightarrow> (\<forall>i j row row' r. dget db i = Some row \<longrightarrow> dget db j = Some row'
     \<longrightarrow> r \<in> set (row_redactions row) \<longrightarrow> r \<in> set (row_redactions row') \<longrightarrow> i = j)"

text \<open>The event of a row, and whether one of its redactions is to be honoured.\<close>

definition stored_event :: "row_map \<Rightarrow> string \<Rightarrow> event_row \<Rightarrow> event \<Rightarrow> bool" where
  "stored_event db i row ev \<longleftrightarrow> dget db i = Some row \<and> event_of_row row = Inr (Some ev)"

definition must_redact :: "row_map \<Rightarrow> event_row \<Rightarrow> event \<Rightarrow> bool" where
  "must_redact db row original \<longleftrightarrow> ev_type original \<noteq> EventTypes_Create
     \<and> (\<exists>r\<in>set (row_redactions row). \<exists>rrow red. stored_event db r rrow red \<and> honoured original red)"

definition redaction_step :: "row_map \<Rightarrow> string \<Rightarrow> (string, event option) pydict \<times> (string, event) pydict
    \<Rightarrow> ((string, event option) pydict \<times> (string, event) pydict) res" where
  "redaction_step rows event_id = (\<lambda>(redacted, em).
     bindE (optE KeyError (dget em event_id)) (\<lambda>original_ev.
     bindE (optE KeyError (dget rows event_id)) (\<lambda>row.
     bindE (maybe_redact_event_row original_ev (row_redactions row) em) (\<lambda>(r, em').
       Inr (dset event_id r redacted, em')))))"

text \<open>
  The invariant of the loop: the map differs from the one at the start only in flags of redactions
  of events that are done, and the answers for those are right.
\<close>

definition redaction_inv :: "row_map \<Rightarrow> row_map \<Rightarrow> (string, event) pydict \<Rightarrow> string set
    \<Rightarrow> (string, event option) pydict \<times> (string, event) pydict \<Rightarrow> bool" where
  "redaction_inv db rows em0 finished = (\<lambda>(redacted, em).
     (\<forall>j. dget em j = dget em0 j \<or> (\<exists>e. dget em0 j = Some e \<and> dget em j = Some (mark_checked e)
        \<and> (\<exists>i\<in>finished. \<exists>row. dget rows i = Some row \<and> j \<in> set (row_redactions row))))
     \<and> (\<forall>i. dget redacted i \<noteq> None \<longleftrightarrow> i \<in> finished)
     \<and> (\<forall>i r. dget redacted i = Some r \<longrightarrow> (\<exists>row original. dget rows i = Some row \<and> dget em0 i = Some original
          \<and> (r \<noteq> None \<longleftrightarrow> must_redact db row original)
          \<and> (\<forall>x. r = Some x \<longrightarrow> (\<exists>ev\<in>{original, mark_checked original}. prune_event ev = Inr x)))))"

lemma redaction_step_inv:
  assumes target: "one_target db" and rows: "rows_closed db F {} rows"
    and em0: "\<forall>j e. dget em0 j = Some e \<longleftrightarrow> (\<exists>row. dget rows j = Some row \<and> event_of_row row = Inr (Some e))"
    and inv: "redaction_inv db rows em0 finished s" and new: "i \<notin> finished"
    and run: "redaction_step rows i s = Inr s'"
  shows "redaction_inv db rows em0 (insert i finished) s'"
proof -
  obtain redacted em where s: "s = (redacted, em)" by (cases s)
  obtain ev row r em' where run': "dget em i = Some ev" "dget rows i = Some row"
    "maybe_redact_event_row ev (row_redactions row) em = Inr (r, em')" "s' = (dset i r redacted, em')"
    using run by (auto simp: s redaction_step_def)
  have so_far: "dget em j = dget em0 j \<or> (\<exists>e. dget em0 j = Some e \<and> dget em j = Some (mark_checked e)
      \<and> (\<exists>i\<in>finished. \<exists>row. dget rows i = Some row \<and> j \<in> set (row_redactions row)))" for j
    using inv unfolding s redaction_inv_def prod.case by blast
  obtain original where original: "dget em0 i = Some original" "ev \<in> {original, mark_checked original}"
    using so_far [of i] run'(1) by (cases "dget em0 i") auto
  have in_db: "dget db k = Some x" "k \<in> F" if "dget rows k = Some x" for k x
    using rows that by (auto simp: rows_closed_def split: if_splits)
  have fresh: "dget em j = dget em0 j" if "j \<in> set (row_redactions row)" for j
    using so_far [of j] that new target in_db(1) [OF run'(2)] in_db(1) unfolding one_target_def by blast
  have known: "dget em0 j = Some red \<longleftrightarrow> (\<exists>rrow. stored_event db j rrow red)" if "j \<in> set (row_redactions row)" for j red
  proof -
    have "j \<in> F" using rows that in_db [OF run'(2)] by (auto simp: rows_closed_def)
    then have "dget rows j = dget db j" using rows by (simp add: rows_closed_def)
    then show ?thesis using em0 by (simp add: stored_event_def)
  qed
  have same: "ev_type ev = ev_type original" "honoured ev = honoured original"
    using original(2) honoured_checked by auto
  have answer: "(r \<noteq> None \<longleftrightarrow> must_redact db row original) \<and> (\<forall>x. r = Some x \<longrightarrow> prune_event ev = Inr x)"
  proof (cases "ev_type ev = EventTypes_Create")
    case True
    then show ?thesis using run'(3) same by (simp add: maybe_redact_event_row_def must_redact_def)
  next
    case False
    then have "maybe_redact ev (row_redactions row) em = Inr (r, em')"
      using run'(3) by (simp add: maybe_redact_event_row_def)
    from maybe_redact_honoured [OF this] show ?thesis
      using False fresh known same unfolding must_redact_def by metis
  qed
  have marks: "dget em' j = dget em j \<or> j \<in> set (row_redactions row)
      \<and> (\<exists>e. dget em j = Some e \<and> dget em' j = Some (mark_checked e))" for j
    using run'(3) maybe_redact_marks [of ev "row_redactions row" em r em' j]
    by (auto simp: maybe_redact_event_row_def split: if_splits)
  show ?thesis
    unfolding run'(4) redaction_inv_def prod.case
  proof (intro conjI allI)
    fix j
    show "dget em' j = dget em0 j \<or> (\<exists>e. dget em0 j = Some e \<and> dget em' j = Some (mark_checked e)
        \<and> (\<exists>i\<in>insert i finished. \<exists>row. dget rows i = Some row \<and> j \<in> set (row_redactions row)))"
    proof (cases "dget em' j = dget em j")
      case True
      then show ?thesis using so_far [of j] by auto
    next
      case False
      then show ?thesis using marks [of j] fresh run'(2) by (metis insertI1)
    qed
  next
    fix j show "dget (dset i r redacted) j \<noteq> None \<longleftrightarrow> j \<in> insert i finished"
      using inv by (simp add: s redaction_inv_def)
  next
    fix j q
    show "dget (dset i r redacted) j = Some q \<longrightarrow> (\<exists>row original. dget rows j = Some row \<and> dget em0 j = Some original
        \<and> (q \<noteq> None \<longleftrightarrow> must_redact db row original)
        \<and> (\<forall>x. q = Some x \<longrightarrow> (\<exists>ev\<in>{original, mark_checked original}. prune_event ev = Inr x)))"
    proof (cases "j = i")
      case True
      then show ?thesis using answer run'(2) original by (simp del: not_None_eq) blast
    next
      case False
      then show ?thesis using inv unfolding s redaction_inv_def prod.case by simp
    qed
  qed
qed

lemma redaction_loop_inv:
  assumes "one_target db" "rows_closed db F {} rows"
    and "\<forall>j e. dget em0 j = Some e \<longleftrightarrow> (\<exists>row. dget rows j = Some row \<and> event_of_row row = Inr (Some e))"
    and "foldE (redaction_step rows) ids s = Inr s'" "redaction_inv db rows em0 finished s" "distinct ids" "set ids \<inter> finished = {}"
  shows "redaction_inv db rows em0 (set ids \<union> finished) s'"
  using assms(4-)
proof (induction ids arbitrary: s finished)
  case (Cons i ids)
  then obtain t where t: "redaction_step rows i s = Inr t" "foldE (redaction_step rows) ids t = Inr s'"
    by auto
  have "redaction_inv db rows em0 (insert i finished) t"
    using Cons.prems by (intro redaction_step_inv [OF assms(1-3) Cons.prems(2) _ t(1)]) auto
  from Cons.IH [OF t(2) this] Cons.prems show ?case by simp
qed simp


text \<open>
  C16. When an event is read redacted. Let each redaction be recorded for one event only. Whatever
  \<open>_get_events_from_db\<close> returns under an id is the stored event (a redaction may be marked as checked),
  and it comes with a redacted form exactly if it is not a create event and one of the redactions of its
  row is a stored event that is to be honoured: accepted, of the same room, and allowed by the power
  levels or from the domain of the sender of the event. The redacted form is the pruned event. Every
  wanted event that is stored is returned.
\<close>

theorem redaction_honoured_iff:
  assumes target: "one_target db" and run: "get_events_from_db db ids w = Inr (entries, w')"
  shows "(\<forall>i entry. dget entries i = Some entry \<longrightarrow> (\<exists>row original. stored_event db i row original
        \<and> ce_event entry \<in> {original, original\<lparr>ev_recheck_redaction := False\<rparr>}
        \<and> (ce_redacted_event entry \<noteq> None \<longleftrightarrow> ev_type original \<noteq> EventTypes_Create
            \<and> (\<exists>r\<in>set (row_redactions row). \<exists>rrow red. stored_event db r rrow red \<and> honoured original red))
        \<and> (\<forall>x. ce_redacted_event entry = Some x \<longrightarrow>
            (\<exists>ev\<in>{original, original\<lparr>ev_recheck_redaction := False\<rparr>}. prune_event ev = Inr x))))
    \<and> (\<forall>i\<in>set ids. \<forall>row ev. stored_event db i row ev \<longrightarrow> dget entries i \<noteq> None)"
proof -
  define rows where "rows = fetch_rows db ids [] []"
  obtain F where F: "set ids \<subseteq> F" "rows_closed db F {} rows"
    using fetch_rows_closed [of db "[]" ids "[]"] by (auto simp: rows_closed_def rows_def)
  obtain em0 redacted em where em0: "events_of_rows rows = Inr em0"
    and loop: "foldE (redaction_step rows) (dkeys em0) ([], em0) = Inr (redacted, em)"
    and entries: "entries = map (\<lambda>(event_id, r). (event_id, \<lparr>ce_event = the (dget em event_id), ce_redacted_event = r\<rparr>)) redacted"
    using run by (auto simp: get_events_from_db_def redaction_step_def [abs_def] rows_def Let_def)
  have dict: "dict_ok rows" using F(2) by (simp add: rows_closed_def)
  note got = events_of_rows_get [OF em0 dict]
  have "redaction_inv db rows em0 {} ([], em0)" by (simp add: redaction_inv_def)
  then have inv: "redaction_inv db rows em0 (set (dkeys em0)) (redacted, em)"
    using redaction_loop_inv [OF target F(2) _ loop, where finished = "{}"] got by (simp add: dict_ok_def dkeys_def)
  have entry: "dget entries i = map_option (\<lambda>r. \<lparr>ce_event = the (dget em i), ce_redacted_event = r\<rparr>) (dget redacted i)" for i
    unfolding entries by (induction redacted) auto
  show ?thesis
  proof (intro conjI allI ballI impI)
    fix i entry
    assume "dget entries i = Some entry"
    then obtain r where r: "dget redacted i = Some r" "entry = \<lparr>ce_event = the (dget em i), ce_redacted_event = r\<rparr>"
      by (auto simp: entry)
    obtain row original where o: "dget rows i = Some row" "dget em0 i = Some original"
      "r \<noteq> None \<longleftrightarrow> must_redact db row original"
      "\<forall>x. r = Some x \<longrightarrow> (\<exists>ev\<in>{original, mark_checked original}. prune_event ev = Inr x)"
      using inv r(1) unfolding redaction_inv_def prod.case by blast
    have "stored_event db i row original"
      using got(2) [of i original] o(1,2) F(2) by (auto simp: stored_event_def rows_closed_def split: if_splits)
    moreover have "the (dget em i) \<in> {original, mark_checked original}"
      using inv o(2) unfolding redaction_inv_def prod.case by (metis insertCI option.sel)
    ultimately show "\<exists>row original. stored_event db i row original
        \<and> ce_event entry \<in> {original, original\<lparr>ev_recheck_redaction := False\<rparr>}
        \<and> (ce_redacted_event entry \<noteq> None \<longleftrightarrow> ev_type original \<noteq> EventTypes_Create
            \<and> (\<exists>r\<in>set (row_redactions row). \<exists>rrow red. stored_event db r rrow red \<and> honoured original red))
        \<and> (\<forall>x. ce_redacted_event entry = Some x \<longrightarrow>
            (\<exists>ev\<in>{original, original\<lparr>ev_recheck_redaction := False\<rparr>}. prune_event ev = Inr x))"
      using o(3,4) unfolding r(2) must_redact_def event_cache_entry.simps
      by (intro exI [of _ row] exI [of _ original] conjI)
  next
    fix i row ev
    assume "i \<in> set ids" "stored_event db i row ev"
    then have "dget em0 i = Some ev" using F got(2) [of i ev] by (auto simp: stored_event_def rows_closed_def)
    then have "i \<in> set (dkeys em0)" by (force simp: dkeys_def dest: map_of_SomeD)
    then show "dget entries i \<noteq> None"
      using inv by (simp add: entry redaction_inv_def)
  qed
qed

definition redaction_rows :: row_map where
  "redaction_rows = map (\<lambda>(e, redactions). (ev_event_id e, \<lparr>row_event_id = ev_event_id e, row_json = Some e,
       row_metadata_ok = True, row_format_version = Some (event_format (ev_room_version e)),
       row_room_version_id = Some (rv_identifier (ev_room_version e)), row_rejected_reason = None,
       row_redactions = redactions\<rparr>))
     [(sample_topic, [''$m'']), ((sample_message ''@b:x'' [])\<lparr>ev_recheck_redaction := True\<rparr>, [])]"

lemma redaction_honoured_iff_witness:
  "\<exists>entries w' entry. get_events_from_db redaction_rows [''$t''] \<lparr>ew_cache = [], ew_refs = []\<rparr> = Inr (entries, w')
     \<and> dget entries ''$t'' = Some entry \<and> ce_redacted_event entry \<noteq> None"
proof -
  let ?run = "get_events_from_db redaction_rows [''$t''] \<lparr>ew_cache = [], ew_refs = []\<rparr>"
  have "\<not> isl ?run" by code_simp
  then obtain entries w' where run: "?run = Inr (entries, w')" by (cases ?run) auto
  have rows: "dget redaction_rows i = Some row \<Longrightarrow> i = ''$t'' \<or> row_redactions row = []" for i row
    by (auto simp: redaction_rows_def sample_topic_def sample_message_def sample_event_def split: if_splits)
  have target: "one_target redaction_rows"
    unfolding one_target_def by (metis empty_iff list.set(1) rows)
  let ?topic = "(the (dget redaction_rows ''$t''), sample_topic)"
  let ?red = "(the (dget redaction_rows ''$m''), (sample_message ''@b:x'' [])\<lparr>ev_recheck_redaction := True\<rparr>)"
  have "dget redaction_rows ''$t'' \<noteq> None" "event_of_row (fst ?topic) = Inr (Some (snd ?topic))"
    "dget redaction_rows ''$m'' \<noteq> None" "event_of_row (fst ?red) = Inr (Some (snd ?red))"
    by code_simp+
  then have topic: "stored_event redaction_rows ''$t'' (fst ?topic) sample_topic" and red: "stored_event redaction_rows ''$m'' (fst ?red) (snd ?red)"
    by (auto simp: stored_event_def)
  have "honoured sample_topic (snd ?red)"
    by (simp add: honoured_def sample_topic_def sample_message_def sample_event_def event_room_id_def
        get_domain_from_id_def format_version_def RoomVersions_V11_def)
  moreover have "row_redactions (fst ?topic) = [''$m'']" "ev_type sample_topic \<noteq> EventTypes_Create"
    by code_simp+
  moreover obtain entry where entry: "dget entries ''$t'' = Some entry"
    using redaction_honoured_iff [OF target run] topic by auto
  moreover obtain row original where "stored_event redaction_rows ''$t'' row original"
    "ce_redacted_event entry \<noteq> None \<longleftrightarrow> ev_type original \<noteq> EventTypes_Create
      \<and> (\<exists>r\<in>set (row_redactions row). \<exists>rrow red. stored_event redaction_rows r rrow red \<and> honoured original red)"
    using redaction_honoured_iff [OF target run] entry by blast
  moreover have "row = fst ?topic" "original = sample_topic"
    using calculation(5) topic by (auto simp: stored_event_def)
  ultimately show ?thesis using run red by auto
qed

end
