(* ===== verification/State_Res_V2.thy ===== *)
theory State_Res_V2
  imports Event_Store Topological_Sort
begin

text \<open>
  \<open>state/v2.py\<close>: state resolution, versions 2 and 2.1. The dictionary \<open>event_map\<close> that the
  functions share and fill is the state of the monad; the store is the argument \<open>store\<close>, as in
  the code. Sets are lists without duplicates.

  Three loops follow the auth events and end because the events form an acyclic graph, which is
  not a property of the arguments as data: they take fuel, and running out of it is the
  exception \<open>OUT_OF_FUEL\<close>. The properties are in \<open>State_Res_Props\<close>.
\<close>

section \<open>The store and the event map\<close>

type_synonym event_map = "(string, event) pydict"
type_synonym state_ids = "(string \<times> string, string) pydict"

record state_difference =
  auth_difference :: "string list"
  conflicted_subgraph :: "string list option"

text \<open>\<open>StateResolutionStore\<close>; its \<open>get_events\<close> is only called with \<open>allow_rejected=True\<close>.\<close>

record state_res_store =
  get_events :: "string list \<Rightarrow> event_map res"
  get_auth_chain_difference :: "string \<Rightarrow> string list list \<Rightarrow> string list option \<Rightarrow> string list \<Rightarrow> state_difference"

text \<open>\<open>_get_event\<close>, with and without \<open>allow_none\<close>.\<close>

definition get_event_opt :: "state_res_store \<Rightarrow> string \<Rightarrow> string \<Rightarrow> (event_map, event option) comp" where
  "get_event_opt store room_id event_id event_map =
     bindE (if dget event_map event_id = None
            then bindE (get_events store [event_id]) (\<lambda>events. Inr (dupdate event_map events))
            else Inr event_map) (\<lambda>em.
      case dget em event_id of
        None \<Rightarrow> Inr (None, em)
      | Some event \<Rightarrow>
          bindE (event_room_id event) (\<lambda>rid.
            if rid \<noteq> room_id then Inl (PyException ''In state res for room, event is in another'')
            else Inr (Some event, em)))"

definition get_event :: "state_res_store \<Rightarrow> string \<Rightarrow> string \<Rightarrow> (event_map, event) comp" where
  "get_event store room_id event_id =
     bindS (get_event_opt store room_id event_id) (\<lambda>found.
       liftS (optE (PyException ''Unknown event'') found))"

text \<open>\<open>event_map[event_id]\<close>\<close>

definition map_event :: "string \<Rightarrow> (event_map, event) comp" where
  "map_event event_id event_map = bindE (optE KeyError (dget event_map event_id)) (\<lambda>e. Inr (e, event_map))"

text \<open>\<open>(ev.type, ev.state_key) == key\<close>; a missing state key raises.\<close>

definition event_key :: "event \<Rightarrow> (string \<times> string) res" where
  "event_key ev = bindE (event_state_key ev) (\<lambda>sk. Inr (ev_type ev, sk))"

section \<open>Conflicts\<close>

definition seperate :: "state_ids list \<Rightarrow> state_ids \<times> (string \<times> string, string list) pydict" where
  "seperate state_sets =
     (let keys = remdups (concat (map dkeys state_sets)) in
      fold (\<lambda>key (unconflicted_state, conflicted_state).
        let event_ids = remdups (map (\<lambda>state_set. dget state_set key) state_sets) in
        if length event_ids = 1
        then (case hd event_ids of
                Some eid \<Rightarrow> (dset key eid unconflicted_state, conflicted_state)
              | None \<Rightarrow> (unconflicted_state, conflicted_state))
        else (unconflicted_state,
              dset key (map the (filter (\<lambda>x. x \<noteq> None) event_ids)) conflicted_state))
        keys ([], []))"

definition is_power_event :: "event \<Rightarrow> bool res" where
  "is_power_event event =
     bindE (event_key event) (\<lambda>k.
       if k \<in> {(EventTypes_PowerLevels, []), (EventTypes_JoinRules, []), (EventTypes_Create, [])}
       then Inr True
       else if ev_type event = EventTypes_Member
       then bindE (membership event) (\<lambda>ms.
              if ms \<in> {JStr ''leave'', JStr ''ban''}
              then bindE (event_state_key event) (\<lambda>sk. Inr (ev_sender event \<noteq> sk))
              else Inr False)
       else Inr False)"

section \<open>Power levels\<close>

text \<open>The loop over the auth events that finds the power levels and the create event.\<close>

definition find_pl_and_create ::
    "state_res_store \<Rightarrow> string \<Rightarrow> string list \<Rightarrow> (event_map, event option \<times> event option) comp" where
  "find_pl_and_create store room_id ids =
     foldS (\<lambda>aid (pl, create).
       bindS (get_event_opt store room_id aid) (\<lambda>aev.
         case aev of
           None \<Rightarrow> returnS (pl, create)
         | Some e \<Rightarrow>
             bindS (liftS (event_key e)) (\<lambda>k.
               returnS (if k = (EventTypes_PowerLevels, []) then Some e else pl,
                        if k = (EventTypes_Create, []) then Some e else create))))
       ids (None, None)"

text \<open>The second loop: the level of a sender when there are no power levels.\<close>

fun creator_level_loop :: "state_res_store \<Rightarrow> string \<Rightarrow> event \<Rightarrow> string list \<Rightarrow> (event_map, int) comp" where
  "creator_level_loop store room_id event [] = returnS 0"
| "creator_level_loop store room_id event (aid # ids) =
     bindS (get_event_opt store room_id aid) (\<lambda>aev.
       case aev of
         None \<Rightarrow> creator_level_loop store room_id event ids
       | Some e \<Rightarrow>
           bindS (liftS (event_key e)) (\<lambda>k.
             if k = (EventTypes_Create, [])
             then (let creator = (if implicit_room_creator (ev_room_version event)
                                  then JStr (ev_sender e) else jget (ev_content e) ''creator'')
                   in returnS (if creator = JStr (ev_sender event) then 100 else 0))
             else creator_level_loop store room_id event ids))"

definition level_in_event :: "event \<Rightarrow> string \<Rightarrow> int res" where
  "level_in_event pl sender =
     bindE (json_get (jget_default (ev_content pl) ''users'' (JDict [])) sender) (\<lambda>found.
       let level0 = (case found of None \<Rightarrow> JNull | Some v \<Rightarrow> v);
           level = (if level0 = JNull then jget_default (ev_content pl) ''users_default'' (JInt 0) else level0)
       in if level = JNull then Inr 0 else py_int level)"

definition get_power_level_for_sender :: "state_res_store \<Rightarrow> string \<Rightarrow> string \<Rightarrow> (event_map, int) comp" where
  "get_power_level_for_sender store room_id event_id =
     bindS (get_event store room_id event_id) (\<lambda>event.
     bindS (liftS (auth_event_ids event)) (\<lambda>ids.
     bindS (find_pl_and_create store room_id ids) (\<lambda>(pl, create).
     bindS (liftS (guardE (ev_type event = EventTypes_Create \<or> create \<noteq> None) AssertionError)) (\<lambda>_.
     bindS (liftS (case create of
               Some c \<Rightarrow> if msc4289_creator_power_enabled (ev_room_version c)
                         then is_creator c (ev_sender event) else Inr False
             | None \<Rightarrow> Inr False)) (\<lambda>creator.
       if creator then returnS CREATOR_POWER_LEVEL
       else (case pl of
           None \<Rightarrow> creator_level_loop store room_id event ids
         | Some p \<Rightarrow> liftS (level_in_event p (ev_sender event))))))))"

section \<open>The auth chain difference\<close>

type_synonym links = "(string, string list) pydict"

definition add_link :: "string \<Rightarrow> string \<Rightarrow> links \<Rightarrow> links" where
  "add_link auth_id event_id m =
     dset auth_id (set_add event_id (case dget m auth_id of None \<Rightarrow> [] | Some l \<Rightarrow> l)) m"

text \<open>
  The search for the part of an auth chain that is in \<open>unpersisted_events\<close>. The stack has its
  top, the end of the Python list, at the head.
\<close>

fun chain_search :: "nat \<Rightarrow> event_map \<Rightarrow> event list \<Rightarrow> string list \<Rightarrow> links \<Rightarrow> (string list \<times> links) res" where
  "chain_search fuel unpersisted [] chain nexts = Inr (chain, nexts)"
| "chain_search 0 unpersisted (next_event # to_search) chain nexts = Inl OUT_OF_FUEL"
| "chain_search (Suc fuel) unpersisted (next_event # to_search) chain nexts =
     bindE (auth_event_ids next_event) (\<lambda>ids.
       chain_search fuel unpersisted
         (rev (List.map_filter (dget unpersisted) ids) @ to_search)
         (set_union chain ids)
         (fold (\<lambda>aid. add_link aid (ev_event_id next_event)) ids nexts))"

definition auth_chains :: "nat \<Rightarrow> event_map \<Rightarrow> (links \<times> links) res" where
  "auth_chains fuel unpersisted =
     foldE (\<lambda>event (chain_of, nexts).
       bindE (chain_search fuel unpersisted [event] [ev_event_id event] nexts) (\<lambda>(chain, nexts').
         Inr (dset (ev_event_id event) chain chain_of, nexts')))
       (dvalues unpersisted) ([], [])"

text \<open>The ids to pass to the store for one state set, and the unpersisted ids reachable from it.\<close>

definition split_state_set :: "event_map \<Rightarrow> links \<Rightarrow> state_ids \<Rightarrow> string list \<times> string list" where
  "split_state_set unpersisted chain_of state_set =
     fold (\<lambda>event_id (set_ids, unpersisted_ids).
       case dget chain_of event_id of
         Some chain \<Rightarrow>
           (set_union set_ids (filter (\<lambda>e. dget unpersisted e = None) chain),
            set_union unpersisted_ids (filter (\<lambda>e. dget unpersisted e \<noteq> None) chain))
       | None \<Rightarrow> (set_add event_id set_ids, unpersisted_ids))
       (dvalues state_set) ([], [])"

definition union_minus_intersection :: "string list list \<Rightarrow> string list" where
  "union_minus_intersection sets =
     filter (\<lambda>e. \<not> list_all (\<lambda>s. e \<in> set s) sets) (remdups (concat sets))"

text \<open>The loop over \<open>search_queue\<close>: a set whose elements are taken in any order.\<close>

fun forward_search :: "nat \<Rightarrow> links \<Rightarrow> string list \<Rightarrow> string list \<Rightarrow> string list res" where
  "forward_search fuel nexts [] found = Inr found"
| "forward_search 0 nexts (e # queue) found = Inl OUT_OF_FUEL"
| "forward_search (Suc fuel) nexts (e # queue) found =
     forward_search fuel nexts
       (set_union queue (case dget nexts e of None \<Rightarrow> [] | Some l \<Rightarrow> l)) (set_add e found)"

definition auth_chain_difference ::
    "nat \<Rightarrow> state_res_store \<Rightarrow> string \<Rightarrow> state_ids list \<Rightarrow> event_map \<Rightarrow> string list option \<Rightarrow> string list res" where
  "auth_chain_difference fuel store room_id state_sets unpersisted conflicted_state0 =
     bindE (auth_chains fuel unpersisted) (\<lambda>(chain_of, nexts).
       let parts = map (split_state_set unpersisted chain_of) state_sets;
           state_sets_ids = (if unpersisted \<noteq> [] then map fst parts
                             else map (\<lambda>s. remdups (dvalues s)) state_sets);
           unpersisted_part = (if unpersisted \<noteq> [] then union_minus_intersection (map snd parts) else []);
           conflicted = (case conflicted_state0 of None \<Rightarrow> [] | Some l \<Rightarrow> l);
           unpersisted_conflicted =
             (if unpersisted \<noteq> [] then filter (\<lambda>e. dget chain_of e \<noteq> None) conflicted else []);
           backwards = fold (\<lambda>e acc. set_union acc (the (dget chain_of e))) unpersisted_conflicted [];
           additional = filter (\<lambda>e. dget unpersisted e = None) backwards;
           conflicted_state =
             map_option (filter (\<lambda>e. e \<notin> set unpersisted_conflicted)) conflicted_state0;
           difference = get_auth_chain_difference store room_id state_sets_ids conflicted_state additional;
           auth_diff = set_union (auth_difference difference) unpersisted_part
       in bindE (case conflicted_subgraph difference of
               None \<Rightarrow> Inr None
             | Some subgraph \<Rightarrow>
                 if conflicted_state0 \<noteq> None \<and> unpersisted \<noteq> [] then
                   (let subgraph1 = set_union subgraph
                          (case conflicted_state of None \<Rightarrow> [] | Some l \<Rightarrow> l);
                        frontier = filter (\<lambda>e. e \<in> set additional) subgraph1
                    in bindE (forward_search fuel nexts (set_union frontier unpersisted_conflicted) [])
                         (\<lambda>forwards.
                           Inr (Some (set_union subgraph1 (filter (\<lambda>e. e \<in> set forwards) backwards)))))
                 else Inr (Some subgraph))
            (\<lambda>final_subgraph.
              Inr (case final_subgraph of
                  Some (s # ss) \<Rightarrow> set_union auth_diff (s # ss)
                | _ \<Rightarrow> auth_diff)))"

section \<open>Sorting the power events\<close>

text \<open>
  \<open>_add_event_and_auth_chain_to_graph\<close>, with the stack of the loop (its top at the head). It
  always ends: every step either adds a node to the graph or takes from the stack a node that is
  in the graph and pushes only nodes that are not.
\<close>

function add_to_graph :: "state_res_store \<Rightarrow> string \<Rightarrow> string list \<Rightarrow> string list \<Rightarrow> string graph
    \<Rightarrow> event_map \<Rightarrow> (string graph \<times> event_map) res" where
  "add_to_graph store room_id full [] graph em = Inr (graph, em)"
| "add_to_graph store room_id full (eid # stack) graph em =
     bindE (get_event store room_id eid em) (\<lambda>(event, em').
     bindE (auth_event_ids event) (\<lambda>ids.
       let graph1 = (if dget graph eid = None then dset eid [] graph else graph);
           aids = filter (\<lambda>aid. aid \<in> set full) ids
       in add_to_graph store room_id full
            (rev (filter (\<lambda>aid. dget graph1 aid = None) aids) @ stack)
            (dset eid (set_union (case dget graph1 eid of None \<Rightarrow> [] | Some l \<Rightarrow> l) aids) graph1) em'))"
  by pat_completeness auto

lemma set_dkeys_dset [simp]: "set (dkeys (dset k v d)) = insert k (set (dkeys d))"
  by (simp add: dkeys_def dset_def dom_update)

lemma add_to_graph_decreases:
  fixes graph :: "string graph" and aids stack full :: "string list" and eid :: string
  defines "graph1 \<equiv> (if dget graph eid = None then dset eid [] graph else graph)"
  defines "stack' \<equiv> rev (filter (\<lambda>aid. dget graph1 aid = None) aids) @ stack"
  assumes "set aids \<subseteq> set full"
  shows "card (set full \<union> set stack' - set (dkeys (dset eid l graph1)))
      < card (set full \<union> set (eid # stack) - set (dkeys graph))
    \<or> card (set full \<union> set stack' - set (dkeys (dset eid l graph1)))
      = card (set full \<union> set (eid # stack) - set (dkeys graph))
      \<and> length (filter (\<lambda>n. n \<in> set (dkeys (dset eid l graph1))) stack')
      < length (filter (\<lambda>n. n \<in> set (dkeys graph)) (eid # stack))"
proof (cases "eid \<in> set (dkeys graph)")
  case True
  then have g1: "graph1 = graph" and keys: "set (dkeys (dset eid l graph1)) = set (dkeys graph)"
    by (auto simp: graph1_def dget_None_iff)
  have stack': "set stack' - set (dkeys graph) \<subseteq> set full \<union> set stack"
    using assms(3) by (auto simp: stack'_def)
  have "set full \<union> set stack' - set (dkeys graph) \<subseteq> set full \<union> set (eid # stack) - set (dkeys graph)"
    using stack' by auto
  then have "card (set full \<union> set stack' - set (dkeys graph))
      \<le> card (set full \<union> set (eid # stack) - set (dkeys graph))"
    by (intro card_mono) auto
  moreover have "length (filter (\<lambda>n. n \<in> set (dkeys graph)) stack')
      < length (filter (\<lambda>n. n \<in> set (dkeys graph)) (eid # stack))"
    using True by (simp add: stack'_def g1 dget_None_iff filter_empty_conv flip: rev_filter)
  ultimately show ?thesis unfolding keys by linarith
next
  case False
  have "set (dkeys (dset eid l graph1)) = insert eid (set (dkeys graph))"
    by (simp add: graph1_def)
  moreover have "set stack' \<subseteq> set full \<union> set stack" using assms(3) by (auto simp: stack'_def)
  ultimately have "set full \<union> set stack' - set (dkeys (dset eid l graph1))
      \<subset> set full \<union> set (eid # stack) - set (dkeys graph)"
    using False by auto
  then have "card (set full \<union> set stack' - set (dkeys (dset eid l graph1)))
      < card (set full \<union> set (eid # stack) - set (dkeys graph))"
    by (intro psubset_card_mono) auto
  then show ?thesis by blast
qed

termination add_to_graph
proof (relation "measures [\<lambda>(store, room_id, full, stack, graph, em).
      card (set full \<union> set stack - set (dkeys graph)),
    \<lambda>(store, room_id, full, stack, graph, em). length (filter (\<lambda>n. n \<in> set (dkeys graph)) stack)]", goal_cases)
  case (2 store room_id full eid stack graph em p event em' ids graph1 aids)
  have "set aids \<subseteq> set full" by (auto simp: 2)
  from add_to_graph_decreases [OF this, where eid = eid and graph = graph and stack = stack
      and l = "set_union (case dget graph1 eid of None \<Rightarrow> [] | Some l \<Rightarrow> l) aids"] show ?case
    unfolding 2 by auto
qed simp

definition power_order :: "(string, int) pydict \<Rightarrow> string \<Rightarrow> (event_map, int \<times> int \<times> string) comp" where
  "power_order event_to_pl event_id =
     bindS (map_event event_id) (\<lambda>ev.
     bindS (liftS (optE KeyError (dget event_to_pl event_id))) (\<lambda>pl.
       returnS (- pl, ev_origin_server_ts ev, event_id)))"

text \<open>
  The key function of the sort only reads the two dictionaries, which no longer change: its
  values for all nodes are computed first.
\<close>

definition reverse_topological_power_sort ::
    "state_res_store \<Rightarrow> string \<Rightarrow> string list \<Rightarrow> string list \<Rightarrow> (event_map, string list) comp" where
  "reverse_topological_power_sort store room_id event_ids full_conflicted_set =
     bindS (foldS (\<lambda>event_id graph. add_to_graph store room_id full_conflicted_set [event_id] graph)
              event_ids []) (\<lambda>graph.
     bindS (foldS (\<lambda>event_id event_to_pl.
              bindS (get_power_level_for_sender store room_id event_id) (\<lambda>pl.
                returnS (dset event_id pl event_to_pl))) (dkeys graph) []) (\<lambda>event_to_pl.
     bindS (foldS (\<lambda>event_id order.
              bindS (power_order event_to_pl event_id) (\<lambda>k. returnS (dset event_id k order)))
              (dkeys graph) []) (\<lambda>order.
       liftS (lexicographical_topological_sort graph
                (\<lambda>n. case dget order n of Some k \<Rightarrow> k | None \<Rightarrow> (0, 0, n))))))"

section \<open>Iterative auth checks\<close>

text \<open>The auth events of the event itself, and those that the current state overrides.\<close>

definition own_auth_events :: "state_res_store \<Rightarrow> string \<Rightarrow> string list
    \<Rightarrow> (event_map, (string \<times> string, event) pydict) comp" where
  "own_auth_events store room_id ids =
     foldS (\<lambda>aid auth_events.
       bindS (get_event_opt store room_id aid) (\<lambda>found.
         case found of
           None \<Rightarrow> returnS auth_events
         | Some ev \<Rightarrow>
             if ev_rejected_reason ev = None
             then bindS (liftS (event_key ev)) (\<lambda>k. returnS (dset k ev auth_events))
             else returnS auth_events)) ids []"

definition state_auth_events :: "state_res_store \<Rightarrow> string \<Rightarrow> state_ids \<Rightarrow> (string \<times> string) list
    \<Rightarrow> (string \<times> string, event) pydict \<Rightarrow> (event_map, (string \<times> string, event) pydict) comp" where
  "state_auth_events store room_id resolved_state auth_types auth_events0 =
     foldS (\<lambda>key auth_events.
       case dget resolved_state key of
         None \<Rightarrow> returnS auth_events
       | Some ev_id \<Rightarrow>
           bindS (get_event store room_id ev_id) (\<lambda>ev.
             if ev_rejected_reason ev = None
             then bindS (map_event ev_id) (\<lambda>e. returnS (dset key e auth_events))
             else returnS auth_events)) auth_types auth_events0"

text \<open>
  The check of one event. The redaction rule may mark the event for a later check, which shows
  in the event map that shares the object.
\<close>

definition auth_check_event :: "externals \<Rightarrow> state_res_store \<Rightarrow> string \<Rightarrow> room_version \<Rightarrow> string
    \<Rightarrow> state_ids \<Rightarrow> (event_map, state_ids) comp" where
  "auth_check_event ext store room_id rv event_id resolved_state =
     bindS (map_event event_id) (\<lambda>event.
     bindS (liftS (auth_event_ids event)) (\<lambda>ids.
     bindS (own_auth_events store room_id ids) (\<lambda>auth_events0.
     bindS (liftS (auth_types_for_event rv event)) (\<lambda>auth_types.
     bindS (state_auth_events store room_id resolved_state auth_types auth_events0) (\<lambda>auth_events.
       if ev_rejected_reason event \<noteq> None then returnS resolved_state
       else (case check_state_dependent_auth_rules ext event (dvalues auth_events) of
           Inr event' \<Rightarrow>
             bindS (liftS (event_key event)) (\<lambda>k.
             bindS (\<lambda>em. Inr ((), dset event_id event' em)) (\<lambda>_.
               returnS (dset k event_id resolved_state)))
         | Inl e \<Rightarrow> if is_AuthError e then returnS resolved_state else liftS (Inl e)))))))"

definition iterative_auth_checks :: "externals \<Rightarrow> state_res_store \<Rightarrow> string \<Rightarrow> room_version \<Rightarrow> string list
    \<Rightarrow> state_ids \<Rightarrow> (event_map, state_ids) comp" where
  "iterative_auth_checks ext store room_id rv event_ids base_state =
     foldS (auth_check_event ext store room_id rv) event_ids base_state"

section \<open>The mainline\<close>

text \<open>The first power levels event among the auth events.\<close>

fun find_pl_auth_event :: "state_res_store \<Rightarrow> string \<Rightarrow> string list
    \<Rightarrow> (event_map, (string \<times> event) option) comp" where
  "find_pl_auth_event store room_id [] = returnS None"
| "find_pl_auth_event store room_id (aid # ids) =
     bindS (get_event_opt store room_id aid) (\<lambda>found.
       case found of
         None \<Rightarrow> find_pl_auth_event store room_id ids
       | Some ev \<Rightarrow>
           bindS (liftS (event_key ev)) (\<lambda>k.
             if k = (EventTypes_PowerLevels, []) then returnS (Some (aid, ev))
             else find_pl_auth_event store room_id ids))"

fun mainline_loop :: "nat \<Rightarrow> state_res_store \<Rightarrow> string \<Rightarrow> string option \<Rightarrow> string list
    \<Rightarrow> (event_map, string list) comp" where
  "mainline_loop fuel store room_id None mainline = returnS mainline"
| "mainline_loop 0 store room_id (Some pl) mainline =
     (if pl = [] then returnS mainline else liftS (Inl OUT_OF_FUEL))"
| "mainline_loop (Suc fuel) store room_id (Some pl) mainline =
     (if pl = [] then returnS mainline
      else bindS (get_event store room_id pl) (\<lambda>pl_ev.
        bindS (liftS (auth_event_ids pl_ev)) (\<lambda>ids.
        bindS (find_pl_auth_event store room_id ids) (\<lambda>next.
          mainline_loop fuel store room_id (map_option fst next) (mainline @ [pl])))))"

fun mainline_depth_loop :: "nat \<Rightarrow> state_res_store \<Rightarrow> string \<Rightarrow> (string, int) pydict \<Rightarrow> event option
    \<Rightarrow> (event_map, int) comp" where
  "mainline_depth_loop fuel store room_id mainline_map None = returnS 0"
| "mainline_depth_loop 0 store room_id mainline_map (Some ev) =
     (case dget mainline_map (ev_event_id ev) of
        Some depth \<Rightarrow> returnS depth
      | None \<Rightarrow> liftS (Inl OUT_OF_FUEL))"
| "mainline_depth_loop (Suc fuel) store room_id mainline_map (Some ev) =
     (case dget mainline_map (ev_event_id ev) of
        Some depth \<Rightarrow> returnS depth
      | None \<Rightarrow>
          bindS (liftS (auth_event_ids ev)) (\<lambda>ids.
          bindS (find_pl_auth_event store room_id ids) (\<lambda>next.
            mainline_depth_loop fuel store room_id mainline_map (map_option snd next))))"

definition get_mainline_depth_for_event ::
    "nat \<Rightarrow> state_res_store \<Rightarrow> (string, int) pydict \<Rightarrow> event \<Rightarrow> (event_map, int) comp" where
  "get_mainline_depth_for_event fuel store mainline_map event =
     bindS (liftS (event_room_id event)) (\<lambda>room_id.
       mainline_depth_loop fuel store room_id mainline_map (Some event))"

text \<open>\<open>{ev_id: i + 1 for i, ev_id in enumerate(reversed(mainline))}\<close>\<close>

definition mainline_map_of :: "string list \<Rightarrow> (string, int) pydict" where
  "mainline_map_of mainline =
     fold (\<lambda>(i, ev_id). dset ev_id (int i + 1)) (enumerate 0 (rev mainline)) []"

definition mainline_sort :: "nat \<Rightarrow> state_res_store \<Rightarrow> string \<Rightarrow> string list \<Rightarrow> string option
    \<Rightarrow> (event_map, string list) comp" where
  "mainline_sort fuel store room_id event_ids resolved_power_event_id =
     (if event_ids = [] then returnS []
      else
        bindS (mainline_loop fuel store room_id resolved_power_event_id []) (\<lambda>mainline.
        bindS (foldS (\<lambda>ev_id order_map.
                 bindS (map_event ev_id) (\<lambda>ev.
                 bindS (get_mainline_depth_for_event fuel store (mainline_map_of mainline) ev) (\<lambda>depth.
                 bindS (map_event ev_id) (\<lambda>ev'.
                   returnS (dset ev_id (depth, ev_origin_server_ts ev', ev_id) order_map)))))
                 event_ids []) (\<lambda>order_map.
          returnS (sort_key (\<lambda>ev_id. case dget order_map ev_id of Some k \<Rightarrow> k | None \<Rightarrow> (0, 0, ev_id)) event_ids))))"

section \<open>Resolution\<close>

definition all_in_room :: "string \<Rightarrow> event_map \<Rightarrow> unit res" where
  "all_in_room room_id event_map =
     checkE (\<lambda>event. bindE (event_room_id event) (\<lambda>rid.
       guardE (rid = room_id) (PyException ''Attempting to state-resolve for room with event which is in another'')))
       (dvalues event_map)"

text \<open>The events of the full conflicted set that are power events.\<close>

definition power_events_of :: "event_map \<Rightarrow> string list \<Rightarrow> string list res" where
  "power_events_of event_map ids =
     foldE (\<lambda>eid acc. bindE (optE KeyError (dget event_map eid)) (\<lambda>ev.
       bindE (is_power_event ev) (\<lambda>p. Inr (if p then acc @ [eid] else acc)))) ids []"

definition resolve_conflicts :: "externals \<Rightarrow> nat \<Rightarrow> state_res_store \<Rightarrow> string \<Rightarrow> room_version
    \<Rightarrow> state_ids \<Rightarrow> string list \<Rightarrow> (event_map, state_ids) comp" where
  "resolve_conflicts ext fuel store room_id rv unconflicted_state full_conflicted_set =
     bindS (\<lambda>em. bindE (power_events_of em full_conflicted_set) (\<lambda>p. Inr (p, em))) (\<lambda>power_events.
     bindS (reverse_topological_power_sort store room_id power_events full_conflicted_set) (\<lambda>sorted_power_events.
     bindS (iterative_auth_checks ext store room_id rv sorted_power_events
              (if state_res rv = StateRes_V2_1 then [] else unconflicted_state)) (\<lambda>resolved_state.
     bindS (mainline_sort fuel store room_id
              (filter (\<lambda>e. e \<notin> set sorted_power_events) full_conflicted_set)
              (dget resolved_state (EventTypes_PowerLevels, []))) (\<lambda>leftover_events.
     bindS (iterative_auth_checks ext store room_id rv leftover_events resolved_state) (\<lambda>final_state.
       returnS (dupdate final_state unconflicted_state))))))"

definition resolve_events_with_store :: "externals \<Rightarrow> nat \<Rightarrow> state_res_store \<Rightarrow> string \<Rightarrow> room_version
    \<Rightarrow> state_ids list \<Rightarrow> (event_map, state_ids) comp" where
  "resolve_events_with_store ext fuel store room_id rv state_sets event_map =
     (case seperate state_sets of (unconflicted_state, conflicted_state) \<Rightarrow>
        if conflicted_state = [] then Inr (unconflicted_state, event_map)
        else
          (let conflicted_ids = remdups (concat (dvalues conflicted_state)) in
           bindE (auth_chain_difference fuel store room_id state_sets event_map
                    (if state_res rv = StateRes_V2_1 then Some conflicted_ids else None)) (\<lambda>auth_diff.
             let full0 = set_union conflicted_ids auth_diff in
             bindE (get_events store (filter (\<lambda>eid. dget event_map eid = None) full0)) (\<lambda>events.
               let em = dupdate event_map events in
               bindE (all_in_room room_id em) (\<lambda>_.
                 resolve_conflicts ext fuel store room_id rv unconflicted_state
                   (filter (\<lambda>eid. dget em eid \<noteq> None) full0) em)))))"

end
