(* ===== verification/State_Res_Props.thy ===== *)
theory State_Res_Props
  imports State_Res_V2
begin

text \<open>
  Properties of state resolution: how the state sets are split into unconflicted and conflicted
  state, where the events in the event map come from, and what resolution computes: checks of the
  events in conflict in turn, on top of the agreed state. That the loops along the auth events end
  is in \<open>State_Res_Ends\<close>.
\<close>

section \<open>Conflicted and unconflicted state\<close>

definition unanimous :: "state_ids list \<Rightarrow> string \<times> string \<Rightarrow> string \<Rightarrow> bool" where
  "unanimous state_sets k eid \<longleftrightarrow> state_sets \<noteq> [] \<and> (\<forall>s\<in>set state_sets. dget s k = Some eid)"

definition proposed :: "state_ids list \<Rightarrow> string \<times> string \<Rightarrow> string set" where
  "proposed state_sets k = {eid. \<exists>s\<in>set state_sets. dget s k = Some eid}"

text \<open>One step of the loop over the keys.\<close>

definition sep_step :: "state_ids list \<Rightarrow> string \<times> string \<Rightarrow> state_ids \<times> (string \<times> string, string list) pydict
    \<Rightarrow> state_ids \<times> (string \<times> string, string list) pydict" where
  "sep_step state_sets = (\<lambda>key (unconflicted_state, conflicted_state).
        let event_ids = remdups (map (\<lambda>state_set. dget state_set key) state_sets) in
        if length event_ids = 1
        then (case hd event_ids of
                Some eid \<Rightarrow> (dset key eid unconflicted_state, conflicted_state)
              | None \<Rightarrow> (unconflicted_state, conflicted_state))
        else (unconflicted_state,
              dset key (map the (filter (\<lambda>x. x \<noteq> None) event_ids)) conflicted_state))"

lemma seperate_step: "seperate state_sets =
    fold (sep_step state_sets) (remdups (concat (map dkeys state_sets))) ([], [])"
  by (simp add: seperate_def sep_step_def)

lemma remdups_single: "length (remdups xs) = 1 \<longleftrightarrow> xs \<noteq> [] \<and> (\<forall>x\<in>set xs. x = hd xs)"
proof
  assume "length (remdups xs) = 1"
  then obtain y where y: "remdups xs = [y]" by (metis One_nat_def length_0_conv length_Suc_conv)
  then have "set xs = {y}" by (metis list.set(1,2) set_remdups)
  then show "xs \<noteq> [] \<and> (\<forall>x\<in>set xs. x = hd xs)" by (cases xs) auto
next
  assume "xs \<noteq> [] \<and> (\<forall>x\<in>set xs. x = hd xs)"
  then have "set xs = {hd xs}" by (cases xs) auto
  then show "length (remdups xs) = 1" by (simp add: length_remdups_card_conv)
qed

lemma sep_step_cases:
  obtains (agree) eid where "unanimous state_sets k eid" and "sep_step state_sets k (u, c) = (dset k eid u, c)"
  | (absent) "proposed state_sets k = {}" and "sep_step state_sets k (u, c) = (u, c)"
  | (conflict) ids where "\<forall>eid. \<not> unanimous state_sets k eid" and "set ids = proposed state_sets k"
      and "distinct ids" and "sep_step state_sets k (u, c) = (u, dset k ids c) "
proof (cases "length (remdups (map (\<lambda>s. dget s k) state_sets)) = 1")
  case True
  then have all: "state_sets \<noteq> []" by auto
  from True obtain y where y: "remdups (map (\<lambda>s. dget s k) state_sets) = [y]"
    by (metis One_nat_def length_0_conv length_Suc_conv)
  then have "set (map (\<lambda>s. dget s k) state_sets) = {y}" by (metis list.set(1,2) set_remdups)
  then have eq: "\<forall>s\<in>set state_sets. dget s k = y" by auto
  show ?thesis
  proof (cases y)
    case None
    with eq y show ?thesis by (intro absent) (auto simp: proposed_def sep_step_def)
  next
    case (Some eid)
    with eq y all show ?thesis by (intro agree) (auto simp: unanimous_def sep_step_def)
  qed
next
  case False
  let ?ids = "map the (filter (\<lambda>x. x \<noteq> None) (remdups (map (\<lambda>s. dget s k) state_sets)))"
  have "\<forall>eid. \<not> unanimous state_sets k eid"
  proof (intro allI notI)
    fix eid assume "unanimous state_sets k eid"
    then have "map (\<lambda>s. dget s k) state_sets \<noteq> [] \<and>
        (\<forall>x\<in>set (map (\<lambda>s. dget s k) state_sets). x = hd (map (\<lambda>s. dget s k) state_sets))"
      by (cases state_sets) (auto simp: unanimous_def)
    with False show False using remdups_single by blast
  qed
  moreover have "set ?ids = proposed state_sets k"
    by (force simp: proposed_def)
  moreover have "distinct ?ids"
    by (auto simp: distinct_map inj_on_def)
  moreover have "sep_step state_sets k (u, c) = (u, dset k ?ids c)"
    using False by (simp add: sep_step_def Let_def)
  ultimately show ?thesis by (rule conflict)
qed

definition separated :: "state_ids list \<Rightarrow> (string \<times> string) list \<Rightarrow> state_ids
    \<Rightarrow> (string \<times> string, string list) pydict \<Rightarrow> bool" where
  "separated state_sets keys u c \<longleftrightarrow> dict_ok u \<and> dict_ok c
     \<and> (\<forall>k eid. dget u k = Some eid \<longleftrightarrow> k \<in> set keys \<and> unanimous state_sets k eid)
     \<and> (\<forall>k ids. dget c k = Some ids \<longrightarrow> k \<in> set keys \<and> (\<forall>eid. \<not> unanimous state_sets k eid)
          \<and> set ids = proposed state_sets k)
     \<and> (\<forall>k\<in>set keys. proposed state_sets k \<noteq> {} \<longrightarrow>
          (\<exists>eid. unanimous state_sets k eid) \<or> dget c k \<noteq> None)"

lemma unanimous_unique: "unanimous sets k a \<Longrightarrow> unanimous sets k b \<Longrightarrow> a = b"
  by (cases sets) (auto simp: unanimous_def)

lemma unanimous_proposed: "unanimous sets k a \<Longrightarrow> a \<in> proposed sets k"
  by (cases sets) (auto simp: unanimous_def proposed_def)

lemma separated_step:
  assumes inv: "separated sets keys u c" and step: "sep_step sets k (u, c) = (u', c')"
  shows "separated sets (keys @ [k]) u' c'"
  using sep_step_cases [of sets k u c]
proof cases
  case (agree eid)
  with step have eq: "u' = dset k eid u" "c' = c" by simp_all
  have "dget u' k' = Some e \<longleftrightarrow> k' \<in> set (keys @ [k]) \<and> unanimous sets k' e" for k' e
    using inv agree(1) unanimous_unique [OF agree(1), of e] by (auto simp: eq separated_def simp del: split_paired_All)
  with inv agree(1) eq show ?thesis by (auto simp: separated_def simp del: split_paired_All)
next
  case absent
  then have "\<not> unanimous sets k e" for e using unanimous_proposed by blast
  with inv absent step show ?thesis by (auto simp: separated_def simp del: split_paired_All)
next
  case (conflict ids)
  with step have eq: "u' = u" "c' = dset k ids c" by simp_all
  from inv conflict show ?thesis unfolding eq separated_def by (auto split: if_splits simp del: split_paired_All)
qed

lemma separated_fold:
  "separated sets keys u c \<Longrightarrow> fold (sep_step sets) ks (u, c) = (u', c') \<Longrightarrow>
     separated sets (keys @ ks) u' c'"
proof (induction ks arbitrary: keys u c)
  case (Cons k ks)
  obtain u1 c1 where step: "sep_step sets k (u, c) = (u1, c1)" by fastforce
  from Cons.IH [OF separated_step [OF Cons.prems(1) step]] Cons.prems(2) step show ?case by simp
qed simp

lemma seperate_separated:
  assumes "seperate sets = (u, c)"
  shows "separated sets (remdups (concat (map dkeys sets))) u c"
proof -
  have "separated sets [] [] []" by (simp add: separated_def)
  from separated_fold [OF this] assms show ?thesis by (simp add: seperate_step)
qed

lemma proposed_in_keys: "proposed sets k \<noteq> {} \<Longrightarrow> k \<in> set (remdups (concat (map dkeys sets)))"
  by (force simp: proposed_def dkeys_def dest: map_of_SomeD)

text \<open>
  C28. Splitting the state. \<open>_seperate\<close> puts a key into the unconflicted state exactly if all state
  sets have the same event for it, and any other key that occurs into the conflicted state, with
  exactly the events that the state sets propose.
\<close>

theorem seperate_correct:
  assumes "seperate sets = (u, c)"
  shows "(dget u k = Some eid \<longleftrightarrow> unanimous sets k eid)
    \<and> (dget c k \<noteq> None \<longleftrightarrow> proposed sets k \<noteq> {} \<and> dget u k = None)
    \<and> (\<forall>ids. dget c k = Some ids \<longrightarrow> set ids = proposed sets k)"
proof -
  note sep = seperate_separated [OF assms]
  have u: "dget u k' = Some e \<longleftrightarrow> unanimous sets k' e" for k' e
    using sep proposed_in_keys unanimous_proposed unfolding separated_def by blast
  then have none: "dget u k = None \<longleftrightarrow> (\<forall>e. \<not> unanimous sets k e)"
    by (metis not_None_eq)
  have c: "set ids = proposed sets k \<and> (\<forall>e. \<not> unanimous sets k e) \<and> k \<in> set (concat (map dkeys sets))"
    if "dget c k = Some ids" for ids
    using sep that unfolding separated_def set_remdups by blast
  have ne: "proposed sets k \<noteq> {}" if "k \<in> set (concat (map dkeys sets))"
  proof -
    from that obtain s where s: "s \<in> set sets" "k \<in> set (dkeys s)" by auto
    then obtain e where "dget s k = Some e" using dget_None_iff [of s k] by auto
    with s(1) show ?thesis by (auto simp: proposed_def)
  qed
  have "dget c k \<noteq> None" if "proposed sets k \<noteq> {}" "dget u k = None"
    using that sep proposed_in_keys [OF that(1)] none unfolding separated_def by blast
  with u c ne none show ?thesis by blast
qed

theorem seperate_correct_witness:
  "unanimous [[((''a'', []), ''$1''), ((''b'', []), ''$2'')], [((''a'', []), ''$1'')]] (''a'', []) ''$1''"
proof -
  have "seperate [[((''a'', []), ''$1''), ((''b'', []), ''$2'')], [((''a'', []), ''$1'')]]
      = ([((''a'', []), ''$1'')], [((''b'', []), [''$2''])])" by code_simp
  from seperate_correct [OF this, of "(''a'', [])" "''$1''"] show ?thesis by simp
qed

section \<open>Triples for computations with a state\<close>

text \<open>Partial correctness: what holds of the result and the final state if there is a result.\<close>

definition triple :: "('s \<Rightarrow> bool) \<Rightarrow> ('s, 'a) comp \<Rightarrow> ('a \<Rightarrow> 's \<Rightarrow> bool) \<Rightarrow> bool" where
  "triple P m Q \<longleftrightarrow> (\<forall>s r s'. P s \<longrightarrow> m s = Inr (r, s') \<longrightarrow> Q r s')"

lemma tripleD: "triple P m Q \<Longrightarrow> P s \<Longrightarrow> m s = Inr (r, s') \<Longrightarrow> Q r s'"
  by (simp add: triple_def)

lemma triple_return: "(\<And>s. P s \<Longrightarrow> Q x s) \<Longrightarrow> triple P (returnS x) Q"
  by (simp add: triple_def)

lemma triple_bind: "triple P m R \<Longrightarrow> (\<And>x. triple (R x) (f x) Q) \<Longrightarrow> triple P (bindS m f) Q"
  by (fastforce simp: triple_def)

lemma triple_lift: "(\<And>x s. m = Inr x \<Longrightarrow> P s \<Longrightarrow> Q x s) \<Longrightarrow> triple P (liftS m) Q"
  by (auto simp: triple_def)

lemma triple_fold:
  "(\<And>x b. x \<in> set xs \<Longrightarrow> triple (I b) (f x b) I) \<Longrightarrow> triple (I b) (foldS f xs b) I"
proof (induction xs arbitrary: b)
  case Nil
  then show ?case by (simp add: triple_return)
next
  case (Cons x xs)
  then show ?case by (auto intro!: triple_bind [where R = I])
qed

lemma triple_fold_prefix:
  assumes "\<And>ys x b. triple (I ys b) (f x b) (I (ys @ [x]))"
  shows "triple (I ys b) (foldS f xs b) (I (ys @ xs))"
proof (induction xs arbitrary: ys b)
  case Nil
  then show ?case by (simp add: triple_return)
next
  case (Cons x xs)
  have "triple (I ys b) (bindS (f x b) (foldS f xs)) (I ((ys @ [x]) @ xs))"
    by (rule triple_bind [OF assms Cons.IH])
  then show ?case by simp
qed

lemma triple_pre: "triple P m Q \<Longrightarrow> (\<And>s. P' s \<Longrightarrow> P s) \<Longrightarrow> triple P' m Q"
  unfolding triple_def by blast

lemma triple_post: "triple P m Q \<Longrightarrow> (\<And>r s. Q r s \<Longrightarrow> Q' r s) \<Longrightarrow> triple P m Q'"
  unfolding triple_def by blast

section \<open>Where the events come from\<close>

text \<open>
  The event map \<open>em0\<close> is given by the caller and filled from the store. Its objects change in one
  way only: the redaction rule may mark an event for a later check. \<open>held\<close> is the event that the
  caller or the store has under an id, up to that mark; \<open>missing\<close>: neither of them has one.
\<close>

definition marked :: "event \<Rightarrow> event \<Rightarrow> bool" where
  "marked e e' \<longleftrightarrow> e' = e \<or> e' = e\<lparr>ev_recheck_redaction := True\<rparr>"

definition held :: "state_res_store \<Rightarrow> event_map \<Rightarrow> string \<Rightarrow> event \<Rightarrow> bool" where
  "held store em0 i e \<longleftrightarrow> (\<exists>e0. marked e0 e
     \<and> (dget em0 i = Some e0 \<or> (\<exists>ids events. get_events store ids = Inr events \<and> dget events i = Some e0)))"

definition missing :: "state_res_store \<Rightarrow> event_map \<Rightarrow> string \<Rightarrow> bool" where
  "missing store em0 i \<longleftrightarrow> dget em0 i = None
     \<and> (\<exists>asked events. i \<in> set asked \<and> get_events store asked = Inr events \<and> dget events i = None)"

lemma held_marked: "held store em0 i e \<Longrightarrow> marked e e' \<Longrightarrow> held store em0 i e'"
  unfolding held_def marked_def by fastforce

definition tracked :: "state_res_store \<Rightarrow> event_map \<Rightarrow> event_map \<Rightarrow> bool" where
  "tracked store em0 em \<longleftrightarrow> own_ids em \<and> (\<forall>i e. dget em i = Some e \<longrightarrow> held store em0 i e)
     \<and> (\<forall>i. dget em0 i \<noteq> None \<longrightarrow> dget em i \<noteq> None)"

lemma tracked_own: "tracked store em0 em \<Longrightarrow> own_ids em"
  by (simp add: tracked_def)

lemma tracked_held: "tracked store em0 em \<Longrightarrow> dget em i = Some e \<Longrightarrow> held store em0 i e"
  unfolding tracked_def by blast

lemma tracked_known: "tracked store em0 em \<Longrightarrow> dget em i = None \<Longrightarrow> dget em0 i = None"
  unfolding tracked_def by blast

lemma tracked_start: "own_ids em0 \<Longrightarrow> tracked store em0 em0"
  by (auto simp: tracked_def held_def marked_def)

lemma tracked_dset:
  assumes "tracked store em0 em" "held store em0 i e" "ev_event_id e = i"
  shows "tracked store em0 (dset i e em)"
  using assms own_ids_dset [OF tracked_own [OF assms(1)] assms(3)] by (auto simp: tracked_def)

section \<open>The event map stays consistent\<close>

text \<open>State resolution with a store that satisfies the interface of \<open>Event_Store\<close>.\<close>

locale resolution_store = event_source "get_events store" for store :: state_res_store
begin

abbreviation keeps :: "event_map \<Rightarrow> (event_map, 'a) comp \<Rightarrow> bool" where
  "keeps em0 m \<equiv> triple (tracked store em0) m (\<lambda>_. tracked store em0)"

lemma tracked_fetch:
  assumes "tracked store em0 em" "get_events store ids = Inr new"
  shows "tracked store em0 (dupdate em new)"
proof -
  have get: "dget (dupdate em new) = dget em ++ dget new"
    by (rule dget_dupdate_ok [OF fetch_dict [OF assms(2)]])
  have "held store em0 i e" if "dget new i = Some e" for i e
    using that assms(2) unfolding held_def marked_def by blast
  then show ?thesis
    using assms(1) own_ids_fetch [OF tracked_own [OF assms(1)] assms(2)]
    unfolding tracked_def get by (auto simp: map_add_def split: option.splits)
qed

lemma keeps_get_event_opt:
  "triple (tracked store em0) (get_event_opt store room_id eid)
     (\<lambda>r em. tracked store em0 em
        \<and> (case r of None \<Rightarrow> missing store em0 eid
           | Some e \<Rightarrow> dget em eid = Some e \<and> held store em0 eid e \<and> event_room_id e = Inr room_id))"
  unfolding triple_def
proof (intro allI impI)
  fix em r em'
  assume tr: "tracked store em0 em" and run: "get_event_opt store room_id eid em = Inr (r, em')"
  have "tracked store em0 em' \<and> (dget em' eid = None \<longrightarrow> missing store em0 eid)"
  proof (cases "dget em eid")
    case None
    then obtain events where events: "get_events store [eid] = Inr events" "em' = dupdate em events"
      using run by (auto simp: get_event_opt_def split: option.splits if_splits)
    then show ?thesis
      using tracked_fetch [OF tr] tracked_known [OF tr None] None
      by (auto simp: missing_def dget_dupdate_ok [OF fetch_dict [OF events(1)]] intro!: exI [of _ "[eid]"])
  next
    case (Some e)
    then show ?thesis using run tr by (auto simp: get_event_opt_def split: if_splits)
  qed
  moreover have "dget em' eid = r \<and> (\<forall>e. r = Some e \<longrightarrow> event_room_id e = Inr room_id)"
    using run by (auto simp: get_event_opt_def split: option.splits if_splits)
  ultimately show "tracked store em0 em'
        \<and> (case r of None \<Rightarrow> missing store em0 eid
           | Some e \<Rightarrow> dget em' eid = Some e \<and> held store em0 eid e \<and> event_room_id e = Inr room_id)"
    using tracked_held by (cases r) auto
qed

lemma keeps_get_event:
  "triple (tracked store em0) (get_event store room_id eid)
     (\<lambda>e em. tracked store em0 em \<and> dget em eid = Some e \<and> held store em0 eid e \<and> event_room_id e = Inr room_id)"
  unfolding get_event_def
  by (rule triple_bind [OF keeps_get_event_opt]) (auto intro: triple_lift)

lemma keeps_get_event_opt': "keeps em0 (get_event_opt store room_id eid)"
  by (rule triple_post [OF keeps_get_event_opt]) blast

lemma keeps_get_event': "keeps em0 (get_event store room_id eid)"
  by (rule triple_post [OF keeps_get_event]) blast

lemma keeps_map_event: "keeps em0 (map_event eid)"
  by (auto simp: triple_def map_event_def)

lemma keeps_return: "keeps em0 (returnS x)"
  by (rule triple_return)

lemma keeps_lift: "keeps em0 (liftS m)"
  by (rule triple_lift)

lemma keeps_bind: "keeps em0 m \<Longrightarrow> (\<And>x. keeps em0 (f x)) \<Longrightarrow> keeps em0 (bindS m f)"
  by (rule triple_bind)

lemma keeps_fold: "(\<And>x b. keeps em0 (f x b)) \<Longrightarrow> keeps em0 (foldS f xs b)"
  by (rule triple_fold)

lemmas keeps_rules = keeps_return keeps_lift keeps_bind keeps_fold keeps_map_event
  keeps_get_event' keeps_get_event_opt'

lemma keeps_find_pl_and_create: "keeps em0 (find_pl_and_create store room_id ids)"
  unfolding find_pl_and_create_def
  by (intro keeps_rules) (auto intro!: keeps_rules split: option.splits)

lemma keeps_creator_level_loop: "keeps em0 (creator_level_loop store room_id event ids)"
  by (induction ids) (auto intro!: keeps_rules split: option.splits simp: Let_def)

lemma keeps_power_level: "keeps em0 (get_power_level_for_sender store room_id eid)"
  unfolding get_power_level_for_sender_def
  by (intro keeps_rules)
    (auto intro!: keeps_rules keeps_find_pl_and_create keeps_creator_level_loop split: option.splits)

definition graph_within :: "string set \<Rightarrow> string graph \<Rightarrow> bool" where
  "graph_within S graph \<longleftrightarrow> dict_ok graph \<and> set (dkeys graph) \<subseteq> S"

lemma keeps_add_to_graph':
  "st = store \<Longrightarrow> tracked store em0 em \<Longrightarrow> add_to_graph st room_id full stack graph em = Inr (g, em') \<Longrightarrow>
     graph_within S graph \<Longrightarrow> set stack \<subseteq> S \<Longrightarrow> set full \<subseteq> S \<Longrightarrow> tracked store em0 em' \<and> graph_within S g"
proof (induction st room_id full stack graph em arbitrary: g em' rule: add_to_graph.induct)
  case (2 st room_id full eid stack graph em)
  from 2(4) obtain event em1 ids where e: "get_event st room_id eid em = Inr (event, em1)"
    and ids: "auth_event_ids event = Inr ids" by auto
  have tr: "tracked store em0 em1" using tripleD [OF keeps_get_event' 2(3)] e 2(2) by blast
  let ?g1 = "if dget graph eid = None then dset eid [] graph else graph"
  let ?aids = "filter (\<lambda>aid. aid \<in> set full) ids"
  let ?l = "set_union (case dget ?g1 eid of None \<Rightarrow> [] | Some l \<Rightarrow> l) ?aids"
  have within: "graph_within S (dset eid ?l ?g1)" "set (rev (filter (\<lambda>aid. dget ?g1 aid = None) ?aids) @ stack) \<subseteq> S"
    using 2(5-7) by (auto simp: graph_within_def)
  have "add_to_graph st room_id full (rev (filter (\<lambda>aid. dget ?g1 aid = None) ?aids) @ stack) (dset eid ?l ?g1) em1
      = Inr (g, em')"
    using 2(4) e ids by (simp add: Let_def)
  from 2(1) [OF e refl ids refl refl 2(2) tr this within 2(7)] show ?case .
qed simp

lemma keeps_add_to_graph:
  assumes "set stack \<subseteq> S" "set full \<subseteq> S"
  shows "triple (\<lambda>em. tracked store em0 em \<and> graph_within S graph) (add_to_graph store room_id full stack graph)
    (\<lambda>g em. tracked store em0 em \<and> graph_within S g)"
  using keeps_add_to_graph' [OF refl] assms unfolding triple_def by blast

lemma triple_const: "triple P m (\<lambda>_. P) \<Longrightarrow> triple (\<lambda>s. P s \<and> A) m (\<lambda>_ s. P s \<and> A)"
  unfolding triple_def by blast

lemma triple_assume: "(A \<Longrightarrow> triple P m Q) \<Longrightarrow> triple (\<lambda>s. P s \<and> A) m Q"
  unfolding triple_def by blast

lemma sort_within: "graph_within S g \<Longrightarrow> lexicographical_topological_sort g key = Inr xs \<Longrightarrow> set xs \<subseteq> S"
  using sort_is_greedy [of g key] greedy_sound [of g key "{}" xs] by (auto simp: graph_within_def)

text \<open>The power events come out sorted, and nothing comes out that is not in the conflicted set.\<close>

lemma keeps_power_graph:
  assumes "set event_ids \<subseteq> S" "set full \<subseteq> S"
  shows "triple (tracked store em0) (foldS (\<lambda>event_id graph. add_to_graph store room_id full [event_id] graph) event_ids [])
    (\<lambda>graph em. tracked store em0 em \<and> graph_within S graph)"
proof -
  let ?I = "\<lambda>graph em. tracked store em0 em \<and> graph_within S graph"
  show ?thesis
  proof (rule triple_pre [where P = "?I []", OF triple_fold [where I = ?I]])
    fix x graph assume "x \<in> set event_ids"
    then show "triple (?I graph) (add_to_graph store room_id full [x] graph) ?I"
      using assms by (intro keeps_add_to_graph) auto
  qed (simp add: graph_within_def dkeys_def)
qed

lemma keeps_power_sort:
  assumes "set event_ids \<subseteq> S" "set full \<subseteq> S"
  shows "triple (tracked store em0) (reverse_topological_power_sort store room_id event_ids full)
    (\<lambda>xs em. tracked store em0 em \<and> set xs \<subseteq> S)"
proof -
  have levels: "keeps em0 (foldS (\<lambda>event_id event_to_pl.
      bindS (get_power_level_for_sender store room_id event_id) (\<lambda>pl. returnS (dset event_id pl event_to_pl))) ks [])" for ks
    by (intro keeps_rules keeps_power_level)
  have keys: "keeps em0 (foldS (\<lambda>event_id order.
      bindS (power_order event_to_pl event_id) (\<lambda>k. returnS (dset event_id k order))) ks [])" for ks event_to_pl
    unfolding power_order_def by (intro keeps_rules)
  show ?thesis
    unfolding reverse_topological_power_sort_def
    by (intro triple_bind [OF keeps_power_graph [OF assms]] triple_bind [OF triple_const [OF levels]]
        triple_bind [OF triple_const [OF keys]] triple_lift) (use sort_within in blast)
qed

lemma keeps_find_pl: "keeps em0 (find_pl_auth_event store room_id ids)"
  by (induction ids) (auto intro!: keeps_rules split: option.splits)

lemma keeps_mainline: "keeps em0 (mainline_loop fuel store room_id pl mainline)"
  by (induction fuel arbitrary: pl mainline; case_tac pl) (auto intro!: keeps_rules keeps_find_pl)

lemma keeps_mainline_depth: "keeps em0 (mainline_depth_loop fuel store room_id mmap ev)"
  by (induction fuel arbitrary: ev; case_tac ev)
    (auto intro!: keeps_rules keeps_find_pl split: option.splits)

lemma keeps_mainline_sort:
  "triple (tracked store em0) (mainline_sort fuel store room_id event_ids pl)
     (\<lambda>xs em. tracked store em0 em \<and> set xs = set event_ids)"
proof (cases "event_ids = []")
  case False
  let ?depths = "\<lambda>mainline. foldS (\<lambda>ev_id order_map.
      bindS (map_event ev_id) (\<lambda>ev.
      bindS (get_mainline_depth_for_event fuel store (mainline_map_of mainline) ev) (\<lambda>depth.
      bindS (map_event ev_id) (\<lambda>ev'.
        returnS (dset ev_id (depth, ev_origin_server_ts ev', ev_id) order_map))))) event_ids []"
  have depths: "keeps em0 (?depths mainline)" for mainline
    unfolding get_mainline_depth_for_event_def by (intro keeps_rules keeps_mainline_depth)
  show ?thesis
    using False unfolding mainline_sort_def
    by (simp add: triple_bind [OF keeps_mainline triple_bind [OF depths triple_return]])
qed (simp add: mainline_sort_def triple_return)

end

section \<open>What the resolved state guarantees\<close>

text \<open>The state that all state sets agree on, and the events that are proposed and not agreed on.\<close>

definition agreed :: "state_ids list \<Rightarrow> string \<times> string \<Rightarrow> string option" where
  "agreed sets k = (case sets of [] \<Rightarrow> None
     | s # rest \<Rightarrow> if \<forall>s'\<in>set rest. dget s' k = dget s k then dget s k else None)"

definition conflicting :: "state_ids list \<Rightarrow> string set" where
  "conflicting sets = {eid. \<exists>k. eid \<in> proposed sets k \<and> agreed sets k = None}"

lemma agreed_iff: "agreed sets k = Some eid \<longleftrightarrow> unanimous sets k eid"
  by (cases sets) (auto simp: agreed_def unanimous_def)

lemma seperate_agreed:
  assumes "seperate sets = (u, c)"
  shows "dget u = agreed sets" "set (concat (dvalues c)) = conflicting sets" "dict_ok u"
    "c = [] \<Longrightarrow> conflicting sets = {}"
proof -
  note sep = seperate_separated [OF assms]
  show u: "dget u = agreed sets"
  proof
    fix k
    have "dget u k = Some eid \<longleftrightarrow> agreed sets k = Some eid" for eid
      using sep proposed_in_keys unanimous_proposed unfolding agreed_iff separated_def by blast
    then show "dget u k = agreed sets k" by (metis not_None_eq)
  qed
  show "dict_ok u" using sep by (simp add: separated_def)
  have c: "dict_ok c" using sep by (simp add: separated_def)
  have none: "agreed sets k = None \<longleftrightarrow> (\<forall>eid. \<not> unanimous sets k eid)" for k
    by (metis agreed_iff not_None_eq)
  have ids: "set ids = proposed sets k \<and> agreed sets k = None" if "dget c k = Some ids" for k ids
    using sep that unfolding separated_def none by blast
  have conflict: "\<exists>ids. dget c k = Some ids" if "proposed sets k \<noteq> {}" "agreed sets k = None" for k
    using sep proposed_in_keys [OF that(1)] that unfolding separated_def none by blast
  show "set (concat (dvalues c)) = conflicting sets"
  proof (intro equalityI subsetI)
    fix x assume "x \<in> set (concat (dvalues c))"
    then obtain k ids where "(k, ids) \<in> set c" "x \<in> set ids" by (auto simp: dvalues_def)
    then show "x \<in> conflicting sets" using ids [of k ids] c
      by (simp add: dget_iff_mem conflicting_def del: split_paired_Ex) blast
  next
    fix x assume "x \<in> conflicting sets"
    then obtain k where k: "x \<in> proposed sets k" "agreed sets k = None" by (auto simp: conflicting_def)
    then obtain ids where "dget c k = Some ids" using conflict by blast
    then show "x \<in> set (concat (dvalues c))" using ids k(1) dget_in_values by fastforce
  qed
  then show "c = [] \<Longrightarrow> conflicting sets = {}" by (simp add: dvalues_def)
qed

text \<open>
  The auth events that an event with the auth events \<open>ids\<close> and the auth types \<open>ts\<close> is checked
  against, when the state so far is \<open>r\<close>. All of them are of the room and not rejected; each is the
  entry of the state for one of the types, or one of the auth events under its own key. An entry of
  the state for one of the types is left out only if that event was rejected; otherwise it takes
  precedence. An auth event is left out only if it was rejected, is missing, or another one has its key.
\<close>

definition auth_event_usable :: "string \<Rightarrow> event \<Rightarrow> bool" where
  "auth_event_usable room_id a \<longleftrightarrow> event_room_id a = Inr room_id \<and> ev_rejected_reason a = None"

definition auth_dict_for :: "state_res_store \<Rightarrow> event_map \<Rightarrow> string \<Rightarrow> string list \<Rightarrow> (string \<times> string) list
    \<Rightarrow> (string \<times> string \<Rightarrow> string option) \<Rightarrow> (string \<times> string, event) pydict \<Rightarrow> bool" where
  "auth_dict_for store em0 room_id ids ts r d \<longleftrightarrow> dict_ok d
     \<and> (\<forall>k a. dget d k = Some a \<longrightarrow> auth_event_usable room_id a
          \<and> ((\<exists>aid. k \<in> set ts \<and> r k = Some aid \<and> held store em0 aid a)
             \<or> (\<exists>aid\<in>set ids. event_key a = Inr k \<and> held store em0 aid a)))
     \<and> (\<forall>k\<in>set ts. \<forall>aid. r k = Some aid \<longrightarrow>
          (\<exists>a. held store em0 aid a \<and> (ev_rejected_reason a \<noteq> None \<or> dget d k = Some a)))
     \<and> (\<forall>aid\<in>set ids. missing store em0 aid
          \<or> (\<exists>a. held store em0 aid a \<and> (ev_rejected_reason a \<noteq> None \<or> (\<exists>k. event_key a = Inr k \<and> dget d k \<noteq> None))))"

lemma auth_dict_start: "auth_dict_for store em0 room_id [] [] r []"
  by (simp add: auth_dict_for_def)

lemma auth_dict_own_skip:
  assumes "auth_dict_for store em0 room_id ids [] r d"
    and "missing store em0 aid \<or> (\<exists>a. held store em0 aid a \<and> ev_rejected_reason a \<noteq> None)"
  shows "auth_dict_for store em0 room_id (ids @ [aid]) [] r d"
  using assms unfolding auth_dict_for_def by (simp del: split_paired_All split_paired_Ex) blast

text \<open>How one entry more changes the lookup.\<close>

lemma dset_eq_Some: "dget (dset k e d) k' = Some a \<longleftrightarrow> (if k' = k then a = e else dget d k' = Some a)"
  by auto

lemma dset_neq_None: "dget (dset k e d) k' \<noteq> None \<longleftrightarrow> k' = k \<or> dget d k' \<noteq> None"
  by simp

lemma auth_dict_own_add:
  assumes d: "auth_dict_for store em0 room_id ids [] r d"
    and e: "held store em0 aid e" "auth_event_usable room_id e" "event_key e = Inr k"
  shows "auth_dict_for store em0 room_id (ids @ [aid]) [] r (dset k e d)"
proof -
  note d' = d [unfolded auth_dict_for_def]
  have "dict_ok (dset k e d)" using d' by simp
  moreover have "auth_event_usable room_id a \<and> (\<exists>i\<in>set (ids @ [aid]). event_key a = Inr k' \<and> held store em0 i a)"
    if "dget (dset k e d) k' = Some a" for k' a
  proof (cases "k' = k")
    case True
    then show ?thesis using that e unfolding dset_eq_Some by simp
  next
    case False
    then have "dget d k' = Some a" using that unfolding dset_eq_Some by simp
    then show ?thesis using d' unfolding set_append by (metis UnI1 empty_iff list.set(1))
  qed
  moreover have "missing store em0 i \<or> (\<exists>a. held store em0 i a
      \<and> (ev_rejected_reason a \<noteq> None \<or> (\<exists>k'. event_key a = Inr k' \<and> dget (dset k e d) k' \<noteq> None)))"
    if "i \<in> set (ids @ [aid])" for i
  proof (cases "i \<in> set ids")
    case True
    then show ?thesis using d' unfolding dset_neq_None by blast
  next
    case False
    then show ?thesis using that e unfolding dset_neq_None by (metis Un_iff empty_iff empty_set insert_iff list.simps(15) set_append)
  qed
  ultimately show ?thesis unfolding auth_dict_for_def by (simp del: split_paired_All split_paired_Ex dget_dset)
qed

lemma auth_dict_state_skip:
  assumes d: "auth_dict_for store em0 room_id ids ts r d"
    and "\<forall>aid. r k = Some aid \<longrightarrow> (\<exists>a. held store em0 aid a \<and> ev_rejected_reason a \<noteq> None)"
  shows "auth_dict_for store em0 room_id ids (ts @ [k]) r d"
  using assms unfolding auth_dict_for_def set_append by (simp del: split_paired_All split_paired_Ex) blast

lemma auth_dict_state_add:
  assumes d: "auth_dict_for store em0 room_id ids ts r d"
    and e: "r k = Some eid" "held store em0 eid e" "auth_event_usable room_id e"
  shows "auth_dict_for store em0 room_id ids (ts @ [k]) r (dset k e d)"
proof -
  note d' = d [unfolded auth_dict_for_def]
  have "dict_ok (dset k e d)" using d' by simp
  moreover have "auth_event_usable room_id a \<and> ((\<exists>aid. k' \<in> set (ts @ [k]) \<and> r k' = Some aid \<and> held store em0 aid a)
      \<or> (\<exists>aid\<in>set ids. event_key a = Inr k' \<and> held store em0 aid a))"
    if "dget (dset k e d) k' = Some a" for k' a
  proof (cases "k' = k")
    case True
    then show ?thesis using that e unfolding dset_eq_Some by simp
  next
    case False
    then have "dget d k' = Some a" using that unfolding dset_eq_Some by simp
    then show ?thesis using d' unfolding set_append by blast
  qed
  moreover have "\<exists>a. held store em0 aid a \<and> (ev_rejected_reason a \<noteq> None \<or> dget (dset k e d) k' = Some a)"
    if "k' \<in> set (ts @ [k])" "r k' = Some aid" for k' aid
  proof (cases "k' = k")
    case True
    then show ?thesis using that e by (auto simp: dset_eq_Some)
  next
    case False
    then have "k' \<in> set ts" using that(1) by simp
    then show ?thesis using d' that(2) False unfolding dset_eq_Some by simp
  qed
  moreover have "missing store em0 aid \<or> (\<exists>a. held store em0 aid a
      \<and> (ev_rejected_reason a \<noteq> None \<or> (\<exists>k'. event_key a = Inr k' \<and> dget (dset k e d) k' \<noteq> None)))"
    if "aid \<in> set ids" for aid
    using d' that unfolding dset_neq_None by blast
  ultimately show ?thesis unfolding auth_dict_for_def by blast
qed

text \<open>
  The checks of a list of events in turn, on the state \<open>base\<close>: an event that is not rejected and that the
  auth rules accept against its auth events takes its place in the state; an event that was
  rejected, or that the auth rules refuse against them, is dropped.
\<close>

inductive checks_in_turn :: "externals \<Rightarrow> state_res_store \<Rightarrow> event_map \<Rightarrow> string \<Rightarrow> room_version
    \<Rightarrow> (string \<times> string \<Rightarrow> string option) \<Rightarrow> string list \<Rightarrow> (string \<times> string \<Rightarrow> string option) \<Rightarrow> bool"
  for ext store em0 room_id rv base where
  start: "checks_in_turn ext store em0 room_id rv base [] base"
| admit: "checks_in_turn ext store em0 room_id rv base ids r \<Longrightarrow>
    held store em0 eid e \<Longrightarrow> ev_rejected_reason e = None \<Longrightarrow>
    auth_event_ids e = Inr aids \<Longrightarrow> auth_types_for_event rv e = Inr ts \<Longrightarrow> auth_dict_for store em0 room_id aids ts r d \<Longrightarrow>
    check_state_dependent_auth_rules ext e (dvalues d) = Inr e' \<Longrightarrow> event_key e = Inr k \<Longrightarrow>
    checks_in_turn ext store em0 room_id rv base (ids @ [eid]) (r(k \<mapsto> eid))"
| drop_rejected: "checks_in_turn ext store em0 room_id rv base ids r \<Longrightarrow>
    held store em0 eid e \<Longrightarrow> ev_rejected_reason e \<noteq> None \<Longrightarrow>
    checks_in_turn ext store em0 room_id rv base (ids @ [eid]) r"
| drop_refused: "checks_in_turn ext store em0 room_id rv base ids r \<Longrightarrow>
    held store em0 eid e \<Longrightarrow>
    auth_event_ids e = Inr aids \<Longrightarrow> auth_types_for_event rv e = Inr ts \<Longrightarrow> auth_dict_for store em0 room_id aids ts r d \<Longrightarrow>
    check_state_dependent_auth_rules ext e (dvalues d) = Inl err \<Longrightarrow> is_AuthError err \<Longrightarrow>
    checks_in_turn ext store em0 room_id rv base (ids @ [eid]) r"

text \<open>The rules change nothing of the event but the mark.\<close>

lemma check_redaction_marks: "check_redaction rv e am = Inr (b, e') \<Longrightarrow> marked e e'"
  by (cases "redacts e") (auto simp: check_redaction_def marked_def split: if_splits)

definition marks_only :: "event \<Rightarrow> event res \<Rightarrow> bool" where
  "marks_only e m \<longleftrightarrow> (\<forall>e'. m = Inr e' \<longrightarrow> marked e e')"

lemma marks_only_simps [simp]: "marks_only e (Inl x)" "marks_only e (Inr e)"
  by (simp_all add: marks_only_def marked_def)

lemma marks_only_bindE: "(\<And>x. m = Inr x \<Longrightarrow> marks_only e (f x)) \<Longrightarrow> marks_only e (bindE m f)"
  by (cases m) simp_all

lemma check_rules_marks:
  assumes "check_state_dependent_auth_rules ext e aes = Inr e'"
  shows "marked e e'"
proof -
  have redaction: "marks_only e (Inr b)" if "check_redaction rv e am = Inr (a, b)" for rv am a b
    using check_redaction_marks [OF that] by (simp add: marks_only_def)
  have "marks_only e (check_state_dependent_auth_rules ext e aes)"
    unfolding check_state_dependent_auth_rules_def check_against_auth_dict_def
    by (auto intro!: marks_only_bindE split: option.split) (use redaction in blast)+
  with assms show ?thesis by (simp add: marks_only_def)
qed

lemma marked_id: "marked e e' \<Longrightarrow> ev_event_id e' = ev_event_id e"
  by (auto simp: marked_def)

context resolution_store
begin

lemma own_auth_events_for:
  "triple (tracked store em0) (own_auth_events store room_id ids)
     (\<lambda>d em. tracked store em0 em \<and> auth_dict_for store em0 room_id ids [] r d)"
proof -
  let ?I = "\<lambda>ys d em. tracked store em0 em \<and> auth_dict_for store em0 room_id ys [] r d"
  have step: "triple (?I ys d)
      (bindS (get_event_opt store room_id aid) (\<lambda>found. case found of
         None \<Rightarrow> returnS d
       | Some ev \<Rightarrow> if ev_rejected_reason ev = None
           then bindS (liftS (event_key ev)) (\<lambda>k. returnS (dset k ev d)) else returnS d)) (?I (ys @ [aid]))" for ys aid d
    unfolding triple_def
  proof (intro allI impI)
    fix em r' em'
    assume I: "?I ys d em" and run: "bindS (get_event_opt store room_id aid) (\<lambda>found. case found of
         None \<Rightarrow> returnS d
       | Some ev \<Rightarrow> if ev_rejected_reason ev = None
           then bindS (liftS (event_key ev)) (\<lambda>k. returnS (dset k ev d)) else returnS d) em = Inr (r', em')"
    then obtain found em1 where found: "get_event_opt store room_id aid em = Inr (found, em1)" by auto
    note post = tripleD [OF keeps_get_event_opt _ found, of em0]
    show "?I (ys @ [aid]) r' em'"
    proof (cases found)
      case None
      then show ?thesis using run found post I auth_dict_own_skip by auto
    next
      case (Some ev)
      then have ev: "tracked store em0 em1" "held store em0 aid ev" "event_room_id ev = Inr room_id"
        using post I by auto
      show ?thesis
      proof (cases "ev_rejected_reason ev = None")
        case True
        then obtain k where k: "event_key ev = Inr k" "r' = dset k ev d" "em' = em1"
          using run found Some by auto
        have "auth_event_usable room_id ev" using ev(3) True by (simp add: auth_event_usable_def)
        then show ?thesis
          using I auth_dict_own_add [OF _ ev(2) _ k(1)] ev(1) unfolding k(2,3) by blast
      next
        case False
        then have "r' = d" "em' = em1" using run found Some by auto
        then show ?thesis using I ev False auth_dict_own_skip by blast
      qed
    qed
  qed
  have "triple (?I [] []) (own_auth_events store room_id ids) (?I ([] @ ids))"
    unfolding own_auth_events_def by (rule triple_fold_prefix [where I = ?I, OF step])
  then show ?thesis by (simp add: auth_dict_start)
qed

lemma state_auth_events_for:
  "triple (\<lambda>em. tracked store em0 em \<and> auth_dict_for store em0 room_id ids [] (dget r) d0)
     (state_auth_events store room_id r ts d0)
     (\<lambda>d em. tracked store em0 em \<and> auth_dict_for store em0 room_id ids ts (dget r) d)"
proof -
  let ?I = "\<lambda>ys d em. tracked store em0 em \<and> auth_dict_for store em0 room_id ids ys (dget r) d"
  have step: "triple (?I ys d)
      (case dget r key of
         None \<Rightarrow> returnS d
       | Some ev_id \<Rightarrow>
           bindS (get_event store room_id ev_id) (\<lambda>ev.
             if ev_rejected_reason ev = None
             then bindS (map_event ev_id) (\<lambda>e. returnS (dset key e d)) else returnS d)) (?I (ys @ [key]))" for ys key d
  proof (cases "dget r key")
    case None
    then show ?thesis by (auto simp: triple_def intro: auth_dict_state_skip)
  next
    case (Some eid)
    show ?thesis
      unfolding triple_def Some option.case
    proof (intro allI impI)
      fix em d' em'
      assume I: "?I ys d em" and run: "bindS (get_event store room_id eid) (\<lambda>ev.
             if ev_rejected_reason ev = None
             then bindS (map_event eid) (\<lambda>e. returnS (dset key e d)) else returnS d) em = Inr (d', em')"
      then obtain ev em1 where ev: "get_event store room_id eid em = Inr (ev, em1)" by auto
      have post: "tracked store em0 em1" "dget em1 eid = Some ev" "held store em0 eid ev" "event_room_id ev = Inr room_id"
        using tripleD [OF keeps_get_event _ ev, of em0] I by auto
      show "?I (ys @ [key]) d' em'"
      proof (cases "ev_rejected_reason ev = None")
        case True
        then have "d' = dset key ev d" "em' = em1" using run ev post(2) by (auto simp: map_event_def)
        moreover have "auth_event_usable room_id ev" using post(4) True by (simp add: auth_event_usable_def)
        ultimately show ?thesis using I auth_dict_state_add [where r = "dget r", OF _ Some post(3)] post(1) by blast
      next
        case False
        then have eq: "d' = d" "em' = em1" using run ev by auto
        have "\<forall>aid. dget r key = Some aid \<longrightarrow> (\<exists>a. held store em0 aid a \<and> ev_rejected_reason a \<noteq> None)"
          using Some post(3) False by (metis option.inject)
        then show ?thesis using I auth_dict_state_skip post(1) unfolding eq by blast
      qed
    qed
  qed
  have "triple (?I [] d0) (state_auth_events store room_id r ts d0) (?I ([] @ ts))"
    unfolding state_auth_events_def by (rule triple_fold_prefix [where I = ?I, OF step])
  then show ?thesis by simp
qed

text \<open>One check, and the checks of a list.\<close>

lemma auth_check_event_in_turn:
  "triple (\<lambda>em. tracked store em0 em \<and> checks_in_turn ext store em0 room_id rv base ids (dget r))
     (auth_check_event ext store room_id rv eid r)
     (\<lambda>r' em. tracked store em0 em \<and> checks_in_turn ext store em0 room_id rv base (ids @ [eid]) (dget r'))"
  unfolding triple_def
proof (intro allI impI)
  fix em r' em'
  assume pre: "tracked store em0 em \<and> checks_in_turn ext store em0 room_id rv base ids (dget r)"
    and run: "auth_check_event ext store room_id rv eid r em = Inr (r', em')"
  let ?finish = "\<lambda>event aes. if ev_rejected_reason event \<noteq> None then returnS r
       else (case check_state_dependent_auth_rules ext event (dvalues aes) of
           Inr event' \<Rightarrow>
             bindS (liftS (event_key event)) (\<lambda>k.
             bindS (\<lambda>em. Inr ((), dset eid event' em)) (\<lambda>_. returnS (dset k eid r)))
         | Inl e \<Rightarrow> if is_AuthError e then returnS r else liftS (Inl e))"
  from run obtain event aids d0 em1 ts d em2 where
    ev: "dget em eid = Some event" and aids: "auth_event_ids event = Inr aids"
    and own: "own_auth_events store room_id aids em = Inr (d0, em1)"
    and ts: "auth_types_for_event rv event = Inr ts"
    and st: "state_auth_events store room_id r ts d0 em1 = Inr (d, em2)"
    and res: "?finish event d em2 = Inr (r', em')"
    unfolding auth_check_event_def map_event_def by (auto split: option.splits)
  note held = tracked_held [OF conjunct1 [OF pre] ev]
  have id: "ev_event_id event = eid" using own_idsD [OF tracked_own [OF conjunct1 [OF pre]] ev] .
  have "tracked store em0 em1 \<and> auth_dict_for store em0 room_id aids [] (dget r) d0"
    using tripleD [OF own_auth_events_for _ own] pre by blast
  then have post: "tracked store em0 em2" "auth_dict_for store em0 room_id aids ts (dget r) d"
    using tripleD [OF state_auth_events_for _ st] by blast+
  note turn = conjunct2 [OF pre]
  show "tracked store em0 em' \<and> checks_in_turn ext store em0 room_id rv base (ids @ [eid]) (dget r')"
  proof (cases "ev_rejected_reason event = None")
    case False
    then have "r' = r" "em' = em2" using res by auto
    then show ?thesis using post(1) checks_in_turn.drop_rejected [OF turn held False] by simp
  next
    case True
    show ?thesis
    proof (cases "check_state_dependent_auth_rules ext event (dvalues d)")
      case (Inl err)
      then have "is_AuthError err" "r' = r" "em' = em2" using res True by (auto split: if_splits)
      then show ?thesis
        using post(1) checks_in_turn.drop_refused [OF turn held aids ts post(2) Inl] by simp
    next
      case (Inr event')
      then obtain k where k: "event_key event = Inr k" "r' = dset k eid r" "em' = dset eid event' em2"
        using res True by auto
      have "checks_in_turn ext store em0 room_id rv base (ids @ [eid]) ((dget r)(k \<mapsto> eid))"
        by (rule checks_in_turn.admit [OF turn held True aids ts post(2) Inr k(1)])
      moreover note marks = check_rules_marks [OF Inr]
      have "tracked store em0 em'"
        unfolding k(3) using marked_id [OF marks] id by (intro tracked_dset post(1) held_marked [OF held marks]) simp
      ultimately show ?thesis by (simp add: k(2))
    qed
  qed
qed

lemma iterative_auth_checks_in_turn:
  "triple (\<lambda>em. tracked store em0 em \<and> checks_in_turn ext store em0 room_id rv base ids (dget r))
     (iterative_auth_checks ext store room_id rv eids r)
     (\<lambda>r' em. tracked store em0 em \<and> checks_in_turn ext store em0 room_id rv base (ids @ eids) (dget r'))"
  unfolding iterative_auth_checks_def
  by (rule triple_fold_prefix [where I = "\<lambda>ids r em. tracked store em0 em
      \<and> checks_in_turn ext store em0 room_id rv base ids (dget r)", OF auth_check_event_in_turn])

lemma power_events_within:
  assumes "power_events_of em ids = Inr p"
  shows "set p \<subseteq> set ids"
  using assms unfolding power_events_of_def
  by (rule foldE_invariant [where P = "\<lambda>acc. set acc \<subseteq> set ids"]) (auto split: if_splits)

lemma power_events_tracked:
  "triple (tracked store em0) (\<lambda>em. bindE (power_events_of em full) (\<lambda>p. Inr (p, em)))
     (\<lambda>p em. tracked store em0 em \<and> set p \<subseteq> set full)"
  using power_events_within by (auto simp: triple_def)

lemma power_sort_tracked:
  "triple (\<lambda>em. tracked store em0 em \<and> set p \<subseteq> set full)
     (reverse_topological_power_sort store room_id p full) (\<lambda>xs em. tracked store em0 em \<and> set xs \<subseteq> set full)"
  by (rule triple_assume) (rule keeps_power_sort, simp_all)

text \<open>The state that the checks start from.\<close>

abbreviation base_of :: "room_version \<Rightarrow> state_ids \<Rightarrow> string \<times> string \<Rightarrow> string option" where
  "base_of rv unconflicted \<equiv> if state_res rv = StateRes_V2_1 then Map.empty else dget unconflicted"

lemma first_checks_in_turn:
  "triple (\<lambda>em. tracked store em0 em \<and> set xs \<subseteq> set full)
     (iterative_auth_checks ext store room_id rv xs (if state_res rv = StateRes_V2_1 then [] else unconflicted))
     (\<lambda>r em. (tracked store em0 em \<and> set xs \<subseteq> set full)
        \<and> checks_in_turn ext store em0 room_id rv (base_of rv unconflicted) xs (dget r))"
proof (rule triple_assume)
  assume xs: "set xs \<subseteq> set full"
  let ?turn = "checks_in_turn ext store em0 room_id rv (base_of rv unconflicted)"
  have base: "dget (if state_res rv = StateRes_V2_1 then [] else unconflicted) = base_of rv unconflicted"
    by simp
  have "?turn [] (dget (if state_res rv = StateRes_V2_1 then [] else unconflicted))"
    unfolding base by (rule checks_in_turn.start)
  then show "triple (tracked store em0)
      (iterative_auth_checks ext store room_id rv xs (if state_res rv = StateRes_V2_1 then [] else unconflicted))
      (\<lambda>r em. (tracked store em0 em \<and> set xs \<subseteq> set full) \<and> ?turn xs (dget r))"
    using iterative_auth_checks_in_turn [of em0 ext room_id rv "base_of rv unconflicted" "[]"
        "if state_res rv = StateRes_V2_1 then [] else unconflicted" xs] xs
    unfolding triple_def append_Nil by blast
qed

text \<open>All events of the full conflicted set are checked, and no others.\<close>

lemma resolve_conflicts_in_turn:
  "triple (tracked store em0) (resolve_conflicts ext fuel store room_id rv unconflicted full)
     (\<lambda>r em. \<exists>ids r0. r = dupdate r0 unconflicted \<and> set ids = set full
        \<and> checks_in_turn ext store em0 room_id rv (base_of rv unconflicted) ids (dget r0))"
proof -
  let ?turn = "checks_in_turn ext store em0 room_id rv (base_of rv unconflicted)"
  have rest: "triple (\<lambda>em. (tracked store em0 em \<and> set xs \<subseteq> set full) \<and> ?turn xs (dget r))
      (bindS (mainline_sort fuel store room_id (filter (\<lambda>e. e \<notin> set xs) full) (dget r (EventTypes_PowerLevels, [])))
        (\<lambda>leftover. bindS (iterative_auth_checks ext store room_id rv leftover r) (\<lambda>final.
           returnS (dupdate final unconflicted))))
      (\<lambda>r em. \<exists>ids r0. r = dupdate r0 unconflicted \<and> set ids = set full \<and> ?turn ids (dget r0))" for xs r
    unfolding triple_def
  proof (intro allI impI)
    fix em r' em'
    assume pre: "(tracked store em0 em \<and> set xs \<subseteq> set full) \<and> ?turn xs (dget r)"
      and run: "bindS (mainline_sort fuel store room_id (filter (\<lambda>e. e \<notin> set xs) full) (dget r (EventTypes_PowerLevels, [])))
        (\<lambda>leftover. bindS (iterative_auth_checks ext store room_id rv leftover r) (\<lambda>final.
           returnS (dupdate final unconflicted))) em = Inr (r', em')"
    then obtain leftover em1 final where
      left: "mainline_sort fuel store room_id (filter (\<lambda>e. e \<notin> set xs) full) (dget r (EventTypes_PowerLevels, [])) em
        = Inr (leftover, em1)"
      and final: "iterative_auth_checks ext store room_id rv leftover r em1 = Inr (final, em')" "r' = dupdate final unconflicted"
      by auto
    have l: "tracked store em0 em1" "set leftover = set (filter (\<lambda>e. e \<notin> set xs) full)"
      using tripleD [OF keeps_mainline_sort _ left, of em0] pre by blast+
    have "?turn (xs @ leftover) (dget final)"
      using tripleD [OF iterative_auth_checks_in_turn [where ?em0.0 = em0 and base = "base_of rv unconflicted" and ids = xs]
          _ final(1)] pre l(1) by blast
    moreover have "set (xs @ leftover) = set full" using l(2) pre by auto
    ultimately show "\<exists>ids r0. r' = dupdate r0 unconflicted \<and> set ids = set full \<and> ?turn ids (dget r0)"
      using final(2) by blast
  qed
  show ?thesis
    unfolding resolve_conflicts_def
    by (rule triple_bind [OF power_events_tracked], rule triple_bind [OF power_sort_tracked],
        rule triple_bind [OF first_checks_in_turn rest])
qed

lemma resolve_events_in_turn:
  assumes own: "own_ids em"
    and run: "resolve_events_with_store ext fuel store room_id rv sets em = Inr (r, em')"
  shows "\<exists>ids r0. dget r = r0 ++ agreed sets
    \<and> checks_in_turn ext store em room_id rv (if state_res rv = StateRes_V2_1 then Map.empty else agreed sets) ids r0
    \<and> (ids = [] \<and> conflicting sets = {}
       \<or> (\<exists>c diff. set c = conflicting sets
            \<and> auth_chain_difference fuel store room_id sets em (if state_res rv = StateRes_V2_1 then Some c else None) = Inr diff
            \<and> set ids \<subseteq> conflicting sets \<union> set diff
            \<and> (\<forall>eid\<in>conflicting sets \<union> set diff. eid \<in> set ids \<or> missing store em eid)))"
proof -
  obtain u c where sep: "seperate sets = (u, c)" by fastforce
  note parts = seperate_agreed [OF sep]
  let ?base = "if state_res rv = StateRes_V2_1 then Map.empty else agreed sets"
  show ?thesis
  proof (cases "c = []")
    case True
    then have "dget r = ?base ++ agreed sets"
      using run sep parts(1) by (auto simp: resolve_events_with_store_def map_add_def split: option.splits)
    then show ?thesis
      using parts(4) [OF True] checks_in_turn.start [of ext store em room_id rv ?base] by blast
  next
    case False
    let ?c = "remdups (concat (dvalues c))"
    from False sep run obtain diff new full where
      diff: "auth_chain_difference fuel store room_id sets em (if state_res rv = StateRes_V2_1 then Some ?c else None) = Inr diff"
      and new: "get_events store (filter (\<lambda>eid. dget em eid = None) (set_union ?c diff)) = Inr new"
      and full: "full = filter (\<lambda>eid. dget (dupdate em new) eid \<noteq> None) (set_union ?c diff)"
      and rc: "resolve_conflicts ext fuel store room_id rv u full (dupdate em new) = Inr (r, em')"
      unfolding resolve_events_with_store_def by (auto simp: Let_def)
    have "tracked store em (dupdate em new)"
      by (rule tracked_fetch [OF tracked_start [OF own] new])
    from tripleD [OF resolve_conflicts_in_turn this rc] obtain ids r0 where
      r: "r = dupdate r0 u" and ids: "set ids = set full" and turn: "checks_in_turn ext store em room_id rv
            (if state_res rv = StateRes_V2_1 then Map.empty else dget u) ids (dget r0)" by blast
    have c: "set ?c = conflicting sets" using parts(2) by simp
    have "dget r = dget r0 ++ agreed sets" by (simp add: r dget_dupdate_ok [OF parts(3)] parts(1))
    moreover have "set ids \<subseteq> conflicting sets \<union> set diff"
      using c by (auto simp: ids full set_set_union)
    moreover have "\<forall>eid\<in>conflicting sets \<union> set diff. eid \<in> set ids \<or> missing store em eid"
    proof (intro ballI disjCI)
      fix eid assume eid: "eid \<in> conflicting sets \<union> set diff" "\<not> missing store em eid"
      then have "eid \<in> set (set_union ?c diff)" using c by (simp add: set_set_union)
      moreover have "dget (dupdate em new) eid \<noteq> None"
      proof (cases "dget em eid")
        case None
        then have asked: "eid \<in> set (filter (\<lambda>eid. dget em eid = None) (set_union ?c diff))" using calculation by simp
        have "missing store em eid" if "dget new eid = None"
          unfolding missing_def by (intro conjI exI, rule None, rule asked, rule new, rule that)
        then have "dget new eid \<noteq> None" using eid(2) by blast
        then show ?thesis by (auto simp: dget_dupdate_ok [OF fetch_dict [OF new]])
      qed (auto simp: dget_dupdate_ok [OF fetch_dict [OF new]] map_add_def split: option.split)
      ultimately show "eid \<in> set ids" by (simp add: ids full)
    qed
    ultimately show ?thesis
      using turn c diff unfolding parts(1) by blast
  qed
qed

end

text \<open>The store that state resolution runs on: the events worker, and a query for auth chains.\<close>

abbreviation worker_store :: "row_map \<Rightarrow> event_worker
    \<Rightarrow> (string \<Rightarrow> string list list \<Rightarrow> string list option \<Rightarrow> string list \<Rightarrow> state_difference) \<Rightarrow> state_res_store" where
  "worker_store db w difference \<equiv>
     \<lparr>get_events = resolution_get_events db w, get_auth_chain_difference = difference\<rparr>"

interpretation worker: resolution_store "worker_store db w difference" for db w difference
proof unfold_locales
qed (simp_all add: events_worker.fetch_own_ids events_worker.fetch_dict events_worker.fetch_fuel)

text \<open>A conflict between two topics, on which the property is evaluated.\<close>

definition sample_topics :: "string \<Rightarrow> int \<Rightarrow> event" where
  "sample_topics eid ts = (sample_event eid EventTypes_Topic ''@a:x'' (Some []) [(''topic'', JStr eid)])
     \<lparr>ev_origin_server_ts := ts, ev_auth_events := [''$c'', ''$ja'', ''$p'']\<rparr>"

definition sample_event_map :: event_map where
  "sample_event_map = map (\<lambda>e. (ev_event_id e, e))
     [sample_create, sample_member ''$ja'' ''@a:x'' ''@a:x'' Membership_JOIN,
      (sample_power_levels ''$p'' ''@a:x'' [(''@a:x'', JInt 100)])\<lparr>ev_auth_events := [''$c'', ''$ja'']\<rparr>,
      sample_topics ''$t1'' 1, sample_topics ''$t2'' 2]"

definition sample_state_set :: "string \<Rightarrow> state_ids" where
  "sample_state_set topic = [((EventTypes_Create, []), ''$c''), ((EventTypes_Member, ''@a:x''), ''$ja''),
     ((EventTypes_PowerLevels, []), ''$p''), ((EventTypes_Topic, []), topic)]"

definition no_difference :: "string \<Rightarrow> string list list \<Rightarrow> string list option \<Rightarrow> string list \<Rightarrow> state_difference" where
  "no_difference room_id sets conflicted additional = \<lparr>auth_difference = [], conflicted_subgraph = None\<rparr>"

lemma own_ids_sample: "own_ids sample_event_map"
  by (auto simp: own_ids_def sample_event_map_def split: if_splits)

text \<open>
  C2. What state resolution computes. If resolution on the events of the events worker gives a state,
  then it is \<open>agreed sets\<close>, which every entry that all state sets agree on keeps, on top of a state \<open>r0\<close> that
  comes from checks of events in turn, starting from the agreed state (in version 2.1 from nothing).
  Each check takes the event that the given map or the store has under that id, drops it if it was
  rejected, checks it against the auth events that its own auth events and the state so far select
  (\<open>auth_dict_for\<close>: of the room, not rejected, the entries of the state first), and admits it exactly
  if the auth rules accept. The events that are checked are events on which the state sets
  disagree or of the auth chain difference; one of those is left out only if neither the given map nor
  the store has it.
\<close>

theorem resolution_sound:
  assumes "own_ids em"
    and "resolve_events_with_store ext fuel (worker_store db w difference) room_id rv sets em = Inr (r, em')"
  shows "\<exists>ids r0. dget r = r0 ++ agreed sets
    \<and> checks_in_turn ext (worker_store db w difference) em room_id rv
        (if state_res rv = StateRes_V2_1 then Map.empty else agreed sets) ids r0
    \<and> (ids = [] \<and> conflicting sets = {}
       \<or> (\<exists>c diff. set c = conflicting sets
            \<and> auth_chain_difference fuel (worker_store db w difference) room_id sets em
                (if state_res rv = StateRes_V2_1 then Some c else None) = Inr diff
            \<and> set ids \<subseteq> conflicting sets \<union> set diff
            \<and> (\<forall>eid\<in>conflicting sets \<union> set diff. eid \<in> set ids \<or> missing (worker_store db w difference) em eid)))"
  using worker.resolve_events_in_turn [OF assms] by blast

theorem resolution_sound_witness:
  "\<exists>ids r0. checks_in_turn sample_ext (worker_store [] \<lparr>ew_cache = [], ew_refs = []\<rparr> no_difference) sample_event_map
       ''!r:x'' RoomVersions_V11 (agreed [sample_state_set ''$t1'', sample_state_set ''$t2'']) ids r0
     \<and> {''$t1'', ''$t2''} \<subseteq> set ids \<and> r0 (EventTypes_Topic, []) = Some ''$t2''"
proof -
  let ?sets = "[sample_state_set ''$t1'', sample_state_set ''$t2'']"
  let ?store = "worker_store [] \<lparr>ew_cache = [], ew_refs = []\<rparr> no_difference"
  have run: "resolve_events_with_store sample_ext 9 ?store ''!r:x'' RoomVersions_V11 ?sets sample_event_map
      = Inr ([((EventTypes_Create, []), ''$c''), ((EventTypes_Member, ''@a:x''), ''$ja''),
          ((EventTypes_PowerLevels, []), ''$p''), ((EventTypes_Topic, []), ''$t2'')], sample_event_map)"
    by code_simp
  have v: "state_res RoomVersions_V11 \<noteq> StateRes_V2_1" by code_simp
  have topic: "agreed ?sets (EventTypes_Topic, []) = None" by code_simp
  have disputed: "{''$t1'', ''$t2''} \<subseteq> conflicting ?sets"
  proof -
    have "''$t1'' \<in> proposed ?sets (EventTypes_Topic, [])" "''$t2'' \<in> proposed ?sets (EventTypes_Topic, [])"
      unfolding proposed_def by code_simp+
    with topic show ?thesis by (auto simp: conflicting_def simp del: split_paired_Ex)
  qed
  have known: "dget sample_event_map ''$t1'' \<noteq> None" "dget sample_event_map ''$t2'' \<noteq> None" by code_simp+
  from resolution_sound [OF own_ids_sample run] obtain ids r0 where
    r: "dget [((EventTypes_Create, []), ''$c''), ((EventTypes_Member, ''@a:x''), ''$ja''),
          ((EventTypes_PowerLevels, []), ''$p''), ((EventTypes_Topic, []), ''$t2'')] = r0 ++ agreed ?sets"
    and turn: "checks_in_turn sample_ext ?store sample_event_map ''!r:x'' RoomVersions_V11 (agreed ?sets) ids r0"
    and all: "ids = [] \<and> conflicting ?sets = {} \<or> (\<forall>eid\<in>conflicting ?sets. eid \<in> set ids \<or> missing ?store sample_event_map eid)"
    using v by (auto simp del: split_paired_All)
  have "{''$t1'', ''$t2''} \<subseteq> set ids"
    using all disputed known by (auto simp: missing_def)
  moreover have "r0 (EventTypes_Topic, []) = Some ''$t2''"
  proof -
    have "(r0 ++ agreed ?sets) (EventTypes_Topic, []) = Some ''$t2''" unfolding r [symmetric] by code_simp
    then show ?thesis using topic by (simp add: map_add_def)
  qed
  ultimately show ?thesis using turn by blast
qed

end
