(* ===== verification/State_Res_Termination.thy ===== *)
theory State_Res_Termination
  imports State_Res_Props "HOL-Library.Multiset"
begin

text \<open>
  The loops of state resolution that take fuel end when the auth events form an acyclic graph:
  the searches along auth chains, forwards and backwards, and the walks along the power levels
  events. Acyclicity is given by a rank of event ids that decreases from an event to its auth
  events; with enough fuel no loop stops for lack of it.
\<close>

section \<open>Ranked events\<close>

definition ranked_event :: "(string \<Rightarrow> nat) \<Rightarrow> event \<Rightarrow> bool" where
  "ranked_event rank e \<longleftrightarrow>
     (\<forall>ids. auth_event_ids e = Inr ids \<longrightarrow> (\<forall>a\<in>set ids. rank a < rank (ev_event_id e)))"

definition ranked :: "(string \<Rightarrow> nat) \<Rightarrow> event_map \<Rightarrow> bool" where
  "ranked rank em \<longleftrightarrow> own_ids em \<and> (\<forall>i e. dget em i = Some e \<longrightarrow> ranked_event rank e)"

lemma ranked_own: "ranked rank em \<Longrightarrow> own_ids em"
  by (simp add: ranked_def)

lemma rankedD:
  assumes "ranked rank em" "dget em i = Some e" "auth_event_ids e = Inr ids" "a \<in> set ids"
  shows "rank a < rank i"
proof -
  have "ev_event_id e = i" "ranked_event rank e"
    using assms(1,2) ranked_own own_idsD unfolding ranked_def by blast+
  with assms(3,4) show ?thesis unfolding ranked_event_def by blast
qed

text \<open>The accessors of an event do not run out of fuel.\<close>

lemma event_room_id_fuel: "event_room_id e \<noteq> Inl OUT_OF_FUEL"
  using fuel_free_event_room_id [of e] by (simp add: fuel_free_def)

lemma auth_event_ids_fuel: "auth_event_ids e \<noteq> Inl OUT_OF_FUEL"
proof -
  have "fuel_free (auth_event_ids e)"
    by (auto simp: auth_event_ids_def Let_def intro!: fuel_free_rules)
  then show ?thesis by (simp add: fuel_free_def)
qed

lemma event_key_fuel: "event_key e \<noteq> Inl OUT_OF_FUEL"
  by (auto simp: event_key_def event_state_key_def bindE_eq_Inl optE_eq_Inl OUT_OF_FUEL_def)

section \<open>Backwards along the auth chains\<close>

text \<open>With enough fuel the search from this stack ends, whatever was found before.\<close>

definition search_ends :: "event_map \<Rightarrow> event list \<Rightarrow> bool" where
  "search_ends unpersisted stack \<longleftrightarrow>
     (\<exists>N. \<forall>fuel\<ge>N. \<forall>chain nexts. chain_search fuel unpersisted stack chain nexts \<noteq> Inl OUT_OF_FUEL)"

lemma search_ends_Nil: "search_ends un []"
  by (simp add: search_ends_def)

lemma search_ends_step:
  assumes "\<And>ids. auth_event_ids e = Inr ids \<Longrightarrow> search_ends un (rev (List.map_filter (dget un) ids) @ stack)"
  shows "search_ends un (e # stack)"
proof (cases "auth_event_ids e")
  case (Inl x)
  then have "x \<noteq> OUT_OF_FUEL" using auth_event_ids_fuel by metis
  with Inl have "chain_search fuel un (e # stack) chain nexts \<noteq> Inl OUT_OF_FUEL" if "fuel \<ge> 1" for fuel chain nexts
    using that by (cases fuel) auto
  then show ?thesis unfolding search_ends_def by blast
next
  case (Inr ids)
  from assms [OF Inr] obtain N where
    N: "\<And>fuel chain nexts. fuel \<ge> N \<Longrightarrow>
      chain_search fuel un (rev (List.map_filter (dget un) ids) @ stack) chain nexts \<noteq> Inl OUT_OF_FUEL"
    unfolding search_ends_def by blast
  have "chain_search fuel un (e # stack) chain nexts \<noteq> Inl OUT_OF_FUEL" if "fuel \<ge> Suc N" for fuel chain nexts
    using that N Inr by (cases fuel) auto
  then show ?thesis unfolding search_ends_def by blast
qed

lemma search_ends_push:
  assumes un: "ranked rank un"
  shows "search_ends un stack \<Longrightarrow> \<forall>e\<in>set es. dget un (ev_event_id e) = Some e \<and> rank (ev_event_id e) < n
     \<Longrightarrow> search_ends un (es @ stack)"
proof (induction n arbitrary: es stack)
  case 0
  then show ?case by (cases es) auto
next
  case (Suc n)
  from Suc.prems(2) show ?case
  proof (induction es)
    case Nil
    with Suc.prems(1) show ?case by simp
  next
    case (Cons e es)
    have "search_ends un (rev (List.map_filter (dget un) ids) @ es @ stack)" if "auth_event_ids e = Inr ids" for ids
    proof (rule Suc.IH)
      show "search_ends un (es @ stack)" using Cons by simp
      have e: "dget un (ev_event_id e) = Some e" "rank (ev_event_id e) < Suc n" using Cons.prems by simp_all
      have "rank a < n" if "a \<in> set ids" for a
        using rankedD [OF un e(1) \<open>auth_event_ids e = Inr ids\<close> that] e(2) by linarith
      then show "\<forall>x\<in>set (rev (List.map_filter (dget un) ids)). dget un (ev_event_id x) = Some x
          \<and> rank (ev_event_id x) < n"
        using own_idsD [OF ranked_own [OF un]] by (force simp: List.map_filter_def)
    qed
    then show ?case by (simp add: search_ends_step)
  qed
qed

lemma search_ends_all:
  assumes un: "ranked rank un" and es: "\<forall>e\<in>set es. dget un (ev_event_id e) = Some e"
  shows "\<exists>N. \<forall>fuel\<ge>N. \<forall>e\<in>set es. \<forall>chain nexts. chain_search fuel un [e] chain nexts \<noteq> Inl OUT_OF_FUEL"
  using es
proof (induction es)
  case (Cons e es)
  then obtain N where N: "\<forall>fuel\<ge>N. \<forall>e\<in>set es. \<forall>chain nexts. chain_search fuel un [e] chain nexts \<noteq> Inl OUT_OF_FUEL"
    by auto
  from search_ends_push [OF un search_ends_Nil, of "[e]" "Suc (rank (ev_event_id e))"] Cons.prems
  obtain M where "\<forall>fuel\<ge>M. \<forall>chain nexts. chain_search fuel un [e] chain nexts \<noteq> Inl OUT_OF_FUEL"
    by (auto simp: search_ends_def)
  with N show ?case by (intro exI [of _ "max M N"]) auto
qed simp

lemma values_own: "own_ids em \<Longrightarrow> dict_ok em \<Longrightarrow> e \<in> set (dvalues em) \<Longrightarrow> dget em (ev_event_id e) = Some e"
  by (force simp: dvalues_def dget_iff_mem own_ids_def)

lemma foldE_no_error:
  "foldE f xs s = Inl e \<Longrightarrow> \<exists>x\<in>set xs. \<exists>t. f x t = Inl e"
  by (induction xs arbitrary: s) (fastforce simp: bindE_eq_Inl)+

text \<open>More fuel does not change a result.\<close>

lemma chain_search_more_fuel:
  "chain_search fuel un stack chain nexts \<noteq> Inl OUT_OF_FUEL \<Longrightarrow> fuel \<le> fuel' \<Longrightarrow>
     chain_search fuel' un stack chain nexts = chain_search fuel un stack chain nexts"
proof (induction fuel un stack chain nexts arbitrary: fuel' rule: chain_search.induct)
  case (3 fuel un e stack chain nexts)
  from "3.prems" obtain n where n: "fuel' = Suc n" "fuel \<le> n" by (cases fuel') auto
  show ?case
  proof (cases "auth_event_ids e")
    case (Inr ids)
    from "3.IH" [OF Inr _ n(2)] "3.prems"(1) n(1) Inr show ?thesis by simp
  qed (simp add: n(1))
qed simp_all

lemma foldE_cong_set: "(\<And>x s. x \<in> set xs \<Longrightarrow> f x s = g x s) \<Longrightarrow> foldE f xs s = foldE g xs s"
  by (induction xs arbitrary: s) (auto intro: bindE_cong)

lemma auth_chains_end:
  assumes un: "ranked rank un" "dict_ok un"
  shows "\<exists>r. r \<noteq> Inl OUT_OF_FUEL \<and> (\<exists>N. \<forall>fuel\<ge>N. auth_chains fuel un = r)"
proof -
  from search_ends_all [OF un(1)] values_own [OF ranked_own [OF un(1)] un(2)] obtain N where
    N: "\<forall>fuel\<ge>N. \<forall>e\<in>set (dvalues un). \<forall>chain nexts. chain_search fuel un [e] chain nexts \<noteq> Inl OUT_OF_FUEL"
    by blast
  have "auth_chains N un \<noteq> Inl OUT_OF_FUEL"
    using N by (auto simp: auth_chains_def bindE_eq_Inl dest!: foldE_no_error)
  moreover have "auth_chains fuel un = auth_chains N un" if "fuel \<ge> N" for fuel
    unfolding auth_chains_def
  proof (rule foldE_cong_set)
    fix e s assume "e \<in> set (dvalues un)"
    with N have "chain_search N un [e] chain nexts \<noteq> Inl OUT_OF_FUEL" for chain nexts by blast
    from chain_search_more_fuel [OF this that] show "(case s of (chain_of, nexts) \<Rightarrow>
        bindE (chain_search fuel un [e] [ev_event_id e] nexts) (\<lambda>(chain, nexts').
          Inr (dset (ev_event_id e) chain chain_of, nexts')))
      = (case s of (chain_of, nexts) \<Rightarrow>
        bindE (chain_search N un [e] [ev_event_id e] nexts) (\<lambda>(chain, nexts').
          Inr (dset (ev_event_id e) chain chain_of, nexts')))" by (cases s) simp
  qed
  ultimately show ?thesis by blast
qed

section \<open>Forwards\<close>

text \<open>The links lead from an event to events that have it as an auth event: the rank grows.\<close>

definition links_up :: "(string \<Rightarrow> nat) \<Rightarrow> links \<Rightarrow> bool" where
  "links_up rank nexts \<longleftrightarrow> (\<forall>a l x. dget nexts a = Some l \<longrightarrow> x \<in> set l \<longrightarrow> rank a < rank x)"

lemma links_upD: "links_up rank nexts \<Longrightarrow> dget nexts a = Some l \<Longrightarrow> x \<in> set l \<Longrightarrow> rank a < rank x"
  unfolding links_up_def by blast

lemma links_up_add:
  assumes "links_up rank nexts" "rank a < rank x"
  shows "links_up rank (add_link a x nexts)"
  unfolding links_up_def
proof (intro allI impI)
  fix b l y assume "dget (add_link a x nexts) b = Some l" "y \<in> set l"
  with assms links_upD [OF assms(1)] show "rank b < rank y"
    by (cases "dget nexts a") (auto simp: add_link_def split: if_splits)
qed

lemma links_up_adds:
  "links_up rank nexts \<Longrightarrow> \<forall>a\<in>set ids. rank a < rank x \<Longrightarrow> links_up rank (fold (\<lambda>a. add_link a x) ids nexts)"
  by (induction ids arbitrary: nexts) (simp_all add: links_up_add)

lemma chain_search_up:
  "chain_search fuel un stack chain nexts = Inr (chain', nexts') \<Longrightarrow> ranked rank un \<Longrightarrow> links_up rank nexts \<Longrightarrow>
    \<forall>e\<in>set stack. dget un (ev_event_id e) = Some e \<Longrightarrow> links_up rank nexts'"
proof (induction fuel un stack chain nexts rule: chain_search.induct)
  case (3 fuel un e stack chain nexts)
  then obtain ids where ids: "auth_event_ids e = Inr ids" by auto
  note un = "3.prems"(2)
  from "3.prems"(4) have e: "dget un (ev_event_id e) = Some e" by simp
  have "links_up rank (fold (\<lambda>a. add_link a (ev_event_id e)) ids nexts)"
    using "3.prems"(3) rankedD [OF un e ids] by (blast intro: links_up_adds)
  moreover have "\<forall>x\<in>set (rev (List.map_filter (dget un) ids) @ stack). dget un (ev_event_id x) = Some x"
    using "3.prems"(4) own_idsD [OF ranked_own [OF un]] by (force simp: List.map_filter_def)
  ultimately show ?case using "3.IH" "3.prems"(1) un ids by simp
qed simp_all

lemma auth_chains_up:
  assumes un: "ranked rank un" "dict_ok un" and run: "auth_chains fuel un = Inr (chain_of, nexts)"
  shows "links_up rank nexts"
proof -
  let ?P = "\<lambda>(chain_of :: links, nexts). links_up rank nexts"
  have "?P (chain_of, nexts)"
    using run unfolding auth_chains_def
  proof (rule foldE_invariant [where P = ?P])
    fix e t t'
    assume e: "e \<in> set (dvalues un)" and "?P t" and "(case t of (chain_of, nexts) \<Rightarrow>
        bindE (chain_search fuel un [e] [ev_event_id e] nexts) (\<lambda>(chain, nexts').
          Inr (dset (ev_event_id e) chain chain_of, nexts'))) = Inr t'"
    moreover from values_own [OF ranked_own [OF un(1)] un(2) e]
    have "\<forall>x\<in>set [e]. dget un (ev_event_id x) = Some x" by simp
    ultimately show "?P t'" using chain_search_up [OF _ un(1)] by (cases t) fastforce
  qed (simp add: links_up_def)
  then show ?thesis by simp
qed

lemma links_bounded: "\<exists>M. \<forall>a l x. dget nexts a = Some l \<longrightarrow> x \<in> set l \<longrightarrow> (rank :: string \<Rightarrow> nat) x \<le> M"
proof -
  let ?S = "rank ` (\<Union>(a, l)\<in>set nexts. set l)"
  have "finite ?S" by auto
  moreover have "rank x \<in> ?S" if "dget nexts a = Some l" "x \<in> set l" for a l x
    using map_of_SomeD [OF that(1)] that(2) by blast
  ultimately show ?thesis by (meson Max_ge)
qed

lemma forward_search_ends:
  assumes up: "links_up rank nexts" and M: "\<And>a l x. dget nexts a = Some l \<Longrightarrow> x \<in> set l \<Longrightarrow> rank x \<le> M"
  shows "\<exists>N. \<forall>fuel\<ge>N. \<forall>found. forward_search fuel nexts queue found \<noteq> Inl OUT_OF_FUEL"
proof (induction "mset (map (\<lambda>x. M - rank x) queue)" arbitrary: queue rule: wf_induct_rule [OF wf_mult [OF wf_less_than]])
  case (1 queue)
  show ?case
  proof (cases queue)
    case (Cons e q)
    let ?l = "case dget nexts e of None \<Rightarrow> [] | Some l \<Rightarrow> l"
    from set_union_append [of q ?l] obtain zs where zs: "set_union q ?l = q @ zs" "set zs \<subseteq> set ?l"
      by (elim exE conjE)
    have "M - rank z < M - rank e" if "z \<in> set zs" for z
    proof -
      from that zs(2) obtain l where "dget nexts e = Some l" "z \<in> set l"
        by (cases "dget nexts e") auto
      with M links_upD [OF up] have "rank e < rank z" "rank z \<le> M" by blast+
      then show ?thesis by linarith
    qed
    then have "(mset (map (\<lambda>x. M - rank x) q) + mset (map (\<lambda>x. M - rank x) zs),
        mset (map (\<lambda>x. M - rank x) q) + {#M - rank e#}) \<in> mult less_than"
      by - (rule one_step_implies_mult, simp, simp)
    then have "(mset (map (\<lambda>x. M - rank x) (q @ zs)), mset (map (\<lambda>x. M - rank x) queue)) \<in> mult less_than"
      by (simp add: Cons)
    from "1" [OF this] obtain N where
      "\<forall>fuel\<ge>N. \<forall>found. forward_search fuel nexts (q @ zs) found \<noteq> Inl OUT_OF_FUEL" by blast
    then have "forward_search fuel nexts queue found \<noteq> Inl OUT_OF_FUEL" if "fuel \<ge> Suc N" for fuel found
      using that zs(1) Cons by (cases fuel) simp_all
    then show ?thesis by blast
  qed simp
qed

lemma bindE_no_error: "m \<noteq> Inl x \<Longrightarrow> bindE m (\<lambda>y. Inr (f y)) \<noteq> Inl x"
  by (cases m) auto

lemma auth_chain_difference_ends:
  assumes un: "ranked rank un" "dict_ok un"
  shows "\<exists>N. \<forall>fuel\<ge>N. auth_chain_difference fuel store room_id sets un conflicted \<noteq> Inl OUT_OF_FUEL"
proof -
  from auth_chains_end [OF un] obtain r N where
    r: "r \<noteq> Inl OUT_OF_FUEL" and N: "\<And>fuel. fuel \<ge> N \<Longrightarrow> auth_chains fuel un = r" by blast
  show ?thesis
  proof (cases r)
    case (Inl x)
    with r N have "auth_chain_difference fuel store room_id sets un conflicted \<noteq> Inl OUT_OF_FUEL"
      if "fuel \<ge> N" for fuel using that by (simp add: auth_chain_difference_def)
    then show ?thesis by blast
  next
    case (Inr p)
    obtain chain_of nexts where p: "p = (chain_of, nexts)" by fastforce
    have up: "links_up rank nexts" using auth_chains_up [OF un] N Inr p by blast
    obtain M where M: "\<And>a l x. dget nexts a = Some l \<Longrightarrow> x \<in> set l \<Longrightarrow> rank x \<le> M"
      using links_bounded [of nexts rank] by blast
    define queue where "queue =
      (let conflicted_ids = (case conflicted of None \<Rightarrow> [] | Some l \<Rightarrow> l);
           uc = (if un \<noteq> [] then filter (\<lambda>e. dget chain_of e \<noteq> None) conflicted_ids else []);
           backwards = fold (\<lambda>e acc. set_union acc (the (dget chain_of e))) uc [];
           additional = filter (\<lambda>e. dget un e = None) backwards;
           cs = map_option (filter (\<lambda>e. e \<notin> set uc)) conflicted;
           parts = map (split_state_set un chain_of) sets;
           ids = (if un \<noteq> [] then map fst parts else map (\<lambda>s. remdups (dvalues s)) sets);
           difference = get_auth_chain_difference store room_id ids cs additional;
           sub = set_union (case conflicted_subgraph difference of None \<Rightarrow> [] | Some l \<Rightarrow> l)
                   (case cs of None \<Rightarrow> [] | Some l \<Rightarrow> l)
       in set_union (filter (\<lambda>e. e \<in> set additional) sub) uc)"
    have "\<exists>N. \<forall>fuel\<ge>N. \<forall>found. forward_search fuel nexts queue found \<noteq> Inl OUT_OF_FUEL"
      by (rule forward_search_ends [OF up]) (erule (1) M)
    then obtain N' where
      N': "\<And>fuel found. fuel \<ge> N' \<Longrightarrow> forward_search fuel nexts queue found \<noteq> Inl OUT_OF_FUEL" by blast
    have "auth_chain_difference fuel store room_id sets un conflicted \<noteq> Inl OUT_OF_FUEL"
      if "fuel \<ge> max N N'" for fuel
    proof -
      have run: "auth_chains fuel un = Inr (chain_of, nexts)" using that N Inr p by simp
      have fwd: "forward_search fuel nexts queue [] \<noteq> Inl OUT_OF_FUEL" using that N' by simp
      show ?thesis
        unfolding auth_chain_difference_def run bindE_Inr prod.case Let_def
        apply (rule bindE_no_error, split option.split, intro conjI allI impI, simp)
        apply (split if_split, intro conjI impI bindE_no_error)
        using fwd [unfolded queue_def Let_def] apply (simp only: option.case)
        apply simp_all
        done
    qed
    then show ?thesis by blast
  qed
qed

section \<open>Along the power levels\<close>

text \<open>As \<open>triple\<close>, and the computation does not run out of fuel.\<close>

definition ends :: "('s \<Rightarrow> bool) \<Rightarrow> ('s, 'a) comp \<Rightarrow> ('a \<Rightarrow> 's \<Rightarrow> bool) \<Rightarrow> bool" where
  "ends P m Q \<longleftrightarrow> triple P m Q \<and> (\<forall>s. P s \<longrightarrow> m s \<noteq> Inl OUT_OF_FUEL)"

lemma ends_return: "(\<And>s. P s \<Longrightarrow> Q x s) \<Longrightarrow> ends P (returnS x) Q"
  by (simp add: ends_def triple_def returnS_def)

lemma ends_lift: "m \<noteq> Inl OUT_OF_FUEL \<Longrightarrow> (\<And>x s. m = Inr x \<Longrightarrow> P s \<Longrightarrow> Q x s) \<Longrightarrow> ends P (liftS m) Q"
  by (cases m) (auto simp: ends_def triple_def liftS_def)

lemma ends_bind:
  assumes "ends P m R" "\<And>x. ends (R x) (f x) Q"
  shows "ends P (bindS m f) Q"
proof -
  have "bindS m f s \<noteq> Inl OUT_OF_FUEL" if "P s" for s
    using assms that unfolding ends_def triple_def
    by (cases "m s") (auto simp: bindS_def)
  with assms triple_bind show ?thesis unfolding ends_def by blast
qed

lemma ends_fold:
  "(\<And>x b. x \<in> set xs \<Longrightarrow> ends (I b) (f x b) I) \<Longrightarrow> ends (I b) (foldS f xs b) I"
proof (induction xs arbitrary: b)
  case Nil
  then show ?case by (simp add: ends_return)
next
  case (Cons x xs)
  then show ?case by (auto intro!: ends_bind [where R = I])
qed

lemma ends_pre: "ends P m Q \<Longrightarrow> (\<And>s. P' s \<Longrightarrow> P s) \<Longrightarrow> ends P' m Q"
  unfolding ends_def triple_def by blast

lemma ends_assume: "(A \<Longrightarrow> ends P m Q) \<Longrightarrow> ends (\<lambda>s. P s \<and> A) m Q"
  unfolding ends_def triple_def by blast

lemma ends_post: "ends P m Q \<Longrightarrow> (\<And>r s. Q r s \<Longrightarrow> Q' r s) \<Longrightarrow> ends P m Q'"
  unfolding ends_def triple_def by blast

context resolution_store
begin

definition ranked_store :: "(string \<Rightarrow> nat) \<Rightarrow> bool" where
  "ranked_store rank \<longleftrightarrow> (\<forall>ids em. get_events store ids = Inr em \<longrightarrow> ranked rank em)"

lemma ranked_fetch:
  assumes "ranked_store rank" "ranked rank em" "get_events store ids = Inr new"
  shows "ranked rank (dupdate em new)"
proof -
  have "ranked rank new" using assms(1,3) by (auto simp: ranked_store_def)
  then show ?thesis using own_ids_fetch [OF _ assms(3)] assms(2)
    unfolding ranked_def dget_dupdate_ok [OF fetch_dict [OF assms(3)]] map_add_Some_iff by blast
qed

lemma ends_get_event_opt:
  assumes "ranked_store rank"
  shows "ends (ranked rank) (get_event_opt store room_id eid)
    (\<lambda>r em. ranked rank em \<and> (\<forall>e. r = Some e \<longrightarrow> dget em eid = Some e))"
proof -
  have "fuel_free (get_event_opt store room_id eid em)" for em
    unfolding get_event_opt_def
    by (auto intro!: fuel_free_rules fetch_fuel simp: OUT_OF_FUEL_def split: option.split)
  moreover have "triple (ranked rank) (get_event_opt store room_id eid)
    (\<lambda>r em. ranked rank em \<and> (\<forall>e. r = Some e \<longrightarrow> dget em eid = Some e))"
    using ranked_fetch [OF assms]
    by (auto simp: triple_def get_event_opt_def split: option.splits if_splits)
  ultimately show ?thesis by (simp add: ends_def fuel_free_def)
qed

lemma ends_get_event:
  assumes "ranked_store rank"
  shows "ends (ranked rank) (get_event store room_id eid) (\<lambda>e em. ranked rank em \<and> dget em eid = Some e)"
  unfolding get_event_def
  by (rule ends_bind [OF ends_get_event_opt [OF assms]])
    (auto intro!: ends_lift simp: optE_eq_Inl OUT_OF_FUEL_def)

lemma ends_find_pl:
  assumes "ranked_store rank"
  shows "ends (ranked rank) (find_pl_auth_event store room_id ids)
    (\<lambda>r em. ranked rank em \<and> (\<forall>a e. r = Some (a, e) \<longrightarrow> a \<in> set ids \<and> dget em a = Some e))"
proof (induction ids)
  case Nil
  show ?case by (simp add: ends_return)
next
  case (Cons aid ids)
  have rest: "ends (ranked rank) (find_pl_auth_event store room_id ids)
      (\<lambda>r em. ranked rank em \<and> (\<forall>a e. r = Some (a, e) \<longrightarrow> a \<in> set (aid # ids) \<and> dget em a = Some e))"
    by (rule ends_post [OF Cons.IH]) auto
  show ?case
    unfolding find_pl_auth_event.simps
  proof (rule ends_bind [OF ends_get_event_opt [OF assms]])
    fix found
    show "ends (\<lambda>em. ranked rank em \<and> (\<forall>e. found = Some e \<longrightarrow> dget em aid = Some e))
      (case found of None \<Rightarrow> find_pl_auth_event store room_id ids
       | Some ev \<Rightarrow> bindS (liftS (event_key ev)) (\<lambda>k.
             if k = (EventTypes_PowerLevels, []) then returnS (Some (aid, ev))
             else find_pl_auth_event store room_id ids))
      (\<lambda>r em. ranked rank em \<and> (\<forall>a e. r = Some (a, e) \<longrightarrow> a \<in> set (aid # ids) \<and> dget em a = Some e))"
      using rest [simplified]
      by (cases found)
        (auto intro!: ends_bind [where R = "\<lambda>_ em. ranked rank em \<and> (\<forall>e. found = Some e \<longrightarrow> dget em aid = Some e)"]
          ends_lift ends_return simp: event_key_fuel elim: ends_pre)
  qed
qed

text \<open>One step along the power levels events goes down in rank.\<close>

lemma ends_next_pl:
  assumes st: "ranked_store rank"
    and cont: "\<And>r. (\<forall>a e. r = Some (a, e) \<longrightarrow> rank a < rank p) \<Longrightarrow>
      ends (\<lambda>em. ranked rank em \<and> (\<forall>a e. r = Some (a, e) \<longrightarrow> dget em a = Some e)) (k r) (\<lambda>_. ranked rank)"
  shows "ends (\<lambda>em. ranked rank em \<and> dget em p = Some ev)
    (bindS (liftS (auth_event_ids ev)) (\<lambda>ids. bindS (find_pl_auth_event store room_id ids) k)) (\<lambda>_. ranked rank)"
proof (rule ends_bind [where R = "\<lambda>ids em. ranked rank em \<and> (\<forall>a\<in>set ids. rank a < rank p)"])
  show "ends (\<lambda>em. ranked rank em \<and> dget em p = Some ev) (liftS (auth_event_ids ev))
      (\<lambda>ids em. ranked rank em \<and> (\<forall>a\<in>set ids. rank a < rank p))"
    using rankedD by (intro ends_lift auth_event_ids_fuel) blast
  fix ids
  show "ends (\<lambda>em. ranked rank em \<and> (\<forall>a\<in>set ids. rank a < rank p))
      (bindS (find_pl_auth_event store room_id ids) k) (\<lambda>_. ranked rank)"
  proof (rule ends_assume)
    assume lower: "\<forall>a\<in>set ids. rank a < rank p"
    show "ends (ranked rank) (bindS (find_pl_auth_event store room_id ids) k) (\<lambda>_. ranked rank)"
    proof (rule ends_bind [OF ends_find_pl [OF st]])
      fix r
      have "ends (\<lambda>em. (ranked rank em \<and> (\<forall>a e. r = Some (a, e) \<longrightarrow> dget em a = Some e))
          \<and> (\<forall>a e. r = Some (a, e) \<longrightarrow> rank a < rank p)) (k r) (\<lambda>_. ranked rank)"
        by (rule ends_assume) (rule cont)
      then show "ends (\<lambda>em. ranked rank em \<and> (\<forall>a e. r = Some (a, e) \<longrightarrow> a \<in> set ids \<and> dget em a = Some e)) (k r)
          (\<lambda>_. ranked rank)"
        by (rule ends_pre) (use lower in blast)
    qed
  qed
qed

lemma ends_mainline_loop:
  assumes "ranked_store rank"
  shows "\<forall>p. pl = Some p \<longrightarrow> rank p < fuel \<Longrightarrow>
    ends (ranked rank) (mainline_loop fuel store room_id pl mainline) (\<lambda>_. ranked rank)"
proof (induction fuel arbitrary: pl mainline)
  case 0
  then show ?case by (cases pl) (auto intro: ends_return)
next
  case (Suc fuel)
  show ?case
  proof (cases pl)
    case (Some p)
    have "ends (\<lambda>em. ranked rank em \<and> dget em p = Some ev)
        (bindS (liftS (auth_event_ids ev)) (\<lambda>ids. bindS (find_pl_auth_event store room_id ids) (\<lambda>next.
          mainline_loop fuel store room_id (map_option fst next) (mainline @ [p])))) (\<lambda>_. ranked rank)" for ev
    proof (rule ends_next_pl [OF assms])
      fix r :: "(string \<times> event) option"
      assume "\<forall>a e. r = Some (a, e) \<longrightarrow> rank a < rank p"
      with Suc.prems Some have "\<forall>q. map_option fst r = Some q \<longrightarrow> rank q < fuel" by fastforce
      then show "ends (\<lambda>em. ranked rank em \<and> (\<forall>a e. r = Some (a, e) \<longrightarrow> dget em a = Some e))
          (mainline_loop fuel store room_id (map_option fst r) (mainline @ [p])) (\<lambda>_. ranked rank)"
        by (rule ends_pre [OF Suc.IH]) (erule conjunct1)
    qed
    from ends_bind [OF ends_get_event [OF assms] this] Some show ?thesis
      by (cases "p = []") (simp_all add: ends_return)
  qed (simp add: ends_return)
qed

lemma ends_mainline_depth_loop:
  assumes "ranked_store rank"
  shows "\<forall>e. ev = Some e \<longrightarrow> rank (ev_event_id e) < fuel \<Longrightarrow>
    ends (\<lambda>em. ranked rank em \<and> (\<forall>e. ev = Some e \<longrightarrow> dget em (ev_event_id e) = Some e))
      (mainline_depth_loop fuel store room_id mmap ev) (\<lambda>_. ranked rank)"
proof (induction fuel arbitrary: ev)
  case 0
  then show ?case by (cases ev) (auto intro: ends_return split: option.splits)
next
  case (Suc fuel)
  show ?case
  proof (cases ev)
    case (Some e)
    have "ends (\<lambda>em. ranked rank em \<and> dget em (ev_event_id e) = Some e)
        (bindS (liftS (auth_event_ids e)) (\<lambda>ids. bindS (find_pl_auth_event store room_id ids) (\<lambda>next.
          mainline_depth_loop fuel store room_id mmap (map_option snd next)))) (\<lambda>_. ranked rank)"
    proof (rule ends_next_pl [OF assms])
      fix r :: "(string \<times> event) option"
      let ?r = "map_option snd r"
      assume lower: "\<forall>a x. r = Some (a, x) \<longrightarrow> rank a < rank (ev_event_id e)"
      have "ends (\<lambda>em. (ranked rank em \<and> (\<forall>x. ?r = Some x \<longrightarrow> dget em (ev_event_id x) = Some x))
          \<and> (\<forall>x. ?r = Some x \<longrightarrow> rank (ev_event_id x) < fuel))
          (mainline_depth_loop fuel store room_id mmap ?r) (\<lambda>_. ranked rank)"
        by (rule ends_assume) (rule Suc.IH)
      then show "ends (\<lambda>em. ranked rank em \<and> (\<forall>a x. r = Some (a, x) \<longrightarrow> dget em a = Some x))
          (mainline_depth_loop fuel store room_id mmap ?r) (\<lambda>_. ranked rank)"
      proof (rule ends_pre)
        fix em assume em: "ranked rank em \<and> (\<forall>a x. r = Some (a, x) \<longrightarrow> dget em a = Some x)"
        have "ev_event_id x = a" if "r = Some (a, x)" for a x
          using that em by (blast dest: ranked_own own_idsD)
        with em lower Suc.prems Some
        show "(ranked rank em \<and> (\<forall>x. ?r = Some x \<longrightarrow> dget em (ev_event_id x) = Some x))
            \<and> (\<forall>x. ?r = Some x \<longrightarrow> rank (ev_event_id x) < fuel)"
          by (cases r) fastforce+
      qed
    qed
    with Some show ?thesis by (cases "dget mmap (ev_event_id e)") (auto intro: ends_return)
  qed (simp add: ends_return)
qed

lemma ends_map_event:
  "ends (ranked rank) (map_event eid) (\<lambda>e em. ranked rank em \<and> dget em eid = Some e)"
  by (auto simp: ends_def triple_def map_event_def bindE_eq_Inl optE_eq_Inl OUT_OF_FUEL_def)

lemma ends_mainline_depth:
  assumes "ranked_store rank" "rank eid < fuel"
  shows "ends (\<lambda>em. ranked rank em \<and> dget em eid = Some e) (get_mainline_depth_for_event fuel store mmap e)
    (\<lambda>_. ranked rank)"
  unfolding get_mainline_depth_for_event_def
proof (rule ends_bind [where R = "\<lambda>_ em. ranked rank em \<and> dget em eid = Some e"])
  fix room_id
  have "ends (\<lambda>em. (ranked rank em \<and> (\<forall>x. Some e = Some x \<longrightarrow> dget em (ev_event_id x) = Some x))
      \<and> (\<forall>x. Some e = Some x \<longrightarrow> rank (ev_event_id x) < fuel))
      (mainline_depth_loop fuel store room_id mmap (Some e)) (\<lambda>_. ranked rank)"
    by (rule ends_assume) (rule ends_mainline_depth_loop [OF assms(1)])
  then show "ends (\<lambda>em. ranked rank em \<and> dget em eid = Some e)
      (mainline_depth_loop fuel store room_id mmap (Some e)) (\<lambda>_. ranked rank)"
  proof (rule ends_pre)
    fix em assume em: "ranked rank em \<and> dget em eid = Some e"
    then have "ev_event_id e = eid" by (blast dest: ranked_own own_idsD)
    with em assms(2) show "(ranked rank em \<and> (\<forall>x. Some e = Some x \<longrightarrow> dget em (ev_event_id x) = Some x))
      \<and> (\<forall>x. Some e = Some x \<longrightarrow> rank (ev_event_id x) < fuel)" by simp
  qed
qed (simp add: ends_lift event_room_id_fuel)

lemma ends_mainline_sort:
  assumes st: "ranked_store rank" and ids: "\<forall>eid\<in>set event_ids. rank eid < fuel"
    and pl: "\<forall>p. pl = Some p \<longrightarrow> rank p < fuel"
  shows "ends (ranked rank) (mainline_sort fuel store room_id event_ids pl) (\<lambda>_. ranked rank)"
proof -
  have depths: "ends (ranked rank) (foldS (\<lambda>ev_id order_map.
        bindS (map_event ev_id) (\<lambda>ev.
        bindS (get_mainline_depth_for_event fuel store (mainline_map_of mainline) ev) (\<lambda>depth.
        bindS (map_event ev_id) (\<lambda>ev'.
          returnS (dset ev_id (depth, ev_origin_server_ts ev', ev_id) order_map))))) event_ids [])
      (\<lambda>_. ranked rank)" for mainline
  proof (rule ends_fold [where I = "\<lambda>_. ranked rank"])
    fix ev_id and order_map :: "(string, int \<times> int \<times> string) pydict"
    assume "ev_id \<in> set event_ids"
    with ids have "rank ev_id < fuel" by blast
    then show "ends (ranked rank) (bindS (map_event ev_id) (\<lambda>ev.
        bindS (get_mainline_depth_for_event fuel store (mainline_map_of mainline) ev) (\<lambda>depth.
        bindS (map_event ev_id) (\<lambda>ev'.
          returnS (dset ev_id (depth, ev_origin_server_ts ev', ev_id) order_map))))) (\<lambda>_. ranked rank)"
      by (intro ends_bind [OF ends_map_event] ends_bind [OF ends_mainline_depth [OF st]] ends_return) simp_all
  qed
  show ?thesis
    unfolding mainline_sort_def
    by (auto intro!: ends_bind [OF ends_mainline_loop [OF st pl]] ends_bind [OF depths] ends_return)
qed

end

end
