(* ===== verification/Auth_Rules_Fuel.thy ===== *)
theory Auth_Rules_Fuel
  imports Event_Store Event_Auth
begin

text \<open>
  No authorisation rule raises the exception that stands for a loop that ran out of fuel: each
  rule is a sequence of checks that raise exceptions of their own. The check of signatures is a
  parameter, of which the same is assumed.
\<close>

section \<open>JSON values and identifiers\<close>

named_theorems fuel_rules

lemma fuel_free_case_option [fuel_rules]:
  "(x = None \<Longrightarrow> fuel_free a) \<Longrightarrow> (\<And>y. x = Some y \<Longrightarrow> fuel_free (f y)) \<Longrightarrow> fuel_free (case x of None \<Rightarrow> a | Some y \<Rightarrow> f y)"
  by (cases x) auto

lemma fuel_free_if [fuel_rules]:
  "(b \<Longrightarrow> fuel_free x) \<Longrightarrow> (\<not> b \<Longrightarrow> fuel_free y) \<Longrightarrow> fuel_free (if b then x else y)"
  by simp

lemma exn_fuel_rules [simp]: "AuthError c m \<noteq> OUT_OF_FUEL" "UnstableSpecAuthError c m k \<noteq> OUT_OF_FUEL"
    "SynapseError c m \<noteq> OUT_OF_FUEL" "TypeError \<noteq> OUT_OF_FUEL" "ValueError \<noteq> OUT_OF_FUEL" "IndexError \<noteq> OUT_OF_FUEL"
    "OverflowError \<noteq> OUT_OF_FUEL" "RuntimeError \<noteq> OUT_OF_FUEL" "SignatureVerifyException \<noteq> OUT_OF_FUEL"
  by (simp_all add: OUT_OF_FUEL_def)

lemma fuel_free_checkE [fuel_rules]: "(\<And>x. x \<in> set xs \<Longrightarrow> fuel_free (f x)) \<Longrightarrow> fuel_free (checkE f xs)"
  using checkE_InlD [of f xs OUT_OF_FUEL] by (auto simp: fuel_free_def)

lemmas [fuel_rules] = fuel_free_bindE fuel_free_foldE fuel_free_optE fuel_free_guardE fuel_free_event_room_id fuel_free_get_domain

lemma fuel_free_accessors [fuel_rules]: "fuel_free (event_state_key e)" "fuel_free (membership e)"
  by (simp_all add: event_state_key_def membership_def fuel_free_optE)

lemma fuel_free_auth_event_ids [fuel_rules]: "fuel_free (auth_event_ids e)"
  by (auto simp: auth_event_ids_def Let_def intro!: fuel_rules)

lemma fuel_free_json_get [fuel_rules]: "fuel_free (json_get v k)"
  by (cases v) simp_all

lemma fuel_free_int_of_str: "fuel_free (int_of_str s)"
  by (cases "py_strip s") (simp_all add: int_of_str_def fuel_free_optE)

lemma fuel_free_py_int [fuel_rules]: "fuel_free (py_int v)"
  by (cases v rule: py_int.cases) (simp_all add: fuel_free_int_of_str)

lemma fuel_free_py_iter [fuel_rules]: "fuel_free (py_iter v)"
  by (cases v) simp_all

lemma fuel_free_py_set [fuel_rules]: "fuel_free (py_set v)"
  by (auto simp: py_set_def intro!: fuel_rules)

lemma fuel_free_py_contains [fuel_rules]: "fuel_free (py_contains v x)"
  by (cases v) (simp_all split: json.split)

lemma fuel_free_py_index: "fuel_free (py_index l x)"
  by (cases x) (simp_all add: py_index_def Let_def)

lemma fuel_free_py_getitem [fuel_rules]: "fuel_free (py_getitem v x)"
  by (cases v) (auto split: json.split intro!: fuel_rules fuel_free_py_index)

lemma fuel_free_is_creator [fuel_rules]: "fuel_free (is_creator c u)"
  by (auto simp: is_creator_def intro!: fuel_rules)

section \<open>Power levels and membership\<close>

lemma fuel_free_get_user_power_level [fuel_rules]: "fuel_free (get_user_power_level u am)"
  by (auto simp: get_user_power_level_def room_creator_def Let_def intro!: fuel_rules)

lemma fuel_free_get_named_level [fuel_rules]: "fuel_free (get_named_level am name def)"
  by (auto simp: get_named_level_def Let_def intro!: fuel_rules)

lemma fuel_free_get_send_level [fuel_rules]: "fuel_free (get_send_level t k e)"
  by (auto simp: get_send_level_def Let_def intro!: fuel_rules)

lemma fuel_free_check_joined_room [fuel_rules]: "fuel_free (check_joined_room m)"
  by (auto simp: check_joined_room_def intro!: fuel_rules)

lemma fuel_free_sender_in_room [fuel_rules]: "fuel_free (check_event_sender_in_room e am)"
  by (auto simp: check_event_sender_in_room_def intro!: fuel_rules)

lemma fuel_free_member_is [fuel_rules]: "fuel_free (member_is m v)"
  by (auto simp: member_is_def intro!: fuel_rules)

lemma fuel_free_get_public_keys [fuel_rules]: "fuel_free (get_public_keys e)"
  by (auto simp: get_public_keys_def Let_def intro!: fuel_rules)

lemma fuel_free_try_key_names: "(\<And>k. fuel_free (verify k)) \<Longrightarrow> fuel_free (try_key_names verify ks)"
  by (induction ks) (auto intro!: fuel_rules)

lemma fuel_free_try_servers: "(\<And>s k. fuel_free (verify s k)) \<Longrightarrow> fuel_free (try_servers verify sigs)"
  by (induction verify sigs rule: try_servers.induct) (auto intro!: fuel_rules fuel_free_try_key_names)

lemma fuel_free_try_public_keys:
  assumes "\<And>k. fuel_free (attempt k)"
  shows "fuel_free (try_public_keys attempt ks)"
proof (induction ks)
  case (Cons obj rest)
  have "fuel_free (case attempt k of
      Inr ok \<Rightarrow> (if ok then Inr True else try_public_keys attempt rest)
    | Inl e \<Rightarrow> (if e = KeyError \<or> e = SignatureVerifyException then try_public_keys attempt rest else Inl e))" for k
    using assms [of k] Cons.IH by (cases "attempt k") auto
  then show ?case by (auto intro!: fuel_rules)
qed simp

text \<open>What is assumed of the check of signatures.\<close>

definition signatures_fuel_free :: "externals \<Rightarrow> bool" where
  "signatures_fuel_free ext \<longleftrightarrow> (\<forall>signed server key_name key. fuel_free (ext_verify_signed ext signed server key_name key))"

lemma fuel_free_third_party_invite [fuel_rules]:
  assumes "signatures_fuel_free ext"
  shows "fuel_free (verify_third_party_invite ext e am)"
proof -
  have "fuel_free (try_public_keys (\<lambda>public_key. case as_mapping signatures of
       None \<Rightarrow> Inl AttributeError
     | Some sigs \<Rightarrow> try_servers (\<lambda>server key_name. ext_verify_signed ext signed server key_name public_key) sigs) ks)"
    for signatures signed ks
    using assms by (auto simp: signatures_fuel_free_def intro!: fuel_rules fuel_free_try_public_keys fuel_free_try_servers)
  then show ?thesis
    unfolding verify_third_party_invite_def
    by (auto intro!: fuel_rules split: option.split)
qed

lemma fuel_free_creator_joining [fuel_rules]: "fuel_free (creator_joining rv e am ms)"
  by (auto simp: creator_joining_def intro!: fuel_rules)

lemma fuel_free_membership_facts [fuel_rules]: "fuel_free (membership_facts_of rv e t am)"
  by (auto simp: membership_facts_of_def Let_def intro!: fuel_rules)

lemma fuel_free_authorising_user: "fuel_free (check_authorising_user e am f)"
  by (auto simp: check_authorising_user_def Let_def intro!: fuel_rules split: json.split)

lemma fuel_free_membership_checks [fuel_rules]:
  "fuel_free (check_invite f)" "fuel_free (check_join rv e t am f)" "fuel_free (check_leave e t am f)"
  "fuel_free (check_ban f)" "fuel_free (check_knock rv e t f)"
  unfolding check_invite_def check_join_def check_leave_def check_ban_def check_knock_def
  by (auto intro!: fuel_rules fuel_free_authorising_user)

lemma fuel_free_membership_change [fuel_rules]:
  "signatures_fuel_free ext \<Longrightarrow> fuel_free (is_membership_change_allowed ext rv e am)"
  unfolding is_membership_change_allowed_def
  by (auto intro!: fuel_rules)

section \<open>Events, redactions and changes of the power levels\<close>

lemma fuel_free_thread_level [fuel_rules]: "fuel_free (setka_channel_thread_comment_send_level e am)"
proof -
  have "fuel_free (is_threaded_content c)" for c
    by (auto simp: is_threaded_content_def is_thread_rel_type_def Let_def intro!: fuel_rules)
  moreover have "fuel_free (case py_int v of Inr i \<Rightarrow> Inr (Some i)
      | Inl e \<Rightarrow> (if e = TypeError \<or> e = ValueError then Inr (Some 0) else Inl e))" for v
    using fuel_free_py_int [of v] by (cases "py_int v") auto
  ultimately show ?thesis
    by (auto simp: setka_channel_thread_comment_send_level_def Let_def intro!: fuel_rules)
qed

lemma fuel_free_state_key_owner [fuel_rules]: "fuel_free (check_state_key_owner ext e am k l)"
  by (cases "state_key_owner k") (auto simp: check_state_key_owner_def intro!: fuel_rules)

lemma fuel_free_can_send_event [fuel_rules]: "fuel_free (can_send_event ext e am)"
  by (auto simp: can_send_event_def Let_def intro!: fuel_rules)

lemma fuel_free_check_redaction [fuel_rules]: "fuel_free (check_redaction rv e am)"
  by (auto simp: check_redaction_def intro!: fuel_rules split: json.split)

lemma fuel_free_check_level_change: "fuel_free (check_level_change e old l nd)"
  by (cases nd) (auto simp: check_level_change_def level_at_def Let_def intro!: fuel_rules)

lemma fuel_free_levels_to_check [fuel_rules]: "fuel_free (levels_to_check rv old new us)"
  by (auto simp: levels_to_check_def union_keys_def intro!: fuel_rules)

lemma fuel_free_check_power_levels [fuel_rules]: "fuel_free (check_power_levels rv e am)"
proof -
  have "fuel_free (check_user_entry kv)" for kv
    by (cases kv) (auto simp: check_user_entry_def split: sum.split)
  moreover have "fuel_free (check_int_level kv)" for kv
    by (cases kv) (auto simp: check_int_level_def intro!: fuel_rules)
  moreover have "fuel_free (check_creators_not_listed am us)" for us
    by (auto simp: check_creators_not_listed_def Let_def intro!: fuel_rules)
  ultimately show ?thesis
    by (auto simp: check_power_levels_def intro!: fuel_rules fuel_free_check_level_change)
qed

section \<open>The rules\<close>

lemma fuel_free_auth_types [fuel_rules]: "fuel_free (auth_types_for_event rv e)"
proof -
  have "fuel_free (key_if_str t v)" for t v
    by (simp add: key_if_str_def split: json.split)
  moreover have "fuel_free (third_party_token v)" for v
    by (auto simp: third_party_token_def intro!: fuel_rules)
  ultimately show ?thesis
    by (auto simp: auth_types_for_event_def Let_def intro!: fuel_rules)
qed

lemma fuel_free_auth_rules [fuel_rules]:
  assumes "signatures_fuel_free ext"
  shows "fuel_free (check_state_dependent_auth_rules ext e aes)"
proof -
  have "fuel_free (index_events aes)"
    by (auto simp: index_events_def intro!: fuel_rules)
  moreover have "fuel_free (check_against_auth_dict ext e am)" for am
    unfolding check_against_auth_dict_def using assms
    by (auto intro!: fuel_rules)
  ultimately show ?thesis
    by (auto simp: check_state_dependent_auth_rules_def intro!: fuel_rules)
qed

end
