(* ===== verification/State_Res_Ends.thy ===== *)
theory State_Res_Ends
  imports State_Res_Termination Auth_Rules_Fuel
begin

text \<open>
  Resolution as a whole does not run out of fuel. More fuel never changes an outcome other than
  \<open>OUT_OF_FUEL\<close>; everything but the searches and the walks along the power levels takes no fuel; and
  those end when the auth events form an acyclic graph.
\<close>

section \<open>More fuel does not change an outcome\<close>

definition extends :: "'a res \<Rightarrow> 'a res \<Rightarrow> bool" where
  "extends m m' \<longleftrightarrow> (fuel_free m \<longrightarrow> m' = m)"

lemma extends_refl: "extends m m"
  by (simp add: extends_def)

lemma extends_bindE: "extends m m' \<Longrightarrow> (\<And>x. extends (f x) (f' x)) \<Longrightarrow> extends (bindE m f) (bindE m' f')"
  by (cases m) (auto simp: extends_def)

lemma extends_case_prod: "(\<And>a b. extends (f a b) (f' a b)) \<Longrightarrow> extends (case p of (a, b) \<Rightarrow> f a b) (case p of (a, b) \<Rightarrow> f' a b)"
  by (cases p) simp

lemma extends_case_option:
  "extends x x' \<Longrightarrow> (\<And>a. extends (f a) (f' a)) \<Longrightarrow>
     extends (case v of None \<Rightarrow> x | Some a \<Rightarrow> f a) (case v of None \<Rightarrow> x' | Some a \<Rightarrow> f' a)"
  by (cases v) simp_all

lemma extends_if: "extends x x' \<Longrightarrow> extends y y' \<Longrightarrow> extends (if b then x else y) (if b then x' else y')"
  by simp

lemma extends_foldE: "(\<And>x s. extends (f x s) (f' x s)) \<Longrightarrow> extends (foldE f xs s) (foldE f' xs s)"
  by (induction xs arbitrary: s) (auto intro: extends_refl extends_bindE)

text \<open>The same for computations with a state.\<close>

definition extendsS :: "('s, 'a) comp \<Rightarrow> ('s, 'a) comp \<Rightarrow> bool" where
  "extendsS m m' \<longleftrightarrow> (\<forall>s. extends (m s) (m' s))"

lemma extendsS_refl: "extendsS m m"
  by (simp add: extendsS_def extends_refl)

lemma extendsS_bindS:
  assumes "extendsS m m'" "\<And>x. extendsS (f x) (f' x)"
  shows "extendsS (bindS m f) (bindS m' f')"
  using assms unfolding extendsS_def bindS_def
  by (auto intro!: extends_bindE split: prod.split)

lemma extendsS_foldS: "(\<And>x b. extendsS (f x b) (f' x b)) \<Longrightarrow> extendsS (foldS f xs b) (foldS f' xs b)"
  by (induction xs arbitrary: b) (auto intro: extendsS_refl extendsS_bindS)

lemma chain_search_extends:
  "fuel \<le> fuel' \<Longrightarrow> extends (chain_search fuel un stack chain nexts) (chain_search fuel' un stack chain nexts)"
  unfolding extends_def fuel_free_def using chain_search_more_fuel by blast

lemma forward_search_extends:
  "fuel \<le> fuel' \<Longrightarrow> extends (forward_search fuel nexts queue found) (forward_search fuel' nexts queue found)"
proof (induction fuel nexts queue found arbitrary: fuel' rule: forward_search.induct)
  case (3 fuel nexts e queue found)
  then show ?case by (cases fuel') auto
qed (simp_all add: extends_def)

lemma auth_chains_extends: "fuel \<le> fuel' \<Longrightarrow> extends (auth_chains fuel un) (auth_chains fuel' un)"
  unfolding auth_chains_def
  by (intro extends_foldE extends_case_prod extends_bindE chain_search_extends extends_refl)

lemma auth_chain_difference_extends:
  assumes "fuel \<le> fuel'"
  shows "extends (auth_chain_difference fuel store room_id sets un conflicted)
    (auth_chain_difference fuel' store room_id sets un conflicted)"
  unfolding auth_chain_difference_def Let_def
  by (intro auth_chains_extends [OF assms] forward_search_extends [OF assms] extends_refl
      extends_bindE extends_case_prod extends_case_option extends_if)

lemma mainline_loop_extends:
  "fuel \<le> fuel' \<Longrightarrow> extendsS (mainline_loop fuel store room_id pl mainline) (mainline_loop fuel' store room_id pl mainline)"
proof (induction fuel store room_id pl mainline arbitrary: fuel' rule: mainline_loop.induct)
  case (1 fuel store room_id mainline)
  then show ?case by (simp add: extendsS_refl)
next
  case (2 store room_id pl mainline)
  then show ?case by (cases fuel') (auto simp: extendsS_def extends_def liftS_def)
next
  case (3 fuel store room_id pl mainline)
  then obtain n where "fuel' = Suc n" "fuel \<le> n" by (cases fuel') auto
  with 3 show ?case by (auto intro!: extendsS_refl extendsS_bindS)
qed

lemma mainline_depth_loop_extends:
  "fuel \<le> fuel' \<Longrightarrow> extendsS (mainline_depth_loop fuel store room_id mmap ev) (mainline_depth_loop fuel' store room_id mmap ev)"
proof (induction fuel store room_id mmap ev arbitrary: fuel' rule: mainline_depth_loop.induct)
  case (1 fuel store room_id mmap)
  then show ?case by (simp add: extendsS_refl)
next
  case (2 store room_id mmap ev)
  then show ?case by (cases fuel') (auto simp: extendsS_def extends_def liftS_def split: option.split)
next
  case (3 fuel store room_id mmap ev)
  then obtain n where "fuel' = Suc n" "fuel \<le> n" by (cases fuel') auto
  with 3 show ?case by (cases "dget mmap (ev_event_id ev)") (auto intro!: extendsS_refl extendsS_bindS)
qed

lemma mainline_sort_extends:
  assumes "fuel \<le> fuel'"
  shows "extendsS (mainline_sort fuel store room_id ids pl) (mainline_sort fuel' store room_id ids pl)"
  unfolding mainline_sort_def get_mainline_depth_for_event_def
  by (auto intro!: extendsS_refl extendsS_bindS extendsS_foldS mainline_loop_extends [OF assms]
      mainline_depth_loop_extends [OF assms])

lemma resolve_conflicts_extends:
  assumes "fuel \<le> fuel'"
  shows "extendsS (resolve_conflicts ext fuel store room_id rv u full) (resolve_conflicts ext fuel' store room_id rv u full)"
  unfolding resolve_conflicts_def
  by (intro extendsS_refl extendsS_bindS mainline_sort_extends [OF assms])

lemma resolve_events_extends:
  assumes "fuel \<le> fuel'"
  shows "extends (resolve_events_with_store ext fuel store room_id rv sets em)
    (resolve_events_with_store ext fuel' store room_id rv sets em)"
  using resolve_conflicts_extends [OF assms] unfolding resolve_events_with_store_def Let_def extendsS_def
  by (auto intro!: extends_refl extends_bindE auth_chain_difference_extends [OF assms] split: prod.split)

section \<open>The steps that take no fuel\<close>

text \<open>A computation that ends from every state.\<close>

definition fuelless :: "('s, 'a) comp \<Rightarrow> bool" where
  "fuelless m \<longleftrightarrow> (\<forall>s. fuel_free (m s))"

lemma fuelless_return: "fuelless (returnS x)"
  by (simp add: fuelless_def returnS_def)

lemma fuelless_lift: "fuel_free m \<Longrightarrow> fuelless (liftS m)"
  by (cases m) (simp_all add: fuelless_def liftS_def)

lemma fuelless_bind: "fuelless m \<Longrightarrow> (\<And>x. fuelless (f x)) \<Longrightarrow> fuelless (bindS m f)"
  by (auto simp: fuelless_def bindS_def intro!: fuel_free_bindE)

lemma fuelless_fold: "(\<And>x b. fuelless (f x b)) \<Longrightarrow> fuelless (foldS f xs b)"
  by (induction xs arbitrary: b) (auto intro: fuelless_return fuelless_bind)

lemma fuelless_map_event: "fuelless (map_event eid)"
  by (auto simp: fuelless_def map_event_def intro!: fuel_rules)

lemma fuel_free_event_key [fuel_rules]: "fuel_free (event_key e)"
  by (auto simp: event_key_def intro!: fuel_rules)

lemma fuel_free_is_power_event [fuel_rules]: "fuel_free (is_power_event e)"
  by (auto simp: is_power_event_def intro!: fuel_rules)

lemma fuel_free_level_in_event [fuel_rules]: "fuel_free (level_in_event e u)"
  by (auto simp: level_in_event_def Let_def intro!: fuel_rules)

lemmas fuelless_rules = fuelless_return fuelless_lift fuelless_bind fuelless_fold fuelless_map_event

context resolution_store
begin

lemma fuelless_get_event_opt: "fuelless (get_event_opt store room_id eid)"
  unfolding fuelless_def get_event_opt_def
  by (auto intro!: fuel_rules fetch_fuel simp: OUT_OF_FUEL_def split: option.split)

lemma fuelless_get_event: "fuelless (get_event store room_id eid)"
  unfolding get_event_def
  by (auto intro!: fuelless_rules fuelless_get_event_opt fuel_rules simp: OUT_OF_FUEL_def)

lemmas fuelless_get = fuelless_get_event_opt fuelless_get_event

lemma fuelless_find_pl_and_create: "fuelless (find_pl_and_create store room_id ids)"
  unfolding find_pl_and_create_def
  by (intro fuelless_rules) (auto intro!: fuelless_rules fuelless_get fuel_rules split: option.split)

lemma fuelless_creator_level_loop: "fuelless (creator_level_loop store room_id event ids)"
  by (induction ids) (auto intro!: fuelless_rules fuelless_get fuel_rules split: option.split simp: Let_def)

lemma fuelless_power_level: "fuelless (get_power_level_for_sender store room_id eid)"
  unfolding get_power_level_for_sender_def
  by (auto intro!: fuelless_rules fuelless_get fuel_rules fuelless_find_pl_and_create fuelless_creator_level_loop
      split: option.split)

lemma fuelless_add_to_graph: "fuelless (add_to_graph store room_id full stack graph)"
proof -
  have "st = store \<Longrightarrow> fuel_free (add_to_graph st room_id full stack graph em)" for st em
  proof (induction st room_id full stack graph em rule: add_to_graph.induct)
    case (2 st room_id full eid stack graph em)
    have get: "fuel_free (get_event st room_id eid em)"
      using fuelless_get_event 2(2) by (simp add: fuelless_def)
    show ?case
    proof (cases "get_event st room_id eid em")
      case (Inl x)
      then show ?thesis using get by simp
    next
      case (Inr p)
      then obtain event em' where e: "get_event st room_id eid em = Inr (event, em')" by (cases p) simp
      show ?thesis
      proof (cases "auth_event_ids event")
        case (Inl x)
        then show ?thesis using e fuel_free_auth_event_ids [of event] by simp
      next
        case ids: (Inr ids)
        from 2(1) [OF e refl ids refl refl 2(2)] e ids show ?thesis by (simp add: Let_def)
      qed
    qed
  qed simp
  then show ?thesis by (simp add: fuelless_def)
qed

lemma fuelless_own_auth_events: "fuelless (own_auth_events store room_id ids)"
  unfolding own_auth_events_def
  by (intro fuelless_rules) (auto intro!: fuelless_rules fuelless_get fuel_rules split: option.split)

lemma fuelless_state_auth_events: "fuelless (state_auth_events store room_id r ts d)"
  unfolding state_auth_events_def
  by (intro fuelless_rules) (auto intro!: fuelless_rules fuelless_get fuel_rules split: option.split)

lemma fuelless_iterative_auth_checks:
  assumes "signatures_fuel_free ext"
  shows "fuelless (iterative_auth_checks ext store room_id rv ids r)"
proof -
  have "fuelless (case check_state_dependent_auth_rules ext event aes of
      Inr event' \<Rightarrow> bindS (liftS (event_key event)) (\<lambda>k.
        bindS (\<lambda>em. Inr ((), dset eid event' em)) (\<lambda>_. returnS (dset k eid r)))
    | Inl e \<Rightarrow> if is_AuthError e then returnS r else liftS (Inl e))" for event aes eid r
  proof (cases "check_state_dependent_auth_rules ext event aes")
    case (Inl e)
    then have "e \<noteq> OUT_OF_FUEL" using fuel_free_auth_rules [OF assms, of event aes] by simp
    with Inl show ?thesis by (auto intro!: fuelless_rules)
  next
    case (Inr event')
    have "fuelless (\<lambda>em. Inr ((), dset eid event' em))" by (simp add: fuelless_def)
    with Inr show ?thesis by (auto intro!: fuelless_rules fuel_rules)
  qed
  then show ?thesis
    unfolding iterative_auth_checks_def auth_check_event_def
    by (auto intro!: fuelless_rules fuel_rules fuelless_own_auth_events fuelless_state_auth_events)
qed

section \<open>Resolution\<close>

lemma ends_fuelless: "triple P m Q \<Longrightarrow> fuelless m \<Longrightarrow> ends P m Q"
  by (simp add: ends_def fuelless_def fuel_free_def)

lemma ends_any: "fuelless m \<Longrightarrow> ends P m (\<lambda>_ _. True)"
  by (rule ends_fuelless) (simp_all add: triple_def)

lemma ends_triple: "ends P m R \<Longrightarrow> triple P m Q \<Longrightarrow> ends P m Q"
  by (simp add: ends_def)

text \<open>Auth events that are older in the given map and in the store are so in every map on the way.\<close>

lemma marked_ranked: "marked e e' \<Longrightarrow> ranked_event rank e \<Longrightarrow> ranked_event rank e'"
proof -
  assume m: "marked e e'" and r: "ranked_event rank e"
  have fields: "format_version e' = format_version e" "ev_type e' = ev_type e" "get_state_key e' = get_state_key e"
    "ev_auth_events e' = ev_auth_events e" "ev_event_id e' = ev_event_id e" "ev_dict_room_id e' = ev_dict_room_id e"
    using m by (auto simp: marked_def format_version_def get_state_key_def)
  have "auth_event_ids e' = auth_event_ids e"
    by (simp only: auth_event_ids_def event_room_id_def fields)
  then show ?thesis using r marked_id [OF m] by (simp add: ranked_event_def)
qed

lemma tracked_ranked:
  assumes "ranked_store rank" "ranked rank em0" "tracked store em0 em"
  shows "ranked rank em"
proof -
  have "ranked_event rank e" if at: "dget em i = Some e" for i e
  proof -
    obtain e0 where e0: "marked e0 e"
      "dget em0 i = Some e0 \<or> (\<exists>ids events. get_events store ids = Inr events \<and> dget events i = Some e0)"
      using tracked_held [OF assms(3) at] unfolding held_def by blast
    have "ranked_event rank e0"
      using e0(2) assms(1,2) unfolding ranked_store_def ranked_def by blast
    then show ?thesis using e0(1) marked_ranked by blast
  qed
  then show ?thesis using tracked_own [OF assms(3)] by (simp add: ranked_def)
qed

lemma ends_power_sort:
  "ends (\<lambda>em. tracked store em0 em \<and> set p \<subseteq> set full) (reverse_topological_power_sort store room_id p full)
     (\<lambda>xs em. tracked store em0 em \<and> set xs \<subseteq> set full)"
proof (rule ends_triple [OF _ power_sort_tracked])
  have sort: "fuelless (liftS (lexicographical_topological_sort graph key))" if "dict_ok graph"
    for graph :: "string graph" and key :: "string \<Rightarrow> int \<times> int \<times> string"
    using sort_is_greedy [OF that, of key] by (auto intro!: fuelless_lift)
  show "ends (\<lambda>em. tracked store em0 em \<and> set p \<subseteq> set full) (reverse_topological_power_sort store room_id p full) (\<lambda>_ _. True)"
    unfolding reverse_topological_power_sort_def
  proof (rule ends_assume, rule ends_bind)
    assume "set p \<subseteq> set full"
    then show "ends (tracked store em0) (foldS (\<lambda>event_id graph. add_to_graph store room_id full [event_id] graph) p [])
        (\<lambda>graph em. tracked store em0 em \<and> graph_within (set full) graph)"
      by (intro ends_fuelless keeps_power_graph fuelless_fold fuelless_add_to_graph) simp_all
    fix graph
    show "ends (\<lambda>em. tracked store em0 em \<and> graph_within (set full) graph)
      (bindS (foldS (\<lambda>event_id event_to_pl. bindS (get_power_level_for_sender store room_id event_id)
          (\<lambda>pl. returnS (dset event_id pl event_to_pl))) (dkeys graph) []) (\<lambda>event_to_pl.
       bindS (foldS (\<lambda>event_id order. bindS (power_order event_to_pl event_id)
          (\<lambda>k. returnS (dset event_id k order))) (dkeys graph) []) (\<lambda>order.
       liftS (lexicographical_topological_sort graph
         (\<lambda>n. case dget order n of Some k \<Rightarrow> k | None \<Rightarrow> (0, 0, n)))))) (\<lambda>_ _. True)"
      unfolding power_order_def
      by (rule ends_assume, rule ends_any)
        (auto simp: graph_within_def intro!: fuelless_bind fuelless_fold fuelless_return fuelless_map_event
          fuelless_power_level fuelless_lift fuel_free_optE sort)
  qed
qed

text \<open>The state that the checks lead to names checked events and events that were there before.\<close>

lemma checks_in_turn_values:
  "checks_in_turn ext st em0 room_id rv base ids r \<Longrightarrow> r k = Some x \<Longrightarrow> x \<in> set ids \<or> base k = Some x"
  by (induction rule: checks_in_turn.induct) (auto split: if_splits)

lemma ends_resolve_conflicts:
  assumes st: "ranked_store rank" "ranked rank em0" and ext: "signatures_fuel_free ext"
    and bound: "\<forall>x \<in> set full \<union> ran (dget unconflicted). rank x < fuel"
  shows "ends (tracked store em0) (resolve_conflicts ext fuel store room_id rv unconflicted full) (\<lambda>_ _. True)"
proof -
  let ?turn = "\<lambda>xs r. checks_in_turn ext store em0 room_id rv (base_of rv unconflicted) xs (dget r)"
  have power: "fuelless (\<lambda>em. bindE (power_events_of em full) (\<lambda>p. Inr (p, em)))"
    by (auto simp: fuelless_def power_events_of_def intro!: fuel_rules)
  note checks = fuelless_iterative_auth_checks [OF ext]
  have mainline: "ends (\<lambda>em. (tracked store em0 em \<and> set xs \<subseteq> set full) \<and> ?turn xs r)
      (mainline_sort fuel store room_id (filter (\<lambda>e. e \<notin> set xs) full) (dget r (EventTypes_PowerLevels, []))) (\<lambda>_ _. True)"
    for xs r
  proof (rule ends_assume, rule ends_assume)
    assume xs: "set xs \<subseteq> set full" and turn: "?turn xs r"
    have "\<forall>p. dget r (EventTypes_PowerLevels, []) = Some p \<longrightarrow> rank p < fuel"
    proof (intro allI impI)
      fix p assume "dget r (EventTypes_PowerLevels, []) = Some p"
      from checks_in_turn_values [OF turn this]
      have "p \<in> set full \<union> ran (dget unconflicted)"
        using xs by (auto intro: ranI split: if_splits)
      then show "rank p < fuel" using bound by blast
    qed
    moreover have "\<forall>eid\<in>set (filter (\<lambda>e. e \<notin> set xs) full). rank eid < fuel"
      using bound by auto
    ultimately have "ends (ranked rank)
      (mainline_sort fuel store room_id (filter (\<lambda>e. e \<notin> set xs) full) (dget r (EventTypes_PowerLevels, []))) (\<lambda>_. ranked rank)"
      by (intro ends_mainline_sort [OF st(1)])
    then show "ends (tracked store em0)
      (mainline_sort fuel store room_id (filter (\<lambda>e. e \<notin> set xs) full) (dget r (EventTypes_PowerLevels, []))) (\<lambda>_ _. True)"
      using tracked_ranked [OF st] by (auto intro: ends_pre ends_post)
  qed
  show ?thesis
    unfolding resolve_conflicts_def
    by (rule ends_bind [OF ends_fuelless [OF power_events_tracked power]], rule ends_bind [OF ends_power_sort],
        rule ends_bind [OF ends_fuelless [OF first_checks_in_turn checks]], rule ends_bind [OF mainline], rule ends_any)
      (intro fuelless_bind checks fuelless_return)
qed

lemma finite_ran_dget: "finite (ran (dget d))"
  by (rule finite_subset [of _ "snd ` set d"]) (force simp: ran_def dest: map_of_SomeD)+

lemma resolution_ends:
  assumes em: "ranked rank em" "dict_ok em" and st: "ranked_store rank" and ext: "signatures_fuel_free ext"
  shows "\<exists>N. fuel_free (resolve_events_with_store ext N store room_id rv sets em)"
proof -
  obtain u c where sep: "seperate sets = (u, c)" by fastforce
  let ?ids = "remdups (concat (dvalues c))"
  let ?c = "if state_res rv = StateRes_V2_1 then Some ?ids else None"
  obtain N where N: "\<And>fuel. fuel \<ge> N \<Longrightarrow> fuel_free (auth_chain_difference fuel store room_id sets em ?c)"
    using auth_chain_difference_ends [OF em] unfolding fuel_free_def by blast
  let ?full = "case auth_chain_difference N store room_id sets em ?c of Inl _ \<Rightarrow> [] | Inr diff \<Rightarrow> set_union ?ids diff"
  let ?M = "Suc (Max (rank ` (set ?full \<union> ran (dget u) \<union> {[]})))"
  define fuel where "fuel = max N ?M"
  have same: "auth_chain_difference fuel store room_id sets em ?c = auth_chain_difference N store room_id sets em ?c"
    using auth_chain_difference_extends [of N fuel] N [of N] by (simp add: extends_def fuel_def)
  have bound: "rank x < fuel" if "x \<in> set ?full \<union> ran (dget u)" for x
  proof -
    have "rank x \<le> Max (rank ` (set ?full \<union> ran (dget u) \<union> {[]}))"
      by (rule Max_ge) (intro finite_imageI finite_UnI finite_set finite_ran_dget finite.intros, use that in blast)
    then show ?thesis by (simp add: fuel_def)
  qed
  have conflicts: "fuel_free (resolve_conflicts ext fuel store room_id rv u
      (filter P ?full) (dupdate em new))" if "get_events store asked = Inr new" for P asked new
  proof -
    have "tracked store em (dupdate em new)"
      by (rule tracked_fetch [OF tracked_start [OF ranked_own [OF em(1)]] that])
    moreover have "ends (tracked store em) (resolve_conflicts ext fuel store room_id rv u (filter P ?full)) (\<lambda>_ _. True)"
    proof (rule ends_resolve_conflicts [OF st em(1) ext], rule ballI)
      fix x assume "x \<in> set (filter P ?full) \<union> ran (dget u)"
      then have "x \<in> set ?full \<union> ran (dget u)" using filter_is_subset [of P ?full] by blast
      then show "rank x < fuel" by (rule bound)
    qed
    ultimately show ?thesis by (simp add: ends_def fuel_free_def)
  qed
  have room: "fuel_free (all_in_room room_id em')" for em'
    by (auto simp: all_in_room_def OUT_OF_FUEL_def intro!: fuel_rules)
  show ?thesis
  proof (cases "auth_chain_difference N store room_id sets em ?c")
    case (Inl x)
    then have "fuel_free (resolve_events_with_store ext fuel store room_id rv sets em)"
      using N [of N] same by (auto simp: resolve_events_with_store_def sep Let_def)
    then show ?thesis by blast
  next
    case (Inr diff)
    have "fuel_free (resolve_events_with_store ext fuel store room_id rv sets em)"
      unfolding resolve_events_with_store_def sep prod.case Let_def same Inr bindE_Inr
      using conflicts [unfolded Inr sum.case]
      by (auto intro!: fuel_free_bindE fetch_fuel room)
    then show ?thesis by blast
  qed
qed

end

text \<open>
  C13. State resolution ends. Let the auth events of the given and of the stored events be older than
  the event, for some rank of event ids, so that they form an acyclic graph, and let the check of
  signatures not raise the exception that stands for a lack of fuel. Then some amount of fuel is
  enough for resolution as a whole: from there on it returns always the same result or exception, and
  that exception is not the lack of fuel.
\<close>

theorem resolution_loops_end:
  assumes em: "ranked rank em" "dict_ok em"
    and db: "\<forall>ids em'. resolution_get_events db w ids = Inr em' \<longrightarrow> ranked rank em'"
    and ext: "signatures_fuel_free ext"
  shows "\<exists>N outcome. outcome \<noteq> Inl OUT_OF_FUEL
    \<and> (\<forall>fuel\<ge>N. resolve_events_with_store ext fuel (worker_store db w difference) room_id rv sets em = outcome)"
proof -
  have st: "worker.ranked_store db w difference rank" using db by (simp add: worker.ranked_store_def)
  obtain N where N: "fuel_free (resolve_events_with_store ext N (worker_store db w difference) room_id rv sets em)"
    using worker.resolution_ends [OF em st ext] by blast
  have "resolve_events_with_store ext fuel (worker_store db w difference) room_id rv sets em
      = resolve_events_with_store ext N (worker_store db w difference) room_id rv sets em" if "fuel \<ge> N" for fuel
    using resolve_events_extends [OF that] N by (simp add: extends_def)
  with N show ?thesis unfolding fuel_free_def by blast
qed

text \<open>The sample events, ranked by their place in the room.\<close>

definition sample_rank :: "string \<Rightarrow> nat" where
  "sample_rank eid = (case dget [(''$ja'', 1), (''$p'', 2), (''$t1'', 3), (''$t2'', 3)] eid of
     None \<Rightarrow> 0 | Some n \<Rightarrow> n)"

lemma sample_ranked: "ranked sample_rank sample_event_map"
proof -
  have "\<forall>(i, e)\<in>set sample_event_map. \<exists>ids. auth_event_ids e = Inr ids
      \<and> (\<forall>a\<in>set ids. sample_rank a < sample_rank (ev_event_id e))"
    by (simp add: sample_event_map_def sample_topics_def sample_create_def sample_member_def
        sample_power_levels_def sample_event_def auth_event_ids_def format_version_def
        RoomVersions_V11_def sample_rank_def)
  then show ?thesis using own_ids_sample unfolding ranked_def ranked_event_def
    by (fastforce dest!: map_of_SomeD)
qed

lemma empty_store: "resolution_get_events [] \<lparr>ew_cache = [], ew_refs = []\<rparr> ids = Inr em \<longleftrightarrow> em = []"
proof -
  let ?w = "\<lparr>ew_cache = [], ew_refs = []\<rparr>"
  have cache: "get_events_from_local_cache ids' ?w = ([], ?w)" for ids'
    unfolding get_events_from_local_cache_def by (induction ids') (simp_all add: local_cache_step_def)
  have "fold (\<lambda>i acc. acc) ids' acc = acc" for ids' :: "string list" and acc :: row_map
    by (induction ids') simp_all
  then have rows: "fetch_rows [] ids' fetched [] = []" for ids' fetched
    by (simp add: fetch_rows.simps [of _ ids'] fetch_rows.simps [of _ "[]"] fetched_rows_def List.map_filter_def)
  have db: "get_events_from_db [] ids' ?w = Inr ([], ?w)" for ids'
    by (simp add: get_events_from_db_def rows events_of_rows_def dkeys_def dupdate_def)
  have "foldE (fetch_one [] RB_as_is True []) ids' ([], ?w) = Inr ([], ?w)" for ids'
    by (induction ids') (simp_all add: fetch_one_def)
  then have "get_events_as_list [] ids RB_as_is True ?w = Inr ([], ?w)"
    by (simp add: get_events_as_list_def get_unredacted_events_from_cache_or_db_def cache db dupdate_def)
  then show ?thesis
    by (auto simp: resolution_get_events_def worker_get_events_def bindS_def returnS_def index_by_id_def)
qed

theorem resolution_loops_end_witness:
  "\<exists>N outcome. outcome \<noteq> Inl OUT_OF_FUEL \<and> resolve_events_with_store sample_ext N
      (worker_store [] \<lparr>ew_cache = [], ew_refs = []\<rparr> no_difference) ''!r:x'' RoomVersions_V11
      [sample_state_set ''$t1'', sample_state_set ''$t2''] sample_event_map = outcome"
proof -
  let ?w = "\<lparr>ew_cache = [], ew_refs = []\<rparr>"
  have db: "\<forall>ids em. resolution_get_events [] ?w ids = Inr em \<longrightarrow> ranked sample_rank em"
    by (simp add: empty_store ranked_def)
  have dict: "dict_ok sample_event_map" by code_simp
  have ext: "signatures_fuel_free sample_ext" by (simp add: signatures_fuel_free_def sample_ext_def)
  from resolution_loops_end [OF sample_ranked dict db ext, of no_difference "''!r:x''" RoomVersions_V11
      "[sample_state_set ''$t1'', sample_state_set ''$t2'']"]
  show ?thesis by blast
qed

end
