(* ===== verification/Event_Fields.thy ===== *)
theory Event_Fields
  imports Events
begin

text \<open>
  The rest of \<open>events/utils.py\<close>: the selection of fields by dotted paths, the formats for clients,
  the repair of stringy power levels, the check of JSON values, and stripped state.
\<close>

section \<open>Paths\<close>

text \<open>
  \<open>_split_field\<close>. The matches of \<open>SPLIT_FIELD_REGEX\<close> are the dots with the backslashes before them;
  \<open>n\<close> counts the backslashes that end what was read since the last match.
\<close>

definition BACKSLASH :: char where
  "BACKSLASH = CHR 0x5C"

definition DOT :: char where
  "DOT = CHR ''.''"

fun split_raw :: "nat \<Rightarrow> string \<Rightarrow> string \<Rightarrow> string list" where
  "split_raw n part [] = [part]"
| "split_raw n part (c # cs) =
     (if c = DOT then
        (if even n then part # split_raw 0 [] cs else split_raw 0 (part @ [c]) cs)
      else split_raw (if c = BACKSLASH then Suc n else 0) (part @ [c]) cs)"

text \<open>\<open>ESCAPE_SEQUENCE_PATTERN.sub(_escape_slash, ...)\<close>: the pattern does not match before a newline.\<close>

fun unescape :: "string \<Rightarrow> string" where
  "unescape [] = []"
| "unescape [c] = [c]"
| "unescape (c # d # cs) =
     (if c = BACKSLASH \<and> d \<noteq> CHR 0x0A
      then (if d = BACKSLASH \<or> d = DOT then d # unescape cs else c # d # unescape cs)
      else c # unescape (d # cs))"

definition split_field :: "string \<Rightarrow> string list" where
  "split_field field = map unescape (split_raw 0 [] field)"

text \<open>\<open>_copy_field\<close>: the object at a path, and a value stored at a path.\<close>

fun drill :: "jdict \<Rightarrow> string list \<Rightarrow> jdict option" where
  "drill d [] = Some d"
| "drill d (f # fs) = (case dget d f of Some (JDict sub) \<Rightarrow> drill sub fs | _ \<Rightarrow> None)"

fun set_path :: "jdict \<Rightarrow> string list \<Rightarrow> string \<Rightarrow> json \<Rightarrow> jdict res" where
  "set_path d [] k v = Inr (dset k v d)"
| "set_path d (f # fs) k v =
     bindE (case dget d f of
              None \<Rightarrow> set_path [] fs k v
            | Some (JDict sub) \<Rightarrow> set_path sub fs k v
            | Some _ \<Rightarrow> Inl (if fs = [] then TypeError else AttributeError)) (\<lambda>sub.
       Inr (dset f (JDict sub) d))"

definition copy_field :: "jdict \<Rightarrow> jdict \<Rightarrow> string list \<Rightarrow> jdict res" where
  "copy_field src dst field =
     (if field = [] then Inr dst
      else
        (let path = butlast field; key_to_move = last field in
         case drill src path of
           None \<Rightarrow> Inr dst
         | Some sub \<Rightarrow>
             (case dget sub key_to_move of
                None \<Rightarrow> Inr dst
              | Some v \<Rightarrow> set_path dst path key_to_move v)))"

definition only_fields :: "jdict \<Rightarrow> string list \<Rightarrow> jdict res" where
  "only_fields dictionary names =
     (if names = [] then Inr dictionary
      else foldE (\<lambda>field output. copy_field dictionary output field) (map split_field names) [])"

section \<open>Formats for clients\<close>

definition dpop :: "string \<Rightarrow> jdict \<Rightarrow> jdict" where
  "dpop k d = filter (\<lambda>(k', _). k' \<noteq> k) d"

definition format_event_for_client_v2 :: "jdict \<Rightarrow> jdict" where
  "format_event_for_client_v2 d =
     fold dpop [''auth_events'', ''prev_events'', ''hashes'', ''signatures'', ''depth'', ''origin'', ''prev_state''] d"

definition format_event_for_client_v2_without_room_id :: "jdict \<Rightarrow> jdict" where
  "format_event_for_client_v2_without_room_id d = dpop ''room_id'' (format_event_for_client_v2 d)"

definition format_event_for_client_v1 :: "jdict \<Rightarrow> jdict res" where
  "format_event_for_client_v1 d0 =
     (let d = format_event_for_client_v2 d0;
          d1 = (case dget d ''sender'' of
                  None \<Rightarrow> d | Some JNull \<Rightarrow> d | Some sender \<Rightarrow> dset ''user_id'' sender d)
      in bindE (optE KeyError (dget d ''unsigned'')) (\<lambda>unsigned.
         bindE (optE TypeError (as_mapping unsigned)) (\<lambda>u.
           Inr (fold (\<lambda>key acc. case dget u key of None \<Rightarrow> acc | Some v \<Rightarrow> dset key v acc)
             [''age'', ''redacted_because'', ''replaces_state'', ''prev_content'', ''invite_room_state'',
              ''knock_room_state''] d1))))"

section \<open>Power levels\<close>

definition copy_power_level_value_as_integer :: "json \<Rightarrow> int res" where
  "copy_power_level_value_as_integer old_value =
     (case old_value of
        JInt i \<Rightarrow> Inr i
      | JStr s \<Rightarrow> (case int_of_str s of Inr i \<Rightarrow> Inr i | Inl _ \<Rightarrow> Inl TypeError)
      | _ \<Rightarrow> Inl TypeError)"

datatype level_value = Level int | Levels "(string, int) pydict"

definition copy_and_fixup_power_levels_contents :: "json \<Rightarrow> (string, level_value) pydict res" where
  "copy_and_fixup_power_levels_contents old_power_levels =
     bindE (optE TypeError (as_mapping old_power_levels)) (\<lambda>old.
       foldE (\<lambda>(k, v) power_levels.
         (case v of
            JDict d \<Rightarrow>
              bindE (foldE (\<lambda>(k1, v1) h.
                  bindE (copy_power_level_value_as_integer v1) (\<lambda>i. Inr (dset k1 i h))) d []) (\<lambda>h.
                Inr (dset k (Levels h) power_levels))
          | _ \<Rightarrow>
              bindE (copy_power_level_value_as_integer v) (\<lambda>i. Inr (dset k (Level i) power_levels)))) old [])"

section \<open>Canonical JSON\<close>

definition CANONICALJSON_MIN_INT :: int where
  "CANONICALJSON_MIN_INT = - CANONICALJSON_MAX_INT"

fun validate_canonicaljson :: "json \<Rightarrow> unit res" where
  "validate_canonicaljson (JInt value) =
     guardE (\<not> (value < CANONICALJSON_MIN_INT \<or> CANONICALJSON_MAX_INT < value))
       (SynapseError 400 ''JSON integer out of range'')"
| "validate_canonicaljson (JFloat _) = Inl (SynapseError 400 ''Bad JSON value: float'')"
| "validate_canonicaljson (JDict d) = checkE (\<lambda>(k, v). validate_canonicaljson v) d"
| "validate_canonicaljson (JList l) = checkE validate_canonicaljson l"
| "validate_canonicaljson (JBool _) = Inr ()"
| "validate_canonicaljson (JStr _) = Inr ()"
| "validate_canonicaljson JNull = Inr ()"

section \<open>Stripped state\<close>

record stripped_state_event =
  ss_type :: string
  ss_state_key :: string
  ss_sender :: string
  ss_content :: jdict

definition parse_stripped_state_event :: "json \<Rightarrow> stripped_state_event option" where
  "parse_stripped_state_event raw =
     (case raw of
        JDict d \<Rightarrow>
          (case (jget d ''type'', jget d ''state_key'', jget d ''sender'', jget d ''content'') of
             (JStr t, JStr sk, JStr s, JDict c) \<Rightarrow>
               Some \<lparr>ss_type = t, ss_state_key = sk, ss_sender = s, ss_content = c\<rparr>
           | _ \<Rightarrow> None)
      | _ \<Rightarrow> None)"

text \<open>
  \<open>strip_event\<close>; for the create events of rooms whose id is its hash the whole event is sent, which
  is the argument \<open>pdu_json\<close>.
\<close>

definition strip_event :: "jdict \<Rightarrow> event \<Rightarrow> jdict res" where
  "strip_event pdu_json event =
     (if msc4291_room_ids_as_hashes (ev_room_version event) \<and> ev_type event = EventTypes_Create
         \<and> get_state_key event = Some []
      then Inr pdu_json
      else bindE (event_state_key event) (\<lambda>sk.
        Inr [(''type'', JStr (ev_type event)), (''state_key'', JStr sk),
             (''content'', JDict (ev_content event)), (''sender'', JStr (ev_sender event))]))"

section \<open>Properties\<close>

text \<open>How a client writes a field name in a path.\<close>

definition escape_field :: "string \<Rightarrow> string" where
  "escape_field s = concat (map (\<lambda>c. if c = BACKSLASH \<or> c = DOT then [BACKSLASH, c] else [c]) s)"

lemma char_facts [simp]: "BACKSLASH \<noteq> DOT" "DOT \<noteq> BACKSLASH" "BACKSLASH \<noteq> CHR 0x0A" "DOT \<noteq> CHR 0x0A"
    "CHR 0x0A \<noteq> BACKSLASH" "CHR 0x0A \<noteq> DOT"
  by (simp_all add: BACKSLASH_def DOT_def)

lemma unescape_plain: "c \<noteq> BACKSLASH \<Longrightarrow> unescape (c # cs) = c # unescape cs"
  by (cases cs) simp_all

lemma unescape_escape: "unescape (escape_field s) = s"
proof (induction s)
  case (Cons c s)
  then show ?case by (cases "c = BACKSLASH \<or> c = DOT") (auto simp: escape_field_def unescape_plain)
qed (simp add: escape_field_def)

lemma split_raw_escape:
  "even n \<Longrightarrow> \<exists>m. even m \<and> split_raw n part (escape_field s @ rest) = split_raw m (part @ escape_field s) rest"
proof (induction s arbitrary: n part)
  case Nil
  then show ?case by (auto simp: escape_field_def)
next
  case (Cons c s)
  obtain e where e: "escape_field (c # s) = e @ escape_field s"
    and c: "e = [BACKSLASH, BACKSLASH] \<or> e = [BACKSLASH, DOT] \<or> (\<exists>d. e = [d] \<and> d \<noteq> BACKSLASH \<and> d \<noteq> DOT)"
    by (cases "c = BACKSLASH \<or> c = DOT") (auto simp: escape_field_def)
  have "\<exists>m. even m \<and> split_raw n part (e @ r) = split_raw m (part @ e) r" for r
    using c
  proof (elim disjE exE conjE)
    assume "e = [BACKSLASH, BACKSLASH]"
    with Cons.prems show ?thesis by (intro exI [of _ "Suc (Suc n)"]) simp
  next
    assume "e = [BACKSLASH, DOT]"
    with Cons.prems show ?thesis by (intro exI [of _ 0]) simp
  next
    fix d assume "e = [d]" "d \<noteq> BACKSLASH" "d \<noteq> DOT"
    then show ?thesis by (intro exI [of _ 0]) simp
  qed
  from this [of "escape_field s @ rest"] obtain m where m: "even m"
    "split_raw n part (e @ escape_field s @ rest) = split_raw m (part @ e) (escape_field s @ rest)"
    by (elim exE conjE)
  from Cons.IH [OF m(1), of "part @ e"] m(2) show ?case by (simp add: e)
qed

lemma split_raw_join:
  "parts \<noteq> [] \<Longrightarrow> split_raw 0 [] (py_join [DOT] (map escape_field parts)) = map escape_field parts"
proof (induction parts)
  case (Cons s parts)
  show ?case
  proof (cases parts)
    case Nil
    from split_raw_escape [of 0 "[]" s "[]"] Nil show ?thesis by auto
  next
    case (Cons t ts)
    from split_raw_escape [of 0 "[]" s "DOT # py_join [DOT] (map escape_field parts)"] Cons Cons.IH
    show ?thesis by auto
  qed
qed simp

lemma drill_set_path: "\<exists>out. set_path [] path k v = Inr out \<and> drill out path = Some [(k, v)]"
proof (induction path)
  case (Cons f path)
  then obtain out where "set_path [] path k v = Inr out" "drill out path = Some [(k, v)]" by blast
  then show ?case by (simp add: dset_def)
qed (simp add: dset_def)

text \<open>
  Selecting a field. A path whose components are written with escapes is split into exactly those
  components; \<open>only_fields\<close> with this one path gives an object that has exactly the selected value
  at the end of the path, or the empty object when there is no such value.
\<close>

theorem only_fields_selects:
  assumes "field = py_join [DOT] (map escape_field (path @ [k]))"
  shows "split_field field = path @ [k]
    \<and> (\<exists>out. only_fields d [field] = Inr out
         \<and> (case drill d path of
              Some sub \<Rightarrow> (case dget sub k of
                  Some v \<Rightarrow> drill out path = Some [(k, v)]
                | None \<Rightarrow> out = [])
            | None \<Rightarrow> out = []))"
proof -
  have "split_field field = path @ [k]"
    using split_raw_join [of "path @ [k]"] assms by (simp add: split_field_def unescape_escape comp_def)
  then show ?thesis using drill_set_path [of path k]
    by (auto simp: only_fields_def copy_field_def Let_def split: option.split)
qed

theorem only_fields_selects_witness:
  "\<exists>out. only_fields [(''content'', JDict [(''a.b'', JInt 1), (''c'', JInt 2)])] [''content.a'' @ [BACKSLASH] @ ''.b''] = Inr out
     \<and> drill out [''content''] = Some [(''a.b'', JInt 1)]"
proof -
  have "''content.a'' @ [BACKSLASH] @ ''.b'' = py_join [DOT] (map escape_field ([''content''] @ [''a.b'']))" by code_simp
  from only_fields_selects [OF this, of "[(''content'', JDict [(''a.b'', JInt 1), (''c'', JInt 2)])]"]
  show ?thesis by simp
qed

text \<open>The fixed-up power levels hold integers only, and integers are kept.\<close>

lemma copy_power_level_int: "copy_power_level_value_as_integer v = Inr i \<Longrightarrow> py_int v = Inr i"
  by (cases v) (auto simp: copy_power_level_value_as_integer_def split: sum.splits)

end
