(* ===== verification/Py_Float.thy ===== *)
theory Py_Float
  imports Prelude
begin

text \<open>
  Python's \<open>float\<close>: a finite value is \<open>m * 2 ^ e\<close> with at most 53 bits in \<open>m\<close>. Rounding to the
  nearest double, ties to even; \<open>float(s)\<close> for a string; \<open>round(x, 2)\<close>; comparison. The sign of
  a zero is not represented.
\<close>

section \<open>Rounding\<close>

function bit_len :: "int \<Rightarrow> int" where
  "bit_len n = (if n \<le> 0 then 0 else 1 + bit_len (n div 2))"
  by pat_completeness auto

termination bit_len
  by (relation "measure nat") auto

declare bit_len.simps [simp del]

text \<open>The integer nearest to \<open>p / q\<close>, for positive \<open>q\<close>.\<close>

definition round_half_even :: "int \<Rightarrow> int \<Rightarrow> int" where
  "round_half_even p q =
     (let d = p div q; r = p mod q in
      if 2 * r < q then d else if 2 * r > q then d + 1 else if even d then d else d + 1)"

definition scale_up :: "int \<Rightarrow> int" where
  "scale_up e = 2 ^ nat e"

text \<open>The double nearest to \<open>p / q\<close>, for positive \<open>q\<close>.\<close>

definition float_of_rat :: "int \<Rightarrow> int \<Rightarrow> pyfloat" where
  "float_of_rat p q =
     (if p = 0 then Finite 0 0
      else
        (let e0 = bit_len \<bar>p\<bar> - bit_len q - 53;
             e1 = (if \<bar>p\<bar> * scale_up (- e0) \<ge> 2 ^ 53 * q * scale_up e0 then e0 + 1 else e0);
             e = max e1 (- 1074);
             m = round_half_even (\<bar>p\<bar> * scale_up (- e)) (q * scale_up e)
         in if m * scale_up e \<ge> 2 ^ 1024 then (if p > 0 then PosInf else NegInf)
            else Finite (sgn p * m) e))"

text \<open>\<open>float(i)\<close>\<close>

definition float_of_int :: "int \<Rightarrow> pyfloat res" where
  "float_of_int i = (case float_of_rat i 1 of Finite m e \<Rightarrow> Inr (Finite m e) | _ \<Rightarrow> Inl OverflowError)"

text \<open>\<open>round(x, 2)\<close>; an infinity and a NaN are returned as they are.\<close>

definition py_round2 :: "pyfloat \<Rightarrow> pyfloat" where
  "py_round2 x = (case x of
      Finite m e \<Rightarrow> float_of_rat (round_half_even (100 * m * scale_up e) (scale_up (- e))) 100
    | _ \<Rightarrow> x)"

definition float_mul :: "pyfloat \<Rightarrow> pyfloat \<Rightarrow> pyfloat" where
  "float_mul x y = (case (x, y) of
      (Finite m e, Finite m' e') \<Rightarrow> float_of_rat (m * m' * scale_up (e + e')) (scale_up (- (e + e')))
    | _ \<Rightarrow> NaN)"

text \<open>\<open>x > 0\<close>\<close>

fun float_pos :: "pyfloat \<Rightarrow> bool" where
  "float_pos (Finite m e) = (m > 0)"
| "float_pos PosInf = True"
| "float_pos NegInf = False"
| "float_pos NaN = False"

section \<open>Parsing\<close>

text \<open>Digits with single underscores between them: the value, the number of digits and the rest.\<close>

fun take_digits :: "int \<Rightarrow> nat \<Rightarrow> string \<Rightarrow> int \<times> nat \<times> string" where
  "take_digits v n [] = (v, n, [])"
| "take_digits v n (c # cs) =
     (if is_digit c then take_digits (10 * v + int (digit_val c)) (Suc n) cs
      else if c = CHR ''_'' \<and> n > 0 \<and> cs \<noteq> [] \<and> is_digit (hd cs) then take_digits v n cs
      else (v, n, c # cs))"

definition take_sign :: "string \<Rightarrow> int \<times> string" where
  "take_sign s = (case s of
      c # cs \<Rightarrow> if c = CHR ''-'' then (- 1, cs) else if c = CHR ''+'' then (1, cs) else (1, s)
    | [] \<Rightarrow> (1, []))"

text \<open>The exponent, if the rest of the literal is one.\<close>

definition parse_exponent :: "string \<Rightarrow> int option" where
  "parse_exponent s = (case s of
      [] \<Rightarrow> Some 0
    | c # cs \<Rightarrow>
        if c = CHR ''e'' \<or> c = CHR ''E'' then
          (case take_sign cs of (sign, ds) \<Rightarrow>
             (case take_digits 0 0 ds of (v, n, rest) \<Rightarrow>
                if n > 0 \<and> rest = [] then Some (sign * v) else None))
        else None)"

definition float_of_decimal :: "int \<Rightarrow> int \<Rightarrow> int \<Rightarrow> pyfloat" where
  "float_of_decimal sign v e10 =
     (if e10 \<ge> 0 then float_of_rat (sign * v * 10 ^ nat e10) 1
      else float_of_rat (sign * v) (10 ^ nat (- e10)))"

definition float_of_str :: "string \<Rightarrow> pyfloat res" where
  "float_of_str s0 =
     (case take_sign (py_strip s0) of (sign, s) \<Rightarrow>
        (let lowered = py_lower s in
         if lowered \<in> {''inf'', ''infinity''} then Inr (if sign > 0 then PosInf else NegInf)
         else if lowered = ''nan'' then Inr NaN
         else
           (case take_digits 0 0 s of (v, n, rest) \<Rightarrow>
              (case (case rest of
                       c # cs \<Rightarrow> if c = CHR ''.'' then take_digits v 0 cs else (v, 0, rest)
                     | [] \<Rightarrow> (v, 0, [])) of (v', k, rest') \<Rightarrow>
                 if n + k = 0 then Inl ValueError
                 else (case parse_exponent rest' of
                     None \<Rightarrow> Inl ValueError
                   | Some e10 \<Rightarrow> Inr (float_of_decimal sign v' (e10 - int k)))))))"

end
