(* ===== verification/Setka_Values.thy ===== *)
theory Setka_Values
  imports Py_Float Events
begin

text \<open>
  The first part of \<open>handlers/setka_plus.py\<close>: the functions that clean up values from requests,
  the configuration, the plans, and the normalisation of subscriptions.
\<close>

section \<open>Cleaning values\<close>

text \<open>\<open>s[:n]\<close>\<close>

definition py_prefix :: "nat \<Rightarrow> string \<Rightarrow> string" where
  "py_prefix n s = concat (take n (py_chars s))"

definition clean_str :: "nat \<Rightarrow> json \<Rightarrow> string option" where
  "clean_str max_len value = (case value of
      JStr s \<Rightarrow> (let normalized = py_strip s in if normalized = [] then None else Some (py_prefix max_len normalized))
    | _ \<Rightarrow> None)"

text \<open>A float that is not finite raises; in a string only \<open>ValueError\<close> is caught.\<close>

definition clean_int :: "json \<Rightarrow> int option res" where
  "clean_int value = (case value of
      JInt i \<Rightarrow> Inr (Some i)
    | JFloat f \<Rightarrow> bindE (py_int (JFloat f)) (\<lambda>i. Inr (Some i))
    | JStr s \<Rightarrow>
        (let raw = py_strip s in
         if raw = [] then Inr None
         else (case bindE (float_of_str raw) (\<lambda>f. py_int (JFloat f)) of
                 Inr i \<Rightarrow> Inr (Some i)
               | Inl e \<Rightarrow> if e = ValueError then Inr None else Inl e))
    | _ \<Rightarrow> Inr None)"

definition clean_timestamp_ms :: "bool \<Rightarrow> json \<Rightarrow> int option res" where
  "clean_timestamp_ms allow_zero value =
     bindE (clean_int value) (\<lambda>timestamp.
       Inr (case timestamp of
           None \<Rightarrow> None
         | Some t \<Rightarrow>
             if t = 0 then (if allow_zero then Some 0 else None)
             else if t < 0 then None
             else if t < 10000000000 then Some (t * 1000)
             else Some t))"

definition clean_float :: "json \<Rightarrow> pyfloat option res" where
  "clean_float value =
     bindE (case value of
         JInt i \<Rightarrow> bindE (float_of_int i) (\<lambda>f. Inr (Some f))
       | JFloat f \<Rightarrow> Inr (Some f)
       | JStr s \<Rightarrow> (case float_of_str s of Inr f \<Rightarrow> Inr (Some f) | Inl _ \<Rightarrow> Inr None)
       | _ \<Rightarrow> Inr None) (\<lambda>amount.
       Inr (case amount of Some f \<Rightarrow> if float_pos f then Some f else None | None \<Rightarrow> None))"

definition clean_bool :: "bool \<Rightarrow> json \<Rightarrow> bool" where
  "clean_bool dflt value = (case value of
      JBool b \<Rightarrow> b
    | JStr s \<Rightarrow>
        (let lowered = py_lower (py_strip s) in
         if lowered \<in> {''1'', ''true'', ''yes'', ''on''} then True
         else if lowered \<in> {''0'', ''false'', ''no'', ''off''} then False
         else dflt)
    | JInt _ \<Rightarrow> truthy value
    | JFloat _ \<Rightarrow> truthy value
    | _ \<Rightarrow> dflt)"

text \<open>\<open>x or dflt\<close>\<close>

definition int_or :: "int option \<Rightarrow> int \<Rightarrow> int" where
  "int_or x dflt = (case x of None \<Rightarrow> dflt | Some i \<Rightarrow> if i = 0 then dflt else i)"

definition str_or :: "string option \<Rightarrow> string \<Rightarrow> string" where
  "str_or x dflt = (case x of None \<Rightarrow> dflt | Some s \<Rightarrow> s)"

section \<open>Plans\<close>

text \<open>
  The configured price and duration; \<open>pc_lower\<close> is \<open>str.lower()\<close> with the Unicode tables of the
  interpreter, which only orders plans with the same sort order.
\<close>

record plus_config =
  pc_price_rub :: pyfloat
  pc_duration_days :: int
  pc_lower :: "string \<Rightarrow> string"

record plan =
  pl_id :: string
  pl_name :: string
  pl_price_rub :: pyfloat
  pl_duration_days :: int
  pl_features :: "string list"
  pl_active :: bool
  pl_is_default :: bool
  pl_sort_order :: int

definition default_plans :: "plus_config \<Rightarrow> plan list" where
  "default_plans cfg =
     (let base = py_round2 (pc_price_rub cfg) in
      [\<lparr>pl_id = ''setka_plus_month'', pl_name = ''Setka Plus 30 days'', pl_price_rub = base,
         pl_duration_days = 30,
         pl_features = [''Custom stickers and custom emoji packs'', ''Status emoji near nickname'',
           ''Priority media limits''],
         pl_active = True, pl_is_default = True, pl_sort_order = 10\<rparr>,
       \<lparr>pl_id = ''setka_plus_quarter'', pl_name = ''Setka Plus 90 days'',
         pl_price_rub = py_round2 (float_mul base (float_of_rat 27 10)), pl_duration_days = 90,
         pl_features = [''All monthly features'', ''Discounted quarterly billing'',
           ''Early access to Plus UI updates''],
         pl_active = True, pl_is_default = False, pl_sort_order = 20\<rparr>,
       \<lparr>pl_id = ''setka_plus_year'', pl_name = ''Setka Plus 365 days'',
         pl_price_rub = py_round2 (float_mul base (float_of_rat 95 10)), pl_duration_days = 365,
         pl_features = [''All Plus features'', ''Best yearly price'', ''Priority support channel''],
         pl_active = True, pl_is_default = False, pl_sort_order = 30\<rparr>])"

text \<open>One item of a list of plans; \<open>None\<close> drops it.\<close>

definition normalize_plan :: "nat \<Rightarrow> json \<Rightarrow> plan option res" where
  "normalize_plan index item = (case item of
      JDict d \<Rightarrow>
        (let plan_id = clean_str 64 (jget d ''id''); name = clean_str 120 (jget d ''name'') in
         bindE (clean_float (jget d ''price_rub'')) (\<lambda>price_rub.
         bindE (clean_int (jget d ''duration_days'')) (\<lambda>duration_days.
           (case (plan_id, name, price_rub, duration_days) of
              (Some pid, Some nm, Some price, Some days) \<Rightarrow>
                if days \<le> 0 then Inr None
                else
                  bindE (clean_int (jget d ''sort_order'')) (\<lambda>sort_order.
                    Inr (Some \<lparr>pl_id = pid, pl_name = nm, pl_price_rub = py_round2 price,
                      pl_duration_days = days,
                      pl_features = take 16 (case jget d ''features'' of
                          JList l \<Rightarrow> List.map_filter (clean_str 160) l | _ \<Rightarrow> []),
                      pl_active = clean_bool True (jget d ''active''),
                      pl_is_default = clean_bool False (jget d ''is_default''),
                      pl_sort_order = int_or sort_order ((int index + 1) * 10)\<rparr>))
            | _ \<Rightarrow> Inr None))))
    | _ \<Rightarrow> Inr None)"

text \<open>An item whose id is already known is dropped before its sort order is read.\<close>

definition collect_plan :: "nat \<times> json \<Rightarrow> plan list \<Rightarrow> plan list res" where
  "collect_plan ix normalized = (case ix of (index, item) \<Rightarrow>
     (case item of
        JDict d \<Rightarrow>
          if (case clean_str 64 (jget d ''id'') of Some pid \<Rightarrow> pid \<in> set (map pl_id normalized) | None \<Rightarrow> False)
          then
            bindE (clean_float (jget d ''price_rub'')) (\<lambda>_.
            bindE (clean_int (jget d ''duration_days'')) (\<lambda>_. Inr normalized))
          else bindE (normalize_plan index item) (\<lambda>found.
            Inr (case found of None \<Rightarrow> normalized | Some p \<Rightarrow> normalized @ [p]))
      | _ \<Rightarrow> Inr normalized))"

definition ensure_active :: "plan list \<Rightarrow> plan list" where
  "ensure_active plans =
     (if filter pl_active plans = [] then (hd plans)\<lparr>pl_active := True\<rparr> # tl plans else plans)"

text \<open>The first active plan becomes the default if no active plan is.\<close>

fun set_first_active_default :: "plan list \<Rightarrow> plan list" where
  "set_first_active_default [] = []"
| "set_first_active_default (p # ps) =
     (if pl_active p then p\<lparr>pl_is_default := True\<rparr> # ps else p # set_first_active_default ps)"

definition ensure_default :: "plan list \<Rightarrow> plan list" where
  "ensure_default plans =
     (if list_ex pl_is_default (filter pl_active plans) then plans else set_first_active_default plans)"

text \<open>A default plan is a dictionary like the items of a request: it goes through the loop too.\<close>

definition plan_json :: "plan \<Rightarrow> json" where
  "plan_json p = JDict [(''id'', JStr (pl_id p)), (''name'', JStr (pl_name p)),
     (''price_rub'', JFloat (pl_price_rub p)), (''duration_days'', JInt (pl_duration_days p)),
     (''features'', JList (map JStr (pl_features p))), (''active'', JBool (pl_active p)),
     (''is_default'', JBool (pl_is_default p)), (''sort_order'', JInt (pl_sort_order p))]"

definition normalize_plans :: "plus_config \<Rightarrow> json \<Rightarrow> plan list res" where
  "normalize_plans cfg raw =
     (let source = (case raw of JList l \<Rightarrow> l | _ \<Rightarrow> map plan_json (default_plans cfg)) in
      bindE (foldE collect_plan (enumerate 0 source) []) (\<lambda>normalized0.
        let normalized = (if normalized0 = [] then default_plans cfg else normalized0)
        in Inr (take 32 (sort_key (\<lambda>p. (pl_sort_order p, pc_lower cfg (pl_name p)))
             (ensure_default (ensure_active normalized))))))"

definition find_plan_by_id :: "plan list \<Rightarrow> json \<Rightarrow> plan option" where
  "find_plan_by_id plans plan_id = (case clean_str 64 plan_id of
      None \<Rightarrow> None
    | Some pid \<Rightarrow> find (\<lambda>p. pl_id p = pid) plans)"

definition default_plan :: "plus_config \<Rightarrow> plan list \<Rightarrow> plan" where
  "default_plan cfg plans =
     (case find (\<lambda>p. pl_active p \<and> pl_is_default p) plans of
        Some p \<Rightarrow> p
      | None \<Rightarrow>
          (case find pl_active plans of
             Some p \<Rightarrow> p
           | None \<Rightarrow> (if plans \<noteq> [] then hd plans else hd (default_plans cfg))))"

definition resolve_plan :: "plus_config \<Rightarrow> plan list \<Rightarrow> json \<Rightarrow> plan" where
  "resolve_plan cfg plans plan_id =
     (case find_plan_by_id plans plan_id of
        Some p \<Rightarrow> if pl_active p then p else default_plan cfg plans
      | None \<Rightarrow> default_plan cfg plans)"

section \<open>Subscriptions\<close>

definition SUBSCRIPTION_STATUS :: "string list" where
  "SUBSCRIPTION_STATUS = [''inactive'', ''pending'', ''active'', ''expired'', ''canceled'']"

text \<open>The keys that are only set for stored subscriptions are optional.\<close>

record subscription =
  sub_tier :: string
  sub_status :: string
  sub_started_at :: int
  sub_expires_at :: int
  sub_updated_at :: int
  sub_is_active :: bool
  sub_price_rub :: pyfloat
  sub_duration_days :: int
  sub_plan_name :: string
  sub_last_payment_id :: "string option"
  sub_payment_provider :: "string option"
  sub_amount :: "pyfloat option"
  sub_currency :: "string option"

definition no_subscription :: "plus_config \<Rightarrow> plan list \<Rightarrow> int \<Rightarrow> subscription" where
  "no_subscription cfg plans now =
     (let p = resolve_plan cfg plans JNull in
      \<lparr>sub_tier = pl_id p, sub_status = ''inactive'', sub_started_at = 0, sub_expires_at = 0,
        sub_updated_at = now, sub_is_active = False, sub_price_rub = pl_price_rub p,
        sub_duration_days = pl_duration_days p, sub_plan_name = pl_name p,
        sub_last_payment_id = None, sub_payment_provider = None, sub_amount = None, sub_currency = None\<rparr>)"

text \<open>The status follows the expiry: only \<open>pending\<close> is left as it is.\<close>

definition adjust_status :: "string \<Rightarrow> bool \<Rightarrow> string" where
  "adjust_status status is_active =
     (if status = ''active'' \<and> \<not> is_active then ''expired''
      else if status \<in> {''inactive'', ''expired'', ''canceled''} \<and> is_active then ''active''
      else status)"

definition normalize_subscription_dict :: "plus_config \<Rightarrow> plan list \<Rightarrow> int \<Rightarrow> jdict \<Rightarrow> subscription res" where
  "normalize_subscription_dict cfg plans now raw =
     (let dflt = resolve_plan cfg plans JNull;
          tier = str_or (clean_str 64 (jget raw ''tier'')) (pl_id dflt);
          status0 = py_lower (str_or (clean_str 32 (jget raw ''status'')) ''inactive'');
          status1 = (if status0 \<in> set SUBSCRIPTION_STATUS then status0 else ''inactive'')
      in
      bindE (clean_timestamp_ms True (jget raw ''started_at'')) (\<lambda>started_at.
      bindE (clean_timestamp_ms True (jget raw ''expires_at'')) (\<lambda>expires_at0.
      bindE (clean_timestamp_ms False (jget raw ''updated_at'')) (\<lambda>updated_at.
      bindE (clean_float (jget raw ''amount'')) (\<lambda>amount.
      bindE (clean_int (jget raw ''duration_days'')) (\<lambda>days0.
      bindE (clean_float (jget raw ''price_rub'')) (\<lambda>price0.
        let resolved = (case find_plan_by_id plans (JStr tier) of Some p \<Rightarrow> p | None \<Rightarrow> dflt);
            expires_at = int_or expires_at0 0;
            is_active = expires_at > now
        in Inr \<lparr>sub_tier = tier, sub_status = adjust_status status1 is_active,
             sub_started_at = int_or started_at 0, sub_expires_at = expires_at,
             sub_updated_at = int_or updated_at now, sub_is_active = is_active,
             sub_price_rub = py_round2 (case price0 of None \<Rightarrow> pl_price_rub resolved | Some f \<Rightarrow> f),
             sub_duration_days = (case days0 of
                 Some d \<Rightarrow> if d \<le> 0 then pl_duration_days resolved else d | None \<Rightarrow> pl_duration_days resolved),
             sub_plan_name = str_or (clean_str 120 (jget raw ''plan_name'')) (pl_name resolved),
             sub_last_payment_id = clean_str 255 (jget raw ''last_payment_id''),
             sub_payment_provider = clean_str 64 (jget raw ''payment_provider''),
             sub_amount = map_option py_round2 amount,
             sub_currency = Some (str_or (clean_str 16 (jget raw ''currency'')) ''RUB'')\<rparr>)))))))"

definition normalize_subscription :: "plus_config \<Rightarrow> plan list \<Rightarrow> int \<Rightarrow> jdict option \<Rightarrow> subscription res" where
  "normalize_subscription cfg plans now raw = (case raw of
      None \<Rightarrow> Inr (no_subscription cfg plans now)
    | Some d \<Rightarrow> normalize_subscription_dict cfg plans now d)"

definition opt_item :: "string \<Rightarrow> json option \<Rightarrow> jdict" where
  "opt_item k v = (case v of None \<Rightarrow> [] | Some x \<Rightarrow> [(k, x)])"

definition subscription_json :: "subscription \<Rightarrow> jdict" where
  "subscription_json s =
     [(''tier'', JStr (sub_tier s)), (''status'', JStr (sub_status s)),
      (''started_at'', JInt (sub_started_at s)), (''expires_at'', JInt (sub_expires_at s)),
      (''updated_at'', JInt (sub_updated_at s)), (''is_active'', JBool (sub_is_active s)),
      (''price_rub'', JFloat (sub_price_rub s)), (''duration_days'', JInt (sub_duration_days s)),
      (''plan_name'', JStr (sub_plan_name s))]
     @ opt_item ''last_payment_id'' (map_option JStr (sub_last_payment_id s))
     @ opt_item ''payment_provider'' (map_option JStr (sub_payment_provider s))
     @ opt_item ''amount'' (map_option JFloat (sub_amount s))
     @ opt_item ''currency'' (map_option JStr (sub_currency s))"

end
