(* ===== verification/Setka_Plus.thy ===== *)
theory Setka_Plus
  imports Setka_Values
begin

text \<open>
  The vouchers, subscriptions and payments of \<open>handlers/setka_plus.py\<close>, and the client endpoint
  for account data (\<open>rest/client/account_data.py\<close>), in which the handler keeps its data. The state
  is the two voucher tables, the account data of the users and the pending PayAnyWay payments.

  A handler that raises keeps the effects that it had before: an operation gives its result or
  exception together with the state. A transaction that raises has no effect. Each call of the
  clock is an argument. Analytics, which are recorded on a best-effort basis by another handler,
  are left out.
\<close>

section \<open>State\<close>

record voucher =
  v_code :: string
  v_plan_id :: "string option"
  v_duration_days :: "int option"
  v_expires_at :: int
  v_max_redemptions :: int
  v_redemption_count :: int
  v_max_per_user :: int
  v_note :: "string option"
  v_is_active :: bool
  v_created_at :: int

record redemption =
  r_code :: string
  r_user_id :: string
  r_redeemed_at :: int

record plus_state =
  ps_vouchers :: "(string, voucher) pydict"
  ps_redemptions :: "redemption list"
  ps_account_data :: "(string \<times> string, jdict) pydict"
  ps_pending_users :: "(string, string) pydict"

type_synonym 'a op = "plus_state \<Rightarrow> 'a res \<times> plus_state"

definition bindO :: "'a op \<Rightarrow> ('a \<Rightarrow> 'b op) \<Rightarrow> 'b op" where
  "bindO m f s = (case m s of (Inl e, s') \<Rightarrow> (Inl e, s') | (Inr x, s') \<Rightarrow> f x s')"

definition liftO :: "'a res \<Rightarrow> 'a op" where
  "liftO m s = (m, s)"

definition readO :: "(plus_state \<Rightarrow> 'a res) \<Rightarrow> 'a op" where
  "readO f s = (f s, s)"

definition writeO :: "(plus_state \<Rightarrow> plus_state) \<Rightarrow> unit op" where
  "writeO f s = (Inr (), f s)"

text \<open>A violated key: the exception of the database driver.\<close>

definition IntegrityError :: exn where
  "IntegrityError = PyException ''UNIQUE constraint failed''"

text \<open>The Unicode tables of \<open>str.upper()\<close> and \<open>str.isalnum()\<close>, for code points outside of ASCII.\<close>

record unicode_tables =
  uc_upper :: "string \<Rightarrow> string"
  uc_alnum :: "string \<Rightarrow> bool"

section \<open>Vouchers\<close>

definition upper_cp :: "unicode_tables \<Rightarrow> string \<Rightarrow> string" where
  "upper_cp uc ch = (case map byte ch of
      [b] \<Rightarrow> if 97 \<le> b \<and> b \<le> 122 then [char_of (b - 32)] else ch
    | _ \<Rightarrow> uc_upper uc ch)"

definition alnum_cp :: "unicode_tables \<Rightarrow> string \<Rightarrow> bool" where
  "alnum_cp uc ch = (case map byte ch of
      [b] \<Rightarrow> (48 \<le> b \<and> b \<le> 57) \<or> (65 \<le> b \<and> b \<le> 90) \<or> (97 \<le> b \<and> b \<le> 122)
    | _ \<Rightarrow> uc_alnum uc ch)"

definition normalize_voucher_code :: "unicode_tables \<Rightarrow> json \<Rightarrow> string option" where
  "normalize_voucher_code uc code = (case code of
      JStr s \<Rightarrow>
        (let chars = filter (\<lambda>ch. ch \<noteq> '' '')
               (py_chars (concat (map (upper_cp uc) (py_chars (py_strip s)))))
         in if chars = [] \<or> length chars > 64 then None
            else if list_all (\<lambda>ch. alnum_cp uc ch \<or> ch = ''-'') chars then Some (concat chars)
            else None)
    | _ \<Rightarrow> None)"

definition list_vouchers :: "plus_state \<Rightarrow> voucher list" where
  "list_vouchers s = sort_key (\<lambda>v. - v_created_at v) (dvalues (ps_vouchers s))"

definition get_voucher :: "unicode_tables \<Rightarrow> string \<Rightarrow> voucher op" where
  "get_voucher uc code = readO (\<lambda>s.
     (case normalize_voucher_code uc (JStr code) of
        None \<Rightarrow> Inl (SynapseError 400 ''Invalid voucher code'')
      | Some normalized \<Rightarrow> optE (SynapseError 404 ''Voucher not found'') (dget (ps_vouchers s) normalized)))"

text \<open>\<open>plan_id\<close> or a positive duration has to be given.\<close>

definition voucher_has_grant :: "string option \<Rightarrow> int option \<Rightarrow> bool" where
  "voucher_has_grant plan_id duration_days \<longleftrightarrow>
     plan_id \<noteq> None \<or> (case duration_days of None \<Rightarrow> False | Some d \<Rightarrow> d > 0)"

definition create_voucher_row :: "unicode_tables \<Rightarrow> plan list \<Rightarrow> int \<Rightarrow> int \<Rightarrow> string \<Rightarrow> json \<Rightarrow> voucher res" where
  "create_voucher_row uc plans now1 now2 fresh_code body = (case body of
      JDict b \<Rightarrow>
        (let code = (case normalize_voucher_code uc (if truthy (jget b ''code'') then jget b ''code'' else JStr []) of
               Some c \<Rightarrow> c | None \<Rightarrow> fresh_code);
             plan_id = clean_str 64 (jget b ''plan_id'')
         in
         bindE (clean_int (jget b ''duration_days'')) (\<lambda>duration_days.
         bindE (guardE (voucher_has_grant plan_id duration_days)
                  (SynapseError 400 ''plan_id or duration_days is required'')) (\<lambda>_.
         bindE (guardE (case plan_id of None \<Rightarrow> True | Some p \<Rightarrow> find_plan_by_id plans (JStr p) \<noteq> None)
                  (SynapseError 400 ''Unknown plan_id'')) (\<lambda>_.
         bindE (clean_timestamp_ms False (jget b ''expires_at'')) (\<lambda>expires_at.
         bindE (case expires_at of
                  Some t \<Rightarrow> if t \<le> now1 then Inl (SynapseError 400 ''expires_at must be in the future'') else Inr t
                | None \<Rightarrow> Inl (SynapseError 400 ''expires_at must be in the future'')) (\<lambda>expires.
         bindE (clean_int (jget b ''max_redemptions'')) (\<lambda>mr.
         bindE (clean_int (jget b ''max_per_user'')) (\<lambda>mu.
         bindE (guardE (int_or mr 1 > 0 \<and> int_or mu 1 > 0) (SynapseError 400 ''Invalid redemption limits'')) (\<lambda>_.
           Inr \<lparr>v_code = code, v_plan_id = plan_id, v_duration_days = duration_days, v_expires_at = expires,
             v_max_redemptions = int_or mr 1, v_redemption_count = 0, v_max_per_user = int_or mu 1,
             v_note = clean_str 512 (jget b ''note''), v_is_active = clean_bool True (jget b ''is_active''),
             v_created_at = now2\<rparr>)))))))))
    | _ \<Rightarrow> Inl (SynapseError 400 ''Expected JSON object''))"

definition create_voucher :: "unicode_tables \<Rightarrow> plan list \<Rightarrow> int \<Rightarrow> int \<Rightarrow> string \<Rightarrow> json \<Rightarrow> voucher op" where
  "create_voucher uc plans now1 now2 fresh_code body =
     bindO (liftO (create_voucher_row uc plans now1 now2 fresh_code body)) (\<lambda>v.
     bindO (readO (\<lambda>s. guardE (dget (ps_vouchers s) (v_code v) = None)
              (SynapseError 409 ''Voucher code already exists''))) (\<lambda>_.
     bindO (writeO (\<lambda>s. s\<lparr>ps_vouchers := dset (v_code v) v (ps_vouchers s)\<rparr>)) (\<lambda>_.
       get_voucher uc (v_code v))))"

text \<open>The new row of an update; the count of redemptions is not touched.\<close>

definition updated_voucher :: "plan list \<Rightarrow> jdict \<Rightarrow> voucher \<Rightarrow> voucher res" where
  "updated_voucher plans body existing =
     (let has = (\<lambda>k. dget body k \<noteq> None) in
      bindE (if has ''plan_id''
             then (let p = clean_str 64 (jget body ''plan_id'') in
                   bindE (guardE (case p of None \<Rightarrow> True | Some i \<Rightarrow> find_plan_by_id plans (JStr i) \<noteq> None)
                            (SynapseError 400 ''Unknown plan_id'')) (\<lambda>_. Inr p))
             else Inr (v_plan_id existing)) (\<lambda>plan_id.
      bindE (if has ''duration_days'' then clean_int (jget body ''duration_days'')
             else Inr (v_duration_days existing)) (\<lambda>duration_days.
      bindE (if has ''expires_at''
             then bindE (clean_timestamp_ms False (jget body ''expires_at''))
                    (optE (SynapseError 400 ''Invalid expires_at''))
             else Inr (v_expires_at existing)) (\<lambda>expires_at.
      bindE (if has ''max_redemptions''
             then bindE (clean_int (jget body ''max_redemptions'')) (\<lambda>p.
                    case p of Some i \<Rightarrow> if i \<le> 0 then Inl (SynapseError 400 ''Invalid max_redemptions'') else Inr i
                            | None \<Rightarrow> Inl (SynapseError 400 ''Invalid max_redemptions''))
             else Inr (v_max_redemptions existing)) (\<lambda>max_redemptions.
      bindE (if has ''max_per_user''
             then bindE (clean_int (jget body ''max_per_user'')) (\<lambda>p.
                    case p of Some i \<Rightarrow> if i \<le> 0 then Inl (SynapseError 400 ''Invalid max_per_user'') else Inr i
                            | None \<Rightarrow> Inl (SynapseError 400 ''Invalid max_per_user''))
             else Inr (v_max_per_user existing)) (\<lambda>max_per_user.
      bindE (guardE (voucher_has_grant plan_id duration_days)
               (SynapseError 400 ''plan_id or duration_days is required'')) (\<lambda>_.
        Inr (existing\<lparr>v_plan_id := plan_id, v_duration_days := duration_days, v_expires_at := expires_at,
          v_max_redemptions := max_redemptions, v_max_per_user := max_per_user,
          v_note := (if has ''note'' then clean_str 512 (jget body ''note'') else v_note existing),
          v_is_active := (if has ''is_active'' then clean_bool True (jget body ''is_active'')
                          else v_is_active existing)\<rparr>))))))))"

definition update_voucher :: "unicode_tables \<Rightarrow> plan list \<Rightarrow> string \<Rightarrow> jdict \<Rightarrow> voucher op" where
  "update_voucher uc plans code body =
     bindO (get_voucher uc code) (\<lambda>existing.
     bindO (liftO (updated_voucher plans body existing)) (\<lambda>v.
     bindO (writeO (\<lambda>s. s\<lparr>ps_vouchers := dset (v_code existing) v (ps_vouchers s)\<rparr>)) (\<lambda>_.
       get_voucher uc (v_code existing))))"

definition delete_voucher :: "unicode_tables \<Rightarrow> string \<Rightarrow> string op" where
  "delete_voucher uc code =
     bindO (get_voucher uc code) (\<lambda>existing.
     bindO (writeO (\<lambda>s. s\<lparr>ps_vouchers := dset (v_code existing) (existing\<lparr>v_is_active := False\<rparr>) (ps_vouchers s)\<rparr>))
       (\<lambda>_. liftO (Inr (v_code existing))))"

definition get_voucher_redemptions :: "unicode_tables \<Rightarrow> string \<Rightarrow> redemption list op" where
  "get_voucher_redemptions uc code =
     bindO (get_voucher uc code) (\<lambda>v.
       readO (\<lambda>s. Inr (sort_key (\<lambda>r. - r_redeemed_at r)
         (filter (\<lambda>r. r_code r = v_code v) (ps_redemptions s)))))"

definition user_redemptions :: "string \<Rightarrow> string \<Rightarrow> plus_state \<Rightarrow> nat" where
  "user_redemptions code user_id s =
     length (filter (\<lambda>r. r_code r = code \<and> r_user_id r = user_id) (ps_redemptions s))"

text \<open>
  The transaction \<open>_reserve\<close>. The primary key of the redemptions is the code together with the
  user.
\<close>

definition reserve :: "int \<Rightarrow> string \<Rightarrow> string \<Rightarrow> voucher op" where
  "reserve now user_id code s =
     (case dget (ps_vouchers s) code of
        None \<Rightarrow> (Inl (SynapseError 404 ''voucher not found''), s)
      | Some v \<Rightarrow>
          if \<not> v_is_active v then (Inl (SynapseError 403 ''voucher is not valid''), s)
          else if v_expires_at v \<le> now then (Inl (SynapseError 403 ''voucher has expired''), s)
          else if v_redemption_count v \<ge> v_max_redemptions v
          then (Inl (SynapseError 403 ''voucher is used up''), s)
          else if int (user_redemptions code user_id s) \<ge> v_max_per_user v
          then (Inl (SynapseError 403 ''voucher already used by the user''), s)
          else if user_redemptions code user_id s > 0 then (Inl IntegrityError, s)
          else (Inr v,
            s\<lparr>ps_redemptions := ps_redemptions s @
                 [\<lparr>r_code = code, r_user_id = user_id, r_redeemed_at = now\<rparr>],
              ps_vouchers := dset code (v\<lparr>v_redemption_count := v_redemption_count v + 1\<rparr>) (ps_vouchers s)\<rparr>))"

section \<open>Account data\<close>

definition SETKA_PLUS_SUBSCRIPTION :: string where
  "SETKA_PLUS_SUBSCRIPTION = ''io.setka.plus.subscription''"

definition SETKA_PLUS_PAYMENTS :: string where
  "SETKA_PLUS_PAYMENTS = ''io.setka.plus.payments''"

definition add_account_data :: "string \<Rightarrow> string \<Rightarrow> jdict \<Rightarrow> unit op" where
  "add_account_data user_id dtype content =
     writeO (\<lambda>s. s\<lparr>ps_account_data := dset (user_id, dtype) content (ps_account_data s)\<rparr>)"

text \<open>The client endpoint: the check of the type, and \<open>on_PUT\<close> without MSC3391.\<close>

definition check_can_set_account_data_type :: "string \<Rightarrow> unit res" where
  "check_can_set_account_data_type dtype =
     (if dtype = ''m.fully_read'' then Inl (SynapseError 405 ''Cannot set m.fully_read through this API.'')
      else if dtype = ''m.push_rules'' then Inl (SynapseError 405 ''Cannot set m.push_rules through this API.'')
      else Inr ())"

definition put_account_data :: "string \<Rightarrow> string \<Rightarrow> string \<Rightarrow> jdict \<Rightarrow> unit op" where
  "put_account_data requester user_id dtype body =
     bindO (liftO (guardE (user_id = requester) (AuthError 403 ''Cannot add account data for other users.''))) (\<lambda>_.
     bindO (liftO (check_can_set_account_data_type dtype)) (\<lambda>_.
       add_account_data user_id dtype body))"

section \<open>Payments\<close>

record payment =
  pay_id :: string
  pay_status :: string
  pay_provider :: string
  pay_created_at :: int
  pay_amount :: "pyfloat option"
  pay_currency :: "string option"
  pay_request_id :: "string option"
  pay_label :: "string option"
  pay_plan_id :: "string option"
  pay_message :: "string option"
  pay_assistant_fields :: "(string, string) pydict"

definition clean_assistant_fields :: "jdict \<Rightarrow> (string, string) pydict" where
  "clean_assistant_fields raw =
     fold (\<lambda>(key, value) cleaned.
       (case (clean_str 64 (JStr key), clean_str 2048 value) of
          (Some k, Some v) \<Rightarrow> dset k v cleaned
        | _ \<Rightarrow> cleaned)) raw []"

text \<open>The entry for a payment, given its id and status.\<close>

definition payment_entry :: "int \<Rightarrow> jdict \<Rightarrow> string \<Rightarrow> string \<Rightarrow> payment res" where
  "payment_entry now item payment_id status =
     bindE (clean_timestamp_ms False (jget item ''created_at'')) (\<lambda>created_at.
     bindE (clean_float (jget item ''amount'')) (\<lambda>amount.
       Inr \<lparr>pay_id = payment_id, pay_status = py_lower status,
         pay_provider = str_or (clean_str 64 (jget item ''provider'')) ''unknown'',
         pay_created_at = int_or created_at now, pay_amount = map_option py_round2 amount,
         pay_currency = clean_str 16 (jget item ''currency''),
         pay_request_id = clean_str 255 (jget item ''request_id''),
         pay_label = clean_str 255 (jget item ''label''),
         pay_plan_id = clean_str 64 (jget item ''plan_id''),
         pay_message = clean_str 255 (jget item ''message''),
         pay_assistant_fields = (case as_mapping (jget item ''assistant_fields'') of
             Some d \<Rightarrow> clean_assistant_fields d | None \<Rightarrow> [])\<rparr>))"

definition normalize_payment :: "int \<Rightarrow> json \<Rightarrow> payment option res" where
  "normalize_payment now item = (case item of
      JDict d \<Rightarrow>
        (case (clean_str 255 (jget d ''payment_id''), clean_str 32 (jget d ''status'')) of
           (Some pid, Some status) \<Rightarrow> bindE (payment_entry now d pid status) (\<lambda>p. Inr (Some p))
         | _ \<Rightarrow> Inr None)
    | _ \<Rightarrow> Inr None)"

text \<open>\<open>sort(key=created_at, reverse=True)\<close> keeps the order of equal keys.\<close>

definition get_payments :: "int \<Rightarrow> string \<Rightarrow> plus_state \<Rightarrow> payment list res" where
  "get_payments now user_id s =
     (case dget (ps_account_data s) (user_id, SETKA_PLUS_PAYMENTS) of
        None \<Rightarrow> Inr []
      | Some raw \<Rightarrow>
          (case jget raw ''payments'' of
             JList items \<Rightarrow>
               bindE (foldE (\<lambda>item acc. bindE (normalize_payment now item) (\<lambda>p.
                   Inr (case p of None \<Rightarrow> acc | Some x \<Rightarrow> acc @ [x]))) items []) (\<lambda>normalized.
                 Inr (take 100 (sort_key (\<lambda>p. - pay_created_at p) normalized)))
           | _ \<Rightarrow> Inr []))"

definition payment_json :: "payment \<Rightarrow> json" where
  "payment_json p = JDict
     ([(''payment_id'', JStr (pay_id p)), (''status'', JStr (pay_status p)),
       (''provider'', JStr (pay_provider p)), (''created_at'', JInt (pay_created_at p))]
      @ opt_item ''amount'' (map_option JFloat (pay_amount p))
      @ opt_item ''currency'' (map_option JStr (pay_currency p))
      @ opt_item ''request_id'' (map_option JStr (pay_request_id p))
      @ opt_item ''label'' (map_option JStr (pay_label p))
      @ opt_item ''plan_id'' (map_option JStr (pay_plan_id p))
      @ opt_item ''message'' (map_option JStr (pay_message p))
      @ opt_item ''assistant_fields''
          (if pay_assistant_fields p = [] then None
           else Some (JDict (map (\<lambda>(k, v). (k, JStr v)) (pay_assistant_fields p)))))"

definition track_pending :: "string \<Rightarrow> payment \<Rightarrow> plus_state \<Rightarrow> plus_state" where
  "track_pending user_id entry s =
     (if pay_provider entry = ''payanyway'' then
        (if pay_status entry = ''pending''
         then s\<lparr>ps_pending_users := dset (pay_id entry) user_id (ps_pending_users s)\<rparr>
         else if pay_status entry \<in> {''paid'', ''failed'', ''canceled''}
         then s\<lparr>ps_pending_users := filter (\<lambda>(k, _). k \<noteq> pay_id entry) (ps_pending_users s)\<rparr>
         else s)
      else s)"

definition record_payment :: "int \<Rightarrow> string \<Rightarrow> jdict \<Rightarrow> unit op" where
  "record_payment now user_id payment =
     bindO (readO (get_payments now user_id)) (\<lambda>current.
     bindO (liftO (case (clean_str 255 (jget payment ''payment_id''), clean_str 32 (jget payment ''status'')) of
              (Some pid, Some status) \<Rightarrow> payment_entry now payment pid status
            | _ \<Rightarrow> Inl (SynapseError 400 ''payment_id and status are required''))) (\<lambda>entry0.
       let existing = find (\<lambda>p. pay_id p = pay_id entry0) current;
           entry = (if as_mapping (jget payment ''assistant_fields'') = None
                    then entry0\<lparr>pay_assistant_fields := (case existing of
                        Some p \<Rightarrow> pay_assistant_fields p | None \<Rightarrow> [])\<rparr>
                    else entry0);
           kept = take 100 (entry # filter (\<lambda>p. pay_id p \<noteq> pay_id entry) current)
       in
       bindO (add_account_data user_id SETKA_PLUS_PAYMENTS [(''payments'', JList (map payment_json kept))]) (\<lambda>_.
         writeO (track_pending user_id entry))))"

section \<open>Subscriptions\<close>

definition get_subscription :: "plus_config \<Rightarrow> plan list \<Rightarrow> int \<Rightarrow> string \<Rightarrow> plus_state \<Rightarrow> subscription res" where
  "get_subscription cfg plans now user_id s =
     normalize_subscription cfg plans now (dget (ps_account_data s) (user_id, SETKA_PLUS_SUBSCRIPTION))"

definition assert_plus_active :: "plus_config \<Rightarrow> plan list \<Rightarrow> int \<Rightarrow> string \<Rightarrow> plus_state \<Rightarrow> unit res" where
  "assert_plus_active cfg plans now user_id s =
     bindE (get_subscription cfg plans now user_id s) (\<lambda>sub.
       guardE (sub_is_active sub) (SynapseError 403 ''Setka Plus subscription is required.''))"

text \<open>The updates of \<open>set_subscription\<close>, key by key.\<close>

definition subscription_updates :: "plan list \<Rightarrow> jdict \<Rightarrow> jdict \<Rightarrow> jdict res" where
  "subscription_updates plans updates payload0 =
     bindE (case clean_str 32 (jget updates ''status'') of
         None \<Rightarrow> Inr payload0
       | Some status \<Rightarrow>
           if py_lower status \<notin> set SUBSCRIPTION_STATUS then Inl (SynapseError 400 ''Unsupported status'')
           else Inr (dset ''status'' (JStr (py_lower status)) payload0)) (\<lambda>payload1.
     let payload2 = (case clean_str 64 (jget updates ''tier'') of
           None \<Rightarrow> payload1
         | Some tier \<Rightarrow>
             (case find_plan_by_id plans (JStr tier) of
                None \<Rightarrow> dset ''tier'' (JStr tier) payload1
              | Some p \<Rightarrow> dset ''price_rub'' (JFloat (pl_price_rub p))
                  (dset ''duration_days'' (JInt (pl_duration_days p))
                    (dset ''plan_name'' (JStr (pl_name p)) (dset ''tier'' (JStr tier) payload1)))));
         put = (\<lambda>k v d. case v of None \<Rightarrow> d | Some x \<Rightarrow> dset k x d)
     in
     bindE (clean_timestamp_ms True (jget updates ''started_at'')) (\<lambda>started_at.
     bindE (clean_timestamp_ms True (jget updates ''expires_at'')) (\<lambda>expires_at.
     bindE (clean_float (jget updates ''amount'')) (\<lambda>amount.
       Inr (put ''currency'' (map_option JStr (clean_str 16 (jget updates ''currency'')))
           (put ''amount'' (map_option (\<lambda>a. JFloat (py_round2 a)) amount)
           (put ''payment_provider'' (map_option JStr (clean_str 64 (jget updates ''payment_provider'')))
           (put ''last_payment_id'' (map_option JStr (clean_str 255 (jget updates ''last_payment_id'')))
           (put ''expires_at'' (map_option JInt expires_at)
           (put ''started_at'' (map_option JInt started_at) payload2))))))))))"

definition set_subscription :: "plus_config \<Rightarrow> plan list \<Rightarrow> int \<Rightarrow> int \<Rightarrow> string \<Rightarrow> jdict \<Rightarrow> subscription op" where
  "set_subscription cfg plans now now' user_id updates =
     bindO (readO (get_subscription cfg plans now user_id)) (\<lambda>existing.
     bindO (liftO (subscription_updates plans updates (subscription_json existing))) (\<lambda>payload.
     bindO (liftO (normalize_subscription cfg plans now'
              (Some (dset ''updated_at'' (JInt now') payload)))) (\<lambda>sub.
     bindO (add_account_data user_id SETKA_PLUS_SUBSCRIPTION (subscription_json sub)) (\<lambda>_.
       liftO (Inr sub)))))"

definition DAY_MS :: int where
  "DAY_MS = 24 * 60 * 60 * 1000"

text \<open>
  \<open>activate_subscription\<close>; the clock is read for the new expiry and again when the payment is
  recorded and the result is normalised.
\<close>

definition activate_subscription :: "plus_config \<Rightarrow> plan list \<Rightarrow> int \<Rightarrow> int \<Rightarrow> string \<Rightarrow> string \<Rightarrow> string
    \<Rightarrow> pyfloat option \<Rightarrow> json \<Rightarrow> int option \<Rightarrow> string \<Rightarrow> subscription op" where
  "activate_subscription cfg plans now now' user_id payment_id payment_provider amount plan_id duration_days currency =
     (let plan = resolve_plan cfg plans plan_id;
          days = (case duration_days of Some d \<Rightarrow> if d > 0 then d else pl_duration_days plan
                  | None \<Rightarrow> pl_duration_days plan);
          effective_amount = py_round2 (case amount of
              Some a \<Rightarrow> if float_pos a then a else pl_price_rub plan | None \<Rightarrow> pl_price_rub plan)
      in
      bindO (readO (get_subscription cfg plans now user_id)) (\<lambda>existing.
      bindO (liftO (clean_timestamp_ms True (JInt (sub_expires_at existing)))) (\<lambda>prev.
        let previous_expiry = int_or prev 0;
            start = (if previous_expiry > now then previous_expiry else now);
            expires_at = start + days * DAY_MS;
            payload = [(''tier'', JStr (pl_id plan)), (''plan_name'', JStr (pl_name plan)),
              (''status'', JStr ''active''),
              (''started_at'', JInt (if sub_started_at existing \<noteq> 0 then sub_started_at existing else now)),
              (''expires_at'', JInt expires_at), (''last_payment_id'', JStr payment_id),
              (''payment_provider'', JStr payment_provider), (''amount'', JFloat effective_amount),
              (''currency'', JStr currency), (''duration_days'', JInt days),
              (''price_rub'', JFloat effective_amount), (''updated_at'', JInt now)]
        in
        bindO (add_account_data user_id SETKA_PLUS_SUBSCRIPTION payload) (\<lambda>_.
        bindO (record_payment now' user_id
                 [(''payment_id'', JStr payment_id), (''provider'', JStr payment_provider),
                  (''status'', JStr ''success''), (''amount'', JFloat effective_amount),
                  (''currency'', JStr currency), (''plan_id'', JStr (pl_id plan)), (''created_at'', JInt now)]) (\<lambda>_.
          liftO (normalize_subscription cfg plans now' (Some payload)))))))"

definition redeem_voucher :: "unicode_tables \<Rightarrow> plus_config \<Rightarrow> plan list \<Rightarrow> int \<Rightarrow> int \<Rightarrow> int \<Rightarrow> string \<Rightarrow> string
    \<Rightarrow> (string \<times> subscription) op" where
  "redeem_voucher uc cfg plans now now1 now2 user_id code =
     (case normalize_voucher_code uc (JStr code) of
        None \<Rightarrow> liftO (Inl (SynapseError 400 ''invalid voucher code''))
      | Some normalized \<Rightarrow>
          bindO (reserve now user_id normalized) (\<lambda>v.
            let plan_id = (case v_plan_id v of None \<Rightarrow> None | Some p \<Rightarrow> clean_str 64 (JStr p));
                plan_days = (case plan_id of None \<Rightarrow> None
                  | Some p \<Rightarrow> map_option pl_duration_days (find_plan_by_id plans (JStr p)));
                positive = (\<lambda>d. case d of Some i \<Rightarrow> i > 0 | None \<Rightarrow> False);
                days = (if positive (v_duration_days v) then the (v_duration_days v)
                        else if positive plan_days then the plan_days else pc_duration_days cfg)
            in
            bindO (activate_subscription cfg plans now1 now2 user_id (''voucher:'' @ normalized) ''voucher''
                     (Some (Finite 0 0)) (case plan_id of None \<Rightarrow> JNull | Some p \<Rightarrow> JStr p) (Some days) ''RUB'')
              (\<lambda>sub. liftO (Inr (normalized, sub)))))"

text \<open>
  \<open>handle_yoomoney_webhook\<close>; \<open>sha1\<close> is the hash function in hexadecimal, \<open>fresh_id\<close> the random id
  for notifications without one.
\<close>

definition yoomoney_hash :: "(string \<Rightarrow> string) \<Rightarrow> string \<Rightarrow> (string, string) pydict \<Rightarrow> string" where
  "yoomoney_hash sha1 secret payload =
     (let get = (\<lambda>k. str_or (dget payload k) []) in
      sha1 (py_join ''&'' [get ''notification_type'', get ''operation_id'', get ''amount'', get ''currency'',
        get ''datetime'', get ''sender'', get ''codepro'', secret, get ''label'']))"

definition nonempty :: "string option \<Rightarrow> string option" where
  "nonempty x = (case x of Some [] \<Rightarrow> None | _ \<Rightarrow> x)"

definition handle_yoomoney_webhook :: "(string \<Rightarrow> string) \<Rightarrow> string \<Rightarrow> plus_config \<Rightarrow> plan list \<Rightarrow> int \<Rightarrow> int
    \<Rightarrow> string \<Rightarrow> (string, string) pydict \<Rightarrow> (string \<times> subscription) op" where
  "handle_yoomoney_webhook sha1 secret cfg plans now now' fresh_id payload =
     (let provided_hash = py_lower (py_strip (str_or (dget payload ''sha1_hash'') []));
          label = str_or (dget payload ''label'') [];
          parts = split_all CHR ''|'' label
      in
      bindO (liftO (guardE (secret = [] \<or> provided_hash \<noteq> [] \<and> provided_hash = yoomoney_hash sha1 secret payload)
               (SynapseError 403 ''Invalid YooMoney webhook signature''))) (\<lambda>_.
      bindO (liftO (guardE (length parts \<ge> 3 \<and> hd parts = ''setka_plus'')
               (SynapseError 400 ''Unsupported payment label''))) (\<lambda>_.
      bindO (liftO (clean_float (case dget payload ''amount'' of None \<Rightarrow> JNull | Some a \<Rightarrow> JStr a))) (\<lambda>amount0.
        let user_id = parts ! 1;
            plan_id = (if length parts > 3 then Some (parts ! 2) else None);
            payment_id = (case nonempty (dget payload ''operation_id'') of
                Some i \<Rightarrow> i
              | None \<Rightarrow> (case nonempty (dget payload ''request_id'') of Some i \<Rightarrow> i | None \<Rightarrow> fresh_id));
            amount = (case amount0 of Some a \<Rightarrow> a | None \<Rightarrow> pc_price_rub cfg);
            currency = str_or (nonempty (dget payload ''currency'')) ''RUB''
        in
        bindO (activate_subscription cfg plans now now' user_id payment_id ''yoomoney_webhook'' (Some amount)
                 (case plan_id of None \<Rightarrow> JNull | Some p \<Rightarrow> JStr p) None currency) (\<lambda>sub.
        bindO (record_payment now' user_id
                 [(''payment_id'', JStr payment_id), (''provider'', JStr ''yoomoney_webhook''),
                  (''status'', JStr ''success''), (''amount'', JFloat amount), (''currency'', JStr currency),
                  (''label'', JStr label), (''plan_id'', JStr (str_or (nonempty plan_id) ''setka_plus'')),
                  (''created_at'', JInt now')]) (\<lambda>_.
          liftO (Inr (user_id, sub))))))))"

end
