(* ===== verification/Setka_Plus_Props.thy ===== *)
theory Setka_Plus_Props
  imports Setka_Plus
begin

text \<open>
  Properties of Setka Plus: the invariant of the voucher tables in every reachable state, what a
  redemption needs, and how subscriptions are extended and granted.
\<close>

section \<open>Operations\<close>

named_theorems op_simps \<open>evaluation of operations\<close>

lemma bindO_simps [op_simps]:
  "bindO (liftO (Inl e)) f s = (Inl e, s)"
  "bindO (liftO (Inr x)) f s = f x s"
  "bindO (writeO g) h s = h () (g s)"
  "liftO m s = (m, s)" "writeO g s = (Inr (), g s)"
  by (simp_all add: bindO_def liftO_def writeO_def)

text \<open>An operation that only touches the account data.\<close>

definition keeps_vouchers :: "'a op \<Rightarrow> bool" where
  "keeps_vouchers m \<longleftrightarrow> (\<forall>s r s'. m s = (r, s') \<longrightarrow>
     ps_vouchers s' = ps_vouchers s \<and> ps_redemptions s' = ps_redemptions s)"

lemma keeps_vouchersD:
  "keeps_vouchers m \<Longrightarrow> m s = (r, s') \<Longrightarrow>
     ps_vouchers s' = ps_vouchers s \<and> ps_redemptions s' = ps_redemptions s"
  unfolding keeps_vouchers_def by blast

lemma keeps_vouchers_bind:
  "keeps_vouchers m \<Longrightarrow> (\<And>x. keeps_vouchers (f x)) \<Longrightarrow> keeps_vouchers (bindO m f)"
  unfolding keeps_vouchers_def bindO_def by (fastforce split: prod.splits sum.splits)

lemma keeps_vouchers_basic:
  "keeps_vouchers (liftO m)" "keeps_vouchers (readO f)" "keeps_vouchers (add_account_data u t c)"
  "keeps_vouchers (writeO (track_pending u p))"
  by (auto simp: keeps_vouchers_def liftO_def readO_def writeO_def add_account_data_def track_pending_def)

lemma keeps_vouchers_record_payment: "keeps_vouchers (record_payment now u p)"
  unfolding record_payment_def Let_def by (intro keeps_vouchers_bind keeps_vouchers_basic)

lemma keeps_vouchers_activate:
  "keeps_vouchers (activate_subscription cfg plans now now' u pid prov amount plan_id days cur)"
  unfolding activate_subscription_def Let_def
  by (intro keeps_vouchers_bind keeps_vouchers_basic keeps_vouchers_record_payment)

lemma keeps_vouchers_put: "keeps_vouchers (put_account_data req u t body)"
  unfolding put_account_data_def by (intro keeps_vouchers_bind keeps_vouchers_basic)

lemma keeps_vouchers_webhook: "keeps_vouchers (handle_yoomoney_webhook sha1 secret cfg plans now now' fresh payload)"
  unfolding handle_yoomoney_webhook_def Let_def
  by (intro keeps_vouchers_bind keeps_vouchers_basic keeps_vouchers_activate keeps_vouchers_record_payment)

lemma keeps_vouchers_set_subscription: "keeps_vouchers (set_subscription cfg plans now now' u updates)"
  unfolding set_subscription_def by (intro keeps_vouchers_bind keeps_vouchers_basic)

section \<open>The voucher tables\<close>

definition redemptions_of :: "string \<Rightarrow> plus_state \<Rightarrow> nat" where
  "redemptions_of code s = length (filter (\<lambda>r. r_code r = code) (ps_redemptions s))"

definition vouchers_ok :: "plus_state \<Rightarrow> bool" where
  "vouchers_ok s \<longleftrightarrow>
     (\<forall>c v. dget (ps_vouchers s) c = Some v \<longrightarrow>
        v_code v = c \<and> v_redemption_count v = int (redemptions_of c s))
     \<and> (\<forall>r\<in>set (ps_redemptions s). dget (ps_vouchers s) (r_code r) \<noteq> None)
     \<and> distinct (map (\<lambda>r. (r_code r, r_user_id r)) (ps_redemptions s))"

text \<open>One request to the handler; the state of the tables after it.\<close>

inductive plus_step :: "unicode_tables \<Rightarrow> plus_config \<Rightarrow> plus_state \<Rightarrow> plus_state \<Rightarrow> bool" for uc cfg where
  create: "create_voucher uc plans n1 n2 fresh body s = (r, s') \<Longrightarrow> plus_step uc cfg s s'"
| update: "update_voucher uc plans code upd s = (r, s') \<Longrightarrow> plus_step uc cfg s s'"
| delete: "delete_voucher uc code s = (d, s') \<Longrightarrow> plus_step uc cfg s s'"
| redeem: "redeem_voucher uc cfg plans n n1 n2 user code s = (rr, s') \<Longrightarrow> plus_step uc cfg s s'"
| set_sub: "set_subscription cfg plans n1 n2 user upd s = (sb, s') \<Longrightarrow> plus_step uc cfg s s'"
| webhook: "handle_yoomoney_webhook sha1 secret cfg plans n1 n2 fresh payload s = (w, s') \<Longrightarrow> plus_step uc cfg s s'"
| account_data: "put_account_data requester user dtype content s = (u, s') \<Longrightarrow> plus_step uc cfg s s'"

inductive reachable :: "unicode_tables \<Rightarrow> plus_config \<Rightarrow> plus_state \<Rightarrow> bool" for uc cfg where
  start: "reachable uc cfg \<lparr>ps_vouchers = [], ps_redemptions = [], ps_account_data = ad, ps_pending_users = []\<rparr>"
| step: "reachable uc cfg s \<Longrightarrow> plus_step uc cfg s s' \<Longrightarrow> reachable uc cfg s'"

lemma vouchers_ok_cong:
  "ps_vouchers s' = ps_vouchers s \<Longrightarrow> ps_redemptions s' = ps_redemptions s \<Longrightarrow> vouchers_ok s' = vouchers_ok s"
  by (simp add: vouchers_ok_def redemptions_of_def)

text \<open>Writing a row with its own code, the old count and no redemption less.\<close>

lemma vouchers_ok_write:
  assumes ok: "vouchers_ok s" and code: "v_code v = c" and count: "v_redemption_count v = int (redemptions_of c s)"
  shows "vouchers_ok (s\<lparr>ps_vouchers := dset c v (ps_vouchers s)\<rparr>)"
  using assms by (auto simp: vouchers_ok_def redemptions_of_def)

lemma get_voucher_cases:
  assumes "get_voucher uc code s = (r, s')"
  obtains e where "r = Inl e" "s' = s" | v c where "r = Inr v" "s' = s" "dget (ps_vouchers s) c = Some v"
  using assms
  by (cases "normalize_voucher_code uc (JStr code)")
    (auto simp: get_voucher_def readO_def optE_def split: option.splits)

lemma bind_get_voucher:
  assumes run: "bindO (get_voucher uc code) f s = (r, s')"
  obtains "s' = s" | v c where "dget (ps_vouchers s) c = Some v" "f v s = (r, s')"
proof (cases "get_voucher uc code s")
  case (Pair q t)
  from Pair show ?thesis
    by (rule get_voucher_cases) (use run that Pair in \<open>auto simp: bindO_def\<close>)
qed

lemma get_voucher_state: "get_voucher uc code s = (r, s') \<Longrightarrow> s' = s"
  by (elim get_voucher_cases) simp_all

lemma no_redemptions: "vouchers_ok s \<Longrightarrow> dget (ps_vouchers s) c = None \<Longrightarrow> redemptions_of c s = 0"
  by (auto simp: vouchers_ok_def redemptions_of_def filter_empty_conv)

lemma vouchers_okD:
  "vouchers_ok s \<Longrightarrow> dget (ps_vouchers s) c = Some v \<Longrightarrow> v_code v = c"
  "vouchers_ok s \<Longrightarrow> dget (ps_vouchers s) c = Some v \<Longrightarrow> v_redemption_count v = int (redemptions_of c s)"
  unfolding vouchers_ok_def by blast+

lemma create_row_fresh: "create_voucher_row uc plans n1 n2 fresh body = Inr v \<Longrightarrow> v_redemption_count v = 0"
  by (cases body) (auto simp: create_voucher_row_def Let_def)

lemma updated_voucher_keeps:
  "updated_voucher plans body old = Inr v \<Longrightarrow>
     v_code v = v_code old \<and> v_redemption_count v = v_redemption_count old"
  by (auto simp: updated_voucher_def Let_def)

lemma create_voucher_ok:
  assumes ok: "vouchers_ok s" and run: "create_voucher uc plans n1 n2 fresh body s = (r, s')"
  shows "vouchers_ok s'"
proof (cases "create_voucher_row uc plans n1 n2 fresh body")
  case (Inl e)
  then show ?thesis
    using run ok by (simp add: create_voucher_def bindO_def liftO_def)
next
  case (Inr v)
  show ?thesis
  proof (cases "dget (ps_vouchers s) (v_code v) = None")
    case True
    then have "s' = s\<lparr>ps_vouchers := dset (v_code v) v (ps_vouchers s)\<rparr>"
      using run Inr by (simp add: create_voucher_def bindO_def liftO_def readO_def writeO_def guardE_def get_voucher_state)
    then show ?thesis
      using vouchers_ok_write [OF ok refl] no_redemptions [OF ok True] create_row_fresh [OF Inr] by simp
  next
    case False
    then show ?thesis
      using run ok Inr by (auto simp: create_voucher_def bindO_def liftO_def readO_def guardE_def)
  qed
qed

lemma update_voucher_ok:
  assumes ok: "vouchers_ok s" and run: "update_voucher uc plans code upd s = (r, s')"
  shows "vouchers_ok s'"
  using run [unfolded update_voucher_def]
proof (rule bind_get_voucher)
  fix v c
  assume v: "dget (ps_vouchers s) c = Some v"
    and f: "bindO (liftO (updated_voucher plans upd v)) (\<lambda>w.
      bindO (writeO (\<lambda>s. s\<lparr>ps_vouchers := dset (v_code v) w (ps_vouchers s)\<rparr>)) (\<lambda>_. get_voucher uc (v_code v))) s = (r, s')"
  show ?thesis
  proof (cases "updated_voucher plans upd v")
    case (Inr w)
    then have "s' = s\<lparr>ps_vouchers := dset (v_code v) w (ps_vouchers s)\<rparr>"
      using f by (simp add: bindO_def liftO_def writeO_def get_voucher_state)
    then show ?thesis
      using vouchers_ok_write [OF ok, of w c] vouchers_okD [OF ok v] updated_voucher_keeps [OF Inr] by simp
  qed (use f ok in \<open>simp add: bindO_def liftO_def\<close>)
qed (use ok in simp)

lemma delete_voucher_ok:
  assumes ok: "vouchers_ok s" and run: "delete_voucher uc code s = (r, s')"
  shows "vouchers_ok s'"
  using run [unfolded delete_voucher_def]
proof (rule bind_get_voucher)
  fix v c
  assume v: "dget (ps_vouchers s) c = Some v"
    and f: "bindO (writeO (\<lambda>s. s\<lparr>ps_vouchers := dset (v_code v) (v\<lparr>v_is_active := False\<rparr>) (ps_vouchers s)\<rparr>))
      (\<lambda>_. liftO (Inr (v_code v))) s = (r, s')"
  then have "s' = s\<lparr>ps_vouchers := dset (v_code v) (v\<lparr>v_is_active := False\<rparr>) (ps_vouchers s)\<rparr>"
    by (auto simp: bindO_def writeO_def liftO_def)
  then show ?thesis
    using vouchers_ok_write [OF ok, of "v\<lparr>v_is_active := False\<rparr>" c] vouchers_okD [OF ok v] by simp
qed (use ok in simp)

text \<open>What a reservation needs, and what it does to the tables.\<close>

lemma reserve_error: "reserve now user code s = (Inl e, s') \<Longrightarrow> s' = s"
  by (cases "dget (ps_vouchers s) code") (simp_all add: reserve_def split: if_splits)

lemma reserve_success:
  assumes "reserve now user code s = (Inr v, s')"
  shows "dget (ps_vouchers s) code = Some v" "v_is_active v" "now < v_expires_at v"
    "v_redemption_count v < v_max_redemptions v" "user_redemptions code user s = 0"
    "s' = s\<lparr>ps_redemptions := ps_redemptions s @ [\<lparr>r_code = code, r_user_id = user, r_redeemed_at = now\<rparr>],
            ps_vouchers := dset code (v\<lparr>v_redemption_count := v_redemption_count v + 1\<rparr>) (ps_vouchers s)\<rparr>"
  using assms by (cases "dget (ps_vouchers s) code"; force simp: reserve_def split: if_splits)+

lemma reserve_ok:
  assumes ok: "vouchers_ok s" and run: "reserve now user code s = (r, s')"
  shows "vouchers_ok s'"
proof (cases r)
  case (Inr v)
  note 2 = reserve_success [OF run [unfolded Inr]]
  let ?q = "\<lparr>r_code = code, r_user_id = user, r_redeemed_at = now\<rparr>"
  have "redemptions_of c s' = (if c = code then Suc (redemptions_of c s) else redemptions_of c s)" for c
    using 2(6) by (simp add: redemptions_of_def)
  moreover have "(code, user) \<notin> (\<lambda>r. (r_code r, r_user_id r)) ` set (ps_redemptions s)"
    using 2(5) by (auto simp: user_redemptions_def filter_empty_conv)
  moreover have "dget (ps_vouchers s') c = (if c = code then Some (v\<lparr>v_redemption_count := v_redemption_count v + 1\<rparr>)
      else dget (ps_vouchers s) c)" for c
    using 2(6) by simp
  moreover have "ps_redemptions s' = ps_redemptions s @ [?q]"
    using 2(6) by simp
  ultimately show ?thesis
    using ok vouchers_okD [OF ok 2(1)] unfolding vouchers_ok_def by simp
qed (use ok run reserve_error in blast)

lemma redeem_voucher_ok:
  assumes ok: "vouchers_ok s" and run: "redeem_voucher uc cfg plans n n1 n2 user code s = (r, s')"
  shows "vouchers_ok s'"
proof (cases "normalize_voucher_code uc (JStr code)")
  case None
  then show ?thesis
    using run ok by (simp add: redeem_voucher_def liftO_def)
next
  case (Some c)
  obtain q t where t: "reserve n user c s = (q, t)"
    by fastforce
  have "ps_vouchers s' = ps_vouchers t \<and> ps_redemptions s' = ps_redemptions t"
  proof (cases q)
    case (Inr v)
    then show ?thesis
      using run Some t keeps_vouchersD [OF keeps_vouchers_bind [OF keeps_vouchers_activate keeps_vouchers_basic(1)]]
      by (simp add: redeem_voucher_def bindO_def [of "reserve n user c"] Let_def)
  qed (use run Some t in \<open>simp add: redeem_voucher_def bindO_def\<close>)
  then show ?thesis
    using vouchers_ok_cong [of s' t] reserve_ok [OF ok t] by simp
qed

lemma plus_step_ok: "plus_step uc cfg s s' \<Longrightarrow> vouchers_ok s \<Longrightarrow> vouchers_ok s'"
proof (induction rule: plus_step.induct)
  case (set_sub plans n1 n2 user upd s sb s')
  then show ?case
    using keeps_vouchersD [OF keeps_vouchers_set_subscription] vouchers_ok_cong by blast
next
  case (webhook sha1 secret plans n1 n2 fresh payload s w s')
  then show ?case
    using keeps_vouchersD [OF keeps_vouchers_webhook] vouchers_ok_cong by blast
next
  case (account_data requester user dtype content s u s')
  then show ?case
    using keeps_vouchersD [OF keeps_vouchers_put] vouchers_ok_cong by blast
qed (blast intro: create_voucher_ok update_voucher_ok delete_voucher_ok redeem_voucher_ok)+

lemma reachable_vouchers_ok: "reachable uc cfg s \<Longrightarrow> vouchers_ok s"
proof (induction rule: reachable.induct)
  case (start ad)
  show ?case by (simp add: vouchers_ok_def redemptions_of_def)
qed (rule plus_step_ok)

section \<open>Subscriptions\<close>

lemma clean_timestamp_int: "10000000000 \<le> t \<Longrightarrow> clean_timestamp_ms z (JInt t) = Inr (Some t)"
  by (simp add: clean_timestamp_ms_def clean_int_def)

lemma bindO_eq_Inr: "bindO m f s = (Inr y, s') \<longleftrightarrow> (\<exists>x t. m s = (Inr x, t) \<and> f x t = (Inr y, s'))"
  by (auto simp: bindO_def split: prod.splits sum.splits)

lemma basicO_eq_Inr:
  "liftO m s = (Inr x, t) \<longleftrightarrow> m = Inr x \<and> t = s"
  "readO f s = (Inr x, t) \<longleftrightarrow> f s = Inr x \<and> t = s"
  "writeO g s = (r, t) \<longleftrightarrow> r = Inr () \<and> t = g s"
  by (auto simp: liftO_def readO_def writeO_def)

lemma record_payment_keeps:
  "record_payment now u p s = (r, t) \<Longrightarrow> k \<noteq> SETKA_PLUS_PAYMENTS \<Longrightarrow>
     dget (ps_account_data t) (v, k) = dget (ps_account_data s) (v, k)"
  by (auto simp: record_payment_def bindO_def readO_def liftO_def writeO_def add_account_data_def
      track_pending_def Let_def split: prod.splits sum.splits if_splits)

lemma normalize_expiry:
  assumes "normalize_subscription_dict cfg plans now raw = Inr sub"
  shows "\<exists>e. clean_timestamp_ms True (jget raw ''expires_at'') = Inr e \<and> sub_expires_at sub = int_or e 0
    \<and> sub_is_active sub = (int_or e 0 > now)"
  using assms by (auto simp: normalize_subscription_dict_def Let_def)

lemma normalize_days:
  "normalize_subscription_dict cfg plans now raw = Inr sub \<Longrightarrow> jget raw ''duration_days'' = JInt d \<Longrightarrow> 0 < d \<Longrightarrow>
     sub_duration_days sub = d"
  by (auto simp: normalize_subscription_dict_def Let_def clean_int_def)

text \<open>A successful activation: the stored subscription, which ends after the earlier one.\<close>

lemma activate_success:
  assumes run: "activate_subscription cfg plans now now' u pid prov amount plan_id None cur s = (Inr sub, s')"
  shows "\<exists>payload old prev. get_subscription cfg plans now u s = Inr old
    \<and> clean_timestamp_ms True (JInt (sub_expires_at old)) = Inr prev
    \<and> dget (ps_account_data s') (u, SETKA_PLUS_SUBSCRIPTION) = Some payload
    \<and> normalize_subscription_dict cfg plans now' payload = Inr sub
    \<and> jget payload ''expires_at'' =
        JInt (max (int_or prev 0) now + pl_duration_days (resolve_plan cfg plans plan_id) * DAY_MS)
    \<and> jget payload ''duration_days'' = JInt (pl_duration_days (resolve_plan cfg plans plan_id))"
proof -
  define p where "p = resolve_plan cfg plans plan_id"
  define amt where "amt = py_round2 (case amount of
      Some a \<Rightarrow> if float_pos a then a else pl_price_rub p | None \<Rightarrow> pl_price_rub p)"
  obtain old where old: "get_subscription cfg plans now u s = Inr old"
    using run by (auto simp: activate_subscription_def Let_def bindO_eq_Inr basicO_eq_Inr)
  obtain prev where prev: "clean_timestamp_ms True (JInt (sub_expires_at old)) = Inr prev"
    using run old by (auto simp: activate_subscription_def Let_def bindO_eq_Inr basicO_eq_Inr)
  define payload where "payload = [(''tier'', JStr (pl_id p)), (''plan_name'', JStr (pl_name p)),
      (''status'', JStr ''active''),
      (''started_at'', JInt (if sub_started_at old \<noteq> 0 then sub_started_at old else now)),
      (''expires_at'', JInt ((if int_or prev 0 > now then int_or prev 0 else now) + pl_duration_days p * DAY_MS)),
      (''last_payment_id'', JStr pid), (''payment_provider'', JStr prov), (''amount'', JFloat amt),
      (''currency'', JStr cur), (''duration_days'', JInt (pl_duration_days p)),
      (''price_rub'', JFloat amt), (''updated_at'', JInt now)]"
  let ?t = "s\<lparr>ps_account_data := dset (u, SETKA_PLUS_SUBSCRIPTION) payload (ps_account_data s)\<rparr>"
  obtain q x where rec: "record_payment now' u q ?t = (Inr x, s')"
    and norm: "normalize_subscription_dict cfg plans now' payload = Inr sub"
    using run old prev unfolding activate_subscription_def Let_def option.case p_def [symmetric] amt_def [symmetric]
    by (auto simp: bindO_eq_Inr basicO_eq_Inr add_account_data_def normalize_subscription_def payload_def [symmetric])
  have "dget (ps_account_data s') (u, SETKA_PLUS_SUBSCRIPTION) = Some payload"
    using record_payment_keeps [OF rec, of SETKA_PLUS_SUBSCRIPTION u]
    by (simp add: SETKA_PLUS_SUBSCRIPTION_def SETKA_PLUS_PAYMENTS_def)
  moreover have "jget payload ''expires_at'' = JInt (max (int_or prev 0) now + pl_duration_days p * DAY_MS)"
    "jget payload ''duration_days'' = JInt (pl_duration_days p)"
    by (simp_all add: payload_def jget_def)
  ultimately show ?thesis
    using old prev norm unfolding p_def by blast
qed

lemma webhook_success:
  assumes "handle_yoomoney_webhook sha1 secret cfg plans now now' fresh payload s = (Inr (u, sub), s')"
  defines "parts \<equiv> split_all CHR ''|'' (str_or (dget payload ''label'') [])"
  shows "u = parts ! 1 \<and> (\<exists>pid amount cur t.
    activate_subscription cfg plans now now' u pid ''yoomoney_webhook'' amount
      (if length parts > 3 then JStr (parts ! 2) else JNull) None cur s = (Inr sub, t)
    \<and> dget (ps_account_data s') (u, SETKA_PLUS_SUBSCRIPTION) = dget (ps_account_data t) (u, SETKA_PLUS_SUBSCRIPTION))"
proof -
  have diff: "SETKA_PLUS_SUBSCRIPTION \<noteq> SETKA_PLUS_PAYMENTS"
    by (simp add: SETKA_PLUS_SUBSCRIPTION_def SETKA_PLUS_PAYMENTS_def)
  have plan: "(case if b then Some x else None of None \<Rightarrow> JNull | Some p \<Rightarrow> JStr p) = (if b then JStr x else JNull)" for b x
    by simp
  show ?thesis
    using assms(1) unfolding handle_yoomoney_webhook_def Let_def bindO_eq_Inr basicO_eq_Inr plan parts_def
    by (elim exE conjE) (simp only: prod.inject sum.inject, blast dest: record_payment_keeps [OF _ diff])
qed

lemma normalize_plan_days: "normalize_plan i item = Inr (Some p) \<Longrightarrow> 0 < pl_duration_days p"
  by (cases item; (elim exE)?)
    (simp_all add: normalize_plan_def Let_def bindE_eq_Inr split: option.split_asm if_split_asm, fastforce)

lemma collect_plan_days:
  "collect_plan ix acc = Inr acc' \<Longrightarrow> \<forall>p\<in>set acc. 0 < pl_duration_days p \<Longrightarrow> \<forall>p\<in>set acc'. 0 < pl_duration_days p"
  by (cases ix; cases "snd ix")
    (auto simp: collect_plan_def dest: normalize_plan_days split: if_splits option.splits)

lemma default_plans_days: "p \<in> set (default_plans cfg) \<Longrightarrow> 0 < pl_duration_days p"
  by (auto simp: default_plans_def Let_def)

lemma set_first_active_default_days:
  "\<forall>p\<in>set ps. 0 < pl_duration_days p \<Longrightarrow> \<forall>p\<in>set (set_first_active_default ps). 0 < pl_duration_days p"
  by (induction ps) auto

lemma ensure_days:
  assumes "ps \<noteq> []" "\<forall>p\<in>set ps. 0 < pl_duration_days p"
  shows "\<forall>p\<in>set (ensure_default (ensure_active ps)). 0 < pl_duration_days p"
proof -
  have "\<forall>p\<in>set (ensure_active ps). 0 < pl_duration_days p"
    using assms by (cases ps) (auto simp: ensure_active_def)
  then show ?thesis
    by (simp add: ensure_default_def set_first_active_default_days)
qed

lemma normalize_plans_days:
  assumes "normalize_plans cfg raw = Inr plans" "p \<in> set plans"
  shows "0 < pl_duration_days p"
proof -
  obtain src n0 where run: "foldE collect_plan (enumerate 0 src) [] = Inr n0"
    and plans: "plans = take 32 (sort_key (\<lambda>p. (pl_sort_order p, pc_lower cfg (pl_name p)))
      (ensure_default (ensure_active (if n0 = [] then default_plans cfg else n0))))"
    using assms(1) unfolding normalize_plans_def Let_def bindE_eq_Inr by (elim exE conjE) blast
  have n0: "\<forall>p\<in>set n0. 0 < pl_duration_days p"
    by (rule foldE_invariant [OF run]) (simp, erule collect_plan_days, assumption)
  have "default_plans cfg \<noteq> []"
    by (simp add: default_plans_def Let_def)
  then have "\<forall>p\<in>set (ensure_default (ensure_active (if n0 = [] then default_plans cfg else n0))). 0 < pl_duration_days p"
    using n0 by (intro ensure_days) (auto simp: default_plans_days)
  then show ?thesis
    using assms(2) unfolding plans by (auto dest!: in_set_takeD)
qed

lemma find_in_set: "find P xs = Some x \<Longrightarrow> x \<in> set xs"
  by (induction xs) (auto split: if_splits)

lemma default_plan_days:
  assumes "\<forall>p\<in>set plans. 0 < pl_duration_days p"
  shows "0 < pl_duration_days (default_plan cfg plans)"
proof -
  have "default_plan cfg plans \<in> set plans \<or> default_plan cfg plans = hd (default_plans cfg)"
    unfolding default_plan_def by (auto dest: find_in_set split: option.split)
  moreover have "0 < pl_duration_days (hd (default_plans cfg))"
    by (simp add: default_plans_def Let_def)
  ultimately show ?thesis
    using assms by auto
qed

lemma resolve_plan_days:
  assumes "\<forall>p\<in>set plans. 0 < pl_duration_days p"
  shows "0 < pl_duration_days (resolve_plan cfg plans i)"
proof (cases "find_plan_by_id plans i")
  case (Some p)
  then have "p \<in> set plans"
    by (auto simp: find_plan_by_id_def dest: find_in_set split: option.splits)
  then show ?thesis
    using Some assms default_plan_days [OF assms] by (simp add: resolve_plan_def)
qed (simp add: resolve_plan_def default_plan_days assms)

section \<open>Concrete inputs\<close>

abbreviation ascii_tables :: unicode_tables where
  "ascii_tables \<equiv> \<lparr>uc_upper = (\<lambda>ch. ch), uc_alnum = (\<lambda>ch. False)\<rparr>"

definition a_price :: pyfloat where
  "a_price = Finite 5260063627280384 (- 44)"

definition a_config :: plus_config where
  "a_config = \<lparr>pc_price_rub = a_price, pc_duration_days = 30, pc_lower = py_lower\<rparr>"

definition some_plans :: "plan list" where
  "some_plans = [\<lparr>pl_id = ''month'', pl_name = ''Plus'', pl_price_rub = a_price, pl_duration_days = 30,
     pl_features = [], pl_active = True, pl_is_default = True, pl_sort_order = 10\<rparr>]"

definition a_voucher :: "int \<Rightarrow> voucher" where
  "a_voucher n = \<lparr>v_code = ''GIFT'', v_plan_id = None, v_duration_days = Some 7, v_expires_at = 2000000000000,
     v_max_redemptions = 5, v_redemption_count = n, v_max_per_user = 2, v_note = None, v_is_active = True,
     v_created_at = 1700000000000\<rparr>"

definition no_tables :: plus_state where
  "no_tables = \<lparr>ps_vouchers = [], ps_redemptions = [], ps_account_data = [], ps_pending_users = []\<rparr>"

definition gift_tables :: plus_state where
  "gift_tables = no_tables\<lparr>ps_vouchers := [(''GIFT'', a_voucher 0)]\<rparr>"

definition gift_request :: json where
  "gift_request = JDict [(''code'', JStr ''gift''), (''duration_days'', JInt 7), (''expires_at'', JInt 2000000000000),
     (''max_redemptions'', JInt 5), (''max_per_user'', JInt 2)]"

definition a_notification :: "(string, string) pydict" where
  "a_notification = [(''operation_id'', ''904''), (''amount'', ''299.00''), (''label'', ''setka_plus|@u:a.b|r1'')]"

lemma some_plans:
  "normalize_plans a_config (JList [JDict [(''id'', JStr ''month''), (''name'', JStr ''Plus''),
     (''price_rub'', JFloat a_price), (''duration_days'', JInt 30)]]) = Inr some_plans"
  by code_simp

lemma gift_created:
  "snd (create_voucher ascii_tables [] 1700000000000 1700000000000 ''X'' gift_request no_tables) = gift_tables"
  by code_simp

lemma gift_reachable: "reachable ascii_tables a_config gift_tables"
  unfolding gift_created [symmetric]
  by (rule reachable.step [OF _ plus_step.create], unfold no_tables_def, rule reachable.start, rule surjective_pairing)

section \<open>Redemptions\<close>

lemma redeem_success:
  assumes "redeem_voucher uc cfg plans n n1 n2 user code s = (Inr (c, sub), s')"
  shows "normalize_voucher_code uc (JStr code) = Some c \<and> (\<exists>v t. reserve n user c s = (Inr v, t)
    \<and> ps_vouchers s' = ps_vouchers t \<and> ps_redemptions s' = ps_redemptions t)"
proof (cases "normalize_voucher_code uc (JStr code)")
  case (Some d)
  obtain v t plan_id days where t: "reserve n user d s = (Inr v, t)"
    and run: "bindO (activate_subscription cfg plans n1 n2 user (''voucher:'' @ d) ''voucher''
       (Some (Finite 0 0)) plan_id (Some days) ''RUB'') (\<lambda>sub. liftO (Inr (d, sub))) t = (Inr (c, sub), s')"
    using assms Some unfolding redeem_voucher_def Let_def
    by (simp only: option.case bindO_eq_Inr [of "reserve n user d"]) blast
  have "c = d"
    using run by (simp add: bindO_eq_Inr basicO_eq_Inr)
  then show ?thesis
    using Some t keeps_vouchersD [OF keeps_vouchers_bind [OF keeps_vouchers_activate keeps_vouchers_basic(1)] run]
    by blast
qed (use assms in \<open>simp add: redeem_voucher_def liftO_def\<close>)

text \<open>
  C19. In every state that requests can lead to, a redemption that succeeds is of an active voucher
  that has not expired, has redemptions left and was not redeemed by the user before; it adds one
  redemption of that voucher, to at most the number allowed, and none of another. In that state,
  before and after, the counter of each voucher is the number of its redemptions and no user has
  redeemed a voucher twice.
\<close>

theorem vouchers_never_overspent:
  assumes "reachable uc cfg s"
    and "redeem_voucher uc cfg plans n n1 n2 user code s = (Inr (c, sub), s')"
  shows "vouchers_ok s \<and> vouchers_ok s' \<and> normalize_voucher_code uc (JStr code) = Some c
    \<and> (\<exists>v. dget (ps_vouchers s) c = Some v \<and> v_is_active v \<and> n < v_expires_at v
        \<and> user_redemptions c user s = 0 \<and> user_redemptions c user s' = 1
        \<and> int (redemptions_of c s') \<le> v_max_redemptions v)
    \<and> redemptions_of c s' = Suc (redemptions_of c s)
    \<and> (\<forall>d. d = c \<or> redemptions_of d s' = redemptions_of d s)"
proof -
  have ok: "vouchers_ok s"
    by (rule reachable_vouchers_ok [OF assms(1)])
  obtain v t where t: "reserve n user c s = (Inr v, t)"
    and same: "ps_vouchers s' = ps_vouchers t" "ps_redemptions s' = ps_redemptions t"
    and code: "normalize_voucher_code uc (JStr code) = Some c"
    using redeem_success [OF assms(2)] by blast
  note res = reserve_success [OF t]
  have added: "ps_redemptions s' = ps_redemptions s @ [\<lparr>r_code = c, r_user_id = user, r_redeemed_at = n\<rparr>]"
    using same(2) res(6) by simp
  have "redemptions_of d s' = (if d = c then Suc (redemptions_of d s) else redemptions_of d s)" for d
    by (simp add: redemptions_of_def added)
  moreover have "user_redemptions c user s' = 1"
    using res(5) by (simp add: user_redemptions_def added)
  ultimately show ?thesis
    using ok redeem_voucher_ok [OF ok assms(2)] code res(1-5) vouchers_okD(2) [OF ok res(1)] by auto
qed

lemma vouchers_never_overspent_witness:
  "\<exists>s' sub. redeem_voucher ascii_tables a_config some_plans 1700000000001 1700000000001 1700000000001
       ''@u:a.b'' ''gift'' gift_tables = (Inr (''GIFT'', sub), s')
     \<and> redemptions_of ''GIFT'' s' = 1 \<and> vouchers_ok s'"
proof -
  obtain sub s' where run: "redeem_voucher ascii_tables a_config some_plans 1700000000001 1700000000001 1700000000001
     ''@u:a.b'' ''gift'' gift_tables = (Inr (''GIFT'', sub), s')"
  proof -
    have "(case redeem_voucher ascii_tables a_config some_plans 1700000000001 1700000000001 1700000000001
       ''@u:a.b'' ''gift'' gift_tables of (r, _) \<Rightarrow> (case r of Inr (c, _) \<Rightarrow> c = ''GIFT'' | Inl _ \<Rightarrow> False))"
      by code_simp
    then show ?thesis
      using that by (auto split: prod.splits sum.splits)
  qed
  have "redemptions_of ''GIFT'' gift_tables = 0"
    by code_simp
  then show ?thesis
    using vouchers_never_overspent [OF gift_reachable run] run by simp
qed

text \<open>
  C36. A limit per user above one has no effect: when a voucher still allows the user another
  redemption, redeeming it fails with the exception of the database, because the code and the user
  are the primary key of the redemptions.
\<close>

theorem second_redemption_fails:
  assumes "normalize_voucher_code uc (JStr code) = Some c"
    and "dget (ps_vouchers s) c = Some v" "v_is_active v" "n < v_expires_at v"
    and "v_redemption_count v < v_max_redemptions v"
    and "0 < user_redemptions c user s" "int (user_redemptions c user s) < v_max_per_user v"
  shows "redeem_voucher uc cfg plans n n1 n2 user code s = (Inl IntegrityError, s)"
proof -
  have "reserve n user c s = (Inl IntegrityError, s)"
    using assms by (simp add: reserve_def)
  then show ?thesis
    using assms(1) by (simp add: redeem_voucher_def bindO_def)
qed

definition used_tables :: plus_state where
  "used_tables = no_tables\<lparr>ps_vouchers := [(''GIFT'', a_voucher 1)],
     ps_redemptions := [\<lparr>r_code = ''GIFT'', r_user_id = ''@u:a.b'', r_redeemed_at = 1700000000001\<rparr>]\<rparr>"

lemma used_by_reserve: "snd (reserve 1700000000001 ''@u:a.b'' ''GIFT'' gift_tables) = used_tables"
  by code_simp

lemma second_redemption_fails_witness:
  "redeem_voucher ascii_tables a_config some_plans 1700000000002 1700000000002 1700000000002 ''@u:a.b'' ''gift''
     (snd (reserve 1700000000001 ''@u:a.b'' ''GIFT'' gift_tables))
   = (Inl IntegrityError, snd (reserve 1700000000001 ''@u:a.b'' ''GIFT'' gift_tables))"
  unfolding used_by_reserve
  by (rule second_redemption_fails [where c = "''GIFT''" and v = "a_voucher 1"]; code_simp)

section \<open>Subscriptions that users extend\<close>

text \<open>
  C32. A notification of YooMoney that arrives a second time, with the same payment id and signature,
  is paid out again: while the subscription lasts, the replay moves its end by the whole duration of
  the plan.
\<close>

theorem replayed_webhook_extends_again:
  assumes plans: "normalize_plans cfg raw = Inr plans" and clock: "10000000000 \<le> now1"
    and first: "handle_yoomoney_webhook sha1 secret cfg plans now1 now1' fresh1 payload s = (Inr (u, sub1), s1)"
    and again: "handle_yoomoney_webhook sha1 secret cfg plans now2 now2' fresh2 payload s1 = (Inr (u2, sub2), s2)"
    and lasts: "now2 < sub_expires_at sub1"
  shows "u2 = u \<and> 0 < sub_duration_days sub2
    \<and> sub_expires_at sub2 = sub_expires_at sub1 + sub_duration_days sub2 * DAY_MS"
proof -
  define parts where "parts = split_all CHR ''|'' (str_or (dget payload ''label'') [])"
  define plan where "plan = resolve_plan cfg plans (if length parts > 3 then JStr (parts ! 2) else JNull)"
  have days: "0 < pl_duration_days plan"
    unfolding plan_def using normalize_plans_days [OF plans] by (intro resolve_plan_days) blast
  obtain pl1 old1 prev1 where one: "dget (ps_account_data s1) (u, SETKA_PLUS_SUBSCRIPTION) = Some pl1"
    "normalize_subscription_dict cfg plans now1' pl1 = Inr sub1"
    "jget pl1 ''expires_at'' = JInt (max (int_or prev1 0) now1 + pl_duration_days plan * DAY_MS)"
    using webhook_success [OF first] activate_success unfolding parts_def [symmetric] plan_def by metis
  have u2: "u2 = u"
    using webhook_success [OF first] webhook_success [OF again] by simp
  obtain pl2 old2 prev2 where two: "get_subscription cfg plans now2 u s1 = Inr old2"
    "clean_timestamp_ms True (JInt (sub_expires_at old2)) = Inr prev2"
    "normalize_subscription_dict cfg plans now2' pl2 = Inr sub2"
    "jget pl2 ''expires_at'' = JInt (max (int_or prev2 0) now2 + pl_duration_days plan * DAY_MS)"
    "jget pl2 ''duration_days'' = JInt (pl_duration_days plan)"
    using webhook_success [OF again] activate_success unfolding parts_def [symmetric] plan_def u2 by metis
  let ?e1 = "max (int_or prev1 0) now1 + pl_duration_days plan * DAY_MS"
  have e1: "10000000000 \<le> ?e1"
    using clock days by (auto simp: DAY_MS_def intro: order_trans)
  have end1: "sub_expires_at sub1 = ?e1"
    using normalize_expiry [OF one(2)] e1 by (auto simp: one(3) clean_timestamp_int int_or_def)
  have "sub_expires_at old2 = ?e1"
    using normalize_expiry [of cfg plans now2 pl1 old2] two(1) e1
    by (auto simp: get_subscription_def one(1,3) normalize_subscription_def clean_timestamp_int int_or_def)
  then have "prev2 = Some ?e1"
    using two(2) e1 by (simp add: clean_timestamp_int)
  then have "jget pl2 ''expires_at'' = JInt (?e1 + pl_duration_days plan * DAY_MS)"
    using two(4) lasts e1 by (simp add: end1 int_or_def)
  moreover have "10000000000 \<le> ?e1 + pl_duration_days plan * DAY_MS"
    using e1 days by (auto simp: DAY_MS_def)
  ultimately have "sub_expires_at sub2 = ?e1 + pl_duration_days plan * DAY_MS"
    using normalize_expiry [OF two(3)] e1 by (auto simp: clean_timestamp_int int_or_def)
  then show ?thesis
    using u2 end1 days normalize_days [OF two(3,5) days] by simp
qed

definition first_notified :: plus_state where
  "first_notified = snd (handle_yoomoney_webhook id [] a_config some_plans 1700000000000 1700000000000 ''X''
     a_notification no_tables)"

lemma replayed_webhook_extends_again_witness:
  "\<exists>sub1 sub2 s2. handle_yoomoney_webhook id [] a_config some_plans 1700000000000 1700000000000 ''X''
       a_notification no_tables = (Inr (''@u:a.b'', sub1), first_notified)
     \<and> handle_yoomoney_webhook id [] a_config some_plans 1700000000001 1700000000001 ''Y''
       a_notification first_notified = (Inr (''@u:a.b'', sub2), s2)
     \<and> sub_expires_at sub2 > sub_expires_at sub1"
proof -
  have ok1: "case fst (handle_yoomoney_webhook id [] a_config some_plans 1700000000000 1700000000000 ''X''
       a_notification no_tables) of Inr (u, sub) \<Rightarrow> u = ''@u:a.b'' \<and> 1700000000001 < sub_expires_at sub | Inl _ \<Rightarrow> False"
    by code_simp
  have ok2: "case fst (handle_yoomoney_webhook id [] a_config some_plans 1700000000001 1700000000001 ''Y''
       a_notification first_notified) of Inr (u, sub) \<Rightarrow> True | Inl _ \<Rightarrow> False"
    by code_simp
  obtain sub1 where one: "handle_yoomoney_webhook id [] a_config some_plans 1700000000000 1700000000000 ''X''
       a_notification no_tables = (Inr (''@u:a.b'', sub1), first_notified)" and lasts: "1700000000001 < sub_expires_at sub1"
    using ok1 unfolding first_notified_def
    by (cases "handle_yoomoney_webhook id [] a_config some_plans 1700000000000 1700000000000 ''X''
       a_notification no_tables") (auto split: sum.splits prod.splits)
  obtain u2 sub2 s2 where two: "handle_yoomoney_webhook id [] a_config some_plans 1700000000001 1700000000001 ''Y''
       a_notification first_notified = (Inr (u2, sub2), s2)"
    using ok2
    by (cases "handle_yoomoney_webhook id [] a_config some_plans 1700000000001 1700000000001 ''Y''
       a_notification first_notified") (auto split: sum.splits prod.splits)
  show ?thesis
    using replayed_webhook_extends_again [OF some_plans _ one two lasts] one two
    by (intro exI conjI) (assumption, auto simp: DAY_MS_def)
qed

text \<open>
  C31. A user who puts an end in the future into their own account data, through the endpoint for
  account data, has an active subscription until then, without a payment or a voucher.
\<close>

theorem account_data_grants_subscription:
  assumes "now < t" and "10000000000 \<le> t"
  shows "\<exists>s'. put_account_data user user SETKA_PLUS_SUBSCRIPTION [(''expires_at'', JInt t)] s = (Inr (), s')
    \<and> assert_plus_active cfg plans now user s' = Inr ()
    \<and> dget (ps_account_data s') (user, SETKA_PLUS_PAYMENTS) = dget (ps_account_data s) (user, SETKA_PLUS_PAYMENTS)
    \<and> ps_redemptions s' = ps_redemptions s"
proof -
  have clean: "clean_int JNull = Inr None" "clean_float JNull = Inr None" "clean_timestamp_ms b JNull = Inr None"
    "clean_str n JNull = None" for b n
    by (simp_all add: clean_int_def clean_float_def clean_timestamp_ms_def clean_str_def)
  show ?thesis
    using assms
    by (simp add: put_account_data_def bindO_def liftO_def guardE_def check_can_set_account_data_type_def
        SETKA_PLUS_SUBSCRIPTION_def SETKA_PLUS_PAYMENTS_def add_account_data_def writeO_def assert_plus_active_def
        get_subscription_def normalize_subscription_def normalize_subscription_dict_def clean jget_def Let_def
        clean_timestamp_int int_or_def)
qed

lemma account_data_grants_subscription_witness:
  "\<exists>s'. put_account_data ''@u:a.b'' ''@u:a.b'' SETKA_PLUS_SUBSCRIPTION [(''expires_at'', JInt 9000000000000)] no_tables
      = (Inr (), s')
    \<and> assert_plus_active a_config some_plans 1700000000000 ''@u:a.b'' s' = Inr ()"
  using account_data_grants_subscription [of 1700000000000 9000000000000 "''@u:a.b''" no_tables a_config some_plans]
  by auto

end
