(* ===== verification/Stream_Change_Cache.thy ===== *)
theory Stream_Change_Cache
  imports Py_Float
begin

text \<open>
  \<open>util/caches/stream_change_cache.py\<close>: the positions of the latest changes of the entities of a
  stream. The class keeps its entities in a \<open>SortedDict\<close> of the package \<open>sortedcontainers\<close>, whose
  operations are a parameter here; the locale \<open>sorted_dict\<close> has what its documentation promises.
  The metrics are left out. A set of entities is a list without duplicates.
\<close>

section \<open>Sorted dictionaries\<close>

record 'd sorted_ops =
  sd_items :: "'d \<Rightarrow> (int \<times> string list) list"
  sd_empty :: "'d"
  sd_get :: "'d \<Rightarrow> int \<Rightarrow> string list option"
  sd_set :: "int \<Rightarrow> string list \<Rightarrow> 'd \<Rightarrow> 'd"
  sd_del :: "int \<Rightarrow> 'd \<Rightarrow> 'd"
  sd_len :: "'d \<Rightarrow> nat"
  sd_popitem0 :: "'d \<Rightarrow> ((int \<times> string list) \<times> 'd) res"
  sd_peekitem :: "'d \<Rightarrow> (int \<times> string list) res"
  sd_bisect_right :: "'d \<Rightarrow> int \<Rightarrow> nat"
  sd_islice :: "'d \<Rightarrow> nat \<Rightarrow> int list"

locale sorted_dict =
  fixes ops :: "'d sorted_ops"
  assumes items_sorted: "sorted_wrt (<) (map fst (sd_items ops d))"
    and items_empty: "sd_items ops (sd_empty ops) = []"
    and get_items: "sd_get ops d k = map_of (sd_items ops d) k"
    and set_items: "map_of (sd_items ops (sd_set ops k v d)) = (map_of (sd_items ops d))(k \<mapsto> v)"
    and del_items: "map_of (sd_items ops (sd_del ops k d)) = (map_of (sd_items ops d))(k := None)"
    and len_items: "sd_len ops d = length (sd_items ops d)"
    and pop_items: "sd_items ops d = i # rest \<Longrightarrow> \<exists>d'. sd_popitem0 ops d = Inr (i, d') \<and> sd_items ops d' = rest"
    and peek_items: "sd_items ops d \<noteq> [] \<Longrightarrow> sd_peekitem ops d = Inr (last (sd_items ops d))"
    and bisect_items: "sd_bisect_right ops d k = length (filter (\<lambda>(k', _). k' \<le> k) (sd_items ops d))"
    and islice_items: "sd_islice ops d n = drop n (map fst (sd_items ops d))"

section \<open>The cache\<close>

record 'd change_cache =
  cc_original_max_size :: int
  cc_max_size :: int
  cc_cache :: "'d"
  cc_entity_to_key :: "(string, int) pydict"
  cc_earliest :: int

definition EVICTION_STUCK :: exn where
  "EVICTION_STUCK = PyException ''fuel''"

text \<open>
  \<open>_evict\<close>: the loop, with as many rounds as the cache has positions and one more, in which the
  condition fails.
\<close>

fun evict_loop :: "'d sorted_ops \<Rightarrow> nat \<Rightarrow> 'd change_cache \<Rightarrow> 'd change_cache res" where
  "evict_loop ops 0 cc = Inl EVICTION_STUCK"
| "evict_loop ops (Suc n) cc =
     (if int (sd_len ops (cc_cache cc)) > cc_max_size cc
      then bindE (sd_popitem0 ops (cc_cache cc)) (\<lambda>((k, r), rest).
        evict_loop ops n
          (cc\<lparr>cc_cache := rest, cc_earliest := max k (cc_earliest cc),
             cc_entity_to_key := filter (\<lambda>(entity, _). entity \<notin> set r) (cc_entity_to_key cc)\<rparr>))
      else Inr cc)"

definition evict :: "'d sorted_ops \<Rightarrow> 'd change_cache \<Rightarrow> 'd change_cache res" where
  "evict ops cc = evict_loop ops (Suc (sd_len ops (cc_cache cc))) cc"

text \<open>\<open>math.floor\<close> of the size times the factor.\<close>

definition py_floor :: "pyfloat \<Rightarrow> int res" where
  "py_floor x = (case x of
      Finite m e \<Rightarrow> Inr ((m * scale_up e) div scale_up (- e))
    | NaN \<Rightarrow> Inl ValueError
    | _ \<Rightarrow> Inl OverflowError)"

definition resized :: "int \<Rightarrow> pyfloat \<Rightarrow> int res" where
  "resized original_max_size factor =
     bindE (float_of_int original_max_size) (\<lambda>size. py_floor (float_mul size factor))"

definition set_cache_factor :: "'d sorted_ops \<Rightarrow> pyfloat \<Rightarrow> 'd change_cache \<Rightarrow> (bool \<times> 'd change_cache) res" where
  "set_cache_factor ops factor cc =
     bindE (resized (cc_original_max_size cc) factor) (\<lambda>new_size.
       if new_size \<noteq> cc_max_size cc
       then bindE (evict ops (cc\<lparr>cc_max_size := new_size\<rparr>)) (\<lambda>cc'. Inr (True, cc'))
       else Inr (False, cc))"

text \<open>Taking the entity out of the set of its old position.\<close>

definition forget_position :: "'d sorted_ops \<Rightarrow> string \<Rightarrow> int \<Rightarrow> 'd \<Rightarrow> 'd res" where
  "forget_position ops entity old_pos cache =
     bindE (optE KeyError (sd_get ops cache old_pos)) (\<lambda>e.
       if entity \<notin> set e then Inl KeyError
       else let e' = remove1 entity e in
         Inr (if e' = [] then sd_del ops old_pos cache else sd_set ops old_pos e' cache))"

definition enter_position :: "'d sorted_ops \<Rightarrow> string \<Rightarrow> int \<Rightarrow> 'd change_cache \<Rightarrow> 'd change_cache res" where
  "enter_position ops entity stream_pos cc =
     (let e1 = (case sd_get ops (cc_cache cc) stream_pos of None \<Rightarrow> [] | Some e \<Rightarrow> e) in
      evict ops (cc\<lparr>cc_cache := sd_set ops stream_pos (set_add entity e1) (cc_cache cc),
        cc_entity_to_key := dset entity stream_pos (cc_entity_to_key cc)\<rparr>))"

definition entity_has_changed :: "'d sorted_ops \<Rightarrow> string \<Rightarrow> int \<Rightarrow> 'd change_cache \<Rightarrow> 'd change_cache res" where
  "entity_has_changed ops entity stream_pos cc =
     (if stream_pos \<le> cc_earliest cc then Inr cc
      else (case dget (cc_entity_to_key cc) entity of
          None \<Rightarrow> enter_position ops entity stream_pos cc
        | Some old_pos \<Rightarrow>
            if old_pos \<ge> stream_pos then Inr cc
            else bindE (forget_position ops entity old_pos (cc_cache cc)) (\<lambda>cache.
              enter_position ops entity stream_pos (cc\<lparr>cc_cache := cache\<rparr>))))"

definition all_entities_changed :: "'d sorted_ops \<Rightarrow> int \<Rightarrow> 'd change_cache \<Rightarrow> 'd change_cache" where
  "all_entities_changed ops stream_pos cc =
     cc\<lparr>cc_cache := sd_empty ops, cc_entity_to_key := [], cc_earliest := stream_pos\<rparr>"

text \<open>
  \<open>__init__\<close>. Registering the cache resizes it by the configured factor, if the configuration was
  read (\<open>config/cache.py\<close>).
\<close>

definition empty_change_cache :: "'d sorted_ops \<Rightarrow> int \<Rightarrow> int \<Rightarrow> 'd change_cache" where
  "empty_change_cache ops current_stream_pos max_size =
     \<lparr>cc_original_max_size = max_size, cc_max_size = max_size, cc_cache = sd_empty ops,
       cc_entity_to_key = [], cc_earliest = current_stream_pos\<rparr>"

definition register_cache :: "'d sorted_ops \<Rightarrow> pyfloat option \<Rightarrow> 'd change_cache \<Rightarrow> 'd change_cache res" where
  "register_cache ops factor cc = (case factor of
      None \<Rightarrow> Inr cc
    | Some f \<Rightarrow> bindE (set_cache_factor ops f cc) (\<lambda>(_, cc'). Inr cc'))"

definition new_change_cache :: "'d sorted_ops \<Rightarrow> pyfloat option \<Rightarrow> int \<Rightarrow> int \<Rightarrow> (string, int) pydict
    \<Rightarrow> 'd change_cache res" where
  "new_change_cache ops factor current_stream_pos max_size prefilled_cache =
     bindE (register_cache ops factor (empty_change_cache ops current_stream_pos max_size))
       (foldE (\<lambda>(entity, stream_pos). entity_has_changed ops entity stream_pos) prefilled_cache)"

section \<open>Queries\<close>

definition has_entity_changed :: "string \<Rightarrow> int \<Rightarrow> 'd change_cache \<Rightarrow> bool" where
  "has_entity_changed entity stream_pos cc =
     (if stream_pos < cc_earliest cc then True
      else (case dget (cc_entity_to_key cc) entity of
          None \<Rightarrow> False
        | Some latest_entity_change_pos \<Rightarrow> stream_pos < latest_entity_change_pos))"

text \<open>\<open>AllEntitiesChangedResult\<close>: \<open>None\<close> is a miss.\<close>

definition get_all_entities_changed :: "'d sorted_ops \<Rightarrow> int \<Rightarrow> 'd change_cache \<Rightarrow> string list option" where
  "get_all_entities_changed ops stream_pos cc =
     (if stream_pos < cc_earliest cc then None
      else Some (concat (map (\<lambda>k. case sd_get ops (cc_cache cc) k of None \<Rightarrow> [] | Some e \<Rightarrow> e)
        (sd_islice ops (cc_cache cc) (sd_bisect_right ops (cc_cache cc) stream_pos)))))"

definition has_any_entity_changed :: "'d sorted_ops \<Rightarrow> int \<Rightarrow> 'd change_cache \<Rightarrow> bool res" where
  "has_any_entity_changed ops stream_pos cc =
     (if stream_pos < cc_earliest cc then Inr True
      else if sd_len ops (cc_cache cc) = 0 then Inr False
      else bindE (sd_peekitem ops (cc_cache cc)) (\<lambda>(k, _). Inr (stream_pos < k)))"

text \<open>Its three ways to intersect two collections differ in their costs only.\<close>

definition get_entities_changed :: "'d sorted_ops \<Rightarrow> string list \<Rightarrow> int \<Rightarrow> int \<Rightarrow> 'd change_cache \<Rightarrow> string set res" where
  "get_entities_changed ops entities stream_pos perf_factor cc =
     (if sd_len ops (cc_cache cc) = 0 \<or> stream_pos < cc_earliest cc then Inr (set entities)
      else bindE (sd_peekitem ops (cc_cache cc)) (\<lambda>(max_stream_pos, _).
        if max_stream_pos - stream_pos > perf_factor * int (length entities)
        then Inr (set (filter (\<lambda>entity.
               (case dget (cc_entity_to_key cc) entity of None \<Rightarrow> - 1 | Some k \<Rightarrow> k) > stream_pos) entities))
        else (case get_all_entities_changed ops stream_pos cc of
            Some changed \<Rightarrow> Inr (set entities \<inter> set changed)
          | None \<Rightarrow> Inr (set entities))))"

definition get_max_pos_of_last_change :: "string \<Rightarrow> 'd change_cache \<Rightarrow> int option" where
  "get_max_pos_of_last_change entity cc = dget (cc_entity_to_key cc) entity"

end
