(* ===== verification/Change_Cache_Props.thy ===== *)
theory Change_Cache_Props
  imports Stream_Change_Cache "HOL-Library.RBT"
begin

text \<open>
  The stream change cache keeps what it promises: a trace of operations, the invariant of the cache
  after it, and the answers of the queries. Red-black trees are sorted dictionaries.
\<close>

section \<open>What the cache promises\<close>

datatype cache_op = Changed string int | All_changed int | Resize pyfloat

definition apply_op :: "'d sorted_ops \<Rightarrow> cache_op \<Rightarrow> 'd change_cache \<Rightarrow> 'd change_cache res" where
  "apply_op ops op cc = (case op of
      Changed entity pos \<Rightarrow> entity_has_changed ops entity pos cc
    | All_changed pos \<Rightarrow> Inr (all_entities_changed ops pos cc)
    | Resize factor \<Rightarrow> bindE (set_cache_factor ops factor cc) (\<lambda>(_, cc'). Inr cc'))"

text \<open>Whether an operation reports a change of the entity after the position.\<close>

fun reports :: "string \<Rightarrow> int \<Rightarrow> cache_op \<Rightarrow> bool" where
  "reports entity pos (Changed e p) = (e = entity \<and> pos < p)"
| "reports entity pos (All_changed p) = (pos < p)"
| "reports entity pos (Resize f) = False"

text \<open>
  The operations that the cache is made for: when everything changes, the position is not before
  one already known, and factors are finite and not negative.
\<close>

fun in_order :: "int \<Rightarrow> int \<Rightarrow> cache_op list \<Rightarrow> bool" where
  "in_order sz m [] = True"
| "in_order sz m (Changed e p # rest) = in_order sz (max m p) rest"
| "in_order sz m (All_changed p # rest) = (m \<le> p \<and> in_order sz p rest)"
| "in_order sz m (Resize f # rest) =
     ((case resized sz f of Inr n \<Rightarrow> 0 \<le> n | Inl _ \<Rightarrow> False) \<and> in_order sz m rest)"

text \<open>
  The state of the cache after the operations \<open>trace\<close>, up to position \<open>m\<close>: the two maps agree, and
  from \<open>cc_earliest\<close> on they hold the latest change of every entity.
\<close>

definition cache_ok :: "'d sorted_ops \<Rightarrow> int \<Rightarrow> int \<Rightarrow> cache_op list \<Rightarrow> 'd change_cache \<Rightarrow> bool" where
  "cache_ok ops sz m trace cc \<longleftrightarrow>
     cc_original_max_size cc = sz \<and> 0 \<le> cc_max_size cc \<and> cc_earliest cc \<le> m
     \<and> (\<forall>k es. map_of (sd_items ops (cc_cache cc)) k = Some es \<longrightarrow>
          es \<noteq> [] \<and> distinct es \<and> (\<forall>e\<in>set es. dget (cc_entity_to_key cc) e = Some k))
     \<and> (\<forall>e k. dget (cc_entity_to_key cc) e = Some k \<longrightarrow>
          cc_earliest cc < k \<and> (\<exists>es. map_of (sd_items ops (cc_cache cc)) k = Some es \<and> e \<in> set es))
     \<and> (\<forall>e q. cc_earliest cc \<le> q \<longrightarrow>
          list_ex (reports e q) trace = (\<exists>k. dget (cc_entity_to_key cc) e = Some k \<and> q < k))
     \<and> (\<forall>e q. list_ex (reports e q) trace \<longrightarrow> q < m)"

definition within_size :: "'d sorted_ops \<Rightarrow> 'd change_cache \<Rightarrow> bool" where
  "within_size ops cc \<longleftrightarrow> int (sd_len ops (cc_cache cc)) \<le> cc_max_size cc"

section \<open>The operations keep the promise\<close>

lemma cache_okD:
  assumes "cache_ok ops sz m trace cc"
  shows "map_of (sd_items ops (cc_cache cc)) k = Some es \<Longrightarrow> es \<noteq> []"
    and "map_of (sd_items ops (cc_cache cc)) k = Some es \<Longrightarrow> distinct es"
    and "map_of (sd_items ops (cc_cache cc)) k = Some es \<Longrightarrow> e \<in> set es \<Longrightarrow> dget (cc_entity_to_key cc) e = Some k"
    and "dget (cc_entity_to_key cc) e = Some k \<Longrightarrow> cc_earliest cc < k"
    and "dget (cc_entity_to_key cc) e = Some k \<Longrightarrow>
      \<exists>es. map_of (sd_items ops (cc_cache cc)) k = Some es \<and> e \<in> set es"
    and "cc_earliest cc \<le> q \<Longrightarrow>
      list_ex (reports e q) trace = (\<exists>k. dget (cc_entity_to_key cc) e = Some k \<and> q < k)"
    and "list_ex (reports e q) trace \<Longrightarrow> q < m"
    and "0 \<le> cc_max_size cc" "cc_earliest cc \<le> m" "cc_original_max_size cc = sz"
  using assms unfolding cache_ok_def by blast+

text \<open>The maps agree on every entity but one, which the sorted dictionary does not have.\<close>

definition others_ok :: "'d sorted_ops \<Rightarrow> string \<Rightarrow> 'd change_cache \<Rightarrow> bool" where
  "others_ok ops entity cc \<longleftrightarrow>
     (\<forall>k es. map_of (sd_items ops (cc_cache cc)) k = Some es \<longrightarrow>
        es \<noteq> [] \<and> distinct es \<and> (\<forall>e\<in>set es. e \<noteq> entity \<and> dget (cc_entity_to_key cc) e = Some k))
     \<and> (\<forall>e k. e \<noteq> entity \<longrightarrow> dget (cc_entity_to_key cc) e = Some k \<longrightarrow>
          cc_earliest cc < k \<and> (\<exists>es. map_of (sd_items ops (cc_cache cc)) k = Some es \<and> e \<in> set es))"

lemma others_okD:
  assumes "others_ok ops entity cc"
  shows "map_of (sd_items ops (cc_cache cc)) k = Some es \<Longrightarrow> es \<noteq> []"
    and "map_of (sd_items ops (cc_cache cc)) k = Some es \<Longrightarrow> distinct es"
    and "map_of (sd_items ops (cc_cache cc)) k = Some es \<Longrightarrow> e \<in> set es \<Longrightarrow>
      e \<noteq> entity \<and> dget (cc_entity_to_key cc) e = Some k"
    and "dget (cc_entity_to_key cc) e = Some k \<Longrightarrow> e \<noteq> entity \<Longrightarrow>
      cc_earliest cc < k \<and> (\<exists>es. map_of (sd_items ops (cc_cache cc)) k = Some es \<and> e \<in> set es)"
  using assms unfolding others_ok_def by blast+

lemma dget_drop_keys:
  "dget (filter (\<lambda>(entity, _). entity \<notin> X) d) e = (if e \<in> X then None else dget d e)"
  using dget_filter_key [of "\<lambda>e. e \<notin> X" d e] by simp

context sorted_dict
begin

lemma pop_smallest:
  assumes ok: "cache_ok ops sz m trace cc" and items: "sd_items ops (cc_cache cc) = (k, r) # rest"
    and d': "sd_items ops d' = rest"
  shows "cache_ok ops sz m trace (cc\<lparr>cc_cache := d', cc_earliest := max k (cc_earliest cc),
     cc_entity_to_key := filter (\<lambda>(entity, _). entity \<notin> set r) (cc_entity_to_key cc)\<rparr>)"
proof -
  have sorted: "\<forall>k'\<in>fst ` set rest. k < k'"
    using items_sorted [of "cc_cache cc"] by (auto simp: items)
  have here: "map_of (sd_items ops (cc_cache cc)) k = Some r"
    by (simp add: items)
  obtain e0 where e0: "e0 \<in> set r"
    using cache_okD(1) [OF ok here] by (cases r) auto
  have max: "max k (cc_earliest cc) = k"
    using cache_okD(4) [OF ok cache_okD(3) [OF ok here e0]] by simp
  have km: "k \<le> m"
  proof -
    have "list_ex (reports e0 (k - 1)) trace"
      using cache_okD(6) [OF ok, of "k - 1" e0] cache_okD(3) [OF ok here e0]
        cache_okD(4) [OF ok cache_okD(3) [OF ok here e0]] by simp
    from cache_okD(7) [OF ok this] show ?thesis by simp
  qed
  have later: "map_of rest k' = Some es \<longleftrightarrow> k' \<noteq> k \<and> map_of (sd_items ops (cc_cache cc)) k' = Some es" for k' es
    using sorted by (fastforce simp: items dest: map_of_SomeD)
  have gone: "dget (cc_entity_to_key cc) e = Some k' \<Longrightarrow> e \<in> set r \<longleftrightarrow> k' = k" for e k'
    using cache_okD(3) [OF ok here] cache_okD(5) [OF ok] here by force
  define cc1 where "cc1 = cc\<lparr>cc_cache := d', cc_earliest := max k (cc_earliest cc),
     cc_entity_to_key := filter (\<lambda>(entity, _). entity \<notin> set r) (cc_entity_to_key cc)\<rparr>"
  have sel: "cc_cache cc1 = d'" "cc_earliest cc1 = k" "cc_max_size cc1 = cc_max_size cc"
    "cc_original_max_size cc1 = cc_original_max_size cc"
    "dget (cc_entity_to_key cc1) e = (if e \<in> set r then None else dget (cc_entity_to_key cc) e)" for e
    by (simp_all add: cc1_def max dget_drop_keys)
  show ?thesis
    unfolding cc1_def [symmetric] cache_ok_def sel d'
  proof (intro conjI allI impI)
    show "cc_original_max_size cc = sz" "0 \<le> cc_max_size cc" "k \<le> m"
      using cache_okD [OF ok] km by auto
    fix k' es
    assume "map_of rest k' = Some es"
    then have *: "k' \<noteq> k" "map_of (sd_items ops (cc_cache cc)) k' = Some es"
      using later by blast+
    show "es \<noteq> []" "distinct es"
      using cache_okD [OF ok] * by blast+
    show "\<forall>e\<in>set es. (if e \<in> set r then None else dget (cc_entity_to_key cc) e) = Some k'"
      using cache_okD(3) [OF ok *(2)] gone *(1) by auto
  next
    fix e k'
    assume "(if e \<in> set r then None else dget (cc_entity_to_key cc) e) = Some k'"
    then have *: "e \<notin> set r" "dget (cc_entity_to_key cc) e = Some k'"
      by (auto split: if_splits)
    then obtain es where es: "map_of (sd_items ops (cc_cache cc)) k' = Some es" "e \<in> set es"
      using cache_okD(5) [OF ok] by blast
    moreover have "k' \<noteq> k"
      using gone * by blast
    ultimately have "map_of rest k' = Some es"
      using later by blast
    then show "k < k'" "\<exists>es. map_of rest k' = Some es \<and> e \<in> set es"
      using sorted es by (force dest: map_of_SomeD)+
  next
    fix e q
    assume "k \<le> q"
    moreover have "cc_earliest cc \<le> k"
      using max by simp
    ultimately show "list_ex (reports e q) trace =
        (\<exists>k. (if e \<in> set r then None else dget (cc_entity_to_key cc) e) = Some k \<and> q < k)"
      using cache_okD(6) [OF ok, of q e] gone [of e] by (cases "dget (cc_entity_to_key cc) e") auto
  next
    fix e q
    assume "list_ex (reports e q) trace"
    then show "q < m"
      by (rule cache_okD(7) [OF ok])
  qed
qed

lemma evict_loop_ok:
  assumes "cache_ok ops sz m trace cc" "sd_len ops (cc_cache cc) < n"
  shows "\<exists>cc'. evict_loop ops n cc = Inr cc' \<and> cache_ok ops sz m trace cc' \<and> within_size ops cc'"
  using assms
proof (induction n arbitrary: cc)
  case (Suc n)
  show ?case
  proof (cases "int (sd_len ops (cc_cache cc)) > cc_max_size cc")
    case True
    then have "sd_items ops (cc_cache cc) \<noteq> []"
      using cache_okD(8) [OF Suc.prems(1)] by (auto simp: len_items)
    then obtain k r rest where items: "sd_items ops (cc_cache cc) = (k, r) # rest"
      by (cases "sd_items ops (cc_cache cc)") auto
    obtain d' where d': "sd_popitem0 ops (cc_cache cc) = Inr ((k, r), d')" "sd_items ops d' = rest"
      using pop_items [OF items] by blast
    have "sd_len ops d' < n"
      using Suc.prems(2) by (simp add: len_items items d')
    with Suc.IH [OF pop_smallest [OF Suc.prems(1) items d'(2)]] show ?thesis
      using True by (simp add: d'(1))
  qed (use Suc.prems in \<open>simp add: within_size_def\<close>)
qed simp

lemma evict_ok:
  "cache_ok ops sz m trace cc \<Longrightarrow>
     \<exists>cc'. evict ops cc = Inr cc' \<and> cache_ok ops sz m trace cc' \<and> within_size ops cc'"
  unfolding evict_def by (rule evict_loop_ok) simp_all

lemma forget_ok:
  assumes ok: "cache_ok ops sz m trace cc" and old: "dget (cc_entity_to_key cc) entity = Some old"
  shows "\<exists>cache. forget_position ops entity old (cc_cache cc) = Inr cache
    \<and> others_ok ops entity (cc\<lparr>cc_cache := cache\<rparr>)"
proof -
  obtain es where es: "map_of (sd_items ops (cc_cache cc)) old = Some es" "entity \<in> set es"
    using cache_okD(5) [OF ok old] by blast
  define rest where "rest = remove1 entity es"
  define cache where "cache = (if rest = [] then sd_del ops old (cc_cache cc) else sd_set ops old rest (cc_cache cc))"
  have run: "forget_position ops entity old (cc_cache cc) = Inr cache"
    using es by (simp add: forget_position_def get_items cache_def rest_def Let_def)
  have maps: "map_of (sd_items ops cache) =
      (map_of (sd_items ops (cc_cache cc)))(old := if rest = [] then None else Some rest)"
    by (simp add: cache_def set_items del_items)
  have dist: "distinct es"
    by (rule cache_okD(2) [OF ok es(1)])
  have sel: "cc_cache (cc\<lparr>cc_cache := cache\<rparr>) = cache" "cc_earliest (cc\<lparr>cc_cache := cache\<rparr>) = cc_earliest cc"
    "cc_entity_to_key (cc\<lparr>cc_cache := cache\<rparr>) = cc_entity_to_key cc"
    by simp_all
  have "others_ok ops entity (cc\<lparr>cc_cache := cache\<rparr>)"
    unfolding others_ok_def sel maps
  proof (intro conjI allI impI)
    fix k es'
    assume a: "((map_of (sd_items ops (cc_cache cc)))(old := if rest = [] then None else Some rest)) k = Some es'"
    show "es' \<noteq> []" "distinct es'"
      using a cache_okD(1,2) [OF ok] dist by (auto simp: rest_def split: if_splits)
    show "\<forall>e\<in>set es'. e \<noteq> entity \<and> dget (cc_entity_to_key cc) e = Some k"
    proof (cases "k = old")
      case True
      then show ?thesis
        using a cache_okD(3) [OF ok es(1)] dist by (auto simp: rest_def split: if_splits)
    next
      case False
      then have *: "map_of (sd_items ops (cc_cache cc)) k = Some es'"
        using a by simp
      then show ?thesis
        using cache_okD(3) [OF ok *] old False by auto
    qed
  next
    fix e k
    assume a: "e \<noteq> entity" "dget (cc_entity_to_key cc) e = Some k"
    show "cc_earliest cc < k"
      using cache_okD(4) [OF ok a(2)] .
    obtain es' where es': "map_of (sd_items ops (cc_cache cc)) k = Some es'" "e \<in> set es'"
      using cache_okD(5) [OF ok a(2)] by blast
    then show "\<exists>es. ((map_of (sd_items ops (cc_cache cc)))(old := if rest = [] then None else Some rest)) k = Some es
        \<and> e \<in> set es"
    proof (cases "k = old")
      case True
      then have "e \<in> set rest"
        using es' es a(1) by (simp add: rest_def)
      then show ?thesis
        using True by (intro exI [of _ rest]) auto
    qed (use es' in auto)
  qed
  then show ?thesis
    using run by blast
qed

lemma enter_ok:
  assumes ok: "cache_ok ops sz m trace cc" and others: "others_ok ops entity (cc\<lparr>cc_cache := cache\<rparr>)"
    and pos: "cc_earliest cc < pos" and old: "\<forall>k. dget (cc_entity_to_key cc) entity = Some k \<longrightarrow> k < pos"
  shows "\<exists>cc'. enter_position ops entity pos (cc\<lparr>cc_cache := cache\<rparr>) = Inr cc'
    \<and> cache_ok ops sz (max m pos) (trace @ [Changed entity pos]) cc' \<and> within_size ops cc'"
proof -
  define e1 where "e1 = (case sd_get ops cache pos of None \<Rightarrow> [] | Some e \<Rightarrow> e)"
  define cc1 where "cc1 = cc\<lparr>cc_cache := sd_set ops pos (set_add entity e1) cache,
    cc_entity_to_key := dset entity pos (cc_entity_to_key cc)\<rparr>"
  note oth = others_okD [OF others, simplified]
  have e1: "distinct e1" "\<forall>e\<in>set e1. e \<noteq> entity \<and> dget (cc_entity_to_key cc) e = Some pos"
    by (cases "map_of (sd_items ops cache) pos"; simp add: e1_def get_items oth(2,3))+
  have sel: "map_of (sd_items ops (cc_cache cc1)) = (map_of (sd_items ops cache))(pos \<mapsto> set_add entity e1)"
    "dget (cc_entity_to_key cc1) = (dget (cc_entity_to_key cc))(entity \<mapsto> pos)"
    "cc_earliest cc1 = cc_earliest cc" "cc_max_size cc1 = cc_max_size cc"
    "cc_original_max_size cc1 = cc_original_max_size cc"
    by (simp_all add: cc1_def set_items)
  have "cache_ok ops sz (max m pos) (trace @ [Changed entity pos]) cc1"
    unfolding cache_ok_def sel list_ex_append
  proof (intro conjI allI impI)
    show "cc_original_max_size cc = sz" "0 \<le> cc_max_size cc" "cc_earliest cc \<le> max m pos"
      using cache_okD [OF ok] by auto
    fix k es
    assume a: "((map_of (sd_items ops cache))(pos \<mapsto> set_add entity e1)) k = Some es"
    show "es \<noteq> []" "distinct es"
      using a oth(1,2) e1(1) by (auto simp: set_add_def split: if_splits)
    show "\<forall>e\<in>set es. ((dget (cc_entity_to_key cc))(entity \<mapsto> pos)) e = Some k"
      using a oth(3) e1(2) by (auto split: if_splits)
  next
    fix e k
    assume a: "((dget (cc_entity_to_key cc))(entity \<mapsto> pos)) e = Some k"
    show "cc_earliest cc < k"
      using a pos oth(4) by (auto split: if_splits)
    show "\<exists>es. ((map_of (sd_items ops cache))(pos \<mapsto> set_add entity e1)) k = Some es \<and> e \<in> set es"
    proof (cases "e = entity")
      case False
      then obtain es where "map_of (sd_items ops cache) k = Some es" "e \<in> set es"
        using a oth(4) by auto
      then show ?thesis
        by (cases "k = pos") (auto simp: e1_def get_items)
    qed (use a in auto)
  next
    fix e q
    assume q: "cc_earliest cc \<le> q"
    show "(list_ex (reports e q) trace \<or> list_ex (reports e q) [Changed entity pos]) =
        (\<exists>k. ((dget (cc_entity_to_key cc))(entity \<mapsto> pos)) e = Some k \<and> q < k)"
      using cache_okD(6) [OF ok q, of e] old by (auto intro: less_trans)
  next
    fix e q
    assume "list_ex (reports e q) trace \<or> list_ex (reports e q) [Changed entity pos]"
    then show "q < max m pos"
      using cache_okD(7) [OF ok, of e q] by auto
  qed
  from evict_ok [OF this] show ?thesis
    by (simp add: enter_position_def cc1_def e1_def)
qed

lemma entity_has_changed_ok:
  assumes ok: "cache_ok ops sz m trace cc" "within_size ops cc"
  shows "\<exists>cc'. entity_has_changed ops entity pos cc = Inr cc'
    \<and> cache_ok ops sz (max m pos) (trace @ [Changed entity pos]) cc' \<and> within_size ops cc'"
proof -
  have keep: "cache_ok ops sz (max m pos) (trace @ [Changed entity pos]) cc"
    if no: "\<forall>q\<ge>cc_earliest cc. q < pos \<longrightarrow> list_ex (reports entity q) trace"
    using ok(1) no unfolding cache_ok_def list_ex_append by (auto simp: less_max_iff_disj)
  show ?thesis
  proof (cases "pos \<le> cc_earliest cc")
    case True
    with keep ok(2) show ?thesis
      by (auto simp: entity_has_changed_def)
  next
    case new: False
    show ?thesis
    proof (cases "dget (cc_entity_to_key cc) entity")
      case None
      have "others_ok ops entity (cc\<lparr>cc_cache := cc_cache cc\<rparr>)"
        unfolding others_ok_def using cache_okD(1,2,3,4,5) [OF ok(1)] None by fastforce
      from enter_ok [OF ok(1) this] show ?thesis
        using new None by (simp add: entity_has_changed_def)
    next
      case (Some old)
      show ?thesis
      proof (cases "old \<ge> pos")
        case True
        have "\<forall>q\<ge>cc_earliest cc. q < pos \<longrightarrow> list_ex (reports entity q) trace"
          using cache_okD(6) [OF ok(1)] Some True by fastforce
        with keep ok(2) show ?thesis
          using new Some True by (auto simp: entity_has_changed_def)
      next
        case False
        obtain cache where "forget_position ops entity old (cc_cache cc) = Inr cache"
          "others_ok ops entity (cc\<lparr>cc_cache := cache\<rparr>)"
          using forget_ok [OF ok(1) Some] by blast
        with enter_ok [OF ok(1)] show ?thesis
          using new Some False by (simp add: entity_has_changed_def)
      qed
    qed
  qed
qed

lemma all_changed_ok:
  assumes ok: "cache_ok ops sz m trace cc" and pos: "m \<le> pos"
  shows "cache_ok ops sz pos (trace @ [All_changed pos]) (all_entities_changed ops pos cc)
    \<and> within_size ops (all_entities_changed ops pos cc)"
proof
  define cc1 where "cc1 = all_entities_changed ops pos cc"
  have sel: "sd_items ops (cc_cache cc1) = []" "cc_entity_to_key cc1 = []" "cc_earliest cc1 = pos"
    "cc_max_size cc1 = cc_max_size cc" "cc_original_max_size cc1 = cc_original_max_size cc"
    by (simp_all add: cc1_def all_entities_changed_def items_empty)
  have past: "list_ex (reports e q) trace \<Longrightarrow> q < pos" for e q
    using cache_okD(7) [OF ok] pos by (meson less_le_trans)
  show "cache_ok ops sz pos (trace @ [All_changed pos]) cc1"
    unfolding cache_ok_def sel list_ex_append
    using cache_okD(8,10) [OF ok] past by (auto simp: not_less [symmetric])
  show "within_size ops cc1"
    using cache_okD(8) [OF ok] by (simp add: within_size_def len_items sel)
qed

lemma resize_ok:
  assumes ok: "cache_ok ops sz m trace cc" "within_size ops cc" and size: "resized sz f = Inr n" "0 \<le> n"
  shows "\<exists>b cc'. set_cache_factor ops f cc = Inr (b, cc') \<and> cache_ok ops sz m (trace @ [Resize f]) cc'
    \<and> within_size ops cc'"
proof -
  have same: "list_ex (reports e q) (trace @ [Resize f]) = list_ex (reports e q) trace" for e q
    by simp
  have "cache_ok ops sz m (trace @ [Resize f]) (cc\<lparr>cc_max_size := n\<rparr>)" "cache_ok ops sz m (trace @ [Resize f]) cc"
    using ok(1) size(2) unfolding cache_ok_def same by simp_all
  with evict_ok [OF this(1)] ok(2) size(1) cache_okD(10) [OF ok(1)] show ?thesis
    by (auto simp: set_cache_factor_def)
qed

lemma run_ok:
  assumes "cache_ok ops sz m done cc" "within_size ops cc" "in_order sz m trace"
  shows "\<exists>cc' m'. foldE (apply_op ops) trace cc = Inr cc' \<and> cache_ok ops sz m' (done @ trace) cc'
    \<and> within_size ops cc'"
  using assms
proof (induction trace arbitrary: m "done" cc)
  case (Cons op trace)
  obtain cc1 m1 where "apply_op ops op cc = Inr cc1" "cache_ok ops sz m1 (done @ [op]) cc1"
    "within_size ops cc1" "in_order sz m1 trace"
  proof (cases op)
    case (Changed e p)
    then show ?thesis
      using that entity_has_changed_ok [OF Cons.prems(1,2), of e p] Cons.prems(3) by (auto simp: apply_op_def)
  next
    case (All_changed p)
    then show ?thesis
      using that all_changed_ok [OF Cons.prems(1), of p] Cons.prems(3) by (auto simp: apply_op_def)
  next
    case (Resize f)
    then obtain n where "resized sz f = Inr n" "0 \<le> n" "in_order sz m trace"
      using Cons.prems(3) by (auto split: sum.splits)
    then show ?thesis
      using that resize_ok [OF Cons.prems(1,2), of f n] Resize by (auto simp: apply_op_def)
  qed
  with Cons.IH [of m1 "done @ [op]" cc1] show ?case
    by simp
qed auto

lemma start_ok:
  "0 \<le> sz \<Longrightarrow> cache_ok ops sz pos [] (empty_change_cache ops pos sz) \<and> within_size ops (empty_change_cache ops pos sz)"
  by (simp add: cache_ok_def within_size_def empty_change_cache_def items_empty len_items)

lemma positions_after:
  "map_of (sd_items ops d) k = Some es \<Longrightarrow>
     k \<in> set (sd_islice ops d (sd_bisect_right ops d pos)) \<longleftrightarrow> pos < k"
proof -
  have split: "drop (length (filter (\<lambda>(k', _). k' \<le> pos) items)) (map fst items)
      = filter (\<lambda>k'. pos < k') (map fst items)" if "sorted_wrt (<) (map fst items)"
    for items :: "(int \<times> string list) list"
    using that
  proof (induction items)
    case (Cons i items)
    then show ?case
    proof (cases "fst i \<le> pos")
      case False
      then have "filter (\<lambda>(k', _). k' \<le> pos) items = []" "filter (\<lambda>k'. pos < k') (map fst items) = map fst items"
        using Cons.prems by (fastforce simp: filter_empty_conv intro!: filter_True)+
      then show ?thesis
        using False by (cases i) simp
    qed (cases i; simp)
  qed simp
  assume "map_of (sd_items ops d) k = Some es"
  then have "k \<in> fst ` set (sd_items ops d)"
    by (force dest: map_of_SomeD)
  then show ?thesis
    by (auto simp: islice_items bisect_items split [OF items_sorted])
qed

text \<open>The queries, on the state after a trace.\<close>

lemma has_entity_changed_iff:
  assumes ok: "cache_ok ops sz m trace cc"
  shows "has_entity_changed e q cc \<longleftrightarrow> q < cc_earliest cc \<or> list_ex (reports e q) trace"
  using cache_okD(6) [OF ok, of q e]
  by (cases "dget (cc_entity_to_key cc) e") (auto simp: has_entity_changed_def)

lemma in_option_list: "e \<in> set (case x of None \<Rightarrow> [] | Some es \<Rightarrow> es) \<longleftrightarrow> (\<exists>es. x = Some es \<and> e \<in> set es)"
  by (cases x) auto

lemma get_all_entities_changed_iff:
  assumes ok: "cache_ok ops sz m trace cc" and q: "cc_earliest cc \<le> q"
  shows "\<exists>es. get_all_entities_changed ops q cc = Some es \<and> set es = {e. list_ex (reports e q) trace}"
proof -
  let ?ks = "sd_islice ops (cc_cache cc) (sd_bisect_right ops (cc_cache cc) q)"
  have "(\<exists>k\<in>set ?ks. \<exists>es. map_of (sd_items ops (cc_cache cc)) k = Some es \<and> e \<in> set es)
      \<longleftrightarrow> (\<exists>k. dget (cc_entity_to_key cc) e = Some k \<and> q < k)" for e
    using cache_okD(3,5) [OF ok] positions_after [of "cc_cache cc"] by blast
  moreover have "set (concat (map (\<lambda>k. case sd_get ops (cc_cache cc) k of None \<Rightarrow> [] | Some e \<Rightarrow> e) ?ks))
      = {e. \<exists>k\<in>set ?ks. \<exists>es. map_of (sd_items ops (cc_cache cc)) k = Some es \<and> e \<in> set es}"
    by (simp add: get_items set_eq_iff) (metis (no_types))
  ultimately show ?thesis
    using q cache_okD(6) [OF ok q] by (simp add: get_all_entities_changed_def)
qed

lemma last_position:
  assumes ok: "cache_ok ops sz m trace cc" and some: "sd_len ops (cc_cache cc) \<noteq> 0"
  obtains k es e where "sd_peekitem ops (cc_cache cc) = Inr (k, es)"
    "dget (cc_entity_to_key cc) e = Some k" "\<And>e' k'. dget (cc_entity_to_key cc) e' = Some k' \<Longrightarrow> k' \<le> k"
proof -
  let ?items = "sd_items ops (cc_cache cc)"
  have ne: "?items \<noteq> []"
    using some by (simp add: len_items)
  obtain k es where last: "last ?items = (k, es)"
    by fastforce
  obtain front where split: "?items = front @ [(k, es)]"
    using append_butlast_last_id [OF ne] last by metis
  have top: "k' \<le> k" if "(k', es') \<in> set ?items" for k' es'
    using that items_sorted [of "cc_cache cc"] by (fastforce simp: split sorted_wrt_append)
  have "map_of ?items k = Some es"
    using items_sorted [of "cc_cache cc"] ne last last_in_set [OF ne]
    by (intro map_of_is_SomeI) (simp_all add: strict_sorted_iff)
  moreover obtain e where "e \<in> set es"
    using cache_okD(1) [OF ok calculation] by (cases es) auto
  ultimately have "dget (cc_entity_to_key cc) e = Some k"
    using cache_okD(3) [OF ok] by blast
  moreover have "k' \<le> k" if "dget (cc_entity_to_key cc) e' = Some k'" for e' k'
    using cache_okD(5) [OF ok that] top by (blast dest: map_of_SomeD)
  ultimately show ?thesis
    using that peek_items [OF ne] last by simp
qed

lemma no_position:
  "cache_ok ops sz m trace cc \<Longrightarrow> sd_len ops (cc_cache cc) = 0 \<Longrightarrow> dget (cc_entity_to_key cc) e = None"
  using cache_okD(5) [of ops sz m trace cc e] by (cases "dget (cc_entity_to_key cc) e") (auto simp: len_items)

lemma has_any_entity_changed_iff:
  assumes ok: "cache_ok ops sz m trace cc"
  shows "has_any_entity_changed ops q cc = Inr (q < cc_earliest cc \<or> (\<exists>e. list_ex (reports e q) trace))"
proof (cases "q < cc_earliest cc \<or> sd_len ops (cc_cache cc) = 0")
  case True
  then show ?thesis
    using cache_okD(6) [OF ok, of q] no_position [OF ok] by (auto simp: has_any_entity_changed_def not_less)
next
  case False
  then obtain k es e where "sd_peekitem ops (cc_cache cc) = Inr (k, es)"
    "dget (cc_entity_to_key cc) e = Some k" "\<And>e' k'. dget (cc_entity_to_key cc) e' = Some k' \<Longrightarrow> k' \<le> k"
    using last_position [OF ok] by blast
  then have "has_any_entity_changed ops q cc = Inr (q < k)" "(\<exists>e. list_ex (reports e q) trace) = (q < k)"
    using False cache_okD(6) [OF ok, of q] by (auto simp: has_any_entity_changed_def intro: less_le_trans)
  then show ?thesis
    using False by simp
qed

lemma get_entities_changed_covers:
  assumes ok: "cache_ok ops sz m trace cc"
  shows "\<exists>X. get_entities_changed ops es q pf cc = Inr X \<and> X \<subseteq> set es
    \<and> {e \<in> set es. has_entity_changed e q cc} \<subseteq> X
    \<and> (0 \<le> q \<and> sd_len ops (cc_cache cc) \<noteq> 0 \<longrightarrow> X = {e \<in> set es. has_entity_changed e q cc})"
proof (cases "sd_len ops (cc_cache cc) = 0 \<or> q < cc_earliest cc")
  case True
  then show ?thesis
    by (auto simp: get_entities_changed_def has_entity_changed_def)
next
  case False
  then have q: "cc_earliest cc \<le> q"
    by simp
  have "sd_len ops (cc_cache cc) \<noteq> 0"
    using False by simp
  from last_position [OF ok this] obtain k es' where peek: "sd_peekitem ops (cc_cache cc) = Inr (k, es')"
    by metis
  obtain all where all: "get_all_entities_changed ops q cc = Some all" "set all = {e. list_ex (reports e q) trace}"
    using get_all_entities_changed_iff [OF ok q] by blast
  have each: "has_entity_changed e q cc \<longleftrightarrow> (\<exists>k. dget (cc_entity_to_key cc) e = Some k \<and> q < k)" for e
    using q by (cases "dget (cc_entity_to_key cc) e") (simp_all add: has_entity_changed_def)
  have known: "(case dget (cc_entity_to_key cc) e of None \<Rightarrow> - 1 | Some k \<Rightarrow> k) > q \<longleftrightarrow>
      has_entity_changed e q cc \<or> dget (cc_entity_to_key cc) e = None \<and> q < - 1" for e
    unfolding each by (cases "dget (cc_entity_to_key cc) e") auto
  have changed: "set all = {e. has_entity_changed e q cc}"
    using all(2) has_entity_changed_iff [OF ok, of _ q] q by auto
  show ?thesis
  proof (cases "k - q > pf * int (length es)")
    case True
    then have "get_entities_changed ops es q pf cc = Inr (set (filter (\<lambda>e.
        has_entity_changed e q cc \<or> dget (cc_entity_to_key cc) e = None \<and> q < - 1) es))"
      using False peek by (simp add: get_entities_changed_def known del: set_filter)
    then show ?thesis
      by (intro exI conjI) (assumption, auto)
  next
    case near: False
    then show ?thesis
      using False peek all(1) changed by (auto simp: get_entities_changed_def)
  qed
qed

end

section \<open>Red-black trees as sorted dictionaries\<close>

definition rbt_pop :: "(int, string list) RBT.rbt \<Rightarrow> ((int \<times> string list) \<times> (int, string list) RBT.rbt) res" where
  "rbt_pop d = (case RBT.entries d of [] \<Rightarrow> Inl KeyError | i # _ \<Rightarrow> Inr (i, RBT.delete (fst i) d))"

definition rbt_ops :: "(int, string list) RBT.rbt sorted_ops" where
  "rbt_ops = \<lparr>sd_items = RBT.entries, sd_empty = RBT.empty, sd_get = RBT.lookup, sd_set = RBT.insert,
     sd_del = RBT.delete, sd_len = (\<lambda>d. length (RBT.entries d)), sd_popitem0 = rbt_pop,
     sd_peekitem = (\<lambda>d. case rev (RBT.entries d) of [] \<Rightarrow> Inl IndexError | i # _ \<Rightarrow> Inr i),
     sd_bisect_right = (\<lambda>d k. length (filter (\<lambda>(k', _). k' \<le> k) (RBT.entries d))),
     sd_islice = (\<lambda>d n. drop n (map fst (RBT.entries d)))\<rparr>"

lemma sorted_items_unique:
  fixes xs ys :: "(int \<times> 'a) list"
  assumes "sorted_wrt (<) (map fst xs)" "sorted_wrt (<) (map fst ys)" "map_of xs = map_of ys"
  shows "xs = ys"
proof -
  have "(k, v) \<in> set xs \<longleftrightarrow> (k, v) \<in> set ys" for k v
    using assms map_of_eq_Some_iff [of xs k v] map_of_eq_Some_iff [of ys k v] by (simp add: strict_sorted_iff)
  then have "set xs = set ys"
    by auto
  then show ?thesis
    using assms by (intro map_sorted_distinct_set_unique [of fst])
      (auto simp: strict_sorted_iff inj_on_def dest: map_of_is_SomeI)
qed

interpretation rbt_dict: sorted_dict rbt_ops
proof
  fix d :: "(int, string list) RBT.rbt" and k n v i rest
  show sorted: "sorted_wrt (<) (map fst (sd_items rbt_ops d))" for d
    by (simp add: rbt_ops_def strict_sorted_iff RBT.sorted_entries RBT.distinct_entries)
  show "sd_items rbt_ops (sd_empty rbt_ops) = []"
    by (simp add: rbt_ops_def RBT.entries.rep_eq RBT.empty.rep_eq)
  show "sd_get rbt_ops d k = map_of (sd_items rbt_ops d) k"
    "map_of (sd_items rbt_ops (sd_set rbt_ops k v d)) = (map_of (sd_items rbt_ops d))(k \<mapsto> v)"
    "map_of (sd_items rbt_ops (sd_del rbt_ops k d)) = (map_of (sd_items rbt_ops d))(k := None)"
    by (simp_all add: rbt_ops_def RBT.map_of_entries)
  show "sd_len rbt_ops d = length (sd_items rbt_ops d)"
    "sd_bisect_right rbt_ops d k = length (filter (\<lambda>(k', _). k' \<le> k) (sd_items rbt_ops d))"
    "sd_islice rbt_ops d n = drop n (map fst (sd_items rbt_ops d))"
    by (simp_all add: rbt_ops_def)
  show "sd_items rbt_ops d \<noteq> [] \<Longrightarrow> sd_peekitem rbt_ops d = Inr (last (sd_items rbt_ops d))"
    by (cases "RBT.entries d" rule: rev_cases) (simp_all add: rbt_ops_def)
  assume items: "sd_items rbt_ops d = i # rest"
  then have lookup: "RBT.lookup d = map_of (i # rest)"
    using RBT.map_of_entries [of d] by (simp add: rbt_ops_def del: RBT.map_of_entries)
  have "sd_items rbt_ops (RBT.delete (fst i) d) = rest"
  proof (rule sorted_items_unique [OF sorted])
    show "sorted_wrt (<) (map fst rest)"
      using sorted [of d] by (simp add: items)
    have "map_of rest (fst i) = None"
      using sorted [of d] by (auto simp: items map_of_eq_None_iff)
    then show "map_of (sd_items rbt_ops (RBT.delete (fst i) d)) = map_of rest"
      using lookup by (cases i) (auto simp: rbt_ops_def fun_eq_iff)
  qed
  then show "\<exists>d'. sd_popitem0 rbt_ops d = Inr (i, d') \<and> sd_items rbt_ops d' = rest"
    using items by (auto simp: rbt_ops_def rbt_pop_def)
qed

section \<open>No change is missed\<close>

text \<open>The constructor as a sequence of operations.\<close>

definition boot_trace :: "pyfloat option \<Rightarrow> (string, int) pydict \<Rightarrow> cache_op list" where
  "boot_trace factor prefilled =
     (case factor of None \<Rightarrow> [] | Some f \<Rightarrow> [Resize f]) @ map (\<lambda>(e, p). Changed e p) prefilled"

lemma prefill_as_trace:
  "foldE (\<lambda>(e, p). entity_has_changed ops e p) pre cc = foldE (apply_op ops) (map (\<lambda>(e, p). Changed e p) pre) cc"
  by (induction pre arbitrary: cc) (auto simp: apply_op_def intro!: bindE_cong)

lemma boot_as_trace:
  "new_change_cache ops factor start max_size prefilled
     = foldE (apply_op ops) (boot_trace factor prefilled) (empty_change_cache ops start max_size)"
proof -
  have fold: "foldE (\<lambda>(e, p). entity_has_changed ops e p) prefilled
      = foldE (apply_op ops) (map (\<lambda>(e, p). Changed e p) prefilled)"
    by (rule ext) (rule prefill_as_trace)
  show ?thesis
    unfolding new_change_cache_def register_cache_def boot_trace_def fold
    by (cases factor) (simp_all add: apply_op_def)
qed

text \<open>
  C14. Take any sequence of changes of single entities, changes of all entities and resizes in which no
  change of all entities goes back before a position that is already known and every size factor is
  finite and gives a size that is not negative (\<open>in_order\<close>); positions of single entities may come in any order. Whatever is
  evicted meanwhile, the cache stays within its size and answers without an exception. No change is
  missed: at the earliest known position and after it the answers are exactly the changes that were
  reported, strictly before it everything counts as changed. The query for some entities returns a
  superset, and for positions from 0 on exactly the changed ones unless the cache is empty.
\<close>

theorem change_cache_misses_nothing:
  assumes "sorted_dict ops" "0 \<le> max_size"
    and "in_order max_size start (boot_trace factor prefilled @ ops_seq)"
  shows "\<exists>cc. bindE (new_change_cache ops factor start max_size prefilled) (foldE (apply_op ops) ops_seq) = Inr cc
    \<and> int (sd_len ops (cc_cache cc)) \<le> cc_max_size cc
    \<and> (\<forall>e q. has_entity_changed e q cc \<longleftrightarrow> q < cc_earliest cc
         \<or> list_ex (reports e q) (boot_trace factor prefilled @ ops_seq))
    \<and> (\<forall>q. case get_all_entities_changed ops q cc of
          None \<Rightarrow> q < cc_earliest cc
        | Some es \<Rightarrow> cc_earliest cc \<le> q \<and> set es = {e. has_entity_changed e q cc})
    \<and> (\<forall>q. has_any_entity_changed ops q cc = Inr (\<exists>e. has_entity_changed e q cc))
    \<and> (\<forall>es q pf. \<exists>X. get_entities_changed ops es q pf cc = Inr X
         \<and> {e \<in> set es. has_entity_changed e q cc} \<subseteq> X \<and> X \<subseteq> set es
         \<and> (0 \<le> q \<and> sd_len ops (cc_cache cc) \<noteq> 0 \<longrightarrow> X = {e \<in> set es. has_entity_changed e q cc}))"
proof -
  note sd = assms(1)
  let ?trace = "boot_trace factor prefilled @ ops_seq"
  have run: "bindE (new_change_cache ops factor start max_size prefilled) (foldE (apply_op ops) ops_seq)
      = foldE (apply_op ops) ?trace (empty_change_cache ops start max_size)"
    by (simp add: boot_as_trace foldE_append)
  obtain cc m where cc: "foldE (apply_op ops) ?trace (empty_change_cache ops start max_size) = Inr cc"
    and ok: "cache_ok ops max_size m ?trace cc" and size: "within_size ops cc"
    using sorted_dict.run_ok [OF sd _ _ assms(3)] sorted_dict.start_ok [OF sd assms(2)] by fastforce
  note changed = sorted_dict.has_entity_changed_iff [OF sd ok]
  have all: "case get_all_entities_changed ops q cc of
        None \<Rightarrow> q < cc_earliest cc
      | Some es \<Rightarrow> cc_earliest cc \<le> q \<and> set es = {e. has_entity_changed e q cc}" for q
    using sorted_dict.get_all_entities_changed_iff [OF sd ok, of q] changed
    by (cases "q < cc_earliest cc") (auto simp: get_all_entities_changed_def)
  show ?thesis
    unfolding run
  proof (intro exI [of _ cc] conjI allI)
    show "has_any_entity_changed ops q cc = Inr (\<exists>e. has_entity_changed e q cc)" for q
      using sorted_dict.has_any_entity_changed_iff [OF sd ok, of q] changed by simp
    show "\<exists>X. get_entities_changed ops es q pf cc = Inr X
        \<and> {e \<in> set es. has_entity_changed e q cc} \<subseteq> X \<and> X \<subseteq> set es
        \<and> (0 \<le> q \<and> sd_len ops (cc_cache cc) \<noteq> 0 \<longrightarrow> X = {e \<in> set es. has_entity_changed e q cc})" for es q pf
      using sorted_dict.get_entities_changed_covers [OF sd ok, of es q pf] by blast
  qed (use cc size changed all in \<open>auto simp: within_size_def\<close>)
qed

lemma change_cache_misses_nothing_witness:
  "\<exists>cc. foldE (apply_op rbt_ops) [Changed ''a'' 6, Changed ''b'' 7, Changed ''a'' 8, Changed ''c'' 9]
      (empty_change_cache rbt_ops 5 2) = Inr cc
    \<and> has_entity_changed ''b'' 6 cc \<and> \<not> has_entity_changed ''a'' 8 cc \<and> cc_earliest cc = 7"
proof -
  have "in_order 2 5 (boot_trace None [] @ [Changed ''a'' 6, Changed ''b'' 7, Changed ''a'' 8, Changed ''c'' 9])"
    by (simp add: boot_trace_def)
  from change_cache_misses_nothing [OF rbt_dict.sorted_dict_axioms _ this]
  obtain cc where cc: "foldE (apply_op rbt_ops) [Changed ''a'' 6, Changed ''b'' 7, Changed ''a'' 8, Changed ''c'' 9]
      (empty_change_cache rbt_ops 5 2) = Inr cc"
    and changed: "\<And>e q. has_entity_changed e q cc \<longleftrightarrow> q < cc_earliest cc
      \<or> list_ex (reports e q) [Changed ''a'' 6, Changed ''b'' 7, Changed ''a'' 8, Changed ''c'' 9]"
    by (auto simp: boot_as_trace boot_trace_def)
  have "case foldE (apply_op rbt_ops) [Changed ''a'' 6, Changed ''b'' 7, Changed ''a'' 8, Changed ''c'' 9]
      (empty_change_cache rbt_ops 5 2) of Inr cc \<Rightarrow> cc_earliest cc = 7 | Inl _ \<Rightarrow> False"
    by code_simp
  then have "cc_earliest cc = 7"
    unfolding cc by simp
  then show ?thesis
    using cc by (intro exI [of _ cc]) (simp add: changed)
qed

end
