(* ===== verification/Visibility.thy ===== *)
theory Visibility
  imports Event_Utils State_Filter
begin

text \<open>
  \<open>visibility.py\<close>: which events a user or a server may see. The answers of the storage (the state
  at an event, ignored users, erased users, retention policies, the settings of administrators) are
  a record of functions, and the clock is one of its fields. The decision for remote servers itself
  is compiled code outside of this package and a parameter.
\<close>

section \<open>Constants\<close>

definition EventTypes_Dummy :: string where [const_defs]:
  "EventTypes_Dummy = ''org.matrix.dummy_event''"

definition EventTypes_CallInvite :: string where [const_defs]:
  "EventTypes_CallInvite = ''m.call.invite''"

definition HistoryVisibility_INVITED :: string where [const_defs]:
  "HistoryVisibility_INVITED = ''invited''"

definition HistoryVisibility_JOINED :: string where [const_defs]:
  "HistoryVisibility_JOINED = ''joined''"

definition HistoryVisibility_SHARED :: string where [const_defs]:
  "HistoryVisibility_SHARED = ''shared''"

definition HistoryVisibility_WORLD_READABLE :: string where [const_defs]:
  "HistoryVisibility_WORLD_READABLE = ''world_readable''"

definition UnsignedFields_MEMBERSHIP :: string where
  "UnsignedFields_MEMBERSHIP = ''membership''"

definition VISIBILITY_PRIORITY :: "string list" where
  "VISIBILITY_PRIORITY = [HistoryVisibility_WORLD_READABLE, HistoryVisibility_SHARED,
     HistoryVisibility_INVITED, HistoryVisibility_JOINED]"

definition MEMBERSHIP_PRIORITY :: "string list" where
  "MEMBERSHIP_PRIORITY = [Membership_JOIN, Membership_INVITE, Membership_KNOCK, Membership_LEAVE,
     Membership_BAN]"

definition HISTORY_VIS_KEY :: "string \<times> string" where
  "HISTORY_VIS_KEY = (EventTypes_RoomHistoryVisibility, [])"

text \<open>\<open>l.index(x)\<close>\<close>

fun py_index :: "'a \<Rightarrow> 'a list \<Rightarrow> nat res" where
  "py_index x [] = Inl ValueError"
| "py_index x (y # ys) = (if x = y then Inr 0 else bindE (py_index x ys) (\<lambda>i. Inr (Suc i)))"

section \<open>Events and storage\<close>

text \<open>An event with its \<open>unsigned\<close> data and the flags of its internal metadata.\<close>

record client_event =
  ce_event :: event
  ce_unsigned :: jdict
  ce_outlier :: bool
  ce_soft_failed :: bool
  ce_spammy :: bool

abbreviation ce_id :: "client_event \<Rightarrow> string" where
  "ce_id ev \<equiv> ev_event_id (ce_event ev)"

record visibility_store =
  vs_state :: "string list \<Rightarrow> state_filter \<Rightarrow> string \<Rightarrow> auth_map option"
  vs_ignored_users :: "string \<Rightarrow> string list"
  vs_ignored_by :: "string \<Rightarrow> string list"
  vs_erased :: "string \<Rightarrow> bool"
  vs_max_lifetime :: "string \<Rightarrow> int option"
  vs_server_admin :: "string \<Rightarrow> bool"
  vs_return_soft_failed :: "string \<Rightarrow> bool"
  vs_return_spammy :: "string \<Rightarrow> bool"
  vs_now :: int

definition prune_client_event :: "client_event \<Rightarrow> client_event res" where
  "prune_client_event ev =
     bindE (prune_event (ce_event ev)) (\<lambda>pruned.
     bindE (bindE (prune_unsigned (JDict (ce_unsigned ev))) (\<lambda>u. optE AttributeError (as_mapping u))) (\<lambda>unsigned.
       Inr (ev\<lparr>ce_event := pruned, ce_unsigned := unsigned\<rparr>)))"

text \<open>The copy does not have the reason of a rejection.\<close>

definition clone_event :: "client_event \<Rightarrow> client_event" where
  "clone_event ev = ev\<lparr>ce_event := (ce_event ev)\<lparr>ev_rejected_reason := None\<rparr>\<rparr>"

section \<open>The checks\<close>

definition get_effective_room_visibility_from_state :: "auth_map \<Rightarrow> string" where
  "get_effective_room_visibility_from_state state =
     (case state HISTORY_VIS_KEY of
        None \<Rightarrow> HistoryVisibility_SHARED
      | Some visibility_event \<Rightarrow>
          (case jget_default (ev_content visibility_event) ''history_visibility'' (JStr HistoryVisibility_SHARED) of
             JStr v \<Rightarrow> if v \<in> set VISIBILITY_PRIORITY then v else HistoryVisibility_SHARED
           | _ \<Rightarrow> HistoryVisibility_SHARED))"

text \<open>An entry of \<open>prev_content\<close>, or the default if it is not one of the given values.\<close>

definition prev_entry :: "client_event \<Rightarrow> string \<Rightarrow> string list \<Rightarrow> string \<Rightarrow> string res" where
  "prev_entry ev key allowed dflt =
     bindE (json_get (jget_default (ce_unsigned ev) ''prev_content'' (JDict [])) key) (\<lambda>found.
       Inr (case found of Some (JStr v) \<Rightarrow> if v \<in> set allowed then v else dflt | _ \<Rightarrow> dflt))"

datatype check_visibility = CV_allowed | CV_maybe_denied

definition check_history_visibility :: "client_event \<Rightarrow> string \<Rightarrow> bool \<Rightarrow> check_visibility res" where
  "check_history_visibility ev visibility0 is_peeking =
     bindE (if ev_type (ce_event ev) = EventTypes_RoomHistoryVisibility
            then bindE (prev_entry ev ''history_visibility'' VISIBILITY_PRIORITY HistoryVisibility_SHARED) (\<lambda>prev_visibility.
                 bindE (py_index visibility0 VISIBILITY_PRIORITY) (\<lambda>new_priority.
                 bindE (py_index prev_visibility VISIBILITY_PRIORITY) (\<lambda>old_priority.
                   Inr (if old_priority < new_priority then prev_visibility else visibility0))))
            else Inr visibility0) (\<lambda>visibility.
       Inr (if visibility = HistoryVisibility_SHARED \<and> \<not> is_peeking then CV_allowed
            else if visibility = HistoryVisibility_WORLD_READABLE then CV_allowed
            else CV_maybe_denied))"

text \<open>\<open>event.type == Member and event.state_key == user_id\<close>\<close>

definition is_own_membership :: "string \<Rightarrow> client_event \<Rightarrow> bool res" where
  "is_own_membership user_id ev =
     (if ev_type (ce_event ev) = EventTypes_Member
      then bindE (event_state_key (ce_event ev)) (\<lambda>s. Inr (s = user_id))
      else Inr False)"

record check_membership_return =
  cm_allowed :: bool
  cm_joined :: bool

text \<open>The most joined of the new and the old membership; \<open>None\<close> for a departure, which is always shown.\<close>

definition own_membership :: "client_event \<Rightarrow> string option res" where
  "own_membership ev =
     (let membership = (case jget (ev_content (ce_event ev)) ''membership'' of
          JStr s \<Rightarrow> if s \<in> set MEMBERSHIP_PRIORITY then s else Membership_LEAVE | _ \<Rightarrow> Membership_LEAVE)
      in
      bindE (prev_entry ev ''membership'' MEMBERSHIP_PRIORITY Membership_LEAVE) (\<lambda>prev_membership.
        if membership = Membership_LEAVE \<and> prev_membership \<in> {Membership_JOIN, Membership_INVITE} then Inr None
        else
          bindE (py_index membership MEMBERSHIP_PRIORITY) (\<lambda>new_priority.
          bindE (py_index prev_membership MEMBERSHIP_PRIORITY) (\<lambda>old_priority.
            Inr (Some (if old_priority < new_priority then prev_membership else membership))))))"

text \<open>What a membership allows; a user without one has \<open>JNull\<close>.\<close>

definition membership_allows :: "json \<Rightarrow> string \<Rightarrow> bool \<Rightarrow> check_membership_return" where
  "membership_allows member visibility is_peeking =
     (if member = JStr Membership_JOIN then \<lparr>cm_allowed = True, cm_joined = True\<rparr>
      else if visibility = HistoryVisibility_JOINED then \<lparr>cm_allowed = False, cm_joined = False\<rparr>
      else if visibility = HistoryVisibility_INVITED
      then \<lparr>cm_allowed = (member = JStr Membership_INVITE), cm_joined = False\<rparr>
      else if visibility = HistoryVisibility_SHARED \<and> is_peeking then \<lparr>cm_allowed = False, cm_joined = False\<rparr>
      else \<lparr>cm_allowed = True, cm_joined = False\<rparr>)"

definition check_membership :: "string \<Rightarrow> client_event \<Rightarrow> string \<Rightarrow> auth_map \<Rightarrow> bool \<Rightarrow> check_membership_return res" where
  "check_membership user_id ev visibility state is_peeking =
     bindE (is_own_membership user_id ev) (\<lambda>own.
       if own
       then bindE (own_membership ev) (\<lambda>found.
         Inr (case found of
             None \<Rightarrow> \<lparr>cm_allowed = True, cm_joined = False\<rparr>
           | Some m \<Rightarrow> membership_allows (JStr m) visibility is_peeking))
       else
         bindE (case state (EventTypes_Member, user_id) of None \<Rightarrow> Inr JNull | Some e \<Rightarrow> membership e) (\<lambda>m.
           Inr (membership_allows m visibility is_peeking)))"

datatype check_filter = CF_maybe_allowed | CF_denied

definition check_filter_send_to_client :: "client_event \<Rightarrow> int \<Rightarrow> int option \<Rightarrow> bool \<Rightarrow> check_filter" where
  "check_filter_send_to_client ev now max_lifetime sender_ignored =
     (let e = ce_event ev in
      if ev_type e = EventTypes_Dummy then CF_denied
      else if \<not> is_state e \<and> sender_ignored then CF_denied
      else if ev_type e = EventTypes_Aliases then CF_denied
      else if \<not> is_state e
           \<and> (case max_lifetime of None \<Rightarrow> False | Some l \<Rightarrow> ev_origin_server_ts e < now - l) then CF_denied
      else CF_maybe_allowed)"

definition MissingState :: exn where
  "MissingState = PyException ''Missing state for non-outlier event''"

definition check_client_allowed_to_see_event :: "string \<Rightarrow> client_event \<Rightarrow> int \<Rightarrow> bool \<Rightarrow> bool \<Rightarrow> string list
    \<Rightarrow> bool \<Rightarrow> int option \<Rightarrow> auth_map option \<Rightarrow> bool \<Rightarrow> client_event option res" where
  "check_client_allowed_to_see_event user_id ev now filter_send_to_client is_peeking always_include_ids
     sender_ignored max_lifetime state sender_erased =
     (if filter_send_to_client
         \<and> check_filter_send_to_client ev now max_lifetime sender_ignored = CF_denied then Inr None
      else if ce_id ev \<in> set always_include_ids then Inr (Some ev)
      else if ce_outlier ev
      then bindE (is_own_membership user_id ev) (\<lambda>own. Inr (if own then Some ev else None))
      else
        (case state of
           None \<Rightarrow> Inl MissingState
         | Some st \<Rightarrow>
             (let visibility = get_effective_room_visibility_from_state st in
              bindE (if sender_erased then Inr CV_maybe_denied
                     else check_history_visibility ev visibility is_peeking) (\<lambda>lax.
                if lax = CV_allowed then Inr (Some ev)
                else
                  bindE (check_membership user_id ev visibility st is_peeking) (\<lambda>result.
                    if \<not> cm_allowed result then Inr None
                    else if sender_erased \<and> \<not> cm_joined result
                    then bindE (prune_client_event ev) (\<lambda>pruned. Inr (Some pruned))
                    else Inr (Some ev))))))"

section \<open>Events for clients\<close>

definition is_call_invite :: "client_event \<Rightarrow> bool" where
  "is_call_invite ev \<longleftrightarrow> ev_type (ce_event ev) = EventTypes_CallInvite \<and> \<not> is_state (ce_event ev)"

definition without_soft_failed :: "visibility_store \<Rightarrow> string \<Rightarrow> bool \<Rightarrow> client_event list \<Rightarrow> client_event list" where
  "without_soft_failed vs user_id filter_send_to_client events =
     (if filter_send_to_client \<and> vs_server_admin vs user_id \<and> vs_return_soft_failed vs user_id then events
      else if filter_send_to_client \<and> vs_server_admin vs user_id \<and> vs_return_spammy vs user_id
      then filter (\<lambda>e. \<not> ce_soft_failed e \<or> ce_spammy e) events
      else filter (\<lambda>e. \<not> ce_soft_failed e) events)"

text \<open>\<open>retention_policies\<close> is only assigned for events that are sent to clients.\<close>

definition NameError :: exn where
  "NameError = PyException ''cannot access free variable retention_policies''"

definition user_membership :: "string \<Rightarrow> client_event \<Rightarrow> auth_map option \<Rightarrow> json res" where
  "user_membership user_id ev state_after_event =
     bindE (is_own_membership user_id ev) (\<lambda>own.
       if own then membership (ce_event ev)
       else (case state_after_event of
           None \<Rightarrow> Inl (PyException ''Missing state for event that is not user's own membership'')
         | Some st \<Rightarrow> (case st (EventTypes_Member, user_id) of
               None \<Rightarrow> Inr (JStr Membership_LEAVE)
             | Some e \<Rightarrow> membership e)))"

definition public_call_invite :: "client_event \<Rightarrow> auth_map option \<Rightarrow> bool res" where
  "public_call_invite ev state_after_event =
     (if is_call_invite ev
      then (case state_after_event of
          None \<Rightarrow> Inl AssertionError
        | Some st \<Rightarrow> Inr (case st (EventTypes_JoinRules, []) of
              None \<Rightarrow> False
            | Some e \<Rightarrow> jget (ev_content e) ''join_rule'' = JStr JoinRules_PUBLIC))
      else Inr False)"

text \<open>The inner function \<open>allowed\<close>.\<close>

definition allowed_event :: "visibility_store \<Rightarrow> string \<Rightarrow> bool \<Rightarrow> string list \<Rightarrow> bool
    \<Rightarrow> (string \<Rightarrow> auth_map option) \<Rightarrow> client_event \<Rightarrow> client_event option res" where
  "allowed_event vs user_id is_peeking always_include_ids filter_send_to_client event_id_to_state ev =
     (let state_after_event = event_id_to_state (ce_id ev); sender = ev_sender (ce_event ev) in
      bindE (if filter_send_to_client
             then bindE (event_room_id (ce_event ev)) (\<lambda>room_id. Inr (vs_max_lifetime vs room_id))
             else Inl NameError) (\<lambda>max_lifetime.
      bindE (check_client_allowed_to_see_event user_id ev (vs_now vs) filter_send_to_client is_peeking
               always_include_ids (sender \<in> set (vs_ignored_users vs user_id)) max_lifetime
               state_after_event (vs_erased vs sender)) (\<lambda>filtered.
        (case filtered of
           None \<Rightarrow> Inr None
         | Some shown \<Rightarrow>
             bindE (public_call_invite ev state_after_event) (\<lambda>hide.
               if hide then Inr None
               else bindE (user_membership user_id ev state_after_event) (\<lambda>m.
                 let cloned = clone_event shown in
                 Inr (Some (cloned\<lparr>ce_unsigned := dset UnsignedFields_MEMBERSHIP m (ce_unsigned cloned)\<rparr>))))))))"

definition filter_and_transform_events_for_client :: "visibility_store \<Rightarrow> string \<Rightarrow> client_event list \<Rightarrow> bool
    \<Rightarrow> string list \<Rightarrow> bool \<Rightarrow> client_event list res" where
  "filter_and_transform_events_for_client vs user_id events_before is_peeking always_include_ids
     filter_send_to_client =
     (let found_call_invite = list_ex is_call_invite (filter (\<lambda>e. \<not> ce_soft_failed e) events_before);
          events = without_soft_failed vs user_id filter_send_to_client events_before;
          types = [(fst HISTORY_VIS_KEY, Some (snd HISTORY_VIS_KEY)), (EventTypes_Member, Some user_id)]
            @ (if found_call_invite then [(EventTypes_JoinRules, Some [])] else []);
          event_id_to_state = vs_state vs (map ce_id (filter (\<lambda>e. \<not> ce_outlier e) events)) (from_types types)
      in
      bindE (if filter_send_to_client
             then foldE (\<lambda>e u. bindE (event_room_id (ce_event e)) (\<lambda>_. Inr u)) events () else Inr ()) (\<lambda>_.
        foldE (\<lambda>ev acc.
          bindE (allowed_event vs user_id is_peeking always_include_ids filter_send_to_client event_id_to_state ev)
            (\<lambda>shown. Inr (case shown of None \<Rightarrow> acc | Some e \<Rightarrow> acc @ [e]))) events []))"

section \<open>Users for an event\<close>

definition get_state_map :: "(string list \<Rightarrow> (string, event) pydict res)
    \<Rightarrow> (state_filter \<Rightarrow> (string \<times> string, string) pydict) \<Rightarrow> client_event \<Rightarrow> state_filter \<Rightarrow> auth_map res" where
  "get_state_map get_events get_prev_state_ids ev f =
     (let state_map = get_prev_state_ids f in
      bindE (get_events (dvalues state_map)) (\<lambda>event_map.
        let updated = (\<lambda>k. case dget state_map k of None \<Rightarrow> None | Some i \<Rightarrow> dget event_map i) in
        Inr (case get_state_key (ce_event ev) of
            None \<Rightarrow> updated
          | Some s \<Rightarrow> updated((ev_type (ce_event ev), s) \<mapsto> ce_event ev))))"

definition filter_event_for_clients_with_state :: "visibility_store \<Rightarrow> (string list \<Rightarrow> (string, event) pydict res)
    \<Rightarrow> (state_filter \<Rightarrow> (string \<times> string, string) pydict) \<Rightarrow> string list \<Rightarrow> client_event \<Rightarrow> bool \<Rightarrow> bool
    \<Rightarrow> string list res" where
  "filter_event_for_clients_with_state vs get_events get_prev_state_ids user_ids ev is_peeking
     filter_send_to_client =
     (if ce_soft_failed ev then Inr []
      else if user_ids = [] then Inr []
      else
        bindE (if filter_send_to_client
               then bindE (event_room_id (ce_event ev)) (\<lambda>room_id.
                 let ignored_by = vs_ignored_by vs (ev_sender (ce_event ev)) in
                 Inr (filter (\<lambda>u. check_filter_send_to_client ev (vs_now vs) (vs_max_lifetime vs room_id)
                        (u \<in> set ignored_by) \<noteq> CF_denied) (remdups user_ids)))
               else Inr (remdups user_ids)) (\<lambda>allowed_user_ids.
        if ce_outlier ev
        then (if ev_type (ce_event ev) = EventTypes_Member
              then bindE (event_state_key (ce_event ev)) (\<lambda>s.
                Inr (if s \<in> set allowed_user_ids then [s] else []))
              else Inr [])
        else
          bindE (get_state_map get_events get_prev_state_ids ev
                   (from_types [(fst HISTORY_VIS_KEY, Some (snd HISTORY_VIS_KEY))])) (\<lambda>visibility_state_map.
          let visibility = get_effective_room_visibility_from_state visibility_state_map in
          bindE (check_history_visibility ev visibility is_peeking) (\<lambda>lax.
            if lax = CV_allowed then Inr allowed_user_ids
            else
              bindE (get_state_map get_events get_prev_state_ids ev
                       (from_types (map (\<lambda>u. (EventTypes_Member, Some u)) allowed_user_ids
                          @ [(EventTypes_RoomHistoryVisibility, Some [])]))) (\<lambda>state_map.
                foldE (\<lambda>u acc. bindE (check_membership u ev visibility state_map is_peeking) (\<lambda>result.
                  Inr (if cm_allowed result then acc @ [u] else acc))) allowed_user_ids [])))))"

section \<open>Events for servers\<close>

text \<open>
  \<open>get_state_ids\<close> answers for the state at several events, \<open>get_events\<close> reads events;
  \<open>event_visible_to_server\<close> is the compiled decision.
\<close>

type_synonym state_ids = "((string \<times> string), string) pydict"

definition event_to_history_vis :: "(string list \<Rightarrow> state_filter \<Rightarrow> (string, state_ids) pydict)
    \<Rightarrow> (string list \<Rightarrow> (string, event) pydict res) \<Rightarrow> client_event list \<Rightarrow> (string, string) pydict res" where
  "event_to_history_vis get_state_ids get_events events =
     (let event_to_state_ids = get_state_ids (map ce_id (filter (\<lambda>e. \<not> ce_outlier e) events))
            (from_types [(fst HISTORY_VIS_KEY, Some (snd HISTORY_VIS_KEY))]);
          visibility_ids = List.map_filter (\<lambda>state_ids. case dget state_ids HISTORY_VIS_KEY of
              None \<Rightarrow> None | Some i \<Rightarrow> if i = [] then None else Some i) (dvalues event_to_state_ids)
      in
      bindE (get_events visibility_ids) (\<lambda>vis_events.
        foldE (\<lambda>ev result.
          let visibility_id = (case dget event_to_state_ids (ce_id ev) of
                None \<Rightarrow> None | Some state_ids \<Rightarrow> dget state_ids HISTORY_VIS_KEY)
          in
          bindE (case visibility_id of
                   None \<Rightarrow> Inr HistoryVisibility_SHARED
                 | Some i \<Rightarrow>
                     if i = [] then Inr HistoryVisibility_SHARED
                     else bindE (optE KeyError (dget vis_events i)) (\<lambda>vis_event.
                       (case jget_default (ev_content vis_event) ''history_visibility''
                               (JStr HistoryVisibility_SHARED) of
                          JStr v \<Rightarrow> Inr v
                        | _ \<Rightarrow> Inl AssertionError))) (\<lambda>vis.
            Inr (dset (ce_id ev) vis result))) events []))"

text \<open>\<open>include\<close>: the part of the state key after the first colon is the server name.\<close>

definition on_server :: "string \<Rightarrow> string \<Rightarrow> bool" where
  "on_server server_name state_key = (snd (split_first CHR '':'' state_key) = Some server_name)"

definition event_to_memberships :: "(string list \<Rightarrow> state_filter \<Rightarrow> (string, state_ids) pydict)
    \<Rightarrow> (string list \<Rightarrow> (string, event) pydict res) \<Rightarrow> client_event list \<Rightarrow> string
    \<Rightarrow> (string, (string \<times> string, string \<times> json) pydict) pydict res" where
  "event_to_memberships get_state_ids get_events events server_name =
     (if events = [] then Inr []
      else
        (let event_to_state_ids = get_state_ids (map ce_id events) (from_types [(EventTypes_Member, None)]);
             event_id_to_state_key = fold (\<lambda>key_to_eid d. fold (\<lambda>(key, event_id). dset event_id key) key_to_eid d)
               (dvalues event_to_state_ids) []
         in
         bindE (get_events (List.map_filter (\<lambda>(e_id, (_, state_key)).
                  if on_server server_name state_key then Some e_id else None) event_id_to_state_key)) (\<lambda>event_map.
           foldE (\<lambda>(e_id, key_to_eid) result.
             bindE (foldE (\<lambda>(key, inner_e_id) d.
                 (case dget event_map inner_e_id of
                    None \<Rightarrow> Inr d
                  | Some e \<Rightarrow> bindE (event_state_key e) (\<lambda>s. bindE (membership e) (\<lambda>m. Inr (dset key (s, m) d)))))
               key_to_eid []) (\<lambda>d.
               Inr (dset e_id d result))) event_to_state_ids [])))"

text \<open>\<open>erased\<close> and \<open>partial\<close>: the users of the storage that are erased, the rooms with partial state.\<close>

definition filter_events_for_server :: "(string list \<Rightarrow> state_filter \<Rightarrow> (string, state_ids) pydict)
    \<Rightarrow> (string list \<Rightarrow> (string, event) pydict res)
    \<Rightarrow> (string \<Rightarrow> string \<Rightarrow> string \<Rightarrow> (string \<Rightarrow> bool) \<Rightarrow> bool \<Rightarrow> (string \<times> json) list \<Rightarrow> bool)
    \<Rightarrow> (string \<Rightarrow> bool) \<Rightarrow> (string \<Rightarrow> bool) \<Rightarrow> string \<Rightarrow> string \<Rightarrow> client_event list \<Rightarrow> bool \<Rightarrow> bool \<Rightarrow> bool
    \<Rightarrow> client_event list res" where
  "filter_events_for_server get_state_ids get_events event_visible_to_server erased is_partial_state_room
     target_server_name local_server_name events redact filter_out_erased_senders
     filter_out_remote_partial_state_events =
     (let erased_senders = (\<lambda>u. filter_out_erased_senders \<and> erased u) in
      bindE (if filter_out_remote_partial_state_events
             then foldE (\<lambda>e ids.
                 bindE (get_domain_from_id (ev_sender (ce_event e))) (\<lambda>sender_domain.
                   if sender_domain = local_server_name then Inr ids
                   else bindE (event_room_id (ce_event e)) (\<lambda>room_id.
                     Inr (if is_partial_state_room room_id then ids @ [ce_id e] else ids)))) events []
             else Inr []) (\<lambda>partial_state_invisible.
      bindE (event_to_history_vis get_state_ids get_events events) (\<lambda>event_to_vis.
      bindE (event_to_memberships get_state_ids get_events
               (filter (\<lambda>e. dget event_to_vis (ce_id e)
                  \<notin> {Some HistoryVisibility_SHARED, Some HistoryVisibility_WORLD_READABLE}) events)
               target_server_name) (\<lambda>memberships.
        foldE (\<lambda>e to_return.
          bindE (optE KeyError (dget event_to_vis (ce_id e))) (\<lambda>vis.
            if event_visible_to_server (ev_sender (ce_event e)) target_server_name vis erased_senders
                 (ce_id e \<in> set partial_state_invisible)
                 (case dget memberships (ce_id e) of None \<Rightarrow> [] | Some d \<Rightarrow> dvalues d)
            then Inr (to_return @ [e])
            else if redact then bindE (prune_client_event e) (\<lambda>p. Inr (to_return @ [p]))
            else Inr to_return)) events []))))"

end
