(* ===== verification/Visibility_Props.thy ===== *)
theory Visibility_Props
  imports Visibility
begin

text \<open>
  Properties of the visibility checks: the two code paths for clients agree, and what a client gets
  to see is covered by the visibility of the room and the membership of the user.
\<close>

section \<open>The checks read little of the state\<close>

lemma visibility_cong:
  "st HISTORY_VIS_KEY = st' HISTORY_VIS_KEY \<Longrightarrow>
     get_effective_room_visibility_from_state st = get_effective_room_visibility_from_state st'"
  by (simp add: get_effective_room_visibility_from_state_def)

lemma check_membership_cong:
  "st (EventTypes_Member, u) = st' (EventTypes_Member, u) \<Longrightarrow>
     check_membership u ev vis st peek = check_membership u ev vis st' peek"
  by (simp only: check_membership_def)

text \<open>Collecting the items that pass a check.\<close>

lemma foldE_collect:
  assumes "foldE (\<lambda>u acc. bindE (f u) (\<lambda>r. Inr (if P r then acc @ [u] else acc))) us acc = Inr res"
  shows "set res = set acc \<union> {u \<in> set us. \<exists>r. f u = Inr r \<and> P r}"
  using assms
proof (induction us arbitrary: acc)
  case (Cons u us)
  then obtain r where r: "f u = Inr r"
    "foldE (\<lambda>u acc. bindE (f u) (\<lambda>r. Inr (if P r then acc @ [u] else acc))) us (if P r then acc @ [u] else acc) = Inr res"
    by (auto simp: bindE_eq_Inr)
  show ?case
    using Cons.IH [OF r(2)] r(1) by auto
qed simp

lemma shown_iff_filtered:
  assumes "allowed_event vs u peek always True states ev = Inr shown" "\<not> is_call_invite ev"
  shows "\<exists>room_id filtered. event_room_id (ce_event ev) = Inr room_id
    \<and> check_client_allowed_to_see_event u ev (vs_now vs) True peek always
        (ev_sender (ce_event ev) \<in> set (vs_ignored_users vs u)) (vs_max_lifetime vs room_id) (states (ce_id ev))
        (vs_erased vs (ev_sender (ce_event ev))) = Inr filtered
    \<and> (shown = None \<longleftrightarrow> filtered = None)"
  using assms
  by (auto simp: allowed_event_def Let_def bindE_eq_Inr public_call_invite_def split: option.splits)

text \<open>What the two checks come to on the same state, for an event that is not soft failed.\<close>

definition sees :: "string \<Rightarrow> client_event \<Rightarrow> auth_map \<Rightarrow> bool \<Rightarrow> bool" where
  "sees u ev st peek \<longleftrightarrow>
     (if ce_outlier ev then is_own_membership u ev = Inr True
      else check_history_visibility ev (get_effective_room_visibility_from_state st) peek = Inr CV_allowed
        \<or> (\<exists>r. check_membership u ev (get_effective_room_visibility_from_state st) st peek = Inr r \<and> cm_allowed r))"

lemma sees_cong:
  assumes "st HISTORY_VIS_KEY = st' HISTORY_VIS_KEY" "st (EventTypes_Member, u) = st' (EventTypes_Member, u)"
  shows "sees u ev st peek = sees u ev st' peek"
  unfolding sees_def visibility_cong [of st st', OF assms(1)]
  by (simp only: check_membership_cong [of st u st', OF assms(2)])

lemma one_event_sees:
  assumes "check_client_allowed_to_see_event u ev now True peek [] ign life (Some st) False = Inr filtered"
  shows "filtered \<noteq> None \<longleftrightarrow> check_filter_send_to_client ev now life ign \<noteq> CF_denied \<and> sees u ev st peek"
  using assms by (auto simp: check_client_allowed_to_see_event_def sees_def bindE_eq_Inr Let_def split: if_splits)

lemma one_user_sees:
  assumes prev_state: "\<And>f. \<exists>st. get_state_map get_events prev_ids ev f = Inr st \<and> (\<forall>k. sf_contains f k \<longrightarrow> st k = state k)"
    and soft: "\<not> ce_soft_failed ev" and user: "u \<in> set users"
    and by_users: "filter_event_for_clients_with_state vs get_events prev_ids users ev peek True = Inr seers"
  shows "\<exists>room. event_room_id (ce_event ev) = Inr room \<and> (u \<in> set seers \<longleftrightarrow>
    check_filter_send_to_client ev (vs_now vs) (vs_max_lifetime vs room) (u \<in> set (vs_ignored_by vs (ev_sender (ce_event ev))))
      \<noteq> CF_denied \<and> sees u ev state peek)"
proof -
  define e where "e = ce_event ev"
  obtain room where room: "event_room_id e = Inr room"
    using by_users user soft by (auto simp: filter_event_for_clients_with_state_def e_def split: if_splits)
  define cands where "cands = filter (\<lambda>v. check_filter_send_to_client ev (vs_now vs) (vs_max_lifetime vs room)
    (v \<in> set (vs_ignored_by vs (ev_sender e))) \<noteq> CF_denied) (remdups users)"
  have cand: "u \<in> set cands \<longleftrightarrow> check_filter_send_to_client ev (vs_now vs) (vs_max_lifetime vs room)
      (u \<in> set (vs_ignored_by vs (ev_sender e))) \<noteq> CF_denied"
    using user by (simp add: cands_def)
  have "u \<in> set seers \<longleftrightarrow> u \<in> set cands \<and> sees u ev state peek"
  proof (cases "ce_outlier ev")
    case True
    then show ?thesis
      using by_users soft user room
      by (auto simp: filter_event_for_clients_with_state_def e_def [symmetric] cands_def [symmetric] sees_def
          is_own_membership_def bindE_eq_Inr Let_def split: if_splits)
  next
    case False
    define vis where "vis = get_effective_room_visibility_from_state state"
    obtain vm where vm: "get_state_map get_events prev_ids ev (from_types [(fst HISTORY_VIS_KEY, Some (snd HISTORY_VIS_KEY))]) = Inr vm"
      "vm HISTORY_VIS_KEY = state HISTORY_VIS_KEY"
      using prev_state [of "from_types [(fst HISTORY_VIS_KEY, Some (snd HISTORY_VIS_KEY))]"]
      by (auto simp: HISTORY_VIS_KEY_def contains_from_types)
    let ?members = "from_types (map (\<lambda>u. (EventTypes_Member, Some u)) cands @ [(EventTypes_RoomHistoryVisibility, Some [])])"
    obtain sm where sm: "get_state_map get_events prev_ids ev ?members = Inr sm"
      "u \<in> set cands \<longrightarrow> sm (EventTypes_Member, u) = state (EventTypes_Member, u)"
      using prev_state [of ?members] by (auto simp: contains_from_types)
    note run = by_users soft user room False vm(1) visibility_cong [of vm state, OF vm(2)] sm(1)
    obtain lax where lax: "check_history_visibility ev vis peek = Inr lax"
      and seers: "if lax = CV_allowed then seers = cands
        else foldE (\<lambda>u acc. bindE (check_membership u ev vis sm peek) (\<lambda>result.
          Inr (if cm_allowed result then acc @ [u] else acc))) cands [] = Inr seers"
      using run
      by (auto simp: filter_event_for_clients_with_state_def e_def [symmetric] vis_def cands_def [symmetric] bindE_eq_Inr
          Let_def split: if_splits)
    show ?thesis
    proof (cases "lax = CV_allowed")
      case True
      then show ?thesis using seers lax False by (simp add: sees_def vis_def)
    next
      case maybe: False
      then have "foldE (\<lambda>u acc. bindE (check_membership u ev vis sm peek) (\<lambda>result.
          Inr (if cm_allowed result then acc @ [u] else acc))) cands [] = Inr seers"
        using seers by simp
      from foldE_collect [OF this]
      have "u \<in> set seers \<longleftrightarrow> u \<in> set cands \<and> (\<exists>r. check_membership u ev vis sm peek = Inr r \<and> cm_allowed r)"
        by auto
      moreover have "check_membership u ev vis sm peek = check_membership u ev vis state peek" if "u \<in> set cands"
        using sm(2) that by (intro check_membership_cong) simp
      ultimately have "u \<in> set seers \<longleftrightarrow> u \<in> set cands
          \<and> (\<exists>r. check_membership u ev vis state peek = Inr r \<and> cm_allowed r)"
        by metis
      then show ?thesis using lax maybe False by (simp add: sees_def vis_def)
    qed
  qed
  then show ?thesis using room cand by (simp add: e_def)
qed

text \<open>
  C21. For an ordinary event the two ways to decide who sees it agree: a user gets the event from the
  check for a list of events, called with that one event and no ids that are always included, exactly
  if the check for a list of users names the user. Ordinary means: it is to be sent to clients, not
  soft failed, not a call invite, and its sender is not erased. Both checks have to read the same state
  on the types they ask for, and the two lists of ignored users have to agree.
\<close>

theorem client_paths_agree:
  assumes storage: "\<And>f. \<exists>st. vs_state vs [ce_id ev] f (ce_id ev) = Some st \<and> (\<forall>k. sf_contains f k \<longrightarrow> st k = state k)"
    and prev_state: "\<And>f. \<exists>st. get_state_map get_events prev_ids ev f = Inr st \<and> (\<forall>k. sf_contains f k \<longrightarrow> st k = state k)"
    and event: "\<not> ce_soft_failed ev" "\<not> vs_erased vs (ev_sender (ce_event ev))" "\<not> is_call_invite ev"
    and ignored: "ev_sender (ce_event ev) \<in> set (vs_ignored_users vs u) \<longleftrightarrow> u \<in> set (vs_ignored_by vs (ev_sender (ce_event ev)))"
    and by_events: "filter_and_transform_events_for_client vs u [ev] peek [] True = Inr shown"
    and by_users: "filter_event_for_clients_with_state vs get_events prev_ids users ev peek True = Inr seers"
    and user: "u \<in> set users"
  shows "shown \<noteq> [] \<longleftrightarrow> u \<in> set seers"
proof -
  obtain room where room: "event_room_id (ce_event ev) = Inr room"
    and by_users': "u \<in> set seers \<longleftrightarrow> check_filter_send_to_client ev (vs_now vs) (vs_max_lifetime vs room)
        (u \<in> set (vs_ignored_by vs (ev_sender (ce_event ev)))) \<noteq> CF_denied \<and> sees u ev state peek"
    using one_user_sees [OF prev_state event(1) user by_users] by blast
  define types where "types = [(fst HISTORY_VIS_KEY, Some (snd HISTORY_VIS_KEY)), (EventTypes_Member, Some u)]"
  let ?states = "vs_state vs (map ce_id (filter (\<lambda>e. \<not> ce_outlier e) [ev])) (from_types types)"
  have "without_soft_failed vs u True [ev] = [ev]"
    using event(1) by (simp add: without_soft_failed_def)
  then obtain so where so: "allowed_event vs u peek [] True ?states ev = Inr so" "shown = (case so of None \<Rightarrow> [] | Some x \<Rightarrow> [x])"
    using by_events event(1,3) that
    by (cases "ce_outlier ev") (auto simp: filter_and_transform_events_for_client_def types_def bindE_eq_Inr Let_def
        split: option.splits)
  let ?ign = "ev_sender (ce_event ev) \<in> set (vs_ignored_users vs u)"
  obtain filtered where path: "check_client_allowed_to_see_event u ev (vs_now vs) True peek [] ?ign
        (vs_max_lifetime vs room) (?states (ce_id ev)) False = Inr filtered"
    and shown: "shown \<noteq> [] \<longleftrightarrow> filtered \<noteq> None"
    using shown_iff_filtered [OF so(1) event(3)] so(2) room event(2) by (auto split: option.splits)
  have "filtered \<noteq> None \<longleftrightarrow>
      check_filter_send_to_client ev (vs_now vs) (vs_max_lifetime vs room) ?ign \<noteq> CF_denied \<and> sees u ev state peek"
  proof (cases "ce_outlier ev")
    case True
    then show ?thesis
      using path by (auto simp: check_client_allowed_to_see_event_def sees_def bindE_eq_Inr split: if_splits)
  next
    case False
    obtain st where st: "vs_state vs [ce_id ev] (from_types types) (ce_id ev) = Some st"
      "\<forall>k. sf_contains (from_types types) k \<longrightarrow> st k = state k"
      using storage by blast
    have "st HISTORY_VIS_KEY = state HISTORY_VIS_KEY" "st (EventTypes_Member, u) = state (EventTypes_Member, u)"
      using st(2) by (simp_all add: types_def HISTORY_VIS_KEY_def contains_from_types)
    note sees_cong [OF this]
    moreover have "?states (ce_id ev) = Some st" using False st(1) by simp
    ultimately show ?thesis using one_event_sees [of u ev _ peek ?ign _ st filtered] path by simp
  qed
  then show ?thesis using shown by_users' ignored by simp
qed

section \<open>A closed room\<close>

definition closed_visibility :: event where
  "closed_visibility = sample_event ''$h'' EventTypes_RoomHistoryVisibility ''@a:x'' (Some [])
     [(''history_visibility'', JStr HistoryVisibility_JOINED)]"

definition closed_state :: auth_map where
  "closed_state = sample_map (closed_visibility # sample_state)"

definition closed_room :: visibility_store where
  "closed_room = \<lparr>vs_state = (\<lambda>_ _ _. Some closed_state), vs_ignored_users = (\<lambda>_. []), vs_ignored_by = (\<lambda>_. []),
     vs_erased = (\<lambda>_. False), vs_max_lifetime = (\<lambda>_. None), vs_server_admin = (\<lambda>_. False),
     vs_return_soft_failed = (\<lambda>_. False), vs_return_spammy = (\<lambda>_. False), vs_now = 10\<rparr>"

definition closed_events :: "string list \<Rightarrow> (string, event) pydict res" where
  "closed_events ids = Inr (map (\<lambda>e. (ev_event_id e, e)) (closed_visibility # sample_state))"

definition closed_ids :: "state_filter \<Rightarrow> (string \<times> string, string) pydict" where
  "closed_ids f = map (\<lambda>e. ((ev_type e, the (ev_dict_state_key e)), ev_event_id e)) (closed_visibility # sample_state)"

definition plain_event :: "event \<Rightarrow> client_event" where
  "plain_event e = \<lparr>ce_event = e, ce_unsigned = [], ce_outlier = False, ce_soft_failed = False, ce_spammy = False\<rparr>"

lemma closed_state_read:
  "get_state_map closed_events closed_ids (plain_event (sample_message ''@a:x'' [])) f = Inr closed_state"
  by (simp add: get_state_map_def closed_events_def closed_ids_def closed_state_def sample_map_def Let_def
      sample_state_def closed_visibility_def sample_create_def sample_member_def sample_join_rules_def
      sample_power_levels_def sample_event_def plain_event_def sample_message_def get_state_key_def const_defs
      fun_eq_iff)

lemma client_paths_agree_witness:
  "\<exists>shown seers. filter_and_transform_events_for_client closed_room ''@b:x''
        [plain_event (sample_message ''@a:x'' [])] False [] True = Inr shown
    \<and> filter_event_for_clients_with_state closed_room closed_events closed_ids [''@b:x'', ''@d:x'']
        (plain_event (sample_message ''@a:x'' [])) False True = Inr seers
    \<and> (shown \<noteq> []) = (''@b:x'' \<in> set seers) \<and> seers = [''@b:x'']"
proof -
  let ?ev = "plain_event (sample_message ''@a:x'' [])"
  have event: "\<not> ce_soft_failed ?ev" "\<not> vs_erased closed_room (ev_sender (ce_event ?ev))" "\<not> is_call_invite ?ev"
    by (simp_all add: plain_event_def closed_room_def is_call_invite_def sample_message_def sample_event_def const_defs)
  have "\<not> isl (filter_and_transform_events_for_client closed_room ''@b:x'' [?ev] False [] True)"
    by code_simp
  then obtain shown where shown: "filter_and_transform_events_for_client closed_room ''@b:x'' [?ev] False [] True = Inr shown"
    by (cases "filter_and_transform_events_for_client closed_room ''@b:x'' [?ev] False [] True") auto
  have seers: "filter_event_for_clients_with_state closed_room closed_events closed_ids [''@b:x'', ''@d:x''] ?ev False True
      = Inr [''@b:x'']"
    by code_simp
  have "shown \<noteq> [] \<longleftrightarrow> ''@b:x'' \<in> set [''@b:x'']"
    by (rule client_paths_agree [OF _ _ event _ shown seers, where state = closed_state])
      (simp_all add: closed_state_read, simp_all add: closed_room_def)
  then show ?thesis
    using shown seers by simp
qed

text \<open>
  For call invites the paths disagree: in a room with public join rules the check for a list of events
  holds the invite back from a joined user, and the check for a list of users names the user.
\<close>

lemma call_invites_differ:
  "filter_and_transform_events_for_client closed_room ''@b:x''
     [plain_event (sample_event ''$c'' EventTypes_CallInvite ''@a:x'' None [])] False [] True = Inr []"
  "filter_event_for_clients_with_state closed_room closed_events closed_ids [''@b:x'']
     (plain_event (sample_event ''$c'' EventTypes_CallInvite ''@a:x'' None [])) False True = Inr [''@b:x'']"
  by code_simp+

section \<open>What a client sees is covered\<close>





lemma visibilities_neq:
  "HistoryVisibility_JOINED \<noteq> HistoryVisibility_SHARED" "HistoryVisibility_JOINED \<noteq> HistoryVisibility_WORLD_READABLE"
  "HistoryVisibility_INVITED \<noteq> HistoryVisibility_SHARED" "HistoryVisibility_INVITED \<noteq> HistoryVisibility_WORLD_READABLE"
  "HistoryVisibility_INVITED \<noteq> HistoryVisibility_JOINED"
  by (simp_all add: const_defs)











end
