(* ===== verification/Id_Generators.thy ===== *)
theory Id_Generators
  imports Prelude
begin

text \<open>
  \<open>storage/util/id_generators.py\<close>: the positions of a stream that has several writers. One record
  per process holds what \<open>MultiWriterIdGenerator\<close> holds; each definition is what happens under one
  hold of its lock. Ids of streams that run backwards are kept positive and negated on return. The
  heap of known positions is kept sorted, and so are the sets of ids: only their first and last
  items are read. Metrics and the notifier are left out.
\<close>

section \<open>The state of a generator\<close>

record id_gen =
  ig_instance :: string
  ig_writers :: "string list"
  ig_positive :: bool
  ig_current :: "(string, int) pydict"
  ig_unfinished :: "int list"
  ig_in_flight :: "int list"
  ig_finished :: "int list"
  ig_persisted :: int
  ig_known :: "int list"
  ig_max_seen :: int
  ig_max_local :: int

definition return_factor :: "id_gen \<Rightarrow> int" where
  "return_factor g = (if ig_positive g then 1 else - 1)"

text \<open>\<open>self._current_positions.get(name, dflt)\<close>\<close>

definition position :: "id_gen \<Rightarrow> string \<Rightarrow> int \<Rightarrow> int" where
  "position g name dflt = (case dget (ig_current g) name of None \<Rightarrow> dflt | Some p \<Rightarrow> p)"

definition busy :: "id_gen \<Rightarrow> bool" where
  "busy g \<longleftrightarrow> ig_unfinished g \<noteq> [] \<or> ig_in_flight g \<noteq> []"

section \<open>Persisted positions\<close>

text \<open>The loop over the known positions: items that are passed are dropped, the next one is taken.\<close>

fun skip_known :: "int \<Rightarrow> int list \<Rightarrow> int \<times> int list" where
  "skip_known p [] = (p, [])"
| "skip_known p (k # ks) =
     (if k \<le> p then skip_known p ks
      else if k = p + 1 then skip_known (p + 1) ks
      else (p, k # ks))"

text \<open>The smallest position of the other writers, or the own one if there are none.\<close>

definition min_current :: "id_gen \<Rightarrow> int" where
  "min_current g =
     (let ours = position g (ig_instance g) 0;
          others = map snd (filter (\<lambda>(name, _). name \<noteq> ig_instance g) (ig_current g));
          min_curr = (if others = [] then ours else Min (set others))
      in if ours \<noteq> 0 \<and> busy g then min min_curr ours else min_curr)"

definition add_persisted_position :: "int \<Rightarrow> id_gen \<Rightarrow> id_gen" where
  "add_persisted_position new_id g =
     (let known = insort new_id (ig_known g);
          persisted = max (min_current g) (ig_persisted g);
          max_local1 = max (ig_max_local g) persisted;
          max_local2 = (if \<not> busy g then max (ig_max_seen g) max_local1 else max_local1);
          (persisted', known') = skip_known persisted known
      in g\<lparr>ig_known := known', ig_persisted := persisted', ig_max_local := max_local2\<rparr>)"

section \<open>Allocating ids\<close>

text \<open>
  \<open>_load_next_mult_id_txn\<close>: the first hold of the lock gives the largest id seen so far; then the
  database sequence is asked; then the ids are entered; at last the fetch is taken back, also if the
  sequence raised.
\<close>

definition start_fetch :: "id_gen \<Rightarrow> int \<times> id_gen" where
  "start_fetch g = (ig_max_seen g, g\<lparr>ig_in_flight := insort (ig_max_seen g) (ig_in_flight g)\<rparr>)"

definition insert_ids :: "int list \<Rightarrow> int list \<Rightarrow> int list" where
  "insert_ids ids xs = sort (remdups (ids @ xs))"

definition enter_ids :: "int list \<Rightarrow> id_gen \<Rightarrow> id_gen res" where
  "enter_ids stream_ids g =
     (let unfinished = insert_ids stream_ids (ig_unfinished g) in
      if unfinished = [] then Inl IndexError
      else Inr (g\<lparr>ig_unfinished := unfinished, ig_max_seen := max (ig_max_seen g) (last unfinished)\<rparr>))"

definition end_fetch :: "int \<Rightarrow> id_gen \<Rightarrow> id_gen" where
  "end_fetch current_max g = g\<lparr>ig_in_flight := remove1 current_max (ig_in_flight g)\<rparr>"

text \<open>The guard of \<open>get_next\<close> and its relatives.\<close>

definition check_writer :: "id_gen \<Rightarrow> unit res" where
  "check_writer g = guardE (ig_writers g = [] \<or> ig_instance g \<in> set (ig_writers g))
     (PyException ''Tried to allocate stream ID on non-writer'')"

section \<open>Finishing ids\<close>

definition min_unfinished :: "id_gen \<Rightarrow> int" where
  "min_unfinished g =
     (if ig_unfinished g \<noteq> [] \<and> ig_in_flight g \<noteq> []
      then min (hd (ig_unfinished g)) (hd (ig_in_flight g) + 1)
      else if ig_in_flight g \<noteq> [] then hd (ig_in_flight g) + 1
      else hd (ig_unfinished g))"

text \<open>The largest of some ids, if there is one.\<close>

definition largest :: "int list \<Rightarrow> int option" where
  "largest xs = (if xs = [] then None else Some (Max (set xs)))"

text \<open>
  The new position and the ids that are kept as finished; without ids in progress \<open>max\<close> of no
  finished id raises.
\<close>

definition settle :: "id_gen \<Rightarrow> (int option \<times> int list) res" where
  "settle g =
     (if busy g
      then Inr (largest (filter (\<lambda>s. s < min_unfinished g) (ig_finished g)),
                filter (\<lambda>s. \<not> s < min_unfinished g) (ig_finished g))
      else (case largest (ig_finished g) of
          None \<Rightarrow> Inl ValueError
        | Some m \<Rightarrow> Inr (Some m, [])))"

definition mark_ids_as_finished :: "int list \<Rightarrow> id_gen \<Rightarrow> id_gen res" where
  "mark_ids_as_finished next_ids g =
     (let g1 = g\<lparr>ig_unfinished := filter (\<lambda>i. i \<notin> set next_ids) (ig_unfinished g),
                 ig_finished := set_union (ig_finished g) next_ids\<rparr>
      in
      bindE (settle g1) (\<lambda>(new_cur, finished).
        let g2 = g1\<lparr>ig_finished := finished\<rparr>;
            g3 = (case new_cur of
                None \<Rightarrow> g2
              | Some c \<Rightarrow>
                  if c = 0 then g2
                  else
                    (let curr = position g2 (ig_instance g2) 0 in
                     g2\<lparr>ig_current := dset (ig_instance g2) (max curr c) (ig_current g2),
                        ig_max_local := max curr (max c (ig_max_local g2))\<rparr>))
        in Inr (fold add_persisted_position next_ids g3)))"

section \<open>Positions of other writers\<close>

definition advance :: "string \<Rightarrow> int \<Rightarrow> id_gen \<Rightarrow> id_gen" where
  "advance instance_name new_id0 g =
     (let new_id = new_id0 * return_factor g in
      add_persisted_position new_id
        (g\<lparr>ig_current := dset instance_name (max new_id (position g instance_name 0)) (ig_current g),
           ig_max_seen := max (ig_max_seen g) new_id\<rparr>))"

definition get_persisted_upto_position :: "id_gen \<Rightarrow> int" where
  "get_persisted_upto_position g = return_factor g * ig_persisted g"

definition get_current_token :: "id_gen \<Rightarrow> int" where
  "get_current_token g = get_persisted_upto_position g"

definition get_current_token_for_writer :: "string \<Rightarrow> id_gen \<Rightarrow> int" where
  "get_current_token_for_writer instance_name g =
     (if ig_instance g = instance_name then return_factor g * ig_max_local g
      else return_factor g * max (position g instance_name (ig_persisted g)) (ig_persisted g))"

definition get_minimal_local_current_token :: "id_gen \<Rightarrow> int" where
  "get_minimal_local_current_token g = return_factor g * position g (ig_instance g) (ig_persisted g)"

definition get_positions :: "id_gen \<Rightarrow> (string, int) pydict" where
  "get_positions g = map (\<lambda>(name, i). (name, return_factor g * i)) (ig_current g)"

text \<open>The row of the process in the table of stream positions.\<close>

definition update_stream_positions_table :: "(string, int) pydict \<Rightarrow> id_gen \<Rightarrow> (string, int) pydict" where
  "update_stream_positions_table tbl g =
     (if ig_writers g = [] then tbl
      else
        (let pos = get_current_token_for_writer (ig_instance g) g in
         case dget tbl (ig_instance g) of
           None \<Rightarrow> dset (ig_instance g) pos tbl
         | Some old \<Rightarrow>
             if (if ig_positive g then old < pos else old > pos)
             then dset (ig_instance g) pos tbl else tbl))"

section \<open>Starting up\<close>

text \<open>
  \<open>_load_current_ids\<close>: the table of stream positions, the last value of the sequence (with
  PostgreSQL), the largest ids of the tables of the stream, and their rows after a position.
\<close>

definition load_current_ids :: "(string, int) pydict \<Rightarrow> int option \<Rightarrow> int list \<Rightarrow> (int \<Rightarrow> (string \<times> int) list)
    \<Rightarrow> id_gen \<Rightarrow> id_gen" where
  "load_current_ids stream_positions sequence_value max_ids rows_after g =
     (let stored = map (\<lambda>(name, i). (name, i * return_factor g))
            (filter (\<lambda>(name, _). name \<in> set (ig_writers g)) stream_positions);
          current0 = (if ig_writers g \<noteq> [] then stored else ig_current g);
          current = (case sequence_value of
              Some v \<Rightarrow> if ig_instance g \<in> set (ig_writers g) then dset (ig_instance g) v current0 else current0
            | None \<Rightarrow> current0);
          g1 = g\<lparr>ig_current := current\<rparr>;
          g2 = (if current = []
                then g1\<lparr>ig_persisted := fold max max_ids 1\<rparr>
                else
                  (let min_stream_id = Min (set (map snd current)) in
                   fold (\<lambda>(inst, stream_id) h.
                       let h' = add_persisted_position (return_factor h * stream_id) h in
                       if inst = ig_instance h
                       then h'\<lparr>ig_current := dset inst (return_factor h * stream_id) (ig_current h')\<rparr> else h')
                     (sort_key snd (rows_after (min_stream_id * return_factor g)))
                     (g1\<lparr>ig_persisted := min_stream_id\<rparr>)))
      in fold (\<lambda>w h. if dget (ig_current h) w = None
            then h\<lparr>ig_current := dset w (ig_persisted h) (ig_current h)\<rparr> else h) (ig_writers g2) g2)"

definition new_id_gen :: "string \<Rightarrow> string list \<Rightarrow> bool \<Rightarrow> (string, int) pydict \<Rightarrow> int option \<Rightarrow> int list
    \<Rightarrow> (int \<Rightarrow> (string \<times> int) list) \<Rightarrow> id_gen" where
  "new_id_gen instance_name writers positive stream_positions sequence_value max_ids rows_after =
     (let g0 = \<lparr>ig_instance = instance_name, ig_writers = writers, ig_positive = positive, ig_current = [],
            ig_unfinished = [], ig_in_flight = [], ig_finished = [], ig_persisted = 1, ig_known = [],
            ig_max_seen = 1, ig_max_local = 1\<rparr>;
          g1 = load_current_ids stream_positions sequence_value max_ids rows_after g0;
          seen = max (case largest (map snd (ig_current g1)) of None \<Rightarrow> 1 | Some m \<Rightarrow> m) (ig_persisted g1);
          g2 = g1\<lparr>ig_max_seen := seen, ig_max_local := seen\<rparr>
      in if writers = [] then g2\<lparr>ig_current := dset instance_name (ig_persisted g2) (ig_current g2)\<rparr> else g2)"

end
