(* ===== verification/Id_Generators_Props.thy ===== *)
theory Id_Generators_Props
  imports Id_Generators "HOL-Library.Multiset"
begin

text \<open>
  The invariant of the generator of one process: which positions are finished, and safe with respect to
  the ids that a writer has in progress; that every operation under the lock keeps it.
\<close>

section \<open>Finished and safe positions\<close>

text \<open>
  \<open>prog w\<close> are the ids that writer \<open>w\<close> has in progress, \<open>sq\<close> is the last value of the sequence. A
  position is finished if it was allocated and nobody has it in progress; it is safe for a writer if
  moreover all ids that the writer has in progress come later.
\<close>

definition finished :: "int \<Rightarrow> (string \<Rightarrow> int set) \<Rightarrow> int \<Rightarrow> bool" where
  "finished sq prog x \<longleftrightarrow> 1 \<le> x \<and> x \<le> sq \<and> (\<forall>w. x \<notin> prog w)"

definition safe :: "int \<Rightarrow> (string \<Rightarrow> int set) \<Rightarrow> string \<Rightarrow> int \<Rightarrow> bool" where
  "safe sq prog w x \<longleftrightarrow> finished sq prog x \<and> (\<forall>y\<in>prog w. x < y)"

lemma safe_max: "safe sq prog w a \<Longrightarrow> safe sq prog w b \<Longrightarrow> safe sq prog w (max a b)"
  by (simp add: max_def)

lemma safe_finished: "safe sq prog w x \<Longrightarrow> finished sq prog x"
  by (simp add: safe_def)

lemma safe_ge_1: "safe sq prog w x \<Longrightarrow> 1 \<le> x"
  by (simp add: safe_def finished_def)

lemma safe_idle: "finished sq prog x \<Longrightarrow> prog w = {} \<Longrightarrow> safe sq prog w x"
  by (simp add: safe_def)

text \<open>Steps of the system finish ids and allocate later ones.\<close>

definition evolves :: "int \<Rightarrow> (string \<Rightarrow> int set) \<Rightarrow> int \<Rightarrow> (string \<Rightarrow> int set) \<Rightarrow> bool" where
  "evolves sq prog sq' prog' \<longleftrightarrow> sq \<le> sq' \<and> (\<forall>w. \<forall>y\<in>prog' w. y \<in> prog w \<or> sq < y)"

lemma evolves_finished: "evolves sq prog sq' prog' \<Longrightarrow> finished sq prog x \<Longrightarrow> finished sq' prog' x"
  unfolding evolves_def finished_def by fastforce

lemma evolves_safe:
  assumes "evolves sq prog sq' prog'" "safe sq prog w x"
  shows "safe sq' prog' w x"
proof -
  have "x < y" if "y \<in> prog' w" for y
    using assms that unfolding evolves_def safe_def finished_def by fastforce
  then show ?thesis
    using evolves_finished [OF assms(1)] assms(2) by (simp add: safe_def)
qed

section \<open>The invariant of a generator\<close>

datatype fetch = Asked int | Granted int "int list" | Entered int "int list"

fun fetch_mark :: "fetch \<Rightarrow> int" where
  "fetch_mark (Asked m) = m"
| "fetch_mark (Granted m ids) = m"
| "fetch_mark (Entered m ids) = m"

fun granted_ids :: "fetch \<Rightarrow> int list" where
  "granted_ids (Granted m ids) = ids"
| "granted_ids _ = []"

definition granted :: "fetch list \<Rightarrow> int list" where
  "granted fs = concat (map granted_ids fs)"

lemma granted_simps [simp]:
  "granted [] = []" "granted (f # fs) = granted_ids f @ granted fs" "granted (fs @ fs') = granted fs @ granted fs'"
  by (simp_all add: granted_def)

text \<open>The generator \<open>g\<close> of process \<open>r\<close>, whose fetches in progress are \<open>fs\<close>.\<close>

definition gen_shape :: "string list \<Rightarrow> bool \<Rightarrow> string \<Rightarrow> id_gen \<Rightarrow> fetch list \<Rightarrow> bool" where
  "gen_shape ws pos r g fs \<longleftrightarrow>
     ig_instance g = r \<and> ig_writers g = ws \<and> ig_positive g = pos
     \<and> dict_ok (ig_current g) \<and> (\<forall>w\<in>set ws. dget (ig_current g) w \<noteq> None)
     \<and> sorted (ig_unfinished g) \<and> sorted (ig_in_flight g)
     \<and> mset (ig_in_flight g) = mset (map fetch_mark fs)
     \<and> (\<forall>f\<in>set fs. \<forall>y\<in>set (granted_ids f). fetch_mark f < y)"

definition gen_positions :: "int \<Rightarrow> (string \<Rightarrow> int set) \<Rightarrow> string \<Rightarrow> id_gen \<Rightarrow> bool" where
  "gen_positions sq prog r g \<longleftrightarrow>
     (\<forall>w p. dget (ig_current g) w = Some p \<longrightarrow> safe sq prog w p)
     \<and> (\<forall>x\<in>set (ig_finished g). finished sq prog x)
     \<and> (\<forall>k\<in>set (ig_known g). finished sq prog k)
     \<and> (\<forall>w. safe sq prog w (ig_persisted g))
     \<and> safe sq prog r (ig_max_local g)
     \<and> (ig_max_seen g \<in> prog r \<or> finished sq prog (ig_max_seen g))"

lemma gen_positionsD:
  assumes "gen_positions sq prog r g"
  shows "dget (ig_current g) w = Some p \<Longrightarrow> safe sq prog w p"
    and "x \<in> set (ig_finished g) \<Longrightarrow> finished sq prog x"
    and "k \<in> set (ig_known g) \<Longrightarrow> finished sq prog k"
    and "safe sq prog w (ig_persisted g)"
    and "safe sq prog r (ig_max_local g)"
    and "ig_max_seen g \<in> prog r \<or> finished sq prog (ig_max_seen g)"
  using assms unfolding gen_positions_def by blast+

text \<open>Who has what in progress.\<close>

definition progress_ok :: "string list \<Rightarrow> (string \<Rightarrow> int set) \<Rightarrow> string \<Rightarrow> id_gen \<Rightarrow> fetch list \<Rightarrow> bool" where
  "progress_ok ws prog r g fs \<longleftrightarrow>
     ws \<noteq> [] \<and> prog r = set (ig_unfinished g) \<union> set (granted fs) \<and> (\<forall>w. w \<notin> set ws \<longrightarrow> prog w = {})"

lemma idle_progress:
  assumes "gen_shape ws pos r g fs" "progress_ok ws prog r g fs" "\<not> busy g"
  shows "prog r = {}"
proof -
  have "fs = []"
    using assms(1,3) by (cases fs) (auto simp: gen_shape_def busy_def)
  then show ?thesis
    using assms(2,3) by (simp add: progress_ok_def busy_def)
qed

section \<open>Persisted positions\<close>

lemma position_Some: "dget (ig_current g) w = Some p \<Longrightarrow> position g w d = p"
  by (simp add: position_def)

lemma min_current_safe:
  assumes shape: "gen_shape ws pos r g fs" and prog: "progress_ok ws prog r g fs"
    and cur: "\<And>w p. dget (ig_current g) w = Some p \<Longrightarrow> safe sq prog w p"
  shows "safe sq prog w (min_current g)"
proof -
  define ours where "ours = position g r 0"
  define others where "others = map snd (filter (\<lambda>(name, _). name \<noteq> r) (ig_current g))"
  have inst: "ig_instance g = r" and dict: "dict_ok (ig_current g)"
    and all: "\<And>w. w \<in> set ws \<Longrightarrow> \<exists>p. dget (ig_current g) w = Some p"
    using shape by (auto simp: gen_shape_def)
  have outside: "w \<notin> set ws \<Longrightarrow> prog w = {}" for w
    using prog by (simp add: progress_ok_def)
  have others: "p \<in> set others \<longleftrightarrow> (\<exists>v. v \<noteq> r \<and> dget (ig_current g) v = Some p)" for p
    using dict by (auto simp: others_def dget_iff_mem image_iff)
  have own: "ours \<noteq> 0 \<or> r \<in> set ws \<Longrightarrow> safe sq prog r ours"
    using all [of r] cur [of r] inst by (cases "dget (ig_current g) r") (auto simp: ours_def position_def)
  define m where "m = (if others = [] then ours else Min (set others))"
  have min_current: "min_current g = (if ours \<noteq> 0 \<and> busy g then min m ours else m)"
    by (simp add: min_current_def Let_def inst ours_def others_def m_def)
  show ?thesis
  proof (cases "others = []")
    case True
    have "v = r" if "v \<in> set ws" for v
      using all [OF that] others True by auto
    moreover have "hd ws \<in> set ws"
      using prog by (simp add: progress_ok_def)
    ultimately have "r \<in> set ws" "\<And>v. v \<noteq> r \<Longrightarrow> prog v = {}"
      using outside by metis+
    moreover have "min_current g = ours"
      by (simp add: min_current m_def True)
    ultimately show ?thesis
      using own by (cases "w = r") (auto intro: safe_idle safe_finished)
  next
    case False
    then have "m \<in> set others"
      by (simp add: m_def Min_in)
    then obtain v where v: "v \<noteq> r" "dget (ig_current g) v = Some m"
      using others by blast
    have m_finished: "finished sq prog m"
      using cur [OF v(2)] by (rule safe_finished)
    have above: "m < y" if "w \<noteq> r" "y \<in> prog w" for w y
    proof -
      have "w \<in> set ws"
        using outside that(2) by blast
      then obtain p where p: "dget (ig_current g) w = Some p"
        using all by blast
      then have "p \<in> set others"
        using others that(1) by blast
      then have "m \<le> p"
        by (auto simp: m_def)
      also have "p < y"
        using cur [OF p] that(2) by (simp add: safe_def)
      finally show ?thesis .
    qed
    show ?thesis
    proof (cases "ours \<noteq> 0 \<and> busy g")
      case True
      then have "safe sq prog r ours"
        using own by blast
      moreover from this have "finished sq prog (min m ours)"
        using m_finished by (auto simp: min_def safe_def)
      ultimately show ?thesis
        using above True by (cases "w = r") (auto simp: min_current safe_def min_less_iff_disj)
    next
      case idle: False
      have "prog r = {}"
      proof (cases "busy g")
        case False
        then show ?thesis by (rule idle_progress [OF shape prog])
      next
        case True
        then have "ours = 0" using idle by simp
        then have "r \<notin> set ws"
          using own safe_ge_1 by fastforce
        then show ?thesis by (rule outside)
      qed
      then show ?thesis
        using m_finished above idle by (cases "w = r") (auto simp: min_current safe_def)
    qed
  qed
qed

lemma skip_known_safe:
  assumes "\<And>w. safe sq prog w p" "\<forall>k\<in>set ks. finished sq prog k" "skip_known p ks = (p', ks')"
  shows "safe sq prog w p'" "set ks' \<subseteq> set ks" "p \<le> p'"
proof -
  have "(\<forall>w. safe sq prog w p') \<and> set ks' \<subseteq> set ks \<and> p \<le> p'"
    using assms
  proof (induction p ks rule: skip_known.induct)
    case (2 p k ks)
    have step: "safe sq prog w (p + 1)" if "k = p + 1" for w
    proof -
      have "finished sq prog (p + 1)"
        using 2(4) that by simp
      moreover have "p + 1 < y" if "y \<in> prog w" for y
        using 2(3) [of w] that \<open>finished sq prog (p + 1)\<close> unfolding safe_def finished_def
        by (metis order.not_eq_order_implies_strict zless_imp_add1_zle)
      ultimately show ?thesis
        by (simp add: safe_def)
    qed
    consider "k \<le> p" | "k = p + 1" | "p + 1 < k" by linarith
    then show ?case
    proof cases
      case 1
      then show ?thesis using 2 by auto
    next
      case 2
      then show ?thesis using "2.IH"(2) step "2.prems" by fastforce
    next
      case 3
      then show ?thesis using 2 by auto
    qed
  qed auto
  then show "safe sq prog w p'" "set ks' \<subseteq> set ks" "p \<le> p'"
    by simp_all
qed

lemma add_persisted_position_frame [simp]:
  "ig_instance (add_persisted_position n g) = ig_instance g"
  "ig_writers (add_persisted_position n g) = ig_writers g"
  "ig_positive (add_persisted_position n g) = ig_positive g"
  "ig_current (add_persisted_position n g) = ig_current g"
  "ig_unfinished (add_persisted_position n g) = ig_unfinished g"
  "ig_in_flight (add_persisted_position n g) = ig_in_flight g"
  "ig_finished (add_persisted_position n g) = ig_finished g"
  "ig_max_seen (add_persisted_position n g) = ig_max_seen g"
  by (simp_all add: add_persisted_position_def Let_def split: prod.split)

lemma gen_shape_add [simp]: "gen_shape ws pos r (add_persisted_position n g) fs = gen_shape ws pos r g fs"
  by (simp add: gen_shape_def)

lemma progress_ok_add [simp]: "progress_ok ws prog r (add_persisted_position n g) fs = progress_ok ws prog r g fs"
  by (simp add: progress_ok_def)

lemma gen_positions_add:
  assumes shape: "gen_shape ws pos r g fs" and prog: "progress_ok ws prog r g fs"
    and inv: "gen_positions sq prog r g" and new: "finished sq prog n"
  shows "gen_positions sq prog r (add_persisted_position n g)"
proof -
  note D = gen_positionsD [OF inv]
  define p where "p = max (min_current g) (ig_persisted g)"
  obtain p' ks' where skip: "skip_known p (insort n (ig_known g)) = (p', ks')"
    by fastforce
  have p: "safe sq prog w p" for w
    unfolding p_def using min_current_safe [OF shape prog D(1)] D(4) by (rule safe_max)
  have known: "\<forall>k\<in>set (insort n (ig_known g)). finished sq prog k"
    using D(3) new by (simp add: set_insort_key)
  note S = skip_known_safe [OF p known skip]
  have local: "safe sq prog r (max (ig_max_local g) p)"
    using D(5) p by (rule safe_max)
  have seen: "safe sq prog r (ig_max_seen g)" if "\<not> busy g"
    using idle_progress [OF shape prog that] D(6) by (auto intro: safe_idle)
  define h where "h = add_persisted_position n g"
  have h: "ig_known h = ks'" "ig_persisted h = p'"
    "ig_max_local h = (if \<not> busy g then max (ig_max_seen g) (max (ig_max_local g) p) else max (ig_max_local g) p)"
    using skip by (simp_all add: h_def add_persisted_position_def Let_def p_def)
  have "safe sq prog r (ig_max_local h)"
    unfolding h using local seen by (simp add: safe_max)
  moreover have "\<forall>k\<in>set (ig_known h). finished sq prog k"
    unfolding h using S(2) known by blast
  moreover have "\<forall>w. safe sq prog w (ig_persisted h)"
    unfolding h using S(1) by blast
  ultimately show ?thesis
    using D(1,2,6) unfolding gen_positions_def h_def by simp
qed

lemma gen_positions_fold_add:
  assumes "gen_shape ws pos r g fs" "progress_ok ws prog r g fs" "gen_positions sq prog r g"
    and "\<forall>n\<in>set ns. finished sq prog n"
  shows "gen_positions sq prog r (fold add_persisted_position ns g)
    \<and> gen_shape ws pos r (fold add_persisted_position ns g) fs
    \<and> progress_ok ws prog r (fold add_persisted_position ns g) fs"
  using assms
proof (induction ns arbitrary: g)
  case (Cons n ns)
  then show ?case
    using gen_positions_add [OF Cons.prems(1-3)] by simp
qed simp

lemma add_persisted_position_mono:
  "ig_persisted g \<le> ig_persisted (add_persisted_position n g)"
  "ig_max_local g \<le> ig_max_local (add_persisted_position n g)"
proof -
  have grow: "skip_known p ks = (p', ks') \<Longrightarrow> p \<le> p'" for p ks p' ks'
    by (induction p ks rule: skip_known.induct) (auto split: if_splits)
  show "ig_persisted g \<le> ig_persisted (add_persisted_position n g)"
    "ig_max_local g \<le> ig_max_local (add_persisted_position n g)"
    by (auto simp: add_persisted_position_def Let_def split: prod.splits dest!: grow)
qed

lemma fold_add_mono:
  "ig_persisted g \<le> ig_persisted (fold add_persisted_position ns g)"
  "ig_max_local g \<le> ig_max_local (fold add_persisted_position ns g)"
proof (induction ns arbitrary: g)
  case (Cons n ns)
  case 1
  then show ?case
    using order_trans [OF add_persisted_position_mono(1) Cons.IH(1)] by simp
  case 2
  then show ?case
    using order_trans [OF add_persisted_position_mono(2) Cons.IH(2)] by simp
qed simp_all

section \<open>Finishing ids\<close>

lemma settle_busy: "busy g \<Longrightarrow>
  settle g = Inr (largest (filter (\<lambda>s. s < min_unfinished g) (ig_finished g)),
    filter (\<lambda>s. \<not> s < min_unfinished g) (ig_finished g))"
  by (simp add: settle_def)

lemma largest_mem: "largest xs = Some m \<Longrightarrow> m \<in> set xs"
  by (auto simp: largest_def split: if_splits)

lemma settle_total: "ig_finished g \<noteq> [] \<Longrightarrow> \<exists>r. settle g = Inr r"
  by (simp add: settle_def largest_def)

text \<open>Nothing that the process has in progress comes before the smallest unfinished id.\<close>

lemma min_unfinished_least:
  assumes shape: "gen_shape ws pos r g fs" and prog: "progress_ok ws prog r g fs" and y: "y \<in> prog r"
  shows "min_unfinished g \<le> y" "busy g"
proof -
  have own: "y \<in> set (ig_unfinished g) \<or> y \<in> set (granted fs)"
    using prog y by (simp add: progress_ok_def)
  have hd_least: "hd xs \<le> x" if "sorted xs" "x \<in> set xs" for x :: int and xs
    using that by (cases xs) auto
  have unf: "hd (ig_unfinished g) \<le> y" if "y \<in> set (ig_unfinished g)"
    using shape that by (simp add: gen_shape_def hd_least)
  have gr: "hd (ig_in_flight g) + 1 \<le> y \<and> ig_in_flight g \<noteq> []" if "y \<in> set (granted fs)"
  proof -
    obtain f where f: "f \<in> set fs" "y \<in> set (granted_ids f)"
      using \<open>y \<in> set (granted fs)\<close> by (auto simp: granted_def)
    then have "fetch_mark f \<in> set (ig_in_flight g)"
      using shape mset_eq_setD [of "ig_in_flight g" "map fetch_mark fs"] by (simp add: gen_shape_def)
    moreover have "fetch_mark f < y"
      using shape f by (simp add: gen_shape_def)
    ultimately show ?thesis
      using shape hd_least [of "ig_in_flight g" "fetch_mark f"] by (force simp: gen_shape_def)
  qed
  show "busy g"
    using own gr by (auto simp: busy_def)
  show "min_unfinished g \<le> y"
    using own unf gr by (fastforce simp: min_unfinished_def)
qed

lemma settle_safe:
  assumes shape: "gen_shape ws pos r g fs" and prog: "progress_ok ws prog r g fs"
    and fin: "\<forall>x\<in>set (ig_finished g). finished sq prog x" and run: "settle g = Inr (cur, keep)"
  shows "cur = Some c \<Longrightarrow> safe sq prog r c" "set keep \<subseteq> set (ig_finished g)"
proof -
  show "set keep \<subseteq> set (ig_finished g)"
    using run by (auto simp: settle_def split: if_splits option.splits)
  assume cur: "cur = Some c"
  show "safe sq prog r c"
  proof (cases "busy g")
    case True
    then have "c \<in> set (filter (\<lambda>s. s < min_unfinished g) (ig_finished g))"
      using run cur by (auto simp: settle_busy dest: largest_mem)
    then show ?thesis
      using fin min_unfinished_least [OF shape prog] unfolding safe_def by fastforce
  next
    case False
    then have "c \<in> set (ig_finished g)"
      using run cur by (auto simp: settle_def dest: largest_mem split: option.splits)
    then show ?thesis
      using fin idle_progress [OF shape prog False] by (simp add: safe_idle)
  qed
qed

text \<open>What is done to the own position when ids are finished.\<close>

definition own_position :: "int option \<Rightarrow> id_gen \<Rightarrow> id_gen" where
  "own_position new_cur g = (case new_cur of
      None \<Rightarrow> g
    | Some c \<Rightarrow>
        if c = 0 then g
        else (let curr = position g (ig_instance g) 0 in
          g\<lparr>ig_current := dset (ig_instance g) (max curr c) (ig_current g),
             ig_max_local := max curr (max c (ig_max_local g))\<rparr>))"

definition drop_ids :: "int list \<Rightarrow> id_gen \<Rightarrow> id_gen" where
  "drop_ids next_ids g = g\<lparr>ig_unfinished := filter (\<lambda>i. i \<notin> set next_ids) (ig_unfinished g),
     ig_finished := set_union (ig_finished g) next_ids\<rparr>"

lemma mark_ids_as_finished_alt:
  "mark_ids_as_finished next_ids g = bindE (settle (drop_ids next_ids g)) (\<lambda>(new_cur, keep).
     Inr (fold add_persisted_position next_ids
       (own_position new_cur ((drop_ids next_ids g)\<lparr>ig_finished := keep\<rparr>))))"
  by (simp only: mark_ids_as_finished_def own_position_def drop_ids_def Let_def)

lemma gen_positions_evolves:
  assumes "gen_positions sq prog r g" "evolves sq prog sq' prog'"
    and "ig_max_seen g \<in> prog' r \<or> finished sq' prog' (ig_max_seen g)"
  shows "gen_positions sq' prog' r g"
  using gen_positionsD [OF assms(1)] assms(3)
    evolves_finished [OF assms(2)] evolves_safe [OF assms(2)]
  unfolding gen_positions_def by blast

lemma own_position_frame [simp]:
  "gen_shape ws pos r g fs \<Longrightarrow> gen_shape ws pos r (own_position c g) fs"
  "progress_ok ws prog r (own_position c g) fs = progress_ok ws prog r g fs"
  "ig_persisted (own_position c g) = ig_persisted g"
  "ig_max_seen (own_position c g) = ig_max_seen g"
  by (auto simp: own_position_def gen_shape_def progress_ok_def Let_def split: option.splits)

lemma safe_max_0: "safe sq prog w x \<Longrightarrow> safe sq prog w (max 0 x)"
  using safe_ge_1 [of sq prog w x] by (simp add: max_def)

lemma position_safe:
  assumes "\<And>w p. dget (ig_current g) w = Some p \<Longrightarrow> safe sq prog w p" "safe sq prog w c"
  shows "safe sq prog w (max (position g w 0) c)"
  using assms(1) [of w] assms(2) safe_max [of sq prog w _ c]
  by (cases "dget (ig_current g) w") (auto simp: position_def intro: safe_max_0)

lemma gen_positions_own_position:
  assumes inst: "ig_instance g = r" and inv: "gen_positions sq prog r g"
    and c: "\<And>c. new_cur = Some c \<Longrightarrow> safe sq prog r c"
  shows "gen_positions sq prog r (own_position new_cur g)"
proof (cases new_cur)
  case (Some c)
  note D = gen_positionsD [OF inv]
  have own: "safe sq prog r (max (position g r 0) c)"
    using position_safe [OF D(1)] c [OF Some] by blast
  have "max (position g r 0) (max c (ig_max_local g)) = max (max (position g r 0) c) (ig_max_local g)"
    by linarith
  moreover have "safe sq prog r (max (max (position g r 0) c) (ig_max_local g))"
    using own D(5) by (rule safe_max)
  ultimately show ?thesis
    using D own inst by (simp add: own_position_def Some Let_def gen_positions_def)
qed (use inv in \<open>simp add: own_position_def\<close>)

lemma mark_ids_total:
  assumes "next_ids \<noteq> []"
  shows "\<exists>g'. mark_ids_as_finished next_ids g = Inr g'"
proof -
  have "set (ig_finished (drop_ids next_ids g)) \<noteq> {}"
    using assms by (simp add: drop_ids_def set_set_union)
  then have "ig_finished (drop_ids next_ids g) \<noteq> []"
    by simp
  then obtain r where "settle (drop_ids next_ids g) = Inr r"
    using settle_total by blast
  then show ?thesis
    by (cases r) (simp add: mark_ids_as_finished_alt)
qed

lemma gen_shape_drop: "gen_shape ws pos r g fs \<Longrightarrow> gen_shape ws pos r (drop_ids ids g) fs"
  by (simp add: drop_ids_def gen_shape_def sorted_wrt_filter)

lemma mark_ids_sound:
  assumes run: "mark_ids_as_finished ids g = Inr g'" and shape: "gen_shape ws pos r g fs"
    and prog: "progress_ok ws prog' r (drop_ids ids g) fs" and inv: "gen_positions sq prog r g"
    and ev: "evolves sq prog sq prog'" and ids: "\<forall>i\<in>set ids. finished sq prog' i"
    and seen: "ig_max_seen g \<in> prog' r \<or> finished sq prog' (ig_max_seen g)"
  shows "gen_shape ws pos r g' fs" "progress_ok ws prog' r g' fs" "gen_positions sq prog' r g'"
proof -
  let ?g1 = "drop_ids ids g"
  obtain cur keep where settle: "settle ?g1 = Inr (cur, keep)"
    and g': "g' = fold add_persisted_position ids (own_position cur (?g1\<lparr>ig_finished := keep\<rparr>))"
    using run by (auto simp: mark_ids_as_finished_alt bindE_eq_Inr)
  let ?g2 = "?g1\<lparr>ig_finished := keep\<rparr>"
  have inv': "gen_positions sq prog' r g"
    using inv ev seen by (rule gen_positions_evolves)
  have fin: "\<forall>x\<in>set (ig_finished ?g1). finished sq prog' x"
    using gen_positionsD(2) [OF inv'] ids by (auto simp: drop_ids_def set_set_union)
  have shape1: "gen_shape ws pos r ?g1 fs"
    using shape by (rule gen_shape_drop)
  note S = settle_safe [OF shape1 prog fin settle]
  have shape2: "gen_shape ws pos r ?g2 fs" and prog2: "progress_ok ws prog' r ?g2 fs"
    using shape1 prog by (simp_all add: gen_shape_def progress_ok_def)
  have "gen_positions sq prog' r ?g2"
    using gen_positionsD [OF inv'] S(2) fin by (auto simp: gen_positions_def drop_ids_def)
  then have "gen_positions sq prog' r (own_position cur ?g2)"
    using gen_positions_own_position S(1) shape2 by (simp add: gen_shape_def)
  then show "gen_shape ws pos r g' fs" "progress_ok ws prog' r g' fs" "gen_positions sq prog' r g'"
    unfolding g' using gen_positions_fold_add [OF own_position_frame(1) [OF shape2] _ _ ids] prog2 by simp_all
qed

section \<open>Positions of other writers and fetches\<close>

lemma advance_sound:
  assumes shape: "gen_shape ws pos r g fs" and prog: "progress_ok ws prog r g fs"
    and inv: "gen_positions sq prog r g" and new: "safe sq prog w (p * return_factor g)"
  shows "gen_shape ws pos r (advance w p g) fs" "progress_ok ws prog r (advance w p g) fs"
    "gen_positions sq prog r (advance w p g)"
proof -
  define n where "n = p * return_factor g"
  let ?g = "g\<lparr>ig_current := dset w (max n (position g w 0)) (ig_current g), ig_max_seen := max (ig_max_seen g) n\<rparr>"
  note D = gen_positionsD [OF inv]
  have n: "safe sq prog w n"
    using new by (simp add: n_def)
  have adv: "advance w p g = add_persisted_position n ?g"
    by (simp only: advance_def n_def Let_def)
  have cur: "safe sq prog w (max n (position g w 0))"
    using position_safe [OF D(1) n] by (simp add: max.commute)
  have shape': "gen_shape ws pos r ?g fs" and prog': "progress_ok ws prog r ?g fs"
    using shape prog by (auto simp: gen_shape_def progress_ok_def)
  have "gen_positions sq prog r ?g"
    using D cur safe_finished [OF n] by (auto simp: gen_positions_def max_def)
  then show "gen_shape ws pos r (advance w p g) fs" "progress_ok ws prog r (advance w p g) fs"
    "gen_positions sq prog r (advance w p g)"
    unfolding adv using gen_positions_add [OF shape' prog'] safe_finished [OF n] shape' prog' by simp_all
qed

lemma gen_positions_cong:
  assumes "ig_current g' = ig_current g" "ig_finished g' = ig_finished g" "ig_known g' = ig_known g"
    "ig_persisted g' = ig_persisted g" "ig_max_local g' = ig_max_local g" "ig_max_seen g' = ig_max_seen g"
  shows "gen_positions sq prog r g' = gen_positions sq prog r g"
  using assms by (simp add: gen_positions_def)

lemma start_fetch_sound:
  assumes "start_fetch g = (m, g')" "gen_shape ws pos r g fs" "progress_ok ws prog r g fs" "gen_positions sq prog r g"
  shows "gen_shape ws pos r g' (fs @ [Asked m])" "progress_ok ws prog r g' (fs @ [Asked m])"
    "gen_positions sq prog r g'" "m = ig_max_seen g"
  using assms by (auto simp: start_fetch_def gen_shape_def progress_ok_def sorted_insort cong: gen_positions_cong)

lemma enter_ids_sound:
  assumes "enter_ids ids g = Inr g'" "gen_shape ws pos r g (xs @ Granted m ids # ys)"
    "progress_ok ws prog r g (xs @ Granted m ids # ys)" "gen_positions sq prog r g"
  shows "gen_shape ws pos r g' (xs @ Entered m ids # ys)" "progress_ok ws prog r g' (xs @ Entered m ids # ys)"
    "gen_positions sq prog r g'"
proof -
  define unf where "unf = insert_ids ids (ig_unfinished g)"
  have g': "unf \<noteq> []" "g' = g\<lparr>ig_unfinished := unf, ig_max_seen := max (ig_max_seen g) (last unf)\<rparr>"
    using assms(1) by (auto simp: enter_ids_def Let_def unf_def split: if_splits)
  have unf: "set unf = set ids \<union> set (ig_unfinished g)" "sorted unf"
    by (simp_all add: unf_def insert_ids_def)
  show "gen_shape ws pos r g' (xs @ Entered m ids # ys)"
    using assms(2) unf by (auto simp: gen_shape_def g')
  show prog: "progress_ok ws prog r g' (xs @ Entered m ids # ys)"
    using assms(3) unf by (auto simp: progress_ok_def g')
  have "last unf \<in> prog r"
    using prog g' last_in_set [OF g'(1)] by (auto simp: progress_ok_def)
  then show "gen_positions sq prog r g'"
    using assms(4) by (auto simp: gen_positions_def g' max_def)
qed

lemma enter_ids_total: "ids \<noteq> [] \<Longrightarrow> \<exists>g'. enter_ids ids g = Inr g'"
proof -
  assume "ids \<noteq> []"
  then have "set (insert_ids ids (ig_unfinished g)) \<noteq> {}"
    by (simp add: insert_ids_def)
  then have "insert_ids ids (ig_unfinished g) \<noteq> []"
    by auto
  then show ?thesis
    by (auto simp: enter_ids_def Let_def)
qed

lemma end_fetch_sound:
  assumes "gen_shape ws pos r g (xs @ f # ys)" "granted_ids f = []"
    "progress_ok ws prog r g (xs @ f # ys)" "gen_positions sq prog r g"
  shows "gen_shape ws pos r (end_fetch (fetch_mark f) g) (xs @ ys)"
    "progress_ok ws prog r (end_fetch (fetch_mark f) g) (xs @ ys)"
    "gen_positions sq prog r (end_fetch (fetch_mark f) g)"
proof -
  show "gen_shape ws pos r (end_fetch (fetch_mark f) g) (xs @ ys)"
    using assms(1) by (auto simp: gen_shape_def end_fetch_def sorted_remove1)
  show "progress_ok ws prog r (end_fetch (fetch_mark f) g) (xs @ ys)"
    using assms(2,3) by (simp add: progress_ok_def end_fetch_def)
  show "gen_positions sq prog r (end_fetch (fetch_mark f) g)"
    using assms(4) by (simp add: end_fetch_def gen_positions_def)
qed

section \<open>Starting up\<close>

text \<open>One row of the tables of the stream, as \<open>_load_current_ids\<close> takes it.\<close>

definition load_row :: "string \<times> int \<Rightarrow> id_gen \<Rightarrow> id_gen" where
  "load_row = (\<lambda>(inst, stream_id) h.
     let h' = add_persisted_position (return_factor h * stream_id) h in
     if inst = ig_instance h
     then h'\<lparr>ig_current := dset inst (return_factor h * stream_id) (ig_current h')\<rparr> else h')"

lemma load_row_frame [simp]:
  "ig_instance (load_row x h) = ig_instance h" "ig_writers (load_row x h) = ig_writers h"
  "return_factor (load_row x h) = return_factor h"
  by (simp_all add: load_row_def Let_def return_factor_def split: prod.split)

lemma load_row_position: "position (load_row (inst, i) h) (ig_instance h) d =
  (if inst = ig_instance h then return_factor h * i else position h (ig_instance h) d)"
  by (simp add: load_row_def Let_def position_def)

lemma fold_load_rows_frame [simp]:
  "ig_instance (fold load_row rows h) = ig_instance h" "ig_writers (fold load_row rows h) = ig_writers h"
  "return_factor (fold load_row rows h) = return_factor h"
  by (induction rows arbitrary: h) simp_all

lemma fold_load_rows:
  assumes "ig_instance h = r"
  shows "position (fold load_row rows h) r d =
    (let own = filter (\<lambda>(inst, _). inst = r) rows in
     if own = [] then position h r d else return_factor h * snd (last own))"
proof (induction rows rule: rev_induct)
  case (snoc x rows)
  obtain inst i where x: "x = (inst, i)" by (cases x)
  show ?case
    using snoc load_row_position [of inst i "fold load_row rows h" d] assms by (simp add: x)
qed simp

lemma last_sorted_Max:
  assumes "xs \<noteq> []" "sorted_wrt (\<lambda>a b. key a \<le> (key b::int)) xs"
  shows "key (last xs) = Max (key ` set xs)"
proof (rule Max_eqI [symmetric])
  fix y assume "y \<in> key ` set xs"
  then obtain x where "x \<in> set xs" "y = key x" by blast
  then show "y \<le> key (last xs)"
    using assms by (induction xs rule: rev_induct) (auto simp: sorted_wrt_append)
qed (use assms in auto)

text \<open>
  C35. What the own position is after a restart, if there are rows of the process itself: on a stream that
  runs forwards the last of them, but on one that runs backwards the first of them, the sort by stream
  id being ascending there too: every later row of its own counts as not yet reached.
\<close>

theorem own_position_after_restart:
  fixes rows_after :: "int \<Rightarrow> (string \<times> int) list"
  assumes "writers \<noteq> []" "r \<in> set writers" "r \<in> fst ` set rows" "rows_after = (\<lambda>_. rows)"
  shows "position (load_current_ids stream_positions (Some v) max_ids rows_after
      \<lparr>ig_instance = r, ig_writers = writers, ig_positive = pos, ig_current = [], ig_unfinished = [],
       ig_in_flight = [], ig_finished = [], ig_persisted = 1, ig_known = [], ig_max_seen = 1, ig_max_local = 1\<rparr>) r d
    = (if pos then Max {i. (r, i) \<in> set rows} else Min {- i |i. (r, i) \<in> set rows})"
proof -
  define factor :: int where "factor = (if pos then 1 else - 1)"
  define g0 where "g0 = \<lparr>ig_instance = r, ig_writers = writers, ig_positive = pos, ig_current = [], ig_unfinished = [],
    ig_in_flight = [], ig_finished = [], ig_persisted = 1, ig_known = [], ig_max_seen = 1, ig_max_local = 1\<rparr>"
  define current where "current = dset r v (map (\<lambda>(name, i). (name, i * return_factor g0))
    (filter (\<lambda>(name, _). name \<in> set writers) stream_positions))"
  define g where "g = g0\<lparr>ig_current := current, ig_persisted := Min (set (map snd current))\<rparr>"
  define sorted_rows where "sorted_rows = sort_key snd rows"
  define own where "own = filter (\<lambda>(inst, _). inst = r) sorted_rows"
  have "dget current r = Some v"
    by (simp add: current_def)
  then have "current \<noteq> []"
    by auto
  then have load: "load_current_ids stream_positions (Some v) max_ids rows_after g0 =
    fold (\<lambda>w h. if dget (ig_current h) w = None
      then h\<lparr>ig_current := dset w (ig_persisted h) (ig_current h)\<rparr> else h) writers (fold load_row sorted_rows g)"
  proof -
    have g0: "ig_instance g0 = r" "ig_writers g0 = writers" "ig_current g0 = []"
      by (simp_all add: g0_def)
    have "load_current_ids stream_positions (Some v) max_ids rows_after g0 =
      fold (\<lambda>w h. if dget (ig_current h) w = None
        then h\<lparr>ig_current := dset w (ig_persisted h) (ig_current h)\<rparr> else h)
        (ig_writers (fold load_row sorted_rows g)) (fold load_row sorted_rows g)"
      using assms(1,2) \<open>current \<noteq> []\<close>
      by (simp add: load_current_ids_def load_row_def Let_def g0 assms(4) current_def [symmetric] g_def sorted_rows_def)
    moreover have "ig_writers (fold load_row sorted_rows g) = writers"
      by (simp add: g_def g0)
    ultimately show ?thesis
      by simp
  qed
  have "own \<noteq> []"
    using assms(3) by (auto simp: own_def sorted_rows_def filter_empty_conv)
  have fill: "position (fold (\<lambda>w h. if dget (ig_current h) w = None
      then h\<lparr>ig_current := dset w (ig_persisted h) (ig_current h)\<rparr> else h) ws h) r d = p"
    if "dget (ig_current h) r = Some p" for ws h p
    using that
  proof (induction ws arbitrary: h)
    case (Cons w ws)
    have "dget (ig_current (if dget (ig_current h) w = None
        then h\<lparr>ig_current := dset w (ig_persisted h) (ig_current h)\<rparr> else h)) r = Some p"
      using Cons.prems by auto
    from Cons.IH [OF this] show ?case by simp
  qed (simp add: position_def)
  define p where "p = return_factor g * snd (last own)"
  have end_position: "position (fold load_row sorted_rows g) r d = p" for d
    using fold_load_rows [of g r sorted_rows d] \<open>own \<noteq> []\<close> by (simp add: own_def p_def g_def g0_def Let_def)
  have "dget (ig_current (fold load_row sorted_rows g)) r = Some p"
    using end_position [of p] end_position [of "p + 1"]
    by (cases "dget (ig_current (fold load_row sorted_rows g)) r") (simp_all add: position_def)
  then have position: "position (load_current_ids stream_positions (Some v) max_ids rows_after g0) r d = p"
    unfolding load by (rule fill)
  have "snd (last own) = Max (snd ` set own)"
    using \<open>own \<noteq> []\<close> by (intro last_sorted_Max) (simp_all add: own_def sorted_rows_def sorted_wrt_filter
        sorted_sort_key [unfolded sorted_map])
  also have "snd ` set own = {i. (r, i) \<in> set rows}"
    by (force simp: own_def sorted_rows_def)
  finally have last: "snd (last own) = Max {i. (r, i) \<in> set rows}" .
  have "{i. (r, i) \<in> set rows} = snd ` {x \<in> set rows. fst x = r}"
    by force
  then have ids: "finite {i. (r, i) \<in> set rows}" "{i. (r, i) \<in> set rows} \<noteq> {}"
    using assms(3) by auto
  have "- Max {i. (r, i) \<in> set rows} = Min {- i |i. (r, i) \<in> set rows}"
    using minus_Max_eq_Min [OF ids] by (simp add: setcompr_eq_image)
  then show ?thesis
    using position last by (simp add: p_def g_def g0_def return_factor_def)
qed

text \<open>A process that restarts with its rows -8, -9 and -10 takes 8 for its position, though it wrote up to 10.\<close>

theorem own_position_after_restart_witness:
  "position (load_current_ids [(''a'', -10), (''b'', -5)] (Some 10) [] (\<lambda>_. [(''a'', -8), (''a'', -10), (''a'', -9)])
      \<lparr>ig_instance = ''a'', ig_writers = [''a'', ''b''], ig_positive = False, ig_current = [], ig_unfinished = [],
       ig_in_flight = [], ig_finished = [], ig_persisted = 1, ig_known = [], ig_max_seen = 1, ig_max_local = 1\<rparr>) ''a'' 0
    = 8"
proof -
  have "{- i |i. (''a'', i) \<in> set [(''a'', -8), (''a'', -10), (''a'', -9)]}
      = uminus ` {i. (''a'', i) \<in> set [(''a'', -8), (''a'', -10), (''a'', -9)]}"
    by blast
  also have "{i. (''a'', i) \<in> set [(''a'', -8), (''a'', -10), (''a'', -9)]} = {-8, -10, -9::int}"
    by auto
  finally show ?thesis
    by (subst own_position_after_restart [where rows = "[(''a'', -8), (''a'', -10), (''a'', -9)]"]) simp_all
qed

end
