(* ===== verification/Stream_Writers.thy ===== *)
theory Stream_Writers
  imports Id_Generators_Props
begin

text \<open>
  The writers of a stream as a distributed system: processes with a generator each, a sequence in the
  database that they share, and messages with positions, which may be delayed, reordered and repeated.
  The invariant of every reachable state; that the tokens never pass an id in progress and never go
  back; that they catch up once nothing is in progress.
\<close>

section \<open>The system\<close>

text \<open>
  Of each process the generator, the fetches that run (\<open>_load_next_mult_id_txn\<close> between its holds of
  the lock) and the batches of ids that are open (the body of \<open>_MultiWriterCtxManager\<close>).
\<close>

record system =
  sys_seq :: int
  sys_gen :: "string \<Rightarrow> id_gen"
  sys_fetches :: "string \<Rightarrow> fetch list"
  sys_open :: "string \<Rightarrow> int list list"
  sys_msgs :: "(string \<times> int) set"

definition with_proc :: "string \<Rightarrow> id_gen \<Rightarrow> fetch list \<Rightarrow> system \<Rightarrow> system" where
  "with_proc r g fs s = s\<lparr>sys_gen := (sys_gen s)(r := g), sys_fetches := (sys_fetches s)(r := fs)\<rparr>"

text \<open>
  The database sequence gives new, larger values. A fetch fails if the database raises. \<open>announce\<close> is
  the position that a writer sends to the others, \<open>deliver\<close> is \<open>advance\<close> on one that was sent.
\<close>

inductive sys_step :: "system \<Rightarrow> system \<Rightarrow> bool" where
  ask: "check_writer (sys_gen s r) = Inr () \<Longrightarrow> start_fetch (sys_gen s r) = (m, g) \<Longrightarrow>
    sys_step s (with_proc r g (sys_fetches s r @ [Asked m]) s)"
| grant: "sys_fetches s r = xs @ Asked m # ys \<Longrightarrow> ids \<noteq> [] \<Longrightarrow> distinct ids \<Longrightarrow> list_all (\<lambda>i. sys_seq s < i) ids \<Longrightarrow>
    sys_step s (with_proc r (sys_gen s r) (xs @ Granted m ids # ys) s\<lparr>sys_seq := Max (set ids)\<rparr>)"
| enter: "sys_fetches s r = xs @ Granted m ids # ys \<Longrightarrow> enter_ids ids (sys_gen s r) = Inr g \<Longrightarrow>
    sys_step s (with_proc r g (xs @ Entered m ids # ys) s)"
| leave: "sys_fetches s r = xs @ Entered m ids # ys \<Longrightarrow>
    sys_step s (with_proc r (end_fetch m (sys_gen s r)) (xs @ ys) s\<lparr>sys_open := (sys_open s)(r := ids # sys_open s r)\<rparr>)"
| fail: "sys_fetches s r = xs @ Asked m # ys \<Longrightarrow>
    sys_step s (with_proc r (end_fetch m (sys_gen s r)) (xs @ ys) s)"
| finish: "sys_open s r = bs @ ids # cs \<Longrightarrow> mark_ids_as_finished ids (sys_gen s r) = Inr g \<Longrightarrow>
    sys_step s (with_proc r g (sys_fetches s r) s\<lparr>sys_open := (sys_open s)(r := bs @ cs)\<rparr>)"
| announce: "w \<in> set (ig_writers (sys_gen s w)) \<Longrightarrow>
    sys_step s (s\<lparr>sys_msgs := insert (w, get_current_token_for_writer w (sys_gen s w)) (sys_msgs s)\<rparr>)"
| deliver: "(w, p) \<in> sys_msgs s \<Longrightarrow> sys_step s (with_proc r (advance w p (sys_gen s r)) (sys_fetches s r) s)"

text \<open>
  All processes start on a stream whose largest id is \<open>v\<close>, also the last value of the sequence.
\<close>

definition sys_init :: "string list \<Rightarrow> bool \<Rightarrow> int \<Rightarrow> system" where
  "sys_init ws pos v = \<lparr>sys_seq = v,
     sys_gen = (\<lambda>r. new_id_gen r ws pos [] (Some v) [v] (\<lambda>_. [])),
     sys_fetches = (\<lambda>_. []), sys_open = (\<lambda>_. []), sys_msgs = {}\<rparr>"

inductive sys_reachable :: "string list \<Rightarrow> bool \<Rightarrow> int \<Rightarrow> system \<Rightarrow> bool" for ws pos v where
  init: "sys_reachable ws pos v (sys_init ws pos v)"
| step: "sys_reachable ws pos v s \<Longrightarrow> sys_step s s' \<Longrightarrow> sys_reachable ws pos v s'"

text \<open>The ids that a writer has in progress.\<close>

definition in_progress :: "system \<Rightarrow> string \<Rightarrow> int set" where
  "in_progress s w = set (ig_unfinished (sys_gen s w)) \<union> set (granted (sys_fetches s w))"

section \<open>The invariant\<close>

fun entered_ids :: "fetch \<Rightarrow> int list list" where
  "entered_ids (Entered m ids) = [ids]"
| "entered_ids _ = []"

text \<open>The batches that are going to be finished.\<close>

definition batches :: "system \<Rightarrow> string \<Rightarrow> int list set" where
  "batches s r = set (sys_open s r) \<union> set (concat (map entered_ids (sys_fetches s r)))"

definition sys_inv :: "string list \<Rightarrow> bool \<Rightarrow> system \<Rightarrow> bool" where
  "sys_inv ws pos s \<longleftrightarrow>
     ws \<noteq> []
     \<and> (\<forall>r. gen_shape ws pos r (sys_gen s r) (sys_fetches s r))
     \<and> (\<forall>r. gen_positions (sys_seq s) (in_progress s) r (sys_gen s r))
     \<and> (\<forall>r. r \<notin> set ws \<longrightarrow> sys_fetches s r = [] \<and> in_progress s r = {})
     \<and> (\<forall>r. distinct (granted (sys_fetches s r)))
     \<and> (\<forall>r. \<forall>f\<in>set (sys_fetches s r). fetch_mark f \<le> sys_seq s)
     \<and> (\<forall>r r'. r \<noteq> r' \<longrightarrow> in_progress s r \<inter> in_progress s r' = {})
     \<and> (\<forall>r. \<forall>y\<in>in_progress s r. 1 \<le> y \<and> y \<le> sys_seq s)
     \<and> (\<forall>r. \<forall>b\<in>batches s r. \<forall>i\<in>set b. 1 \<le> i \<and> i \<le> sys_seq s \<and> i \<notin> set (granted (sys_fetches s r))
          \<and> (\<forall>r'. r' \<noteq> r \<longrightarrow> i \<notin> in_progress s r'))
     \<and> (\<forall>(w, p)\<in>sys_msgs s. safe (sys_seq s) (in_progress s) w (p * (if pos then 1 else - 1)))"

lemma sys_invD:
  assumes "sys_inv ws pos s"
  shows "ws \<noteq> []"
    and "gen_shape ws pos r (sys_gen s r) (sys_fetches s r)"
    and "gen_positions (sys_seq s) (in_progress s) r (sys_gen s r)"
    and "r \<notin> set ws \<Longrightarrow> sys_fetches s r = []" and "r \<notin> set ws \<Longrightarrow> in_progress s r = {}"
    and "distinct (granted (sys_fetches s r))"
    and "f \<in> set (sys_fetches s r) \<Longrightarrow> fetch_mark f \<le> sys_seq s"
    and "y \<in> in_progress s r \<Longrightarrow> r \<noteq> r' \<Longrightarrow> y \<notin> in_progress s r'"
    and "y \<in> in_progress s r \<Longrightarrow> 1 \<le> y" and "y \<in> in_progress s r \<Longrightarrow> y \<le> sys_seq s"
    and "b \<in> batches s r \<Longrightarrow> i \<in> set b \<Longrightarrow> 1 \<le> i \<and> i \<le> sys_seq s
      \<and> i \<notin> set (granted (sys_fetches s r)) \<and> (\<forall>r'. r' \<noteq> r \<longrightarrow> i \<notin> in_progress s r')"
    and "(w, p) \<in> sys_msgs s \<Longrightarrow> safe (sys_seq s) (in_progress s) w (p * (if pos then 1 else - 1))"
proof -
  note inv = assms [unfolded sys_inv_def]
  show "ws \<noteq> []" "gen_shape ws pos r (sys_gen s r) (sys_fetches s r)"
    "gen_positions (sys_seq s) (in_progress s) r (sys_gen s r)"
    "distinct (granted (sys_fetches s r))"
    using inv by simp_all
  show "sys_fetches s r = []" "in_progress s r = {}" if "r \<notin> set ws"
    using inv that by simp_all
  show "fetch_mark f \<le> sys_seq s" if "f \<in> set (sys_fetches s r)"
    using inv that by (elim conjE) blast
  show "y \<notin> in_progress s r'" if "y \<in> in_progress s r" "r \<noteq> r'"
    using inv that by (elim conjE) blast
  show "1 \<le> y" "y \<le> sys_seq s" if "y \<in> in_progress s r"
    using inv that by simp_all
  show "1 \<le> i \<and> i \<le> sys_seq s \<and> i \<notin> set (granted (sys_fetches s r)) \<and> (\<forall>r'. r' \<noteq> r \<longrightarrow> i \<notin> in_progress s r')"
    if "b \<in> batches s r" "i \<in> set b"
    using inv that by simp
  show "safe (sys_seq s) (in_progress s) w (p * (if pos then 1 else - 1))" if "(w, p) \<in> sys_msgs s"
    using inv that by (elim conjE) (drule (1) bspec, simp)
qed

lemma sys_inv_progress_ok: "sys_inv ws pos s \<Longrightarrow> progress_ok ws (in_progress s) r (sys_gen s r) (sys_fetches s r)"
  using sys_invD(1,5) by (auto simp: progress_ok_def in_progress_def)

lemma sys_inv_factor: "sys_inv ws pos s \<Longrightarrow> return_factor (sys_gen s r) = (if pos then 1 else - 1)"
  using sys_invD(2) [of ws pos s r] by (simp add: gen_shape_def return_factor_def)

lemma with_proc_simps [simp]:
  "sys_gen (with_proc r g fs s) = (sys_gen s)(r := g)"
  "sys_fetches (with_proc r g fs s) = (sys_fetches s)(r := fs)"
  "sys_seq (with_proc r g fs s) = sys_seq s"
  "sys_open (with_proc r g fs s) = sys_open s"
  "sys_msgs (with_proc r g fs s) = sys_msgs s"
  by (simp_all add: with_proc_def)

text \<open>A step of one process keeps the invariant if it does so for the process itself.\<close>

lemma sys_inv_proc:
  assumes inv: "sys_inv ws pos s"
    and gens: "sys_gen s' = (sys_gen s)(r := g)" "sys_fetches s' = (sys_fetches s)(r := fs)"
      "\<And>r'. r' \<noteq> r \<Longrightarrow> sys_open s' r' = sys_open s r'" "sys_msgs s' = sys_msgs s"
    and seq: "sys_seq s \<le> sys_seq s'"
    and fresh: "\<And>y. y \<in> in_progress s' r \<Longrightarrow> y \<in> in_progress s r \<or> sys_seq s < y \<and> y \<le> sys_seq s'"
    and shape: "gen_shape ws pos r g fs"
    and positions: "gen_positions (sys_seq s') (in_progress s') r g"
    and writer: "r \<notin> set ws \<Longrightarrow> fs = [] \<and> in_progress s' r = {}"
    and dist: "distinct (granted fs)" and marks: "\<And>f. f \<in> set fs \<Longrightarrow> fetch_mark f \<le> sys_seq s'"
    and batch: "\<And>b i. b \<in> batches s' r \<Longrightarrow> i \<in> set b \<Longrightarrow>
      1 \<le> i \<and> i \<le> sys_seq s' \<and> i \<notin> set (granted fs) \<and> (\<forall>r'. r' \<noteq> r \<longrightarrow> i \<notin> in_progress s r')"
  shows "sys_inv ws pos s'"
proof -
  note D = sys_invD [OF inv]
  have same: "sys_gen s' r' = sys_gen s r'" "sys_fetches s' r' = sys_fetches s r'"
    "in_progress s' r' = in_progress s r'" "batches s' r' = batches s r'" if "r' \<noteq> r" for r'
    using that gens by (simp_all add: in_progress_def batches_def)
  have at_r: "sys_gen s' r = g" "sys_fetches s' r = fs"
    using gens by simp_all
  have ev: "evolves (sys_seq s) (in_progress s) (sys_seq s') (in_progress s')"
    unfolding evolves_def using seq fresh same(3) by (metis (full_types))
  have "gen_positions (sys_seq s') (in_progress s') q (sys_gen s' q)" for q
  proof (cases "q = r")
    case False
    have "ig_max_seen (sys_gen s q) \<in> in_progress s' q
        \<or> finished (sys_seq s') (in_progress s') (ig_max_seen (sys_gen s q))"
      using gen_positionsD(6) [OF D(3)] evolves_finished [OF ev] same(3) [OF False] by metis
    then show ?thesis
      using gen_positions_evolves [OF D(3) ev] same(1) [OF False] by simp
  qed (use positions at_r in simp)
  moreover have "gen_shape ws pos q (sys_gen s' q) (sys_fetches s' q)" for q
    using D(2) shape at_r same by (cases "q = r") simp_all
  moreover have "sys_fetches s' q = [] \<and> in_progress s' q = {}" if "q \<notin> set ws" for q
    using D(4,5) writer at_r same that by (cases "q = r") simp_all
  moreover have "distinct (granted (sys_fetches s' q))" for q
    using D(6) dist at_r same by (cases "q = r") simp_all
  moreover have "fetch_mark f \<le> sys_seq s'" if "f \<in> set (sys_fetches s' q)" for f q
    using D(7) [of f q] marks seq at_r same that by (cases "q = r") force+
  moreover have bounds: "1 \<le> y \<and> y \<le> sys_seq s'" if "y \<in> in_progress s' q" for y q
  proof -
    have "1 \<le> sys_seq s"
      using gen_positionsD(4) [OF D(3), of r r] by (simp add: safe_def finished_def)
    moreover have "y \<in> in_progress s q \<or> sys_seq s < y \<and> y \<le> sys_seq s'"
      using fresh [of y] that same(3) [of q] by (cases "q = r") auto
    ultimately show ?thesis
      using D(9,10) [of y q] seq by auto
  qed
  moreover have "in_progress s' q \<inter> in_progress s' q' = {}" if "q \<noteq> q'" for q q'
  proof -
    have "y \<notin> in_progress s' q'" if y: "y \<in> in_progress s' q" for y
      using fresh [of y] y D(8) [of y _ _] D(10) [of y] \<open>q \<noteq> q'\<close> same(3)
      by (cases "q = r"; cases "q' = r") (force simp: same)+
    then show ?thesis by blast
  qed
  moreover have "1 \<le> i \<and> i \<le> sys_seq s' \<and> i \<notin> set (granted (sys_fetches s' q))
      \<and> (\<forall>r'. r' \<noteq> q \<longrightarrow> i \<notin> in_progress s' r')" if "b \<in> batches s' q" "i \<in> set b" for b i q
  proof (cases "q = r")
    case True
    then show ?thesis using batch that same(3) at_r by auto
  next
    case False
    then have i: "1 \<le> i" "i \<le> sys_seq s" "i \<notin> set (granted (sys_fetches s q))" "\<And>r'. r' \<noteq> q \<Longrightarrow> i \<notin> in_progress s r'"
      using D(11) [of b q i] that same(4) by simp_all
    then have "i \<notin> in_progress s' r'" if "r' \<noteq> q" for r'
      using fresh [of i] that same(3) [of r'] by (cases "r' = r") auto
    then show ?thesis using i seq same(2) [OF False] by simp
  qed
  moreover have "safe (sys_seq s') (in_progress s') w (p * (if pos then 1 else - 1))" if "(w, p) \<in> sys_msgs s'" for w p
    using evolves_safe [OF ev] D(12) that gens(4) by simp
  ultimately show ?thesis
    unfolding sys_inv_def using D(1) by blast
qed

section \<open>The invariant is kept\<close>

lemma in_progress_with_proc:
  "in_progress (with_proc r g fs s) = (in_progress s)(r := set (ig_unfinished g) \<union> set (granted fs))"
  by (simp add: in_progress_def fun_eq_iff)

lemma check_writer_Inr: "check_writer g = Inr () \<Longrightarrow> ig_writers g = [] \<or> ig_instance g \<in> set (ig_writers g)"
  by (auto simp: check_writer_def guardE_def split: if_splits)

lemma sys_inv_quiet:
  assumes inv: "sys_inv ws pos s" and shape: "gen_shape ws pos r g fs"
    and prog: "progress_ok ws (in_progress s) r g fs" and positions: "gen_positions (sys_seq s) (in_progress s) r g"
    and gens: "sys_gen s' = (sys_gen s)(r := g)" "sys_fetches s' = (sys_fetches s)(r := fs)"
      "\<And>r'. r' \<noteq> r \<Longrightarrow> sys_open s' r' = sys_open s r'" "sys_msgs s' = sys_msgs s" "sys_seq s' = sys_seq s"
    and granted: "distinct (granted fs)" "set (granted fs) \<subseteq> set (granted (sys_fetches s r))"
    and marks: "\<And>f. f \<in> set fs \<Longrightarrow> fetch_mark f \<le> sys_seq s"
    and writer: "r \<notin> set ws \<Longrightarrow> fs = []"
    and batch: "\<And>b i. b \<in> batches s' r \<Longrightarrow> i \<in> set b \<Longrightarrow> b \<in> batches s r
      \<or> i \<in> in_progress s r \<and> i \<notin> set (granted fs)"
  shows "sys_inv ws pos s'"
proof -
  have same: "in_progress s' = in_progress s"
    using prog gens by (auto simp: in_progress_def progress_ok_def fun_eq_iff)
  have batch': "1 \<le> i \<and> i \<le> sys_seq s' \<and> i \<notin> set (granted fs) \<and> (\<forall>r'. r' \<noteq> r \<longrightarrow> i \<notin> in_progress s r')"
    if b: "b \<in> batches s' r" "i \<in> set b" for b i
    using batch [OF b]
  proof (elim disjE conjE)
    assume "b \<in> batches s r"
    then show ?thesis
      using sys_invD(11) [OF inv _ b(2)] granted(2) gens(5) by auto
  next
    assume i: "i \<in> in_progress s r" "i \<notin> set (granted fs)"
    show ?thesis
      using sys_invD(8-10) [OF inv i(1)] i(2) gens(5) by auto
  qed
  have "gen_positions (sys_seq s') (in_progress s') r g"
    using positions same gens(5) by simp
  moreover have "r \<notin> set ws \<Longrightarrow> fs = [] \<and> in_progress s' r = {}"
    using writer sys_invD(5) [OF inv] same by simp
  ultimately show ?thesis
    using sys_inv_proc [OF inv gens(1-4) _ _ shape _ _ granted(1) _ batch'] marks same gens(5) by simp
qed

lemma batches_with_proc [simp]:
  "batches (with_proc r g fs s) r = set (sys_open s r) \<union> set (concat (map entered_ids fs))"
  by (simp add: batches_def)

lemma sys_inv_ask:
  assumes inv: "sys_inv ws pos s" and chk: "check_writer (sys_gen s r) = Inr ()"
    and fetch: "start_fetch (sys_gen s r) = (m, g)"
  shows "sys_inv ws pos (with_proc r g (sys_fetches s r @ [Asked m]) s)"
proof -
  note D = sys_invD [OF inv]
  note S = start_fetch_sound [OF fetch D(2) sys_inv_progress_ok [OF inv] D(3)]
  have "r \<in> set ws"
    using check_writer_Inr [OF chk] D(2) [of r] D(1) by (simp add: gen_shape_def)
  moreover have "m \<le> sys_seq s"
    using gen_positionsD(6) [OF D(3) [of r]] D(10) S(4) by (auto simp: finished_def)
  ultimately show ?thesis
    using D(6,7) by (intro sys_inv_quiet [OF inv S(1-3)]) (auto simp: batches_def)
qed

lemma sys_inv_enter:
  assumes inv: "sys_inv ws pos s" and fs: "sys_fetches s r = xs @ Granted m ids # ys"
    and enter: "enter_ids ids (sys_gen s r) = Inr g"
  shows "sys_inv ws pos (with_proc r g (xs @ Entered m ids # ys) s)"
proof -
  note D = sys_invD [OF inv]
  note S = enter_ids_sound [OF enter D(2) [of r, unfolded fs] sys_inv_progress_ok [OF inv, of r, unfolded fs] D(3)]
  have "set ids \<subseteq> in_progress s r" "distinct (granted (xs @ Granted m ids # ys))"
    using fs D(6) [of r] by (auto simp: in_progress_def)
  moreover have "fetch_mark f \<le> sys_seq s" if "f \<in> set (xs @ Entered m ids # ys)" for f
    using D(7) [of _ r] fs that by force
  ultimately show ?thesis
    using fs D(4) [of r] by (intro sys_inv_quiet [OF inv S]) (auto simp: batches_def)
qed

lemma sys_inv_leave:
  assumes inv: "sys_inv ws pos s" and fs: "sys_fetches s r = xs @ Entered m ids # ys"
  shows "sys_inv ws pos (with_proc r (end_fetch m (sys_gen s r)) (xs @ ys)
    s\<lparr>sys_open := (sys_open s)(r := ids # sys_open s r)\<rparr>)"
proof -
  note D = sys_invD [OF inv]
  note S = end_fetch_sound [OF D(2) [of r, unfolded fs] _ sys_inv_progress_ok [OF inv, of r, unfolded fs] D(3), simplified]
  show ?thesis
    using fs D(4) [of r] D(6) [of r] D(7) [of _ r] by (intro sys_inv_quiet [OF inv S]) (auto simp: batches_def)
qed

lemma sys_inv_fail:
  assumes inv: "sys_inv ws pos s" and fs: "sys_fetches s r = xs @ Asked m # ys"
  shows "sys_inv ws pos (with_proc r (end_fetch m (sys_gen s r)) (xs @ ys) s)"
proof -
  note D = sys_invD [OF inv]
  note S = end_fetch_sound [OF D(2) [of r, unfolded fs] _ sys_inv_progress_ok [OF inv, of r, unfolded fs] D(3), simplified]
  show ?thesis
    using fs D(4) [of r] D(6) [of r] D(7) [of _ r] by (intro sys_inv_quiet [OF inv S]) (auto simp: batches_def)
qed

lemma sys_inv_deliver:
  assumes inv: "sys_inv ws pos s" and msg: "(w, p) \<in> sys_msgs s"
  shows "sys_inv ws pos (with_proc r (advance w p (sys_gen s r)) (sys_fetches s r) s)"
proof -
  note D = sys_invD [OF inv]
  have "safe (sys_seq s) (in_progress s) w (p * return_factor (sys_gen s r))"
    unfolding sys_inv_factor [OF inv] using D(12) [OF msg] .
  note S = advance_sound [OF D(2) sys_inv_progress_ok [OF inv] D(3) this]
  show ?thesis
    using D(4,6,7) by (intro sys_inv_quiet [OF inv S]) (auto simp: batches_def)
qed

lemma sys_inv_grant:
  assumes inv: "sys_inv ws pos s" and fs: "sys_fetches s r = xs @ Asked m # ys"
    and ids: "ids \<noteq> []" "distinct ids" "list_all (\<lambda>i. sys_seq s < i) ids"
  shows "sys_inv ws pos (with_proc r (sys_gen s r) (xs @ Granted m ids # ys) s\<lparr>sys_seq := Max (set ids)\<rparr>)"
proof -
  note D = sys_invD [OF inv]
  let ?fs = "xs @ Granted m ids # ys"
  let ?s = "with_proc r (sys_gen s r) ?fs s\<lparr>sys_seq := Max (set ids)\<rparr>"
  have new: "sys_seq s < i \<and> i \<le> Max (set ids)" if "i \<in> set ids" for i
    using ids(3) that by (auto simp: list_all_iff)
  have seq: "sys_seq s < Max (set ids)"
    using new [OF hd_in_set [OF ids(1)]] by linarith
  have prog: "in_progress ?s = (in_progress s)(r := in_progress s r \<union> set ids)"
    using fs by (auto simp: in_progress_def fun_eq_iff)
  have ev: "evolves (sys_seq s) (in_progress s) (Max (set ids)) (in_progress ?s)"
    using new seq unfolding prog by (auto simp: evolves_def)
  have seen: "ig_max_seen (sys_gen s r) \<in> in_progress ?s r
      \<or> finished (Max (set ids)) (in_progress ?s) (ig_max_seen (sys_gen s r))"
    using gen_positionsD(6) [OF D(3) [of r]] evolves_finished [OF ev] by (auto simp: prog)
  have positions: "gen_positions (Max (set ids)) (in_progress ?s) r (sys_gen s r)"
    using D(3) ev seen by (rule gen_positions_evolves)
  have old: "i \<notin> set ids" if "i \<in> set (granted (sys_fetches s r))" for i
    using D(10) [of i r] new that by (force simp: in_progress_def)
  have distinct: "distinct (granted ?fs)"
    using D(6) [of r] old ids(2) fs by auto
  have shape: "gen_shape ws pos r (sys_gen s r) ?fs"
    using D(2) [of r] D(7) [of "Asked m" r] new unfolding fs by (force simp: gen_shape_def)
  have marks: "fetch_mark f \<le> sys_seq ?s" if "f \<in> set ?fs" for f
  proof -
    have "\<exists>f'\<in>set (sys_fetches s r). fetch_mark f = fetch_mark f'"
      using that fs by auto
    then show ?thesis
      using D(7) seq by force
  qed
  have batch: "1 \<le> i \<and> i \<le> sys_seq ?s \<and> i \<notin> set (granted ?fs) \<and> (\<forall>r'. r' \<noteq> r \<longrightarrow> i \<notin> in_progress s r')"
    if b: "b \<in> batches ?s r" "i \<in> set b" for b i
  proof -
    have "b \<in> batches s r"
      using b(1) fs by (auto simp: batches_def)
    note i = D(11) [OF this b(2)]
    then have "i \<notin> set ids"
      using new by force
    then show ?thesis
      using i seq fs by auto
  qed
  show ?thesis
    using prog new seq D(4) [of r] fs positions
    by (intro sys_inv_proc [OF inv _ _ _ _ _ _ shape _ _ distinct marks batch]) auto
qed

lemma sys_inv_finish:
  assumes inv: "sys_inv ws pos s" and bs: "sys_open s r = bs @ ids # cs"
    and mark: "mark_ids_as_finished ids (sys_gen s r) = Inr g"
  shows "sys_inv ws pos (with_proc r g (sys_fetches s r) s\<lparr>sys_open := (sys_open s)(r := bs @ cs)\<rparr>)"
proof -
  note D = sys_invD [OF inv]
  let ?fs = "sys_fetches s r"
  let ?s = "with_proc r g ?fs s\<lparr>sys_open := (sys_open s)(r := bs @ cs)\<rparr>"
  define prog where "prog = (in_progress s)(r := set (ig_unfinished (drop_ids ids (sys_gen s r))) \<union> set (granted ?fs))"
  have ids: "1 \<le> i \<and> i \<le> sys_seq s \<and> i \<notin> set (granted ?fs) \<and> (\<forall>r'. r' \<noteq> r \<longrightarrow> i \<notin> in_progress s r')"
    if "i \<in> set ids" for i
    using D(11) [of ids r i] bs that by (auto simp: batches_def)
  have less: "prog w \<subseteq> in_progress s w" "w = r \<Longrightarrow> in_progress s w - set ids \<subseteq> prog w" for w
    by (auto simp: prog_def in_progress_def drop_ids_def)
  have ev: "evolves (sys_seq s) (in_progress s) (sys_seq s) prog"
    using less by (auto simp: evolves_def)
  have fin: "\<forall>i\<in>set ids. finished (sys_seq s) prog i"
    using ids by (auto simp: finished_def prog_def drop_ids_def)
  have seen: "ig_max_seen (sys_gen s r) \<in> prog r \<or> finished (sys_seq s) prog (ig_max_seen (sys_gen s r))"
    using gen_positionsD(6) [OF D(3) [of r]] evolves_finished [OF ev] fin less(2) [of r] by blast
  have ok: "progress_ok ws prog r (drop_ids ids (sys_gen s r)) ?fs"
  proof -
    have "prog w = {}" if "w \<notin> set ws" for w
      using less(1) [of w] D(5) [OF that] by blast
    then show ?thesis
      using D(1) by (simp add: progress_ok_def prog_def)
  qed
  note S = mark_ids_sound [OF mark D(2) ok D(3) ev fin seen]
  have same: "in_progress ?s = prog"
    using S(2) by (auto simp: in_progress_def prog_def progress_ok_def fun_eq_iff)
  have batch: "1 \<le> i \<and> i \<le> sys_seq ?s \<and> i \<notin> set (granted ?fs) \<and> (\<forall>r'. r' \<noteq> r \<longrightarrow> i \<notin> in_progress s r')"
    if b: "b \<in> batches ?s r" "i \<in> set b" for b i
  proof -
    have "b \<in> batches s r"
      using b(1) bs by (auto simp: batches_def)
    from D(11) [OF this b(2)] show ?thesis by simp
  qed
  have writer: "r \<notin> set ws \<Longrightarrow> ?fs = [] \<and> in_progress ?s r = {}"
    using D(4,5) less(1) [of r] same by blast
  show ?thesis
    using same less(1) S D(6,7)
    by (intro sys_inv_proc [OF inv _ _ _ _ _ _ S(1) _ writer _ _ batch]) auto
qed

lemma sys_inv_announce:
  assumes inv: "sys_inv ws pos s"
  shows "sys_inv ws pos (s\<lparr>sys_msgs := insert (w, get_current_token_for_writer w (sys_gen s w)) (sys_msgs s)\<rparr>)"
proof -
  note D = sys_invD [OF inv]
  have "ig_instance (sys_gen s w) = w"
    using D(2) [of w] by (simp add: gen_shape_def)
  then have "get_current_token_for_writer w (sys_gen s w) * (if pos then 1 else - 1) = ig_max_local (sys_gen s w)"
    using sys_inv_factor [OF inv, of w] by (simp add: get_current_token_for_writer_def)
  then have msg: "safe (sys_seq s) (in_progress s) w
      (get_current_token_for_writer w (sys_gen s w) * (if pos then 1 else - 1))"
    using gen_positionsD(5) [OF D(3)] by simp
  show ?thesis
    using inv msg unfolding sys_inv_def in_progress_def batches_def by simp
qed

section \<open>Reachable states\<close>

lemma fill_positions:
  fixes h :: id_gen
  defines "fill \<equiv> \<lambda>w (h::id_gen). if dget (ig_current h) w = None
    then h\<lparr>ig_current := dset w (ig_persisted h) (ig_current h)\<rparr> else h"
  assumes "ig_persisted h = v" "dict_ok (ig_current h)" "\<forall>w p. dget (ig_current h) w = Some p \<longrightarrow> p = v"
  shows "\<exists>c. fold fill ws h = h\<lparr>ig_current := c\<rparr> \<and> dict_ok c \<and> (\<forall>w p. dget c w = Some p \<longrightarrow> p = v)
    \<and> (\<forall>w. dget c w \<noteq> None \<longleftrightarrow> dget (ig_current h) w \<noteq> None \<or> w \<in> set ws)"
  using assms(2-4)
proof (induction ws arbitrary: h)
  case Nil
  then show ?case by (intro exI [of _ "ig_current h"]) auto
next
  case (Cons a ws)
  define h' where "h' = fill a h"
  have h': "h' = h\<lparr>ig_current := ig_current h'\<rparr>" "ig_persisted h' = v" "dict_ok (ig_current h')"
    "\<forall>w p. dget (ig_current h') w = Some p \<longrightarrow> p = v"
    "\<And>w. dget (ig_current h') w \<noteq> None \<longleftrightarrow> dget (ig_current h) w \<noteq> None \<or> w = a"
    using Cons.prems by (auto simp: h'_def fill_def split: if_splits)
  obtain c where c: "fold fill ws h' = h'\<lparr>ig_current := c\<rparr>" "dict_ok c" "\<forall>w p. dget c w = Some p \<longrightarrow> p = v"
    "\<forall>w. dget c w \<noteq> None \<longleftrightarrow> dget (ig_current h') w \<noteq> None \<or> w \<in> set ws"
    using Cons.IH [OF h'(2-4)] by (elim exE conjE) (rule that)
  have "fold fill (a # ws) h = h\<lparr>ig_current := c\<rparr>"
  proof -
    have "fold fill (a # ws) h = h'\<lparr>ig_current := c\<rparr>"
      using c(1) by (simp add: h'_def)
    also have "\<dots> = h\<lparr>ig_current := ig_current h'\<rparr>\<lparr>ig_current := c\<rparr>"
      using h'(1) by simp
    finally show ?thesis by simp
  qed
  moreover have "dget c w \<noteq> None \<longleftrightarrow> dget (ig_current h) w \<noteq> None \<or> w \<in> set (a # ws)" for w
    unfolding spec [OF c(4), of w] h'(5) by simp
  ultimately show ?case
    using c(2,3) by blast
qed

lemma new_id_gen_start:
  assumes "ws \<noteq> []" "1 \<le> v"
  shows "\<exists>c. new_id_gen r ws pos [] (Some v) [v] (\<lambda>_. []) =
      \<lparr>ig_instance = r, ig_writers = ws, ig_positive = pos, ig_current = c, ig_unfinished = [], ig_in_flight = [],
       ig_finished = [], ig_persisted = v, ig_known = [], ig_max_seen = v, ig_max_local = v\<rparr>
    \<and> dict_ok c \<and> (\<forall>w p. dget c w = Some p \<longrightarrow> p = v) \<and> (\<forall>w. dget c w \<noteq> None \<longleftrightarrow> w \<in> set ws)"
proof -
  define g where "g = \<lparr>ig_instance = r, ig_writers = ws, ig_positive = pos,
    ig_current = (if r \<in> set ws then [(r, v)] else []),
    ig_unfinished = [], ig_in_flight = [], ig_finished = [], ig_persisted = v, ig_known = [],
    ig_max_seen = 1, ig_max_local = 1\<rparr>"
  let ?fill = "\<lambda>w (h::id_gen). if dget (ig_current h) w = None
    then h\<lparr>ig_current := dset w (ig_persisted h) (ig_current h)\<rparr> else h"
  have g: "dict_ok (ig_current g)" "ig_persisted g = v" "\<forall>w p. dget (ig_current g) w = Some p \<longrightarrow> p = v"
    by (auto simp: g_def dict_ok_def split: if_splits)
  obtain c where c: "fold ?fill ws g = g\<lparr>ig_current := c\<rparr>" "dict_ok c" "\<forall>w p. dget c w = Some p \<longrightarrow> p = v"
    "\<forall>w. dget c w \<noteq> None \<longleftrightarrow> dget (ig_current g) w \<noteq> None \<or> w \<in> set ws"
    using fill_positions [OF g(2,1,3), where ws = ws] by blast
  have keys: "dget c w \<noteq> None \<longleftrightarrow> w \<in> set ws" for w
    using c(4) by (auto simp: g_def split: if_splits)
  have load: "load_current_ids [] (Some v) [v] (\<lambda>_. []) \<lparr>ig_instance = r, ig_writers = ws, ig_positive = pos,
      ig_current = [], ig_unfinished = [], ig_in_flight = [], ig_finished = [], ig_persisted = 1, ig_known = [],
      ig_max_seen = 1, ig_max_local = 1\<rparr> = fold ?fill ws g"
    using assms by (simp add: load_current_ids_def Let_def g_def dset_def)
  have seen: "largest (map snd c) = Some v"
  proof -
    have "set (map snd c) = {v}"
    proof (rule set_eqI, rule iffI)
      show "x \<in> {v}" if "x \<in> set (map snd c)" for x
        using that c(2,3) by (auto simp: dget_iff_mem)
      show "x \<in> set (map snd c)" if "x \<in> {v}" for x
      proof -
        obtain p where "dget c (hd ws) = Some p"
          using keys [of "hd ws"] assms(1) by auto
        then show ?thesis
          using that c(2,3) by (force simp: dget_iff_mem)
      qed
    qed
    then show ?thesis
      by (auto simp: largest_def)
  qed
  have "new_id_gen r ws pos [] (Some v) [v] (\<lambda>_. []) = g\<lparr>ig_current := c, ig_max_seen := v, ig_max_local := v\<rparr>"
    by (simp only: new_id_gen_def load c(1) Let_def) (simp add: g_def seen assms(1))
  then show ?thesis
    using c(2,3) keys by (intro exI [of _ c]) (simp add: g_def)
qed

lemma sys_inv_init:
  assumes "ws \<noteq> []" "1 \<le> v"
  shows "sys_inv ws pos (sys_init ws pos v)"
proof -
  have idle: "in_progress (sys_init ws pos v) r = {}" for r
    using new_id_gen_start [OF assms, of r pos] by (auto simp: in_progress_def sys_init_def)
  have safe: "safe v (in_progress (sys_init ws pos v)) w v" for w
    using assms(2) idle by (simp add: safe_def finished_def)
  have "gen_shape ws pos r (sys_gen (sys_init ws pos v) r) []" for r
    using new_id_gen_start [OF assms, of r pos] by (auto simp: gen_shape_def sys_init_def)
  moreover have "gen_positions v (in_progress (sys_init ws pos v)) r (sys_gen (sys_init ws pos v) r)" for r
    using new_id_gen_start [OF assms, of r pos] safe safe_finished [OF safe]
    by (auto simp: gen_positions_def sys_init_def)
  ultimately show ?thesis
    using assms(1) idle by (simp add: sys_inv_def sys_init_def batches_def)
qed

lemma sys_step_inv: "sys_step s s' \<Longrightarrow> sys_inv ws pos s \<Longrightarrow> sys_inv ws pos s'"
  by (induction rule: sys_step.induct)
    (auto intro: sys_inv_ask sys_inv_grant sys_inv_enter sys_inv_leave sys_inv_fail sys_inv_finish
      sys_inv_announce sys_inv_deliver)

lemma sys_reachable_inv:
  assumes "sys_reachable ws pos v s" "ws \<noteq> []" "1 \<le> v"
  shows "sys_inv ws pos s"
  using assms by induction (auto intro: sys_inv_init sys_step_inv)

text \<open>Only writers have a position.\<close>

definition keys_ok :: "string list \<Rightarrow> system \<Rightarrow> bool" where
  "keys_ok ws s \<longleftrightarrow> (\<forall>r w. dget (ig_current (sys_gen s r)) w \<noteq> None \<longrightarrow> w \<in> set ws)
     \<and> (\<forall>(w, p)\<in>sys_msgs s. w \<in> set ws)
     \<and> (\<forall>r. r \<notin> set ws \<longrightarrow> sys_fetches s r = [] \<and> sys_open s r = [])"

lemma fold_add_frame [simp]:
  "ig_current (fold add_persisted_position ns g) = ig_current g"
  "ig_max_seen (fold add_persisted_position ns g) = ig_max_seen g"
  by (induction ns arbitrary: g) simp_all

lemma mark_keys:
  assumes "mark_ids_as_finished ids g = Inr g'" "dget (ig_current g') w \<noteq> None"
  shows "w = ig_instance g \<or> dget (ig_current g) w \<noteq> None"
proof -
  obtain cur keep where "g' = fold add_persisted_position ids (own_position cur ((drop_ids ids g)\<lparr>ig_finished := keep\<rparr>))"
    using assms(1) by (auto simp: mark_ids_as_finished_alt)
  then show ?thesis
    using assms(2) by (auto simp: own_position_def drop_ids_def Let_def split: option.splits if_splits)
qed

lemma keys_ok_step:
  assumes "sys_step s s'" "sys_inv ws pos s" "keys_ok ws s"
  shows "keys_ok ws s'"
proof -
  note D = sys_invD [OF assms(2)]
  have inst: "ig_instance (sys_gen s r) = r" and writers: "ig_writers (sys_gen s r) = ws" for r
    using D(2) [of r] by (simp_all add: gen_shape_def)
  have keys: "dget (ig_current (sys_gen s r)) w \<noteq> None \<Longrightarrow> w \<in> set ws"
    and msgs: "(w, p) \<in> sys_msgs s \<Longrightarrow> w \<in> set ws"
    and idle: "r \<notin> set ws \<Longrightarrow> sys_fetches s r = [] \<and> sys_open s r = []" for r w p
    using assms(3) unfolding keys_ok_def by auto
  have busy: "r \<in> set ws" if "sys_fetches s r \<noteq> [] \<or> sys_open s r \<noteq> []" for r
    using idle that by blast
  show ?thesis
    using assms(1)
  proof cases
    case (ask r m g)
    then have "r \<in> set ws" "ig_current g = ig_current (sys_gen s r)"
      using check_writer_Inr [OF ask(2)] inst writers D(1) by (auto simp: start_fetch_def)
    then show ?thesis
      unfolding ask keys_ok_def using keys msgs idle by auto
  next
    case (grant r xs m ys ids)
    then show ?thesis
      unfolding grant(1) keys_ok_def using keys msgs idle busy [of r] grant(2) by auto
  next
    case (enter r xs m ids ys g)
    then have "ig_current g = ig_current (sys_gen s r)"
      by (auto simp: enter_ids_def Let_def split: if_splits)
    then show ?thesis
      unfolding enter(1) keys_ok_def using keys msgs idle busy [of r] enter(2) by auto
  next
    case (leave r xs m ids ys)
    then show ?thesis
      unfolding leave(1) keys_ok_def using keys msgs idle busy [of r] leave(2) by (auto simp: end_fetch_def)
  next
    case (fail r xs m ys)
    then show ?thesis
      unfolding fail(1) keys_ok_def using keys msgs idle busy [of r] fail(2) by (auto simp: end_fetch_def)
  next
    case (finish r bs ids cs g)
    have "w \<in> set ws" if "dget (ig_current g) w \<noteq> None" for w
      using mark_keys [OF finish(3) that] keys idle [of r] finish(2) inst [of r] by auto
    then show ?thesis
      unfolding finish(1) keys_ok_def using keys msgs idle busy [of r] finish(2) by auto
  next
    case (announce w)
    then show ?thesis
      unfolding announce(1) keys_ok_def using keys msgs idle writers by auto
  next
    case (deliver w p r)
    have "w' \<in> set ws" if "dget (ig_current (advance w p (sys_gen s r))) w' \<noteq> None" for w'
      using that msgs [OF deliver(2)] keys by (auto simp: advance_def Let_def split: if_splits)
    then show ?thesis
      unfolding deliver(1) keys_ok_def using keys msgs idle by auto
  qed
qed

lemma keys_ok_init:
  assumes "ws \<noteq> []" "1 \<le> v"
  shows "keys_ok ws (sys_init ws pos v)"
proof -
  have "w \<in> set ws" if "dget (ig_current (sys_gen (sys_init ws pos v) r)) w \<noteq> None" for r w
    using new_id_gen_start [OF assms, of r pos] that by (auto simp: sys_init_def)
  then show ?thesis
    by (auto simp: keys_ok_def) (simp_all add: sys_init_def)
qed

lemma sys_reachable_keys:
  assumes "sys_reachable ws pos v s" "ws \<noteq> []" "1 \<le> v"
  shows "keys_ok ws s"
  using assms
proof induction
  case init
  then show ?case by (rule keys_ok_init)
next
  case (step s s')
  then show ?case
    using keys_ok_step sys_reachable_inv by blast
qed

section \<open>Tokens are safe\<close>

lemma token_safe:
  assumes inv: "sys_inv ws pos s"
  defines "factor \<equiv> if pos then 1 else - 1"
  shows "safe (sys_seq s) (in_progress s) w (factor * get_current_token (sys_gen s r))"
    and "safe (sys_seq s) (in_progress s) w (factor * get_current_token_for_writer w (sys_gen s r))"
proof -
  note P = gen_positionsD [OF sys_invD(3) [OF inv]]
  have inst: "ig_instance (sys_gen s r) = r"
    using sys_invD(2) [OF inv, of r] by (simp add: gen_shape_def)
  show "safe (sys_seq s) (in_progress s) w (factor * get_current_token (sys_gen s r))"
    using P(4) sys_inv_factor [OF inv]
    by (simp add: get_current_token_def get_persisted_upto_position_def factor_def)
  have others: "safe (sys_seq s) (in_progress s) w
      (max (position (sys_gen s r) w (ig_persisted (sys_gen s r))) (ig_persisted (sys_gen s r)))"
    using P(1,4) by (intro safe_max) (auto simp: position_def split: option.splits)
  show "safe (sys_seq s) (in_progress s) w (factor * get_current_token_for_writer w (sys_gen s r))"
    using P(5) [of w] others inst sys_inv_factor [OF inv]
    by (auto simp: get_current_token_for_writer_def factor_def)
qed

text \<open>
  C3. However the processes of a stream interleave: whatever id a writer has in progress, the current
  token that any process gives out comes before it, and so does the token that any process knows for
  that writer. A reader at the token has not missed a row that is still to be written before it.
\<close>

theorem tokens_pass_nothing_in_progress:
  assumes "sys_reachable ws pos v s" "ws \<noteq> []" "1 \<le> v" "y \<in> in_progress s w"
  shows "(if pos then 1 else - 1) * get_current_token (sys_gen s r) < y
    \<and> (if pos then 1 else - 1) * get_current_token_for_writer w (sys_gen s r) < y"
  using token_safe [OF sys_reachable_inv [OF assms(1-3)]] assms(4) unfolding safe_def by blast

definition sample_init :: system where
  "sample_init = sys_init [''a'', ''b''] True 7"

definition sample_asked :: system where
  "sample_asked = with_proc ''a'' (snd (start_fetch (sys_gen sample_init ''a''))) [Asked 7] sample_init"

definition sample_granted :: system where
  "sample_granted = with_proc ''a'' (sys_gen sample_asked ''a'') [Granted 7 [8]] sample_asked\<lparr>sys_seq := 8\<rparr>"

lemma sample_granted_reachable: "sys_reachable [''a'', ''b''] True 7 sample_granted"
proof -
  have "sys_reachable [''a'', ''b''] True 7 sample_init"
    unfolding sample_init_def by (rule sys_reachable.init)
  moreover have "sys_step sample_init sample_asked"
  proof -
    have "check_writer (sys_gen sample_init ''a'') = Inr ()" "sys_fetches sample_init ''a'' = []"
      "fst (start_fetch (sys_gen sample_init ''a'')) = 7"
      by code_simp+
    then show ?thesis
      using sys_step.ask [of sample_init "''a''" 7 "snd (start_fetch (sys_gen sample_init ''a''))"]
      by (simp add: sample_asked_def prod_eq_iff)
  qed
  moreover have "sys_step sample_asked sample_granted"
  proof -
    have "sys_fetches sample_asked ''a'' = [Asked 7]" "sys_seq sample_asked = 7"
      by code_simp+
    then show ?thesis
      using sys_step.grant [of sample_asked "''a''" "[]" 7 "[]" "[8]"] by (simp add: sample_granted_def)
  qed
  ultimately show ?thesis
    by (blast intro: sys_reachable.step)
qed

theorem tokens_pass_nothing_in_progress_witness:
  "8 \<in> in_progress sample_granted ''a'' \<and> get_current_token (sys_gen sample_granted ''b'') < 8"
proof -
  have "8 \<in> in_progress sample_granted ''a''"
    by code_simp
  then show ?thesis
    using tokens_pass_nothing_in_progress [OF sample_granted_reachable, of 8 "''a''" "''b''"] by simp
qed

section \<open>Tokens do not go back\<close>

lemma mark_mono:
  assumes "mark_ids_as_finished ids g = Inr g'"
  shows "ig_persisted g \<le> ig_persisted g'" "ig_max_local g \<le> ig_max_local g'"
    "ig_instance g' = ig_instance g" "ig_positive g' = ig_positive g"
proof -
  obtain cur keep where g': "g' = fold add_persisted_position ids
      (own_position cur ((drop_ids ids g)\<lparr>ig_finished := keep\<rparr>))" (is "_ = fold _ _ ?h")
    using assms by (auto simp: mark_ids_as_finished_alt)
  have h: "ig_persisted ?h = ig_persisted g" "ig_max_local g \<le> ig_max_local ?h"
    "ig_instance ?h = ig_instance g" "ig_positive ?h = ig_positive g"
    by (auto simp: own_position_def drop_ids_def Let_def split: option.splits)
  have frame: "ig_instance (fold add_persisted_position ids k) = ig_instance k"
    "ig_positive (fold add_persisted_position ids k) = ig_positive k" for k
    by (induction ids arbitrary: k) simp_all
  show "ig_persisted g \<le> ig_persisted g'" "ig_max_local g \<le> ig_max_local g'"
    "ig_instance g' = ig_instance g" "ig_positive g' = ig_positive g"
    using h fold_add_mono [of ?h ids] unfolding g' frame by auto
qed

lemma advance_mono:
  "ig_persisted g \<le> ig_persisted (advance w p g)" "ig_max_local g \<le> ig_max_local (advance w p g)"
  "ig_instance (advance w p g) = ig_instance g" "ig_positive (advance w p g) = ig_positive g"
  unfolding advance_def Let_def
  using add_persisted_position_mono [of "g\<lparr>ig_current := c, ig_max_seen := m\<rparr>" n for c m n] by auto

lemma sys_step_mono:
  assumes "sys_step s s'"
  shows "ig_persisted (sys_gen s r) \<le> ig_persisted (sys_gen s' r)"
    and "ig_max_local (sys_gen s r) \<le> ig_max_local (sys_gen s' r)"
    and "ig_instance (sys_gen s' r) = ig_instance (sys_gen s r)"
    and "ig_positive (sys_gen s' r) = ig_positive (sys_gen s r)"
  using assms
  by (induction rule: sys_step.induct)
    (auto simp: start_fetch_def enter_ids_def end_fetch_def Let_def mark_mono advance_mono split: if_splits)

text \<open>
  C34. No step of the system takes a token back: the current token of a process, and the token of a
  writer on its own process, only move in the direction of the stream.
\<close>

theorem tokens_never_go_back:
  assumes "sys_step s s'"
  shows "if ig_positive (sys_gen s r)
    then get_current_token (sys_gen s r) \<le> get_current_token (sys_gen s' r)
      \<and> get_current_token_for_writer (ig_instance (sys_gen s r)) (sys_gen s r)
        \<le> get_current_token_for_writer (ig_instance (sys_gen s r)) (sys_gen s' r)
    else get_current_token (sys_gen s' r) \<le> get_current_token (sys_gen s r)
      \<and> get_current_token_for_writer (ig_instance (sys_gen s r)) (sys_gen s' r)
        \<le> get_current_token_for_writer (ig_instance (sys_gen s r)) (sys_gen s r)"
  using sys_step_mono [OF assms, of r]
  by (simp add: get_current_token_def get_persisted_upto_position_def get_current_token_for_writer_def
      return_factor_def)

definition sample_told :: system where
  "sample_told = sample_init\<lparr>sys_msgs := {(''a'', 9)}\<rparr>"

definition sample_heard :: system where
  "sample_heard = with_proc ''b'' (advance ''a'' 9 (sys_gen sample_told ''b'')) (sys_fetches sample_told ''b'') sample_told"

theorem tokens_never_go_back_witness:
  "get_current_token (sys_gen sample_told ''b'') \<le> get_current_token (sys_gen sample_heard ''b'')
    \<and> get_current_token (sys_gen sample_told ''b'') = 7 \<and> get_current_token (sys_gen sample_heard ''b'') = 9"
proof -
  have "sys_step sample_told sample_heard"
    unfolding sample_heard_def by (rule sys_step.deliver) (simp add: sample_told_def)
  moreover have "ig_positive (sys_gen sample_told ''b'')"
    "get_current_token (sys_gen sample_told ''b'') = 7" "get_current_token (sys_gen sample_heard ''b'') = 9"
    by code_simp+
  ultimately show ?thesis
    using tokens_never_go_back [of sample_told sample_heard "''b''"] by simp
qed

section \<open>Tokens catch up\<close>

text \<open>Writer \<open>w\<close> sends its position and process \<open>r\<close> receives it; everybody hears from every other writer.\<close>

definition hear :: "string \<times> string \<Rightarrow> system \<Rightarrow> system" where
  "hear = (\<lambda>(w, r) s.
     if w = r then s
     else
       (let p = get_current_token_for_writer w (sys_gen s w);
            s' = s\<lparr>sys_msgs := insert (w, p) (sys_msgs s)\<rparr>
        in with_proc r (advance w p (sys_gen s' r)) (sys_fetches s' r) s'))"

definition gossip :: "string list \<Rightarrow> string list \<Rightarrow> system \<Rightarrow> system" where
  "gossip ws procs = fold hear (List.product ws procs)"

text \<open>What holds while nothing is in progress.\<close>

definition at_rest :: "string list \<Rightarrow> bool \<Rightarrow> system \<Rightarrow> bool" where
  "at_rest ws pos s \<longleftrightarrow> sys_inv ws pos s \<and> keys_ok ws s \<and> (\<forall>r. \<not> busy (sys_gen s r))"

lemma hear_steps:
  assumes "at_rest ws pos s" "w \<in> set ws"
  shows "sys_step\<^sup>*\<^sup>* s (hear (w, r) s)"
proof (cases "w = r")
  case False
  have "w \<in> set (ig_writers (sys_gen s w))"
    using assms sys_invD(2) [of ws pos s w] by (simp add: at_rest_def gen_shape_def)
  note told = sys_step.announce [OF this]
  let ?p = "get_current_token_for_writer w (sys_gen s w)"
  let ?s = "s\<lparr>sys_msgs := insert (w, ?p) (sys_msgs s)\<rparr>"
  have "sys_step ?s (hear (w, r) s)"
    using sys_step.deliver [of w ?p ?s r] False by (simp add: hear_def Let_def)
  with told show ?thesis
    by (blast intro: converse_rtranclp_into_rtranclp)
qed (simp add: hear_def)

lemma at_rest_steps:
  assumes "sys_step\<^sup>*\<^sup>* s s'" "at_rest ws pos s" "\<forall>r. \<not> busy (sys_gen s' r)"
  shows "at_rest ws pos s'"
proof -
  have "sys_inv ws pos s' \<and> keys_ok ws s'"
    using assms(1,2)
    by (induction rule: rtranclp_induct) (auto simp: at_rest_def intro: sys_step_inv keys_ok_step)
  then show ?thesis
    using assms(3) by (simp add: at_rest_def)
qed

lemma hear_at_rest:
  assumes "at_rest ws pos s" "w \<in> set ws"
  shows "at_rest ws pos (hear (w, r) s)"
proof (rule at_rest_steps [OF hear_steps [OF assms] assms(1)])
  show "\<forall>q. \<not> busy (sys_gen (hear (w, r) s) q)"
    using assms(1) by (auto simp: hear_def Let_def advance_def busy_def at_rest_def)
qed

text \<open>The tokens of a process as positive numbers, and that they have reached a bound.\<close>

definition seen_upto :: "int \<Rightarrow> string \<Rightarrow> system \<Rightarrow> bool" where
  "seen_upto m r s \<longleftrightarrow> m \<le> ig_max_seen (sys_gen s r)"

definition local_upto :: "int \<Rightarrow> string \<Rightarrow> system \<Rightarrow> bool" where
  "local_upto m r s \<longleftrightarrow> m \<le> ig_max_local (sys_gen s r)"

definition knows_upto :: "int \<Rightarrow> string \<Rightarrow> string \<Rightarrow> system \<Rightarrow> bool" where
  "knows_upto m r w s \<longleftrightarrow> m \<le> position (sys_gen s r) w 0"

definition persisted_upto :: "int \<Rightarrow> string \<Rightarrow> system \<Rightarrow> bool" where
  "persisted_upto m r s \<longleftrightarrow> m \<le> ig_persisted (sys_gen s r)"

lemma hear_other: "q \<noteq> r \<Longrightarrow> sys_gen (hear (w, r) s) q = sys_gen s q"
  by (simp add: hear_def Let_def)

lemma hear_self: "w \<noteq> r \<Longrightarrow> at_rest ws pos s \<Longrightarrow> \<exists>g p. sys_gen (hear (w, r) s) r = add_persisted_position p g
    \<and> p = ig_max_local (sys_gen s w)
    \<and> g = (sys_gen s r)\<lparr>ig_current := dset w (max p (position (sys_gen s r) w 0)) (ig_current (sys_gen s r)),
        ig_max_seen := max (ig_max_seen (sys_gen s r)) p\<rparr>"
proof -
  assume a: "w \<noteq> r" "at_rest ws pos s"
  have "ig_instance (sys_gen s w) = w"
    using a(2) sys_invD(2) [of ws pos s w] by (simp add: at_rest_def gen_shape_def)
  moreover have "return_factor (sys_gen s q) = (if pos then 1 else - 1)" for q
    using a(2) sys_inv_factor [of ws pos s q] by (simp add: at_rest_def)
  ultimately have "get_current_token_for_writer w (sys_gen s w) * return_factor (sys_gen s r) = ig_max_local (sys_gen s w)"
    by (auto simp: get_current_token_for_writer_def)
  then show ?thesis
    using a(1) by (simp add: hear_def Let_def advance_def)
qed

lemma hear_mono:
  assumes "at_rest ws pos s"
  shows "seen_upto m q s \<Longrightarrow> seen_upto m q (hear x s)" "local_upto m q s \<Longrightarrow> local_upto m q (hear x s)"
    "knows_upto m q v s \<Longrightarrow> knows_upto m q v (hear x s)" "persisted_upto m q s \<Longrightarrow> persisted_upto m q (hear x s)"
proof -
  obtain w r where x: "x = (w, r)" by (cases x)
  consider "q \<noteq> r \<or> w = r" | "q = r" "w \<noteq> r" by blast
  then have "(seen_upto m q s \<longrightarrow> seen_upto m q (hear x s)) \<and> (local_upto m q s \<longrightarrow> local_upto m q (hear x s))
    \<and> (knows_upto m q v s \<longrightarrow> knows_upto m q v (hear x s)) \<and> (persisted_upto m q s \<longrightarrow> persisted_upto m q (hear x s))"
  proof cases
    case 1
    then have "sys_gen (hear x s) q = sys_gen s q"
      using x by (cases "w = r") (auto simp: hear_def Let_def)
    then show ?thesis
      by (simp add: seen_upto_def local_upto_def knows_upto_def persisted_upto_def)
  next
    case 2
    obtain g p where g: "sys_gen (hear x s) r = add_persisted_position p g"
      "g = (sys_gen s r)\<lparr>ig_current := dset w (max p (position (sys_gen s r) w 0)) (ig_current (sys_gen s r)),
        ig_max_seen := max (ig_max_seen (sys_gen s r)) p\<rparr>"
      using hear_self [OF 2(2) assms] x by blast
    show ?thesis
      unfolding seen_upto_def local_upto_def knows_upto_def persisted_upto_def 2(1) g(1)
      using add_persisted_position_mono [of g p] by (auto simp: g(2) position_def split: option.splits)
  qed
  then show "seen_upto m q s \<Longrightarrow> seen_upto m q (hear x s)" "local_upto m q s \<Longrightarrow> local_upto m q (hear x s)"
    "knows_upto m q v s \<Longrightarrow> knows_upto m q v (hear x s)" "persisted_upto m q s \<Longrightarrow> persisted_upto m q (hear x s)"
    by blast+
qed

lemma idle_max_local: "\<not> busy g \<Longrightarrow> ig_max_seen g \<le> ig_max_local (add_persisted_position p g)"
  by (auto simp: add_persisted_position_def Let_def split: prod.splits)

lemma min_current_persisted: "min_current g \<le> ig_persisted (add_persisted_position p g)"
proof -
  have "skip_known a ks = (a', ks') \<Longrightarrow> a \<le> a'" for a a' ks ks'
    by (induction a ks rule: skip_known.induct) (auto split: if_splits)
  then show ?thesis
    by (fastforce simp: add_persisted_position_def Let_def split: prod.splits)
qed

lemma min_current_idle:
  assumes "\<not> busy g" "dict_ok (ig_current g)" "dget (ig_current g) w \<noteq> None" "w \<noteq> ig_instance g"
    and "\<And>v. v \<noteq> ig_instance g \<Longrightarrow> dget (ig_current g) v \<noteq> None \<Longrightarrow> m \<le> position g v 0"
  shows "m \<le> min_current g"
proof -
  define others where "others = map snd (filter (\<lambda>(name, _). name \<noteq> ig_instance g) (ig_current g))"
  have "others \<noteq> []"
    using assms(2-4) by (auto simp: others_def dget_iff_mem filter_empty_conv)
  moreover have "m \<le> p" if "p \<in> set others" for p
    using that assms(2,5) by (force simp: others_def dget_iff_mem [symmetric] position_def)
  ultimately have "m \<le> Min (set others)"
    by simp
  moreover have "min_current g = Min (set others)"
    using assms(1) \<open>others \<noteq> []\<close> unfolding min_current_def Let_def others_def [symmetric] by simp
  ultimately show ?thesis
    by simp
qed

lemma hear_effect:
  assumes rest: "at_rest ws pos s" and w: "w \<noteq> r"
  shows "seen_upto m r s \<or> local_upto m w s \<Longrightarrow> local_upto m r (hear (w, r) s)"
    and "local_upto m w s \<Longrightarrow> knows_upto m r w (hear (w, r) s)"
    and "(\<And>v. v \<in> set ws \<Longrightarrow> v \<noteq> r \<Longrightarrow> knows_upto m r v s) \<Longrightarrow> w \<in> set ws \<Longrightarrow> persisted_upto m r (hear (w, r) s)"
proof -
  obtain g where g: "sys_gen (hear (w, r) s) r = add_persisted_position (ig_max_local (sys_gen s w)) g"
    "g = (sys_gen s r)\<lparr>ig_current := dset w (max (ig_max_local (sys_gen s w)) (position (sys_gen s r) w 0))
        (ig_current (sys_gen s r)), ig_max_seen := max (ig_max_seen (sys_gen s r)) (ig_max_local (sys_gen s w))\<rparr>"
    using hear_self [OF w rest] by blast
  have idle: "\<not> busy g"
    using rest by (simp add: g(2) busy_def at_rest_def)
  show "local_upto m r (hear (w, r) s)" if "seen_upto m r s \<or> local_upto m w s"
    using that idle_max_local [OF idle] unfolding local_upto_def seen_upto_def g(1)
    by (auto simp: g(2) intro: order_trans)
  show "knows_upto m r w (hear (w, r) s)" if "local_upto m w s"
    using that unfolding knows_upto_def local_upto_def g(1) by (simp add: g(2) position_def)
  show "persisted_upto m r (hear (w, r) s)"
    if known: "\<And>v. v \<in> set ws \<Longrightarrow> v \<noteq> r \<Longrightarrow> knows_upto m r v s" and "w \<in> set ws"
  proof -
    have shape: "ig_instance g = r" "dict_ok (ig_current g)"
      using rest sys_invD(2) [of ws pos s r] by (auto simp: at_rest_def gen_shape_def g(2))
    have "m \<le> position g v 0" if "v \<noteq> r" "dget (ig_current g) v \<noteq> None" for v
    proof -
      have "v \<in> set ws"
        using that rest \<open>w \<in> set ws\<close> by (auto simp: g(2) at_rest_def keys_ok_def split: if_splits)
      then show ?thesis
        using known [OF _ that(1)] by (auto simp: knows_upto_def g(2) position_def split: option.splits)
    qed
    then have "m \<le> min_current g"
      using shape w by (intro min_current_idle [OF idle, where w = w]) (auto simp: g(2))
    then show ?thesis
      using min_current_persisted order_trans unfolding persisted_upto_def g(1) by blast
  qed
qed

text \<open>What one item of a fold brings about and the others keep holds at its end.\<close>

lemma fold_brings:
  assumes "x \<in> set xs" "I s" "\<And>x s. x \<in> set xs \<Longrightarrow> I s \<Longrightarrow> I (f x s)"
    and "\<And>s. I s \<Longrightarrow> Q (f x s)" "\<And>y s. y \<in> set xs \<Longrightarrow> I s \<Longrightarrow> Q s \<Longrightarrow> Q (f y s)"
  shows "Q (fold f xs s)"
proof -
  obtain ys zs where xs: "xs = ys @ x # zs"
    using split_list [OF assms(1)] by blast
  have keep: "I (fold f us s) \<and> (Q s \<longrightarrow> Q (fold f us s))" if "set us \<subseteq> set xs" "I s" for us s
    using that by (induction us arbitrary: s) (auto simp: assms(3,5))
  have "I (fold f ys s)"
    using keep [of ys s] assms(2) xs by auto
  then have "I (f x (fold f ys s))" "Q (f x (fold f ys s))"
    using assms(3) [of x] assms(1,4) by auto
  then show ?thesis
    using keep [of zs "f x (fold f ys s)"] xs by auto
qed

lemma gossip_at_rest:
  assumes "at_rest ws pos s"
  shows "at_rest ws pos (gossip ws procs s)" "sys_step\<^sup>*\<^sup>* s (gossip ws procs s)"
proof -
  have "at_rest ws pos (fold hear xs s) \<and> sys_step\<^sup>*\<^sup>* s (fold hear xs s)"
    if "list_all (\<lambda>(w, r). w \<in> set ws) xs" for xs
    using assms that
  proof (induction xs arbitrary: s)
    case (Cons x xs)
    obtain w r where x: "x = (w, r)" by (cases x)
    have "w \<in> set ws" using Cons.prems(2) x by simp
    note h = hear_steps [OF Cons.prems(1) this, of r] hear_at_rest [OF Cons.prems(1) this, of r]
    show ?case
      using Cons.IH [OF h(2)] Cons.prems(2) h(1) x by (auto intro: rtranclp_trans)
  qed simp
  moreover have "list_all (\<lambda>(w, r). w \<in> set ws) (List.product ws procs)"
    by (auto simp: list_all_iff)
  ultimately show "at_rest ws pos (gossip ws procs s)" "sys_step\<^sup>*\<^sup>* s (gossip ws procs s)"
    by (simp_all add: gossip_def)
qed

text \<open>A round keeps what was reached, and what one writer can tell a process reaches it.\<close>

lemma gossip_brings:
  assumes rest: "at_rest ws pos s" and "w \<in> set ws" "r \<in> set procs" and I: "I s"
    and keep_I: "\<And>x s. at_rest ws pos s \<Longrightarrow> I s \<Longrightarrow> I (hear x s)"
    and "\<And>s. at_rest ws pos s \<Longrightarrow> I s \<Longrightarrow> Q (hear (w, r) s)"
    and "\<And>x s. at_rest ws pos s \<Longrightarrow> Q s \<Longrightarrow> Q (hear x s)"
  shows "Q (gossip ws procs s)"
  unfolding gossip_def
proof (rule fold_brings [where I = "\<lambda>s. at_rest ws pos s \<and> I s" and x = "(w, r)"])
  show "(w, r) \<in> set (List.product ws procs)"
    using assms(2,3) by simp
  show "at_rest ws pos (hear x s) \<and> I (hear x s)"
    if x_in: "x \<in> set (List.product ws procs)" and I: "at_rest ws pos s \<and> I s" for x s
  proof -
    obtain w' r' where x: "x = (w', r')"
      by (cases x)
    then have "w' \<in> set ws"
      using x_in by simp
    show ?thesis
      using I hear_at_rest [OF _ \<open>w' \<in> set ws\<close>] keep_I [of s x] x by blast
  qed
qed (use assms in auto)

lemma rounds_catch_up:
  assumes rest: "at_rest ws pos s" and ws: "distinct ws" "2 \<le> length ws" "set ws \<subseteq> set procs"
    and w: "w \<in> set ws" and r: "r \<in> set procs"
  defines "m \<equiv> ig_max_seen (sys_gen s w)"
  defines "s1 \<equiv> gossip ws procs s" defines "s2 \<equiv> gossip ws procs s1"
  defines "s3 \<equiv> gossip ws procs s2" defines "s4 \<equiv> gossip ws procs s3"
  shows "persisted_upto m r s4"
proof -
  have other: "\<exists>v. v \<in> set ws \<and> v \<noteq> q" for q
  proof (rule ccontr)
    assume "\<nexists>v. v \<in> set ws \<and> v \<noteq> q"
    then have "set ws \<subseteq> {q}" by blast
    then have "card (set ws) \<le> 1"
      using card_mono [of "{q}" "set ws"] by simp
    then show False
      using ws(1,2) by (simp add: distinct_card)
  qed
  note rest1 = gossip_at_rest(1) [OF rest, of procs, folded s1_def]
  note rest2 = gossip_at_rest(1) [OF rest1, of procs, folded s2_def]
  note rest3 = gossip_at_rest(1) [OF rest2, of procs, folded s3_def]
  obtain v where v: "v \<in> set ws" "v \<noteq> w" using other by blast
  have own: "local_upto m w s1"
    unfolding s1_def
  proof (rule gossip_brings [OF rest v(1), where I = "seen_upto m w" and r = w])
    show "seen_upto m w s" by (simp add: seen_upto_def m_def)
  qed (use w ws(3) v hear_mono hear_effect(1) in auto)
  have all: "local_upto m q s2" if "q \<in> set procs" for q
  proof (cases "q = w")
    case True
    show ?thesis
      unfolding s2_def True
      by (rule gossip_brings [where I = "local_upto m w" and r = w, OF rest1 v(1)]) (use own w ws(3) hear_mono in auto)
  next
    case False
    show ?thesis
      unfolding s2_def
      by (rule gossip_brings [where I = "local_upto m w", OF rest1 w that]) (use own False hear_mono hear_effect(1) in auto)
  qed
  have known: "knows_upto m q u s3" if "u \<in> set ws" "q \<in> set procs" "u \<noteq> q" for u q
  proof -
    have "local_upto m u s2" using all that(1) ws(3) by blast
    then show ?thesis
      unfolding s3_def
      by (rule gossip_brings [where I = "local_upto m u", OF rest2 that(1,2)]) (use that(3) hear_mono hear_effect(2) in auto)
  qed
  obtain u where u: "u \<in> set ws" "u \<noteq> r" using other by blast
  show ?thesis
    unfolding s4_def
  proof (rule gossip_brings [OF rest3 u(1) r, where I = "\<lambda>s. \<forall>v\<in>set ws. v \<noteq> r \<longrightarrow> knows_upto m r v s"])
    show "\<forall>v\<in>set ws. v \<noteq> r \<longrightarrow> knows_upto m r v s3"
      using known r by blast
    show "persisted_upto m r (hear (u, r) s)"
      if "at_rest ws pos s" "\<forall>v\<in>set ws. v \<noteq> r \<longrightarrow> knows_upto m r v s" for s
      using hear_effect(3) [OF that(1) u(2)] that(2) u(1) by blast
  qed (use hear_mono in auto)
qed

text \<open>
  C11. Whenever nothing is in progress on a stream with at least two writers, four rounds in which every
  process hears the position of every other writer take the current token of every process to all
  that any writer has seen: nothing that was written stays invisible.
\<close>

theorem tokens_catch_up:
  assumes "sys_reachable ws pos v s" "1 \<le> v" "distinct ws" "2 \<le> length ws" "set ws \<subseteq> set procs"
    and "\<forall>q. \<not> busy (sys_gen s q)" "w \<in> set ws" "r \<in> set procs"
  shows "\<exists>s'. s' = (gossip ws procs ^^ 4) s \<and> sys_step\<^sup>*\<^sup>* s s'
    \<and> ig_max_seen (sys_gen s w) \<le> (if pos then 1 else - 1) * get_current_token (sys_gen s' r)"
proof -
  have "ws \<noteq> []" using assms(4) by auto
  then have rest: "at_rest ws pos s"
    using sys_reachable_inv [OF assms(1) _ assms(2)] sys_reachable_keys [OF assms(1) _ assms(2)] assms(6)
    by (simp add: at_rest_def)
  let ?g = "gossip ws procs"
  have s': "(?g ^^ 4) s = ?g (?g (?g (?g s)))"
    by (simp add: numeral_eq_Suc)
  have steps: "sys_step\<^sup>*\<^sup>* s ((?g ^^ 4) s)" and rest': "at_rest ws pos ((?g ^^ 4) s)"
  proof -
    note g1 = gossip_at_rest [OF rest, of procs]
    note g2 = gossip_at_rest [OF g1(1), of procs]
    note g3 = gossip_at_rest [OF g2(1), of procs]
    note g4 = gossip_at_rest [OF g3(1), of procs]
    show "at_rest ws pos ((?g ^^ 4) s)"
      unfolding s' by (rule g4(1))
    show "sys_step\<^sup>*\<^sup>* s ((?g ^^ 4) s)"
      unfolding s' by (rule rtranclp_trans [OF rtranclp_trans [OF g1(2) g2(2)] rtranclp_trans [OF g3(2) g4(2)]])
  qed
  have "return_factor (sys_gen ((?g ^^ 4) s) r) = (if pos then 1 else - 1)"
    using sys_inv_factor [of ws pos _ r] rest' by (simp add: at_rest_def)
  moreover have "persisted_upto (ig_max_seen (sys_gen s w)) r ((?g ^^ 4) s)"
    unfolding s' by (rule rounds_catch_up [OF rest assms(3-5,7,8)])
  ultimately show ?thesis
    using steps by (auto simp: persisted_upto_def get_current_token_def get_persisted_upto_position_def)
qed

definition sample_entered :: system where
  "sample_entered = with_proc ''a'' (case enter_ids [8] (sys_gen sample_granted ''a'') of Inr g \<Rightarrow> g)
     [Entered 7 [8]] sample_granted"

definition sample_opened :: system where
  "sample_opened = with_proc ''a'' (end_fetch 7 (sys_gen sample_entered ''a'')) []
     sample_entered\<lparr>sys_open := (sys_open sample_entered)(''a'' := [[8]])\<rparr>"

definition sample_written :: system where
  "sample_written = with_proc ''a'' (case mark_ids_as_finished [8] (sys_gen sample_opened ''a'') of Inr g \<Rightarrow> g)
     (sys_fetches sample_opened ''a'') sample_opened\<lparr>sys_open := (sys_open sample_opened)(''a'' := [])\<rparr>"

lemma sample_written_reachable: "sys_reachable [''a'', ''b''] True 7 sample_written"
proof -
  have "sys_step sample_granted sample_entered"
  proof -
    have "sys_fetches sample_granted ''a'' = [Granted 7 [8]]"
      by code_simp
    moreover obtain g where "enter_ids [8] (sys_gen sample_granted ''a'') = Inr g"
      using enter_ids_total by blast
    ultimately show ?thesis
      using sys_step.enter [of sample_granted "''a''" "[]" 7 "[8]" "[]" g] by (simp add: sample_entered_def)
  qed
  moreover have "sys_step sample_entered sample_opened"
  proof -
    have "sys_fetches sample_entered ''a'' = [Entered 7 [8]]" "sys_open sample_entered ''a'' = []"
      by code_simp+
    then show ?thesis
      using sys_step.leave [of sample_entered "''a''" "[]" 7 "[8]" "[]"] by (simp add: sample_opened_def)
  qed
  moreover have "sys_step sample_opened sample_written"
  proof -
    have "sys_open sample_opened ''a'' = [[8]]"
      by code_simp
    moreover obtain g where "mark_ids_as_finished [8] (sys_gen sample_opened ''a'') = Inr g"
      using mark_ids_total [of "[8]"] by blast
    ultimately show ?thesis
      using sys_step.finish [of sample_opened "''a''" "[]" "[8]" "[]" g] by (simp add: sample_written_def)
  qed
  ultimately show ?thesis
    using sample_granted_reachable by (blast intro: sys_reachable.step)
qed

lemma sample_written_idle: "\<not> busy (sys_gen sample_written q)"
proof (cases "q = ''a''")
  case True
  have "\<not> busy (sys_gen sample_written ''a'')"
    by code_simp
  then show ?thesis using True by simp
next
  case False
  then have "sys_gen sample_written q = sys_gen sample_init q"
    by (simp add: sample_written_def sample_opened_def sample_entered_def sample_granted_def sample_asked_def)
  then show ?thesis
    using new_id_gen_start [of "[''a'', ''b'']" 7 q True] by (auto simp: sample_init_def sys_init_def busy_def)
qed

theorem tokens_catch_up_witness:
  "\<exists>s'. s' = (gossip [''a'', ''b''] [''a'', ''b''] ^^ 4) sample_written
    \<and> sys_step\<^sup>*\<^sup>* sample_written s' \<and> 8 \<le> get_current_token (sys_gen s' ''b'')
    \<and> get_current_token (sys_gen sample_written ''b'') = 7"
proof -
  have "ig_max_seen (sys_gen sample_written ''a'') = 8" "get_current_token (sys_gen sample_written ''b'') = 7"
    by code_simp+
  then show ?thesis
    using tokens_catch_up [OF sample_written_reachable, of "[''a'', ''b'']" "''a''" "''b''"] sample_written_idle
    by simp
qed

end
