(* ===== verification/Wheel_Timer.thy ===== *)
theory Wheel_Timer
  imports Py_Float
begin

text \<open>
  \<open>util/wheel_timer.py\<close>: objects in buckets of due times. A set of elements is a list without
  repetitions. The keys are computed with Python's division of integers, which is one of doubles;
  it is exact for times below 2 to the power of 52. A time of 2 to the power of 1024 or more, for which
  the division raises, has no key here.
\<close>

section \<open>The timer\<close>

record 'a wheel_entry =
  we_end_key :: int
  we_elements :: "'a list"

record 'a wheel_timer =
  wt_bucket_size :: int
  wt_entries :: "'a wheel_entry list"

definition new_wheel_timer :: "int \<Rightarrow> 'a wheel_timer" where
  "new_wheel_timer bucket_size = \<lparr>wt_bucket_size = bucket_size, wt_entries = []\<rparr>"

text \<open>\<open>int(x)\<close> for a finite double\<close>

fun int_of_float :: "pyfloat \<Rightarrow> int" where
  "int_of_float (Finite m e) = sgn m * ((\<bar>m\<bar> * scale_up e) div scale_up (- e))"
| "int_of_float _ = 0"

text \<open>\<open>int(t / self.bucket_size)\<close>\<close>

definition bucket_key :: "int \<Rightarrow> int \<Rightarrow> int" where
  "bucket_key bucket_size t = int_of_float (float_of_rat t bucket_size)"

definition add_element :: "'a \<Rightarrow> 'a wheel_entry \<Rightarrow> 'a wheel_entry" where
  "add_element obj e = e\<lparr>we_elements := set_add obj (we_elements e)\<rparr>"

definition wt_insert :: "int \<Rightarrow> 'a \<Rightarrow> int \<Rightarrow> 'a wheel_timer \<Rightarrow> 'a wheel_timer" where
  "wt_insert now obj then_ts w =
     (let then_key = bucket_key (wt_bucket_size w) then_ts + 1;
          now_key = bucket_key (wt_bucket_size w) now;
          entries = wt_entries w
      in if entries \<noteq> [] \<and> then_key \<le> we_end_key (last entries)
         then w\<lparr>wt_entries := (let min_key = we_end_key (hd entries); i = nat (max min_key then_key - min_key) in
                entries[i := add_element obj (entries ! i)])\<rparr>
         else
           (let last_key = (if entries \<noteq> [] then we_end_key (last entries) + 1 else now_key + 1);
                then_key' = max last_key then_key;
                extended = entries @ map (\<lambda>key. \<lparr>we_end_key = key, we_elements = []\<rparr>) [last_key..then_key']
            in w\<lparr>wt_entries := butlast extended @ [add_element obj (last extended)]\<rparr>))"

text \<open>Entries that are due are popped.\<close>

fun pop_due :: "int \<Rightarrow> 'a wheel_entry list \<Rightarrow> 'a list \<times> 'a wheel_entry list" where
  "pop_due now_key [] = ([], [])"
| "pop_due now_key (e # es) =
     (if we_end_key e \<le> now_key
      then (case pop_due now_key es of (ret, rest) \<Rightarrow> (we_elements e @ ret, rest))
      else ([], e # es))"

definition wt_fetch :: "int \<Rightarrow> 'a wheel_timer \<Rightarrow> 'a list \<times> 'a wheel_timer" where
  "wt_fetch now w =
     (case pop_due (bucket_key (wt_bucket_size w) now) (wt_entries w) of
        (ret, rest) \<Rightarrow> (ret, w\<lparr>wt_entries := rest\<rparr>))"

definition wt_len :: "'a wheel_timer \<Rightarrow> nat" where
  "wt_len w = sum_list (map (\<lambda>e. length (we_elements e)) (wt_entries w))"

section \<open>Keys are exact\<close>

lemma bit_len_bounds: "0 < n \<Longrightarrow> 2 ^ nat (bit_len n - 1) \<le> n \<and> n < 2 ^ nat (bit_len n) \<and> 1 \<le> bit_len n"
proof (induction n rule: bit_len.induct)
  case (1 n)
  show ?case
  proof (cases "n = 1")
    case True
    then show ?thesis by (simp add: bit_len.simps)
  next
    case False
    then have h: "0 < n div 2" using 1(2) by simp
    have "\<not> n \<le> 0" using 1(2) by simp
    note IH = 1(1) [OF this h]
    have len: "bit_len n = 1 + bit_len (n div 2)"
      using 1(2) by (subst bit_len.simps) simp
    have "2 ^ nat (bit_len n - 1) = 2 * (2::int) ^ nat (bit_len (n div 2) - 1)"
      using IH 1(2) unfolding len by (cases "nat (bit_len (n div 2))") (auto simp: nat_diff_distrib')
    moreover have "2 ^ nat (bit_len n) = 2 * (2::int) ^ nat (bit_len (n div 2))"
      using IH 1(2) unfolding len by (simp add: nat_add_distrib)
    moreover have "2 * (n div 2) \<le> n" "n < 2 * (n div 2) + 2"
      by linarith+
    ultimately show ?thesis
      using IH len by (intro conjI) linarith+
  qed
qed

lemma round_half_even_near:
  assumes "0 < q"
  shows "2 * p - q \<le> 2 * (round_half_even p q * q)" "2 * (round_half_even p q * q) \<le> 2 * p + q"
proof -
  define d r where "d = p div q" and "r = p mod q"
  have p: "p = d * q + r" and r: "0 \<le> r" "r < q"
    using assms by (simp_all add: d_def r_def)
  have "round_half_even p q = d \<and> 2 * r \<le> q \<or> round_half_even p q = d + 1 \<and> q \<le> 2 * r"
    by (auto simp: round_half_even_def Let_def d_def r_def)
  then show "2 * p - q \<le> 2 * (round_half_even p q * q)" "2 * (round_half_even p q * q) \<le> 2 * p + q"
    using r unfolding p by (auto simp: distrib_right)
qed

text \<open>Rounding a quotient at a scale finer than the denominator keeps its integral part.\<close>

lemma rounded_quotient_div:
  assumes q: "0 < q" "q < k" and p: "0 \<le> p"
  shows "round_half_even (p * k) q div k = p div q" "0 \<le> round_half_even (p * k) q"
proof -
  define m d r where "m = round_half_even (p * k) q" and "d = p div q" and "r = p mod q"
  have p_eq: "p = d * q + r" and r: "0 \<le> r" "r \<le> q - 1" and d: "0 \<le> d"
    using q p by (simp_all add: d_def r_def pos_imp_zdiv_nonneg_iff)
  have k: "0 < k" using q by simp
  note near = round_half_even_near [OF q(1), of "p * k", folded m_def]
  have "q * (2 * (d * k) - 1) \<le> q * (2 * m)"
  proof -
    have "0 \<le> r * k" using r(1) k by simp
    then show ?thesis
      using near(1) unfolding p_eq by (simp add: algebra_simps)
  qed
  then have "2 * (d * k) - 1 \<le> 2 * m"
    using q(1) by (simp only: mult_le_cancel_left_pos)
  then have low: "d * k \<le> m" by linarith
  have "q * (2 * m) < q * (2 * ((d + 1) * k))"
  proof -
    have "r * k \<le> (q - 1) * k"
      using r(2) k by (intro mult_right_mono) auto
    then show ?thesis
      using near(2) q unfolding p_eq by (simp add: algebra_simps)
  qed
  then have "2 * m < 2 * ((d + 1) * k)"
    using q(1) by (simp only: mult_less_cancel_left_pos)
  then have high: "m < (d + 1) * k" by linarith
  have "m div k = d"
    using low high by (intro int_div_pos_eq [of _ _ _ "m - d * k"]) (auto simp: algebra_simps)
  then show "round_half_even (p * k) q div k = p div q"
    by (simp add: m_def d_def)
  show "0 \<le> round_half_even (p * k) q"
    using low d k unfolding m_def [symmetric] by (meson mult_nonneg_nonneg order.strict_implies_order order_trans)
qed

lemma bit_len_le: "0 < n \<Longrightarrow> n < 2 ^ j \<Longrightarrow> bit_len n \<le> int j"
proof (rule ccontr)
  assume n: "0 < n" "n < 2 ^ j" and "\<not> bit_len n \<le> int j"
  then have "j \<le> nat (bit_len n - 1)" by simp
  then have "(2::int) ^ j \<le> 2 ^ nat (bit_len n - 1)"
    by (rule power_increasing) simp
  then show False
    using n bit_len_bounds [OF n(1)] by linarith
qed

definition key_bounds :: "int \<Rightarrow> int \<Rightarrow> bool" where
  "key_bounds b t \<longleftrightarrow> 0 < b \<and> b < 2 ^ 20 \<and> 0 \<le> t \<and> t < 2 ^ 52"

lemma bucket_key_exact:
  assumes "key_bounds b t"
  shows "bucket_key b t = t div b"
proof (cases "t = 0")
  case True
  then show ?thesis by (simp add: bucket_key_def float_of_rat_def)
next
  case False
  have b: "0 < b" "b < 2 ^ 20" and t: "0 < t" "t < 2 ^ 52"
    using assms False by (auto simp: key_bounds_def)
  define e0 e1 where "e0 = bit_len t - bit_len b - 53"
    and "e1 = (if t * scale_up (- e0) \<ge> 2 ^ 53 * b * scale_up e0 then e0 + 1 else e0)"
  have lens: "1 \<le> bit_len b" "bit_len b \<le> 20" "1 \<le> bit_len t" "bit_len t \<le> 52"
    using bit_len_bounds [OF b(1)] bit_len_bounds [OF t(1)] bit_len_le [OF b(1), of 20] bit_len_le [OF t(1), of 52]
      b(2) t(2) by simp_all
  then have e1: "max e1 (- 1074) = e1" "bit_len b \<le> - e1" "- e1 \<le> 72"
    by (auto simp: e0_def e1_def)
  define k :: int where "k = 2 ^ nat (- e1)"
  have k: "scale_up (- e1) = k" "scale_up e1 = 1"
    using e1(2) lens(1) by (simp_all add: scale_up_def k_def)
  have "2 ^ nat (bit_len b) \<le> k"
    unfolding k_def using e1(2) by (intro power_increasing) auto
  then have bk: "b < k"
    using bit_len_bounds [OF b(1)] by linarith
  define m where "m = round_half_even (t * k) b"
  have m: "m div k = t div b" "0 \<le> m"
    unfolding m_def using rounded_quotient_div [OF b(1) bk] t(1) by simp_all
  have "m < 2 ^ 1024"
  proof -
    have "m < (t div b + 1) * k"
    proof -
      have "m mod k < k" using bk b(1) by simp
      then show ?thesis
        using m(1) div_mult_mod_eq [of m k] by (simp add: algebra_simps)
    qed
    also have "\<dots> \<le> 2 ^ 52 * 2 ^ 72"
    proof (intro mult_mono)
      have "t div b \<le> t" using zdiv_mono2 [of t 1 b] b(1) t(1) by simp
      then show "t div b + 1 \<le> 2 ^ 52" using t(2) by linarith
      show "k \<le> 2 ^ 72"
        unfolding k_def using e1(3) by (intro power_increasing) auto
    qed (use bk b in auto)
    also have "\<dots> < (2::int) ^ 1024" by simp
    finally show ?thesis .
  qed
  then have "float_of_rat t b = Finite m e1"
    using False t(1)
    unfolding float_of_rat_def Let_def abs_of_pos [OF t(1)] e0_def [symmetric] e1_def [symmetric] e1(1) k
      mult_1_right m_def [symmetric]
    by simp
  then show ?thesis
    using m k by (cases "m = 0") (auto simp: bucket_key_def)
qed

lemma bucket_key_bounds:
  assumes "key_bounds b t"
  shows "bucket_key b t * b \<le> t" "t < (bucket_key b t + 1) * b"
proof -
  have b: "0 < b" using assms by (simp add: key_bounds_def)
  define q r where "q = t div b" and "r = t mod b"
  have "t = q * b + r" "0 \<le> r" "r < b"
    using b by (simp_all add: q_def r_def)
  then show "bucket_key b t * b \<le> t" "t < (bucket_key b t + 1) * b"
    unfolding bucket_key_exact [OF assms] q_def [symmetric] by (simp_all add: algebra_simps)
qed

section \<open>What is pending\<close>

text \<open>The end keys are consecutive.\<close>

definition wheel_ok :: "'a wheel_timer \<Rightarrow> bool" where
  "wheel_ok w \<longleftrightarrow> (\<forall>i<length (wt_entries w). we_end_key (wt_entries w ! i) = we_end_key (hd (wt_entries w)) + int i)"

definition pending :: "'a wheel_timer \<Rightarrow> (int \<times> 'a) set" where
  "pending w = {(we_end_key e, x) |e x. e \<in> set (wt_entries w) \<and> x \<in> set (we_elements e)}"

lemma pending_insert_at:
  assumes "i < length es"
  shows "{(we_end_key e, x) |e x. e \<in> set (es[i := add_element obj (es ! i)]) \<and> x \<in> set (we_elements e)}
    = insert (we_end_key (es ! i), obj) {(we_end_key e, x) |e x. e \<in> set es \<and> x \<in> set (we_elements e)}"
  (is "?A (es[i := ?e]) = _")
proof -
  have es: "es = take i es @ es ! i # drop (Suc i) es"
    using assms by (rule id_take_nth_drop)
  have upd: "es[i := ?e] = take i es @ ?e # drop (Suc i) es"
    using assms by (rule upd_conv_take_nth_drop)
  have split: "?A (xs @ y # ys) = ?A xs \<union> ?A ys \<union> {(we_end_key y, x) |x. x \<in> set (we_elements y)}" for xs y ys
    by auto
  have "{(we_end_key ?e, x) |x. x \<in> set (we_elements ?e)}
    = insert (we_end_key (es ! i), obj) {(we_end_key (es ! i), x) |x. x \<in> set (we_elements (es ! i))}"
    by (auto simp: add_element_def)
  then show ?thesis
    unfolding upd using split [of "take i es" ?e "drop (Suc i) es"] split [of "take i es" "es ! i" "drop (Suc i) es"]
      es by auto
qed

text \<open>The key under which \<open>insert\<close> files an object.\<close>

definition filed_key :: "int \<Rightarrow> int \<Rightarrow> 'a wheel_timer \<Rightarrow> int" where
  "filed_key now then_ts w =
     (let then_key = bucket_key (wt_bucket_size w) then_ts + 1 in
      if wt_entries w = [] then max (bucket_key (wt_bucket_size w) now + 1) then_key
      else max (we_end_key (hd (wt_entries w))) then_key)"

lemma pending_append: "pending \<lparr>wt_bucket_size = b, wt_entries = xs @ ys\<rparr> =
  pending \<lparr>wt_bucket_size = b, wt_entries = xs\<rparr> \<union> pending \<lparr>wt_bucket_size = b, wt_entries = ys\<rparr>"
  by (auto simp: pending_def)

lemma wheel_ok_last:
  assumes "wheel_ok w" "wt_entries w \<noteq> []"
  shows "we_end_key (last (wt_entries w)) = we_end_key (hd (wt_entries w)) + int (length (wt_entries w)) - 1"
  using assms by (auto simp: wheel_ok_def last_conv_nth of_nat_diff Suc_leI)

lemma wt_insert_correct:
  assumes "wheel_ok w"
  shows "pending (wt_insert now obj then_ts w) = insert (filed_key now then_ts w, obj) (pending w)"
    and "wheel_ok (wt_insert now obj then_ts w)"
    and "wt_bucket_size (wt_insert now obj then_ts w) = wt_bucket_size w"
    and "wt_entries (wt_insert now obj then_ts w) \<noteq> []"
    and "we_end_key (hd (wt_entries (wt_insert now obj then_ts w))) =
      (if wt_entries w = [] then bucket_key (wt_bucket_size w) now + 1 else we_end_key (hd (wt_entries w)))"
proof -
  obtain b es where w: "w = \<lparr>wt_bucket_size = b, wt_entries = es\<rparr>" by (cases w)
  define tk where "tk = bucket_key b then_ts + 1"
  define lk where "lk = (if es \<noteq> [] then we_end_key (last es) + 1 else bucket_key b now + 1)"
  have keys: "we_end_key (es ! i) = we_end_key (hd es) + int i" if "i < length es" for i
    using assms that by (simp add: wheel_ok_def w)
  have last: "we_end_key (last es) = we_end_key (hd es) + int (length es) - 1" if "es \<noteq> []"
    using wheel_ok_last [OF assms] that by (simp add: w)
  show "wt_bucket_size (wt_insert now obj then_ts w) = wt_bucket_size w"
    by (simp add: wt_insert_def Let_def)
  have "pending (wt_insert now obj then_ts w) = insert (filed_key now then_ts w, obj) (pending w)
    \<and> wheel_ok (wt_insert now obj then_ts w)
    \<and> wt_entries (wt_insert now obj then_ts w) \<noteq> []
    \<and> we_end_key (hd (wt_entries (wt_insert now obj then_ts w))) =
      (if wt_entries w = [] then bucket_key (wt_bucket_size w) now + 1 else we_end_key (hd (wt_entries w)))"
    (is "?P \<and> ?Q")
  proof (cases "es \<noteq> [] \<and> tk \<le> we_end_key (last es)")
    case True
    define i where "i = nat (max (we_end_key (hd es)) tk - we_end_key (hd es))"
    have i: "i < length es" "we_end_key (es ! i) = max (we_end_key (hd es)) tk"
    proof -
      have "int i < int (length es)"
        using True last by (cases es) (auto simp: i_def max_def)
      then show "i < length es" by simp
      then show "we_end_key (es ! i) = max (we_end_key (hd es)) tk"
        using keys by (simp add: i_def)
    qed
    have ins: "wt_insert now obj then_ts w = \<lparr>wt_bucket_size = b, wt_entries = es[i := add_element obj (es ! i)]\<rparr>"
      using True by (simp add: wt_insert_def w tk_def [symmetric] i_def [symmetric] Let_def)
    have ?P
      unfolding ins using pending_insert_at [OF i(1), of obj] True i(2)
      by (simp add: pending_def w filed_key_def Let_def tk_def)
    moreover have ?Q
    proof -
      have "we_end_key (hd (es[i := add_element obj (es ! i)])) = we_end_key (hd es)"
        using i(1) by (cases es; cases i) (auto simp: add_element_def)
      then show ?Q
        unfolding ins wheel_ok_def using keys i(1) True
        by (auto simp: nth_list_update add_element_def w)
    qed
    ultimately show ?thesis ..
  next
    case False
    define tk' where "tk' = max lk tk"
    define new where "new = map (\<lambda>key. \<lparr>we_end_key = key, we_elements = [] :: 'a list\<rparr>) [lk..tk']"
    have "lk \<le> tk'" by (simp add: tk'_def)
    then have upto: "[lk..tk'] = [lk..tk' - 1] @ [tk']"
      by (rule upto_rec2)
    have ins: "wt_insert now obj then_ts w = \<lparr>wt_bucket_size = b, wt_entries =
        es @ map (\<lambda>key. \<lparr>we_end_key = key, we_elements = []\<rparr>) [lk..tk' - 1]
        @ [add_element obj \<lparr>we_end_key = tk', we_elements = []\<rparr>]\<rparr>"
    proof -
      define fresh where "fresh = (\<lambda>key. \<lparr>we_end_key = key, we_elements = [] :: 'a list\<rparr>)"
      have "wt_insert now obj then_ts w = \<lparr>wt_bucket_size = b, wt_entries =
          butlast (es @ map fresh [lk..tk']) @ [add_element obj (last (es @ map fresh [lk..tk']))]\<rparr>"
        unfolding wt_insert_def Let_def w wheel_timer.simps tk_def [symmetric] lk_def [symmetric] tk'_def [symmetric]
          fresh_def [symmetric] if_not_P [OF False] ..
      then show ?thesis
        unfolding fresh_def [symmetric] upto by (simp add: butlast_append fresh_def)
    qed
    have filed: "filed_key now then_ts w = tk'"
      using False last by (cases es) (auto simp: filed_key_def w tk_def [symmetric] tk'_def lk_def Let_def max_def)
    have ?P
      unfolding ins filed by (force simp: pending_def w add_element_def set_add_def)
    moreover have ?Q
    proof -
      let ?full = "wt_entries (wt_insert now obj then_ts w)"
      have ends: "map we_end_key ?full = map we_end_key es @ [lk..tk']"
        unfolding ins upto by (simp add: add_element_def comp_def)
      have nth: "we_end_key (?full ! i) = (if i < length es then we_end_key (hd es) + int i else lk + int (i - length es))"
        if "i < length ?full" for i
      proof -
        have "we_end_key (?full ! i) = (map we_end_key es @ [lk..tk']) ! i"
          using nth_map [OF that, of we_end_key] ends by simp
        moreover have "i < length es + nat (tk' - lk + 1)"
          using that arg_cong [OF ends, of length] by simp
        ultimately show ?thesis
          using keys by (auto simp: nth_append)
      qed
      have "0 < length ?full" by (simp add: ins)
      then have first: "we_end_key (hd ?full) = (if es = [] then lk else we_end_key (hd es))"
        using nth [of 0] by (auto simp: hd_conv_nth split: if_splits)
      then have "wheel_ok (wt_insert now obj then_ts w)"
        using nth last by (auto simp: wheel_ok_def lk_def split: if_splits)
      then show ?Q
        using first \<open>0 < length ?full\<close> by (simp add: w lk_def)
    qed
    ultimately show ?thesis ..
  qed
  then show "pending (wt_insert now obj then_ts w) = insert (filed_key now then_ts w, obj) (pending w)"
    "wheel_ok (wt_insert now obj then_ts w)" "wt_entries (wt_insert now obj then_ts w) \<noteq> []"
    "we_end_key (hd (wt_entries (wt_insert now obj then_ts w))) =
      (if wt_entries w = [] then bucket_key (wt_bucket_size w) now + 1 else we_end_key (hd (wt_entries w)))"
    by blast+
qed

lemma filed_key_after:
  assumes "key_bounds (wt_bucket_size w) then_ts"
  shows "then_ts < filed_key now then_ts w * wt_bucket_size w"
proof -
  have b: "0 \<le> wt_bucket_size w" using assms by (simp add: key_bounds_def)
  have "bucket_key (wt_bucket_size w) then_ts + 1 \<le> filed_key now then_ts w"
    by (simp add: filed_key_def Let_def)
  from mult_right_mono [OF this b] show ?thesis
    using bucket_key_bounds(2) [OF assms] by linarith
qed

lemma pop_due_correct:
  assumes "pop_due k es = (ret, rest)"
    and "\<forall>i<length es. we_end_key (es ! i) = we_end_key (hd es) + int i"
  shows "set ret = {x. \<exists>e\<in>set es. we_end_key e \<le> k \<and> x \<in> set (we_elements e)}"
    and "rest = filter (\<lambda>e. k < we_end_key e) es"
    and "\<forall>i<length rest. we_end_key (rest ! i) = we_end_key (hd rest) + int i"
proof -
  have "set ret = {x. \<exists>e\<in>set es. we_end_key e \<le> k \<and> x \<in> set (we_elements e)}
    \<and> rest = filter (\<lambda>e. k < we_end_key e) es
    \<and> (\<forall>i<length rest. we_end_key (rest ! i) = we_end_key (hd rest) + int i)"
    using assms
  proof (induction es arbitrary: ret rest)
    case (Cons e es)
    have tail: "\<forall>i<length es. we_end_key (es ! i) = we_end_key (hd es) + int i"
    proof (intro allI impI)
      fix i assume i: "i < length es"
      then have "we_end_key (es ! i) = we_end_key e + int (Suc i)"
        using Cons.prems(2) by (metis Suc_less_eq length_Cons list.sel(1) nth_Cons_Suc)
      moreover have "we_end_key (hd es) = we_end_key e + 1"
        using Cons.prems(2) i by (cases es) (auto dest: spec [of _ 1])
      ultimately show "we_end_key (es ! i) = we_end_key (hd es) + int i" by simp
    qed
    show ?case
    proof (cases "we_end_key e \<le> k")
      case True
      obtain ret' rest' where pop: "pop_due k es = (ret', rest')" by fastforce
      then show ?thesis
        using Cons.IH [OF pop tail] Cons.prems(1) True by auto
    next
      case False
      have later: "k < we_end_key d" if "d \<in> set (e # es)" for d
        using that Cons.prems(2) False by (force simp: in_set_conv_nth)
      then have "filter (\<lambda>e. k < we_end_key e) (e # es) = e # es"
        by (simp add: filter_id_conv)
      then show ?thesis
        using Cons.prems False later by fastforce
    qed
  qed simp
  then show "set ret = {x. \<exists>e\<in>set es. we_end_key e \<le> k \<and> x \<in> set (we_elements e)}"
    "rest = filter (\<lambda>e. k < we_end_key e) es"
    "\<forall>i<length rest. we_end_key (rest ! i) = we_end_key (hd rest) + int i"
    by blast+
qed

lemma filter_first:
  assumes "filter P xs \<noteq> []"
  shows "\<exists>i<length xs. hd (filter P xs) = xs ! i \<and> (\<forall>j<i. \<not> P (xs ! j))"
  using assms
proof (induction xs)
  case (Cons x xs)
  show ?case
  proof (cases "P x")
    case True
    then show ?thesis by (intro exI [of _ 0]) simp
  next
    case False
    then obtain i where "i < length xs" "hd (filter P xs) = xs ! i" "\<forall>j<i. \<not> P (xs ! j)"
      using Cons by auto
    then show ?thesis
      using False by (intro exI [of _ "Suc i"]) (auto simp: less_Suc_eq_0_disj)
  qed
qed simp

lemma pop_due_first:
  assumes "pop_due k es = (ret, rest)" "rest \<noteq> []"
    and "\<forall>i<length es. we_end_key (es ! i) = we_end_key (hd es) + int i"
  shows "we_end_key (hd rest) \<le> max (we_end_key (hd es)) (k + 1)"
proof -
  define e where "e = hd rest"
  have rest: "rest = filter (\<lambda>e. k < we_end_key e) es"
    by (rule pop_due_correct(2) [OF assms(1,3)])
  obtain i where i: "i < length es" "e = es ! i" "\<forall>j<i. we_end_key (es ! j) \<le> k"
    using filter_first [OF assms(2) [unfolded rest]] unfolding e_def rest not_less by blast
  show ?thesis
  proof (cases i)
    case 0
    then show ?thesis using i assms(3) e_def by auto
  next
    case (Suc j)
    then have "we_end_key (es ! j) \<le> k" "we_end_key e = we_end_key (es ! j) + 1"
      using i assms(3) by auto
    then show ?thesis by (simp add: e_def)
  qed
qed

lemma wt_fetch_correct:
  assumes "wheel_ok w" "wt_fetch now w = (ret, w')"
  defines "k \<equiv> bucket_key (wt_bucket_size w) now"
  shows "set ret = {x. \<exists>d\<le>k. (d, x) \<in> pending w}"
    and "pending w' = {(d, x) \<in> pending w. k < d}"
    and "wheel_ok w'" and "wt_bucket_size w' = wt_bucket_size w"
proof -
  obtain rest where pop: "pop_due k (wt_entries w) = (ret, rest)" and w': "w' = w\<lparr>wt_entries := rest\<rparr>"
    using assms(2) by (auto simp: wt_fetch_def k_def split: prod.splits)
  note P = pop_due_correct [OF pop assms(1) [unfolded wheel_ok_def]]
  show "set ret = {x. \<exists>d\<le>k. (d, x) \<in> pending w}"
    unfolding P(1) by (auto simp: pending_def)
  show "pending w' = {(d, x) \<in> pending w. k < d}"
    unfolding w' P(2) by (auto simp: pending_def)
  show "wheel_ok w'" "wt_bucket_size w' = wt_bucket_size w"
    using P(3) by (simp_all add: w' wheel_ok_def)
qed

lemma bucket_key_le_iff: "key_bounds b t \<Longrightarrow> d \<le> bucket_key b t \<longleftrightarrow> d * b \<le> t"
proof -
  assume t: "key_bounds b t"
  then have b: "0 < b" by (simp add: key_bounds_def)
  show ?thesis
  proof
    assume "d \<le> bucket_key b t"
    then have "d * b \<le> bucket_key b t * b" using b by simp
    then show "d * b \<le> t" using bucket_key_bounds(1) [OF t] by linarith
  next
    assume "d * b \<le> t"
    then have "d * b < (bucket_key b t + 1) * b" using bucket_key_bounds(2) [OF t] by linarith
    then have "d < bucket_key b t + 1"
      by (rule mult_right_less_imp_less) (use b in simp)
    then show "d \<le> bucket_key b t" by simp
  qed
qed

lemma filed_key_soon:
  assumes "key_bounds (wt_bucket_size w) then_ts" "key_bounds (wt_bucket_size w) now" "wt_entries w = []"
  shows "filed_key now then_ts w * wt_bucket_size w \<le> max now then_ts + wt_bucket_size w"
proof -
  define b where "b = wt_bucket_size w"
  have b: "0 < b" using assms by (simp add: b_def key_bounds_def)
  have "filed_key now then_ts w = max (bucket_key b now) (bucket_key b then_ts) + 1"
    using assms(3) by (simp add: filed_key_def b_def)
  then have "filed_key now then_ts w * b = max (bucket_key b now) (bucket_key b then_ts) * b + b"
    by (simp add: distrib_right)
  also have "max (bucket_key b now) (bucket_key b then_ts) * b \<le> max now then_ts"
    using bucket_key_bounds(1) [OF assms(1)] bucket_key_bounds(1) [OF assms(2)] by (auto simp: max_def b_def)
  finally show ?thesis by (simp add: b_def)
qed

text \<open>
  C15. The timer keeps a set of deadlines: an insertion files the object under one end of a bucket, which
  lies strictly after the wanted time, and, in an empty timer, at most one bucket after it or the present; a fetch returns exactly the objects with a deadline that is over and keeps the others. So no
  object is lost and none comes back before its time.
\<close>

theorem wheel_timer_keeps_deadlines:
  assumes "wheel_ok w" "key_bounds (wt_bucket_size w) now" "key_bounds (wt_bucket_size w) then_ts"
  shows "(\<exists>d. pending (wt_insert now obj then_ts w) = insert (d, obj) (pending w)
      \<and> wheel_ok (wt_insert now obj then_ts w)
      \<and> then_ts < d * wt_bucket_size w
      \<and> (wt_entries w = [] \<longrightarrow> d * wt_bucket_size w \<le> max now then_ts + wt_bucket_size w))
    \<and> set (fst (wt_fetch now w)) = {x. \<exists>d. (d, x) \<in> pending w \<and> d * wt_bucket_size w \<le> now}
    \<and> pending (snd (wt_fetch now w)) = {(d, x) \<in> pending w. now < d * wt_bucket_size w}
    \<and> wheel_ok (snd (wt_fetch now w))"
proof (rule conjI)
  show "\<exists>d. pending (wt_insert now obj then_ts w) = insert (d, obj) (pending w)
      \<and> wheel_ok (wt_insert now obj then_ts w)
      \<and> then_ts < d * wt_bucket_size w
      \<and> (wt_entries w = [] \<longrightarrow> d * wt_bucket_size w \<le> max now then_ts + wt_bucket_size w)"
    using wt_insert_correct(1,2) [OF assms(1)] filed_key_after [OF assms(3)] filed_key_soon [OF assms(3,2)] by blast
  note F = wt_fetch_correct [OF assms(1), of now "fst (wt_fetch now w)" "snd (wt_fetch now w)", OF prod.collapse [symmetric],
      unfolded bucket_key_le_iff [OF assms(2)]]
  show "set (fst (wt_fetch now w)) = {x. \<exists>d. (d, x) \<in> pending w \<and> d * wt_bucket_size w \<le> now}
      \<and> pending (snd (wt_fetch now w)) = {(d, x) \<in> pending w. now < d * wt_bucket_size w}
      \<and> wheel_ok (snd (wt_fetch now w))"
    using F(1-3) bucket_key_le_iff [OF assms(2)] by (auto simp: not_le [symmetric])
qed

theorem wheel_timer_keeps_deadlines_witness:
  "\<exists>d. pending (wt_insert 1700000000000 ''@a:x'' 1700000030000 (new_wheel_timer 5000)) = {(d, ''@a:x'')}
    \<and> 1700000030000 < d * 5000 \<and> d * 5000 \<le> 1700000035000"
proof -
  let ?w = "new_wheel_timer 5000 :: string wheel_timer"
  have w: "wheel_ok ?w" "pending ?w = {}" "wt_bucket_size ?w = 5000" "wt_entries ?w = []"
    by (simp_all add: new_wheel_timer_def wheel_ok_def pending_def)
  have "key_bounds 5000 1700000000000" "key_bounds 5000 1700000030000"
    by (simp_all add: key_bounds_def)
  then show ?thesis
    using wheel_timer_keeps_deadlines [of ?w 1700000000000 1700000030000 "''@a:x''"] w by simp blast
qed

end
