(* ===== verification/Presence.thy ===== *)
theory Presence
  imports Wheel_Timer
begin

text \<open>
  \<open>handlers/presence.py\<close> and \<open>api/presence.py\<close>: the presence of users, on the process that writes it.
  Each operation of \<open>PresenceHandler\<close> is a function on its state; what is persisted and sent is
  collected in two logs. Remote users are covered as far as their timeouts go: what other servers send
  is not parsed. The stored presence of users who are not in memory is an argument.
\<close>

section \<open>States of devices and users\<close>

definition PresenceState_OFFLINE :: string where "PresenceState_OFFLINE = ''offline''"

definition PresenceState_UNAVAILABLE :: string where "PresenceState_UNAVAILABLE = ''unavailable''"

definition PresenceState_ONLINE :: string where "PresenceState_ONLINE = ''online''"

definition PresenceState_BUSY :: string where "PresenceState_BUSY = ''org.matrix.msc3026.busy''"

lemmas presence_state_defs = PresenceState_OFFLINE_def PresenceState_UNAVAILABLE_def PresenceState_ONLINE_def
  PresenceState_BUSY_def

lemma presence_states_distinct [simp]:
  "PresenceState_ONLINE \<noteq> PresenceState_OFFLINE" "PresenceState_OFFLINE \<noteq> PresenceState_ONLINE"
  "PresenceState_ONLINE \<noteq> PresenceState_UNAVAILABLE" "PresenceState_UNAVAILABLE \<noteq> PresenceState_ONLINE"
  "PresenceState_ONLINE \<noteq> PresenceState_BUSY" "PresenceState_BUSY \<noteq> PresenceState_ONLINE"
  "PresenceState_OFFLINE \<noteq> PresenceState_UNAVAILABLE" "PresenceState_UNAVAILABLE \<noteq> PresenceState_OFFLINE"
  "PresenceState_OFFLINE \<noteq> PresenceState_BUSY" "PresenceState_BUSY \<noteq> PresenceState_OFFLINE"
  "PresenceState_UNAVAILABLE \<noteq> PresenceState_BUSY" "PresenceState_BUSY \<noteq> PresenceState_UNAVAILABLE"
  by (simp_all add: presence_state_defs)

record device_presence =
  dp_state :: string
  dp_last_active :: int
  dp_last_sync :: int

definition default_device :: device_presence where
  "default_device = \<lparr>dp_state = PresenceState_OFFLINE, dp_last_active = 0, dp_last_sync = 0\<rparr>"

record user_presence =
  up_user :: string
  up_state :: string
  up_last_active :: int
  up_last_federation :: int
  up_last_sync :: int
  up_status :: "string option"
  up_active :: bool

definition default_user :: "string \<Rightarrow> user_presence" where
  "default_user user_id = \<lparr>up_user = user_id, up_state = PresenceState_OFFLINE, up_last_active = 0,
     up_last_federation = 0, up_last_sync = 0, up_status = None, up_active = False\<rparr>"

section \<open>Timeouts\<close>

definition LAST_ACTIVE_GRANULARITY :: int where "LAST_ACTIVE_GRANULARITY = 60 * 1000"

definition SYNC_ONLINE_TIMEOUT :: int where "SYNC_ONLINE_TIMEOUT = 30 * 1000"

definition BUSY_ONLINE_TIMEOUT :: int where "BUSY_ONLINE_TIMEOUT = 60 * 60 * 1000"

definition IDLE_TIMER :: int where "IDLE_TIMER = 5 * 60 * 1000"

definition FEDERATION_TIMEOUT :: int where "FEDERATION_TIMEOUT = 30 * 60 * 1000"

definition FEDERATION_PING_INTERVAL :: int where "FEDERATION_PING_INTERVAL = 25 * 60 * 1000"

definition EXTERNAL_PROCESS_EXPIRY :: int where "EXTERNAL_PROCESS_EXPIRY = 5 * 60 * 1000"

lemmas timeout_defs = LAST_ACTIVE_GRANULARITY_def SYNC_ONLINE_TIMEOUT_def BUSY_ONLINE_TIMEOUT_def IDLE_TIMER_def
  FEDERATION_TIMEOUT_def FEDERATION_PING_INTERVAL_def EXTERNAL_PROCESS_EXPIRY_def

definition PRESENCE_BY_PRIORITY :: "(string, int) pydict" where
  "PRESENCE_BY_PRIORITY = [(PresenceState_BUSY, 4), (PresenceState_ONLINE, 3), (PresenceState_UNAVAILABLE, 2),
     (PresenceState_OFFLINE, 1)]"

text \<open>One round of the loop: tuples are compared lexicographically.\<close>

definition combine_step :: "device_presence \<Rightarrow> string \<times> int \<Rightarrow> (string \<times> int) res" where
  "combine_step d = (\<lambda>(presence, last_active_ts).
     bindE (optE KeyError (dget PRESENCE_BY_PRIORITY (dp_state d))) (\<lambda>p.
     bindE (optE KeyError (dget PRESENCE_BY_PRIORITY presence)) (\<lambda>q.
     Inr (if q < p \<or> q = p \<and> last_active_ts < dp_last_active d
          then (dp_state d, dp_last_active d) else (presence, last_active_ts)))))"

definition combine_device_states :: "device_presence list \<Rightarrow> string res" where
  "combine_device_states ds =
     bindE (foldE combine_step ds (PresenceState_OFFLINE, - 1)) (\<lambda>(presence, _). Inr presence)"

definition should_notify :: "user_presence \<Rightarrow> user_presence \<Rightarrow> bool" where
  "should_notify old new =
     (if old = new then False
      else if up_status old \<noteq> up_status new then True
      else if up_state old \<noteq> up_state new then True
      else if up_state old = PresenceState_ONLINE then
        (if up_active new \<noteq> up_active old then True
         else if up_last_active new - up_last_active old > LAST_ACTIVE_GRANULARITY
         then \<not> up_active new else False)
      else up_last_active new - up_last_active old > LAST_ACTIVE_GRANULARITY)"

text \<open>
  The devices of a user when timers fire: those that stay, idle ones marked so, and whether anything
  changed.
\<close>

definition idle_device :: "int \<Rightarrow> device_presence \<Rightarrow> bool" where
  "idle_device now d \<longleftrightarrow> dp_state d = PresenceState_ONLINE \<and> now - dp_last_active d > IDLE_TIMER"

definition after_idle :: "int \<Rightarrow> device_presence \<Rightarrow> device_presence" where
  "after_idle now d = (if idle_device now d then d\<lparr>dp_state := PresenceState_UNAVAILABLE\<rparr> else d)"

definition device_timed_out :: "int \<Rightarrow> device_presence \<Rightarrow> bool" where
  "device_timed_out now d \<longleftrightarrow>
     now - max (dp_last_sync d) (dp_last_active d)
       > (if dp_state d = PresenceState_BUSY then BUSY_ONLINE_TIMEOUT else SYNC_ONLINE_TIMEOUT)"

definition device_goes_offline :: "string \<Rightarrow> (string \<times> string option) list \<Rightarrow> int \<Rightarrow> string option \<times> device_presence \<Rightarrow> bool" where
  "device_goes_offline user syncing now = (\<lambda>(device_id, d).
     (user, device_id) \<notin> set syncing \<and> device_timed_out now (after_idle now d))"

type_synonym user_devices = "(string option, device_presence) pydict"

definition handle_timeout :: "user_presence \<Rightarrow> bool \<Rightarrow> (string \<times> string option) list \<Rightarrow> user_devices \<Rightarrow> int
    \<Rightarrow> (user_presence option \<times> user_devices) res" where
  "handle_timeout state is_mine syncing devices now =
     (if up_state state = PresenceState_OFFLINE then Inr (None, devices)
      else if is_mine then
        (let gone = device_goes_offline (up_user state) syncing now;
             device_changed = list_ex (\<lambda>(i, d). idle_device now d \<or> gone (i, d)) devices;
             devices' = map (\<lambda>(i, d). (i, after_idle now d)) (filter (\<lambda>x. \<not> gone x) devices)
         in
         bindE (if device_changed then bindE (combine_device_states (dvalues devices')) (\<lambda>new_presence.
                  Inr (if new_presence \<noteq> up_state state
                       then (state\<lparr>up_state := new_presence\<rparr>, True) else (state, False)))
                else Inr (state, False)) (\<lambda>(state', changed).
         Inr (if changed \<or> now - up_last_active state' > LAST_ACTIVE_GRANULARITY
                 \<or> now - up_last_federation state' > FEDERATION_PING_INTERVAL
              then Some state' else None, devices')))
      else if now - up_last_federation state > FEDERATION_TIMEOUT
      then Inr (Some (state\<lparr>up_state := PresenceState_OFFLINE\<rparr>), devices)
      else Inr (None, devices))"

text \<open>The new state, whether to notify, whether to ping other servers, and the timers.\<close>

definition handle_update :: "user_presence \<Rightarrow> user_presence \<Rightarrow> bool \<Rightarrow> string wheel_timer \<Rightarrow> int \<Rightarrow> bool
    \<Rightarrow> user_presence \<times> bool \<times> bool \<times> string wheel_timer" where
  "handle_update prev_state new_state is_mine wheel now persist =
     (let user_id = up_user new_state;
          timer = (\<lambda>then_ts w. if persist then w else wt_insert now user_id then_ts w);
          (s1, w1) =
            (if is_mine \<and> up_state new_state = PresenceState_ONLINE then
               (let w = timer (up_last_active new_state + IDLE_TIMER) wheel;
                    active = (now - up_last_active new_state < LAST_ACTIVE_GRANULARITY)
                in (new_state\<lparr>up_active := active\<rparr>,
                    if active then timer (up_last_active new_state + LAST_ACTIVE_GRANULARITY) w else w))
             else (new_state, wheel));
          (s2, ping, w2) =
            (if is_mine \<and> up_state s1 \<noteq> PresenceState_OFFLINE then
               (let w = timer (up_last_sync s1 + SYNC_ONLINE_TIMEOUT) w1 in
                if now - up_last_federation s1 > FEDERATION_PING_INTERVAL
                then (s1\<lparr>up_last_federation := now\<rparr>, True, w) else (s1, False, w))
             else (s1, False, w1));
          w3 =
            (if is_mine then
               (if up_state s2 = PresenceState_BUSY
                then timer (up_last_sync s2 + BUSY_ONLINE_TIMEOUT) w2 else w2)
             else timer (up_last_federation s2 + FEDERATION_TIMEOUT) w2)
      in if should_notify prev_state s2 then (s2\<lparr>up_last_federation := now\<rparr>, True, ping, w3)
         else (s2, False, ping, w3))"

definition format_user_presence_state :: "user_presence \<Rightarrow> int \<Rightarrow> bool \<Rightarrow> jdict" where
  "format_user_presence_state state now include_user_id =
     [(''presence'', JStr (up_state state))]
     @ (if include_user_id then [(''user_id'', JStr (up_user state))] else [])
     @ (if up_last_active state \<noteq> 0 then [(''last_active_ago'', JInt (now - up_last_active state))] else [])
     @ (case up_status state of Some m \<Rightarrow> if m \<noteq> [] then [(''status_msg'', JStr m)] else [] | None \<Rightarrow> [])
     @ (if up_state state = PresenceState_ONLINE then [(''currently_active'', JBool (up_active state))] else [])"

definition filter_offline_presence_state :: "user_presence list \<Rightarrow> user_presence list" where
  "filter_offline_presence_state updates = filter (\<lambda>s. up_state s \<noteq> PresenceState_OFFLINE) updates"

section \<open>The presence handler\<close>

record presence_config =
  pc_is_mine :: "string \<Rightarrow> bool"
  pc_enabled :: bool
  pc_track :: bool
  pc_valid :: "string list"
  pc_stored :: "string \<Rightarrow> user_presence option"

type_synonym user_device = "string \<times> string option"

record presence =
  pr_wheel :: "string wheel_timer"
  pr_current :: "(string, user_presence) pydict"
  pr_devices :: "(string, user_devices) pydict"
  pr_unpersisted :: "string list"
  pr_syncs :: "(user_device, int) pydict"
  pr_external :: "(string, user_device list) pydict"
  pr_external_updated :: "(string, int) pydict"
  pr_notified :: "user_presence list"
  pr_pinged :: "user_presence list"

text \<open>\<open>d.get(k, {})\<close> and \<open>d.setdefault(k, default)\<close> for the nested dictionaries\<close>

definition devices_of :: "string \<Rightarrow> presence \<Rightarrow> user_devices" where
  "devices_of user p = (case dget (pr_devices p) user of None \<Rightarrow> [] | Some d \<Rightarrow> d)"

definition device_of :: "string option \<Rightarrow> user_devices \<Rightarrow> device_presence" where
  "device_of i ds = (case dget ds i of None \<Rightarrow> default_device | Some d \<Rightarrow> d)"

definition set_device :: "string \<Rightarrow> string option \<Rightarrow> device_presence \<Rightarrow> presence \<Rightarrow> presence" where
  "set_device user i d p = p\<lparr>pr_devices := dset user (dset i d (devices_of user p)) (pr_devices p)\<rparr>"

definition current_or_default :: "string \<Rightarrow> presence \<Rightarrow> user_presence" where
  "current_or_default user p = (case dget (pr_current p) user of None \<Rightarrow> default_user user | Some s \<Rightarrow> s)"

text \<open>\<open>current_state_for_user\<close>: users who are stored nowhere are entered with the default.\<close>

definition current_state_for_user :: "presence_config \<Rightarrow> string \<Rightarrow> presence \<Rightarrow> user_presence \<times> presence" where
  "current_state_for_user c user p =
     (case dget (pr_current p) user of
        Some s \<Rightarrow> (s, p)
      | None \<Rightarrow>
          (case pc_stored c user of
             Some s \<Rightarrow> (s, p)
           | None \<Rightarrow> (default_user user, p\<lparr>pr_current := dset user (default_user user) (pr_current p)\<rparr>)))"

text \<open>One round of the loop of \<open>_update_states\<close>, with the dictionaries of what to notify and to ping.\<close>

definition update_one :: "presence_config \<Rightarrow> int \<Rightarrow> bool \<Rightarrow> user_presence
    \<Rightarrow> presence \<times> (string, user_presence) pydict \<times> (string, user_presence) pydict
    \<Rightarrow> presence \<times> (string, user_presence) pydict \<times> (string, user_presence) pydict" where
  "update_one c now force_notify new_state = (\<lambda>(p, to_notify, to_ping).
     (let user = up_user new_state in
      case handle_update (current_or_default user p) new_state (pc_is_mine c user) (pr_wheel p) now (\<not> pc_track c) of
        (s, notify, ping, w) \<Rightarrow>
          (p\<lparr>pr_current := dset user s (pr_current p), pr_wheel := w\<rparr>,
           if notify \<or> force_notify then dset user s to_notify else to_notify,
           if \<not> (notify \<or> force_notify) \<and> ping then dset user s to_ping else to_ping)))"

definition update_states :: "presence_config \<Rightarrow> int \<Rightarrow> bool \<Rightarrow> user_presence list \<Rightarrow> presence \<Rightarrow> presence" where
  "update_states c now force_notify new_states p =
     (if \<not> pc_enabled c then p
      else
        (let states = dvalues (fold (\<lambda>s. dset (up_user s) s) new_states []) in
         case fold (update_one c now force_notify) states (p, [], []) of
           (p', to_notify, to_ping) \<Rightarrow>
             p'\<lparr>pr_unpersisted := filter (\<lambda>u. u \<notin> set (dkeys to_notify))
                  (set_union (pr_unpersisted p') (map up_user states)),
                pr_notified := pr_notified p' @ dvalues to_notify,
                pr_pinged := pr_pinged p' @ dvalues (filter (\<lambda>(u, _). u \<notin> set (dkeys to_notify)) to_ping)\<rparr>))"

text \<open>\<open>handle_timeouts\<close>: the devices of each user change in place.\<close>

definition timeouts_step :: "presence_config \<Rightarrow> user_device list \<Rightarrow> int \<Rightarrow> user_presence
    \<Rightarrow> (string, user_presence) pydict \<times> presence \<Rightarrow> ((string, user_presence) pydict \<times> presence) res" where
  "timeouts_step c syncing now state = (\<lambda>(changes, p).
     (let user = up_user state in
      bindE (handle_timeout state (pc_is_mine c user) syncing (devices_of user p) now) (\<lambda>(new_state, ds).
        Inr (case new_state of None \<Rightarrow> changes | Some s \<Rightarrow> dset (up_user state) s changes,
             if dget (pr_devices p) user = None then p else p\<lparr>pr_devices := dset user ds (pr_devices p)\<rparr>))))"

definition handle_timeouts :: "presence_config \<Rightarrow> user_device list \<Rightarrow> int \<Rightarrow> user_presence list \<Rightarrow> presence
    \<Rightarrow> (user_presence list \<times> presence) res" where
  "handle_timeouts c syncing now states p =
     bindE (foldE (timeouts_step c syncing now) states ([], p)) (\<lambda>(changes, p'). Inr (dvalues changes, p'))"

text \<open>Processes that were silent for too long are dropped; their users are checked.\<close>

definition expire_external :: "int \<Rightarrow> presence \<Rightarrow> string list \<times> presence" where
  "expire_external now p =
     (let expired = map fst (filter (\<lambda>(_, last_update). now - last_update > EXTERNAL_PROCESS_EXPIRY) (pr_external_updated p))
      in (concat (map (\<lambda>i. case dget (pr_external p) i of None \<Rightarrow> [] | Some ds \<Rightarrow> map fst ds) expired),
          p\<lparr>pr_external := filter (\<lambda>(i, _). i \<notin> set expired) (pr_external p),
             pr_external_updated := filter (\<lambda>(i, _). i \<notin> set expired) (pr_external_updated p)\<rparr>))"

definition syncing_user_devices :: "presence \<Rightarrow> user_device list" where
  "syncing_user_devices p =
     map fst (filter (\<lambda>(_, count). count \<noteq> 0) (pr_syncs p)) @ concat (dvalues (pr_external p))"

definition handle_timeouts_loop :: "presence_config \<Rightarrow> int \<Rightarrow> presence \<Rightarrow> presence res" where
  "handle_timeouts_loop c now p =
     (case wt_fetch now (pr_wheel p) of (due, w) \<Rightarrow>
      case expire_external now (p\<lparr>pr_wheel := w\<rparr>) of (dropped, p1) \<Rightarrow>
        (let users_to_check = remdups (due @ dropped);
             states = map (\<lambda>user. current_or_default user p1) users_to_check
         in bindE (handle_timeouts c (syncing_user_devices p1) now states p1) (\<lambda>(changes, p2).
              Inr (update_states c now False changes p2))))"

definition bump_presence_active_time :: "presence_config \<Rightarrow> int \<Rightarrow> string \<Rightarrow> string option \<Rightarrow> presence \<Rightarrow> presence res" where
  "bump_presence_active_time c now user device_id p =
     (if \<not> pc_track c then Inr p
      else
        (let d = device_of device_id (devices_of user p);
             d' = d\<lparr>dp_last_active := now,
                    dp_state := (if dp_state d = PresenceState_UNAVAILABLE then PresenceState_ONLINE else dp_state d)\<rparr>;
             p1 = set_device user device_id d' p
         in
         case current_state_for_user c user p1 of (prev_state, p2) \<Rightarrow>
           bindE (combine_device_states (dvalues (devices_of user p2))) (\<lambda>st.
             Inr (update_states c now False [prev_state\<lparr>up_last_active := now, up_state := st\<rparr>] p2))))"

definition set_state :: "presence_config \<Rightarrow> int \<Rightarrow> string \<Rightarrow> string option \<Rightarrow> string \<Rightarrow> string option \<Rightarrow> bool \<Rightarrow> bool
    \<Rightarrow> presence \<Rightarrow> presence res" where
  "set_state c now user device_id presence_state status_msg force_notify is_sync p =
     (if presence_state \<notin> set (pc_valid c) then Inl (SynapseError 400 ''Invalid presence state'')
      else if \<not> pc_track c then Inr p
      else
        (case current_state_for_user c user p of (prev_state, p1) \<Rightarrow>
          (let st = (if up_state prev_state = PresenceState_BUSY \<and> is_sync then PresenceState_BUSY else presence_state);
               d = device_of device_id (devices_of user p1);
               d' = d\<lparr>dp_state := st, dp_last_active := now, dp_last_sync := (if is_sync then now else dp_last_sync d)\<rparr>;
               p2 = set_device user device_id d' p1
           in
           bindE (combine_device_states (dvalues (devices_of user p2))) (\<lambda>combined.
             let s1 = prev_state\<lparr>up_state := combined\<rparr>;
                 s2 = (if combined = PresenceState_ONLINE \<or> combined = PresenceState_BUSY
                       then s1\<lparr>up_last_active := now\<rparr> else s1);
                 s3 = (if is_sync then s2\<lparr>up_last_sync := now\<rparr> else s2\<lparr>up_status := status_msg\<rparr>)
             in Inr (update_states c now force_notify [s3] p2)))))"

text \<open>The count goes up before the state is set, also if that raises.\<close>

definition user_syncing :: "presence_config \<Rightarrow> int \<Rightarrow> string \<Rightarrow> string option \<Rightarrow> bool \<Rightarrow> string \<Rightarrow> presence
    \<Rightarrow> presence \<times> exn option" where
  "user_syncing c now user device_id affect_presence presence_state p =
     (if \<not> affect_presence \<or> \<not> pc_track c then (p, None)
      else
        (let curr_sync = (case dget (pr_syncs p) (user, device_id) of None \<Rightarrow> 0 | Some n \<Rightarrow> n);
             p1 = p\<lparr>pr_syncs := dset (user, device_id) (curr_sync + 1) (pr_syncs p)\<rparr>
         in case set_state c now user device_id presence_state None False True p1 of
              Inr p2 \<Rightarrow> (p2, None)
            | Inl e \<Rightarrow> (p1, Some e)))"

text \<open>The end of the context manager.\<close>

definition sync_end :: "presence_config \<Rightarrow> int \<Rightarrow> string \<Rightarrow> string option \<Rightarrow> presence \<Rightarrow> presence" where
  "sync_end c now user device_id p =
     (case dget (pr_syncs p) (user, device_id) of
        None \<Rightarrow> p
      | Some n \<Rightarrow>
          (case current_state_for_user c user (p\<lparr>pr_syncs := dset (user, device_id) (n - 1) (pr_syncs p)\<rparr>) of
             (prev_state, p1) \<Rightarrow> update_states c now False [prev_state\<lparr>up_last_sync := now\<rparr>] p1))"

definition update_external_syncs_row :: "presence_config \<Rightarrow> int \<Rightarrow> string \<Rightarrow> string \<Rightarrow> string option \<Rightarrow> bool \<Rightarrow> int
    \<Rightarrow> presence \<Rightarrow> presence" where
  "update_external_syncs_row c now process_id user device_id is_syncing sync_time p =
     (case current_state_for_user c user p of (prev_state, p1) \<Rightarrow>
       (let syncs = (case dget (pr_external p1) process_id of None \<Rightarrow> [] | Some ds \<Rightarrow> ds);
            p2 = (if dget (pr_external p1) process_id = None
                  then p1\<lparr>pr_external := dset process_id [] (pr_external p1)\<rparr> else p1);
            p3 =
              (if is_syncing \<and> (user, device_id) \<notin> set syncs
               then p2\<lparr>pr_external := dset process_id (set_add (user, device_id) syncs) (pr_external p2)\<rparr>
               else if \<not> is_syncing \<and> (user, device_id) \<in> set syncs then
                 (let d = device_of device_id (devices_of user p2);
                      q = update_states c now False [prev_state\<lparr>up_last_sync := sync_time\<rparr>]
                            (set_device user device_id (d\<lparr>dp_last_sync := sync_time\<rparr>) p2)
                  in q\<lparr>pr_external := dset process_id (filter (\<lambda>x. x \<noteq> (user, device_id)) syncs) (pr_external q)\<rparr>)
               else p2)
        in p3\<lparr>pr_external_updated := dset process_id now (pr_external_updated p3)\<rparr>))"

text \<open>\<open>current_state_for_users\<close>: who is in memory comes first, then the stored, then the defaults.\<close>

definition current_state_for_users :: "presence_config \<Rightarrow> string list \<Rightarrow> presence \<Rightarrow> user_presence list \<times> presence" where
  "current_state_for_users c users p =
     (let known = dget (pr_current p);
          missing = filter (\<lambda>u. dget (pr_current p) u = None) users;
          fresh = filter (\<lambda>u. pc_stored c u = None) missing
      in (List.map_filter known users @ List.map_filter (pc_stored c) missing @ map default_user fresh,
          p\<lparr>pr_current := fold (\<lambda>u. dset u (default_user u)) fresh (pr_current p)\<rparr>))"

definition update_external_syncs_clear :: "presence_config \<Rightarrow> int \<Rightarrow> string \<Rightarrow> presence \<Rightarrow> presence" where
  "update_external_syncs_clear c now process_id p =
     (let syncs = (case dget (pr_external p) process_id of None \<Rightarrow> [] | Some ds \<Rightarrow> ds);
          p1 = p\<lparr>pr_external := filter (\<lambda>(i, _). i \<noteq> process_id) (pr_external p)\<rparr>;
          p2 = fold (\<lambda>(user, i) q. set_device user i ((device_of i (devices_of user q))\<lparr>dp_last_sync := now\<rparr>) q) syncs p1
      in case current_state_for_users c (remdups (map fst syncs)) p2 of (states, p3) \<Rightarrow>
        (let p4 = update_states c now False (map (\<lambda>s. s\<lparr>up_last_sync := now\<rparr>) states) p3
         in p4\<lparr>pr_external_updated := filter (\<lambda>(i, _). i \<noteq> process_id) (pr_external_updated p4)\<rparr>))"

text \<open>What is written to the database by the looping call, and what is left to write.\<close>

definition persist_unpersisted_changes :: "presence \<Rightarrow> user_presence list res \<times> presence" where
  "persist_unpersisted_changes p =
     (foldE (\<lambda>u acc. bindE (optE KeyError (dget (pr_current p) u)) (\<lambda>s. Inr (acc @ [s]))) (pr_unpersisted p) [],
      p\<lparr>pr_unpersisted := []\<rparr>)"

text \<open>Starting up: users with a stored presence get a device without id and their timers.\<close>

definition start_user :: "presence_config \<Rightarrow> int \<Rightarrow> user_presence \<Rightarrow> presence \<Rightarrow> presence" where
  "start_user c now s p =
     (let w1 = wt_insert now (up_user s) (up_last_active s + IDLE_TIMER) (pr_wheel p);
          w2 = wt_insert now (up_user s) (up_last_sync s + SYNC_ONLINE_TIMEOUT) w1;
          w3 = wt_insert now (up_user s) (up_last_federation s
                 + (if pc_is_mine c (up_user s) then FEDERATION_PING_INTERVAL else FEDERATION_TIMEOUT)) w2
      in p\<lparr>pr_devices := dset (up_user s)
             [(None, \<lparr>dp_state = up_state s, dp_last_active = up_last_active s, dp_last_sync = up_last_sync s\<rparr>)]
             (pr_devices p), pr_wheel := w3\<rparr>)"

definition new_presence_handler :: "presence_config \<Rightarrow> int \<Rightarrow> user_presence list \<Rightarrow> presence" where
  "new_presence_handler c now active_presence =
     (let current = fold (\<lambda>s. dset (up_user s) s) active_presence [];
          p = \<lparr>pr_wheel = new_wheel_timer 5000, pr_current = current, pr_devices = [], pr_unpersisted = [],
               pr_syncs = [], pr_external = [], pr_external_updated = [], pr_notified = [], pr_pinged = []\<rparr>
      in if pc_track c then fold (start_user c now) (dvalues current) p else p)"

end
