(* ===== verification/Presence_Props.thy ===== *)
theory Presence_Props
  imports Presence
begin

text \<open>
  Properties of the presence handler: how the states of devices are combined, that users who stop
  syncing go offline, and a user for whom no timer is left.
\<close>

section \<open>Combining devices\<close>

definition known_state :: "string \<Rightarrow> bool" where
  "known_state s \<longleftrightarrow> s \<in> {PresenceState_BUSY, PresenceState_ONLINE, PresenceState_UNAVAILABLE, PresenceState_OFFLINE}"

definition best_state :: "string set \<Rightarrow> string" where
  "best_state S = (if PresenceState_BUSY \<in> S then PresenceState_BUSY
     else if PresenceState_ONLINE \<in> S then PresenceState_ONLINE
     else if PresenceState_UNAVAILABLE \<in> S then PresenceState_UNAVAILABLE
     else PresenceState_OFFLINE)"

lemma priority_simps [simp]:
  "dget PRESENCE_BY_PRIORITY PresenceState_BUSY = Some 4"
  "dget PRESENCE_BY_PRIORITY PresenceState_ONLINE = Some 3"
  "dget PRESENCE_BY_PRIORITY PresenceState_UNAVAILABLE = Some 2"
  "dget PRESENCE_BY_PRIORITY PresenceState_OFFLINE = Some 1"
  by (simp_all add: PRESENCE_BY_PRIORITY_def)

lemma known_state_cases:
  assumes "known_state s"
  obtains "s = PresenceState_BUSY" | "s = PresenceState_ONLINE" | "s = PresenceState_UNAVAILABLE" | "s = PresenceState_OFFLINE"
  using assms by (auto simp: known_state_def)

lemma combine_fold:
  assumes "\<forall>d\<in>set ds. known_state (dp_state d)" "known_state s"
  shows "\<exists>a'. foldE combine_step ds (s, a) = Inr (best_state (insert s (dp_state ` set ds)), a')"
  using assms
proof (induction ds arbitrary: s a)
  case Nil
  then show ?case by (auto simp: best_state_def elim: known_state_cases)
next
  case (Cons d ds)
  have known: "known_state (dp_state d)" using Cons.prems(1) by simp
  have "\<exists>a'. combine_step d (s, a) = Inr (best_state {s, dp_state d}, a')"
    by (rule known_state_cases [OF known]; rule known_state_cases [OF Cons.prems(2)])
      (simp_all add: combine_step_def best_state_def)
  then obtain s' a' where step: "combine_step d (s, a) = Inr (s', a')" and s': "s' = best_state {s, dp_state d}"
    by blast
  have "known_state s'"
    by (simp add: s' best_state_def known_state_def)
  then obtain a'' where "foldE combine_step ds (s', a') = Inr (best_state (insert s' (dp_state ` set ds)), a'')"
    using Cons.IH Cons.prems(1) by (metis list.set_intros(2))
  moreover have "best_state (insert s' S) = best_state (insert s (insert (dp_state d) S))" for S
    unfolding s' using known Cons.prems(2) by (auto simp: best_state_def elim: known_state_cases)
  ultimately show ?case
    using step by simp
qed

lemma combine_best:
  assumes "\<forall>d\<in>set ds. known_state (dp_state d)"
  shows "combine_device_states ds = Inr (best_state (dp_state ` set ds))"
proof -
  have "best_state (insert PresenceState_OFFLINE S) = best_state S" for S
    by (simp add: best_state_def)
  then show ?thesis
    using combine_fold [OF assms, of PresenceState_OFFLINE "- 1"]
    by (auto simp: combine_device_states_def known_state_def)
qed

section \<open>Timers\<close>

text \<open>Times in milliseconds, far below the range in which the keys are exact.\<close>

definition time_ok :: "int \<Rightarrow> bool" where
  "time_ok t \<longleftrightarrow> 0 \<le> t \<and> t < 2 ^ 51"

lemma time_key: "time_ok t \<Longrightarrow> 0 \<le> d \<Longrightarrow> d \<le> 2 ^ 50 \<Longrightarrow> key_bounds 5000 (t + d)"
  by (simp add: time_ok_def key_bounds_def)

lemma time_key_0: "time_ok t \<Longrightarrow> key_bounds 5000 t"
  using time_key [of t 0] by simp

text \<open>The first bucket ends soon, so that what is overdue when it is filed fires soon.\<close>

definition wheel_inv :: "int \<Rightarrow> string wheel_timer \<Rightarrow> bool" where
  "wheel_inv t w \<longleftrightarrow> wheel_ok w \<and> wt_bucket_size w = 5000
     \<and> (wt_entries w \<noteq> [] \<longrightarrow> we_end_key (hd (wt_entries w)) \<le> t div 5000 + 1)"

lemma insert_timer:
  assumes w: "wheel_inv t w" and t: "t \<le> now" "time_ok now" and key: "key_bounds 5000 then_ts"
  shows "wheel_inv now (wt_insert now u then_ts w)"
    and "\<exists>d. pending (wt_insert now u then_ts w) = insert (d, u) (pending w)
      \<and> then_ts < d * 5000 \<and> d * 5000 \<le> max now then_ts + 5000"
proof -
  have ok: "wheel_ok w" "wt_bucket_size w = 5000"
    using w by (simp_all add: wheel_inv_def)
  note I = wt_insert_correct [OF ok(1)]
  have now_key: "bucket_key 5000 now = now div 5000"
    by (rule bucket_key_exact [OF time_key_0 [OF t(2)]])
  have then_key: "bucket_key 5000 then_ts = then_ts div 5000"
    by (rule bucket_key_exact [OF key])
  have mono: "t div 5000 \<le> now div 5000"
    using t(1) by (rule zdiv_mono1) simp
  show "wheel_inv now (wt_insert now u then_ts w)"
    using w mono unfolding wheel_inv_def I(3,5) ok(2) now_key by (auto simp: I(2))
  have "filed_key now then_ts w \<le> max (now div 5000) (then_ts div 5000) + 1"
    using w mono by (auto simp: filed_key_def Let_def ok(2) now_key then_key wheel_inv_def)
  then have "filed_key now then_ts w * 5000 \<le> max now then_ts + 5000"
    by (auto simp: max_def split: if_splits)
  moreover have "then_ts < filed_key now then_ts w * 5000"
    using filed_key_after [of w then_ts now] key ok(2) by simp
  ultimately show "\<exists>d. pending (wt_insert now u then_ts w) = insert (d, u) (pending w)
      \<and> then_ts < d * 5000 \<and> d * 5000 \<le> max now then_ts + 5000"
    using I(1) by blast
qed

text \<open>What the insertion of some timers for a user does.\<close>

definition timers_added :: "string \<Rightarrow> int \<Rightarrow> int list \<Rightarrow> string wheel_timer \<Rightarrow> string wheel_timer \<Rightarrow> bool" where
  "timers_added u now ts w w' \<longleftrightarrow>
     pending w \<subseteq> pending w'
     \<and> (\<forall>d x. (d, x) \<in> pending w' \<longrightarrow> (d, x) \<in> pending w
          \<or> x = u \<and> (\<exists>t\<in>set ts. d * 5000 \<le> max now t + 5000))
     \<and> (\<forall>t\<in>set ts. \<exists>d. (d, u) \<in> pending w' \<and> t < d * 5000)"

lemma insert_timers:
  assumes "wheel_inv t w" "t \<le> now" "time_ok now" "\<forall>x\<in>set ts. key_bounds 5000 x"
  shows "wheel_inv (if ts = [] then t else now) (fold (wt_insert now u) ts w)"
    and "timers_added u now ts w (fold (wt_insert now u) ts w)"
proof -
  have "wheel_inv (if ts = [] then t else now) (fold (wt_insert now u) ts w)
    \<and> timers_added u now ts w (fold (wt_insert now u) ts w)"
    using assms
  proof (induction ts arbitrary: w t)
    case Nil
    then show ?case by (simp add: timers_added_def)
  next
    case (Cons x ts)
    let ?w = "wt_insert now u x w"
    have key: "key_bounds 5000 x" using Cons.prems(4) by simp
    note I = insert_timer [OF Cons.prems(1-3) key, of u]
    obtain d where d: "pending ?w = insert (d, u) (pending w)" "x < d * 5000" "d * 5000 \<le> max now x + 5000"
      using I(2) by blast
    have IH: "wheel_inv now (fold (wt_insert now u) ts ?w)" "timers_added u now ts ?w (fold (wt_insert now u) ts ?w)"
      using Cons.IH [OF I(1)] Cons.prems(3,4) by auto
    then show ?case
      using d unfolding timers_added_def by simp blast
  qed
  then show "wheel_inv (if ts = [] then t else now) (fold (wt_insert now u) ts w)"
    "timers_added u now ts w (fold (wt_insert now u) ts w)"
    by simp_all
qed

lemma wheel_inv_mono: "wheel_inv t w \<Longrightarrow> t \<le> now \<Longrightarrow> wheel_inv now w"
  unfolding wheel_inv_def by (meson add_right_mono order_trans zdiv_mono1 zero_less_numeral)

lemma fetch_timers:
  assumes w: "wheel_inv t w" and t: "t \<le> now" "time_ok now" and fetch: "wt_fetch now w = (due, w')"
  shows "wheel_inv now w'" "set due = {x. \<exists>d. (d, x) \<in> pending w \<and> d * 5000 \<le> now}"
    "pending w' = {(d, x) \<in> pending w. now < d * 5000}"
proof -
  have ok: "wheel_ok w" "wt_bucket_size w = 5000"
    using w by (simp_all add: wheel_inv_def)
  have key: "key_bounds 5000 now" by (rule time_key_0 [OF t(2)])
  note F = wt_fetch_correct [OF ok(1) fetch, unfolded ok(2) bucket_key_le_iff [OF key]]
  show "set due = {x. \<exists>d. (d, x) \<in> pending w \<and> d * 5000 \<le> now}"
    using F(1) by blast
  show "pending w' = {(d, x) \<in> pending w. now < d * 5000}"
    using F(2) bucket_key_le_iff [OF key] by (auto simp: not_le [symmetric])
  obtain rest where pop: "pop_due (bucket_key 5000 now) (wt_entries w) = (due, rest)" and w': "w' = w\<lparr>wt_entries := rest\<rparr>"
    using fetch ok(2) by (auto simp: wt_fetch_def split: prod.splits)
  have "we_end_key (hd rest) \<le> now div 5000 + 1" if "rest \<noteq> []"
  proof -
    have "wt_entries w \<noteq> []" using pop that by auto
    then have "we_end_key (hd (wt_entries w)) \<le> now div 5000 + 1"
      using wheel_inv_mono [OF w t(1)] by (simp add: wheel_inv_def)
    then show ?thesis
      using pop_due_first [OF pop that ok(1) [unfolded wheel_ok_def]] bucket_key_exact [OF key] by simp
  qed
  then show "wheel_inv now w'"
    using F(3,4) by (auto simp: wheel_inv_def w')
qed

section \<open>Updates\<close>

definition same_core :: "user_presence \<Rightarrow> user_presence \<Rightarrow> bool" where
  "same_core s s' \<longleftrightarrow> up_user s' = up_user s \<and> up_state s' = up_state s \<and> up_last_active s' = up_last_active s
     \<and> up_last_sync s' = up_last_sync s"

definition user_times :: "int \<Rightarrow> user_presence \<Rightarrow> bool" where
  "user_times now s \<longleftrightarrow> 0 \<le> up_last_active s \<and> up_last_active s \<le> now \<and> 0 \<le> up_last_sync s \<and> up_last_sync s \<le> now
     \<and> 0 \<le> up_last_federation s \<and> up_last_federation s \<le> now"

text \<open>The timers that an update of a user sets.\<close>

definition timers_of :: "bool \<Rightarrow> int \<Rightarrow> user_presence \<Rightarrow> int list" where
  "timers_of mine now s =
     (if mine then
        (if up_state s = PresenceState_ONLINE
         then [up_last_active s + IDLE_TIMER]
           @ (if now - up_last_active s < LAST_ACTIVE_GRANULARITY then [up_last_active s + LAST_ACTIVE_GRANULARITY] else [])
         else [])
        @ (if up_state s \<noteq> PresenceState_OFFLINE then [up_last_sync s + SYNC_ONLINE_TIMEOUT] else [])
        @ (if up_state s = PresenceState_BUSY then [up_last_sync s + BUSY_ONLINE_TIMEOUT] else [])
      else [up_last_federation s + FEDERATION_TIMEOUT])"

lemma handle_update_effect:
  assumes "handle_update prev s mine w now False = (s', n, ping, w')" "user_times now s"
  shows "w' = fold (wt_insert now (up_user s)) (timers_of mine now s) w" "same_core s s'" "user_times now s'"
proof -
  have "w' = fold (wt_insert now (up_user s)) (timers_of mine now s) w \<and> same_core s s' \<and> user_times now s'"
    using assms
    by (auto simp: handle_update_def Let_def timers_of_def same_core_def user_times_def split: if_splits)
  then show "w' = fold (wt_insert now (up_user s)) (timers_of mine now s) w" "same_core s s'" "user_times now s'"
    by simp_all
qed

lemma timers_of_keys:
  assumes "user_times now s" "time_ok now"
  shows "\<forall>x\<in>set (timers_of mine now s). key_bounds 5000 x"
  using assms by (auto simp: timers_of_def user_times_def time_ok_def key_bounds_def timeout_defs)

text \<open>The deadlines of one user.\<close>

definition upend :: "string \<Rightarrow> presence \<Rightarrow> int set" where
  "upend u p = {d. (d, u) \<in> pending (pr_wheel p)}"

definition timers_for :: "int \<Rightarrow> int list \<Rightarrow> int set \<Rightarrow> int set \<Rightarrow> bool" where
  "timers_for now ts D D' \<longleftrightarrow> D \<subseteq> D' \<and> (\<forall>d\<in>D'. d \<in> D \<or> (\<exists>t\<in>set ts. d * 5000 \<le> max now t + 5000))
     \<and> (\<forall>t\<in>set ts. \<exists>d\<in>D'. t < d * 5000)"

definition users_ok :: "int \<Rightarrow> presence \<Rightarrow> bool" where
  "users_ok now p \<longleftrightarrow> (\<forall>v s. dget (pr_current p) v = Some s \<longrightarrow> up_user s = v \<and> user_times now s)"

text \<open>What an update leaves alone.\<close>

definition same_rest :: "presence \<Rightarrow> presence \<Rightarrow> bool" where
  "same_rest p p' \<longleftrightarrow> pr_devices p' = pr_devices p \<and> pr_syncs p' = pr_syncs p \<and> pr_external p' = pr_external p
     \<and> pr_external_updated p' = pr_external_updated p"

lemma update_one_effect:
  assumes step: "update_one c now f s (p, n, g) = (p', n', g')" and track: "pc_track c"
    and wheel: "wheel_inv now (pr_wheel p)" and now: "time_ok now" and times: "user_times now s" and users: "users_ok now p"
  shows "wheel_inv now (pr_wheel p')" "users_ok now p'" "same_rest p p'"
    "\<exists>s'. dget (pr_current p') (up_user s) = Some s' \<and> same_core s s'"
    "u \<noteq> up_user s \<Longrightarrow> dget (pr_current p') u = dget (pr_current p) u \<and> upend u p' = upend u p"
    "timers_for now (timers_of (pc_is_mine c (up_user s)) now s) (upend (up_user s) p) (upend (up_user s) p')"
proof -
  obtain s' notify ping w where upd: "handle_update (current_or_default (up_user s) p) s (pc_is_mine c (up_user s))
      (pr_wheel p) now False = (s', notify, ping, w)"
    by (metis prod.collapse)
  then have p': "p' = p\<lparr>pr_current := dset (up_user s) s' (pr_current p), pr_wheel := w\<rparr>"
    using step track by (simp add: update_one_def Let_def)
  note E = handle_update_effect [OF upd times]
  note keys = timers_of_keys [OF times now, where mine = "pc_is_mine c (up_user s)"]
  note T = insert_timers [OF wheel order_refl now keys, where u = "up_user s", folded E(1)]
  show "wheel_inv now (pr_wheel p')"
    using T(1) by (simp add: p')
  show "users_ok now p'"
    using users E(2,3) by (auto simp: users_ok_def p' same_core_def)
  show "same_rest p p'"
    by (simp add: same_rest_def p')
  show "\<exists>s'. dget (pr_current p') (up_user s) = Some s' \<and> same_core s s'"
    using E(2) by (simp add: p')
  show "dget (pr_current p') u = dget (pr_current p) u \<and> upend u p' = upend u p" if "u \<noteq> up_user s"
    using that T(2) by (auto simp: p' upend_def timers_added_def)
  show "timers_for now (timers_of (pc_is_mine c (up_user s)) now s) (upend (up_user s) p) (upend (up_user s) p')"
    using T(2) by (auto simp: p' upend_def timers_added_def timers_for_def)
qed

text \<open>Updates of distinct users, one after the other.\<close>

definition distinct_users :: "user_presence list \<Rightarrow> bool" where
  "distinct_users ss \<longleftrightarrow> distinct (map up_user ss)"

definition update_effect :: "presence_config \<Rightarrow> int \<Rightarrow> user_presence list \<Rightarrow> presence \<Rightarrow> presence \<Rightarrow> bool" where
  "update_effect c now ss p p' \<longleftrightarrow> wheel_inv now (pr_wheel p') \<and> users_ok now p' \<and> same_rest p p'
     \<and> (\<forall>s\<in>set ss. (\<exists>s'. dget (pr_current p') (up_user s) = Some s' \<and> same_core s s')
          \<and> timers_for now (timers_of (pc_is_mine c (up_user s)) now s) (upend (up_user s) p) (upend (up_user s) p'))
     \<and> (\<forall>u. u \<notin> up_user ` set ss \<longrightarrow> dget (pr_current p') u = dget (pr_current p) u \<and> upend u p' = upend u p)"

lemma fold_update_effect:
  assumes "fold (update_one c now f) ss (p, n, g) = (p', n', g')" "pc_track c" "time_ok now"
    and "wheel_inv now (pr_wheel p)" "users_ok now p" "distinct_users ss" "\<forall>s\<in>set ss. user_times now s"
  shows "update_effect c now ss p p'"
  using assms
proof (induction ss arbitrary: p n g)
  case Nil
  then show ?case by (simp add: update_effect_def same_rest_def)
next
  case (Cons s ss)
  obtain p1 n1 g1 where step: "update_one c now f s (p, n, g) = (p1, n1, g1)"
    by (metis prod.collapse)
  have times: "user_times now s" using Cons.prems(7) by simp
  note S = update_one_effect [OF step Cons.prems(2,4,3) times Cons.prems(5)]
  have IH: "update_effect c now ss p1 p'"
    using Cons.IH [of p1 n1 g1] Cons.prems step S(1,2) by (simp add: distinct_users_def)
  have new: "up_user s \<notin> up_user ` set ss"
    using Cons.prems(6) by (auto simp: distinct_users_def)
  have later: "dget (pr_current p1) (up_user x) = dget (pr_current p) (up_user x) \<and> upend (up_user x) p1 = upend (up_user x) p"
    if "x \<in> set ss" for x
  proof (rule S(5))
    show "up_user x \<noteq> up_user s" using new that by (metis image_eqI)
  qed
  show ?case
    unfolding update_effect_def
  proof (intro conjI ballI allI impI)
    show "wheel_inv now (pr_wheel p')" "users_ok now p'"
      using IH by (simp_all add: update_effect_def)
    show "same_rest p p'"
      using IH S(3) by (simp add: update_effect_def same_rest_def)
    fix x assume x: "x \<in> set (s # ss)"
    show "\<exists>s'. dget (pr_current p') (up_user x) = Some s' \<and> same_core x s'"
      using IH S(4) new x by (auto simp: update_effect_def)
    show "timers_for now (timers_of (pc_is_mine c (up_user x)) now x) (upend (up_user x) p) (upend (up_user x) p')"
    proof (cases "x \<in> set ss")
      case True
      then show ?thesis using IH later by (simp add: update_effect_def)
    next
      case False
      then have "x = s" using x by simp
      then show ?thesis using IH S(6) new by (simp add: update_effect_def)
    qed
  next
    fix u assume u: "u \<notin> up_user ` set (s # ss)"
    then show "dget (pr_current p') u = dget (pr_current p) u" "upend u p' = upend u p"
      using IH S(5) [of u] by (simp_all add: update_effect_def)
  qed
qed

lemma dict_of_users: "distinct_users ss \<Longrightarrow> dvalues (fold (\<lambda>s. dset (up_user s) s) ss []) = ss"
proof -
  have "fold (\<lambda>s. dset (up_user s) s) ss d = d @ map (\<lambda>s. (up_user s, s)) ss"
    if "distinct (map up_user ss)" "fst ` set d \<inter> up_user ` set ss = {}" for d
    using that
  proof (induction ss arbitrary: d)
    case (Cons s ss)
    then have "dset (up_user s) s d = d @ [(up_user s, s)]"
      by (intro dset_new) auto
    then show ?case using Cons by auto
  qed simp
  from this [of "[]"] show "distinct_users ss \<Longrightarrow> dvalues (fold (\<lambda>s. dset (up_user s) s) ss []) = ss"
    by (simp add: distinct_users_def dvalues_def comp_def)
qed

lemma update_states_effect:
  assumes cfg: "pc_track c" "pc_enabled c" and "time_ok now" "wheel_inv now (pr_wheel p)" "users_ok now p"
    and "distinct_users ss" "\<forall>s\<in>set ss. user_times now s"
  shows "update_effect c now ss p (update_states c now f ss p)"
proof -
  obtain p1 n1 g1 where run: "fold (update_one c now f) ss (p, [], []) = (p1, n1, g1)"
    by (metis prod.collapse)
  note E = fold_update_effect [OF run cfg(1) assms(3-7)]
  define q where "q = update_states c now f ss p"
  have q: "pr_wheel q = pr_wheel p1" "pr_current q = pr_current p1" "same_rest p1 q"
    using cfg(2) run by (simp_all add: q_def update_states_def dict_of_users [OF assms(6)] same_rest_def)
  then have eqs: "upend u q = upend u p1" "users_ok now q = users_ok now p1" for u
    by (simp_all add: upend_def users_ok_def)
  have "same_rest p q"
    using E q(3) by (simp add: update_effect_def same_rest_def)
  then show ?thesis
    using E unfolding q_def [symmetric] update_effect_def eqs q(1,2) by (elim conjE) (intro conjI)
qed

section \<open>The invariant of a handler\<close>

text \<open>Tracking is on, nothing is stored, and the busy state is not enabled.\<close>

definition plain_config :: "presence_config \<Rightarrow> bool" where
  "plain_config c \<longleftrightarrow> pc_enabled c \<and> pc_track c \<and> pc_stored c = (\<lambda>_. None) \<and> PresenceState_BUSY \<notin> set (pc_valid c)
     \<and> (\<forall>s\<in>set (pc_valid c). known_state s)"

definition plain_state :: "string \<Rightarrow> bool" where
  "plain_state s \<longleftrightarrow> known_state s \<and> s \<noteq> PresenceState_BUSY"

definition devices_ok :: "presence \<Rightarrow> bool" where
  "devices_ok p \<longleftrightarrow> (\<forall>v. dict_ok (devices_of v p) \<and> (\<forall>d\<in>set (dvalues (devices_of v p)). plain_state (dp_state d)))"

definition handler_inv :: "int \<Rightarrow> presence \<Rightarrow> bool" where
  "handler_inv t p \<longleftrightarrow> wheel_inv t (pr_wheel p) \<and> users_ok t p \<and> devices_ok p
     \<and> (\<forall>v. plain_state (up_state (current_or_default v p)))"

definition device_states :: "string \<Rightarrow> presence \<Rightarrow> string set" where
  "device_states u p = dp_state ` set (dvalues (devices_of u p))"

text \<open>
  For a local user: the state is the best of its devices; nothing is known after \<open>a\<close>; every timer fires
  soon after the idle time; and unless the user is offline there is a timer, at which the user has been
  inactive for long enough to be looked at again.
\<close>

definition user_inv :: "string \<Rightarrow> int \<Rightarrow> int \<Rightarrow> presence \<Rightarrow> bool" where
  "user_inv u a t p \<longleftrightarrow>
     (let s = current_or_default u p in
      a \<le> t \<and> up_state s = best_state (device_states u p)
      \<and> up_last_active s \<le> a \<and> up_last_sync s \<le> a
      \<and> (\<forall>d\<in>set (dvalues (devices_of u p)). dp_last_active d \<le> a \<and> dp_last_sync d \<le> a)
      \<and> (\<forall>d\<in>upend u p. d * 5000 \<le> max (a + IDLE_TIMER) t + 5000)
      \<and> (up_state s \<noteq> PresenceState_OFFLINE \<longrightarrow> upend u p \<noteq> {})
      \<and> (t - up_last_active s > LAST_ACTIVE_GRANULARITY
         \<or> (\<exists>d\<in>upend u p. up_last_active s + LAST_ACTIVE_GRANULARITY < d * 5000)))"

lemma best_state_plain: "\<forall>s\<in>S. plain_state s \<Longrightarrow> plain_state (best_state S)"
  by (auto simp: plain_state_def best_state_def known_state_def)

lemma users_ok_mono: "users_ok t p \<Longrightarrow> t \<le> now \<Longrightarrow> users_ok now p"
  unfolding users_ok_def user_times_def by (meson order_trans)

lemma current_times: "users_ok t p \<Longrightarrow> 0 \<le> t \<Longrightarrow> user_times t (current_or_default v p) \<and> up_user (current_or_default v p) = v"
  by (auto simp: users_ok_def current_or_default_def default_user_def user_times_def split: option.splits)

lemma update_keeps_handler:
  assumes E: "update_effect c now ss p p'" and "devices_ok p" "\<forall>v. plain_state (up_state (current_or_default v p))"
    and "\<forall>s\<in>set ss. plain_state (up_state s)"
  shows "handler_inv now p'"
proof -
  have "devices_of v p' = devices_of v p" for v
    using E by (simp add: update_effect_def same_rest_def devices_of_def)
  then have "devices_ok p'"
    using assms(2) by (simp add: devices_ok_def)
  moreover have "plain_state (up_state (current_or_default v p'))" for v
  proof (cases "v \<in> up_user ` set ss")
    case True
    then obtain s s' where "s \<in> set ss" "dget (pr_current p') v = Some s'" "same_core s s'"
      using E by (auto simp: update_effect_def)
    then show ?thesis
      using assms(4) by (simp add: current_or_default_def same_core_def)
  next
    case False
    then have "current_or_default v p' = current_or_default v p"
      using E by (simp add: update_effect_def current_or_default_def)
    then show ?thesis using assms(3) by simp
  qed
  ultimately show ?thesis
    using E by (simp add: update_effect_def handler_inv_def)
qed

text \<open>An update of the user, with what has to be known before it.\<close>

lemma update_keeps_user:
  assumes E: "update_effect c now ss p p'" and mine: "pc_is_mine c u" and s: "s \<in> set ss" "up_user s = u"
    and state: "plain_state (up_state s)" "up_state s = best_state (device_states u p)"
    and a: "a \<le> now" "up_last_active s \<le> a" "up_last_sync s \<le> a"
      "\<forall>d\<in>set (dvalues (devices_of u p)). dp_last_active d \<le> a \<and> dp_last_sync d \<le> a"
      "\<forall>d\<in>upend u p. d * 5000 \<le> max (a + IDLE_TIMER) now + 5000"
    and active: "up_state s = PresenceState_ONLINE \<or> now - up_last_active s > LAST_ACTIVE_GRANULARITY
      \<or> (\<exists>d\<in>upend u p. up_last_active s + LAST_ACTIVE_GRANULARITY < d * 5000)"
  shows "user_inv u a now p'"
proof -
  obtain s' where s': "current_or_default u p' = s'" "same_core s s'"
    using E s by (auto simp: update_effect_def current_or_default_def)
  have T: "timers_for now (timers_of True now s) (upend u p) (upend u p')"
    using E s mine by (auto simp: update_effect_def)
  have devs: "devices_of u p' = devices_of u p"
    using E by (simp add: update_effect_def same_rest_def devices_of_def)
  have timers: "\<forall>x\<in>set (timers_of True now s). x \<le> a + IDLE_TIMER"
    using a state(1) by (auto simp: timers_of_def timeout_defs plain_state_def)
  have bound: "d * 5000 \<le> max (a + IDLE_TIMER) now + 5000" if "d \<in> upend u p'" for d
  proof -
    consider "d \<in> upend u p" | x where "x \<in> set (timers_of True now s)" "d * 5000 \<le> max now x + 5000"
      using T \<open>d \<in> upend u p'\<close> by (auto simp: timers_for_def)
    then show ?thesis
    proof cases
      case 1
      then show ?thesis using a(5) by blast
    next
      case 2
      then show ?thesis using timers by fastforce
    qed
  qed
  have some: "upend u p' \<noteq> {}" if "up_state s \<noteq> PresenceState_OFFLINE"
    using T that by (auto simp: timers_for_def timers_of_def)
  have later: "now - up_last_active s > LAST_ACTIVE_GRANULARITY
      \<or> (\<exists>d\<in>upend u p'. up_last_active s + LAST_ACTIVE_GRANULARITY < d * 5000)"
    using active
  proof (elim disjE)
    assume "up_state s = PresenceState_ONLINE"
    then have "up_last_active s + IDLE_TIMER \<in> set (timers_of True now s)"
      by (simp add: timers_of_def)
    then show ?thesis
      using T by (fastforce simp: timers_for_def timeout_defs)
  qed (use T in \<open>auto simp: timers_for_def\<close>)
  show ?thesis
    unfolding user_inv_def Let_def s'(1) devs device_states_def
    using s'(2) state(2) a(1-4) bound some later by (simp add: same_core_def device_states_def)
qed

lemma user_inv_frame:
  assumes "user_inv u a t p" "t \<le> now" "a \<le> a'" "a' \<le> now"
    and "current_or_default u p' = current_or_default u p" "upend u p' = upend u p"
    and "device_states u p' = device_states u p"
    and "\<forall>d\<in>set (dvalues (devices_of u p')). dp_last_active d \<le> a' \<and> dp_last_sync d \<le> a'"
  shows "user_inv u a' now p'"
proof -
  have "d * 5000 \<le> max (a' + IDLE_TIMER) now + 5000" if "d * 5000 \<le> max (a + IDLE_TIMER) t + 5000" for d
    using that assms(2,3) by linarith
  then show ?thesis
    using assms unfolding user_inv_def Let_def by (auto intro: order_trans)
qed

lemma inv_cong:
  assumes "pr_wheel q = pr_wheel p" "pr_current q = pr_current p" "pr_devices q = pr_devices p"
  shows "handler_inv t q = handler_inv t p" "user_inv u a t q = user_inv u a t p"
proof -
  have "devices_of v q = devices_of v p" "current_or_default v q = current_or_default v p" "upend v q = upend v p" for v
    using assms by (simp_all add: devices_of_def current_or_default_def upend_def)
  then show "handler_inv t q = handler_inv t p" "user_inv u a t q = user_inv u a t p"
    using assms by (simp_all add: handler_inv_def users_ok_def devices_ok_def user_inv_def device_states_def)
qed

lemma op_keeps:
  assumes cfg: "plain_config c" "pc_is_mine c u" and inv: "handler_inv t p" "user_inv u a t p"
    and now: "t \<le> now" "time_ok now"
    and p1: "pr_wheel p1 = pr_wheel p" "\<And>v. current_or_default v p1 = current_or_default v p" "users_ok now p1"
      "devices_ok p1" "\<forall>d\<in>set (dvalues (devices_of u p1)). dp_last_active d \<le> now \<and> dp_last_sync d \<le> now"
    and ss: "distinct_users ss" "\<forall>s\<in>set ss. user_times now s \<and> plain_state (up_state s)"
    and user: "(\<exists>s\<in>set ss. up_user s = u \<and> up_state s = best_state (device_states u p1)
        \<and> (up_state s = PresenceState_ONLINE \<or> up_last_active s = up_last_active (current_or_default u p)))
      \<or> u \<notin> up_user ` set ss \<and> device_states u p1 = device_states u p"
  shows "handler_inv now (update_states c now f ss p1)" "user_inv u now now (update_states c now f ss p1)"
proof -
  let ?q = "update_states c now f ss p1"
  have wheel: "wheel_inv now (pr_wheel p1)"
    using inv(1) wheel_inv_mono [OF _ now(1)] by (simp add: handler_inv_def p1(1))
  have E: "update_effect c now ss p1 ?q"
    using cfg(1) ss by (intro update_states_effect [OF _ _ now(2) wheel p1(3)]) (auto simp: plain_config_def)
  show "handler_inv now ?q"
    using inv(1) ss(2) p1(2,4) by (intro update_keeps_handler [OF E]) (auto simp: handler_inv_def)
  have pend: "upend u p1 = upend u p"
    by (simp add: upend_def p1(1))
  show "user_inv u now now ?q"
    using user
  proof (rule disjE)
    assume "\<exists>s\<in>set ss. up_user s = u \<and> up_state s = best_state (device_states u p1)
        \<and> (up_state s = PresenceState_ONLINE \<or> up_last_active s = up_last_active (current_or_default u p))"
    then obtain s where s: "s \<in> set ss" "up_user s = u" "up_state s = best_state (device_states u p1)"
      "up_state s = PresenceState_ONLINE \<or> up_last_active s = up_last_active (current_or_default u p)"
      by blast
    have times: "user_times now s" "plain_state (up_state s)"
      using ss(2) s(1) by auto
    have bound: "\<forall>d\<in>upend u p1. d * 5000 \<le> max (now + IDLE_TIMER) now + 5000"
      using inv(2) now(1) unfolding pend user_inv_def Let_def by fastforce
    have active: "up_state s = PresenceState_ONLINE \<or> now - up_last_active s > LAST_ACTIVE_GRANULARITY
        \<or> (\<exists>d\<in>upend u p1. up_last_active s + LAST_ACTIVE_GRANULARITY < d * 5000)"
      using s(4) inv(2) now(1) unfolding pend user_inv_def Let_def by auto
    show ?thesis
      using times p1(5) bound active
      by (intro update_keeps_user [OF E cfg(2) s(1,2) times(2) s(3)]) (auto simp: user_times_def)
  next
    assume "u \<notin> up_user ` set ss \<and> device_states u p1 = device_states u p"
    then have other: "u \<notin> up_user ` set ss" "device_states u p1 = device_states u p"
      by simp_all
    then have same: "current_or_default u ?q = current_or_default u p1" "upend u ?q = upend u p1"
      using E by (simp_all add: update_effect_def current_or_default_def)
    have devs: "devices_of u ?q = devices_of u p1"
      using E by (simp add: update_effect_def same_rest_def devices_of_def)
    have "a \<le> now"
      using inv(2) now(1) by (simp add: user_inv_def Let_def)
    show ?thesis
    proof (rule user_inv_frame [OF inv(2) now(1) \<open>a \<le> now\<close> order_refl])
      show "current_or_default u ?q = current_or_default u p"
        using same(1) p1(2) by simp
      show "upend u ?q = upend u p"
        using same(2) pend by simp
      show "device_states u ?q = device_states u p"
        using other(2) devs by (simp add: device_states_def)
      show "\<forall>d\<in>set (dvalues (devices_of u ?q)). dp_last_active d \<le> now \<and> dp_last_sync d \<le> now"
        using p1(5) devs by simp
    qed
  qed
qed

text \<open>Changing one device.\<close>

lemma devices_of_set_device:
  "devices_of v (set_device u i d p) = (if v = u then dset i d (devices_of u p) else devices_of v p)"
  by (simp add: devices_of_def set_device_def)

lemma dvalues_dset: "dict_ok ds \<Longrightarrow> set (dvalues (dset i d ds)) \<subseteq> insert d (set (dvalues ds))"
proof
  fix x assume ok: "dict_ok ds" and x: "x \<in> set (dvalues (dset i d ds))"
  then obtain k where "(k, x) \<in> set (dset i d ds)"
    by (auto simp: dvalues_def)
  then have "dget (dset i d ds) k = Some x"
    using dget_iff_mem [OF dict_ok_dset [OF ok]] by blast
  then show "x \<in> insert d (set (dvalues ds))"
    by (auto split: if_splits dest: dget_in_values)
qed

lemma devices_ok_set_device:
  assumes "devices_ok p" "plain_state (dp_state d)"
  shows "devices_ok (set_device u i d p)"
  using assms dvalues_dset unfolding devices_ok_def devices_of_set_device by (fastforce split: if_splits)

text \<open>The states do not change if a device keeps its state, or a new one is offline.\<close>

lemma best_states_set_device:
  assumes "dict_ok (devices_of u p)" "dp_state d = dp_state (device_of i (devices_of u p))"
  shows "best_state (device_states u (set_device u i d p)) = best_state (device_states u p)"
proof -
  define ds where "ds = devices_of u p"
  have mem: "s \<in> dp_state ` set (dvalues es) \<longleftrightarrow> (\<exists>k e. dget es k = Some e \<and> dp_state e = s)" if "dict_ok es"
    for s and es :: user_devices
    using that by (force simp: dvalues_def image_iff dget_iff_mem)
  have "s \<in> dp_state ` set (dvalues (dset i d ds)) \<longleftrightarrow> s \<in> dp_state ` set (dvalues ds) \<or> dget ds i = None \<and> s = PresenceState_OFFLINE"
    for s
    using assms unfolding mem [OF assms(1) [folded ds_def]] mem [OF dict_ok_dset [OF assms(1) [folded ds_def]]]
    by (auto simp: device_of_def ds_def [symmetric] default_device_def split: option.splits if_splits)
      (metis option.distinct(1) option.inject)+
  then show ?thesis
    by (simp add: device_states_def devices_of_set_device ds_def [symmetric] best_state_def)
qed

section \<open>Operations keep the invariant\<close>

lemma current_state_memory:
  assumes "plain_config c" "users_ok now p" "0 \<le> now"
  obtains q where "current_state_for_user c v p = (current_or_default v p, q)" "pr_wheel q = pr_wheel p"
    "pr_devices q = pr_devices p" "\<And>w. current_or_default w q = current_or_default w p" "users_ok now q"
    "pr_external q = pr_external p"
proof -
  have times: "user_times now (default_user v)" "up_user (default_user v) = v"
    using assms(3) by (simp_all add: default_user_def user_times_def)
  show ?thesis
  proof (cases "dget (pr_current p) v")
    case None
    show ?thesis
      using assms None times
      by (intro that [of "p\<lparr>pr_current := dset v (default_user v) (pr_current p)\<rparr>"])
        (auto simp: current_state_for_user_def plain_config_def current_or_default_def users_ok_def)
  next
    case (Some s)
    then show ?thesis
      using assms(2) by (intro that [of p]) (auto simp: current_state_for_user_def current_or_default_def)
  qed
qed

lemma handler_invD:
  assumes "handler_inv t p"
  shows "wheel_inv t (pr_wheel p)" "users_ok t p" "devices_ok p" "plain_state (up_state (current_or_default v p))"
  using assms by (simp_all add: handler_inv_def)

lemma user_op_keeps:
  assumes cfg: "plain_config c" "pc_is_mine c u" and inv: "handler_inv t p" "user_inv u a t p"
    and now: "t \<le> now" "time_ok now"
    and p1: "pr_wheel p1 = pr_wheel p" "\<And>w. current_or_default w p1 = current_or_default w p" "users_ok now p1"
      "\<And>w. devices_of w p1 = (if w = v then dset i d (devices_of v p) else devices_of w p)"
    and d: "plain_state (dp_state d)" "v = u \<Longrightarrow> dp_last_active d \<le> now \<and> dp_last_sync d \<le> now"
    and s: "user_times now s" "plain_state (up_state s)" "up_user s = v"
    and user: "v = u \<Longrightarrow> up_state s = best_state (device_states u p1)
      \<and> (up_state s = PresenceState_ONLINE \<or> up_last_active s = up_last_active (current_or_default u p))"
  shows "handler_inv now (update_states c now f [s] p1)" "user_inv u now now (update_states c now f [s] p1)"
proof -
  have devs: "devices_ok p1"
    using handler_invD(3) [OF inv(1)] d(1) dvalues_dset unfolding devices_ok_def p1(4) by (fastforce split: if_splits)
  have old: "\<forall>e\<in>set (dvalues (devices_of u p)). dp_last_active e \<le> now \<and> dp_last_sync e \<le> now"
    using inv(2) now(1) unfolding user_inv_def Let_def by fastforce
  have ok: "dict_ok (devices_of u p)"
    using handler_invD(3) [OF inv(1)] by (simp add: devices_ok_def)
  have times: "\<forall>e\<in>set (dvalues (devices_of u p1)). dp_last_active e \<le> now \<and> dp_last_sync e \<le> now"
    using old d(2) dvalues_dset [OF ok, of i d] unfolding p1(4) by (auto split: if_splits)
  have one: "distinct_users [s]" "\<forall>x\<in>set [s]. user_times now x \<and> plain_state (up_state x)"
    using s by (simp_all add: distinct_users_def)
  have "(\<exists>x\<in>set [s]. up_user x = u \<and> up_state x = best_state (device_states u p1)
        \<and> (up_state x = PresenceState_ONLINE \<or> up_last_active x = up_last_active (current_or_default u p)))
      \<or> u \<notin> up_user ` set [s] \<and> device_states u p1 = device_states u p"
  proof (cases "v = u")
    case True
    then show ?thesis using user s(3) by auto
  next
    case False
    then show ?thesis using s(3) by (simp add: device_states_def p1(4))
  qed
  from op_keeps [OF cfg inv now p1(1-3) devs times one this]
  show "handler_inv now (update_states c now f [s] p1)" "user_inv u now now (update_states c now f [s] p1)"
    by simp_all
qed

lemma set_device_frame [simp]:
  "pr_wheel (set_device v i d p) = pr_wheel p" "pr_current (set_device v i d p) = pr_current p"
  "pr_external (set_device v i d p) = pr_external p"
  "current_or_default w (set_device v i d p) = current_or_default w p"
  "users_ok t (set_device v i d p) = users_ok t p"
  by (simp_all add: set_device_def current_or_default_def users_ok_def)

lemma device_of_facts:
  assumes "handler_inv t p"
  shows "plain_state (dp_state (device_of i (devices_of v p)))"
  using handler_invD(3) [OF assms]
  by (auto simp: devices_ok_def device_of_def default_device_def plain_state_def known_state_def dest: dget_in_values
      split: option.splits)

lemma device_of_times:
  assumes "user_inv u a t p" "t \<le> now" "0 \<le> now"
  shows "dp_last_active (device_of i (devices_of u p)) \<le> now" "dp_last_sync (device_of i (devices_of u p)) \<le> now"
  using assms by (auto simp: user_inv_def Let_def device_of_def default_device_def dest!: dget_in_values
      split: option.splits)

lemma combine_devices:
  assumes "devices_ok p"
  shows "combine_device_states (dvalues (devices_of v p)) = Inr (best_state (device_states v p))"
    "plain_state (best_state (device_states v p))"
proof -
  have plain: "\<forall>d\<in>set (dvalues (devices_of v p)). plain_state (dp_state d)"
    using assms by (simp add: devices_ok_def)
  then show "combine_device_states (dvalues (devices_of v p)) = Inr (best_state (device_states v p))"
    by (simp add: combine_best plain_state_def device_states_def)
  show "plain_state (best_state (device_states v p))"
    using plain by (intro best_state_plain) (auto simp: device_states_def)
qed

text \<open>Activity, the presence a client sets, and the start of a sync.\<close>

lemma bump_keeps:
  assumes cfg: "plain_config c" "pc_is_mine c u" and inv: "handler_inv t p" "user_inv u a t p"
    and now: "t \<le> now" "time_ok now"
    and run: "bump_presence_active_time c now v i p = Inr p'"
    and known: "v = u \<Longrightarrow> dp_state (device_of i (devices_of u p)) \<noteq> PresenceState_OFFLINE"
  shows "handler_inv now p'" "user_inv u now now p'"
proof -
  define d where "d = device_of i (devices_of v p)"
  define d' where "d' = d\<lparr>dp_last_active := now,
    dp_state := (if dp_state d = PresenceState_UNAVAILABLE then PresenceState_ONLINE else dp_state d)\<rparr>"
  define p1 where "p1 = set_device v i d' p"
  have t0: "0 \<le> now" using now(2) by (simp add: time_ok_def)
  have users: "users_ok now p1"
    using users_ok_mono [OF handler_invD(2) [OF inv(1)] now(1)] by (simp add: p1_def)
  obtain q where q: "current_state_for_user c v p1 = (current_or_default v p1, q)" "pr_wheel q = pr_wheel p1"
    "pr_devices q = pr_devices p1" "\<And>w. current_or_default w q = current_or_default w p1" "users_ok now q"
    using current_state_memory [OF cfg(1) users t0] by metis
  have plain: "plain_state (dp_state d')"
    using device_of_facts [OF inv(1), of i v] by (auto simp: d'_def d_def plain_state_def known_state_def)
  have devs: "devices_ok q"
    using devices_ok_set_device [OF handler_invD(3) [OF inv(1)] plain, of v i] q(3)
    by (simp add: p1_def devices_ok_def devices_of_def)
  define s where "s = (current_or_default v p)\<lparr>up_last_active := now, up_state := best_state (device_states v q)\<rparr>"
  have cur: "current_or_default w p1 = current_or_default w p" for w
    by (simp add: p1_def)
  have p': "p' = update_states c now False [s] q"
    using run cfg(1) q(1) cur combine_devices(1) [OF devs, of v]
    by (simp add: bump_presence_active_time_def plain_config_def d_def [symmetric] d'_def [symmetric] p1_def [symmetric]
        s_def Let_def)
  have times: "user_times now s" "plain_state (up_state s)" "up_user s = v"
    using current_times [OF users_ok_mono [OF handler_invD(2) [OF inv(1)] now(1)] t0, of v] combine_devices(2) [OF devs, of v] t0
    by (simp_all add: s_def user_times_def)
  have devices: "devices_of w q = (if w = v then dset i d' (devices_of v p) else devices_of w p)" for w
    using q(3) by (simp add: p1_def devices_of_set_device [symmetric]) (simp add: devices_of_def)
  have online: "up_state s = PresenceState_ONLINE" if "v = u"
  proof -
    have "dp_state d' = PresenceState_ONLINE"
      using known [OF that] device_of_facts [OF inv(1), of i v] that
      by (auto simp: d'_def d_def plain_state_def known_state_def)
    moreover have "dget (devices_of v q) i = Some d'"
      by (simp add: devices)
    ultimately have "PresenceState_ONLINE \<in> device_states v q"
      by (force simp: device_states_def dest: dget_in_values)
    moreover have "PresenceState_BUSY \<notin> device_states v q"
    proof -
      have "\<forall>e\<in>set (dvalues (devices_of v q)). dp_state e \<noteq> PresenceState_BUSY"
        using devs by (simp add: devices_ok_def plain_state_def)
      then show ?thesis
        unfolding device_states_def by (metis image_iff)
    qed
    ultimately show ?thesis
      by (simp add: s_def best_state_def)
  qed
  have "v = u \<Longrightarrow> dp_last_active d' \<le> now \<and> dp_last_sync d' \<le> now"
    using device_of_times [OF inv(2) now(1) t0, of i] by (simp add: d'_def d_def)
  from user_op_keeps [OF cfg inv now, of q v i d' s False, OF _ _ q(5) devices plain this times]
  show "handler_inv now p'" "user_inv u now now p'"
    unfolding p' using q(2,4) online by (simp_all add: p1_def s_def)
qed

lemma set_state_keeps:
  assumes cfg: "plain_config c" "pc_is_mine c u" and inv: "handler_inv t p" "user_inv u a t p"
    and now: "t \<le> now" "time_ok now"
    and run: "set_state c now v i st msg f is_sync p = Inr p'"
  shows "handler_inv now p'" "user_inv u now now p'"
proof -
  have t0: "0 \<le> now" using now(2) by (simp add: time_ok_def)
  have users: "users_ok now p"
    using users_ok_mono [OF handler_invD(2) [OF inv(1)] now(1)] .
  obtain q where q: "current_state_for_user c v p = (current_or_default v p, q)" "pr_wheel q = pr_wheel p"
    "pr_devices q = pr_devices p" "\<And>w. current_or_default w q = current_or_default w p" "users_ok now q"
    using current_state_memory [OF cfg(1) users t0] by metis
  have devs_q: "devices_of w q = devices_of w p" for w
    using q(3) by (simp add: devices_of_def)
  define d where "d = device_of i (devices_of v p)"
  define d' where "d' = d\<lparr>dp_state := st, dp_last_active := now, dp_last_sync := (if is_sync then now else dp_last_sync d)\<rparr>"
  define p1 where "p1 = set_device v i d' q"
  have valid: "st \<in> set (pc_valid c)"
    using run by (auto simp: set_state_def split: if_splits)
  then have plain: "plain_state (dp_state d')"
    using cfg(1) by (auto simp: d'_def plain_config_def plain_state_def)
  have not_busy: "up_state (current_or_default v p) \<noteq> PresenceState_BUSY"
    using handler_invD(4) [OF inv(1)] by (simp add: plain_state_def)
  have devs: "devices_ok p1"
    using devices_ok_set_device [of q d' v i] handler_invD(3) [OF inv(1)] plain devs_q
    by (simp add: p1_def devices_ok_def)
  define b where "b = best_state (device_states v p1)"
  define s where "s = (let s1 = (current_or_default v p)\<lparr>up_state := b\<rparr>;
      s2 = (if b = PresenceState_ONLINE \<or> b = PresenceState_BUSY then s1\<lparr>up_last_active := now\<rparr> else s1)
    in if is_sync then s2\<lparr>up_last_sync := now\<rparr> else s2\<lparr>up_status := msg\<rparr>)"
  have "set_state c now v i st msg f is_sync p = Inr (update_states c now f [s] p1)"
  proof -
    have guards: "(st \<notin> set (pc_valid c)) = False" "(\<not> pc_track c) = False"
      "(up_state (current_or_default v p) = PresenceState_BUSY \<and> is_sync) = False"
      using valid cfg(1) not_busy by (simp_all add: plain_config_def)
    show ?thesis
      unfolding s_def
      by (simp only: set_state_def guards if_False q(1) prod.case Let_def devs_q d_def [symmetric] d'_def [symmetric]
          p1_def [symmetric] combine_devices(1) [OF devs] bindE_Inr b_def [symmetric])
  qed
  then have p': "p' = update_states c now f [s] p1"
    using run by simp
  have b: "plain_state b"
    using combine_devices(2) [OF devs, of v] by (simp add: b_def)
  have times: "user_times now s" "plain_state (up_state s)" "up_user s = v"
    using current_times [OF users t0, of v] b t0 by (simp_all add: s_def Let_def user_times_def)
  have active: "up_state s = b" "b = PresenceState_ONLINE \<or> up_last_active s = up_last_active (current_or_default v p)"
    using b by (simp_all add: s_def Let_def plain_state_def)
  have devices: "devices_of w p1 = (if w = v then dset i d' (devices_of v p) else devices_of w p)" for w
    by (simp add: p1_def devices_of_set_device devs_q)
  have "v = u \<Longrightarrow> dp_last_active d' \<le> now \<and> dp_last_sync d' \<le> now"
    using device_of_times [OF inv(2) now(1) t0, of i] by (simp add: d'_def d_def)
  moreover have "v = u \<Longrightarrow> up_state s = best_state (device_states u p1)
      \<and> (up_state s = PresenceState_ONLINE \<or> up_last_active s = up_last_active (current_or_default u p))"
    using active by (auto simp: b_def)
  moreover have "pr_wheel p1 = pr_wheel p" "\<And>w. current_or_default w p1 = current_or_default w p" "users_ok now p1"
    using q(2,4,5) by (simp_all add: p1_def)
  ultimately show "handler_inv now p'" "user_inv u now now p'"
    unfolding p' using user_op_keeps [OF cfg inv now, of p1 v i d' s f] devices plain times by blast+
qed

text \<open>Time passes, and what is neither timer nor state may change.\<close>

lemma quiet_keeps:
  assumes inv: "handler_inv t p" "user_inv u a t p" and now: "t \<le> now"
    and q: "pr_wheel q = pr_wheel p" "\<And>w. current_or_default w q = current_or_default w p" "users_ok now q"
      "pr_devices q = pr_devices p"
  shows "handler_inv now q" "user_inv u now now q" "user_inv u a now q"
proof -
  have devs: "devices_of w q = devices_of w p" for w
    using q(4) by (simp add: devices_of_def)
  show "handler_inv now q"
    using inv(1) q(3) wheel_inv_mono [OF _ now]
    by (simp add: handler_inv_def q(1,2) devices_ok_def devs)
  have a: "a \<le> now" "\<forall>d\<in>set (dvalues (devices_of u q)). dp_last_active d \<le> a \<and> dp_last_sync d \<le> a"
    using inv(2) now by (simp_all add: user_inv_def Let_def devs)
  then have "\<forall>d\<in>set (dvalues (devices_of u q)). dp_last_active d \<le> now \<and> dp_last_sync d \<le> now"
    by fastforce
  moreover have "upend u q = upend u p" "device_states u q = device_states u p"
    by (simp_all add: upend_def q(1) device_states_def devs)
  ultimately show "user_inv u now now q" "user_inv u a now q"
    using user_inv_frame [OF inv(2) now a(1) order_refl q(2)] user_inv_frame [OF inv(2) now order_refl a(1) q(2)] a(2)
    by blast+
qed

text \<open>The syncing counts and the table of external processes are not part of the invariant.\<close>

lemma sync_keeps:
  assumes cfg: "plain_config c" "pc_is_mine c u" and inv: "handler_inv t p" "user_inv u a t p"
    and now: "t \<le> now" "time_ok now"
  shows "handler_inv now (fst (user_syncing c now v i True st p))" "user_inv u now now (fst (user_syncing c now v i True st p))"
proof -
  define p1 where "p1 = p\<lparr>pr_syncs := dset (v, i) ((case dget (pr_syncs p) (v, i) of None \<Rightarrow> 0 | Some n \<Rightarrow> n) + 1) (pr_syncs p)\<rparr>"
  have inv1: "handler_inv t p1" "user_inv u a t p1"
    using inv inv_cong [of p1 p] by (simp_all add: p1_def)
  have "handler_inv now p1 \<and> user_inv u now now p1"
    using quiet_keeps [OF inv now(1), of p1] users_ok_mono [OF handler_invD(2) [OF inv(1)] now(1)]
    by (simp add: p1_def current_or_default_def users_ok_def)
  moreover have "fst (user_syncing c now v i True st p) = (case set_state c now v i st None False True p1 of Inr p2 \<Rightarrow> p2 | Inl e \<Rightarrow> p1)"
    using cfg(1) by (simp add: user_syncing_def plain_config_def p1_def Let_def split: sum.splits)
  ultimately show "handler_inv now (fst (user_syncing c now v i True st p))"
    "user_inv u now now (fst (user_syncing c now v i True st p))"
    using set_state_keeps [OF cfg inv1 now, of v i st None False True]
    by (auto split: sum.splits)
qed

lemma user_inv_state:
  "user_inv u a t p \<Longrightarrow> up_state (current_or_default u p) = best_state (device_states u p)"
  by (simp add: user_inv_def Let_def)

lemma sync_end_keeps:
  assumes cfg: "plain_config c" "pc_is_mine c u" and inv: "handler_inv t p" "user_inv u a t p"
    and now: "t \<le> now" "time_ok now"
  shows "handler_inv now (sync_end c now v i p)" "user_inv u now now (sync_end c now v i p)"
proof -
  have t0: "0 \<le> now" using now(2) by (simp add: time_ok_def)
  note users = users_ok_mono [OF handler_invD(2) [OF inv(1)] now(1)]
  have "handler_inv now (sync_end c now v i p) \<and> user_inv u now now (sync_end c now v i p)"
  proof (cases "dget (pr_syncs p) (v, i)")
    case None
    then show ?thesis
      using quiet_keeps [OF inv now(1), of p] users by (simp add: sync_end_def)
  next
    case (Some n)
    define p1 where "p1 = p\<lparr>pr_syncs := dset (v, i) (n - 1) (pr_syncs p)\<rparr>"
    have p1: "pr_wheel p1 = pr_wheel p" "pr_devices p1 = pr_devices p" "\<And>w. current_or_default w p1 = current_or_default w p"
      "users_ok now p1"
      using users by (simp_all add: p1_def current_or_default_def users_ok_def)
    obtain q where q: "current_state_for_user c v p1 = (current_or_default v p1, q)" "pr_wheel q = pr_wheel p1"
      "pr_devices q = pr_devices p1" "\<And>w. current_or_default w q = current_or_default w p1" "users_ok now q"
      using current_state_memory [OF cfg(1) p1(4) t0] by metis
    note Q = quiet_keeps [OF inv now(1), of q]
    define s where "s = (current_or_default v p)\<lparr>up_last_sync := now\<rparr>"
    have s: "user_times now s" "plain_state (up_state s)" "up_user s = v"
      using current_times [OF users t0, of v] handler_invD(4) [OF inv(1), of v] t0
      by (simp_all add: s_def user_times_def)
    have "sync_end c now v i p = update_states c now False [s] q"
      using Some q(1) p1(3) by (simp add: sync_end_def p1_def [symmetric] s_def)
    moreover have "handler_inv now q" "user_inv u now now q"
      using Q q p1 by simp_all
    moreover have "(\<exists>x\<in>set [s]. up_user x = u \<and> up_state x = best_state (device_states u q)
        \<and> (up_state x = PresenceState_ONLINE \<or> up_last_active x = up_last_active (current_or_default u q)))
      \<or> u \<notin> up_user ` set [s] \<and> device_states u q = device_states u q"
      using user_inv_state [OF \<open>user_inv u now now q\<close>] q(4) p1(3) s(3) by (auto simp: s_def)
    moreover have "\<forall>d\<in>set (dvalues (devices_of u q)). dp_last_active d \<le> now \<and> dp_last_sync d \<le> now"
      using \<open>user_inv u now now q\<close> by (simp add: user_inv_def Let_def)
    ultimately show ?thesis
      using op_keeps [OF cfg \<open>handler_inv now q\<close> \<open>user_inv u now now q\<close> order_refl now(2), of q "[s]" False]
        q(5) handler_invD(3) s by (simp add: distinct_users_def)
  qed
  then show "handler_inv now (sync_end c now v i p)" "user_inv u now now (sync_end c now v i p)"
    by simp_all
qed

lemma external_row_keeps:
  assumes cfg: "plain_config c" "pc_is_mine c u" and inv: "handler_inv t p" "user_inv u a t p"
    and now: "t \<le> now" "time_ok now" and sync_time: "0 \<le> sync_time" "sync_time \<le> now"
    and p'_def: "p' = update_external_syncs_row c now process v i is_syncing sync_time p"
  shows "handler_inv now p'" "user_inv u now now p'"
proof -
  have t0: "0 \<le> now" using now(2) by (simp add: time_ok_def)
  note users = users_ok_mono [OF handler_invD(2) [OF inv(1)] now(1)]
  obtain q where q: "current_state_for_user c v p = (current_or_default v p, q)" "pr_wheel q = pr_wheel p"
    "pr_devices q = pr_devices p" "\<And>w. current_or_default w q = current_or_default w p" "users_ok now q"
    using current_state_memory [OF cfg(1) users t0] by metis
  define syncs where "syncs = (case dget (pr_external q) process of None \<Rightarrow> [] | Some ds \<Rightarrow> ds)"
  define p2 where "p2 = (if dget (pr_external q) process = None
    then q\<lparr>pr_external := dset process [] (pr_external q)\<rparr> else q)"
  have p2: "pr_wheel p2 = pr_wheel p" "pr_devices p2 = pr_devices p" "\<And>w. current_or_default w p2 = current_or_default w p"
    "users_ok now p2"
    using q by (simp_all add: p2_def current_or_default_def users_ok_def)
  note Q = quiet_keeps [OF inv now(1) p2(1,3,4,2)]
  define d where "d = device_of i (devices_of v p2)"
  define d' where "d' = d\<lparr>dp_last_sync := sync_time\<rparr>"
  define s where "s = (current_or_default v p)\<lparr>up_last_sync := sync_time\<rparr>"
  define q' where "q' = update_states c now False [s] (set_device v i d' p2)"
  have stop: "handler_inv now q'" "user_inv u now now q'"
  proof -
    have plain: "plain_state (dp_state d')"
      using device_of_facts [OF Q(1), of i v] by (simp add: d'_def d_def)
    have times: "user_times now s" "plain_state (up_state s)" "up_user s = v"
      using current_times [OF users t0, of v] handler_invD(4) [OF inv(1), of v] sync_time
      by (simp_all add: s_def user_times_def)
    have dev: "v = u \<Longrightarrow> dp_last_active d' \<le> now \<and> dp_last_sync d' \<le> now"
      using device_of_times [OF Q(2) order_refl t0, of i] sync_time by (simp add: d'_def d_def)
    have "v = u \<Longrightarrow> up_state s = best_state (device_states u (set_device v i d' p2))"
      using user_inv_state [OF Q(2)] p2(3) handler_invD(3) [OF Q(1)]
        best_states_set_device [of u p2 d' i] by (simp add: s_def devices_ok_def d'_def d_def)
    moreover have "v = u \<Longrightarrow> up_last_active s = up_last_active (current_or_default u p2)"
      by (simp add: s_def p2(3))
    ultimately show "handler_inv now q'" "user_inv u now now q'"
      unfolding q'_def
      using user_op_keeps [OF cfg Q(1,2) order_refl now(2), of "set_device v i d' p2" v i d' s False]
        p2(4) devices_of_set_device [of _ v i d' p2] plain times dev by simp_all
  qed
  have p': "p' = (let p3 = (if is_syncing \<and> (v, i) \<notin> set syncs
      then p2\<lparr>pr_external := dset process (set_add (v, i) syncs) (pr_external p2)\<rparr>
      else if \<not> is_syncing \<and> (v, i) \<in> set syncs
      then q'\<lparr>pr_external := dset process (filter (\<lambda>x. x \<noteq> (v, i)) syncs) (pr_external q')\<rparr>
      else p2)
    in p3\<lparr>pr_external_updated := dset process now (pr_external_updated p3)\<rparr>)"
    unfolding p'_def update_external_syncs_row_def q(1) prod.case
    by (simp only: Let_def syncs_def [symmetric] p2_def [symmetric] d_def [symmetric] d'_def [symmetric]
        s_def [symmetric] q'_def [symmetric])
  have "pr_wheel p' = pr_wheel p2 \<and> pr_current p' = pr_current p2 \<and> pr_devices p' = pr_devices p2
    \<or> pr_wheel p' = pr_wheel q' \<and> pr_current p' = pr_current q' \<and> pr_devices p' = pr_devices q'"
    unfolding p' Let_def by simp
  then show "handler_inv now p'" "user_inv u now now p'"
    using inv_cong [of p' p2] inv_cong [of p' q'] Q(1,2) stop by metis+
qed

lemma clear_devices:
  assumes "handler_inv t p" "user_inv u t t p" "0 \<le> t"
  defines "step \<equiv> \<lambda>(v, i) q. set_device v i ((device_of i (devices_of v q))\<lparr>dp_last_sync := t\<rparr>) q"
  shows "handler_inv t (fold step xs p) \<and> user_inv u t t (fold step xs p)
    \<and> pr_wheel (fold step xs p) = pr_wheel p \<and> pr_current (fold step xs p) = pr_current p"
  using assms(1,2)
proof (induction xs arbitrary: p)
  case (Cons x xs)
  obtain v i where x: "x = (v, i)" by (cases x)
  define d where "d = (device_of i (devices_of v p))\<lparr>dp_last_sync := t\<rparr>"
  have step: "step x p = set_device v i d p"
    by (simp add: step_def x d_def)
  have plain: "plain_state (dp_state d)"
    using device_of_facts [OF Cons.prems(1), of i v] by (simp add: d_def)
  have H: "handler_inv t (set_device v i d p)"
    using Cons.prems(1) devices_ok_set_device [OF _ plain] by (simp add: handler_inv_def)
  have ok: "dict_ok (devices_of u p)"
    using handler_invD(3) [OF Cons.prems(1)] by (simp add: devices_ok_def)
  have times: "\<forall>e\<in>set (dvalues (devices_of u (set_device v i d p))). dp_last_active e \<le> t \<and> dp_last_sync e \<le> t"
    using device_of_times [OF Cons.prems(2) order_refl assms(3), of i] dvalues_dset [OF ok, of i d] Cons.prems(2)
    by (auto simp: devices_of_set_device d_def user_inv_def Let_def)
  have states: "best_state (device_states u (set_device v i d p)) = best_state (device_states u p)"
  proof (cases "v = u")
    case True
    then show ?thesis
      using best_states_set_device [OF ok, of d i] by (simp add: d_def)
  next
    case False
    then show ?thesis by (simp add: device_states_def devices_of_set_device)
  qed
  have "user_inv u t t (set_device v i d p)"
    using Cons.prems(2) times unfolding user_inv_def Let_def states by (simp add: upend_def)
  from Cons.IH [OF H this] show ?case
    using step by simp
qed simp

lemma fold_defaults:
  "dget (fold (\<lambda>u. dset u (default_user u)) us cur) w =
    (if w \<in> set us then Some (default_user w) else dget cur w)"
  by (induction us arbitrary: cur) auto

lemma current_states_memory:
  assumes "plain_config c" "users_ok now p" "0 \<le> now" "distinct us"
    and run: "current_state_for_users c us p = (states, q)"
  shows "pr_wheel q = pr_wheel p" "pr_devices q = pr_devices p" "current_or_default w q = current_or_default w p"
    "users_ok now q" "set states = (\<lambda>v. current_or_default v p) ` set us" "distinct_users states"
proof -
  define missing where "missing = filter (\<lambda>v. dget (pr_current p) v = None) us"
  have none: "List.map_filter (\<lambda>_. None) xs = []" for xs :: "string list"
    by (induction xs) (simp_all add: List.map_filter_def)
  have run': "states = List.map_filter (dget (pr_current p)) us @ map default_user missing"
    "q = p\<lparr>pr_current := fold (\<lambda>v. dset v (default_user v)) missing (pr_current p)\<rparr>"
    using run assms(1) by (auto simp: current_state_for_users_def plain_config_def Let_def missing_def none)
  have names: "dget (pr_current p) v = Some s \<Longrightarrow> up_user s = v" for v s
    using assms(2) by (simp add: users_ok_def)
  show "pr_wheel q = pr_wheel p" "pr_devices q = pr_devices p"
    by (simp_all add: run'(2))
  show "current_or_default w q = current_or_default w p"
    by (auto simp: run'(2) current_or_default_def fold_defaults missing_def)
  show "users_ok now q"
  proof -
    have "up_user (default_user v) = v" "user_times now (default_user v)" for v
      using assms(3) by (simp_all add: default_user_def user_times_def)
    then show ?thesis
      using assms(2) by (auto simp: users_ok_def run'(2) fold_defaults split: if_splits)
  qed
  have known: "set (List.map_filter (dget (pr_current p)) us) = {s. \<exists>v\<in>set us. dget (pr_current p) v = Some s}"
    by (auto simp: List.map_filter_def image_iff) (metis option.sel)
  show "set states = (\<lambda>v. current_or_default v p) ` set us"
    unfolding run'(1) set_append known
  proof (rule set_eqI)
    fix s
    have "(\<exists>v\<in>set us. dget (pr_current p) v = Some s) \<or> (\<exists>v\<in>set us. dget (pr_current p) v = None \<and> s = default_user v)
        \<longleftrightarrow> (\<exists>v\<in>set us. s = current_or_default v p)"
    proof -
      have "s = current_or_default v p \<longleftrightarrow> dget (pr_current p) v = Some s \<or> dget (pr_current p) v = None \<and> s = default_user v" for v
        by (cases "dget (pr_current p) v") (auto simp: current_or_default_def)
      then show ?thesis by blast
    qed
    then show "s \<in> {s. \<exists>v\<in>set us. dget (pr_current p) v = Some s} \<union> set (map default_user missing)
        \<longleftrightarrow> s \<in> (\<lambda>v. current_or_default v p) ` set us"
      by (simp add: missing_def image_iff Bex_def conj_assoc)
  qed
  have "map up_user (List.map_filter (dget (pr_current p)) us) = filter (\<lambda>v. dget (pr_current p) v \<noteq> None) us"
    using names by (induction us) (auto simp: List.map_filter_simps split: option.splits)
  moreover have "map up_user (map default_user missing) = missing"
    by (simp add: default_user_def comp_def)
  ultimately show "distinct_users states"
    using assms(4) by (auto simp: distinct_users_def run'(1) missing_def)
qed

lemma external_clear_keeps:
  assumes cfg: "plain_config c" "pc_is_mine c u" and inv: "handler_inv t p" "user_inv u a t p"
    and now: "t \<le> now" "time_ok now" and p'_def: "p' = update_external_syncs_clear c now process p"
  shows "handler_inv now p'" "user_inv u now now p'"
proof -
  have t0: "0 \<le> now" using now(2) by (simp add: time_ok_def)
  note users = users_ok_mono [OF handler_invD(2) [OF inv(1)] now(1)]
  define syncs where "syncs = (case dget (pr_external p) process of None \<Rightarrow> [] | Some ds \<Rightarrow> ds)"
  define p1 where "p1 = p\<lparr>pr_external := filter (\<lambda>(i, _). i \<noteq> process) (pr_external p)\<rparr>"
  have "handler_inv now p1" "user_inv u now now p1"
    using quiet_keeps [OF inv now(1), of p1] users by (simp_all add: p1_def current_or_default_def users_ok_def)
  note C = clear_devices [OF this t0, of syncs]
  define p2 where "p2 = fold (\<lambda>(user, i) q. set_device user i ((device_of i (devices_of user q))\<lparr>dp_last_sync := now\<rparr>) q) syncs p1"
  have P2: "handler_inv now p2" "user_inv u now now p2"
    using C by (simp_all add: p2_def)
  obtain states p3 where cur: "current_state_for_users c (remdups (map fst syncs)) p2 = (states, p3)"
    by fastforce
  note M = current_states_memory [OF cfg(1) handler_invD(2) [OF P2(1)] t0 distinct_remdups cur]
  note P3 = quiet_keeps [OF P2 order_refl M(1,3,4,2)]
  define ss where "ss = map (\<lambda>s. s\<lparr>up_last_sync := now\<rparr>) states"
  have elem: "\<exists>v. s = (current_or_default v p2)\<lparr>up_last_sync := now\<rparr>" if "s \<in> set ss" for s
    using that M(5) by (auto simp: ss_def)
  have ss: "distinct_users ss" "\<forall>s\<in>set ss. user_times now s \<and> plain_state (up_state s)"
  proof -
    show "distinct_users ss"
      using M(6) by (simp add: ss_def distinct_users_def comp_def)
    show "\<forall>s\<in>set ss. user_times now s \<and> plain_state (up_state s)"
    proof
      fix s assume "s \<in> set ss"
      then obtain v where "s = (current_or_default v p2)\<lparr>up_last_sync := now\<rparr>" using elem by blast
      then show "user_times now s \<and> plain_state (up_state s)"
        using current_times [OF handler_invD(2) [OF P2(1)] t0, of v] handler_invD(4) [OF P2(1), of v] t0
        by (simp add: user_times_def)
    qed
  qed
  have user: "(\<exists>s\<in>set ss. up_user s = u \<and> up_state s = best_state (device_states u p3)
        \<and> (up_state s = PresenceState_ONLINE \<or> up_last_active s = up_last_active (current_or_default u p3)))
      \<or> u \<notin> up_user ` set ss \<and> device_states u p3 = device_states u p3"
  proof (cases "u \<in> up_user ` set ss")
    case True
    then obtain s v where s: "s \<in> set ss" "up_user s = u" "s = (current_or_default v p2)\<lparr>up_last_sync := now\<rparr>"
      using elem by blast
    then have "v = u"
      using current_times [OF handler_invD(2) [OF P2(1)] t0, of v] by simp
    then show ?thesis
      using s user_inv_state [OF P3(2)] M(3) [of u] by (intro disjI1 bexI [of _ s]) simp_all
  qed simp
  have times: "\<forall>d\<in>set (dvalues (devices_of u p3)). dp_last_active d \<le> now \<and> dp_last_sync d \<le> now"
    using P3(2) by (simp add: user_inv_def Let_def)
  note U = op_keeps [OF cfg P3(1,2) order_refl now(2) refl refl M(4) handler_invD(3) [OF P3(1)] times ss user, of False]
  have "p' = (update_states c now False ss p3)\<lparr>pr_external_updated :=
      filter (\<lambda>(i, _). i \<noteq> process) (pr_external_updated (update_states c now False ss p3))\<rparr>"
    unfolding p'_def update_external_syncs_clear_def Let_def
    by (simp only: syncs_def [symmetric] p1_def [symmetric] p2_def [symmetric] cur prod.case ss_def [symmetric])
  then show "handler_inv now p'" "user_inv u now now p'"
    using U inv_cong [of p' "update_states c now False ss p3"] by simp_all
qed

end
