(* ===== verification/Presence_Timeouts.thy ===== *)
theory Presence_Timeouts
  imports Presence_Props
begin

text \<open>
  Runs of the presence handler: what a check of the timers does, that users who stop syncing go
  offline, and a user for whom no timer is left.
\<close>

section \<open>Timeouts keep the invariant\<close>

text \<open>The devices that stay after a check, and the state they make up.\<close>

definition remaining :: "user_presence \<Rightarrow> user_device list \<Rightarrow> int \<Rightarrow> user_devices \<Rightarrow> user_devices" where
  "remaining s syncing now ds = map (\<lambda>(i, d). (i, after_idle now d))
     (filter (\<lambda>x. \<not> device_goes_offline (up_user s) syncing now x) ds)"

lemma remaining_facts:
  assumes "dict_ok ds" "\<forall>d\<in>set (dvalues ds). plain_state (dp_state d)"
  shows "dict_ok (remaining s syncing now ds)" "\<forall>d\<in>set (dvalues (remaining s syncing now ds)). plain_state (dp_state d)"
    "\<forall>d\<in>set (dvalues (remaining s syncing now ds)). \<exists>e\<in>set (dvalues ds).
       dp_last_active d = dp_last_active e \<and> dp_last_sync d = dp_last_sync e"
proof -
  have "map fst (remaining s syncing now ds) = map fst (filter (\<lambda>x. \<not> device_goes_offline (up_user s) syncing now x) ds)"
    by (simp add: remaining_def comp_def case_prod_beta)
  then show "dict_ok (remaining s syncing now ds)"
    using dict_ok_filter [OF assms(1)] by (simp add: dict_ok_def)
  show "\<forall>d\<in>set (dvalues (remaining s syncing now ds)). plain_state (dp_state d)"
    using assms(2) by (auto simp: remaining_def dvalues_def after_idle_def plain_state_def known_state_def)
  show "\<forall>d\<in>set (dvalues (remaining s syncing now ds)). \<exists>e\<in>set (dvalues ds).
       dp_last_active d = dp_last_active e \<and> dp_last_sync d = dp_last_sync e"
    by (force simp: remaining_def dvalues_def after_idle_def)
qed

lemma remaining_unchanged:
  assumes "\<not> list_ex (\<lambda>(i, d). idle_device now d \<or> device_goes_offline (up_user s) syncing now (i, d)) ds"
  shows "remaining s syncing now ds = ds"
proof -
  have "filter (\<lambda>x. \<not> device_goes_offline (up_user s) syncing now x) ds = ds"
    using assms by (auto simp: filter_id_conv list_ex_iff)
  moreover have "map (\<lambda>(i, d). (i, after_idle now d)) ds = ds"
    using assms by (intro map_idI) (auto simp: after_idle_def list_ex_iff)
  ultimately show ?thesis
    by (simp add: remaining_def)
qed

lemma handle_timeout_mine:
  assumes ok: "dict_ok ds" "\<forall>d\<in>set (dvalues ds). plain_state (dp_state d)"
    and state: "up_state s = best_state (dp_state ` set (dvalues ds))" and not_offline: "up_state s \<noteq> PresenceState_OFFLINE"
    and s'_def: "s' = s\<lparr>up_state := best_state (dp_state ` set (dvalues (remaining s syncing now ds)))\<rparr>"
  shows "\<exists>ns. handle_timeout s True syncing ds now = Inr (ns, remaining s syncing now ds)
    \<and> (ns = Some s' \<or> ns = None \<and> s' = s \<and> \<not> now - up_last_active s > LAST_ACTIVE_GRANULARITY)"
proof -
  let ?ds = "remaining s syncing now ds"
  let ?changed = "list_ex (\<lambda>(i, d). idle_device now d \<or> device_goes_offline (up_user s) syncing now (i, d)) ds"
  have combine: "combine_device_states (dvalues ?ds) = Inr (up_state s')"
    using remaining_facts(2) [OF ok] by (simp add: combine_best plain_state_def s'_def)
  have same: "s' = s" if "\<not> ?changed"
    using remaining_unchanged [OF that] state by (simp add: s'_def)
  have id: "up_state s' = up_state s \<Longrightarrow> s' = s"
    by (simp add: s'_def)
  have upd: "s\<lparr>up_state := up_state s'\<rparr> = s'"
    by (simp add: s'_def)
  show ?thesis
    unfolding handle_timeout_def Let_def if_not_P [OF not_offline] if_P [OF TrueI] remaining_def [symmetric] combine bindE_Inr upd
    using same id by (cases ?changed; cases "up_state s' = up_state s") (auto simp: s'_def)
qed

text \<open>What a check makes of any user in a plain state: at most the state changes.\<close>

definition timeout_ok :: "user_presence \<Rightarrow> user_presence option \<Rightarrow> user_devices \<Rightarrow> user_devices \<Rightarrow> bool" where
  "timeout_ok s ns ds ds' \<longleftrightarrow> dict_ok ds' \<and> (\<forall>d\<in>set (dvalues ds'). plain_state (dp_state d))
     \<and> (\<forall>s'. ns = Some s' \<longrightarrow> (\<exists>st. plain_state st \<and> s' = s\<lparr>up_state := st\<rparr>)) \<and> (ds = [] \<longrightarrow> ds' = [])"

lemma handle_timeout_any:
  assumes "dict_ok ds" "\<forall>d\<in>set (dvalues ds). plain_state (dp_state d)" "plain_state (up_state s)"
  shows "\<exists>ns ds'. handle_timeout s mine syncing ds now = Inr (ns, ds') \<and> timeout_ok s ns ds ds'"
proof (cases "up_state s = PresenceState_OFFLINE \<or> \<not> mine")
  case True
  have "plain_state PresenceState_OFFLINE"
    by (simp add: plain_state_def known_state_def)
  then show ?thesis
    using True assms(1,2) by (auto simp: handle_timeout_def timeout_ok_def)
next
  case False
  let ?ds = "remaining s syncing now ds"
  have best: "combine_device_states (dvalues ?ds) = Inr (best_state (dp_state ` set (dvalues ?ds)))"
    "plain_state (best_state (dp_state ` set (dvalues ?ds)))"
  proof -
    have plain: "\<forall>d\<in>set (dvalues ?ds). plain_state (dp_state d)"
      by (rule remaining_facts(2) [OF assms(1,2)])
    then show "combine_device_states (dvalues ?ds) = Inr (best_state (dp_state ` set (dvalues ?ds)))"
      by (simp add: combine_best plain_state_def)
    show "plain_state (best_state (dp_state ` set (dvalues ?ds)))"
      using plain by (intro best_state_plain) auto
  qed
  have "\<exists>ns. handle_timeout s mine syncing ds now = Inr (ns, ?ds)
      \<and> (ns = None \<or> ns = Some s \<or> ns = Some (s\<lparr>up_state := best_state (dp_state ` set (dvalues ?ds))\<rparr>))"
    using False unfolding handle_timeout_def Let_def remaining_def [symmetric] best(1) bindE_Inr
    by (cases "list_ex (\<lambda>(i, d). idle_device now d \<or> device_goes_offline (up_user s) syncing now (i, d)) ds";
        cases "best_state (dp_state ` set (dvalues ?ds)) = up_state s") auto
  then obtain ns where run: "handle_timeout s mine syncing ds now = Inr (ns, ?ds)"
    and ns: "ns = None \<or> ns = Some s \<or> ns = Some (s\<lparr>up_state := best_state (dp_state ` set (dvalues ?ds))\<rparr>)"
    by blast
  have "\<exists>st. plain_state st \<and> s' = s\<lparr>up_state := st\<rparr>" if "ns = Some s'" for s'
  proof (cases "s' = s")
    case True
    then show ?thesis
      using assms(3) by (intro exI [of _ "up_state s"]) simp
  next
    case False
    then show ?thesis
      using that ns best(2) by (intro exI [of _ "best_state (dp_state ` set (dvalues ?ds))"]) auto
  qed
  then have "timeout_ok s ns ds ?ds"
    using remaining_facts(1,2) [OF assms(1,2)] by (simp add: timeout_ok_def remaining_def)
  then show ?thesis
    using run by blast
qed

lemma timeouts_fold:
  assumes "distinct vs" "\<And>v. v \<in> set vs \<Longrightarrow> up_user (cur v) = v
      \<and> handle_timeout (cur v) (pc_is_mine c v) syncing (devices_of v p) now = Inr (ns v, ds v)
      \<and> timeout_ok (cur v) (ns v) (devices_of v p) (ds v)"
  shows "\<exists>p'. foldE (timeouts_step c syncing now) (map cur vs) (changes, p) =
      Inr (fold (\<lambda>v d. case ns v of None \<Rightarrow> d | Some s \<Rightarrow> dset v s d) vs changes, p')
    \<and> pr_wheel p' = pr_wheel p \<and> pr_current p' = pr_current p
    \<and> (\<forall>w. devices_of w p' = (if w \<in> set vs then ds w else devices_of w p))"
  using assms
proof (induction vs arbitrary: changes p)
  case (Cons v vs)
  have v: "up_user (cur v) = v" "handle_timeout (cur v) (pc_is_mine c v) syncing (devices_of v p) now = Inr (ns v, ds v)"
    "timeout_ok (cur v) (ns v) (devices_of v p) (ds v)"
    using Cons.prems(2) [of v] by simp_all
  define q where "q = (if dget (pr_devices p) v = None then p else p\<lparr>pr_devices := dset v (ds v) (pr_devices p)\<rparr>)"
  define changes' where "changes' = (case ns v of None \<Rightarrow> changes | Some s \<Rightarrow> dset v s changes)"
  have user: "ns v = Some s \<Longrightarrow> up_user s = v" for s
    using v(1,3) by (auto simp: timeout_ok_def)
  have step: "timeouts_step c syncing now (cur v) (changes, p) = Inr (changes', q)"
    using v(2) user by (simp add: timeouts_step_def v(1) q_def changes'_def split: option.splits)
  have devs: "devices_of w q = (if w = v then ds v else devices_of w p)" for w
    using v(3) by (auto simp: q_def devices_of_def timeout_ok_def)
  have rest: "up_user (cur x) = x
      \<and> handle_timeout (cur x) (pc_is_mine c x) syncing (devices_of x q) now = Inr (ns x, ds x)
      \<and> timeout_ok (cur x) (ns x) (devices_of x q) (ds x)" if "x \<in> set vs" for x
  proof -
    have "x \<noteq> v" using Cons.prems(1) that by auto
    then show ?thesis using Cons.prems(2) [of x] that devs [of x] by simp
  qed
  obtain p' where p': "foldE (timeouts_step c syncing now) (map cur vs) (changes', q) =
      Inr (fold (\<lambda>v d. case ns v of None \<Rightarrow> d | Some s \<Rightarrow> dset v s d) vs changes', p')"
    "pr_wheel p' = pr_wheel q" "pr_current p' = pr_current q"
    "\<forall>w. devices_of w p' = (if w \<in> set vs then ds w else devices_of w q)"
    using Cons.IH [OF _ rest, of changes'] Cons.prems(1) by auto
  have "pr_wheel q = pr_wheel p" "pr_current q = pr_current p"
    by (simp_all add: q_def)
  then show ?case
    using p' step devs Cons.prems(1) by (intro exI [of _ p']) (auto simp: changes'_def)
qed simp

text \<open>The users of the changes.\<close>

lemma changes_of_users:
  assumes "distinct vs" "\<And>v s. v \<in> set vs \<Longrightarrow> ns v = Some s \<Longrightarrow> up_user s = v"
  defines "ss \<equiv> dvalues (fold (\<lambda>v d. case ns v of None \<Rightarrow> d | Some s \<Rightarrow> dset v s d) vs [])"
  shows "distinct_users ss" "set ss = {s. \<exists>v\<in>set vs. ns v = Some s}"
proof -
  have "fold (\<lambda>v d. case ns v of None \<Rightarrow> d | Some s \<Rightarrow> dset v s d) vs d = d @ List.map_filter (\<lambda>v. map_option (Pair v) (ns v)) vs"
    if "distinct vs" "fst ` set d \<inter> set vs = {}" for d
    using that
  proof (induction vs arbitrary: d)
    case (Cons v vs)
    then show ?case
      by (cases "ns v") (auto simp: List.map_filter_simps dset_new)
  qed (simp add: List.map_filter_simps)
  from this [OF assms(1), of "[]"]
  have dict: "fold (\<lambda>v d. case ns v of None \<Rightarrow> d | Some s \<Rightarrow> dset v s d) vs []
      = List.map_filter (\<lambda>v. map_option (Pair v) (ns v)) vs"
    by simp
  have ss: "ss = List.map_filter ns vs"
  proof -
    have "map snd (List.map_filter (\<lambda>v. map_option (Pair v) (ns v)) vs) = List.map_filter ns vs"
      by (induction vs) (auto simp: List.map_filter_simps split: option.splits)
    then show ?thesis
      by (simp add: ss_def dvalues_def dict)
  qed
  have "map up_user ss = filter (\<lambda>v. ns v \<noteq> None) vs"
    unfolding ss using assms(2) by (induction vs) (auto simp: List.map_filter_simps split: option.splits)
  then show "distinct_users ss"
    using assms(1) by (simp add: distinct_users_def)
  show "set ss = {s. \<exists>v\<in>set vs. ns v = Some s}"
    unfolding ss by (auto simp: List.map_filter_def image_iff) (metis option.sel)
qed

text \<open>
  One check: what it starts from, which users it looks at, what it finds for each of them, and the
  update that follows.
\<close>

lemma tick_runs:
  assumes cfg: "plain_config c" and inv: "handler_inv t p" and now: "t \<le> now" "time_ok now"
  obtains vs p2 ns ds syncing where
    "handle_timeouts_loop c now p = Inr (update_states c now False (dvalues
       (fold (\<lambda>v d. case ns v of None \<Rightarrow> d | Some s \<Rightarrow> dset v s d) vs [])) p2)"
    "distinct vs" "\<And>u. upend u p2 = {d \<in> upend u p. now < d * 5000}"
    "\<And>u d. d \<in> upend u p \<Longrightarrow> d * 5000 \<le> now \<Longrightarrow> u \<in> set vs"
    "\<And>v. handle_timeout (current_or_default v p) (pc_is_mine c v) syncing (devices_of v p) now = Inr (ns v, ds v)"
    "\<And>v. timeout_ok (current_or_default v p) (ns v) (devices_of v p) (ds v)"
    "set syncing \<subseteq> set (syncing_user_devices p)"
    "\<And>w. devices_of w p2 = (if w \<in> set vs then ds w else devices_of w p)"
    "\<And>w. current_or_default w p2 = current_or_default w p" "users_ok now p2" "wheel_inv now (pr_wheel p2)"
proof -
  have t0: "0 \<le> now" using now(2) by (simp add: time_ok_def)
  obtain due w where fetch: "wt_fetch now (pr_wheel p) = (due, w)" by fastforce
  note F = fetch_timers [OF handler_invD(1) [OF inv] now fetch]
  obtain dropped p1 where expire: "expire_external now (p\<lparr>pr_wheel := w\<rparr>) = (dropped, p1)" by fastforce
  then have p1: "pr_wheel p1 = w" "pr_current p1 = pr_current p" "pr_devices p1 = pr_devices p" "pr_syncs p1 = pr_syncs p"
    "set (concat (dvalues (pr_external p1))) \<subseteq> set (concat (dvalues (pr_external p)))"
    by (auto simp: expire_external_def Let_def dvalues_def)
  define vs where "vs = remdups (due @ dropped)"
  define syncing where "syncing = syncing_user_devices p1"
  have cur1: "current_or_default v p1 = current_or_default v p" and devs1: "devices_of v p1 = devices_of v p" for v
    using p1(2,3) by (simp_all add: current_or_default_def devices_of_def)
  have "\<exists>r. handle_timeout (current_or_default v p) (pc_is_mine c v) syncing (devices_of v p) now = Inr r
      \<and> timeout_ok (current_or_default v p) (fst r) (devices_of v p) (snd r)" for v
  proof -
    have "dict_ok (devices_of v p)" "\<forall>d\<in>set (dvalues (devices_of v p)). plain_state (dp_state d)"
      using handler_invD(3) [OF inv] by (simp_all add: devices_ok_def)
    from handle_timeout_any [OF this handler_invD(4) [OF inv, of v], of "pc_is_mine c v" syncing now]
    show ?thesis by force
  qed
  then obtain r where r: "\<And>v. handle_timeout (current_or_default v p) (pc_is_mine c v) syncing (devices_of v p) now = Inr (r v)"
    "\<And>v. timeout_ok (current_or_default v p) (fst (r v)) (devices_of v p) (snd (r v))"
    by metis
  have users: "up_user (current_or_default v p) = v" for v
    using current_times [OF users_ok_mono [OF handler_invD(2) [OF inv] now(1)] t0] by blast
  have "distinct vs" by (simp add: vs_def)
  then obtain p2 where p2: "foldE (timeouts_step c syncing now) (map (\<lambda>v. current_or_default v p) vs) ([], p1) =
      Inr (fold (\<lambda>v d. case fst (r v) of None \<Rightarrow> d | Some s \<Rightarrow> dset v s d) vs [], p2)"
    "pr_wheel p2 = pr_wheel p1" "pr_current p2 = pr_current p1"
    "\<forall>w. devices_of w p2 = (if w \<in> set vs then snd (r w) else devices_of w p1)"
    using timeouts_fold [of vs "\<lambda>v. current_or_default v p" c syncing p1 now "\<lambda>v. fst (r v)" "\<lambda>v. snd (r v)" "[]"]
      r users devs1 by auto
  show thesis
  proof (rule that [of "\<lambda>v. fst (r v)" vs p2 syncing "\<lambda>v. snd (r v)"])
    show "handle_timeouts_loop c now p = Inr (update_states c now False (dvalues
       (fold (\<lambda>v d. case fst (r v) of None \<Rightarrow> d | Some s \<Rightarrow> dset v s d) vs [])) p2)"
      using p2(1) unfolding handle_timeouts_loop_def fetch prod.case expire Let_def vs_def [symmetric] syncing_def [symmetric]
        cur1 handle_timeouts_def by simp
    show "upend u p2 = {d \<in> upend u p. now < d * 5000}" for u
      using F(3) p1(1) p2(2) by (auto simp: upend_def)
    show "u \<in> set vs" if "d \<in> upend u p" "d * 5000 \<le> now" for u d
      using that F(2) by (auto simp: vs_def upend_def)
    show "set syncing \<subseteq> set (syncing_user_devices p)"
      using p1(4,5) unfolding syncing_def syncing_user_devices_def by auto
    show "devices_of w p2 = (if w \<in> set vs then snd (r w) else devices_of w p)" for w
      using p2(4) devs1 by simp
    show "current_or_default w p2 = current_or_default w p" for w
      using p2(3) p1(2) by (simp add: current_or_default_def)
    show "users_ok now p2"
      using users_ok_mono [OF handler_invD(2) [OF inv] now(1)] p2(3) p1(2) by (simp add: users_ok_def)
    show "wheel_inv now (pr_wheel p2)"
      using F(1) p1(1) p2(2) by simp
  qed (use r \<open>distinct vs\<close> in auto)
qed

lemma tick_keeps:
  assumes cfg: "plain_config c" "pc_is_mine c u" and inv: "handler_inv t p" "user_inv u a t p"
    and now: "t \<le> now" "time_ok now"
  shows "\<exists>p'. handle_timeouts_loop c now p = Inr p' \<and> handler_inv now p' \<and> user_inv u a now p'
    \<and> (now > a + SYNC_ONLINE_TIMEOUT \<and> now \<ge> max (a + IDLE_TIMER) t + 5000 \<and> (\<forall>i. (u, i) \<notin> set (syncing_user_devices p))
       \<longrightarrow> up_state (current_or_default u p') = PresenceState_OFFLINE)"
proof -
  obtain vs p2 ns ds syncing where
    run: "handle_timeouts_loop c now p = Inr (update_states c now False (dvalues
       (fold (\<lambda>v d. case ns v of None \<Rightarrow> d | Some s \<Rightarrow> dset v s d) vs [])) p2)"
    and vs: "distinct vs" and pend: "\<And>u. upend u p2 = {d \<in> upend u p. now < d * 5000}"
    and due: "\<And>u d. d \<in> upend u p \<Longrightarrow> d * 5000 \<le> now \<Longrightarrow> u \<in> set vs"
    and timeout: "\<And>v. handle_timeout (current_or_default v p) (pc_is_mine c v) syncing (devices_of v p) now = Inr (ns v, ds v)"
      "\<And>v. timeout_ok (current_or_default v p) (ns v) (devices_of v p) (ds v)"
    and syncing: "set syncing \<subseteq> set (syncing_user_devices p)"
    and devs: "\<And>w. devices_of w p2 = (if w \<in> set vs then ds w else devices_of w p)"
    and cur: "\<And>w. current_or_default w p2 = current_or_default w p" and users: "users_ok now p2"
    and wheel: "wheel_inv now (pr_wheel p2)"
    by (rule tick_runs [OF cfg(1) inv(1) now]) (rule that)
  have t0: "0 \<le> now" using now(2) by (simp add: time_ok_def)
  define ss where "ss = dvalues (fold (\<lambda>v d. case ns v of None \<Rightarrow> d | Some s \<Rightarrow> dset v s d) vs [])"
  define p' where "p' = update_states c now False ss p2"
  have new: "\<exists>st. plain_state st \<and> s = (current_or_default v p)\<lparr>up_state := st\<rparr>" if "ns v = Some s" for v s
    using timeout(2) [of v] that by (simp add: timeout_ok_def)
  have times: "user_times now (current_or_default v p) \<and> up_user (current_or_default v p) = v" for v
    using current_times [OF users_ok_mono [OF handler_invD(2) [OF inv(1)] now(1)] t0] .
  have user_of: "up_user s = v" if "ns v = Some s" for v s
    using new [OF that] times [of v] by auto
  note SS = changes_of_users [OF vs user_of, of ns, folded ss_def]
  have ss: "\<forall>s\<in>set ss. user_times now s \<and> plain_state (up_state s)"
  proof
    fix s assume "s \<in> set ss"
    then obtain v where "ns v = Some s" using SS(2) by blast
    from new [OF this] show "user_times now s \<and> plain_state (up_state s)"
      using times [of v] by (auto simp: user_times_def)
  qed
  have E: "update_effect c now ss p2 p'"
    unfolding p'_def using cfg(1) ss SS(1)
    by (intro update_states_effect [OF _ _ now(2) wheel users]) (auto simp: plain_config_def)
  have devs_ok: "devices_ok p2"
    using handler_invD(3) [OF inv(1)] timeout(2) by (auto simp: devices_ok_def devs timeout_ok_def)
  have H: "handler_inv now p'"
    using ss handler_invD(4) [OF inv(1)] by (intro update_keeps_handler [OF E devs_ok]) (auto simp: cur)
  define s where "s = current_or_default u p"
  have a: "a \<le> t" "up_last_active s \<le> a" "up_last_sync s \<le> a"
    and bound: "\<forall>d\<in>upend u p. d * 5000 \<le> max (a + IDLE_TIMER) t + 5000"
    and some: "up_state s \<noteq> PresenceState_OFFLINE \<Longrightarrow> upend u p \<noteq> {}"
    and far: "t - up_last_active s > LAST_ACTIVE_GRANULARITY
      \<or> (\<exists>d\<in>upend u p. up_last_active s + LAST_ACTIVE_GRANULARITY < d * 5000)"
    using inv(2) by (simp_all add: user_inv_def Let_def s_def)
  have far': "now - up_last_active s > LAST_ACTIVE_GRANULARITY
      \<or> (\<exists>d\<in>upend u p2. up_last_active s + LAST_ACTIVE_GRANULARITY < d * 5000)"
  proof (rule ccontr)
    assume not: "\<not> ?thesis"
    then obtain d where d: "d \<in> upend u p" "up_last_active s + LAST_ACTIVE_GRANULARITY < d * 5000"
      using far now(1) by auto
    then have "d \<notin> upend u p2" using not by blast
    then have "d * 5000 \<le> now" using d(1) by (simp add: pend)
    then show False using not d(2) by auto
  qed
  have bound': "\<forall>d\<in>upend u p2. d * 5000 \<le> max (a + IDLE_TIMER) now + 5000"
    using bound now(1) by (fastforce simp: pend)
  have inv_u: "up_state s = best_state (device_states u p)"
      "\<forall>d\<in>set (dvalues (devices_of u p)). dp_last_active d \<le> a \<and> dp_last_sync d \<le> a"
    using inv(2) by (simp_all add: user_inv_def Let_def s_def)
  have dev_facts: "dict_ok (devices_of u p)" "\<forall>d\<in>set (dvalues (devices_of u p)). plain_state (dp_state d)"
    using handler_invD(3) [OF inv(1)] by (simp_all add: devices_ok_def)
  have user: "up_user s = u" using times [of u] by (simp add: s_def)
  define R where "R = remaining s syncing now (devices_of u p)"
  note R = remaining_facts [OF dev_facts, of s syncing now, folded R_def]
  define s' where "s' = s\<lparr>up_state := best_state (dp_state ` set (dvalues R))\<rparr>"
  have offline: "ns u = None" "ds u = devices_of u p" if "up_state s = PresenceState_OFFLINE"
    using timeout(1) [of u] that by (auto simp: handle_timeout_def s_def)
  have online: "ds u = R" "ns u = Some s' \<or> ns u = None \<and> s' = s \<and> \<not> now - up_last_active s > LAST_ACTIVE_GRANULARITY"
    if "up_state s \<noteq> PresenceState_OFFLINE"
    using handle_timeout_mine [OF dev_facts inv_u(1) [unfolded device_states_def] that s'_def [unfolded R_def]]
      timeout(1) [of u] cfg(2) by (auto simp: s_def R_def)
  have devs': "devices_of w p' = devices_of w p2" for w
    using E by (simp add: update_effect_def same_rest_def devices_of_def)
  have kept: "current_or_default u p' = s" "upend u p' = upend u p2" if "u \<notin> set vs \<or> ns u = None"
  proof -
    have "u \<notin> up_user ` set ss"
      using that SS(2) user_of by force
    then show "current_or_default u p' = s" "upend u p' = upend u p2"
      using E cur [of u] by (simp_all add: update_effect_def current_or_default_def s_def)
  qed
  have "user_inv u a now p'"
  proof (cases "u \<in> set vs \<and> ns u \<noteq> None")
    case True
    then have not_off: "up_state s \<noteq> PresenceState_OFFLINE" using offline by auto
    then have ns: "ns u = Some s'" "ds u = R" using online True by auto
    have devs_u: "devices_of u p2 = R" using True ns(2) devs by simp
    have in_ss: "s' \<in> set ss" using True ns(1) SS(2) by blast
    have "\<forall>d\<in>set (dvalues R). dp_last_active d \<le> a \<and> dp_last_sync d \<le> a"
      using R(3) inv_u(2) by fastforce
    moreover have "plain_state (up_state s')" using R(2) by (auto simp: s'_def intro: best_state_plain)
    ultimately show ?thesis
      using a now(1) bound' far' user devs_u
      by (intro update_keeps_user [OF E cfg(2) in_ss]) (simp_all add: s'_def device_states_def)
  next
    case False
    then have K: "current_or_default u p' = s" "upend u p' = upend u p2" using kept by auto
    have same: "devices_of u p' = devices_of u p \<or> devices_of u p' = R \<and> s' = s"
    proof (cases "u \<notin> set vs \<or> up_state s = PresenceState_OFFLINE")
      case True
      then show ?thesis using devs [of u] offline(2) by (auto simp: devs')
    next
      case on: False
      have "ns u = None" using False on by auto
      then have "s' = s" "ds u = R" using on online by auto
      then show ?thesis using on devs [of u] by (simp add: devs')
    qed
    have state: "up_state s = best_state (device_states u p')"
    proof (cases "devices_of u p' = devices_of u p")
      case True
      then show ?thesis using inv_u(1) by (simp add: device_states_def)
    next
      case False
      then have "devices_of u p' = R" "s' = s" using same by auto
      then show ?thesis by (metis device_states_def s'_def user_presence.select_convs(2) user_presence.surjective user_presence.update_convs(2))
    qed
    have "\<forall>d\<in>set (dvalues (devices_of u p')). dp_last_active d \<le> a \<and> dp_last_sync d \<le> a"
      using same R(3) inv_u(2) by fastforce
    moreover have "upend u p2 \<noteq> {}" if "up_state s \<noteq> PresenceState_OFFLINE"
    proof (cases "u \<in> set vs")
      case True
      then show ?thesis using False online(2) [OF that] far' by auto
    next
      case False
      then have "upend u p2 = upend u p" using due pend by force
      then show ?thesis using some [OF that] by simp
    qed
    ultimately show ?thesis
      using a now(1) bound' far' state unfolding user_inv_def Let_def K by simp
  qed
  moreover have "up_state (current_or_default u p') = PresenceState_OFFLINE"
    if quiet: "now > a + SYNC_ONLINE_TIMEOUT" "now \<ge> max (a + IDLE_TIMER) t + 5000" "\<forall>i. (u, i) \<notin> set (syncing_user_devices p)"
  proof (cases "up_state s = PresenceState_OFFLINE")
    case True
    then show ?thesis using kept(1) offline(1) by simp
  next
    case False
    then obtain d where "d \<in> upend u p" using some by blast
    moreover from this have "d * 5000 \<le> now" using bound quiet(2) by force
    ultimately have in_vs: "u \<in> set vs" by (rule due)
    have "device_goes_offline u syncing now (i, d)" if "(i, d) \<in> set (devices_of u p)" for i d
    proof -
      have d: "d \<in> set (dvalues (devices_of u p))" using that by (force simp: dvalues_def)
      then have "dp_last_active d \<le> a" "dp_last_sync d \<le> a" "dp_state d \<noteq> PresenceState_BUSY"
        using inv_u(2) dev_facts(2) by (auto simp: plain_state_def)
      then have "device_timed_out now (after_idle now d)"
        using quiet(1) by (auto simp: device_timed_out_def after_idle_def)
      then show ?thesis
        using quiet(3) syncing by (auto simp: device_goes_offline_def)
    qed
    then have "R = []"
      unfolding R_def remaining_def user by (auto simp: filter_empty_conv)
    then have off: "up_state s' = PresenceState_OFFLINE"
      by (simp add: s'_def dvalues_def best_state_def)
    then have "ns u = Some s'" using online(2) [OF False] False by auto
    then have "s' \<in> set ss" using in_vs SS(2) by blast
    moreover have "up_user s' = u" using user by (simp add: s'_def)
    ultimately obtain s'' where "dget (pr_current p') u = Some s''" "same_core s' s''"
      using E by (auto simp: update_effect_def)
    then show ?thesis using off by (simp add: current_or_default_def same_core_def)
  qed
  ultimately show ?thesis
    using run H by (intro exI [of _ p']) (auto simp: p'_def ss_def)
qed

end
