(* ===== verification/Presence_Runs.thy ===== *)
theory Presence_Runs
  imports Presence_Timeouts
begin

text \<open>
  Sequences of what reaches the presence handler: operations of others leave a user alone, users who
  stop syncing go offline, and a user for whom no timer is left stays as they are.
\<close>

section \<open>Operations of other users\<close>

definition untouched :: "string \<Rightarrow> presence \<Rightarrow> presence \<Rightarrow> bool" where
  "untouched u p p' \<longleftrightarrow> current_or_default u p' = current_or_default u p \<and> devices_of u p' = devices_of u p
     \<and> (wheel_ok (pr_wheel p) \<longrightarrow> wheel_ok (pr_wheel p') \<and> upend u p' = upend u p)"

lemma untouched_refl [simp]: "untouched u p p"
  by (simp add: untouched_def)

lemma untouched_trans: "untouched u p q \<Longrightarrow> untouched u q r \<Longrightarrow> untouched u p r"
  by (simp add: untouched_def)

lemma untouched_frame:
  assumes "pr_current p' = pr_current p" "pr_devices p' = pr_devices p" "pr_wheel p' = pr_wheel p"
  shows "untouched u q p' = untouched u q p"
  using assms by (simp add: untouched_def current_or_default_def devices_of_def upend_def)

lemma timers_of_others:
  assumes "wheel_ok w" "x \<noteq> v"
  shows "wheel_ok (wt_insert now v then_ts w)" "(d, x) \<in> pending (wt_insert now v then_ts w) \<longleftrightarrow> (d, x) \<in> pending w"
  using wt_insert_correct(1,2) [OF assms(1), of now v then_ts] assms(2) by auto

lemma handle_update_others:
  assumes "handle_update prev s mine w now persist = (s', n, g, w')" "wheel_ok w" "x \<noteq> up_user s"
  shows "wheel_ok w'" "(d, x) \<in> pending w' \<longleftrightarrow> (d, x) \<in> pending w"
  using assms by (auto simp: handle_update_def Let_def timers_of_others split: if_splits)

lemma update_states_others:
  assumes "u \<notin> up_user ` set ss"
  shows "untouched u p (update_states c now f ss p)"
proof -
  have one: "untouched u p (fst (update_one c now f s (p, n, g)))" if "up_user s \<noteq> u" for s p n g
  proof -
    obtain s' m h w where *: "handle_update (current_or_default (up_user s) p) s (pc_is_mine c (up_user s)) (pr_wheel p) now
        (\<not> pc_track c) = (s', m, h, w)"
      using prod_cases4 by blast
    define q where "q = p\<lparr>pr_current := dset (up_user s) s' (pr_current p), pr_wheel := w\<rparr>"
    have q: "fst (update_one c now f s (p, n, g)) = q"
      by (simp add: update_one_def Let_def * q_def)
    have "wheel_ok w" "upend u q = upend u p" if "wheel_ok (pr_wheel p)"
      using handle_update_others [OF * that, of u] \<open>up_user s \<noteq> u\<close> by (auto simp: upend_def q_def)
    then show ?thesis
      using that unfolding q by (simp add: untouched_def q_def current_or_default_def devices_of_def)
  qed
  have many: "untouched u p (fst (fold (update_one c now f) xs (p, n, g)))" if "u \<notin> up_user ` set xs" for xs p n g
    using that
  proof (induction xs arbitrary: p n g)
    case (Cons x xs)
    obtain p1 n1 g1 where step: "update_one c now f x (p, n, g) = (p1, n1, g1)"
      using prod_cases3 by blast
    then have "untouched u p p1" using one [of x p n g] Cons.prems by auto
    then show ?case using Cons.IH [of p1 n1 g1] Cons.prems step by (auto intro: untouched_trans)
  qed simp
  have dict: "set (dvalues (fold (\<lambda>s. dset (up_user s) s) xs d)) \<subseteq> set (dvalues d) \<union> set xs"
    for xs :: "user_presence list" and d
  proof (induction xs arbitrary: d)
    case (Cons x xs)
    have "set (dvalues (dset (up_user x) x d)) \<subseteq> insert x (set (dvalues d))"
      by (induction d) (auto simp: dvalues_def dset_def)
    then show ?case using Cons.IH [of "dset (up_user x) x d"] by auto
  qed simp
  show ?thesis
  proof (cases "pc_enabled c")
    case True
    let ?states = "dvalues (fold (\<lambda>s. dset (up_user s) s) ss [])"
    obtain p1 n1 g1 where fold: "fold (update_one c now f) ?states (p, [], []) = (p1, n1, g1)"
      using prod_cases3 by blast
    have "u \<notin> up_user ` set ?states"
      using dict [of ss "[]"] assms by (auto simp: dvalues_def)
    from many [OF this, of p "[]" "[]"] have "untouched u p p1" by (simp add: fold)
    then show ?thesis
      using True by (simp add: update_states_def Let_def fold untouched_def current_or_default_def devices_of_def upend_def)
  qed (simp add: update_states_def)
qed

lemma current_state_others:
  assumes "plain_config c" "users_ok now p"
  obtains s q where "current_state_for_user c v p = (s, q)" "up_user s = v" "untouched u p q"
    "pr_external q = pr_external p" "pr_syncs q = pr_syncs p"
proof (cases "dget (pr_current p) v")
  case None
  let ?q = "p\<lparr>pr_current := dset v (default_user v) (pr_current p)\<rparr>"
  have A: "current_state_for_user c v p = (default_user v, ?q)"
    using assms(1) by (simp add: None current_state_for_user_def plain_config_def)
  have B: "untouched u p ?q"
    by (auto simp: None untouched_def current_or_default_def devices_of_def upend_def)
  show ?thesis
    by (rule that [OF A _ B]) (simp_all add: default_user_def)
next
  case (Some s)
  show ?thesis
    by (rule that [of s p]) (use Some assms(2) in \<open>auto simp: current_state_for_user_def users_ok_def\<close>)
qed

lemma set_device_others: "v \<noteq> u \<Longrightarrow> untouched u p (set_device v i d p)"
  by (simp add: untouched_def devices_of_set_device upend_def)

lemma bump_others:
  assumes cfg: "plain_config c" "users_ok now p" and other: "v \<noteq> u"
    and run: "bump_presence_active_time c now v i p = Inr p'"
  shows "untouched u p p'"
proof -
  define d where "d = device_of i (devices_of v p)"
  define p1 where "p1 = set_device v i (d\<lparr>dp_last_active := now,
    dp_state := (if dp_state d = PresenceState_UNAVAILABLE then PresenceState_ONLINE else dp_state d)\<rparr>) p"
  have "users_ok now p1" using cfg(2) by (simp add: p1_def)
  from current_state_others [OF cfg(1) this, of v u] obtain s q where
    q: "current_state_for_user c v p1 = (s, q)" "up_user s = v" "untouched u p1 q" .
  obtain st where p': "p' = update_states c now False [s\<lparr>up_last_active := now, up_state := st\<rparr>] q"
    using run cfg(1) unfolding bump_presence_active_time_def Let_def d_def [symmetric] p1_def [symmetric] q(1) prod.case
    by (auto simp: plain_config_def bindE_eq_Inr)
  have "untouched u p p1"
    unfolding p1_def by (rule set_device_others [OF other])
  moreover have "untouched u q p'"
    unfolding p' using q(2) other by (intro update_states_others) simp
  ultimately show ?thesis
    using q(3) by (blast intro: untouched_trans)
qed

lemma set_state_others:
  assumes cfg: "plain_config c" "users_ok now p" and other: "v \<noteq> u"
    and run: "set_state c now v i st msg f is_sync p = Inr p'"
  shows "untouched u p p'"
proof -
  from current_state_others [OF cfg, of v u] obtain s q where
    q: "current_state_for_user c v p = (s, q)" "up_user s = v" "untouched u p q" .
  define state where "state = (if up_state s = PresenceState_BUSY \<and> is_sync then PresenceState_BUSY else st)"
  define old where "old = device_of i (devices_of v q)"
  define d where "d = old\<lparr>dp_state := state, dp_last_active := now, dp_last_sync := (if is_sync then now else dp_last_sync old)\<rparr>"
  define new where "new = (\<lambda>combined. let s1 = s\<lparr>up_state := combined\<rparr>;
      s2 = (if combined = PresenceState_ONLINE \<or> combined = PresenceState_BUSY then s1\<lparr>up_last_active := now\<rparr> else s1)
    in if is_sync then s2\<lparr>up_last_sync := now\<rparr> else s2\<lparr>up_status := msg\<rparr>)"
  have "st \<in> set (pc_valid c)" using run by (simp add: set_state_def split: if_splits)
  then obtain combined where p': "p' = update_states c now f [new combined] (set_device v i d q)"
    using run cfg(1) unfolding set_state_def q(1) prod.case
    by (auto simp: Let_def plain_config_def bindE_eq_Inr state_def [symmetric] old_def [symmetric] d_def [symmetric] new_def)
  have "up_user (new combined) = v"
    using q(2) by (simp add: new_def Let_def)
  with p' have p': "up_user (new combined) = v" "p' = update_states c now f [new combined] (set_device v i d q)"
    by simp_all
  have "untouched u (set_device v i d q) p'"
    unfolding p'(2) using p'(1) other by (intro update_states_others) simp
  then show ?thesis
    using q(3) set_device_others [OF other] by (blast intro: untouched_trans)
qed

lemma user_syncing_others:
  assumes cfg: "plain_config c" "users_ok now p" and other: "v \<noteq> u"
  shows "untouched u p (fst (user_syncing c now v i affect st p))"
proof (cases "affect")
  case True
  define p1 where "p1 = p\<lparr>pr_syncs := dset (v, i) ((case dget (pr_syncs p) (v, i) of None \<Rightarrow> 0 | Some n \<Rightarrow> n) + 1) (pr_syncs p)\<rparr>"
  have p1: "untouched u p p1" "users_ok now p1"
    using cfg(2) by (simp_all add: p1_def untouched_def current_or_default_def devices_of_def upend_def users_ok_def)
  have run: "user_syncing c now v i affect st p = (case set_state c now v i st None False True p1 of
      Inr p2 \<Rightarrow> (p2, None) | Inl e \<Rightarrow> (p1, Some e))"
    using True cfg(1) unfolding user_syncing_def p1_def by (simp add: plain_config_def Let_def)
  show ?thesis
  proof (cases "set_state c now v i st None False True p1")
    case (Inl e)
    then show ?thesis using run p1(1) by simp
  next
    case (Inr p2)
    then show ?thesis
      using run p1(1) set_state_others [OF cfg(1) p1(2) other Inr] by (auto intro: untouched_trans)
  qed
qed (simp add: user_syncing_def)

lemma sync_end_others:
  assumes cfg: "plain_config c" "users_ok now p" and other: "v \<noteq> u"
  shows "untouched u p (sync_end c now v i p)"
proof (cases "dget (pr_syncs p) (v, i)")
  case None
  then show ?thesis by (simp add: sync_end_def)
next
  case (Some n)
  define p1 where "p1 = p\<lparr>pr_syncs := dset (v, i) (n - 1) (pr_syncs p)\<rparr>"
  have p1: "untouched u p p1" "users_ok now p1"
    using cfg(2) by (simp_all add: p1_def untouched_def current_or_default_def devices_of_def upend_def users_ok_def)
  from current_state_others [OF cfg(1) p1(2), of v u] obtain s q where
    q: "current_state_for_user c v p1 = (s, q)" "up_user s = v" "untouched u p1 q" .
  have "sync_end c now v i p = update_states c now False [s\<lparr>up_last_sync := now\<rparr>] q"
    using Some q(1) by (simp add: sync_end_def p1_def)
  moreover have "untouched u q (update_states c now False [s\<lparr>up_last_sync := now\<rparr>] q)"
    using q(2) other by (intro update_states_others) simp
  ultimately show ?thesis
    using p1(1) q(3) by (metis untouched_trans)
qed

lemma external_row_others:
  assumes cfg: "plain_config c" "users_ok now p" and other: "v \<noteq> u"
  shows "untouched u p (update_external_syncs_row c now process v i is_syncing sync_time p)"
proof -
  from current_state_others [OF cfg, of v u] obtain s q where
    q: "current_state_for_user c v p = (s, q)" "up_user s = v" "untouched u p q" .
  define syncs where "syncs = (case dget (pr_external q) process of None \<Rightarrow> [] | Some ds \<Rightarrow> ds)"
  define p2 where "p2 = (if dget (pr_external q) process = None
    then q\<lparr>pr_external := dset process [] (pr_external q)\<rparr> else q)"
  define d' where "d' = (device_of i (devices_of v p2))\<lparr>dp_last_sync := sync_time\<rparr>"
  define q' where "q' = update_states c now False [s\<lparr>up_last_sync := sync_time\<rparr>] (set_device v i d' p2)"
  define p' where "p' = update_external_syncs_row c now process v i is_syncing sync_time p"
  have p2: "untouched u q p2"
    by (simp add: p2_def untouched_def current_or_default_def devices_of_def upend_def)
  have "untouched u (set_device v i d' p2) q'"
    unfolding q'_def using q(2) other by (intro update_states_others) simp
  then have q': "untouched u p2 q'"
    using set_device_others [OF other] by (blast intro: untouched_trans)
  have "p' = (let p3 = (if is_syncing \<and> (v, i) \<notin> set syncs
      then p2\<lparr>pr_external := dset process (set_add (v, i) syncs) (pr_external p2)\<rparr>
      else if \<not> is_syncing \<and> (v, i) \<in> set syncs
      then q'\<lparr>pr_external := dset process (filter (\<lambda>x. x \<noteq> (v, i)) syncs) (pr_external q')\<rparr>
      else p2)
    in p3\<lparr>pr_external_updated := dset process now (pr_external_updated p3)\<rparr>)"
    unfolding p'_def update_external_syncs_row_def q(1) prod.case
    by (simp only: Let_def syncs_def [symmetric] p2_def [symmetric] d'_def [symmetric] q'_def [symmetric])
  then have "untouched u p2 p' = untouched u p2 p2 \<or> untouched u p2 p' = untouched u p2 q'"
    by (simp add: Let_def untouched_def current_or_default_def devices_of_def upend_def split: if_splits)
  then show ?thesis
    using q(3) p2 q' unfolding p'_def [symmetric] by (auto intro: untouched_trans)
qed

section \<open>Runs\<close>

text \<open>What reaches the handler: requests, syncs, messages of other workers, and the looping call.\<close>

datatype presence_op =
    Active string "string option"
  | SetPresence string "string option" string "string option" bool
  | SyncStart string "string option" string
  | SyncEnd string "string option"
  | WorkerSync string string "string option" bool int
  | WorkerGone string
  | Timers

text \<open>A request with a state that is not valid is refused before anything changes.\<close>

definition run_op :: "presence_config \<Rightarrow> int \<Rightarrow> presence_op \<Rightarrow> presence \<Rightarrow> presence res" where
  "run_op c now op p =
     (case op of
        Active user i \<Rightarrow> bump_presence_active_time c now user i p
      | SetPresence user i st msg force \<Rightarrow>
          (case set_state c now user i st msg force False p of Inl (SynapseError _ _) \<Rightarrow> Inr p | r \<Rightarrow> r)
      | SyncStart user i st \<Rightarrow> Inr (fst (user_syncing c now user i True st p))
      | SyncEnd user i \<Rightarrow> Inr (sync_end c now user i p)
      | WorkerSync process user i is_syncing sync_time \<Rightarrow>
          Inr (update_external_syncs_row c now process user i is_syncing sync_time p)
      | WorkerGone process \<Rightarrow> Inr (update_external_syncs_clear c now process p)
      | Timers \<Rightarrow> handle_timeouts_loop c now p)"

fun concerns :: "string \<Rightarrow> presence_op \<Rightarrow> bool" where
  "concerns u (Active v _) \<longleftrightarrow> v = u"
| "concerns u (SetPresence v _ _ _ _) \<longleftrightarrow> v = u"
| "concerns u (SyncStart v _ _) \<longleftrightarrow> v = u"
| "concerns u (SyncEnd v _) \<longleftrightarrow> v = u"
| "concerns u (WorkerSync _ v _ _ _) \<longleftrightarrow> v = u"
| "concerns u (WorkerGone _) \<longleftrightarrow> True"
| "concerns u Timers \<longleftrightarrow> False"

text \<open>
  The user is only active on a device that has presence, and other workers send times that are past.
\<close>

fun allowed :: "string \<Rightarrow> int \<Rightarrow> presence_op \<Rightarrow> presence \<Rightarrow> bool" where
  "allowed u now (Active v i) p \<longleftrightarrow> v = u \<longrightarrow> dp_state (device_of i (devices_of u p)) \<noteq> PresenceState_OFFLINE"
| "allowed u now (WorkerSync _ _ _ _ sync_time) p \<longleftrightarrow> 0 \<le> sync_time \<and> sync_time \<le> now"
| "allowed u now _ p \<longleftrightarrow> True"

text \<open>Reachable states, with the time of the last operation and of the last that concerns the user.\<close>

inductive presence_reach :: "presence_config \<Rightarrow> string \<Rightarrow> int \<Rightarrow> int \<Rightarrow> presence \<Rightarrow> bool" for c u where
  start: "presence_reach c u t t (new_presence_handler c t [])" if "time_ok t" "LAST_ACTIVE_GRANULARITY < t"
| step: "presence_reach c u (if concerns u op then now else a) now p'"
    if "presence_reach c u a t p" "t \<le> now" "time_ok now" "allowed u now op p" "run_op c now op p = Inr p'"

lemma user_inv_untouched:
  assumes "user_inv u a t p" "handler_inv t p" "t \<le> now" "untouched u p p'"
  shows "user_inv u a now p'"
proof -
  have same: "current_or_default u p' = current_or_default u p" "devices_of u p' = devices_of u p" "upend u p' = upend u p"
    using assms(2,4) by (simp_all add: untouched_def handler_inv_def wheel_inv_def)
  have "a \<le> now" "\<forall>d\<in>set (dvalues (devices_of u p')). dp_last_active d \<le> a \<and> dp_last_sync d \<le> a"
    using assms(1,3) same(2) by (simp_all add: user_inv_def Let_def)
  then show ?thesis
    using user_inv_frame [OF assms(1,3) order_refl _ same(1,3)] by (simp add: device_states_def same(2))
qed

lemma run_op_keeps:
  assumes cfg: "plain_config c" "pc_is_mine c u" and inv: "handler_inv t p" "user_inv u a t p"
    and now: "t \<le> now" "time_ok now" and allowed: "allowed u now op p" and run: "run_op c now op p = Inr p'"
  shows "handler_inv now p' \<and> user_inv u (if concerns u op then now else a) now p'"
proof -
  have users: "users_ok now p" by (rule users_ok_mono [OF handler_invD(2) [OF inv(1)] now(1)])
  note frame = user_inv_untouched [OF inv(2,1) now(1)]
  show ?thesis
  proof (cases op)
    case (Active v i)
    then have *: "bump_presence_active_time c now v i p = Inr p'" using run by (simp add: run_op_def)
    show ?thesis
      using bump_keeps [OF cfg inv now *] bump_others [OF cfg(1) users _ *, of u] frame allowed Active by auto
  next
    case (SetPresence v i st msg f)
    then consider "set_state c now v i st msg f False p = Inr p'" | "p' = p"
      using run by (auto simp: run_op_def split: sum.splits exn.splits)
    then show ?thesis
    proof cases
      case 1
      then show ?thesis
        using set_state_keeps [OF cfg inv now 1] set_state_others [OF cfg(1) users _ 1, of u] frame SetPresence by auto
    next
      case 2
      then show ?thesis
        using quiet_keeps [OF inv now(1) refl refl users refl] SetPresence by auto
    qed
  next
    case (SyncStart v i st)
    then have "p' = fst (user_syncing c now v i True st p)" using run by (simp add: run_op_def)
    then show ?thesis
      using sync_keeps [OF cfg inv now, of v i st] user_syncing_others [OF cfg(1) users, of v u i True st] frame SyncStart
      by auto
  next
    case (SyncEnd v i)
    then have "p' = sync_end c now v i p" using run by (simp add: run_op_def)
    then show ?thesis
      using sync_end_keeps [OF cfg inv now, of v i] sync_end_others [OF cfg(1) users, of v u i] frame SyncEnd by auto
  next
    case (WorkerSync process v i b ts)
    then have *: "p' = update_external_syncs_row c now process v i b ts p" "0 \<le> ts" "ts \<le> now"
      using run allowed by (simp_all add: run_op_def)
    then show ?thesis
      using external_row_keeps [OF cfg inv now *(2,3,1)] external_row_others [OF cfg(1) users, of v u process i b ts] frame
        WorkerSync by auto
  next
    case (WorkerGone process)
    then show ?thesis
      using external_clear_keeps [OF cfg inv now refl] run by (auto simp: run_op_def)
  next
    case Timers
    then show ?thesis
      using tick_keeps [OF cfg inv now] run by (auto simp: run_op_def)
  qed
qed

lemma reach_inv:
  assumes "plain_config c" "pc_is_mine c u" "presence_reach c u a t p"
  shows "handler_inv t p \<and> user_inv u a t p"
  using assms(3)
proof induction
  case (start t)
  define p where "p = new_presence_handler c t []"
  have p: "pr_wheel p = new_wheel_timer 5000" "pr_current p = []" "pr_devices p = []"
    by (simp_all add: p_def new_presence_handler_def dvalues_def Let_def)
  have "devices_of v p = []" "current_or_default v p = default_user v" "upend v p = {}" for v
    by (simp_all add: devices_of_def current_or_default_def p upend_def pending_def new_wheel_timer_def)
  then have "handler_inv t p" "user_inv u t t p"
    using start p by (auto simp: handler_inv_def wheel_inv_def wheel_ok_def new_wheel_timer_def users_ok_def devices_ok_def
        dict_ok_def dvalues_def default_user_def plain_state_def known_state_def user_inv_def best_state_def
        device_states_def time_ok_def)
  then show ?case by (simp add: p_def)
next
  case (step a t p now op p')
  then show ?case using run_op_keeps [OF assms(1,2)] by blast
qed

text \<open>No operation fails: only a request with an unknown state is refused.\<close>

lemma bump_succeeds:
  assumes "plain_config c" "handler_inv t p" "t \<le> now" "time_ok now"
  shows "\<exists>p'. bump_presence_active_time c now v i p = Inr p'"
proof -
  define d where "d = device_of i (devices_of v p)"
  define d' where "d' = d\<lparr>dp_last_active := now,
    dp_state := (if dp_state d = PresenceState_UNAVAILABLE then PresenceState_ONLINE else dp_state d)\<rparr>"
  have t0: "0 \<le> now" using assms(4) by (simp add: time_ok_def)
  have users: "users_ok now (set_device v i d' p)"
    using users_ok_mono [OF handler_invD(2) [OF assms(2)] assms(3)] by simp
  obtain q where q: "current_state_for_user c v (set_device v i d' p) = (current_or_default v (set_device v i d' p), q)"
    "pr_devices q = pr_devices (set_device v i d' p)"
    using current_state_memory [OF assms(1) users t0] by metis
  have "plain_state (dp_state d')"
    using device_of_facts [OF assms(2), of i v] by (auto simp: d'_def d_def plain_state_def known_state_def)
  from devices_ok_set_device [OF handler_invD(3) [OF assms(2)] this, of v i] have "devices_ok q"
    using q(2) by (simp add: devices_ok_def devices_of_def)
  then show ?thesis
    using assms(1) q(1) combine_devices(1) [of q v]
    by (simp add: bump_presence_active_time_def plain_config_def d_def [symmetric] d'_def [symmetric] Let_def)
qed

lemma set_state_succeeds:
  assumes "plain_config c" "handler_inv t p" "t \<le> now" "time_ok now" "set_state c now v i st msg f is_sync p = Inl e"
  shows "e = SynapseError 400 ''Invalid presence state''"
proof (rule ccontr)
  assume e: "e \<noteq> SynapseError 400 ''Invalid presence state''"
  then have valid: "st \<in> set (pc_valid c)" using assms(5) by (auto simp: set_state_def split: if_splits)
  have t0: "0 \<le> now" using assms(4) by (simp add: time_ok_def)
  obtain q where q: "current_state_for_user c v p = (current_or_default v p, q)" "pr_devices q = pr_devices p"
    using current_state_memory [OF assms(1) users_ok_mono [OF handler_invD(2) [OF assms(2)] assms(3)] t0] by metis
  define s where "s = current_or_default v p"
  define state where "state = (if up_state s = PresenceState_BUSY \<and> is_sync then PresenceState_BUSY else st)"
  define old where "old = device_of i (devices_of v q)"
  define d where "d = old\<lparr>dp_state := state, dp_last_active := now, dp_last_sync := (if is_sync then now else dp_last_sync old)\<rparr>"
  have "up_state s \<noteq> PresenceState_BUSY"
    using handler_invD(4) [OF assms(2), of v] by (simp add: s_def plain_state_def)
  then have "plain_state (dp_state d)"
    using valid assms(1) by (auto simp: d_def state_def plain_state_def plain_config_def)
  moreover have "devices_ok q"
    using handler_invD(3) [OF assms(2)] q(2) by (simp add: devices_ok_def devices_of_def)
  ultimately have "devices_ok (set_device v i d q)"
    by (intro devices_ok_set_device)
  then have "\<exists>st. combine_device_states (dvalues (devices_of v (set_device v i d q))) = Inr st"
    using combine_devices(1) by blast
  then show False
    using assms(1,5) valid unfolding set_state_def q(1) prod.case
    by (auto simp: Let_def plain_config_def s_def [symmetric] state_def [symmetric] old_def [symmetric] d_def [symmetric])
qed

lemma run_op_succeeds:
  assumes cfg: "plain_config c" "pc_is_mine c u" and inv: "handler_inv t p" "user_inv u a t p" and now: "t \<le> now" "time_ok now"
  shows "\<exists>p'. run_op c now op p = Inr p'"
proof (cases op)
  case (Active v i)
  then show ?thesis using bump_succeeds [OF cfg(1) inv(1) now] by (simp add: run_op_def)
next
  case (SetPresence v i st msg f)
  show ?thesis
  proof (cases "set_state c now v i st msg f False p")
    case (Inl e)
    then show ?thesis
      using set_state_succeeds [OF cfg(1) inv(1) now Inl] SetPresence by (simp add: run_op_def)
  qed (simp add: SetPresence run_op_def)
next
  case Timers
  then show ?thesis using tick_keeps [OF cfg inv now] by (auto simp: run_op_def)
qed (simp_all add: run_op_def)

section \<open>Properties\<close>

text \<open>
  C20. In every state that the presence handler reaches, the presence of a local user is the best of the
  presences of their devices (busy over online over unavailable over offline), and whatever arrives next,
  the handler does not fail: only requests with an unknown presence state are refused, before they change
  anything. (The busy state is not enabled, and presence is not persisted.)
\<close>

theorem presence_is_that_of_devices:
  assumes "plain_config c" "pc_is_mine c u" "presence_reach c u a t p" "t \<le> now" "time_ok now"
  shows "combine_device_states (dvalues (devices_of u p)) = Inr (up_state (current_or_default u p))
    \<and> up_state (current_or_default u p) = best_state (device_states u p)
    \<and> (\<exists>p'. run_op c now op p = Inr p')"
proof -
  have inv: "handler_inv t p" "user_inv u a t p"
    using reach_inv [OF assms(1-3)] by simp_all
  have "up_state (current_or_default u p) = best_state (device_states u p)"
    using inv(2) by (simp add: user_inv_def Let_def)
  then show ?thesis
    using combine_devices(1) [OF handler_invD(3) [OF inv(1)], of u] run_op_succeeds [OF assms(1,2) inv assms(4,5)] by simp
qed

text \<open>
  C12. A local user who stops syncing goes offline: after any allowed sequence of requests, syncs, messages
  of other workers and checks, in which the last operation that concerns the user was at \<open>a\<close>, the first
  check of the timers that comes one round of the wheel (five seconds) after the idle time (and after the
  last operation), while the user is not syncing, leaves them offline, whatever their devices were.
\<close>

theorem idle_users_go_offline:
  assumes "plain_config c" "pc_is_mine c u" "presence_reach c u a t p"
    and "max (a + IDLE_TIMER) t + 5000 \<le> now" "time_ok now" "\<forall>i. (u, i) \<notin> set (syncing_user_devices p)"
  shows "\<exists>p'. handle_timeouts_loop c now p = Inr p' \<and> up_state (current_or_default u p') = PresenceState_OFFLINE"
proof -
  have inv: "handler_inv t p" "user_inv u a t p"
    using reach_inv [OF assms(1-3)] by simp_all
  have "t \<le> now" "now > a + SYNC_ONLINE_TIMEOUT"
    using assms(4) by (simp_all add: timeout_defs)
  with tick_keeps [OF assms(1,2) inv this(1) assms(5)] show ?thesis
    using assms(4,6) by blast
qed

text \<open>A configuration, and a user who synced for half a minute.\<close>

definition sample_presence_config :: presence_config where
  "sample_presence_config = \<lparr>pc_is_mine = \<lambda>_. True, pc_enabled = True, pc_track = True,
     pc_valid = [PresenceState_ONLINE, PresenceState_UNAVAILABLE, PresenceState_OFFLINE], pc_stored = \<lambda>_. None\<rparr>"

definition sample_synced :: presence where
  "sample_synced = sync_end sample_presence_config 1700000030000 ''u'' (Some ''D'')
     (fst (user_syncing sample_presence_config 1700000000000 ''u'' (Some ''D'') True PresenceState_ONLINE
       (new_presence_handler sample_presence_config 1700000000000 [])))"

lemma sample_config_plain: "plain_config sample_presence_config"
  by (simp add: plain_config_def sample_presence_config_def known_state_def)

lemma sample_config_mine: "pc_is_mine sample_presence_config u"
  by (simp add: sample_presence_config_def)

lemma sample_synced_reach: "presence_reach sample_presence_config ''u'' 1700000030000 1700000030000 sample_synced"
proof -
  have "presence_reach sample_presence_config ''u'' 1700000000000 1700000000000
      (new_presence_handler sample_presence_config 1700000000000 [])"
    by (rule start) (simp_all add: time_ok_def timeout_defs)
  from step [OF this, of 1700000000000 "SyncStart ''u'' (Some ''D'') PresenceState_ONLINE"]
  have "presence_reach sample_presence_config ''u'' 1700000000000 1700000000000
      (fst (user_syncing sample_presence_config 1700000000000 ''u'' (Some ''D'') True PresenceState_ONLINE
        (new_presence_handler sample_presence_config 1700000000000 [])))"
    by (simp add: time_ok_def run_op_def)
  from step [OF this, of 1700000030000 "SyncEnd ''u'' (Some ''D'')"]
  show ?thesis
    by (simp add: time_ok_def run_op_def sample_synced_def)
qed

lemma update_states_rest [simp]: "same_rest p (update_states c now f ss p)"
proof -
  have "same_rest p (fst (fold (update_one c now f) xs (p, n, g)))" for xs n g
  proof (induction xs arbitrary: p n g)
    case (Cons x xs)
    obtain p1 n1 g1 where step: "update_one c now f x (p, n, g) = (p1, n1, g1)"
      using prod_cases3 by blast
    then have "same_rest p p1"
      by (auto simp: update_one_def Let_def same_rest_def split: prod.splits)
    then show ?case using Cons.IH [of p1 n1 g1] step by (simp add: same_rest_def)
  qed (simp add: same_rest_def)
  from this [of "dvalues (fold (\<lambda>s. dset (up_user s) s) ss [])" "[]" "[]"] show ?thesis
    by (auto simp: update_states_def Let_def same_rest_def split: prod.splits)
qed

lemma update_states_frame [simp]:
  "pr_devices (update_states c now f ss p) = pr_devices p" "pr_syncs (update_states c now f ss p) = pr_syncs p"
  "pr_external (update_states c now f ss p) = pr_external p"
  using update_states_rest [of p c now f ss] by (simp_all add: same_rest_def)

lemma sample_synced_facts:
  "syncing_user_devices sample_synced = []"
  "up_state (current_or_default ''u'' sample_synced) = PresenceState_ONLINE"
proof -
  define p0 where "p0 = new_presence_handler sample_presence_config 1700000000000 []"
  have p0: "pr_current p0 = []" "pr_devices p0 = []" "pr_syncs p0 = []" "pr_external p0 = []"
    by (simp_all add: p0_def new_presence_handler_def dvalues_def Let_def)
  define p1 where "p1 = fst (user_syncing sample_presence_config 1700000000000 ''u'' (Some ''D'') True PresenceState_ONLINE p0)"
  have p1: "pr_syncs p1 = [((''u'', Some ''D''), 1)]" "pr_external p1 = []"
      "devices_of ''u'' p1 = [(Some ''D'', \<lparr>dp_state = PresenceState_ONLINE, dp_last_active = 1700000000000, dp_last_sync = 1700000000000\<rparr>)]"
    by (simp_all add: p1_def user_syncing_def sample_presence_config_def set_state_def current_state_for_user_def p0 Let_def
        set_device_def devices_of_def device_of_def default_device_def dset_def dvalues_def combine_device_states_def
        combine_step_def default_user_def)
  have p2: "sample_synced = sync_end sample_presence_config 1700000030000 ''u'' (Some ''D'') p1"
    by (simp add: sample_synced_def p1_def p0_def)
  have devices: "devices_of ''u'' sample_synced = devices_of ''u'' p1"
    by (auto simp: p2 sync_end_def p1 devices_of_def current_state_for_user_def split: option.splits)
  show "syncing_user_devices sample_synced = []"
    by (auto simp: p2 sync_end_def p1 syncing_user_devices_def current_state_for_user_def dset_def dvalues_def
        sample_presence_config_def split: option.splits)
  show "up_state (current_or_default ''u'' sample_synced) = PresenceState_ONLINE"
    using reach_inv [OF sample_config_plain sample_config_mine sample_synced_reach] devices p1(3)
    by (simp add: user_inv_def Let_def device_states_def best_state_def dvalues_def)
qed

theorem presence_is_that_of_devices_witness:
  "combine_device_states (dvalues (devices_of ''u'' sample_synced)) = Inr (up_state (current_or_default ''u'' sample_synced))
    \<and> up_state (current_or_default ''u'' sample_synced) = best_state (device_states ''u'' sample_synced)
    \<and> (\<exists>p'. run_op sample_presence_config 1700000040000 (Active ''u'' None) sample_synced = Inr p')"
  by (rule presence_is_that_of_devices [OF sample_config_plain sample_config_mine sample_synced_reach])
    (simp_all add: time_ok_def)

theorem idle_users_go_offline_witness:
  "up_state (current_or_default ''u'' sample_synced) = PresenceState_ONLINE
    \<and> (\<exists>p'. handle_timeouts_loop sample_presence_config 1700000335000 sample_synced = Inr p'
      \<and> up_state (current_or_default ''u'' p') = PresenceState_OFFLINE)"
proof
  show "up_state (current_or_default ''u'' sample_synced) = PresenceState_ONLINE"
    by (rule sample_synced_facts(2))
  show "\<exists>p'. handle_timeouts_loop sample_presence_config 1700000335000 sample_synced = Inr p'
      \<and> up_state (current_or_default ''u'' p') = PresenceState_OFFLINE"
    by (rule idle_users_go_offline [OF sample_config_plain sample_config_mine sample_synced_reach])
      (simp_all add: time_ok_def timeout_defs sample_synced_facts(1))
qed

section \<open>A user for whom no timer is left\<close>

lemma no_timers:
  assumes "wt_entries (pr_wheel p) = []" "pr_external_updated p = []"
  shows "handle_timeouts_loop c now p = Inr p"
proof -
  have "wt_fetch now (pr_wheel p) = ([], pr_wheel p)"
    using assms(1) by (simp add: wt_fetch_def)
  moreover have "expire_external now p = ([], p)"
    using assms(2) by (simp add: expire_external_def Let_def)
  moreover have "update_states c now False [] p = p"
    by (simp add: update_states_def Let_def set_union_def dvalues_def dkeys_def)
  ultimately show ?thesis
    by (simp add: handle_timeouts_loop_def handle_timeouts_def dvalues_def)
qed

text \<open>
  C33. A local user can be left unavailable for good: one who is not syncing sends something (which counts as
  activity on a new device, without presence), and ten seconds later sets their presence to unavailable. The
  timer of that update is already due, so the next check takes it; the activity is still recent, so the check
  changes nothing, and sets no timer. After that the wheel is empty: however often the timers are checked,
  and however late, the user stays unavailable.
\<close>

theorem unavailable_user_stuck:
  "\<exists>p. foldE (\<lambda>(now, op). run_op sample_presence_config now op)
        [(1700000000000, Active ''u'' (Some ''D'')),
         (1700000010000, SetPresence ''u'' (Some ''D'') PresenceState_UNAVAILABLE None False),
         (1700000015000, Timers)]
        (new_presence_handler sample_presence_config 1700000000000 []) = Inr p
     \<and> up_state (current_or_default ''u'' p) = PresenceState_UNAVAILABLE
     \<and> (\<forall>ts. foldE (\<lambda>now. run_op sample_presence_config now Timers) ts p = Inr p)"
proof -
  let ?run = "foldE (\<lambda>(now, op). run_op sample_presence_config now op)
        [(1700000000000, Active ''u'' (Some ''D'')),
         (1700000010000, SetPresence ''u'' (Some ''D'') PresenceState_UNAVAILABLE None False),
         (1700000015000, Timers)]
        (new_presence_handler sample_presence_config 1700000000000 [])"
  have ok: "case ?run of Inl _ \<Rightarrow> False | Inr p \<Rightarrow> wt_entries (pr_wheel p) = [] \<and> pr_external_updated p = []
      \<and> up_state (current_or_default ''u'' p) = PresenceState_UNAVAILABLE"
    by code_simp
  have "\<exists>p. r = Inr p \<and> wt_entries (pr_wheel p) = [] \<and> pr_external_updated p = []
      \<and> up_state (current_or_default ''u'' p) = PresenceState_UNAVAILABLE"
    if "case r of Inl _ \<Rightarrow> False | Inr p \<Rightarrow> wt_entries (pr_wheel p) = [] \<and> pr_external_updated p = []
      \<and> up_state (current_or_default ''u'' p) = PresenceState_UNAVAILABLE" for r :: "presence res"
    using that by (cases r) auto
  from this [OF ok] obtain p where run: "?run = Inr p"
    and p: "wt_entries (pr_wheel p) = []" "pr_external_updated p = []"
      "up_state (current_or_default ''u'' p) = PresenceState_UNAVAILABLE"
    by blast
  have "foldE (\<lambda>now. run_op sample_presence_config now Timers) ts p = Inr p" for ts
    by (induction ts) (simp_all add: run_op_def no_timers [OF p(1,2)])
  then show ?thesis using run p(3) by blast
qed

end
