(* ===== verification/Iter_Utils.thy ===== *)
theory Iter_Utils
  imports Topological_Sort
begin

text \<open>
  \<open>util/iterutils.py\<close>: batches, partitions, and the topological order in which the chain cover index is
  computed. Sets are lists without duplicates, and a heap is the sorted list of its elements.
  The order is the greedy one of \<open>Topological_Sort\<close> for a constant key, on the part of the graph that
  lies between the given nodes.
\<close>

section \<open>Batches\<close>

function batch_iter :: "'a list \<Rightarrow> nat \<Rightarrow> 'a list list" where
  "batch_iter xs batch_size = (if xs = [] \<or> batch_size = 0 then [] else take batch_size xs # batch_iter (drop batch_size xs) batch_size)"
  by auto
termination by (relation "measure (\<lambda>(xs, _). length xs)") auto

declare batch_iter.simps [simp del]

lemma concat_batch_iter: "0 < batch_size \<Longrightarrow> concat (batch_iter xs batch_size) = xs"
  by (induction xs batch_size rule: batch_iter.induct) (subst batch_iter.simps, simp)

definition chunk_seq :: "'a list \<Rightarrow> nat \<Rightarrow> 'a list list" where
  "chunk_seq iseq maxlen =
     map (\<lambda>k. take maxlen (drop (k * maxlen) iseq)) [0..<(length iseq + maxlen - 1) div maxlen]"

definition partition_by :: "'a list \<Rightarrow> ('a \<Rightarrow> bool) \<Rightarrow> 'a list \<times> 'a list" where
  "partition_by iterable predicate =
     fold (\<lambda>item (true_results, false_results).
       if predicate item then (true_results @ [item], false_results) else (true_results, false_results @ [item]))
     iterable ([], [])"

lemma partition_by_filter: "partition_by xs P = (filter P xs, filter (\<lambda>x. \<not> P x) xs)"
proof -
  have "fold (\<lambda>item (t, f). if P item then (t @ [item], f) else (t, f @ [item])) xs (a, b) =
    (a @ filter P xs, b @ filter (\<lambda>x. \<not> P x) xs)" for a b
    by (induction xs arbitrary: a b) auto
  then show ?thesis by (simp add: partition_by_def)
qed

section \<open>Topological order\<close>

text \<open>The degree of a node counts its edges within the nodes; reverse edges are kept for all.\<close>

definition index_edge :: "'n \<Rightarrow> 'n \<Rightarrow> ('n, int) pydict \<times> 'n graph \<Rightarrow> ('n, int) pydict \<times> 'n graph" where
  "index_edge node edge = (\<lambda>(degree_map, reverse_graph).
     (if dget degree_map edge = None then degree_map
      else dset node (case dget degree_map node of None \<Rightarrow> 1 | Some d \<Rightarrow> d + 1) degree_map,
      add_reverse_edge node edge reverse_graph))"

definition index_edges :: "'n \<times> 'n list \<Rightarrow> ('n, int) pydict \<times> 'n graph \<Rightarrow> ('n, int) pydict \<times> 'n graph" where
  "index_edges = (\<lambda>(node, edges) (degree_map, reverse_graph).
     if dget degree_map node = None then (degree_map, reverse_graph)
     else (case fold (index_edge node) (remdups edges) (degree_map, reverse_graph) of
       (degree_map', reverse_graph') \<Rightarrow>
         (degree_map', case dget reverse_graph' node of None \<Rightarrow> dset node [] reverse_graph' | Some _ \<Rightarrow> reverse_graph')))"

definition index_graph :: "'n list \<Rightarrow> 'n graph \<Rightarrow> ('n, int) pydict \<times> 'n graph" where
  "index_graph nodes graph = fold index_edges graph (fold (\<lambda>n. dset n 0) nodes [], [])"

definition relax_edge :: "'n::linorder \<Rightarrow> 'n list \<times> ('n, int) pydict \<Rightarrow> 'n list \<times> ('n, int) pydict" where
  "relax_edge edge = (\<lambda>(zero_degree, degree_map).
     case dget degree_map edge of
       None \<Rightarrow> (zero_degree, degree_map)
     | Some d \<Rightarrow> (if d - 1 = 0 then insort edge zero_degree else zero_degree, dset edge (d - 1) degree_map))"

text \<open>Every round moves one node from the heap, or from the nodes of positive degree, to the result.\<close>

definition open_nodes :: "'n list \<times> ('n, int) pydict \<Rightarrow> nat" where
  "open_nodes = (\<lambda>(zero_degree, degree_map). length zero_degree + card {n. \<exists>d>0. dget degree_map n = Some d})"

lemma finite_positive [simp]: "finite {n. \<exists>d>0. dget degree_map n = Some (d::int)}"
  by (rule finite_subset [of _ "fst ` set degree_map"]) (auto dest: map_of_SomeD intro: rev_image_eqI)

lemma open_nodes_relax: "open_nodes (relax_edge e acc) \<le> open_nodes acc"
proof -
  obtain z m where acc: "acc = (z, m)" by (cases acc)
  show ?thesis
  proof (cases "dget m e")
    case None
    then show ?thesis by (simp add: acc relax_edge_def)
  next
    case (Some d)
    let ?P = "{n. \<exists>d>0. dget m n = Some d}"
    have P: "{n. \<exists>c>0. dget (dset e (d - 1) m) n = Some c} = (if 1 < d then ?P else ?P - {e})"
      using Some by auto
    have nodes: "open_nodes (z', dset e (d - 1) m) = length z' + card (if 1 < d then ?P else ?P - {e})" for z'
      by (simp only: open_nodes_def prod.case P)
    have "card (?P - {e}) < card ?P" if "d = 1"
      using that Some by (intro psubset_card_mono) auto
    moreover have "card (?P - {e}) \<le> card ?P"
      by (rule card_mono) auto
    ultimately show ?thesis
      using Some nodes unfolding acc by (auto simp: relax_edge_def open_nodes_def)
  qed
qed

lemma open_nodes_fold: "open_nodes (fold relax_edge es acc) \<le> open_nodes acc"
proof (induction es arbitrary: acc)
  case (Cons e es)
  show ?case
    using Cons [of "relax_edge e acc"] open_nodes_relax [of e acc] by simp
qed simp

function topo_loop :: "'n::linorder graph \<Rightarrow> 'n list \<Rightarrow> ('n, int) pydict \<Rightarrow> 'n list" where
  "topo_loop reverse_graph [] degree_map = []"
| "topo_loop reverse_graph (node # zero_degree) degree_map =
     node # (case fold relax_edge (case dget reverse_graph node of None \<Rightarrow> [] | Some es \<Rightarrow> es) (zero_degree, degree_map) of
       (zero_degree', degree_map') \<Rightarrow> topo_loop reverse_graph zero_degree' degree_map')"
  by pat_completeness auto
termination
proof (relation "measure (\<lambda>(_, z, m). open_nodes (z, m))")
  fix reverse_graph :: "'a graph" and node zero_degree degree_map zero_degree' degree_map'
  assume p: "(zero_degree', degree_map') =
    fold relax_edge (case dget reverse_graph node of None \<Rightarrow> [] | Some es \<Rightarrow> es) (zero_degree, degree_map)"
  have "open_nodes (zero_degree', degree_map') \<le> open_nodes (zero_degree, degree_map)"
    unfolding p by (rule open_nodes_fold)
  then show "((reverse_graph, zero_degree', degree_map'), reverse_graph, node # zero_degree, degree_map)
      \<in> measure (\<lambda>(_, z, m). open_nodes (z, m))"
    by (simp add: open_nodes_def)
qed simp

definition sorted_topologically :: "'n::linorder list \<Rightarrow> 'n graph \<Rightarrow> 'n list" where
  "sorted_topologically nodes graph =
     (case index_graph nodes graph of (degree_map, reverse_graph) \<Rightarrow>
        topo_loop reverse_graph (sort (map fst (filter (\<lambda>(_, degree). degree = 0) degree_map))) degree_map)"

section \<open>It is the greedy order\<close>

text \<open>The part of the graph between the nodes.\<close>

definition subgraph :: "'n list \<Rightarrow> 'n graph \<Rightarrow> 'n graph" where
  "subgraph nodes graph = map (\<lambda>n. (n, filter (\<lambda>e. e \<in> set nodes) (case dget graph n of None \<Rightarrow> [] | Some es \<Rightarrow> es))) (remdups nodes)"

lemma dkeys_subgraph: "set (dkeys (subgraph nodes graph)) = set nodes"
  by (simp add: subgraph_def dkeys_def comp_def)

lemma dict_ok_subgraph: "dict_ok (subgraph nodes graph)"
  by (simp add: subgraph_def dict_ok_def comp_def)

lemma edges_subgraph: "edges_of (subgraph nodes graph) n = (if n \<in> set nodes then edges_of graph n \<inter> set nodes else {})"
proof -
  have "dget (subgraph nodes graph) n = (if n \<in> set nodes
      then Some (filter (\<lambda>e. e \<in> set nodes) (case dget graph n of None \<Rightarrow> [] | Some es \<Rightarrow> es)) else None)"
    unfolding subgraph_def by (subst map_of_map_restrict) (simp add: restrict_map_def)
  then show ?thesis
    by (auto simp: edges_of_def split: option.splits)
qed

lemma index_edge_fold:
  assumes "distinct es" "dget m node \<noteq> None" "rev_ok r" "fold (index_edge node) es (m, r) = (m', r')"
  shows "dget m' n = (if n = node then map_option (\<lambda>d. d + int (card {e \<in> set es. dget m e \<noteq> None})) (dget m n) else dget m n)"
    and "rev_ok r'" and "edges_of r' n = edges_of r n \<union> (if n \<in> set es then {node} else {})"
proof -
  have "(\<forall>n. dget m' n = (if n = node then map_option (\<lambda>d. d + int (card {e \<in> set es. dget m e \<noteq> None})) (dget m n) else dget m n))
    \<and> rev_ok r' \<and> (\<forall>n. edges_of r' n = edges_of r n \<union> (if n \<in> set es then {node} else {}))"
    using assms
  proof (induction es arbitrary: m r)
    case Nil
    then show ?case by (auto simp: option.map_ident)
  next
    case (Cons e es)
    define m1 where "m1 = (if dget m e = None then m
      else dset node (case dget m node of None \<Rightarrow> 1 | Some d \<Rightarrow> d + 1) m)"
    define r1 where "r1 = add_reverse_edge node e r"
    have "index_edge node e (m, r) = (m1, r1)"
      by (simp add: index_edge_def m1_def r1_def)
    then have rest: "fold (index_edge node) es (m1, r1) = (m', r')"
      using Cons.prems(4) by simp
    have r1: "rev_ok r1" "edges_of r1 n = edges_of r n \<union> (if n = e then {node} else {})" for n
      using add_reverse_edge [OF Cons.prems(3), of node e] by (simp_all add: r1_def)
    obtain d where d: "dget m node = Some d" using Cons.prems(2) by blast
    have m1: "dget m1 n = (if n = node \<and> dget m e \<noteq> None then Some (d + 1) else dget m n)" for n
      by (auto simp: m1_def d)
    have dom: "dget m1 n = None \<longleftrightarrow> dget m n = None" for n
      using d by (auto simp: m1)
    have ih: "(\<forall>n. dget m' n = (if n = node then map_option (\<lambda>d. d + int (card {e \<in> set es. dget m1 e \<noteq> None})) (dget m1 n) else dget m1 n))
      \<and> rev_ok r' \<and> (\<forall>n. edges_of r' n = edges_of r1 n \<union> (if n \<in> set es then {node} else {}))"
      using Cons.IH [OF _ _ r1(1) rest] Cons.prems(1,2) dom by simp
    have "{x \<in> set (e # es). dget m x \<noteq> None} =
        (if dget m e = None then {x \<in> set es. dget m x \<noteq> None} else insert e {x \<in> set es. dget m x \<noteq> None})"
      by auto
    then have count: "card {x \<in> set (e # es). dget m x \<noteq> None} =
        (if dget m e = None then 0 else 1) + card {x \<in> set es. dget m x \<noteq> None}"
      using Cons.prems(1) by simp
    have "dget m' n = (if n = node then map_option (\<lambda>d. d + int (card {x \<in> set (e # es). dget m x \<noteq> None})) (dget m n) else dget m n)" for n
      using ih d unfolding count dom by (auto simp: m1)
    moreover have "edges_of r' n = edges_of r n \<union> (if n \<in> set (e # es) then {node} else {})" for n
      using ih r1(2) by auto
    ultimately show ?case using ih by blast
  qed
  then show "dget m' n = (if n = node then map_option (\<lambda>d. d + int (card {e \<in> set es. dget m e \<noteq> None})) (dget m n) else dget m n)"
    "rev_ok r'" "edges_of r' n = edges_of r n \<union> (if n \<in> set es then {node} else {})"
    by simp_all
qed

text \<open>What the loop over the graph computes.\<close>

definition indexed_graph :: "'n list \<Rightarrow> 'n graph \<Rightarrow> ('n, int) pydict \<Rightarrow> 'n graph \<Rightarrow> bool" where
  "indexed_graph nodes g m r \<longleftrightarrow>
     (\<forall>n. dget m n = (if n \<in> set nodes then Some (int (card (edges_of (subgraph nodes g) n))) else None))
     \<and> rev_ok r \<and> (\<forall>n\<in>set nodes. edges_of r n = {p. n \<in> edges_of (subgraph nodes g) p})"

lemma index_graph_correct:
  assumes "dict_ok graph"
  shows "indexed_graph nodes graph (fst (index_graph nodes graph)) (snd (index_graph nodes graph))"
  using assms
proof (induction graph rule: rev_induct)
  case Nil
  have "dget (fold (\<lambda>n. dset n 0) ns d) n = (if n \<in> set ns then Some (0::int) else dget d n)" for ns d and n :: 'a
    by (induction ns arbitrary: d) auto
  moreover have empty: "edges_of (subgraph nodes []) n = {}" for n
    by (simp add: edges_subgraph edges_of_def [of "[]"])
  ultimately show ?case
    using empty by (auto simp: indexed_graph_def index_graph_def rev_ok_def edges_of_def [of "[]"])
next
  case (snoc x g)
  obtain node es where x: "x = (node, es)" by (cases x)
  obtain m r where mr: "index_graph nodes g = (m, r)" by fastforce
  have g: "dict_ok g" "dget g node = None"
    using snoc.prems by (auto simp: dict_ok_def x map_of_eq_None_iff)
  then have ih: "indexed_graph nodes g m r"
    using snoc.IH mr by simp
  have step: "index_graph nodes (g @ [x]) = index_edges x (m, r)"
    using mr by (simp add: index_graph_def)
  have dgetx: "dget (g @ [x]) n = (if n = node then Some es else dget g n)" for n
    using g(2) by (auto simp: x map_add_def split: option.splits)
  then have edges: "edges_of (g @ [x]) n = (if n = node then set es else edges_of g n)" for n
    by (simp add: edges_of_def)
  have none: "edges_of g node = {}" by (simp add: edges_of_def g(2))
  show ?case
  proof (cases "node \<in> set nodes")
    case False
    then have "index_graph nodes (g @ [x]) = (m, r)"
      using ih step by (simp add: index_edges_def x indexed_graph_def)
    moreover have "edges_of (subgraph nodes (g @ [x])) n = edges_of (subgraph nodes g) n" for n
      using False by (auto simp: edges_subgraph edges)
    ultimately show ?thesis using ih by (simp add: indexed_graph_def)
  next
    case True
    obtain m' r' where fold: "fold (index_edge node) (remdups es) (m, r) = (m', r')" by fastforce
    have m: "dget m node = Some 0"
      using ih True none by (simp add: indexed_graph_def edges_subgraph)
    note F = index_edge_fold [OF distinct_remdups _ _ fold]
    have rev: "rev_ok r" using ih by (simp add: indexed_graph_def)
    define r'' where "r'' = (case dget r' node of None \<Rightarrow> dset node [] r' | Some _ \<Rightarrow> r')"
    have r'': "rev_ok r''" "edges_of r'' n = edges_of r' n" for n
      using F(2) m rev by (auto simp: r''_def edges_of_def rev_ok_dset split: option.splits)
    have res: "index_graph nodes (g @ [x]) = (m', r'')"
      using step m fold by (simp add: index_edges_def x r''_def)
    have dom: "dget m e \<noteq> None \<longleftrightarrow> e \<in> set nodes" for e
      using ih by (simp add: indexed_graph_def)
    have sub: "edges_of (subgraph nodes (g @ [x])) n = (if n = node then set es \<inter> set nodes else edges_of (subgraph nodes g) n)" for n
      using True none by (simp add: edges_subgraph edges)
    have "dget m' n = (if n \<in> set nodes then Some (int (card (edges_of (subgraph nodes (g @ [x])) n))) else None)" for n
    proof -
      have "{e \<in> set (remdups es). dget m e \<noteq> None} = set es \<inter> set nodes" using dom by auto
      then show ?thesis
        using F(1) [of n] m rev ih True unfolding sub by (auto simp: indexed_graph_def)
    qed
    moreover have "edges_of r'' n = {p. n \<in> edges_of (subgraph nodes (g @ [x])) p}" if "n \<in> set nodes" for n
    proof -
      have "edges_of r'' n = {p. n \<in> edges_of (subgraph nodes g) p} \<union> (if n \<in> set es then {node} else {})"
        using F(3) [of n] m rev ih that unfolding r''(2) by (auto simp: indexed_graph_def)
      also have "\<dots> = {p. n \<in> edges_of (subgraph nodes (g @ [x])) p}"
        using that none True by (auto simp: edges_subgraph edges split: if_splits)
      finally show ?thesis .
    qed
    ultimately show ?thesis
      using r''(1) by (simp add: res indexed_graph_def)
  qed
qed

text \<open>The invariant of the loop: degrees count the edges to nodes that are not out yet.\<close>

definition topo_inv :: "'n::linorder graph \<Rightarrow> 'n set \<Rightarrow> 'n list \<Rightarrow> ('n, int) pydict \<Rightarrow> bool" where
  "topo_inv g out zs m \<longleftrightarrow> sorted zs \<and> distinct zs \<and> set zs = Collect (ready g out)
     \<and> (\<forall>n. dget m n = (if n \<in> set (dkeys g) then Some (int (card (edges_of g n - out))) else None))
     \<and> (\<forall>n\<in>out. edges_of g n \<subseteq> out)"

lemma finite_edges [simp]: "finite (edges_of g n)"
  by (simp add: edges_of_def split: option.splits)

lemma relax_edges:
  assumes "distinct ps" "\<forall>p\<in>set ps. dget m p \<noteq> None" "sorted zs" "distinct zs" "set zs \<inter> set ps = {}"
    "fold relax_edge ps (zs, m) = (zs', m')"
  shows "sorted zs' \<and> distinct zs' \<and> set zs' = set zs \<union> {p \<in> set ps. dget m p = Some 1}
    \<and> (\<forall>n. dget m' n = (if n \<in> set ps then map_option (\<lambda>d. d - 1) (dget m n) else dget m n))"
  using assms
proof (induction ps arbitrary: zs m)
  case (Cons p ps)
  obtain d where d: "dget m p = Some d" using Cons.prems(2) by auto
  define zs1 where "zs1 = (if d = 1 then insort p zs else zs)"
  have step: "relax_edge p (zs, m) = (zs1, dset p (d - 1) m)"
    by (simp add: relax_edge_def d zs1_def)
  have rest: "fold relax_edge ps (zs1, dset p (d - 1) m) = (zs', m')"
    using Cons.prems(6) step by simp
  have zs1: "sorted zs1" "distinct zs1" "set zs1 = set zs \<union> (if d = 1 then {p} else {})"
    using Cons.prems(3,4,5) by (auto simp: zs1_def sorted_insort distinct_insort set_insort_key)
  have "\<forall>q\<in>set ps. dget (dset p (d - 1) m) q \<noteq> None" "set zs1 \<inter> set ps = {}"
    using Cons.prems(1,2,5) zs1(3) by auto
  from Cons.IH [OF _ this(1) zs1(1,2) this(2) rest] Cons.prems(1)
  have ih: "sorted zs' \<and> distinct zs' \<and> set zs' = set zs1 \<union> {q \<in> set ps. dget (dset p (d - 1) m) q = Some 1}
    \<and> (\<forall>n. dget m' n = (if n \<in> set ps then map_option (\<lambda>d. d - 1) (dget (dset p (d - 1) m) n) else dget (dset p (d - 1) m) n))"
    by simp
  then show ?case
    using Cons.prems(1) d zs1(3) by auto
qed simp

lemma topo_step:
  assumes inv: "topo_inv g out (node # zs) m" and rev: "rev_ok r" "\<forall>n\<in>set (dkeys g). edges_of r n = {p. n \<in> edges_of g p}"
    and fold: "fold relax_edge (case dget r node of None \<Rightarrow> [] | Some es \<Rightarrow> es) (zs, m) = (zs', m')"
  shows "topo_inv g (insert node out) zs' m'" "ready g out node" "\<forall>n. ready g out n \<longrightarrow> node \<le> n"
proof -
  define ps where "ps = (case dget r node of None \<Rightarrow> [] | Some es \<Rightarrow> es)"
  have I: "sorted (node # zs)" "distinct (node # zs)" "set (node # zs) = Collect (ready g out)"
    "\<And>n. dget m n = (if n \<in> set (dkeys g) then Some (int (card (edges_of g n - out))) else None)"
    "\<forall>n\<in>out. edges_of g n \<subseteq> out"
    using inv by (simp_all add: topo_inv_def)
  show node: "ready g out node" using I(3) by auto
  have "\<forall>n\<in>set (node # zs). node \<le> n" using I(1) by simp
  then show "\<forall>n. ready g out n \<longrightarrow> node \<le> n" unfolding I(3) by simp
  note N = node [unfolded ready_def]
  note key = conjunct1 [OF N] conjunct1 [OF conjunct2 [OF N]] conjunct2 [OF conjunct2 [OF N]]
  have "\<forall>l. dget r node = Some l \<longrightarrow> distinct l" using rev(1) unfolding rev_ok_def by blast
  then have "distinct ps" by (cases "dget r node") (simp_all add: ps_def)
  moreover have ps: "set ps = {p. node \<in> edges_of g p}"
    using rev(2) key(1) by (auto simp: ps_def edges_of_def [of r] split: option.splits)
  moreover have "\<forall>p\<in>set ps. dget m p \<noteq> None" using I(4) by (auto simp: ps dest: edges_key)
  moreover have zs_ready: "\<forall>x\<in>set zs. edges_of g x \<subseteq> out"
  proof
    fix x assume "x \<in> set zs"
    then have "x \<in> set (node # zs)" by simp
    then show "edges_of g x \<subseteq> out" unfolding I(3) by (simp add: ready_def)
  qed
  then have "set zs \<inter> set ps = {}"
    using key by (auto simp: ps)
  ultimately have R: "sorted zs' \<and> distinct zs' \<and> set zs' = set zs \<union> {p \<in> set ps. dget m p = Some 1}
    \<and> (\<forall>n. dget m' n = (if n \<in> set ps then map_option (\<lambda>d. d - 1) (dget m n) else dget m n))"
    using relax_edges [OF _ _ _ _ _ fold [folded ps_def]] I(1,2) by simp
  have count: "card (edges_of g n - out) = Suc (card (edges_of g n - insert node out))" if "node \<in> edges_of g n" for n
  proof -
    have eq: "edges_of g n - out = insert node (edges_of g n - insert node out)" using that key(2) by auto
    show ?thesis unfolding eq by (rule card_insert_disjoint) simp_all
  qed
  have same: "edges_of g n - insert node out = edges_of g n - out" if "node \<notin> edges_of g n" for n
    using that by auto
  have deg: "dget m' n = (if n \<in> set (dkeys g) then Some (int (card (edges_of g n - insert node out))) else None)" for n
    using R I(4) [of n] count [of n] same [of n] by (auto simp: ps)
  have "set zs' = Collect (ready g (insert node out))"
  proof -
    have "ready g (insert node out) n \<longleftrightarrow> n \<in> set zs \<or> node \<in> edges_of g n \<and> dget m n = Some 1" for n
    proof (cases "node \<in> edges_of g n")
      case True
      then have n: "n \<in> set (dkeys g)" by (rule edges_key)
      have "n \<notin> out" using True I(5) key(2) by auto
      moreover have "n \<noteq> node" using True key(2,3) by auto
      moreover have "edges_of g n \<subseteq> insert node out \<longleftrightarrow> card (edges_of g n - insert node out) = 0" by auto
      moreover have "n \<notin> set zs" using zs_ready True key(2) by auto
      ultimately show ?thesis
        using n count [OF True] I(4) [of n] True by (auto simp: ready_def)
    next
      case False
      have "ready g (insert node out) n \<longleftrightarrow> ready g out n \<and> n \<noteq> node"
        using False by (auto simp: ready_def)
      also have "\<dots> \<longleftrightarrow> n \<in> set zs" using I(2,3) by auto
      finally show ?thesis using False by simp
    qed
    then show ?thesis using R by (auto simp: ps)
  qed
  moreover have "\<forall>n\<in>insert node out. edges_of g n \<subseteq> insert node out" using I(5) key(3) by auto
  ultimately show "topo_inv g (insert node out) zs' m'"
    using R deg by (simp add: topo_inv_def)
qed

lemma topo_loop_greedy:
  assumes "topo_inv g out zs m" "rev_ok r" "\<forall>n\<in>set (dkeys g). edges_of r n = {p. n \<in> edges_of g p}"
  shows "greedy g (\<lambda>_. 0::nat) out (topo_loop r zs m)"
  using assms
proof (induction r zs m arbitrary: out rule: topo_loop.induct)
  case (1 r m)
  then show ?case by (auto simp: topo_inv_def intro!: greedy.stop)
next
  case (2 r node zs m)
  obtain zs' m' where fold: "fold relax_edge (case dget r node of None \<Rightarrow> [] | Some es \<Rightarrow> es) (zs, m) = (zs', m')"
    by fastforce
  note S = topo_step [OF 2(2-4) fold]
  have "greedy g (\<lambda>_. 0::nat) (insert node out) (topo_loop r zs' m')"
    using 2(1) [OF fold [symmetric] S(1) 2(3,4)] .
  then show ?case
    using S(2,3) by (auto simp: fold intro!: greedy.step)
qed

lemma sorted_topologically_greedy:
  assumes "dict_ok graph"
  shows "greedy (subgraph nodes graph) (\<lambda>_. 0::nat) {} (sorted_topologically nodes graph)"
proof -
  obtain m r where mr: "index_graph nodes graph = (m, r)" by fastforce
  have ix: "indexed_graph nodes graph m r" using index_graph_correct [OF assms, of nodes] by (simp add: mr)
  have "dict_ok m"
  proof -
    have e: "dict_ok (fst (index_edge n e acc))" if "dict_ok (fst acc)" for n e and acc :: "('a, int) pydict \<times> 'a graph"
      using that by (cases acc) (auto simp: index_edge_def)
    have es: "dict_ok (fst (fold (index_edge n) es acc))" if "dict_ok (fst acc)" for n es and acc :: "('a, int) pydict \<times> 'a graph"
      using that by (induction es arbitrary: acc) (auto simp: e)
    have x: "dict_ok (fst (index_edges x acc))" if "dict_ok (fst acc)" for x and acc :: "('a, int) pydict \<times> 'a graph"
      using that es [of acc "fst x" "remdups (snd x)"] by (cases acc; cases x) (auto simp: index_edges_def split: prod.splits)
    have xs: "dict_ok (fst (fold index_edges xs acc))" if "dict_ok (fst acc)" for xs and acc :: "('a, int) pydict \<times> 'a graph"
      using that by (induction xs arbitrary: acc) (auto simp: x)
    have "dict_ok (fold (\<lambda>n. dset n (0::int)) ns d)" if "dict_ok d" for ns and d :: "('a, int) pydict"
      using that by (induction ns arbitrary: d) auto
    then show ?thesis
      using xs [of "(fold (\<lambda>n. dset n 0) nodes [], [])" graph] mr by (simp add: index_graph_def)
  qed
  let ?zs = "sort (map fst (filter (\<lambda>(_, degree). degree = 0) m))"
  have "set ?zs = {n. dget m n = Some 0}"
    using \<open>dict_ok m\<close> by (auto simp: dget_iff_mem image_iff)
  also have "\<dots> = Collect (ready (subgraph nodes graph) {})"
    using ix by (auto simp: indexed_graph_def ready_def dkeys_subgraph)
  finally have zs: "set ?zs = Collect (ready (subgraph nodes graph) {})" .
  have "distinct ?zs" using dict_ok_filter [OF \<open>dict_ok m\<close>] by (simp add: dict_ok_def)
  then have "topo_inv (subgraph nodes graph) {} ?zs m"
    using zs ix by (simp add: topo_inv_def indexed_graph_def dkeys_subgraph)
  from topo_loop_greedy [OF this, of r] ix show ?thesis
    by (simp add: sorted_topologically_def mr indexed_graph_def dkeys_subgraph)
qed

text \<open>What the users of the order need.\<close>

lemma sorted_topologically_sound:
  assumes "dict_ok graph"
  shows "distinct (sorted_topologically nodes graph)" "set (sorted_topologically nodes graph) \<subseteq> set nodes"
    "sorted_topologically nodes graph = ys @ n # zs \<Longrightarrow> edges_of graph n \<inter> set nodes \<subseteq> set ys"
proof -
  note S = greedy_sound [OF sorted_topologically_greedy [OF assms, of nodes]]
  show "distinct (sorted_topologically nodes graph)" using S by blast
  show sub: "set (sorted_topologically nodes graph) \<subseteq> set nodes" using S dkeys_subgraph by metis
  assume eq: "sorted_topologically nodes graph = ys @ n # zs"
  then have "edges_of (subgraph nodes graph) n \<subseteq> {} \<union> set ys" using S by blast
  moreover have "n \<in> set nodes" using sub eq by auto
  ultimately show "edges_of graph n \<inter> set nodes \<subseteq> set ys" by (simp add: edges_subgraph)
qed

lemma sorted_topologically_complete:
  assumes "dict_ok graph" "wf {(m, n). m \<in> edges_of graph n}"
  shows "set (sorted_topologically nodes graph) = set nodes"
proof -
  have "{(m, n). n \<in> set (dkeys (subgraph nodes graph)) \<and> m \<in> edges_of (subgraph nodes graph) n}
      \<subseteq> {(m, n). m \<in> edges_of graph n}"
    by (auto simp: edges_subgraph split: if_splits)
  from wf_subset [OF assms(2) this] have "well_founded (subgraph nodes graph)"
    by (auto simp: well_founded_def edges_subgraph dkeys_subgraph)
  from greedy_complete [OF sorted_topologically_greedy [OF assms(1)] this] show ?thesis
    by (simp add: dkeys_subgraph)
qed

end
