(* ===== verification/Chain_Cover.thy ===== *)
theory Chain_Cover
  imports Iter_Utils
begin

text \<open>
  The chain cover index of \<open>storage/databases/main/events.py\<close>: every state event gets a position, a chain
  and a number within it, and links between chains are stored, such that an event is in the auth chain of
  another if the links lead from the position of the one to that of the other. Also the query for the links
  of \<open>storage/databases/main/event_federation.py\<close>.

  The tables are records of their rows; what a query returns is computed from them. The ids that the
  sequence of chains returns are an argument. Sets are lists without duplicates.
\<close>

section \<open>Tables\<close>

type_synonym position = "int \<times> int"

type_synonym link = "int \<times> int \<times> int \<times> int"

text \<open>
  \<open>event_auth\<close>, the state events of \<open>events\<close> with type and state key, \<open>event_auth_chains\<close>,
  \<open>event_auth_chain_links\<close> and \<open>event_auth_chain_to_calculate\<close>
\<close>

record chain_tables =
  ct_auth :: "(string \<times> string) list"
  ct_state :: "(string, string \<times> string) pydict"
  ct_chains :: "(string, position) pydict"
  ct_links :: "link list"
  ct_to_calculate :: "(string, string \<times> string \<times> string) pydict"

definition select_auth :: "chain_tables \<Rightarrow> string \<Rightarrow> string list" where
  "select_auth T event_id = map snd (filter (\<lambda>(e, _). e = event_id) (ct_auth T))"

definition select_max_seq :: "chain_tables \<Rightarrow> int \<Rightarrow> int option" where
  "select_max_seq T chain =
     (case map (\<lambda>(_, _, s). s) (filter (\<lambda>(_, c, _). c = chain) (ct_chains T)) of
        [] \<Rightarrow> None
      | s # ss \<Rightarrow> Some (fold max ss s))"

text \<open>The recursive query: the chains that links lead to from the given ones.\<close>

function reach_chains :: "link list \<Rightarrow> int list \<Rightarrow> int list" where
  "reach_chains rows cs =
     (case filter (\<lambda>(c, _, t, _). c \<in> set cs \<and> t \<notin> set cs) rows of
        [] \<Rightarrow> cs
      | (_, _, t, _) # _ \<Rightarrow> reach_chains rows (cs @ [t]))"
  by auto
termination
proof (relation "measure (\<lambda>(rows, cs). length (filter (\<lambda>(_, _, t, _). t \<notin> set cs) rows))")
  fix rows :: "link list" and cs x more a x2 b x4 t y
  assume first: "filter (\<lambda>(c, _, t, _). c \<in> set cs \<and> t \<notin> set cs) rows = x # more"
    and x: "(a, x2) = x" "(b, x4) = x2" "(t, y) = x4"
  have "x \<in> set (filter (\<lambda>(c, _, t, _). c \<in> set cs \<and> t \<notin> set cs) rows)"
    unfolding first by simp
  then have mem: "(a, b, t, y) \<in> set rows" "t \<notin> set cs" by (auto simp: x [symmetric])
  have "filter (\<lambda>(_, _, t', _). t' \<notin> set (cs @ [t])) rows =
      filter (\<lambda>(_, _, t', _). t' \<noteq> t) (filter (\<lambda>(_, _, t, _). t \<notin> set cs) rows)"
    by (auto intro!: filter_cong simp: filter_filter case_prod_beta)
  also have "length \<dots> < length (filter (\<lambda>(_, _, t, _). t \<notin> set cs) rows)"
    using mem by (intro length_filter_less [of "(a, b, t, y)"]) auto
  finally show "((rows, cs @ [t]), rows, cs) \<in>
      measure (\<lambda>(rows, cs). length (filter (\<lambda>(_, _, t, _). t \<notin> set cs) rows))"
    by simp
qed simp

declare reach_chains.simps [simp del]

text \<open>\<open>_get_chain_links\<close>: the links of one batch, by origin, and all batches.\<close>

type_synonym links = "(int, (int \<times> int \<times> int) list) pydict"

definition add_row :: "link \<Rightarrow> links \<Rightarrow> links" where
  "add_row = (\<lambda>(c, s, t, u) links.
     dset c ((case dget links c of None \<Rightarrow> [] | Some l \<Rightarrow> l) @ [(s, t, u)]) links)"

definition select_links :: "link list \<Rightarrow> int list \<Rightarrow> links" where
  "select_links rows batch =
     (let cs = reach_chains rows batch in fold add_row (filter (\<lambda>(c, _). c \<in> set cs) rows) [])"

definition LINKS_BATCH :: nat where "LINKS_BATCH = 1000"

function get_chain_links :: "link list \<Rightarrow> int list \<Rightarrow> links list" where
  "get_chain_links rows chains_to_fetch =
     (if chains_to_fetch = [] then []
      else
        (let batch = take LINKS_BATCH chains_to_fetch;
             links = select_links rows batch
         in links # get_chain_links rows
              (filter (\<lambda>c. c \<notin> set (dkeys links)) (drop LINKS_BATCH chains_to_fetch))))"
  by auto
termination
  by (relation "measure (\<lambda>(_, cs). length cs)")
    (auto simp: LINKS_BATCH_def intro: le_less_trans [OF length_filter_le])

declare get_chain_links.simps [simp del]

section \<open>The links between chains\<close>

type_synonym link_maps = "(int, (int, (int, int) pydict) pydict) pydict"

record link_map =
  lm_maps :: link_maps
  lm_additions :: "link list"

definition new_link_map :: link_map where
  "new_link_map = \<lparr>lm_maps = [], lm_additions = []\<rparr>"

definition inner_map :: "'a \<Rightarrow> ('a, ('b, 'c) pydict) pydict \<Rightarrow> ('b, 'c) pydict" where
  "inner_map k d = (case dget d k of None \<Rightarrow> [] | Some m \<Rightarrow> m)"

definition add_chain_link :: "position \<Rightarrow> position \<Rightarrow> bool \<Rightarrow> link_map \<Rightarrow> (bool \<times> link_map) res" where
  "add_chain_link src target new lm =
     (case (src, target) of ((src_chain, src_seq), (target_chain, target_seq)) \<Rightarrow>
       (let targets = inner_map src_chain (lm_maps lm);
            current_links = inner_map target_chain targets
        in if src_chain = target_chain then Inl AssertionError
           else if new \<and> list_ex (\<lambda>(ss, ts). ss \<le> src_seq \<and> target_seq \<le> ts) current_links
           then Inr (False, lm\<lparr>lm_maps := dset src_chain (dset target_chain current_links targets) (lm_maps lm)\<rparr>)
           else Inr (True,
             \<lparr>lm_maps = dset src_chain (dset target_chain (dset src_seq target_seq current_links) targets) (lm_maps lm),
              lm_additions = (if new then set_add (src_chain, src_seq, target_chain, target_seq) (lm_additions lm)
                else lm_additions lm)\<rparr>)))"

definition get_additions :: "link_map \<Rightarrow> link list" where
  "get_additions lm =
     List.map_filter (\<lambda>(c, s, t, _). map_option (\<lambda>u. (c, s, t, u)) (dget (inner_map t (inner_map c (lm_maps lm))) s))
       (lm_additions lm)"

text \<open>The links of a chain in the order of the loops.\<close>

definition chain_items :: "link_maps \<Rightarrow> int \<Rightarrow> (int \<times> int \<times> int) list" where
  "chain_items maps chain = concat (map (\<lambda>(tc, links). map (\<lambda>(ss, ts). (ss, tc, ts)) links) (inner_map chain maps))"

definition visited_seq :: "(int, int) pydict \<Rightarrow> int \<Rightarrow> int" where
  "visited_seq visited chain = (case dget visited chain of None \<Rightarrow> 0 | Some s \<Rightarrow> s)"

text \<open>What one step of the search pushes; the top of the stack is the head of the list.\<close>

definition fresh_items :: "link_maps \<Rightarrow> int \<Rightarrow> int \<Rightarrow> (int, int) pydict \<Rightarrow> (int \<times> int \<times> int) list" where
  "fresh_items maps chain seq visited =
     filter (\<lambda>(ss, tc, ts). \<not> ts \<le> visited_seq visited tc \<and> ss \<le> seq) (chain_items maps chain)"

definition visit :: "int \<Rightarrow> int \<Rightarrow> (int, int) pydict \<Rightarrow> (int, int) pydict" where
  "visit chain seq visited = dset chain (max seq (visited_seq visited chain)) visited"

text \<open>
  The search ends: unless the popped position was visited before, fewer positions are left unvisited; and
  after one that was, either nothing is pushed, or the next one was not visited before.
\<close>

definition link_targets :: "link_maps \<Rightarrow> position set" where
  "link_targets maps = {(tc, ts). \<exists>c ss. (ss, tc, ts) \<in> set (chain_items maps c)}"

lemma finite_link_targets [simp]: "finite (link_targets maps)"
proof -
  have "link_targets maps \<subseteq> (\<Union>c\<in>set (dkeys maps). snd ` set (chain_items maps c))"
  proof
    fix x assume "x \<in> link_targets maps"
    then obtain c ss where mem: "(ss, x) \<in> set (chain_items maps c)"
      by (cases x) (auto simp: link_targets_def)
    then have "dget maps c \<noteq> None" by (cases "dget maps c") (auto simp: chain_items_def inner_map_def)
    then have "c \<in> set (dkeys maps)" using dget_None_iff [of maps c] by simp
    then show "x \<in> (\<Union>c\<in>set (dkeys maps). snd ` set (chain_items maps c))" using mem by force
  qed
  then show ?thesis by (rule finite_subset) simp
qed

definition unvisited :: "link_maps \<Rightarrow> position list \<Rightarrow> (int, int) pydict \<Rightarrow> position set" where
  "unvisited maps stack visited = {(c, s) \<in> link_targets maps \<union> set stack. visited_seq visited c < s}"

definition stale :: "position list \<Rightarrow> (int, int) pydict \<Rightarrow> nat" where
  "stale stack visited = (case stack of [] \<Rightarrow> 0 | (c, s) # _ \<Rightarrow> if s \<le> visited_seq visited c then 1 else 0)"

lemma visited_visit [simp]:
  "visited_seq (visit chain seq visited) c = (if c = chain then max seq (visited_seq visited c) else visited_seq visited c)"
  by (auto simp: visited_seq_def visit_def)

function exists_path_loop :: "link_maps \<Rightarrow> position \<Rightarrow> position list \<Rightarrow> (int, int) pydict \<Rightarrow> bool" where
  "exists_path_loop maps target [] visited = False"
| "exists_path_loop maps target ((chain, seq) # search) visited =
     (let visited' = visit chain seq visited;
          items = fresh_items maps chain seq visited'
      in if list_ex (\<lambda>(_, tc, ts). tc = fst target \<and> snd target \<le> ts) items then True
         else exists_path_loop maps target (rev (map snd (filter (\<lambda>(_, tc, _). tc \<noteq> fst target) items)) @ search) visited')"
  by pat_completeness auto
termination
proof (relation "inv_image (less_than <*lex*> less_than <*lex*> less_than)
    (\<lambda>(maps, _, stack, visited). (card (unvisited maps stack visited), stale stack visited, length stack))")
  fix maps :: link_maps and target :: position and chain seq search visited visited' items
  assume v: "visited' = visit chain seq visited" and items: "items = fresh_items maps chain seq visited'"
  define pushed where "pushed = rev (map snd (filter (\<lambda>(_, tc, _). tc \<noteq> fst target) items))"
  have pushed: "(c, s) \<in> link_targets maps \<and> visited_seq visited' c < s" if "(c, s) \<in> set pushed" for c s
    using that by (auto simp: pushed_def items fresh_items_def link_targets_def) blast
  have fin: "finite (unvisited maps st w)" for st w
    by (rule finite_subset [of _ "link_targets maps \<union> set st"]) (auto simp: unvisited_def)
  have mono: "unvisited maps (pushed @ search) visited' \<subseteq> unvisited maps ((chain, seq) # search) visited"
  proof
    fix x assume x: "x \<in> unvisited maps (pushed @ search) visited'"
    obtain c s where cs: "x = (c, s)" by (cases x)
    then have "visited_seq visited c < s" using x by (auto simp: unvisited_def v split: if_splits)
    moreover have "(c, s) \<in> link_targets maps \<union> set search"
      using x pushed [of c s] by (auto simp: unvisited_def cs)
    ultimately show "x \<in> unvisited maps ((chain, seq) # search) visited"
      by (auto simp: unvisited_def cs)
  qed
  have "(card (unvisited maps (pushed @ search) visited'), stale (pushed @ search) visited', length (pushed @ search))
    < (card (unvisited maps ((chain, seq) # search) visited), stale ((chain, seq) # search) visited, length ((chain, seq) # search))"
    (is "(?u', ?s', ?l') < (?u, ?s, ?l)")
  proof (cases "visited_seq visited chain < seq")
    case True
    then have "(chain, seq) \<in> unvisited maps ((chain, seq) # search) visited"
      "(chain, seq) \<notin> unvisited maps (pushed @ search) visited'"
      by (auto simp: unvisited_def v)
    then have "?u' < ?u" using mono fin by (intro psubset_card_mono) auto
    then show ?thesis by simp
  next
    case False
    have u: "?u' \<le> ?u" using mono fin by (rule card_mono [rotated])
    have "?s' = 0 \<and> ?s = 1 \<or> ?s' \<le> ?s \<and> ?l' < ?l"
    proof (cases pushed)
      case Nil
      then show ?thesis using False by (auto simp: stale_def split: list.splits)
    next
      case (Cons x xs)
      then show ?thesis using False pushed [of "fst x" "snd x"] by (auto simp: stale_def split: prod.splits)
    qed
    then show ?thesis using u by (auto simp: order_le_less)
  qed
  then show "((maps, target, pushed @ search, visited'), maps, target, (chain, seq) # search, visited) \<in>
      inv_image (less_than <*lex*> less_than <*lex*> less_than)
        (\<lambda>(maps, _, stack, visited). (card (unvisited maps stack visited), stale stack visited, length stack))"
    by (auto simp: less_prod_def)
qed (intro wf_inv_image wf_lex_prod wf_less_than)

definition exists_path_from :: "link_maps \<Rightarrow> position \<Rightarrow> position \<Rightarrow> bool" where
  "exists_path_from maps src target =
     (if fst src = fst target then snd target \<le> snd src else exists_path_loop maps target [src] [])"

section \<open>Positions of new events\<close>

text \<open>Ids of chains that are not allocated yet are numbered; the code uses fresh objects.\<close>

datatype chain_ref = Allocated int | Temporary nat

definition choose_parent :: "(string, string \<times> string) pydict \<Rightarrow> (string, string list) pydict \<Rightarrow> string \<Rightarrow> string option" where
  "choose_parent types auth_chain event_id =
     List.find (\<lambda>auth_id. dget types event_id = dget types auth_id)
       (case dget auth_chain event_id of None \<Rightarrow> [] | Some l \<Rightarrow> l)"

definition tree_step :: "(string, string \<times> string) pydict \<Rightarrow> (string, string list) pydict \<Rightarrow> (string, position) pydict
    \<Rightarrow> string \<Rightarrow> int list \<times> (string \<times> string option) list \<Rightarrow> int list \<times> (string \<times> string option) list" where
  "tree_step types auth_chain chain_map event_id = (\<lambda>(existing_chains, tree).
     (let parent = choose_parent types auth_chain event_id in
      (case parent of None \<Rightarrow> existing_chains
       | Some auth_id \<Rightarrow>
           (case dget chain_map auth_id of None \<Rightarrow> existing_chains | Some (c, _) \<Rightarrow> set_add c existing_chains),
       tree @ [(event_id, parent)])))"

definition existing_position :: "(string, position) pydict \<Rightarrow> (string, chain_ref \<times> int) pydict \<Rightarrow> string option
    \<Rightarrow> (chain_ref \<times> int) option res" where
  "existing_position chain_map new_chain_tuples auth_event_id =
     (case auth_event_id of
        None \<Rightarrow> Inr None
      | Some a \<Rightarrow>
          (case dget new_chain_tuples a of
             Some t \<Rightarrow> Inr (Some t)
           | None \<Rightarrow> bindE (optE KeyError (dget chain_map a)) (\<lambda>(c, s). Inr (Some (Allocated c, s)))))"

definition allocate_step :: "(string, position) pydict \<Rightarrow> string \<times> string option
    \<Rightarrow> (string, chain_ref \<times> int) pydict \<times> (chain_ref, int) pydict \<times> nat
    \<Rightarrow> ((string, chain_ref \<times> int) pydict \<times> (chain_ref, int) pydict \<times> nat) res" where
  "allocate_step chain_map = (\<lambda>(event_id, auth_event_id) (new_chain_tuples, chain_to_max_seq_no, unallocated).
     bindE (existing_position chain_map new_chain_tuples auth_event_id) (\<lambda>existing_chain_id.
     bindE (case existing_chain_id of
              None \<Rightarrow> Inr None
            | Some (c, s) \<Rightarrow>
                bindE (optE KeyError (dget chain_to_max_seq_no c)) (\<lambda>m.
                  Inr (if m < s + 1 then Some (c, s + 1) else None))) (\<lambda>candidate.
       case candidate of
         Some t \<Rightarrow> Inr (dset event_id t new_chain_tuples, dset (fst t) (snd t) chain_to_max_seq_no, unallocated)
       | None \<Rightarrow> Inr (dset event_id (Temporary unallocated, 1) new_chain_tuples,
                  dset (Temporary unallocated) 1 chain_to_max_seq_no, Suc unallocated))))"

definition real_chain :: "int list \<Rightarrow> int list \<Rightarrow> chain_ref \<Rightarrow> int res" where
  "real_chain existing_chains newly_allocated_chain_ids c =
     (case c of
        Allocated i \<Rightarrow> if i \<in> set existing_chains then Inr i else Inl KeyError
      | Temporary n \<Rightarrow> if n < length newly_allocated_chain_ids then Inr (newly_allocated_chain_ids ! n) else Inl KeyError)"

definition allocate_chain_ids :: "chain_tables \<Rightarrow> (nat \<Rightarrow> int list) \<Rightarrow> (string, string \<times> string) pydict
    \<Rightarrow> (string, string list) pydict \<Rightarrow> string list \<Rightarrow> (string, position) pydict \<Rightarrow> (string, position) pydict res" where
  "allocate_chain_ids T next_ids types auth_chain to_calc chain_map =
     (case fold (tree_step types auth_chain chain_map) (sorted_topologically to_calc auth_chain) ([], []) of
        (existing_chains, tree) \<Rightarrow>
          (let maxes = List.map_filter (\<lambda>c. map_option (Pair (Allocated c)) (select_max_seq T c)) existing_chains in
           bindE (foldE (allocate_step chain_map) tree ([], maxes, 0)) (\<lambda>(new_chain_tuples, _, unallocated).
             foldE (\<lambda>(event_id, (c, s)) acc.
               bindE (real_chain existing_chains (next_ids unallocated) c) (\<lambda>i. Inr (acc @ [(event_id, (i, s))])))
               new_chain_tuples [])))"

section \<open>Computing the index for new events\<close>

text \<open>The local variables that the loops of \<open>_calculate_chain_cover_index\<close> change.\<close>

record index_locals =
  il_types :: "(string, string \<times> string) pydict"
  il_auth_chain :: "(string, string list) pydict"
  il_to_calc :: "string list"
  il_chain_map :: "(string, position) pydict"

text \<open>Events of the rooms that could not be indexed earlier.\<close>

definition add_deferred :: "chain_tables \<Rightarrow> string \<times> string \<times> string \<times> string \<Rightarrow> index_locals \<Rightarrow> index_locals" where
  "add_deferred T = (\<lambda>(event_id, _, event_type, state_key) v.
     v\<lparr>il_to_calc := set_add event_id (il_to_calc v),
        il_types := dset event_id (event_type, state_key) (il_types v),
        il_auth_chain := dset event_id (select_auth T event_id) (il_auth_chain v)\<rparr>)"

definition first_missing :: "index_locals \<Rightarrow> string list" where
  "first_missing v = remdups (filter (\<lambda>a. a \<notin> set (il_to_calc v)) (concat (dvalues (il_auth_chain v))))"

text \<open>One row of the query for the auth events, and the auth events that it adds to the missing ones.\<close>

definition fetch_row :: "chain_tables \<Rightarrow> string \<times> string \<times> string \<Rightarrow> index_locals \<times> string list \<Rightarrow> index_locals \<times> string list" where
  "fetch_row T = (\<lambda>(auth_id, event_type, state_key) (v, missing).
     (let types = dset auth_id (event_type, state_key) (il_types v) in
      case dget (ct_chains T) auth_id of
        None \<Rightarrow>
          (v\<lparr>il_types := types, il_to_calc := set_add auth_id (il_to_calc v),
              il_auth_chain := dset auth_id (select_auth T auth_id) (il_auth_chain v)\<rparr>,
           set_union missing (filter (\<lambda>e. dget types e = None) (select_auth T auth_id)))
      | Some pos \<Rightarrow>
          (v\<lparr>il_types := types, il_chain_map := dset auth_id pos (il_chain_map v)\<rparr>, missing)))"

definition fetch_rows_of :: "chain_tables \<Rightarrow> string list \<Rightarrow> (string \<times> string \<times> string) list" where
  "fetch_rows_of T ids = filter (\<lambda>(e, _). e \<in> set ids) (ct_state T)"

definition fetch_round :: "chain_tables \<Rightarrow> index_locals \<times> string list \<Rightarrow> index_locals \<times> string list" where
  "fetch_round T = (\<lambda>(v, missing). fold (fetch_row T) (fetch_rows_of T missing) (v, []))"

text \<open>
  The rounds end: a round either finds the type of a stored event that was not known, or leaves only
  events that are not stored, and then nothing is missing after the next one.
\<close>

definition unknown_events :: "chain_tables \<Rightarrow> index_locals \<Rightarrow> string set" where
  "unknown_events T v = {e \<in> fst ` set (ct_state T). dget (il_types v) e = None}"

definition missing_rank :: "chain_tables \<Rightarrow> index_locals \<times> string list \<Rightarrow> nat" where
  "missing_rank T = (\<lambda>(v, missing).
     if missing = [] then 0
     else if set missing \<inter> unknown_events T v \<noteq> {} \<or> set missing \<inter> fst ` set (ct_state T) = {} then 1
     else 2)"

lemma fetch_row_types: "dget (il_types (fst (fetch_row T row acc))) = (dget (il_types (fst acc)))(fst row \<mapsto> snd row)"
  by (cases row; cases acc) (auto simp: fetch_row_def Let_def split: option.splits)

lemma fetch_fold_types:
  "dget (il_types (fst (fold (fetch_row T) rows acc))) e = None \<longleftrightarrow> dget (il_types (fst acc)) e = None \<and> e \<notin> fst ` set rows"
proof (induction rows arbitrary: acc)
  case (Cons r rows)
  show ?case using Cons [of "fetch_row T r acc"] by (auto simp: fetch_row_types)
qed simp

lemma fetch_fold_missing:
  assumes "e \<in> set (snd (fold (fetch_row T) rows (v, [])))"
  shows "dget (il_types v) e = None"
proof -
  have "e \<in> set (snd acc) \<or> dget (il_types (fst acc)) e = None"
    if "e \<in> set (snd (fold (fetch_row T) rows acc))" for acc
    using that
  proof (induction rows arbitrary: acc)
    case (Cons r rows)
    have step: "e \<in> set (snd acc) \<or> dget (il_types (fst acc)) e = None" if "e \<in> set (snd (fetch_row T r acc))"
      using that by (cases r; cases acc) (auto simp: fetch_row_def Let_def set_set_union split: option.splits if_splits)
    have types: "dget (il_types (fst (fetch_row T r acc))) e = None \<Longrightarrow> dget (il_types (fst acc)) e = None"
      by (simp add: fetch_row_types split: if_splits)
    from Cons.IH [of "fetch_row T r acc"] Cons.prems show ?case
      using step types by auto
  qed simp
  from this [OF assms] show ?thesis by simp
qed

function fetch_missing :: "chain_tables \<Rightarrow> index_locals \<times> string list \<Rightarrow> index_locals" where
  "fetch_missing T (v, missing) = (if missing = [] then v else fetch_missing T (fetch_round T (v, missing)))"
  by pat_completeness auto
termination
proof (relation "inv_image (less_than <*lex*> less_than)
    (\<lambda>(T, v, missing). (card (unknown_events T v), missing_rank T (v, missing)))")
  fix T v and missing :: "string list"
  assume missing: "missing \<noteq> []"
  obtain v' missing' where round: "fetch_round T (v, missing) = (v', missing')" by fastforce
  define rows where "rows = fetch_rows_of T missing"
  have rows: "fst ` set rows = set missing \<inter> fst ` set (ct_state T)"
    by (force simp: rows_def fetch_rows_of_def)
  have res: "v' = fst (fold (fetch_row T) rows (v, []))" "missing' = snd (fold (fetch_row T) rows (v, []))"
    using round by (simp_all add: fetch_round_def rows_def)
  have unknown: "unknown_events T v' = unknown_events T v - set missing"
    unfolding unknown_events_def res(1) fetch_fold_types rows by auto
  have fin: "finite (unknown_events T v)"
    by (rule finite_subset [of _ "fst ` set (ct_state T)"]) (auto simp: unknown_events_def)
  have "card (unknown_events T v') < card (unknown_events T v)
    \<or> card (unknown_events T v') \<le> card (unknown_events T v) \<and> missing_rank T (v', missing') < missing_rank T (v, missing)"
  proof (cases "set missing \<inter> unknown_events T v = {}")
    case False
    then have "unknown_events T v' \<subset> unknown_events T v" unfolding unknown by auto
    then show ?thesis using psubset_card_mono [OF fin] by blast
  next
    case True
    then have same: "unknown_events T v' = unknown_events T v" unfolding unknown by auto
    show ?thesis
    proof (cases "rows = []")
      case True
      then have "missing' = []" by (simp add: res(2))
      then show ?thesis using same missing by (simp add: missing_rank_def)
    next
      case nonempty: False
      then have rank: "missing_rank T (v, missing) = 2"
        using True rows missing by (auto simp: missing_rank_def)
      have "e \<in> unknown_events T v' \<or> e \<notin> fst ` set (ct_state T)" if "e \<in> set missing'" for e
        using fetch_fold_missing [of e T rows v] that same by (auto simp: res(2) unknown_events_def)
      then have "missing_rank T (v', missing') \<le> 1"
      proof (cases "missing' = [] \<or> set missing' \<inter> fst ` set (ct_state T) = {}")
        case True
        then show ?thesis by (auto simp: missing_rank_def)
      next
        case False
        then obtain e where "e \<in> set missing'" "e \<in> fst ` set (ct_state T)" by blast
        then have "set missing' \<inter> unknown_events T v' \<noteq> {}"
          using \<open>\<And>e. e \<in> set missing' \<Longrightarrow> e \<in> unknown_events T v' \<or> e \<notin> fst ` set (ct_state T)\<close> by blast
        then show ?thesis by (simp add: missing_rank_def)
      qed
      then show ?thesis using same rank by simp
    qed
  qed
  then show "((T, fetch_round T (v, missing)), T, v, missing) \<in> inv_image (less_than <*lex*> less_than)
      (\<lambda>(T, v, missing). (card (unknown_events T v), missing_rank T (v, missing)))"
    by (auto simp: round)
qed (intro wf_inv_image wf_lex_prod wf_less_than)

declare fetch_missing.simps [simp del]

text \<open>Events whose auth events are neither indexed nor about to be are left for later.\<close>

type_synonym deferred = "(string, string \<times> string \<times> string) pydict"

definition discard_step :: "(string, string) pydict \<Rightarrow> string \<Rightarrow> index_locals \<times> deferred \<Rightarrow> (index_locals \<times> deferred) res" where
  "discard_step rooms event_id = (\<lambda>(v, deferred).
     bindE (optE KeyError (dget (il_auth_chain v) event_id)) (\<lambda>auth_ids.
       if list_ex (\<lambda>a. dget (il_chain_map v) a = None \<and> a \<notin> set (il_to_calc v)) auth_ids
       then
         (let v' = v\<lparr>il_to_calc := filter (\<lambda>e. e \<noteq> event_id) (il_to_calc v)\<rparr> in
          case dget rooms event_id of
            None \<Rightarrow> Inr (v', deferred)
          | Some room_id \<Rightarrow>
              if room_id = [] then Inr (v', deferred)
              else bindE (optE KeyError (dget (il_types v) event_id)) (\<lambda>(e_type, state_key).
                Inr (v', dset event_id (room_id, e_type, state_key) deferred)))
       else Inr (v, deferred)))"

definition discard_unindexed :: "(string, string) pydict \<Rightarrow> index_locals \<Rightarrow> deferred \<Rightarrow> (index_locals \<times> deferred) res" where
  "discard_unindexed rooms v deferred =
     foldE (discard_step rooms) (sorted_topologically (dkeys (il_auth_chain v)) (il_auth_chain v)) (v, deferred)"

text \<open>The links that are stored already.\<close>

definition load_link :: "int \<Rightarrow> int \<times> int \<times> int \<Rightarrow> link_map \<Rightarrow> link_map res" where
  "load_link c = (\<lambda>(s, t, u) lm. bindE (add_chain_link (c, s) (t, u) False lm) (\<lambda>(_, lm'). Inr lm'))"

definition load_links :: "links list \<Rightarrow> link_map \<Rightarrow> link_map res" where
  "load_links = foldE (foldE (\<lambda>(c, inner). foldE (load_link c) inner))"

text \<open>\<open>itertools.permutations(xs, r=2)\<close>\<close>

definition permutations2 :: "'a list \<Rightarrow> ('a \<times> 'a) list" where
  "permutations2 xs = concat (map (\<lambda>i. map (\<lambda>j. (xs ! i, xs ! j)) (filter (\<lambda>j. j \<noteq> i) [0..<length xs])) [0..<length xs])"

type_synonym new_links = "(string, position \<times> position list) pydict"

definition reduce_step :: "(string, position) pydict \<Rightarrow> link_maps \<Rightarrow> string \<times> string \<Rightarrow> string list \<Rightarrow> string list res" where
  "reduce_step chain_map maps = (\<lambda>(start_auth_id, end_auth_id) reduction.
     bindE (optE KeyError (dget chain_map start_auth_id)) (\<lambda>start.
     bindE (optE KeyError (dget chain_map end_auth_id)) (\<lambda>target.
       Inr (if exists_path_from maps start target then filter (\<lambda>a. a \<noteq> end_auth_id) reduction else reduction))))"

definition auth_reduction :: "(string, position) pydict \<Rightarrow> link_maps \<Rightarrow> int \<Rightarrow> string list \<Rightarrow> string list res" where
  "auth_reduction chain_map maps chain auth_ids =
     bindE (foldE (\<lambda>a_id acc. bindE (optE KeyError (dget chain_map a_id)) (\<lambda>(c, _).
              Inr (if c \<noteq> chain then set_add a_id acc else acc))) auth_ids []) (\<lambda>reduction.
       foldE (reduce_step chain_map maps) (permutations2 auth_ids) reduction)"

definition new_link_step :: "(string, position) pydict \<Rightarrow> string \<Rightarrow> position \<Rightarrow> string \<Rightarrow> new_links \<times> link_map \<Rightarrow> (new_links \<times> link_map) res" where
  "new_link_step chain_map event_id pos auth_id = (\<lambda>(to_return, lm).
     bindE (optE KeyError (dget chain_map auth_id)) (\<lambda>target.
     bindE (optE KeyError (dget to_return event_id)) (\<lambda>(p, links).
     bindE (add_chain_link pos target True lm) (\<lambda>(_, lm').
       Inr (dset event_id (p, links @ [target]) to_return, lm')))))"

definition link_event :: "(string, position) pydict \<Rightarrow> (string, string list) pydict \<Rightarrow> string \<Rightarrow> new_links \<times> link_map
    \<Rightarrow> (new_links \<times> link_map) res" where
  "link_event chain_map auth_chain event_id = (\<lambda>(to_return, lm).
     (let auth_ids = (case dget auth_chain event_id of None \<Rightarrow> [] | Some l \<Rightarrow> l) in
      bindE (optE KeyError (dget chain_map event_id)) (\<lambda>pos.
      bindE (auth_reduction chain_map (lm_maps lm) (fst pos) auth_ids) (\<lambda>reduction.
        foldE (new_link_step chain_map event_id pos) reduction (to_return, lm)))))"

definition calculate_chain_cover_index :: "chain_tables \<Rightarrow> (nat \<Rightarrow> int list) \<Rightarrow> (string, string) pydict
    \<Rightarrow> (string, string \<times> string) pydict \<Rightarrow> (string, string list) pydict \<Rightarrow> (new_links \<times> deferred) res" where
  "calculate_chain_cover_index T next_ids rooms types auth_chain =
     (let v0 = \<lparr>il_types = types, il_auth_chain = auth_chain, il_to_calc = dkeys rooms, il_chain_map = []\<rparr>;
          v1 = fold (add_deferred T) (filter (\<lambda>(_, room_id, _). room_id \<in> set (dvalues rooms)) (ct_to_calculate T)) v0;
          v2 = fetch_missing T (v1, first_missing v1)
      in bindE (discard_unindexed rooms v2 (ct_to_calculate T)) (\<lambda>(v3, deferred).
           if il_to_calc v3 = [] then Inr ([], deferred)
           else
             bindE (allocate_chain_ids T next_ids (il_types v3) (il_auth_chain v3) (il_to_calc v3) (il_chain_map v3)) (\<lambda>new.
               let chain_map = dupdate (il_chain_map v3) new;
                   to_return = map (\<lambda>(e, pos). (e, (pos, []))) new
               in bindE (load_links (get_chain_links (ct_links T) (remdups (map fst (dvalues chain_map)))) new_link_map) (\<lambda>lm.
                  bindE (foldE (link_event chain_map (il_auth_chain v3))
                      (sorted_topologically (il_to_calc v3) (il_auth_chain v3)) (to_return, lm)) (\<lambda>(links, _).
                    Inr (links, deferred))))))"

definition persist_chain_cover_index :: "new_links \<Rightarrow> chain_tables \<Rightarrow> chain_tables" where
  "persist_chain_cover_index new_event_links T =
     T\<lparr>ct_chains := ct_chains T @ map (\<lambda>(e, (pos, _)). (e, pos)) new_event_links,
        ct_to_calculate := filter (\<lambda>(e, _). e \<notin> set (dkeys new_event_links)) (ct_to_calculate T),
        ct_links := ct_links T @ concat (map (\<lambda>(_, ((c, s), links)). map (\<lambda>(t, u). (c, s, t, u)) links) new_event_links)\<rparr>"

definition add_chain_cover_index :: "chain_tables \<Rightarrow> (nat \<Rightarrow> int list) \<Rightarrow> (string, string) pydict
    \<Rightarrow> (string, string \<times> string) pydict \<Rightarrow> (string, string list) pydict \<Rightarrow> chain_tables res" where
  "add_chain_cover_index T next_ids rooms types auth_chain =
     bindE (calculate_chain_cover_index T next_ids rooms types auth_chain) (\<lambda>(links, deferred).
       Inr (persist_chain_cover_index links (T\<lparr>ct_to_calculate := deferred\<rparr>)))"

section \<open>Storing state events\<close>

text \<open>\<open>calculate_chain_cover_index_for_events\<close> for a room with an index: each event once, and only new ones.\<close>

record state_event =
  se_id :: string
  se_type :: string
  se_state_key :: string
  se_auth :: "string list"

definition new_state_events :: "chain_tables \<Rightarrow> state_event list \<Rightarrow> state_event list" where
  "new_state_events T events =
     filter (\<lambda>e. dget (ct_chains T) (se_id e) = None)
       (fold (\<lambda>e seen. if se_id e \<in> se_id ` set seen then seen else seen @ [e]) events [])"

definition calculate_chain_cover_index_for_events :: "chain_tables \<Rightarrow> (nat \<Rightarrow> int list) \<Rightarrow> string \<Rightarrow> state_event list
    \<Rightarrow> (new_links \<times> deferred) res" where
  "calculate_chain_cover_index_for_events T next_ids room_id events =
     (let state_events = new_state_events T events in
      if state_events = [] then Inr ([], ct_to_calculate T)
      else calculate_chain_cover_index T next_ids
             (map (\<lambda>e. (se_id e, room_id)) state_events)
             (map (\<lambda>e. (se_id e, (se_type e, se_state_key e))) state_events)
             (map (\<lambda>e. (se_id e, se_auth e)) state_events))"

text \<open>\<open>_persist_event_auth_chain_txn\<close>, and the rows of the events themselves.\<close>

definition persist_event_auth_chain :: "state_event list \<Rightarrow> new_links \<Rightarrow> chain_tables \<Rightarrow> chain_tables" where
  "persist_event_auth_chain events new_event_links T =
     (let T1 = (if new_event_links = [] then T else persist_chain_cover_index new_event_links T) in
      T1\<lparr>ct_auth := ct_auth T1 @ concat (map (\<lambda>e. map (Pair (se_id e)) (se_auth e)) events)\<rparr>)"

definition store_state_events :: "chain_tables \<Rightarrow> (nat \<Rightarrow> int list) \<Rightarrow> string \<Rightarrow> state_event list \<Rightarrow> chain_tables res" where
  "store_state_events T next_ids room_id events =
     bindE (calculate_chain_cover_index_for_events T next_ids room_id events) (\<lambda>(links, deferred).
       let T1 = persist_event_auth_chain events links (T\<lparr>ct_to_calculate := deferred\<rparr>) in
       Inr (T1\<lparr>ct_state := fold (\<lambda>e. dset (se_id e) (se_type e, se_state_key e)) events (ct_state T1)\<rparr>))"

end
