(* ===== verification/Chain_Cover_Props.thy ===== *)
theory Chain_Cover_Props
  imports Chain_Cover
begin

text \<open>
  The chain cover index represents the auth chains: a path of links leads from the position of an event to
  that of another exactly if the other is in the auth chain of the one. The invariant of the tables holds
  after any number of state events are stored, in whatever order they arrive.
\<close>

section \<open>Paths of links\<close>

inductive chain_path :: "link set \<Rightarrow> position \<Rightarrow> position \<Rightarrow> bool" for L where
  within: "t \<le> s \<Longrightarrow> chain_path L (c, s) (c, t)"
| along: "(c, ss, tc, ts) \<in> L \<Longrightarrow> ss \<le> s \<Longrightarrow> chain_path L (tc, ts) q \<Longrightarrow> chain_path L (c, s) q"

lemma chain_path_higher:
  assumes "chain_path L (c, s) q" "s \<le> s'"
  shows "chain_path L (c, s') q"
  using assms(1)
proof (cases rule: chain_path.cases)
  case (within t)
  then show ?thesis using assms(2) by (auto intro: chain_path.within)
next
  case (along ss tc ts)
  then show ?thesis using assms(2) by (auto intro: chain_path.along)
qed

lemma chain_path_trans:
  assumes "chain_path L p q" "chain_path L q r"
  shows "chain_path L p r"
  using assms
proof (induction rule: chain_path.induct)
  case (within t s c)
  then show ?case using chain_path_higher by blast
next
  case (along c ss tc ts s q)
  then show ?case by (blast intro: chain_path.along)
qed

lemma chain_path_mono:
  assumes "chain_path L p q" "L \<subseteq> L'"
  shows "chain_path L' p q"
  using assms by (induction rule: chain_path.induct) (auto intro: chain_path.intros)

section \<open>The index\<close>

text \<open>
  The auth events of an event are part of its content, which its id fixes: they are given by a function on
  ids. Events cannot be in their own auth chain.
\<close>

type_synonym auth_graph = "string \<Rightarrow> string list"

definition auth_edges :: "auth_graph \<Rightarrow> (string \<times> string) set" where
  "auth_edges A = {(a, e). a \<in> set (A e)}"

definition auth_chain_of :: "auth_graph \<Rightarrow> string \<Rightarrow> string set" where
  "auth_chain_of A e = {a. (a, e) \<in> (auth_edges A)\<^sup>*}"

abbreviation position_of :: "chain_tables \<Rightarrow> string \<Rightarrow> position option" where
  "position_of T \<equiv> dget (ct_chains T)"

text \<open>
  Positions are given once, and numbers of a chain are gapless, each event of a chain being an auth event
  of the next; links lead to auth events; the auth events of an indexed event are indexed, and paths lead
  to them; the rows of stored events are complete, and a stored event without position is deferred.
\<close>

definition positions_ok :: "auth_graph \<Rightarrow> (string, position) pydict \<Rightarrow> bool" where
  "positions_ok A P \<longleftrightarrow> dict_ok P
     \<and> (\<forall>e f p. dget P e = Some p \<longrightarrow> dget P f = Some p \<longrightarrow> e = f)
     \<and> (\<forall>e c s. dget P e = Some (c, s) \<longrightarrow> s = 1 \<or> 1 < s \<and> (\<exists>a\<in>set (A e). dget P a = Some (c, s - 1)))
     \<and> (\<forall>e a. dget P e \<noteq> None \<longrightarrow> a \<in> set (A e) \<longrightarrow> dget P a \<noteq> None)"

definition links_ok :: "auth_graph \<Rightarrow> (string, position) pydict \<Rightarrow> link set \<Rightarrow> bool" where
  "links_ok A P L \<longleftrightarrow>
     (\<forall>(c, ss, tc, ts)\<in>L. c \<noteq> tc \<and> (\<exists>x y. dget P x = Some (c, ss) \<and> dget P y = Some (tc, ts) \<and> y \<in> set (A x)))
     \<and> (\<forall>e a p q. dget P e = Some p \<longrightarrow> a \<in> set (A e) \<longrightarrow> dget P a = Some q \<longrightarrow> chain_path L p q)"

definition rows_ok :: "auth_graph \<Rightarrow> chain_tables \<Rightarrow> bool" where
  "rows_ok A T \<longleftrightarrow>
     (\<forall>e. select_auth T e = (if dget (ct_state T) e = None then [] else A e))
     \<and> (\<forall>e. dget (ct_chains T) e \<noteq> None \<longrightarrow> dget (ct_state T) e \<noteq> None)
     \<and> (\<forall>e. dget (ct_to_calculate T) e \<noteq> None \<longrightarrow> dget (ct_state T) e \<noteq> None \<and> dget (ct_chains T) e = None)
     \<and> (\<forall>e. dget (ct_state T) e \<noteq> None \<longrightarrow> dget (ct_chains T) e \<noteq> None \<or> dget (ct_to_calculate T) e \<noteq> None)"

definition index_ok :: "auth_graph \<Rightarrow> chain_tables \<Rightarrow> bool" where
  "index_ok A T \<longleftrightarrow> positions_ok A (ct_chains T) \<and> links_ok A (ct_chains T) (set (ct_links T)) \<and> rows_ok A T"

lemma positions_okD:
  assumes "positions_ok A P"
  shows "dict_ok P" "dget P e = Some p \<Longrightarrow> dget P f = Some p \<Longrightarrow> e = f"
    "dget P e = Some (c, s) \<Longrightarrow> s = 1 \<or> 1 < s \<and> (\<exists>a\<in>set (A e). dget P a = Some (c, s - 1))"
    "dget P e = Some p \<Longrightarrow> a \<in> set (A e) \<Longrightarrow> \<exists>q. dget P a = Some q"
  using assms unfolding positions_ok_def by blast+

lemma chain_below:
  assumes ok: "positions_ok A P" and e: "dget P e = Some (c, s)" and t: "1 \<le> t" "t \<le> s"
  shows "\<exists>f. dget P f = Some (c, t) \<and> f \<in> auth_chain_of A e"
proof -
  have "t \<le> s \<Longrightarrow> dget P e = Some (c, s) \<Longrightarrow> \<exists>f. dget P f = Some (c, t) \<and> f \<in> auth_chain_of A e"
  proof (induction "nat (s - t)" arbitrary: s e)
    case 0
    then show ?case by (intro exI [of _ e]) (simp add: auth_chain_of_def)
  next
    case (Suc n)
    then have "1 < s" using t(1) by linarith
    then obtain a where a: "a \<in> set (A e)" "dget P a = Some (c, s - 1)"
      using positions_okD(3) [OF ok Suc.prems(2)] by auto
    have "n = nat (s - 1 - t)" "t \<le> s - 1" using Suc.hyps(2) by linarith+
    from Suc.hyps(1) [OF this a(2)] obtain f where "dget P f = Some (c, t)" "f \<in> auth_chain_of A a" by blast
    then show ?case
      using a(1) by (auto simp: auth_chain_of_def auth_edges_def intro: rtrancl.rtrancl_into_rtrancl)
  qed
  then show ?thesis using e t by blast
qed

lemma position_pos:
  assumes "positions_ok A P" "dget P e = Some (c, s)"
  shows "1 \<le> s"
  using positions_okD(3) [OF assms] by auto

lemma path_is_auth_chain:
  assumes ok: "positions_ok A P" and links: "\<forall>(c, ss, tc, ts)\<in>L. \<exists>x y. dget P x = Some (c, ss) \<and> dget P y = Some (tc, ts) \<and> y \<in> set (A x)"
    and path: "chain_path L p q" and e: "dget P e = Some p" and f: "dget P f = Some q"
  shows "f \<in> auth_chain_of A e"
  using path f e
proof (induction arbitrary: e rule: chain_path.induct)
  case (within t s c)
  obtain g where "dget P g = Some (c, t)" "g \<in> auth_chain_of A e"
    using chain_below [OF ok within(3) position_pos [OF ok within(2)] within(1)] by blast
  then show ?case using positions_okD(2) [OF ok within(2)] by blast
next
  case (along c ss tc ts s q)
  obtain x y where xy: "dget P x = Some (c, ss)" "dget P y = Some (tc, ts)" "y \<in> set (A x)"
    using links along(1) by blast
  obtain g where g: "dget P g = Some (c, ss)" "g \<in> auth_chain_of A e"
    using chain_below [OF ok along(6) position_pos [OF ok xy(1)] along(2)] by blast
  have "x = g" using positions_okD(2) [OF ok xy(1) g(1)] .
  then have "(y, e) \<in> (auth_edges A)\<^sup>*"
    using g(2) xy(3) by (auto simp: auth_chain_of_def auth_edges_def intro: converse_rtrancl_into_rtrancl)
  moreover have "(f, y) \<in> (auth_edges A)\<^sup>*"
    using along(4) [OF along(5) xy(2)] by (simp add: auth_chain_of_def)
  ultimately show ?case
    by (simp add: auth_chain_of_def)
qed

lemma auth_chain_is_path:
  assumes ok: "positions_ok A P" and links: "\<forall>e a p q. dget P e = Some p \<longrightarrow> a \<in> set (A e) \<longrightarrow> dget P a = Some q \<longrightarrow> chain_path L p q"
    and f: "f \<in> auth_chain_of A e" and e: "dget P e = Some p"
  shows "\<exists>q. dget P f = Some q \<and> chain_path L p q"
proof -
  have "(f, e) \<in> (auth_edges A)\<^sup>*" using f by (simp add: auth_chain_of_def)
  then show ?thesis
    using e
  proof (induction arbitrary: p rule: rtrancl_induct)
    case base
    then show ?case by (cases p) (auto intro: chain_path.within)
  next
    case (step a e)
    then have a: "a \<in> set (A e)" by (simp add: auth_edges_def)
    then obtain r where r: "dget P a = Some r" using positions_okD(4) [OF ok step.prems] by blast
    from step.IH [OF r] obtain q where "dget P f = Some q" "chain_path L r q" by blast
    moreover have "chain_path L p r" using links step.prems a r by blast
    ultimately show ?case using chain_path_trans by blast
  qed
qed

text \<open>The meaning of the index.\<close>

lemma index_represents:
  assumes "index_ok A T" "position_of T e = Some p" "position_of T f = Some q"
  shows "chain_path (set (ct_links T)) p q \<longleftrightarrow> f \<in> auth_chain_of A e"
proof
  have P: "positions_ok A (ct_chains T)" and L: "links_ok A (ct_chains T) (set (ct_links T))"
    using assms(1) by (simp_all add: index_ok_def)
  show "f \<in> auth_chain_of A e" if "chain_path (set (ct_links T)) p q"
    by (rule path_is_auth_chain [OF P _ that assms(2,3)]) (use L in \<open>fastforce simp: links_ok_def\<close>)
  show "chain_path (set (ct_links T)) p q" if "f \<in> auth_chain_of A e"
  proof -
    have "\<forall>e a p q. position_of T e = Some p \<longrightarrow> a \<in> set (A e) \<longrightarrow> position_of T a = Some q
        \<longrightarrow> chain_path (set (ct_links T)) p q"
      using L unfolding links_ok_def by blast
    from auth_chain_is_path [OF P this that assms(2)] assms(3) show ?thesis by auto
  qed
qed

section \<open>The link map\<close>

definition link_set :: "link_maps \<Rightarrow> link set" where
  "link_set maps = {(c, ss, tc, ts). (ss, tc, ts) \<in> set (chain_items maps c)}"

lemma dset_members: "x \<in> set (dset k v d) \<Longrightarrow> x = (k, v) \<or> x \<in> set d"
  by (induction d) (auto simp: dset_def split: if_splits)

lemma chain_items_iff: "(ss, tc, ts) \<in> set (chain_items maps c) \<longleftrightarrow> (\<exists>l. (tc, l) \<in> set (inner_map c maps) \<and> (ss, ts) \<in> set l)"
  by (auto simp: chain_items_def) force

lemma inner_map_dset: "inner_map k (dset k' v d) = (if k = k' then v else inner_map k d)"
  by (simp add: inner_map_def)

lemma inner_map_member: "x \<in> set (inner_map k d) \<Longrightarrow> (k, inner_map k d) \<in> set d"
  by (auto simp: inner_map_def split: option.splits dest: map_of_SomeD)

lemma add_link_set:
  assumes "add_chain_link (c, s) (t, u) new lm = Inr (b, lm')"
  shows "link_set (lm_maps lm') \<subseteq> insert (c, s, t, u) (link_set (lm_maps lm))" "c \<noteq> t"
proof -
  define targets where "targets = inner_map c (lm_maps lm)"
  define current where "current = inner_map t targets"
  obtain l where maps: "lm_maps lm' = dset c (dset t l targets) (lm_maps lm)" and l: "l = current \<or> l = dset s u current" and "c \<noteq> t"
    using assms by (auto simp: add_chain_link_def Let_def targets_def current_def split: if_splits)
  then show "c \<noteq> t" by simp
  show "link_set (lm_maps lm') \<subseteq> insert (c, s, t, u) (link_set (lm_maps lm))"
  proof
    fix x assume "x \<in> link_set (lm_maps lm')"
    then obtain c' ss tc ts k where x: "x = (c', ss, tc, ts)" "(tc, k) \<in> set (inner_map c' (lm_maps lm'))" "(ss, ts) \<in> set k"
      by (auto simp: link_set_def chain_items_iff)
    show "x \<in> insert (c, s, t, u) (link_set (lm_maps lm))"
    proof (cases "c' = c \<and> (tc, k) = (t, l)")
      case True
      then have "(ss, ts) = (s, u) \<or> (ss, ts) \<in> set current"
        using x(3) l dset_members [of "(ss, ts)" s u current] by auto
      moreover have "(t, current) \<in> set targets" if "(ss, ts) \<in> set current"
        using inner_map_member that unfolding current_def by fastforce
      ultimately show ?thesis
        using True x(1) by (auto simp: link_set_def chain_items_iff targets_def)
    next
      case False
      then have "(tc, k) \<in> set (inner_map c' (lm_maps lm))"
        using x(2) dset_members [of "(tc, k)" t l targets] by (auto simp: maps inner_map_dset targets_def split: if_splits)
      then show ?thesis
        using x by (auto simp: link_set_def chain_items_iff)
    qed
  qed
qed

lemma add_link_succeeds:
  assumes "fst p \<noteq> fst q"
  obtains b lm' where "add_chain_link p q new lm = Inr (b, lm')" "link_set (lm_maps lm') \<subseteq> insert (fst p, snd p, q) (link_set (lm_maps lm))"
proof -
  obtain c s t u where pq: "p = (c, s)" "q = (t, u)" by (cases p; cases q)
  have "\<exists>r. add_chain_link p q new lm = Inr r"
    using assms by (auto simp: add_chain_link_def Let_def pq)
  then obtain b lm' where "add_chain_link p q new lm = Inr (b, lm')" by auto
  with add_link_set(1) that show ?thesis unfolding pq by (metis fst_conv snd_conv)
qed

text \<open>A path that the search finds is a path of links.\<close>

lemma exists_path_loop_sound:
  "exists_path_loop maps target stack visited \<Longrightarrow> \<exists>p\<in>set stack. chain_path (link_set maps) p target"
proof (induction maps target stack visited rule: exists_path_loop.induct)
  case (2 maps target chain seq search visited)
  define visited' where "visited' = visit chain seq visited"
  define items where "items = fresh_items maps chain seq visited'"
  have item: "(chain, ss, tc, ts) \<in> link_set maps" "ss \<le> seq" if "(ss, tc, ts) \<in> set items" for ss tc ts
    using that by (auto simp: items_def fresh_items_def link_set_def)
  have hop: "chain_path (link_set maps) (chain, seq) q"
    if "(ss, tc, ts) \<in> set items" "chain_path (link_set maps) (tc, ts) q" for ss tc ts q
    using item [OF that(1)] that(2) by (rule chain_path.along)
  show ?case
  proof (cases "list_ex (\<lambda>(_, tc, ts). tc = fst target \<and> snd target \<le> ts) items")
    case True
    then obtain ss ts where hit: "(ss, fst target, ts) \<in> set items" "snd target \<le> ts"
      by (auto simp: list_ex_iff)
    have "chain_path (link_set maps) (fst target, ts) target"
      using chain_path.within [OF hit(2), of _ "fst target"] by simp
    then show ?thesis using hop [OF hit(1)] by auto
  next
    case False
    let ?pushed = "rev (map snd (filter (\<lambda>(_, tc, _). tc \<noteq> fst target) items))"
    have "exists_path_loop maps target (?pushed @ search) visited'"
      using 2(2) False by (simp add: Let_def visited'_def [symmetric] items_def [symmetric])
    from 2(1) [OF visited'_def items_def False this] obtain p where
      p: "p \<in> set (?pushed @ search)" "chain_path (link_set maps) p target" by blast
    then consider "p \<in> set search" | ss where "(ss, p) \<in> set items" by auto
    then show ?thesis
    proof cases
      case 1
      then show ?thesis using p(2) by auto
    next
      case 2
      then show ?thesis using hop [of ss "fst p" "snd p"] p(2) by auto
    qed
  qed
qed simp

lemma exists_path_from_sound:
  assumes "exists_path_from maps p q"
  shows "chain_path (link_set maps) p q"
proof (cases "fst p = fst q")
  case True
  then show ?thesis
    using assms by (cases p; cases q) (auto simp: exists_path_from_def intro: chain_path.within)
next
  case False
  then show ?thesis
    using assms exists_path_loop_sound [of maps q "[p]" "[]"] by (simp add: exists_path_from_def)
qed

section \<open>Allocating positions\<close>

text \<open>What the events to calculate, their auth events and the known positions satisfy.\<close>

definition calc_ok :: "auth_graph \<Rightarrow> (string, position) pydict \<Rightarrow> (string, string list) pydict \<Rightarrow> string list
    \<Rightarrow> (string, position) pydict \<Rightarrow> bool" where
  "calc_ok A P AC C M \<longleftrightarrow> distinct C \<and> dict_ok AC
     \<and> (\<forall>e l. dget AC e = Some l \<longrightarrow> l = A e)
     \<and> (\<forall>e\<in>set C. dget AC e \<noteq> None \<and> dget P e = None \<and> (\<forall>a\<in>set (A e). a \<in> set C \<or> dget M a \<noteq> None))
     \<and> (\<forall>a p. dget M a = Some p \<longrightarrow> dget P a = Some p)"

definition fresh_ids :: "(string, position) pydict \<Rightarrow> (nat \<Rightarrow> int list) \<Rightarrow> bool" where
  "fresh_ids P next_ids \<longleftrightarrow>
     (\<forall>n. length (next_ids n) = n \<and> distinct (next_ids n) \<and> (\<forall>e c s. dget P e = Some (c, s) \<longrightarrow> c \<notin> set (next_ids n)))"

lemma calc_okD:
  assumes ok: "calc_ok A P AC C M"
  shows "distinct C" "dict_ok AC" "e \<in> set C \<Longrightarrow> dget AC e = Some (A e)" "e \<in> set C \<Longrightarrow> dget P e = None"
    "e \<in> set C \<Longrightarrow> a \<in> set (A e) \<Longrightarrow> dget M a = None \<Longrightarrow> a \<in> set C" "dget M a = Some p \<Longrightarrow> dget P a = Some p"
    "dget AC e = Some l \<Longrightarrow> l = A e"
proof -
  note D = ok [unfolded calc_ok_def]
  note C = conjunct1 [OF conjunct2 [OF conjunct2 [OF conjunct2 [OF D]]]]
  show "distinct C" by (rule conjunct1 [OF D])
  show "dict_ok AC" by (rule conjunct1 [OF conjunct2 [OF D]])
  show AC: "dget AC e = Some l \<Longrightarrow> l = A e" for e l
    by (rule conjunct1 [OF conjunct2 [OF conjunct2 [OF D]], rule_format])
  show "dget M a = Some p \<Longrightarrow> dget P a = Some p"
    by (rule conjunct2 [OF conjunct2 [OF conjunct2 [OF conjunct2 [OF D]]], rule_format])
  {
    assume e: "e \<in> set C"
    note E = bspec [OF C e]
    obtain l where l: "dget AC e = Some l" using conjunct1 [OF E] by blast
    then show "dget AC e = Some (A e)" using AC [OF l] by simp
    show "dget P e = None" by (rule conjunct1 [OF conjunct2 [OF E]])
    show "a \<in> set C" if "a \<in> set (A e)" "dget M a = None"
      using bspec [OF conjunct2 [OF conjunct2 [OF E]] that(1)] that(2) by simp
  }
qed

lemma calc_edges:
  assumes ok: "calc_ok A P AC C M"
  shows "edges_of AC e \<subseteq> set (A e)" "e \<in> set C \<Longrightarrow> edges_of AC e = set (A e)"
proof -
  show "edges_of AC e \<subseteq> set (A e)"
  proof (cases "dget AC e")
    case (Some l)
    then show ?thesis using calc_okD(7) [OF ok Some] by (simp add: edges_of_def)
  qed (simp add: edges_of_def)
  show "e \<in> set C \<Longrightarrow> edges_of AC e = set (A e)"
    using calc_okD(3) [OF ok] by (simp add: edges_of_def)
qed

lemma sorted_events:
  assumes ok: "calc_ok A P AC C M" and wf: "wf (auth_edges A)"
  shows "distinct (sorted_topologically C AC)" "set (sorted_topologically C AC) = set C"
    "sorted_topologically C AC = ys @ e # zs \<Longrightarrow> a \<in> set (A e) \<Longrightarrow> dget M a = None \<Longrightarrow> a \<in> set ys"
proof -
  note S = sorted_topologically_sound [OF calc_okD(2) [OF ok], of C]
  show "distinct (sorted_topologically C AC)" by (rule S(1))
  have "{(m, n). m \<in> edges_of AC n} \<subseteq> auth_edges A"
    using calc_edges(1) [OF ok] by (auto simp: auth_edges_def)
  from sorted_topologically_complete [OF calc_okD(2) [OF ok] wf_subset [OF wf this], of C]
  show set: "set (sorted_topologically C AC) = set C" .
  assume eq: "sorted_topologically C AC = ys @ e # zs" and a: "a \<in> set (A e)" "dget M a = None"
  have "e \<in> set C" using set eq by auto
  then show "a \<in> set ys"
    using S(3) [OF eq] calc_edges(2) [OF ok] calc_okD(5) [OF ok _ a] a by auto
qed

lemma choose_parent_auth:
  assumes "calc_ok A P AC C M" "e \<in> set C" "choose_parent types AC e = Some a"
  shows "a \<in> set (A e)"
  using assms(3) calc_okD(3) [OF assms(1,2)] by (auto simp: choose_parent_def find_Some_iff)

lemma tree_steps:
  "fold (tree_step types AC M) es (ex, tr) = (ex', tr') \<Longrightarrow>
    tr' = tr @ map (\<lambda>e. (e, choose_parent types AC e)) es
    \<and> set ex' = set ex \<union> {c. \<exists>e\<in>set es. \<exists>a s. choose_parent types AC e = Some a \<and> dget M a = Some (c, s)}"
proof (induction es arbitrary: ex tr)
  case (Cons e es)
  obtain ex1 tr1 where step: "tree_step types AC M e (ex, tr) = (ex1, tr1)" by fastforce
  then have one: "tr1 = tr @ [(e, choose_parent types AC e)]"
    "set ex1 = set ex \<union> {c. \<exists>a s. choose_parent types AC e = Some a \<and> dget M a = Some (c, s)}"
    by (auto simp: tree_step_def Let_def split: option.splits prod.splits)
  from Cons.prems step have "fold (tree_step types AC M) es (ex1, tr1) = (ex', tr')" by simp
  from Cons.IH [OF this] show ?case unfolding one by auto
qed simp

lemma select_max_seq_bound:
  assumes "dget (ct_chains T) e = Some (c, s)"
  obtains m where "select_max_seq T c = Some m" "\<And>e s. dget (ct_chains T) e = Some (c, s) \<Longrightarrow> s \<le> m"
proof -
  define ss where "ss = map (\<lambda>(_, _, s). s) (filter (\<lambda>(_, c', _). c' = c) (ct_chains T))"
  have mem: "s \<in> set ss" if "dget (ct_chains T) e = Some (c, s)" for e s
    using map_of_SomeD [OF that] by (force simp: ss_def)
  have start: "y \<le> fold max xs y" for y :: int and xs
  proof (induction xs arbitrary: y)
    case (Cons x xs)
    show ?case using Cons [of "max x y"] by simp
  qed simp
  have bound: "x \<le> fold max xs y" if "x \<in> set (y # xs)" for x y :: int and xs
    using that
  proof (induction xs arbitrary: y)
    case (Cons z xs)
    show ?case
    proof (cases "x \<in> set xs")
      case True
      then show ?thesis using Cons.IH [of "max z y"] by simp
    next
      case False
      then show ?thesis using Cons.prems start [of "max z y" xs] by auto
    qed
  qed simp
  obtain y ys where "ss = y # ys" using mem [OF assms] by (cases ss) auto
  moreover from this have "select_max_seq T c = Some (fold max ys y)"
    by (simp add: select_max_seq_def ss_def [symmetric])
  ultimately show thesis
    using that bound mem by metis
qed

lemma dget_maxes:
  "dget (List.map_filter (\<lambda>c. map_option (Pair (Allocated c)) (f c)) cs) (Allocated c) = (if c \<in> set cs then f c else None)"
  by (induction cs) (auto simp: List.map_filter_simps split: option.splits)

end
