(* ===== verification/Chain_Positions.thy ===== *)
theory Chain_Positions
  imports Chain_Cover_Props
begin

text \<open>
  Allocation of positions in the chain cover index: it does not fail, and the new positions continue the
  chains of auth events without gaps and without taking a position twice.
\<close>

section \<open>One step\<close>

text \<open>
  The positions given so far, the greatest number of each chain in use, and the count of temporary chains.
  \<open>given\<close> says what holds for the position of one event, \<open>maximal\<close> what the maxima bound.
\<close>

type_synonym new_positions = "(string, chain_ref \<times> int) pydict"

definition given :: "auth_graph \<Rightarrow> (string, position) pydict \<Rightarrow> (string, position) pydict \<Rightarrow> int list \<Rightarrow> nat
    \<Rightarrow> new_positions \<Rightarrow> string \<Rightarrow> chain_ref \<Rightarrow> int \<Rightarrow> bool" where
  "given A P M ex n NT e c s \<longleftrightarrow>
     (case c of
        Temporary k \<Rightarrow> k < n
      | Allocated i \<Rightarrow> i \<in> set ex \<and> (\<forall>f t. dget P f = Some (i, t) \<longrightarrow> t < s))
     \<and> (s = 1 \<and> (\<exists>k. c = Temporary k)
        \<or> 1 < s \<and> (\<exists>a\<in>set (A e). dget NT a = Some (c, s - 1) \<or> (\<exists>i. c = Allocated i \<and> dget M a = Some (i, s - 1))))"

definition maximal :: "(string, position) pydict \<Rightarrow> int list \<Rightarrow> nat \<Rightarrow> new_positions \<Rightarrow> (chain_ref, int) pydict \<Rightarrow> bool" where
  "maximal P ex n NT X \<longleftrightarrow>
     (\<forall>k m. dget X (Temporary k) = Some m \<longrightarrow> k < n) \<and>
     (\<forall>e c s. dget NT e = Some (c, s) \<longrightarrow> (\<exists>m. dget X c = Some m \<and> s \<le> m))
     \<and> (\<forall>i\<in>set ex. \<exists>m. dget X (Allocated i) = Some m \<and> (\<forall>f t. dget P f = Some (i, t) \<longrightarrow> t \<le> m))"

definition alloc_inv :: "auth_graph \<Rightarrow> (string, position) pydict \<Rightarrow> (string, position) pydict \<Rightarrow> int list \<Rightarrow> string list
    \<Rightarrow> new_positions \<times> (chain_ref, int) pydict \<times> nat \<Rightarrow> bool" where
  "alloc_inv A P M ex D = (\<lambda>(NT, X, n).
     map fst NT = D \<and> maximal P ex n NT X
     \<and> (\<forall>e c s. dget NT e = Some (c, s) \<longrightarrow> given A P M ex n NT e c s)
     \<and> (\<forall>e f p. dget NT e = Some p \<longrightarrow> dget NT f = Some p \<longrightarrow> e = f))"

lemma given_pos: "given A P M ex n NT e c s \<Longrightarrow> 1 \<le> s"
  by (auto simp: given_def)

lemma given_later:
  assumes "given A P M ex n NT e c s" "n \<le> n'" "\<And>a p. dget NT a = Some p \<Longrightarrow> dget NT' a = Some p"
  shows "given A P M ex n' NT' e c s"
  using assms(1,2) assms(3) unfolding given_def by (cases c) (auto 4 3)

lemma maximalD:
  assumes "maximal P ex n NT X"
  shows "dget NT e = Some (c, s) \<Longrightarrow> \<exists>m. dget X c = Some m \<and> s \<le> m"
    "i \<in> set ex \<Longrightarrow> \<exists>m. dget X (Allocated i) = Some m"
    "i \<in> set ex \<Longrightarrow> dget X (Allocated i) = Some m \<Longrightarrow> dget P f = Some (i, t) \<Longrightarrow> t \<le> m"
  using assms unfolding maximal_def by (blast, blast, fastforce)

lemma maximal_temporary: "maximal P ex n NT X \<Longrightarrow> dget X (Temporary k) = Some m \<Longrightarrow> k < n"
  unfolding maximal_def by blast

text \<open>A new number on a chain, or a new chain, keeps the invariant.\<close>

lemma alloc_inv_add:
  assumes inv: "alloc_inv A P M ex D (NT, X, n)" and e: "e \<notin> set D" and n: "n \<le> n'"
    and new: "given A P M ex n' NT e c s" and above: "\<And>m. dget X c = Some m \<Longrightarrow> m < s"
  shows "alloc_inv A P M ex (D @ [e]) (dset e (c, s) NT, dset c s X, n')"
proof -
  have I: "map fst NT = D" "maximal P ex n NT X" "\<And>f c s. dget NT f = Some (c, s) \<Longrightarrow> given A P M ex n NT f c s"
    "\<And>f g p. dget NT f = Some p \<Longrightarrow> dget NT g = Some p \<Longrightarrow> f = g"
    using inv unfolding alloc_inv_def prod.case by blast+
  have "e \<notin> fst ` set NT" using e arg_cong [OF I(1), of set] by simp
  then have none: "dget NT e = None" by (simp add: map_of_eq_None_iff)
  have keys: "map fst (dset e (c, s) NT) = D @ [e]" using \<open>e \<notin> fst ` set NT\<close> by (simp add: dset_new I(1))
  have sub: "dget (dset e (c, s) NT) a = Some p" if "dget NT a = Some p" for a p
    using that none by auto
  have free: "dget NT f \<noteq> Some (c, s)" for f
    using maximalD(1) [OF I(2), of f c s] above by fastforce
  have M: "maximal P ex n' (dset e (c, s) NT) (dset c s X)"
    unfolding maximal_def
  proof (intro conjI allI impI ballI)
    fix f d t assume f: "dget (dset e (c, s) NT) f = Some (d, t)"
    show "\<exists>m. dget (dset c s X) d = Some m \<and> t \<le> m"
    proof (cases "f = e")
      case False
      then obtain m where m: "dget X d = Some m" "t \<le> m" using f maximalD(1) [OF I(2), of f d t] by auto
      then show ?thesis using above [of m] by (cases "d = c") auto
    qed (use f in simp)
  next
    fix k m assume "dget (dset c s X) (Temporary k) = Some m"
    then show "k < n'"
      using new n maximal_temporary [OF I(2), of k] by (cases "c = Temporary k") (auto simp: given_def)
  next
    fix i assume i: "i \<in> set ex"
    obtain m where m: "dget X (Allocated i) = Some m" using maximalD(2) [OF I(2) i] by blast
    have "t \<le> m" if "dget P f = Some (i, t)" for f t by (rule maximalD(3) [OF I(2) i m that])
    then show "\<exists>m. dget (dset c s X) (Allocated i) = Some m \<and> (\<forall>f t. dget P f = Some (i, t) \<longrightarrow> t \<le> m)"
      using m above [of m] by (cases "c = Allocated i") fastforce+
  qed
  have G: "given A P M ex n' (dset e (c, s) NT) f d t" if "dget (dset e (c, s) NT) f = Some (d, t)" for f d t
  proof (cases "f = e")
    case True
    then show ?thesis using that given_later [OF new order_refl sub] by auto
  next
    case False
    then show ?thesis using that given_later [OF I(3) n sub] by auto
  qed
  have U: "f = g" if "dget (dset e (c, s) NT) f = Some p" "dget (dset e (c, s) NT) g = Some p" for f g p
    using that I(4) free by (cases "f = e"; cases "g = e") auto
  show ?thesis
    unfolding alloc_inv_def prod.case using keys M G U by blast
qed

lemma allocate_step_correct:
  assumes P: "positions_ok A P" and M: "\<And>a p. dget M a = Some p \<Longrightarrow> dget P a = Some p"
    and inv: "alloc_inv A P M ex D (NT, X, n)" and e: "e \<notin> set D"
    and parent: "\<And>a. parent = Some a \<Longrightarrow> a \<in> set (A e) \<and> (dget M a = None \<longrightarrow> a \<in> set D)"
    and ex: "\<And>a c s. parent = Some a \<Longrightarrow> dget M a = Some (c, s) \<Longrightarrow> c \<in> set ex"
  obtains st where "allocate_step M (e, parent) (NT, X, n) = Inr st" "alloc_inv A P M ex (D @ [e]) st"
proof -
  have I: "map fst NT = D" "maximal P ex n NT X" "\<And>f c s. dget NT f = Some (c, s) \<Longrightarrow> given A P M ex n NT f c s"
    using inv unfolding alloc_inv_def prod.case by blast+
  have "dget X (Temporary n) = None"
    using maximal_temporary [OF I(2), of n] by (cases "dget X (Temporary n)") auto
  then have fresh: "alloc_inv A P M ex (D @ [e]) (dset e (Temporary n, 1) NT, dset (Temporary n) 1 X, Suc n)"
    by (intro alloc_inv_add [OF inv e]) (auto simp: given_def)
  note result = that
  have next_seq: thesis
    if pos: "existing_position M NT parent = Inr (Some (c, s))" and m: "dget X c = Some m"
      and ok: "m < s + 1 \<Longrightarrow> given A P M ex n NT e c (s + 1)" for c s m
  proof (cases "m < s + 1")
    case True
    have "alloc_inv A P M ex (D @ [e]) (dset e (c, s + 1) NT, dset c (s + 1) X, n)"
      by (rule alloc_inv_add [OF inv e order_refl ok [OF True]]) (use m True in simp)
    then show thesis using result pos m True by (auto simp: allocate_step_def)
  next
    case False
    then show thesis using result fresh pos m by (auto simp: allocate_step_def)
  qed
  show thesis
  proof (cases parent)
    case None
    then show thesis using that fresh by (auto simp: allocate_step_def existing_position_def)
  next
    case (Some a)
    show thesis
    proof (cases "dget NT a")
      case nt: (Some p)
      obtain c s where p: "p = (c, s)" by (cases p)
      have g: "given A P M ex n NT a c s" using I(3) nt p by simp
      obtain m where m: "dget X c = Some m" using maximalD(1) [OF I(2), of a c s] nt p by auto
      show thesis
      proof (rule next_seq [OF _ m])
        show "existing_position M NT parent = Inr (Some (c, s))" by (simp add: existing_position_def Some nt p)
        show "given A P M ex n NT e c (s + 1)"
          using g given_pos [OF g] parent [OF Some] nt p
          by (cases c) (fastforce simp: given_def)+
      qed
    next
      case None
      then have "a \<notin> set D" using arg_cong [OF I(1), of set] by (simp add: map_of_eq_None_iff)
      then obtain i s where a: "dget M a = Some (i, s)" using parent [OF Some] by (cases "dget M a") auto
      note i = ex [OF Some a]
      obtain m where m: "dget X (Allocated i) = Some m" using maximalD(2) [OF I(2) i] by blast
      show thesis
      proof (rule next_seq [OF _ m])
        show "existing_position M NT parent = Inr (Some (Allocated i, s))" by (simp add: existing_position_def Some None a)
        assume "m < s + 1"
        then show "given A P M ex n NT e (Allocated i) (s + 1)"
          using maximalD(3) [OF I(2) i m] position_pos [OF P M [OF a]] parent [OF Some] a i
          by (fastforce simp: given_def)
      qed
    qed
  qed
qed

section \<open>All steps\<close>

lemma allocate_steps:
  assumes P: "positions_ok A P" and M: "\<And>a p. dget M a = Some p \<Longrightarrow> dget P a = Some p"
    and inv: "alloc_inv A P M ex D st" and distinct: "distinct (D @ es)"
    and parent: "\<And>ys e zs a. D @ es = ys @ e # zs \<Longrightarrow> e \<in> set es \<Longrightarrow> pa e = Some a \<Longrightarrow> a \<in> set (A e) \<and> (dget M a = None \<longrightarrow> a \<in> set ys)"
    and ex: "\<And>e a c s. e \<in> set es \<Longrightarrow> pa e = Some a \<Longrightarrow> dget M a = Some (c, s) \<Longrightarrow> c \<in> set ex"
  shows "\<exists>st'. foldE (allocate_step M) (map (\<lambda>e. (e, pa e)) es) st = Inr st' \<and> alloc_inv A P M ex (D @ es) st'"
  using inv distinct parent ex
proof (induction es arbitrary: D st)
  case Nil
  then show ?case by simp
next
  case (Cons e es)
  obtain NT X n where st: "st = (NT, X, n)" by (cases st)
  have e: "e \<notin> set D" using Cons.prems(2) by simp
  have pe: "a \<in> set (A e) \<and> (dget M a = None \<longrightarrow> a \<in> set D)" if "pa e = Some a" for a
    by (rule Cons.prems(3) [OF refl _ that]) simp
  have xe: "c \<in> set ex" if "pa e = Some a" "dget M a = Some (c, s)" for a c s
    by (rule Cons.prems(4) [OF _ that]) simp
  obtain st1 where st1: "allocate_step M (e, pa e) st = Inr st1" "alloc_inv A P M ex (D @ [e]) st1"
    unfolding st by (rule allocate_step_correct [OF P M Cons.prems(1) [unfolded st] e pe xe])
  have "distinct ((D @ [e]) @ es)" using Cons.prems(2) by simp
  moreover have "a \<in> set (A f) \<and> (dget M a = None \<longrightarrow> a \<in> set ys)"
    if "(D @ [e]) @ es = ys @ f # zs" "f \<in> set es" "pa f = Some a" for ys f zs a
    by (rule Cons.prems(3) [OF _ _ that(3), of ys zs]) (use that(1,2) in simp_all)
  moreover have "c \<in> set ex" if "f \<in> set es" "pa f = Some a" "dget M a = Some (c, s)" for f a c s
    by (rule Cons.prems(4) [OF _ that(2,3)]) (simp add: that(1))
  ultimately have "\<exists>st'. foldE (allocate_step M) (map (\<lambda>e. (e, pa e)) es) st1 = Inr st' \<and> alloc_inv A P M ex ((D @ [e]) @ es) st'"
    by (intro Cons.IH [OF st1(2)])
  then show ?case using st1(1) by simp
qed

definition chain_id_of :: "int list \<Rightarrow> chain_ref \<Rightarrow> int" where
  "chain_id_of ids c = (case c of Allocated i \<Rightarrow> i | Temporary k \<Rightarrow> ids ! k)"

definition real_positions :: "int list \<Rightarrow> new_positions \<Rightarrow> (string, position) pydict" where
  "real_positions ids NT = map (\<lambda>(e, (c, s)). (e, (chain_id_of ids c, s))) NT"

lemma real_chains:
  assumes "\<And>e c s. (e, (c, s)) \<in> set NT \<Longrightarrow> real_chain ex ids c = Inr (chain_id_of ids c)"
  shows "foldE (\<lambda>(event_id, (c, s)) acc. bindE (real_chain ex ids c) (\<lambda>i. Inr (acc @ [(event_id, (i, s))]))) NT acc
    = Inr (acc @ real_positions ids NT)"
  using assms
proof (induction NT arbitrary: acc)
  case Nil
  then show ?case by (simp add: real_positions_def)
next
  case (Cons x NT)
  obtain e c s where x: "x = (e, (c, s))" by (cases x)
  have "real_chain ex ids c = Inr (chain_id_of ids c)" by (rule Cons.prems [of e c s]) (simp add: x)
  moreover have "foldE (\<lambda>(event_id, (c, s)) acc. bindE (real_chain ex ids c) (\<lambda>i. Inr (acc @ [(event_id, (i, s))]))) NT acc'
    = Inr (acc' @ real_positions ids NT)" for acc'
    by (rule Cons.IH) (use Cons.prems in auto)
  ultimately show ?case by (simp add: x real_positions_def)
qed

lemma dget_real_positions: "dget (real_positions ids NT) e = map_option (\<lambda>(c, s). (chain_id_of ids c, s)) (dget NT e)"
  by (induction NT) (auto simp: real_positions_def)

text \<open>Chains that were allocated are those of stored positions, so that no new id is one of them.\<close>

lemma chain_id_inj:
  assumes "chain_id_of ids c = chain_id_of ids d" "distinct ids"
    and "case c of Allocated i \<Rightarrow> i \<notin> set ids | Temporary k \<Rightarrow> k < length ids"
    and "case d of Allocated i \<Rightarrow> i \<notin> set ids | Temporary k \<Rightarrow> k < length ids"
  shows "c = d"
  using assms by (cases c; cases d) (auto simp: chain_id_of_def nth_eq_iff_index_eq)

lemma real_positions_ok:
  assumes P: "positions_ok A P" and ok: "calc_ok A P AC C M" and inv: "alloc_inv A P M ex D (NT, X, n)"
    and D: "distinct D" "set D = set C" and ids: "fresh_ids P next_ids"
    and ex: "\<And>i. i \<in> set ex \<Longrightarrow> \<exists>e s. dget P e = Some (i, s)"
  shows "positions_ok A (P @ real_positions (next_ids n) NT)" "dkeys (real_positions (next_ids n) NT) = D"
    "(e, (c, s)) \<in> set NT \<Longrightarrow> real_chain ex (next_ids n) c = Inr (chain_id_of (next_ids n) c)"
proof -
  let ?ids = "next_ids n"
  let ?new = "real_positions ?ids NT"
  have I: "map fst NT = D" "\<And>e c s. dget NT e = Some (c, s) \<Longrightarrow> given A P M ex n NT e c s"
    "\<And>f g p. dget NT f = Some p \<Longrightarrow> dget NT g = Some p \<Longrightarrow> f = g"
    using inv unfolding alloc_inv_def prod.case by blast+
  show keys: "dkeys ?new = D"
    by (simp add: dkeys_def real_positions_def I(1) [symmetric] case_prod_beta)
  have nt_ok: "dict_ok NT" using D(1) I(1) by (simp add: dict_ok_def)
  have "dget ?new e \<noteq> None \<longleftrightarrow> e \<in> set C" for e
    using dget_None_iff [of ?new e] keys D(2) by simp
  then have new_dom: "dget ?new e = None \<longleftrightarrow> e \<notin> set C" for e by blast
  have disjoint: "dget P e = None" if "e \<in> set C" for e by (rule calc_okD(4) [OF ok that])
  have get: "dget (P @ ?new) e = (if e \<in> set C then dget ?new e else dget P e)" for e
    using new_dom [of e] disjoint [of e] by (auto simp: map_add_def split: option.splits)
  have F: "length ?ids = n" "distinct ?ids" "dget P e = Some (c, s) \<Longrightarrow> c \<notin> set ?ids" for e c s
    using ids unfolding fresh_ids_def by blast+
  have ref: "case c of Allocated i \<Rightarrow> i \<notin> set ?ids | Temporary k \<Rightarrow> k < length ?ids"
    if "dget NT e = Some (c, s)" for e c s
    using I(2) [OF that] ex F by (cases c) (auto simp: given_def)
  show "real_chain ex ?ids c = Inr (chain_id_of ?ids c)" if "(e, (c, s)) \<in> set NT"
  proof -
    have "dget NT e = Some (c, s)" using that nt_ok by (simp add: dget_iff_mem)
    from I(2) [OF this] show ?thesis
      using F(1) by (cases c) (auto simp: given_def real_chain_def chain_id_of_def)
  qed
  have newD: "\<exists>r. dget NT e = Some (r, s) \<and> chain_id_of ?ids r = c" if "dget ?new e = Some (c, s)" for e c s
    using that by (auto simp: dget_real_positions)
  have mixed: False if e: "dget P e = Some (c, s)" and f: "dget ?new f = Some (c, s)" for e f c s
  proof -
    obtain r where r: "dget NT f = Some (r, s)" "chain_id_of ?ids r = c" using newD [OF f] by blast
    note g = I(2) [OF r(1)]
    show False
    proof (cases r)
      case (Allocated i)
      then show False using g r(2) e by (auto simp: given_def chain_id_of_def)
    next
      case (Temporary k)
      then have "c \<in> set ?ids" using g r(2) F(1) by (auto simp: given_def chain_id_of_def)
      then show False using F(3) [OF e] by blast
    qed
  qed
  have both: "e = f" if e: "dget ?new e = Some (c, s)" and f: "dget ?new f = Some (c, s)" for e f c s
  proof -
    obtain r q where r: "dget NT e = Some (r, s)" "chain_id_of ?ids r = c"
      and q: "dget NT f = Some (q, s)" "chain_id_of ?ids q = c"
      using newD [OF e] newD [OF f] by blast
    have "r = q" by (rule chain_id_inj [OF _ F(2) ref [OF r(1)] ref [OF q(1)]]) (simp add: r(2) q(2))
    then show ?thesis using I(3) r(1) q(1) by blast
  qed
  have "dict_ok (P @ ?new)"
  proof -
    have "set (dkeys P) \<inter> set (dkeys ?new) = {}"
      using disjoint keys D(2) dget_None_iff [of P] by auto
    then show ?thesis
      using positions_okD(1) [OF P] D(1) keys [symmetric] by (simp add: dict_ok_def dkeys_def)
  qed
  moreover have "e = f" if "dget (P @ ?new) e = Some p" "dget (P @ ?new) f = Some p" for e f p
  proof -
    obtain c s where p: "p = (c, s)" by (cases p)
    note ef = that [unfolded get p]
    show ?thesis
    proof (cases "e \<in> set C"; cases "f \<in> set C")
      assume "e \<in> set C" "f \<in> set C"
      then show ?thesis by (intro both [of e c s f]) (use ef in simp_all)
    next
      assume "e \<in> set C" "f \<notin> set C"
      then have False by (intro mixed [of f c s e]) (use ef in simp_all)
      then show ?thesis ..
    next
      assume "e \<notin> set C" "f \<in> set C"
      then have False by (intro mixed [of e c s f]) (use ef in simp_all)
      then show ?thesis ..
    next
      assume "e \<notin> set C" "f \<notin> set C"
      then show ?thesis by (intro positions_okD(2) [OF P, of e "(c, s)" f]) (use ef in simp_all)
    qed
  qed
  moreover have "s = 1 \<or> 1 < s \<and> (\<exists>a\<in>set (A e). dget (P @ ?new) a = Some (c, s - 1))"
    if pos: "dget (P @ ?new) e = Some (c, s)" for e c s
  proof (cases "e \<in> set C")
    case True
    then obtain r where r: "dget NT e = Some (r, s)" "chain_id_of ?ids r = c"
      using pos [unfolded get] newD [of e c s] by auto
    from I(2) [OF r(1)] consider "s = 1" | a where "1 < s" "a \<in> set (A e)" "dget NT a = Some (r, s - 1)"
      | a i where "1 < s" "a \<in> set (A e)" "r = Allocated i" "dget M a = Some (i, s - 1)"
      unfolding given_def by blast
    then show ?thesis
    proof cases
      case (2 a)
      then have "dget ?new a = Some (c, s - 1)" using r(2) by (simp add: dget_real_positions)
      moreover from this have "a \<in> set C" using new_dom [of a] by auto
      ultimately show ?thesis using 2 by (auto simp: get simp del: map_of_append)
    next
      case (3 a i)
      then have a: "dget P a = Some (c, s - 1)" using calc_okD(6) [OF ok] r(2) by (simp add: chain_id_of_def)
      moreover from this have "a \<notin> set C" using disjoint [of a] by auto
      ultimately show ?thesis using 3 by (auto simp: get simp del: map_of_append)
    qed simp
  next
    case False
    then have e: "dget P e = Some (c, s)" using pos [unfolded get] by simp
    have "dget (P @ ?new) a = Some q" if "dget P a = Some q" for a q
      using that disjoint [of a] by (auto simp: get simp del: map_of_append)
    then show ?thesis using positions_okD(3) [OF P e] by blast
  qed
  moreover have "dget (P @ ?new) a \<noteq> None" if e: "dget (P @ ?new) e \<noteq> None" and a: "a \<in> set (A e)" for e a
  proof (cases "a \<in> set C")
    case True
    then show ?thesis using new_dom [of a] by (auto simp: get simp del: map_of_append)
  next
    case outside: False
    show ?thesis
    proof (cases "e \<in> set C")
      case True
      then obtain q where "dget M a = Some q" using calc_okD(5) [OF ok True a] outside by blast
      then show ?thesis using calc_okD(6) [OF ok] outside by (simp add: get del: map_of_append)
    next
      case False
      then obtain p where "dget P e = Some p" using e by (auto simp: get simp del: map_of_append)
      then show ?thesis using positions_okD(4) [OF P _ a] outside by (auto simp: get simp del: map_of_append)
    qed
  qed
  ultimately show "positions_ok A (P @ ?new)"
    unfolding positions_ok_def by (intro conjI allI impI)
qed


section \<open>Allocation\<close>

lemma allocate_positions:
  assumes P: "positions_ok A (ct_chains T)" and ok: "calc_ok A (ct_chains T) AC C M" and wf: "wf (auth_edges A)"
    and ids: "fresh_ids (ct_chains T) next_ids"
  obtains new where "allocate_chain_ids T next_ids types AC C M = Inr new"
    "dkeys new = sorted_topologically C AC" "positions_ok A (ct_chains T @ new)"
proof -
  let ?P = "ct_chains T"
  define es where "es = sorted_topologically C AC"
  define pa where "pa = choose_parent types AC"
  note S = sorted_events [OF ok wf, folded es_def]
  obtain ex tr where fold: "fold (tree_step types AC M) es ([], []) = (ex, tr)" by fastforce
  note tree = tree_steps [OF fold, folded pa_def]
  have tr: "tr = map (\<lambda>e. (e, pa e)) es" and ex: "set ex = {c. \<exists>e\<in>set es. \<exists>a s. pa e = Some a \<and> dget M a = Some (c, s)}"
    using conjunct1 [OF tree] conjunct2 [OF tree] by simp_all
  define X where "X = List.map_filter (\<lambda>c. map_option (Pair (Allocated c)) (select_max_seq T c)) ex"
  have M: "dget ?P a = Some p" if "dget M a = Some p" for a p by (rule calc_okD(6) [OF ok that])
  have in_P: "\<exists>e s. dget ?P e = Some (i, s)" if "i \<in> set ex" for i
    using that M unfolding ex by blast
  have parent: "a \<in> set (A e) \<and> (dget M a = None \<longrightarrow> a \<in> set ys)"
    if "[] @ es = ys @ e # zs" "e \<in> set es" "pa e = Some a" for ys e zs a
  proof
    have "e \<in> set C" using that(2) S(2) by simp
    from choose_parent_auth [OF ok this] that(3) show a: "a \<in> set (A e)" by (simp add: pa_def)
    show "dget M a = None \<longrightarrow> a \<in> set ys"
      using S(3) [OF _ a, of ys zs] that(1) by simp
  qed
  have init: "alloc_inv A ?P M ex [] ([], X, 0)"
  proof -
    have X: "dget X (Allocated c) = (if c \<in> set ex then select_max_seq T c else None)" for c
      by (simp add: X_def dget_maxes)
    have "dget X (Temporary k) = None" for k
      by (auto simp: X_def map_of_eq_None_iff List.map_filter_def)
    moreover have "\<exists>m. dget X (Allocated i) = Some m \<and> (\<forall>f t. dget ?P f = Some (i, t) \<longrightarrow> t \<le> m)" if i: "i \<in> set ex" for i
    proof -
      obtain e s where e: "dget ?P e = Some (i, s)" using in_P [OF i] by blast
      obtain m where "select_max_seq T i = Some m" "\<And>e s. dget ?P e = Some (i, s) \<Longrightarrow> s \<le> m"
        using select_max_seq_bound [OF e] by blast
      then show ?thesis using i by (auto simp: X)
    qed
    ultimately show ?thesis by (simp add: alloc_inv_def maximal_def)
  qed
  have exs: "c \<in> set ex" if "e \<in> set es" "pa e = Some a" "dget M a = Some (c, s)" for e a c s
    unfolding ex using that by blast
  have "distinct ([] @ es)" using S(1) by simp
  have "\<exists>st. foldE (allocate_step M) (map (\<lambda>e. (e, pa e)) es) ([], X, 0) = Inr st \<and> alloc_inv A ?P M ex ([] @ es) st"
    by (rule allocate_steps [OF P M init \<open>distinct ([] @ es)\<close> parent exs])
  then obtain st where st: "foldE (allocate_step M) tr ([], X, 0) = Inr st" "alloc_inv A ?P M ex es st"
    unfolding tr append_Nil by blast
  obtain NT X' n where s: "st = (NT, X', n)" by (cases st)
  note R = real_positions_ok [OF P ok st(2) [unfolded s] S(1,2) ids in_P]
  let ?new = "real_positions (next_ids n) NT"
  have "allocate_chain_ids T next_ids types AC C M = Inr ?new"
    using fold st(1) real_chains [of NT ex "next_ids n" "[]", OF R(3)]
    by (simp add: allocate_chain_ids_def es_def X_def s)
  then show thesis
    using that R(1,2) unfolding es_def by blast
qed

end
