(* ===== verification/Chain_Links.thy ===== *)
theory Chain_Links
  imports Chain_Positions
begin

text \<open>
  The links of new events in the chain cover index: none is missing, although those to auth events that
  other auth events reach are left out.
\<close>

section \<open>Loops that do not fail\<close>

lemma foldE_succeeds:
  assumes "I s" "\<And>x s. x \<in> set xs \<Longrightarrow> I s \<Longrightarrow> \<exists>s'. f x s = Inr s' \<and> I s'"
  shows "\<exists>s'. foldE f xs s = Inr s' \<and> I s'"
  using assms
proof (induction xs arbitrary: s)
  case Nil
  then show ?case by simp
next
  case (Cons x xs)
  obtain s1 where s1: "f x s = Inr s1" "I s1" using Cons.prems(2) [of x s] Cons.prems(1) by auto
  have "\<exists>s'. foldE f xs s1 = Inr s' \<and> I s'"
    by (rule Cons.IH [OF s1(2)], rule Cons.prems(2)) simp_all
  then show ?case using s1(1) by simp
qed

section \<open>Loading the stored links\<close>

definition rows_of :: "links \<Rightarrow> link set" where
  "rows_of links = {(c, s, t, u). \<exists>l. (c, l) \<in> set links \<and> (s, t, u) \<in> set l}"

lemma rows_of_add_row: "rows_of (add_row r links) \<subseteq> insert r (rows_of links)"
proof
  fix x assume x: "x \<in> rows_of (add_row r links)"
  obtain c s t u where r: "r = (c, s, t, u)" by (cases r)
  obtain c' y l where y: "x = (c', y)" "(c', l) \<in> set (add_row r links)" "y \<in> set l"
    using x by (cases x) (auto simp: rows_of_def)
  define old where "old = (case dget links c of None \<Rightarrow> [] | Some l \<Rightarrow> l)"
  have "(c', l) = (c, old @ [(s, t, u)]) \<or> (c', l) \<in> set links"
    using y(2) dset_members [of "(c', l)" c "old @ [(s, t, u)]" links] by (simp add: add_row_def r old_def)
  moreover have "(c, old) \<in> set links" if "y \<in> set old"
    using that by (auto simp: old_def split: option.splits dest: map_of_SomeD)
  ultimately show "x \<in> insert r (rows_of links)"
    using y(1,3) by (cases y) (auto simp: rows_of_def r)
qed

lemma rows_of_fold: "rows_of (fold add_row rows links) \<subseteq> set rows \<union> rows_of links"
proof (induction rows arbitrary: links)
  case (Cons r rows)
  show ?case using Cons [of "add_row r links"] rows_of_add_row [of r links] by auto
qed simp

lemma rows_of_select: "rows_of (select_links rows batch) \<subseteq> set rows"
  using rows_of_fold [of "filter (\<lambda>(c, _). c \<in> set (reach_chains rows batch)) rows" "[]"]
  by (auto simp: select_links_def Let_def rows_of_def [of "[]"])

lemma rows_of_get_chain_links: "links \<in> set (get_chain_links rows cs) \<Longrightarrow> rows_of links \<subseteq> set rows"
proof (induction rows cs rule: get_chain_links.induct)
  case (1 rows cs)
  show ?case
  proof (cases "cs = []")
    case True
    then show ?thesis using 1(2) by (simp add: get_chain_links.simps)
  next
    case False
    then have "links = select_links rows (take LINKS_BATCH cs) \<or> links \<in> set (get_chain_links rows
        (filter (\<lambda>c. c \<notin> set (dkeys (select_links rows (take LINKS_BATCH cs)))) (drop LINKS_BATCH cs)))"
      using 1(2) by (subst (asm) get_chain_links.simps) (simp add: Let_def)
    then show ?thesis using 1(1) [OF False refl refl] rows_of_select by blast
  qed
qed

lemma load_links_succeeds:
  assumes batches: "\<And>links. links \<in> set lls \<Longrightarrow> rows_of links \<subseteq> R"
    and apart: "\<And>c s t u. (c, s, t, u) \<in> R \<Longrightarrow> c \<noteq> t" and init: "link_set (lm_maps lm) \<subseteq> R"
  shows "\<exists>lm'. load_links lls lm = Inr lm' \<and> link_set (lm_maps lm') \<subseteq> R"
  unfolding load_links_def
proof (rule foldE_succeeds [where I = "\<lambda>lm :: link_map. link_set (lm_maps lm) \<subseteq> R", OF init])
  fix links and lm1 :: link_map assume links: "links \<in> set lls" and lm1: "link_set (lm_maps lm1) \<subseteq> R"
  show "\<exists>lm'. foldE (\<lambda>(c, inner). foldE (load_link c) inner) links lm1 = Inr lm' \<and> link_set (lm_maps lm') \<subseteq> R"
  proof (rule foldE_succeeds [where I = "\<lambda>lm :: link_map. link_set (lm_maps lm) \<subseteq> R", OF lm1])
    fix x and lm2 :: link_map assume x: "x \<in> set links" and lm2: "link_set (lm_maps lm2) \<subseteq> R"
    obtain c inner where ci: "x = (c, inner)" by (cases x)
    have "\<exists>lm'. foldE (load_link c) inner lm2 = Inr lm' \<and> link_set (lm_maps lm') \<subseteq> R"
    proof (rule foldE_succeeds [where I = "\<lambda>lm :: link_map. link_set (lm_maps lm) \<subseteq> R", OF lm2])
      fix y and lm3 :: link_map assume y: "y \<in> set inner" and lm3: "link_set (lm_maps lm3) \<subseteq> R"
      obtain s t u where stu: "y = (s, t, u)" by (cases y)
      have "(c, s, t, u) \<in> rows_of links" using x y by (auto simp: rows_of_def ci stu)
      then have mem: "(c, s, t, u) \<in> R" using batches [OF links] by blast
      obtain b lm' where "add_chain_link (c, s) (t, u) False lm3 = Inr (b, lm')"
        "link_set (lm_maps lm') \<subseteq> insert (c, s, t, u) (link_set (lm_maps lm3))"
        using add_link_succeeds [of "(c, s)" "(t, u)" False lm3] apart [OF mem] by auto
      then show "\<exists>lm'. load_link c y lm3 = Inr lm' \<and> link_set (lm_maps lm') \<subseteq> R"
        using mem lm3 by (auto simp: load_link_def stu)
    qed
    then show "\<exists>lm'. (\<lambda>(c, inner). foldE (load_link c) inner) x lm2 = Inr lm' \<and> link_set (lm_maps lm') \<subseteq> R"
      by (simp add: ci)
  qed
qed

section \<open>The reduction\<close>

lemma set_permutations2: "distinct xs \<Longrightarrow> set (permutations2 xs) = {(a, b). a \<in> set xs \<and> b \<in> set xs \<and> a \<noteq> b}"
proof -
  assume d: "distinct xs"
  have "(a, b) \<in> set (permutations2 xs) \<longleftrightarrow> (\<exists>i<length xs. \<exists>j<length xs. j \<noteq> i \<and> a = xs ! i \<and> b = xs ! j)" for a b
    by (auto simp: permutations2_def)
  also have "\<dots> a b \<longleftrightarrow> a \<in> set xs \<and> b \<in> set xs \<and> a \<noteq> b" for a b
    using d by (auto simp: in_set_conv_nth nth_eq_iff_index_eq)
  finally show ?thesis by auto
qed

lemma reduction_start:
  assumes "\<And>a. a \<in> set xs \<Longrightarrow> \<exists>p. dget CM a = Some p"
  shows "\<exists>red. foldE (\<lambda>a acc. bindE (optE KeyError (dget CM a)) (\<lambda>(c, _). Inr (if c \<noteq> chain then set_add a acc else acc))) xs acc
      = Inr red \<and> set red = set acc \<union> {a \<in> set xs. \<forall>c s. dget CM a = Some (c, s) \<longrightarrow> c \<noteq> chain}"
  using assms
proof (induction xs arbitrary: acc)
  case Nil
  then show ?case by simp
next
  case (Cons a xs)
  obtain c s where a: "dget CM a = Some (c, s)" using Cons.prems [of a] by auto
  define acc1 where "acc1 = (if c \<noteq> chain then set_add a acc else acc)"
  have set1: "set acc1 = set acc \<union> (if c \<noteq> chain then {a} else {})"
    by (auto simp: acc1_def set_add_def)
  have "\<exists>red. foldE (\<lambda>a acc. bindE (optE KeyError (dget CM a)) (\<lambda>(c, _). Inr (if c \<noteq> chain then set_add a acc else acc))) xs acc1
      = Inr red \<and> set red = set acc1 \<union> {a \<in> set xs. \<forall>c s. dget CM a = Some (c, s) \<longrightarrow> c \<noteq> chain}"
    by (rule Cons.IH, rule Cons.prems) simp
  then show ?case using a unfolding set1 by (auto simp: acc1_def)
qed

definition reaches :: "(string, position) pydict \<Rightarrow> link_maps \<Rightarrow> string \<Rightarrow> string \<Rightarrow> bool" where
  "reaches CM maps a b \<longleftrightarrow> (\<exists>p q. dget CM a = Some p \<and> dget CM b = Some q \<and> exists_path_from maps p q)"

lemma reduction_steps:
  assumes "\<And>a b. (a, b) \<in> set xs \<Longrightarrow> \<exists>p q. dget CM a = Some p \<and> dget CM b = Some q"
  shows "\<exists>red'. foldE (reduce_step CM maps) xs red = Inr red'
    \<and> set red' = {b \<in> set red. \<forall>a. (a, b) \<in> set xs \<longrightarrow> \<not> reaches CM maps a b}"
  using assms
proof (induction xs arbitrary: red)
  case Nil
  then show ?case by simp
next
  case (Cons x xs)
  obtain a b where x: "x = (a, b)" by (cases x)
  obtain p q where pq: "dget CM a = Some p" "dget CM b = Some q" using Cons.prems [of a b] by (auto simp: x)
  define red1 where "red1 = (if reaches CM maps a b then filter (\<lambda>c. c \<noteq> b) red else red)"
  have step: "reduce_step CM maps x red = Inr red1" by (simp add: reduce_step_def x pq red1_def reaches_def)
  have "\<exists>red'. foldE (reduce_step CM maps) xs red1 = Inr red'
      \<and> set red' = {b \<in> set red1. \<forall>a. (a, b) \<in> set xs \<longrightarrow> \<not> reaches CM maps a b}"
    by (rule Cons.IH, rule Cons.prems) simp
  then obtain red' where red': "foldE (reduce_step CM maps) xs red1 = Inr red'"
    "set red' = {b \<in> set red1. \<forall>a. (a, b) \<in> set xs \<longrightarrow> \<not> reaches CM maps a b}" by blast
  have "set red' = {b \<in> set red. \<forall>a. (a, b) \<in> set (x # xs) \<longrightarrow> \<not> reaches CM maps a b}"
    unfolding red'(2) x red1_def by auto
  then show ?case using step red'(1) by simp
qed

lemma auth_reduction_correct:
  assumes total: "\<And>a. a \<in> set auths \<Longrightarrow> \<exists>p. dget CM a = Some p" and distinct: "distinct auths"
  obtains red where "auth_reduction CM maps chain auths = Inr red" "set red \<subseteq> set auths"
    "\<forall>b\<in>set red. \<forall>q. dget CM b = Some q \<longrightarrow> fst q \<noteq> chain"
    "\<forall>b\<in>set auths. \<forall>q. b \<notin> set red \<longrightarrow> dget CM b = Some q \<longrightarrow> fst q \<noteq> chain
      \<longrightarrow> (\<exists>a. a \<in> set auths \<and> a \<noteq> b \<and> reaches CM maps a b)"
proof -
  obtain r0 where r0: "foldE (\<lambda>a acc. bindE (optE KeyError (dget CM a)) (\<lambda>(c, _). Inr (if c \<noteq> chain then set_add a acc else acc))) auths []
      = Inr r0" "set r0 = set [] \<union> {a \<in> set auths. \<forall>c s. dget CM a = Some (c, s) \<longrightarrow> c \<noteq> chain}"
    using reduction_start [of auths CM chain "[]", OF total] by blast
  have "\<exists>p q. dget CM a = Some p \<and> dget CM b = Some q" if "(a, b) \<in> set (permutations2 auths)" for a b
    using that total unfolding set_permutations2 [OF distinct] by blast
  from reduction_steps [of "permutations2 auths" CM maps r0, OF this] obtain red where
    red: "foldE (reduce_step CM maps) (permutations2 auths) r0 = Inr red"
    "set red = {b \<in> set r0. \<forall>a. (a, b) \<in> set (permutations2 auths) \<longrightarrow> \<not> reaches CM maps a b}"
    by blast
  show thesis
  proof (rule that)
    show "auth_reduction CM maps chain auths = Inr red"
      using r0(1) red(1) by (simp add: auth_reduction_def)
    show "set red \<subseteq> set auths" using r0(2) red(2) by auto
    show "\<forall>b\<in>set red. \<forall>q. dget CM b = Some q \<longrightarrow> fst q \<noteq> chain"
      using r0(2) red(2) by auto
    show "\<forall>b\<in>set auths. \<forall>q. b \<notin> set red \<longrightarrow> dget CM b = Some q \<longrightarrow> fst q \<noteq> chain
      \<longrightarrow> (\<exists>a. a \<in> set auths \<and> a \<noteq> b \<and> reaches CM maps a b)"
    proof (intro ballI allI impI)
      fix b q assume b: "b \<in> set auths" "b \<notin> set red" "dget CM b = Some q" "fst q \<noteq> chain"
      have "b \<in> set r0" using b r0(2) by auto
      then obtain a where "(a, b) \<in> set (permutations2 auths)" "reaches CM maps a b"
        using b(2) unfolding red(2) by auto
      then show "\<exists>a. a \<in> set auths \<and> a \<noteq> b \<and> reaches CM maps a b" unfolding set_permutations2 [OF distinct] by blast
    qed
  qed
qed

section \<open>The links of one event\<close>

text \<open>The links that are returned so far.\<close>

definition returned :: "new_links \<Rightarrow> link set" where
  "returned tr = {(c, s, t, u). \<exists>e l. dget tr e = Some ((c, s), l) \<and> (t, u) \<in> set l}"

definition event_links :: "(string, position) pydict \<Rightarrow> position \<Rightarrow> string list \<Rightarrow> link set" where
  "event_links CM pos red = (\<lambda>a. (fst pos, snd pos, the (dget CM a))) ` set red"

lemma new_link_steps:
  assumes "\<And>a. a \<in> set red \<Longrightarrow> \<exists>q. dget CM a = Some q \<and> fst q \<noteq> fst pos" "dget tr e = Some (pos, l)"
  shows "\<exists>tr' lm'. foldE (new_link_step CM e pos) red (tr, lm) = Inr (tr', lm')
    \<and> dkeys tr' = dkeys tr \<and> dget tr' = (dget tr)(e \<mapsto> (pos, l @ map (\<lambda>a. the (dget CM a)) red))
    \<and> link_set (lm_maps lm') \<subseteq> link_set (lm_maps lm) \<union> event_links CM pos red"
  using assms
proof (induction red arbitrary: tr lm l)
  case Nil
  then show ?case by auto
next
  case (Cons a red)
  obtain q where q: "dget CM a = Some q" "fst q \<noteq> fst pos" using Cons.prems(1) [of a] by auto
  obtain b lm1 where lm1: "add_chain_link pos q True lm = Inr (b, lm1)"
    "link_set (lm_maps lm1) \<subseteq> insert (fst pos, snd pos, q) (link_set (lm_maps lm))"
    using add_link_succeeds [of pos q True lm] q(2) by auto
  let ?tr = "dset e (pos, l @ [q]) tr"
  have step: "new_link_step CM e pos a (tr, lm) = Inr (?tr, lm1)"
    by (simp add: new_link_step_def q(1) Cons.prems(2) lm1(1))
  have "e \<in> set (dkeys tr)" using Cons.prems(2) dget_None_iff [of tr e] by simp
  then have keys: "dkeys ?tr = dkeys tr" by (simp add: dkeys_def dset_def update_keys)
  have "\<exists>tr' lm'. foldE (new_link_step CM e pos) red (?tr, lm1) = Inr (tr', lm')
    \<and> dkeys tr' = dkeys ?tr \<and> dget tr' = (dget ?tr)(e \<mapsto> (pos, (l @ [q]) @ map (\<lambda>a. the (dget CM a)) red))
    \<and> link_set (lm_maps lm') \<subseteq> link_set (lm_maps lm1) \<union> event_links CM pos red"
    by (rule Cons.IH, rule Cons.prems(1)) simp_all
  then obtain tr' lm' where res: "foldE (new_link_step CM e pos) red (?tr, lm1) = Inr (tr', lm')"
    "dkeys tr' = dkeys ?tr" "dget tr' = (dget ?tr)(e \<mapsto> (pos, (l @ [q]) @ map (\<lambda>a. the (dget CM a)) red))"
    "link_set (lm_maps lm') \<subseteq> link_set (lm_maps lm1) \<union> event_links CM pos red"
    by (elim exE conjE)
  have "dget tr' = (dget tr)(e \<mapsto> (pos, l @ map (\<lambda>a. the (dget CM a)) (a # red)))"
    using res(3) by (simp add: q(1))
  moreover have "link_set (lm_maps lm') \<subseteq> link_set (lm_maps lm) \<union> event_links CM pos (a # red)"
  proof -
    have "event_links CM pos (a # red) = insert (fst pos, snd pos, q) (event_links CM pos red)"
      by (simp add: event_links_def q(1))
    then show ?thesis using res(4) lm1(2) by blast
  qed
  moreover have "dkeys tr' = dkeys tr" using res(2) keys by simp
  moreover have "foldE (new_link_step CM e pos) (a # red) (tr, lm) = Inr (tr', lm')"
    using step res(1) by simp
  ultimately show ?case by (intro exI conjI)
qed

section \<open>Every auth event is reached\<close>

definition links_lead :: "auth_graph \<Rightarrow> (string, position) pydict \<Rightarrow> link set \<Rightarrow> bool" where
  "links_lead A P L \<longleftrightarrow> (\<forall>(c, ss, tc, ts)\<in>L. c \<noteq> tc
     \<and> (\<exists>x y. dget P x = Some (c, ss) \<and> dget P y = Some (tc, ts) \<and> y \<in> set (A x)))"

definition links_reach :: "auth_graph \<Rightarrow> (string, position) pydict \<Rightarrow> link set \<Rightarrow> string \<Rightarrow> bool" where
  "links_reach A P L e \<longleftrightarrow> (\<forall>a p q. dget P e = Some p \<longrightarrow> a \<in> set (A e) \<longrightarrow> dget P a = Some q \<longrightarrow> chain_path L p q)"

lemma links_ok_parts: "links_ok A P L \<longleftrightarrow> links_lead A P L \<and> (\<forall>e. links_reach A P L e)"
  unfolding links_ok_def links_lead_def links_reach_def by (rule arg_cong2 [of _ _ _ _ "(\<and>)"]) (rule refl)+

lemma links_lead_paths:
  assumes "positions_ok A P" "links_lead A P L" "chain_path L p q" "dget P e = Some p" "dget P f = Some q"
  shows "f \<in> auth_chain_of A e"
  by (rule path_is_auth_chain [OF assms(1) _ assms(3-5)]) (use assms(2) in \<open>auto simp: links_lead_def\<close>)

text \<open>An auth event on the chain of the event comes before it.\<close>

lemma own_chain_below:
  assumes P: "positions_ok A P" and wf: "wf (auth_edges A)" and e: "dget P e = Some (c, s)"
    and a: "a \<in> set (A e)" "dget P a = Some (c, t)"
  shows "t \<le> s"
proof (rule ccontr)
  assume "\<not> t \<le> s"
  then have "s \<le> t" by simp
  from chain_below [OF P a(2) position_pos [OF P e] this] obtain f where
    f: "dget P f = Some (c, s)" "f \<in> auth_chain_of A a" by blast
  have "f = e" by (rule positions_okD(2) [OF P f(1) e])
  then have "(e, a) \<in> (auth_edges A)\<^sup>*" "(a, e) \<in> auth_edges A"
    using f(2) a(1) by (simp_all add: auth_chain_of_def auth_edges_def)
  then have "(a, a) \<in> (auth_edges A)\<^sup>+" by (rule rtrancl_into_trancl2 [rotated])
  then show False using wf_acyclic [OF wf] by (simp add: acyclic_def)
qed

text \<open>
  The auth events that are left out are reached from other auth events, and as these are later, some that
  is not left out reaches them in the end.
\<close>

lemma reduced_reach:
  assumes P: "positions_ok A P" and wf: "wf (auth_edges A)" and e: "dget P e = Some p"
    and lead: "links_lead A P L" and sub: "L \<subseteq> L'"
    and red: "\<And>a q. a \<in> set red \<Longrightarrow> dget P a = Some q \<Longrightarrow> (fst p, snd p, q) \<in> L'"
    and dropped: "\<And>a q. a \<in> set (A e) \<Longrightarrow> a \<notin> set red \<Longrightarrow> dget P a = Some q \<Longrightarrow> fst q \<noteq> fst p
      \<Longrightarrow> \<exists>b r. b \<in> set (A e) \<and> b \<noteq> a \<and> dget P b = Some r \<and> chain_path L r q"
  shows "links_reach A P L' e"
proof -
  define R where "R = {(b, a). a \<in> set (A e) \<and> b \<in> set (A e) \<and> (a, b) \<in> (auth_edges A)\<^sup>+}"
  have "finite R" by (rule finite_subset [of _ "set (A e) \<times> set (A e)"]) (auto simp: R_def)
  moreover have "acyclic ((auth_edges A)\<^sup>+)" using wf_acyclic [OF wf] by (simp add: acyclic_def)
  then have "acyclic (((auth_edges A)\<^sup>+)\<inverse>)" by simp
  then have "acyclic R" by (rule acyclic_subset) (auto simp: R_def)
  ultimately have wfR: "wf R" by (rule finite_acyclic_wf)
  have "a \<in> set (A e) \<longrightarrow> (\<forall>q. dget P a = Some q \<longrightarrow> chain_path L' p q)" for a
  proof (induction a rule: wf_induct_rule [OF wfR])
    case (1 a)
    show ?case
    proof (intro impI allI)
      fix q assume a: "a \<in> set (A e)" and q: "dget P a = Some q"
      obtain c s where p: "p = (c, s)" by (cases p)
      obtain d t where dt: "q = (d, t)" by (cases q)
      show "chain_path L' p q"
      proof (cases "d = c")
        case True
        then have "t \<le> s" using own_chain_below [OF P wf, of e c s a t] e a q by (simp add: p dt)
        then show ?thesis using True by (simp add: p dt chain_path.within)
      next
        case False
        show ?thesis
        proof (cases "a \<in> set red")
          case True
          then have "(c, s, d, t) \<in> L'" using red [OF True q] by (simp add: p dt)
          then show ?thesis unfolding p dt by (rule chain_path.along) (simp_all add: chain_path.within)
        next
          case out: False
          obtain b r where b: "b \<in> set (A e)" "b \<noteq> a" "dget P b = Some r" "chain_path L r q"
            using dropped [OF a out q] False unfolding p dt fst_conv by blast
          have "a \<in> auth_chain_of A b" by (rule links_lead_paths [OF P lead b(4,3) q])
          then have "(a, b) \<in> (auth_edges A)\<^sup>+"
            using b(2) by (auto simp: auth_chain_of_def rtrancl_eq_or_trancl)
          then have "(b, a) \<in> R" using a b(1) by (simp add: R_def)
          then have "chain_path L' p r" using 1 b(1,3) by blast
          then show ?thesis by (rule chain_path_trans [OF _ chain_path_mono [OF b(4) sub]])
        qed
      qed
    qed
  qed
  then show ?thesis unfolding links_reach_def using e by auto
qed


section \<open>All events\<close>

text \<open>What the loop over the new events keeps.\<close>

definition linking :: "auth_graph \<Rightarrow> (string, position) pydict \<Rightarrow> (string, position) pydict \<Rightarrow> link set
    \<Rightarrow> new_links \<times> link_map \<Rightarrow> bool" where
  "linking A Q new L0 = (\<lambda>(tr, lm).
     dkeys tr = dkeys new \<and> (\<forall>e. map_option fst (dget tr e) = dget new e)
     \<and> link_set (lm_maps lm) \<subseteq> L0 \<union> returned tr \<and> links_lead A Q (L0 \<union> returned tr))"

lemma returned_update:
  assumes "dget tr e = Some (pos, l)" "dget tr' = (dget tr)(e \<mapsto> (pos, l @ map (\<lambda>a. the (dget CM a)) red))"
  shows "returned tr' = returned tr \<union> event_links CM pos red"
proof -
  have "(c, s, t, u) \<in> returned tr' \<longleftrightarrow> (c, s, t, u) \<in> returned tr \<or> (c, s, t, u) \<in> event_links CM pos red" for c s t u
  proof -
    have split: "(\<exists>f. F f) \<longleftrightarrow> (\<exists>f. f \<noteq> e \<and> F f) \<or> F e" for F :: "string \<Rightarrow> bool" by metis
    have "(c, s, t, u) \<in> returned tr' \<longleftrightarrow> (\<exists>f. f \<noteq> e \<and> (\<exists>k. dget tr f = Some ((c, s), k) \<and> (t, u) \<in> set k))
        \<or> pos = (c, s) \<and> (t, u) \<in> set (l @ map (\<lambda>a. the (dget CM a)) red)"
      unfolding returned_def assms(2) mem_Collect_eq prod.case by (subst split) auto
    moreover have "(c, s, t, u) \<in> returned tr \<longleftrightarrow> (\<exists>f. f \<noteq> e \<and> (\<exists>k. dget tr f = Some ((c, s), k) \<and> (t, u) \<in> set k))
        \<or> pos = (c, s) \<and> (t, u) \<in> set l"
      unfolding returned_def mem_Collect_eq prod.case by (subst split) (auto simp: assms(1))
    moreover have "(c, s, t, u) \<in> event_links CM pos red \<longleftrightarrow> pos = (c, s) \<and> (t, u) \<in> set (map (\<lambda>a. the (dget CM a)) red)"
      by (cases pos) (auto simp: event_links_def image_iff)
    ultimately show ?thesis by auto
  qed
  then show ?thesis by auto
qed

lemma link_event_correct:
  assumes Q: "positions_ok A Q" and wf: "wf (auth_edges A)" and inv: "linking A Q new L0 (tr, lm)"
    and e: "dget new e = Some pos" "dget CM e = Some pos" "dget Q e = Some pos" "dget AC e = Some (A e)" "distinct (A e)"
    and auths: "\<And>a. a \<in> set (A e) \<Longrightarrow> \<exists>q. dget CM a = Some q \<and> dget Q a = Some q"
  obtains tr' lm' where "link_event CM AC e (tr, lm) = Inr (tr', lm')" "linking A Q new L0 (tr', lm')"
    "returned tr \<subseteq> returned tr'" "links_reach A Q (L0 \<union> returned tr') e"
proof -
  let ?L = "L0 \<union> returned tr"
  note I = inv [unfolded linking_def prod.case]
  note keys = conjunct1 [OF I] and vals = conjunct1 [OF conjunct2 [OF I]]
  note sub = conjunct1 [OF conjunct2 [OF conjunct2 [OF I]]] and lead = conjunct2 [OF conjunct2 [OF conjunct2 [OF I]]]
  obtain x where "dget tr e = Some x" "fst x = pos" using spec [OF vals, of e] e(1) by auto
  then obtain l where l: "dget tr e = Some (pos, l)" by (cases x) simp
  have total: "\<exists>q. dget CM a = Some q" if "a \<in> set (A e)" for a using auths [OF that] by blast
  obtain red where red: "auth_reduction CM (lm_maps lm) (fst pos) (A e) = Inr red"
    and redsub: "set red \<subseteq> set (A e)"
    and own: "\<forall>b\<in>set red. \<forall>q. dget CM b = Some q \<longrightarrow> fst q \<noteq> fst pos"
    and dropped: "\<forall>b\<in>set (A e). \<forall>q. b \<notin> set red \<longrightarrow> dget CM b = Some q \<longrightarrow> fst q \<noteq> fst pos
      \<longrightarrow> (\<exists>a. a \<in> set (A e) \<and> a \<noteq> b \<and> reaches CM (lm_maps lm) a b)"
    by (rule auth_reduction_correct [OF total e(5), of "lm_maps lm" "fst pos"])
  have redQ: "\<exists>q. dget CM a = Some q \<and> fst q \<noteq> fst pos" if "a \<in> set red" for a
    using auths [of a] own redsub that by blast
  have "\<exists>tr' lm'. foldE (new_link_step CM e pos) red (tr, lm) = Inr (tr', lm')
    \<and> dkeys tr' = dkeys tr \<and> dget tr' = (dget tr)(e \<mapsto> (pos, l @ map (\<lambda>a. the (dget CM a)) red))
    \<and> link_set (lm_maps lm') \<subseteq> link_set (lm_maps lm) \<union> event_links CM pos red"
    by (rule new_link_steps [OF redQ l])
  then obtain tr' lm' where res: "foldE (new_link_step CM e pos) red (tr, lm) = Inr (tr', lm')"
    "dkeys tr' = dkeys tr" "dget tr' = (dget tr)(e \<mapsto> (pos, l @ map (\<lambda>a. the (dget CM a)) red))"
    "link_set (lm_maps lm') \<subseteq> link_set (lm_maps lm) \<union> event_links CM pos red"
    by (elim exE conjE)
  note ret = returned_update [OF l res(3)]
  have linkE: "link_event CM AC e (tr, lm) = Inr (tr', lm')"
    using e(2,4) red res(1) by (simp add: link_event_def Let_def)
  have lead': "links_lead A Q (L0 \<union> returned tr')"
    unfolding links_lead_def
  proof (intro ballI, clarify)
    fix c ss tc ts assume "(c, ss, tc, ts) \<in> L0 \<union> returned tr'"
    then consider "(c, ss, tc, ts) \<in> ?L" | "(c, ss, tc, ts) \<in> event_links CM pos red" using ret by blast
    then show "c \<noteq> tc \<and> (\<exists>x y. dget Q x = Some (c, ss) \<and> dget Q y = Some (tc, ts) \<and> y \<in> set (A x))"
    proof cases
      case 1
      from bspec [OF lead [unfolded links_lead_def] this] show ?thesis by simp
    next
      case 2
      then obtain a where a: "a \<in> set red" "(c, ss, tc, ts) = (fst pos, snd pos, the (dget CM a))"
        unfolding event_links_def by blast
      obtain q where q: "dget CM a = Some q" "fst q \<noteq> fst pos" using redQ [OF a(1)] by blast
      have "a \<in> set (A e)" using redsub a(1) by blast
      moreover from auths [OF this] q(1) have "dget Q a = Some q" by auto
      ultimately show ?thesis
        using a(2) q e(3) by (intro conjI exI [of _ e] exI [of _ a]) auto
    qed
  qed
  have "map_option fst (dget tr' f) = dget new f" for f
    using spec [OF vals, of f] l by (auto simp: res(3))
  moreover have "link_set (lm_maps lm') \<subseteq> L0 \<union> returned tr'" using res(4) sub ret by blast
  ultimately have inv': "linking A Q new L0 (tr', lm')"
    using res(2) keys lead' by (simp add: linking_def)
  have "links_reach A Q (L0 \<union> returned tr') e"
  proof (rule reduced_reach [OF Q wf e(3) lead])
    show "?L \<subseteq> L0 \<union> returned tr'" using ret by blast
    show "(fst pos, snd pos, q) \<in> L0 \<union> returned tr'" if a: "a \<in> set red" "dget Q a = Some q" for a q
    proof -
      have "a \<in> set (A e)" using redsub a(1) by blast
      from auths [OF this] a(2) have "dget CM a = Some q" by auto
      then show ?thesis using a(1) ret by (force simp: event_links_def)
    qed
    show "\<exists>b r. b \<in> set (A e) \<and> b \<noteq> a \<and> dget Q b = Some r \<and> chain_path ?L r q"
      if a: "a \<in> set (A e)" "a \<notin> set red" "dget Q a = Some q" "fst q \<noteq> fst pos" for a q
    proof -
      have CMa: "dget CM a = Some q" using auths [OF a(1)] a(3) by auto
      obtain b where b: "b \<in> set (A e)" "b \<noteq> a" "reaches CM (lm_maps lm) b a" using dropped a(1,2) CMa a(4) by blast
      obtain r where r: "dget CM b = Some r" "dget Q b = Some r" using auths [OF b(1)] by blast
      have "exists_path_from (lm_maps lm) r q" using b(3) r(1) CMa by (simp add: reaches_def)
      then have "chain_path ?L r q"
        by (rule chain_path_mono [OF exists_path_from_sound sub])
      then show ?thesis using b(1,2) r(2) by blast
    qed
  qed
  then show thesis using that linkE inv' ret by blast
qed

lemma link_events_correct:
  assumes Q: "positions_ok A Q" and wf: "wf (auth_edges A)" and inv: "linking A Q new L0 (tr, lm)"
    and e: "\<And>e. e \<in> set es \<Longrightarrow> \<exists>p. dget new e = Some p \<and> dget CM e = Some p \<and> dget Q e = Some p"
      "\<And>e. e \<in> set es \<Longrightarrow> dget AC e = Some (A e) \<and> distinct (A e)"
    and auths: "\<And>e a. e \<in> set es \<Longrightarrow> a \<in> set (A e) \<Longrightarrow> \<exists>q. dget CM a = Some q \<and> dget Q a = Some q"
  shows "\<exists>tr' lm'. foldE (link_event CM AC) es (tr, lm) = Inr (tr', lm') \<and> linking A Q new L0 (tr', lm')
    \<and> returned tr \<subseteq> returned tr' \<and> (\<forall>e\<in>set es. links_reach A Q (L0 \<union> returned tr') e)"
  using inv e auths
proof (induction es arbitrary: tr lm)
  case Nil
  then show ?case by simp
next
  case (Cons e es)
  obtain p where p: "dget new e = Some p" "dget CM e = Some p" "dget Q e = Some p"
    using Cons.prems(2) [of e] by auto
  have ac: "dget AC e = Some (A e)" "distinct (A e)" using Cons.prems(3) [of e] by simp_all
  have au: "\<exists>q. dget CM a = Some q \<and> dget Q a = Some q" if "a \<in> set (A e)" for a
    by (rule Cons.prems(4) [OF _ that]) simp
  obtain tr1 lm1 where one: "link_event CM AC e (tr, lm) = Inr (tr1, lm1)" "linking A Q new L0 (tr1, lm1)"
    "returned tr \<subseteq> returned tr1" "links_reach A Q (L0 \<union> returned tr1) e"
    by (rule link_event_correct [OF Q wf Cons.prems(1) p ac au])
  have "\<exists>tr' lm'. foldE (link_event CM AC) es (tr1, lm1) = Inr (tr', lm') \<and> linking A Q new L0 (tr', lm')
    \<and> returned tr1 \<subseteq> returned tr' \<and> (\<forall>e\<in>set es. links_reach A Q (L0 \<union> returned tr') e)"
  proof (rule Cons.IH [OF one(2)])
    show "\<exists>p. dget new f = Some p \<and> dget CM f = Some p \<and> dget Q f = Some p" if "f \<in> set es" for f
      by (rule Cons.prems(2)) (simp add: that)
    show "dget AC f = Some (A f) \<and> distinct (A f)" if "f \<in> set es" for f
      by (rule Cons.prems(3)) (simp add: that)
    show "\<exists>q. dget CM a = Some q \<and> dget Q a = Some q" if "f \<in> set es" "a \<in> set (A f)" for f a
      by (rule Cons.prems(4) [OF _ that(2)]) (simp add: that)
  qed
  then obtain tr' lm' where rest: "foldE (link_event CM AC) es (tr1, lm1) = Inr (tr', lm')" "linking A Q new L0 (tr', lm')"
    "returned tr1 \<subseteq> returned tr'" "\<forall>e\<in>set es. links_reach A Q (L0 \<union> returned tr') e"
    by (elim exE conjE)
  have "L0 \<union> returned tr1 \<subseteq> L0 \<union> returned tr'" using rest(3) by blast
  then have "links_reach A Q (L0 \<union> returned tr') e"
    using one(4) chain_path_mono unfolding links_reach_def by blast
  then have "\<forall>f\<in>set (e # es). links_reach A Q (L0 \<union> returned tr') f" using rest(4) by simp
  moreover have "foldE (link_event CM AC) (e # es) (tr, lm) = Inr (tr', lm')" using one(1) rest(1) by simp
  moreover have "returned tr \<subseteq> returned tr'" using one(3) rest(3) by blast
  ultimately show ?case using rest(2) by (intro exI conjI)
qed

end
