(* ===== verification/Chain_Index.thy ===== *)
theory Chain_Index
  imports Chain_Links
begin

text \<open>
  Storing state events keeps the chain cover index right: the events to index are found, those whose auth
  events are not indexed are deferred, and the others get positions and links.
\<close>

section \<open>Positions and links of the events to index\<close>

lemma dict_eqI:
  assumes "map fst xs = map fst ys" "distinct (map fst xs)" "\<And>k. dget xs k = dget ys k"
  shows "xs = ys"
proof (rule nth_equalityI)
  show len: "length xs = length ys" using assms(1) by (rule map_eq_imp_length_eq)
  fix i assume i: "i < length xs"
  have fst: "fst (xs ! i) = fst (ys ! i)" using arg_cong [OF assms(1), of "\<lambda>l. l ! i"] i len by simp
  have "dget xs (fst (xs ! i)) = Some (snd (xs ! i))" using assms(2) i by simp
  moreover have "dget ys (fst (ys ! i)) = Some (snd (ys ! i))" using assms(1,2) i len by simp
  ultimately have "snd (xs ! i) = snd (ys ! i)" using assms(3) [of "fst (xs ! i)"] fst by simp
  with fst show "xs ! i = ys ! i" by (simp add: prod_eq_iff)
qed

text \<open>The last part of \<open>_calculate_chain_cover_index\<close>.\<close>

definition index_new_events :: "chain_tables \<Rightarrow> (nat \<Rightarrow> int list) \<Rightarrow> (string, string \<times> string) pydict
    \<Rightarrow> (string, string list) pydict \<Rightarrow> string list \<Rightarrow> (string, position) pydict \<Rightarrow> new_links res" where
  "index_new_events T next_ids types AC C M =
     bindE (allocate_chain_ids T next_ids types AC C M) (\<lambda>new.
       bindE (load_links (get_chain_links (ct_links T) (remdups (map fst (dvalues (dupdate M new))))) new_link_map) (\<lambda>lm.
         bindE (foldE (link_event (dupdate M new) AC) (sorted_topologically C AC) (map (\<lambda>(e, pos). (e, (pos, []))) new, lm))
           (\<lambda>(links, _). Inr links)))"

lemma dget_unlinked: "dget (map (\<lambda>(e, pos). (e, (pos, []))) new) e = map_option (\<lambda>pos. (pos, [])) (dget new e)"
  by (induction new) auto

lemma dkeys_unlinked: "dkeys (map (\<lambda>(e, pos). (e, (pos, []))) new) = dkeys new"
  by (simp add: dkeys_def case_prod_beta)

lemma links_ok_more:
  assumes P: "positions_ok A P" and L: "links_ok A P L" and sub: "\<And>e p. dget P e = Some p \<Longrightarrow> dget Q e = Some p"
  shows "links_lead A Q L" and "dget P e \<noteq> None \<Longrightarrow> L \<subseteq> L' \<Longrightarrow> links_reach A Q L' e"
proof -
  have lead: "links_lead A P L" and reach: "links_reach A P L e" using L by (simp_all add: links_ok_parts)
  show "links_lead A Q L"
    unfolding links_lead_def
  proof (intro ballI, clarify)
    fix c ss tc ts assume "(c, ss, tc, ts) \<in> L"
    from bspec [OF lead [unfolded links_lead_def] this] show "c \<noteq> tc
        \<and> (\<exists>x y. dget Q x = Some (c, ss) \<and> dget Q y = Some (tc, ts) \<and> y \<in> set (A x))"
      using sub by fastforce
  qed
  assume e: "dget P e \<noteq> None" and sub': "L \<subseteq> L'"
  show "links_reach A Q L' e"
    unfolding links_reach_def
  proof (intro allI impI)
    fix a p q assume Qe: "dget Q e = Some p" and a: "a \<in> set (A e)" and Qa: "dget Q a = Some q"
    obtain p' where p': "dget P e = Some p'" using e by blast
    obtain q' where q': "dget P a = Some q'" using positions_okD(4) [OF P p' a] by blast
    have "p' = p" "q' = q" using sub [OF p'] sub [OF q'] Qe Qa by simp_all
    then have "chain_path L p q" using reach p' q' a unfolding links_reach_def by blast
    then show "chain_path L' p q" by (rule chain_path_mono [OF _ sub'])
  qed
qed

lemma index_events_correct:
  assumes P: "positions_ok A (ct_chains T)" and L: "links_ok A (ct_chains T) (set (ct_links T))"
    and ok: "calc_ok A (ct_chains T) AC C M" and wf: "wf (auth_edges A)" and ids: "fresh_ids (ct_chains T) next_ids"
    and auths: "\<And>e. e \<in> set C \<Longrightarrow> distinct (A e)"
  obtains links where "index_new_events T next_ids types AC C M = Inr links" "dict_ok links" "set (dkeys links) = set C"
    "positions_ok A (ct_chains T @ map (\<lambda>(e, (pos, _)). (e, pos)) links)"
    "links_ok A (ct_chains T @ map (\<lambda>(e, (pos, _)). (e, pos)) links) (set (ct_links T) \<union> returned links)"
proof -
  let ?P = "ct_chains T" and ?L = "set (ct_links T)"
  obtain new where new: "allocate_chain_ids T next_ids types AC C M = Inr new"
    "dkeys new = sorted_topologically C AC" "positions_ok A (?P @ new)"
    by (rule allocate_positions [OF P ok wf ids])
  note S = sorted_events [OF ok wf]
  let ?Q = "?P @ new" and ?CM = "dupdate M new"
  have new_dict: "dict_ok new" using S(1) new(2) by (simp add: dict_ok_def dkeys_def)
  have new_dom: "dget new e = None \<longleftrightarrow> e \<notin> set C" for e
    using dget_None_iff [of new e] new(2) S(2) by simp
  have Q: "dget ?Q e = (if e \<in> set C then dget new e else dget ?P e)" for e
    using new_dom [of e] calc_okD(4) [OF ok, of e] by (auto simp: map_add_def split: option.splits)
  have CM: "dget ?CM e = (if e \<in> set C then dget new e else dget M e)" for e
    using new_dom [of e] by (auto simp: dget_dupdate_ok [OF new_dict] map_add_def split: option.splits)
  have PQ: "dget ?Q e = Some p" if "dget ?P e = Some p" for e p
    unfolding Q using that calc_okD(4) [OF ok, of e] by auto
  have lead0: "links_lead A ?P ?L" using L by (simp add: links_ok_parts)
  have "\<exists>lm. load_links (get_chain_links (ct_links T) (remdups (map fst (dvalues ?CM)))) new_link_map = Inr lm
      \<and> link_set (lm_maps lm) \<subseteq> ?L"
  proof (rule load_links_succeeds)
    show "rows_of links \<subseteq> ?L" if "links \<in> set (get_chain_links (ct_links T) cs)" for links cs
      by (rule rows_of_get_chain_links [OF that])
    show "c \<noteq> t" if "(c, s, t, u) \<in> ?L" for c s t u
      using bspec [OF lead0 [unfolded links_lead_def] that] by simp
    show "link_set (lm_maps new_link_map) \<subseteq> ?L"
      by (auto simp: new_link_map_def link_set_def chain_items_def inner_map_def)
  qed
  then obtain lm where lm: "load_links (get_chain_links (ct_links T) (remdups (map fst (dvalues ?CM)))) new_link_map = Inr lm"
    "link_set (lm_maps lm) \<subseteq> ?L" by blast
  let ?tr = "map (\<lambda>(e, pos). (e, (pos, []))) new :: new_links"
  have ret0: "returned ?tr = {}" by (auto simp: returned_def dget_unlinked)
  have init: "linking A ?Q new ?L (?tr, lm)"
    unfolding linking_def prod.case ret0 Un_empty_right
  proof (intro conjI allI)
    show "map_option fst (dget ?tr e) = dget new e" for e
      by (simp add: dget_unlinked option.map_comp comp_def option.map_ident)
  qed (use lm(2) dkeys_unlinked links_ok_more(1) [OF P L PQ] in simp_all)
  have inC: "e \<in> set C" if "e \<in> set (sorted_topologically C AC)" for e using that S(2) by simp
  have "\<exists>tr' lm'. foldE (link_event ?CM AC) (sorted_topologically C AC) (?tr, lm) = Inr (tr', lm')
    \<and> linking A ?Q new ?L (tr', lm') \<and> returned ?tr \<subseteq> returned tr'
    \<and> (\<forall>e\<in>set (sorted_topologically C AC). links_reach A ?Q (?L \<union> returned tr') e)"
  proof (rule link_events_correct [OF new(3) wf init])
    show "\<exists>p. dget new e = Some p \<and> dget ?CM e = Some p \<and> dget ?Q e = Some p"
      if "e \<in> set (sorted_topologically C AC)" for e
      using new_dom [of e] inC [OF that] unfolding Q CM by auto
    show "dget AC e = Some (A e) \<and> distinct (A e)" if "e \<in> set (sorted_topologically C AC)" for e
      using calc_okD(3) [OF ok inC [OF that]] auths [OF inC [OF that]] by simp
    show "\<exists>q. dget ?CM a = Some q \<and> dget ?Q a = Some q"
      if e: "e \<in> set (sorted_topologically C AC)" and a: "a \<in> set (A e)" for e a
    proof (cases "a \<in> set C")
      case True
      then show ?thesis using new_dom [of a] unfolding Q CM by auto
    next
      case False
      then obtain q where "dget M a = Some q" using calc_okD(5) [OF ok inC [OF e] a] by (cases "dget M a") auto
      then show ?thesis using False calc_okD(6) [OF ok, of a q] unfolding Q CM by auto
    qed
  qed
  then obtain tr' lm' where tr': "foldE (link_event ?CM AC) (sorted_topologically C AC) (?tr, lm) = Inr (tr', lm')"
    and inv: "linking A ?Q new ?L (tr', lm')"
    and reach: "\<forall>e\<in>set (sorted_topologically C AC). links_reach A ?Q (?L \<union> returned tr') e"
    by (elim exE conjE)
  note I = inv [unfolded linking_def prod.case]
  note keys = conjunct1 [OF I] and vals = conjunct1 [OF conjunct2 [OF I]]
  have eq: "map (\<lambda>(e, (pos, _)). (e, pos)) tr' = new"
  proof (rule dict_eqI)
    show fst: "map fst (map (\<lambda>(e, (pos, _)). (e, pos)) tr') = map fst new"
      using keys by (simp add: dkeys_def comp_def case_prod_beta)
    show "distinct (map fst (map (\<lambda>(e, (pos, _)). (e, pos)) tr'))"
      unfolding fst using new_dict by (simp add: dict_ok_def)
    have "dget (map (\<lambda>(e, (pos, _)). (e, pos)) tr) k = map_option fst (dget tr k)" for k and tr :: new_links
      by (induction tr) auto
    then show "dget (map (\<lambda>(e, (pos, _)). (e, pos)) tr') k = dget new k" for k
      using spec [OF vals, of k] by simp
  qed
  have "links_reach A ?Q (?L \<union> returned tr') e" for e
  proof (cases "e \<in> set C")
    case True
    then show ?thesis using reach S(2) by simp
  next
    case False
    show ?thesis
    proof (cases "dget ?P e")
      case None
      then show ?thesis using False unfolding links_reach_def Q by simp
    next
      case (Some p)
      then show ?thesis using links_ok_more(2) [OF P L PQ, of e] by simp
    qed
  qed
  then have "links_ok A ?Q (?L \<union> returned tr')"
    using inv by (simp add: links_ok_parts linking_def)
  moreover have "index_new_events T next_ids types AC C M = Inr tr'"
    using new(1) lm(1) tr' by (simp add: index_new_events_def)
  moreover have "dict_ok tr'" "set (dkeys tr') = set C"
    using keys new_dict new(2) S(2) by (simp_all add: dict_ok_def dkeys_def)
  ultimately show thesis
    using that [of tr'] new(3) by (simp add: eq)
qed


section \<open>The events to index\<close>

text \<open>
  What the local variables satisfy while the auth events are fetched: \<open>N\<close> are the new events, \<open>K\<close> those that
  are known to be indexed if possible. Every auth event of an event to index is one too, or has a position,
  or will be looked up, or is not stored.
\<close>

definition locals_ok :: "auth_graph \<Rightarrow> chain_tables \<Rightarrow> string set \<Rightarrow> string set \<Rightarrow> index_locals \<Rightarrow> bool" where
  "locals_ok A T N K v \<longleftrightarrow> distinct (il_to_calc v) \<and> dict_ok (il_auth_chain v)
     \<and> (\<forall>e. dget (il_auth_chain v) e = (if e \<in> set (il_to_calc v) then Some (A e) else None))
     \<and> (\<forall>e\<in>set (il_to_calc v). dget (ct_chains T) e = None \<and> dget (il_types v) e \<noteq> None \<and> (e \<in> N \<or> dget (ct_state T) e \<noteq> None))
     \<and> (\<forall>a p. dget (il_chain_map v) a = Some p \<longrightarrow> dget (ct_chains T) a = Some p)
     \<and> (\<forall>e. dget (il_types v) e \<noteq> None \<longrightarrow> e \<in> set (il_to_calc v) \<or> dget (il_chain_map v) e \<noteq> None)
     \<and> K \<subseteq> set (il_to_calc v)"

definition auths_known :: "auth_graph \<Rightarrow> chain_tables \<Rightarrow> index_locals \<Rightarrow> string set \<Rightarrow> bool" where
  "auths_known A T v U \<longleftrightarrow> (\<forall>e\<in>set (il_to_calc v). \<forall>a\<in>set (A e).
     a \<in> set (il_to_calc v) \<or> dget (il_chain_map v) a \<noteq> None \<or> a \<in> U \<or> dget (ct_state T) a = None)"

lemma locals_okD:
  assumes "locals_ok A T N K v"
  shows "distinct (il_to_calc v)" "dict_ok (il_auth_chain v)"
    "dget (il_auth_chain v) e = (if e \<in> set (il_to_calc v) then Some (A e) else None)"
    "e \<in> set (il_to_calc v) \<Longrightarrow> dget (ct_chains T) e = None"
    "e \<in> set (il_to_calc v) \<Longrightarrow> dget (il_types v) e \<noteq> None"
    "e \<in> set (il_to_calc v) \<Longrightarrow> e \<in> N \<or> dget (ct_state T) e \<noteq> None"
    "dget (il_chain_map v) a = Some p \<Longrightarrow> dget (ct_chains T) a = Some p"
    "dget (il_types v) e \<noteq> None \<Longrightarrow> e \<in> set (il_to_calc v) \<or> dget (il_chain_map v) e \<noteq> None"
    "K \<subseteq> set (il_to_calc v)"
proof -
  note D1 = assms [unfolded locals_ok_def]
  note D2 = conjunct2 [OF D1]
  note D3 = conjunct2 [OF D2]
  note D4 = conjunct2 [OF D3]
  note D5 = conjunct2 [OF D4]
  note D6 = conjunct2 [OF D5]
  note E = conjunct1 [OF D4]
  show "distinct (il_to_calc v)" by (rule conjunct1 [OF D1])
  show "dict_ok (il_auth_chain v)" by (rule conjunct1 [OF D2])
  show "dget (il_auth_chain v) e = (if e \<in> set (il_to_calc v) then Some (A e) else None)" by (rule spec [OF conjunct1 [OF D3]])
  show "dget (ct_chains T) e = None" if "e \<in> set (il_to_calc v)" by (rule conjunct1 [OF bspec [OF E that]])
  show "dget (il_types v) e \<noteq> None" if "e \<in> set (il_to_calc v)" by (rule conjunct1 [OF conjunct2 [OF bspec [OF E that]]])
  show "e \<in> N \<or> dget (ct_state T) e \<noteq> None" if "e \<in> set (il_to_calc v)" by (rule conjunct2 [OF conjunct2 [OF bspec [OF E that]]])
  show "dget (ct_chains T) a = Some p" if "dget (il_chain_map v) a = Some p" by (rule mp [OF spec [OF spec [OF conjunct1 [OF D5]]] that])
  show "e \<in> set (il_to_calc v) \<or> dget (il_chain_map v) e \<noteq> None" if "dget (il_types v) e \<noteq> None"
    by (rule mp [OF spec [OF conjunct1 [OF D6]] that])
  show "K \<subseteq> set (il_to_calc v)" by (rule conjunct2 [OF D6])
qed

lemma rows_okD:
  assumes "rows_ok A T"
  shows "select_auth T e = (if dget (ct_state T) e = None then [] else A e)"
    "dget (ct_chains T) e \<noteq> None \<Longrightarrow> dget (ct_state T) e \<noteq> None"
    "dget (ct_to_calculate T) e \<noteq> None \<Longrightarrow> dget (ct_state T) e \<noteq> None \<and> dget (ct_chains T) e = None"
    "dget (ct_state T) e \<noteq> None \<Longrightarrow> dget (ct_chains T) e \<noteq> None \<or> dget (ct_to_calculate T) e \<noteq> None"
proof -
  note D1 = assms [unfolded rows_ok_def]
  note D2 = conjunct2 [OF D1]
  note D3 = conjunct2 [OF D2]
  show "select_auth T e = (if dget (ct_state T) e = None then [] else A e)" by (rule spec [OF conjunct1 [OF D1]])
  show "dget (ct_chains T) e \<noteq> None \<Longrightarrow> dget (ct_state T) e \<noteq> None" by (rule mp [OF spec [OF conjunct1 [OF D2]]])
  show "dget (ct_to_calculate T) e \<noteq> None \<Longrightarrow> dget (ct_state T) e \<noteq> None \<and> dget (ct_chains T) e = None"
    by (rule mp [OF spec [OF conjunct1 [OF D3]]])
  show "dget (ct_state T) e \<noteq> None \<Longrightarrow> dget (ct_chains T) e \<noteq> None \<or> dget (ct_to_calculate T) e \<noteq> None"
    by (rule mp [OF spec [OF conjunct2 [OF D3]]])
qed

lemma auths_known_mono:
  assumes "auths_known A T v U" "\<And>a. a \<in> U \<Longrightarrow> dget (ct_state T) a \<noteq> None \<Longrightarrow> a \<in> U'"
  shows "auths_known A T v U'"
  unfolding auths_known_def
proof (intro ballI)
  fix e a assume e: "e \<in> set (il_to_calc v)" and a: "a \<in> set (A e)"
  note K = bspec [OF bspec [OF assms(1) [unfolded auths_known_def] e] a]
  show "a \<in> set (il_to_calc v) \<or> dget (il_chain_map v) a \<noteq> None \<or> a \<in> U' \<or> dget (ct_state T) a = None"
  proof (cases "dget (ct_state T) a")
    case None
    then show ?thesis by simp
  next
    case (Some x)
    then have "dget (ct_state T) a \<noteq> None" by simp
    then show ?thesis using K assms(2) [of a] by argo
  qed
qed

text \<open>A stored event without position is added.\<close>

lemma locals_add_event:
  assumes ok: "locals_ok A T N K v" and rows: "rows_ok A T"
    and e: "dget (ct_state T) e \<noteq> None" "dget (ct_chains T) e = None"
  shows "locals_ok A T N (insert e K) (v\<lparr>il_to_calc := set_add e (il_to_calc v), il_types := dset e ty (il_types v),
    il_auth_chain := dset e (select_auth T e) (il_auth_chain v)\<rparr>)"
proof -
  have A: "select_auth T e = A e" using rows_okD(1) [OF rows, of e] e(1) by simp
  note V = locals_okD [OF ok]
  show ?thesis
    unfolding locals_ok_def using V e by (auto simp: set_add_def A)
qed

text \<open>The position of a stored event is found.\<close>

lemma locals_add_position:
  assumes ok: "locals_ok A T N K v" and a: "dget (ct_chains T) a = Some p"
  shows "locals_ok A T N K (v\<lparr>il_types := dset a ty (il_types v), il_chain_map := dset a p (il_chain_map v)\<rparr>)"
proof -
  note V = locals_okD [OF ok]
  show ?thesis
    unfolding locals_ok_def using V a by auto
qed


lemma locals_less:
  assumes "locals_ok A T N K v" "K' \<subseteq> K"
  shows "locals_ok A T N K' v"
  using assms unfolding locals_ok_def by (elim conjE, intro conjI) (assumption | blast)+

text \<open>The deferred events of the rooms.\<close>

lemma locals_add_deferred:
  assumes "locals_ok A T N K v" "rows_ok A T" "\<And>r. r \<in> set rows \<Longrightarrow> dget (ct_to_calculate T) (fst r) \<noteq> None"
  shows "locals_ok A T N (K \<union> fst ` set rows) (fold (add_deferred T) rows v)
    \<and> il_chain_map (fold (add_deferred T) rows v) = il_chain_map v"
  using assms(1,3)
proof (induction rows arbitrary: v K)
  case Nil
  then show ?case by simp
next
  case (Cons r rows)
  obtain e room ty k where r: "r = (e, room, ty, k)" by (cases r)
  have e: "dget (ct_state T) e \<noteq> None" "dget (ct_chains T) e = None"
    using rows_okD(3) [OF assms(2), of e] Cons.prems(2) [of r] by (simp_all add: r)
  let ?v = "add_deferred T r v"
  have v1: "locals_ok A T N (insert e K) ?v" "il_chain_map ?v = il_chain_map v"
    using locals_add_event [OF Cons.prems(1) assms(2) e, of "(ty, k)"] by (simp_all add: add_deferred_def r)
  have "\<And>r. r \<in> set rows \<Longrightarrow> dget (ct_to_calculate T) (fst r) \<noteq> None" using Cons.prems(2) by simp
  from Cons.IH [OF v1(1) this] show ?case by (simp add: v1(2)) (simp add: r)
qed

text \<open>One row of a query, and one query.\<close>

lemma fetch_row_ok:
  assumes ok: "locals_ok A T N K v" and rows: "rows_ok A T" and a: "dget (ct_state T) (fst r) \<noteq> None"
    and known: "auths_known A T v (insert (fst r) R \<union> set m)" and res: "fetch_row T r (v, m) = (v', m')"
  shows "locals_ok A T N K v'" "auths_known A T v' (R \<union> set m')"
proof -
  obtain a ty k where r: "r = (a, ty, k)" by (cases r)
  note V = locals_okD [OF ok]
  show "locals_ok A T N K v'" "auths_known A T v' (R \<union> set m')"
  proof (atomize (full), cases "dget (ct_chains T) a")
    case None
    let ?types = "dset a (ty, k) (il_types v)"
    have v': "v' = v\<lparr>il_to_calc := set_add a (il_to_calc v), il_types := ?types,
        il_auth_chain := dset a (select_auth T a) (il_auth_chain v)\<rparr>"
      and m': "m' = set_union m (filter (\<lambda>e. dget ?types e = None) (select_auth T a))"
      using res None by (auto simp: fetch_row_def r Let_def)
    have A: "select_auth T a = A a" using rows_okD(1) [OF rows, of a] a by (cases "dget (ct_state T) a") (simp_all add: r)
    have "locals_ok A T N (insert a K) v'"
      unfolding v' by (rule locals_add_event [OF ok rows]) (use a None in \<open>simp_all add: r\<close>)
    then have "locals_ok A T N K v'" by (rule locals_less) blast
    moreover have "auths_known A T v' (R \<union> set m')"
      unfolding auths_known_def
    proof (intro ballI)
      fix e b assume e: "e \<in> set (il_to_calc v')" and b: "b \<in> set (A e)"
      have calc: "set (il_to_calc v') = insert a (set (il_to_calc v))" "il_chain_map v' = il_chain_map v"
        by (auto simp: v' set_add_def)
      have m: "set m' = set m \<union> {x \<in> set (A a). dget ?types x = None}"
        by (auto simp: m' A set_set_union)
      consider "e \<in> set (il_to_calc v)" | "e = a" using e unfolding calc by blast
      then show "b \<in> set (il_to_calc v') \<or> dget (il_chain_map v') b \<noteq> None \<or> b \<in> R \<union> set m' \<or> dget (ct_state T) b = None"
      proof cases
        case 1
        from bspec [OF bspec [OF known [unfolded auths_known_def] this] b] show ?thesis
          unfolding calc m by (elim disjE) (auto simp: r)
      next
        case 2
        then show ?thesis using V(8) [of b] b unfolding calc m by (cases "dget ?types b") (auto split: if_splits)
      qed
    qed
    ultimately show "locals_ok A T N K v' \<and> auths_known A T v' (R \<union> set m')" ..
  next
    case (Some p)
    have v': "v' = v\<lparr>il_types := dset a (ty, k) (il_types v), il_chain_map := dset a p (il_chain_map v)\<rparr>" and m': "m' = m"
      using res Some by (simp_all add: fetch_row_def r Let_def)
    have "locals_ok A T N K v'" unfolding v' by (rule locals_add_position [OF ok Some])
    moreover have "auths_known A T v' (R \<union> set m')"
      unfolding auths_known_def
    proof (intro ballI)
      fix e b assume e: "e \<in> set (il_to_calc v')" and b: "b \<in> set (A e)"
      have "e \<in> set (il_to_calc v)" using e by (simp add: v')
      from bspec [OF bspec [OF known [unfolded auths_known_def] this] b]
      show "b \<in> set (il_to_calc v') \<or> dget (il_chain_map v') b \<noteq> None \<or> b \<in> R \<union> set m' \<or> dget (ct_state T) b = None"
        by (elim disjE) (auto simp: v' m' r)
    qed
    ultimately show "locals_ok A T N K v' \<and> auths_known A T v' (R \<union> set m')" ..
  qed
qed

lemma fetch_rows_ok:
  assumes "locals_ok A T N K v" "rows_ok A T" "\<And>r. r \<in> set rows \<Longrightarrow> dget (ct_state T) (fst r) \<noteq> None"
    "auths_known A T v (fst ` set rows \<union> set m)" "fold (fetch_row T) rows (v, m) = (v', m')"
  shows "locals_ok A T N K v' \<and> auths_known A T v' (set m')"
  using assms(1,3-5)
proof (induction rows arbitrary: v m)
  case Nil
  then show ?case by simp
next
  case (Cons r rows)
  obtain v1 m1 where step: "fetch_row T r (v, m) = (v1, m1)" by fastforce
  have "auths_known A T v (insert (fst r) (fst ` set rows) \<union> set m)" using Cons.prems(3) by simp
  note one = fetch_row_ok [OF Cons.prems(1) assms(2) Cons.prems(2) this step]
  show ?case
  proof (rule Cons.IH)
    show "locals_ok A T N K v1" "auths_known A T v1 (fst ` set rows \<union> set m1)" using one by simp_all
    show "fold (fetch_row T) rows (v1, m1) = (v', m')" using Cons.prems(4) step by simp
    show "dget (ct_state T) (fst r) \<noteq> None" if "r \<in> set rows" for r using Cons.prems(2) that by simp
  qed
qed

lemma fetch_missing_ok:
  assumes "locals_ok A T N K v" "rows_ok A T" "auths_known A T v (set missing)"
  shows "locals_ok A T N K (fetch_missing T (v, missing)) \<and> auths_known A T (fetch_missing T (v, missing)) {}"
  using assms
proof (induction T "(v, missing)" arbitrary: v missing rule: fetch_missing.induct)
  case (1 T v missing)
  show ?case
  proof (cases "missing = []")
    case True
    then show ?thesis using 1(2,4) by (simp add: fetch_missing.simps [of T v])
  next
    case False
    obtain v' m' where round: "fetch_round T (v, missing) = (v', m')" by fastforce
    have rows: "fold (fetch_row T) (fetch_rows_of T missing) (v, []) = (v', m')"
      using round by (simp add: fetch_round_def)
    have stored: "dget (ct_state T) (fst r) \<noteq> None" if "r \<in> set (fetch_rows_of T missing)" for r
      using that weak_map_of_SomeI [of "fst r" "snd r" "ct_state T"] by (auto simp: fetch_rows_of_def)
    have "a \<in> fst ` set (fetch_rows_of T missing)" if "a \<in> set missing" "dget (ct_state T) a \<noteq> None" for a
      using that map_of_SomeD [of "ct_state T" a] by (force simp: fetch_rows_of_def)
    then have "auths_known A T v (fst ` set (fetch_rows_of T missing) \<union> set [])"
      by (intro auths_known_mono [OF 1(4)]) simp
    from fetch_rows_ok [OF 1(2,3) stored this rows] have "locals_ok A T N K v'" "auths_known A T v' (set m')" by simp_all
    from 1(1) [OF False round this(1) 1(3) this(2)] show ?thesis
      using False by (simp add: fetch_missing.simps [of T v] round)
  qed
qed


section \<open>Events that are left for later\<close>

definition discarding :: "auth_graph \<Rightarrow> (string, string) pydict \<Rightarrow> index_locals \<Rightarrow> deferred \<Rightarrow> string list
    \<Rightarrow> index_locals \<times> deferred \<Rightarrow> bool" where
  "discarding A rooms v d ys = (\<lambda>(w, d').
     w = v\<lparr>il_to_calc := il_to_calc w\<rparr> \<and> distinct (il_to_calc w) \<and> set (il_to_calc w) \<subseteq> set (il_to_calc v)
     \<and> set (il_to_calc v) - set (il_to_calc w) \<subseteq> set ys
     \<and> (\<forall>e\<in>set ys. e \<in> set (il_to_calc w) \<longleftrightarrow> (\<forall>a\<in>set (A e). dget (il_chain_map v) a \<noteq> None \<or> a \<in> set (il_to_calc w)))
     \<and> (\<forall>e. dget d' e \<noteq> None \<longleftrightarrow> dget d e \<noteq> None \<or> e \<in> set (il_to_calc v) - set (il_to_calc w) \<and> dget rooms e \<noteq> None))"

lemma discardingD:
  assumes "discarding A rooms v d ys (w, d')"
  shows "w = v\<lparr>il_to_calc := il_to_calc w\<rparr>" "distinct (il_to_calc w)" "set (il_to_calc w) \<subseteq> set (il_to_calc v)"
    "set (il_to_calc v) - set (il_to_calc w) \<subseteq> set ys"
    "\<forall>e\<in>set ys. e \<in> set (il_to_calc w) \<longleftrightarrow> (\<forall>a\<in>set (A e). dget (il_chain_map v) a \<noteq> None \<or> a \<in> set (il_to_calc w))"
    "\<forall>e. dget d' e \<noteq> None \<longleftrightarrow> dget d e \<noteq> None \<or> e \<in> set (il_to_calc v) - set (il_to_calc w) \<and> dget rooms e \<noteq> None"
  using assms unfolding discarding_def prod.case by - (elim conjE, assumption)+

lemma discard_step_ok:
  assumes ok: "locals_ok A T N K v" and rooms: "\<And>e r. dget rooms e = Some r \<Longrightarrow> r \<noteq> []"
    and inv: "discarding A rooms v d ys (w, d')" and e: "e \<in> set (il_to_calc v)" "e \<notin> set ys"
    and closed: "\<And>f. f \<in> set ys \<Longrightarrow> e \<notin> set (A f)"
  shows "\<exists>st. discard_step rooms e (w, d') = Inr st \<and> discarding A rooms v d (ys @ [e]) st"
proof -
  note I = discardingD [OF inv] and V = locals_okD [OF ok]
  have same: "il_auth_chain w = il_auth_chain v" "il_chain_map w = il_chain_map v" "il_types w = il_types v"
    by (subst I(1), simp)+
  have auth: "dget (il_auth_chain w) e = Some (A e)" using V(3) [of e] e(1) by (simp add: same)
  have ew: "e \<in> set (il_to_calc w)" using I(4) e by blast
  show ?thesis
  proof (cases "list_ex (\<lambda>a. dget (il_chain_map w) a = None \<and> a \<notin> set (il_to_calc w)) (A e)")
    case False
    then have "\<forall>a\<in>set (A e). dget (il_chain_map v) a \<noteq> None \<or> a \<in> set (il_to_calc w)"
      unfolding same by (auto simp: list_ex_iff)
    then have "discarding A rooms v d (ys @ [e]) (w, d')"
      unfolding discarding_def prod.case using I ew by (intro conjI) auto
    then show ?thesis using auth False by (simp add: discard_step_def)
  next
    case True
    then obtain a where a: "a \<in> set (A e)" "dget (il_chain_map v) a = None" "a \<notin> set (il_to_calc w)"
      unfolding same by (auto simp: list_ex_iff)
    define w' where "w' = w\<lparr>il_to_calc := filter (\<lambda>f. f \<noteq> e) (il_to_calc w)\<rparr>"
    have calc: "set (il_to_calc w') = set (il_to_calc w) - {e}" by (auto simp: w'_def)
    obtain ty k where ty: "dget (il_types w) e = Some (ty, k)" using V(5) [OF e(1)] by (auto simp: same)
    define d1 where "d1 = (case dget rooms e of None \<Rightarrow> d' | Some room_id \<Rightarrow> dset e (room_id, ty, k) d')"
    have step: "discard_step rooms e (w, d') = Inr (w', d1)"
    proof (cases "dget rooms e")
      case None
      then show ?thesis using auth True by (simp add: discard_step_def Let_def w'_def d1_def)
    next
      case (Some r)
      then show ?thesis using auth True rooms [OF Some] ty by (simp add: discard_step_def Let_def w'_def d1_def)
    qed
    have d1: "dget d1 f \<noteq> None \<longleftrightarrow> dget d' f \<noteq> None \<or> f = e \<and> dget rooms e \<noteq> None" for f
      by (cases "dget rooms e") (auto simp: d1_def)
    have kept: "f \<in> set (il_to_calc w') \<longleftrightarrow> (\<forall>a\<in>set (A f). dget (il_chain_map v) a \<noteq> None \<or> a \<in> set (il_to_calc w'))"
      if "f \<in> set (ys @ [e])" for f
    proof (cases "f = e")
      case True
      then show ?thesis using a unfolding calc by blast
    next
      case False
      then have f: "f \<in> set ys" using that by simp
      have "a \<noteq> e" if "a \<in> set (A f)" for a using closed [OF f] that by blast
      then have "(\<forall>a\<in>set (A f). dget (il_chain_map v) a \<noteq> None \<or> a \<in> set (il_to_calc w'))
          \<longleftrightarrow> (\<forall>a\<in>set (A f). dget (il_chain_map v) a \<noteq> None \<or> a \<in> set (il_to_calc w))"
        unfolding calc by blast
      then show ?thesis using bspec [OF I(5) f] False unfolding calc by simp
    qed
    have "discarding A rooms v d (ys @ [e]) (w', d1)"
      unfolding discarding_def prod.case
    proof (intro conjI ballI allI)
      show "w' = v\<lparr>il_to_calc := il_to_calc w'\<rparr>" by (simp add: w'_def) (subst I(1), simp)
      show "distinct (il_to_calc w')" using I(2) by (simp add: w'_def)
      show "set (il_to_calc w') \<subseteq> set (il_to_calc v)" using I(3) unfolding calc by blast
      show "set (il_to_calc v) - set (il_to_calc w') \<subseteq> set (ys @ [e])" using I(4) unfolding calc by auto
      show "dget d1 f \<noteq> None \<longleftrightarrow> dget d f \<noteq> None \<or> f \<in> set (il_to_calc v) - set (il_to_calc w') \<and> dget rooms f \<noteq> None" for f
        using spec [OF I(6), of f] d1 [of f] e(1) ew unfolding calc by (cases "f = e") auto
    qed (rule kept)
    then show ?thesis using step by blast
  qed
qed

lemma discard_steps_ok:
  assumes ok: "locals_ok A T N K v" and rooms: "\<And>e r. dget rooms e = Some r \<Longrightarrow> r \<noteq> []"
    and inv: "discarding A rooms v d ys st" and d: "distinct (ys @ es)" and es: "set es \<subseteq> set (il_to_calc v)"
    and closed: "\<And>xs e zs f. ys @ es = xs @ e # zs \<Longrightarrow> f \<in> set xs \<Longrightarrow> e \<notin> set (A f)"
  shows "\<exists>st'. foldE (discard_step rooms) es st = Inr st' \<and> discarding A rooms v d (ys @ es) st'"
  using inv d es closed
proof (induction es arbitrary: ys st)
  case Nil
  then show ?case by simp
next
  case (Cons e es)
  obtain w d' where st: "st = (w, d')" by (cases st)
  have e: "e \<in> set (il_to_calc v)" "e \<notin> set ys" using Cons.prems(2,3) by auto
  have cl: "e \<notin> set (A f)" if "f \<in> set ys" for f by (rule Cons.prems(4) [OF refl that])
  have "\<exists>st1. discard_step rooms e (w, d') = Inr st1 \<and> discarding A rooms v d (ys @ [e]) st1"
    by (rule discard_step_ok [OF ok rooms Cons.prems(1) [unfolded st] e cl])
  then obtain st1 where one: "discard_step rooms e st = Inr st1" "discarding A rooms v d (ys @ [e]) st1"
    unfolding st by blast
  have "\<exists>st'. foldE (discard_step rooms) es st1 = Inr st' \<and> discarding A rooms v d ((ys @ [e]) @ es) st'"
  proof (rule Cons.IH [OF one(2)])
    show "g \<notin> set (A f)" if "(ys @ [e]) @ es = xs @ g # zs" "f \<in> set xs" for xs g zs f
      by (rule Cons.prems(4) [OF _ that(2)]) (use that(1) in simp)
  qed (use Cons.prems(2,3) in auto)
  then show ?case using one(1) by simp
qed

lemma discard_unindexed_ok:
  assumes ok: "locals_ok A T N K v" and rooms: "\<And>e r. dget rooms e = Some r \<Longrightarrow> r \<noteq> []" and wf: "wf (auth_edges A)"
  obtains w d' where "discard_unindexed rooms v d = Inr (w, d')" "discarding A rooms v d (il_to_calc v) (w, d')"
proof -
  note V = locals_okD [OF ok]
  let ?AC = "il_auth_chain v"
  define es where "es = sorted_topologically (dkeys ?AC) ?AC"
  have keys: "set (dkeys ?AC) = set (il_to_calc v)"
    using V(3) dget_None_iff [of ?AC] by (metis option.distinct(1) subsetI subset_antisym)
  have edges: "edges_of ?AC e = (if e \<in> set (il_to_calc v) then set (A e) else {})" for e
    using V(3) [of e] by (simp add: edges_of_def)
  note S = sorted_topologically_sound [OF V(2), of "dkeys ?AC", folded es_def]
  have "{(m, n). m \<in> edges_of ?AC n} \<subseteq> auth_edges A" by (auto simp: auth_edges_def edges split: if_splits)
  from sorted_topologically_complete [OF V(2) wf_subset [OF wf this], of "dkeys ?AC"]
  have set: "set es = set (il_to_calc v)" by (simp add: es_def keys)
  have closed: "e \<notin> set (A f)" if eq: "[] @ es = xs @ e # zs" and f: "f \<in> set xs" for xs e zs f
  proof
    assume a: "e \<in> set (A f)"
    obtain us vs where xs: "xs = us @ f # vs" using split_list [OF f] by blast
    then have split: "es = us @ f # (vs @ e # zs)" using eq by simp
    have "e \<in> set es" "f \<in> set es" using split by auto
    then have "e \<in> set us" using S(3) [OF split] a edges [of f] keys set by auto
    then show False using S(1) split by auto
  qed
  have "discarding A rooms v d [] (v, d)" using V(1) by (auto simp: discarding_def)
  have "\<exists>st. foldE (discard_step rooms) es (v, d) = Inr st \<and> discarding A rooms v d ([] @ es) st"
    by (rule discard_steps_ok [OF ok rooms \<open>discarding A rooms v d [] (v, d)\<close> _ _ closed]) (use S(1) set in simp_all)
  then obtain st where "foldE (discard_step rooms) es (v, d) = Inr st" "discarding A rooms v d es st" by auto
  moreover obtain w d' where "st = (w, d')" by (cases st)
  ultimately show thesis
    using that [of w d'] set by (simp add: discard_unindexed_def es_def discarding_def)
qed

end
