(* ===== verification/Chain_Store.thy ===== *)
theory Chain_Store
  imports Chain_Index
begin

text \<open>
  The invariant of the chain cover index: it holds after state events are stored, in whatever order the
  events of a room arrive, and an event is in the index as soon as its auth events are.
\<close>

section \<open>The local variables at the start\<close>

lemma fold_unseen:
  assumes "distinct (map se_id (seen @ events))"
  shows "fold (\<lambda>e seen. if se_id e \<in> se_id ` set seen then seen else seen @ [e]) events seen = seen @ events"
  using assms
proof (induction events arbitrary: seen)
  case (Cons e events)
  have "se_id e \<notin> se_id ` set seen" using Cons.prems by auto
  then show ?case using Cons.IH [of "seen @ [e]"] Cons.prems by simp
qed simp

lemma new_state_events_all:
  assumes "distinct (map se_id events)" "\<And>e. e \<in> set events \<Longrightarrow> dget (ct_chains T) (se_id e) = None"
  shows "new_state_events T events = events"
  using fold_unseen [of "[]" events] assms by (simp add: new_state_events_def)

definition locals_at_start :: "state_event list \<Rightarrow> string \<Rightarrow> index_locals" where
  "locals_at_start events room_id =
     \<lparr>il_types = map (\<lambda>e. (se_id e, (se_type e, se_state_key e))) events,
      il_auth_chain = map (\<lambda>e. (se_id e, se_auth e)) events,
      il_to_calc = dkeys (map (\<lambda>e. (se_id e, room_id)) events), il_chain_map = []\<rparr>"

lemma locals_start:
  assumes "distinct (map se_id events)" "\<And>e. e \<in> set events \<Longrightarrow> se_auth e = A (se_id e)"
    "\<And>e. e \<in> set events \<Longrightarrow> dget (ct_chains T) (se_id e) = None"
  shows "locals_ok A T (se_id ` set events) (se_id ` set events) (locals_at_start events room_id)"
proof -
  have "map (\<lambda>e. (se_id e, se_auth e)) events = map (\<lambda>i. (i, A i)) (map se_id events)"
    using assms(2) by simp
  then have auth: "dget (map (\<lambda>e. (se_id e, se_auth e)) events) i = (if i \<in> se_id ` set events then Some (A i) else None)" for i
    by (simp only: map_of_map_restrict) (simp add: restrict_map_def)
  have types: "dget (map (\<lambda>e. (se_id e, (se_type e, se_state_key e))) events) i \<noteq> None \<longleftrightarrow> i \<in> se_id ` set events" for i
    by (simp only: map_of_eq_None_iff not_not) (simp add: image_image)
  have keys: "dkeys (map (\<lambda>e. (se_id e, room_id)) events) = map se_id events"
    by (simp add: dkeys_def)
  show ?thesis
    unfolding locals_ok_def locals_at_start_def index_locals.simps keys auth types
    using assms by (auto simp: dict_ok_def comp_def)
qed

lemma first_missing_known:
  assumes "locals_ok A T N K v"
  shows "auths_known A T v (set (first_missing v))"
  unfolding auths_known_def
proof (intro ballI)
  fix e a assume e: "e \<in> set (il_to_calc v)" and a: "a \<in> set (A e)"
  have "A e \<in> set (dvalues (il_auth_chain v))"
    using dget_in_values [of "il_auth_chain v" e "A e"] locals_okD(3) [OF assms, of e] e by simp
  then show "a \<in> set (il_to_calc v) \<or> dget (il_chain_map v) a \<noteq> None \<or> a \<in> set (first_missing v) \<or> dget (ct_state T) a = None"
    using a by (auto simp: first_missing_def)
qed

section \<open>The events that are indexed\<close>

lemma remaining_calc_ok:
  assumes ok: "locals_ok A T N K v" and known: "auths_known A T v {}" and rows: "rows_ok A T"
    and left: "discarding A rooms v d (il_to_calc v) (w, d')"
  shows "calc_ok A (ct_chains T) (il_auth_chain w) (il_to_calc w) (il_chain_map w)"
    and "e \<in> set (il_to_calc v) \<Longrightarrow> e \<in> set (il_to_calc w)
      \<longleftrightarrow> (\<forall>a\<in>set (A e). dget (ct_chains T) a \<noteq> None \<or> a \<in> set (il_to_calc w))"
proof -
  note V = locals_okD [OF ok] and I = discardingD [OF left]
  have same: "il_auth_chain w = il_auth_chain v" "il_chain_map w = il_chain_map v"
    by (subst I(1), simp)+
  have kept: "e \<in> set (il_to_calc w) \<longleftrightarrow> (\<forall>a\<in>set (A e). dget (il_chain_map v) a \<noteq> None \<or> a \<in> set (il_to_calc w))"
    if "e \<in> set (il_to_calc v)" for e
    by (rule bspec [OF I(5) that])
  show "calc_ok A (ct_chains T) (il_auth_chain w) (il_to_calc w) (il_chain_map w)"
    unfolding calc_ok_def same
  proof (intro conjI ballI allI impI)
    show "distinct (il_to_calc w)" by (rule I(2))
    show "dict_ok (il_auth_chain v)" by (rule V(2))
    show "l = A e" if "dget (il_auth_chain v) e = Some l" for e l
      using that V(3) [of e] by (simp split: if_splits)
    show "dget (ct_chains T) a = Some p" if "dget (il_chain_map v) a = Some p" for a p by (rule V(7) [OF that])
    fix e assume e: "e \<in> set (il_to_calc w)"
    then have ev: "e \<in> set (il_to_calc v)" using I(3) by blast
    show "dget (il_auth_chain v) e \<noteq> None" using V(3) [of e] ev by simp
    show "dget (ct_chains T) e = None" by (rule V(4) [OF ev])
    show "a \<in> set (il_to_calc w) \<or> dget (il_chain_map v) a \<noteq> None" if "a \<in> set (A e)" for a
      using kept [OF ev] e that by blast
  qed
  assume e: "e \<in> set (il_to_calc v)"
  have "dget (il_chain_map v) a \<noteq> None \<longleftrightarrow> dget (ct_chains T) a \<noteq> None" if a: "a \<in> set (A e)" for a
  proof
    show "dget (ct_chains T) a \<noteq> None" if "dget (il_chain_map v) a \<noteq> None"
      using V(7) [of a] that by (cases "dget (il_chain_map v) a") auto
    assume P: "dget (ct_chains T) a \<noteq> None"
    have "a \<notin> set (il_to_calc v)" by (rule notI) (use V(4) [of a] P in simp)
    moreover have "dget (ct_state T) a \<noteq> None" by (rule rows_okD(2) [OF rows P])
    ultimately show "dget (il_chain_map v) a \<noteq> None"
      using bspec [OF bspec [OF known [unfolded auths_known_def] e] a] by auto
  qed
  then show "e \<in> set (il_to_calc w) \<longleftrightarrow> (\<forall>a\<in>set (A e). dget (ct_chains T) a \<noteq> None \<or> a \<in> set (il_to_calc w))"
    unfolding kept [OF e] by simp
qed

text \<open>The tables after the new positions, links and rows are written.\<close>

lemma persisted:
  assumes "dict_ok links"
  shows "ct_chains (persist_event_auth_chain events links T) = ct_chains T @ map (\<lambda>(e, (pos, _)). (e, pos)) links"
    "set (ct_links (persist_event_auth_chain events links T)) = set (ct_links T) \<union> returned links"
    "dget (ct_to_calculate (persist_event_auth_chain events links T)) e =
      (if e \<in> set (dkeys links) then None else dget (ct_to_calculate T) e)"
    "ct_state (persist_event_auth_chain events links T) = ct_state T"
    "select_auth (persist_event_auth_chain events links T) e = select_auth T e
      @ map snd (filter (\<lambda>(x, _). x = e) (concat (map (\<lambda>e. map (Pair (se_id e)) (se_auth e)) events)))"
proof -
  note defs = persist_event_auth_chain_def persist_chain_cover_index_def Let_def
  show "ct_chains (persist_event_auth_chain events links T) = ct_chains T @ map (\<lambda>(e, (pos, _)). (e, pos)) links"
    by (simp add: defs)
  have "set (concat (map (\<lambda>(_, ((c, s), links)). map (\<lambda>(t, u). (c, s, t, u)) links) links)) = returned links"
    using assms by (force simp: returned_def dget_iff_mem)
  then show "set (ct_links (persist_event_auth_chain events links T)) = set (ct_links T) \<union> returned links"
    by (auto simp: defs)
  show "dget (ct_to_calculate (persist_event_auth_chain events links T)) e =
      (if e \<in> set (dkeys links) then None else dget (ct_to_calculate T) e)"
    using dget_filter_key [of "\<lambda>e. e \<notin> set (dkeys links)" "ct_to_calculate T" e] by (simp add: defs dkeys_def)
  show "ct_state (persist_event_auth_chain events links T) = ct_state T"
    by (simp add: defs)
  show "select_auth (persist_event_auth_chain events links T) e = select_auth T e
      @ map snd (filter (\<lambda>(x, _). x = e) (concat (map (\<lambda>e. map (Pair (se_id e)) (se_auth e)) events)))"
    by (simp add: defs select_auth_def)
qed

lemma new_auth_rows:
  assumes "distinct (map se_id events)" "\<And>e. e \<in> set events \<Longrightarrow> se_auth e = A (se_id e)"
  shows "map snd (filter (\<lambda>(x, _). x = i) (concat (map (\<lambda>e. map (Pair (se_id e)) (se_auth e)) events)))
    = (if i \<in> se_id ` set events then A i else [])"
  using assms
proof (induction events)
  case (Cons e events)
  have "map snd (filter (\<lambda>(x, _). x = i) (map (Pair (se_id e)) (se_auth e))) = (if se_id e = i then A i else [])"
    using Cons.prems(2) [of e] by (auto simp: filter_map comp_def)
  then show ?case using Cons by auto
qed simp


section \<open>The invariant\<close>

text \<open>What is stored: new events with their auth events, and fresh ids for their chains.\<close>

definition storable :: "auth_graph \<Rightarrow> chain_tables \<Rightarrow> (nat \<Rightarrow> int list) \<Rightarrow> string \<Rightarrow> state_event list \<Rightarrow> bool" where
  "storable A T next_ids room_id events \<longleftrightarrow> room_id \<noteq> [] \<and> distinct (map se_id events)
     \<and> (\<forall>e\<in>set events. se_auth e = A (se_id e) \<and> dget (ct_state T) (se_id e) = None)
     \<and> fresh_ids (ct_chains T) next_ids"

lemma storableD:
  assumes "storable A T next_ids room_id events"
  shows "room_id \<noteq> []" "distinct (map se_id events)" "e \<in> set events \<Longrightarrow> se_auth e = A (se_id e)"
    "e \<in> set events \<Longrightarrow> dget (ct_state T) (se_id e) = None" "fresh_ids (ct_chains T) next_ids"
  using assms by (simp_all add: storable_def)

text \<open>What the computation for new events returns.\<close>

definition awaiting :: "chain_tables \<Rightarrow> string \<Rightarrow> string set" where
  "awaiting T room_id = {e. \<exists>ty key. dget (ct_to_calculate T) e = Some (room_id, ty, key)}"

lemma calculated:
  assumes ok: "index_ok A T" and wf: "wf (auth_edges A)" and distinct: "\<And>e. distinct (A e)"
    and st: "storable A T next_ids room_id events" and events: "events \<noteq> []"
  obtains links d' where
    "calculate_chain_cover_index_for_events T next_ids room_id events = Inr (links, d')" "dict_ok links"
    "positions_ok A (ct_chains T @ map (\<lambda>(e, (pos, _)). (e, pos)) links)"
    "links_ok A (ct_chains T @ map (\<lambda>(e, (pos, _)). (e, pos)) links) (set (ct_links T) \<union> returned links)"
    "\<forall>e\<in>set (dkeys links). dget (ct_chains T) e = None \<and> (e \<in> se_id ` set events \<or> dget (ct_state T) e \<noteq> None)"
    "\<forall>e\<in>se_id ` set events \<union> awaiting T room_id. dget (ct_chains T) e = None
      \<and> (e \<in> set (dkeys links) \<longleftrightarrow> (\<forall>a\<in>set (A e). dget (ct_chains T) a \<noteq> None \<or> a \<in> set (dkeys links)))"
    "\<forall>e. dget (ct_to_calculate T) e \<noteq> None \<longrightarrow> dget d' e \<noteq> None"
    "\<forall>e. dget d' e \<noteq> None \<longrightarrow> dget (ct_to_calculate T) e \<noteq> None \<or> e \<in> se_id ` set events"
    "\<forall>e\<in>se_id ` set events. e \<notin> set (dkeys links) \<longrightarrow> dget d' e \<noteq> None"
proof -
  note S = storableD [OF st]
  have P: "positions_ok A (ct_chains T)" and L: "links_ok A (ct_chains T) (set (ct_links T))" and rows: "rows_ok A T"
    using ok by (simp_all add: index_ok_def)
  have unindexed: "dget (ct_chains T) (se_id e) = None" if "e \<in> set events" for e
    by (rule ccontr) (use rows_okD(2) [OF rows, of "se_id e"] S(4) [OF that] in simp)
  let ?N = "se_id ` set events"
  define rooms where "rooms = map (\<lambda>e. (se_id e, room_id)) events"
  define d where "d = ct_to_calculate T"
  define waiting where "waiting = filter (\<lambda>(_, r, _). r \<in> set (dvalues rooms)) d"
  define v0 where "v0 = locals_at_start events room_id"
  define v1 where "v1 = fold (add_deferred T) waiting v0"
  define v2 where "v2 = fetch_missing T (v1, first_missing v1)"
  have rooms: "r = room_id" if "dget rooms e = Some r" for e r
    using map_of_SomeD [OF that] by (auto simp: rooms_def)
  have rooms_dom: "dget rooms e \<noteq> None \<longleftrightarrow> e \<in> ?N" for e
    unfolding rooms_def by (simp only: map_of_eq_None_iff not_not) (simp add: image_image)
  have start: "locals_ok A T ?N ?N v0"
    unfolding v0_def by (rule locals_start [OF S(2,3) unindexed])
  have "dget (ct_to_calculate T) (fst r) \<noteq> None" if "r \<in> set waiting" for r
    using that weak_map_of_SomeI [of "fst r" "snd r" d] by (auto simp: waiting_def d_def)
  from locals_add_deferred [OF start rows this] have one: "locals_ok A T ?N (?N \<union> fst ` set waiting) v1"
    by (simp add: v1_def)
  from fetch_missing_ok [OF one rows first_missing_known [OF one]]
  have two: "locals_ok A T ?N (?N \<union> fst ` set waiting) v2" "auths_known A T v2 {}" by (simp_all add: v2_def)
  note V = locals_okD [OF two(1)]
  have "room_id \<in> set (dvalues rooms)" using events by (cases events) (simp_all add: rooms_def dvalues_def)
  then have waits: "awaiting T room_id \<subseteq> fst ` set waiting"
    using map_of_SomeD by (force simp: awaiting_def waiting_def d_def)
  have nonempty: "r \<noteq> []" if "dget rooms e = Some r" for e r using rooms [OF that] S(1) by simp
  obtain w d' where left: "discard_unindexed rooms v2 d = Inr (w, d')" "discarding A rooms v2 d (il_to_calc v2) (w, d')"
    by (rule discard_unindexed_ok [OF two(1) nonempty wf])
  note I = discardingD [OF left(2)]
  note R = remaining_calc_ok [OF two rows left(2)]
  obtain links where links: "index_new_events T next_ids (il_types w) (il_auth_chain w) (il_to_calc w) (il_chain_map w) = Inr links"
    "dict_ok links" "set (dkeys links) = set (il_to_calc w)"
    "positions_ok A (ct_chains T @ map (\<lambda>(e, (pos, _)). (e, pos)) links)"
    "links_ok A (ct_chains T @ map (\<lambda>(e, (pos, _)). (e, pos)) links) (set (ct_links T) \<union> returned links)"
    by (rule index_events_correct [OF P L R(1) wf S(5) distinct])
  have empty: "links = []" if "il_to_calc w = []" using links(3) that by (simp add: dkeys_def)
  have calc: "calculate_chain_cover_index T next_ids rooms (map (\<lambda>e. (se_id e, (se_type e, se_state_key e))) events)
      (map (\<lambda>e. (se_id e, se_auth e)) events) = Inr (links, d')"
    using left(1) links(1) empty
    by (auto simp: calculate_chain_cover_index_def Let_def v2_def v1_def v0_def waiting_def d_def locals_at_start_def
        rooms_def index_new_events_def)
  have res: "calculate_chain_cover_index_for_events T next_ids room_id events = Inr (links, d')"
    using calc events by (simp add: calculate_chain_cover_index_for_events_def Let_def
        new_state_events_all [OF S(2) unindexed] rooms_def)
  have c1: "dget (ct_chains T) e = None \<and> (e \<in> ?N \<or> dget (ct_state T) e \<noteq> None)" if "e \<in> set (dkeys links)" for e
  proof -
    have "e \<in> set (il_to_calc v2)" using that I(3) unfolding links(3) by blast
    then show ?thesis using V(4,6) by blast
  qed
  have c2: "dget (ct_chains T) e = None
        \<and> (e \<in> set (dkeys links) \<longleftrightarrow> (\<forall>a\<in>set (A e). dget (ct_chains T) a \<noteq> None \<or> a \<in> set (dkeys links)))"
    if "e \<in> ?N \<union> awaiting T room_id" for e
  proof -
    have e: "e \<in> set (il_to_calc v2)" using that waits V(9) by blast
    show ?thesis using V(4) [OF e] R(2) [OF e] unfolding links(3) by blast
  qed
  have c3: "dget d' e \<noteq> None" if "dget (ct_to_calculate T) e \<noteq> None" for e
    using spec [OF I(6), of e] that unfolding d_def by blast
  have c4: "dget (ct_to_calculate T) e \<noteq> None \<or> e \<in> ?N" if "dget d' e \<noteq> None" for e
    using spec [OF I(6), of e] that rooms_dom [of e] unfolding d_def by blast
  have c5: "dget d' e \<noteq> None" if "e \<in> ?N" "e \<notin> set (dkeys links)" for e
    using spec [OF I(6), of e] that rooms_dom [of e] V(9) unfolding links(3) by blast
  show thesis
  proof (rule that [OF res links(2,4,5)]; intro ballI allI impI)
  qed (rule c1 c2 c3 c4 c5, assumption+)+
qed


lemma fold_state_rows:
  "dget (fold (\<lambda>e. dset (se_id e) (se_type e, se_state_key e)) events d) i = None \<longleftrightarrow> i \<notin> se_id ` set events \<and> dget d i = None"
  by (induction events arbitrary: d) auto

lemma stored_index:
  assumes ok: "index_ok A T" and wf: "wf (auth_edges A)" and distinct: "\<And>e. distinct (A e)"
    and st: "storable A T next_ids room_id events" and events: "events \<noteq> []"
  obtains T' where "store_state_events T next_ids room_id events = Inr T'" "index_ok A T'"
    "\<And>e. e \<in> se_id ` set events \<union> awaiting T room_id \<Longrightarrow>
       position_of T' e \<noteq> None \<longleftrightarrow> (\<forall>a\<in>set (A e). position_of T' a \<noteq> None)"
    "\<And>e p. position_of T e = Some p \<Longrightarrow> position_of T' e = Some p"
proof -
  let ?N = "se_id ` set events"
  note S = storableD [OF st]
  have P: "positions_ok A (ct_chains T)" and rows: "rows_ok A T" using ok by (simp_all add: index_ok_def)
  obtain links d' where calc: "calculate_chain_cover_index_for_events T next_ids room_id events = Inr (links, d')" "dict_ok links"
      "positions_ok A (ct_chains T @ map (\<lambda>(e, (pos, _)). (e, pos)) links)"
      "links_ok A (ct_chains T @ map (\<lambda>(e, (pos, _)). (e, pos)) links) (set (ct_links T) \<union> returned links)"
    and news: "\<forall>e\<in>set (dkeys links). dget (ct_chains T) e = None \<and> (e \<in> ?N \<or> dget (ct_state T) e \<noteq> None)"
    and iffs: "\<forall>e\<in>?N \<union> awaiting T room_id. dget (ct_chains T) e = None
      \<and> (e \<in> set (dkeys links) \<longleftrightarrow> (\<forall>a\<in>set (A e). dget (ct_chains T) a \<noteq> None \<or> a \<in> set (dkeys links)))"
    and ds: "\<forall>e. dget (ct_to_calculate T) e \<noteq> None \<longrightarrow> dget d' e \<noteq> None"
      "\<forall>e. dget d' e \<noteq> None \<longrightarrow> dget (ct_to_calculate T) e \<noteq> None \<or> e \<in> ?N"
      "\<forall>e\<in>?N. e \<notin> set (dkeys links) \<longrightarrow> dget d' e \<noteq> None"
    by (rule calculated [OF ok wf distinct st events])
  note new = bspec [OF news] and iff = bspec [OF iffs]
  note d' = mp [OF spec [OF ds(1)]] mp [OF spec [OF ds(2)]] mp [OF bspec [OF ds(3)]]
  define T1 where "T1 = persist_event_auth_chain events links (T\<lparr>ct_to_calculate := d'\<rparr>)"
  define T' where "T' = T1\<lparr>ct_state := fold (\<lambda>e. dset (se_id e) (se_type e, se_state_key e)) events (ct_state T1)\<rparr>"
  note W = persisted [OF calc(2), of events "T\<lparr>ct_to_calculate := d'\<rparr>", folded T1_def]
  have store: "store_state_events T next_ids room_id events = Inr T'"
    using calc(1) by (simp add: store_state_events_def T'_def T1_def Let_def)
  have chains: "ct_chains T' = ct_chains T @ map (\<lambda>(e, (pos, _)). (e, pos)) links" using W(1) by (simp add: T'_def)
  have state: "dget (ct_state T') e = None \<longleftrightarrow> e \<notin> ?N \<and> dget (ct_state T) e = None" for e
    by (simp add: T'_def fold_state_rows W(4))
  have todo: "dget (ct_to_calculate T') e = (if e \<in> set (dkeys links) then None else dget d' e)" for e
    using W(3) [of e] by (simp add: T'_def)
  have auth: "select_auth T' e = (if dget (ct_state T') e = None then [] else A e)" for e
  proof -
    have "select_auth T' e = select_auth T1 e" by (simp add: T'_def select_auth_def)
    also have "\<dots> = select_auth T e @ (if e \<in> ?N then A e else [])"
      using W(5) [of e] new_auth_rows [OF S(2) S(3), of e] by (simp add: select_auth_def)
    also have "\<dots> = (if dget (ct_state T') e = None then [] else A e)"
    proof (cases "e \<in> ?N")
      case True
      then have "dget (ct_state T) e = None" using S(4) by auto
      moreover have "dget (ct_state T') e \<noteq> None" using state [of e] True by blast
      ultimately show ?thesis using rows_okD(1) [OF rows, of e] True by (simp only: simp_thms if_True if_False append_Nil)
    next
      case False
      then have "dget (ct_state T') e = None \<longleftrightarrow> dget (ct_state T) e = None" using state [of e] by blast
      then show ?thesis using rows_okD(1) [OF rows, of e] False by (simp only: if_False append_Nil2)
    qed
    finally show ?thesis .
  qed
  have pos: "position_of T' e = None \<longleftrightarrow> position_of T e = None \<and> e \<notin> set (dkeys links)" for e
  proof -
    have "fst ` set (map (\<lambda>(e, (pos, _)). (e, pos)) links) = set (dkeys links)" by (force simp: dkeys_def)
    then show ?thesis unfolding chains by (auto simp: map_of_eq_None_iff dkeys_def)
  qed
  have rows': "rows_ok A T'"
    unfolding rows_ok_def
  proof (intro conjI allI impI)
    show "select_auth T' e = (if dget (ct_state T') e = None then [] else A e)" for e by (rule auth)
    show "dget (ct_state T') e \<noteq> None" if "position_of T' e \<noteq> None" for e
      using that new [of e] rows_okD(2) [OF rows, of e] unfolding pos state by blast
    fix e
    { assume t: "dget (ct_to_calculate T') e \<noteq> None"
      then have e: "e \<notin> set (dkeys links)" "dget d' e \<noteq> None" unfolding todo by (simp_all split: if_splits)
      then consider "dget (ct_to_calculate T) e \<noteq> None" | "e \<in> ?N" using d'(2) by blast
      then have "(e \<in> ?N \<or> dget (ct_state T) e \<noteq> None) \<and> position_of T e = None"
        using rows_okD(3) [OF rows, of e] iff [of e] by cases blast+
      then show "dget (ct_state T') e \<noteq> None" "position_of T' e = None"
        using e(1) unfolding state pos by meson+ }
    assume s: "dget (ct_state T') e \<noteq> None"
    show "position_of T' e \<noteq> None \<or> dget (ct_to_calculate T') e \<noteq> None"
    proof (cases "e \<in> set (dkeys links)")
      case True
      then show ?thesis using pos [of e] by blast
    next
      case False
      then have "dget (ct_to_calculate T') e = dget d' e" unfolding todo by simp
      moreover have "position_of T e \<noteq> None \<or> dget d' e \<noteq> None"
        using s d'(3) [of e] False d'(1) [of e] rows_okD(4) [OF rows, of e] unfolding state by meson
      ultimately show ?thesis unfolding pos by simp blast
    qed
  qed
  have "index_ok A T'"
    using calc(3,4) rows' W(2) by (simp add: index_ok_def chains) (simp add: T'_def)
  moreover have "position_of T' e \<noteq> None \<longleftrightarrow> (\<forall>a\<in>set (A e). position_of T' a \<noteq> None)"
    if "e \<in> ?N \<union> awaiting T room_id" for e
    using iff [OF that] unfolding pos by (simp only: de_Morgan_conj not_not simp_thms)
  moreover have "position_of T' e = Some p" if "position_of T e = Some p" for e p
  proof -
    have "e \<notin> set (dkeys links)" using new [of e] that by auto
    then have "dget (map (\<lambda>(e, (pos, _)). (e, pos)) links) e = None"
      by (force simp: map_of_eq_None_iff dkeys_def)
    then show ?thesis using that by (simp add: chains map_add_def)
  qed
  ultimately show thesis using that [OF store] by blast
qed


section \<open>All tables that can arise\<close>

definition empty_tables :: chain_tables where
  "empty_tables = \<lparr>ct_auth = [], ct_state = [], ct_chains = [], ct_links = [], ct_to_calculate = []\<rparr>"

inductive indexed_tables :: "auth_graph \<Rightarrow> chain_tables \<Rightarrow> bool" for A where
  none: "indexed_tables A empty_tables"
| stored: "indexed_tables A T \<Longrightarrow> storable A T next_ids room_id events
    \<Longrightarrow> store_state_events T next_ids room_id events = Inr T' \<Longrightarrow> indexed_tables A T'"

definition auth_graph_ok :: "auth_graph \<Rightarrow> bool" where
  "auth_graph_ok A \<longleftrightarrow> wf (auth_edges A) \<and> (\<forall>e. distinct (A e))"

lemma store_nothing: "store_state_events T next_ids room_id [] = Inr T"
  by (simp add: store_state_events_def calculate_chain_cover_index_for_events_def new_state_events_def
    persist_event_auth_chain_def)

lemma indexed_tables_ok:
  assumes "auth_graph_ok A" "indexed_tables A T"
  shows "index_ok A T"
  using assms(2)
proof (induction rule: indexed_tables.induct)
  case none
  show ?case
    by (simp add: index_ok_def positions_ok_def links_ok_def rows_ok_def empty_tables_def select_auth_def)
next
  case (stored T next_ids room_id events T')
  have A: "wf (auth_edges A)" "\<And>e. distinct (A e)" using assms(1) by (simp_all add: auth_graph_ok_def)
  show ?case
  proof (cases "events = []")
    case True
    then show ?thesis using stored by (simp add: store_nothing)
  next
    case False
    from stored_index [OF stored(4) A stored(2) False] stored(3) show ?thesis by (metis sum.inject(2))
  qed
qed

section \<open>An example\<close>

text \<open>Two events arrive before the ones that they need; all are indexed after these have come.\<close>

definition example_auth :: auth_graph where
  "example_auth e =
     (if e = ''mm'' then [''c''] else if e = ''ppp'' then [''c'', ''mm''] else if e = ''qqqq'' then [''c'', ''mm'', ''ppp''] else [])"

definition example_event :: "string \<Rightarrow> string \<Rightarrow> string \<Rightarrow> state_event" where
  "example_event i ty key = \<lparr>se_id = i, se_type = ty, se_state_key = key, se_auth = example_auth i\<rparr>"

definition example_ids :: "nat \<Rightarrow> int list" where
  "example_ids n = map (\<lambda>k. int k + 1) [0..<n]"

definition example_early :: chain_tables where
  "example_early = \<lparr>ct_auth = [(''qqqq'', ''c''), (''qqqq'', ''mm''), (''qqqq'', ''ppp''), (''mm'', ''c'')],
     ct_state = [(''qqqq'', ''power'', ''''), (''mm'', ''member'', ''a'')], ct_chains = [], ct_links = [],
     ct_to_calculate = [(''mm'', ''r'', ''member'', ''a''), (''qqqq'', ''r'', ''power'', '''')]\<rparr>"

definition example_late :: "state_event list" where
  "example_late = [example_event ''c'' ''create'' '''', example_event ''ppp'' ''power'' '''']"

definition example_tables :: chain_tables where
  "example_tables =
     (case store_state_events example_early example_ids ''r'' example_late of Inr T \<Rightarrow> T | Inl _ \<Rightarrow> example_early)"

lemma example_graph_ok: "auth_graph_ok example_auth"
proof -
  have "auth_edges example_auth \<subseteq> measure length"
    by (auto simp: auth_edges_def example_auth_def split: if_splits)
  then show ?thesis
    by (auto simp: auth_graph_ok_def example_auth_def intro: wf_subset [OF wf_measure])
qed

lemma example_fresh: "ct_chains T = [] \<Longrightarrow> fresh_ids (ct_chains T) example_ids"
  by (simp add: fresh_ids_def example_ids_def distinct_map inj_on_def)

lemma example_indexed_early: "indexed_tables example_auth example_early"
proof (rule indexed_tables.stored [OF indexed_tables.none])
  let ?events = "[example_event ''qqqq'' ''power'' '''', example_event ''mm'' ''member'' ''a'']"
  show "storable example_auth empty_tables example_ids ''r'' ?events"
    using example_fresh [of empty_tables] by (simp add: storable_def empty_tables_def example_event_def)
  show "store_state_events empty_tables example_ids ''r'' ?events = Inr example_early"
    by code_simp
qed

lemma example_storable: "storable example_auth example_early example_ids ''r'' example_late"
  using example_fresh [of example_early] by (simp add: storable_def example_early_def example_late_def example_event_def)

lemma example_stored: "store_state_events example_early example_ids ''r'' example_late = Inr example_tables"
  by code_simp

lemma example_indexed: "indexed_tables example_auth example_tables"
  by (rule indexed_tables.stored [OF example_indexed_early example_storable example_stored])

lemma example_positions:
  "position_of example_tables ''qqqq'' = Some (3, 2)" "position_of example_tables ''c'' = Some (1, 1)"
  by code_simp+

section \<open>Repeated auth events\<close>

text \<open>
  The pairs of \<open>itertools.permutations\<close> are pairs of places: an auth event that an event names twice is taken
  as reached from itself, and the link to it is left out.
\<close>

definition repeating_event :: state_event where
  "repeating_event = \<lparr>se_id = ''mm'', se_type = ''member'', se_state_key = ''a'', se_auth = [''c'', ''c'']\<rparr>"

lemma repeated_auth_event_not_linked:
  "\<exists>T. store_state_events empty_tables example_ids ''r'' [example_event ''c'' ''create'' '''', repeating_event] = Inr T
     \<and> position_of T ''mm'' = Some (2, 1) \<and> position_of T ''c'' = Some (1, 1) \<and> \<not> chain_path (set (ct_links T)) (2, 1) (1, 1)"
proof -
  have "\<not> chain_path {} (2, 1) (1, 1)"
  proof
    assume "chain_path {} (2, 1) (1, 1)"
    then show False by (cases rule: chain_path.cases) simp_all
  qed
  moreover have "map_prod ct_links (\<lambda>T. (position_of T ''mm'', position_of T ''c''))
      (case store_state_events empty_tables example_ids ''r'' [example_event ''c'' ''create'' '''', repeating_event] of
        Inr T \<Rightarrow> (T, T) | Inl _ \<Rightarrow> (example_early, example_early)) = ([], (Some (2, 1), Some (1, 1)))"
    by code_simp
  ultimately show ?thesis
    by (auto simp: example_early_def split: sum.splits)
qed

section \<open>Properties\<close>

text \<open>
  C6. The chain cover index is right after state events were stored in any order and any batches: links
  lead from the position of an event to that of another exactly if the other is in the auth chain of the
  first. Out of band events, which come before their auth events, are left out until these are there.
\<close>

theorem chain_cover_index_correct:
  assumes "auth_graph_ok A" "indexed_tables A T" "position_of T e = Some p" "position_of T f = Some q"
  shows "chain_path (set (ct_links T)) p q \<longleftrightarrow> f \<in> auth_chain_of A e"
  by (rule index_represents [OF indexed_tables_ok [OF assms(1,2)] assms(3,4)])

theorem chain_cover_index_correct_witness:
  "(chain_path (set (ct_links example_tables)) (3, 2) (1, 1)) = (''c'' \<in> auth_chain_of example_auth ''qqqq'')"
  by (rule chain_cover_index_correct [OF example_graph_ok example_indexed example_positions])

text \<open>
  C25. Storing new state events never fails, and whatever is stored, a new event of the room, or one that
  waited, has a position afterwards exactly if all its auth events have one; positions never change.
\<close>

theorem storing_state_events_total:
  assumes "auth_graph_ok A" "indexed_tables A T" "storable A T next_ids room_id events" "events \<noteq> []"
  shows "\<exists>T'. store_state_events T next_ids room_id events = Inr T'
    \<and> (\<forall>e\<in>se_id ` set events \<union> awaiting T room_id.
         position_of T' e \<noteq> None \<longleftrightarrow> (\<forall>a\<in>set (A e). position_of T' a \<noteq> None))
    \<and> (\<forall>e p. position_of T e = Some p \<longrightarrow> position_of T' e = Some p)"
proof -
  have A: "wf (auth_edges A)" "\<And>e. distinct (A e)" using assms(1) by (simp_all add: auth_graph_ok_def)
  show ?thesis
    by (rule stored_index [OF indexed_tables_ok [OF assms(1,2)] A assms(3,4)]) blast
qed

theorem storing_state_events_total_witness:
  "\<exists>T'. store_state_events example_early example_ids ''r'' example_late = Inr T' \<and> position_of T' ''c'' \<noteq> None"
proof -
  have "example_late \<noteq> []" by (simp add: example_late_def)
  from storing_state_events_total [OF example_graph_ok example_indexed_early example_storable this]
  show ?thesis by (auto simp: example_late_def example_event_def example_auth_def)
qed

end
