(* ===== verification/Auth_Chains.thy ===== *)
theory Auth_Chains
  imports Chain_Store
begin

text \<open>
  Auth chains of \<open>storage/databases/main/event_federation.py\<close>: the auth chain of events and the auth chain
  difference of state sets, each computed from the chain cover index and, for rooms without one, by a search
  of the auth events. Sets are lists without duplicates; the order in which a set is run through is that of
  its list.
\<close>

section \<open>Following links\<close>

definition MAX_CHAIN_LENGTH :: int where "MAX_CHAIN_LENGTH = 2 ^ 53 - 1"

definition get_or :: "('k, 'v) pydict \<Rightarrow> 'k \<Rightarrow> 'v \<Rightarrow> 'v" where
  "get_or d k v = (case dget d k of None \<Rightarrow> v | Some x \<Rightarrow> x)"

type_synonym chain_seqs = "(int, int) pydict"

text \<open>One link of a popped position; the top of the stack is the head of the list.\<close>

definition materialize_link :: "bool \<Rightarrow> int \<Rightarrow> int \<times> int \<times> int \<Rightarrow> position list \<times> chain_seqs \<Rightarrow> position list \<times> chain_seqs" where
  "materialize_link backwards s = (\<lambda>(sequence_number, t, u) (stack, materialized).
     if backwards
     then if s < sequence_number then (stack, materialized)
          else if get_or materialized t 0 < u then ((t, u) # stack, dset t u materialized)
          else (stack, materialized)
     else if sequence_number < s then (stack, materialized)
          else if u < get_or materialized t MAX_CHAIN_LENGTH then ((t, u) # stack, dset t u materialized)
          else (stack, materialized))"

text \<open>The targets of links that a walk can still push: every push of a position takes one away.\<close>

definition pending :: "bool \<Rightarrow> links \<Rightarrow> chain_seqs \<Rightarrow> position set" where
  "pending backwards links m = {(t, u). (\<exists>c l s. (c, l) \<in> set links \<and> (s, t, u) \<in> set l)
     \<and> (if backwards then get_or m t 0 < u else u < get_or m t MAX_CHAIN_LENGTH)}"

lemma finite_pending [simp]: "finite (pending backwards links m)"
proof -
  have "pending backwards links m \<subseteq> (\<Union>x\<in>set links. snd ` set (snd x))"
  proof
    fix x assume "x \<in> pending backwards links m"
    then obtain c l s where "(c, l) \<in> set links" "(s, x) \<in> set l" by (cases x) (auto simp: pending_def)
    then show "x \<in> (\<Union>x\<in>set links. snd ` set (snd x))" by (intro UN_I [of "(c, l)"]) force+
  qed
  then show ?thesis by (rule finite_subset) simp
qed

lemma get_or_dset [simp]: "get_or (dset k v d) k' w = (if k' = k then v else get_or d k' w)"
  by (simp add: get_or_def)

lemma materialize_link_pending:
  assumes "(c, l) \<in> set links" "x \<in> set l" "materialize_link backwards s x (stack, m) = (stack', m')"
  shows "card (pending backwards links m') + length stack' \<le> card (pending backwards links m) + length stack"
proof -
  obtain ss t u where x: "x = (ss, t, u)" by (cases x)
  have "stack' = stack \<and> m' = m \<or> stack' = (t, u) # stack \<and> m' = dset t u m \<and> (t, u) \<in> pending backwards links m"
    using assms by (auto simp: materialize_link_def x pending_def split: if_splits)
  moreover have "card (pending backwards links (dset t u m)) < card (pending backwards links m)"
    if "(t, u) \<in> pending backwards links m"
  proof (rule psubset_card_mono)
    have sub: "pending backwards links (dset t u m) \<subseteq> pending backwards links m"
      using that by (auto simp: pending_def split: if_splits)
    have "(t, u) \<notin> pending backwards links (dset t u m)" by (simp add: pending_def)
    then show "pending backwards links (dset t u m) \<subset> pending backwards links m" using that sub by blast
  qed simp
  ultimately show ?thesis by fastforce
qed

lemma materialize_links_pending:
  assumes "(c, l) \<in> set links" "set xs \<subseteq> set l" "fold (materialize_link backwards s) xs (stack, m) = (stack', m')"
  shows "card (pending backwards links m') + length stack' \<le> card (pending backwards links m) + length stack"
  using assms(2,3)
proof (induction xs arbitrary: stack m)
  case (Cons x xs)
  obtain stack1 m1 where step: "materialize_link backwards s x (stack, m) = (stack1, m1)" by fastforce
  have "card (pending backwards links m1) + length stack1 \<le> card (pending backwards links m) + length stack"
    by (rule materialize_link_pending [OF assms(1) _ step]) (use Cons.prems(1) in simp)
  moreover have "card (pending backwards links m') + length stack' \<le> card (pending backwards links m1) + length stack1"
    by (rule Cons.IH) (use Cons.prems step in auto)
  ultimately show ?case by simp
qed simp

function materialize_loop :: "bool \<Rightarrow> links \<Rightarrow> position list \<Rightarrow> chain_seqs \<Rightarrow> chain_seqs" where
  "materialize_loop backwards links [] materialized = materialized"
| "materialize_loop backwards links ((c, s) # stack) materialized =
     (case fold (materialize_link backwards s) (get_or links c []) (stack, materialized) of
        (stack', materialized') \<Rightarrow> materialize_loop backwards links stack' materialized')"
  by pat_completeness auto
termination
proof (relation "measure (\<lambda>(backwards, links, stack, m). card (pending backwards links m) + length stack)")
  fix backwards and links :: links and c s stack materialized stack' materialized'
  assume res: "(stack', materialized') = fold (materialize_link backwards s) (get_or links c []) (stack, materialized)"
  have "card (pending backwards links materialized') + length stack' \<le> card (pending backwards links materialized) + length stack"
  proof (cases "dget links c")
    case None
    then show ?thesis using res by (simp add: get_or_def)
  next
    case (Some l)
    then show ?thesis
      using materialize_links_pending [OF map_of_SomeD [OF Some] order_refl, of backwards s stack materialized stack' materialized'] res
      by (simp add: get_or_def)
  qed
  then show "((backwards, links, stack', materialized'), backwards, links, (c, s) # stack, materialized)
      \<in> measure (\<lambda>(backwards, links, stack, m). card (pending backwards links m) + length stack)"
    by simp
qed simp

definition materialize :: "bool \<Rightarrow> links \<Rightarrow> int \<Rightarrow> int \<Rightarrow> chain_seqs \<Rightarrow> chain_seqs" where
  "materialize backwards links c s materialized = materialize_loop backwards links [(c, s)] materialized"

definition generate_forward_links :: "links \<Rightarrow> links" where
  "generate_forward_links links =
     fold (\<lambda>(c, ls) new_links. fold (\<lambda>(s, t, u). add_row (t, u, c, s)) ls new_links) links []"

definition accumulate_forwards_reachable_events :: "chain_seqs \<Rightarrow> links \<Rightarrow> (string, position) pydict \<Rightarrow> chain_seqs" where
  "accumulate_forwards_reachable_events conflicted_forwards_reachable back_links conflicted_chain_positions =
     (let fwd_links = generate_forward_links back_links in
      fold (\<lambda>(c, s) m. materialize False fwd_links c s (dset c (min s (get_or m c MAX_CHAIN_LENGTH)) m))
        (dvalues conflicted_chain_positions) conflicted_forwards_reachable)"

section \<open>The auth chain of events\<close>

definition NoChainCoverIndex :: exn where
  "NoChainCoverIndex = PyException ''_NoChainCoverIndex''"

definition chain_rows :: "chain_tables \<Rightarrow> string list \<Rightarrow> (string \<times> position) list" where
  "chain_rows T batch = filter (\<lambda>(e, _). e \<in> set batch) (ct_chains T)"

text \<open>The events with a position, and the greatest number of each chain among them.\<close>

definition given_step :: "string \<times> position \<Rightarrow> string list \<times> chain_seqs \<Rightarrow> string list \<times> chain_seqs" where
  "given_step = (\<lambda>(event_id, (c, s)) (seen_events, event_chains).
     (set_add event_id seen_events, dset c (max s (get_or event_chains c 0)) event_chains))"

definition given_chains :: "chain_tables \<Rightarrow> string list \<Rightarrow> string list \<times> chain_seqs" where
  "given_chains T initial_events =
     fold (\<lambda>batch. fold given_step (chain_rows T batch)) (batch_iter initial_events 1000) ([], [])"

definition walk_batch :: "chain_seqs \<Rightarrow> links \<Rightarrow> chain_seqs \<Rightarrow> chain_seqs" where
  "walk_batch event_chains links reached =
     fold (\<lambda>c reached. case dget event_chains c of None \<Rightarrow> reached | Some s \<Rightarrow> materialize True links c s reached)
       (dkeys links) reached"

text \<open>The numbers below those of the given events.\<close>

definition exclude_given :: "chain_seqs \<Rightarrow> chain_seqs \<Rightarrow> chain_seqs" where
  "exclude_given event_chains reached =
     fold (\<lambda>(c, s) reached. if s = 1 then reached else dset c (max (s - 1) (get_or reached c 0)) reached) event_chains reached"

definition select_below :: "chain_tables \<Rightarrow> chain_seqs \<Rightarrow> string list" where
  "select_below T reached =
     concat (map (\<lambda>(c, m). map fst (filter (\<lambda>(_, (c', s)). c' = c \<and> s \<le> m) (ct_chains T))) reached)"

definition get_auth_chain_ids_using_cover_index :: "chain_tables \<Rightarrow> string list \<Rightarrow> bool \<Rightarrow> string list res" where
  "get_auth_chain_ids_using_cover_index T event_ids include_given =
     (let initial_events = remdups event_ids in
      case given_chains T initial_events of (seen_events, event_chains) \<Rightarrow>
        if list_ex (\<lambda>e. e \<notin> set seen_events) initial_events then Inl NoChainCoverIndex
        else
          (let reached = fold (walk_batch event_chains) (get_chain_links (ct_links T) (dkeys event_chains)) [] in
           Inr (set_union (if include_given then initial_events else []) (select_below T (exclude_given event_chains reached)))))"

text \<open>
  Without the index: the auth events of a front of events, from the cache or the tables; the cache keeps
  them with their depth. Only auth events that are stored count.
\<close>

type_synonym auth_cache = "(string, (string \<times> int) list) pydict"

definition auth_rows :: "chain_tables \<Rightarrow> (string \<Rightarrow> int) \<Rightarrow> string list \<Rightarrow> (string \<times> string \<times> int) list" where
  "auth_rows T depth to_fetch =
     map (\<lambda>(e, a). (e, a, depth a)) (filter (\<lambda>(e, a). e \<in> set to_fetch \<and> dget (ct_state T) a \<noteq> None) (ct_auth T))"

definition cache_rows :: "(string \<times> string \<times> int) list \<Rightarrow> auth_cache \<Rightarrow> auth_cache" where
  "cache_rows rows cache =
     dupdate cache (fold (\<lambda>(e, a, d) to_cache. dset e (get_or to_cache e [] @ [(a, d)]) to_cache) rows [])"

definition auth_chunk :: "chain_tables \<Rightarrow> (string \<Rightarrow> int) \<Rightarrow> string list \<Rightarrow> string list \<times> auth_cache \<Rightarrow> string list \<times> auth_cache" where
  "auth_chunk T depth chunk = (\<lambda>(new_front, cache).
     (case fold (\<lambda>e (new_front, to_fetch). case dget cache e of
                   None \<Rightarrow> (new_front, to_fetch @ [e])
                 | Some res \<Rightarrow> (set_union new_front (map fst res), to_fetch)) chunk (new_front, []) of
        (new_front', to_fetch) \<Rightarrow>
          (let rows = auth_rows T depth to_fetch in
           (set_union new_front' (map (\<lambda>(_, a, _). a) rows), cache_rows rows cache))))"

definition auth_front :: "chain_tables \<Rightarrow> (string \<Rightarrow> int) \<Rightarrow> string list \<Rightarrow> auth_cache \<Rightarrow> string list \<times> auth_cache" where
  "auth_front T depth front cache = fold (auth_chunk T depth) (batch_iter front 100) ([], cache)"


text \<open>Whatever a round finds comes from the cache or the tables.\<close>

definition cached_auths :: "auth_cache \<Rightarrow> string set" where
  "cached_auths cache = (\<Union>x\<in>set cache. fst ` set (snd x))"

lemma cached_auths_simps [simp]:
  "cached_auths [] = {}" "cached_auths (x # cache) = fst ` set (snd x) \<union> cached_auths cache"
  by (simp_all add: cached_auths_def)

lemma cached_authsD: "dget cache e = Some l \<Longrightarrow> fst ` set l \<subseteq> cached_auths cache"
  by (drule map_of_SomeD) (force simp: cached_auths_def)

lemma cached_auths_dset: "cached_auths (dset e l cache) \<subseteq> cached_auths cache \<union> fst ` set l"
proof
  fix a assume "a \<in> cached_auths (dset e l cache)"
  then obtain x where x: "x \<in> set (dset e l cache)" "a \<in> fst ` set (snd x)" by (auto simp: cached_auths_def)
  then have "x = (e, l) \<or> x \<in> set cache" using dset_members by fast
  then show "a \<in> cached_auths cache \<union> fst ` set l" using x(2) by (auto simp: cached_auths_def)
qed

lemma cached_auths_dupdate: "cached_auths (dupdate cache other) \<subseteq> cached_auths cache \<union> cached_auths other"
proof -
  have "cached_auths (fold (\<lambda>(k, v). dset k v) other cache) \<subseteq> cached_auths cache \<union> cached_auths other"
  proof (induction other arbitrary: cache)
    case (Cons x other)
    obtain e l where x: "x = (e, l)" by (cases x)
    show ?case using Cons [of "dset e l cache"] cached_auths_dset [of e l cache] by (auto simp: x)
  qed simp
  then show ?thesis by (simp add: dupdate_def)
qed

lemma cached_auths_rows: "cached_auths (cache_rows rows cache) \<subseteq> cached_auths cache \<union> (fst \<circ> snd) ` set rows"
proof -
  have "cached_auths (fold (\<lambda>(e, a, d) to_cache. dset e (get_or to_cache e [] @ [(a, d)]) to_cache) rows c)
      \<subseteq> cached_auths c \<union> (fst \<circ> snd) ` set rows" for c
  proof (induction rows arbitrary: c)
    case (Cons r rows)
    obtain e a d where r: "r = (e, a, d)" by (cases r)
    let ?c = "dset e (get_or c e [] @ [(a, d)]) c"
    have "fst ` set (get_or c e []) \<subseteq> cached_auths c"
      using cached_authsD [of c e] by (cases "dget c e") (simp_all add: get_or_def)
    then have "cached_auths ?c \<subseteq> insert a (cached_auths c)"
      using cached_auths_dset [of e "get_or c e [] @ [(a, d)]" c] by (simp add: image_Un) blast
    then show ?case using Cons [of ?c] by (auto simp: r)
  qed simp
  from this [of "[]"] show ?thesis
    using cached_auths_dupdate [of cache] by (fastforce simp: cache_rows_def)
qed

definition auth_universe :: "chain_tables \<Rightarrow> auth_cache \<Rightarrow> string set" where
  "auth_universe T cache = snd ` set (ct_auth T) \<union> cached_auths cache"

lemma finite_auth_universe [simp]: "finite (auth_universe T cache)"
  by (simp add: auth_universe_def cached_auths_def)

lemma auth_chunk_universe:
  assumes "auth_chunk T depth chunk (nf, cache) = (nf', cache')"
  shows "set nf' \<subseteq> set nf \<union> auth_universe T cache" "auth_universe T cache' \<subseteq> auth_universe T cache"
proof -
  let ?f = "\<lambda>e (new_front, to_fetch). case dget cache e of
    None \<Rightarrow> (new_front, to_fetch @ [e]) | Some res \<Rightarrow> (set_union new_front (map fst res), to_fetch)"
  obtain nf1 tf where fold: "fold ?f chunk (nf, []) = (nf1, tf)" by fastforce
  have "set (fst (fold ?f es (nf, tf))) \<subseteq> set nf \<union> cached_auths cache" for es tf
  proof (induction es arbitrary: nf tf)
    case (Cons e es)
    show ?case
    proof (cases "dget cache e")
      case None
      then show ?thesis using Cons [of nf "tf @ [e]"] by simp
    next
      case (Some res)
      have "set (set_union nf (map fst res)) \<subseteq> set nf \<union> cached_auths cache"
        using cached_authsD [OF Some] by (auto simp: set_set_union)
      then show ?thesis using Some Cons [of "set_union nf (map fst res)" tf] by auto
    qed
  qed simp
  from this [of chunk "[]"] have nf1: "set nf1 \<subseteq> set nf \<union> cached_auths cache" by (simp add: fold)
  have rows: "(fst \<circ> snd) ` set (auth_rows T depth tf) \<subseteq> snd ` set (ct_auth T)"
    by (force simp: auth_rows_def)
  have res: "nf' = set_union nf1 (map (\<lambda>(_, a, _). a) (auth_rows T depth tf))" "cache' = cache_rows (auth_rows T depth tf) cache"
    using assms by (simp_all add: auth_chunk_def fold Let_def)
  have "(\<lambda>(_, a, _). a) = (fst \<circ> snd :: string \<times> string \<times> int \<Rightarrow> string)" by auto
  then show "set nf' \<subseteq> set nf \<union> auth_universe T cache"
    using nf1 rows by (auto simp: res(1) set_set_union auth_universe_def)
  show "auth_universe T cache' \<subseteq> auth_universe T cache"
    using cached_auths_rows [of "auth_rows T depth tf" cache] rows by (auto simp: res(2) auth_universe_def)
qed

lemma auth_front_universe:
  assumes "auth_front T depth front cache = (nf, cache')"
  shows "set nf \<subseteq> auth_universe T cache" "auth_universe T cache' \<subseteq> auth_universe T cache"
proof -
  have "set nf' \<subseteq> set nf \<union> auth_universe T cache \<and> auth_universe T cache' \<subseteq> auth_universe T cache"
    if "fold (auth_chunk T depth) chunks (nf, cache) = (nf', cache')" for chunks nf cache nf' cache'
    using that
  proof (induction chunks arbitrary: nf cache)
    case (Cons c chunks)
    obtain nf1 cache1 where step: "auth_chunk T depth c (nf, cache) = (nf1, cache1)" by fastforce
    show ?case
      using Cons.IH [of nf1 cache1] Cons.prems auth_chunk_universe [OF step] step by auto
  qed simp
  from this [of "batch_iter front 100" "[]" cache nf cache'] assms
  show "set nf \<subseteq> auth_universe T cache" "auth_universe T cache' \<subseteq> auth_universe T cache"
    by (auto simp: auth_front_def)
qed

function auth_chain_search :: "chain_tables \<Rightarrow> (string \<Rightarrow> int) \<Rightarrow> string list \<Rightarrow> string list \<Rightarrow> auth_cache \<Rightarrow> string list \<times> auth_cache" where
  "auth_chain_search T depth front results cache =
     (if front = [] then (results, cache)
      else
        (case auth_front T depth front cache of (new_front, cache') \<Rightarrow>
          (let front' = filter (\<lambda>e. e \<notin> set results) new_front in
           auth_chain_search T depth front' (set_union results front') cache')))"
  by pat_completeness auto
termination
proof (relation "measure (\<lambda>(T, _, front, results, cache). if front = [] then 0 else Suc (card (auth_universe T cache - set results)))")
  fix T depth and front results :: "string list" and cache new_front cache' front'
  assume front: "front \<noteq> []" and res: "(new_front, cache') = auth_front T depth front cache"
    and f': "front' = filter (\<lambda>e. e \<notin> set results) new_front"
  note U = auth_front_universe [OF res [symmetric]]
  have "card (auth_universe T cache' - set (set_union results front')) < card (auth_universe T cache - set results)" if "front' \<noteq> []"
  proof (rule psubset_card_mono)
    have "hd front' \<in> set front'" using that by simp
    then obtain e where "e \<in> set front'" ..
    then have "e \<in> auth_universe T cache - set results" "e \<in> set (set_union results front')"
      using U(1) by (auto simp: f' set_set_union)
    then show "auth_universe T cache' - set (set_union results front') \<subset> auth_universe T cache - set results"
      using U(2) by (auto simp: set_set_union)
  qed simp
  then show "((T, depth, front', set_union results front', cache'), T, depth, front, results, cache)
      \<in> measure (\<lambda>(T, _, front, results, cache). if front = [] then 0 else Suc (card (auth_universe T cache - set results)))"
    using front by simp
qed simp

declare auth_chain_search.simps [simp del]

definition get_auth_chain_ids_txn :: "chain_tables \<Rightarrow> (string \<Rightarrow> int) \<Rightarrow> auth_cache \<Rightarrow> string list \<Rightarrow> bool \<Rightarrow> string list \<times> auth_cache" where
  "get_auth_chain_ids_txn T depth cache event_ids include_given =
     auth_chain_search T depth (remdups event_ids) (if include_given then remdups event_ids else []) cache"

text \<open>\<open>get_auth_chain_ids\<close> for a room that has, or has not, an index.\<close>

definition get_auth_chain_ids :: "chain_tables \<Rightarrow> (string \<Rightarrow> int) \<Rightarrow> auth_cache \<Rightarrow> bool \<Rightarrow> bool \<Rightarrow> string list \<Rightarrow> bool
    \<Rightarrow> string list res" where
  "get_auth_chain_ids T depth cache has_index tests_allow_no_chain_cover_index event_ids include_given =
     (let old = Inr (fst (get_auth_chain_ids_txn T depth cache event_ids include_given)) in
      if has_index
      then
        (case get_auth_chain_ids_using_cover_index T event_ids include_given of
           Inr ids \<Rightarrow> Inr ids
         | Inl err \<Rightarrow> if err = NoChainCoverIndex \<and> tests_allow_no_chain_cover_index then old else Inl err)
      else old)"

end
