(* ===== verification/Chain_Walks.thy ===== *)
theory Chain_Walks
  imports Auth_Chains
begin

text \<open>
  Walks of the chain cover index: what \<open>_get_chain_links\<close> returns is complete for the chains that it reaches,
  and \<open>_materialize\<close> finds the greatest number of every chain that the links lead to.
\<close>

section \<open>The links that are fetched\<close>

lemma reach_chains_closed:
  "set cs \<subseteq> set (reach_chains rows cs)"
  "(c, s, t, u) \<in> set rows \<Longrightarrow> c \<in> set (reach_chains rows cs) \<Longrightarrow> t \<in> set (reach_chains rows cs)"
proof -
  have "set cs \<subseteq> set (reach_chains rows cs) \<and> (\<forall>(c, s, t, u)\<in>set rows. c \<in> set (reach_chains rows cs) \<longrightarrow> t \<in> set (reach_chains rows cs))"
  proof (induction rows cs rule: reach_chains.induct)
    case (1 rows cs)
    show ?case
    proof (cases "filter (\<lambda>(c, _, t, _). c \<in> set cs \<and> t \<notin> set cs) rows")
      case Nil
      then have "reach_chains rows cs = cs" by (simp add: reach_chains.simps [of rows])
      then show ?thesis using Nil by (auto simp: filter_empty_conv)
    next
      case (Cons x more)
      obtain c s t u where x: "x = (c, s, t, u)" by (cases x)
      have "reach_chains rows cs = reach_chains rows (cs @ [t])" by (subst reach_chains.simps) (simp only: Cons x list.case prod.case)
      then show ?thesis using 1 [OF Cons x [symmetric] refl refl] by auto
    qed
  qed
  then show "set cs \<subseteq> set (reach_chains rows cs)"
    "(c, s, t, u) \<in> set rows \<Longrightarrow> c \<in> set (reach_chains rows cs) \<Longrightarrow> t \<in> set (reach_chains rows cs)"
    by auto
qed

lemma get_or_add_rows:
  "get_or (fold add_row rs links) c [] = get_or links c [] @ map snd (filter (\<lambda>(c', _). c' = c) rs)"
proof (induction rs arbitrary: links)
  case (Cons r rs)
  obtain c' s t u where r: "r = (c', s, t, u)" by (cases r)
  have "get_or (add_row r links) c [] = get_or links c [] @ (if c' = c then [(s, t, u)] else [])"
    by (auto simp: r add_row_def get_or_def)
  then show ?case using Cons by (simp add: r)
qed simp

lemma dkeys_add_rows: "set (dkeys (fold add_row rs links)) = set (dkeys links) \<union> fst ` set rs"
proof (induction rs arbitrary: links)
  case (Cons r rs)
  have "set (dkeys (add_row r links)) = insert (fst r) (set (dkeys links))"
    by (cases r) (auto simp: add_row_def dkeys_def dset_def update_keys)
  then show ?case using Cons by simp
qed simp

text \<open>A set of chains for which links are complete: all links from these chains, which lead to these chains.\<close>

definition complete_links :: "link set \<Rightarrow> links \<Rightarrow> int set \<Rightarrow> bool" where
  "complete_links R links X \<longleftrightarrow> set (dkeys links) \<subseteq> X
     \<and> (\<forall>c\<in>X. \<forall>s t u. (s, t, u) \<in> set (get_or links c []) \<longleftrightarrow> (c, s, t, u) \<in> R)
     \<and> (\<forall>c s t u. (c, s, t, u) \<in> R \<longrightarrow> c \<in> X \<longrightarrow> t \<in> X)"

lemma complete_linksD:
  assumes "complete_links R links X"
  shows "c \<in> set (dkeys links) \<Longrightarrow> c \<in> X" "c \<in> X \<Longrightarrow> (s, t, u) \<in> set (get_or links c []) \<longleftrightarrow> (c, s, t, u) \<in> R"
    "(c, s, t, u) \<in> R \<Longrightarrow> c \<in> X \<Longrightarrow> t \<in> X"
  using assms unfolding complete_links_def by blast+

lemma select_links_complete:
  "complete_links (set rows) (select_links rows batch) (set (reach_chains rows batch))"
proof -
  let ?X = "set (reach_chains rows batch)"
  let ?rs = "filter (\<lambda>(c, _). c \<in> ?X) rows"
  have links: "select_links rows batch = fold add_row ?rs []" by (simp add: select_links_def)
  have "(s, t, u) \<in> set (get_or (fold add_row ?rs []) c []) \<longleftrightarrow> (c, s, t, u) \<in> set rows" if "c \<in> ?X" for c s t u
    unfolding get_or_add_rows using that by (force simp: get_or_def)
  moreover have "set (dkeys (fold add_row ?rs [])) \<subseteq> ?X"
    unfolding dkeys_add_rows by (auto simp: dkeys_def)
  ultimately show ?thesis
    unfolding complete_links_def links using reach_chains_closed(2) by blast
qed

lemma select_links_keys: "(c, s, t, u) \<in> set rows \<Longrightarrow> c \<in> set batch \<Longrightarrow> c \<in> set (dkeys (select_links rows batch))"
  using reach_chains_closed(1) [of batch rows] by (force simp: select_links_def dkeys_add_rows)

lemma get_chain_links_complete: "links \<in> set (get_chain_links rows cs) \<Longrightarrow> \<exists>X. complete_links (set rows) links X"
proof (induction rows cs rule: get_chain_links.induct)
  case (1 rows cs)
  show ?case
  proof (cases "cs = []")
    case True
    then show ?thesis using 1(2) by (simp add: get_chain_links.simps)
  next
    case False
    then have "links = select_links rows (take LINKS_BATCH cs) \<or> links \<in> set (get_chain_links rows
        (filter (\<lambda>c. c \<notin> set (dkeys (select_links rows (take LINKS_BATCH cs)))) (drop LINKS_BATCH cs)))"
      using 1(2) by (subst (asm) get_chain_links.simps) (simp add: Let_def)
    then show ?thesis using 1(1) [OF False refl refl] select_links_complete by blast
  qed
qed

lemma get_chain_links_all:
  "(c, s, t, u) \<in> set rows \<Longrightarrow> c \<in> set cs \<Longrightarrow> \<exists>links\<in>set (get_chain_links rows cs). c \<in> set (dkeys links)"
proof (induction rows cs rule: get_chain_links.induct)
  case (1 rows cs)
  have ne: "cs \<noteq> []" using 1(3) by auto
  let ?links = "select_links rows (take LINKS_BATCH cs)"
  let ?rest = "filter (\<lambda>c. c \<notin> set (dkeys ?links)) (drop LINKS_BATCH cs)"
  have eq: "get_chain_links rows cs = ?links # get_chain_links rows ?rest"
    using ne by (subst get_chain_links.simps) (simp add: Let_def)
  show ?case
  proof (cases "c \<in> set (dkeys ?links)")
    case True
    then show ?thesis by (simp add: eq)
  next
    case False
    have "c \<notin> set (take LINKS_BATCH cs)" using select_links_keys [OF 1(2)] False by blast
    then have "c \<in> set (drop LINKS_BATCH cs)" using 1(3) by (metis Un_iff append_take_drop_id set_append)
    then have "c \<in> set ?rest" using False by simp
    from 1(1) [OF ne refl refl 1(2) this] show ?thesis by (auto simp: eq)
  qed
qed

section \<open>One walk\<close>

abbreviation reached_seq :: "chain_seqs \<Rightarrow> int \<Rightarrow> int" where
  "reached_seq m t \<equiv> get_or m t 0"

definition closed_at :: "link set \<Rightarrow> chain_seqs \<Rightarrow> position \<Rightarrow> bool" where
  "closed_at R m p \<longleftrightarrow> (\<forall>s t u. (fst p, s, t, u) \<in> R \<longrightarrow> s \<le> snd p \<longrightarrow> u \<le> reached_seq m t)"

definition hits :: "link set \<Rightarrow> position \<Rightarrow> position \<Rightarrow> bool" where
  "hits R p q \<longleftrightarrow> (\<exists>c s. chain_path R p (c, s) \<and> (c, s, q) \<in> R)"

definition below :: "chain_seqs \<Rightarrow> chain_seqs \<Rightarrow> bool" where
  "below m m' \<longleftrightarrow> (\<forall>t. reached_seq m t \<le> reached_seq m' t)"

lemma below_trans: "below a b \<Longrightarrow> below b c \<Longrightarrow> below a c"
  by (auto simp: below_def intro: order_trans)

lemma below_refl [simp]: "below a a"
  by (simp add: below_def)

lemma closed_at_mono: "closed_at R m p \<Longrightarrow> below m m' \<Longrightarrow> closed_at R m' p"
  unfolding closed_at_def below_def by (meson order_trans)

lemma closed_at_lower: "closed_at R m (c, s) \<Longrightarrow> s' \<le> s \<Longrightarrow> closed_at R m (c, s')"
  unfolding closed_at_def by auto

lemma hits_step: "(c, ss, q) \<in> R \<Longrightarrow> ss \<le> s \<Longrightarrow> hits R (c, s) q"
  unfolding hits_def using chain_path.within by blast

lemma hits_trans: "hits R p q \<Longrightarrow> hits R q r \<Longrightarrow> hits R p r"
proof -
  assume pq: "hits R p q" and qr: "hits R q r"
  obtain c s where c: "chain_path R p (c, s)" "(c, s, q) \<in> R" using pq unfolding hits_def by blast
  obtain d t where d: "chain_path R q (d, t)" "(d, t, r) \<in> R" using qr unfolding hits_def by blast
  have "chain_path R (c, s) (d, t)"
    using chain_path.along [of c s "fst q" "snd q" R s "(d, t)"] c(2) d(1) by simp
  then show "hits R p r" using chain_path_trans [OF c(1)] d(2) unfolding hits_def by blast
qed

lemma hits_path: "hits R p q \<Longrightarrow> chain_path R p q"
proof -
  assume "hits R p q"
  then obtain c s where c: "chain_path R p (c, s)" "(c, s, q) \<in> R" unfolding hits_def by blast
  have "chain_path R (c, s) q"
    using chain_path.along [of c s "fst q" "snd q" R s q] c(2) chain_path.within [of "snd q" "snd q" R "fst q"] by simp
  then show ?thesis by (rule chain_path_trans [OF c(1)])
qed

lemma materialize_links:
  assumes "fold (materialize_link True s) xs (stack, m) = (stack', m')"
  shows "below m m' \<and> (\<forall>ss t u. (ss, t, u) \<in> set xs \<longrightarrow> ss \<le> s \<longrightarrow> u \<le> reached_seq m' t)
    \<and> (\<forall>t. reached_seq m' t = reached_seq m t \<or> (t, reached_seq m' t) \<in> set stack')
    \<and> set stack \<subseteq> set stack'
    \<and> (\<forall>p\<in>set stack'. p \<in> set stack \<or> (\<exists>ss. (ss, p) \<in> set xs \<and> ss \<le> s))
    \<and> (\<forall>t. reached_seq m' t = reached_seq m t \<or> (\<exists>ss. (ss, t, reached_seq m' t) \<in> set xs \<and> ss \<le> s))"
  using assms
proof (induction xs arbitrary: stack m)
  case Nil
  then show ?case by simp
next
  case (Cons x xs)
  obtain ss t u where x: "x = (ss, t, u)" by (cases x)
  obtain stack1 m1 where step: "materialize_link True s x (stack, m) = (stack1, m1)" by fastforce
  have ih: "below m1 m' \<and> (\<forall>ss t u. (ss, t, u) \<in> set xs \<longrightarrow> ss \<le> s \<longrightarrow> u \<le> reached_seq m' t)
    \<and> (\<forall>t. reached_seq m' t = reached_seq m1 t \<or> (t, reached_seq m' t) \<in> set stack')
    \<and> set stack1 \<subseteq> set stack'
    \<and> (\<forall>p\<in>set stack'. p \<in> set stack1 \<or> (\<exists>ss. (ss, p) \<in> set xs \<and> ss \<le> s))
    \<and> (\<forall>t. reached_seq m' t = reached_seq m1 t \<or> (\<exists>ss. (ss, t, reached_seq m' t) \<in> set xs \<and> ss \<le> s))"
    by (rule Cons.IH) (use Cons.prems step in simp)
  show ?case
  proof (cases "ss \<le> s \<and> reached_seq m t < u")
    case True
    then have s1: "stack1 = (t, u) # stack" "m1 = dset t u m" using step by (auto simp: materialize_link_def x)
    have "below m m1" using True by (auto simp: below_def s1)
    moreover have "u \<le> reached_seq m' t" using ih by (auto simp: below_def s1 dest: spec [of _ t])
    moreover have "reached_seq m' r = reached_seq m r \<or> (r, reached_seq m' r) \<in> set stack'" for r
    proof (cases "r = t")
      case True
      then show ?thesis using ih by (auto simp: s1 dest: spec [of _ t])
    next
      case False
      then have "reached_seq m1 r = reached_seq m r" by (simp add: s1)
      then show ?thesis using ih by metis
    qed
    moreover have "reached_seq m' r = reached_seq m r \<or> (\<exists>ss. (ss, r, reached_seq m' r) \<in> set (x # xs) \<and> ss \<le> s)" for r
    proof (cases "r = t")
      case True
      have "reached_seq m' t = u \<or> (\<exists>ss. (ss, t, reached_seq m' t) \<in> set xs \<and> ss \<le> s)"
        using ih by (auto simp: s1 dest: spec [of _ t])
      then show ?thesis using True \<open>ss \<le> s \<and> reached_seq m t < u\<close> by (auto simp: x)
    next
      case False
      then have "reached_seq m1 r = reached_seq m r" by (simp add: s1)
      then show ?thesis using ih by (metis list.set_intros(2))
    qed
    ultimately show ?thesis
      using ih True below_trans [of m m1 m'] unfolding x s1 by simp blast
  next
    case False
    then have s1: "stack1 = stack" "m1 = m" using step by (auto simp: materialize_link_def x split: if_splits)
    have "u \<le> reached_seq m' t" if "ss \<le> s"
    proof -
      have "reached_seq m t \<le> reached_seq m' t" using ih by (simp add: below_def s1)
      then show ?thesis using False that by simp
    qed
    then show ?thesis using ih unfolding x s1 by auto
  qed
qed


text \<open>The invariant of the walk from a position, and what it means at the end.\<close>

definition walking :: "link set \<Rightarrow> int set \<Rightarrow> chain_seqs \<Rightarrow> position \<Rightarrow> position list \<Rightarrow> chain_seqs \<Rightarrow> bool" where
  "walking R X m0 origin stack m \<longleftrightarrow> below m0 m \<and> (\<forall>p\<in>set stack. fst p \<in> X \<and> (p = origin \<or> hits R origin p))
     \<and> (\<forall>t. reached_seq m t = reached_seq m0 t
        \<or> hits R origin (t, reached_seq m t) \<and> ((t, reached_seq m t) \<in> set stack \<or> closed_at R m (t, reached_seq m t)))
     \<and> (origin \<in> set stack \<or> closed_at R m origin)"

lemma walking_step:
  assumes C: "complete_links R links X" and W: "walking R X m0 origin ((c, s) # stack) m"
    and fold: "fold (materialize_link True s) (get_or links c []) (stack, m) = (stack', m')"
  shows "walking R X m0 origin stack' m'"
proof -
  note M = materialize_links [OF fold]
  note below = conjunct1 [OF M]
  have c: "c \<in> X" "(c, s) = origin \<or> hits R origin (c, s)" using W by (simp_all add: walking_def)
  have row: "(c, ss, t, u) \<in> R \<longleftrightarrow> (ss, t, u) \<in> set (get_or links c [])" for ss t u
    using complete_linksD(2) [OF C c(1)] by blast
  have closed: "closed_at R m' (c, s)"
    using M row by (auto simp: closed_at_def)
  have hit: "hits R origin p" if "(ss, p) \<in> set (get_or links c [])" "ss \<le> s" for ss p
  proof -
    have "hits R (c, s) p" using hits_step [of c ss p R s] that row [of ss "fst p" "snd p"] by (cases p) simp
    then show ?thesis using c(2) hits_trans by blast
  qed
  have "fst p \<in> X \<and> (p = origin \<or> hits R origin p)" if p: "p \<in> set stack'" for p
  proof (cases "p \<in> set stack")
    case True
    then show ?thesis using W by (simp add: walking_def)
  next
    case False
    then obtain ss where ss: "(ss, p) \<in> set (get_or links c [])" "ss \<le> s" using M p by blast
    have "(c, ss, fst p, snd p) \<in> R" using row [of ss "fst p" "snd p"] ss(1) by (cases p) simp
    then show ?thesis using hit [OF ss] complete_linksD(3) [OF C _ c(1)] by blast
  qed
  moreover have "reached_seq m' t = reached_seq m0 t
      \<or> hits R origin (t, reached_seq m' t) \<and> ((t, reached_seq m' t) \<in> set stack' \<or> closed_at R m' (t, reached_seq m' t))" for t
  proof (cases "reached_seq m' t = reached_seq m t")
    case same: True
    show ?thesis
    proof (cases "reached_seq m t = reached_seq m0 t")
      case True
      then show ?thesis using same by simp
    next
      case False
      then have h: "hits R origin (t, reached_seq m t)"
        and w: "(t, reached_seq m t) \<in> set ((c, s) # stack) \<or> closed_at R m (t, reached_seq m t)"
        using W unfolding walking_def by blast+
      from w have "(t, reached_seq m t) \<in> set stack \<or> closed_at R m' (t, reached_seq m t)"
        using closed closed_at_mono [OF _ below] by auto
      then show ?thesis using h M unfolding same by blast
    qed
  next
    case False
    then have "(t, reached_seq m' t) \<in> set stack'" "\<exists>ss. (ss, t, reached_seq m' t) \<in> set (get_or links c []) \<and> ss \<le> s"
      using M by blast+
    then show ?thesis using hit by blast
  qed
  moreover have "origin \<in> set stack' \<or> closed_at R m' origin"
  proof (cases "origin = (c, s)")
    case True
    then show ?thesis using closed by simp
  next
    case False
    then have "origin \<in> set stack \<or> closed_at R m origin" using W by (auto simp: walking_def)
    then show ?thesis using M closed_at_mono [OF _ below] by blast
  qed
  moreover have "below m0 m'" using W below below_trans by (auto simp: walking_def)
  ultimately show ?thesis by (simp add: walking_def)
qed

lemma walking_loop:
  assumes "complete_links R links X" "walking R X m0 origin stack m"
  shows "walking R X m0 origin [] (materialize_loop True links stack m)"
  using assms
proof (induction "True" links stack m rule: materialize_loop.induct)
  case (1 links m)
  then show ?case by simp
next
  case (2 links c s stack m)
  obtain stack' m' where fold: "fold (materialize_link True s) (get_or links c []) (stack, m) = (stack', m')" by fastforce
  show ?case
    using 2(1) [OF fold [symmetric] 2(2) walking_step [OF 2(2,3) fold]] by (simp add: fold)
qed

lemma materialize_correct:
  assumes C: "complete_links R links X" and c: "c \<in> X"
  shows "below m (materialize True links c s m)" "closed_at R (materialize True links c s m) (c, s)"
    "reached_seq (materialize True links c s m) t = reached_seq m t
      \<or> hits R (c, s) (t, reached_seq (materialize True links c s m) t)
        \<and> closed_at R (materialize True links c s m) (t, reached_seq (materialize True links c s m) t)"
proof -
  have "walking R X m (c, s) [(c, s)] m" using c by (simp add: walking_def)
  from walking_loop [OF C this] have W: "walking R X m (c, s) [] (materialize True links c s m)"
    by (simp add: materialize_def)
  then show "below m (materialize True links c s m)" "closed_at R (materialize True links c s m) (c, s)"
    by (simp_all add: walking_def)
  show "reached_seq (materialize True links c s m) t = reached_seq m t
      \<or> hits R (c, s) (t, reached_seq (materialize True links c s m) t)
        \<and> closed_at R (materialize True links c s m) (t, reached_seq (materialize True links c s m) t)"
    using W unfolding walking_def by auto
qed

text \<open>Only positive numbers are entered, and each chain once.\<close>

definition positive_seqs :: "chain_seqs \<Rightarrow> bool" where
  "positive_seqs m \<longleftrightarrow> dict_ok m \<and> (\<forall>c s. dget m c = Some s \<longrightarrow> 0 < s)"

lemma positive_iff: "positive_seqs m \<Longrightarrow> dget m c \<noteq> None \<longleftrightarrow> 0 < reached_seq m c"
  by (cases "dget m c") (auto simp: positive_seqs_def get_or_def)

lemma positive_Nil [simp]: "positive_seqs []"
  by (simp add: positive_seqs_def)

lemma positive_dset: "positive_seqs m \<Longrightarrow> 0 < s \<Longrightarrow> positive_seqs (dset c s m)"
  by (simp add: positive_seqs_def)

lemma reached_nonneg: "positive_seqs m \<Longrightarrow> 0 \<le> reached_seq m c"
  using positive_iff [of m c] by (cases "dget m c") (auto simp: get_or_def positive_seqs_def intro: less_imp_le)

lemma positive_links:
  assumes "positive_seqs m" "fold (materialize_link True s) xs (stack, m) = (stack', m')"
  shows "positive_seqs m'"
  using assms
proof (induction xs arbitrary: stack m)
  case (Cons x xs)
  obtain ss t u where x: "x = (ss, t, u)" by (cases x)
  obtain stack1 m1 where step: "materialize_link True s x (stack, m) = (stack1, m1)" by fastforce
  have "m1 = m \<or> m1 = dset t u m \<and> reached_seq m t < u"
    using step by (auto simp: materialize_link_def x split: if_splits)
  then have "positive_seqs m1"
    using Cons.prems(1) reached_nonneg [OF Cons.prems(1), of t] by (auto intro!: positive_dset)
  then show ?case using Cons.IH [of m1 stack1] Cons.prems(2) step by simp
qed simp

lemma positive_materialize: "positive_seqs m \<Longrightarrow> positive_seqs (materialize True links c s m)"
proof -
  have "positive_seqs (materialize_loop True links stack m)" if "positive_seqs m" for stack m
    using that
  proof (induction "True" links stack m rule: materialize_loop.induct)
    case (2 links c s stack m)
    obtain stack' m' where fold: "fold (materialize_link True s) (get_or links c []) (stack, m) = (stack', m')" by fastforce
    show ?case using 2(1) [OF fold [symmetric] positive_links [OF 2(2) fold]] by (simp add: fold)
  qed simp
  then show "positive_seqs m \<Longrightarrow> positive_seqs (materialize True links c s m)"
    unfolding materialize_def by blast
qed

section \<open>Closed numbers contain all that is reached\<close>

lemma path_reached:
  assumes path: "chain_path R p q" and start: "closed_at R m p" and nonneg: "\<And>c s t u. (c, s, t, u) \<in> R \<Longrightarrow> 1 \<le> u"
    and closed: "\<And>t. 0 < reached_seq m t \<Longrightarrow> closed_at R m (t, reached_seq m t)"
  shows "fst q = fst p \<and> snd q \<le> snd p \<or> snd q \<le> reached_seq m (fst q)"
  using path start
proof (induction rule: chain_path.induct)
  case (within t s c)
  then show ?case by simp
next
  case (along c ss tc ts s q)
  have le: "ts \<le> reached_seq m tc" using along(1,2,5) by (auto simp: closed_at_def)
  moreover have "1 \<le> ts" by (rule nonneg [OF along(1)])
  ultimately have "closed_at R m (tc, ts)"
    using closed [of tc] closed_at_lower by simp
  from along.IH [OF this] le show ?case by auto
qed

end
