(* ===== verification/Auth_Chain_Ids.thy ===== *)
theory Auth_Chain_Ids
  imports Chain_Walks
begin

text \<open>
  The auth chain of events that is computed from the chain cover index is the auth chain, and so is the one
  that is found by a search of the auth events.
\<close>

section \<open>The given events\<close>

lemma fold_concat: "fold (\<lambda>b. fold f (g b)) bs acc = fold f (concat (map g bs)) acc"
  by (induction bs arbitrary: acc) simp_all

lemma given_fold:
  assumes "fold given_step rows (seen, ec) = (seen', ec')" "positive_seqs ec" "\<forall>(e, (c, s))\<in>set rows. 1 \<le> s"
  shows "set seen' = set seen \<union> fst ` set rows \<and> positive_seqs ec'
    \<and> (\<forall>c. reached_seq ec c \<le> reached_seq ec' c) \<and> (\<forall>(e, (c, s))\<in>set rows. s \<le> reached_seq ec' c)
    \<and> (\<forall>c. reached_seq ec' c = reached_seq ec c \<or> (\<exists>e. (e, (c, reached_seq ec' c)) \<in> set rows))"
  using assms
proof (induction rows arbitrary: seen ec)
  case Nil
  then show ?case by simp
next
  case (Cons r rows)
  obtain e c s where r: "r = (e, (c, s))" by (cases r)
  let ?ec = "dset c (max s (reached_seq ec c)) ec"
  have s: "1 \<le> s" using Cons.prems(3) by (simp add: r)
  have pos: "positive_seqs ?ec" using Cons.prems(2) s by (intro positive_dset) auto
  have step: "fold given_step rows (set_add e seen, ?ec) = (seen', ec')"
    using Cons.prems(1) by (simp add: r given_step_def)
  have ih: "set seen' = set (set_add e seen) \<union> fst ` set rows \<and> positive_seqs ec'
    \<and> (\<forall>c. reached_seq ?ec c \<le> reached_seq ec' c) \<and> (\<forall>(e, (c, s))\<in>set rows. s \<le> reached_seq ec' c)
    \<and> (\<forall>c. reached_seq ec' c = reached_seq ?ec c \<or> (\<exists>e. (e, (c, reached_seq ec' c)) \<in> set rows))"
    by (rule Cons.IH [OF step pos]) (use Cons.prems(3) in simp)
  have "reached_seq ec d \<le> reached_seq ec' d" for d
  proof -
    have "reached_seq ec d \<le> reached_seq ?ec d" by simp
    also have "\<dots> \<le> reached_seq ec' d" using ih by blast
    finally show ?thesis .
  qed
  moreover have "s \<le> reached_seq ec' c"
  proof -
    have "s \<le> reached_seq ?ec c" by simp
    also have "\<dots> \<le> reached_seq ec' c" using ih by blast
    finally show ?thesis .
  qed
  moreover have "reached_seq ec' d = reached_seq ec d \<or> (\<exists>e. (e, (d, reached_seq ec' d)) \<in> set (r # rows))" for d
  proof (cases "reached_seq ec' d = reached_seq ?ec d")
    case True
    then show ?thesis by (cases "d = c") (auto simp: r max_def)
  next
    case False
    then show ?thesis using ih by auto
  qed
  ultimately show ?case using ih by (auto simp: r)
qed

lemma given_chains_correct:
  assumes P: "positions_ok A (ct_chains T)" and res: "given_chains T ids = (seen, ec)"
  shows "set seen = {e \<in> set ids. position_of T e \<noteq> None}" "positive_seqs ec"
    "e \<in> set ids \<Longrightarrow> position_of T e = Some (c, s) \<Longrightarrow> s \<le> reached_seq ec c"
    "dget ec c = Some s \<Longrightarrow> \<exists>e\<in>set ids. position_of T e = Some (c, s)"
proof -
  define rows where "rows = concat (map (chain_rows T) (batch_iter ids 1000))"
  have "set (concat (batch_iter ids 1000)) = set ids" by (simp add: concat_batch_iter)
  then have "(\<exists>b\<in>set (batch_iter ids 1000). e \<in> set b) \<longleftrightarrow> e \<in> set ids" for e by auto
  then have rows: "x \<in> set rows \<longleftrightarrow> x \<in> set (ct_chains T) \<and> fst x \<in> set ids" for x
    by (auto simp: rows_def chain_rows_def case_prod_beta)
  have mem: "(e, p) \<in> set rows \<longleftrightarrow> position_of T e = Some p \<and> e \<in> set ids" for e p
    using rows [of "(e, p)"] dget_iff_mem [OF positions_okD(1) [OF P]] by auto
  have fold: "fold given_step rows ([], []) = (seen, ec)"
    using res by (simp add: given_chains_def fold_concat rows_def)
  have "\<forall>(e, (c, s))\<in>set rows. 1 \<le> s" using mem position_pos [OF P] by auto
  from given_fold [OF fold positive_Nil this]
  have F: "set seen = fst ` set rows" "positive_seqs ec" "\<forall>(e, (c, s))\<in>set rows. s \<le> reached_seq ec c"
    "\<forall>c. reached_seq ec c = 0 \<or> (\<exists>e. (e, (c, reached_seq ec c)) \<in> set rows)"
    by (auto simp: get_or_def)
  show "positive_seqs ec" by (rule F(2))
  show "set seen = {e \<in> set ids. position_of T e \<noteq> None}"
    unfolding F(1) using mem by (auto simp: image_iff Bex_def)
  show "s \<le> reached_seq ec c" if "e \<in> set ids" "position_of T e = Some (c, s)"
    using F(3) mem [of e "(c, s)"] that by auto
  show "\<exists>e\<in>set ids. position_of T e = Some (c, s)" if ec: "dget ec c = Some s"
  proof -
    have "reached_seq ec c = s" "0 < s" using ec F(2) by (auto simp: get_or_def positive_seqs_def)
    then obtain e where "(e, (c, s)) \<in> set rows" using spec [OF F(4), of c] by auto
    then show ?thesis using mem by blast
  qed
qed

section \<open>All walks\<close>

definition walked :: "link set \<Rightarrow> chain_seqs \<Rightarrow> int set \<Rightarrow> chain_seqs \<Rightarrow> bool" where
  "walked R ec D m \<longleftrightarrow> positive_seqs m
     \<and> (\<forall>t. 0 < reached_seq m t \<longrightarrow> closed_at R m (t, reached_seq m t)
         \<and> (\<exists>c s. dget ec c = Some s \<and> hits R (c, s) (t, reached_seq m t)))
     \<and> (\<forall>c\<in>D. \<forall>s. dget ec c = Some s \<longrightarrow> closed_at R m (c, s))"

lemma walked_materialize:
  assumes C: "complete_links R links X" and c: "c \<in> X" and ec: "dget ec c = Some s" and W: "walked R ec D m"
  shows "walked R ec (insert c D) (materialize True links c s m)"
proof -
  let ?m = "materialize True links c s m"
  note M = materialize_correct [where m = m and s = s, OF C c]
  have D: "closed_at R ?m (d, r)" if "d \<in> insert c D" "dget ec d = Some r" for d r
    using that W ec M(2) closed_at_mono [OF _ M(1)] by (auto simp: walked_def)
  have T: "closed_at R ?m (t, reached_seq ?m t) \<and> (\<exists>c s. dget ec c = Some s \<and> hits R (c, s) (t, reached_seq ?m t))"
    if "0 < reached_seq ?m t" for t
    using M(3) [of t]
  proof
    assume same: "reached_seq ?m t = reached_seq m t"
    show ?thesis
      unfolding same using that W closed_at_mono [OF _ M(1)] by (auto simp: walked_def same)
  next
    assume "hits R (c, s) (t, reached_seq ?m t) \<and> closed_at R ?m (t, reached_seq ?m t)"
    then show ?thesis using ec by blast
  qed
  have "positive_seqs ?m" using W by (simp add: walked_def positive_materialize)
  then show ?thesis using D T by (simp add: walked_def)
qed

lemma walked_less: "walked R ec D m \<Longrightarrow> \<forall>c\<in>D' - D. dget ec c = None \<Longrightarrow> walked R ec D' m"
  by (fastforce simp: walked_def)

lemma walked_batch:
  assumes C: "complete_links R links X" and W: "walked R ec D m"
  shows "walked R ec (D \<union> set (dkeys links)) (walk_batch ec links m)"
proof -
  have "walked R ec (D \<union> set ks) (fold (\<lambda>c reached. case dget ec c of None \<Rightarrow> reached | Some s \<Rightarrow> materialize True links c s reached) ks m)"
    if "set ks \<subseteq> X" "walked R ec D m" for ks D m
    using that
  proof (induction ks arbitrary: D m)
    case (Cons c ks)
    have "walked R ec (insert c D) (case dget ec c of None \<Rightarrow> m | Some s \<Rightarrow> materialize True links c s m)"
    proof (cases "dget ec c")
      case None
      then have "\<forall>d\<in>insert c D - D. dget ec d = None" by auto
      from walked_less [OF Cons.prems(2) this] show ?thesis using None by simp
    next
      case (Some s)
      then show ?thesis using walked_materialize [OF C _ Some Cons.prems(2)] Cons.prems(1) by simp
    qed
    from Cons.IH [OF _ this] Cons.prems(1) show ?case by simp
  qed simp
  from this [of "dkeys links" D m] W complete_linksD(1) [OF C] show ?thesis
    by (simp add: walk_batch_def subset_iff)
qed

lemma walked_all:
  assumes rows: "R = set rows" and ec: "\<And>c. dget ec c \<noteq> None \<Longrightarrow> c \<in> set cs"
  shows "walked R ec UNIV (fold (walk_batch ec) (get_chain_links rows cs) [])"
proof -
  have "walked R ec (D \<union> (\<Union>links\<in>set lls. set (dkeys links))) (fold (walk_batch ec) lls m)"
    if "set lls \<subseteq> set (get_chain_links rows cs)" "walked R ec D m" for lls D m
    using that
  proof (induction lls arbitrary: D m)
    case (Cons links lls)
    obtain X where "complete_links R links X" using get_chain_links_complete [of links rows cs] Cons.prems(1) rows by auto
    from Cons.IH [OF _ walked_batch [OF this Cons.prems(2)]] Cons.prems(1) show ?case by (simp add: Un_assoc)
  qed simp
  from this [OF order_refl, of "{}" "[]"] have W: "walked R ec ({} \<union> (\<Union>links\<in>set (get_chain_links rows cs). set (dkeys links))) (fold (walk_batch ec) (get_chain_links rows cs) [])"
    by (simp add: walked_def get_or_def)
  have "closed_at R m (c, s)" if "dget ec c = Some s" "c \<notin> (\<Union>links\<in>set (get_chain_links rows cs). set (dkeys links))" for c s m
  proof -
    have "c \<in> set cs" using ec that(1) by simp
    then have "(c, s', t, u) \<notin> R" for s' t u
      using get_chain_links_all [of c s' t u rows cs] that(2) rows by auto
    then show ?thesis by (simp add: closed_at_def)
  qed
  then have "\<forall>c\<in>UNIV. \<forall>s. dget ec c = Some s \<longrightarrow> closed_at R (fold (walk_batch ec) (get_chain_links rows cs) []) (c, s)"
    using W unfolding walked_def Un_empty_left by metis
  with W show ?thesis unfolding walked_def by (elim conjE) (intro conjI)
qed


section \<open>The auth chain from the index\<close>

lemma exclude_given_correct:
  assumes "positive_seqs ec" "positive_seqs m"
  shows "positive_seqs (exclude_given ec m)"
    "reached_seq (exclude_given ec m) c = max (reached_seq m c) (case dget ec c of None \<Rightarrow> 0 | Some s \<Rightarrow> s - 1)"
proof -
  have "positive_seqs (exclude_given ec m) \<and> (\<forall>c. reached_seq (exclude_given ec m) c =
      max (reached_seq m c) (case dget ec c of None \<Rightarrow> 0 | Some s \<Rightarrow> s - 1))"
    using assms
  proof (induction ec arbitrary: m)
    case Nil
    then show ?case using reached_nonneg [OF Nil(2)] by (simp add: exclude_given_def max_absorb1)
  next
    case (Cons x ec)
    obtain c s where x: "x = (c, s)" by (cases x)
    have ec: "positive_seqs ec" "dget ec c = None" "0 < s"
      using Cons.prems(1) by (auto simp: positive_seqs_def dict_ok_def x map_of_eq_None_iff split: if_splits)
    define m1 where "m1 = (if s = 1 then m else dset c (max (s - 1) (reached_seq m c)) m)"
    have step: "exclude_given (x # ec) m = exclude_given ec m1" by (simp add: exclude_given_def x m1_def)
    have m1: "positive_seqs m1" "reached_seq m1 d = (if d = c then max (reached_seq m c) (s - 1) else reached_seq m d)" for d
      using ec(3) Cons.prems(2) reached_nonneg [OF Cons.prems(2), of c] by (auto simp: m1_def intro!: positive_dset)
    have "reached_seq (exclude_given ec m1) d = max (reached_seq m d) (case dget (x # ec) d of None \<Rightarrow> 0 | Some s \<Rightarrow> s - 1)" for d
      using Cons.IH [OF ec(1) m1(1)] ec(2,3) reached_nonneg [OF Cons.prems(2), of d] by (auto simp: m1(2) x)
    then show ?case using Cons.IH [OF ec(1) m1(1)] by (simp add: step)
  qed
  then show "positive_seqs (exclude_given ec m)"
    "reached_seq (exclude_given ec m) c = max (reached_seq m c) (case dget ec c of None \<Rightarrow> 0 | Some s \<Rightarrow> s - 1)"
    by blast+
qed

lemma select_below_iff:
  assumes P: "positions_ok A (ct_chains T)" and m: "positive_seqs m"
  shows "e \<in> set (select_below T m) \<longleftrightarrow> (\<exists>c s. position_of T e = Some (c, s) \<and> s \<le> reached_seq m c)"
proof -
  have "e \<in> set (select_below T m) \<longleftrightarrow> (\<exists>c mx s. (c, mx) \<in> set m \<and> (e, (c, s)) \<in> set (ct_chains T) \<and> s \<le> mx)"
  proof
    assume "\<exists>c mx s. (c, mx) \<in> set m \<and> (e, (c, s)) \<in> set (ct_chains T) \<and> s \<le> mx"
    then obtain c mx s where mem: "(c, mx) \<in> set m" "(e, (c, s)) \<in> set (ct_chains T)" "s \<le> mx"
      by blast
    have "e \<in> fst ` set (filter (\<lambda>(_, (c', s)). c' = c \<and> s \<le> mx) (ct_chains T))" using mem(2,3) by force
    then show "e \<in> set (select_below T m)"
      using mem(1) by (auto simp: select_below_def intro!: bexI [of _ "(c, mx)"])
  qed (auto simp: select_below_def, blast)
  also have "\<dots> \<longleftrightarrow> (\<exists>c mx s. dget m c = Some mx \<and> position_of T e = Some (c, s) \<and> s \<le> mx)"
    using m by (simp add: dget_iff_mem positive_seqs_def positions_okD(1) [OF P])
  also have "\<dots> \<longleftrightarrow> (\<exists>c s. position_of T e = Some (c, s) \<and> s \<le> reached_seq m c)"
  proof
    assume "\<exists>c s. position_of T e = Some (c, s) \<and> s \<le> reached_seq m c"
    then obtain c s where e: "position_of T e = Some (c, s)" and s: "s \<le> reached_seq m c" by blast
    have "0 < reached_seq m c" using position_pos [OF P e] s by simp
    then obtain mx where "dget m c = Some mx" using positive_iff [OF m, of c] by blast
    then show "\<exists>c mx s. dget m c = Some mx \<and> position_of T e = Some (c, s) \<and> s \<le> mx"
      using e s by (auto simp: get_or_def)
  qed (auto simp: get_or_def)
  finally show ?thesis .
qed

text \<open>The auth chain of an event, without the event, in terms of the index.\<close>

definition ancestors :: "auth_graph \<Rightarrow> string \<Rightarrow> string set" where
  "ancestors A e = {a. (a, e) \<in> (auth_edges A)\<^sup>+}"

lemma auth_chain_of_ancestors: "auth_chain_of A e = insert e (ancestors A e)"
  by (auto simp: auth_chain_of_def ancestors_def rtrancl_eq_or_trancl)

lemma ancestors_below: "a \<in> auth_chain_of A b \<Longrightarrow> b \<in> ancestors A e \<Longrightarrow> a \<in> ancestors A e"
  unfolding auth_chain_of_def ancestors_def mem_Collect_eq by (rule rtrancl_trancl_trancl)

lemma not_own_ancestor: "wf (auth_edges A) \<Longrightarrow> e \<notin> ancestors A e"
  using wf_acyclic by (auto simp: ancestors_def acyclic_def)

lemma ancestors_indexed:
  assumes P: "positions_ok A P" and a: "a \<in> auth_chain_of A e" and e: "dget P e \<noteq> None"
  shows "dget P a \<noteq> None"
proof -
  have "(a, e) \<in> (auth_edges A)\<^sup>*" using a by (simp add: auth_chain_of_def)
  then show ?thesis
  proof (induction rule: converse_rtrancl_induct)
    case base
    show ?case by (rule e)
  next
    case (step a b)
    then show ?case using positions_okD(4) [OF P, of b _ a] by (auto simp: auth_edges_def)
  qed
qed

lemma hits_ancestor:
  assumes ok: "index_ok A T" and e: "position_of T e = Some p" and h: "hits (set (ct_links T)) p (c, u)"
    and a: "position_of T a = Some (c, s)" "s \<le> u"
  shows "a \<in> ancestors A e"
proof -
  have P: "positions_ok A (ct_chains T)" and L: "links_lead A (ct_chains T) (set (ct_links T))"
    using ok by (simp_all add: index_ok_def links_ok_parts)
  obtain d t where d: "chain_path (set (ct_links T)) p (d, t)" "(d, t, c, u) \<in> set (ct_links T)"
    using h unfolding hits_def by blast
  from bspec [OF L [unfolded links_lead_def] d(2)] obtain x y where
    xy: "position_of T x = Some (d, t)" "position_of T y = Some (c, u)" "y \<in> set (A x)" by auto
  have "x \<in> auth_chain_of A e" using index_represents [OF ok e xy(1)] d(1) by simp
  then have "(y, e) \<in> (auth_edges A)\<^sup>+"
    using xy(3) by (auto simp: auth_chain_of_def auth_edges_def intro: rtrancl_into_trancl2)
  then have "y \<in> ancestors A e" by (simp add: ancestors_def)
  moreover have "a \<in> auth_chain_of A y"
    using index_represents [OF ok xy(2) a(1)] chain_path.within [OF a(2)] by simp
  ultimately show ?thesis using ancestors_below by blast
qed

lemma auth_chain_ids_index:
  assumes ok: "index_ok A T" and wf: "wf (auth_edges A)" and ids: "\<And>e. e \<in> set ids \<Longrightarrow> position_of T e \<noteq> None"
  obtains r where "get_auth_chain_ids_using_cover_index T ids include_given = Inr r"
    "set r = (if include_given then set ids else {}) \<union> (\<Union>e\<in>set ids. ancestors A e)"
proof -
  let ?R = "set (ct_links T)"
  have P: "positions_ok A (ct_chains T)" and L: "links_lead A (ct_chains T) ?R"
    using ok by (simp_all add: index_ok_def links_ok_parts)
  obtain seen ec where given: "given_chains T (remdups ids) = (seen, ec)" by fastforce
  note G = given_chains_correct [OF P given]
  define m where "m = fold (walk_batch ec) (get_chain_links (ct_links T) (dkeys ec)) []"
  have "c \<in> set (dkeys ec)" if "dget ec c \<noteq> None" for c
    by (rule ccontr) (use that dget_None_iff [of ec c] in simp)
  then have W: "walked ?R ec UNIV m" unfolding m_def by (rule walked_all [OF refl])
  have m: "positive_seqs m" using W by (simp add: walked_def)
  note X = exclude_given_correct [OF G(2) m]
  define r where "r = set_union (if include_given then remdups ids else []) (select_below T (exclude_given ec m))"
  have res: "get_auth_chain_ids_using_cover_index T ids include_given = Inr r"
  proof -
    have "\<not> list_ex (\<lambda>e. e \<notin> set seen) (remdups ids)" using G(1) ids by (auto simp: list_ex_iff)
    then show ?thesis by (simp add: get_auth_chain_ids_using_cover_index_def Let_def given m_def r_def)
  qed
  have rows: "1 \<le> u" if "(c, s, t, u) \<in> ?R" for c s t u
    using bspec [OF L [unfolded links_lead_def] that] position_pos [OF P] by auto
  have "a \<in> set (select_below T (exclude_given ec m)) \<longleftrightarrow> (\<exists>e\<in>set ids. a \<in> ancestors A e)" for a
  proof
    assume "a \<in> set (select_below T (exclude_given ec m))"
    then obtain c s where a: "position_of T a = Some (c, s)" and s: "s \<le> reached_seq (exclude_given ec m) c"
      unfolding select_below_iff [OF P X(1)] by blast
    then consider "s \<le> reached_seq m c" | s0 where "dget ec c = Some s0" "s \<le> s0 - 1"
      using X(2) [of c] position_pos [OF P a] by (auto simp: max_def split: if_splits option.splits)
    then show "\<exists>e\<in>set ids. a \<in> ancestors A e"
    proof cases
      case 1
      then have "0 < reached_seq m c" using position_pos [OF P a] by simp
      then obtain c0 s0 where h: "dget ec c0 = Some s0" "hits ?R (c0, s0) (c, reached_seq m c)"
        using W unfolding walked_def by blast
      obtain e where "e \<in> set ids" "position_of T e = Some (c0, s0)" using G(4) [OF h(1)] by auto
      then show ?thesis using hits_ancestor [OF ok _ h(2) a 1] by blast
    next
      case (2 s0)
      obtain e where e: "e \<in> set ids" "position_of T e = Some (c, s0)" using G(4) [OF 2(1)] by auto
      have "a \<in> auth_chain_of A e" using index_represents [OF ok e(2) a] chain_path.within [of s s0] 2(2) by simp
      moreover have "a \<noteq> e" using a e(2) 2(2) by auto
      ultimately show ?thesis using e(1) by (auto simp: auth_chain_of_ancestors)
    qed
  next
    assume "\<exists>e\<in>set ids. a \<in> ancestors A e"
    then obtain e where e: "e \<in> set ids" "a \<in> ancestors A e" by blast
    then have chain: "a \<in> auth_chain_of A e" by (simp add: auth_chain_of_ancestors)
    obtain ce se where pe: "position_of T e = Some (ce, se)" using ids [OF e(1)] by (cases "position_of T e") auto
    obtain c s where pa: "position_of T a = Some (c, s)"
      using ancestors_indexed [OF P chain] pe by (cases "position_of T a") auto
    have path: "chain_path ?R (ce, se) (c, s)" using index_represents [OF ok pe pa] chain by simp
    have le: "se \<le> reached_seq ec ce" using G(3) [of e ce se] e(1) pe by simp
    then have "0 < reached_seq ec ce" using position_pos [OF P pe] by simp
    then obtain mx where mx: "dget ec ce = Some mx" using positive_iff [OF G(2), of ce] by blast
    then have "se \<le> mx" using le by (simp add: get_or_def)
    moreover have "closed_at ?R m (ce, mx)" using W mx by (simp add: walked_def)
    ultimately have start: "closed_at ?R m (ce, se)" using closed_at_lower by blast
    have "c = ce \<and> s \<le> se \<or> s \<le> reached_seq m c"
      using path_reached [OF path start rows] W by (auto simp: walked_def)
    then have "s \<le> reached_seq (exclude_given ec m) c"
    proof (elim disjE conjE)
      assume "s \<le> reached_seq m c"
      then show ?thesis using X(2) [of c] by simp
    next
      assume same: "c = ce" "s \<le> se"
      have "s \<noteq> se"
        using positions_okD(2) [OF P pa, of e] pe same(1) e(2) not_own_ancestor [OF wf] by auto
      then show ?thesis using X(2) [of c] mx same \<open>se \<le> mx\<close> by simp
    qed
    then show "a \<in> set (select_below T (exclude_given ec m))"
      unfolding select_below_iff [OF P X(1)] using pa by blast
  qed
  then have "set r = (if include_given then set ids else {}) \<union> (\<Union>e\<in>set ids. ancestors A e)"
    by (auto simp: r_def set_set_union)
  then show thesis using that res by blast
qed

lemma auth_chain_ids_unindexed:
  assumes ok: "index_ok A T" and e: "e \<in> set ids" "position_of T e = None"
  shows "get_auth_chain_ids_using_cover_index T ids include_given = Inl NoChainCoverIndex"
proof -
  have P: "positions_ok A (ct_chains T)" using ok by (simp add: index_ok_def)
  obtain seen ec where given: "given_chains T (remdups ids) = (seen, ec)" by fastforce
  have "list_ex (\<lambda>e. e \<notin> set seen) (remdups ids)"
  proof -
    have "e \<notin> set seen" using given_chains_correct(1) [OF P given] e(2) by simp
    then show ?thesis using e(1) by (auto simp: list_ex_iff)
  qed
  then show ?thesis by (simp add: get_auth_chain_ids_using_cover_index_def Let_def given)
qed


section \<open>The auth chain from a search\<close>

text \<open>The auth events that the tables give, and a cache that holds them.\<close>

definition stored_auths :: "chain_tables \<Rightarrow> string \<Rightarrow> string set" where
  "stored_auths T e = {a \<in> set (select_auth T e). dget (ct_state T) a \<noteq> None}"

definition stored_edges :: "chain_tables \<Rightarrow> (string \<times> string) set" where
  "stored_edges T = {(a, e). a \<in> stored_auths T e}"

definition coherent :: "chain_tables \<Rightarrow> auth_cache \<Rightarrow> bool" where
  "coherent T cache \<longleftrightarrow> (\<forall>e l. dget cache e = Some l \<longrightarrow> fst ` set l = stored_auths T e)"

lemma auth_rows_stored: "(e, a, d) \<in> set (auth_rows T depth tf) \<longleftrightarrow> e \<in> set tf \<and> a \<in> stored_auths T e \<and> d = depth a"
  by (auto simp: auth_rows_def stored_auths_def select_auth_def image_iff)

lemma to_cache_fold:
  defines "f \<equiv> \<lambda>(e, a, d) to_cache. dset e (get_or to_cache e [] @ [(a, d)]) to_cache"
  shows "dget (fold f rows c) e = (if e \<in> fst ` set rows then Some (get_or c e [] @ map snd (filter (\<lambda>r. fst r = e) rows)) else dget c e)"
    and "dict_ok c \<Longrightarrow> dict_ok (fold f rows c)"
proof -
  show "dget (fold f rows c) e = (if e \<in> fst ` set rows then Some (get_or c e [] @ map snd (filter (\<lambda>r. fst r = e) rows)) else dget c e)"
  proof (induction rows arbitrary: c)
    case (Cons r rows)
    obtain x a d where r: "r = (x, a, d)" by (cases r)
    show ?case
    proof (cases "x = e")
      case True
      then show ?thesis using Cons [of "f r c"] by (auto simp: r f_def get_or_def filter_empty_conv image_iff)
    next
      case False
      then show ?thesis using Cons [of "f r c"] by (auto simp: r f_def)
    qed
  qed simp
  show "dict_ok c \<Longrightarrow> dict_ok (fold f rows c)"
    by (induction rows arbitrary: c) (auto simp: f_def)
qed

lemma coherent_rows:
  assumes "coherent T cache"
  shows "coherent T (cache_rows (auth_rows T depth tf) cache)"
  unfolding coherent_def
proof (intro allI impI)
  fix e l assume l: "dget (cache_rows (auth_rows T depth tf) cache) e = Some l"
  let ?rows = "auth_rows T depth tf"
  let ?new = "fold (\<lambda>(e, a, d) to_cache. dset e (get_or to_cache e [] @ [(a, d)]) to_cache) ?rows []"
  have "dict_ok ?new" by (rule to_cache_fold(2)) simp
  then have get: "dget (cache_rows ?rows cache) e = (case dget ?new e of None \<Rightarrow> dget cache e | Some l \<Rightarrow> Some l)"
    by (simp add: cache_rows_def dget_dupdate dget_rev)
  show "fst ` set l = stored_auths T e"
  proof (cases "e \<in> fst ` set ?rows")
    case True
    then have "dget ?new e = Some (map snd (filter (\<lambda>r. fst r = e) ?rows))" by (subst to_cache_fold(1)) (simp add: get_or_def)
    then have l': "l = map snd (filter (\<lambda>r. fst r = e) ?rows)" using l get by simp
    have "e \<in> set tf" using True auth_rows_stored by force
    then have "a \<in> fst ` set l \<longleftrightarrow> a \<in> stored_auths T e" for a
      unfolding l' using auth_rows_stored [of e a "depth a" T depth tf] auth_rows_stored [of e a _ T depth tf]
      by (force simp: image_iff)
    then show ?thesis by blast
  next
    case False
    then have "dget ?new e = None" by (subst to_cache_fold(1)) simp
    then show ?thesis using l get assms by (simp add: coherent_def)
  qed
qed

lemma auth_chunk_correct:
  assumes "coherent T cache" "auth_chunk T depth chunk (nf, cache) = (nf', cache')"
  shows "set nf' = set nf \<union> (\<Union>e\<in>set chunk. stored_auths T e)" "coherent T cache'"
proof -
  let ?f = "\<lambda>e (new_front, to_fetch). case dget cache e of
    None \<Rightarrow> (new_front, to_fetch @ [e]) | Some res \<Rightarrow> (set_union new_front (map fst res), to_fetch)"
  obtain nf1 tf where fold: "fold ?f chunk (nf, []) = (nf1, tf)" by fastforce
  have "fold ?f es (nf, tf) = (nf', tf') \<Longrightarrow>
      set nf' \<union> (\<Union>e\<in>set tf'. stored_auths T e) = set nf \<union> (\<Union>e\<in>set tf. stored_auths T e) \<union> (\<Union>e\<in>set es. stored_auths T e)"
    for es nf tf nf' tf'
  proof (induction es arbitrary: nf tf)
    case (Cons e es)
    show ?case
    proof (cases "dget cache e")
      case None
      then show ?thesis using Cons.IH [of nf "tf @ [e]"] Cons.prems by auto
    next
      case (Some res)
      then have "fst ` set res = stored_auths T e" using assms(1) by (simp add: coherent_def)
      then show ?thesis using Cons.IH [of "set_union nf (map fst res)" tf] Cons.prems Some by (auto simp: set_set_union)
    qed
  qed simp
  from this [OF fold] have eq: "set nf1 \<union> (\<Union>e\<in>set tf. stored_auths T e) = set nf \<union> (\<Union>e\<in>set chunk. stored_auths T e)" by simp
  have res: "nf' = set_union nf1 (map (\<lambda>(_, a, _). a) (auth_rows T depth tf))" "cache' = cache_rows (auth_rows T depth tf) cache"
    using assms(2) by (simp_all add: auth_chunk_def fold Let_def)
  have "(\<lambda>(_, a, _). a) ` set (auth_rows T depth tf) = (\<Union>e\<in>set tf. stored_auths T e)"
  proof (rule set_eqI)
    fix a
    have "a \<in> (\<lambda>(_, a, _). a) ` set (auth_rows T depth tf) \<longleftrightarrow> (\<exists>e d. (e, a, d) \<in> set (auth_rows T depth tf))" by force
    then show "a \<in> (\<lambda>(_, a, _). a) ` set (auth_rows T depth tf) \<longleftrightarrow> a \<in> (\<Union>e\<in>set tf. stored_auths T e)"
      unfolding auth_rows_stored by blast
  qed
  then show "set nf' = set nf \<union> (\<Union>e\<in>set chunk. stored_auths T e)" using eq by (simp add: res(1) set_set_union)
  show "coherent T cache'" unfolding res(2) by (rule coherent_rows [OF assms(1)])
qed

lemma auth_front_correct:
  assumes "coherent T cache" "auth_front T depth front cache = (nf, cache')"
  shows "set nf = (\<Union>e\<in>set front. stored_auths T e)" "coherent T cache'"
proof -
  have "set nf' = set nf \<union> (\<Union>c\<in>set chunks. \<Union>e\<in>set c. stored_auths T e) \<and> coherent T cache'"
    if "coherent T cache" "fold (auth_chunk T depth) chunks (nf, cache) = (nf', cache')" for chunks nf cache nf' cache'
    using that
  proof (induction chunks arbitrary: nf cache)
    case (Cons c chunks)
    obtain nf1 cache1 where step: "auth_chunk T depth c (nf, cache) = (nf1, cache1)" by fastforce
    note one = auth_chunk_correct [OF Cons.prems(1) step]
    show ?case using Cons.IH [OF one(2)] Cons.prems(2) step one(1) by auto
  qed simp
  from this [OF assms(1) assms(2) [unfolded auth_front_def]]
  have "set nf = (\<Union>c\<in>set (batch_iter front 100). \<Union>e\<in>set c. stored_auths T e)" "coherent T cache'" by simp_all
  moreover have "(\<Union>c\<in>set (batch_iter front 100). \<Union>e\<in>set c. stored_auths T e) =
      (\<Union>e\<in>set (concat (batch_iter front 100)). stored_auths T e)" by auto
  ultimately show "set nf = (\<Union>e\<in>set front. stored_auths T e)" "coherent T cache'"
    by (simp_all add: concat_batch_iter)
qed

lemma auth_chain_search_correct:
  assumes "coherent T cache" "\<forall>r\<in>set results. r \<in> set front \<or> stored_auths T r \<subseteq> set results"
    and "auth_chain_search T depth front results cache = (res, cache')"
  shows "set results \<subseteq> set res \<and> (\<forall>e\<in>set front \<union> set res. stored_auths T e \<subseteq> set res)
    \<and> (\<forall>a\<in>set res. a \<in> set results \<or> (\<exists>e\<in>set front. (a, e) \<in> (stored_edges T)\<^sup>+))"
  using assms
proof (induction T depth front results cache rule: auth_chain_search.induct)
  case (1 T depth front results cache)
  show ?case
  proof (cases "front = []")
    case True
    then show ?thesis using 1(3,4) by (auto simp: auth_chain_search.simps [of T depth "[]"])
  next
    case False
    obtain nf cache1 where round: "auth_front T depth front cache = (nf, cache1)" by fastforce
    note F = auth_front_correct [OF 1(2) round]
    define front' where "front' = filter (\<lambda>e. e \<notin> set results) nf"
    let ?results = "set_union results front'"
    have set': "set ?results = set results \<union> set nf" by (auto simp: front'_def set_set_union)
    have rec: "auth_chain_search T depth front' ?results cache1 = (res, cache')"
      using 1(4) False by (subst (asm) auth_chain_search.simps) (simp add: round front'_def Let_def)
    have "\<forall>r\<in>set ?results. r \<in> set front' \<or> stored_auths T r \<subseteq> set ?results"
    proof
      fix r assume "r \<in> set ?results"
      then consider "r \<in> set front'" | "r \<in> set results" by (auto simp: set_set_union)
      then show "r \<in> set front' \<or> stored_auths T r \<subseteq> set ?results"
      proof cases
        case 2
        then have "r \<in> set front \<or> stored_auths T r \<subseteq> set results" using 1(3) by blast
        then show ?thesis unfolding set' F(1) by blast
      qed simp
    qed
    from 1(1) [OF False round [symmetric] front'_def F(2) this rec]
    have ih: "set ?results \<subseteq> set res" "\<forall>e\<in>set front' \<union> set res. stored_auths T e \<subseteq> set res"
      "\<forall>a\<in>set res. a \<in> set ?results \<or> (\<exists>e\<in>set front'. (a, e) \<in> (stored_edges T)\<^sup>+)" by blast+
    have "stored_auths T e \<subseteq> set res" if "e \<in> set front \<union> set res" for e
      using that ih(1,2) unfolding set' F(1) by blast
    moreover have "a \<in> set results \<or> (\<exists>e\<in>set front. (a, e) \<in> (stored_edges T)\<^sup>+)" if a: "a \<in> set res" for a
    proof -
      have up: "\<exists>e\<in>set front. (b, e) \<in> stored_edges T" if "b \<in> set nf" for b
        using that unfolding F(1) by (auto simp: stored_edges_def)
      from ih(3) a consider "a \<in> set results" | "a \<in> set nf" | b where "b \<in> set nf" "(a, b) \<in> (stored_edges T)\<^sup>+"
        unfolding set' by (auto simp: front'_def)
      then show ?thesis
      proof cases
        case 2
        then show ?thesis using up by blast
      next
        case (3 b)
        then show ?thesis using up [of b] trancl_into_trancl by metis
      qed simp
    qed
    ultimately show ?thesis using ih(1) unfolding set' by blast
  qed
qed

lemma auth_chain_ids_search:
  assumes "coherent T cache"
  shows "set (fst (get_auth_chain_ids_txn T depth cache ids include_given)) =
    (if include_given then set ids else {}) \<union> {a. \<exists>e\<in>set ids. (a, e) \<in> (stored_edges T)\<^sup>+}"
proof -
  let ?given = "if include_given then remdups ids else []"
  obtain res cache' where run: "auth_chain_search T depth (remdups ids) ?given cache = (res, cache')" by fastforce
  have "\<forall>r\<in>set ?given. r \<in> set (remdups ids) \<or> stored_auths T r \<subseteq> set ?given" by simp
  from auth_chain_search_correct [OF assms this run]
  have R: "set ?given \<subseteq> set res" "\<forall>e\<in>set (remdups ids) \<union> set res. stored_auths T e \<subseteq> set res"
    "\<forall>a\<in>set res. a \<in> set ?given \<or> (\<exists>e\<in>set (remdups ids). (a, e) \<in> (stored_edges T)\<^sup>+)" by blast+
  have "a \<in> set res" if "(a, e) \<in> (stored_edges T)\<^sup>+" "e \<in> set ids" for a e
    using that
  proof (induction rule: converse_trancl_induct)
    case (base a)
    then show ?case using R(2) by (auto simp: stored_edges_def)
  next
    case (step a b)
    then show ?case using R(2) by (auto simp: stored_edges_def)
  qed
  then have "set res = (if include_given then set ids else {}) \<union> {a. \<exists>e\<in>set ids. (a, e) \<in> (stored_edges T)\<^sup>+}"
    using R(1,3) by (auto split: if_splits)
  then show ?thesis by (simp add: get_auth_chain_ids_txn_def run)
qed

text \<open>For events with a position, all auth events are stored.\<close>

lemma stored_ancestors:
  assumes ok: "index_ok A T" and e: "position_of T e \<noteq> None"
  shows "{a. (a, e) \<in> (stored_edges T)\<^sup>+} = ancestors A e"
proof -
  have P: "positions_ok A (ct_chains T)" and rows: "rows_ok A T" using ok by (simp_all add: index_ok_def)
  have edge: "(a, f) \<in> stored_edges T \<longleftrightarrow> (a, f) \<in> auth_edges A" if f: "position_of T f \<noteq> None" for a f
  proof -
    have st: "dget (ct_state T) f \<noteq> None" by (rule rows_okD(2) [OF rows f])
    have "dget (ct_state T) a \<noteq> None" if "a \<in> set (A f)"
    proof -
      have "position_of T a \<noteq> None" using positions_okD(4) [OF P _ that] f by auto
      then show ?thesis by (rule rows_okD(2) [OF rows])
    qed
    then show ?thesis
      using rows_okD(1) [OF rows, of f] st by (cases "dget (ct_state T) f") (auto simp: stored_edges_def stored_auths_def auth_edges_def)
  qed
  have indexed: "position_of T b \<noteq> None" if "(b, e) \<in> (auth_edges A)\<^sup>*" for b
    using ancestors_indexed [OF P _ e, of b] that by (simp add: auth_chain_of_def)
  have "(a, e) \<in> (stored_edges T)\<^sup>+ \<longleftrightarrow> (a, e) \<in> (auth_edges A)\<^sup>+" for a
  proof
    assume "(a, e) \<in> (stored_edges T)\<^sup>+"
    then show "(a, e) \<in> (auth_edges A)\<^sup>+"
    proof (induction rule: converse_trancl_induct)
      case (base a)
      then show ?case using edge [OF e] by blast
    next
      case (step a b)
      have "(a, b) \<in> auth_edges A" using edge [OF indexed] step(1,3) by (meson trancl_into_rtrancl)
      then show ?case using step(3) by (rule trancl_into_trancl2)
    qed
  next
    assume "(a, e) \<in> (auth_edges A)\<^sup>+"
    then show "(a, e) \<in> (stored_edges T)\<^sup>+"
    proof (induction rule: converse_trancl_induct)
      case (base a)
      then show ?case using edge [OF e] by blast
    next
      case (step a b)
      have "(a, b) \<in> stored_edges T" using edge [OF indexed] step(1,2) by (meson trancl_into_rtrancl)
      then show ?case using step(3) by (rule trancl_into_trancl2)
    qed
  qed
  then show ?thesis by (auto simp: ancestors_def)
qed


section \<open>Both are right\<close>

text \<open>
  C26. For events with a position, the auth chain that is computed from the links between chains is the set of
  all ancestors in the auth graph, with the events themselves if they are asked for, and the search of the
  auth events, with whatever the cache holds, finds the same events.
\<close>

theorem auth_chain_ids_correct:
  assumes "auth_graph_ok A" "indexed_tables A T" "coherent T cache"
    and "\<And>e. e \<in> set ids \<Longrightarrow> position_of T e \<noteq> None"
  shows "\<exists>r. get_auth_chain_ids_using_cover_index T ids include_given = Inr r
    \<and> set r = (if include_given then set ids else {}) \<union> (\<Union>e\<in>set ids. ancestors A e)
    \<and> set (fst (get_auth_chain_ids_txn T depth cache ids include_given)) = set r"
proof -
  have ok: "index_ok A T" and wf: "wf (auth_edges A)"
    using indexed_tables_ok [OF assms(1,2)] assms(1) by (simp_all add: auth_graph_ok_def)
  obtain r where r: "get_auth_chain_ids_using_cover_index T ids include_given = Inr r"
    "set r = (if include_given then set ids else {}) \<union> (\<Union>e\<in>set ids. ancestors A e)"
    by (rule auth_chain_ids_index [OF ok wf assms(4)])
  have "{a. \<exists>e\<in>set ids. (a, e) \<in> (stored_edges T)\<^sup>+} = (\<Union>e\<in>set ids. ancestors A e)"
    using stored_ancestors [OF ok assms(4)] by blast
  then show ?thesis
    using r auth_chain_ids_search [OF assms(3), of depth ids include_given] by simp
qed

theorem auth_chain_ids_correct_witness:
  "\<exists>r. get_auth_chain_ids_using_cover_index example_tables [''qqqq'', ''mm''] False = Inr r
    \<and> set r = ancestors example_auth ''qqqq'' \<union> ancestors example_auth ''mm''
    \<and> set (fst (get_auth_chain_ids_txn example_tables (\<lambda>_. 0) [] [''qqqq'', ''mm''] False)) = set r"
proof -
  have pos: "position_of example_tables ''mm'' = Some (2, 1)" by code_simp
  have "position_of example_tables e \<noteq> None" if "e \<in> set [''qqqq'', ''mm'']" for e
    using that pos example_positions by auto
  from auth_chain_ids_correct [where ids = "[''qqqq'', ''mm'']" and cache = "[]" and include_given = False and depth = "\<lambda>_. 0", OF example_graph_ok example_indexed _ this]
  show ?thesis by (simp add: coherent_def)
qed

lemma get_auth_chain_ids_no_index:
  assumes "index_ok A T" "e \<in> set ids" "position_of T e = None"
  shows "get_auth_chain_ids T depth cache True allow ids include_given =
    (if allow then Inr (fst (get_auth_chain_ids_txn T depth cache ids include_given)) else Inl NoChainCoverIndex)"
  using auth_chain_ids_unindexed [OF assms] by (simp add: get_auth_chain_ids_def Let_def)

end
