(* ===== verification/Auth_Difference.thy ===== *)
theory Auth_Difference
  imports Auth_Chain_Ids
begin

text \<open>
  The auth chain difference of state sets from the chain cover index, with the conflicted subgraph of the
  newest state resolution: \<open>_get_auth_chain_difference_using_cover_index_txn\<close> and its helpers.
\<close>

section \<open>Positions of events\<close>

record auth_state_difference =
  auth_difference :: "string list"
  conflicted_subgraph :: "string list"

text \<open>\<open>chain_info\<close>, \<open>chain_to_event\<close> and \<open>seen_chains\<close>, which \<open>fetch_chain_info\<close> fills\<close>

record chain_lookup =
  cl_info :: "(string, position) pydict"
  cl_event :: "(int, (int, string) pydict) pydict"
  cl_seen :: "int list"

definition fetch_chain_row :: "string \<times> position \<Rightarrow> chain_lookup \<Rightarrow> chain_lookup" where
  "fetch_chain_row = (\<lambda>(e, (c, s)) v.
     v\<lparr>cl_info := dset e (c, s) (cl_info v), cl_seen := set_add c (cl_seen v),
        cl_event := dset c (dset s e (inner_map c (cl_event v))) (cl_event v)\<rparr>)"

definition fetch_chain_info :: "chain_tables \<Rightarrow> string list \<Rightarrow> chain_lookup \<Rightarrow> chain_lookup" where
  "fetch_chain_info T events_to_fetch v =
     fold (\<lambda>batch. fold fetch_chain_row (chain_rows T batch)) (batch_iter events_to_fetch 1000) v"

section \<open>Events without a position\<close>

text \<open>The auth events of the events of the room that wait for a position; and those that have one.\<close>

definition waiting_rows :: "chain_tables \<Rightarrow> string \<Rightarrow> (string \<times> string option) list" where
  "waiting_rows T room_id =
     concat (map (\<lambda>(e, _). case select_auth T e of [] \<Rightarrow> [(e, None)] | as \<Rightarrow> map (\<lambda>a. (e, Some a)) as)
       (filter (\<lambda>(_, r, _). r = room_id) (ct_to_calculate T)))"

definition waiting_step :: "chain_tables \<Rightarrow> string \<times> string option
    \<Rightarrow> (string, string list) pydict \<times> string list \<Rightarrow> (string, string list) pydict \<times> string list" where
  "waiting_step T = (\<lambda>(event_id, auth_id) (event_to_auth_ids, indexed).
     (let s = get_or event_to_auth_ids event_id [] in
      case auth_id of
        None \<Rightarrow> (dset event_id s event_to_auth_ids, indexed)
      | Some a \<Rightarrow> (dset event_id (set_add a s) event_to_auth_ids,
           if dget (ct_chains T) a \<noteq> None then set_add a indexed else indexed)))"

function partial_auth_chain :: "(string, string list) pydict \<Rightarrow> string list \<Rightarrow> string list \<Rightarrow> string list" where
  "partial_auth_chain event_to_auth_ids [] to_add = to_add"
| "partial_auth_chain event_to_auth_ids (auth_id # processing) to_add =
     (let to_add' = set_add auth_id to_add in
      case dget event_to_auth_ids auth_id of
        None \<Rightarrow> partial_auth_chain event_to_auth_ids processing to_add'
      | Some sub_auth_ids \<Rightarrow>
          partial_auth_chain event_to_auth_ids (set_union processing (filter (\<lambda>a. a \<notin> set to_add') sub_auth_ids)) to_add')"
  by pat_completeness auto
termination
proof (relation "inv_image (less_than <*lex*> less_than) (\<lambda>(g, processing, to_add).
    (card (set processing \<union> (\<Union>x\<in>set g. set (snd x)) - set to_add), length (filter (\<lambda>a. a \<in> set to_add) processing)))")
  fix g :: "(string, string list) pydict" and a :: string and processing to_add to_add' :: "string list"
  assume t: "to_add' = set_add a to_add"
  let ?U = "\<Union>x\<in>set g. set (snd x)"
  have less: "(card (set p \<union> ?U - set to_add') , length (filter (\<lambda>a. a \<in> set to_add') p)) <
      (card (set (a # processing) \<union> ?U - set to_add), length (filter (\<lambda>a. a \<in> set to_add) (a # processing)))"
    if p: "set p \<subseteq> set processing \<union> ?U" "a \<in> set to_add \<Longrightarrow> length (filter (\<lambda>a. a \<in> set to_add) p) \<le> length (filter (\<lambda>a. a \<in> set to_add) processing)" for p
  proof (cases "a \<in> set to_add")
    case True
    have "set to_add' = set to_add" using True by (auto simp: t)
    moreover have "card (set p \<union> ?U - set to_add) \<le> card (set (a # processing) \<union> ?U - set to_add)"
      by (rule card_mono) (use p(1) in auto)
    ultimately show ?thesis using p(2) [OF True] True by (simp add: less_prod_def order_le_less) linarith
  next
    case False
    have "set p \<union> ?U - set to_add' \<subset> set (a # processing) \<union> ?U - set to_add"
      using p(1) False by (auto simp: t)
    then have "card (set p \<union> ?U - set to_add') < card (set (a # processing) \<union> ?U - set to_add)"
      by (rule psubset_card_mono [rotated]) simp
    then show ?thesis by (simp add: less_prod_def)
  qed
  show "((g, processing, to_add'), g, a # processing, to_add) \<in> inv_image (less_than <*lex*> less_than) (\<lambda>(g, processing, to_add).
    (card (set processing \<union> (\<Union>x\<in>set g. set (snd x)) - set to_add), length (filter (\<lambda>a. a \<in> set to_add) processing)))"
    using less [of processing] by (auto simp: less_prod_def)
  fix sub assume sub: "dget g a = Some sub"
  define p where "p = set_union processing (filter (\<lambda>a. a \<notin> set to_add') sub)"
  have "set p \<subseteq> set processing \<union> ?U"
    using map_of_SomeD [OF sub] by (force simp: p_def set_set_union)
  moreover have "length (filter (\<lambda>a. a \<in> set to_add) p) \<le> length (filter (\<lambda>a. a \<in> set to_add) processing)" if "a \<in> set to_add"
  proof -
    obtain zs where zs: "p = processing @ zs" "set zs \<subseteq> set (filter (\<lambda>a. a \<notin> set to_add') sub)"
      using set_union_append [of processing "filter (\<lambda>a. a \<notin> set to_add') sub"] by (auto simp: p_def)
    have "filter (\<lambda>a. a \<in> set to_add) zs = []" using zs(2) by (auto simp: t filter_empty_conv)
    then show ?thesis by (simp add: zs(1))
  qed
  ultimately show "((g, p, to_add'), g, a # processing, to_add) \<in> inv_image (less_than <*lex*> less_than) (\<lambda>(g, processing, to_add).
    (card (set processing \<union> (\<Union>x\<in>set g. set (snd x)) - set to_add), length (filter (\<lambda>a. a \<in> set to_add) processing)))"
    using less [of p] by (auto simp: less_prod_def)
qed (intro wf_inv_image wf_lex_prod wf_less_than)

text \<open>The events of one state set are replaced by the indexed events of their auth chains.\<close>

definition replace_event :: "string list \<Rightarrow> string \<times> string list \<Rightarrow> string list \<times> string list \<Rightarrow> string list \<times> string list" where
  "replace_event indexed = (\<lambda>(event_id, auth_chain) (state_set, unindexed).
     if event_id \<notin> set state_set then (state_set, unindexed)
     else fold (\<lambda>a (st, un). if a \<in> set indexed then (set_add a st, un) else (st, set_add a un)) auth_chain
            (filter (\<lambda>e. e \<notin> set auth_chain) (filter (\<lambda>e. e \<noteq> event_id) state_set), set_add event_id unindexed))"

definition unindexed_difference :: "string list list \<Rightarrow> string list" where
  "unindexed_difference sets = filter (\<lambda>e. \<not> (\<forall>s\<in>set sets. e \<in> set s)) (fold (\<lambda>s u. set_union u s) sets [])"

definition fixup_auth_chain_difference_sets :: "chain_tables \<Rightarrow> string \<Rightarrow> string list list \<Rightarrow> string list \<Rightarrow> string list
    \<Rightarrow> (string list \<times> string list list) res" where
  "fixup_auth_chain_difference_sets T room_id state_sets events_missing_chain_info events_that_have_chain_index =
     (case fold (waiting_step T) (waiting_rows T room_id) ([], events_that_have_chain_index) of
        (event_to_auth_ids, indexed) \<Rightarrow>
          if list_ex (\<lambda>e. dget event_to_auth_ids e = None) events_missing_chain_info then Inl NoChainCoverIndex
          else
            (let partial_chains = map (\<lambda>(e, auth_ids). (e, partial_auth_chain event_to_auth_ids auth_ids []))
                   (filter (\<lambda>(e, _). list_ex (\<lambda>s. e \<in> set s) state_sets) event_to_auth_ids);
                 replaced = map (\<lambda>s. fold (replace_event indexed) partial_chains (s, [])) state_sets
             in Inr (unindexed_difference (map snd replaced), map fst replaced)))"

section \<open>The difference\<close>

definition state_chains :: "(string, position) pydict \<Rightarrow> string list \<Rightarrow> chain_seqs res" where
  "state_chains info state_set =
     foldE (\<lambda>e chains. bindE (optE KeyError (dget info e)) (\<lambda>(c, s). Inr (dset c (max s (get_or chains c 0)) chains))) state_set []"

definition walk_set :: "links \<Rightarrow> chain_seqs \<Rightarrow> chain_seqs" where
  "walk_set links reached =
     fold (\<lambda>c reached. case dget reached c of None \<Rightarrow> reached | Some s \<Rightarrow> materialize True links c s reached) (dkeys links) reached"

definition walk_back :: "links \<Rightarrow> (string, position) pydict \<Rightarrow> chain_seqs \<Rightarrow> chain_seqs" where
  "walk_back links positions reached =
     fold (\<lambda>(c, s) reached. if c \<notin> set (dkeys links) then reached
       else materialize True links c s (dset c (max s (get_or reached c 0)) reached)) (dvalues positions) reached"

text \<open>The positions of the conflicted events and of the additional ones, when the subgraph is asked for.\<close>

type_synonym conflict = "((string, position) pydict \<times> (string, position) pydict) option"

type_synonym difference_walk = "chain_seqs list \<times> int list \<times> chain_seqs \<times> chain_seqs"

definition difference_batch :: "conflict \<Rightarrow> links \<Rightarrow> difference_walk \<Rightarrow> difference_walk" where
  "difference_batch conflict links = (\<lambda>(set_to_chain, seen_chains, forwards, backwards).
     (let set_to_chain' = map (walk_set links) set_to_chain;
          seen_chains' = fold (\<lambda>chains seen. set_union seen (dkeys chains)) set_to_chain' seen_chains
      in case conflict of
           None \<Rightarrow> (set_to_chain', seen_chains', forwards, backwards)
         | Some (positions, additional) \<Rightarrow>
             (set_to_chain', seen_chains', accumulate_forwards_reachable_events forwards links positions,
              walk_back links additional (walk_back links positions backwards))))"

text \<open>The events of a range of a chain, as far as they are known; or else the range is looked up.\<close>

type_synonym gaps = "(int, int \<times> int) pydict"

fun fill_gap :: "(int, (int, string) pydict) pydict \<Rightarrow> int \<Rightarrow> int \<times> int \<Rightarrow> int list \<Rightarrow> string list \<times> gaps \<Rightarrow> string list \<times> gaps" where
  "fill_gap events c gap [] acc = acc"
| "fill_gap events c gap (seq_no # seq_nos) (found, gaps) =
     (case dget (inner_map c events) seq_no of
        Some e \<Rightarrow> if e \<noteq> [] then fill_gap events c gap seq_nos (set_add e found, gaps) else (found, dset c gap gaps)
      | None \<Rightarrow> (found, dset c gap gaps))"

definition difference_gap :: "(int, (int, string) pydict) pydict \<Rightarrow> chain_seqs list \<Rightarrow> int \<Rightarrow> string list \<times> gaps \<Rightarrow> string list \<times> gaps" where
  "difference_gap events set_to_chain c acc =
     (let seqs = map (\<lambda>chains. get_or chains c 0) set_to_chain;
          min_seq_no = Min (set seqs); max_seq_no = Max (set seqs)
      in if min_seq_no < max_seq_no
         then fill_gap events c (min_seq_no, max_seq_no) [min_seq_no + 1 .. max_seq_no] acc
         else acc)"

definition subgraph_gap :: "(int, (int, string) pydict) pydict \<Rightarrow> chain_seqs \<Rightarrow> int \<times> int \<Rightarrow> string list \<times> gaps \<Rightarrow> string list \<times> gaps" where
  "subgraph_gap events forwards = (\<lambda>(c, backwards_seq_num) acc.
     case dget forwards c of
       None \<Rightarrow> acc
     | Some forwards_seq_num \<Rightarrow>
         if backwards_seq_num < forwards_seq_num then acc
         else fill_gap events c (forwards_seq_num - 1, backwards_seq_num) [forwards_seq_num .. backwards_seq_num] acc)"

definition fetch_event_ids_from_chains :: "chain_tables \<Rightarrow> gaps \<Rightarrow> string list" where
  "fetch_event_ids_from_chains T gaps =
     concat (map (\<lambda>(c, (lo, hi)). map fst (filter (\<lambda>(_, (c', s)). c' = c \<and> lo < s \<and> s \<le> hi) (ct_chains T))) gaps)"

definition chain_positions :: "(string, position) pydict \<Rightarrow> string list \<Rightarrow> (string, position) pydict res" where
  "chain_positions info events = foldE (\<lambda>e acc. bindE (optE KeyError (dget info e)) (\<lambda>p. Inr (dset e p acc))) events []"

definition conflict_positions :: "(string, position) pydict \<Rightarrow> string list option \<Rightarrow> string list \<Rightarrow> conflict res" where
  "conflict_positions info conflicted_set additional =
     (case conflicted_set of
        None \<Rightarrow> Inr None
      | Some conflicted \<Rightarrow>
          bindE (chain_positions info conflicted) (\<lambda>positions.
          bindE (chain_positions info additional) (\<lambda>more. Inr (Some (positions, more)))))"

definition get_auth_chain_difference_using_cover_index :: "chain_tables \<Rightarrow> string \<Rightarrow> string list list \<Rightarrow> string list option
    \<Rightarrow> string list \<Rightarrow> auth_state_difference res" where
  "get_auth_chain_difference_using_cover_index T room_id state_sets conflicted_set additional =
     (if state_sets = [] then Inl IndexError
      else
        (let initial_events = fold (\<lambda>s u. set_union u s) state_sets [] in
         bindE (guardE (case conflicted_set of None \<Rightarrow> True
           | Some conflicted \<Rightarrow> set conflicted \<subseteq> set initial_events \<and> set additional \<subseteq> set initial_events) AssertionError) (\<lambda>_.
           let look = fetch_chain_info T initial_events \<lparr>cl_info = [], cl_event = [], cl_seen = []\<rparr>;
               missing = filter (\<lambda>e. dget (cl_info look) e = None) initial_events
           in bindE (if missing = [] then Inr ([], state_sets)
                else fixup_auth_chain_difference_sets T room_id state_sets missing (dkeys (cl_info look))) (\<lambda>(result, sets).
              let look' = fetch_chain_info T
                    (filter (\<lambda>e. e \<notin> set initial_events) (fold (\<lambda>s u. set_union u s) sets [])) look
              in bindE (conflict_positions (cl_info look') conflicted_set additional) (\<lambda>conflict.
                 bindE (foldE (\<lambda>s acc. bindE (state_chains (cl_info look') s) (\<lambda>chains. Inr (acc @ [chains]))) sets []) (\<lambda>set_to_chain.
                   case fold (difference_batch conflict) (get_chain_links (ct_links T) (cl_seen look'))
                          (set_to_chain, cl_seen look', [], []) of
                     (set_to_chain', seen_chains, forwards, backwards) \<Rightarrow>
                       (case fold (difference_gap (cl_event look') set_to_chain') seen_chains (result, []) of (found, gaps) \<Rightarrow>
                        (case fold (subgraph_gap (cl_event look') forwards) backwards ([], []) of (sub_events, sub_gaps) \<Rightarrow>
                          Inr \<lparr>auth_difference = set_union found (fetch_event_ids_from_chains T gaps),
                               conflicted_subgraph = set_union sub_events (fetch_event_ids_from_chains T sub_gaps)\<rparr>))))))))"

end
