(* ===== verification/Auth_Difference_Props.thy ===== *)
theory Auth_Difference_Props
  imports Auth_Difference
begin

text \<open>
  The auth chain difference from the chain cover index: for each state set, the numbers that the walks reach
  are those of its auth chain, and the ranges between the least and the greatest number of a chain are what
  some but not all state sets reach.
\<close>

section \<open>Looking up positions\<close>

lemma distinct_set_union: "distinct xs \<Longrightarrow> distinct (set_union xs ys)"
  unfolding set_union_def by (induction ys arbitrary: xs) auto

definition look_ok :: "chain_tables \<Rightarrow> string set \<Rightarrow> chain_lookup \<Rightarrow> bool" where
  "look_ok T E v \<longleftrightarrow> (\<forall>e. dget (cl_info v) e = (if e \<in> E then position_of T e else None))
     \<and> (\<forall>c s e. dget (inner_map c (cl_event v)) s = Some e \<longrightarrow> position_of T e = Some (c, s))
     \<and> (\<forall>e\<in>E. \<forall>c s. position_of T e = Some (c, s) \<longrightarrow> c \<in> set (cl_seen v))
     \<and> distinct (cl_seen v)"

lemma look_okD:
  assumes "look_ok T E v"
  shows "dget (cl_info v) e = (if e \<in> E then position_of T e else None)"
    "dget (inner_map c (cl_event v)) s = Some e \<Longrightarrow> position_of T e = Some (c, s)"
    "e \<in> E \<Longrightarrow> position_of T e = Some (c, s) \<Longrightarrow> c \<in> set (cl_seen v)" "distinct (cl_seen v)"
proof -
  note D1 = assms [unfolded look_ok_def]
  note D2 = conjunct2 [OF D1]
  show "dget (cl_info v) e = (if e \<in> E then position_of T e else None)" by (rule spec [OF conjunct1 [OF D1]])
  show "dget (inner_map c (cl_event v)) s = Some e \<Longrightarrow> position_of T e = Some (c, s)"
    by (rule mp [OF spec [OF spec [OF spec [OF conjunct1 [OF D2]]]]])
  show "e \<in> E \<Longrightarrow> position_of T e = Some (c, s) \<Longrightarrow> c \<in> set (cl_seen v)"
    by (rule mp [OF spec [OF spec [OF bspec [OF conjunct1 [OF conjunct2 [OF D2]]]]]])
  show "distinct (cl_seen v)" by (rule conjunct2 [OF conjunct2 [OF D2]])
qed

lemma look_row:
  assumes v: "look_ok T E v" and r: "position_of T e = Some p"
  shows "look_ok T (insert e E) (fetch_chain_row (e, p) v)"
proof -
  obtain c s where p: "p = (c, s)" by (cases p)
  note V = look_okD [OF v]
  let ?v = "fetch_chain_row (e, p) v"
  have info: "dget (cl_info ?v) f = (if f \<in> insert e E then position_of T f else None)" for f
    using V(1) [of f] r by (simp add: fetch_chain_row_def p)
  have event: "position_of T f = Some (d, t)" if "dget (inner_map d (cl_event ?v)) t = Some f" for d t f
    using that V(2) [of d t f] r by (auto simp: fetch_chain_row_def p inner_map_dset split: if_splits)
  have seen: "d \<in> set (cl_seen ?v)" if "f \<in> insert e E" "position_of T f = Some (d, t)" for f d t
    using that V(3) [of f d t] r by (auto simp: fetch_chain_row_def p)
  show ?thesis
    unfolding look_ok_def using info event seen V(4) by (simp add: fetch_chain_row_def p)
qed

lemma look_fetch:
  assumes P: "positions_ok A (ct_chains T)" and v: "look_ok T E v"
  shows "look_ok T (E \<union> set es) (fetch_chain_info T es v)"
proof -
  define rows where "rows = concat (map (chain_rows T) (batch_iter es 1000))"
  have "set (concat (batch_iter es 1000)) = set es" by (simp add: concat_batch_iter)
  then have "(\<exists>b\<in>set (batch_iter es 1000). e \<in> set b) \<longleftrightarrow> e \<in> set es" for e by auto
  then have rows: "x \<in> set rows \<longleftrightarrow> x \<in> set (ct_chains T) \<and> fst x \<in> set es" for x
    by (auto simp: rows_def chain_rows_def case_prod_beta)
  have pos: "position_of T (fst x) = Some (snd x)" if "x \<in> set rows" for x
    using that rows dget_iff_mem [OF positions_okD(1) [OF P]] by simp
  have "look_ok T (E \<union> fst ` set xs) (fold fetch_chain_row xs v)" if "set xs \<subseteq> set rows" "look_ok T E v" for xs E v
    using that
  proof (induction xs arbitrary: E v)
    case (Cons x xs)
    have "look_ok T (insert (fst x) E) (fetch_chain_row x v)"
      using look_row [OF Cons.prems(2) pos [of x]] Cons.prems(1) by simp
    from Cons.IH [OF _ this] Cons.prems(1) show ?case by simp
  qed simp
  from this [OF order_refl v] have L: "look_ok T (E \<union> fst ` set rows) (fold fetch_chain_row rows v)" .
  have "fst ` set rows = {e \<in> set es. position_of T e \<noteq> None}"
  proof (rule set_eqI)
    fix e
    have "e \<in> fst ` set rows \<longleftrightarrow> (\<exists>p. (e, p) \<in> set (ct_chains T)) \<and> e \<in> set es"
      using rows by (auto simp: image_iff Bex_def)
    also have "\<dots> \<longleftrightarrow> e \<in> {e \<in> set es. position_of T e \<noteq> None}"
      using dget_iff_mem [OF positions_okD(1) [OF P], of e] by auto
    finally show "e \<in> fst ` set rows \<longleftrightarrow> e \<in> {e \<in> set es. position_of T e \<noteq> None}" .
  qed
  then have keys: "e \<in> E \<union> fst ` set rows \<longleftrightarrow> e \<in> E \<or> e \<in> set es \<and> position_of T e \<noteq> None" for e by blast
  note D = look_okD [OF L]
  have fetch: "fetch_chain_info T es v = fold fetch_chain_row rows v"
    by (simp add: fetch_chain_info_def fold_concat rows_def)
  show ?thesis
    unfolding look_ok_def fetch
  proof (intro conjI allI impI ballI)
    show "dget (cl_info (fold fetch_chain_row rows v)) e = (if e \<in> E \<union> set es then position_of T e else None)" for e
      using D(1) [of e] keys [of e] by (cases "position_of T e") auto
    show "position_of T e = Some (c, s)" if "dget (inner_map c (cl_event (fold fetch_chain_row rows v))) s = Some e" for c s e
      by (rule D(2) [OF that])
    show "c \<in> set (cl_seen (fold fetch_chain_row rows v))" if "e \<in> E \<union> set es" "position_of T e = Some (c, s)" for e c s
      using D(3) [of e c s] keys [of e] that by auto
    show "distinct (cl_seen (fold fetch_chain_row rows v))" by (rule D(4))
  qed
qed

section \<open>The numbers of a state set\<close>

definition set_chain :: "auth_graph \<Rightarrow> string set \<Rightarrow> string set" where
  "set_chain A S = (\<Union>e\<in>S. auth_chain_of A e)"

definition seqs_of :: "chain_tables \<Rightarrow> string set \<Rightarrow> chain_seqs \<Rightarrow> bool" where
  "seqs_of T S m \<longleftrightarrow> positive_seqs m \<and> (\<forall>e\<in>S. \<forall>c s. position_of T e = Some (c, s) \<longrightarrow> s \<le> reached_seq m c)
     \<and> (\<forall>c s. dget m c = Some s \<longrightarrow> (\<exists>e\<in>S. position_of T e = Some (c, s)))"

lemma state_chains_given:
  assumes "\<And>e. e \<in> set es \<Longrightarrow> dget info e = Some (pos e)"
  shows "foldE (\<lambda>e chains. bindE (optE KeyError (dget info e)) (\<lambda>(c, s). Inr (dset c (max s (get_or chains c 0)) chains))) es ec
    = Inr (snd (fold given_step (map (\<lambda>e. (e, pos e)) es) (seen, ec)))"
  using assms
proof (induction es arbitrary: ec seen)
  case (Cons e es)
  obtain c s where p: "pos e = (c, s)" by (cases "pos e")
  have "dget info e = Some (c, s)" using Cons.prems [of e] p by simp
  then show ?case
    using Cons.IH [of "dset c (max s (get_or ec c 0)) ec" "set_add e seen"] Cons.prems by (simp add: p given_step_def)
qed simp

lemma state_chains_correct:
  assumes P: "positions_ok A (ct_chains T)" and look: "look_ok T E v" and S: "set es \<subseteq> E"
    and pos: "\<And>e. e \<in> set es \<Longrightarrow> position_of T e \<noteq> None"
  obtains m where "state_chains (cl_info v) es = Inr m" "seqs_of T (set es) m"
proof -
  define f where "f e = the (position_of T e)" for e
  have f: "position_of T e = Some (f e)" if "e \<in> set es" for e using pos [OF that] by (auto simp: f_def)
  have "dget (cl_info v) e = Some (f e)" if "e \<in> set es" for e
    using look_okD(1) [OF look, of e] f [OF that] S that by auto
  from state_chains_given [of es "cl_info v" f "[]" "[]", OF this]
  have run: "state_chains (cl_info v) es = Inr (snd (fold given_step (map (\<lambda>e. (e, f e)) es) ([], [])))"
    by (simp add: state_chains_def)
  obtain seen m where fold: "fold given_step (map (\<lambda>e. (e, f e)) es) ([], []) = (seen, m)" by fastforce
  have one: "\<forall>(e, (c, s))\<in>set (map (\<lambda>e. (e, f e)) es). 1 \<le> s"
  proof (intro ballI, clarify)
    fix e c s assume "(e, c, s) \<in> set (map (\<lambda>e. (e, f e)) es)"
    then have "e \<in> set es" "f e = (c, s)" by auto
    then show "1 \<le> s" using position_pos [OF P, of e c s] f [of e] by simp
  qed
  note G = given_fold [OF fold positive_Nil one]
  have "seqs_of T (set es) m"
    unfolding seqs_of_def
  proof (intro conjI ballI allI impI)
    show pm: "positive_seqs m" using G by blast
    show "s \<le> reached_seq m c" if "e \<in> set es" "position_of T e = Some (c, s)" for e c s
    proof -
      have "(e, (c, s)) \<in> set (map (\<lambda>e. (e, f e)) es)" using that f [OF that(1)] by force
      moreover have "\<forall>(e, (c, s))\<in>set (map (\<lambda>e. (e, f e)) es). s \<le> reached_seq m c" using G by blast
      ultimately show ?thesis by blast
    qed
    show "\<exists>e\<in>set es. position_of T e = Some (c, s)" if "dget m c = Some s" for c s
    proof -
      have "reached_seq m c = s" "0 < s" using that pm by (auto simp: get_or_def positive_seqs_def)
      moreover have "reached_seq m c = reached_seq [] c \<or> (\<exists>e. (e, (c, reached_seq m c)) \<in> set (map (\<lambda>e. (e, f e)) es))"
        using G by blast
      ultimately obtain e where "(e, (c, s)) \<in> set (map (\<lambda>e. (e, f e)) es)" by (auto simp: get_or_def)
      then show ?thesis using f by force
    qed
  qed
  then show thesis using that run fold by simp
qed

section \<open>The walks of a state set\<close>

definition extended :: "link set \<Rightarrow> chain_seqs \<Rightarrow> int set \<Rightarrow> chain_seqs \<Rightarrow> bool" where
  "extended R init D m \<longleftrightarrow> positive_seqs m \<and> below init m
     \<and> (\<forall>t. reached_seq m t = reached_seq init t
          \<or> (\<exists>c. 0 < reached_seq init c \<and> hits R (c, reached_seq init c) (t, reached_seq m t)) \<and> closed_at R m (t, reached_seq m t))
     \<and> (\<forall>t\<in>D. 0 < reached_seq m t \<longrightarrow> closed_at R m (t, reached_seq m t))"

lemma extended_materialize:
  assumes C: "complete_links R links X" and c: "c \<in> X" and E: "extended R init D m" and s: "dget m c = Some s"
  shows "extended R init (insert c D) (materialize True links c s m)"
proof -
  let ?m = "materialize True links c s m"
  note M = materialize_correct [where m = m and s = s, OF C c]
  have sc: "s = reached_seq m c" "0 < s" using s E by (auto simp: get_or_def extended_def positive_seqs_def)
  have from_init: "\<exists>d. 0 < reached_seq init d \<and> hits R (d, reached_seq init d) q" if h: "hits R (c, s) q" for q
  proof (cases "reached_seq m c = reached_seq init c")
    case True
    then show ?thesis using h sc by auto
  next
    case False
    then obtain d where "0 < reached_seq init d" "hits R (d, reached_seq init d) (c, s)"
      using E unfolding extended_def sc(1) by blast
    then show ?thesis using h hits_trans by blast
  qed
  have T: "reached_seq ?m t = reached_seq init t
      \<or> (\<exists>c. 0 < reached_seq init c \<and> hits R (c, reached_seq init c) (t, reached_seq ?m t)) \<and> closed_at R ?m (t, reached_seq ?m t)" for t
    using M(3) [of t]
  proof
    assume same: "reached_seq ?m t = reached_seq m t"
    show ?thesis
      unfolding same using E closed_at_mono [OF _ M(1)] unfolding extended_def by blast
  next
    assume "hits R (c, s) (t, reached_seq ?m t) \<and> closed_at R ?m (t, reached_seq ?m t)"
    then show ?thesis using from_init by blast
  qed
  have D: "closed_at R ?m (t, reached_seq ?m t)" if t: "t \<in> insert c D" "0 < reached_seq ?m t" for t
    using M(3) [of t]
  proof
    assume same: "reached_seq ?m t = reached_seq m t"
    have "t = c \<or> closed_at R m (t, reached_seq m t)" using t E by (auto simp: same extended_def)
    then show ?thesis
      unfolding same
    proof
      assume "t = c"
      then show "closed_at R ?m (t, reached_seq m t)" using M(2) sc(1) by simp
    qed (rule closed_at_mono [OF _ M(1)])
  qed blast
  have "positive_seqs ?m" "below init ?m"
    using E M(1) below_trans by (auto simp: extended_def positive_materialize)
  then show ?thesis using T D by (simp add: extended_def)
qed

lemma extended_batch:
  assumes C: "complete_links R links X" and E: "extended R init D m"
  shows "extended R init (D \<union> set (dkeys links)) (walk_set links m)"
proof -
  have "extended R init (D \<union> set ks) (fold (\<lambda>c reached. case dget reached c of None \<Rightarrow> reached | Some s \<Rightarrow> materialize True links c s reached) ks m)"
    if "set ks \<subseteq> X" "extended R init D m" for ks D m
    using that
  proof (induction ks arbitrary: D m)
    case (Cons c ks)
    have "extended R init (insert c D) (case dget m c of None \<Rightarrow> m | Some s \<Rightarrow> materialize True links c s m)"
    proof (cases "dget m c")
      case None
      then have "reached_seq m c = 0" by (simp add: get_or_def)
      then show ?thesis using Cons.prems(2) None by (simp add: extended_def)
    next
      case (Some s)
      then show ?thesis using extended_materialize [OF C _ Cons.prems(2) Some] Cons.prems(1) by simp
    qed
    from Cons.IH [OF _ this] Cons.prems(1) show ?case by simp
  qed simp
  from this [of "dkeys links" D m] E complete_linksD(1) [OF C] show ?thesis
    by (simp add: walk_set_def subset_iff)
qed


lemma extended_all:
  assumes rows: "R = set rows" and init: "positive_seqs init" "set (dkeys init) \<subseteq> set cs"
  shows "extended R init UNIV (fold walk_set (get_chain_links rows cs) init)"
proof -
  let ?m = "fold walk_set (get_chain_links rows cs) init"
  have "extended R init (D \<union> (\<Union>links\<in>set lls. set (dkeys links))) (fold walk_set lls m)"
    if "set lls \<subseteq> set (get_chain_links rows cs)" "extended R init D m" for lls D m
    using that
  proof (induction lls arbitrary: D m)
    case (Cons links lls)
    obtain X where "complete_links R links X" using get_chain_links_complete [of links rows cs] Cons.prems(1) rows by auto
    from Cons.IH [OF _ extended_batch [OF this Cons.prems(2)]] Cons.prems(1) show ?case by (simp add: Un_assoc)
  qed simp
  from this [OF order_refl, of "{}" init] init(1)
  have E: "extended R init (\<Union>links\<in>set (get_chain_links rows cs). set (dkeys links)) ?m" by (simp add: extended_def)
  have "closed_at R ?m (t, reached_seq ?m t)" if t: "0 < reached_seq ?m t" for t
  proof (cases "t \<in> (\<Union>links\<in>set (get_chain_links rows cs). set (dkeys links))")
    case True
    then show ?thesis using E t unfolding extended_def by blast
  next
    case out: False
    show ?thesis
    proof (cases "reached_seq ?m t = reached_seq init t")
      case True
      then have "dget init t \<noteq> None" using t positive_iff [OF init(1), of t] by simp
      then have "t \<in> set (dkeys init)" using dget_None_iff [of init t] by simp
      then have "t \<in> set cs" using init(2) by blast
      then have "(t, s, d, u) \<notin> R" for s d u using get_chain_links_all [of t s d u rows cs] out rows by auto
      then show ?thesis by (simp add: closed_at_def)
    next
      case False
      then show ?thesis using E unfolding extended_def by blast
    qed
  qed
  with E show ?thesis unfolding extended_def by simp
qed

lemma reached_iff:
  assumes ok: "index_ok A T" and S: "\<And>e. e \<in> S \<Longrightarrow> position_of T e \<noteq> None" and init: "seqs_of T S init"
    and E: "extended (set (ct_links T)) init UNIV m" and a: "position_of T a = Some (c, s)"
  shows "a \<in> set_chain A S \<longleftrightarrow> s \<le> reached_seq m c"
proof -
  let ?R = "set (ct_links T)"
  have P: "positions_ok A (ct_chains T)" and L: "links_lead A (ct_chains T) ?R"
    using ok by (simp_all add: index_ok_def links_ok_parts)
  have rows: "1 \<le> u" if "(c, s, t, u) \<in> ?R" for c s t u
    using bspec [OF L [unfolded links_lead_def] that] position_pos [OF P] by auto
  have given: "\<exists>e\<in>S. position_of T e = Some (d, reached_seq init d)" if d: "0 < reached_seq init d" for d
  proof -
    have "positive_seqs init" using init by (simp add: seqs_of_def)
    then obtain r where r: "dget init d = Some r" using d positive_iff [of init d] by auto
    then have "\<exists>e\<in>S. position_of T e = Some (d, r)" using init unfolding seqs_of_def by blast
    then show ?thesis using r by (simp add: get_or_def)
  qed
  show ?thesis
  proof
    assume "a \<in> set_chain A S"
    then obtain e where e: "e \<in> S" "a \<in> auth_chain_of A e" by (auto simp: set_chain_def)
    obtain ce se where pe: "position_of T e = Some (ce, se)" using S [OF e(1)] by (cases "position_of T e") auto
    have path: "chain_path ?R (ce, se) (c, s)" using index_represents [OF ok pe a] e(2) by simp
    have "se \<le> reached_seq init ce" using init e(1) pe unfolding seqs_of_def by blast
    moreover have "reached_seq init ce \<le> reached_seq m ce" using E by (simp add: extended_def below_def)
    ultimately have le: "se \<le> reached_seq m ce" by simp
    then have "closed_at ?R m (ce, reached_seq m ce)" using E position_pos [OF P pe] by (simp add: extended_def)
    then have start: "closed_at ?R m (ce, se)" using le closed_at_lower by blast
    have closed: "closed_at ?R m (t, reached_seq m t)" if "0 < reached_seq m t" for t
      using E that by (simp add: extended_def)
    have "fst (c, s) = fst (ce, se) \<and> snd (c, s) \<le> snd (ce, se) \<or> snd (c, s) \<le> reached_seq m (fst (c, s))"
      by (rule path_reached [OF path start rows closed])
    then show "s \<le> reached_seq m c" using le by auto
  next
    assume s: "s \<le> reached_seq m c"
    then have pos: "0 < reached_seq m c" using position_pos [OF P a] by simp
    show "a \<in> set_chain A S"
    proof (cases "reached_seq m c = reached_seq init c")
      case True
      then obtain e where e: "e \<in> S" "position_of T e = Some (c, reached_seq m c)" using given [of c] pos by auto
      have "a \<in> auth_chain_of A e" using index_represents [OF ok e(2) a] chain_path.within [OF s] by simp
      then show ?thesis using e(1) by (auto simp: set_chain_def)
    next
      case False
      then obtain d where d: "0 < reached_seq init d" "hits ?R (d, reached_seq init d) (c, reached_seq m c)"
        using E unfolding extended_def by blast
      obtain e where e: "e \<in> S" "position_of T e = Some (d, reached_seq init d)" using given [OF d(1)] by blast
      have "a \<in> ancestors A e" by (rule hits_ancestor [OF ok e(2) d(2) a s])
      then show ?thesis using e(1) by (auto simp: set_chain_def auth_chain_of_ancestors)
    qed
  qed
qed

section \<open>The batches\<close>

lemma difference_batches:
  assumes "fold (difference_batch conflict) lls (stc, seen, f, b) = (stc', seen', f', b')" "\<forall>m\<in>set stc. set (dkeys m) \<subseteq> set seen"
    "distinct seen"
  shows "stc' = map (fold walk_set lls) stc \<and> (\<forall>m\<in>set stc'. set (dkeys m) \<subseteq> set seen') \<and> distinct seen'"
  using assms
proof (induction lls arbitrary: stc seen f b)
  case (Cons links lls)
  define stc1 where "stc1 = map (walk_set links) stc"
  define seen1 where "seen1 = fold (\<lambda>chains seen. set_union seen (dkeys chains)) stc1 seen"
  obtain f1 b1 where step: "difference_batch conflict links (stc, seen, f, b) = (stc1, seen1, f1, b1)"
    by (cases conflict) (auto simp: difference_batch_def Let_def stc1_def seen1_def)
  have "set (fold (\<lambda>chains seen. set_union seen (dkeys chains)) ms seen) = set seen \<union> (\<Union>m\<in>set ms. set (dkeys m))"
    for ms :: "chain_seqs list" and seen
    by (induction ms arbitrary: seen) (auto simp: set_set_union)
  then have "\<forall>m\<in>set stc1. set (dkeys m) \<subseteq> set seen1" by (auto simp: seen1_def)
  moreover have "distinct (fold (\<lambda>chains seen. set_union seen (dkeys chains)) ms seen)" if "distinct seen"
    for ms :: "chain_seqs list" and seen
    using that by (induction ms arbitrary: seen) (simp_all add: distinct_set_union)
  then have "distinct seen1" using Cons.prems(3) by (simp add: seen1_def)
  ultimately have "stc' = map (fold walk_set lls) stc1 \<and> (\<forall>m\<in>set stc'. set (dkeys m) \<subseteq> set seen') \<and> distinct seen'"
    by (intro Cons.IH [of stc1 seen1 f1 b1]) (use Cons.prems(1) step in simp_all)
  then show ?case by (simp add: stc1_def comp_def)
qed simp

section \<open>The ranges\<close>

lemma fill_gap_correct:
  assumes "fill_gap events c gap seqs (found, gaps) = (found', gaps')"
    "\<And>s e. dget (inner_map c events) s = Some e \<Longrightarrow> position_of T e = Some (c, s)"
  shows "set found \<subseteq> set found' \<and> (\<forall>e\<in>set found' - set found. \<exists>s\<in>set seqs. position_of T e = Some (c, s))
    \<and> (gaps' = dset c gap gaps \<or> gaps' = gaps \<and> (\<forall>s\<in>set seqs. \<exists>e\<in>set found'. position_of T e = Some (c, s)))"
  using assms(1)
proof (induction seqs arbitrary: found)
  case (Cons s seqs)
  show ?case
  proof (cases "\<exists>e. dget (inner_map c events) s = Some e \<and> e \<noteq> []")
    case True
    then obtain e where e: "dget (inner_map c events) s = Some e" "e \<noteq> []" by blast
    have "fill_gap events c gap seqs (set_add e found, gaps) = (found', gaps')" using Cons.prems e by simp
    from Cons.IH [OF this] assms(2) [OF e(1)] show ?thesis by auto
  next
    case False
    then have "found' = found" "gaps' = dset c gap gaps" using Cons.prems by (auto split: option.splits if_splits)
    then show ?thesis by simp
  qed
qed simp

text \<open>What is found in the end: the events of all ranges.\<close>

definition in_gap :: "chain_tables \<Rightarrow> gaps \<Rightarrow> string \<Rightarrow> bool" where
  "in_gap T gaps e \<longleftrightarrow> (\<exists>c lo hi s. dget gaps c = Some (lo, hi) \<and> position_of T e = Some (c, s) \<and> lo < s \<and> s \<le> hi)"

lemma in_gap_position:
  "position_of T e = Some (c, s) \<Longrightarrow> in_gap T gaps e \<longleftrightarrow> (\<exists>lo hi. dget gaps c = Some (lo, hi) \<and> lo < s \<and> s \<le> hi)"
  "position_of T e = None \<Longrightarrow> \<not> in_gap T gaps e"
  by (auto simp: in_gap_def)

lemma fetch_gaps_iff:
  assumes "positions_ok A (ct_chains T)" "dict_ok gaps"
  shows "e \<in> set (fetch_event_ids_from_chains T gaps) \<longleftrightarrow> in_gap T gaps e"
proof
  assume "e \<in> set (fetch_event_ids_from_chains T gaps)"
  then obtain c lo hi s where "(c, (lo, hi)) \<in> set gaps" "(e, (c, s)) \<in> set (ct_chains T)" "lo < s" "s \<le> hi"
    by (auto simp: fetch_event_ids_from_chains_def)
  then show "in_gap T gaps e"
    using dget_iff_mem [OF assms(2)] dget_iff_mem [OF positions_okD(1) [OF assms(1)]] unfolding in_gap_def by blast
next
  assume "in_gap T gaps e"
  then obtain c lo hi s where mem: "(c, (lo, hi)) \<in> set gaps" "(e, (c, s)) \<in> set (ct_chains T)" "lo < s" "s \<le> hi"
    unfolding in_gap_def by (blast dest: map_of_SomeD)
  have "e \<in> fst ` set (filter (\<lambda>(_, (c', s)). c' = c \<and> lo < s \<and> s \<le> hi) (ct_chains T))" using mem(2-4) by force
  then show "e \<in> set (fetch_event_ids_from_chains T gaps)"
    using mem(1) by (auto simp: fetch_event_ids_from_chains_def intro!: bexI [of _ "(c, (lo, hi))"])
qed

text \<open>A range that is not looked up is filled; \<open>lows\<close> and \<open>highs\<close> are the ends of the range of a chain.\<close>

lemma difference_gaps_correct:
  assumes P: "positions_ok A (ct_chains T)" and sets: "stc \<noteq> []"
    and look: "\<And>c s e. dget (inner_map c events) s = Some e \<Longrightarrow> position_of T e = Some (c, s)"
    and run: "fold (difference_gap events stc) cs (found, gaps) = (found', gaps')"
    and distinct: "distinct cs" and init: "dict_ok gaps" "\<And>c. c \<in> set cs \<Longrightarrow> dget gaps c = None"
  shows "dict_ok gaps' \<and> (\<forall>e. e \<in> set found' \<or> in_gap T gaps' e \<longleftrightarrow> e \<in> set found \<or> in_gap T gaps e
    \<or> (\<exists>c\<in>set cs. \<exists>s. position_of T e = Some (c, s) \<and> (\<exists>m\<in>set stc. reached_seq m c < s) \<and> (\<exists>m\<in>set stc. s \<le> reached_seq m c)))"
  using run distinct init
proof (induction cs arbitrary: found gaps)
  case Nil
  then show ?case by simp
next
  case (Cons c cs)
  let ?seqs = "(\<lambda>m. get_or m c 0) ` set stc"
  define lo where "lo = Min ?seqs"
  define hi where "hi = Max ?seqs"
  have fin: "finite ?seqs" "?seqs \<noteq> {}" using sets by auto
  have lo: "lo < s \<longleftrightarrow> (\<exists>m\<in>set stc. reached_seq m c < s)" and hi: "s \<le> hi \<longleftrightarrow> (\<exists>m\<in>set stc. s \<le> reached_seq m c)" for s
    using Min_less_iff [OF fin, of s] Max_ge_iff [OF fin, of s] by (auto simp: lo_def hi_def)
  obtain found1 gaps1 where step: "difference_gap events stc c (found, gaps) = (found1, gaps1)" by fastforce
  have rest: "fold (difference_gap events stc) cs (found1, gaps1) = (found', gaps')" using Cons.prems(1) step by simp
  have none: "dget gaps c = None" by (rule Cons.prems(4)) simp
  have split: "in_gap T (dset c (lo, hi) gaps) e \<longleftrightarrow> in_gap T gaps e \<or> (\<exists>s. position_of T e = Some (c, s) \<and> lo < s \<and> s \<le> hi)" for e
  proof (cases "position_of T e")
    case (Some p)
    obtain d s where "p = (d, s)" by (cases p)
    then show ?thesis using in_gap_position(1) [of T e d s] Some none by (cases "d = c") auto
  qed (simp add: in_gap_position(2))
  have one: "dict_ok gaps1 \<and> (\<forall>d. d \<noteq> c \<longrightarrow> dget gaps1 d = dget gaps d)
    \<and> (\<forall>e. e \<in> set found1 \<or> in_gap T gaps1 e \<longleftrightarrow> e \<in> set found \<or> in_gap T gaps e
       \<or> (\<exists>s. position_of T e = Some (c, s) \<and> lo < s \<and> s \<le> hi))"
  proof (cases "lo < hi")
    case False
    then have "found1 = found" "gaps1 = gaps" using step by (simp_all add: difference_gap_def Let_def lo_def hi_def)
    moreover have "(\<exists>s. position_of T e = Some (c, s) \<and> lo < s \<and> s \<le> hi) = False" for e
      using False by auto
    ultimately show ?thesis using Cons.prems(3) by (simp only:) simp
  next
    case True
    then have "fill_gap events c (lo, hi) [lo + 1..hi] (found, gaps) = (found1, gaps1)"
      using step by (simp add: difference_gap_def Let_def lo_def hi_def)
    note F = fill_gap_correct [OF this look]
    have seqs: "s \<in> set [lo + 1..hi] \<longleftrightarrow> lo < s \<and> s \<le> hi" for s by auto
    have new: "\<exists>s. position_of T e = Some (c, s) \<and> lo < s \<and> s \<le> hi" if "e \<in> set found1" "e \<notin> set found" for e
      using F that seqs by blast
    from F have sub: "set found \<subseteq> set found1"
      and gap: "gaps1 = dset c (lo, hi) gaps \<or> gaps1 = gaps \<and> (\<forall>s\<in>set [lo + 1..hi]. \<exists>e\<in>set found1. position_of T e = Some (c, s))"
      by blast+
    from gap show ?thesis
    proof
      assume g: "gaps1 = dset c (lo, hi) gaps"
      show ?thesis using Cons.prems(3) sub new unfolding g split by auto
    next
      assume g: "gaps1 = gaps \<and> (\<forall>s\<in>set [lo + 1..hi]. \<exists>e\<in>set found1. position_of T e = Some (c, s))"
      have "e \<in> set found1" if "position_of T e = Some (c, s)" "lo < s" "s \<le> hi" for e s
        using g seqs that positions_okD(2) [OF P that(1)] by metis
      then show ?thesis using Cons.prems(3) sub new g by blast
    qed
  qed
  have "dget gaps1 d = None" if "d \<in> set cs" for d
  proof -
    have "d \<noteq> c" using that Cons.prems(2) by auto
    then show ?thesis using one Cons.prems(4) [of d] that by simp
  qed
  note free = this
  define ranged where "ranged d e \<longleftrightarrow> (\<exists>s. position_of T e = Some (d, s) \<and> (\<exists>m\<in>set stc. reached_seq m d < s)
    \<and> (\<exists>m\<in>set stc. s \<le> reached_seq m d))" for d e
  have "dict_ok gaps' \<and> (\<forall>e. e \<in> set found' \<or> in_gap T gaps' e \<longleftrightarrow> e \<in> set found1 \<or> in_gap T gaps1 e \<or> (\<exists>c\<in>set cs. ranged c e))"
    unfolding ranged_def by (rule Cons.IH [OF rest]) (use Cons.prems(2) one free in auto)
  moreover have "\<forall>e. e \<in> set found1 \<or> in_gap T gaps1 e \<longleftrightarrow> e \<in> set found \<or> in_gap T gaps e \<or> ranged c e"
    using one unfolding lo hi ranged_def by blast
  ultimately have "dict_ok gaps' \<and> (\<forall>e. e \<in> set found' \<or> in_gap T gaps' e \<longleftrightarrow> e \<in> set found \<or> in_gap T gaps e
      \<or> (\<exists>c\<in>set (c # cs). ranged c e))"
    by auto
  then show ?case unfolding ranged_def .
qed

section \<open>The difference of sets of indexed events\<close>

lemma collect_state_chains:
  assumes P: "positions_ok A (ct_chains T)" and look: "look_ok T E v"
    and S: "\<And>s. s \<in> set sets \<Longrightarrow> set s \<subseteq> E \<and> (\<forall>e\<in>set s. position_of T e \<noteq> None)"
  shows "\<exists>ms. foldE (\<lambda>s acc. bindE (state_chains (cl_info v) s) (\<lambda>chains. Inr (acc @ [chains]))) sets acc = Inr (acc @ ms)
    \<and> list_all2 (\<lambda>s m. seqs_of T (set s) m) sets ms"
  using S
proof (induction sets arbitrary: acc)
  case Nil
  then show ?case by (intro exI [of _ "[]"]) simp
next
  case (Cons s sets)
  have s: "set s \<subseteq> E" "\<And>e. e \<in> set s \<Longrightarrow> position_of T e \<noteq> None" using Cons.prems [of s] by auto
  obtain m where m: "state_chains (cl_info v) s = Inr m" "seqs_of T (set s) m"
    by (rule state_chains_correct [OF P look s])
  have "\<exists>ms. foldE (\<lambda>s acc. bindE (state_chains (cl_info v) s) (\<lambda>chains. Inr (acc @ [chains]))) sets (acc @ [m]) = Inr ((acc @ [m]) @ ms)
    \<and> list_all2 (\<lambda>s m. seqs_of T (set s) m) sets ms"
    by (rule Cons.IH, rule Cons.prems) simp
  then obtain ms where "foldE (\<lambda>s acc. bindE (state_chains (cl_info v) s) (\<lambda>chains. Inr (acc @ [chains]))) sets (acc @ [m]) = Inr ((acc @ [m]) @ ms)"
    "list_all2 (\<lambda>s m. seqs_of T (set s) m) sets ms" by blast
  then show ?case using m by (intro exI [of _ "m # ms"]) simp
qed

lemma seqs_of_keys:
  assumes look: "look_ok T E v" and S: "S \<subseteq> E" and m: "seqs_of T S m"
  shows "set (dkeys m) \<subseteq> set (cl_seen v)"
proof
  fix c assume "c \<in> set (dkeys m)"
  then obtain s where "dget m c = Some s" using dget_None_iff [of m c] by (cases "dget m c") auto
  then obtain e where "e \<in> S" "position_of T e = Some (c, s)" using m unfolding seqs_of_def by blast
  then show "c \<in> set (cl_seen v)" using look_okD(3) [OF look] S by blast
qed

lemma indexed_difference:
  assumes ok: "index_ok A T" and look: "look_ok T E v" and sets: "sets \<noteq> []"
    and S: "\<And>s. s \<in> set sets \<Longrightarrow> set s \<subseteq> E \<and> (\<forall>e\<in>set s. position_of T e \<noteq> None)"
    and stc: "list_all2 (\<lambda>s m. seqs_of T (set s) m) sets stc"
    and walk: "fold (difference_batch conflict) (get_chain_links (ct_links T) (cl_seen v)) (stc, cl_seen v, [], []) = (stc', seen', f, b)"
    and gaps: "fold (difference_gap (cl_event v) stc') seen' (result, []) = (found, gaps)"
  shows "a \<in> set found \<union> set (fetch_event_ids_from_chains T gaps) \<longleftrightarrow> a \<in> set result
    \<or> position_of T a \<noteq> None \<and> (\<exists>s\<in>set sets. a \<in> set_chain A (set s)) \<and> \<not> (\<forall>s\<in>set sets. a \<in> set_chain A (set s))"
proof -
  have P: "positions_ok A (ct_chains T)" using ok by (simp add: index_ok_def)
  let ?R = "set (ct_links T)" and ?walk = "fold walk_set (get_chain_links (ct_links T) (cl_seen v))"
  have len: "length stc = length sets" using stc by (simp add: list_all2_lengthD)
  have pair: "seqs_of T (set (sets ! i)) (stc ! i)" if "i < length sets" for i
    using stc that by (simp add: list_all2_conv_all_nth)
  have keys: "set (dkeys m) \<subseteq> set (cl_seen v)" if "m \<in> set stc" for m
  proof -
    obtain i where i: "i < length sets" "m = stc ! i" using \<open>m \<in> set stc\<close> len by (auto simp: in_set_conv_nth)
    have "set (sets ! i) \<subseteq> E" using S [of "sets ! i"] i(1) by simp
    then show ?thesis using seqs_of_keys [OF look _ pair [OF i(1)]] i(2) by simp
  qed
  have W: "stc' = map ?walk stc" "\<forall>m\<in>set stc'. set (dkeys m) \<subseteq> set seen'" "distinct seen'"
    using difference_batches [OF walk _ look_okD(4) [OF look]] keys by blast+
  have ext: "extended ?R (stc ! i) UNIV (stc' ! i)" if i: "i < length sets" for i
  proof -
    have "positive_seqs (stc ! i)" using pair [OF i] by (simp add: seqs_of_def)
    moreover have "set (dkeys (stc ! i)) \<subseteq> set (cl_seen v)" using keys [of "stc ! i"] i len by simp
    ultimately show ?thesis using extended_all [OF refl] i len by (simp add: W(1))
  qed
  have ne: "stc' \<noteq> []" using sets len W(1) by auto
  have fresh: "dget ([] :: gaps) c = None" for c by simp
  note G = difference_gaps_correct [OF P ne look_okD(2) [OF look] gaps W(3) dict_ok_Nil fresh]
  have "\<not> in_gap T [] a" by (simp add: in_gap_def)
  then have found: "a \<in> set found \<union> set (fetch_event_ids_from_chains T gaps) \<longleftrightarrow> a \<in> set result
    \<or> (\<exists>c\<in>set seen'. \<exists>s. position_of T a = Some (c, s) \<and> (\<exists>m\<in>set stc'. reached_seq m c < s) \<and> (\<exists>m\<in>set stc'. s \<le> reached_seq m c))"
    using G fetch_gaps_iff [OF P, of gaps a] by simp
  show ?thesis
  proof (cases "position_of T a")
    case None
    then show ?thesis unfolding found by simp
  next
    case (Some p)
    obtain c s where "p = (c, s)" by (cases p)
    then have a: "position_of T a = Some (c, s)" using Some by simp
    have reach: "a \<in> set_chain A (set (sets ! i)) \<longleftrightarrow> s \<le> reached_seq (stc' ! i) c" if i: "i < length sets" for i
      by (rule reached_iff [OF ok _ pair [OF i] ext [OF i] a]) (use S [of "sets ! i"] i in simp)
    have len': "length stc' = length sets" using len by (simp add: W(1))
    have some: "(\<exists>m\<in>set stc'. s \<le> reached_seq m c) \<longleftrightarrow> (\<exists>s\<in>set sets. a \<in> set_chain A (set s))"
      using reach len' unfolding Bex_def in_set_conv_nth by metis
    have all: "(\<exists>m\<in>set stc'. reached_seq m c < s) \<longleftrightarrow> \<not> (\<forall>s\<in>set sets. a \<in> set_chain A (set s))"
      using reach len' unfolding Bex_def Ball_def in_set_conv_nth by (metis not_le)
    have "c \<in> set seen'" if "m \<in> set stc'" "s \<le> reached_seq m c" for m
    proof -
      obtain i where i: "i < length sets" "m = stc' ! i" using \<open>m \<in> set stc'\<close> len' by (auto simp: in_set_conv_nth)
      have "positive_seqs m" using ext [OF i(1)] i(2) by (simp add: extended_def)
      moreover have "0 < reached_seq m c" using \<open>s \<le> reached_seq m c\<close> position_pos [OF P a] by simp
      ultimately have "dget m c \<noteq> None" using positive_iff by blast
      then have "c \<in> set (dkeys m)" using dget_None_iff [of m c] by simp
      then show ?thesis using W(2) \<open>m \<in> set stc'\<close> by blast
    qed
    then show ?thesis unfolding found using a some all by auto
  qed
qed

end
