(* ===== verification/Auth_Difference_Fixup.thy ===== *)
theory Auth_Difference_Fixup
  imports Auth_Difference_Props
begin

text \<open>
  State sets with events that are not in the chain cover index yet: these are replaced by the indexed events
  of their auth chains, and the difference is still that of the auth chains.
\<close>

section \<open>The events that wait for a position\<close>

definition room_waiting :: "chain_tables \<Rightarrow> string \<Rightarrow> string set" where
  "room_waiting T room_id = {e. \<exists>ty key. (e, (room_id, ty, key)) \<in> set (ct_to_calculate T)}"

lemma waiting_rows_iff:
  "(e, Some a) \<in> set (waiting_rows T room_id) \<longleftrightarrow> e \<in> room_waiting T room_id \<and> a \<in> set (select_auth T e)"
  "fst ` set (waiting_rows T room_id) = room_waiting T room_id"
proof -
  define rf where "rf e = (case select_auth T e of [] \<Rightarrow> [(e, None)] | as \<Rightarrow> map (\<lambda>a. (e, Some a)) as)" for e
  have "waiting_rows T room_id = concat (map (\<lambda>x. rf (fst x)) (filter (\<lambda>x. fst (snd x) = room_id) (ct_to_calculate T)))"
    by (simp add: waiting_rows_def rf_def case_prod_unfold)
  then have rows: "x \<in> set (waiting_rows T room_id) \<longleftrightarrow> (\<exists>e. e \<in> room_waiting T room_id \<and> x \<in> set (rf e))" for x
    by (auto simp: room_waiting_def)
  have row: "(f, o') \<in> set (rf e)
      \<longleftrightarrow> f = e \<and> (case o' of None \<Rightarrow> select_auth T e = [] | Some a \<Rightarrow> a \<in> set (select_auth T e))" for f o' e
    by (cases "select_auth T e"; cases o') (auto simp: rf_def)
  show "(e, Some a) \<in> set (waiting_rows T room_id) \<longleftrightarrow> e \<in> room_waiting T room_id \<and> a \<in> set (select_auth T e)"
    unfolding rows row by auto
  have "(\<exists>o'. (e, o') \<in> set (waiting_rows T room_id)) \<longleftrightarrow> e \<in> room_waiting T room_id" for e
  proof
    assume "e \<in> room_waiting T room_id"
    then show "\<exists>o'. (e, o') \<in> set (waiting_rows T room_id)"
      unfolding rows row
      by (intro exI [of _ "case select_auth T e of [] \<Rightarrow> None | a # _ \<Rightarrow> Some a"]) (auto split: list.split)
  qed (auto simp: rows row)
  then show "fst ` set (waiting_rows T room_id) = room_waiting T room_id" by force
qed

lemma waiting_fold:
  assumes "fold (waiting_step T) rows (g, ix) = (g', ix')"
  shows "(dict_ok g \<longrightarrow> dict_ok g') \<and> (\<forall>e. dget g' e = None \<longleftrightarrow> dget g e = None \<and> e \<notin> fst ` set rows)
    \<and> (\<forall>e. set (get_or g' e []) = set (get_or g e []) \<union> {a. (e, Some a) \<in> set rows})
    \<and> set ix' = set ix \<union> {a. (\<exists>e. (e, Some a) \<in> set rows) \<and> dget (ct_chains T) a \<noteq> None}"
  using assms
proof (induction rows arbitrary: g ix)
  case Nil
  then show ?case by simp
next
  case (Cons r rows)
  obtain e x where r: "r = (e, x)" by (cases r)
  obtain g1 ix1 where step: "waiting_step T r (g, ix) = (g1, ix1)" by fastforce
  have one: "dict_ok g \<longrightarrow> dict_ok g1" "dget g1 f = None \<longleftrightarrow> dget g f = None \<and> f \<noteq> e"
    "set (get_or g1 f []) = set (get_or g f []) \<union> {a. (f, Some a) = r}"
    "set ix1 = set ix \<union> {a. x = Some a \<and> dget (ct_chains T) a \<noteq> None}" for f
    using step by (auto simp: waiting_step_def Let_def r split: option.splits if_splits)
  have ih: "(dict_ok g1 \<longrightarrow> dict_ok g') \<and> (\<forall>e. dget g' e = None \<longleftrightarrow> dget g1 e = None \<and> e \<notin> fst ` set rows)
    \<and> (\<forall>e. set (get_or g' e []) = set (get_or g1 e []) \<union> {a. (e, Some a) \<in> set rows})
    \<and> set ix' = set ix1 \<union> {a. (\<exists>e. (e, Some a) \<in> set rows) \<and> dget (ct_chains T) a \<noteq> None}"
    by (rule Cons.IH) (use Cons.prems step in simp)
  show ?case
  proof (intro conjI allI)
    show "dict_ok g \<longrightarrow> dict_ok g'" using ih one(1) by blast
    show "dget g' f = None \<longleftrightarrow> dget g f = None \<and> f \<notin> fst ` set (r # rows)" for f using ih one(2) [of f] by (auto simp: r)
    show "set (get_or g' f []) = set (get_or g f []) \<union> {a. (f, Some a) \<in> set (r # rows)}" for f using ih one(3) [of f] by auto
    show "set ix' = set ix \<union> {a. (\<exists>e. (e, Some a) \<in> set (r # rows)) \<and> dget (ct_chains T) a \<noteq> None}"
      using ih one(4) by (auto simp: r)
  qed
qed

lemma waiting_graph:
  assumes rows: "rows_ok A T" and run: "fold (waiting_step T) (waiting_rows T room_id) ([], given0) = (g, ix)"
  shows "dict_ok g" "dget g e \<noteq> None \<longleftrightarrow> e \<in> room_waiting T room_id"
    "e \<in> room_waiting T room_id \<Longrightarrow> dget (ct_state T) e \<noteq> None \<and> position_of T e = None"
    "dget g e = Some l \<Longrightarrow> set l = set (A e)"
    "a \<in> set ix \<longleftrightarrow> a \<in> set given0 \<or> position_of T a \<noteq> None \<and> (\<exists>e\<in>room_waiting T room_id. a \<in> set (A e))"
proof -
  note F = waiting_fold [OF run]
  show "dict_ok g" using F by simp
  show dom: "dget g e \<noteq> None \<longleftrightarrow> e \<in> room_waiting T room_id" for e
  proof -
    have "dget g e = None \<longleftrightarrow> e \<notin> room_waiting T room_id" using F unfolding waiting_rows_iff by simp
    then show ?thesis by simp
  qed
  show st: "dget (ct_state T) e \<noteq> None \<and> position_of T e = None" if e: "e \<in> room_waiting T room_id" for e
  proof -
    obtain ty key where "(e, (room_id, ty, key)) \<in> set (ct_to_calculate T)" using e unfolding room_waiting_def by blast
    then have "dget (ct_to_calculate T) e \<noteq> None" using weak_map_of_SomeI by fastforce
    then show ?thesis by (rule rows_okD(3) [OF rows])
  qed
  have auth: "select_auth T e = A e" if "e \<in> room_waiting T room_id" for e
    using rows_okD(1) [OF rows, of e] conjunct1 [OF st [OF that]] by (cases "dget (ct_state T) e") auto
  show "set l = set (A e)" if "dget g e = Some l"
  proof -
    have e: "e \<in> room_waiting T room_id" using dom [of e] that by simp
    have "set (get_or g e []) = {a. (e, Some a) \<in> set (waiting_rows T room_id)}" using F by (simp add: get_or_def)
    then show ?thesis using that auth [OF e] e unfolding waiting_rows_iff by (simp add: get_or_def)
  qed
  show "a \<in> set ix \<longleftrightarrow> a \<in> set given0 \<or> position_of T a \<noteq> None \<and> (\<exists>e\<in>room_waiting T room_id. a \<in> set (A e))"
  proof -
    have "a \<in> set ix \<longleftrightarrow> a \<in> set given0 \<or> (\<exists>e. e \<in> room_waiting T room_id \<and> a \<in> set (select_auth T e)) \<and> position_of T a \<noteq> None"
      using F unfolding waiting_rows_iff by blast
    then show ?thesis using auth by auto
  qed
qed

section \<open>Auth chains of events that wait\<close>

definition dict_edges :: "(string, string list) pydict \<Rightarrow> (string \<times> string) set" where
  "dict_edges g = {(a, e). \<exists>l. dget g e = Some l \<and> a \<in> set l}"

lemma partial_chain:
  assumes "\<forall>x\<in>set t. \<forall>a. (a, x) \<in> dict_edges g \<longrightarrow> a \<in> set t \<union> set p"
  shows "set t \<union> set p \<subseteq> set (partial_auth_chain g p t)
    \<and> (\<forall>x\<in>set (partial_auth_chain g p t). \<forall>a. (a, x) \<in> dict_edges g \<longrightarrow> a \<in> set (partial_auth_chain g p t))
    \<and> (\<forall>a\<in>set (partial_auth_chain g p t). a \<in> set t \<or> (\<exists>b\<in>set p. (a, b) \<in> (dict_edges g)\<^sup>*))"
  using assms
proof (induction g p t rule: partial_auth_chain.induct)
  case (1 g t)
  then show ?case by simp
next
  case (2 g x p t)
  let ?t = "set_add x t"
  show ?case
  proof (cases "dget g x")
    case None
    have inv: "\<forall>y\<in>set ?t. \<forall>a. (a, y) \<in> dict_edges g \<longrightarrow> a \<in> set ?t \<union> set p"
      using 2(3) None by (auto simp: dict_edges_def)
    have eq: "partial_auth_chain g (x # p) t = partial_auth_chain g p ?t" by (simp add: None Let_def)
    show ?thesis unfolding eq using 2(1) [OF refl None inv] by auto
  next
    case (Some sub)
    define p' where "p' = set_union p (filter (\<lambda>a. a \<notin> set ?t) sub)"
    have p': "set p' = set p \<union> (set sub - set ?t)" by (auto simp: p'_def set_set_union)
    have inv: "\<forall>y\<in>set ?t. \<forall>a. (a, y) \<in> dict_edges g \<longrightarrow> a \<in> set ?t \<union> set p'"
      using 2(3) Some unfolding p' by (auto simp: dict_edges_def)
    have eq: "partial_auth_chain g (x # p) t = partial_auth_chain g p' ?t" by (simp add: Some Let_def p'_def)
    note ih = 2(2) [OF refl Some, folded p'_def, OF inv]
    have "a \<in> set t \<or> (\<exists>b\<in>set (x # p). (a, b) \<in> (dict_edges g)\<^sup>*)" if a: "a \<in> set (partial_auth_chain g p' ?t)" for a
    proof -
      have "a \<in> set ?t \<or> (\<exists>b\<in>set p'. (a, b) \<in> (dict_edges g)\<^sup>*)" using ih a by blast
      then consider "a \<in> set t" | "a = x" | b where "b \<in> set p" "(a, b) \<in> (dict_edges g)\<^sup>*"
        | b where "b \<in> set sub" "(a, b) \<in> (dict_edges g)\<^sup>*"
        unfolding p' set_set_add by blast
      then show ?thesis
      proof cases
        case (4 b)
        then have "(b, x) \<in> dict_edges g" using Some by (auto simp: dict_edges_def)
        then have "(a, x) \<in> (dict_edges g)\<^sup>*" using 4(2) by simp
        then show ?thesis by simp
      qed auto
    qed
    then show ?thesis unfolding eq using ih p' by auto
  qed
qed

lemma partial_auth_chain_correct:
  "set (partial_auth_chain g p []) = {a. \<exists>b\<in>set p. (a, b) \<in> (dict_edges g)\<^sup>*}"
proof -
  let ?R = "set (partial_auth_chain g p [])"
  have R: "set p \<subseteq> ?R" "\<forall>x\<in>?R. \<forall>a. (a, x) \<in> dict_edges g \<longrightarrow> a \<in> ?R"
    "\<forall>a\<in>?R. \<exists>b\<in>set p. (a, b) \<in> (dict_edges g)\<^sup>*"
    using partial_chain [of "[]" g p] by auto
  have "a \<in> ?R" if "(a, b) \<in> (dict_edges g)\<^sup>*" "b \<in> set p" for a b
    using that by (induction rule: converse_rtrancl_induct) (use R in auto)
  then show ?thesis using R(3) by auto
qed

lemma partial_auth_chain_waiting:
  assumes "dget g e = Some l"
  shows "insert e (set (partial_auth_chain g l [])) = {a. (a, e) \<in> (dict_edges g)\<^sup>*}"
proof -
  have "(\<exists>b\<in>set l. (a, b) \<in> (dict_edges g)\<^sup>*) \<longleftrightarrow> (a, e) \<in> (dict_edges g)\<^sup>+" for a
    unfolding trancl_unfold_right relcomp_unfold using assms by (auto simp: dict_edges_def)
  then show ?thesis
    unfolding partial_auth_chain_correct by (auto simp: rtrancl_eq_or_trancl)
qed

section \<open>The replaced state sets\<close>

definition replaced_by :: "(string \<times> string list) list \<Rightarrow> string set \<Rightarrow> string set" where
  "replaced_by pcs S = (\<Union>(e, l)\<in>{x \<in> set pcs. fst x \<in> S}. insert e (set l))"

lemma replace_fold:
  "fold (\<lambda>a (st, un). if a \<in> set ix then (set_add a st, un) else (st, set_add a un)) l (st, un) = (st', un') \<Longrightarrow>
    set st' = set st \<union> (set l \<inter> set ix) \<and> set un' = set un \<union> (set l - set ix)"
  by (induction l arbitrary: st un) (auto split: if_splits)

lemma replace_step:
  assumes inv: "set st = (S - U) \<union> (U \<inter> set ix)" "set un = U - set ix" and U: "U = replaced_by D S"
    and e: "e \<notin> set ix" and up: "\<And>f k. (f, k) \<in> set D \<Longrightarrow> e = f \<or> e \<in> set k \<Longrightarrow> set l \<subseteq> insert f (set k)"
    and run: "replace_event ix (e, l) (st, un) = (st', un')"
  shows "set st' = (S - replaced_by (D @ [(e, l)]) S) \<union> (replaced_by (D @ [(e, l)]) S \<inter> set ix)
    \<and> set un' = replaced_by (D @ [(e, l)]) S - set ix"
proof -
  have new: "replaced_by (D @ [(e, l)]) S = U \<union> (if e \<in> S then insert e (set l) else {})"
    by (auto simp: replaced_by_def U)
  show ?thesis
  proof (cases "e \<in> set st")
    case True
    then have "e \<in> S" using inv(1) e by blast
    have "set st' = set (filter (\<lambda>x. x \<notin> set l) (filter (\<lambda>x. x \<noteq> e) st)) \<union> (set l \<inter> set ix)
        \<and> set un' = set (set_add e un) \<union> (set l - set ix)"
      by (rule replace_fold) (use run True in \<open>simp add: replace_event_def\<close>)
    then show ?thesis using inv e \<open>e \<in> S\<close> unfolding new by auto
  next
    case False
    then have same: "st' = st" "un' = un" using run by (simp_all add: replace_event_def)
    have "insert e (set l) \<subseteq> U" if "e \<in> S"
    proof -
      have "e \<in> U" using False that inv(1) by blast
      then obtain f k where fk: "(f, k) \<in> set D" "f \<in> S" "e \<in> insert f (set k)" by (auto simp: U replaced_by_def)
      have "set l \<subseteq> insert f (set k)" by (rule up [OF fk(1)]) (use fk(3) in simp)
      moreover have "insert f (set k) \<subseteq> U" using fk(1,2) by (auto simp: U replaced_by_def)
      ultimately show ?thesis using \<open>e \<in> U\<close> by blast
    qed
    then have "replaced_by (D @ [(e, l)]) S = U" unfolding new by auto
    then show ?thesis using inv same by simp
  qed
qed

lemma replace_events:
  assumes "\<And>e l. (e, l) \<in> set pcs \<Longrightarrow> e \<notin> set ix"
    and "\<And>e l f k. (e, l) \<in> set pcs \<Longrightarrow> (f, k) \<in> set pcs \<Longrightarrow> e = f \<or> e \<in> set k \<Longrightarrow> set l \<subseteq> insert f (set k)"
    and "fold (replace_event ix) pcs (s, []) = (st, un)"
  shows "set st = (set s - replaced_by pcs (set s)) \<union> (replaced_by pcs (set s) \<inter> set ix) \<and> set un = replaced_by pcs (set s) - set ix"
  using assms
proof (induction pcs arbitrary: st un rule: rev_induct)
  case Nil
  then show ?case by (simp add: replaced_by_def)
next
  case (snoc x pcs)
  obtain e l where x: "x = (e, l)" by (cases x)
  obtain st1 un1 where one: "fold (replace_event ix) pcs (s, []) = (st1, un1)" by fastforce
  have ih: "set st1 = (set s - replaced_by pcs (set s)) \<union> (replaced_by pcs (set s) \<inter> set ix) \<and> set un1 = replaced_by pcs (set s) - set ix"
  proof (rule snoc.IH [OF _ _ one])
    show "f \<notin> set ix" if "(f, k) \<in> set pcs" for f k
      by (rule snoc.prems(1) [of f k]) (use that in simp)
    show "set k' \<subseteq> insert f (set k)" if "(f', k') \<in> set pcs" "(f, k) \<in> set pcs" "f' = f \<or> f' \<in> set k" for f' k' f k
      by (rule snoc.prems(2) [OF _ _ that(3)]) (use that(1,2) in simp_all)
  qed
  show ?case
    unfolding x
  proof (rule replace_step [OF conjunct1 [OF ih] conjunct2 [OF ih] refl])
    show "e \<notin> set ix" by (rule snoc.prems(1) [of e l]) (simp add: x)
    show "set l \<subseteq> insert f (set k)" if "(f, k) \<in> set pcs" "e = f \<or> e \<in> set k" for f k
      by (rule snoc.prems(2) [OF _ _ that(2)]) (use that(1) in \<open>simp_all add: x\<close>)
    show "replace_event ix (e, l) (st1, un1) = (st, un)" using snoc.prems(3) one by (simp add: x)
  qed
qed


section \<open>The known auth chains\<close>

text \<open>Auth events of stored events; these may be events that are not stored.\<close>

definition known_edges :: "auth_graph \<Rightarrow> chain_tables \<Rightarrow> (string \<times> string) set" where
  "known_edges A T = {(a, e). a \<in> set (A e) \<and> dget (ct_state T) e \<noteq> None}"

definition known_chain :: "auth_graph \<Rightarrow> chain_tables \<Rightarrow> string set \<Rightarrow> string set" where
  "known_chain A T S = {a. \<exists>e\<in>S. (a, e) \<in> (known_edges A T)\<^sup>*}"

lemma known_chain_indexed:
  assumes ok: "index_ok A T" and e: "position_of T e \<noteq> None"
  shows "(a, e) \<in> (known_edges A T)\<^sup>* \<longleftrightarrow> a \<in> auth_chain_of A e"
proof -
  have P: "positions_ok A (ct_chains T)" and rows: "rows_ok A T" using ok by (simp_all add: index_ok_def)
  have sub: "known_edges A T \<subseteq> auth_edges A" by (auto simp: known_edges_def auth_edges_def)
  show ?thesis
  proof
    assume "(a, e) \<in> (known_edges A T)\<^sup>*"
    then show "a \<in> auth_chain_of A e" using rtrancl_mono [OF sub] by (auto simp: auth_chain_of_def)
  next
    assume "a \<in> auth_chain_of A e"
    then have "(a, e) \<in> (auth_edges A)\<^sup>*" by (simp add: auth_chain_of_def)
    then show "(a, e) \<in> (known_edges A T)\<^sup>*"
    proof (induction rule: converse_rtrancl_induct)
      case (step a b)
      have "b \<in> auth_chain_of A e" using step(2) by (simp add: auth_chain_of_def)
      then have "dget (ct_state T) b \<noteq> None" by (rule rows_okD(2) [OF rows ancestors_indexed [OF P _ e]])
      then have "(a, b) \<in> known_edges A T" using step(1) by (simp add: known_edges_def auth_edges_def)
      then show ?case using step(3) by (rule converse_rtrancl_into_rtrancl)
    qed simp
  qed
qed

lemma known_chain_set:
  assumes "index_ok A T" "\<And>e. e \<in> S \<Longrightarrow> position_of T e \<noteq> None"
  shows "known_chain A T S = set_chain A S"
  using known_chain_indexed [OF assms(1) assms(2)] by (auto simp: known_chain_def set_chain_def)

text \<open>The state sets are stored, and what waits for a position in their auth chains waits in this room.\<close>

definition room_sets :: "auth_graph \<Rightarrow> chain_tables \<Rightarrow> string \<Rightarrow> string list list \<Rightarrow> bool" where
  "room_sets A T room_id sets \<longleftrightarrow> sets \<noteq> [] \<and> (\<forall>s\<in>set sets. \<forall>e\<in>set s. dget (ct_state T) e \<noteq> None)
     \<and> (\<forall>s\<in>set sets. \<forall>e\<in>known_chain A T (set s). \<forall>r ty key. dget (ct_to_calculate T) e = Some (r, ty, key) \<longrightarrow> r = room_id)"

lemma room_setsD:
  assumes "room_sets A T room_id sets"
  shows "sets \<noteq> []" "s \<in> set sets \<Longrightarrow> e \<in> set s \<Longrightarrow> dget (ct_state T) e \<noteq> None"
    "s \<in> set sets \<Longrightarrow> e \<in> known_chain A T (set s) \<Longrightarrow> dget (ct_to_calculate T) e = Some (r, ty, key) \<Longrightarrow> r = room_id"
proof -
  note D1 = assms [unfolded room_sets_def]
  note D2 = conjunct2 [OF D1]
  show "sets \<noteq> []" by (rule conjunct1 [OF D1])
  show "s \<in> set sets \<Longrightarrow> e \<in> set s \<Longrightarrow> dget (ct_state T) e \<noteq> None" by (rule bspec [OF bspec [OF conjunct1 [OF D2]]])
  show "s \<in> set sets \<Longrightarrow> e \<in> known_chain A T (set s) \<Longrightarrow> dget (ct_to_calculate T) e = Some (r, ty, key) \<Longrightarrow> r = room_id"
    by (rule mp [OF spec [OF spec [OF spec [OF bspec [OF bspec [OF conjunct2 [OF D2]]]]]]])
qed

text \<open>An event of the auth chains without a position is among those that wait, and so are those above it.\<close>

lemma unindexed_waits:
  assumes rows: "rows_ok A T" and sets: "room_sets A T room_id sets" and s: "s \<in> set sets"
    and e: "e \<in> known_chain A T (set s)" "dget (ct_state T) e \<noteq> None" "position_of T e = None"
  shows "e \<in> room_waiting T room_id"
proof -
  have "dget (ct_to_calculate T) e \<noteq> None" using rows_okD(4) [OF rows e(2)] e(3) by simp
  then obtain r ty key where d: "dget (ct_to_calculate T) e = Some (r, ty, key)" by (cases "dget (ct_to_calculate T) e") auto
  have "r = room_id" by (rule room_setsD(3) [OF sets s e(1) d])
  then show ?thesis using map_of_SomeD [OF d] by (auto simp: room_waiting_def)
qed

lemma chain_of_waiting:
  assumes ok: "index_ok A T" and sets: "room_sets A T room_id sets" and s: "s \<in> set sets" and e: "e \<in> set s"
    and g: "\<And>b. b \<in> room_waiting T room_id \<Longrightarrow> \<exists>l. dget g b = Some l \<and> set l = set (A b)"
    and path: "(a, e) \<in> (known_edges A T)\<^sup>*"
  shows "position_of T a = None \<Longrightarrow> (a, e) \<in> (dict_edges g)\<^sup>*"
    and "position_of T a \<noteq> None \<Longrightarrow> \<exists>b. position_of T b \<noteq> None \<and> (b, e) \<in> (dict_edges g)\<^sup>* \<and> a \<in> auth_chain_of A b"
proof -
  have P: "positions_ok A (ct_chains T)" and rows: "rows_ok A T" using ok by (simp_all add: index_ok_def)
  have edge: "(a, b) \<in> dict_edges g" if ab: "(a, b) \<in> known_edges A T" and be: "(b, e) \<in> (known_edges A T)\<^sup>*" and b: "position_of T b = None" for a b
  proof -
    have "b \<in> known_chain A T (set s)" using be e by (auto simp: known_chain_def)
    moreover have "dget (ct_state T) b \<noteq> None" "a \<in> set (A b)" using ab by (auto simp: known_edges_def)
    ultimately show ?thesis using g [OF unindexed_waits [OF rows sets s _ _ b]] by (auto simp: dict_edges_def)
  qed
  have below: "position_of T a \<noteq> None" if "(a, b) \<in> known_edges A T" "position_of T b \<noteq> None" for a b
    using that positions_okD(4) [OF P, of b _ a] by (auto simp: known_edges_def)
  have waiting: "position_of T a = None \<longrightarrow> (a, e) \<in> (dict_edges g)\<^sup>*" if "(a, e) \<in> (known_edges A T)\<^sup>*" for a
    using that
  proof (induction rule: converse_rtrancl_induct)
    case (step a b)
    show ?case
    proof
      assume a: "position_of T a = None"
      then have "position_of T b = None" using below [OF step(1)] by blast
      then show "(a, e) \<in> (dict_edges g)\<^sup>*"
        using step(3) edge [OF step(1,2)] by (auto intro: converse_rtrancl_into_rtrancl)
    qed
  qed simp
  then show "position_of T a = None \<Longrightarrow> (a, e) \<in> (dict_edges g)\<^sup>*" using path by blast
  show "\<exists>b. position_of T b \<noteq> None \<and> (b, e) \<in> (dict_edges g)\<^sup>* \<and> a \<in> auth_chain_of A b" if "position_of T a \<noteq> None"
    using path that
  proof (induction rule: converse_rtrancl_induct)
    case base
    then show ?case by (auto simp: auth_chain_of_def)
  next
    case (step a b)
    show ?case
    proof (cases "position_of T b")
      case None
      have "(a, e) \<in> (dict_edges g)\<^sup>*"
        using edge [OF step(1,2) None] waiting [OF step(2)] None by (auto intro: converse_rtrancl_into_rtrancl)
      then show ?thesis using step(4) by (auto simp: auth_chain_of_def)
    next
      case (Some q)
      then obtain c where c: "position_of T c \<noteq> None" "(c, e) \<in> (dict_edges g)\<^sup>*" "b \<in> auth_chain_of A c" using step(3) by auto
      have "(a, b) \<in> auth_edges A" using step(1) by (simp add: known_edges_def auth_edges_def)
      then have "a \<in> auth_chain_of A c" using c(3) by (auto simp: auth_chain_of_def intro: converse_rtrancl_into_rtrancl)
      then show ?thesis using c(1,2) by blast
    qed
  qed
qed

section \<open>The replaced sets have the same auth chains\<close>

lemma set_unions: "set (fold (\<lambda>s u. set_union u s) sets u) = set u \<union> (\<Union>s\<in>set sets. set s)" for u :: "string list"
  by (induction sets arbitrary: u) (auto simp: set_set_union)

lemma set_union_minus_intersection:
  "a \<in> set (unindexed_difference sets) \<longleftrightarrow> (\<exists>s\<in>set sets. a \<in> set s) \<and> \<not> (\<forall>s\<in>set sets. a \<in> set s)"
  by (auto simp: unindexed_difference_def set_unions)

lemma fixup_correct:
  assumes ok: "index_ok A T" and sets: "room_sets A T room_id sets"
    and known: "set known = {e. (\<exists>s\<in>set sets. e \<in> set s) \<and> position_of T e \<noteq> None}"
    and missing: "set missing = {e. (\<exists>s\<in>set sets. e \<in> set s) \<and> position_of T e = None}"
  shows "\<exists>result sets'. fixup_auth_chain_difference_sets T room_id sets missing known = Inr (result, sets') \<and> length sets' = length sets
    \<and> (\<forall>s\<in>set sets'. \<forall>e\<in>set s. position_of T e \<noteq> None)
    \<and> (\<forall>i<length sets. \<forall>a. position_of T a \<noteq> None \<longrightarrow> a \<in> set_chain A (set (sets' ! i)) \<longleftrightarrow> a \<in> known_chain A T (set (sets ! i)))
    \<and> (\<forall>a. a \<in> set result \<longleftrightarrow> position_of T a = None
        \<and> (\<exists>s\<in>set sets. a \<in> known_chain A T (set s)) \<and> \<not> (\<forall>s\<in>set sets. a \<in> known_chain A T (set s)))"
proof -
  have P: "positions_ok A (ct_chains T)" and rows: "rows_ok A T" using ok by (simp_all add: index_ok_def)
  obtain g ix where run: "fold (waiting_step T) (waiting_rows T room_id) ([], known) = (g, ix)" by fastforce
  note W = waiting_graph [OF rows run]
  let ?E = "(dict_edges g)\<^sup>*"
  have g: "\<exists>l. dget g b = Some l \<and> set l = set (A b)" if "b \<in> room_waiting T room_id" for b
    using W(2) [of b] W(4) [of b] that by auto
  have self: "e \<in> known_chain A T (set s)" if "e \<in> set s" for e s using that by (auto simp: known_chain_def)
  have waits: "e \<in> room_waiting T room_id" if "s \<in> set sets" "e \<in> set s" "position_of T e = None" for s e
    by (rule unindexed_waits [OF rows sets that(1) self [OF that(2)] room_setsD(2) [OF sets that(1,2)] that(3)])
  define pcs where "pcs = map (\<lambda>(e, l). (e, partial_auth_chain g l [])) (filter (\<lambda>(e, _). list_ex (\<lambda>s. e \<in> set s) sets) g)"
  have pcsD: "e \<in> room_waiting T room_id \<and> insert e (set l) = {a. (a, e) \<in> ?E}" if "(e, l) \<in> set pcs" for e l
  proof -
    obtain k where k: "(e, k) \<in> set g" "l = partial_auth_chain g k []" using \<open>(e, l) \<in> set pcs\<close> by (auto simp: pcs_def)
    have "dget g e = Some k" using k(1) W(1) by (simp add: dget_iff_mem)
    then show ?thesis using partial_auth_chain_waiting [of g e k] W(2) [of e] k(2) by simp
  qed
  have pcsI: "\<exists>l. (e, l) \<in> set pcs" if s: "s \<in> set sets" and e: "e \<in> set s" and w: "e \<in> room_waiting T room_id" for s e
  proof -
    obtain k where "dget g e = Some k" using g [OF w] by blast
    then have "(e, k) \<in> set g" by (rule map_of_SomeD)
    moreover have "list_ex (\<lambda>s. e \<in> set s) sets" using s e by (auto simp: list_ex_iff)
    ultimately have "(e, partial_auth_chain g k []) \<in> set pcs" by (force simp: pcs_def)
    then show ?thesis by blast
  qed
  have edge_known: "dict_edges g \<subseteq> known_edges A T"
  proof
    fix x assume "x \<in> dict_edges g"
    then obtain a e l where x: "x = (a, e)" "dget g e = Some l" "a \<in> set l" by (auto simp: dict_edges_def)
    have "e \<in> room_waiting T room_id" using W(2) [of e] x(2) by simp
    then show "x \<in> known_edges A T" using W(3,4) x by (auto simp: known_edges_def)
  qed
  have waiting_above: "b \<in> room_waiting T room_id" if "(a, b) \<in> dict_edges g" for a b
    using that W(2) [of b] by (auto simp: dict_edges_def)
  have ixD: "position_of T a \<noteq> None" if "a \<in> set ix" for a using that W(5) [of a] known by auto
  have not_ix: "e \<notin> set ix" if "(e, l) \<in> set pcs" for e l using pcsD [OF that] W(3) ixD by blast
  have up: "set l \<subseteq> insert f (set k)" if "(e, l) \<in> set pcs" "(f, k) \<in> set pcs" "e = f \<or> e \<in> set k" for e l f k
  proof -
    have "(e, f) \<in> ?E" using pcsD [OF that(2)] that(3) by auto
    then have "{a. (a, e) \<in> ?E} \<subseteq> {a. (a, f) \<in> ?E}" by auto
    then show ?thesis using pcsD [OF that(1)] pcsD [OF that(2)] by blast
  qed
  define reach where "reach s = {a. \<exists>e\<in>set s. (a, e) \<in> ?E}" for s :: "string list"
  have repl: "replaced_by pcs (set s) = {a. \<exists>e\<in>set s. e \<in> room_waiting T room_id \<and> (a, e) \<in> ?E}" if "s \<in> set sets" for s
  proof -
    have "a \<in> replaced_by pcs (set s) \<longleftrightarrow> (\<exists>e\<in>set s. e \<in> room_waiting T room_id \<and> (a, e) \<in> ?E)" for a
    proof
      assume "a \<in> replaced_by pcs (set s)"
      then obtain e l where "(e, l) \<in> set pcs" "e \<in> set s" "a \<in> insert e (set l)" by (auto simp: replaced_by_def)
      then show "\<exists>e\<in>set s. e \<in> room_waiting T room_id \<and> (a, e) \<in> ?E" using pcsD by blast
    next
      assume "\<exists>e\<in>set s. e \<in> room_waiting T room_id \<and> (a, e) \<in> ?E"
      then obtain e where e: "e \<in> set s" "e \<in> room_waiting T room_id" "(a, e) \<in> ?E" by blast
      obtain l where l: "(e, l) \<in> set pcs" using pcsI [OF \<open>s \<in> set sets\<close> e(1,2)] by blast
      have "a \<in> insert e (set l)" using pcsD [OF l] e(3) by blast
      then show "a \<in> replaced_by pcs (set s)" using l e(1) by (auto simp: replaced_by_def)
    qed
    then show ?thesis by blast
  qed
  have ix_iff: "a \<in> set ix \<longleftrightarrow> position_of T a \<noteq> None" if s: "s \<in> set sets" and a: "a \<in> reach s" for a s
  proof
    assume pos: "position_of T a \<noteq> None"
    obtain e where e: "e \<in> set s" "(a, e) \<in> ?E" using a by (auto simp: reach_def)
    from e(2) show "a \<in> set ix"
    proof (cases rule: converse_rtranclE)
      case base
      then show ?thesis using W(5) [of a] known s e(1) pos by auto
    next
      case (step b)
      have "b \<in> room_waiting T room_id" by (rule waiting_above [OF step(1)])
      moreover have "a \<in> set (A b)" using step(1) edge_known by (auto simp: known_edges_def)
      ultimately show ?thesis using W(5) [of a] pos by blast
    qed
  qed (rule ixD)
  define new where "new s = fold (replace_event ix) pcs (s, [])" for s
  have new: "set (fst (new s)) = {a \<in> reach s. position_of T a \<noteq> None}" "set (snd (new s)) = {a \<in> reach s. position_of T a = None}"
    if s: "s \<in> set sets" for s
  proof -
    obtain st un where r: "new s = (st, un)" by fastforce
    have R: "set st = (set s - replaced_by pcs (set s)) \<union> (replaced_by pcs (set s) \<inter> set ix)" "set un = replaced_by pcs (set s) - set ix"
    proof -
      have "set st = (set s - replaced_by pcs (set s)) \<union> (replaced_by pcs (set s) \<inter> set ix) \<and> set un = replaced_by pcs (set s) - set ix"
      proof (rule replace_events [OF _ _ r [unfolded new_def]])
        show "e \<notin> set ix" if "(e, l) \<in> set pcs" for e l by (rule not_ix [OF that])
        show "set l \<subseteq> insert f (set k)" if "(e, l) \<in> set pcs" "(f, k) \<in> set pcs" "e = f \<or> e \<in> set k" for e l f k
          by (rule up [OF that])
      qed
      then show "set st = (set s - replaced_by pcs (set s)) \<union> (replaced_by pcs (set s) \<inter> set ix)" "set un = replaced_by pcs (set s) - set ix"
        by blast+
    qed
    have sub: "replaced_by pcs (set s) \<subseteq> reach s" unfolding repl [OF s] by (auto simp: reach_def)
    have wait_in: "a \<in> replaced_by pcs (set s)" if "a \<in> set s" "position_of T a = None" for a
      unfolding repl [OF s] using that waits [OF s that] by blast
    have split: "a \<in> set s \<or> a \<in> replaced_by pcs (set s)" if "a \<in> reach s" for a
    proof -
      obtain e where e: "e \<in> set s" "(a, e) \<in> ?E" using \<open>a \<in> reach s\<close> by (auto simp: reach_def)
      from e(2) show ?thesis
      proof (cases rule: rtranclE)
        case base
        then show ?thesis using e(1) by simp
      next
        case (step b)
        then show ?thesis unfolding repl [OF s] using e waiting_above by blast
      qed
    qed
    have in_reach: "a \<in> reach s" if "a \<in> set s" for a using that by (auto simp: reach_def)
    show "set (fst (new s)) = {a \<in> reach s. position_of T a \<noteq> None}"
      unfolding r fst_conv R(1) using sub wait_in split in_reach ix_iff [OF s] by blast
    show "set (snd (new s)) = {a \<in> reach s. position_of T a = None}"
      unfolding r snd_conv R(2) using sub wait_in split in_reach ix_iff [OF s] by blast
  qed
  have chain: "a \<in> set_chain A (set (fst (new s))) \<longleftrightarrow> a \<in> known_chain A T (set s)" if s: "s \<in> set sets" and a: "position_of T a \<noteq> None" for s a
  proof
    assume "a \<in> set_chain A (set (fst (new s)))"
    then obtain b e where b: "a \<in> auth_chain_of A b" "position_of T b \<noteq> None" "e \<in> set s" "(b, e) \<in> ?E"
      unfolding new(1) [OF s] by (auto simp: set_chain_def reach_def)
    have "(a, b) \<in> (known_edges A T)\<^sup>*" using known_chain_indexed [OF ok b(2)] b(1) by blast
    moreover have "(b, e) \<in> (known_edges A T)\<^sup>*" using b(4) rtrancl_mono [OF edge_known] by blast
    ultimately have "(a, e) \<in> (known_edges A T)\<^sup>*" by simp
    then show "a \<in> known_chain A T (set s)" using b(3) by (auto simp: known_chain_def)
  next
    assume "a \<in> known_chain A T (set s)"
    then obtain e where e: "e \<in> set s" "(a, e) \<in> (known_edges A T)\<^sup>*" by (auto simp: known_chain_def)
    from chain_of_waiting(2) [OF ok sets s e(1) g e(2) a] show "a \<in> set_chain A (set (fst (new s)))"
      unfolding new(1) [OF s] using e(1) by (auto simp: set_chain_def reach_def)
  qed
  have unindexed: "a \<in> set (snd (new s)) \<longleftrightarrow> position_of T a = None \<and> a \<in> known_chain A T (set s)" if s: "s \<in> set sets" for s a
  proof
    assume "a \<in> set (snd (new s))"
    then show "position_of T a = None \<and> a \<in> known_chain A T (set s)"
      unfolding new(2) [OF s] reach_def known_chain_def using rtrancl_mono [OF edge_known] by blast
  next
    assume a: "position_of T a = None \<and> a \<in> known_chain A T (set s)"
    then obtain e where e: "e \<in> set s" "(a, e) \<in> (known_edges A T)\<^sup>*" by (auto simp: known_chain_def)
    from chain_of_waiting(1) [OF ok sets s e(1) g e(2)] a show "a \<in> set (snd (new s))"
      unfolding new(2) [OF s] using e(1) by (auto simp: reach_def)
  qed
  have check: "\<not> list_ex (\<lambda>e. dget g e = None) missing"
  proof -
    have "dget g e \<noteq> None" if "e \<in> set missing" for e
      using that W(2) [of e] waits unfolding missing by blast
    then show ?thesis by (auto simp: list_ex_iff)
  qed
  define result where "result = unindexed_difference (map (\<lambda>s. snd (new s)) sets)"
  define sets' where "sets' = map (\<lambda>s. fst (new s)) sets"
  have "fixup_auth_chain_difference_sets T room_id sets missing known = Inr (result, sets')"
    using check by (simp add: fixup_auth_chain_difference_sets_def run Let_def result_def sets'_def new_def pcs_def comp_def)
  moreover have "length sets' = length sets" by (simp add: sets'_def)
  moreover have "\<forall>s\<in>set sets'. \<forall>e\<in>set s. position_of T e \<noteq> None" using new(1) by (auto simp: sets'_def)
  moreover have "\<forall>i<length sets. \<forall>a. position_of T a \<noteq> None \<longrightarrow> a \<in> set_chain A (set (sets' ! i)) \<longleftrightarrow> a \<in> known_chain A T (set (sets ! i))"
    using chain by (simp add: sets'_def)
  moreover have "\<forall>a. a \<in> set result \<longleftrightarrow> position_of T a = None
        \<and> (\<exists>s\<in>set sets. a \<in> known_chain A T (set s)) \<and> \<not> (\<forall>s\<in>set sets. a \<in> known_chain A T (set s))"
    unfolding result_def set_union_minus_intersection using unindexed room_setsD(1) [OF sets] by auto
  ultimately show ?thesis by blast
qed

section \<open>The difference is right\<close>

text \<open>The events of the conflict, which the newest state resolution gives, are of the state sets and indexed.\<close>

definition conflict_ok :: "chain_tables \<Rightarrow> string list list \<Rightarrow> string list option \<Rightarrow> string list \<Rightarrow> bool" where
  "conflict_ok T sets conflicted additional \<longleftrightarrow> (case conflicted of None \<Rightarrow> True
     | Some es \<Rightarrow> \<forall>e\<in>set es \<union> set additional. (\<exists>s\<in>set sets. e \<in> set s) \<and> position_of T e \<noteq> None)"

lemma chain_positions_succeeds:
  assumes look: "look_ok T E v" and es: "\<And>e. e \<in> set es \<Longrightarrow> e \<in> E \<and> position_of T e \<noteq> None"
  shows "\<exists>ps. chain_positions (cl_info v) es = Inr ps"
proof -
  have "\<exists>ps. foldE (\<lambda>e acc. bindE (optE KeyError (dget (cl_info v) e)) (\<lambda>p. Inr (dset e p acc))) es [] = Inr ps \<and> True"
  proof (rule foldE_succeeds [where I = "\<lambda>_. True"])
    fix e and acc :: "(string, position) pydict" assume "e \<in> set es"
    then have "dget (cl_info v) e = position_of T e" "position_of T e \<noteq> None"
      using look_okD(1) [OF look, of e] es [of e] by simp_all
    then obtain p where "dget (cl_info v) e = Some p" by (cases "position_of T e") simp_all
    then show "\<exists>s'. bindE (optE KeyError (dget (cl_info v) e)) (\<lambda>p. Inr (dset e p acc)) = Inr s' \<and> True" by simp
  qed simp
  then show ?thesis by (simp add: chain_positions_def)
qed

lemma conflict_positions_succeeds:
  assumes look: "look_ok T E v" and E: "(\<Union>s\<in>set sets. set s) \<subseteq> E" and ok: "conflict_ok T sets conflicted additional"
  shows "\<exists>conflict. conflict_positions (cl_info v) conflicted additional = Inr conflict"
proof (cases conflicted)
  case None
  then show ?thesis by (simp add: conflict_positions_def)
next
  case (Some es)
  have one: "e \<in> E \<and> position_of T e \<noteq> None" if "e \<in> set es \<union> set additional" for e
    using bspec [OF ok [unfolded conflict_ok_def Some option.case] that] E by auto
  have "\<exists>ps. chain_positions (cl_info v) es = Inr ps" by (rule chain_positions_succeeds [OF look one]) simp
  moreover have "\<exists>qs. chain_positions (cl_info v) additional = Inr qs" by (rule chain_positions_succeeds [OF look one]) simp
  moreover note Some
  ultimately show ?thesis by (auto simp: conflict_positions_def)
qed

text \<open>The state sets in which only events with a position are left.\<close>

lemma fixed_sets:
  assumes ok: "index_ok A T" and sets: "room_sets A T room_id sets"
    and look: "look_ok T (\<Union>s\<in>set sets. set s) v"
    and missing: "missing = filter (\<lambda>e. dget (cl_info v) e = None) (fold (\<lambda>s u. set_union u s) sets [])"
  shows "\<exists>result sets'. (if missing = [] then Inr ([], sets) else fixup_auth_chain_difference_sets T room_id sets missing (dkeys (cl_info v))) = Inr (result, sets')
    \<and> length sets' = length sets \<and> (\<forall>s\<in>set sets'. \<forall>e\<in>set s. position_of T e \<noteq> None)
    \<and> (\<forall>i<length sets. \<forall>a. position_of T a \<noteq> None \<longrightarrow> a \<in> set_chain A (set (sets' ! i)) \<longleftrightarrow> a \<in> known_chain A T (set (sets ! i)))
    \<and> (\<forall>a. a \<in> set result \<longleftrightarrow> position_of T a = None
        \<and> (\<exists>s\<in>set sets. a \<in> known_chain A T (set s)) \<and> \<not> (\<forall>s\<in>set sets. a \<in> known_chain A T (set s)))"
proof -
  let ?E = "\<Union>s\<in>set sets. set s"
  have miss: "set missing = {e. (\<exists>s\<in>set sets. e \<in> set s) \<and> position_of T e = None}"
  proof (rule set_eqI)
    show "e \<in> set missing \<longleftrightarrow> e \<in> {e. (\<exists>s\<in>set sets. e \<in> set s) \<and> position_of T e = None}" for e
      unfolding missing set_filter set_unions using look_okD(1) [OF look, of e] by auto
  qed
  have known: "set (dkeys (cl_info v)) = {e. (\<exists>s\<in>set sets. e \<in> set s) \<and> position_of T e \<noteq> None}"
  proof (rule set_eqI)
    fix e
    have "e \<in> set (dkeys (cl_info v)) \<longleftrightarrow> dget (cl_info v) e \<noteq> None" unfolding dget_None_iff by simp
    also have "\<dots> \<longleftrightarrow> e \<in> ?E \<and> position_of T e \<noteq> None" using look_okD(1) [OF look, of e] by simp
    finally show "e \<in> set (dkeys (cl_info v)) \<longleftrightarrow> e \<in> {e. (\<exists>s\<in>set sets. e \<in> set s) \<and> position_of T e \<noteq> None}" by simp
  qed
  show ?thesis
  proof (cases "missing = []")
    case False
    then show ?thesis using fixup_correct [OF ok sets known miss] by simp
  next
    case True
    then have pos: "position_of T e \<noteq> None" if "s \<in> set sets" "e \<in> set s" for s e using miss that by auto
    have same: "known_chain A T (set s) = set_chain A (set s)" if "s \<in> set sets" for s
      by (rule known_chain_set [OF ok pos [OF that]])
    have P: "positions_ok A (ct_chains T)" using ok by (simp add: index_ok_def)
    have above: "position_of T a \<noteq> None" if a: "a \<in> known_chain A T (set s)" and s: "s \<in> set sets" for a s
    proof -
      obtain e where "e \<in> set s" "a \<in> auth_chain_of A e" using a unfolding same [OF s] by (auto simp: set_chain_def)
      then show ?thesis using ancestors_indexed [OF P _ pos [OF s]] by blast
    qed
    show ?thesis
      unfolding True using pos same above
      by (intro exI [of _ "[]"] exI [of _ sets] conjI) (simp_all, blast)
  qed
qed

lemma difference_correct:
  assumes ok: "index_ok A T" and sets: "room_sets A T room_id sets" and conflict: "conflict_ok T sets conflicted additional"
  shows "\<exists>r. get_auth_chain_difference_using_cover_index T room_id sets conflicted additional = Inr r
    \<and> (\<forall>a. a \<in> set (auth_difference r) \<longleftrightarrow>
        (\<exists>s\<in>set sets. a \<in> known_chain A T (set s)) \<and> \<not> (\<forall>s\<in>set sets. a \<in> known_chain A T (set s)))"
proof -
  have P: "positions_ok A (ct_chains T)" using ok by (simp add: index_ok_def)
  have ne: "sets \<noteq> []" by (rule room_setsD(1) [OF sets])
  let ?E = "\<Union>s\<in>set sets. set s"
  define initial where "initial = fold (\<lambda>s u. set_union u s) sets []"
  have initial: "set initial = ?E" by (simp add: initial_def set_unions)
  define v where "v = fetch_chain_info T initial \<lparr>cl_info = [], cl_event = [], cl_seen = []\<rparr>"
  have "look_ok T {} \<lparr>cl_info = [], cl_event = [], cl_seen = []\<rparr>" by (simp add: look_ok_def inner_map_def get_or_def)
  from look_fetch [OF P this, of initial] have look: "look_ok T ?E v" by (simp add: v_def initial)
  define missing where "missing = filter (\<lambda>e. dget (cl_info v) e = None) initial"
  obtain result sets' where fixed: "(if missing = [] then Inr ([], sets) else fixup_auth_chain_difference_sets T room_id sets missing (dkeys (cl_info v))) = Inr (result, sets')"
    "length sets' = length sets" "\<forall>s\<in>set sets'. \<forall>e\<in>set s. position_of T e \<noteq> None"
    and chain: "\<forall>i<length sets. \<forall>a. position_of T a \<noteq> None \<longrightarrow> a \<in> set_chain A (set (sets' ! i)) \<longleftrightarrow> a \<in> known_chain A T (set (sets ! i))"
    and result: "\<forall>a. a \<in> set result \<longleftrightarrow> position_of T a = None
        \<and> (\<exists>s\<in>set sets. a \<in> known_chain A T (set s)) \<and> \<not> (\<forall>s\<in>set sets. a \<in> known_chain A T (set s))"
    using fixed_sets [OF ok sets look missing_def [unfolded initial_def]] by blast
  define v' where "v' = fetch_chain_info T (filter (\<lambda>e. e \<notin> set initial) (fold (\<lambda>s u. set_union u s) sets' [])) v"
  define E' where "E' = ?E \<union> {e \<in> (\<Union>s\<in>set sets'. set s). e \<notin> ?E}"
  have "set (filter (\<lambda>e. e \<notin> set initial) (fold (\<lambda>s u. set_union u s) sets' [])) = {e \<in> (\<Union>s\<in>set sets'. set s). e \<notin> ?E}"
    by (simp add: set_unions initial)
  then have look': "look_ok T E' v'" using look_fetch [OF P look, of "filter (\<lambda>e. e \<notin> set initial) (fold (\<lambda>s u. set_union u s) sets' [])"]
    by (simp only: v'_def E'_def)
  have sets': "set s \<subseteq> E' \<and> (\<forall>e\<in>set s. position_of T e \<noteq> None)" if "s \<in> set sets'" for s
    using that fixed(3) unfolding E'_def by blast
  have ne': "sets' \<noteq> []" using ne fixed(2) by auto
  obtain cp where cp: "conflict_positions (cl_info v') conflicted additional = Inr cp"
    using conflict_positions_succeeds [OF look' _ conflict] by (auto simp: E'_def)
  obtain stc where stc: "foldE (\<lambda>s acc. bindE (state_chains (cl_info v') s) (\<lambda>chains. Inr (acc @ [chains]))) sets' [] = Inr stc"
    "list_all2 (\<lambda>s m. seqs_of T (set s) m) sets' stc"
    using collect_state_chains [OF P look' sets', of sets' "[]"] by auto
  obtain stc' seen f b where walk: "fold (difference_batch cp) (get_chain_links (ct_links T) (cl_seen v')) (stc, cl_seen v', [], []) = (stc', seen, f, b)"
    by (rule prod_cases4)
  obtain found gaps where gaps: "fold (difference_gap (cl_event v') stc') seen (result, []) = (found, gaps)" by fastforce
  obtain sub sgaps where sub: "fold (subgraph_gap (cl_event v') f) b ([], []) = (sub, sgaps)" by fastforce
  have guard: "(case conflicted of None \<Rightarrow> True | Some es \<Rightarrow> set es \<subseteq> set initial \<and> set additional \<subseteq> set initial)"
    using conflict unfolding initial conflict_ok_def by (cases conflicted) auto
  define r where "r = \<lparr>auth_difference = set_union found (fetch_event_ids_from_chains T gaps),
      conflicted_subgraph = set_union sub (fetch_event_ids_from_chains T sgaps)\<rparr>"
  have "get_auth_chain_difference_using_cover_index T room_id sets conflicted additional = Inr r"
    unfolding get_auth_chain_difference_using_cover_index_def Let_def if_not_P [OF ne] initial_def [symmetric]
      v_def [symmetric] missing_def [symmetric] fixed(1)
    using guard by (simp add: cp stc(1) walk gaps sub r_def flip: v'_def)
  moreover have "a \<in> set (auth_difference r) \<longleftrightarrow>
        (\<exists>s\<in>set sets. a \<in> known_chain A T (set s)) \<and> \<not> (\<forall>s\<in>set sets. a \<in> known_chain A T (set s))" for a
  proof -
    have D: "a \<in> set (auth_difference r) \<longleftrightarrow> a \<in> set result \<or> position_of T a \<noteq> None
        \<and> (\<exists>s\<in>set sets'. a \<in> set_chain A (set s)) \<and> \<not> (\<forall>s\<in>set sets'. a \<in> set_chain A (set s))"
      using indexed_difference [OF ok look' ne' sets' stc(2) walk gaps, of a] by (simp add: r_def set_set_union)
    show ?thesis
    proof (cases "position_of T a")
      case None
      then show ?thesis unfolding D using result by blast
    next
      case (Some p)
      then have each: "a \<in> set_chain A (set (sets' ! i)) \<longleftrightarrow> a \<in> known_chain A T (set (sets ! i))" if "i < length sets" for i
        using chain that by simp
      have "(\<exists>s\<in>set sets'. a \<in> set_chain A (set s)) \<longleftrightarrow> (\<exists>s\<in>set sets. a \<in> known_chain A T (set s))"
        using each fixed(2) unfolding Bex_def in_set_conv_nth by metis
      moreover have "(\<forall>s\<in>set sets'. a \<in> set_chain A (set s)) \<longleftrightarrow> (\<forall>s\<in>set sets. a \<in> known_chain A T (set s))"
        using each fixed(2) unfolding Ball_def in_set_conv_nth by metis
      moreover have "a \<notin> set result" using result Some by simp
      ultimately show ?thesis unfolding D using Some by simp
    qed
  qed
  ultimately show ?thesis by blast
qed
text \<open>
  C7. For state sets of stored events, the auth difference that is computed from the chain cover index is the
  set of the events that are in the auth chain of some but not of every state set; this holds whether or not
  the events and their auth chains have a position already, and with or without a conflicted subgraph.
\<close>

theorem auth_chain_difference_correct:
  assumes "auth_graph_ok A" "indexed_tables A T" "room_sets A T room_id sets" "conflict_ok T sets conflicted additional"
  shows "\<exists>r. get_auth_chain_difference_using_cover_index T room_id sets conflicted additional = Inr r
    \<and> (\<forall>a. a \<in> set (auth_difference r) \<longleftrightarrow>
        (\<exists>s\<in>set sets. a \<in> known_chain A T (set s)) \<and> \<not> (\<forall>s\<in>set sets. a \<in> known_chain A T (set s)))"
  by (rule difference_correct [OF indexed_tables_ok [OF assms(1,2)] assms(3,4)])

theorem auth_chain_difference_correct_witness:
  "\<exists>r. get_auth_chain_difference_using_cover_index example_early ''r'' [[''qqqq''], [''mm'']] None [] = Inr r
    \<and> set (auth_difference r) = {''qqqq'', ''ppp''}
    \<and> (''ppp'' \<in> known_chain example_auth example_early {''qqqq''}) = (''ppp'' \<notin> known_chain example_auth example_early {''mm''})"
proof -
  have sets: "room_sets example_auth example_early ''r'' [[''qqqq''], [''mm'']]"
    by (simp add: room_sets_def example_early_def)
  have "conflict_ok example_early [[''qqqq''], [''mm'']] None []" by (simp add: conflict_ok_def)
  from auth_chain_difference_correct [OF example_graph_ok example_indexed_early sets this]
  obtain r where r: "get_auth_chain_difference_using_cover_index example_early ''r'' [[''qqqq''], [''mm'']] None [] = Inr r"
    "\<forall>a. a \<in> set (auth_difference r) \<longleftrightarrow> (\<exists>s\<in>set [[''qqqq''], [''mm'']]. a \<in> known_chain example_auth example_early (set s))
      \<and> \<not> (\<forall>s\<in>set [[''qqqq''], [''mm'']]. a \<in> known_chain example_auth example_early (set s))" by blast
  have run: "get_auth_chain_difference_using_cover_index example_early ''r'' [[''qqqq''], [''mm'']] None []
      = Inr \<lparr>auth_difference = [''qqqq'', ''ppp''], conflicted_subgraph = []\<rparr>"
    by code_simp
  then have d: "auth_difference r = [''qqqq'', ''ppp'']" using r(1) by simp
  then have "''ppp'' \<in> set (auth_difference r)" by simp
  then have "(''ppp'' \<in> known_chain example_auth example_early {''qqqq''}) = (''ppp'' \<notin> known_chain example_auth example_early {''mm''})"
    using spec [OF r(2), of "''ppp''"] by simp blast
  then show ?thesis using r(1) d by simp
qed

section \<open>A conflicted event without a position\<close>

text \<open>
  The caller falls back to the search when the index does not cover the events; but with a conflicted
  subgraph the look-up of a conflicted event that has no position fails with another error first.
\<close>

lemma unindexed_conflict_fails:
  "get_auth_chain_difference_using_cover_index example_early ''r'' [[''qqqq''], [''mm'']] (Some [''qqqq'']) [] = Inl KeyError"
  by code_simp

end
