(* ===== verification/Auth_Difference_Search.thy ===== *)
theory Auth_Difference_Search
  imports Auth_Difference_Fixup
begin

text \<open>
  The auth chain difference without the chain cover index: the search of \<open>_get_auth_chain_difference_txn\<close>
  that walks the auth chains of all state sets in tandem, and the choice between it and the index in
  \<open>get_auth_chain_difference_extended\<close>. The search ends for an auth graph without cycles and it finds the
  whole difference; an example shows that it may return more than the difference.
\<close>

section \<open>Loops that may not end\<close>

definition bindT :: "'a res option \<Rightarrow> ('a \<Rightarrow> 'b res option) \<Rightarrow> 'b res option" where
  "bindT m f = (case m of None \<Rightarrow> None | Some (Inl err) \<Rightarrow> Some (Inl err) | Some (Inr x) \<Rightarrow> f x)"

lemma bindT_simps [simp]: "bindT None f = None" "bindT (Some (Inl err)) f = Some (Inl err)" "bindT (Some (Inr x)) f = f x"
  by (simp_all add: bindT_def)

fun foldT :: "('a \<Rightarrow> 's \<Rightarrow> 's res option) \<Rightarrow> 'a list \<Rightarrow> 's \<Rightarrow> 's res option" where
  "foldT f [] s = Some (Inr s)"
| "foldT f (x # xs) s = bindT (f x s) (foldT f xs)"

section \<open>The search\<close>

text \<open>For an event the numbers of the state sets that, as far as is known, do not reach it.\<close>

type_synonym missing_sets = "(string, nat list) pydict"

type_synonym known_auths = "(string, string list) pydict"

type_synonym walk_state = "missing_sets \<times> known_auths \<times> (int \<times> string) list"

definition intersection_update :: "nat list \<Rightarrow> nat list \<Rightarrow> nat list" where
  "intersection_update sets other = filter (\<lambda>i. i \<in> set other) sets"

definition mark_event :: "known_auths \<Rightarrow> string \<Rightarrow> string \<Rightarrow> missing_sets \<times> string list \<Rightarrow> (missing_sets \<times> string list) res" where
  "mark_event event_to_auth_events event_id a_id = (\<lambda>(missing, new_aids).
     bindE (optE KeyError (dget missing a_id)) (\<lambda>sets.
     bindE (optE KeyError (dget missing event_id)) (\<lambda>other.
       Inr (dset a_id (intersection_update sets other) missing,
            set_union new_aids (get_or event_to_auth_events a_id [])))))"

partial_function (option) mark_ancestors :: "known_auths \<Rightarrow> string \<Rightarrow> string list \<Rightarrow> missing_sets \<Rightarrow> missing_sets res option" where
  "mark_ancestors event_to_auth_events event_id a_ids missing =
     (if a_ids = [] then Some (Inr missing)
      else
        (case foldE (mark_event event_to_auth_events event_id) a_ids (missing, []) of
           Inl err \<Rightarrow> Some (Inl err)
         | Inr (missing', new_aids) \<Rightarrow> mark_ancestors event_to_auth_events event_id new_aids missing'))"

declare mark_ancestors.simps [code]

definition found_row :: "nat \<Rightarrow> string \<times> string \<times> int \<Rightarrow> walk_state \<Rightarrow> walk_state res option" where
  "found_row n = (\<lambda>(event_id, auth_event_id, auth_event_depth) (missing, event_to_auth_events, search).
     (let auths = dset event_id (set_add auth_event_id (get_or event_to_auth_events event_id [])) event_to_auth_events in
      bindT
        (case dget missing auth_event_id of
           None \<Rightarrow> Some (Inr (dset auth_event_id [0..<n] missing, search @ [(auth_event_depth, auth_event_id)]))
         | Some _ \<Rightarrow>
             bindT (mark_ancestors auths event_id (get_or auths auth_event_id []) missing) (\<lambda>m. Some (Inr (m, search))))
        (\<lambda>(missing', search').
           Some (bindE (optE KeyError (dget missing' auth_event_id)) (\<lambda>sets.
                 bindE (optE KeyError (dget missing' event_id)) (\<lambda>other.
                   Inr (dset auth_event_id (intersection_update sets other) missing', auths, search')))))))"

fun all_reach :: "missing_sets \<Rightarrow> (int \<times> string) list \<Rightarrow> bool res" where
  "all_reach missing [] = Inr True"
| "all_reach missing ((_, eid) # search) =
     bindE (optE KeyError (dget missing eid)) (\<lambda>sets. if sets = [] then all_reach missing search else Inr False)"

definition find_auths :: "chain_tables \<Rightarrow> (string \<Rightarrow> int) \<Rightarrow> string list \<Rightarrow> auth_cache \<Rightarrow> (string \<times> string \<times> int) list \<times> auth_cache" where
  "find_auths T depth chunk cache =
     (case fold (\<lambda>e (found, to_fetch). case dget cache e of
                   None \<Rightarrow> (found, to_fetch @ [e])
                 | Some res \<Rightarrow> (found @ map (\<lambda>(a, d). (e, a, d)) res, to_fetch)) chunk ([], []) of
        (found, to_fetch) \<Rightarrow>
          (let rows = auth_rows T depth to_fetch in (found @ rows, cache_rows rows cache)))"

text \<open>A round of the search: it returns, or it goes on from another state.\<close>

definition search_round :: "chain_tables \<Rightarrow> (string \<Rightarrow> int) \<Rightarrow> nat \<Rightarrow> walk_state \<times> auth_cache
    \<Rightarrow> ((missing_sets \<times> auth_cache) + (walk_state \<times> auth_cache)) res option" where
  "search_round T depth n = (\<lambda>((missing, auths, search), cache).
     if search = [] then Some (Inr (Inl (missing, cache)))
     else
       (case all_reach missing search of
          Inl err \<Rightarrow> Some (Inl err)
        | Inr True \<Rightarrow> Some (Inr (Inl (missing, cache)))
        | Inr False \<Rightarrow>
            (case find_auths T depth (map snd (drop (length search - 100) search)) cache of (found, cache') \<Rightarrow>
               bindT (foldT (found_row n) found (missing, auths, take (length search - 100) search))
                 (\<lambda>(missing', auths', search'). Some (Inr (Inr ((missing', auths', sort search'), cache')))))))"

partial_function (option) auth_difference_loop :: "chain_tables \<Rightarrow> (string \<Rightarrow> int) \<Rightarrow> nat \<Rightarrow> walk_state \<times> auth_cache
    \<Rightarrow> (missing_sets \<times> auth_cache) res option" where
  "auth_difference_loop T depth n state =
     (case search_round T depth n state of
        None \<Rightarrow> None
      | Some round \<Rightarrow>
          (case round of
             Inl err \<Rightarrow> Some (Inl err)
           | Inr result \<Rightarrow> (case result of Inl r \<Rightarrow> Some (Inr r) | Inr state' \<Rightarrow> auth_difference_loop T depth n state')))"

declare auth_difference_loop.simps [code]

definition initial_missing :: "string list list \<Rightarrow> string list \<Rightarrow> missing_sets" where
  "initial_missing state_sets initial_events =
     map (\<lambda>e. (e, filter (\<lambda>i. e \<notin> set (state_sets ! i)) [0..<length state_sets])) initial_events"

definition initial_search :: "chain_tables \<Rightarrow> (string \<Rightarrow> int) \<Rightarrow> string list \<Rightarrow> (int \<times> string) list" where
  "initial_search T depth initial_events =
     sort (concat (map (\<lambda>batch. map (\<lambda>e. (depth e, e)) (filter (\<lambda>e. dget (ct_state T) e \<noteq> None) batch))
       (batch_iter initial_events 1000)))"

definition get_auth_chain_difference_txn :: "chain_tables \<Rightarrow> (string \<Rightarrow> int) \<Rightarrow> auth_cache \<Rightarrow> string list list
    \<Rightarrow> (string list \<times> auth_cache) res option" where
  "get_auth_chain_difference_txn T depth cache state_sets =
     (if state_sets = [] then Some (Inl IndexError)
      else
        (let initial_events = fold (\<lambda>s u. set_union u s) state_sets [] in
         bindT (auth_difference_loop T depth (length state_sets)
             ((initial_missing state_sets initial_events, [], initial_search T depth initial_events), cache))
           (\<lambda>(missing, cache'). Some (Inr (map fst (filter (\<lambda>(_, sets). sets \<noteq> []) missing), cache')))))"

text \<open>The index for rooms that have one; a conflicted subgraph only with the index.\<close>

definition get_auth_chain_difference_extended :: "chain_tables \<Rightarrow> (string \<Rightarrow> int) \<Rightarrow> auth_cache \<Rightarrow> bool \<Rightarrow> bool \<Rightarrow> string
    \<Rightarrow> string list list \<Rightarrow> string list option \<Rightarrow> string list \<Rightarrow> (string list \<times> string list option) res option" where
  "get_auth_chain_difference_extended T depth cache has_index tests_allow_no_chain_cover_index room_id state_sets conflicted_set additional =
     (let old = (if conflicted_set \<noteq> None then Some (Inl NoChainCoverIndex)
                 else bindT (get_auth_chain_difference_txn T depth cache state_sets) (\<lambda>(diff, _). Some (Inr (diff, None))))
      in if has_index
         then
           (case get_auth_chain_difference_using_cover_index T room_id state_sets conflicted_set additional of
              Inr r \<Rightarrow> Some (Inr (auth_difference r, Some (conflicted_subgraph r)))
            | Inl err \<Rightarrow> if err = NoChainCoverIndex \<and> tests_allow_no_chain_cover_index then old else Some (Inl err))
         else old)"

section \<open>What the marks mean\<close>

definition set_reach :: "chain_tables \<Rightarrow> string list \<Rightarrow> string set" where
  "set_reach T s = {a. \<exists>e\<in>set s. (a, e) \<in> (stored_edges T)\<^sup>*}"

lemma set_reach_below: "e \<in> set_reach T s \<Longrightarrow> (a, e) \<in> (stored_edges T)\<^sup>* \<Longrightarrow> a \<in> set_reach T s"
  unfolding set_reach_def using rtrancl_trans by fastforce

definition marks_ok :: "chain_tables \<Rightarrow> string list list \<Rightarrow> missing_sets \<Rightarrow> bool" where
  "marks_ok T sets missing \<longleftrightarrow> (\<forall>e m. dget missing e = Some m \<longrightarrow>
     (\<exists>s\<in>set sets. e \<in> set_reach T s) \<and> (\<forall>i<length sets. i \<in> set m \<or> e \<in> set_reach T (sets ! i)))"

lemma marks_okD:
  assumes "marks_ok T sets missing" "dget missing e = Some m"
  shows "\<exists>s\<in>set sets. e \<in> set_reach T s" "i < length sets \<Longrightarrow> i \<in> set m \<or> e \<in> set_reach T (sets ! i)"
  using assms unfolding marks_ok_def by blast+

definition same_keys :: "missing_sets \<Rightarrow> missing_sets \<Rightarrow> bool" where
  "same_keys m m' \<longleftrightarrow> (\<forall>e. dget m' e = None \<longleftrightarrow> dget m e = None)"

definition auths_ok :: "chain_tables \<Rightarrow> missing_sets \<Rightarrow> known_auths \<Rightarrow> bool" where
  "auths_ok T missing auths \<longleftrightarrow> (\<forall>e l. dget auths e = Some l \<longrightarrow>
     set l \<subseteq> stored_auths T e \<and> (\<forall>a\<in>set l. dget missing a \<noteq> None))"

lemma auths_okD:
  assumes "auths_ok T missing auths" "a \<in> set (get_or auths e [])"
  shows "(a, e) \<in> stored_edges T" "dget missing a \<noteq> None"
  using assms by (cases "dget auths e"; auto simp: auths_ok_def get_or_def stored_edges_def subset_iff)+

lemma auths_ok_same: "auths_ok T m auths \<Longrightarrow> same_keys m m' \<Longrightarrow> auths_ok T m' auths"
  by (simp add: auths_ok_def same_keys_def)

lemma marks_intersection:
  assumes ok: "marks_ok T sets missing" and a: "dget missing a = Some m" and e: "dget missing e = Some other"
    and above: "(a, e) \<in> (stored_edges T)\<^sup>*"
  shows "marks_ok T sets (dset a (intersection_update m other) missing)"
  unfolding marks_ok_def
proof (intro allI impI)
  fix x k assume k: "dget (dset a (intersection_update m other) missing) x = Some k"
  show "(\<exists>s\<in>set sets. x \<in> set_reach T s) \<and> (\<forall>i<length sets. i \<in> set k \<or> x \<in> set_reach T (sets ! i))"
  proof (cases "x = a")
    case False
    then show ?thesis using k marks_okD [OF ok, of x k] by simp
  next
    case True
    have "i \<in> set k \<or> a \<in> set_reach T (sets ! i)" if "i < length sets" for i
      using marks_okD(2) [OF ok a that] marks_okD(2) [OF ok e that] set_reach_below [OF _ above] k True
      by (auto simp: intersection_update_def)
    then show ?thesis using True marks_okD(1) [OF ok a] by simp
  qed
qed

lemma mark_events:
  assumes ok: "marks_ok T sets missing" and e: "dget missing e \<noteq> None" and auths: "auths_ok T missing auths"
    and a_ids: "\<And>a. a \<in> set a_ids \<Longrightarrow> dget missing a \<noteq> None \<and> (a, e) \<in> (stored_edges T)\<^sup>*"
  shows "\<exists>missing' new. foldE (mark_event auths e) a_ids (missing, []) = Inr (missing', new) \<and> marks_ok T sets missing' \<and> same_keys missing missing'
    \<and> set new \<subseteq> (\<Union>a\<in>set a_ids. set (get_or auths a []))"
proof -
  let ?I = "\<lambda>(missing', new). marks_ok T sets missing' \<and> same_keys missing missing' \<and> set new \<subseteq> (\<Union>a\<in>set a_ids. set (get_or auths a []))"
  have "\<exists>st. foldE (mark_event auths e) a_ids (missing, []) = Inr st \<and> ?I st"
  proof (rule foldE_succeeds [where I = ?I])
    show "?I (missing, [])" using ok by (simp add: same_keys_def)
    fix a and st :: "missing_sets \<times> string list" assume a: "a \<in> set a_ids" and st: "?I st"
    obtain m new where m: "st = (m, new)" by (cases st)
    have I: "marks_ok T sets m" "same_keys missing m" "set new \<subseteq> (\<Union>a\<in>set a_ids. set (get_or auths a []))" using st m by simp_all
    have "dget m a \<noteq> None" "dget m e \<noteq> None" using a_ids [OF a] e I(2) by (simp_all add: same_keys_def)
    then obtain s o' where s: "dget m a = Some s" "dget m e = Some o'" by blast
    have "marks_ok T sets (dset a (intersection_update s o') m)"
      by (rule marks_intersection [OF I(1) s]) (use a_ids [OF a] in blast)
    moreover have "same_keys missing (dset a (intersection_update s o') m)" using I(2) a_ids [OF a] by (simp add: same_keys_def)
    ultimately show "\<exists>st'. mark_event auths e a st = Inr st' \<and> ?I st'"
      using I(3) a by (auto simp: m mark_event_def s set_set_union)
  qed
  then show ?thesis by auto
qed

lemma mark_ancestors_ok:
  assumes wf: "wf (stored_edges T)"
    and "marks_ok T sets missing" "dget missing e \<noteq> None" "auths_ok T missing auths"
    and "\<And>a. a \<in> set a_ids \<Longrightarrow> dget missing a \<noteq> None \<and> (a, e) \<in> (stored_edges T)\<^sup>*"
  shows "\<exists>missing'. mark_ancestors auths e a_ids missing = Some (Inr missing') \<and> marks_ok T sets missing' \<and> same_keys missing missing'"
proof -
  have "\<forall>a_ids missing. set a_ids = X \<longrightarrow> marks_ok T sets missing \<longrightarrow> dget missing e \<noteq> None \<longrightarrow> auths_ok T missing auths
    \<longrightarrow> (\<forall>a\<in>set a_ids. dget missing a \<noteq> None \<and> (a, e) \<in> (stored_edges T)\<^sup>*)
    \<longrightarrow> (\<exists>missing'. mark_ancestors auths e a_ids missing = Some (Inr missing') \<and> marks_ok T sets missing' \<and> same_keys missing missing')" for X
  proof (induction X rule: wf_induct_rule [OF max_ext_wf [OF wf]])
    case (1 X)
    show ?case
    proof (intro allI impI)
      fix a_ids missing
      assume X: "set a_ids = X" and ok: "marks_ok T sets missing" and e: "dget missing e \<noteq> None" and auths: "auths_ok T missing auths"
        and a_ids: "\<forall>a\<in>set a_ids. dget missing a \<noteq> None \<and> (a, e) \<in> (stored_edges T)\<^sup>*"
      show "\<exists>missing'. mark_ancestors auths e a_ids missing = Some (Inr missing') \<and> marks_ok T sets missing' \<and> same_keys missing missing'"
      proof (cases "a_ids = []")
        case True
        then show ?thesis using ok by (simp add: mark_ancestors.simps same_keys_def)
      next
        case False
        obtain m new where level: "foldE (mark_event auths e) a_ids (missing, []) = Inr (m, new)" and m: "marks_ok T sets m" "same_keys missing m"
          and new: "set new \<subseteq> (\<Union>a\<in>set a_ids. set (get_or auths a []))"
          using mark_events [OF ok e auths, of a_ids] a_ids by blast
        have below: "\<exists>a\<in>set a_ids. (b, a) \<in> stored_edges T" and key: "dget missing b \<noteq> None" if "b \<in> set new" for b
          using that new auths_okD [OF auths, of b] by blast+
        have less: "(set new, X) \<in> max_ext (stored_edges T)"
          by (rule max_ext.max_extI) (use False X below in auto)
        have "dget m b \<noteq> None \<and> (b, e) \<in> (stored_edges T)\<^sup>*" if b: "b \<in> set new" for b
        proof -
          obtain a where "a \<in> set a_ids" "(b, a) \<in> stored_edges T" using below [OF b] by blast
          then have "(b, e) \<in> (stored_edges T)\<^sup>*" using a_ids by (blast intro: converse_rtrancl_into_rtrancl)
          then show ?thesis using key [OF b] m(2) by (simp add: same_keys_def)
        qed
        moreover have "dget m e \<noteq> None" using e m(2) by (simp add: same_keys_def)
        ultimately obtain m' where "mark_ancestors auths e new m = Some (Inr m')" "marks_ok T sets m'" "same_keys m m'"
          using 1 [OF less] m(1) auths_ok_same [OF auths m(2)] by blast
        then show ?thesis using m(2) False level by (subst mark_ancestors.simps) (simp add: same_keys_def)
      qed
    qed
  qed
  then show ?thesis using assms(2-) by blast
qed

section \<open>A round of the search\<close>

definition walk_ok :: "chain_tables \<Rightarrow> string list list \<Rightarrow> walk_state \<Rightarrow> bool" where
  "walk_ok T sets = (\<lambda>(missing, auths, search).
     marks_ok T sets missing \<and> auths_ok T missing auths \<and> (\<forall>x\<in>set search. dget missing (snd x) \<noteq> None))"

definition keys :: "missing_sets \<Rightarrow> string set" where
  "keys missing = {e. dget missing e \<noteq> None}"

text \<open>The events that are new are searched later; if there are none the search has not grown.\<close>

definition grown :: "walk_state \<Rightarrow> walk_state \<Rightarrow> bool" where
  "grown = (\<lambda>(missing, _, search) (missing', _, search').
     keys missing \<subseteq> keys missing' \<and> set search \<subseteq> set search' \<and> keys missing' - keys missing \<subseteq> snd ` set search'
     \<and> (keys missing' = keys missing \<longrightarrow> search' = search))"

lemma grown_refl: "grown st st"
  by (cases st) (simp add: grown_def)

lemma grown_trans:
  assumes "grown st st'" "grown st' st''"
  shows "grown st st''"
proof -
  obtain m a s m' a' s' m'' a'' s'' where st: "st = (m, a, s)" "st' = (m', a', s')" "st'' = (m'', a'', s'')"
    by (metis prod_cases3)
  have G: "keys m \<subseteq> keys m'" "set s \<subseteq> set s'" "keys m' - keys m \<subseteq> snd ` set s'" "keys m' = keys m \<Longrightarrow> s' = s"
    "keys m' \<subseteq> keys m''" "set s' \<subseteq> set s''" "keys m'' - keys m' \<subseteq> snd ` set s''" "keys m'' = keys m' \<Longrightarrow> s'' = s'"
    using assms unfolding st grown_def by simp_all
  have "keys m'' - keys m \<subseteq> snd ` set s''" using G(3,6,7) by blast
  moreover have "s'' = s" if "keys m'' = keys m"
  proof -
    have "keys m' = keys m" "keys m'' = keys m'" using that G(1,5) by blast+
    then show ?thesis using G(4,8) by simp
  qed
  ultimately show ?thesis using G(1,2,5,6) unfolding st grown_def by auto
qed

lemma found_row_ok:
  assumes wf: "wf (stored_edges T)" and ok: "walk_ok T sets (missing, auths, search)"
    and e: "dget missing e \<noteq> None" and a: "a \<in> stored_auths T e"
  shows "\<exists>missing' auths' search'. found_row (length sets) (e, a, d) (missing, auths, search) = Some (Inr (missing', auths', search'))
    \<and> walk_ok T sets (missing', auths', search') \<and> grown (missing, auths, search) (missing', auths', search')
    \<and> keys missing' = insert a (keys missing)"
proof -
  have M: "marks_ok T sets missing" and A: "auths_ok T missing auths" and S: "\<And>x. x \<in> set search \<Longrightarrow> dget missing (snd x) \<noteq> None"
    using ok by (simp_all add: walk_ok_def)
  have edge: "(a, e) \<in> stored_edges T" using a by (simp add: stored_edges_def)
  define auths' where "auths' = dset e (set_add a (get_or auths e [])) auths"
  have A': "auths_ok T m auths'" if "keys missing \<subseteq> keys m" "a \<in> keys m" for m
    unfolding auths_ok_def
  proof (intro allI impI)
    fix x l assume l: "dget auths' x = Some l"
    have "set l \<subseteq> stored_auths T x \<and> set l \<subseteq> insert a (keys missing)"
    proof (cases "x = e")
      case True
      then have "set l = insert a (set (get_or auths e []))" using l by (auto simp: auths'_def)
      then show ?thesis using True a auths_okD [OF A, of _ e] by (auto simp: keys_def stored_edges_def)
    next
      case False
      then have "dget auths x = Some l" using l by (simp add: auths'_def)
      then show ?thesis using A unfolding auths_ok_def keys_def by blast
    qed
    then show "set l \<subseteq> stored_auths T x \<and> (\<forall>a\<in>set l. dget m a \<noteq> None)" using that unfolding keys_def by blast
  qed
  have finish: "\<exists>missing' auths' search'. found_row (length sets) (e, a, d) (missing, auths, search) = Some (Inr (missing', auths', search'))
      \<and> walk_ok T sets (missing', auths', search') \<and> grown (missing, auths, search) (missing', auths', search') \<and> keys missing' = insert a (keys missing)"
    if row: "found_row (length sets) (e, a, d) (missing, auths, search) =
        Some (bindE (optE KeyError (dget m a)) (\<lambda>sets. bindE (optE KeyError (dget m e)) (\<lambda>other.
          Inr (dset a (intersection_update sets other) m, auths', search'))))"
      and m: "marks_ok T sets m" "keys m = insert a (keys missing)"
      and s: "search' = (if a \<in> keys missing then search else search @ [(d, a)])" for m search'
  proof -
    have "dget m a \<noteq> None" "dget m e \<noteq> None" using m(2) e unfolding keys_def by blast+
    then obtain sa se where sae: "dget m a = Some sa" "dget m e = Some se" by blast
    let ?m = "dset a (intersection_update sa se) m"
    have marks: "marks_ok T sets ?m" by (rule marks_intersection [OF m(1) sae r_into_rtrancl [OF edge]])
    have k: "keys ?m = insert a (keys missing)" using m(2) sae unfolding keys_def by auto
    have "walk_ok T sets (?m, auths', search')"
      using marks A' [of ?m] k S unfolding walk_ok_def s keys_def by auto
    moreover have "grown (missing, auths, search) (?m, auths', search')"
      unfolding grown_def using k s by (cases "a \<in> keys missing") auto
    ultimately show ?thesis using row k by (simp add: sae)
  qed
  show ?thesis
  proof (cases "dget missing a")
    case None
    let ?m = "dset a [0..<length sets] missing"
    have "\<exists>s\<in>set sets. a \<in> set_reach T s"
    proof -
      obtain o' where "dget missing e = Some o'" using e by blast
      from marks_okD(1) [OF M this] show ?thesis using set_reach_below [OF _ r_into_rtrancl [OF edge]] by blast
    qed
    then have "marks_ok T sets ?m" using M unfolding marks_ok_def by (auto split: if_splits)
    moreover have "keys ?m = insert a (keys missing)" by (auto simp: keys_def)
    moreover have "a \<notin> keys missing" using None by (simp add: keys_def)
    ultimately show ?thesis
      by (intro finish [of ?m "search @ [(d, a)]"]) (simp_all add: found_row_def None auths'_def [symmetric] Let_def)
  next
    case (Some sa)
    then have ka: "a \<in> keys missing" by (simp add: keys_def)
    have "dget missing b \<noteq> None \<and> (b, e) \<in> (stored_edges T)\<^sup>*" if "b \<in> set (get_or auths' a [])" for b
      using auths_okD [OF A' [OF order_refl ka] that] edge by auto
    from mark_ancestors_ok [OF wf M e A' [OF order_refl ka] this]
    obtain m where m: "mark_ancestors auths' e (get_or auths' a []) missing = Some (Inr m)" "marks_ok T sets m" "same_keys missing m" by blast
    have "keys m = insert a (keys missing)" using m(3) ka by (auto simp: same_keys_def keys_def)
    moreover have "found_row (length sets) (e, a, d) (missing, auths, search) =
        Some (bindE (optE KeyError (dget m a)) (\<lambda>sets. bindE (optE KeyError (dget m e)) (\<lambda>other.
          Inr (dset a (intersection_update sets other) m, auths', search))))"
      unfolding found_row_def Let_def prod.case auths'_def [symmetric] Some option.case m(1) bindT_simps by (rule refl)
    ultimately show ?thesis using finish [of m search] m(2) ka by simp
  qed
qed

lemma found_rows_ok:
  assumes wf: "wf (stored_edges T)" and "walk_ok T sets st" "\<And>e a d. (e, a, d) \<in> set rows \<Longrightarrow> e \<in> keys (fst st) \<and> a \<in> stored_auths T e"
  shows "\<exists>st'. foldT (found_row (length sets)) rows st = Some (Inr st') \<and> walk_ok T sets st' \<and> grown st st'
    \<and> keys (fst st') = keys (fst st) \<union> (\<lambda>(e, a, d). a) ` set rows"
  using assms(2,3)
proof (induction rows arbitrary: st)
  case Nil
  then show ?case by (simp add: grown_refl)
next
  case (Cons r rows)
  obtain e a d where r: "r = (e, a, d)" by (cases r)
  obtain m au s where st: "st = (m, au, s)" by (cases st)
  have ea: "e \<in> keys m" "a \<in> stored_auths T e" using Cons.prems(2) [of e a d] by (simp_all add: r st)
  obtain st1 where one: "found_row (length sets) r st = Some (Inr st1)" "walk_ok T sets st1" "grown st st1"
    "keys (fst st1) = insert a (keys (fst st))"
    using found_row_ok [OF wf Cons.prems(1) [unfolded st] _ ea(2), of d] ea(1) unfolding r st keys_def by fastforce
  have "\<exists>st'. foldT (found_row (length sets)) rows st1 = Some (Inr st') \<and> walk_ok T sets st' \<and> grown st1 st'
    \<and> keys (fst st') = keys (fst st1) \<union> (\<lambda>(e, a, d). a) ` set rows"
  proof (rule Cons.IH [OF one(2)])
    show "e' \<in> keys (fst st1) \<and> a' \<in> stored_auths T e'" if "(e', a', d') \<in> set rows" for e' a' d'
      using Cons.prems(2) [of e' a' d'] that one(4) by simp
  qed
  then obtain st' where "foldT (found_row (length sets)) rows st1 = Some (Inr st')" "walk_ok T sets st'"
    "grown st1 st'" "keys (fst st') = keys (fst st1) \<union> (\<lambda>(e, a, d). a) ` set rows" by blast
  then show ?case using one grown_trans by (auto simp: r)
qed

lemma find_auths_correct:
  assumes "coherent T cache" "find_auths T depth chunk cache = (found, cache')"
  shows "(\<exists>d. (e, a, d) \<in> set found) \<longleftrightarrow> e \<in> set chunk \<and> a \<in> stored_auths T e" "coherent T cache'"
proof -
  let ?f = "\<lambda>e (found, to_fetch). case dget cache e of
    None \<Rightarrow> (found, to_fetch @ [e]) | Some res \<Rightarrow> (found @ map (\<lambda>(a, d). (e, a, d)) res, to_fetch)"
  obtain f1 tf where fold: "fold ?f chunk ([], []) = (f1, tf)" by fastforce
  have "fold ?f es (f0, t0) = (f1, t1) \<Longrightarrow>
      (\<exists>d. (e, a, d) \<in> set f1) \<or> e \<in> set t1 \<and> a \<in> stored_auths T e
      \<longleftrightarrow> (\<exists>d. (e, a, d) \<in> set f0) \<or> e \<in> set t0 \<union> set es \<and> a \<in> stored_auths T e" for es f0 t0 f1 t1
  proof (induction es arbitrary: f0 t0)
    case (Cons x es)
    show ?case
    proof (cases "dget cache x")
      case None
      then show ?thesis using Cons.IH [of f0 "t0 @ [x]"] Cons.prems by auto
    next
      case (Some res)
      then have res: "fst ` set res = stored_auths T x" using assms(1) by (simp add: coherent_def)
      have "(\<exists>d. (e, a, d) \<in> (\<lambda>(a, d). (x, a, d)) ` set res) \<longleftrightarrow> e = x \<and> a \<in> stored_auths T x"
        unfolding res [symmetric] by force
      then show ?thesis using Cons.IH [of "f0 @ map (\<lambda>(a, d). (x, a, d)) res" t0] Cons.prems Some by auto
    qed
  qed simp
  from this [OF fold] have eq: "(\<exists>d. (e, a, d) \<in> set f1) \<or> e \<in> set tf \<and> a \<in> stored_auths T e \<longleftrightarrow> e \<in> set chunk \<and> a \<in> stored_auths T e"
    by simp
  have res: "found = f1 @ auth_rows T depth tf" "cache' = cache_rows (auth_rows T depth tf) cache"
    using assms(2) by (simp_all add: find_auths_def fold Let_def)
  show "(\<exists>d. (e, a, d) \<in> set found) \<longleftrightarrow> e \<in> set chunk \<and> a \<in> stored_auths T e"
    using eq auth_rows_stored [of e a _ T depth tf] by (auto simp: res(1))
  show "coherent T cache'" unfolding res(2) by (rule coherent_rows [OF assms(1)])
qed

text \<open>The auth events of every event that is known are known, unless the event is still searched.\<close>

definition closed_walk :: "chain_tables \<Rightarrow> walk_state \<Rightarrow> bool" where
  "closed_walk T = (\<lambda>(missing, _, search). \<forall>e\<in>keys missing. e \<in> snd ` set search \<or> stored_auths T e \<subseteq> keys missing)"

lemma all_reach_correct:
  assumes "\<forall>x\<in>set search. dget missing (snd x) \<noteq> None"
  shows "all_reach missing search = Inr (\<forall>x\<in>set search. dget missing (snd x) = Some [])"
  using assms by (induction missing search rule: all_reach.induct) auto

lemma search_round_ok:
  assumes wf: "wf (stored_edges T)" and ok: "walk_ok T sets (m, au, s)" and closed: "closed_walk T (m, au, s)" and c: "coherent T c"
  shows "(s = [] \<or> (\<forall>x\<in>set s. dget m (snd x) = Some [])) \<and> search_round T depth (length sets) ((m, au, s), c) = Some (Inr (Inl (m, c)))
    \<or> (\<exists>m' au' s' c'. search_round T depth (length sets) ((m, au, s), c) = Some (Inr (Inr ((m', au', s'), c')))
        \<and> walk_ok T sets (m', au', s') \<and> closed_walk T (m', au', s') \<and> coherent T c' \<and> keys m \<subseteq> keys m'
        \<and> keys m' \<subseteq> keys m \<union> snd ` set (ct_auth T) \<and> (keys m' = keys m \<longrightarrow> length s' < length s))"
proof -
  have S: "\<forall>x\<in>set s. dget m (snd x) \<noteq> None" using ok by (simp add: walk_ok_def)
  note R = all_reach_correct [OF S]
  show ?thesis
  proof (cases "s = [] \<or> (\<forall>x\<in>set s. dget m (snd x) = Some [])")
    case True
    then show ?thesis using R by (intro disjI1) (auto simp: search_round_def)
  next
    case False
    then have ne: "s \<noteq> []" and go: "all_reach m s = Inr False" using R by auto
    let ?k = "length s - 100"
    let ?chunk = "map snd (drop ?k s)"
    have less: "?k < length s" using ne by (cases s) auto
    have split: "set s = set (take ?k s) \<union> set (drop ?k s)" by (metis append_take_drop_id set_append)
    obtain found c' where find: "find_auths T depth ?chunk c = (found, c')" by fastforce
    note F = find_auths_correct [OF c find]
    have ok0: "walk_ok T sets (m, au, take ?k s)" using ok split by (auto simp: walk_ok_def)
    have rows: "e \<in> keys (fst (m, au, take ?k s)) \<and> a \<in> stored_auths T e" if "(e, a, d) \<in> set found" for e a d
    proof -
      have "e \<in> set ?chunk \<and> a \<in> stored_auths T e" using F(1) [of e a] that by blast
      then show ?thesis using S split unfolding keys_def by auto
    qed
    have "\<exists>st'. foldT (found_row (length sets)) found (m, au, take ?k s) = Some (Inr st') \<and> walk_ok T sets st'
      \<and> grown (m, au, take ?k s) st' \<and> keys (fst st') = keys (fst (m, au, take ?k s)) \<union> (\<lambda>(e, a, d). a) ` set found"
      by (rule found_rows_ok [OF wf ok0 rows])
    then obtain st' where run: "foldT (found_row (length sets)) found (m, au, take ?k s) = Some (Inr st')" "walk_ok T sets st'"
      "grown (m, au, take ?k s) st'" "keys (fst st') = keys (fst (m, au, take ?k s)) \<union> (\<lambda>(e, a, d). a) ` set found" by blast
    obtain m' au' s1 where st': "st' = (m', au', s1)" by (cases st')
    have G: "keys m \<subseteq> keys m'" "set (take ?k s) \<subseteq> set s1" "keys m' - keys m \<subseteq> snd ` set s1" "keys m' = keys m \<Longrightarrow> s1 = take ?k s"
      using run(3) unfolding st' grown_def by simp_all
    have K: "keys m' = keys m \<union> (\<lambda>(e, a, d). a) ` set found" using run(4) by (simp add: st')
    have auths: "stored_auths T e \<subseteq> keys m'" if "e \<in> set ?chunk" for e
    proof
      fix a assume "a \<in> stored_auths T e"
      then obtain d where "(e, a, d) \<in> set found" using F(1) [of e a] \<open>e \<in> set ?chunk\<close> by blast
      then show "a \<in> keys m'" unfolding K by force
    qed
    have closed': "closed_walk T (m', au', sort s1)"
      unfolding closed_walk_def prod.case set_sort
    proof
      fix e assume e: "e \<in> keys m'"
      show "e \<in> snd ` set s1 \<or> stored_auths T e \<subseteq> keys m'"
      proof (cases "e \<in> keys m")
        case False
        then show ?thesis using e G(3) by blast
      next
        case True
        then have "e \<in> snd ` set s \<or> stored_auths T e \<subseteq> keys m" using closed by (simp add: closed_walk_def)
        then consider "e \<in> snd ` set (take ?k s)" | "e \<in> set ?chunk" | "stored_auths T e \<subseteq> keys m"
          unfolding split by auto
        then show ?thesis using G(1,2) auths by cases blast+
      qed
    qed
    have bound: "keys m' \<subseteq> keys m \<union> snd ` set (ct_auth T)"
    proof
      fix a assume "a \<in> keys m'"
      then consider "a \<in> keys m" | e d where "(e, a, d) \<in> set found" unfolding K by auto
      then show "a \<in> keys m \<union> snd ` set (ct_auth T)"
      proof cases
        case (2 e d)
        then have "a \<in> stored_auths T e" using F(1) [of e a] by blast
        then have "(e, a) \<in> set (ct_auth T)" by (auto simp: stored_auths_def select_auth_def)
        then show ?thesis by force
      qed simp
    qed
    have "length (sort s1) < length s" if "keys m' = keys m" unfolding length_sort G(4) [OF that] using less by simp
    then have "keys m' = keys m \<longrightarrow> length (sort s1) < length s" by (rule impI)
    moreover have "walk_ok T sets (m', au', sort s1)" using run(2) by (simp add: walk_ok_def st')
    moreover have "search_round T depth (length sets) ((m, au, s), c) = Some (Inr (Inr ((m', au', sort s1), c')))"
      using ne go find run(1) by (simp add: search_round_def st')
    ultimately show ?thesis using closed' F(2) G(1) bound by (intro disjI2 exI conjI)
  qed
qed

lemma auth_difference_loop_ok:
  assumes wf: "wf (stored_edges T)" and "walk_ok T sets (m, au, s)" "closed_walk T (m, au, s)" "coherent T c"
    and "finite U" "keys m \<subseteq> U" "snd ` set (ct_auth T) \<subseteq> U"
  shows "\<exists>m' c'. auth_difference_loop T depth (length sets) ((m, au, s), c) = Some (Inr (m', c')) \<and> marks_ok T sets m'
    \<and> coherent T c' \<and> keys m \<subseteq> keys m' \<and> (\<forall>e l. dget m' e = Some l \<longrightarrow> l = [] \<or> stored_auths T e \<subseteq> keys m')"
  using assms(2-4,6)
proof (induction "(card (U - keys m), length s)" arbitrary: m au s c rule: wf_induct_rule [OF wf_lex_prod [OF wf_less_than wf_less_than]])
  case 1
  note loop = auth_difference_loop.simps [of T depth "length sets" "((m, au, s), c)"]
  from search_round_ok [OF wf 1(2,3,4), of depth] show ?case
  proof
    assume stop: "(s = [] \<or> (\<forall>x\<in>set s. dget m (snd x) = Some []))
      \<and> search_round T depth (length sets) ((m, au, s), c) = Some (Inr (Inl (m, c)))"
    have "l = [] \<or> stored_auths T e \<subseteq> keys m" if l: "dget m e = Some l" for e l
    proof -
      have "e \<in> snd ` set s \<or> stored_auths T e \<subseteq> keys m" using 1(3) l by (simp add: closed_walk_def keys_def)
      then show ?thesis using stop l by auto
    qed
    moreover have "marks_ok T sets m" using 1(2) by (simp add: walk_ok_def)
    moreover have "auth_difference_loop T depth (length sets) ((m, au, s), c) = Some (Inr (m, c))"
      unfolding loop using stop by simp
    ultimately show ?thesis using 1(4) by blast
  next
    assume "\<exists>m' au' s' c'. search_round T depth (length sets) ((m, au, s), c) = Some (Inr (Inr ((m', au', s'), c')))
        \<and> walk_ok T sets (m', au', s') \<and> closed_walk T (m', au', s') \<and> coherent T c' \<and> keys m \<subseteq> keys m'
        \<and> keys m' \<subseteq> keys m \<union> snd ` set (ct_auth T) \<and> (keys m' = keys m \<longrightarrow> length s' < length s)"
    then show ?thesis
    proof (elim exE conjE)
    fix m' au' s' c'
    assume round: "search_round T depth (length sets) ((m, au, s), c) = Some (Inr (Inr ((m', au', s'), c')))"
      and ok: "walk_ok T sets (m', au', s')" "closed_walk T (m', au', s')" "coherent T c'"
      and k: "keys m \<subseteq> keys m'" "keys m' \<subseteq> keys m \<union> snd ` set (ct_auth T)" "keys m' = keys m \<longrightarrow> length s' < length s"
    have U: "keys m' \<subseteq> U" using k(2) 1(5) assms(7) by blast
    have "((card (U - keys m'), length s'), (card (U - keys m), length s)) \<in> less_than <*lex*> less_than"
    proof (cases "keys m' = keys m")
      case True
      then show ?thesis using k(3) by simp
    next
      case False
      then have "U - keys m' \<subset> U - keys m" using k(1) U by blast
      then have "card (U - keys m') < card (U - keys m)" using assms(5) by (intro psubset_card_mono) simp_all
      then show ?thesis by simp
    qed
    from 1(1) [OF this ok U] show ?thesis
      unfolding loop round option.case sum.case using k(1) by blast
    qed
  qed
qed

section \<open>The whole difference is found\<close>

lemma initial_walk:
  assumes stored: "\<forall>s\<in>set sets. \<forall>e\<in>set s. dget (ct_state T) e \<noteq> None"
    and initial: "set initial = (\<Union>s\<in>set sets. set s)"
  shows "walk_ok T sets (initial_missing sets initial, [], initial_search T depth initial)"
    and "closed_walk T (initial_missing sets initial, [], initial_search T depth initial)"
    and "keys (initial_missing sets initial) = set initial"
proof -
  have get: "dget (initial_missing sets initial) e
      = (if e \<in> set initial then Some (filter (\<lambda>i. e \<notin> set (sets ! i)) [0..<length sets]) else None)" for e
    unfolding initial_missing_def by (simp add: map_of_map_restrict [of "\<lambda>e. filter (\<lambda>i. e \<notin> set (sets ! i)) [0..<length sets]"] restrict_map_def)
  have self: "e \<in> set_reach T s" if "e \<in> set s" for e s using that by (auto simp: set_reach_def)
  have "marks_ok T sets (initial_missing sets initial)"
    unfolding marks_ok_def get
  proof (intro allI impI)
    fix e m assume "(if e \<in> set initial then Some (filter (\<lambda>i. e \<notin> set (sets ! i)) [0..<length sets]) else None) = Some m"
    then have m: "e \<in> set initial" "m = filter (\<lambda>i. e \<notin> set (sets ! i)) [0..<length sets]" by (simp_all split: if_splits)
    then show "(\<exists>s\<in>set sets. e \<in> set_reach T s) \<and> (\<forall>i<length sets. i \<in> set m \<or> e \<in> set_reach T (sets ! i))"
      using self initial by auto
  qed
  moreover show keys: "keys (initial_missing sets initial) = set initial" by (auto simp: keys_def get)
  moreover have search: "snd ` set (initial_search T depth initial) = set initial"
  proof -
    have mem: "set (concat (batch_iter initial 1000)) = set initial" by (simp add: concat_batch_iter)
    have "set (initial_search T depth initial) = (\<lambda>e. (depth e, e)) ` {e \<in> set (concat (batch_iter initial 1000)). dget (ct_state T) e \<noteq> None}"
      unfolding initial_search_def by auto
    also have "{e \<in> set (concat (batch_iter initial 1000)). dget (ct_state T) e \<noteq> None} = set initial"
      unfolding mem initial using stored by blast
    finally show ?thesis by (simp add: image_image)
  qed
  moreover have "\<forall>x\<in>set (initial_search T depth initial). dget (initial_missing sets initial) (snd x) \<noteq> None"
    using keys search unfolding keys_def by blast
  ultimately show "walk_ok T sets (initial_missing sets initial, [], initial_search T depth initial)"
    "closed_walk T (initial_missing sets initial, [], initial_search T depth initial)"
    unfolding walk_ok_def closed_walk_def auths_ok_def by simp_all
qed

lemma reached_known:
  assumes marks: "marks_ok T sets m" and i: "j < length sets"
    and closed: "\<forall>e l. dget m e = Some l \<longrightarrow> l = [] \<or> stored_auths T e \<subseteq> keys m"
    and e: "e \<in> keys m" and path: "(a, e) \<in> (stored_edges T)\<^sup>*" and out: "a \<notin> set_reach T (sets ! j)"
  shows "\<exists>l. dget m a = Some l \<and> l \<noteq> []"
proof -
  have known: "\<exists>l. dget m b = Some l \<and> l \<noteq> []" if "b \<in> keys m" "b \<notin> set_reach T (sets ! j)" for b
  proof -
    obtain l where l: "dget m b = Some l" using \<open>b \<in> keys m\<close> unfolding keys_def by blast
    have "j \<in> set l" using marks_okD(2) [OF marks l i] that(2) by blast
    then show ?thesis using l by auto
  qed
  have "a \<in> keys m" using path out
  proof (induction rule: converse_rtrancl_induct)
    case base
    then show ?case using e by simp
  next
    case (step a b)
    then have "b \<notin> set_reach T (sets ! j)" using set_reach_below by blast
    then obtain l where "dget m b = Some l" "l \<noteq> []" using known [of b] step.IH by blast
    then show ?case using closed step(1) by (auto simp: stored_edges_def)
  qed
  then show ?thesis using known out by blast
qed

lemma stored_edges_wf:
  assumes "auth_graph_ok A" "index_ok A T"
  shows "wf (stored_edges T)"
proof -
  have "stored_edges T \<subseteq> auth_edges A"
    using rows_okD(1) [of A T] assms(2) by (auto simp: index_ok_def stored_edges_def stored_auths_def auth_edges_def split: if_splits)
  then show ?thesis using assms(1) wf_subset by (auto simp: auth_graph_ok_def)
qed

text \<open>
  C27. The search without the index always ends. It returns every event that is in the auth chain of some but not
  of every state set, and only events of the auth chains.
\<close>

theorem auth_difference_search_covers:
  assumes "auth_graph_ok A" "indexed_tables A T" "coherent T cache" "sets \<noteq> []"
    and "\<forall>s\<in>set sets. \<forall>e\<in>set s. dget (ct_state T) e \<noteq> None"
  shows "\<exists>r cache'. get_auth_chain_difference_txn T depth cache sets = Some (Inr (r, cache'))
    \<and> {a. (\<exists>s\<in>set sets. a \<in> set_reach T s) \<and> \<not> (\<forall>s\<in>set sets. a \<in> set_reach T s)} \<subseteq> set r
    \<and> set r \<subseteq> (\<Union>s\<in>set sets. set_reach T s) \<and> coherent T cache'"
proof -
  have wf: "wf (stored_edges T)" by (rule stored_edges_wf [OF assms(1) indexed_tables_ok [OF assms(1,2)]])
  define initial where "initial = fold (\<lambda>s u. set_union u s) sets []"
  have initial: "set initial = (\<Union>s\<in>set sets. set s)" by (simp add: initial_def set_unions)
  note I = initial_walk(1,2) [OF assms(5) initial, where depth = depth] initial_walk(3) [OF assms(5) initial]
  obtain m c where run: "auth_difference_loop T depth (length sets) ((initial_missing sets initial, [], initial_search T depth initial), cache) = Some (Inr (m, c))"
    and m: "marks_ok T sets m" "coherent T c" "set initial \<subseteq> keys m"
    and closed: "\<forall>e l. dget m e = Some l \<longrightarrow> l = [] \<or> stored_auths T e \<subseteq> keys m"
    using auth_difference_loop_ok [where U = "set initial \<union> snd ` set (ct_auth T)" and depth = depth, OF wf I(1,2) assms(3)] I(3) by auto
  define r where "r = map fst (filter (\<lambda>(_, sets). sets \<noteq> []) m)"
  have "get_auth_chain_difference_txn T depth cache sets = Some (Inr (r, c))"
    unfolding get_auth_chain_difference_txn_def if_not_P [OF assms(4)] Let_def initial_def [symmetric] run by (simp add: r_def)
  moreover have "a \<in> set r" if a: "s \<in> set sets" "a \<in> set_reach T s" "t \<in> set sets" "a \<notin> set_reach T t" for a s t
  proof -
    obtain e where e: "e \<in> set s" "(a, e) \<in> (stored_edges T)\<^sup>*" using a(2) by (auto simp: set_reach_def)
    obtain j where "j < length sets" "a \<notin> set_reach T (sets ! j)" using a(3,4) by (auto simp: in_set_conv_nth)
    moreover have "e \<in> keys m" using e(1) a(1) m(3) initial by auto
    ultimately obtain l where "dget m a = Some l" "l \<noteq> []" using reached_known [OF m(1) _ closed _ e(2)] by blast
    then have "(a, l) \<in> set (filter (\<lambda>(_, sets). sets \<noteq> []) m)" by (simp add: map_of_SomeD)
    then show ?thesis unfolding r_def by force
  qed
  moreover have "a \<in> (\<Union>s\<in>set sets. set_reach T s)" if a: "a \<in> set r" for a
  proof -
    obtain l where "(a, l) \<in> set m" using a by (auto simp: r_def)
    then obtain k where "dget m a = Some k" using weak_map_of_SomeI by fastforce
    then show ?thesis using marks_okD(1) [OF m(1)] by blast
  qed
  ultimately show ?thesis using m(2) by blast
qed

theorem auth_difference_search_covers_witness:
  "\<exists>r cache'. get_auth_chain_difference_txn example_tables (\<lambda>_. 0) [] [[''qqqq''], [''ppp'']] = Some (Inr (r, cache'))
    \<and> {a. (a \<in> set_reach example_tables [''qqqq'']) \<noteq> (a \<in> set_reach example_tables [''ppp''])} \<subseteq> set r \<and> r = [''qqqq'']"
proof -
  have stored: "(dget (ct_state example_tables) ''qqqq'', dget (ct_state example_tables) ''ppp'') = (Some (''power'', ''''), Some (''power'', ''''))"
    by code_simp
  have run: "map_option (map_sum id fst) (get_auth_chain_difference_txn example_tables (\<lambda>_. 0) [] [[''qqqq''], [''ppp'']]) = Some (Inr [''qqqq''])"
    by code_simp
  have "\<forall>s\<in>set [[''qqqq''], [''ppp'']]. \<forall>e\<in>set s. dget (ct_state example_tables) e \<noteq> None"
    using stored by simp
  from auth_difference_search_covers [where cache = "[]" and sets = "[[''qqqq''], [''ppp'']]" and depth = "\<lambda>_. 0", OF example_graph_ok example_indexed _ _ this]
  obtain r cache' where r: "get_auth_chain_difference_txn example_tables (\<lambda>_. 0) [] [[''qqqq''], [''ppp'']] = Some (Inr (r, cache'))"
    "{a. (\<exists>s\<in>set [[''qqqq''], [''ppp'']]. a \<in> set_reach example_tables s) \<and> \<not> (\<forall>s\<in>set [[''qqqq''], [''ppp'']]. a \<in> set_reach example_tables s)} \<subseteq> set r"
    by (auto simp: coherent_def)
  have "{a. (a \<in> set_reach example_tables [''qqqq'']) \<noteq> (a \<in> set_reach example_tables [''ppp''])} \<subseteq> set r"
    using r(2) by auto
  moreover have "r = [''qqqq'']" using run r(1) by simp
  ultimately show ?thesis using r(1) by blast
qed

section \<open>More than the difference\<close>

text \<open>
  The search stops when all events that it is about to walk are reached by every state set. An event that was
  seen earlier and lies in their auth chains is then not marked again: in the example the member event is in
  the auth chains of both state sets, through the power levels that are still to be walked, and is returned.
\<close>

definition early_stop_tables :: chain_tables where
  "early_stop_tables = \<lparr>ct_auth = [(''m'', ''c''), (''pl'', ''c''), (''pl'', ''m''), (''t'', ''c''), (''t'', ''pl'')],
     ct_state = [(''c'', ''create'', ''''), (''m'', ''member'', ''a''), (''pl'', ''power'', ''''), (''t'', ''topic'', '''')],
     ct_chains = [], ct_links = [], ct_to_calculate = []\<rparr>"

lemma early_stop_returns_common_event:
  "get_auth_chain_difference_txn early_stop_tables (\<lambda>_. 0) [] [[''t''], [''t'', ''m'']]
      = Some (Inr ([''m''], [(''m'', [(''c'', 0)]), (''t'', [(''c'', 0), (''pl'', 0)])])) \<and>
   (\<forall>s\<in>set [[''t''], [''t'', ''m'']]. ''m'' \<in> set_reach early_stop_tables s)"
proof
  show "get_auth_chain_difference_txn early_stop_tables (\<lambda>_. 0) [] [[''t''], [''t'', ''m'']]
      = Some (Inr ([''m''], [(''m'', [(''c'', 0)]), (''t'', [(''c'', 0), (''pl'', 0)])]))"
    by code_simp
  have "(''m'', ''pl'') \<in> stored_edges early_stop_tables" "(''pl'', ''t'') \<in> stored_edges early_stop_tables"
    by (simp_all add: stored_edges_def stored_auths_def select_auth_def early_stop_tables_def)
  then have "''m'' \<in> set_reach early_stop_tables [''t'']" unfolding set_reach_def by auto
  then show "\<forall>s\<in>set [[''t''], [''t'', ''m'']]. ''m'' \<in> set_reach early_stop_tables s" unfolding set_reach_def by auto
qed

section \<open>Forward reachability in several batches\<close>

text \<open>
  The conflicted events \<open>B\<close> and \<open>K\<close> of the documentation of \<open>accumulate_forwards_reachable_events\<close>: when the links
  of the third chain come in a later batch than those of the second, the second chain counts as visited, and
  the walk does not go on to the third chain from \<open>B\<close>; with all links in one batch it does.
\<close>

lemma forwards_across_batches:
  "(dget (accumulate_forwards_reachable_events
        (accumulate_forwards_reachable_events [] [(2, [(1, 1, 3)])] [(''B'', (1, 2)), (''K'', (3, 2))])
        [(3, [(1, 2, 2)]), (2, [(1, 1, 3)])] [(''B'', (1, 2)), (''K'', (3, 2))]) 3,
    dget (accumulate_forwards_reachable_events []
        [(3, [(1, 2, 2)]), (2, [(1, 1, 3)])] [(''B'', (1, 2)), (''K'', (3, 2))]) 3) = (Some 2, Some 1)"
  by code_simp

end
