(* ===== verification/Spec2Isabelle.thy ===== *)
theory Spec2Isabelle
  imports Room_Versions Server_Names Identifiers Event_Auth_Props Power_Level_Props Send_Props State_Filter
    Stream_Tokens Topological_Sort State_Res_Props State_Res_Ends Event_Fields Setka_Plus_Props
    Change_Cache_Props Visibility_Props Stream_Writers Presence_Runs Auth_Difference_Search
begin

text \<open>
  A verification library for the Setka matrix engine, a homeserver for Matrix rooms that extends Synapse.
  It models parts of the server as functions of Isabelle/HOL, one definition for each function or loop of
  the Python code, and proves what makes them correct. All paths are relative to \<open>src/\<close>.

  The program. Clients and other servers send events to rooms. An event is checked by the authorisation
  rules (\<open>event_auth.py\<close>) against the state of the room; where the history of the room has branches, the
  state is found by state resolution (\<open>state/v2.py\<close>), which applies the same rules to the events in
  conflict. Events are read from the database with their redactions applied (\<open>events_worker.py\<close>,
  \<open>events/utils.py\<close>), and a user or server gets those that the history visibility allows
  (\<open>visibility.py\<close>). Several processes write to streams of changes; positions in them are handed out and
  tracked by \<open>storage/util/id_generators.py\<close>, travel in the tokens of \<open>types/__init__.py\<close> and are looked up
  in \<open>stream_change_cache.py\<close>. State resolution asks for the auth chain difference of state sets, which the
  database answers from an index that is kept when state events are stored: every event has a place on a
  chain, and links lead between chains (\<open>storage/databases/main/events.py\<close>, \<open>event_federation.py\<close>). Presence is a state machine of users and devices with timers
  (\<open>handlers/presence.py\<close>). Setka adds channels, plans, vouchers and payments (\<open>handlers/setka_*.py\<close>).

  The theories, in the order of their imports:

  \<^item> \<open>Prelude\<close>: Python's exceptions as values (\<open>exn\<close>, \<open>res\<close>), the monads, strings, integers,
    dictionaries (association lists in insertion order) and JSON values. \<open>Py_Float\<close>: floating point
    numbers as far as the code divides and rounds.
  \<^item> \<open>Room_Versions\<close>, \<open>Server_Names\<close>, \<open>Identifiers\<close>: the table of room versions, parsing of server names
    and identifiers.
  \<^item> \<open>Events\<close>: events of every format, with the fields that may be missing or of the wrong type.
    \<open>Setka_Channel_Rules\<close>: what a Setka channel is.
  \<^item> \<open>Event_Auth\<close>, with \<open>Event_Auth_Props\<close>, \<open>Power_Level_Props\<close>, \<open>Send_Props\<close> and the example room
    \<open>Sample_Room\<close>: the rules, who may moderate, that levels cannot be escalated, what the rules read.
  \<^item> \<open>Event_Utils\<close>, \<open>Event_Fields\<close>: redaction and the formats of events. \<open>Event_Store\<close>: events from rows.
  \<^item> \<open>Topological_Sort\<close>, \<open>State_Res_V2\<close>: state resolution. \<open>State_Res_Props\<close>: its result is the agreed state on
    top of checks of the events in conflict in turn (\<open>checks_in_turn\<close>). \<open>State_Res_Termination\<close>, \<open>Auth_Rules_Fuel\<close>
    and \<open>State_Res_Ends\<close>: it ends if auth events are older.
  \<^item> \<open>State_Filter\<close>: filters of room state. \<open>Visibility\<close>, \<open>Visibility_Props\<close>: what clients and servers see.
  \<^item> \<open>Stream_Tokens\<close>; \<open>Stream_Change_Cache\<close>, \<open>Change_Cache_Props\<close>; \<open>Id_Generators\<close>,
    \<open>Id_Generators_Props\<close>, \<open>Stream_Writers\<close>: streams, the last as a transition system of several
    processes with delayed and repeated messages.
  \<^item> \<open>Iter_Utils\<close>: batches and the sort of \<open>util/iterutils.py\<close>. \<open>Chain_Cover\<close>: the chain cover index of state
    events, computed and stored (\<open>_calculate_chain_cover_index\<close>, \<open>_allocate_chain_ids\<close>, \<open>_LinkMap\<close>), with
    \<open>Chain_Cover_Props\<close>, \<open>Chain_Positions\<close>, \<open>Chain_Links\<close>, \<open>Chain_Index\<close> and \<open>Chain_Store\<close>: the tables that storing
    events can reach, in which paths of links are exactly the auth chains, and that storing never fails.
  \<^item> \<open>Auth_Chains\<close>, with \<open>Chain_Walks\<close> and \<open>Auth_Chain_Ids\<close>: \<open>get_auth_chain_ids\<close> from the index and by search,
    and that both give the ancestors. \<open>Auth_Difference\<close>, with \<open>Auth_Difference_Props\<close> and
    \<open>Auth_Difference_Fixup\<close>: \<open>get_auth_chain_difference\<close> from the index, also for events that have no place on
    a chain yet, is the abstract difference of the auth chains. \<open>Auth_Difference_Search\<close>: the search without
    the index, which finds the whole difference but may return more.
  \<^item> \<open>Wheel_Timer\<close>, \<open>Presence\<close>, \<open>Presence_Props\<close>, \<open>Presence_Timeouts\<close>, \<open>Presence_Runs\<close>: presence.
  \<^item> \<open>Setka_Values\<close>, \<open>Setka_Plus\<close>, \<open>Setka_Plus_Props\<close>: vouchers, subscriptions and payments as tables
    with invariants over every reachable state.

  How the code is represented. Objects are records, dictionaries and sets keep their order where it can
  be observed, and sets are lists without duplicates where it cannot. An operation that changes an object
  returns the new one; one that can raise returns \<open>Inl\<close> of the exception. Integers are unbounded as in
  Python. The interfaces between components are locales, interpreted on the models: \<open>sorted_dict\<close> (red-black
  trees for the package sortedcontainers), \<open>instance_ids\<close> (the table of writers), \<open>event_source\<close> and
  \<open>resolution_store\<close> (the event store under state resolution).

  Loops that follow data without a structural bound take fuel: the topological sort takes one more than the
  number of nodes, which \<open>Topological_Sort\<close> proves enough; the loops of state resolution along auth events
  take their fuel as an argument of \<open>resolve_events_with_store\<close>. \<open>State_Res_Ends\<close> proves that more fuel never
  changes an outcome other than the lack of fuel, and that some amount is enough for the whole of resolution
  if the auth events of the given and of the stored events are older; it gives no bound on that amount.
  The walks over chains and links are total functions with their termination proofs. The search for the auth
  chain difference is a partial function, since it would not end on a cycle of auth events;
  \<open>Auth_Difference_Search\<close> proves that it returns a result on auth events without cycles.

  What is assumed of code outside \<open>src/\<close>. The database answers queries as arguments of the definitions, or,
  for the chain cover index, the tables are lists of rows from which the queries are computed; its
  sequences are strictly increasing, and hand out ids of chains that are not in use. Compiled rules (\<open>synapse_rust\<close>), signatures, canonical JSON and
  address parsing are parameters. Times in milliseconds are below \<open>2 ^ 51\<close> where a division of floating
  point numbers must be exact.

  Not modelled: the text of SQL queries, the background updates that index old rooms and the purge of rooms,
  the network, REST parsing, configuration, media, push and mail,
  metrics and logging. Concurrency between coroutines is modelled where it matters (streams); elsewhere an
  operation runs without interruption.
\<close>

end
